(* ===== verification/Prelude.thy ===== *)
theory Prelude
  imports Main "HOL-Library.Sublist" "HOL-Library.List_Lexorder" "HOL-Library.Char_ord"
begin

text \<open>
  The prelude of the development: Python strings, exceptions and the small part of the Python
  standard library the modelled modules use.

  \<^item> A Python \<^verbatim>\<open>str\<close> is a \<open>string\<close>, one \<open>char\<close> for one code point. \<open>char\<close> has 256
    values, so the model covers the strings over the code points U+0000 to U+00FF; every
    operation is exact on them (\<open>py_isspace\<close> lists all of Python's white space in that range).
  \<^item> A Python exception is a value of \<open>exn\<close>: its class, and the data the message interpolates
    where a caller can observe it. The wording of messages is not modelled. A function that
    can raise returns \<open>'a res\<close>, \<open>Inl\<close> being the exception.
  \<^item> Each string operation comes with the laws that the components use: the two round trips
    between \<open>py_split\<close> and \<open>py_join\<close>, what stripping does to prefixes and to members.
\<close>

named_theorems py_simps \<open>evaluation rules for the Python string operations\<close>
named_theorems res_simps \<open>rules for the result type\<close>

section \<open>Exceptions and results\<close>

datatype exn =
    ValueError
  | NamespaceShapeError
  | InvalidURIError string
  | PermissionDeniedError string
  | InvalidArgumentError
  | RuntimeError
  | KeyError
  | IndexError
  | TypeError
  | CircuitBreakerOpen
  | OverflowError
  | TimeoutError
  | ConfigError
  | InvalidMagicError
  | CorruptedCiphertextError
  | AuthenticationFailedError
  | KeyMismatchError
  | StructError
  | OSError
  | AbstractOverviewFormatError
  | AbstractOverviewMetadataError
  | OtherException

type_synonym 'a res = "exn + 'a"

abbreviation Ok :: "'a \<Rightarrow> 'a res" where "Ok \<equiv> Inr"
abbreviation Raise :: "exn \<Rightarrow> 'a res" where "Raise \<equiv> Inl"

text \<open>\<open>NamespaceShapeError\<close> and the two errors of generated summaries derive from \<open>ValueError\<close>:
  \<^verbatim>\<open>except ValueError\<close> catches them.\<close>

fun is_ValueError :: "exn \<Rightarrow> bool" where
  "is_ValueError ValueError = True"
| "is_ValueError NamespaceShapeError = True"
| "is_ValueError AbstractOverviewFormatError = True"
| "is_ValueError AbstractOverviewMetadataError = True"
| "is_ValueError _ = False"

definition res_bind :: "'a res \<Rightarrow> ('a \<Rightarrow> 'b res) \<Rightarrow> 'b res" where
  "res_bind r f = (case r of Inl e \<Rightarrow> Inl e | Inr v \<Rightarrow> f v)"

lemma res_bind_simps [simp, res_simps]:
  "res_bind (Inl e) f = Inl e"
  "res_bind (Inr v) f = f v"
  by (simp_all add: res_bind_def)

lemma res_bind_Ok_iff [res_simps]:
  "res_bind r f = Inr w \<longleftrightarrow> (\<exists>v. r = Inr v \<and> f v = Inr w)"
  by (cases r) simp_all

lemma res_bind_split:
  "P (res_bind r f) \<longleftrightarrow> ((\<forall>e. r = Inl e \<longrightarrow> P (Inl e)) \<and> (\<forall>v. r = Inr v \<longrightarrow> P (f v)))"
  by (cases r) simp_all

text \<open>A comprehension that stops at the first exception, in the order of the list.\<close>

fun res_map :: "('a \<Rightarrow> 'b res) \<Rightarrow> 'a list \<Rightarrow> 'b list res" where
  "res_map f [] = Inr []"
| "res_map f (x # xs) = res_bind (f x) (\<lambda>y. res_bind (res_map f xs) (\<lambda>ys. Inr (y # ys)))"

lemma res_map_Ok_iff:
  "res_map f xs = Inr ys \<longleftrightarrow> list_all2 (\<lambda>x y. f x = Inr y) xs ys"
  by (induction xs arbitrary: ys) (auto simp: res_bind_Ok_iff list_all2_Cons1)

lemma res_map_all_Ok:
  "(\<And>x. x \<in> set xs \<Longrightarrow> f x = Inr (g x)) \<Longrightarrow> res_map f xs = Inr (map g xs)"
  by (induction xs) simp_all

text \<open>A loop \<^verbatim>\<open>for x in xs: acc = f(acc, x)\<close> whose body can raise.\<close>

fun fold_res :: "('b \<Rightarrow> 'a \<Rightarrow> 'b res) \<Rightarrow> 'b \<Rightarrow> 'a list \<Rightarrow> 'b res" where
  "fold_res f acc [] = Inr acc"
| "fold_res f acc (x # xs) = res_bind (f acc x) (\<lambda>acc'. fold_res f acc' xs)"

lemma fold_res_append: "fold_res f acc (xs @ ys) = res_bind (fold_res f acc xs) (\<lambda>a. fold_res f a ys)"
  by (induction xs arbitrary: acc) (auto split: res_bind_split)

fun truthy_opt :: "string option \<Rightarrow> bool" where
  "truthy_opt None = False"
| "truthy_opt (Some s) = (s \<noteq> [])"

section \<open>Strings\<close>

definition py_startswith :: "string \<Rightarrow> string \<Rightarrow> bool" where
  "py_startswith s p \<longleftrightarrow> take (length p) s = p"

lemma py_startswith_iff_prefix: "py_startswith s p \<longleftrightarrow> prefix p s"
proof
  assume "py_startswith s p"
  then have "s = p @ drop (length p) s"
    unfolding py_startswith_def by (metis append_take_drop_id)
  then show "prefix p s" by (rule prefixI)
qed (auto simp: py_startswith_def prefix_def)

lemma py_startswith_append [simp, py_simps]: "py_startswith (p @ s) p"
  by (simp add: py_startswith_def)

lemma py_startswithE:
  assumes "py_startswith s p"
  obtains r where "s = p @ r"
  using assms by (auto simp: py_startswith_iff_prefix prefix_def)

text \<open>\<^verbatim>\<open>s.rstrip(chars)\<close>, \<^verbatim>\<open>s.lstrip(chars)\<close>, \<^verbatim>\<open>s.strip(chars)\<close>, by the predicate of the characters removed.\<close>

definition py_lstrip :: "(char \<Rightarrow> bool) \<Rightarrow> string \<Rightarrow> string" where
  "py_lstrip P s = dropWhile P s"

definition py_rstrip :: "(char \<Rightarrow> bool) \<Rightarrow> string \<Rightarrow> string" where
  "py_rstrip P s = rev (dropWhile P (rev s))"

definition py_strip :: "(char \<Rightarrow> bool) \<Rightarrow> string \<Rightarrow> string" where
  "py_strip P s = py_rstrip P (py_lstrip P s)"

text \<open>\<^verbatim>\<open>str.isspace\<close> on the code points U+0000 to U+00FF.\<close>

definition py_isspace :: "char \<Rightarrow> bool" where
  "py_isspace c \<longleftrightarrow>
     (let n = (of_char c :: nat) in (9 \<le> n \<and> n \<le> 13) \<or> (28 \<le> n \<and> n \<le> 32) \<or> n = 133 \<or> n = 160)"

abbreviation strip_space :: "string \<Rightarrow> string" where
  "strip_space \<equiv> py_strip py_isspace"

abbreviation is_slash :: "char \<Rightarrow> bool" where
  "is_slash \<equiv> \<lambda>c. c = CHR ''/''"

lemma py_rstrip_Nil [simp]: "py_rstrip P [] = []"
  by (simp add: py_rstrip_def)

lemma py_rstrip_snoc [py_simps]:
  "py_rstrip P (s @ [c]) = (if P c then py_rstrip P s else s @ [c])"
  by (simp add: py_rstrip_def)

lemma py_rstrip_decomp: "\<exists>t. s = py_rstrip P s @ t \<and> list_all P t"
proof -
  have "s = rev (dropWhile P (rev s)) @ rev (takeWhile P (rev s))"
    by (metis rev_append rev_rev_ident takeWhile_dropWhile_id)
  moreover have "list_all P (rev (takeWhile P (rev s)))"
    by (auto simp: list_all_iff dest: set_takeWhileD)
  ultimately show ?thesis unfolding py_rstrip_def by blast
qed

lemma py_rstrip_last: "py_rstrip P s \<noteq> [] \<Longrightarrow> \<not> P (last (py_rstrip P s))"
  unfolding py_rstrip_def by (metis hd_dropWhile last_rev rev_is_Nil_conv)

lemma py_rstrip_id: "s = [] \<or> \<not> P (last s) \<Longrightarrow> py_rstrip P s = s"
  by (cases s rule: rev_cases) (auto simp: py_rstrip_snoc)

lemma py_rstrip_idem [simp]: "py_rstrip P (py_rstrip P s) = py_rstrip P s"
  using py_rstrip_last by (intro py_rstrip_id) blast

lemma py_rstrip_append_stop:
  "\<not> P c \<Longrightarrow> py_rstrip P (s @ c # t) = s @ c # py_rstrip P t"
  by (induction t rule: rev_induct) (auto simp: py_rstrip_snoc py_rstrip_def)

lemma py_rstrip_append:
  "py_rstrip P t \<noteq> [] \<Longrightarrow> py_rstrip P (s @ t) = s @ py_rstrip P t"
  unfolding py_rstrip_def by (auto simp: dropWhile_append dropWhile_eq_Nil_conv)

lemma py_rstrip_Nil_iff: "py_rstrip P s = [] \<longleftrightarrow> list_all P s"
  by (auto simp: py_rstrip_def dropWhile_eq_Nil_conv list_all_iff)

lemma py_rstrip_append_all: "list_all P t \<Longrightarrow> py_rstrip P (s @ t) = py_rstrip P s"
  by (induction t rule: rev_induct) (auto simp: py_rstrip_snoc simp flip: append_assoc)

lemma set_py_rstrip: "set (py_rstrip P s) \<subseteq> set s"
  by (metis py_rstrip_decomp set_append Un_upper1)

lemma set_py_lstrip: "set (py_lstrip P s) \<subseteq> set s"
  by (auto simp: py_lstrip_def dest: set_dropWhileD)

lemma set_py_strip: "set (py_strip P s) \<subseteq> set s"
  unfolding py_strip_def using set_py_rstrip set_py_lstrip by fastforce

lemma length_py_rstrip_le: "length (py_rstrip P s) \<le> length s"
  by (simp add: py_rstrip_def) (metis length_dropWhile_le length_rev)

lemma py_strip_last: "py_strip P s \<noteq> [] \<Longrightarrow> \<not> P (last (py_strip P s))"
  by (simp add: py_strip_def py_rstrip_last)

lemma py_strip_hd: "py_strip P s \<noteq> [] \<Longrightarrow> \<not> P (hd (py_strip P s))"
proof -
  assume ne: "py_strip P s \<noteq> []"
  obtain t where t: "py_lstrip P s = py_strip P s @ t"
    using py_rstrip_decomp [of "py_lstrip P s" P] by (auto simp: py_strip_def)
  with ne have "dropWhile P s \<noteq> []" and "hd (dropWhile P s) = hd (py_strip P s)"
    by (auto simp: py_lstrip_def)
  then show ?thesis by (metis hd_dropWhile)
qed

lemma py_strip_id: "s = [] \<or> (\<not> P (hd s) \<and> \<not> P (last s)) \<Longrightarrow> py_strip P s = s"
proof -
  assume "s = [] \<or> (\<not> P (hd s) \<and> \<not> P (last s))"
  moreover from this have "py_lstrip P s = s"
    unfolding py_lstrip_def by (cases s) auto
  ultimately show ?thesis unfolding py_strip_def by (metis py_rstrip_id)
qed

lemma py_strip_idem [simp]: "py_strip P (py_strip P s) = py_strip P s"
  using py_strip_hd py_strip_last by (intro py_strip_id) blast

text \<open>\<^verbatim>\<open>s.split(c)\<close> and \<^verbatim>\<open>c.join(parts)\<close>.\<close>

fun py_split :: "char \<Rightarrow> string \<Rightarrow> string list" where
  "py_split c [] = [[]]"
| "py_split c (x # xs) =
     (if x = c then [] # py_split c xs
      else (case py_split c xs of [] \<Rightarrow> [[x]] | p # ps \<Rightarrow> (x # p) # ps))"

fun py_join :: "string \<Rightarrow> string list \<Rightarrow> string" where
  "py_join sep [] = []"
| "py_join sep [p] = p"
| "py_join sep (p # q # ps) = p @ sep @ py_join sep (q # ps)"

lemma py_split_nonempty [simp]: "py_split c s \<noteq> []"
  by (induction s) (auto split: list.splits)

lemma py_split_parts: "p \<in> set (py_split c s) \<Longrightarrow> c \<notin> set p"
  by (induction s arbitrary: p) (auto split: list.splits if_splits)

lemma py_split_chars: "p \<in> set (py_split c s) \<Longrightarrow> set p \<subseteq> set s"
proof (induction s arbitrary: p)
  case (Cons x s)
  then show ?case
    by (cases "py_split c s") (auto split: if_splits, blast+)
qed simp

lemma py_join_Cons: "ps \<noteq> [] \<Longrightarrow> py_join sep (p # ps) = p @ sep @ py_join sep ps"
  by (cases ps) simp_all

lemma py_join_Cons_Cons: "py_join sep ((x # p) # ps) = x # py_join sep (p # ps)"
  by (cases ps) simp_all

lemma py_join_split [simp]: "py_join [c] (py_split c s) = s"
  by (induction s) (auto simp: py_join_Cons py_join_Cons_Cons split: list.splits)

lemma py_split_no_sep: "c \<notin> set p \<Longrightarrow> py_split c p = [p]"
  by (induction p) auto

lemma py_split_append_sep: "c \<notin> set p \<Longrightarrow> py_split c (p @ c # s) = p # py_split c s"
  by (induction p) auto

lemma py_split_join:
  "ps \<noteq> [] \<Longrightarrow> (\<And>p. p \<in> set ps \<Longrightarrow> c \<notin> set p) \<Longrightarrow> py_split c (py_join [c] ps) = ps"
proof (induction ps)
  case (Cons p ps)
  then show ?case
    by (cases ps) (auto simp: py_split_no_sep py_split_append_sep)
qed simp

lemma py_join_append:
  "ps \<noteq> [] \<Longrightarrow> qs \<noteq> [] \<Longrightarrow> py_join sep (ps @ qs) = py_join sep ps @ sep @ py_join sep qs"
proof (induction ps)
  case (Cons p ps)
  then show ?case by (cases ps) (auto simp: py_join_Cons)
qed simp

lemma set_py_join: "set (py_join sep ps) \<subseteq> (\<Union>p\<in>set ps. set p) \<union> set sep"
proof (induction ps)
  case (Cons p ps)
  then show ?case by (cases ps) auto
qed simp

lemma hd_py_split: "hd (py_split c s) = takeWhile (\<lambda>x. x \<noteq> c) s"
  by (induction s) (auto split: list.splits)

text \<open>\<^verbatim>\<open>s.split(c, 1)[0]\<close> and \<^verbatim>\<open>s.partition(c)\<close> for a one-character separator.\<close>

definition py_before :: "char \<Rightarrow> string \<Rightarrow> string" where
  "py_before c s = takeWhile (\<lambda>x. x \<noteq> c) s"

definition py_partition :: "char \<Rightarrow> string \<Rightarrow> string \<times> bool \<times> string" where
  "py_partition c s =
     (let h = py_before c s; t = drop (length h) s
      in case t of [] \<Rightarrow> (h, False, []) | _ # r \<Rightarrow> (h, True, r))"

lemma py_before_no_sep [simp]: "c \<notin> set (py_before c s)"
  by (auto simp: py_before_def dest: set_takeWhileD)

lemma py_before_id: "c \<notin> set s \<Longrightarrow> py_before c s = s"
  by (auto simp: py_before_def takeWhile_eq_all_conv)

lemma py_before_append_sep: "c \<notin> set p \<Longrightarrow> py_before c (p @ c # s) = p"
  by (induction p) (auto simp: py_before_def)

lemma py_partition_append_sep [simp]:
  "c \<notin> set p \<Longrightarrow> py_partition c (p @ c # s) = (p, True, s)"
  by (simp add: py_partition_def py_before_append_sep)

lemma py_partition_no_sep: "c \<notin> set s \<Longrightarrow> py_partition c s = (s, False, [])"
  by (simp add: py_partition_def py_before_id)

lemma py_partition_True:
  "py_partition c s = (h, True, r) \<Longrightarrow> s = h @ c # r \<and> c \<notin> set h"
proof (cases "c \<in> set s")
  case True
  then obtain p q where "s = p @ c # q" and "c \<notin> set p"
    by (meson split_list_first)
  moreover assume "py_partition c s = (h, True, r)"
  ultimately show ?thesis by simp
qed (simp add: py_partition_no_sep)

lemma py_partition_False:
  "py_partition c s = (h, False, r) \<Longrightarrow> h = s \<and> c \<notin> set s"
proof -
  assume a: "py_partition c s = (h, False, r)"
  have "c \<notin> set s"
  proof
    assume "c \<in> set s"
    then obtain p q where "s = p @ c # q" and "c \<notin> set p"
      by (meson split_list_first)
    with a show False by simp
  qed
  with a show ?thesis by (simp add: py_partition_no_sep)
qed

text \<open>\<^verbatim>\<open>s.find(sub)\<close> and \<^verbatim>\<open>s.rfind(c)\<close>: an index, or \<open>None\<close> for \<open>-1\<close>.\<close>

fun py_find :: "string \<Rightarrow> string \<Rightarrow> nat option" where
  "py_find sub s =
     (if py_startswith s sub then Some 0
      else (case s of [] \<Rightarrow> None | _ # t \<Rightarrow> map_option Suc (py_find sub t)))"

declare py_find.simps [simp del]

fun py_rfind :: "char \<Rightarrow> string \<Rightarrow> nat option" where
  "py_rfind c [] = None"
| "py_rfind c (x # s) =
     (case py_rfind c s of Some i \<Rightarrow> Some (Suc i) | None \<Rightarrow> if x = c then Some 0 else None)"

lemma py_rfind_None_iff: "py_rfind c s = None \<longleftrightarrow> c \<notin> set s"
  by (induction s) (auto split: option.splits)

lemma py_rfind_append_sep: "c \<notin> set t \<Longrightarrow> py_rfind c (s @ c # t) = Some (length s)"
proof (induction s)
  case Nil
  then have "py_rfind c t = None" by (simp add: py_rfind_None_iff)
  then show ?case by simp
qed simp

text \<open>ASCII upper-casing. It is used only to compare with ASCII device names, and no character
  outside ASCII upper-cases to a character of those names.\<close>

definition ascii_lower :: "char \<Rightarrow> bool" where
  "ascii_lower c \<longleftrightarrow> (let n = (of_char c :: nat) in 97 \<le> n \<and> n \<le> 122)"

definition ascii_alnum :: "char \<Rightarrow> bool" where
  "ascii_alnum c \<longleftrightarrow>
     (let n = (of_char c :: nat) in (48 \<le> n \<and> n \<le> 57) \<or> (65 \<le> n \<and> n \<le> 90) \<or> (97 \<le> n \<and> n \<le> 122))"

definition py_upper :: "string \<Rightarrow> string" where
  "py_upper s = map (\<lambda>c. if ascii_lower c then char_of (of_char c - (32 :: nat)) else c) s"

definition py_lower :: "string \<Rightarrow> string" where
  "py_lower s = map (\<lambda>c. let n = (of_char c :: nat) in if 65 \<le> n \<and> n \<le> 90 then char_of (n + 32) else c) s"

section \<open>Dictionaries\<close>

text \<open>\<^verbatim>\<open>d[k] = v\<close> on a dictionary in insertion order: a key keeps its place.\<close>

fun dict_set :: "('k \<times> 'v) list \<Rightarrow> 'k \<Rightarrow> 'v \<Rightarrow> ('k \<times> 'v) list" where
  "dict_set [] k v = [(k, v)]"
| "dict_set ((k', v') # d) k v = (if k' = k then (k, v) # d else (k', v') # dict_set d k v)"

lemma set_dict_set: "set (dict_set d k v) \<subseteq> insert (k, v) (set d)"
  by (induction d k v rule: dict_set.induct) auto

lemma dict_set_keys: "fst ` set (dict_set d k v) = insert k (fst ` set d)"
  by (induction d k v rule: dict_set.induct) auto

lemma dict_set_distinct: "distinct (map fst d) \<Longrightarrow> distinct (map fst (dict_set d k v))"
  by (induction d k v rule: dict_set.induct) (auto simp: dict_set_keys)

lemma map_of_dict_set: "map_of (dict_set d k v) = (map_of d)(k \<mapsto> v)"
  by (induction d k v rule: dict_set.induct) auto

section \<open>Guarded machines\<close>

text \<open>
  A component whose operations are atomic steps on its state. \<open>enabled\<close> is what the callers owe an
  operation; the laws are that every enabled step keeps the invariant, and the client's lemma is
  that any sequence of enabled steps does.
\<close>

fun run_enabled :: "('s \<Rightarrow> 'a \<Rightarrow> 's) \<Rightarrow> ('s \<Rightarrow> 'a \<Rightarrow> bool) \<Rightarrow> 's \<Rightarrow> 'a list \<Rightarrow> bool" where
  "run_enabled step enabled s [] = True"
| "run_enabled step enabled s (a # as) = (enabled s a \<and> run_enabled step enabled (step s a) as)"

locale guarded_machine =
  fixes step :: "'s \<Rightarrow> 'a \<Rightarrow> 's"
    and enabled :: "'s \<Rightarrow> 'a \<Rightarrow> bool"
    and inv :: "'s \<Rightarrow> bool"
  assumes inv_step: "inv s \<Longrightarrow> enabled s a \<Longrightarrow> inv (step s a)"
begin

lemma inv_run: "inv s \<Longrightarrow> run_enabled step enabled s as \<Longrightarrow> inv (foldl step s as)"
  by (induction as arbitrary: s) (auto intro: inv_step)

end

end
