(* ===== verification/Uri.thy ===== *)
theory Uri
  imports Prelude
begin

text \<open>
  \<^verbatim>\<open>openviking_cli/utils/uri.py\<close>: the class \<^verbatim>\<open>VikingURI\<close>. A URI object is the record
  \<open>viking_uri\<close> (the string and the dictionary \<^verbatim>\<open>_parsed\<close>); the constructor is the function
  \<open>VikingURI\<close>, which raises \<open>ValueError\<close> where \<^verbatim>\<open>_parse\<close> does. The lemmas: which strings parse,
  that \<open>uri_parent\<close> and \<open>uri_join\<close> stay inside the valid URIs and undo each other, and
  what \<open>sanitize_segment\<close> guarantees of a path segment.
\<close>

section \<open>Scopes\<close>

definition SCHEME :: string where
  "SCHEME = ''viking''"

text \<open>\<^verbatim>\<open>f"{SCHEME}://"\<close>, and the literal \<^verbatim>\<open>"viking://"\<close> of the other modules.\<close>

definition scheme_prefix :: string where
  "scheme_prefix = SCHEME @ ''://''"

definition LISTABLE_SCOPES :: "string set" where
  "LISTABLE_SCOPES = {''resources'', ''user'', ''agent''}"

definition PUBLIC_SCOPES :: "string set" where
  "PUBLIC_SCOPES = LISTABLE_SCOPES"

definition LEGACY_SCOPES :: "string set" where
  "LEGACY_SCOPES = {''session''}"

definition INTERNAL_SCOPES :: "string set" where
  "INTERNAL_SCOPES = {''temp'', ''queue'', ''upload''}"

definition ALIAS_SCOPES :: "string set" where
  "ALIAS_SCOPES = {''~''}"

definition VISITABLE_SCOPES :: "string set" where
  "VISITABLE_SCOPES = PUBLIC_SCOPES \<union> LEGACY_SCOPES \<union> INTERNAL_SCOPES \<union> ALIAS_SCOPES"

lemmas scope_defs =
  LISTABLE_SCOPES_def PUBLIC_SCOPES_def LEGACY_SCOPES_def INTERNAL_SCOPES_def ALIAS_SCOPES_def
  VISITABLE_SCOPES_def

section \<open>Parsing\<close>

record parsed_uri =
  pu_scheme :: string
  pu_scope :: string
  pu_full_path :: string

record viking_uri =
  vu_uri :: string
  vu_parsed :: parsed_uri

definition uri_parse :: "string \<Rightarrow> parsed_uri res" where
  "uri_parse uri =
     (if \<not> py_startswith uri scheme_prefix then Raise ValueError
      else
        let path = drop (length scheme_prefix) uri in
        if py_strip is_slash path = [] then
          Ok \<lparr>pu_scheme = SCHEME, pu_scope = [], pu_full_path = []\<rparr>
        else
          let scope = hd (py_split (CHR ''/'') path) in
          if scope \<notin> VISITABLE_SCOPES then Raise ValueError
          else Ok \<lparr>pu_scheme = SCHEME, pu_scope = scope, pu_full_path = path\<rparr>)"

definition VikingURI :: "string \<Rightarrow> viking_uri res" where
  "VikingURI uri = res_bind (uri_parse uri) (\<lambda>p. Ok \<lparr>vu_uri = uri, vu_parsed = p\<rparr>)"

definition vu_scope :: "viking_uri \<Rightarrow> string" where
  "vu_scope self = pu_scope (vu_parsed self)"

definition vu_full_path :: "viking_uri \<Rightarrow> string" where
  "vu_full_path self = pu_full_path (vu_parsed self)"

definition resource_name :: "viking_uri \<Rightarrow> string option" where
  "resource_name self =
     (if vu_scope self \<noteq> ''resources'' then None
      else
        let parts = py_split (CHR ''/'') (vu_full_path self) in
        if length parts > 1 then Some (parts ! 1) else None)"

definition matches_prefix :: "viking_uri \<Rightarrow> string \<Rightarrow> bool" where
  "matches_prefix self p = py_startswith (vu_uri self) p"

definition uri_parent :: "viking_uri \<Rightarrow> viking_uri option res" where
  "uri_parent self =
     (let uri = py_rstrip is_slash (vu_uri self) in
      case py_find ''://'' uri of
        None \<Rightarrow> Ok None
      | Some scheme_end \<Rightarrow>
          let after_scheme = drop (scheme_end + length ''://'') uri in
          if CHR ''/'' \<notin> set after_scheme then
            (if after_scheme \<noteq> [] then res_bind (VikingURI scheme_prefix) (\<lambda>v. Ok (Some v))
             else Ok None)
          else
            (case py_rfind (CHR ''/'') uri of
               Some last_slash \<Rightarrow> res_bind (VikingURI (take last_slash uri)) (\<lambda>v. Ok (Some v))
             | None \<Rightarrow> Ok None))"

definition is_valid :: "string \<Rightarrow> bool" where
  "is_valid uri = (case VikingURI uri of Inr _ \<Rightarrow> True | Inl _ \<Rightarrow> False)"

definition uri_join :: "viking_uri \<Rightarrow> string \<Rightarrow> viking_uri res" where
  "uri_join self part =
     (let part = py_strip is_slash part in
      if part = [] then Ok self
      else
        let full = py_rstrip is_slash (vu_full_path self) in
        if full \<noteq> [] then VikingURI (scheme_prefix @ full @ ''/'' @ part)
        else VikingURI (scheme_prefix @ part))"

definition uri_build :: "string \<Rightarrow> string list \<Rightarrow> string res" where
  "uri_build scope path_parts =
     (if scope \<notin> VISITABLE_SCOPES \<or> scope \<in> ALIAS_SCOPES then Raise ValueError
      else
        let parts = filter (\<lambda>p. p \<noteq> []) (scope # path_parts)
        in Ok (scheme_prefix @ py_join ''/'' parts))"

section \<open>Path segments\<close>

definition WINDOWS_RESERVED_STEMS :: "string set" where
  "WINDOWS_RESERVED_STEMS =
     {''CON'', ''PRN'', ''AUX'', ''NUL'',
      ''COM1'', ''COM2'', ''COM3'', ''COM4'', ''COM5'', ''COM6'', ''COM7'', ''COM8'', ''COM9'',
      ''LPT1'', ''LPT2'', ''LPT3'', ''LPT4'', ''LPT5'', ''LPT6'', ''LPT7'', ''LPT8'', ''LPT9''}"

definition windows_reserved_stem :: "string \<Rightarrow> string" where
  "windows_reserved_stem segment =
     py_upper (py_rstrip (\<lambda>c. c = CHR '' '' \<or> c = CHR ''.'') (py_before (CHR ''.'') segment))"

text \<open>The character class kept by \<^verbatim>\<open>sanitize_segment\<close>, on U+0000 to U+00FF: the ASCII word
  characters, \<^verbatim>\<open>-\<close>, \<^verbatim>\<open>.\<close> and the whole range \<^verbatim>\<open>\u0080-\u02af\<close>.\<close>

definition segment_char :: "char \<Rightarrow> bool" where
  "segment_char c \<longleftrightarrow>
     ascii_alnum c \<or> c = CHR ''_'' \<or> c = CHR ''-'' \<or> c = CHR ''.'' \<or> (of_char c :: nat) \<ge> 128"

fun merge_underscores :: "string \<Rightarrow> string" where
  "merge_underscores [] = []"
| "merge_underscores [c] = [c]"
| "merge_underscores (c # d # s) =
     (if c = CHR ''_'' \<and> d = CHR ''_'' then merge_underscores (d # s)
      else c # merge_underscores (d # s))"

definition sanitize_segment :: "string \<Rightarrow> string" where
  "sanitize_segment text =
     (let safe = map (\<lambda>c. if segment_char c then c else CHR ''_'') text;
          safe = merge_underscores safe;
          safe = take 50 (py_strip (\<lambda>c. c = CHR ''_'' \<or> c = CHR ''.'') safe);
          safe = (if windows_reserved_stem safe \<in> WINDOWS_RESERVED_STEMS then ''_'' @ safe else safe)
      in if safe = [] then ''unnamed'' else safe)"

definition build_semantic_uri :: "string \<Rightarrow> string \<Rightarrow> string option \<Rightarrow> bool \<Rightarrow> string res" where
  "build_semantic_uri parent_uri semantic_name node_id is_leaf =
     (let safe_name = sanitize_segment semantic_name in
      if \<not> is_leaf then Ok (parent_uri @ ''/'' @ safe_name)
      else if \<not> truthy_opt node_id then Raise ValueError
      else Ok (parent_uri @ ''/'' @ safe_name @ ''/'' @ the node_id))"

text \<open>The clock (\<^verbatim>\<open>%m%d%H%M\<close>) and the six hexadecimal digits of the UUID are arguments.\<close>

definition create_temp_uri :: "string \<Rightarrow> string \<Rightarrow> string option \<Rightarrow> string" where
  "create_temp_uri now_fmt temp_id space =
     (let temp_leaf = now_fmt @ ''_'' @ temp_id in
      if truthy_opt space then ''viking://temp/'' @ the space @ ''/'' @ temp_leaf
      else ''viking://temp/'' @ temp_leaf)"

section \<open>Which strings parse\<close>

lemma scheme_prefix_eq: "scheme_prefix = ''viking://''"
  by (simp add: scheme_prefix_def SCHEME_def)

lemma length_scheme_prefix [simp]: "length scheme_prefix = 9"
  by (simp add: scheme_prefix_eq)

lemma scheme_prefix_not_Nil [simp]: "scheme_prefix \<noteq> []"
  by (simp add: scheme_prefix_eq)

definition path_scope :: "string \<Rightarrow> string" where
  "path_scope path = takeWhile (\<lambda>c. c \<noteq> CHR ''/'') path"

text \<open>The paths behind the scheme that \<^verbatim>\<open>_parse\<close> accepts.\<close>

definition path_ok :: "string \<Rightarrow> bool" where
  "path_ok path \<longleftrightarrow> list_all is_slash path \<or> path_scope path \<in> VISITABLE_SCOPES"

lemma py_strip_Nil_iff: "py_strip P s = [] \<longleftrightarrow> list_all P s"
proof (cases "dropWhile P s")
  case Nil
  then have "list_all P s" by (simp add: dropWhile_eq_Nil_conv list_all_iff)
  then show ?thesis unfolding py_strip_def py_lstrip_def Nil by simp
next
  case (Cons c t)
  then have "\<not> P c" and "c \<in> set s"
    by (metis hd_dropWhile list.distinct(1) list.sel(1), metis list.set_intros(1) set_dropWhileD)
  with Cons show ?thesis
    by (auto simp: py_strip_def py_lstrip_def py_rstrip_Nil_iff list_all_iff)
qed

lemma uri_parse_path:
  "uri_parse (scheme_prefix @ path) =
     (if list_all is_slash path then
        Ok \<lparr>pu_scheme = ''viking'', pu_scope = [], pu_full_path = []\<rparr>
      else if path_scope path \<in> VISITABLE_SCOPES then
        Ok \<lparr>pu_scheme = ''viking'', pu_scope = path_scope path, pu_full_path = path\<rparr>
      else Raise ValueError)"
  by (simp add: uri_parse_def SCHEME_def py_strip_Nil_iff hd_py_split path_scope_def)

lemma VikingURI_Ok_iff:
  "VikingURI u = Ok v \<longleftrightarrow>
     (\<exists>path. u = scheme_prefix @ path \<and> path_ok path \<and>
        v = \<lparr>vu_uri = u, vu_parsed =
              \<lparr>pu_scheme = ''viking'',
               pu_scope = (if list_all is_slash path then [] else path_scope path),
               pu_full_path = (if list_all is_slash path then [] else path)\<rparr>\<rparr>)"
proof (cases "py_startswith u scheme_prefix")
  case True
  then obtain path where u: "u = scheme_prefix @ path" by (rule py_startswithE)
  show ?thesis
    unfolding u VikingURI_def uri_parse_path by (simp add: path_ok_def) blast
next
  case False
  then show ?thesis
    by (auto simp: VikingURI_def uri_parse_def)
qed

lemma VikingURI_path: "path_ok path \<Longrightarrow> \<exists>v. VikingURI (scheme_prefix @ path) = Ok v"
  using VikingURI_Ok_iff by blast

lemma VikingURI_uri: "VikingURI u = Ok v \<Longrightarrow> vu_uri v = u"
  by (auto simp: VikingURI_Ok_iff)

lemma VikingURI_error: "VikingURI u = Raise e \<Longrightarrow> e = ValueError"
  by (auto simp: VikingURI_def uri_parse_def Let_def split: if_splits)

lemma is_valid_iff: "is_valid u \<longleftrightarrow> (\<exists>path. u = scheme_prefix @ path \<and> path_ok path)"
proof -
  have "is_valid u \<longleftrightarrow> (\<exists>v. VikingURI u = Ok v)"
    by (auto simp: is_valid_def split: sum.splits)
  then show ?thesis by (simp add: VikingURI_Ok_iff)
qed

lemma slash_not_in_scope: "s \<in> VISITABLE_SCOPES \<Longrightarrow> CHR ''/'' \<notin> set s \<and> s \<noteq> []"
  by (auto simp: scope_defs)

section \<open>Parents and joins\<close>

lemma path_scope_append_slash:
  "CHR ''/'' \<notin> set a \<Longrightarrow> path_scope (a @ CHR ''/'' # b) = a"
  by (induction a) (auto simp: path_scope_def)

lemma path_scope_no_slash: "CHR ''/'' \<notin> set a \<Longrightarrow> path_scope a = a"
  by (auto simp: path_scope_def takeWhile_eq_all_conv)

lemma path_scope_append:
  "CHR ''/'' \<in> set a \<Longrightarrow> path_scope (a @ b) = path_scope a"
  by (auto simp: path_scope_def intro: takeWhile_append1)

lemma path_split_first:
  assumes "CHR ''/'' \<in> set path"
  obtains a b where "path = a @ CHR ''/'' # b" "CHR ''/'' \<notin> set a" "path_scope path = a"
  using assms path_scope_append_slash by (metis split_list_first)

lemma py_find_scheme [simp]: "py_find ''://'' (scheme_prefix @ s) = Some 6"
  by (simp add: py_find.simps py_startswith_def scheme_prefix_eq)

lemma py_find_scheme_colon [simp]: "py_find ''://'' ''viking:'' = None"
  by (simp add: py_find.simps py_startswith_def)

lemma rstrip_scheme_root: "list_all is_slash p \<Longrightarrow> py_rstrip is_slash (scheme_prefix @ p) = ''viking:''"
  by (simp add: py_rstrip_append_all) (simp add: scheme_prefix_eq py_rstrip_def)

lemma rstrip_scheme_path:
  "\<not> list_all is_slash p \<Longrightarrow> py_rstrip is_slash (scheme_prefix @ p) = scheme_prefix @ py_rstrip is_slash p"
  by (rule py_rstrip_append) (simp add: py_rstrip_Nil_iff)

lemma path_scope_rstrip:
  assumes "path_scope p \<noteq> []"
  shows "path_scope (py_rstrip is_slash p) = path_scope p"
proof -
  obtain t where t: "p = py_rstrip is_slash p @ t" "list_all is_slash t"
    using py_rstrip_decomp by blast
  show ?thesis
  proof (cases t)
    case Nil
    with t show ?thesis by simp
  next
    case (Cons c t')
    with t have c: "c = CHR ''/''" by simp
    show ?thesis
    proof (cases "CHR ''/'' \<in> set (py_rstrip is_slash p)")
      case True
      then show ?thesis using path_scope_append t(1) by metis
    next
      case False
      then show ?thesis
        using path_scope_append_slash path_scope_no_slash t(1) Cons c by metis
    qed
  qed
qed

lemma uri_parent_root:
  assumes "VikingURI u = Ok v" and "u = scheme_prefix @ p" and "list_all is_slash p"
  shows "uri_parent v = Ok None"
  using assms by (simp add: uri_parent_def VikingURI_uri rstrip_scheme_root)

lemma VikingURI_root [simp]:
  "VikingURI scheme_prefix = Ok \<lparr>vu_uri = scheme_prefix, vu_parsed =
     \<lparr>pu_scheme = ''viking'', pu_scope = [], pu_full_path = []\<rparr>\<rparr>"
  using uri_parse_path [of "[]"] by (simp add: VikingURI_def)

lemma uri_parent_scope:
  assumes "VikingURI u = Ok v" and "u = scheme_prefix @ p" and "\<not> list_all is_slash p"
    and "CHR ''/'' \<notin> set (py_rstrip is_slash p)"
  shows "\<exists>w. uri_parent v = Ok (Some w) \<and> vu_uri w = scheme_prefix \<and> VikingURI scheme_prefix = Ok w"
proof -
  have "py_rstrip is_slash p \<noteq> []" using assms(3) by (simp add: py_rstrip_Nil_iff)
  then show ?thesis
    using assms
    by (simp add: uri_parent_def VikingURI_uri rstrip_scheme_path)
qed

lemma uri_parent_path:
  assumes "VikingURI u = Ok v" and "u = scheme_prefix @ p"
    and "py_rstrip is_slash p = a @ CHR ''/'' # b" and "CHR ''/'' \<notin> set b"
  shows "\<exists>w. uri_parent v = Ok (Some w) \<and> vu_uri w = scheme_prefix @ a \<and>
             VikingURI (scheme_prefix @ a) = Ok w"
proof -
  have nall: "\<not> list_all is_slash p"
    using assms(3) py_rstrip_Nil_iff [of is_slash p] by simp
  have ok: "path_ok p" using assms(1,2) by (auto simp: VikingURI_Ok_iff)
  with nall have sc: "path_scope p \<in> VISITABLE_SCOPES" by (simp add: path_ok_def)
  then have "path_scope (a @ CHR ''/'' # b) \<in> VISITABLE_SCOPES"
    using path_scope_rstrip [of p] slash_not_in_scope assms(3) by metis
  moreover have "path_scope (a @ CHR ''/'' # b) = path_scope a"
    by (cases "CHR ''/'' \<in> set a")
       (simp_all add: path_scope_append path_scope_append_slash path_scope_no_slash)
  ultimately have "path_ok a" by (simp add: path_ok_def)
  then obtain w where w: "VikingURI (scheme_prefix @ a) = Ok w"
    using VikingURI_path by blast
  have "py_rfind (CHR ''/'') ((scheme_prefix @ a) @ CHR ''/'' # b) = Some (length (scheme_prefix @ a))"
    using assms(4) by (rule py_rfind_append_sep)
  then have rf: "py_rfind (CHR ''/'') (scheme_prefix @ a @ CHR ''/'' # b) = Some (length (scheme_prefix @ a))"
    by simp
  have rs: "py_rstrip is_slash (vu_uri v) = scheme_prefix @ a @ CHR ''/'' # b"
    using assms(1-3) rstrip_scheme_path [OF nall] by (simp add: VikingURI_uri)
  have "uri_parent v = Ok (Some w)"
    unfolding uri_parent_def rs Let_def py_find_scheme rf using w by simp
  with w show ?thesis by (auto dest: VikingURI_uri)
qed

lemma uri_parent_total:
  assumes "VikingURI u = Ok v"
  shows "uri_parent v = Ok None \<or>
         (\<exists>w. uri_parent v = Ok (Some w) \<and> VikingURI (vu_uri w) = Ok w \<and>
              length (vu_uri w) < length u)"
proof -
  obtain p where u: "u = scheme_prefix @ p" and ok: "path_ok p"
    using assms by (auto simp: VikingURI_Ok_iff)
  consider (root) "list_all is_slash p"
    | (scope) "\<not> list_all is_slash p" "CHR ''/'' \<notin> set (py_rstrip is_slash p)"
    | (path) "CHR ''/'' \<in> set (py_rstrip is_slash p)"
    using py_rstrip_Nil_iff by fastforce
  then show ?thesis
  proof cases
    case root
    then show ?thesis using uri_parent_root assms u by blast
  next
    case scope
    moreover from scope(1) have "p \<noteq> []" by auto
    ultimately show ?thesis using uri_parent_scope [OF assms u scope] u by fastforce
  next
    case path
    then obtain a b where ab: "py_rstrip is_slash p = a @ CHR ''/'' # b" "CHR ''/'' \<notin> set b"
      by (meson split_list_last)
    then have "length a < length p"
      using length_py_rstrip_le [of is_slash p] by simp
    then show ?thesis using uri_parent_path [OF assms u ab] u by fastforce
  qed
qed

lemma uri_join_parent:
  assumes v: "VikingURI u = Ok v" and sc: "vu_scope v \<noteq> []"
    and part: "part \<noteq> []" "CHR ''/'' \<notin> set part"
  shows "\<exists>j w. uri_join v part = Ok j \<and> uri_parent j = Ok (Some w) \<and>
             vu_uri w = py_rstrip is_slash u \<and> vu_scope j = vu_scope v"
proof -
  obtain p where u: "u = scheme_prefix @ p" and ok: "path_ok p" and nall: "\<not> list_all is_slash p"
    and full: "vu_full_path v = p" and scv: "vu_scope v = path_scope p"
    using v sc by (auto simp: VikingURI_Ok_iff vu_scope_def vu_full_path_def split: if_splits)
  let ?f = "py_rstrip is_slash p"
  have f: "?f \<noteq> []" using nall by (simp add: py_rstrip_Nil_iff)
  have scf: "path_scope ?f = path_scope p" using sc scv path_scope_rstrip by simp
  have strip: "py_strip is_slash part = part"
    using part by (intro py_strip_id) (metis hd_in_set last_in_set)
  have scj: "path_scope (?f @ CHR ''/'' # part) = path_scope p"
    using scf by (cases "CHR ''/'' \<in> set ?f")
      (simp_all add: path_scope_append path_scope_append_slash path_scope_no_slash)
  moreover have "path_scope p \<in> VISITABLE_SCOPES" using ok nall by (simp add: path_ok_def)
  ultimately have okj: "path_ok (?f @ CHR ''/'' # part)" by (simp add: path_ok_def)
  then obtain j where j: "VikingURI (scheme_prefix @ ?f @ CHR ''/'' # part) = Ok j"
    using VikingURI_path by blast
  have nallj: "\<not> list_all is_slash (?f @ CHR ''/'' # part)"
    using part by (cases part) auto
  have "uri_join v part = Ok j" using j strip part f full by (simp add: uri_join_def)
  moreover have "py_rstrip is_slash (?f @ CHR ''/'' # part) = ?f @ CHR ''/'' # part"
    using part by (intro py_rstrip_id) (auto, metis last_in_set)
  then obtain w where "uri_parent j = Ok (Some w)" "vu_uri w = scheme_prefix @ ?f"
    using uri_parent_path [OF j refl] part(2) by metis
  moreover have "vu_scope j = vu_scope v"
    using j scj scv nallj by (auto simp: VikingURI_Ok_iff vu_scope_def)
  ultimately show ?thesis using u nall rstrip_scheme_path by metis
qed

lemma uri_build_ok:
  assumes "uri_build scope ps = Ok u"
  shows "\<exists>v. VikingURI u = Ok v \<and> vu_scope v = scope \<and> scope \<notin> ALIAS_SCOPES"
proof -
  have sc: "scope \<in> VISITABLE_SCOPES" "scope \<notin> ALIAS_SCOPES"
    using assms by (auto simp: uri_build_def split: if_splits)
  then have ne: "scope \<noteq> []" and ns: "CHR ''/'' \<notin> set scope"
    using slash_not_in_scope by auto
  let ?q = "filter (\<lambda>p. p \<noteq> []) ps"
  let ?p = "py_join ''/'' (scope # ?q)"
  have u: "u = scheme_prefix @ ?p" using assms sc ne by (simp add: uri_build_def)
  have psc: "path_scope ?p = scope"
    using ns by (cases ?q) (simp_all add: path_scope_no_slash path_scope_append_slash)
  have "\<not> list_all is_slash ?p"
  proof
    assume "list_all is_slash ?p"
    then have "path_scope ?p = []" by (cases ?p) (simp_all add: path_scope_def)
    with psc ne show False by simp
  qed
  then show ?thesis
    using psc sc u by (auto simp: VikingURI_Ok_iff path_ok_def vu_scope_def)
qed

section \<open>Sanitised segments\<close>

lemma set_merge_underscores: "set (merge_underscores s) \<subseteq> set s"
  by (induction s rule: merge_underscores.induct) auto

lemma merge_underscores_adjacent:
  "\<not> sublist ''__'' (merge_underscores s)"
proof (induction s rule: merge_underscores.induct)
  case (3 c d s)
  have hd: "merge_underscores (d # s) \<noteq> [] \<and> hd (merge_underscores (d # s)) = d"
    by (induction "d # s" arbitrary: d s rule: merge_underscores.induct) auto
  show ?case
  proof (cases "c = CHR ''_'' \<and> d = CHR ''_''")
    case True
    then show ?thesis using 3 by simp
  next
    case False
    obtain t where t: "merge_underscores (d # s) = d # t"
      using hd by (metis list.collapse)
    have "\<not> sublist ''__'' (d # t)" using 3(2) False t by simp
    with False t show ?thesis by (simp add: sublist_Cons_right) blast
  qed
qed (auto simp: sublist_Cons_right)

lemma windows_reserved_underscore:
  "windows_reserved_stem (''_'' @ s) \<notin> WINDOWS_RESERVED_STEMS"
proof -
  let ?P = "\<lambda>c. c = CHR '' '' \<or> c = CHR ''.''"
  have "windows_reserved_stem (''_'' @ s) = CHR ''_'' # py_upper (py_rstrip ?P (py_before (CHR ''.'') s))"
    using py_rstrip_append_stop [of ?P "CHR ''_''" "[]"]
    by (simp add: windows_reserved_stem_def py_before_def py_upper_def ascii_lower_def)
  then show ?thesis by (auto simp: WINDOWS_RESERVED_STEMS_def)
qed

text \<open>The last two steps of \<^verbatim>\<open>sanitize_segment\<close>, on a stripped segment \<open>t\<close>.\<close>

definition segment_ok :: "string \<Rightarrow> bool" where
  "segment_ok r \<longleftrightarrow>
     (\<forall>c \<in> set r. segment_char c) \<and> r \<noteq> [] \<and> length r \<le> 51 \<and> hd r \<noteq> CHR ''.'' \<and>
     windows_reserved_stem r \<notin> WINDOWS_RESERVED_STEMS"

lemma segment_ok_underscore:
  "\<forall>c \<in> set t. segment_char c \<Longrightarrow> length t \<le> 50 \<Longrightarrow> segment_ok (''_'' @ t)"
  using windows_reserved_underscore [of t] by (simp add: segment_ok_def segment_char_def)

lemma segment_ok_unnamed: "segment_ok ''unnamed''"
  by (simp add: segment_ok_def windows_reserved_stem_def WINDOWS_RESERVED_STEMS_def py_before_def
      py_rstrip_def py_upper_def ascii_lower_def segment_char_def ascii_alnum_def)

lemma segment_ok_defuse:
  assumes "\<forall>c \<in> set t. segment_char c" and "length t \<le> 50" and "t \<noteq> [] \<Longrightarrow> hd t \<noteq> CHR ''.''"
    and r: "r = (if windows_reserved_stem t \<in> WINDOWS_RESERVED_STEMS then ''_'' @ t else t)"
  shows "segment_ok (if r = [] then ''unnamed'' else r)"
proof (cases "windows_reserved_stem t \<in> WINDOWS_RESERVED_STEMS")
  case True
  then show ?thesis using segment_ok_underscore assms(1,2) r by simp
next
  case False
  then show ?thesis using segment_ok_unnamed assms by (auto simp: segment_ok_def)
qed

lemma sanitize_segment_ok: "segment_ok (sanitize_segment s)"
proof -
  let ?P = "\<lambda>c. c = CHR ''_'' \<or> c = CHR ''.''"
  define m where "m = map (\<lambda>c. if segment_char c then c else CHR ''_'') s"
  define t where "t = take 50 (py_strip ?P (merge_underscores m))"
  have "segment_char (CHR ''_'')" by (simp add: segment_char_def)
  then have "\<forall>c \<in> set m. segment_char c" by (auto simp: m_def)
  moreover have "set t \<subseteq> set m" unfolding t_def
    by (rule subset_trans [OF set_take_subset subset_trans [OF set_py_strip set_merge_underscores]])
  ultimately have "\<forall>c \<in> set t. segment_char c" by blast
  moreover have "hd t \<noteq> CHR ''.''" if "t \<noteq> []"
    using that py_strip_hd [of ?P "merge_underscores m"] unfolding t_def
    by (cases "py_strip ?P (merge_underscores m)") auto
  moreover have "length t \<le> 50" by (simp add: t_def)
  ultimately show ?thesis
    unfolding sanitize_segment_def Let_def m_def [symmetric] t_def [symmetric]
    by (intro segment_ok_defuse) auto
qed

lemma segment_char_no_slash: "\<not> segment_char (CHR ''/'')" "\<not> segment_char (CHR ''?'')"
  by (simp_all add: segment_char_def ascii_alnum_def)

section \<open>Properties\<close>

text \<open>
  Every parsed URI has a well-defined parent: the root has none, and any other URI has a parent
  that parses again and is strictly shorter, so walking up always ends at the root.
\<close>

theorem uri_parent_decreases:
  assumes "VikingURI u = Ok v"
  shows "if vu_scope v = [] then uri_parent v = Ok None
         else \<exists>w. uri_parent v = Ok (Some w) \<and> VikingURI (vu_uri w) = Ok w \<and> length (vu_uri w) < length u"
proof -
  obtain p where p: "u = scheme_prefix @ p" "path_ok p" "vu_scope v = (if list_all is_slash p then [] else path_scope p)"
    using assms by (auto simp: VikingURI_Ok_iff vu_scope_def)
  show ?thesis
  proof (cases "list_all is_slash p")
    case True
    then show ?thesis using p uri_parent_root [OF assms p(1)] by simp
  next
    case False
    then have sc: "vu_scope v \<noteq> []" using p slash_not_in_scope by (auto simp: path_ok_def)
    have "uri_parent v \<noteq> Ok None"
    proof (cases "CHR ''/'' \<in> set (py_rstrip is_slash p)")
      case True
      then obtain a b where ab: "py_rstrip is_slash p = a @ CHR ''/'' # b" "CHR ''/'' \<notin> set b"
        by (meson split_list_last)
      then show ?thesis using uri_parent_path [OF assms p(1) ab] by auto
    next
      case no: False
      then show ?thesis using uri_parent_scope [OF assms p(1) False] by auto
    qed
    then show ?thesis using uri_parent_total [OF assms] sc by simp
  qed
qed

theorem uri_parent_decreases_witness:
  "\<exists>v w. VikingURI ''viking://resources/docs'' = Ok v \<and> uri_parent v = Ok (Some w) \<and>
     VikingURI (vu_uri w) = Ok w \<and> length (vu_uri w) < 23"
proof -
  let ?v = "\<lparr>vu_uri = ''viking://resources/docs'', vu_parsed =
    \<lparr>pu_scheme = ''viking'', pu_scope = ''resources'', pu_full_path = ''resources/docs''\<rparr>\<rparr>"
  have v: "VikingURI ''viking://resources/docs'' = Ok ?v" by code_simp
  show ?thesis using uri_parent_decreases [OF v] v by (auto simp: vu_scope_def)
qed

text \<open>
  \<^verbatim>\<open>sanitize_segment\<close> always returns a usable path segment: not empty, at most 51 characters,
  only permitted characters (so no slash), not starting with a dot, and not a reserved Windows name.
\<close>

theorem sanitize_segment_usable:
  "sanitize_segment s \<noteq> [] \<and> length (sanitize_segment s) \<le> 51 \<and> (\<forall>c \<in> set (sanitize_segment s). segment_char c) \<and>
   CHR ''/'' \<notin> set (sanitize_segment s) \<and> hd (sanitize_segment s) \<noteq> CHR ''.'' \<and>
   windows_reserved_stem (sanitize_segment s) \<notin> WINDOWS_RESERVED_STEMS"
  using sanitize_segment_ok [of s] segment_char_no_slash unfolding segment_ok_def by blast

theorem sanitize_segment_usable_witness:
  "sanitize_segment ''..a b//con'' = ''a_b_con'' \<and> length (sanitize_segment ''..a b//con'') \<le> 51"
proof -
  have "sanitize_segment ''..a b//con'' = ''a_b_con''" by code_simp
  then show ?thesis using sanitize_segment_usable [of "''..a b//con''"] by blast
qed

end
