(* ===== verification/Identity.thy ===== *)
theory Identity
  imports Prelude
begin

text \<open>
  Identifiers and request identity: \<^verbatim>\<open>openviking/core/identifiers.py\<close>,
  \<^verbatim>\<open>openviking/core/peer_id.py\<close>, \<^verbatim>\<open>openviking_cli/session/user_id.py\<close> and the data classes of
  \<^verbatim>\<open>openviking/server/identity.py\<close>. A validator returns \<open>None\<close> when the value is accepted and
  \<open>Some\<close> message kind otherwise. The lemmas say which characters an accepted identifier has:
  the pattern ends with \<^verbatim>\<open>$\<close>, which in Python also matches before one final newline, so the
  accepted identifiers are the safe ones and the safe ones followed by a newline.
\<close>

section \<open>Identifier parts\<close>

datatype ident_error = IdEmpty | IdDots | IdChars | IdManyAt | IdUnderscore

definition ident_char :: "char \<Rightarrow> bool" where
  "ident_char c \<longleftrightarrow>
     ascii_alnum c \<or> c = CHR ''_'' \<or> c = CHR ''.'' \<or> c = CHR ''@'' \<or> c = CHR ''-''"

abbreviation newline :: char where
  "newline \<equiv> CHR 0x0A"

text \<open>\<^verbatim>\<open>re.compile(r"^[a-zA-Z0-9_.@-]+$").match\<close>: \<^verbatim>\<open>$\<close> matches at the end of the string and
  before a newline that ends it.\<close>

definition VALIDATION_PATTERN :: "string \<Rightarrow> bool" where
  "VALIDATION_PATTERN s \<longleftrightarrow>
     (let body = (if s \<noteq> [] \<and> last s = newline then butlast s else s)
      in body \<noteq> [] \<and> list_all ident_char body)"

definition validate_identifier_part :: "string \<Rightarrow> ident_error option" where
  "validate_identifier_part part =
     (if part = [] then Some IdEmpty
      else if part = ''.'' \<or> part = ''..'' then Some IdDots
      else if \<not> VALIDATION_PATTERN part then Some IdChars
      else if length (filter (\<lambda>c. c = CHR ''@'') part) > 1 then Some IdManyAt
      else None)"

definition normalize_identifier_part :: "string option \<Rightarrow> string option res" where
  "normalize_identifier_part part =
     (case part of
        None \<Rightarrow> Ok None
      | Some s \<Rightarrow>
          let normalized = strip_space s in
          if normalized = [] then Ok None
          else (case validate_identifier_part normalized of
                  Some _ \<Rightarrow> Raise ValueError
                | None \<Rightarrow> Ok (Some normalized)))"

definition validate_account_id :: "string \<Rightarrow> ident_error option" where
  "validate_account_id account_id =
     (case validate_identifier_part account_id of
        Some e \<Rightarrow> Some e
      | None \<Rightarrow> if py_startswith account_id ''_'' then Some IdUnderscore else None)"

definition validate_user_id :: "string \<Rightarrow> ident_error option" where
  "validate_user_id user_id = validate_identifier_part user_id"

definition normalize_peer_id :: "string option \<Rightarrow> string option res" where
  "normalize_peer_id peer_id =
     (case normalize_identifier_part peer_id of
        Inr v \<Rightarrow> Ok v
      | Inl e \<Rightarrow> if is_ValueError e then Raise ValueError else Raise e)"

definition safe_peer_id :: "string option \<Rightarrow> string option res" where
  "safe_peer_id peer_id =
     (case normalize_peer_id peer_id of
        Inr v \<Rightarrow> Ok v
      | Inl e \<Rightarrow> if is_ValueError e then Ok None else Raise e)"

section \<open>Users, roles and request contexts\<close>

record user_identifier =
  ui_account_id :: string
  ui_user_id :: string

definition UserIdentifier_validate_error :: "string \<Rightarrow> string \<Rightarrow> ident_error option" where
  "UserIdentifier_validate_error account_id user_id =
     (case validate_account_id account_id of
        Some e \<Rightarrow> Some e
      | None \<Rightarrow> (case validate_user_id user_id of Some e \<Rightarrow> Some e | None \<Rightarrow> None))"

definition UserIdentifier :: "string \<Rightarrow> string \<Rightarrow> user_identifier res" where
  "UserIdentifier account_id user_id =
     (case UserIdentifier_validate_error account_id user_id of
        Some _ \<Rightarrow> Raise ValueError
      | None \<Rightarrow> Ok \<lparr>ui_account_id = account_id, ui_user_id = user_id\<rparr>)"

definition the_default_user :: "string \<Rightarrow> user_identifier res" where
  "the_default_user default_username = UserIdentifier ''default'' default_username"

definition ui_to_dict :: "user_identifier \<Rightarrow> (string \<rightharpoonup> string)" where
  "ui_to_dict self = [''account_id'' \<mapsto> ui_account_id self, ''user_id'' \<mapsto> ui_user_id self]"

definition ui_from_dict :: "(string \<rightharpoonup> string) \<Rightarrow> user_identifier res" where
  "ui_from_dict data =
     (case data ''account_id'' of
        None \<Rightarrow> Raise KeyError
      | Some a \<Rightarrow> (case data ''user_id'' of None \<Rightarrow> Raise KeyError | Some u \<Rightarrow> UserIdentifier a u))"

text \<open>A role is a string; custom roles have a rank registered in the class dictionary.\<close>

definition ROOT :: string where "ROOT = ''root''"
definition ADMIN :: string where "ADMIN = ''admin''"
definition USER :: string where "USER = ''user''"

definition BUILTIN_RANK :: "string \<rightharpoonup> int" where
  "BUILTIN_RANK = [USER \<mapsto> 0, ADMIN \<mapsto> 1, ROOT \<mapsto> 2]"

definition role_register :: "(string \<rightharpoonup> int) \<Rightarrow> string \<Rightarrow> int \<Rightarrow> (string \<rightharpoonup> int)" where
  "role_register custom name r = custom(name \<mapsto> r)"

definition role_rank :: "(string \<rightharpoonup> int) \<Rightarrow> string \<Rightarrow> int" where
  "role_rank custom role =
     (case BUILTIN_RANK role of
        Some r \<Rightarrow> r
      | None \<Rightarrow> (case custom role of Some r \<Rightarrow> r | None \<Rightarrow> 0))"

record request_context =
  rc_user :: user_identifier
  rc_role :: string
  rc_group_ids :: "string list"
  rc_actor_peer_id :: "string option"
  rc_from_oauth :: bool
  rc_api_key :: "string option"
  rc_bypass_acl :: bool

definition rc_account_id :: "request_context \<Rightarrow> string" where
  "rc_account_id ctx = ui_account_id (rc_user ctx)"

abbreviation rc_user_id :: "request_context \<Rightarrow> string" where
  "rc_user_id ctx \<equiv> ui_user_id (rc_user ctx)"

section \<open>What an accepted identifier looks like\<close>

lemma ident_char_facts:
  "ident_char c \<Longrightarrow> c \<noteq> CHR ''/'' \<and> c \<noteq> CHR ''?'' \<and> c \<noteq> CHR '':'' \<and> \<not> py_isspace c"
  by (auto simp: ident_char_def ascii_alnum_def py_isspace_def Let_def)

lemma newline_facts: "newline \<noteq> CHR ''/''" "newline \<noteq> CHR ''?''" "py_isspace newline"
  by (simp_all add: py_isspace_def)

text \<open>The identifiers the character class describes, without the newline \<^verbatim>\<open>$\<close> lets through.\<close>

definition clean_identifier :: "string \<Rightarrow> bool" where
  "clean_identifier s \<longleftrightarrow>
     s \<noteq> [] \<and> s \<noteq> ''.'' \<and> s \<noteq> ''..'' \<and> list_all ident_char s \<and>
     length (filter (\<lambda>c. c = CHR ''@'') s) \<le> 1"

lemma ident_char_newline [simp]: "\<not> ident_char newline"
  by (simp add: ident_char_def ascii_alnum_def)

lemma VALIDATION_PATTERN_iff:
  "VALIDATION_PATTERN s \<longleftrightarrow>
     (\<exists>b. b \<noteq> [] \<and> list_all ident_char b \<and> (s = b \<or> s = b @ [newline]))"
proof (cases s rule: rev_cases)
  case (snoc b c)
  then show ?thesis by (auto simp: VALIDATION_PATTERN_def Let_def)
qed (simp add: VALIDATION_PATTERN_def)

lemma validate_identifier_part_None_iff:
  "validate_identifier_part s = None \<longleftrightarrow>
     clean_identifier s \<or>
     (\<exists>b. s = b @ [newline] \<and> b \<noteq> [] \<and> list_all ident_char b \<and>
          length (filter (\<lambda>c. c = CHR ''@'') b) \<le> 1)"
proof -
  have "validate_identifier_part s = None \<longleftrightarrow>
      s \<noteq> [] \<and> s \<noteq> ''.'' \<and> s \<noteq> ''..'' \<and> VALIDATION_PATTERN s \<and>
      length (filter (\<lambda>c. c = CHR ''@'') s) \<le> 1"
    by (auto simp: validate_identifier_part_def)
  also have "\<dots> \<longleftrightarrow> clean_identifier s \<or>
     (\<exists>b. s = b @ [newline] \<and> b \<noteq> [] \<and> list_all ident_char b \<and>
          length (filter (\<lambda>c. c = CHR ''@'') b) \<le> 1)"
    unfolding VALIDATION_PATTERN_iff clean_identifier_def by (auto simp: append_eq_Cons_conv)
  finally show ?thesis .
qed

lemma validate_identifier_part_chars:
  assumes "validate_identifier_part s = None"
  shows "s \<noteq> [] \<and> (\<forall>c \<in> set s. ident_char c \<or> c = newline)"
  using assms by (auto simp: validate_identifier_part_None_iff clean_identifier_def list_all_iff)

lemma validate_identifier_part_safe:
  assumes "validate_identifier_part s = None"
  shows "CHR ''/'' \<notin> set s \<and> CHR ''?'' \<notin> set s \<and> s \<noteq> [] \<and> s \<noteq> ''.'' \<and> s \<noteq> ''..'' \<and> s \<noteq> ''~''"
proof -
  have "s \<noteq> ''~''"
    using validate_identifier_part_chars [OF assms] by (auto simp: ident_char_def ascii_alnum_def)
  moreover have "s \<noteq> ''.''" "s \<noteq> ''..''"
    using assms by (auto simp: validate_identifier_part_def)
  ultimately show ?thesis
    using validate_identifier_part_chars [OF assms] ident_char_facts newline_facts by blast
qed

lemma clean_identifier_valid: "clean_identifier s \<Longrightarrow> validate_identifier_part s = None"
  by (simp add: validate_identifier_part_None_iff)

lemma clean_identifier_strip: "clean_identifier s \<Longrightarrow> strip_space s = s"
  by (intro py_strip_id) (metis clean_identifier_def hd_in_set ident_char_facts last_in_set list.pred_set)

lemma normalize_identifier_part_Some:
  "normalize_identifier_part p = Ok (Some s) \<Longrightarrow> clean_identifier s"
proof -
  assume "normalize_identifier_part p = Ok (Some s)"
  then obtain r where s: "s = strip_space r" "s \<noteq> []" "validate_identifier_part s = None"
    by (auto simp: normalize_identifier_part_def Let_def split: option.splits if_splits)
  then have "last s \<noteq> newline" using py_strip_last newline_facts(3) by metis
  with s(3) show ?thesis by (auto simp: validate_identifier_part_None_iff)
qed

lemma normalize_peer_id_clean:
  "clean_identifier s \<Longrightarrow> normalize_peer_id (Some s) = Ok (Some s)"
  by (simp add: normalize_peer_id_def normalize_identifier_part_def clean_identifier_strip
      clean_identifier_valid Let_def) (simp add: clean_identifier_def)

lemma UserIdentifier_Ok_iff:
  "UserIdentifier a u = Ok i \<longleftrightarrow>
     i = \<lparr>ui_account_id = a, ui_user_id = u\<rparr> \<and>
     validate_account_id a = None \<and> validate_user_id u = None"
  by (auto simp: UserIdentifier_def UserIdentifier_validate_error_def split: option.splits)

section \<open>Properties\<close>

text \<open>
  An identifier part is accepted exactly when it is a clean identifier (letters, digits,
  \<^verbatim>\<open>_ . @ -\<close>, at most one \<^verbatim>\<open>@\<close>, not a dot name) or such characters followed by one line feed:
  \<^verbatim>\<open>$\<close> in the pattern also matches before a final line feed.
\<close>

theorem validate_identifier_part_iff:
  "validate_identifier_part s = None \<longleftrightarrow>
     clean_identifier s \<or>
     (\<exists>b. s = b @ [newline] \<and> b \<noteq> [] \<and> list_all ident_char b \<and> length (filter (\<lambda>c. c = CHR ''@'') b) \<le> 1)"
  by (rule validate_identifier_part_None_iff)

end
