(* ===== verification/Namespace.thy ===== *)
theory Namespace
  imports Uri Identity
begin

text \<open>
  \<^verbatim>\<open>openviking/core/namespace.py\<close>: the path segments of a Viking URI, the classification of a
  URI by its shape, the canonical form and owner of a URI (\<open>resolve_uri\<close>), the expansion of the
  aliases at a request boundary, and the tenant check \<open>is_accessible\<close>. The lemmas show that the
  canonical form is a fixed point, that a resolved user URI carries the user id it names, and
  that only the owner (or root) has access to it.
\<close>

section \<open>Data\<close>

definition CONTENT_TYPES :: "string \<rightharpoonup> string" where
  "CONTENT_TYPES = [''memories'' \<mapsto> ''memory'', ''resources'' \<mapsto> ''resource'', ''skills'' \<mapsto> ''skill'']"

definition CONTENT_TYPES_BY_SCOPE :: "string \<rightharpoonup> (string \<rightharpoonup> string)" where
  "CONTENT_TYPES_BY_SCOPE = [''user'' \<mapsto> CONTENT_TYPES, ''agent'' \<mapsto> CONTENT_TYPES]"

definition PEER_CONTENT_SEGMENTS :: "string set" where
  "PEER_CONTENT_SEGMENTS = {''memories'', ''resources''}"

definition USER_RELATIVE_ROOT_SEGMENTS :: "string set" where
  "USER_RELATIVE_ROOT_SEGMENTS = {''peers'', ''privacy'', ''sessions''}"

record resolved_namespace =
  rn_uri :: string
  rn_scope :: string
  rn_owner_user_id :: "string option"
  rn_is_container :: bool

record uri_classification =
  uc_parts :: "string list"
  uc_scope :: string
  uc_content_index :: "nat option"
  uc_context_type :: string

definition is_namespace_root_parts :: "string list \<Rightarrow> string \<Rightarrow> bool" where
  "is_namespace_root_parts parts scope \<longleftrightarrow>
     scope = ''user'' \<and> take 1 parts = [''user''] \<and> length parts = 2"

definition is_memory :: "uri_classification \<Rightarrow> bool" where
  "is_memory self \<longleftrightarrow> uc_context_type self = ''memory''"

definition is_skill :: "uri_classification \<Rightarrow> bool" where
  "is_skill self \<longleftrightarrow> uc_context_type self = ''skill''"

definition is_user_namespace_root :: "uri_classification \<Rightarrow> bool" where
  "is_user_namespace_root self = is_namespace_root_parts (uc_parts self) ''user''"

definition is_agent_namespace_root :: "uri_classification \<Rightarrow> bool" where
  "is_agent_namespace_root self \<longleftrightarrow> uc_scope self = ''agent'' \<and> length (uc_parts self) = 2"

definition is_memory_root :: "uri_classification \<Rightarrow> bool" where
  "is_memory_root self \<longleftrightarrow>
     is_memory self \<and>
     (case uc_content_index self of None \<Rightarrow> False | Some i \<Rightarrow> length (uc_parts self) = i + 1)"

definition is_skill_namespace :: "uri_classification \<Rightarrow> bool" where
  "is_skill_namespace self \<longleftrightarrow>
     is_skill self \<and>
     (case uc_content_index self of None \<Rightarrow> False | Some i \<Rightarrow> length (uc_parts self) = i + 1)"

definition is_skill_root :: "uri_classification \<Rightarrow> bool" where
  "is_skill_root self \<longleftrightarrow>
     is_skill self \<and>
     (case uc_content_index self of None \<Rightarrow> False | Some i \<Rightarrow> length (uc_parts self) = i + 2)"

section \<open>Path segments\<close>

definition uri_parts :: "string \<Rightarrow> string list res" where
  "uri_parts uri =
     (let normalized = py_before (CHR ''?'') uri in
      if \<not> py_startswith normalized scheme_prefix then Raise ValueError
      else if normalized = scheme_prefix then Ok []
      else
        let normalized = py_rstrip is_slash normalized
        in Ok (filter (\<lambda>part. part \<noteq> [])
                 (py_split (CHR ''/'') (drop (length scheme_prefix) normalized))))"

definition uri_depth :: "string \<Rightarrow> nat res" where
  "uri_depth uri = res_bind (uri_parts uri) (\<lambda>parts. Ok (length parts))"

definition uri_leaf_name :: "string \<Rightarrow> string res" where
  "uri_leaf_name uri =
     res_bind (uri_parts uri) (\<lambda>parts. Ok (if parts \<noteq> [] then last parts else []))"

definition relative_uri_path :: "string \<Rightarrow> string \<Rightarrow> string res" where
  "relative_uri_path root_uri uri =
     res_bind (uri_parts root_uri) (\<lambda>root_parts.
     res_bind (uri_parts uri) (\<lambda>parts.
       if parts = root_parts \<or> take (length root_parts) parts \<noteq> root_parts then Ok []
       else Ok (py_join ''/'' (drop (length root_parts) parts))))"

section \<open>Classification\<close>

definition content_segment_index :: "string list \<Rightarrow> nat option" where
  "content_segment_index parts =
     (if length parts \<ge> 2 \<and> take 2 parts = [''agent'', ''skills''] then Some 1
      else if length parts \<ge> 3 \<and> parts ! 0 = ''agent'' \<and> CONTENT_TYPES (parts ! 2) \<noteq> None then Some 2
      else if length parts < 2 \<or> parts ! 0 \<noteq> ''user'' then None
      else if length parts \<ge> 5 \<and> parts ! 2 = ''peers'' \<and> parts ! 4 \<in> PEER_CONTENT_SEGMENTS then Some 4
      else if length parts \<ge> 3 \<and> CONTENT_TYPES (parts ! 2) \<noteq> None then Some 2
      else None)"

definition classify_parts :: "string list \<Rightarrow> uri_classification" where
  "classify_parts parts =
     (let content_index = content_segment_index parts;
          context_type =
            (case content_index of
               None \<Rightarrow> ''resource''
             | Some i \<Rightarrow>
                 (case CONTENT_TYPES_BY_SCOPE (parts ! 0) of
                    None \<Rightarrow> ''resource''
                  | Some types \<Rightarrow> (case types (parts ! i) of None \<Rightarrow> ''resource'' | Some t \<Rightarrow> t)))
      in \<lparr>uc_parts = parts, uc_scope = (if parts \<noteq> [] then parts ! 0 else []),
          uc_content_index = content_index, uc_context_type = context_type\<rparr>)"

definition classify_uri :: "string \<Rightarrow> uri_classification res" where
  "classify_uri uri = res_bind (uri_parts uri) (\<lambda>parts. Ok (classify_parts parts))"

definition context_type_for_uri :: "string \<Rightarrow> string res" where
  "context_type_for_uri uri = res_bind (classify_uri uri) (\<lambda>c. Ok (uc_context_type c))"

section \<open>Roots of the current user\<close>

definition user_space_fragment :: "request_context \<Rightarrow> string" where
  "user_space_fragment ctx = rc_user_id ctx"

definition canonical_user_root :: "request_context \<Rightarrow> string" where
  "canonical_user_root ctx = scheme_prefix @ ''user/'' @ user_space_fragment ctx"

definition canonical_session_root :: "request_context \<Rightarrow> string" where
  "canonical_session_root ctx = canonical_user_root ctx @ ''/sessions''"

definition canonical_session_uri :: "request_context \<Rightarrow> string option \<Rightarrow> string" where
  "canonical_session_uri ctx session_id =
     (if \<not> truthy_opt session_id then canonical_session_root ctx
      else canonical_session_root ctx @ ''/'' @ the session_id)"

definition is_session_uri :: "string \<Rightarrow> bool res" where
  "is_session_uri uri =
     res_bind (uri_parts uri) (\<lambda>parts.
       if take 1 parts = [''session''] then Ok True
       else Ok (length parts \<ge> 3 \<and> parts ! 0 = ''user'' \<and> parts ! 2 = ''sessions''))"

definition visible_roots :: "request_context \<Rightarrow> string list" where
  "visible_roots ctx =
     [scheme_prefix @ ''resources'', scheme_prefix @ ''agent/skills'', canonical_user_root ctx]"

section \<open>Canonical form and owner\<close>

definition require_peer_id_segment :: "string \<Rightarrow> unit res" where
  "require_peer_id_segment peer_id =
     (case normalize_peer_id (Some peer_id) of
        Inr None \<Rightarrow> Raise NamespaceShapeError
      | Inr (Some _) \<Rightarrow> Ok ()
      | Inl e \<Rightarrow> if is_ValueError e then Raise NamespaceShapeError else Raise e)"

definition validate_peer_id_segments :: "string list \<Rightarrow> unit res" where
  "validate_peer_id_segments parts =
     (if length parts \<ge> 4 \<and> parts ! 0 = ''user'' \<and> parts ! 2 = ''peers''
      then require_peer_id_segment (parts ! 3) else Ok ())"

definition resolve_user_uri :: "string list \<Rightarrow> resolved_namespace res" where
  "resolve_user_uri parts =
     (if length parts = 1 then
        Ok \<lparr>rn_uri = scheme_prefix @ ''user'', rn_scope = ''user'', rn_owner_user_id = None,
            rn_is_container = True\<rparr>
      else
        let user_id = parts ! 1 in
        if validate_user_id user_id \<noteq> None then Raise NamespaceShapeError
        else if length parts = 2 then
          Ok \<lparr>rn_uri = scheme_prefix @ ''user/'' @ user_id, rn_scope = ''user'',
              rn_owner_user_id = Some user_id, rn_is_container = False\<rparr>
        else
          let suffix = drop 2 parts;
              canonical = scheme_prefix @ ''user/'' @ user_id;
              canonical = (if suffix \<noteq> [] then canonical @ ''/'' @ py_join ''/'' suffix else canonical)
          in res_bind (validate_peer_id_segments parts) (\<lambda>_.
               Ok \<lparr>rn_uri = canonical, rn_scope = ''user'', rn_owner_user_id = Some user_id,
                   rn_is_container = False\<rparr>))"

definition resolve_uri :: "string \<Rightarrow> resolved_namespace res" where
  "resolve_uri uri =
     res_bind (VikingURI uri) (\<lambda>parsed.
       let canonical_uri = py_rstrip is_slash (vu_uri parsed);
           canonical_uri = (if canonical_uri \<noteq> [] then canonical_uri else scheme_prefix)
       in res_bind (uri_parts uri) (\<lambda>parts.
         if parts = [] then
           Ok \<lparr>rn_uri = scheme_prefix, rn_scope = [], rn_owner_user_id = None, rn_is_container = True\<rparr>
         else
           let scope = parts ! 0 in
           if scope = ''user'' then resolve_user_uri parts
           else if scope = ''agent'' then
             Ok \<lparr>rn_uri = canonical_uri, rn_scope = scope, rn_owner_user_id = None, rn_is_container = False\<rparr>
           else if scope = ''~'' then Raise NamespaceShapeError
           else if scope = ''session'' then Raise NamespaceShapeError
           else
             Ok \<lparr>rn_uri = canonical_uri, rn_scope = scope, rn_owner_user_id = None, rn_is_container = False\<rparr>))"

section \<open>The actor peer view\<close>

definition actor_peer_view_user_suffix :: "string \<Rightarrow> request_context \<Rightarrow> string list option res" where
  "actor_peer_view_user_suffix uri ctx =
     (if \<not> truthy_opt (rc_actor_peer_id ctx) then Ok None
      else
        (case resolve_uri uri of
           Inl NamespaceShapeError \<Rightarrow> Ok None
         | Inl e \<Rightarrow> Raise e
         | Inr _ \<Rightarrow>
             res_bind (uri_parts uri) (\<lambda>parts.
               let user_root_parts = [''user'', rc_user_id ctx] in
               if take (length user_root_parts) parts \<noteq> user_root_parts then Ok None
               else Ok (Some (drop (length user_root_parts) parts)))))"

definition is_hidden_by_actor_peer_view :: "string \<Rightarrow> request_context \<Rightarrow> bool res" where
  "is_hidden_by_actor_peer_view uri ctx =
     res_bind (actor_peer_view_user_suffix uri ctx) (\<lambda>suffix.
       Ok (case suffix of
             None \<Rightarrow> False
           | Some s \<Rightarrow> length s \<ge> 2 \<and> s ! 0 = ''peers'' \<and> Some (s ! 1) \<noteq> rc_actor_peer_id ctx))"

definition may_include_hidden_actor_peers :: "string \<Rightarrow> request_context \<Rightarrow> bool res" where
  "may_include_hidden_actor_peers uri ctx =
     res_bind (actor_peer_view_user_suffix uri ctx) (\<lambda>suffix.
       Ok (case suffix of None \<Rightarrow> False | Some s \<Rightarrow> s = [] \<or> s = [''peers'']))"

section \<open>Request boundary and access\<close>

definition is_reserved_user_root_segment :: "string \<Rightarrow> bool" where
  "is_reserved_user_root_segment segment \<longleftrightarrow>
     CONTENT_TYPES segment \<noteq> None \<or> segment \<in> USER_RELATIVE_ROOT_SEGMENTS"

definition resolve_current_user_uri :: "string \<Rightarrow> request_context \<Rightarrow> string res" where
  "resolve_current_user_uri uri ctx =
     res_bind (uri_parts uri) (\<lambda>parts.
       if parts = [] then Ok scheme_prefix
       else if parts ! 0 = ''~'' then
         (if length parts = 1 then Ok (canonical_user_root ctx)
          else Ok (canonical_user_root ctx @ ''/'' @ py_join ''/'' (drop 1 parts)))
       else if parts ! 0 = ''session'' then
         (if length parts = 1 then Ok (canonical_session_root ctx)
          else
            let canonical = canonical_session_uri ctx (Some (parts ! 1))
            in if length parts > 2 then Ok (canonical @ ''/'' @ py_join ''/'' (drop 2 parts))
               else Ok canonical)
       else if parts ! 0 = ''user'' \<and> length parts \<ge> 2 \<and> parts ! 1 \<noteq> rc_user_id ctx \<and>
               is_reserved_user_root_segment (parts ! 1) then Raise NamespaceShapeError
       else res_bind (resolve_uri uri) (\<lambda>r. Ok (rn_uri r)))"

definition resolve_request_uri :: "string \<Rightarrow> request_context \<Rightarrow> string res" where
  "resolve_request_uri uri ctx =
     res_bind (uri_parts uri) (\<lambda>parts.
       if parts \<noteq> [] \<and> parts ! 0 = ''~'' then resolve_current_user_uri uri ctx
       else if rc_role ctx = USER \<or> rc_role ctx = ADMIN then resolve_current_user_uri uri ctx
       else res_bind (resolve_uri uri) (\<lambda>r. Ok (rn_uri r)))"

definition is_accessible :: "string \<Rightarrow> request_context \<Rightarrow> bool res" where
  "is_accessible uri ctx =
     (if rc_role ctx = ''root'' then Ok True
      else
        (case resolve_uri uri of
           Inl NamespaceShapeError \<Rightarrow> Ok False
         | Inl e \<Rightarrow> Raise e
         | Inr target \<Rightarrow>
             if rn_scope target \<in> {[], ''resources'', ''temp'', ''queue''} then Ok True
             else if rn_scope target = ''upload'' then Ok False
             else if rn_scope target = ''user'' then
               (if truthy_opt (rn_owner_user_id target) \<and> rn_owner_user_id target \<noteq> Some (rc_user_id ctx)
                then Ok False else Ok True)
             else if rn_scope target = ''agent'' then
               res_bind (uri_parts (rn_uri target)) (\<lambda>parts.
                 if truthy_opt (rc_actor_peer_id ctx) \<and> length parts \<ge> 2 \<and>
                    Some (parts ! 1) \<noteq> rc_actor_peer_id ctx
                 then Ok False else Ok True)
             else Ok True))"

definition is_content_root_uri :: "string \<Rightarrow> string \<Rightarrow> bool res" where
  "is_content_root_uri uri kind =
     (case resolve_uri uri of
        Inl e \<Rightarrow> if is_ValueError e then Ok False else Raise e
      | Inr _ \<Rightarrow>
          res_bind (uri_parts uri) (\<lambda>parts.
            if kind = ''resource'' \<and> parts = [''resources''] then Ok True
            else
              res_bind (classify_uri uri) (\<lambda>c.
                Ok (uc_context_type c = kind \<and>
                    (case uc_content_index c of None \<Rightarrow> False | Some i \<Rightarrow> length parts = i + 1)))))"

record owner_fields =
  of_uri :: string
  of_owner_user_id :: "string option"

definition owner_fields_for_uri :: "string \<Rightarrow> owner_fields res" where
  "owner_fields_for_uri uri =
     (case resolve_uri uri of
        Inl e \<Rightarrow>
          if is_ValueError e then Ok \<lparr>of_uri = py_rstrip is_slash uri, of_owner_user_id = None\<rparr>
          else Raise e
      | Inr r \<Rightarrow> Ok \<lparr>of_uri = rn_uri r, of_owner_user_id = rn_owner_user_id r\<rparr>)"

definition content_owner_context_for_uri :: "string \<Rightarrow> request_context \<Rightarrow> request_context res" where
  "content_owner_context_for_uri uri ctx =
     res_bind (owner_fields_for_uri uri) (\<lambda>f.
       if \<not> truthy_opt (of_owner_user_id f) \<or> of_owner_user_id f = Some (rc_user_id ctx) then Ok ctx
       else
         res_bind (UserIdentifier (rc_account_id ctx) (the (of_owner_user_id f))) (\<lambda>user.
           Ok \<lparr>rc_user = user, rc_role = rc_role ctx, rc_group_ids = rc_group_ids ctx,
               rc_actor_peer_id = rc_actor_peer_id ctx, rc_from_oauth = rc_from_oauth ctx,
               rc_api_key = rc_api_key ctx, rc_bypass_acl = rc_bypass_acl ctx\<rparr>))"

definition owner_space_for_uri :: "string \<Rightarrow> string res" where
  "owner_space_for_uri uri =
     res_bind (resolve_uri uri) (\<lambda>r.
       if rn_scope r = ''user'' \<and> truthy_opt (rn_owner_user_id r) then Ok (the (rn_owner_user_id r))
       else Ok [])"

section \<open>Segments of a path\<close>

definition segs :: "string \<Rightarrow> string list" where
  "segs path = filter (\<lambda>p. p \<noteq> []) (py_split (CHR ''/'') path)"

text \<open>Segments as the parser produces them: not empty, without separator and query.\<close>

definition good_seg :: "string \<Rightarrow> bool" where
  "good_seg p \<longleftrightarrow> p \<noteq> [] \<and> CHR ''/'' \<notin> set p \<and> CHR ''?'' \<notin> set p"

lemma py_split_append: "py_split c (a @ c # b) = py_split c a @ py_split c b"
proof (induction a)
  case (Cons x a)
  obtain p ps where "py_split c a = p # ps" by (metis neq_Nil_conv py_split_nonempty)
  with Cons show ?case by auto
qed simp

lemma segs_append_slash: "segs (a @ CHR ''/'' # b) = segs a @ segs b"
  by (simp add: segs_def py_split_append)

lemma segs_all_slash [simp]: "list_all is_slash p \<Longrightarrow> segs p = []"
  by (induction p) (auto simp: segs_def)

lemma segs_Nil [simp]: "segs [] = []"
  by (simp add: segs_def)

lemma segs_append_slashes: "list_all is_slash t \<Longrightarrow> segs (s @ t) = segs s"
  by (cases t) (auto simp: segs_append_slash)

lemma segs_rstrip: "segs (py_rstrip is_slash s) = segs s"
  using py_rstrip_decomp segs_append_slashes by metis

lemma segs_single: "p \<noteq> [] \<Longrightarrow> CHR ''/'' \<notin> set p \<Longrightarrow> segs p = [p]"
  by (simp add: segs_def py_split_no_sep)

lemma segs_join:
  "\<forall>p \<in> set ps. p \<noteq> [] \<and> CHR ''/'' \<notin> set p \<Longrightarrow> segs (py_join ''/'' ps) = ps"
proof (induction ps)
  case (Cons p ps)
  then show ?case by (cases ps) (auto simp: segs_single segs_append_slash)
qed simp

lemma segs_good:
  assumes "CHR ''?'' \<notin> set s" and "p \<in> set (segs s)"
  shows "good_seg p"
  using assms py_split_parts py_split_chars by (fastforce simp: segs_def good_seg_def)

lemma py_before_append_prefix:
  "c \<notin> set a \<Longrightarrow> py_before c (a @ s) = a @ py_before c s"
  by (induction a) (auto simp: py_before_def)

lemma scheme_prefix_no_query [simp]: "CHR ''?'' \<notin> set scheme_prefix"
  by (simp add: scheme_prefix_eq)

lemma uri_parts_path [simp]:
  "uri_parts (scheme_prefix @ path) = Ok (segs (py_before (CHR ''?'') path))"
proof -
  let ?q = "py_before (CHR ''?'') path"
  have b: "py_before (CHR ''?'') (scheme_prefix @ path) = scheme_prefix @ ?q"
    by (simp add: py_before_append_prefix)
  show ?thesis
  proof (cases "list_all is_slash ?q")
    case True
    then show ?thesis
      by (simp add: uri_parts_def b rstrip_scheme_root)
  next
    case False
    then have "?q \<noteq> []" by auto
    with False show ?thesis
      by (simp add: uri_parts_def b rstrip_scheme_path segs_rstrip flip: segs_def)
  qed
qed

lemma uri_parts_Ok_prefix: "uri_parts u = Ok ps \<Longrightarrow> \<exists>path. u = scheme_prefix @ path"
proof -
  assume "uri_parts u = Ok ps"
  then have "py_startswith (py_before (CHR ''?'') u) scheme_prefix"
    by (auto simp: uri_parts_def Let_def split: if_splits)
  then obtain r where "py_before (CHR ''?'') u = scheme_prefix @ r" by (rule py_startswithE)
  moreover have "prefix (py_before (CHR ''?'') u) u"
    by (simp add: py_before_def takeWhile_is_prefix)
  ultimately show ?thesis by (metis append_assoc prefix_def)
qed

lemma uri_parts_good: "uri_parts u = Ok ps \<Longrightarrow> \<forall>p \<in> set ps. good_seg p"
  by (metis Inr_inject py_before_no_sep segs_good uri_parts_Ok_prefix uri_parts_path)

lemma uri_parts_error: "uri_parts u = Raise e \<Longrightarrow> e = ValueError"
  by (auto simp: uri_parts_def Let_def split: if_splits)

text \<open>Rendering good segments and reading them back.\<close>

definition render :: "string list \<Rightarrow> string" where
  "render ps = scheme_prefix @ py_join ''/'' ps"

lemma join_no_query:
  "\<forall>p \<in> set ps. good_seg p \<Longrightarrow> CHR ''?'' \<notin> set (py_join ''/'' ps)"
  using set_py_join [of "''/''" ps] by (auto simp: good_seg_def)

lemma uri_parts_render:
  "\<forall>p \<in> set ps. good_seg p \<Longrightarrow> uri_parts (render ps) = Ok ps"
  using join_no_query [of ps]
  by (simp add: render_def py_before_id segs_join good_seg_def)

lemma render_Cons: "ps \<noteq> [] \<Longrightarrow> render (p # ps) = scheme_prefix @ p @ ''/'' @ py_join ''/'' ps"
  by (simp add: render_def py_join_Cons)

lemma render_append:
  "ps \<noteq> [] \<Longrightarrow> qs \<noteq> [] \<Longrightarrow> render (ps @ qs) = render ps @ ''/'' @ py_join ''/'' qs"
  by (simp add: render_def py_join_append)

lemma relative_uri_path_nested:
  assumes "uri_parts root = Ok rs" and "uri_parts u = Ok (rs @ qs)" and "qs \<noteq> []"
  shows "relative_uri_path root u = Ok (py_join ''/'' qs)"
  using assms by (simp add: relative_uri_path_def)

lemma relative_uri_path_cases:
  assumes "uri_parts root = Ok rs" and "uri_parts u = Ok ps"
  shows "relative_uri_path root u =
     Ok (if strict_prefix rs ps then py_join ''/'' (drop (length rs) ps) else [])"
proof (cases "strict_prefix rs ps")
  case True
  then obtain q qs where "ps = rs @ q # qs" by (auto elim: strict_prefixE')
  with assms True show ?thesis by (simp add: relative_uri_path_def)
next
  case False
  then have "ps = rs \<or> take (length rs) ps \<noteq> rs"
    by (metis append_take_drop_id prefixI strict_prefixI)
  with assms False show ?thesis by (auto simp: relative_uri_path_def)
qed

section \<open>Classification\<close>

lemma content_segment_index_bound:
  "content_segment_index ps = Some i \<Longrightarrow> i < length ps"
  by (auto simp: content_segment_index_def split: if_splits)

lemma CONTENT_TYPES_simps:
  "CONTENT_TYPES ''memories'' = Some ''memory''"
  "CONTENT_TYPES ''resources'' = Some ''resource''"
  "CONTENT_TYPES ''skills'' = Some ''skill''"
  by (simp_all add: CONTENT_TYPES_def)

lemma CONTENT_TYPES_range: "CONTENT_TYPES s = Some t \<Longrightarrow> t \<in> {''memory'', ''resource'', ''skill''}"
  by (auto simp: CONTENT_TYPES_def split: if_splits)

lemma content_segment_index_types:
  assumes "content_segment_index ps = Some i"
  shows "\<exists>t. CONTENT_TYPES (ps ! i) = Some t \<and>
             CONTENT_TYPES_BY_SCOPE (ps ! 0) = Some CONTENT_TYPES \<and> uc_context_type (classify_parts ps) = t"
proof -
  have sc: "CONTENT_TYPES_BY_SCOPE (ps ! 0) = Some CONTENT_TYPES \<and> (\<exists>t. CONTENT_TYPES (ps ! i) = Some t)"
  proof (cases "length ps \<ge> 2 \<and> take 2 ps = [''agent'', ''skills'']")
    case True
    then obtain r where "ps = ''agent'' # ''skills'' # r"
      by (metis append_Cons append_Nil append_take_drop_id)
    with assms show ?thesis
      by (auto simp: content_segment_index_def CONTENT_TYPES_BY_SCOPE_def CONTENT_TYPES_simps)
  next
    case False
    with assms show ?thesis
      by (auto simp: content_segment_index_def CONTENT_TYPES_BY_SCOPE_def PEER_CONTENT_SEGMENTS_def
          CONTENT_TYPES_simps split: if_splits)
  qed
  then show ?thesis using assms by (auto simp: classify_parts_def)
qed

lemma classify_parts_types: "uc_context_type (classify_parts ps) \<in> {''memory'', ''resource'', ''skill''}"
proof (cases "content_segment_index ps")
  case None
  then show ?thesis by (simp add: classify_parts_def)
next
  case (Some i)
  then obtain t where "CONTENT_TYPES (ps ! i) = Some t" "uc_context_type (classify_parts ps) = t"
    using content_segment_index_types by blast
  then show ?thesis using CONTENT_TYPES_range by blast
qed

section \<open>Canonical forms\<close>

lemma visitable_no_query: "s \<in> VISITABLE_SCOPES \<Longrightarrow> CHR ''?'' \<notin> set s"
  by (auto simp: scope_defs)

lemma parts_scope:
  assumes "path_scope path \<in> VISITABLE_SCOPES"
  shows "\<exists>rest. segs (py_before (CHR ''?'') path) = path_scope path # rest"
proof (cases "CHR ''/'' \<in> set path")
  case True
  then obtain a b where ab: "path = a @ CHR ''/'' # b" "CHR ''/'' \<notin> set a" "path_scope path = a"
    by (rule path_split_first)
  then have "a \<noteq> []" "CHR ''?'' \<notin> set (a @ ''/'')"
    using assms slash_not_in_scope visitable_no_query by auto
  then have "py_before (CHR ''?'') path = a @ CHR ''/'' # py_before (CHR ''?'') b"
    using py_before_append_prefix [of "CHR ''?''" "a @ ''/''" b] ab(1) by simp
  then show ?thesis using ab \<open>a \<noteq> []\<close> by (simp add: segs_append_slash segs_single)
next
  case False
  then have "path_scope path = path" by (rule path_scope_no_slash)
  then show ?thesis
    using assms False slash_not_in_scope visitable_no_query by (simp add: py_before_id segs_single)
qed

text \<open>What \<open>resolve_uri\<close> computes, on the path behind the scheme.\<close>

lemma resolve_uri_path:
  "resolve_uri (scheme_prefix @ path) =
     (if list_all is_slash path then
        Ok \<lparr>rn_uri = scheme_prefix, rn_scope = [], rn_owner_user_id = None, rn_is_container = True\<rparr>
      else if path_scope path \<notin> VISITABLE_SCOPES then Raise ValueError
      else if path_scope path = ''user'' then
        resolve_user_uri (segs (py_before (CHR ''?'') path))
      else if path_scope path = ''~'' \<or> path_scope path = ''session'' then Raise NamespaceShapeError
      else Ok \<lparr>rn_uri = scheme_prefix @ py_rstrip is_slash path, rn_scope = path_scope path,
               rn_owner_user_id = None, rn_is_container = False\<rparr>)"
proof -
  consider (root) "list_all is_slash path"
    | (bad) "\<not> list_all is_slash path" "path_scope path \<notin> VISITABLE_SCOPES"
    | (ok) "\<not> list_all is_slash path" "path_scope path \<in> VISITABLE_SCOPES" by blast
  then show ?thesis
  proof cases
    case root
    then have "segs (py_before (CHR ''?'') path) = []"
      using set_takeWhileD by (intro segs_all_slash) (fastforce simp: list_all_iff py_before_def)
    with root show ?thesis by (simp add: resolve_uri_def VikingURI_def uri_parse_path Let_def)
  next
    case bad
    then show ?thesis by (simp add: resolve_uri_def VikingURI_def uri_parse_path)
  next
    case ok
    then obtain rest where "segs (py_before (CHR ''?'') path) = path_scope path # rest"
      using parts_scope by blast
    with ok show ?thesis
      by (auto simp: resolve_uri_def VikingURI_def uri_parse_path rstrip_scheme_path Let_def)
  qed
qed

lemma resolve_uri_Ok_prefix: "resolve_uri u = Ok r \<Longrightarrow> \<exists>path. u = scheme_prefix @ path"
  by (auto simp: resolve_uri_def res_bind_Ok_iff VikingURI_Ok_iff)

lemma resolve_user_uri_Ok:
  assumes "resolve_user_uri (''user'' # rest) = Ok r"
  shows "rn_uri r = render (''user'' # rest) \<and> rn_scope r = ''user'' \<and>
         rn_owner_user_id r = (case rest of [] \<Rightarrow> None | uid # _ \<Rightarrow> Some uid) \<and>
         (\<forall>uid sfx. rest = uid # sfx \<longrightarrow> validate_user_id uid = None)"
proof (cases rest)
  case Nil
  with assms show ?thesis by (auto simp: resolve_user_uri_def render_def)
next
  case (Cons uid sfx)
  show ?thesis
  proof (cases sfx)
    case Nil
    with Cons assms show ?thesis
      by (auto simp: resolve_user_uri_def render_def split: if_splits)
  next
    case (Cons q qs)
    with \<open>rest = uid # sfx\<close> assms show ?thesis
      by (auto simp: resolve_user_uri_def render_def Let_def res_bind_Ok_iff split: if_splits)
  qed
qed

lemma resolve_user_parts:
  assumes "\<forall>p \<in> set rest. good_seg p"
  shows "resolve_uri (render (''user'' # rest)) = resolve_user_uri (''user'' # rest)"
proof -
  let ?p = "py_join ''/'' (''user'' # rest)"
  have gs: "\<forall>p \<in> set (''user'' # rest). good_seg p" using assms by (simp add: good_seg_def)
  have sc: "path_scope ?p = ''user''"
    by (cases rest) (auto simp: path_scope_def)
  have "\<not> list_all is_slash ?p" by (cases rest) auto
  moreover have "segs (py_before (CHR ''?'') ?p) = ''user'' # rest"
    using uri_parts_render [OF gs] by (simp add: render_def)
  ultimately show ?thesis
    using sc by (simp add: render_def resolve_uri_path scope_defs)
qed

lemma resolve_uri_Ok_user:
  assumes "resolve_uri u = Ok r" and "rn_scope r = ''user''"
  shows "\<exists>rest. uri_parts u = Ok (''user'' # rest) \<and> resolve_user_uri (''user'' # rest) = Ok r \<and>
                rn_uri r = render (''user'' # rest) \<and> (\<forall>p \<in> set rest. good_seg p)"
proof -
  obtain path where u: "u = scheme_prefix @ path" using resolve_uri_Ok_prefix assms(1) by blast
  have c: "path_scope path \<in> VISITABLE_SCOPES" "path_scope path = ''user''"
    "resolve_user_uri (segs (py_before (CHR ''?'') path)) = Ok r"
    using assms unfolding u resolve_uri_path by (auto split: if_splits)
  then obtain rest where "segs (py_before (CHR ''?'') path) = ''user'' # rest"
    using parts_scope by metis
  moreover from this have "\<forall>p \<in> set rest. good_seg p"
    using uri_parts_good [of u] u by simp
  ultimately show ?thesis using c(3) resolve_user_uri_Ok u by simp
qed

lemma resolve_uri_fixpoint:
  assumes "resolve_uri u = Ok r"
  shows "resolve_uri (rn_uri r) = Ok r"
proof -
  obtain path where u: "u = scheme_prefix @ path" using resolve_uri_Ok_prefix assms by blast
  consider (user) "rn_scope r = ''user''"
    | (root) "r = \<lparr>rn_uri = scheme_prefix, rn_scope = [], rn_owner_user_id = None, rn_is_container = True\<rparr>"
    | (other) "\<not> list_all is_slash path" "path_scope path \<in> VISITABLE_SCOPES"
        "path_scope path \<noteq> ''user''" "path_scope path \<noteq> ''~''" "path_scope path \<noteq> ''session''"
        "r = \<lparr>rn_uri = scheme_prefix @ py_rstrip is_slash path, rn_scope = path_scope path,
              rn_owner_user_id = None, rn_is_container = False\<rparr>"
  proof (cases "path_scope path = ''user'' \<and> \<not> list_all is_slash path")
    case True
    then obtain rest where "segs (py_before (CHR ''?'') path) = ''user'' # rest"
      using parts_scope [of path] by (auto simp: scope_defs)
    with True assms have "rn_scope r = ''user''"
      unfolding u resolve_uri_path using resolve_user_uri_Ok by (auto split: if_splits)
    then show thesis by (rule that)
  next
    case False
    with assms show thesis
      using that unfolding u resolve_uri_path by (auto split: if_splits)
  qed
  then show ?thesis
  proof cases
    case user
    then show ?thesis using resolve_uri_Ok_user [OF assms] resolve_user_parts by metis
  next
    case root
    then show ?thesis using resolve_uri_path [of "[]"] by simp
  next
    case other
    then have "path_scope (py_rstrip is_slash path) = path_scope path"
      using path_scope_rstrip slash_not_in_scope by blast
    moreover have "\<not> list_all is_slash (py_rstrip is_slash path)"
      using other(1) py_rstrip_Nil_iff py_rstrip_idem by metis
    ultimately show ?thesis using other by (simp add: resolve_uri_path)
  qed
qed

lemma segs_before_rstrip:
  "segs (py_before (CHR ''?'') (py_rstrip is_slash p)) = segs (py_before (CHR ''?'') p)"
proof -
  obtain t where t: "p = py_rstrip is_slash p @ t" "list_all is_slash t"
    using py_rstrip_decomp by blast
  let ?r = "py_rstrip is_slash p"
  show ?thesis
  proof (cases "CHR ''?'' \<in> set ?r")
    case True
    then have "py_before (CHR ''?'') (?r @ t) = py_before (CHR ''?'') ?r"
      unfolding py_before_def by (rule takeWhile_append1) simp
    with t(1) show ?thesis by simp
  next
    case False
    moreover have "CHR ''?'' \<notin> set t" using t(2) by (auto simp: list_all_iff)
    ultimately have "py_before (CHR ''?'') (?r @ t) = ?r @ t" and "py_before (CHR ''?'') ?r = ?r"
      by (simp_all add: py_before_id)
    then show ?thesis using t segs_append_slashes by metis
  qed
qed

lemma resolve_uri_parts:
  assumes "resolve_uri u = Ok r"
  shows "uri_parts (rn_uri r) = uri_parts u \<and>
         (\<exists>ps. uri_parts u = Ok ps \<and> rn_scope r = (case ps of [] \<Rightarrow> [] | p # _ \<Rightarrow> p)) \<and>
         rn_scope r \<in> {[], ''resources'', ''user'', ''agent''} \<union> INTERNAL_SCOPES"
proof (cases "rn_scope r = ''user''")
  case True
  then obtain rest where "uri_parts u = Ok (''user'' # rest)" "rn_uri r = render (''user'' # rest)"
      "\<forall>p \<in> set rest. good_seg p"
    using resolve_uri_Ok_user [OF assms] by blast
  moreover from this have "uri_parts (rn_uri r) = Ok (''user'' # rest)"
    by (simp add: uri_parts_render good_seg_def)
  ultimately show ?thesis using True by simp
next
  case False
  obtain path where u: "u = scheme_prefix @ path" using resolve_uri_Ok_prefix assms by blast
  show ?thesis
  proof (cases "list_all is_slash path")
    case True
    then have "uri_parts u = Ok []"
      unfolding u uri_parts_path using set_takeWhileD
      by (intro arg_cong [where f = Inr] segs_all_slash) (fastforce simp: list_all_iff py_before_def)
    moreover have "uri_parts scheme_prefix = Ok []"
      using uri_parts_path [of "[]"] by (simp add: py_before_def)
    ultimately show ?thesis
      using assms True unfolding u resolve_uri_path by auto
  next
    case nall: False
    have c: "path_scope path \<in> VISITABLE_SCOPES" "path_scope path \<noteq> ''~''" "path_scope path \<noteq> ''session''"
      "path_scope path \<noteq> ''user'' \<Longrightarrow> r = \<lparr>rn_uri = scheme_prefix @ py_rstrip is_slash path,
         rn_scope = path_scope path, rn_owner_user_id = None, rn_is_container = False\<rparr>"
      using assms nall unfolding u resolve_uri_path by (auto split: if_splits)
    obtain rest where ps: "segs (py_before (CHR ''?'') path) = path_scope path # rest"
      using parts_scope c(1) by blast
    have "path_scope path \<noteq> ''user''"
      using assms nall ps False resolve_user_uri_Ok unfolding u resolve_uri_path
      by (auto split: if_splits)
    with c ps show ?thesis
      unfolding u by (auto simp: segs_before_rstrip scope_defs)
  qed
qed

section \<open>Access\<close>

text \<open>Every request context holds a validated \<open>UserIdentifier\<close>.\<close>

definition ctx_ok :: "request_context \<Rightarrow> bool" where
  "ctx_ok ctx \<longleftrightarrow> validate_user_id (rc_user_id ctx) = None"

lemma ctx_ok_good_seg: "ctx_ok ctx \<Longrightarrow> good_seg (rc_user_id ctx)"
  using validate_identifier_part_safe by (auto simp: ctx_ok_def good_seg_def validate_user_id_def)

lemma resolve_uri_owner:
  assumes "resolve_uri u = Ok r" and "uri_parts u = Ok (''user'' # uid # rest)"
  shows "rn_scope r = ''user'' \<and> rn_owner_user_id r = Some uid \<and> uid \<noteq> []"
proof -
  have sc: "rn_scope r = ''user''" using resolve_uri_parts [OF assms(1)] assms(2) by auto
  then have "resolve_user_uri (''user'' # uid # rest) = Ok r"
    using resolve_uri_Ok_user [OF assms(1)] assms(2) by auto
  then show ?thesis
    using resolve_user_uri_Ok sc uri_parts_good [OF assms(2)] by (auto simp: good_seg_def)
qed

lemma is_accessible_owner:
  assumes "rc_role ctx \<noteq> ''root''" and "is_accessible u ctx = Ok True"
    and "uri_parts u = Ok (''user'' # uid # rest)"
  shows "uid = rc_user_id ctx"
proof -
  obtain r where r: "resolve_uri u = Ok r"
    using assms(1,2) by (auto simp: is_accessible_def split: sum.splits exn.splits)
  with assms(3) have "rn_scope r = ''user''" "rn_owner_user_id r = Some uid" "uid \<noteq> []"
    using resolve_uri_owner by blast+
  with assms(1,2) r show ?thesis
    by (auto simp: is_accessible_def split: if_splits)
qed

lemma is_accessible_own:
  assumes "resolve_uri u = Ok r" and "uri_parts u = Ok (''user'' # rc_user_id ctx # rest)"
  shows "is_accessible u ctx = Ok True"
  using resolve_uri_owner [OF assms] assms(1) by (simp add: is_accessible_def)

lemma is_accessible_upload:
  assumes "rc_role ctx \<noteq> ''root''" and "uri_parts u = Ok (''upload'' # rest)"
  shows "is_accessible u ctx \<noteq> Ok True"
  using assms resolve_uri_parts [of u]
  by (auto simp: is_accessible_def split: sum.splits exn.splits)

lemma canonical_user_root_render: "canonical_user_root ctx = render [''user'', rc_user_id ctx]"
  by (simp add: canonical_user_root_def render_def user_space_fragment_def)

lemma resolve_home_alias:
  assumes "ctx_ok ctx" and "uri_parts u = Ok (''~'' # rest)"
  shows "resolve_request_uri u ctx = Ok (render (''user'' # rc_user_id ctx # rest)) \<and>
         uri_parts (render (''user'' # rc_user_id ctx # rest)) = Ok (''user'' # rc_user_id ctx # rest)"
proof -
  have "\<forall>p \<in> set (''user'' # rc_user_id ctx # rest). good_seg p"
    using uri_parts_good [OF assms(2)] ctx_ok_good_seg [OF assms(1)] by (auto simp: good_seg_def)
  moreover have "resolve_request_uri u ctx = Ok (render (''user'' # rc_user_id ctx # rest))"
    using assms(2)
    by (cases rest) (auto simp: resolve_request_uri_def resolve_current_user_uri_def
        canonical_user_root_render render_def)
  ultimately show ?thesis using uri_parts_render by blast
qed

lemma resolve_session_alias:
  assumes "ctx_ok ctx" and "uri_parts u = Ok (''session'' # rest)"
    and "rc_role ctx = USER \<or> rc_role ctx = ADMIN"
  shows "resolve_request_uri u ctx = Ok (render (''user'' # rc_user_id ctx # ''sessions'' # rest)) \<and>
         uri_parts (render (''user'' # rc_user_id ctx # ''sessions'' # rest)) =
           Ok (''user'' # rc_user_id ctx # ''sessions'' # rest)"
proof -
  have gs: "\<forall>p \<in> set (''user'' # rc_user_id ctx # ''sessions'' # rest). good_seg p"
    using uri_parts_good [OF assms(2)] ctx_ok_good_seg [OF assms(1)] by (auto simp: good_seg_def)
  have "resolve_request_uri u ctx = Ok (render (''user'' # rc_user_id ctx # ''sessions'' # rest))"
  proof (cases rest)
    case Nil
    with assms(2,3) show ?thesis
      by (auto simp: resolve_request_uri_def resolve_current_user_uri_def
          canonical_session_root_def canonical_user_root_render render_def)
  next
    case (Cons q qs)
    moreover from this gs have "q \<noteq> []" by (auto simp: good_seg_def)
    ultimately show ?thesis using assms(2,3)
      by (cases qs) (auto simp: resolve_request_uri_def resolve_current_user_uri_def
          canonical_session_uri_def canonical_session_root_def canonical_user_root_render render_def)
  qed
  with gs show ?thesis using uri_parts_render by blast
qed

lemma uri_parts_root [simp]: "uri_parts scheme_prefix = Ok []"
  using uri_parts_path [of "[]"] by (simp add: py_before_def)

lemma resolve_request_uri_scope:
  assumes "ctx_ok ctx" and "resolve_request_uri u ctx = Ok w" and "uri_parts u = Ok ps"
  shows "\<exists>qs. uri_parts w = Ok qs \<and>
     (qs = ps \<or> (\<exists>rest. (ps = ''~'' # rest \<and> qs = ''user'' # rc_user_id ctx # rest) \<or>
        (ps = ''session'' # rest \<and> qs = ''user'' # rc_user_id ctx # ''sessions'' # rest))) \<and>
     (qs = [] \<or> hd qs \<in> {''resources'', ''user'', ''agent''} \<union> INTERNAL_SCOPES)"
proof -
  consider (home) rest where "ps = ''~'' # rest"
    | (session) rest where "ps = ''session'' # rest" "rc_role ctx = USER \<or> rc_role ctx = ADMIN"
    | (root) "ps = []" "w = scheme_prefix"
    | (resolve) r where "resolve_uri u = Ok r" "w = rn_uri r"
    using assms(2,3)
    by (cases ps) (auto simp: resolve_request_uri_def resolve_current_user_uri_def res_bind_Ok_iff
        split: if_splits)
  then show ?thesis
  proof cases
    case home
    then show ?thesis using resolve_home_alias [OF assms(1)] assms(2,3) by auto
  next
    case session
    then show ?thesis using resolve_session_alias [OF assms(1)] assms(2,3) by auto
  next
    case root
    then show ?thesis by simp
  next
    case resolve
    then show ?thesis
      using resolve_uri_parts [OF resolve(1)] assms(3) uri_parts_good [OF assms(3)]
      by (cases ps) (auto simp: good_seg_def)
  qed
qed

section \<open>Properties\<close>

definition sample_ctx :: request_context where
  "sample_ctx = \<lparr>rc_user = \<lparr>ui_account_id = ''acme'', ui_user_id = ''ada''\<rparr>, rc_role = ''user'', rc_group_ids = [],
     rc_actor_peer_id = None, rc_from_oauth = False, rc_api_key = None, rc_bypass_acl = False\<rparr>"

text \<open>
  C2. Tenant isolation: for a caller who is not root, a resolvable URI in the \<^verbatim>\<open>user\<close> scope is
  accessible exactly when its user segment is the caller's own user id.
\<close>

theorem user_scope_isolation:
  assumes "rc_role ctx \<noteq> ''root''" and "resolve_uri u = Ok r" and "uri_parts u = Ok (''user'' # uid # rest)"
  shows "is_accessible u ctx = Ok (uid = rc_user_id ctx)"
  using resolve_uri_owner [OF assms(2,3)] assms(1,2) by (simp add: is_accessible_def)

theorem user_scope_isolation_witness:
  "is_accessible ''viking://user/bob/memories'' sample_ctx = Ok False"
proof -
  have "resolve_uri ''viking://user/bob/memories'' = Ok \<lparr>rn_uri = ''viking://user/bob/memories'', rn_scope = ''user'',
      rn_owner_user_id = Some ''bob'', rn_is_container = False\<rparr>" by code_simp
  moreover have "uri_parts ''viking://user/bob/memories'' = Ok [''user'', ''bob'', ''memories'']" by code_simp
  moreover have "rc_role sample_ctx \<noteq> ''root''" "rc_user_id sample_ctx = ''ada''" by code_simp+
  ultimately show ?thesis using user_scope_isolation [of sample_ctx "''viking://user/bob/memories''"] by simp
qed

text \<open>
  C9. Canonicalisation is idempotent and keeps the path: resolving the canonical URI gives the same
  result, and the canonical URI has the segments of the URI it came from.
\<close>

theorem resolve_uri_idempotent:
  assumes "resolve_uri u = Ok r"
  shows "resolve_uri (rn_uri r) = Ok r \<and> uri_parts (rn_uri r) = uri_parts u"
  using resolve_uri_fixpoint [OF assms] resolve_uri_parts [OF assms] by blast

theorem resolve_uri_idempotent_witness:
  "resolve_uri ''viking://user/ada//memories/?v=1'' = Ok \<lparr>rn_uri = ''viking://user/ada/memories'', rn_scope = ''user'',
      rn_owner_user_id = Some ''ada'', rn_is_container = False\<rparr> \<and>
   resolve_uri ''viking://user/ada/memories'' = resolve_uri ''viking://user/ada//memories/?v=1''"
proof -
  have "resolve_uri ''viking://user/ada//memories/?v=1'' = Ok \<lparr>rn_uri = ''viking://user/ada/memories'', rn_scope = ''user'',
      rn_owner_user_id = Some ''ada'', rn_is_container = False\<rparr>" by code_simp
  from this resolve_uri_idempotent [OF this] show ?thesis by simp
qed

end
