(* ===== verification/Uri_Validation.thy ===== *)
theory Uri_Validation
  imports Namespace
begin

text \<open>
  \<^verbatim>\<open>openviking/core/uri_validation.py\<close>: what the public API accepts as a URI field. Python's
  optional \<^verbatim>\<open>allowed_scopes\<close> is an optional set. The lemmas show that an accepted URI has an
  allowed scope, that the resolved form never names an internal, legacy or alias scope through the
  public whitelist, and that a content target is accessible and of the requested kind.
\<close>

definition PUBLIC_API_SCOPES :: "string set" where
  "PUBLIC_API_SCOPES = {[]} \<union> PUBLIC_SCOPES \<union> LEGACY_SCOPES \<union> ALIAS_SCOPES"

definition ALL_API_SCOPES :: "string set" where
  "ALL_API_SCOPES = {[]} \<union> VISITABLE_SCOPES"

definition allowed_api_scopes :: "bool \<Rightarrow> string set option \<Rightarrow> string set" where
  "allowed_api_scopes allow_internal allowed_scopes =
     (case allowed_scopes of
        Some scopes \<Rightarrow> scopes
      | None \<Rightarrow> if allow_internal then ALL_API_SCOPES else PUBLIC_API_SCOPES)"

definition validate_viking_uri :: "string \<Rightarrow> bool \<Rightarrow> string set option \<Rightarrow> string res" where
  "validate_viking_uri uri allow_internal allowed_scopes =
     (let raw_uri = strip_space uri in
      if raw_uri = [] then Raise (InvalidURIError uri)
      else
        (case VikingURI raw_uri of
           Inl e \<Rightarrow> if is_ValueError e then Raise (InvalidURIError raw_uri) else Raise e
         | Inr parsed \<Rightarrow>
             if vu_scope parsed \<notin> allowed_api_scopes allow_internal allowed_scopes
             then Raise (InvalidURIError raw_uri)
             else Ok raw_uri))"

definition validate_request_viking_uri ::
    "string \<Rightarrow> request_context \<Rightarrow> bool \<Rightarrow> string set option \<Rightarrow> string res" where
  "validate_request_viking_uri uri ctx allow_internal allowed_scopes =
     res_bind (validate_viking_uri uri allow_internal allowed_scopes) (\<lambda>raw_uri.
       case resolve_request_uri raw_uri ctx of
         Inl e \<Rightarrow> if is_ValueError e then Raise (InvalidURIError raw_uri) else Raise e
       | Inr w \<Rightarrow> Ok w)"

definition matches_content_kind :: "string \<Rightarrow> string \<Rightarrow> bool res" where
  "matches_content_kind uri kind =
     (if kind \<notin> {''resource'', ''skill''} then Raise ValueError
      else
        res_bind (uri_parts uri) (\<lambda>parts.
          if kind = ''resource'' \<and> take 1 parts = [''resources''] then Ok True
          else
            res_bind (classify_uri uri) (\<lambda>c.
              Ok (uc_context_type c = kind \<and> uc_content_index c \<noteq> None))))"

definition validate_content_target_uri :: "string \<Rightarrow> request_context \<Rightarrow> string \<Rightarrow> string res" where
  "validate_content_target_uri uri ctx kind =
     (let raw_uri = strip_space uri in
      if raw_uri = [] then Raise (InvalidURIError uri)
      else
        res_bind (validate_request_viking_uri raw_uri ctx False None) (\<lambda>canonical_uri.
        res_bind (matches_content_kind canonical_uri kind) (\<lambda>matches.
          if matches then
            res_bind (is_accessible canonical_uri ctx) (\<lambda>accessible.
              if accessible then Ok canonical_uri
              else Raise (PermissionDeniedError canonical_uri))
          else Raise (InvalidURIError raw_uri))))"

section \<open>The public whitelist\<close>

lemma validate_viking_uri_Ok:
  assumes "validate_viking_uri u ai sc = Ok w"
  shows "w = strip_space u \<and> (\<exists>v. VikingURI w = Ok v \<and> vu_scope v \<in> allowed_api_scopes ai sc)"
  using assms by (auto simp: validate_viking_uri_def Let_def split: if_splits sum.splits)

lemma VikingURI_scope_parts:
  assumes "VikingURI u = Ok v"
  shows "\<exists>ps. uri_parts u = Ok ps \<and> vu_scope v = (case ps of [] \<Rightarrow> [] | p # _ \<Rightarrow> p)"
proof -
  obtain path where u: "u = scheme_prefix @ path" and ok: "path_ok path"
    and sc: "vu_scope v = (if list_all is_slash path then [] else path_scope path)"
    using assms by (auto simp: VikingURI_Ok_iff vu_scope_def)
  show ?thesis
  proof (cases "list_all is_slash path")
    case True
    then have "segs (py_before (CHR ''?'') path) = []"
      using set_takeWhileD by (intro segs_all_slash) (fastforce simp: list_all_iff py_before_def)
    with u sc True show ?thesis by simp
  next
    case False
    with ok have "path_scope path \<in> VISITABLE_SCOPES" by (simp add: path_ok_def)
    with parts_scope obtain rest where "segs (py_before (CHR ''?'') path) = path_scope path # rest"
      by blast
    with u sc False show ?thesis by simp
  qed
qed

lemma validate_request_public_scope:
  assumes "ctx_ok ctx" and "validate_request_viking_uri u ctx False None = Ok w"
  shows "\<exists>qs. uri_parts w = Ok qs \<and> (qs = [] \<or> hd qs \<in> PUBLIC_SCOPES)"
proof -
  obtain raw where raw: "validate_viking_uri u False None = Ok raw" "resolve_request_uri raw ctx = Ok w"
    using assms(2) by (cases "validate_viking_uri u False None")
      (auto simp: validate_request_viking_uri_def split: sum.splits if_splits)
  obtain v where v: "VikingURI raw = Ok v" "vu_scope v \<in> PUBLIC_API_SCOPES"
    using validate_viking_uri_Ok [OF raw(1)] by (auto simp: allowed_api_scopes_def)
  obtain ps where ps: "uri_parts raw = Ok ps" "vu_scope v = (case ps of [] \<Rightarrow> [] | p # _ \<Rightarrow> p)"
    using VikingURI_scope_parts [OF v(1)] by blast
  then show ?thesis
    using resolve_request_uri_scope [OF assms(1) raw(2) ps(1)] v(2)
    by (cases ps) (auto simp: PUBLIC_API_SCOPES_def scope_defs)
qed

lemma validate_request_error:
  assumes "validate_request_viking_uri u ctx ai sc = Raise e"
  shows "(\<exists>x. e = InvalidURIError x) \<or> \<not> is_ValueError e"
  using assms
  by (auto simp: validate_request_viking_uri_def validate_viking_uri_def Let_def
      split: if_splits sum.splits)

lemma validate_content_target_Ok:
  assumes "validate_content_target_uri u ctx kind = Ok w"
  shows "validate_request_viking_uri (strip_space u) ctx False None = Ok w \<and>
         matches_content_kind w kind = Ok True \<and> is_accessible w ctx = Ok True"
  using assms by (auto simp: validate_content_target_uri_def Let_def res_bind_Ok_iff split: if_splits)

lemma matches_content_kind_resource_or_index:
  assumes "matches_content_kind w kind = Ok True"
  shows "\<exists>ps. uri_parts w = Ok ps \<and>
     (kind = ''resource'' \<and> hd ps = ''resources'' \<and> ps \<noteq> [] \<or>
      (\<exists>i < length ps. content_segment_index ps = Some i \<and> CONTENT_TYPES (ps ! i) = Some kind))"
proof -
  obtain ps where ps: "uri_parts w = Ok ps"
    using assms by (auto simp: matches_content_kind_def res_bind_Ok_iff split: if_splits)
  show ?thesis
  proof (cases "kind = ''resource'' \<and> take 1 ps = [''resources'']")
    case True
    with ps show ?thesis by (cases ps) auto
  next
    case False
    with assms ps have "uc_context_type (classify_parts ps) = kind" "uc_content_index (classify_parts ps) \<noteq> None"
      by (auto simp: matches_content_kind_def classify_uri_def split: if_splits)
    then obtain i where "content_segment_index ps = Some i" "uc_context_type (classify_parts ps) = kind"
      by (auto simp: classify_parts_def Let_def)
    then show ?thesis
      using ps content_segment_index_bound content_segment_index_types by metis
  qed
qed

section \<open>Properties\<close>

text \<open>
  A URI that passes request validation without internal access names a public scope: the
  expansion of aliases cannot lead into an internal one.
\<close>

theorem request_uri_public:
  assumes "ctx_ok ctx" and "validate_request_viking_uri u ctx False None = Ok w"
  shows "\<exists>qs. uri_parts w = Ok qs \<and> (qs = [] \<or> hd qs \<in> PUBLIC_SCOPES)"
  by (rule validate_request_public_scope [OF assms])

theorem request_uri_public_witness:
  "validate_request_viking_uri '' viking://~/skills'' sample_ctx False None = Ok ''viking://user/ada/skills'' \<and>
   (\<exists>qs. uri_parts ''viking://user/ada/skills'' = Ok qs \<and> (qs = [] \<or> hd qs \<in> PUBLIC_SCOPES))"
proof -
  have "validate_request_viking_uri '' viking://~/skills'' sample_ctx False None = Ok ''viking://user/ada/skills''"
    "ctx_ok sample_ctx" by code_simp+
  from this request_uri_public [OF this(2,1)] show ?thesis by blast
qed

text \<open>
  A URI accepted as the target of content has the requested kind and is accessible: a resource
  target lies under \<^verbatim>\<open>resources\<close> or at a content segment of that kind, and for a caller who is not root a target in
  the user scope belongs to the caller.
\<close>

theorem content_target_owned:
  assumes "validate_content_target_uri u ctx kind = Ok w" and "rc_role ctx \<noteq> ''root''"
  shows "\<exists>ps. uri_parts w = Ok ps \<and>
     (kind = ''resource'' \<and> ps \<noteq> [] \<and> hd ps = ''resources'' \<or>
      (\<exists>i < length ps. content_segment_index ps = Some i \<and> CONTENT_TYPES (ps ! i) = Some kind)) \<and>
     (\<forall>uid rest. ps = ''user'' # uid # rest \<longrightarrow> uid = rc_user_id ctx)"
proof -
  note ok = validate_content_target_Ok [OF assms(1)]
  obtain ps where ps: "uri_parts w = Ok ps" "kind = ''resource'' \<and> hd ps = ''resources'' \<and> ps \<noteq> [] \<or>
      (\<exists>i < length ps. content_segment_index ps = Some i \<and> CONTENT_TYPES (ps ! i) = Some kind)"
    using matches_content_kind_resource_or_index ok by blast
  moreover have "uid = rc_user_id ctx" if "ps = ''user'' # uid # rest" for uid rest
    using is_accessible_owner [OF assms(2)] ok ps(1) that by blast
  ultimately show ?thesis by blast
qed

theorem content_target_owned_witness:
  "validate_content_target_uri ''viking://user/ada/resources/x'' sample_ctx ''resource'' = Ok ''viking://user/ada/resources/x'' \<and>
   (\<exists>ps. uri_parts ''viking://user/ada/resources/x'' = Ok ps \<and>
      (\<forall>uid rest. ps = ''user'' # uid # rest \<longrightarrow> uid = ''ada''))"
proof -
  have "validate_content_target_uri ''viking://user/ada/resources/x'' sample_ctx ''resource'' = Ok ''viking://user/ada/resources/x''"
    "rc_role sample_ctx \<noteq> ''root''" "rc_user_id sample_ctx = ''ada''" by code_simp+
  with content_target_owned [OF this(1,2)] show ?thesis by auto
qed

end
