(* ===== verification/PyValue.thy ===== *)
theory PyValue
  imports Prelude Complex_Main
begin

text \<open>
  Dynamically typed Python values: what a JSON body or a stored dictionary can hold, with the
  built-in conversions the modules apply to them (\<^verbatim>\<open>int(...)\<close>, \<^verbatim>\<open>bool(...)\<close>, dictionary
  \<^verbatim>\<open>get\<close>). A dictionary is an association list in insertion order with distinct keys; lookups take
  the first entry. Floats are rationals with the two special values \<^verbatim>\<open>int\<close> rejects differently.
\<close>

datatype pyfloat = Finite rat | Infinite | NotANumber

datatype pyval =
    PNone
  | PBool bool
  | PInt int
  | PFloat pyfloat
  | PStr string
  | PList "pyval list"
  | PDict "(string \<times> pyval) list"

type_synonym pydict = "(string \<times> pyval) list"

definition dict_get :: "pydict \<Rightarrow> string \<Rightarrow> pyval" where
  "dict_get d k = (case map_of d k of None \<Rightarrow> PNone | Some v \<Rightarrow> v)"

definition dict_get_default :: "pydict \<Rightarrow> string \<Rightarrow> pyval \<Rightarrow> pyval" where
  "dict_get_default d k v = (case map_of d k of None \<Rightarrow> v | Some w \<Rightarrow> w)"

fun py_bool :: "pyval \<Rightarrow> bool" where
  "py_bool PNone = False"
| "py_bool (PBool b) = b"
| "py_bool (PInt i) = (i \<noteq> 0)"
| "py_bool (PFloat (Finite q)) = (q \<noteq> 0)"
| "py_bool (PFloat _) = True"
| "py_bool (PStr s) = (s \<noteq> [])"
| "py_bool (PList xs) = (xs \<noteq> [])"
| "py_bool (PDict d) = (d \<noteq> [])"

section \<open>Decimal integers\<close>

definition is_digit :: "char \<Rightarrow> bool" where
  "is_digit c \<longleftrightarrow> (let n = (of_char c :: nat) in 48 \<le> n \<and> n \<le> 57)"

definition digit_val :: "char \<Rightarrow> nat" where
  "digit_val c = of_char c - 48"

text \<open>Digits with single underscores between them, as \<^verbatim>\<open>int(str)\<close> accepts them; \<open>d\<close> says
  whether the previous character was a digit.\<close>

fun int_digits :: "nat \<Rightarrow> bool \<Rightarrow> string \<Rightarrow> nat option" where
  "int_digits acc d [] = (if d then Some acc else None)"
| "int_digits acc d (c # s) =
     (if is_digit c then int_digits (acc * 10 + digit_val c) True s
      else if c = CHR ''_'' \<and> d then int_digits acc False s
      else None)"

definition py_int_str :: "string \<Rightarrow> int res" where
  "py_int_str s =
     (let t = strip_space s;
          (neg, r) = (case t of
             [] \<Rightarrow> (False, [])
           | c # u \<Rightarrow> if c = CHR ''-'' then (True, u) else if c = CHR ''+'' then (False, u) else (False, t))
      in case int_digits 0 False r of
           None \<Rightarrow> Raise ValueError
         | Some n \<Rightarrow> Ok (if neg then - int n else int n))"

text \<open>\<^verbatim>\<open>int(value)\<close>: truncation for floats, \<open>OverflowError\<close> for an infinity (which is neither a
  \<open>TypeError\<close> nor a \<open>ValueError\<close>), \<open>ValueError\<close> for a NaN.\<close>

datatype int_error = IntTypeError | IntValueError | IntOverflowError

fun py_int :: "pyval \<Rightarrow> int_error + int" where
  "py_int PNone = Inl IntTypeError"
| "py_int (PBool b) = Inr (if b then 1 else 0)"
| "py_int (PInt i) = Inr i"
| "py_int (PFloat (Finite q)) = Inr (if q \<ge> 0 then \<lfloor>q\<rfloor> else \<lceil>q\<rceil>)"
| "py_int (PFloat Infinite) = Inl IntOverflowError"
| "py_int (PFloat NotANumber) = Inl IntValueError"
| "py_int (PStr s) = (case py_int_str s of Inr i \<Rightarrow> Inr i | Inl _ \<Rightarrow> Inl IntValueError)"
| "py_int (PList _) = Inl IntTypeError"
| "py_int (PDict _) = Inl IntTypeError"

end
