(* ===== verification/Acl.thy ===== *)
theory Acl
  imports Namespace PyValue "HOL-Library.AList" "HOL-Library.Product_Lexorder"
begin

unbundle bit_operations_syntax

text \<open>
  \<^verbatim>\<open>openviking/storage/acl.py\<close>, the part without storage: levels as bit masks, entries and
  their normal form, the grant tokens of the scalar index and the permission check. A
  \<^verbatim>\<open>DirectAcl\<close> is its tuple of entries. The normal form is \<open>acl_wf\<close>: principals sorted,
  distinct and valid. On normal forms \<open>acl_union\<close> always succeeds and grants exactly what one of
  its arguments grants; the token encoding is a bijection; and asking the index for a token of
  \<open>acl_grant_tokens\<close> is the same question as \<open>acl_allows\<close>.
\<close>

section \<open>Levels, entries, principals\<close>

datatype acl_level = READ | WRITE | MANAGE

datatype acl_action = ActionRead | ActionWrite | ActionManage

datatype creator_acl_grant = GrantDirect | GrantInherited

fun LEVEL_MASK :: "acl_level \<Rightarrow> nat" where
  "LEVEL_MASK READ = 1"
| "LEVEL_MASK WRITE = 3"
| "LEVEL_MASK MANAGE = 7"

definition MASK_LEVEL :: "int \<Rightarrow> acl_level option" where
  "MASK_LEVEL m = (if m = 1 then Some READ else if m = 3 then Some WRITE else if m = 7 then Some MANAGE else None)"

fun level_of_action :: "acl_action \<Rightarrow> acl_level" where
  "level_of_action ActionRead = READ"
| "level_of_action ActionWrite = WRITE"
| "level_of_action ActionManage = MANAGE"

record acl_entry =
  ae_principal :: string
  ae_level :: acl_level

type_synonym direct_acl = "acl_entry list"

definition normalize_acl_principal :: "pyval \<Rightarrow> string res" where
  "normalize_acl_principal value =
     (case value of
        PStr s \<Rightarrow>
          let normalized = strip_space s;
              (kind, separator, identifier) = py_partition (CHR '':'') normalized
          in if \<not> separator \<or> (kind \<noteq> ''user'' \<and> kind \<noteq> ''group'') then Raise InvalidArgumentError
             else if kind = ''user'' then
               (if identifier \<noteq> ''*'' \<and> validate_user_id identifier \<noteq> None
                then Raise InvalidArgumentError else Ok normalized)
             else if identifier = ''*'' then Raise InvalidArgumentError
             else if validate_identifier_part identifier \<noteq> None then Raise InvalidArgumentError
             else Ok normalized
      | _ \<Rightarrow> Raise InvalidArgumentError)"

definition acl_principals :: "request_context \<Rightarrow> string set" where
  "acl_principals ctx =
     {''user:'' @ rc_user_id ctx, ''user:*''} \<union> (\<lambda>g. ''group:'' @ g) ` set (rc_group_ids ctx)"

text \<open>\<^verbatim>\<open>AclLevel(str(value).strip())\<close>; the text of no value but a string is a level name.\<close>

definition normalize_acl_level :: "pyval \<Rightarrow> acl_level res" where
  "normalize_acl_level v =
     (case v of
        PStr s \<Rightarrow>
          let t = strip_space s
          in if t = ''read'' then Ok READ else if t = ''write'' then Ok WRITE
             else if t = ''manage'' then Ok MANAGE else Raise InvalidArgumentError
      | _ \<Rightarrow> Raise InvalidArgumentError)"

section \<open>Grant tokens\<close>

fun mask_digit :: "acl_level \<Rightarrow> char" where
  "mask_digit READ = CHR ''1''"
| "mask_digit WRITE = CHR ''3''"
| "mask_digit MANAGE = CHR ''7''"

definition encode_grant :: "acl_entry \<Rightarrow> string" where
  "encode_grant entry = [mask_digit (ae_level entry)] @ '':'' @ ae_principal entry"

definition decode_grant :: "pyval \<Rightarrow> acl_entry res" where
  "decode_grant raw =
     (case raw of
        PStr s \<Rightarrow>
          let (raw_mask, separator, raw_principal) = py_partition (CHR '':'') s;
              level = (if separator
                       then (case py_int_str raw_mask of
                               Inl _ \<Rightarrow> Raise RuntimeError
                             | Inr m \<Rightarrow> (case MASK_LEVEL m of None \<Rightarrow> Raise RuntimeError | Some l \<Rightarrow> Ok (Some l)))
                       else Ok None)
          in (case level of
                Inl e \<Rightarrow> Raise e
              | Inr lv \<Rightarrow>
                  (case normalize_acl_principal (PStr raw_principal) of
                     Inl _ \<Rightarrow> Raise RuntimeError
                   | Inr prin \<Rightarrow>
                       (case lv of
                          None \<Rightarrow> Raise RuntimeError
                        | Some l \<Rightarrow>
                            let entry = \<lparr>ae_principal = prin, ae_level = l\<rparr>
                            in if s \<noteq> encode_grant entry then Raise RuntimeError else Ok entry)))
      | _ \<Rightarrow> Raise RuntimeError)"

definition acl_grant_tokens :: "string set \<Rightarrow> acl_action \<Rightarrow> string list" where
  "acl_grant_tokens principals action =
     (let required_mask = LEVEL_MASK (level_of_action action)
      in concat (map (\<lambda>prin.
           map (\<lambda>level. encode_grant \<lparr>ae_principal = prin, ae_level = level\<rparr>)
             (filter (\<lambda>level. LEVEL_MASK level AND required_mask = required_mask) [READ, WRITE, MANAGE]))
           (sorted_list_of_set principals)))"

section \<open>Normal form of a list of entries\<close>

datatype raw_entry = RawEntry acl_entry | RawMap pydict

definition raw_principal_level :: "raw_entry \<Rightarrow> (string \<times> acl_level) res" where
  "raw_principal_level raw =
     (case raw of
        RawEntry e \<Rightarrow>
          res_bind (normalize_acl_principal (PStr (ae_principal e))) (\<lambda>p. Ok (p, ae_level e))
      | RawMap d \<Rightarrow>
          res_bind (normalize_acl_principal (dict_get d ''principal'')) (\<lambda>p.
          res_bind (normalize_acl_level (dict_get_default d ''level'' (PStr []))) (\<lambda>l. Ok (p, l))))"

fun normalize_loop :: "raw_entry list \<Rightarrow> (string \<times> acl_level) list \<Rightarrow> (string \<times> acl_level) list res" where
  "normalize_loop [] highest = Ok highest"
| "normalize_loop (raw # entries) highest =
     res_bind (raw_principal_level raw) (\<lambda>(prin, level).
       case map_of highest prin of
         None \<Rightarrow> normalize_loop entries (AList.update prin level highest)
       | Some current \<Rightarrow>
           if LEVEL_MASK level > LEVEL_MASK current
           then normalize_loop entries (AList.update prin level highest)
           else normalize_loop entries highest)"

definition normalize_entries :: "raw_entry list \<Rightarrow> acl_entry list res" where
  "normalize_entries entries =
     res_bind (normalize_loop entries []) (\<lambda>highest.
       Ok (map (\<lambda>prin. \<lparr>ae_principal = prin, ae_level = the (map_of highest prin)\<rparr>)
             (sort (map fst highest))))"

section \<open>Direct and effective ACLs\<close>

definition acl_from_entries :: "raw_entry list \<Rightarrow> direct_acl res" where
  "acl_from_entries entries = normalize_entries entries"

definition acl_empty :: "direct_acl \<Rightarrow> bool" where
  "acl_empty self \<longleftrightarrow> self = []"

definition acl_union :: "direct_acl \<Rightarrow> direct_acl \<Rightarrow> direct_acl res" where
  "acl_union self other = acl_from_entries (map RawEntry (self @ other))"

definition principals_for :: "direct_acl \<Rightarrow> acl_action \<Rightarrow> string set" where
  "principals_for self action =
     (let required_mask = LEVEL_MASK (level_of_action action)
      in ae_principal ` set (filter (\<lambda>entry. LEVEL_MASK (ae_level entry) AND required_mask = required_mask) self))"

definition acl_context_fields :: "direct_acl \<Rightarrow> string list" where
  "acl_context_fields self = map encode_grant self"

text \<open>The stored field: a list of tokens, \<open>None\<close> standing for a missing or null field.\<close>

definition acl_from_context_fields :: "pyval \<Rightarrow> direct_acl res" where
  "acl_from_context_fields raw =
     (if \<not> py_bool raw then acl_from_entries []
      else
        (case raw of
           PList grants \<Rightarrow>
             res_bind (res_map decode_grant grants) (\<lambda>es. acl_from_entries (map RawEntry es))
         | _ \<Rightarrow> Raise RuntimeError))"

record effective_acl =
  ea_enabled :: bool
  ea_direct :: direct_acl
  ea_inherited :: direct_acl

definition acl_permissions :: "effective_acl \<Rightarrow> direct_acl res" where
  "acl_permissions self = acl_union (ea_inherited self) (ea_direct self)"

definition is_acl_uri :: "string \<Rightarrow> bool res" where
  "is_acl_uri uri = res_bind (uri_parts uri) (\<lambda>parts. Ok (take 1 parts = [''resources'']))"

definition acl_ancestors :: "string \<Rightarrow> string list res" where
  "acl_ancestors uri =
     res_bind (uri_parts uri) (\<lambda>parts.
       if take 1 parts \<noteq> [''resources''] then Raise InvalidArgumentError
       else Ok (map (\<lambda>depth. scheme_prefix @ py_join ''/'' (take depth parts)) [1..<Suc (length parts)]))"

definition has_implicit_manage :: "request_context \<Rightarrow> string \<Rightarrow> bool res" where
  "has_implicit_manage ctx uri =
     res_bind (is_acl_uri uri) (\<lambda>b. Ok (b \<and> rc_role ctx = ADMIN))"

definition acl_allows :: "effective_acl \<Rightarrow> request_context \<Rightarrow> acl_action \<Rightarrow> bool res" where
  "acl_allows acl ctx action =
     res_bind (acl_permissions acl) (\<lambda>perms.
       Ok (principals_for perms action \<inter> acl_principals ctx \<noteq> {}))"

section \<open>Levels are ordered by their masks\<close>

instantiation acl_level :: linorder
begin

definition less_eq_acl_level :: "acl_level \<Rightarrow> acl_level \<Rightarrow> bool" where
  "less_eq_acl_level a b \<longleftrightarrow> LEVEL_MASK a \<le> LEVEL_MASK b"

definition less_acl_level :: "acl_level \<Rightarrow> acl_level \<Rightarrow> bool" where
  "less_acl_level a b \<longleftrightarrow> LEVEL_MASK a < LEVEL_MASK b"

instance
proof
  fix a b :: acl_level
  assume "a \<le> b" "b \<le> a"
  then show "a = b" by (cases a; cases b) (simp_all add: less_eq_acl_level_def)
qed (auto simp: less_eq_acl_level_def less_acl_level_def)

end

lemma mask_covers [simp]:
  "LEVEL_MASK l AND LEVEL_MASK r = LEVEL_MASK r \<longleftrightarrow> r \<le> l"
  by (cases l; cases r) (simp_all add: less_eq_acl_level_def)

lemma mask_less [simp]: "LEVEL_MASK a < LEVEL_MASK b \<longleftrightarrow> a < b"
  by (simp add: less_acl_level_def)

lemma READ_le [simp]: "READ \<le> l"
  by (cases l) (simp_all add: less_eq_acl_level_def)

lemma principals_for_iff:
  "p \<in> principals_for acl act \<longleftrightarrow>
     (\<exists>e \<in> set acl. ae_principal e = p \<and> level_of_action act \<le> ae_level e)"
  by (auto simp: principals_for_def)

section \<open>Valid principals\<close>

definition valid_principal :: "string \<Rightarrow> bool" where
  "valid_principal p \<longleftrightarrow> normalize_acl_principal (PStr p) = Ok p"

lemma normalize_acl_principal_Ok:
  assumes "normalize_acl_principal v = Ok p"
  shows "valid_principal p \<and> strip_space p = p"
proof -
  obtain s where v: "v = PStr s"
    using assms by (cases v) (simp_all add: normalize_acl_principal_def)
  have p: "p = strip_space s"
    using assms by (auto simp: v normalize_acl_principal_def Let_def split: prod.splits if_splits)
  then have "normalize_acl_principal (PStr p) = normalize_acl_principal v"
    by (simp add: v normalize_acl_principal_def)
  with assms p show ?thesis by (simp add: valid_principal_def)
qed

lemma valid_principal_strip: "valid_principal p \<Longrightarrow> strip_space p = p"
  using normalize_acl_principal_Ok by (auto simp: valid_principal_def)

lemma normalize_acl_principal_error: "normalize_acl_principal v = Raise e \<Longrightarrow> e = InvalidArgumentError"
  by (auto simp: normalize_acl_principal_def Let_def split: pyval.splits prod.splits if_splits)

section \<open>Normal form\<close>

definition acl_wf :: "direct_acl \<Rightarrow> bool" where
  "acl_wf acl \<longleftrightarrow>
     sorted (map ae_principal acl) \<and> distinct (map ae_principal acl) \<and>
     (\<forall>e \<in> set acl. valid_principal (ae_principal e))"

lemma raw_principal_level_valid: "raw_principal_level r = Ok (p, l) \<Longrightarrow> valid_principal p"
  using normalize_acl_principal_Ok
  by (auto simp: raw_principal_level_def res_bind_Ok_iff split: raw_entry.splits)

lemma raw_principal_level_entry [simp]:
  "valid_principal (ae_principal e) \<Longrightarrow>
     raw_principal_level (RawEntry e) = Ok (ae_principal e, ae_level e)"
  by (simp add: raw_principal_level_def valid_principal_def)

text \<open>Reading \<open>h\<close> as the set of levels it grants: everything up to the stored one.\<close>

definition reach :: "(string \<times> acl_level) list \<Rightarrow> string \<Rightarrow> acl_level \<Rightarrow> bool" where
  "reach h p r \<longleftrightarrow> (\<exists>l. map_of h p = Some l \<and> r \<le> l)"

lemma normalize_loop_Ok_iff:
  "(\<exists>h'. normalize_loop es h = Ok h') \<longleftrightarrow> (\<exists>pls. res_map raw_principal_level es = Ok pls)"
proof (induction es arbitrary: h)
  case (Cons r es)
  show ?case
  proof (cases "raw_principal_level r")
    case (Inr pl)
    obtain p l where "pl = (p, l)" by (cases pl)
    with Inr Cons show ?thesis by (auto simp: res_bind_Ok_iff split: option.splits)
  qed simp
qed simp

lemma normalize_loop_spec:
  assumes "normalize_loop es h = Ok h'" and "res_map raw_principal_level es = Ok pls"
    and "distinct (map fst h)"
  shows "distinct (map fst h') \<and> fst ` set h' = fst ` set h \<union> fst ` set pls \<and>
         (\<forall>p r. reach h' p r \<longleftrightarrow> reach h p r \<or> (\<exists>l. (p, l) \<in> set pls \<and> r \<le> l))"
  using assms
proof (induction es arbitrary: h pls)
  case Nil
  then show ?case by simp
next
  case (Cons raw es)
  obtain q k pls' where raw: "raw_principal_level raw = Ok (q, k)"
    and rest: "res_map raw_principal_level es = Ok pls'" and pls: "pls = (q, k) # pls'"
    using Cons.prems(2) by (auto simp: res_bind_Ok_iff)
  define h1 where "h1 = (case map_of h q of
      None \<Rightarrow> AList.update q k h
    | Some c \<Rightarrow> if c < k then AList.update q k h else h)"
  have run: "normalize_loop es h1 = Ok h'"
    using Cons.prems(1) raw by (auto simp: h1_def split: option.splits if_splits)
  have dist: "distinct (map fst h1)"
    using Cons.prems(3) by (auto simp: h1_def distinct_update split: option.splits)
  have dom: "fst ` set h1 = insert q (fst ` set h)"
    using update_keys [of q k h] by (auto simp: h1_def dom_update image_iff dest: map_of_SomeD split: option.splits)
       (metis fst_conv map_of_SomeD)+
  have rch: "reach h1 p r \<longleftrightarrow> reach h p r \<or> (p = q \<and> r \<le> k)" for p r
    by (auto simp: h1_def reach_def update_conv' split: option.splits)
  from Cons.IH [OF run rest dist] show ?case
    unfolding pls dom rch by auto
qed

lemma normalize_entries_spec:
  assumes "normalize_entries es = Ok acl"
  shows "acl_wf acl \<and>
    (\<exists>pls. res_map raw_principal_level es = Ok pls \<and> ae_principal ` set acl = fst ` set pls \<and>
       (\<forall>p act. p \<in> principals_for acl act \<longleftrightarrow> (\<exists>l. (p, l) \<in> set pls \<and> level_of_action act \<le> l)))"
proof -
  obtain h where h: "normalize_loop es [] = Ok h"
    and acl: "acl = map (\<lambda>p. \<lparr>ae_principal = p, ae_level = the (map_of h p)\<rparr>) (sort (map fst h))"
    using assms by (auto simp: normalize_entries_def res_bind_Ok_iff)
  obtain pls where pls: "res_map raw_principal_level es = Ok pls"
    using normalize_loop_Ok_iff h by blast
  note spec = normalize_loop_spec [OF h pls, simplified]
  have keys: "map ae_principal acl = sort (map fst h)"
    unfolding acl by (simp add: comp_def)
  have valid: "valid_principal p" if p: "p \<in> fst ` set pls" for p
  proof -
    obtain l i where i: "i < length pls" "pls ! i = (p, l)"
      using p by (auto simp: in_set_conv_nth)
    have "list_all2 (\<lambda>x y. raw_principal_level x = Ok y) es pls"
      using pls by (simp add: res_map_Ok_iff)
    from list_all2_nthD2 [OF this i(1)] i(2) show ?thesis
      by (simp add: raw_principal_level_valid)
  qed
  have "acl_wf acl"
    using spec valid unfolding acl_wf_def keys by (auto simp: acl)
  moreover have "p \<in> principals_for acl act \<longleftrightarrow> reach h p (level_of_action act)" for p act
  proof -
    have "p \<in> principals_for acl act \<longleftrightarrow> p \<in> fst ` set h \<and> level_of_action act \<le> the (map_of h p)"
      by (auto simp: principals_for_iff acl)
    also have "\<dots> \<longleftrightarrow> reach h p (level_of_action act)"
    proof (cases "map_of h p")
      case None
      moreover from None have "p \<notin> fst ` set h" by (simp add: map_of_eq_None_iff)
      ultimately show ?thesis by (auto simp: reach_def)
    next
      case (Some l)
      then have "p \<in> fst ` set h" using map_of_SomeD by force
      with Some show ?thesis by (simp add: reach_def)
    qed
    finally show ?thesis .
  qed
  moreover have "ae_principal ` set acl = fst ` set pls"
    using spec keys by (metis image_set set_sort)
  moreover have "reach h p r \<longleftrightarrow> (\<exists>l. (p, l) \<in> set pls \<and> r \<le> l)" for p r
    using normalize_loop_spec [OF h pls] by (simp add: reach_def del: map_of_eq_Some_iff)
  ultimately show ?thesis using pls by auto
qed

lemma normalize_entries_total:
  assumes "res_map raw_principal_level es = Ok pls"
  shows "\<exists>acl. normalize_entries es = Ok acl"
  using normalize_loop_Ok_iff [of es "[]"] assms by (auto simp: normalize_entries_def)

lemma normalize_entries_error:
  "normalize_entries es = Raise e \<Longrightarrow> e = InvalidArgumentError"
proof -
  have pl: "raw_principal_level r = Raise e \<Longrightarrow> e = InvalidArgumentError" for r e
    by (auto simp: raw_principal_level_def normalize_acl_level_def res_bind_def Let_def
        dest: normalize_acl_principal_error
        split: raw_entry.splits sum.splits pyval.splits if_splits)
  have "normalize_loop es h = Raise e \<Longrightarrow> e = InvalidArgumentError" for h
  proof (induction es arbitrary: h)
    case (Cons r es)
    show ?case
    proof (cases "raw_principal_level r")
      case (Inr a)
      with Cons show ?thesis by (cases a) (auto split: option.splits if_splits)
    qed (use Cons pl in auto)
  qed simp
  moreover assume "normalize_entries es = Raise e"
  ultimately show ?thesis
    by (cases "normalize_loop es []") (auto simp: normalize_entries_def)
qed

lemma acl_ext:
  assumes a: "acl_wf a" and b: "acl_wf b" and eq: "\<And>act. principals_for a act = principals_for b act"
  shows "a = b"
proof -
  have ps: "principals_for acl ActionRead = set (map ae_principal acl)" for acl
    by (auto simp: principals_for_iff)
  have m: "map ae_principal a = map ae_principal b"
    using a b eq [of ActionRead] unfolding ps acl_wf_def by (intro sorted_distinct_set_unique) auto
  then have len: "length a = length b" by (metis length_map)
  show ?thesis
  proof (rule nth_equalityI [OF len])
    fix i assume i: "i < length a"
    then have p: "ae_principal (a ! i) = ae_principal (b ! i)" using m len by (metis nth_map)
    have uniq: "e = acl ! i" if "acl_wf acl" "i < length acl" "e \<in> set acl"
        "ae_principal e = ae_principal (acl ! i)" for acl e
      using that by (metis acl_wf_def distinct_map inj_onD nth_mem)
    have iff: "level_of_action act \<le> ae_level (a ! i) \<longleftrightarrow> level_of_action act \<le> ae_level (b ! i)" for act
    proof -
      have "level_of_action act \<le> ae_level (acl ! i) \<longleftrightarrow> ae_principal (acl ! i) \<in> principals_for acl act"
        if "acl_wf acl" "i < length acl" for acl
        using uniq [OF that] that(2) by (auto simp: principals_for_iff)
      then show ?thesis using a b i len p eq by metis
    qed
    have "ae_level (a ! i) = ae_level (b ! i)"
      using iff [of ActionWrite] iff [of ActionManage]
      by (cases "ae_level (a ! i)"; cases "ae_level (b ! i)") (simp_all add: less_eq_acl_level_def)
    with p show "a ! i = b ! i" by simp
  qed
qed

lemma acl_wf_Nil [simp]: "acl_wf []"
  by (simp add: acl_wf_def)

lemma res_map_raw_entries:
  "\<forall>e \<in> set acl. valid_principal (ae_principal e) \<Longrightarrow>
     res_map raw_principal_level (map RawEntry acl) = Ok (map (\<lambda>e. (ae_principal e, ae_level e)) acl)"
  by (induction acl) auto

lemma acl_union_spec:
  assumes "acl_wf a" and "acl_wf b"
  shows "\<exists>c. acl_union a b = Ok c \<and> acl_wf c \<and>
             (\<forall>act. principals_for c act = principals_for a act \<union> principals_for b act)"
proof -
  have rm: "res_map raw_principal_level (map RawEntry (a @ b)) =
      Ok (map (\<lambda>e. (ae_principal e, ae_level e)) (a @ b))"
    using assms by (intro res_map_raw_entries) (auto simp: acl_wf_def)
  then obtain c where c: "acl_union a b = Ok c"
    using normalize_entries_total by (auto simp: acl_union_def acl_from_entries_def)
  from normalize_entries_spec [OF c [unfolded acl_union_def acl_from_entries_def]] rm
  have "acl_wf c" and "\<forall>p act. p \<in> principals_for c act \<longleftrightarrow>
      (\<exists>l. (p, l) \<in> set (map (\<lambda>e. (ae_principal e, ae_level e)) (a @ b)) \<and> level_of_action act \<le> l)"
    by auto
  then have "principals_for c act = principals_for a act \<union> principals_for b act" for act
    by (auto simp: principals_for_iff) force+
  with c \<open>acl_wf c\<close> show ?thesis by blast
qed

lemma normalize_entries_id: "acl_wf acl \<Longrightarrow> normalize_entries (map RawEntry acl) = Ok acl"
proof -
  assume wf: "acl_wf acl"
  obtain c where "acl_union acl [] = Ok c" "acl_wf c"
    "\<forall>act. principals_for c act = principals_for acl act"
    using acl_union_spec [OF wf acl_wf_Nil] by (auto simp: principals_for_def)
  then show ?thesis
    using acl_ext [OF _ wf, of c] by (simp add: acl_union_def acl_from_entries_def)
qed

section \<open>The algebra of permissions\<close>

text \<open>
  What the ACL manager relies on when it accumulates the grants of the ancestors of a URI: a
  union of well-formed grant sets never fails, is well formed, and allows what one of its
  arguments allows; and a well-formed grant set is determined by what it allows.
\<close>

locale permission_algebra =
  fixes wf :: "'a \<Rightarrow> bool"
    and join :: "'a \<Rightarrow> 'a \<Rightarrow> 'a res"
    and none :: 'a
    and allows :: "'a \<Rightarrow> 'act \<Rightarrow> 'p set"
  assumes wf_none: "wf none"
    and allows_none: "allows none act = {}"
    and join_total: "wf a \<Longrightarrow> wf b \<Longrightarrow> \<exists>c. join a b = Ok c"
    and join_wf: "wf a \<Longrightarrow> wf b \<Longrightarrow> join a b = Ok c \<Longrightarrow> wf c"
    and allows_join: "wf a \<Longrightarrow> wf b \<Longrightarrow> join a b = Ok c \<Longrightarrow> allows c act = allows a act \<union> allows b act"
    and extensional: "wf a \<Longrightarrow> wf b \<Longrightarrow> (\<And>act. allows a act = allows b act) \<Longrightarrow> a = b"
begin

lemma joinE:
  assumes "wf a" "wf b"
  obtains c where "join a b = Ok c" "wf c" "\<forall>act. allows c act = allows a act \<union> allows b act"
proof -
  obtain c where c: "join a b = Ok c" using join_total [OF assms] ..
  show thesis
    using that [OF c join_wf [OF assms c]] allows_join [OF assms c] by blast
qed

lemma join_comm:
  assumes "wf a" "wf b"
  shows "join a b = join b a"
proof -
  obtain c where c: "join a b = Ok c" "wf c" "\<forall>act. allows c act = allows a act \<union> allows b act"
    using assms by (rule joinE)
  obtain d where d: "join b a = Ok d" "wf d" "\<forall>act. allows d act = allows b act \<union> allows a act"
    using assms(2,1) by (rule joinE)
  have "c = d" using c d by (intro extensional) auto
  with c d show ?thesis by simp
qed

lemma join_idem: "wf a \<Longrightarrow> join a a = Ok a"
  by (metis extensional joinE sup.idem)

lemma join_none: "wf a \<Longrightarrow> join none a = Ok a"
  by (metis allows_none extensional joinE sup_bot_left wf_none)

lemma fold_join:
  assumes "wf a" and "\<And>x. x \<in> set xs \<Longrightarrow> wf x"
  shows "\<exists>c. fold_res join a xs = Ok c \<and> wf c \<and>
             (\<forall>act. allows c act = allows a act \<union> (\<Union>x \<in> set xs. allows x act))"
  using assms
proof (induction xs arbitrary: a)
  case (Cons x xs)
  obtain c where c: "join a x = Ok c" "wf c" "\<forall>act. allows c act = allows a act \<union> allows x act"
    using joinE [of a x] Cons.prems by (metis list.set_intros(1))
  then obtain d where "fold_res join c xs = Ok d" "wf d"
    "\<forall>act. allows d act = allows c act \<union> (\<Union>x \<in> set xs. allows x act)"
    using Cons.IH [of c] Cons.prems by auto
  with c show ?case by (auto simp: Un_assoc)
qed simp

lemma fold_join_set:
  assumes "wf a" and "\<And>x. x \<in> set xs \<Longrightarrow> wf x" and "set xs = set ys"
  shows "fold_res join a xs = fold_res join a ys"
proof -
  obtain c where c: "fold_res join a xs = Ok c" "wf c"
    "\<forall>act. allows c act = allows a act \<union> (\<Union>x \<in> set xs. allows x act)"
    using fold_join [OF assms(1,2)] by blast
  obtain d where d: "fold_res join a ys = Ok d" "wf d"
    "\<forall>act. allows d act = allows a act \<union> (\<Union>x \<in> set ys. allows x act)"
    using fold_join [OF assms(1), of ys] assms(2,3) by blast
  have "c = d" using c d assms(3) by (intro extensional) auto
  with c d show ?thesis by simp
qed

end

interpretation acl: permission_algebra acl_wf acl_union "[]" principals_for
proof unfold_locales
  fix a b c :: direct_acl and act
  assume "acl_wf a" "acl_wf b"
  from acl_union_spec [OF this] obtain d where d: "acl_union a b = Ok d" "acl_wf d"
    "principals_for d act = principals_for a act \<union> principals_for b act" by blast
  then show "\<exists>c. acl_union a b = Ok c" by blast
  assume "acl_union a b = Ok c"
  with d show "acl_wf c" "principals_for c act = principals_for a act \<union> principals_for b act" by simp_all
qed (auto simp: principals_for_def intro: acl_ext)

section \<open>Grant tokens and the permission check\<close>

lemma encode_grant_inj: "encode_grant e = encode_grant e' \<Longrightarrow> e = e'"
  by (cases e; cases e'; cases "ae_level e"; cases "ae_level e'") (simp_all add: encode_grant_def)

lemma py_int_mask_digit: "py_int_str [mask_digit l] = Ok (int (LEVEL_MASK l))"
  by (cases l) (simp_all add: py_int_str_def py_strip_def py_lstrip_def py_rstrip_def py_isspace_def
      is_digit_def digit_val_def)

lemma decode_encode_grant:
  assumes "valid_principal (ae_principal e)"
  shows "decode_grant (PStr (encode_grant e)) = Ok e"
proof -
  have "CHR '':'' \<notin> set [mask_digit (ae_level e)]" by (cases "ae_level e") simp_all
  then have "py_partition (CHR '':'') (encode_grant e) = ([mask_digit (ae_level e)], True, ae_principal e)"
    using py_partition_append_sep [of "CHR '':''" "[mask_digit (ae_level e)]" "ae_principal e"]
    by (simp add: encode_grant_def)
  moreover have "MASK_LEVEL (int (LEVEL_MASK (ae_level e))) = Some (ae_level e)"
    by (cases "ae_level e") (simp_all add: MASK_LEVEL_def)
  ultimately show ?thesis
    using assms acl_entry.surjective [of e]
    by (simp add: decode_grant_def py_int_mask_digit valid_principal_def Let_def encode_grant_def)
qed

lemma decode_grant_Ok:
  assumes "decode_grant v = Ok e"
  shows "v = PStr (encode_grant e) \<and> valid_principal (ae_principal e)"
proof -
  obtain s where v: "v = PStr s" using assms by (cases v) (simp_all add: decode_grant_def)
  obtain rm sp rp where pt: "py_partition (CHR '':'') s = (rm, sp, rp)" by (metis prod_cases3)
  show ?thesis
    using assms normalize_acl_principal_Ok
    by (auto simp: v decode_grant_def pt Let_def split: if_splits sum.splits option.splits)
qed

lemma acl_context_fields_roundtrip:
  assumes "acl_wf acl"
  shows "acl_from_context_fields (PList (map PStr (acl_context_fields acl))) = Ok acl"
proof (cases "acl = []")
  case True
  then show ?thesis
    by (simp add: acl_from_context_fields_def acl_context_fields_def acl_from_entries_def normalize_entries_def)
next
  case False
  have "res_map decode_grant (map PStr (map encode_grant acl)) = Ok acl"
    using assms
    by (simp add: res_map_Ok_iff list_all2_conv_all_nth decode_encode_grant acl_wf_def)
  with False show ?thesis
    using normalize_entries_id [OF assms]
    by (simp add: acl_from_context_fields_def acl_context_fields_def acl_from_entries_def)
qed

lemma acl_from_context_fields_wf: "acl_from_context_fields v = Ok acl \<Longrightarrow> acl_wf acl"
  using normalize_entries_spec
  by (auto simp: acl_from_context_fields_def acl_from_entries_def res_bind_Ok_iff
      split: if_splits pyval.splits)

lemma acl_grant_tokens_iff:
  assumes "finite P"
  shows "t \<in> set (acl_grant_tokens P act) \<longleftrightarrow>
     (\<exists>p \<in> P. \<exists>l. level_of_action act \<le> l \<and> t = encode_grant \<lparr>ae_principal = p, ae_level = l\<rparr>)"
proof -
  have "set (filter (\<lambda>level. LEVEL_MASK level AND LEVEL_MASK r = LEVEL_MASK r) [READ, WRITE, MANAGE]) =
      {l. r \<le> l}" for r
  proof -
    have "l \<in> set [READ, WRITE, MANAGE]" for l by (cases l) simp_all
    then show ?thesis unfolding mask_covers set_filter by blast
  qed
  then show ?thesis using assms by (auto simp: acl_grant_tokens_def Let_def simp del: filter.simps)
qed

lemma grant_tokens_complete:
  assumes "finite P"
  shows "set (acl_context_fields acl) \<inter> set (acl_grant_tokens P act) \<noteq> {} \<longleftrightarrow>
         principals_for acl act \<inter> P \<noteq> {}"
proof -
  have "e \<in> set acl \<and> encode_grant e \<in> set (acl_grant_tokens P act) \<longleftrightarrow>
        e \<in> set acl \<and> ae_principal e \<in> P \<and> level_of_action act \<le> ae_level e" for e
    using acl_grant_tokens_iff [OF assms] encode_grant_inj
    by (metis acl_entry.select_convs(1,2) acl_entry.surjective old.unit.exhaust)
  then show ?thesis
    by (auto simp: acl_context_fields_def principals_for_iff disjoint_iff)
qed

lemma finite_acl_principals [simp]: "finite (acl_principals ctx)"
  by (simp add: acl_principals_def)

lemma acl_allows_iff:
  assumes "acl_wf (ea_direct acl)" and "acl_wf (ea_inherited acl)"
  shows "acl_allows acl ctx act =
     Ok ((principals_for (ea_direct acl) act \<union> principals_for (ea_inherited acl) act) \<inter>
         acl_principals ctx \<noteq> {})"
proof -
  obtain c where "acl_permissions acl = Ok c"
    "principals_for c act = principals_for (ea_inherited acl) act \<union> principals_for (ea_direct acl) act"
    unfolding acl_permissions_def using acl.joinE assms(2,1) by metis
  then show ?thesis by (simp add: acl_allows_def Un_commute)
qed

section \<open>Ancestors\<close>

lemma acl_ancestors_Ok:
  assumes "acl_ancestors u = Ok as"
  shows "\<exists>ps. uri_parts u = Ok ps \<and> ps \<noteq> [] \<and> hd ps = ''resources'' \<and>
              as = map (\<lambda>d. render (take d ps)) [1..<Suc (length ps)] \<and> last as = render ps"
proof -
  obtain ps where ps: "uri_parts u = Ok ps" "take 1 ps = [''resources'']"
    "as = map (\<lambda>d. render (take d ps)) [1..<Suc (length ps)]"
    using assms by (auto simp: acl_ancestors_def res_bind_Ok_iff render_def split: if_splits)
  then have "ps \<noteq> []" "hd ps = ''resources''" by (cases ps; simp)+
  moreover from this(1) have "[1..<Suc (length ps)] = [1..<length ps] @ [length ps]"
    by (cases ps) simp_all
  then have "last as = render ps" by (simp add: ps(3))
  ultimately show ?thesis using ps by blast
qed

lemma acl_ancestors_parts:
  assumes "acl_ancestors u = Ok as" and "uri_parts u = Ok ps" and "i < length as"
  shows "uri_parts (as ! i) = Ok (take (Suc i) ps)"
proof -
  have as: "as = map (\<lambda>d. render (take d ps)) [1..<Suc (length ps)]"
    using acl_ancestors_Ok [OF assms(1)] assms(2) by auto
  then have "as ! i = render (take (Suc i) ps)" using assms(3) by (simp del: upt_Suc)
  then show ?thesis
    using uri_parts_render uri_parts_good [OF assms(2)] by (metis in_set_takeD)
qed

section \<open>Properties\<close>

definition sample_acl :: direct_acl where
  "sample_acl = [\<lparr>ae_principal = ''group:eng'', ae_level = READ\<rparr>, \<lparr>ae_principal = ''user:ada'', ae_level = WRITE\<rparr>]"

lemma sample_acl_wf: "acl_wf sample_acl"
  unfolding acl_wf_def Ball_set by code_simp

text \<open>
  C3. The filter used for searching agrees with the check used for single reads: a stored record
  carries one of the grant tokens searched for the caller exactly when \<^verbatim>\<open>acl_allows\<close> grants the action
  on the record's effective ACL.
\<close>

theorem search_tokens_agree:
  assumes "acl_wf (ea_direct e)" and "acl_wf (ea_inherited e)"
  shows "acl_allows e ctx act =
     Ok ((set (acl_context_fields (ea_direct e)) \<union> set (acl_context_fields (ea_inherited e))) \<inter>
         set (acl_grant_tokens (acl_principals ctx) act) \<noteq> {})"
  using grant_tokens_complete [OF finite_acl_principals, of "ea_direct e" ctx act]
    grant_tokens_complete [OF finite_acl_principals, of "ea_inherited e" ctx act]
  unfolding acl_allows_iff [OF assms] by (simp add: Int_Un_distrib2)

theorem search_tokens_agree_witness:
  "acl_allows \<lparr>ea_enabled = True, ea_direct = [], ea_inherited = sample_acl\<rparr> sample_ctx ActionWrite = Ok True \<and>
   set (acl_context_fields sample_acl) \<inter> set (acl_grant_tokens (acl_principals sample_ctx) ActionWrite) \<noteq> {}"
proof -
  have "acl_allows \<lparr>ea_enabled = True, ea_direct = [], ea_inherited = sample_acl\<rparr> sample_ctx ActionWrite = Ok True"
    by code_simp
  with search_tokens_agree [of "\<lparr>ea_enabled = True, ea_direct = [], ea_inherited = sample_acl\<rparr>" sample_ctx ActionWrite]
  show ?thesis by (simp add: sample_acl_wf acl_context_fields_def)
qed

text \<open>
  The union of two ACLs grants exactly what either grants, is again in normal form, and does not
  depend on the order; with itself or with the empty ACL it changes nothing.
\<close>

theorem acl_union_semilattice:
  assumes "acl_wf a" and "acl_wf b"
  shows "(\<exists>c. acl_union a b = Ok c \<and> acl_wf c \<and> (\<forall>act. principals_for c act = principals_for a act \<union> principals_for b act)) \<and>
         acl_union a b = acl_union b a \<and> acl_union a a = Ok a \<and> acl_union [] a = Ok a"
  using acl_union_spec [OF assms] acl.join_comm [OF assms] acl.join_idem [OF assms(1)] acl.join_none [OF assms(1)] by blast

theorem acl_union_semilattice_witness:
  "acl_union sample_acl sample_acl = Ok sample_acl \<and> acl_union [] sample_acl = Ok sample_acl"
  using acl_union_semilattice [OF sample_acl_wf sample_acl_wf] by blast

text \<open>
  Stored grants decode to what was encoded: a well-formed ACL survives the round trip through
  the context fields, and a token that decodes is the encoding of what it decodes to.
\<close>

theorem acl_fields_roundtrip:
  assumes "acl_wf acl"
  shows "acl_from_context_fields (PList (map PStr (acl_context_fields acl))) = Ok acl \<and>
         (\<forall>v e. decode_grant v = Ok e \<longrightarrow> v = PStr (encode_grant e))"
  using acl_context_fields_roundtrip [OF assms] decode_grant_Ok by blast

theorem acl_fields_roundtrip_witness:
  "acl_from_context_fields (PList (map PStr (acl_context_fields sample_acl))) = Ok sample_acl"
  using acl_fields_roundtrip [OF sample_acl_wf] by blast

text \<open>
  Normalising raw entries gives a sorted list with one entry for each principal, which grants an
  action to exactly the principals that some entry grants it to; normal forms are unchanged, and the only
  failure is \<^verbatim>\<open>InvalidArgumentError\<close>.
\<close>

theorem normalize_entries_normal_form:
  "case normalize_entries es of
     Inl e \<Rightarrow> e = InvalidArgumentError
   | Inr acl \<Rightarrow> acl_wf acl \<and> normalize_entries (map RawEntry acl) = Ok acl \<and>
       (\<exists>pls. res_map raw_principal_level es = Ok pls \<and>
          (\<forall>p act. p \<in> principals_for acl act \<longleftrightarrow> (\<exists>l. (p, l) \<in> set pls \<and> level_of_action act \<le> l)))"
proof (cases "normalize_entries es")
  case (Inr acl)
  then show ?thesis using normalize_entries_spec [OF Inr] normalize_entries_id by auto
qed (use normalize_entries_error in auto)

end
