(* ===== verification/Expr.thy ===== *)
theory Expr
  imports PyValue
begin

text \<open>
  \<^verbatim>\<open>openviking/storage/expr.py\<close>: the filter expressions of the vector store, one constructor per
  data class. Optional bounds are \<open>PNone\<close> when absent; a timestamp is its text.
\<close>

datatype filter_expr =
    And "filter_expr list"
  | Or "filter_expr list"
  | Eq string pyval
  | In string "pyval list"
  | Range string pyval pyval pyval pyval
  | Contains string string
  | TimeRange string pyval pyval
  | RawDSL pydict
  | PathScope string string int

end
