(* ===== verification/Acl_Manager.thy ===== *)
theory Acl_Manager
  imports Acl Expr
begin

text \<open>
  The class \<^verbatim>\<open>AclManager\<close> of \<^verbatim>\<open>openviking/storage/acl.py\<close>, with the paging of
  \<^verbatim>\<open>_SingleAccountBackend.scroll\<close> and the account filter of \<^verbatim>\<open>get_strict\<close> from
  \<^verbatim>\<open>openviking/storage/viking_vector_index_backend.py\<close>. The vector engine behind them is not
  Python code of the repository: its query, get and upsert are the parameter \<open>store_ops\<close>.

  A computation is a \<open>run\<close>: \<open>None\<close> when it does not return (the scroll loop has no bound of
  its own), otherwise a result or an exception. A context record keeps the fields the ACL code
  reads and writes; everything else of the dictionary is the payload, which the code copies. The
  scroll cursor is the decimal text of an offset; the model keeps the number.
\<close>

type_synonym 'a run = "'a res option"

definition run_bind :: "'a run \<Rightarrow> ('a \<Rightarrow> 'b run) \<Rightarrow> 'b run" where
  "run_bind m f = (case m of None \<Rightarrow> None | Some (Inl e) \<Rightarrow> Some (Inl e) | Some (Inr v) \<Rightarrow> f v)"

abbreviation ret :: "'a res \<Rightarrow> 'a run" where "ret \<equiv> Some"

lemma run_bind_simps [simp]:
  "run_bind None f = None"
  "run_bind (Some (Inl e)) f = Some (Inl e)"
  "run_bind (Some (Inr v)) f = f v"
  by (simp_all add: run_bind_def)

lemma run_bind_Ok_iff:
  "run_bind m f = Some (Inr w) \<longleftrightarrow> (\<exists>v. m = Some (Inr v) \<and> f v = Some (Inr w))"
  by (cases m rule: option.exhaust [case_product sum.exhaust]) (auto simp: run_bind_def split: sum.splits)

section \<open>The context store\<close>

record 'x ctx_record =
  cr_id :: string
  cr_uri :: string
  cr_account :: string
  cr_acl_enabled :: pyval
  cr_direct :: pyval
  cr_inherited :: pyval
  cr_user_id :: "string option"
  cr_creator_grant :: "string option"
  cr_payload :: 'x

text \<open>The engine: a filtered page of records, records by id, and a write that returns the ids
  written (its state after a failure is the engine's business).\<close>

record ('st, 'x) store_ops =
  so_query :: "'st \<Rightarrow> filter_expr \<Rightarrow> nat \<Rightarrow> nat \<Rightarrow> 'x ctx_record list res"
  so_get :: "'st \<Rightarrow> string list \<Rightarrow> 'x ctx_record list res"
  so_upsert :: "'st \<Rightarrow> 'x ctx_record list \<Rightarrow> 'st \<times> string list res"

definition backend_scroll ::
    "('st, 'x) store_ops \<Rightarrow> 'st \<Rightarrow> string \<Rightarrow> filter_expr \<Rightarrow> nat \<Rightarrow> nat option
       \<Rightarrow> ('x ctx_record list \<times> nat option) res" where
  "backend_scroll ops st account f limit cursor =
     (let f' = (if account \<noteq> [] then And [Eq ''account_id'' (PStr account), f] else f);
          offset = (case cursor of None \<Rightarrow> 0 | Some c \<Rightarrow> c)
      in res_bind (so_query ops st f' limit offset) (\<lambda>records.
           Ok (records, if length records = limit then Some (offset + limit) else None)))"

definition backend_get_strict ::
    "('st, 'x) store_ops \<Rightarrow> 'st \<Rightarrow> string \<Rightarrow> string list \<Rightarrow> 'x ctx_record list res" where
  "backend_get_strict ops st account ids =
     res_bind (so_get ops st ids) (\<lambda>records.
       Ok (if account \<noteq> [] then filter (\<lambda>r. cr_account r = account) records else records))"

partial_function (option) scroll_loop ::
    "('st, 'x) store_ops \<Rightarrow> 'st \<Rightarrow> string \<Rightarrow> filter_expr \<Rightarrow> nat option \<Rightarrow> 'x ctx_record list
       \<Rightarrow> 'x ctx_record list run" where
  "scroll_loop ops st account f cursor records =
     (case backend_scroll ops st account f 500 cursor of
        Inl e \<Rightarrow> Some (Inl e)
      | Inr (page, next_cursor) \<Rightarrow>
          (case next_cursor of
             None \<Rightarrow> Some (Inr (records @ page))
           | Some c \<Rightarrow> scroll_loop ops st account f (Some c) (records @ page)))"

definition scroll_all ::
    "('st, 'x) store_ops \<Rightarrow> 'st \<Rightarrow> string \<Rightarrow> filter_expr \<Rightarrow> 'x ctx_record list run" where
  "scroll_all ops st account f = scroll_loop ops st account f None []"

text \<open>\<^verbatim>\<open>[xs[i : i + n] for i in range(0, len(xs), n)]\<close>\<close>

function py_chunks :: "nat \<Rightarrow> 'a list \<Rightarrow> 'a list list" where
  "py_chunks n xs = (if n = 0 \<or> xs = [] then [] else take n xs # py_chunks n (drop n xs))"
  by pat_completeness auto
termination
  by (relation "measure (\<lambda>(n, xs). length xs)") (auto simp: length_greater_0_conv)

declare py_chunks.simps [simp del]

fun run_concat :: "('a \<Rightarrow> 'b list run) \<Rightarrow> 'a list \<Rightarrow> 'b list run" where
  "run_concat f [] = ret (Ok [])"
| "run_concat f (x # xs) =
     run_bind (f x) (\<lambda>ys. run_bind (run_concat f xs) (\<lambda>zs. ret (Ok (ys @ zs))))"

definition records_for_uris ::
    "('st, 'x) store_ops \<Rightarrow> 'st \<Rightarrow> string set \<Rightarrow> request_context \<Rightarrow> 'x ctx_record list run" where
  "records_for_uris ops st uris ctx =
     run_concat (\<lambda>chunk.
         scroll_all ops st (rc_account_id ctx) (Or (map (\<lambda>uri. PathScope ''uri'' uri 0) chunk)))
       (py_chunks 100 (sorted_list_of_set uris))"

definition subtree_records ::
    "('st, 'x) store_ops \<Rightarrow> 'st \<Rightarrow> string \<Rightarrow> request_context \<Rightarrow> 'x ctx_record list run" where
  "subtree_records ops st uri ctx =
     run_bind (scroll_all ops st (rc_account_id ctx) (PathScope ''uri'' uri (-1))) (\<lambda>refs.
       let ids = map cr_id (filter (\<lambda>r. cr_id r \<noteq> []) refs)
       in run_concat (\<lambda>chunk. ret (backend_get_strict ops st (rc_account_id ctx) chunk))
            (py_chunks 500 ids))"

section \<open>Effective ACLs of stored records\<close>

definition effective_fields :: "effective_acl \<Rightarrow> 'x ctx_record \<Rightarrow> 'x ctx_record" where
  "effective_fields self record =
     record\<lparr>cr_acl_enabled := PBool (ea_enabled self),
            cr_direct := PList (map PStr (acl_context_fields (ea_direct self))),
            cr_inherited := PList (map PStr (acl_context_fields (ea_inherited self)))\<rparr>"

definition no_acl :: effective_acl where
  "no_acl = \<lparr>ea_enabled = False, ea_direct = [], ea_inherited = []\<rparr>"

definition effective_from_record :: "'x ctx_record \<Rightarrow> effective_acl res" where
  "effective_from_record record =
     res_bind (acl_from_context_fields (cr_direct record)) (\<lambda>direct.
     res_bind (acl_from_context_fields (cr_inherited record)) (\<lambda>inherited.
       Ok \<lparr>ea_enabled = py_bool (cr_acl_enabled record) \<or> \<not> acl_empty direct \<or> \<not> acl_empty inherited,
           ea_direct = direct, ea_inherited = inherited\<rparr>))"

definition effective_from_records :: "'x ctx_record list \<Rightarrow> effective_acl res" where
  "effective_from_records records =
     (if records = [] then Ok no_acl
      else
        res_bind (res_map effective_from_record records) (\<lambda>values.
          case remdups values of
            [v] \<Rightarrow> Ok v
          | _ \<Rightarrow> Raise RuntimeError))"

definition group_add ::
    "'x ctx_record \<Rightarrow> (string \<times> 'x ctx_record list) list \<Rightarrow> (string \<times> 'x ctx_record list) list" where
  "group_add record grouped =
     (if cr_uri record \<noteq> []
      then AList.update (cr_uri record)
             ((case map_of grouped (cr_uri record) of None \<Rightarrow> [] | Some rs \<Rightarrow> rs) @ [record]) grouped
      else grouped)"

definition group_by_uri :: "'x ctx_record list \<Rightarrow> (string \<times> 'x ctx_record list) list" where
  "group_by_uri records = fold group_add records []"

definition get_direct ::
    "('st, 'x) store_ops \<Rightarrow> 'st \<Rightarrow> string \<Rightarrow> request_context \<Rightarrow> direct_acl run" where
  "get_direct ops st uri ctx =
     run_bind (ret (acl_ancestors uri)) (\<lambda>_.
     run_bind (records_for_uris ops st {uri} ctx) (\<lambda>records.
     run_bind (ret (effective_from_records records)) (\<lambda>e. ret (Ok (ea_direct e)))))"

definition effective_groups ::
    "(string \<times> 'x ctx_record list) list \<Rightarrow> (string \<times> effective_acl) list res" where
  "effective_groups grouped =
     res_map (\<lambda>(uri, items). res_bind (effective_from_records items) (\<lambda>e. Ok (uri, e))) grouped"

definition get_or_empty :: "(string \<times> direct_acl) list \<Rightarrow> string \<Rightarrow> direct_acl" where
  "get_or_empty direct_map uri = (case map_of direct_map uri of None \<Rightarrow> [] | Some d \<Rightarrow> d)"

text \<open>The loop over the ancestors of one URI, and the value stored for it.\<close>

definition accumulate_acl ::
    "(string \<times> direct_acl) list \<Rightarrow> direct_acl \<Rightarrow> string list \<Rightarrow> string \<Rightarrow> effective_acl res" where
  "accumulate_acl direct_map base ancestors uri =
     res_bind (fold_res acl_union base (map (get_or_empty direct_map) ancestors)) (\<lambda>inherited.
       let direct = get_or_empty direct_map uri
       in Ok \<lparr>ea_enabled = \<not> acl_empty inherited \<or> \<not> acl_empty direct,
              ea_direct = direct, ea_inherited = inherited\<rparr>)"

definition dict_fromkeys :: "'a list \<Rightarrow> 'a list" where
  "dict_fromkeys xs = rev (remdups (rev xs))"

definition resolve_many ::
    "('st, 'x) store_ops \<Rightarrow> 'st \<Rightarrow> string list \<Rightarrow> request_context \<Rightarrow> (string \<times> effective_acl) list run" where
  "resolve_many ops st uris ctx =
     (let unique_uris = dict_fromkeys uris in
      run_bind (ret (res_map (\<lambda>uri. res_bind (acl_ancestors uri) (\<lambda>a. Ok (uri, a))) unique_uris)) (\<lambda>paths.
      run_bind (records_for_uris ops st (set unique_uris) ctx) (\<lambda>exact_records.
      let exact_groups = group_by_uri exact_records in
      run_bind (ret (res_map (\<lambda>uri.
          res_bind (effective_from_records (the (map_of exact_groups uri))) (\<lambda>e. Ok (uri, e)))
          (filter (\<lambda>uri. map_of exact_groups uri \<noteq> None) unique_uris))) (\<lambda>result.
      let missing = filter (\<lambda>uri. map_of result uri = None) unique_uris in
      if missing = [] then ret (Ok result)
      else
        run_bind (records_for_uris ops st
            (set (concat (map (\<lambda>uri. the (map_of paths uri)) missing))) ctx) (\<lambda>ancestor_records.
        run_bind (ret (effective_groups (group_by_uri ancestor_records))) (\<lambda>effective.
        let direct_map = map (\<lambda>(uri, e). (uri, ea_direct e)) effective in
        run_bind (ret (res_map (\<lambda>uri.
            res_bind (accumulate_acl direct_map [] (butlast (the (map_of paths uri))) uri)
              (\<lambda>e. Ok (uri, e))) missing)) (\<lambda>rest.
          ret (Ok (result @ rest)))))))))"

definition resolve ::
    "('st, 'x) store_ops \<Rightarrow> 'st \<Rightarrow> string \<Rightarrow> request_context \<Rightarrow> effective_acl run" where
  "resolve ops st uri ctx =
     run_bind (resolve_many ops st [uri] ctx) (\<lambda>result.
       ret (case map_of result uri of None \<Rightarrow> Raise KeyError | Some e \<Rightarrow> Ok e))"

section \<open>The manager\<close>

record acl_manager =
  am_enabled_accounts :: "string set"

definition set_enabled :: "acl_manager \<Rightarrow> string \<Rightarrow> bool \<Rightarrow> acl_manager" where
  "set_enabled self account_id enabled =
     (if enabled then self\<lparr>am_enabled_accounts := insert account_id (am_enabled_accounts self)\<rparr>
      else self\<lparr>am_enabled_accounts := am_enabled_accounts self - {account_id}\<rparr>)"

definition is_enabled :: "acl_manager \<Rightarrow> string \<Rightarrow> bool" where
  "is_enabled self account_id \<longleftrightarrow> account_id \<in> am_enabled_accounts self"

definition parse_creator_grant :: "string option \<Rightarrow> creator_acl_grant option res" where
  "parse_creator_grant raw =
     (case raw of
        None \<Rightarrow> Ok None
      | Some s \<Rightarrow>
          if s = ''direct'' then Ok (Some GrantDirect)
          else if s = ''inherited'' then Ok (Some GrantInherited)
          else Raise ValueError)"

text \<open>\<^verbatim>\<open>ancestors[-2] if len(ancestors) > 1 else None\<close>\<close>

definition acl_parent :: "string \<Rightarrow> string option res" where
  "acl_parent uri =
     res_bind (acl_ancestors uri) (\<lambda>ancestors.
       Ok (if length ancestors > 1 then Some (ancestors ! (length ancestors - 2)) else None))"

text \<open>The ACL given to a record whose URI has none yet.\<close>

definition new_record_acl ::
    "direct_acl \<Rightarrow> string option \<Rightarrow> creator_acl_grant option \<Rightarrow> effective_acl res" where
  "new_record_acl parent_permissions creator creator_grant =
     res_bind
       (if truthy_opt creator \<and> creator_grant \<noteq> None then
          res_bind (acl_from_entries
              [RawEntry \<lparr>ae_principal = ''user:'' @ the creator, ae_level = MANAGE\<rparr>]) (\<lambda>creator_acl.
            if creator_grant = Some GrantDirect then Ok (creator_acl, parent_permissions)
            else res_bind (acl_union parent_permissions creator_acl) (\<lambda>inherited. Ok ([], inherited)))
        else Ok ([], parent_permissions))
       (\<lambda>(direct, inherited).
          Ok \<lparr>ea_enabled = \<not> acl_empty direct \<or> \<not> acl_empty inherited,
              ea_direct = direct, ea_inherited = inherited\<rparr>)"

definition materialize_record ::
    "string set \<Rightarrow> (string \<times> effective_acl) list \<Rightarrow> (string \<times> string option) list
       \<Rightarrow> (string \<times> effective_acl) list \<Rightarrow> 'x ctx_record \<Rightarrow> 'x ctx_record res" where
  "materialize_record resource_uris existing_acl parents parent_acl record0 =
     (let record = record0\<lparr>cr_creator_grant := None\<rparr> in
      res_bind (parse_creator_grant (cr_creator_grant record0)) (\<lambda>creator_grant.
        if cr_uri record \<notin> resource_uris then Ok record
        else
          (case map_of existing_acl (cr_uri record) of
             Some effective \<Rightarrow> Ok (effective_fields effective record)
           | None \<Rightarrow>
               (case map_of parents (cr_uri record) of
                  None \<Rightarrow> Raise KeyError
                | Some parent \<Rightarrow>
                    res_bind
                      (case parent of
                         None \<Rightarrow> Ok []
                       | Some p \<Rightarrow> (case map_of parent_acl p of None \<Rightarrow> Raise KeyError | Some e \<Rightarrow> acl_permissions e))
                      (\<lambda>inherited.
                    res_bind (new_record_acl inherited (cr_user_id record) creator_grant) (\<lambda>effective.
                      Ok (effective_fields effective record)))))))"

definition materialize_context_records ::
    "('st, 'x) store_ops \<Rightarrow> 'st \<Rightarrow> acl_manager \<Rightarrow> 'x ctx_record list \<Rightarrow> request_context
       \<Rightarrow> 'x ctx_record list run" where
  "materialize_context_records ops st self records ctx =
     (if \<not> is_enabled self (rc_account_id ctx) then
        ret (Ok (map (\<lambda>r. r\<lparr>cr_creator_grant := None\<rparr>) records))
      else
        run_bind (ret (res_map (\<lambda>uri. res_bind (is_acl_uri uri) (\<lambda>b. Ok (uri, b)))
            (filter (\<lambda>uri. uri \<noteq> []) (map cr_uri records)))) (\<lambda>checked.
        let resource_uris = fst ` set (filter snd checked) in
        if resource_uris = {} then ret (Ok records)
        else
          run_bind (records_for_uris ops st resource_uris ctx) (\<lambda>existing.
          run_bind (ret (effective_groups (group_by_uri existing))) (\<lambda>existing_acl.
          let new_uris = sorted_list_of_set (resource_uris - fst ` set existing_acl) in
          run_bind (ret (res_map (\<lambda>uri. res_bind (acl_parent uri) (\<lambda>p. Ok (uri, p))) new_uris)) (\<lambda>parents.
          run_bind (resolve_many ops st (List.map_filter snd parents) ctx) (\<lambda>parent_acl.
            ret (res_map (materialize_record resource_uris existing_acl parents parent_acl) records)))))))"

definition materialize_moved_record ::
    "('st, 'x) store_ops \<Rightarrow> 'st \<Rightarrow> 'x ctx_record \<Rightarrow> string \<Rightarrow> request_context \<Rightarrow> effective_acl run" where
  "materialize_moved_record ops st record new_uri ctx =
     run_bind (ret (is_acl_uri new_uri)) (\<lambda>b.
       if \<not> b then ret (Ok no_acl)
       else
         run_bind (ret (acl_parent new_uri)) (\<lambda>parent.
         run_bind (case parent of
                     None \<Rightarrow> ret (Ok [])
                   | Some p \<Rightarrow> run_bind (resolve ops st p ctx) (\<lambda>e. ret (acl_permissions e))) (\<lambda>inherited.
         run_bind (ret (is_acl_uri (cr_uri record))) (\<lambda>src.
         run_bind (if src then ret (acl_from_context_fields (cr_direct record)) else ret (Ok [])) (\<lambda>direct.
           ret (Ok \<lparr>ea_enabled = \<not> acl_empty direct \<or> \<not> acl_empty inherited,
                    ea_direct = direct, ea_inherited = inherited\<rparr>))))))"

section \<open>Changing the ACL of a subtree\<close>

text \<open>The new effective ACL of every URI of the subtree, as \<^verbatim>\<open>_apply_subtree\<close> computes it.\<close>

definition subtree_effective ::
    "string \<Rightarrow> (string \<times> effective_acl) list \<Rightarrow> direct_acl option \<Rightarrow> direct_acl \<Rightarrow> nat
       \<Rightarrow> (string \<times> effective_acl) list res" where
  "subtree_effective root_uri effective root_direct base root_depth =
     (let direct_map = map (\<lambda>(uri, e). (uri, ea_direct e)) effective;
          direct_map = (case root_direct of None \<Rightarrow> direct_map | Some d \<Rightarrow> AList.update root_uri d direct_map)
      in res_map (\<lambda>uri.
           res_bind (acl_ancestors uri) (\<lambda>ancestors.
           res_bind (accumulate_acl direct_map base (butlast (drop (root_depth - 1) ancestors)) uri)
             (\<lambda>e. Ok (uri, e)))) (map fst effective))"

definition apply_subtree ::
    "('st, 'x) store_ops \<Rightarrow> 'st \<Rightarrow> string \<Rightarrow> 'x ctx_record list \<Rightarrow> request_context \<Rightarrow> direct_acl option
       \<Rightarrow> 'st \<times> effective_acl run" where
  "apply_subtree ops st root_uri records ctx root_direct =
     (let grouped = group_by_uri records in
      if map_of grouped root_uri = None then (st, ret (Raise InvalidArgumentError))
      else
        case run_bind (ret (effective_groups grouped)) (\<lambda>effective.
             run_bind (ret (acl_ancestors root_uri)) (\<lambda>root_ancestors.
             run_bind (if length root_ancestors > 1
                       then run_bind (resolve ops st (root_ancestors ! (length root_ancestors - 2)) ctx)
                              (\<lambda>e. ret (acl_permissions e))
                       else ret (Ok [])) (\<lambda>base.
               ret (subtree_effective root_uri effective root_direct base (length root_ancestors))))) of
          None \<Rightarrow> (st, None)
        | Some (Inl e) \<Rightarrow> (st, ret (Raise e))
        | Some (Inr effective_by_uri) \<Rightarrow>
            let updated =
                  List.map_filter (\<lambda>r.
                    map_option (\<lambda>e. effective_fields e r) (map_of effective_by_uri (cr_uri r))) records;
                (st', ids) = so_upsert ops st updated
            in (case ids of
                  Inl e \<Rightarrow> (st', ret (Raise e))
                | Inr is \<Rightarrow>
                    if length is \<noteq> length updated then (st', ret (Raise RuntimeError))
                    else (st', ret (case map_of effective_by_uri root_uri of
                                      None \<Rightarrow> Raise KeyError
                                    | Some e \<Rightarrow> Ok e))))"

definition refresh_context_subtree ::
    "('st, 'x) store_ops \<Rightarrow> 'st \<Rightarrow> string \<Rightarrow> request_context \<Rightarrow> 'st \<times> unit run" where
  "refresh_context_subtree ops st uri ctx =
     (case subtree_records ops st uri ctx of
        None \<Rightarrow> (st, None)
      | Some (Inl e) \<Rightarrow> (st, ret (Raise e))
      | Some (Inr records) \<Rightarrow>
          if records = [] then (st, ret (Ok ()))
          else (case apply_subtree ops st uri records ctx None of
                  (st', r) \<Rightarrow> (st', run_bind r (\<lambda>_. ret (Ok ())))))"

definition set_direct ::
    "('st, 'x) store_ops \<Rightarrow> 'st \<Rightarrow> string \<Rightarrow> raw_entry list \<Rightarrow> request_context
       \<Rightarrow> 'st \<times> effective_acl run" where
  "set_direct ops st uri entries ctx =
     (case run_bind (ret (uri_parts uri)) (\<lambda>parts.
           if parts = [''resources''] then ret (Raise InvalidArgumentError)
           else
             run_bind (ret (acl_from_entries entries)) (\<lambda>proposed.
             run_bind (subtree_records ops st uri ctx) (\<lambda>old_records.
               ret (Ok (proposed, old_records))))) of
        None \<Rightarrow> (st, None)
      | Some (Inl e) \<Rightarrow> (st, ret (Raise e))
      | Some (Inr (proposed, old_records)) \<Rightarrow>
          (case apply_subtree ops st uri old_records ctx (Some proposed) of
             (st', Some (Inl e)) \<Rightarrow>
               if old_records \<noteq> []
               then (case so_upsert ops st' old_records of
                       (st'', Inl e') \<Rightarrow> (st'', ret (Raise e'))
                     | (st'', Inr _) \<Rightarrow> (st'', ret (Raise e)))
               else (st', ret (Raise e))
           | (st', r) \<Rightarrow> (st', r)))"

record acl_report =
  rp_uri :: string
  rp_enabled :: bool
  rp_direct :: direct_acl
  rp_inherited :: direct_acl
  rp_effective :: direct_acl

definition to_report :: "string \<Rightarrow> effective_acl \<Rightarrow> acl_report res" where
  "to_report uri effective =
     res_bind (acl_permissions effective) (\<lambda>perms.
       Ok \<lparr>rp_uri = uri, rp_enabled = ea_enabled effective, rp_direct = ea_direct effective,
           rp_inherited = ea_inherited effective, rp_effective = perms\<rparr>)"

section \<open>Scrolling returns every hit\<close>

text \<open>What the engine documents of a query: a page is a slice of the hits of the filter.\<close>

definition pages :: "('st, 'x) store_ops \<Rightarrow> 'st \<Rightarrow> filter_expr \<Rightarrow> 'x ctx_record list \<Rightarrow> bool" where
  "pages ops st f hits \<longleftrightarrow> (\<forall>limit offset. so_query ops st f limit offset = Ok (take limit (drop offset hits)))"

abbreviation account_filter :: "string \<Rightarrow> filter_expr \<Rightarrow> filter_expr" where
  "account_filter account f \<equiv> And [Eq ''account_id'' (PStr account), f]"

lemma scroll_loop_pages:
  assumes "account \<noteq> []" and "pages ops st (account_filter account f) hits"
  shows "scroll_loop ops st account f cursor acc =
           Some (Ok (acc @ drop (case cursor of None \<Rightarrow> 0 | Some c \<Rightarrow> c) hits))"
proof (induction "length hits - (case cursor of None \<Rightarrow> 0 | Some c \<Rightarrow> c)" arbitrary: cursor acc rule: less_induct)
  case less
  define o' where "o' = (case cursor of None \<Rightarrow> 0 | Some c \<Rightarrow> c)"
  have bs: "backend_scroll ops st account f 500 cursor =
      Ok (take 500 (drop o' hits), if length (take 500 (drop o' hits)) = 500 then Some (o' + 500) else None)"
    using assms by (simp add: backend_scroll_def pages_def o'_def Let_def)
  show ?case
  proof (cases "length (take 500 (drop o' hits)) = 500")
    case True
    then have "length hits - (o' + 500) < length hits - o'" by simp
    then have "scroll_loop ops st account f (Some (o' + 500)) (acc @ take 500 (drop o' hits)) =
        Some (Ok ((acc @ take 500 (drop o' hits)) @ drop (o' + 500) hits))"
      using less [of "Some (o' + 500)"] by (simp add: o'_def)
    moreover have "take 500 (drop o' hits) @ drop (o' + 500) hits = drop o' hits"
      by (metis add.commute append_take_drop_id drop_drop)
    ultimately show ?thesis
      using bs True by (subst scroll_loop.simps) (simp add: o'_def)
  next
    case False
    moreover from this have "take 500 (drop o' hits) = drop o' hits" by simp
    ultimately have "backend_scroll ops st account f 500 cursor = Ok (drop o' hits, None)"
      using bs by simp
    then show ?thesis by (subst scroll_loop.simps) (simp add: o'_def)
  qed
qed

lemma scroll_all_complete:
  assumes "account \<noteq> []" and "pages ops st (account_filter account f) hits"
  shows "scroll_all ops st account f = Some (Ok hits)"
  unfolding scroll_all_def using scroll_loop_pages [OF assms, of None "[]"] by simp

section \<open>Records by URI\<close>

text \<open>The records of the store that the exact filter of a set of URIs selects.\<close>

definition recs_of :: "'x ctx_record list \<Rightarrow> string \<Rightarrow> string \<Rightarrow> 'x ctx_record list" where
  "recs_of recs account uri = filter (\<lambda>r. cr_account r = account \<and> cr_uri r = uri) recs"

definition exact_pages :: "('st, 'x) store_ops \<Rightarrow> 'st \<Rightarrow> 'x ctx_record list \<Rightarrow> bool" where
  "exact_pages ops st recs \<longleftrightarrow>
     (\<forall>account us. pages ops st (account_filter account (Or (map (\<lambda>u. PathScope ''uri'' u 0) us)))
                    (filter (\<lambda>r. cr_account r = account \<and> cr_uri r \<in> set us) recs))"

lemma run_concat_ok:
  "(\<And>x. x \<in> set xs \<Longrightarrow> f x = Some (Ok (g x))) \<Longrightarrow> run_concat f xs = Some (Ok (concat (map g xs)))"
  by (induction xs) simp_all

lemma concat_py_chunks: "0 < n \<Longrightarrow> concat (py_chunks n xs) = xs"
  by (induction n xs rule: py_chunks.induct) (subst py_chunks.simps, auto)

lemma records_for_uris_chunks:
  assumes "rc_account_id ctx \<noteq> []" and "exact_pages ops st recs"
  shows "records_for_uris ops st uris ctx =
     Some (Ok (concat (map (\<lambda>chunk. filter (\<lambda>r. cr_account r = rc_account_id ctx \<and> cr_uri r \<in> set chunk) recs)
       (py_chunks 100 (sorted_list_of_set uris)))))"
  unfolding records_for_uris_def
  using assms by (intro run_concat_ok scroll_all_complete) (auto simp: exact_pages_def)

lemma filter_chunks:
  assumes "0 < n" and "distinct xs"
  shows "filter (\<lambda>r. cr_uri r = u)
           (concat (map (\<lambda>chunk. filter (\<lambda>r. P r \<and> cr_uri r \<in> set chunk) recs) (py_chunks n xs))) =
         (if u \<in> set xs then filter (\<lambda>r. P r \<and> cr_uri r = u) recs else [])"
  using assms
proof (induction n xs rule: py_chunks.induct)
  case (1 n xs)
  have none: "filter (\<lambda>r. (P r \<and> cr_uri r \<in> set ys) \<and> cr_uri r = u) recs = []" if "u \<notin> set ys" for ys
    using that by (auto simp: filter_empty_conv)
  have some: "filter (\<lambda>r. (P r \<and> cr_uri r \<in> set ys) \<and> cr_uri r = u) recs = filter (\<lambda>r. P r \<and> cr_uri r = u) recs"
    if "u \<in> set ys" for ys
    using that by (intro filter_cong) auto
  show ?case
  proof (cases "xs = []")
    case True
    then show ?thesis by (simp add: py_chunks.simps)
  next
    case False
    have IH: "filter (\<lambda>r. cr_uri r = u)
        (concat (map (\<lambda>chunk. filter (\<lambda>r. P r \<and> cr_uri r \<in> set chunk) recs) (py_chunks n (drop n xs)))) =
        (if u \<in> set (drop n xs) then filter (\<lambda>r. P r \<and> cr_uri r = u) recs else [])"
      using "1.IH" False "1.prems" by simp
    have split: "set xs = set (take n xs) \<union> set (drop n xs)" "set (take n xs) \<inter> set (drop n xs) = {}"
      using "1.prems"(2) by (metis append_take_drop_id set_append, metis append_take_drop_id distinct_append)
    have "py_chunks n xs = take n xs # py_chunks n (drop n xs)"
      using False "1.prems"(1) by (subst py_chunks.simps) simp
    moreover have "filter (\<lambda>r. cr_uri r = u) (filter (\<lambda>r. P r \<and> cr_uri r \<in> set (take n xs)) recs) =
        (if u \<in> set (take n xs) then filter (\<lambda>r. P r \<and> cr_uri r = u) recs else [])"
      using none [of "take n xs"] some [of "take n xs"] by (simp add: conj_commute)
    ultimately show ?thesis
      using IH split by (simp del: filter_filter) blast
  qed
qed

lemma records_for_uris_exact:
  assumes "rc_account_id ctx \<noteq> []" and "exact_pages ops st recs" and "finite uris"
  shows "\<exists>rs. records_for_uris ops st uris ctx = Some (Ok rs) \<and>
     (\<forall>u. filter (\<lambda>r. cr_uri r = u) rs = (if u \<in> uris then recs_of recs (rc_account_id ctx) u else []))"
proof (intro exI conjI allI)
  show "filter (\<lambda>r. cr_uri r = u)
     (concat (map (\<lambda>chunk. filter (\<lambda>r. cr_account r = rc_account_id ctx \<and> cr_uri r \<in> set chunk) recs)
       (py_chunks 100 (sorted_list_of_set uris)))) =
     (if u \<in> uris then recs_of recs (rc_account_id ctx) u else [])" for u
    using filter_chunks [of 100 "sorted_list_of_set uris" u "\<lambda>r. cr_account r = rc_account_id ctx" recs] assms(3)
    by (simp add: recs_of_def)
qed (rule records_for_uris_chunks [OF assms(1,2)])

section \<open>Grouping\<close>

lemma group_add_invariant:
  assumes "\<forall>u g. map_of G u = Some g \<longrightarrow> g \<noteq> []"
  shows "\<forall>u g. map_of (group_add r G) u = Some g \<longrightarrow> g \<noteq> []"
  using assms by (auto simp: group_add_def update_conv')

lemma group_fold_lookup:
  assumes "\<forall>u g. map_of G u = Some g \<longrightarrow> g \<noteq> []"
  shows "map_of (fold group_add rs G) u =
     (let g = (case map_of G u of None \<Rightarrow> [] | Some g \<Rightarrow> g) @ filter (\<lambda>r. cr_uri r = u \<and> u \<noteq> []) rs
      in if g = [] then None else Some g)"
  using assms
proof (induction rs arbitrary: G)
  case Nil
  then show ?case by (auto split: option.splits)
next
  case (Cons r rs)
  have inv: "\<forall>u g. map_of (group_add r G) u = Some g \<longrightarrow> g \<noteq> []"
    using group_add_invariant Cons.prems by blast
  from Cons.IH [OF inv] show ?case
    using Cons.prems by (auto simp: group_add_def update_conv' Let_def split: option.splits)
qed

lemma group_by_uri_lookup:
  "u \<noteq> [] \<Longrightarrow> map_of (group_by_uri rs) u =
     (if filter (\<lambda>r. cr_uri r = u) rs = [] then None else Some (filter (\<lambda>r. cr_uri r = u) rs))"
  unfolding group_by_uri_def by (subst group_fold_lookup) (simp_all add: Let_def)

lemma group_by_uri_Nil [simp]: "map_of (group_by_uri rs) [] = None"
  unfolding group_by_uri_def by (subst group_fold_lookup) (simp_all add: Let_def)

lemma effective_groups_lookup:
  assumes "effective_groups g = Ok eff"
  shows "map fst eff = map fst g \<and>
     (\<forall>u items. map_of g u = Some items \<longrightarrow>
        (\<exists>e. effective_from_records items = Ok e \<and> map_of eff u = Some e))"
  using assms unfolding effective_groups_def
proof (induction g arbitrary: eff)
  case (Cons a g)
  then show ?case by (cases a) (auto simp: res_bind_Ok_iff)
qed simp

lemma effective_groups_total:
  assumes "\<And>u items. (u, items) \<in> set g \<Longrightarrow> \<exists>e. effective_from_records items = Ok e"
  shows "\<exists>eff. effective_groups g = Ok eff"
  using assms unfolding effective_groups_def
proof (induction g)
  case (Cons a g)
  then obtain eff where "res_map (\<lambda>(uri, items). res_bind (effective_from_records items) (\<lambda>e. Ok (uri, e))) g = Ok eff"
    by (metis list.set_intros(2))
  with Cons.prems [of "fst a" "snd a"] show ?case by (cases a) auto
qed simp

lemma effective_from_record_wf:
  "effective_from_record r = Ok e \<Longrightarrow> acl_wf (ea_direct e) \<and> acl_wf (ea_inherited e)"
  by (auto simp: effective_from_record_def res_bind_Ok_iff dest: acl_from_context_fields_wf)

lemma effective_from_records_wf:
  assumes "effective_from_records rs = Ok e"
  shows "acl_wf (ea_direct e) \<and> acl_wf (ea_inherited e)"
proof (cases "rs = []")
  case True
  with assms show ?thesis by (auto simp: effective_from_records_def no_acl_def)
next
  case False
  then obtain vs where vs: "res_map effective_from_record rs = Ok vs"
    using assms by (auto simp: effective_from_records_def res_bind_Ok_iff)
  with False assms have "remdups vs = [e]"
    by (auto simp: effective_from_records_def split: list.splits)
  then have "e \<in> set vs" by (metis list.set_intros(1) set_remdups)
  with vs obtain i where "i < length rs" "effective_from_record (rs ! i) = Ok e"
    by (auto simp: res_map_Ok_iff list_all2_conv_all_nth in_set_conv_nth)
  then show ?thesis using effective_from_record_wf by blast
qed

section \<open>Resolution inherits from the ancestors\<close>

definition stored_acl :: "'x ctx_record list \<Rightarrow> string \<Rightarrow> string \<Rightarrow> effective_acl res" where
  "stored_acl recs account uri = effective_from_records (recs_of recs account uri)"

definition stored_direct :: "'x ctx_record list \<Rightarrow> string \<Rightarrow> string \<Rightarrow> direct_acl" where
  "stored_direct recs account uri =
     (case stored_acl recs account uri of Inl _ \<Rightarrow> [] | Inr e \<Rightarrow> ea_direct e)"

text \<open>The ACL fields of every URI decode, and agree between the records of one URI.\<close>

definition acl_consistent :: "'x ctx_record list \<Rightarrow> string \<Rightarrow> bool" where
  "acl_consistent recs account \<longleftrightarrow>
     list_all (\<lambda>u. \<not> isl (stored_acl recs account u)) (map cr_uri recs)"

lemma acl_consistentD: "acl_consistent recs account \<Longrightarrow> \<exists>e. stored_acl recs account u = Ok e"
proof (cases "u \<in> cr_uri ` set recs")
  case True
  moreover assume "acl_consistent recs account"
  ultimately have "\<not> isl (stored_acl recs account u)" by (auto simp: acl_consistent_def list_all_iff)
  then show ?thesis by (cases "stored_acl recs account u") simp_all
next
  case False
  then have "recs_of recs account u = []" by (auto simp: recs_of_def filter_empty_conv)
  then show ?thesis by (simp add: stored_acl_def effective_from_records_def)
qed

lemma stored_direct_wf: "acl_wf (stored_direct recs account u)"
  by (auto simp: stored_direct_def stored_acl_def dest: effective_from_records_wf split: sum.splits)

lemma distinct_group_by_uri: "distinct (map fst (group_by_uri rs))"
proof -
  have "distinct (map fst G) \<Longrightarrow> distinct (map fst (fold group_add rs G))" for G
  proof (induction rs arbitrary: G)
    case (Cons r rs)
    have "distinct (map fst (group_add r G))"
      using Cons.prems by (simp add: group_add_def distinct_update)
    then show ?case using Cons.IH by simp
  qed simp
  then show ?thesis by (simp add: group_by_uri_def)
qed

lemma effective_groups_stored:
  assumes rs: "\<forall>u. filter (\<lambda>r. cr_uri r = u) rs = (if u \<in> uris then recs_of recs account u else [])"
    and ok: "acl_consistent recs account"
  shows "\<exists>eff. effective_groups (group_by_uri rs) = Ok eff \<and>
     (\<forall>u. u \<noteq> [] \<longrightarrow> map_of eff u =
        (if u \<in> uris \<and> recs_of recs account u \<noteq> [] then
           (case stored_acl recs account u of Inl _ \<Rightarrow> None | Inr e \<Rightarrow> Some e) else None))"
proof -
  let ?g = "group_by_uri rs"
  have look: "map_of ?g u = (if u \<in> uris \<and> recs_of recs account u \<noteq> [] then Some (recs_of recs account u) else None)"
    if "u \<noteq> []" for u
    using that rs by (simp add: group_by_uri_lookup)
  have "\<exists>e. effective_from_records items = Ok e" if "(u, items) \<in> set ?g" for u items
  proof -
    have "map_of ?g u = Some items"
      using that distinct_group_by_uri by (metis map_of_is_SomeI)
    moreover from this have "u \<noteq> []" by (metis group_by_uri_Nil option.distinct(1))
    ultimately have "items = recs_of recs account u" using look by (simp split: if_splits)
    then show ?thesis using acl_consistentD [OF ok] by (auto simp: stored_acl_def)
  qed
  then obtain eff where eff: "effective_groups ?g = Ok eff" using effective_groups_total by blast
  have "map_of eff u = (if u \<in> uris \<and> recs_of recs account u \<noteq> [] then
           (case stored_acl recs account u of Inl _ \<Rightarrow> None | Inr e \<Rightarrow> Some e) else None)" if "u \<noteq> []" for u
  proof (cases "map_of ?g u")
    case None
    moreover have "map_of eff u = None"
      using None effective_groups_lookup [OF eff] by (metis list.set_map map_of_eq_None_iff)
    ultimately show ?thesis using look [OF that] by (auto split: if_splits)
  next
    case (Some items)
    with effective_groups_lookup [OF eff] obtain e
      where "effective_from_records items = Ok e" "map_of eff u = Some e" by blast
    with Some look [OF that] show ?thesis by (auto simp: stored_acl_def split: if_splits)
  qed
  with eff show ?thesis by blast
qed

lemma get_or_empty_stored:
  assumes "u \<noteq> []" and "map_of eff u = (if u \<in> uris \<and> recs_of recs account u \<noteq> [] then
           (case stored_acl recs account u of Inl _ \<Rightarrow> None | Inr e \<Rightarrow> Some e) else None)"
  shows "get_or_empty (map (\<lambda>(uri, e). (uri, ea_direct e)) eff) u =
           (if u \<in> uris then stored_direct recs account u else [])"
proof -
  have "map_of (map (\<lambda>(uri, e). (uri, ea_direct e)) eff) u = map_option ea_direct (map_of eff u)"
    by (simp add: map_of_map)
  then show ?thesis
    using assms(2)
    by (auto simp: get_or_empty_def stored_direct_def stored_acl_def effective_from_records_def no_acl_def
        split: sum.splits if_splits option.splits)
qed

lemma accumulate_acl_spec:
  assumes "acl_wf base" and "\<And>a. a \<in> set as \<Longrightarrow> acl_wf (get_or_empty dm a)"
  shows "\<exists>e. accumulate_acl dm base as u = Ok e \<and> ea_direct e = get_or_empty dm u \<and>
             acl_wf (ea_inherited e) \<and>
             (\<forall>act. principals_for (ea_inherited e) act =
                principals_for base act \<union> (\<Union>a \<in> set as. principals_for (get_or_empty dm a) act))"
proof -
  obtain c where "fold_res acl_union base (map (get_or_empty dm) as) = Ok c" "acl_wf c"
    "\<forall>act. principals_for c act = principals_for base act \<union>
       (\<Union>x \<in> set (map (get_or_empty dm) as). principals_for x act)"
    using acl.fold_join [OF assms(1), of "map (get_or_empty dm) as"] assms(2) by auto
  then show ?thesis by (simp add: accumulate_acl_def Let_def)
qed

lemma acl_ancestors_not_Nil:
  "acl_ancestors u = Ok as \<Longrightarrow> u \<noteq> [] \<and> (\<forall>a \<in> set as. a \<noteq> [])"
proof -
  assume "acl_ancestors u = Ok as"
  then obtain ps where ps: "uri_parts u = Ok ps" "as = map (\<lambda>d. render (take d ps)) [1..<Suc (length ps)]"
    using acl_ancestors_Ok by blast
  from ps(1) have "u \<noteq> []" using uri_parts_Ok_prefix by fastforce
  then show ?thesis by (simp add: ps(2) render_def)
qed

lemma resolve_stored:
  assumes acct: "rc_account_id ctx \<noteq> []" and st: "exact_pages ops st recs"
    and ok: "acl_consistent recs (rc_account_id ctx)" and as: "acl_ancestors u = Ok as"
    and ne: "recs_of recs (rc_account_id ctx) u \<noteq> []"
  shows "resolve ops st u ctx = Some (stored_acl recs (rc_account_id ctx) u)"
proof -
  obtain rs where rs: "records_for_uris ops st {u} ctx = Some (Ok rs)"
    "\<forall>v. filter (\<lambda>r. cr_uri r = v) rs = (if v \<in> {u} then recs_of recs (rc_account_id ctx) v else [])"
    using records_for_uris_exact [OF acct st, of "{u}"] by auto
  have "map_of (group_by_uri rs) u = Some (recs_of recs (rc_account_id ctx) u)"
    using rs(2) ne acl_ancestors_not_Nil [OF as] by (simp add: group_by_uri_lookup)
  moreover obtain e where "stored_acl recs (rc_account_id ctx) u = Ok e"
    using acl_consistentD [OF ok] by blast
  ultimately show ?thesis
    using as rs(1) by (simp add: resolve_def resolve_many_def dict_fromkeys_def stored_acl_def)
qed

lemma resolve_inherited:
  assumes acct: "rc_account_id ctx \<noteq> []" and st: "exact_pages ops st recs"
    and ok: "acl_consistent recs (rc_account_id ctx)" and as: "acl_ancestors u = Ok as"
    and none: "recs_of recs (rc_account_id ctx) u = []"
  shows "\<exists>e. resolve ops st u ctx = Some (Ok e) \<and> ea_direct e = [] \<and> acl_wf (ea_inherited e) \<and>
     (\<forall>act. principals_for (ea_inherited e) act =
        (\<Union>a \<in> set (butlast as). principals_for (stored_direct recs (rc_account_id ctx) a) act))"
proof -
  let ?acct = "rc_account_id ctx"
  have nn: "u \<noteq> []" "\<forall>a \<in> set as. a \<noteq> []" using acl_ancestors_not_Nil [OF as] by auto
  obtain rs where rs: "records_for_uris ops st {u} ctx = Some (Ok rs)"
    "\<forall>v. filter (\<lambda>r. cr_uri r = v) rs = (if v \<in> {u} then recs_of recs ?acct v else [])"
    using records_for_uris_exact [OF acct st, of "{u}"] by auto
  have g1: "map_of (group_by_uri rs) u = None"
    using rs(2) none nn by (simp add: group_by_uri_lookup)
  obtain rs2 where rs2: "records_for_uris ops st (set as) ctx = Some (Ok rs2)"
    "\<forall>v. filter (\<lambda>r. cr_uri r = v) rs2 = (if v \<in> set as then recs_of recs ?acct v else [])"
    using records_for_uris_exact [OF acct st, of "set as"] by auto
  obtain eff where eff: "effective_groups (group_by_uri rs2) = Ok eff"
    "\<forall>v. v \<noteq> [] \<longrightarrow> map_of eff v = (if v \<in> set as \<and> recs_of recs ?acct v \<noteq> [] then
           (case stored_acl recs ?acct v of Inl _ \<Rightarrow> None | Inr e \<Rightarrow> Some e) else None)"
    using effective_groups_stored [OF rs2(2) ok] by blast
  let ?dm = "map (\<lambda>(uri, e). (uri, ea_direct e)) eff"
  have dm: "get_or_empty ?dm v = (if v \<in> set as then stored_direct recs ?acct v else [])" if "v \<noteq> []" for v
    using get_or_empty_stored [OF that] eff(2) that by blast
  have dma: "get_or_empty ?dm a = stored_direct recs ?acct a" if "a \<in> set (butlast as)" for a
    using dm nn(2) that by (simp add: in_set_butlastD)
  have du: "get_or_empty ?dm u = []"
    using dm [OF nn(1)] none by (simp add: stored_direct_def stored_acl_def effective_from_records_def no_acl_def)
  obtain e where e: "accumulate_acl ?dm [] (butlast as) u = Ok e" "ea_direct e = []" "acl_wf (ea_inherited e)"
    "\<forall>act. principals_for (ea_inherited e) act =
       principals_for [] act \<union> (\<Union>a \<in> set (butlast as). principals_for (get_or_empty ?dm a) act)"
  proof -
    have wfs: "acl_wf (get_or_empty ?dm a)" if "a \<in> set (butlast as)" for a
      using dma [OF that] stored_direct_wf by simp
    from accumulate_acl_spec [of "[]" "butlast as" ?dm u, OF acl_wf_Nil wfs] show thesis
      unfolding du by (blast intro: that)
  qed
  have "resolve ops st u ctx = Some (Ok e)"
    using as rs(1) g1 rs2(1) eff(1) e(1)
    by (simp add: resolve_def resolve_many_def dict_fromkeys_def Let_def)
  moreover have "principals_for (ea_inherited e) act =
        (\<Union>a \<in> set (butlast as). principals_for (stored_direct recs ?acct a) act)" for act
    using e(4) dma by (simp add: acl.allows_none)
  ultimately show ?thesis using e(2,3) by blast
qed

section \<open>Writing the ACL of a subtree\<close>

definition acl_sane :: "effective_acl \<Rightarrow> bool" where
  "acl_sane e \<longleftrightarrow> acl_wf (ea_direct e) \<and> acl_wf (ea_inherited e) \<and>
     ea_enabled e = (\<not> acl_empty (ea_direct e) \<or> \<not> acl_empty (ea_inherited e))"

lemma effective_fields_roundtrip:
  "acl_sane e \<Longrightarrow> effective_from_record (effective_fields e r) = Ok e"
  by (cases e) (auto simp: acl_sane_def effective_from_record_def effective_fields_def
      acl_context_fields_roundtrip)

lemma accumulate_acl_sane:
  assumes "accumulate_acl dm base as u = Ok e" and "acl_wf base" and "\<And>v. acl_wf (get_or_empty dm v)"
  shows "acl_sane e \<and> ea_direct e = get_or_empty dm u \<and>
     (\<forall>act. principals_for (ea_inherited e) act =
        principals_for base act \<union> (\<Union>a \<in> set as. principals_for (get_or_empty dm a) act))"
proof -
  have "ea_enabled e = (\<not> acl_empty (ea_direct e) \<or> \<not> acl_empty (ea_inherited e))"
    using assms(1) by (auto simp: accumulate_acl_def res_bind_Ok_iff Let_def)
  then show ?thesis
    using accumulate_acl_spec [OF assms(2,3), of as u] assms(1,3) by (auto simp: acl_sane_def)
qed

text \<open>The direct grants the subtree has after the change.\<close>

definition new_direct ::
    "string \<Rightarrow> (string \<times> effective_acl) list \<Rightarrow> direct_acl option \<Rightarrow> string \<Rightarrow> direct_acl" where
  "new_direct root_uri effective root_direct u =
     (if u = root_uri \<and> root_direct \<noteq> None then the root_direct
      else (case map_of effective u of None \<Rightarrow> [] | Some e \<Rightarrow> ea_direct e))"

lemma subtree_direct_map:
  "get_or_empty
     (case root_direct of None \<Rightarrow> map (\<lambda>(uri, e). (uri, ea_direct e)) effective
      | Some d \<Rightarrow> AList.update root_uri d (map (\<lambda>(uri, e). (uri, ea_direct e)) effective)) u =
   new_direct root_uri effective root_direct u"
proof -
  have "map_of (map (\<lambda>(uri, e). (uri, ea_direct e)) effective) u = map_option ea_direct (map_of effective u)"
    by (simp add: map_of_map)
  then show ?thesis
    by (auto simp: get_or_empty_def new_direct_def update_conv' split: option.splits)
qed

lemma subtree_effective_spec:
  assumes run: "subtree_effective root_uri effective root_direct base depth = Ok res"
    and look: "map_of res u = Some e" and base: "acl_wf base"
    and wf: "\<And>v. acl_wf (new_direct root_uri effective root_direct v)"
  shows "\<exists>as. acl_ancestors u = Ok as \<and> acl_sane e \<and>
     ea_direct e = new_direct root_uri effective root_direct u \<and>
     (\<forall>act. principals_for (ea_inherited e) act =
        principals_for base act \<union>
        (\<Union>a \<in> set (butlast (drop (depth - 1) as)). principals_for (new_direct root_uri effective root_direct a) act))"
proof -
  let ?dm = "case root_direct of None \<Rightarrow> map (\<lambda>(uri, e). (uri, ea_direct e)) effective
      | Some d \<Rightarrow> AList.update root_uri d (map (\<lambda>(uri, e). (uri, ea_direct e)) effective)"
  have "(u, e) \<in> set res" using look by (rule map_of_SomeD)
  then obtain i where i: "i < length res" "res ! i = (u, e)" by (auto simp: in_set_conv_nth)
  have "list_all2 (\<lambda>uri y. res_bind (acl_ancestors uri) (\<lambda>ancestors.
           res_bind (accumulate_acl ?dm base (butlast (drop (depth - 1) ancestors)) uri) (\<lambda>e. Ok (uri, e))) = Ok y)
         (map fst effective) res"
    using run by (simp add: subtree_effective_def Let_def res_map_Ok_iff)
  from list_all2_nthD2 [OF this i(1)] obtain as where
    as: "acl_ancestors u = Ok as" "accumulate_acl ?dm base (butlast (drop (depth - 1) as)) u = Ok e"
    by (auto simp: i(2) res_bind_Ok_iff)
  show ?thesis
    using accumulate_acl_sane [OF as(2) base] as(1) wf unfolding subtree_direct_map by blast
qed

lemma subtree_effective_allows:
  assumes "subtree_effective root_uri effective root_direct base depth = Ok res"
    and "map_of res u = Some e" and "acl_wf base"
    and "\<And>v. acl_wf (new_direct root_uri effective root_direct v)"
    and as: "acl_ancestors u = Ok as" and canon: "last as = u" and depth: "depth \<le> length as" "0 < depth"
  shows "effective_from_record (effective_fields e r) = Ok e \<and>
     acl_allows e ctx act =
       Ok ((principals_for base act \<union>
            (\<Union>a \<in> set (drop (depth - 1) as). principals_for (new_direct root_uri effective root_direct a) act))
           \<inter> acl_principals ctx \<noteq> {})"
proof -
  note spec = subtree_effective_spec [OF assms(1-4)]
  then have sane: "acl_sane e" and dir: "ea_direct e = new_direct root_uri effective root_direct u"
    and inh: "principals_for (ea_inherited e) act = principals_for base act \<union>
        (\<Union>a \<in> set (butlast (drop (depth - 1) as)). principals_for (new_direct root_uri effective root_direct a) act)"
    using as by auto
  have "drop (depth - 1) as \<noteq> []" using depth by simp
  then have "drop (depth - 1) as = butlast (drop (depth - 1) as) @ [u]"
    using canon by (metis append_butlast_last_id last_drop drop_eq_Nil linorder_not_le)
  then have "set (drop (depth - 1) as) = insert u (set (butlast (drop (depth - 1) as)))"
    by (metis Un_insert_right list.simps(15) set_append sup_bot_right empty_set)
  then show ?thesis
    using acl_allows_iff [of e ctx act] sane effective_fields_roundtrip [OF sane]
    by (simp add: acl_sane_def dir inh Un_ac)
qed

lemma new_record_acl_spec:
  assumes "acl_wf perms" and "new_record_acl perms creator grant = Ok e"
  shows "acl_sane e \<and>
     (\<forall>act. principals_for (ea_direct e) act \<union> principals_for (ea_inherited e) act =
        principals_for perms act \<union>
        (if truthy_opt creator \<and> grant \<noteq> None then {strip_space (''user:'' @ the creator)} else {}))"
proof (cases "truthy_opt creator \<and> grant \<noteq> None")
  case False
  with assms show ?thesis
    by (auto simp: new_record_acl_def acl_sane_def acl.allows_none)
next
  case True
  let ?e = "\<lparr>ae_principal = ''user:'' @ the creator, ae_level = MANAGE\<rparr>"
  obtain c where c: "normalize_entries [RawEntry ?e] = Ok c"
    using assms(2) True by (auto simp: new_record_acl_def acl_from_entries_def res_bind_Ok_iff)
  obtain p where p: "raw_principal_level (RawEntry ?e) = Ok (p, MANAGE)"
    and pf: "\<forall>q act. q \<in> principals_for c act \<longleftrightarrow> (\<exists>l. (q, l) \<in> {(p, MANAGE)} \<and> level_of_action act \<le> l)"
    and wfc: "acl_wf c"
    using normalize_entries_spec [OF c] by (auto simp: res_bind_Ok_iff raw_principal_level_def)
  have "p = strip_space (''user:'' @ the creator)"
    using p by (auto simp: raw_principal_level_def res_bind_Ok_iff normalize_acl_principal_def Let_def
        split: prod.splits if_splits)
  moreover have "level_of_action act \<le> MANAGE" for act
    by (cases act) (simp_all add: less_eq_acl_level_def)
  ultimately have pc: "principals_for c act = {strip_space (''user:'' @ the creator)}" for act
    using pf by auto
  show ?thesis
  proof (cases "grant = Some GrantDirect")
    case direct: True
    with True assms c have "e = \<lparr>ea_enabled = \<not> acl_empty c \<or> \<not> acl_empty perms, ea_direct = c, ea_inherited = perms\<rparr>"
      by (simp add: new_record_acl_def acl_from_entries_def)
    with pc wfc assms(1) True show ?thesis by (auto simp: acl_sane_def)
  next
    case False
    obtain d where d: "acl_union perms c = Ok d" "acl_wf d"
      "\<forall>act. principals_for d act = principals_for perms act \<union> principals_for c act"
      using acl_union_spec [OF assms(1) wfc] by blast
    with False True assms c have "e = \<lparr>ea_enabled = \<not> acl_empty d, ea_direct = [], ea_inherited = d\<rparr>"
      by (simp add: new_record_acl_def acl_from_entries_def acl_empty_def)
    with pc d True show ?thesis by (auto simp: acl_sane_def acl.allows_none acl_empty_def)
  qed
qed

lemma set_enabled_iff:
  "is_enabled (set_enabled m a b) c \<longleftrightarrow> (if c = a then b else is_enabled m c)"
  by (auto simp: set_enabled_def is_enabled_def)

section \<open>Properties\<close>

text \<open>An engine over a list of records, for concrete inputs: it answers the filters of the manager.\<close>

fun engine_match :: "filter_expr \<Rightarrow> 'x ctx_record \<Rightarrow> bool" where
  "engine_match (And fs) r = list_all (\<lambda>f. engine_match f r) fs"
| "engine_match (Or fs) r = list_ex (\<lambda>f. engine_match f r) fs"
| "engine_match (Eq field v) r = (field = ''account_id'' \<and> v = PStr (cr_account r))"
| "engine_match (PathScope field u d) r = (field = ''uri'' \<and> u = cr_uri r)"
| "engine_match _ r = False"

definition list_engine :: "('x ctx_record list, 'x) store_ops" where
  "list_engine =
     \<lparr>so_query = (\<lambda>st f limit offset. Ok (take limit (drop offset (filter (engine_match f) st)))),
      so_get = (\<lambda>st ids. Ok (filter (\<lambda>r. cr_id r \<in> set ids) st)),
      so_upsert = (\<lambda>st rs. (filter (\<lambda>r. cr_id r \<notin> cr_id ` set rs) st @ rs, Ok (map cr_id rs)))\<rparr>"

lemma list_engine_pages: "pages list_engine st f (filter (engine_match f) st)"
  by (simp add: pages_def list_engine_def)

lemma list_engine_exact:
  fixes st :: "'x ctx_record list"
  shows "exact_pages list_engine st st"
proof -
  have "list_ex (\<lambda>f. engine_match f r) (map (\<lambda>u. PathScope ''uri'' u 0) us) \<longleftrightarrow> cr_uri r \<in> set us" for r :: "'x ctx_record" and us
    by (induction us) auto
  then have m: "engine_match (account_filter account (Or (map (\<lambda>u. PathScope ''uri'' u 0) us))) =
      (\<lambda>r :: 'x ctx_record. cr_account r = account \<and> cr_uri r \<in> set us)" for account us
    by (intro ext) auto
  show ?thesis unfolding exact_pages_def
  proof (intro allI)
    fix account us
    show "pages list_engine st (account_filter account (Or (map (\<lambda>u. PathScope ''uri'' u 0) us)))
        (filter (\<lambda>r :: 'x ctx_record. cr_account r = account \<and> cr_uri r \<in> set us) st)"
      using list_engine_pages [of st "account_filter account (Or (map (\<lambda>u. PathScope ''uri'' u 0) us))"]
      unfolding m .
  qed
qed

definition sample_store :: "unit ctx_record list" where
  "sample_store =
     [\<lparr>cr_id = ''1'', cr_uri = ''viking://resources/a'', cr_account = ''acme'', cr_acl_enabled = PBool True,
       cr_direct = PList (map PStr (acl_context_fields sample_acl)), cr_inherited = PNone,
       cr_user_id = None, cr_creator_grant = None, cr_payload = ()\<rparr>]"

lemma sample_store_facts:
  "acl_consistent sample_store (rc_account_id sample_ctx)" "rc_account_id sample_ctx \<noteq> []"
  "acl_ancestors ''viking://resources/a/b'' =
     Ok [''viking://resources'', ''viking://resources/a'', ''viking://resources/a/b'']"
  "recs_of sample_store (rc_account_id sample_ctx) ''viking://resources/a/b'' = []"
  "stored_direct sample_store (rc_account_id sample_ctx) ''viking://resources/a'' = sample_acl"
  "stored_direct sample_store (rc_account_id sample_ctx) ''viking://resources'' = []"
  by code_simp+





text \<open>
  After a change of the direct ACL of a directory, the ACL computed for a URI of its subtree
  grants an action exactly to the principals granted above the directory or by a direct ACL between the directory
  and the URI, the new one included; what is written to the record reads back as this ACL.
\<close>

theorem subtree_acl:
  assumes "subtree_effective root_uri effective root_direct base depth = Ok res" and "map_of res u = Some e"
    and "acl_wf base" and "\<And>v. acl_wf (new_direct root_uri effective root_direct v)"
    and "acl_ancestors u = Ok as" and "last as = u" and "depth \<le> length as" and "0 < depth"
  shows "effective_from_record (effective_fields e r) = Ok e \<and>
     acl_allows e ctx act =
       Ok ((principals_for base act \<union>
            (\<Union>a \<in> set (drop (depth - 1) as). principals_for (new_direct root_uri effective root_direct a) act))
           \<inter> acl_principals ctx \<noteq> {})"
  by (rule subtree_effective_allows [OF assms])

theorem subtree_acl_witness:
  "\<exists>res e. subtree_effective ''viking://resources/a'' [(''viking://resources/a'', no_acl), (''viking://resources/a/b'', no_acl)]
       (Some sample_acl) [] 2 = Ok res \<and> map_of res ''viking://resources/a/b'' = Some e \<and>
     acl_allows e sample_ctx ActionWrite = Ok True"
proof -
  let ?eff = "[(''viking://resources/a'', no_acl), (''viking://resources/a/b'', no_acl)]"
  let ?e = "\<lparr>ea_enabled = True, ea_direct = [], ea_inherited = sample_acl\<rparr>"
  let ?res = "[(''viking://resources/a'', \<lparr>ea_enabled = True, ea_direct = sample_acl, ea_inherited = []\<rparr>),
               (''viking://resources/a/b'', ?e)]"
  have run: "subtree_effective ''viking://resources/a'' ?eff (Some sample_acl) [] 2 = Ok ?res" by code_simp
  have look: "map_of ?res ''viking://resources/a/b'' = Some ?e" by simp
  have wf: "acl_wf (new_direct ''viking://resources/a'' ?eff (Some sample_acl) v)" for v
    by (auto simp: new_direct_def sample_acl_wf no_acl_def)
  have "new_direct ''viking://resources/a'' ?eff (Some sample_acl) ''viking://resources/a'' = sample_acl"
    by (simp add: new_direct_def)
  moreover have "principals_for sample_acl ActionWrite \<inter> acl_principals sample_ctx \<noteq> {}" by code_simp
  ultimately have "acl_allows ?e sample_ctx ActionWrite = Ok True"
    using subtree_acl [OF run look acl_wf_Nil wf sample_store_facts(3), where r = "sample_store ! 0" and ctx = sample_ctx and act = ActionWrite]
    by auto
  with run look show ?thesis by blast
qed

text \<open>
  The ACL of a newly created record: everyone its parent directory grants an action keeps it, and
  the creator is granted every action when the caller asked for a creator grant; nobody else is granted anything.
\<close>

theorem new_record_acl_grants:
  assumes "acl_wf perms" and "new_record_acl perms creator grant = Ok e"
  shows "acl_allows e ctx act =
     Ok ((principals_for perms act \<union>
          (if truthy_opt creator \<and> grant \<noteq> None then {strip_space (''user:'' @ the creator)} else {}))
         \<inter> acl_principals ctx \<noteq> {})"
proof -
  note spec = new_record_acl_spec [OF assms]
  then have "acl_wf (ea_direct e)" "acl_wf (ea_inherited e)" by (simp_all add: acl_sane_def)
  from acl_allows_iff [OF this, of ctx act] spec show ?thesis by simp
qed

theorem new_record_acl_grants_witness:
  "\<exists>e. new_record_acl [] (Some ''ada'') (Some GrantDirect) = Ok e \<and> acl_allows e sample_ctx ActionManage = Ok True"
proof -
  let ?e = "\<lparr>ea_enabled = True, ea_direct = [\<lparr>ae_principal = ''user:ada'', ae_level = MANAGE\<rparr>], ea_inherited = []\<rparr>"
  have n: "new_record_acl [] (Some ''ada'') (Some GrantDirect) = Ok ?e" by code_simp
  have s: "strip_space ''user:ada'' = ''user:ada''" "''user:ada'' \<in> acl_principals sample_ctx" by code_simp+
  have "acl_allows ?e sample_ctx ActionManage = Ok True"
    using new_record_acl_grants [OF acl_wf_Nil n, of sample_ctx ActionManage] s by auto
  with n show ?thesis by blast
qed

end
