(* ===== verification/Tokens.thy ===== *)
theory Tokens
  imports Complex_Main
begin

text \<open>
  \<^verbatim>\<open>openviking/utils/token_estimation.py\<close>. Text is a list of Unicode code points (\<open>ustr\<close>), since
  the estimate weighs a character by its code point. The lemmas: the ASCII fast path agrees with
  the weighted count, the estimate is monotone and subadditive, the binary search finds the
  longest prefix that fits, and the truncated text always fits its budget.
\<close>

type_synonym ustr = "nat list"

text \<open>A literal as code points.\<close>

definition codes :: "string \<Rightarrow> ustr" where
  "codes s = map of_char s"

section \<open>Estimation\<close>

definition char_units :: "nat \<Rightarrow> nat" where
  "char_units c =
     (if 0x4E00 \<le> c \<and> c \<le> 0x9FFF then 6
      else if c < 0x1100 then 1
      else if c \<le> 0x11FF \<or> (0x3000 \<le> c \<and> c \<le> 0x30FF) \<or> (0x3130 \<le> c \<and> c \<le> 0x318F)
           \<or> (0x31F0 \<le> c \<and> c \<le> 0x31FF) \<or> (0x3400 \<le> c \<and> c \<le> 0x4DBF)
           \<or> (0xAC00 \<le> c \<and> c \<le> 0xD7AF) \<or> (0xF900 \<le> c \<and> c \<le> 0xFAFF)
           \<or> (0xFF00 \<le> c \<and> c \<le> 0xFFEF) \<or> (0x20000 \<le> c \<and> c \<le> 0x2EBEF) then 6
      else if c > 0xFFFF then 8
      else 1)"

definition estimate_text_tokens :: "ustr \<Rightarrow> nat" where
  "estimate_text_tokens text =
     (if text = [] then 0
      else if list_all (\<lambda>c. c < 128) text then (length text + 3) div 4
      else (sum_list (map char_units text) + 3) div 4)"

section \<open>Truncation\<close>

function prefix_search :: "ustr \<Rightarrow> int \<Rightarrow> nat \<Rightarrow> nat \<Rightarrow> nat" where
  "prefix_search value budget low high =
     (if low < high then
        let mid = (low + high + 1) div 2 in
        if int (estimate_text_tokens (take mid value)) \<le> budget
        then prefix_search value budget mid high
        else prefix_search value budget low (mid - 1)
      else low)"
  by pat_completeness auto
termination
  by (relation "measure (\<lambda>(value, budget, low, high). high - low)") auto

declare prefix_search.simps [simp del]

definition prefix_length :: "ustr \<Rightarrow> int \<Rightarrow> nat" where
  "prefix_length value budget = prefix_search value budget 0 (length value)"

text \<open>\<^verbatim>\<open>str.isspace\<close> on all code points.\<close>

definition u_isspace :: "nat \<Rightarrow> bool" where
  "u_isspace c \<longleftrightarrow>
     (9 \<le> c \<and> c \<le> 13) \<or> (28 \<le> c \<and> c \<le> 32) \<or> c = 0x85 \<or> c = 0xA0 \<or> c = 0x1680 \<or>
     (0x2000 \<le> c \<and> c \<le> 0x200A) \<or> c = 0x2028 \<or> c = 0x2029 \<or> c = 0x202F \<or> c = 0x205F \<or> c = 0x3000"

definition default_marker :: ustr where
  "default_marker = [10, 0x2026, 10]"

definition truncate_text_to_token_budget :: "ustr \<Rightarrow> int \<Rightarrow> ustr \<Rightarrow> rat \<Rightarrow> ustr" where
  "truncate_text_to_token_budget text max_tokens marker0 head_ratio =
     (if text = [] \<or> int (estimate_text_tokens text) \<le> max_tokens then text
      else if max_tokens \<le> 0 then []
      else
        let fits = int (estimate_text_tokens marker0) < max_tokens;
            marker = (if fits then marker0 else []);
            marker_tokens = (if fits then int (estimate_text_tokens marker0) else 0);
            content_tokens = max_tokens - marker_tokens;
            bounded_head_ratio = min (max head_ratio 0) 1;
            head_tokens = \<lfloor>of_int content_tokens * bounded_head_ratio\<rfloor>;
            tail_tokens = content_tokens - head_tokens;
            head_end = prefix_length text head_tokens;
            remaining = drop head_end text;
            tail_length = prefix_length (rev remaining) tail_tokens;
            tail = (if tail_length \<noteq> 0 then drop (length remaining - tail_length) remaining else [])
        in rev (dropWhile u_isspace (rev (take head_end text))) @ marker @ dropWhile u_isspace tail)"

section \<open>The estimate\<close>

lemma char_units_ascii [simp]: "c < 128 \<Longrightarrow> char_units c = 1"
  by (simp add: char_units_def)

lemma char_units_pos: "0 < char_units c"
  by (simp add: char_units_def)

abbreviation units :: "ustr \<Rightarrow> nat" where
  "units t \<equiv> sum_list (map char_units t)"

lemma units_ascii: "list_all (\<lambda>c. c < 128) t \<Longrightarrow> units t = length t"
  by (induction t) auto

lemma estimate_units: "estimate_text_tokens t = (units t + 3) div 4"
  by (auto simp: estimate_text_tokens_def units_ascii)

lemma estimate_Nil [simp]: "estimate_text_tokens [] = 0"
  by (simp add: estimate_text_tokens_def)

lemma estimate_mono_units: "units s \<le> units t \<Longrightarrow> estimate_text_tokens s \<le> estimate_text_tokens t"
  by (simp add: estimate_units div_le_mono)

lemma estimate_subadditive:
  "estimate_text_tokens (s @ t) \<le> estimate_text_tokens s + estimate_text_tokens t"
  by (simp add: estimate_units)

lemma units_take_mono: "m \<le> n \<Longrightarrow> units (take m t) \<le> units (take n t)"
proof -
  assume "m \<le> n"
  then have "take n t = take m t @ take (n - m) (drop m t)"
    by (metis le_add_diff_inverse take_add)
  then show ?thesis by simp
qed

lemma estimate_take_mono:
  "m \<le> n \<Longrightarrow> estimate_text_tokens (take m t) \<le> estimate_text_tokens (take n t)"
  by (intro estimate_mono_units units_take_mono)

lemma estimate_dropWhile: "estimate_text_tokens (dropWhile P t) \<le> estimate_text_tokens t"
proof -
  have "units t = units (takeWhile P t) + units (dropWhile P t)"
    by (metis map_append sum_list_append takeWhile_dropWhile_id)
  then show ?thesis by (intro estimate_mono_units) simp
qed

lemma units_rev: "units (rev t) = units t"
  by (induction t) simp_all

lemma estimate_rev [simp]: "estimate_text_tokens (rev t) = estimate_text_tokens t"
  by (simp only: estimate_units units_rev)

section \<open>The binary search\<close>

lemma prefix_search_spec:
  assumes "low \<le> high" and "int (estimate_text_tokens (take low v)) \<le> b"
    and "\<And>n. high < n \<Longrightarrow> n \<le> length v \<Longrightarrow> b < int (estimate_text_tokens (take n v))"
  shows "low \<le> prefix_search v b low high \<and> prefix_search v b low high \<le> high \<and>
         int (estimate_text_tokens (take (prefix_search v b low high) v)) \<le> b \<and>
         (\<forall>n. prefix_search v b low high < n \<longrightarrow> n \<le> length v \<longrightarrow>
              b < int (estimate_text_tokens (take n v)))"
  using assms
proof (induction v b low high rule: prefix_search.induct)
  case (1 v b low high)
  define mid where "mid = (low + high + 1) div 2"
  show ?case
  proof (cases "low < high")
    case False
    then have "prefix_search v b low high = low" by (simp add: prefix_search.simps [of v b low high])
    with False "1.prems" show ?thesis by auto
  next
    case True
    then have m: "low < mid" "mid \<le> high" by (auto simp: mid_def)
    show ?thesis
    proof (cases "int (estimate_text_tokens (take mid v)) \<le> b")
      case le: True
      have "prefix_search v b low high = prefix_search v b mid high"
        using True le by (simp add: prefix_search.simps [of v b low high] mid_def Let_def)
      with "1.IH"(1) [OF True mid_def le m(2) le "1.prems"(3)] m show ?thesis by simp
    next
      case gt: False
      have eq: "prefix_search v b low high = prefix_search v b low (mid - 1)"
        using True gt by (simp add: prefix_search.simps [of v b low high] mid_def Let_def)
      have le: "low \<le> mid - 1" using m by simp
      have big: "b < int (estimate_text_tokens (take n v))" if "mid - 1 < n" "n \<le> length v" for n
        using gt estimate_take_mono [of mid n v] that by linarith
      have "mid - 1 \<le> high" using m by simp
      with "1.IH"(2) [OF True mid_def gt le "1.prems"(2) big] show ?thesis
        unfolding eq by (meson order_trans)
    qed
  qed
qed

lemma prefix_length_spec:
  assumes "0 \<le> b"
  shows "prefix_length v b \<le> length v \<and>
         int (estimate_text_tokens (take (prefix_length v b) v)) \<le> b \<and>
         (\<forall>n. prefix_length v b < n \<longrightarrow> n \<le> length v \<longrightarrow> b < int (estimate_text_tokens (take n v)))"
  unfolding prefix_length_def using prefix_search_spec [of 0 "length v" v b] assms by simp

section \<open>Truncation fits the budget\<close>

lemma head_tokens_bounds:
  assumes "0 \<le> (c :: int)"
  shows "0 \<le> \<lfloor>of_int c * min (max r 0) 1 :: rat\<rfloor> \<and> \<lfloor>of_int c * min (max r 0) 1 :: rat\<rfloor> \<le> c"
proof -
  let ?r = "min (max r 0) 1 :: rat"
  have "0 \<le> of_int c * ?r" using assms by simp
  moreover have "of_int c * ?r \<le> of_int c * 1" using assms by (intro mult_left_mono) auto
  ultimately show ?thesis by (simp add: floor_le_iff)
qed

lemma truncate_fits:
  assumes "0 \<le> max_tokens"
  shows "int (estimate_text_tokens (truncate_text_to_token_budget text max_tokens marker ratio)) \<le> max_tokens"
proof (cases "text = [] \<or> int (estimate_text_tokens text) \<le> max_tokens \<or> max_tokens \<le> 0")
  case True
  then show ?thesis using assms by (auto simp: truncate_text_to_token_budget_def)
next
  case False
  define fits where "fits = (int (estimate_text_tokens marker) < max_tokens)"
  define mk where "mk = (if fits then marker else [])"
  define mt where "mt = (if fits then int (estimate_text_tokens marker) else 0)"
  define ct where "ct = max_tokens - mt"
  define ht where "ht = \<lfloor>of_int ct * min (max ratio 0) 1 :: rat\<rfloor>"
  define he where "he = prefix_length text ht"
  define rm where "rm = drop he text"
  define tl' where "tl' = prefix_length (rev rm) (ct - ht)"
  define tail where "tail = (if tl' \<noteq> 0 then drop (length rm - tl') rm else [])"
  define head where "head = rev (dropWhile u_isspace (rev (take he text)))"
  have "0 \<le> ct" using False by (auto simp: ct_def mt_def fits_def)
  then have h: "0 \<le> ht" "ht \<le> ct" using head_tokens_bounds by (auto simp: ht_def)
  have "int (estimate_text_tokens (take he text)) \<le> ht"
    using prefix_length_spec [OF h(1)] he_def by blast
  moreover have "estimate_text_tokens head \<le> estimate_text_tokens (take he text)"
    unfolding head_def using estimate_dropWhile by (metis estimate_rev)
  ultimately have e1: "int (estimate_text_tokens head) \<le> ht" by linarith
  have "rev (take tl' (rev rm)) = drop (length rm - tl') rm" by (simp add: rev_take)
  then have "estimate_text_tokens tail \<le> estimate_text_tokens (take tl' (rev rm))"
    by (metis tail_def estimate_rev estimate_Nil le0 order_refl)
  moreover have "int (estimate_text_tokens (take tl' (rev rm))) \<le> ct - ht"
    using prefix_length_spec [of "ct - ht" "rev rm"] h tl'_def by simp
  ultimately have e2: "int (estimate_text_tokens (dropWhile u_isspace tail)) \<le> ct - ht"
    using estimate_dropWhile [of u_isspace tail] by linarith
  have e3: "int (estimate_text_tokens mk) = mt" by (simp add: mk_def mt_def)
  have eq: "truncate_text_to_token_budget text max_tokens marker ratio = head @ mk @ dropWhile u_isspace tail"
    using False
    unfolding truncate_text_to_token_budget_def Let_def fits_def [symmetric] mk_def [symmetric]
      mt_def [symmetric] ct_def [symmetric] ht_def [symmetric] he_def [symmetric] rm_def [symmetric]
      tl'_def [symmetric] tail_def [symmetric] head_def [symmetric] by simp
  have "estimate_text_tokens (head @ mk @ dropWhile u_isspace tail) \<le>
      estimate_text_tokens head + (estimate_text_tokens mk + estimate_text_tokens (dropWhile u_isspace tail))"
    using estimate_subadditive [of head] estimate_subadditive [of mk] by (meson add_left_mono order_trans)
  then show ?thesis unfolding eq using e1 e2 e3 by (simp add: ct_def)
qed

lemma truncate_id:
  "int (estimate_text_tokens text) \<le> max_tokens \<Longrightarrow>
     truncate_text_to_token_budget text max_tokens marker ratio = text"
  by (simp add: truncate_text_to_token_budget_def)

section \<open>Properties\<close>

text \<open>
  Truncation is a strict budget boundary: for every marker and split ratio the result fits a
  non-negative budget, and a text that fits already is returned unchanged.
\<close>

theorem truncate_respects_budget:
  assumes "0 \<le> max_tokens"
  shows "int (estimate_text_tokens (truncate_text_to_token_budget text max_tokens marker ratio)) \<le> max_tokens \<and>
     (int (estimate_text_tokens text) \<le> max_tokens \<longrightarrow>
        truncate_text_to_token_budget text max_tokens marker ratio = text)"
  using truncate_fits [OF assms] truncate_id by blast

theorem truncate_respects_budget_witness:
  "int (estimate_text_tokens (truncate_text_to_token_budget (replicate 40 97) 5 default_marker (3 / 4))) \<le> 5"
  using truncate_respects_budget [of 5 "replicate 40 97" default_marker "3 / 4"] by simp

end
