(* ===== verification/Retention.thy ===== *)
theory Retention
  imports Prelude Tokens "HOL-Library.AList" "HOL-Library.Multiset"
begin

text \<open>
  \<^verbatim>\<open>openviking/session/retention.py\<close>, with the message and part fields it reads
  (\<^verbatim>\<open>openviking/message/message.py\<close>, \<^verbatim>\<open>openviking/message/part.py\<close>).

  \<^item> A message carries \<open>m_obj\<close>, the identity of the Python object (\<^verbatim>\<open>id(message)\<close>), because
    the planner looks messages up by identity. A deep copy keeps it: identities of copies are
    never looked up.
  \<^item> A tool input is the JSON text \<^verbatim>\<open>json.dumps\<close> gives for it, empty for a missing or empty
    input; the planner only tests, clears and measures it. The part fields the planner never
    touches are left out.
  \<^item> Budgets are \<open>int\<close>; \<^verbatim>\<open>max(0, int(x or 0))\<close> is \<open>max 0 x\<close>.
\<close>

section \<open>Messages\<close>

record tool_part =
  tp_tool_id :: ustr
  tp_tool_name :: ustr
  tp_tool_input :: ustr
  tp_tool_output :: ustr
  tp_output_truncated :: bool
  tp_output_original_chars :: "nat option"
  tp_output_preview_chars :: "nat option"

datatype part =
    TextPart ustr
  | ContextPart string string ustr
  | ImagePart string "string option"
  | ToolPart tool_part

record message =
  m_obj :: nat
  m_id :: string
  m_role :: string
  m_parts :: "part list"
  m_kind :: "string option"

fun part_text :: "part \<Rightarrow> ustr" where
  "part_text (TextPart t) = t"
| "part_text (ContextPart _ _ a) = a"
| "part_text (ImagePart _ _) = []"
| "part_text (ToolPart t) = tp_tool_id t @ tp_tool_name t @ tp_tool_input t @ tp_tool_output t"

definition estimated_tokens :: "message \<Rightarrow> nat" where
  "estimated_tokens m = estimate_text_tokens (concat (map part_text (m_parts m)))"

fun is_ToolPart :: "part \<Rightarrow> bool" where
  "is_ToolPart (ToolPart _) = True"
| "is_ToolPart _ = False"

definition is_tool_transport :: "message \<Rightarrow> bool" where
  "is_tool_transport m =
     (if m_kind m = Some ''tool_transport'' then True
      else if m_kind m = Some ''user_query'' then False
      else m_parts m \<noteq> [] \<and> m_role m = ''user'' \<and> list_all is_ToolPart (m_parts m))"

definition is_user_query :: "message \<Rightarrow> bool" where
  "is_user_query m =
     (if m_kind m = Some ''user_query'' then True
      else if m_kind m = Some ''tool_transport'' then False
      else m_role m = ''user'' \<and> \<not> is_tool_transport m)"

section \<open>Turns and steps\<close>

type_synonym assistant_step = "message list"

record user_turn =
  ut_anchor :: "message option"
  ut_steps :: "assistant_step list"

definition message_tokens :: "message list \<Rightarrow> int" where
  "message_tokens ms = (\<Sum>m\<leftarrow>ms. int (estimated_tokens m))"

definition turn_messages :: "user_turn \<Rightarrow> message list" where
  "turn_messages t = (case ut_anchor t of None \<Rightarrow> [] | Some a \<Rightarrow> [a]) @ concat (ut_steps t)"

definition turn_tokens :: "user_turn \<Rightarrow> int" where
  "turn_tokens t = message_tokens (turn_messages t)"

definition append_to_turn :: "user_turn \<Rightarrow> message \<Rightarrow> user_turn" where
  "append_to_turn turn m =
     (if is_tool_transport m \<and> ut_steps turn \<noteq> [] then
        turn\<lparr>ut_steps := butlast (ut_steps turn) @ [last (ut_steps turn) @ [m]]\<rparr>
      else if m_role m = ''assistant'' then turn\<lparr>ut_steps := ut_steps turn @ [[m]]\<rparr>
      else turn\<lparr>ut_steps := ut_steps turn @ [[m]]\<rparr>)"

text \<open>The current turn is the last of \<open>turns\<close>; there is none exactly when \<open>turns\<close> is empty.\<close>

fun build_turns_loop :: "user_turn list \<Rightarrow> message list \<Rightarrow> user_turn list" where
  "build_turns_loop turns [] = turns"
| "build_turns_loop turns (m # ms) =
     (if is_user_query m then
        build_turns_loop (turns @ [\<lparr>ut_anchor = Some m, ut_steps = []\<rparr>]) ms
      else
        let turns' = (if turns = [] then [\<lparr>ut_anchor = None, ut_steps = []\<rparr>] else turns)
        in build_turns_loop (butlast turns' @ [append_to_turn (last turns') m]) ms)"

definition build_turns :: "message list \<Rightarrow> user_turn list" where
  "build_turns ms = build_turns_loop [] ms"

definition flatten_turns :: "user_turn list \<Rightarrow> message list" where
  "flatten_turns turns = concat (map turn_messages turns)"

section \<open>Truncating an atomic group\<close>

fun slot_text :: "part \<Rightarrow> ustr option" where
  "slot_text (TextPart t) = Some t"
| "slot_text (ContextPart _ _ a) = Some a"
| "slot_text (ImagePart _ _) = None"
| "slot_text (ToolPart t) = Some (tp_tool_output t)"

fun set_slot :: "ustr \<Rightarrow> part \<Rightarrow> part" where
  "set_slot v (TextPart _) = TextPart v"
| "set_slot v (ContextPart u c _) = ContextPart u c v"
| "set_slot v (ImagePart u d) = ImagePart u d"
| "set_slot v (ToolPart t) = ToolPart (t\<lparr>tp_tool_output := v\<rparr>)"

definition get_part :: "message list \<Rightarrow> nat \<Rightarrow> nat \<Rightarrow> part" where
  "get_part ms i j = m_parts (ms ! i) ! j"

definition upd_part :: "message list \<Rightarrow> nat \<Rightarrow> nat \<Rightarrow> (part \<Rightarrow> part) \<Rightarrow> message list" where
  "upd_part ms i j f =
     ms[i := (ms ! i)\<lparr>m_parts := (m_parts (ms ! i))[j := f (m_parts (ms ! i) ! j)]\<rparr>]"

definition positions :: "message list \<Rightarrow> (nat \<times> nat) list" where
  "positions ms = concat (map (\<lambda>i. map (Pair i) [0..<length (m_parts (ms ! i))]) [0..<length ms])"

definition blank_slots :: "message list \<Rightarrow> message list" where
  "blank_slots ms = map (\<lambda>m. m\<lparr>m_parts := map (set_slot []) (m_parts m)\<rparr>) ms"

definition slots_of :: "message list \<Rightarrow> (nat \<times> nat \<times> ustr) list" where
  "slots_of ms =
     List.map_filter (\<lambda>(i, j). map_option (\<lambda>t. (i, j, t)) (slot_text (get_part ms i j))) (rev (positions ms))"

fun clear_input :: "part \<Rightarrow> part" where
  "clear_input (ToolPart t) = ToolPart (t\<lparr>tp_tool_input := []\<rparr>)"
| "clear_input p = p"

fun has_input :: "part \<Rightarrow> bool" where
  "has_input (ToolPart t) = (tp_tool_input t \<noteq> [])"
| "has_input _ = False"

fun clear_inputs :: "(nat \<times> nat) list \<Rightarrow> int \<Rightarrow> message list \<Rightarrow> string set \<Rightarrow> message list \<times> string set" where
  "clear_inputs [] token_budget cloned truncated_ids = (cloned, truncated_ids)"
| "clear_inputs ((i, j) # ps) token_budget cloned truncated_ids =
     (if \<not> has_input (get_part cloned i j) then clear_inputs ps token_budget cloned truncated_ids
      else
        let cloned' = upd_part cloned i j clear_input;
            truncated_ids' = insert (m_id (cloned ! i)) truncated_ids
        in if message_tokens cloned' \<le> token_budget then (cloned', truncated_ids')
           else clear_inputs ps token_budget cloned' truncated_ids')"

fun fill_slots :: "(nat \<times> nat \<times> ustr) list \<Rightarrow> int \<Rightarrow> message list \<Rightarrow> message list" where
  "fill_slots [] token_budget cloned = cloned"
| "fill_slots ((i, j, original) # slots) token_budget cloned =
     (if original = [] then fill_slots slots token_budget cloned
      else
        let remaining = max 0 (token_budget - message_tokens cloned) in
        if remaining \<le> 0 then cloned
        else
          let fitted = truncate_text_to_token_budget original remaining default_marker (3 / 4)
          in fill_slots slots token_budget (upd_part cloned i j (set_slot fitted)))"

fun mark_part :: "ustr \<Rightarrow> ustr \<Rightarrow> part \<Rightarrow> part" where
  "mark_part original fitted (ToolPart t) =
     ToolPart (t\<lparr>tp_output_truncated := True,
                 tp_output_original_chars :=
                   (case tp_output_original_chars t of None \<Rightarrow> Some (length original) | Some n \<Rightarrow> Some n),
                 tp_output_preview_chars := Some (length fitted)\<rparr>)"
| "mark_part original fitted p = p"

fun mark_slots :: "(nat \<times> nat \<times> ustr) list \<Rightarrow> message list \<Rightarrow> string set \<Rightarrow> message list \<times> string set" where
  "mark_slots [] cloned truncated_ids = (cloned, truncated_ids)"
| "mark_slots ((i, j, original) # slots) cloned truncated_ids =
     (case slot_text (get_part cloned i j) of
        None \<Rightarrow> mark_slots slots cloned truncated_ids
      | Some fitted \<Rightarrow>
          if fitted = original then mark_slots slots cloned truncated_ids
          else mark_slots slots (upd_part cloned i j (mark_part original fitted))
                 (insert (m_id (cloned ! i)) truncated_ids))"

definition truncate_message_group :: "message list \<Rightarrow> int \<Rightarrow> message list \<times> string list" where
  "truncate_message_group ms token_budget =
     (if token_budget \<le> 0 \<or> ms = [] then ([], [])
      else if message_tokens ms \<le> token_budget then (ms, [])
      else
        let slots = slots_of ms;
            cloned = blank_slots ms;
            (cloned, truncated_ids) =
              (if message_tokens cloned > token_budget
               then clear_inputs (positions cloned) token_budget cloned {} else (cloned, {}))
        in if message_tokens cloned > token_budget then ([], [])
           else
             let cloned = fill_slots slots token_budget cloned;
                 (cloned, truncated_ids) = mark_slots slots cloned truncated_ids
             in if message_tokens cloned > token_budget then ([], [])
                else (cloned, sorted_list_of_set truncated_ids))"

section \<open>Fitting the active messages\<close>

record active_message_budget_plan =
  ab_messages :: "message list"
  ab_estimated_tokens :: int
  ab_dropped_message_ids :: "string list"
  ab_truncated_message_ids :: "string list"

record fit_state =
  fs_selected :: "(nat \<times> message) list"
  fs_truncated_ids :: "string set"
  fs_used_tokens :: int

definition message_index :: "message list \<Rightarrow> message \<Rightarrow> nat" where
  "message_index ms m =
     the (map_of (rev (zip (map m_obj ms) [0..<length ms])) (m_obj m))"

definition select_messages :: "message list \<Rightarrow> message list \<Rightarrow> message list \<Rightarrow> (nat \<times> message) list \<Rightarrow> (nat \<times> message) list" where
  "select_messages messages grp chosen selected =
     fold (\<lambda>(original, returned) sel. AList.update (message_index messages original) returned sel)
       (zip grp chosen) selected"

definition select_group ::
    "message list \<Rightarrow> int \<Rightarrow> message list \<Rightarrow> bool \<Rightarrow> int option \<Rightarrow> fit_state \<Rightarrow> fit_state \<times> bool" where
  "select_group messages token_budget grp allow_truncate max_budget st =
     (if grp = [] then (st, True)
      else
        let remaining = max 0 (token_budget - fs_used_tokens st);
            remaining = (case max_budget of None \<Rightarrow> remaining | Some b \<Rightarrow> min remaining (max 0 b));
            fits = message_tokens grp \<le> remaining;
            (chosen, group_truncated) =
              (if fits then (grp, [])
               else if \<not> allow_truncate \<or> remaining \<le> 0 then ([], [])
               else truncate_message_group grp remaining)
        in if \<not> fits \<and> chosen = [] then (st, False)
           else
             (st\<lparr>fs_selected := select_messages messages grp chosen (fs_selected st),
                 fs_used_tokens := fs_used_tokens st + message_tokens chosen,
                 fs_truncated_ids := fs_truncated_ids st \<union> set group_truncated\<rparr>, True))"

text \<open>A loop over groups that stops at the first group it cannot select.\<close>

fun select_while :: "message list \<Rightarrow> int \<Rightarrow> bool \<Rightarrow> message list list \<Rightarrow> fit_state \<Rightarrow> fit_state" where
  "select_while messages token_budget allow [] st = st"
| "select_while messages token_budget allow (g # gs) st =
     (case select_group messages token_budget g allow None st of
        (st', ok) \<Rightarrow> if ok then select_while messages token_budget allow gs st' else st')"

function minimum_search :: "message list \<Rightarrow> int \<Rightarrow> int \<Rightarrow> int option \<Rightarrow> int option" where
  "minimum_search grp low high minimum =
     (if low \<le> high then
        let candidate = (low + high) div 2 in
        if fst (truncate_message_group grp candidate) \<noteq> []
        then minimum_search grp low (candidate - 1) (Some candidate)
        else minimum_search grp (candidate + 1) high minimum
      else minimum)"
  by pat_completeness auto
termination
  by (relation "measure (\<lambda>(grp, low, high, minimum). nat (high - low + 1))") auto

declare minimum_search.simps [simp del]

definition minimum_group_budget :: "int \<Rightarrow> message list \<Rightarrow> int option" where
  "minimum_group_budget token_budget grp =
     (let group_tokens = message_tokens grp in
      if grp = [] \<or> group_tokens = 0 then Some 0
      else minimum_search grp 1 (min group_tokens token_budget) None)"

definition final_reserve :: "int \<Rightarrow> message list \<Rightarrow> message list \<Rightarrow> int" where
  "final_reserve token_budget anchor_group final_group =
     (if anchor_group \<noteq> [] \<and> final_group \<noteq> [] then
        (case (minimum_group_budget token_budget anchor_group, minimum_group_budget token_budget final_group) of
           (Some anchor_minimum, Some final_minimum) \<Rightarrow>
             if anchor_minimum + final_minimum \<le> token_budget
             then min (min (message_tokens final_group) (max final_minimum (token_budget div 2)))
                      (token_budget - anchor_minimum)
             else 0
         | _ \<Rightarrow> 0)
      else 0)"

definition is_checkpoint_step :: "assistant_step \<Rightarrow> bool" where
  "is_checkpoint_step step \<longleftrightarrow> list_ex (\<lambda>m. m_kind m = Some ''checkpoint'') step"

definition select_mandatory :: "message list \<Rightarrow> int \<Rightarrow> user_turn \<Rightarrow> fit_state" where
  "select_mandatory messages token_budget latest =
     (let st = \<lparr>fs_selected = [], fs_truncated_ids = {}, fs_used_tokens = 0\<rparr>;
          anchor_group = (case ut_anchor latest of None \<Rightarrow> [] | Some a \<Rightarrow> [a]);
          final_group = (if ut_steps latest \<noteq> [] then last (ut_steps latest) else []);
          reserve = final_reserve token_budget anchor_group final_group;
          st = (if anchor_group \<noteq> []
                then fst (select_group messages token_budget anchor_group True (Some (token_budget - reserve)) st)
                else st)
      in if final_group \<noteq> []
         then fst (select_group messages token_budget final_group True None st) else st)"

definition fit_select :: "message list \<Rightarrow> int \<Rightarrow> fit_state" where
  "fit_select messages token_budget =
     (let turns = build_turns messages;
          latest = last turns;
          st = select_mandatory messages token_budget latest;
          st = select_while messages token_budget True
                 (filter is_checkpoint_step (butlast (ut_steps latest))) st;
          st = select_while messages token_budget False
                 (filter (\<lambda>s. \<not> is_checkpoint_step s) (rev (butlast (ut_steps latest)))) st
      in select_while messages token_budget False (map turn_messages (rev (butlast turns))) st)"

definition fit_active_messages_to_budget :: "message list \<Rightarrow> int \<Rightarrow> active_message_budget_plan" where
  "fit_active_messages_to_budget messages token_budget0 =
     (let token_budget = max 0 token_budget0 in
      if messages = [] \<or> token_budget = 0 then
        \<lparr>ab_messages = [], ab_estimated_tokens = 0, ab_dropped_message_ids = map m_id messages,
         ab_truncated_message_ids = []\<rparr>
      else if message_tokens messages \<le> token_budget then
        \<lparr>ab_messages = messages, ab_estimated_tokens = message_tokens messages,
         ab_dropped_message_ids = [], ab_truncated_message_ids = []\<rparr>
      else
        let st = fit_select messages token_budget;
            returned = map (\<lambda>i. the (map_of (fs_selected st) i)) (sort (map fst (fs_selected st)))
        in \<lparr>ab_messages = returned, ab_estimated_tokens = message_tokens returned,
            ab_dropped_message_ids =
              map (\<lambda>i. m_id (messages ! i))
                (filter (\<lambda>i. i \<notin> fst ` set (fs_selected st)) [0..<length messages]),
            ab_truncated_message_ids = sorted_list_of_set (fs_truncated_ids st)\<rparr>)"

section \<open>The retention plan\<close>

record retention_plan =
  rp_archive_messages :: "message list"
  rp_retained_messages :: "message list"
  rp_turn_anchor :: "message option"
  rp_checkpoint_source_message_ids :: "string list"
  rp_raw_tail_start_message_id :: "string option"
  rp_estimated_active_tokens :: int
  rp_budget_exceeded :: bool
  rp_partial_turn :: bool

definition has_archive_work :: "retention_plan \<Rightarrow> bool" where
  "has_archive_work p \<longleftrightarrow> rp_archive_messages p \<noteq> []"

definition CHECKPOINT_TOKEN_RESERVE :: int where
  "CHECKPOINT_TOKEN_RESERVE = 1024"

text \<open>The loop from the first retained step towards older ones; \<open>k\<close> steps lie before it.\<close>

fun extend_tail :: "assistant_step list \<Rightarrow> int \<Rightarrow> nat \<Rightarrow> int \<Rightarrow> nat" where
  "extend_tail steps raw_budget 0 retained_tokens = 0"
| "extend_tail steps raw_budget (Suc k) retained_tokens =
     (let candidate = message_tokens (steps ! k) in
      if retained_tokens + candidate > raw_budget then Suc k
      else extend_tail steps raw_budget k (retained_tokens + candidate))"

definition partial_latest_turn_plan :: "user_turn list \<Rightarrow> user_turn \<Rightarrow> int \<Rightarrow> int \<Rightarrow> retention_plan" where
  "partial_latest_turn_plan older_turns latest_turn token_budget min_raw_tail_steps =
     (let anchor = ut_anchor latest_turn;
          steps = ut_steps latest_turn;
          min_tail = (if steps \<noteq> [] then nat (max 1 min_raw_tail_steps) else 0);
          first0 = length steps - min_tail;
          retained_tokens = (case anchor of None \<Rightarrow> 0 | Some a \<Rightarrow> int (estimated_tokens a)) +
                            (\<Sum>s\<leftarrow>drop first0 steps. message_tokens s);
          checkpoint_reserve = min CHECKPOINT_TOKEN_RESERVE (max 0 (token_budget div 4));
          raw_budget = max 0 (token_budget - checkpoint_reserve);
          first_retained_step = extend_tail steps raw_budget first0 retained_tokens;
          archived_source_messages = concat (take first_retained_step steps);
          retained_steps = drop first_retained_step steps;
          anchor_list = (case anchor of None \<Rightarrow> [] | Some a \<Rightarrow> [a]);
          retained_messages = anchor_list @ concat retained_steps;
          archive_messages = flatten_turns older_turns @
            (if archived_source_messages \<noteq> [] then anchor_list @ archived_source_messages else []);
          active_tokens = message_tokens retained_messages
      in \<lparr>rp_archive_messages = archive_messages,
          rp_retained_messages = retained_messages,
          rp_turn_anchor = anchor,
          rp_checkpoint_source_message_ids = map m_id archived_source_messages,
          rp_raw_tail_start_message_id =
            (case retained_steps of [] \<Rightarrow> None | s # _ \<Rightarrow> (case s of [] \<Rightarrow> None | m # _ \<Rightarrow> Some (m_id m))),
          rp_estimated_active_tokens = active_tokens,
          rp_budget_exceeded = (active_tokens > token_budget),
          rp_partial_turn = (archived_source_messages \<noteq> [])\<rparr>)"

definition simple_plan :: "message list \<Rightarrow> message list \<Rightarrow> int \<Rightarrow> retention_plan" where
  "simple_plan archive retained tokens =
     \<lparr>rp_archive_messages = archive, rp_retained_messages = retained, rp_turn_anchor = None,
      rp_checkpoint_source_message_ids = [], rp_raw_tail_start_message_id = None,
      rp_estimated_active_tokens = tokens, rp_budget_exceeded = False, rp_partial_turn = False\<rparr>"

text \<open>\<^verbatim>\<open>while len(retained_turns) > 1 and sum(...) > token_budget: selected_start += 1\<close>\<close>

function evict_turns :: "user_turn list \<Rightarrow> int \<Rightarrow> nat \<Rightarrow> nat" where
  "evict_turns turns token_budget start =
     (if length (drop start turns) > 1 \<and> (\<Sum>t\<leftarrow>drop start turns. turn_tokens t) > token_budget
      then evict_turns turns token_budget (Suc start) else start)"
  by pat_completeness auto
termination
  by (relation "measure (\<lambda>(turns, b, start). length turns - start)") auto

declare evict_turns.simps [simp del]

definition plan_retention :: "message list \<Rightarrow> int \<Rightarrow> int \<Rightarrow> int \<Rightarrow> retention_plan" where
  "plan_retention messages keep_recent_turn_count0 token_budget0 min_raw_tail_steps =
     (let keep_recent_turn_count = nat (max 0 keep_recent_turn_count0);
          token_budget = max 0 token_budget0;
          turns = build_turns messages
      in if turns = [] \<or> keep_recent_turn_count = 0 then simple_plan messages [] 0
         else
           let selected_start = evict_turns turns token_budget (length turns - keep_recent_turn_count);
               retained_turns = drop selected_start turns;
               older_turns = take selected_start turns;
               latest_turn = last retained_turns
           in if turn_tokens latest_turn > token_budget then
                (if ut_anchor latest_turn = None
                 then simple_plan (flatten_turns (older_turns @ [latest_turn])) [] 0
                 else partial_latest_turn_plan older_turns latest_turn token_budget min_raw_tail_steps)
              else
                simple_plan (flatten_turns older_turns) (flatten_turns retained_turns)
                  (message_tokens (flatten_turns retained_turns)))"

section \<open>Turns keep every message in order\<close>

lemma message_tokens_simps [simp]:
  "message_tokens [] = 0"
  "message_tokens (m # ms) = int (estimated_tokens m) + message_tokens ms"
  "message_tokens (ms @ ns) = message_tokens ms + message_tokens ns"
  by (simp_all add: message_tokens_def)

lemma message_tokens_nonneg [simp]: "0 \<le> message_tokens ms"
  by (induction ms) simp_all

lemma flatten_turns_simps [simp]:
  "flatten_turns [] = []"
  "flatten_turns (t # ts) = turn_messages t @ flatten_turns ts"
  "flatten_turns (ts @ us) = flatten_turns ts @ flatten_turns us"
  by (simp_all add: flatten_turns_def)

lemma turn_messages_append [simp]: "turn_messages (append_to_turn t m) = turn_messages t @ [m]"
proof (cases "ut_steps t" rule: rev_cases)
  case (snoc ss s)
  then show ?thesis by (simp add: append_to_turn_def turn_messages_def)
qed (simp add: append_to_turn_def turn_messages_def)

lemma build_turns_loop_flatten: "flatten_turns (build_turns_loop ts ms) = flatten_turns ts @ ms"
proof (induction ms arbitrary: ts)
  case (Cons m ms)
  show ?case
  proof (cases "is_user_query m")
    case True
    then show ?thesis using Cons.IH by (simp add: turn_messages_def)
  next
    case False
    then show ?thesis
      using Cons.IH by (cases ts rule: rev_cases) (simp_all add: turn_messages_def [of "\<lparr>ut_anchor = None, ut_steps = []\<rparr>"])
  qed
qed simp

lemma flatten_build_turns: "flatten_turns (build_turns ms) = ms"
  by (simp add: build_turns_def build_turns_loop_flatten)

lemma build_turns_not_Nil: "ms \<noteq> [] \<Longrightarrow> build_turns ms \<noteq> []"
  using flatten_build_turns by (metis flatten_turns_simps(1))

lemma message_tokens_flatten: "(\<Sum>t\<leftarrow>ts. turn_tokens t) = message_tokens (flatten_turns ts)"
  by (induction ts) (simp_all add: turn_tokens_def)

lemma message_tokens_concat: "(\<Sum>s\<leftarrow>ss. message_tokens s) = message_tokens (concat ss)"
  by (induction ss) simp_all

text \<open>The shape of a turn: its anchor is a user query, its steps hold none and are not empty,
  and a tool-result message only opens a step when nothing precedes it in the turn.\<close>

definition turn_wf :: "user_turn \<Rightarrow> bool" where
  "turn_wf t \<longleftrightarrow>
     (\<forall>a. ut_anchor t = Some a \<longrightarrow> is_user_query a) \<and>
     (\<forall>s \<in> set (ut_steps t). s \<noteq> [] \<and> (\<forall>m \<in> set s. \<not> is_user_query m) \<and> (\<forall>m \<in> set (tl s). is_tool_transport m)) \<and>
     (\<forall>s \<in> set (tl (ut_steps t)). \<not> is_tool_transport (hd s))"

lemma append_to_turn_wf:
  assumes "turn_wf t" and "\<not> is_user_query m"
  shows "turn_wf (append_to_turn t m)"
proof (cases "is_tool_transport m \<and> ut_steps t \<noteq> []")
  case True
  then obtain ss s where ss: "ut_steps t = ss @ [s]" by (cases "ut_steps t" rule: rev_cases) auto
  with assms(1) have s: "s \<noteq> []" by (auto simp: turn_wf_def)
  have st: "ut_steps (append_to_turn t m) = ss @ [s @ [m]]" "ut_anchor (append_to_turn t m) = ut_anchor t"
    using True ss by (simp_all add: append_to_turn_def)
  show ?thesis
    using assms s True unfolding turn_wf_def st ss by (cases ss) (auto simp: tl_append split: list.splits)
next
  case False
  then have st: "ut_steps (append_to_turn t m) = ut_steps t @ [[m]]" "ut_anchor (append_to_turn t m) = ut_anchor t"
    by (auto simp: append_to_turn_def)
  show ?thesis
    using assms False unfolding turn_wf_def st by (cases "ut_steps t") auto
qed

lemma build_turns_loop_wf:
  "\<forall>t \<in> set ts. turn_wf t \<Longrightarrow> \<forall>t \<in> set (tl ts). ut_anchor t \<noteq> None \<Longrightarrow>
   (\<forall>t \<in> set (build_turns_loop ts ms). turn_wf t) \<and>
   (\<forall>t \<in> set (tl (build_turns_loop ts ms)). ut_anchor t \<noteq> None)"
proof (induction ms arbitrary: ts)
  case (Cons m ms)
  have anc: "ut_anchor (append_to_turn t m) = ut_anchor t" for t by (simp add: append_to_turn_def)
  show ?case
  proof (cases "is_user_query m")
    case True
    have "\<forall>t \<in> set (ts @ [\<lparr>ut_anchor = Some m, ut_steps = []\<rparr>]). turn_wf t"
      using Cons.prems(1) True by (auto simp: turn_wf_def)
    moreover have "\<forall>t \<in> set (tl (ts @ [\<lparr>ut_anchor = Some m, ut_steps = []\<rparr>])). ut_anchor t \<noteq> None"
      using Cons.prems(2) by (cases ts) auto
    moreover have "build_turns_loop ts (m # ms) = build_turns_loop (ts @ [\<lparr>ut_anchor = Some m, ut_steps = []\<rparr>]) ms"
      using True by simp
    ultimately show ?thesis using Cons.IH by presburger
  next
    case False
    define ts' where "ts' = (if ts = [] then [\<lparr>ut_anchor = None, ut_steps = []\<rparr>] else ts)"
    have wf: "\<forall>t \<in> set ts'. turn_wf t" "\<forall>t \<in> set (tl ts'). ut_anchor t \<noteq> None"
      using Cons.prems by (auto simp: ts'_def turn_wf_def)
    obtain us u where us: "ts' = us @ [u]" by (cases ts' rule: rev_cases) (auto simp: ts'_def split: if_splits)
    have "\<forall>t \<in> set (us @ [append_to_turn u m]). turn_wf t"
      using wf us False append_to_turn_wf by auto
    moreover have "\<forall>t \<in> set (tl (us @ [append_to_turn u m])). ut_anchor t \<noteq> None"
      using wf(2) us anc by (cases us) auto
    moreover have "build_turns_loop ts (m # ms) = build_turns_loop (us @ [append_to_turn u m]) ms"
      using False us by (simp add: ts'_def [symmetric] del: butlast.simps last.simps)
    ultimately show ?thesis using Cons.IH by presburger
  qed
qed simp

lemma build_turns_wf:
  "(\<forall>t \<in> set (build_turns ms). turn_wf t) \<and> (\<forall>t \<in> set (tl (build_turns ms)). ut_anchor t \<noteq> None)"
  unfolding build_turns_def by (rule build_turns_loop_wf) simp_all

section \<open>The plan archives and retains every message\<close>

lemma evict_turns_spec:
  "start \<le> evict_turns ts b start \<and>
   (start < length ts \<longrightarrow> evict_turns ts b start < length ts) \<and>
   (length (drop (evict_turns ts b start) ts) > 1 \<longrightarrow> message_tokens (flatten_turns (drop (evict_turns ts b start) ts)) \<le> b) \<and>
   (\<forall>k. start \<le> k \<longrightarrow> k < evict_turns ts b start \<longrightarrow> message_tokens (flatten_turns (drop k ts)) > b)"
proof (induction ts b start rule: evict_turns.induct)
  case (1 ts b start)
  show ?case
  proof (cases "length (drop start ts) > 1 \<and> (\<Sum>t\<leftarrow>drop start ts. turn_tokens t) > b")
    case True
    then have eq: "evict_turns ts b start = evict_turns ts b (Suc start)"
      by (simp add: evict_turns.simps [of ts b start])
    have "message_tokens (flatten_turns (drop start ts)) > b"
      using True by (simp add: message_tokens_flatten)
    then have "\<forall>k. start \<le> k \<longrightarrow> k < evict_turns ts b (Suc start) \<longrightarrow> message_tokens (flatten_turns (drop k ts)) > b"
      using "1.IH" [OF True] by (metis le_antisym not_less_eq_eq)
    moreover have "Suc start < length ts" using conjunct1 [OF True] by simp
    ultimately show ?thesis unfolding eq using "1.IH" [OF True] by simp
  next
    case False
    then have "evict_turns ts b start = start" by (subst evict_turns.simps) (rule if_not_P)
    with False show ?thesis by (auto simp: message_tokens_flatten)
  qed
qed

lemma extend_tail_spec:
  "extend_tail ss b k r \<le> k \<and>
   (r \<le> b \<longrightarrow> r + message_tokens (concat (take (k - extend_tail ss b k r) (drop (extend_tail ss b k r) ss))) \<le> b
     \<or> length ss < k)"
proof (induction k arbitrary: r)
  case (Suc k)
  show ?case
  proof (cases "r + message_tokens (ss ! k) > b")
    case False
    define e where "e = extend_tail ss b k (r + message_tokens (ss ! k))"
    have eq: "extend_tail ss b (Suc k) r = e" using False by (simp add: e_def)
    from Suc.IH [of "r + message_tokens (ss ! k)"] have le: "e \<le> k" by (simp add: e_def)
    have "message_tokens (concat (take (Suc k - e) (drop e ss))) =
          message_tokens (concat (take (k - e) (drop e ss))) + message_tokens (ss ! k)" if "k < length ss"
    proof -
      have "take (Suc k - e) (drop e ss) = take (k - e) (drop e ss) @ [ss ! k]"
        using that le by (simp add: Suc_diff_le take_Suc_conv_app_nth)
      then show ?thesis by simp
    qed
    then show ?thesis
      unfolding eq using Suc.IH [of "r + message_tokens (ss ! k)"] False le
      by (cases "k < length ss") (auto simp: e_def [symmetric])
  qed simp
qed simp

lemma partial_plan_shape:
  "\<exists>k \<le> length (ut_steps latest) - (if ut_steps latest \<noteq> [] then nat (max 1 tail) else 0).
     let p = partial_latest_turn_plan older latest b tail;
         anchor = (case ut_anchor latest of None \<Rightarrow> [] | Some a \<Rightarrow> [a]);
         early = concat (take k (ut_steps latest)); late = concat (drop k (ut_steps latest))
     in rp_archive_messages p = flatten_turns older @ (if early = [] then [] else anchor @ early) \<and>
        rp_retained_messages p = anchor @ late \<and> rp_checkpoint_source_message_ids p = map m_id early \<and>
        rp_turn_anchor p = ut_anchor latest \<and> (rp_partial_turn p \<longleftrightarrow> early \<noteq> []) \<and>
        rp_estimated_active_tokens p = message_tokens (anchor @ late) \<and>
        (rp_budget_exceeded p \<longleftrightarrow> message_tokens (anchor @ late) > b)"
proof -
  define f where "f = length (ut_steps latest) - (if ut_steps latest \<noteq> [] then nat (max 1 tail) else 0)"
  define raw where "raw = max 0 (b - min CHECKPOINT_TOKEN_RESERVE (max 0 (b div 4)))"
  define r where "r = (case ut_anchor latest of None \<Rightarrow> 0 | Some a \<Rightarrow> int (estimated_tokens a)) +
                      (\<Sum>s\<leftarrow>drop f (ut_steps latest). message_tokens s)"
  define k where "k = extend_tail (ut_steps latest) raw f r"
  have "k \<le> f" using extend_tail_spec unfolding k_def by blast
  then show ?thesis
    unfolding partial_latest_turn_plan_def Let_def f_def [symmetric] raw_def [symmetric] r_def [symmetric] k_def [symmetric]
    by (intro exI [of _ k]) simp
qed

lemma partial_plan_conserves:
  assumes "p = partial_latest_turn_plan older latest b tail" and "ut_anchor latest = Some a"
  shows "\<exists>early late. turn_messages latest = a # early @ late \<and>
     rp_archive_messages p = flatten_turns older @ (if early = [] then [] else a # early) \<and>
     rp_retained_messages p = a # late \<and> rp_checkpoint_source_message_ids p = map m_id early \<and>
     (rp_partial_turn p \<longleftrightarrow> early \<noteq> []) \<and> rp_turn_anchor p = Some a"
proof -
  from partial_plan_shape [of latest tail older b, folded assms(1)] obtain k where k:
    "rp_archive_messages p = flatten_turns older @ (if concat (take k (ut_steps latest)) = [] then [] else a # concat (take k (ut_steps latest)))"
    "rp_retained_messages p = a # concat (drop k (ut_steps latest))"
    "rp_checkpoint_source_message_ids p = map m_id (concat (take k (ut_steps latest)))"
    "rp_turn_anchor p = Some a" "rp_partial_turn p \<longleftrightarrow> concat (take k (ut_steps latest)) \<noteq> []"
    by (simp only: assms(2) Let_def option.case append.simps) blast
  have "turn_messages latest = a # concat (take k (ut_steps latest) @ drop k (ut_steps latest))"
    using assms(2) by (simp add: turn_messages_def)
  then have "turn_messages latest = a # concat (take k (ut_steps latest)) @ concat (drop k (ut_steps latest))"
    by (simp only: concat_append)
  with k show ?thesis by blast
qed

lemma partial_plan_tokens:
  assumes "p = partial_latest_turn_plan older latest b tail"
  shows "rp_estimated_active_tokens p = message_tokens (rp_retained_messages p) \<and>
     (rp_budget_exceeded p \<longleftrightarrow> message_tokens (rp_retained_messages p) > b)"
  using partial_plan_shape [of latest tail older b, folded assms] by (simp only: Let_def) metis

lemma simple_plan_simps [simp]:
  "rp_archive_messages (simple_plan a r t) = a" "rp_retained_messages (simple_plan a r t) = r"
  "rp_estimated_active_tokens (simple_plan a r t) = t" "\<not> rp_budget_exceeded (simple_plan a r t)"
  "\<not> rp_partial_turn (simple_plan a r t)"
  by (simp_all add: simple_plan_def)

text \<open>The three outcomes of the planner, with the boundary it chose between the turns.\<close>

definition selected_start :: "message list \<Rightarrow> int \<Rightarrow> int \<Rightarrow> nat" where
  "selected_start ms keep b =
     evict_turns (build_turns ms) (max 0 b) (length (build_turns ms) - nat (max 0 keep))"

lemma selected_start_bound:
  assumes "build_turns ms \<noteq> []" and "nat (max 0 keep) \<noteq> 0"
  shows "selected_start ms keep b < length (build_turns ms)"
proof -
  have "length (build_turns ms) - nat (max 0 keep) < length (build_turns ms)"
    using assms by (intro diff_less) auto
  then show ?thesis using evict_turns_spec unfolding selected_start_def by blast
qed

lemma last_retained:
  assumes "build_turns ms \<noteq> []" and "nat (max 0 keep) \<noteq> 0"
  shows "last (drop (selected_start ms keep b) (build_turns ms)) = last (build_turns ms)"
  using selected_start_bound [OF assms, of b] by simp

lemma latest_over_budget_alone:
  assumes "build_turns ms \<noteq> []" and "nat (max 0 keep) \<noteq> 0" and "turn_tokens (last (build_turns ms)) > max 0 b"
  shows "drop (selected_start ms keep b) (build_turns ms) = [last (build_turns ms)]"
proof -
  let ?d = "drop (selected_start ms keep b) (build_turns ms)"
  have ne: "?d \<noteq> []" using selected_start_bound [OF assms(1,2), of b] by simp
  have "message_tokens (flatten_turns ?d) \<ge> turn_tokens (last ?d)"
    using ne by (cases ?d rule: rev_cases) (simp_all add: turn_tokens_def)
  then have "\<not> length ?d > 1"
    using assms(3) last_retained [OF assms(1,2)] evict_turns_spec unfolding selected_start_def
    by (metis linorder_not_less order.strict_trans2)
  then show ?thesis using ne last_retained [OF assms(1,2), of b] by (cases ?d) auto
qed

lemma plan_retention_cases [consumes 1, case_names empty legacy partial complete]:
  assumes plan: "p = plan_retention ms keep b tail"
  obtains "build_turns ms = [] \<or> nat (max 0 keep) = 0" "p = simple_plan ms [] 0"
  | "build_turns ms \<noteq> []" "nat (max 0 keep) \<noteq> 0" "turn_tokens (last (build_turns ms)) > max 0 b"
      "ut_anchor (last (build_turns ms)) = None" "p = simple_plan ms [] 0"
  | a where "build_turns ms \<noteq> []" "nat (max 0 keep) \<noteq> 0" "turn_tokens (last (build_turns ms)) > max 0 b"
      "ut_anchor (last (build_turns ms)) = Some a"
      "p = partial_latest_turn_plan (take (selected_start ms keep b) (build_turns ms)) (last (build_turns ms)) (max 0 b) tail"
      "drop (selected_start ms keep b) (build_turns ms) = [last (build_turns ms)]"
  | "build_turns ms \<noteq> []" "nat (max 0 keep) \<noteq> 0" "turn_tokens (last (build_turns ms)) \<le> max 0 b"
      "p = simple_plan (flatten_turns (take (selected_start ms keep b) (build_turns ms)))
             (flatten_turns (drop (selected_start ms keep b) (build_turns ms)))
             (message_tokens (flatten_turns (drop (selected_start ms keep b) (build_turns ms))))"
proof -
  define ts where "ts = build_turns ms"
  define j where "j = selected_start ms keep b"
  show ?thesis
  proof (cases "ts = [] \<or> nat (max 0 keep) = 0")
    case True
    then have "p = simple_plan ms [] 0" unfolding plan plan_retention_def Let_def ts_def by simp
    with True that(1) show ?thesis unfolding ts_def by blast
  next
    case False
    then have ne: "ts \<noteq> []" "nat (max 0 keep) \<noteq> 0" by auto
    have last: "last (drop j ts) = last ts" using last_retained ne unfolding j_def ts_def by simp
    have p: "p = (if turn_tokens (last ts) > max 0 b then
                  (if ut_anchor (last ts) = None then simple_plan (flatten_turns (take j ts @ [last ts])) [] 0
                   else partial_latest_turn_plan (take j ts) (last ts) (max 0 b) tail)
                else simple_plan (flatten_turns (take j ts)) (flatten_turns (drop j ts))
                    (message_tokens (flatten_turns (drop j ts))))"
      unfolding plan plan_retention_def Let_def ts_def [symmetric]
        selected_start_def [of ms keep b, folded j_def ts_def, symmetric] last
      using False by (simp only: if_False)
    show ?thesis
    proof (cases "turn_tokens (last ts) > max 0 b")
      case True
      have alone: "drop j ts = [last ts]" using latest_over_budget_alone ne True unfolding j_def ts_def by blast
      then have "take j ts @ [last ts] = ts" by (metis append_take_drop_id)
      then have "flatten_turns (take j ts @ [last ts]) = ms" by (simp only: ts_def flatten_build_turns)
      then show ?thesis
        using that(2,3) [folded ts_def j_def] ne True p alone by (cases "ut_anchor (last ts)") simp_all
    next
      case False
      then have "p = simple_plan (flatten_turns (take j ts)) (flatten_turns (drop j ts))
                       (message_tokens (flatten_turns (drop j ts)))"
        using p by (simp only: if_False)
      with that(4) [folded ts_def j_def] ne False show ?thesis by (simp add: not_less)
    qed
  qed
qed

lemma flatten_boundary:
  "flatten_turns (take j (build_turns ms)) @ flatten_turns (drop j (build_turns ms)) = ms"
  by (metis append_take_drop_id flatten_build_turns flatten_turns_simps(3))

lemma plan_retention_conserves_aux:
  assumes "p = plan_retention ms keep b tail"
  shows "(\<not> rp_partial_turn p \<longrightarrow> rp_archive_messages p @ rp_retained_messages p = ms) \<and>
    (rp_partial_turn p \<longrightarrow> (\<exists>older a early late. ms = older @ a # early @ late \<and> early \<noteq> [] \<and> is_user_query a \<and>
       rp_archive_messages p = older @ a # early \<and> rp_retained_messages p = a # late \<and>
       rp_checkpoint_source_message_ids p = map m_id early \<and> rp_turn_anchor p = Some a))"
using assms
proof (cases rule: plan_retention_cases)
  case (partial a)
  let ?j = "selected_start ms keep b"
  have ms: "flatten_turns (take ?j (build_turns ms)) @ turn_messages (last (build_turns ms)) = ms"
    using flatten_boundary [of ?j ms] partial(6) by simp
  have "turn_wf (last (build_turns ms))" using build_turns_wf [of ms] partial(1) by simp
  then have q: "is_user_query a" using partial(4) by (simp add: turn_wf_def)
  obtain early late where e: "turn_messages (last (build_turns ms)) = a # early @ late"
    "rp_archive_messages p = flatten_turns (take ?j (build_turns ms)) @ (if early = [] then [] else a # early)"
    "rp_retained_messages p = a # late" "rp_checkpoint_source_message_ids p = map m_id early"
    "rp_partial_turn p \<longleftrightarrow> early \<noteq> []" "rp_turn_anchor p = Some a"
    using partial_plan_conserves [OF partial(5,4)] by blast
  show ?thesis
  proof (cases "early = []")
    case False
    then have "ms = flatten_turns (take ?j (build_turns ms)) @ a # early @ late"
      "rp_archive_messages p = flatten_turns (take ?j (build_turns ms)) @ a # early" "rp_partial_turn p"
      using ms e by simp_all
    then show ?thesis using False e q by blast
  qed (use ms e in simp)
next
  case complete
  then show ?thesis by (simp add: flatten_boundary)
qed simp_all

lemma plan_retention_budget_aux:
  assumes "p = plan_retention ms keep b tail"
  shows "rp_estimated_active_tokens p = message_tokens (rp_retained_messages p) \<and>
    (rp_budget_exceeded p \<longleftrightarrow> message_tokens (rp_retained_messages p) > max 0 b)"
using assms
proof (cases rule: plan_retention_cases)
  case (partial a)
  then show ?thesis using partial_plan_tokens by blast
next
  case complete
  let ?d = "drop (selected_start ms keep b) (build_turns ms)"
  have "message_tokens (flatten_turns ?d) \<le> max 0 b"
  proof (cases "length ?d > 1")
    case True
    then show ?thesis using evict_turns_spec unfolding selected_start_def by blast
  next
    case False
    then have "?d = [last (build_turns ms)]"
      using selected_start_bound [OF complete(1,2), of b] last_retained [OF complete(1,2), of b]
      by (cases ?d) auto
    then show ?thesis using complete(3) by (simp add: turn_tokens_def)
  qed
  then show ?thesis using complete(4) by (auto simp: not_less)
qed simp_all

section \<open>Truncating a group keeps its budget\<close>

definition parts_units :: "part list \<Rightarrow> nat" where
  "parts_units ps = (\<Sum>p\<leftarrow>ps. units (part_text p))"

lemma estimated_tokens_units: "estimated_tokens m = (parts_units (m_parts m) + 3) div 4"
proof -
  have "units (concat (map part_text ps)) = parts_units ps" for ps
    by (induction ps) (simp_all add: parts_units_def)
  then show ?thesis by (simp add: estimated_tokens_def estimate_units)
qed

lemma estimated_tokens_mono: "parts_units (m_parts m) \<le> parts_units (m_parts n) \<Longrightarrow> estimated_tokens m \<le> estimated_tokens n"
  by (simp add: estimated_tokens_units div_le_mono)

lemma units_set_slot: "units (part_text (set_slot v p)) \<le> units (part_text p) + units v"
  by (cases p) simp_all

lemma units_clear_input: "units (part_text (clear_input p)) \<le> units (part_text p)"
  by (cases p) simp_all

lemma part_text_mark [simp]: "part_text (mark_part o' f p) = part_text p"
  by (cases p) simp_all

lemma parts_units_update:
  assumes "units (part_text (f (ps ! j))) \<le> units (part_text (ps ! j)) + d"
  shows "parts_units (ps[j := f (ps ! j)]) \<le> parts_units ps + d"
proof (cases "j < length ps")
  case True
  then have "parts_units (ps[j := f (ps ! j)]) + units (part_text (ps ! j)) = parts_units ps + units (part_text (f (ps ! j)))"
    by (simp add: parts_units_def map_update sum_list_update elem_le_sum_list)
       (metis (no_types, lifting) add.commute elem_le_sum_list le_add_diff_inverse2 length_map nth_map trans_le_add2 diff_add)
  with assms show ?thesis by linarith
qed (simp add: list_update_beyond)

lemma message_tokens_update:
  assumes "int (estimated_tokens m) \<le> int (estimated_tokens (ms ! i)) + d" and "0 \<le> d"
  shows "message_tokens (ms[i := m]) \<le> message_tokens ms + d"
proof (cases "i < length ms")
  case True
  then have "ms = take i ms @ ms ! i # drop (Suc i) ms" by (rule id_take_nth_drop)
  then have "message_tokens ms = message_tokens (take i ms) + int (estimated_tokens (ms ! i)) + message_tokens (drop (Suc i) ms)"
    by (metis add.assoc message_tokens_simps(2,3))
  then show ?thesis using assms(1) True by (simp add: upd_conv_take_nth_drop)
qed (simp add: list_update_beyond assms)

lemma upd_part_length [simp]: "length (upd_part ms i j f) = length ms"
  by (simp add: upd_part_def)

lemma message_tokens_upd_part:
  assumes "\<And>p. units (part_text (f p)) \<le> units (part_text p) + units v"
  shows "message_tokens (upd_part ms i j f) \<le> message_tokens ms + int (estimate_text_tokens v)"
proof -
  let ?m = "(ms ! i)\<lparr>m_parts := (m_parts (ms ! i))[j := f (m_parts (ms ! i) ! j)]\<rparr>"
  have "parts_units (m_parts ?m) \<le> parts_units (m_parts (ms ! i)) + units v"
    using parts_units_update [of f "m_parts (ms ! i)" j "units v"] assms by simp
  then have "estimated_tokens ?m \<le> estimated_tokens (ms ! i) + estimate_text_tokens v"
    by (simp add: estimated_tokens_units estimate_units)
  then show ?thesis unfolding upd_part_def by (intro message_tokens_update) simp_all
qed

lemma fill_slots_budget:
  "message_tokens ms \<le> b \<Longrightarrow> message_tokens (fill_slots slots b ms) \<le> b \<and> length (fill_slots slots b ms) = length ms"
proof (induction slots b ms rule: fill_slots.induct)
  case (2 i j t slots b ms)
  define r where "r = max 0 (b - message_tokens ms)"
  define v where "v = truncate_text_to_token_budget t r default_marker (3 / 4)"
  have "int (estimate_text_tokens v) \<le> r" unfolding v_def by (rule truncate_fits) (simp add: r_def)
  moreover have "message_tokens (upd_part ms i j (set_slot v)) \<le> message_tokens ms + int (estimate_text_tokens v)"
    by (rule message_tokens_upd_part) (rule units_set_slot)
  ultimately have "message_tokens (upd_part ms i j (set_slot v)) \<le> b" using "2.prems" by (simp add: r_def)
  then show ?case
    using "2.IH" "2.prems" by (simp add: Let_def r_def [symmetric] v_def [symmetric])
qed simp

lemma message_tokens_mark: "message_tokens (upd_part ms i j (mark_part t f)) = message_tokens ms"
proof (cases "i < length ms")
  case True
  have "map part_text (ps[j := mark_part t f (ps ! j)]) = map part_text ps" for ps
    by (metis list_update_beyond list_update_id map_update not_le nth_map part_text_mark)
  then have "estimated_tokens ((ms ! i)\<lparr>m_parts := (m_parts (ms ! i))[j := mark_part t f (m_parts (ms ! i) ! j)]\<rparr>) = estimated_tokens (ms ! i)"
    by (simp add: estimated_tokens_def)
  then show ?thesis
    unfolding upd_part_def message_tokens_def
    by (metis (mono_tags, lifting) list_update_id map_update)
qed (simp add: upd_part_def list_update_beyond)

lemma mark_slots_tokens:
  "message_tokens (fst (mark_slots slots ms ids)) = message_tokens ms \<and> length (fst (mark_slots slots ms ids)) = length ms"
  by (induction slots ms ids rule: mark_slots.induct) (auto simp: message_tokens_mark split: option.splits)

lemma clear_inputs_length [simp]: "length (fst (clear_inputs ps b ms ids)) = length ms"
  by (induction ps b ms ids rule: clear_inputs.induct) (auto simp: Let_def)

lemma blank_slots_length [simp]: "length (blank_slots ms) = length ms"
  by (simp add: blank_slots_def)

lemma cleared_length:
  assumes "(if message_tokens (blank_slots ms) > b
      then clear_inputs (positions (blank_slots ms)) b (blank_slots ms) {} else (blank_slots ms, {})) = (c, cids)"
  shows "length c = length ms"
  using assms by (metis blank_slots_length clear_inputs_length fst_conv)

lemma truncate_message_group_spec:
  assumes "truncate_message_group ms b = (r, ids)"
  shows "message_tokens r \<le> max 0 b \<and> (r = [] \<or> length r = length ms)"
proof -
  obtain c cids where c: "(if message_tokens (blank_slots ms) > b
      then clear_inputs (positions (blank_slots ms)) b (blank_slots ms) {} else (blank_slots ms, {})) = (c, cids)"
    by (metis surj_pair)
  have len: "length c = length ms" by (rule cleared_length [OF c])
  obtain d dids where d: "mark_slots (slots_of ms) (fill_slots (slots_of ms) b c) cids = (d, dids)" by (metis surj_pair)
  have "length d = length ms" if "message_tokens c \<le> b"
    using d len mark_slots_tokens fill_slots_budget [OF that] by (metis fst_conv)
  then show ?thesis
    using assms c d unfolding truncate_message_group_def Let_def
    by (auto split: if_splits prod.splits)
qed

text \<open>The fixed cost of a group: every body blanked and every tool input cleared.\<close>

definition skeleton :: "message list \<Rightarrow> message list" where
  "skeleton ms = map (\<lambda>m. m\<lparr>m_parts := map (clear_input \<circ> set_slot []) (m_parts m)\<rparr>) ms"

definition clear_at :: "(nat \<times> nat) list \<Rightarrow> message list \<Rightarrow> message list" where
  "clear_at ps ms = fold (\<lambda>(i, j) c. upd_part c i j clear_input) ps ms"

lemma clear_input_idem [simp]: "clear_input (clear_input p) = clear_input p"
  by (cases p) simp_all

lemma clear_input_none: "\<not> has_input p \<Longrightarrow> clear_input p = p"
  by (cases p) auto

lemma upd_part_none: "\<not> has_input (get_part ms i j) \<Longrightarrow> upd_part ms i j clear_input = ms"
  by (simp add: upd_part_def get_part_def clear_input_none)

lemma message_tokens_clear: "message_tokens (upd_part ms i j clear_input) \<le> message_tokens ms"
  using message_tokens_upd_part [of clear_input "[]" ms i j] units_clear_input by simp

lemma clear_at_tokens: "message_tokens (clear_at ps ms) \<le> message_tokens ms"
proof (induction ps arbitrary: ms)
  case (Cons q ps)
  obtain i j where "q = (i, j)" by (cases q)
  then show ?case using Cons.IH [of "upd_part ms i j clear_input"] message_tokens_clear [of ms i j] by (simp add: clear_at_def)
qed (simp add: clear_at_def)

lemma clear_inputs_result:
  "message_tokens (fst (clear_inputs ps b ms ids)) \<le> b \<longleftrightarrow> message_tokens (clear_at ps ms) \<le> b \<or> message_tokens ms \<le> b"
proof (induction ps b ms ids rule: clear_inputs.induct)
  case (2 i j ps b ms ids)
  show ?case
  proof (cases "has_input (get_part ms i j)")
    case False
    then show ?thesis using 2 by (simp add: clear_at_def upd_part_none)
  next
    case True
    have "message_tokens (clear_at ps (upd_part ms i j clear_input)) \<le> message_tokens (upd_part ms i j clear_input)"
      by (rule clear_at_tokens)
    then show ?thesis
      using 2 True message_tokens_clear [of ms i j] by (auto simp: Let_def clear_at_def)
  qed
qed (simp add: clear_at_def)

lemma clear_at_length: "length (clear_at ps ms) = length ms"
  unfolding clear_at_def by (induction ps arbitrary: ms) (auto split: prod.splits)

lemma clear_at_parts:
  "i < length ms \<Longrightarrow> m_parts (clear_at ps ms ! i) =
     map (\<lambda>j. if (i, j) \<in> set ps then clear_input (get_part ms i j) else get_part ms i j) [0..<length (m_parts (ms ! i))]
   \<and> message.truncate (clear_at ps ms ! i) \<lparr>m_parts := []\<rparr> = message.truncate (ms ! i) \<lparr>m_parts := []\<rparr>"
proof (induction ps arbitrary: ms)
  case Nil
  then show ?case by (simp add: clear_at_def get_part_def map_nth)
next
  case (Cons q ps)
  obtain k l where q: "q = (k, l)" by (cases q)
  let ?u = "upd_part ms k l clear_input"
  have len: "length (m_parts (?u ! i)) = length (m_parts (ms ! i))"
    using Cons.prems by (cases "k = i") (simp_all add: upd_part_def)
  have get: "get_part ?u i j = (if (i, j) = (k, l) then clear_input (get_part ms i j) else get_part ms i j)"
    if "j < length (m_parts (ms ! i))" for j
    using that Cons.prems by (cases "k = i") (auto simp: upd_part_def get_part_def nth_list_update)
  have rest: "message.truncate (?u ! i) \<lparr>m_parts := []\<rparr> = message.truncate (ms ! i) \<lparr>m_parts := []\<rparr>"
    using Cons.prems by (cases "k = i") (simp_all add: upd_part_def message.defs)
  show ?case
    using Cons.IH [of ?u] Cons.prems len get rest
    by (auto simp: q clear_at_def)
qed

lemma clear_at_blank: "clear_at (positions (blank_slots ms)) (blank_slots ms) = skeleton ms"
proof (rule nth_equalityI)
  fix i assume "i < length (clear_at (positions (blank_slots ms)) (blank_slots ms))"
  then have i: "i < length ms" by (simp add: clear_at_length)
  let ?b = "blank_slots ms" and ?c = "clear_at (positions (blank_slots ms)) (blank_slots ms)"
  have b: "?b ! i = (ms ! i)\<lparr>m_parts := map (set_slot []) (m_parts (ms ! i))\<rparr>" using i by (simp add: blank_slots_def)
  have pos: "(i, j) \<in> set (positions ?b)" if "j < length (m_parts (ms ! i))" for j
    using that i b by (auto simp: positions_def intro!: bexI [of _ i])
  have p: "m_parts (?c ! i) = map (clear_input \<circ> set_slot []) (m_parts (ms ! i))"
    using clear_at_parts [of i ?b "positions ?b"] i pos
    by (auto simp: b get_part_def intro!: nth_equalityI)
  have "message.truncate (?c ! i) \<lparr>m_parts := []\<rparr> = message.truncate (?b ! i) \<lparr>m_parts := []\<rparr>"
    using clear_at_parts [of i ?b "positions ?b"] i by simp
  then show "?c ! i = skeleton ms ! i"
    using p i by (cases "?c ! i") (simp add: skeleton_def b message.defs)
qed (simp add: clear_at_length skeleton_def)

lemma skeleton_tokens:
  "message_tokens (skeleton ms) \<le> message_tokens (blank_slots ms)"
  "message_tokens (skeleton ms) \<le> message_tokens ms"
proof -
  show "message_tokens (skeleton ms) \<le> message_tokens (blank_slots ms)"
    using clear_at_tokens clear_at_blank by metis
  have "units (part_text ((clear_input \<circ> set_slot []) p)) \<le> units (part_text p)" for p
    by (cases p) simp_all
  then have "parts_units (map (clear_input \<circ> set_slot []) ps) \<le> parts_units ps" for ps
    by (induction ps) (simp_all add: parts_units_def add_mono)
  then show "message_tokens (skeleton ms) \<le> message_tokens ms"
    by (induction ms) (simp_all add: skeleton_def add_mono estimated_tokens_mono)
qed

lemma truncate_message_group_succeeds:
  "fst (truncate_message_group ms b) \<noteq> [] \<longleftrightarrow> 0 < b \<and> ms \<noteq> [] \<and> message_tokens (skeleton ms) \<le> b"
proof (cases "b \<le> 0 \<or> ms = [] \<or> message_tokens ms \<le> b")
  case True
  then show ?thesis using skeleton_tokens(2) [of ms] by (auto simp: truncate_message_group_def)
next
  case False
  obtain c cids where c: "(if message_tokens (blank_slots ms) > b
      then clear_inputs (positions (blank_slots ms)) b (blank_slots ms) {} else (blank_slots ms, {})) = (c, cids)"
    by (metis surj_pair)
  have fits: "message_tokens c \<le> b \<longleftrightarrow> message_tokens (skeleton ms) \<le> b"
  proof (cases "message_tokens (blank_slots ms) > b")
    case True
    then have "c = fst (clear_inputs (positions (blank_slots ms)) b (blank_slots ms) {})" using c by simp
    then show ?thesis using True by (simp add: clear_inputs_result clear_at_blank)
  qed (use c skeleton_tokens(1) [of ms] in auto)
  have len: "length c = length ms" by (rule cleared_length [OF c])
  obtain d dids where d: "mark_slots (slots_of ms) (fill_slots (slots_of ms) b c) cids = (d, dids)" by (metis surj_pair)
  have ok: "message_tokens d \<le> b \<and> length d = length ms" if "message_tokens c \<le> b"
    using d len mark_slots_tokens fill_slots_budget [OF that] by (metis fst_conv)
  have "truncate_message_group ms b =
      (if message_tokens c > b then ([], []) else if message_tokens d > b then ([], []) else (d, sorted_list_of_set dids))"
    using False c d unfolding truncate_message_group_def Let_def by simp
  then show ?thesis using False fits ok by auto
qed

section \<open>The smallest budget of a group\<close>

definition group_minimum :: "message list \<Rightarrow> int" where
  "group_minimum g = max 1 (message_tokens (skeleton g))"

lemma truncate_succeeds_minimum:
  "g \<noteq> [] \<Longrightarrow> fst (truncate_message_group g c) \<noteq> [] \<longleftrightarrow> group_minimum g \<le> c"
  by (auto simp: truncate_message_group_succeeds group_minimum_def)

lemma minimum_search_spec:
  assumes "g \<noteq> []" and "low \<le> group_minimum g"
  shows "minimum_search g low high m = (if group_minimum g \<le> high then Some (group_minimum g) else m)"
  using assms
proof (induction g low high m rule: minimum_search.induct)
  case (1 g low high m)
  define c where "c = (low + high) div 2"
  show ?case
  proof (cases "low \<le> high")
    case False
    then show ?thesis using "1.prems" by (simp add: minimum_search.simps [of g low high m])
  next
    case True
    then have le: "low \<le> c" "c \<le> high" by (auto simp: c_def)
    show ?thesis
    proof (cases "group_minimum g \<le> c")
      case small: True
      then have ok: "fst (truncate_message_group g c) \<noteq> []" using truncate_succeeds_minimum "1.prems"(1) by blast
      have "minimum_search g low high m = minimum_search g low (c - 1) (Some c)"
        using True ok by (simp add: minimum_search.simps [of g low high m] c_def Let_def)
      also have "\<dots> = (if group_minimum g \<le> c - 1 then Some (group_minimum g) else Some c)"
        by (rule "1.IH"(1) [OF True c_def ok "1.prems"])
      finally show ?thesis using small le by auto
    next
      case big: False
      then have no: "\<not> fst (truncate_message_group g c) \<noteq> []" using truncate_succeeds_minimum "1.prems"(1) by blast
      have "minimum_search g low high m = minimum_search g (c + 1) high m"
        using True no by (simp add: minimum_search.simps [of g low high m] c_def Let_def)
      also have "\<dots> = (if group_minimum g \<le> high then Some (group_minimum g) else m)"
        using "1.IH"(2) [OF True c_def no "1.prems"(1)] big by simp
      finally show ?thesis .
    qed
  qed
qed

lemma minimum_group_budget_eq:
  assumes "g \<noteq> []" and "message_tokens g \<noteq> 0"
  shows "minimum_group_budget b g = (if group_minimum g \<le> b then Some (group_minimum g) else None)"
proof -
  have "1 \<le> message_tokens g" using assms(2) message_tokens_nonneg [of g] by linarith
  then have "group_minimum g \<le> message_tokens g" using skeleton_tokens(2) by (simp add: group_minimum_def)
  then show ?thesis
    using assms minimum_search_spec [of g 1 "min (message_tokens g) b" None]
    by (simp add: minimum_group_budget_def Let_def group_minimum_def)
qed

section \<open>The fitted view keeps its budget\<close>

definition fit_inv :: "int \<Rightarrow> fit_state \<Rightarrow> bool" where
  "fit_inv b st \<longleftrightarrow> distinct (map fst (fs_selected st)) \<and>
     message_tokens (map snd (fs_selected st)) \<le> fs_used_tokens st \<and> fs_used_tokens st \<le> b"

definition fit_keys :: "fit_state \<Rightarrow> nat set" where
  "fit_keys st = fst ` set (fs_selected st)"

lemma update_tokens: "message_tokens (map snd (AList.update k v al)) \<le> message_tokens (map snd al) + int (estimated_tokens v)"
  by (induction al) auto

lemma select_messages_spec:
  "length grp = length chosen \<Longrightarrow> distinct (map fst sel) \<Longrightarrow>
   distinct (map fst (select_messages ms grp chosen sel)) \<and>
   message_tokens (map snd (select_messages ms grp chosen sel)) \<le> message_tokens (map snd sel) + message_tokens chosen \<and>
   fst ` set (select_messages ms grp chosen sel) = fst ` set sel \<union> message_index ms ` set grp"
proof (induction grp chosen arbitrary: sel rule: list_induct2)
  case (Cons g gs c cs)
  let ?s = "AList.update (message_index ms g) c sel"
  have "distinct (map fst ?s)" using Cons.prems by (rule distinct_update)
  moreover have "select_messages ms (g # gs) (c # cs) sel = select_messages ms gs cs ?s" by (simp add: select_messages_def)
  moreover have "fst ` set ?s = insert (message_index ms g) (fst ` set sel)" by (simp add: dom_update)
  ultimately show ?case using Cons.IH [of ?s] update_tokens [of "message_index ms g" c sel] by auto
qed (simp add: select_messages_def)

definition group_room :: "int \<Rightarrow> int option \<Rightarrow> fit_state \<Rightarrow> int" where
  "group_room b cap st =
     (case cap of None \<Rightarrow> max 0 (b - fs_used_tokens st) | Some c \<Rightarrow> min (max 0 (b - fs_used_tokens st)) (max 0 c))"

definition group_selectable :: "int \<Rightarrow> message list \<Rightarrow> bool \<Rightarrow> int option \<Rightarrow> fit_state \<Rightarrow> bool" where
  "group_selectable b g allow cap st \<longleftrightarrow>
     g = [] \<or> message_tokens g \<le> group_room b cap st \<or> (allow \<and> group_minimum g \<le> group_room b cap st)"

lemma select_group_spec:
  assumes "fit_inv b st" and "select_group ms b g allow cap st = (st', ok)"
  shows "fit_inv b st' \<and> (ok \<longleftrightarrow> group_selectable b g allow cap st) \<and>
    fit_keys st' = fit_keys st \<union> (if ok then message_index ms ` set g else {}) \<and>
    fs_used_tokens st' \<le> fs_used_tokens st + group_room b cap st"
proof (cases "g = []")
  case True
  then show ?thesis using assms by (auto simp: select_group_def group_selectable_def group_room_def split: option.splits)
next
  case False
  define room where "room = group_room b cap st"
  have room: "0 \<le> room" "fs_used_tokens st + room \<le> b"
    using assms(1) by (auto simp: room_def group_room_def fit_inv_def split: option.splits)
  obtain chosen ids where ch: "(if message_tokens g \<le> room then (g, [])
      else if \<not> allow \<or> room \<le> 0 then ([], []) else truncate_message_group g room) = (chosen, ids)"
    by (metis surj_pair)
  have eq: "(st', ok) = (if \<not> message_tokens g \<le> room \<and> chosen = [] then (st, False)
      else (st\<lparr>fs_selected := select_messages ms g chosen (fs_selected st),
               fs_used_tokens := fs_used_tokens st + message_tokens chosen,
               fs_truncated_ids := fs_truncated_ids st \<union> set ids\<rparr>, True))"
    using assms(2) False ch unfolding select_group_def Let_def room_def group_room_def
    by (simp split: prod.splits option.splits)
  have tok: "message_tokens chosen \<le> room \<and> (chosen = [] \<or> length g = length chosen)"
    using ch room(1) truncate_message_group_spec [of g room chosen ids] by (auto split: if_splits)
  have sel: "\<not> (\<not> message_tokens g \<le> room \<and> chosen = []) \<longleftrightarrow> group_selectable b g allow cap st"
    using ch False truncate_succeeds_minimum [OF False, of room] room(1) unfolding group_selectable_def room_def [symmetric]
    by (cases "message_tokens g \<le> room") (auto simp: group_minimum_def split: if_splits)
  show ?thesis
  proof (cases "group_selectable b g allow cap st")
    case True
    then have "length g = length chosen"
      using sel tok ch False by (cases "message_tokens g \<le> room") auto
    with assms(1) have spec: "distinct (map fst (select_messages ms g chosen (fs_selected st)))"
      "message_tokens (map snd (select_messages ms g chosen (fs_selected st))) \<le> message_tokens (map snd (fs_selected st)) + message_tokens chosen"
      "fst ` set (select_messages ms g chosen (fs_selected st)) = fit_keys st \<union> message_index ms ` set g"
      using select_messages_spec [of g chosen "fs_selected st" ms] by (auto simp only: fit_inv_def fit_keys_def)
    have ok: "ok" and st': "fs_selected st' = select_messages ms g chosen (fs_selected st)"
      "fs_used_tokens st' = fs_used_tokens st + message_tokens chosen" using eq True sel by auto
    have "fit_keys st' = fit_keys st \<union> message_index ms ` set g" using spec(3) st'(1) by (simp only: fit_keys_def)
    moreover have "fit_inv b st'" using spec(1,2) st' assms(1) tok room by (simp add: fit_inv_def)
    ultimately show ?thesis using ok True st'(2) tok unfolding room_def [symmetric] by simp
  next
    case no: False
    then have "st' = st" "\<not> ok" using eq sel by auto
    then show ?thesis using no assms(1) room by (simp add: room_def)
  qed
qed

lemma select_while_spec:
  assumes "fit_inv b st"
  shows "fit_inv b (select_while ms b allow gs st) \<and> fit_keys st \<subseteq> fit_keys (select_while ms b allow gs st)"
  using assms
proof (induction gs arbitrary: st)
  case (Cons g gs)
  obtain st' ok where s: "select_group ms b g allow None st = (st', ok)" by (metis surj_pair)
  then show ?case using Cons.IH [of st'] Cons.prems select_group_spec [OF Cons.prems s] by auto
qed simp

text \<open>A property of the selected positions that every admissible group keeps, holds of the result.\<close>

definition fit_groups :: "message list \<Rightarrow> message list set" where
  "fit_groups ms =
     {[a] | a. ut_anchor (last (build_turns ms)) = Some a} \<union> set (ut_steps (last (build_turns ms))) \<union>
     turn_messages ` set (build_turns ms)"

lemma select_group_induct:
  assumes "fit_inv b st" and "P (fit_keys st)" and "\<And>K. P K \<Longrightarrow> P (K \<union> message_index ms ` set g)"
  shows "fit_inv b (fst (select_group ms b g allow cap st)) \<and> P (fit_keys (fst (select_group ms b g allow cap st)))"
proof -
  obtain st' ok where s: "select_group ms b g allow cap st = (st', ok)" by (metis surj_pair)
  show ?thesis using select_group_spec [OF assms(1) s] assms(2,3) s by (cases ok) auto
qed

lemma select_while_induct:
  assumes "fit_inv b st" and "P (fit_keys st)"
    and "\<And>K g. P K \<Longrightarrow> g \<in> set gs \<Longrightarrow> P (K \<union> message_index ms ` set g)"
  shows "fit_inv b (select_while ms b allow gs st) \<and> P (fit_keys (select_while ms b allow gs st))"
  using assms
proof (induction gs arbitrary: st)
  case (Cons g gs)
  obtain st' ok where s: "select_group ms b g allow None st = (st', ok)" by (metis surj_pair)
  have "fit_inv b st' \<and> P (fit_keys st')"
    using select_group_induct [where P = P, OF Cons.prems(1,2), of ms g allow None] Cons.prems(3) s by simp
  then show ?case using Cons.IH [of st'] Cons.prems(3) s by simp
qed simp

lemma select_mandatory_induct:
  assumes "0 \<le> b" and "P {}"
    and anchor: "\<And>K a. P K \<Longrightarrow> ut_anchor latest = Some a \<Longrightarrow> P (K \<union> message_index ms ` set [a])"
    and step: "\<And>K g. P K \<Longrightarrow> g \<in> set (ut_steps latest) \<Longrightarrow> P (K \<union> message_index ms ` set g)"
  shows "fit_inv b (select_mandatory ms b latest) \<and> P (fit_keys (select_mandatory ms b latest))"
proof -
  define st0 where "st0 = \<lparr>fs_selected = [], fs_truncated_ids = {}, fs_used_tokens = (0 :: int)\<rparr>"
  define ag where "ag = (case ut_anchor latest of None \<Rightarrow> [] | Some a \<Rightarrow> [a])"
  define fg where "fg = (if ut_steps latest \<noteq> [] then last (ut_steps latest) else [])"
  define st1 where "st1 = (if ag \<noteq> [] then fst (select_group ms b ag True (Some (b - final_reserve b ag fg)) st0) else st0)"
  have eq: "select_mandatory ms b latest = (if fg \<noteq> [] then fst (select_group ms b fg True None st1) else st1)"
    unfolding select_mandatory_def Let_def st0_def [symmetric] ag_def [symmetric] fg_def [symmetric] st1_def [symmetric] ..
  have 0: "fit_inv b st0" "P (fit_keys st0)" using assms(1,2) by (simp_all add: fit_inv_def fit_keys_def st0_def)
  have ag: "P (K \<union> message_index ms ` set ag)" if "P K" for K
    using anchor that by (cases "ut_anchor latest") (simp_all add: ag_def)
  have fg: "P (K \<union> message_index ms ` set fg)" if "P K" for K
    using step that by (cases "ut_steps latest = []") (simp_all add: fg_def)
  have 1: "fit_inv b st1 \<and> P (fit_keys st1)"
    unfolding st1_def using 0 select_group_induct [where P = P, OF 0 ag] by simp
  show ?thesis unfolding eq using 1 select_group_induct [where P = P, OF conjunct1 [OF 1] conjunct2 [OF 1] fg] by simp
qed

lemma fit_select_induct:
  assumes "0 \<le> b" and "ms \<noteq> []" and "P {}"
    and step: "\<And>K g. P K \<Longrightarrow> g \<in> fit_groups ms \<Longrightarrow> P (K \<union> message_index ms ` set g)"
  shows "fit_inv b (fit_select ms b) \<and> P (fit_keys (fit_select ms b))"
proof -
  define latest where "latest = last (build_turns ms)"
  define st1 where "st1 = select_mandatory ms b latest"
  define st2 where "st2 = select_while ms b True (filter is_checkpoint_step (butlast (ut_steps latest))) st1"
  define st3 where "st3 = select_while ms b False (filter (\<lambda>s. \<not> is_checkpoint_step s) (rev (butlast (ut_steps latest)))) st2"
  have eq: "fit_select ms b = select_while ms b False (map turn_messages (rev (butlast (build_turns ms)))) st3"
    unfolding fit_select_def Let_def latest_def [symmetric] st1_def [symmetric] st2_def [symmetric] st3_def [symmetric] ..
  have in_steps: "s \<in> fit_groups ms" if "s \<in> set (butlast (ut_steps latest))" for s
    using in_set_butlastD [OF that] by (simp add: fit_groups_def latest_def)
  have in_turns: "turn_messages t \<in> fit_groups ms" if "t \<in> set (butlast (build_turns ms))" for t
    using in_set_butlastD [OF that] by (simp add: fit_groups_def)
  have 1: "fit_inv b st1 \<and> P (fit_keys st1)" unfolding st1_def
    by (rule select_mandatory_induct) (use assms in \<open>auto simp: fit_groups_def latest_def simp del: list.set\<close>)
  have 2: "fit_inv b st2 \<and> P (fit_keys st2)" unfolding st2_def
    by (rule select_while_induct [where P = P, OF conjunct1 [OF 1] conjunct2 [OF 1]]) (use step in_steps in auto)
  have 3: "fit_inv b st3 \<and> P (fit_keys st3)" unfolding st3_def
    by (rule select_while_induct [where P = P, OF conjunct1 [OF 2] conjunct2 [OF 2]]) (use step in_steps in auto)
  show ?thesis unfolding eq
    by (rule select_while_induct [where P = P, OF conjunct1 [OF 3] conjunct2 [OF 3]]) (use step in_turns in auto)
qed

lemma fit_select_inv: "0 \<le> b \<Longrightarrow> ms \<noteq> [] \<Longrightarrow> fit_inv b (fit_select ms b)"
  using fit_select_induct [of b ms "\<lambda>_. True"] by simp

lemma returned_tokens:
  assumes "distinct (map fst sel)"
  shows "message_tokens (map (\<lambda>i. the (map_of sel i)) (sort (map fst sel))) = message_tokens (map snd sel)"
proof -
  have "mset (map (\<lambda>i. the (map_of sel i)) (sort (map fst sel))) = mset (map (\<lambda>i. the (map_of sel i)) (map fst sel))"
    by (simp only: mset_map mset_sort)
  also have "map (\<lambda>i. the (map_of sel i)) (map fst sel) = map snd sel"
    using assms by (auto simp: map_of_is_SomeI)
  finally have "mset (map (\<lambda>m. int (estimated_tokens m)) (map (\<lambda>i. the (map_of sel i)) (sort (map fst sel)))) =
      mset (map (\<lambda>m. int (estimated_tokens m)) (map snd sel))" by (metis mset_map)
  then show ?thesis unfolding message_tokens_def by (metis sum_mset_sum_list)
qed

lemma fit_budget_aux: "message_tokens (ab_messages (fit_active_messages_to_budget ms b)) \<le> max 0 b"
proof (cases "ms = [] \<or> max 0 b = 0 \<or> message_tokens ms \<le> max 0 b")
  case True
  then show ?thesis by (auto simp: fit_active_messages_to_budget_def Let_def)
next
  case False
  let ?st = "fit_select ms (max 0 b)"
  have "fit_inv (max 0 b) ?st" by (rule fit_select_inv) (use False in auto)
  then have "message_tokens (map (\<lambda>i. the (map_of (fs_selected ?st) i)) (sort (map fst (fs_selected ?st)))) \<le> max 0 b"
    by (simp only: fit_inv_def returned_tokens) linarith
  then show ?thesis using False unfolding fit_active_messages_to_budget_def Let_def by simp
qed

section \<open>Steps are atomic\<close>

lemma distinct_concat_parts:
  "distinct (concat (map f xs)) \<Longrightarrow> x \<in> set xs \<Longrightarrow> y \<in> set xs \<Longrightarrow> x = y \<or> set (f x) \<inter> set (f y) = {}"
  by (induction xs) auto

lemma message_index_nth:
  assumes "distinct (map m_obj ms)" and "i < length ms"
  shows "message_index ms (ms ! i) = i"
proof -
  have "(m_obj (ms ! i), i) \<in> set (rev (zip (map m_obj ms) [0..<length ms]))"
    using assms(2) by (auto simp: set_zip intro!: exI [of _ i])
  moreover have "distinct (map fst (rev (zip (map m_obj ms) [0..<length ms])))"
    using assms(1) by (simp flip: rev_map)
  ultimately show ?thesis by (simp add: message_index_def map_of_is_SomeI del: set_rev)
qed

lemma message_index_inj: "distinct (map m_obj ms) \<Longrightarrow> inj_on (message_index ms) (set ms)"
  by (auto simp: inj_on_def in_set_conv_nth message_index_nth)

lemma distinct_turns:
  assumes "distinct ms"
  shows "distinct (concat (map turn_messages (build_turns ms)))"
  using assms flatten_build_turns [of ms] by (simp add: flatten_turns_def)

lemma turn_step_subset: "s \<in> set (ut_steps t) \<Longrightarrow> set s \<subseteq> set (turn_messages t)"
  by (auto simp: turn_messages_def)

lemma turn_subset: "t \<in> set (build_turns ms) \<Longrightarrow> set (turn_messages t) \<subseteq> set ms"
proof -
  assume "t \<in> set (build_turns ms)"
  then have "set (turn_messages t) \<subseteq> set (flatten_turns (build_turns ms))" by (auto simp: flatten_turns_def)
  then show ?thesis by (simp only: flatten_build_turns)
qed

lemma fit_group_step:
  assumes d: "distinct ms" and ne: "ms \<noteq> []" and g: "g \<in> fit_groups ms"
    and t: "t \<in> set (build_turns ms)" and s: "s \<in> set (ut_steps t)"
  shows "set s \<subseteq> set g \<or> set s \<inter> set g = {}"
proof -
  let ?l = "last (build_turns ms)"
  have l: "?l \<in> set (build_turns ms)" using build_turns_not_Nil [OF ne] by simp
  have turns: "t = u \<or> set (turn_messages t) \<inter> set (turn_messages u) = {}" if "u \<in> set (build_turns ms)" for u
    by (rule distinct_concat_parts [OF distinct_turns [OF d] t that])
  have dt: "distinct (turn_messages t)"
    using distinct_turns [OF d] t by (auto simp: distinct_concat_iff)
  consider (anchor) a where "g = [a]" "ut_anchor ?l = Some a" | (step) "g \<in> set (ut_steps ?l)"
    | (turn) u where "u \<in> set (build_turns ms)" "g = turn_messages u"
    using g by (auto simp: fit_groups_def)
  then show ?thesis
  proof cases
    case anchor
    then have "set g \<subseteq> set (turn_messages ?l)" by (simp add: turn_messages_def)
    then show ?thesis
      using turns [OF l] turn_step_subset [OF s] dt s anchor by (auto simp: turn_messages_def)
  next
    case step
    show ?thesis
    proof (cases "t = ?l")
      case True
      then have "distinct (concat (map id (ut_steps t)))" using dt by (simp add: turn_messages_def)
      from distinct_concat_parts [OF this s, of g] step True show ?thesis by auto
    next
      case False
      then show ?thesis using turns [OF l] turn_step_subset [OF s] turn_step_subset [OF step] by blast
    qed
  next
    case turn
    then show ?thesis using turns [of u] turn_step_subset [OF s] by blast
  qed
qed

lemma fit_groups_subset:
  assumes "ms \<noteq> []" and "g \<in> fit_groups ms"
  shows "set g \<subseteq> set ms"
proof -
  have "last (build_turns ms) \<in> set (build_turns ms)" using build_turns_not_Nil [OF assms(1)] by simp
  from turn_subset [OF this] have l: "set (turn_messages (last (build_turns ms))) \<subseteq> set ms" .
  consider "g \<in> turn_messages ` set (build_turns ms)" | "set g \<subseteq> set (turn_messages (last (build_turns ms)))"
    using assms(2) turn_step_subset by (auto simp: fit_groups_def turn_messages_def)
  then show ?thesis using l turn_subset by cases auto
qed

lemma fit_select_atomic:
  assumes "distinct (map m_obj ms)" and "ms \<noteq> []" and "0 \<le> b"
    and t: "t \<in> set (build_turns ms)" and s: "s \<in> set (ut_steps t)"
  shows "message_index ms ` set s \<subseteq> fit_keys (fit_select ms b) \<or> message_index ms ` set s \<inter> fit_keys (fit_select ms b) = {}"
proof -
  let ?P = "\<lambda>K. message_index ms ` set s \<subseteq> K \<or> message_index ms ` set s \<inter> K = {}"
  have d: "distinct ms" using assms(1) by (simp add: distinct_map)
  have sub: "set s \<subseteq> set ms" using turn_subset [OF t] turn_step_subset [OF s] by blast
  have "?P (K \<union> message_index ms ` set g)" if "?P K" "g \<in> fit_groups ms" for K g
    using that fit_group_step [OF d assms(2) that(2) t s] message_index_inj [OF assms(1)] sub
      fit_groups_subset [OF assms(2) that(2)]
    by (smt (verit) Un_upper1 image_Int_subset image_mono inf_sup_distrib1 inj_on_image_Int image_empty le_supI1 le_supI2 sup_bot.right_neutral)
  then show ?thesis using fit_select_induct [where P = ?P, OF assms(3,2)] by simp
qed

section \<open>The anchor and the final step survive together\<close>

lemma minimum_selectable:
  assumes "minimum_group_budget b g = Some m" and "g \<noteq> []"
  shows "0 \<le> m \<and> m \<le> message_tokens g \<and> (m \<le> x \<longrightarrow> message_tokens g \<le> x \<or> group_minimum g \<le> x)"
proof (cases "message_tokens g = 0")
  case True
  then show ?thesis using assms by (simp add: minimum_group_budget_def)
next
  case False
  then have m: "m = group_minimum g" using assms minimum_group_budget_eq by (metis option.distinct(1) option.inject)
  have "1 \<le> message_tokens g" using False message_tokens_nonneg [of g] by linarith
  then show ?thesis using m skeleton_tokens(2) [of g] by (auto simp: group_minimum_def)
qed

lemma final_reserve_bounds:
  assumes "minimum_group_budget b [a] = Some m1" and "minimum_group_budget b f = Some m2" and "f \<noteq> []" and "m1 + m2 \<le> b"
  shows "m2 \<le> final_reserve b [a] f \<and> m1 \<le> b - final_reserve b [a] f"
  using assms minimum_selectable [OF assms(2,3)] by (simp add: final_reserve_def)

lemma select_mandatory_both:
  assumes anchor: "ut_anchor latest = Some a" and steps: "ut_steps latest \<noteq> []" "last (ut_steps latest) \<noteq> []"
    and min: "minimum_group_budget b [a] = Some m1" "minimum_group_budget b (last (ut_steps latest)) = Some m2" "m1 + m2 \<le> b"
  shows "message_index ms ` set (a # last (ut_steps latest)) \<subseteq> fit_keys (select_mandatory ms b latest)"
proof -
  define f where "f = last (ut_steps latest)"
  define r where "r = final_reserve b [a] f"
  define st0 where "st0 = \<lparr>fs_selected = [], fs_truncated_ids = {}, fs_used_tokens = (0 :: int)\<rparr>"
  obtain st1 ok1 where s1: "select_group ms b [a] True (Some (b - r)) st0 = (st1, ok1)" by (metis surj_pair)
  obtain st2 ok2 where s2: "select_group ms b f True None st1 = (st2, ok2)" by (metis surj_pair)
  have eq: "select_mandatory ms b latest = st2"
    using anchor steps s1 s2 unfolding select_mandatory_def Let_def f_def [symmetric] st0_def [symmetric]
    by (simp add: r_def)
  note rb = final_reserve_bounds [OF min(1) min(2) steps(2) min(3), folded f_def, folded r_def]
  note m1 = minimum_selectable [OF min(1), of "b - r", simplified] and m2 = minimum_selectable [OF min(2) steps(2), folded f_def]
  have b: "0 \<le> b" using m1 m2 [of 0] min(3) by linarith
  then have i0: "fit_inv b st0" by (simp add: fit_inv_def st0_def)
  have room1: "group_room b (Some (b - r)) st0 = b - r" using rb m1 m2 [of 0] min(3) by (auto simp: group_room_def st0_def)
  note g1 = select_group_spec [OF i0 s1, unfolded room1]
  have ok1: "ok1" using g1 m1 rb by (simp add: group_selectable_def room1)
  have "fs_used_tokens st1 \<le> b - r" using g1 by (simp add: st0_def)
  then have "r \<le> group_room b None st1" by (simp add: group_room_def)
  then have ok2: "ok2"
    using select_group_spec [OF conjunct1 [OF g1] s2] m2 [of "group_room b None st1"] rb by (simp add: group_selectable_def)
  show ?thesis
    using g1 ok1 ok2 select_group_spec [OF conjunct1 [OF g1] s2] unfolding eq f_def [symmetric] by auto
qed

lemma fit_select_both:
  assumes "ms \<noteq> []" and "latest = last (build_turns ms)" and "ut_anchor latest = Some a" and "ut_steps latest \<noteq> []"
    and "minimum_group_budget b [a] = Some m1" "minimum_group_budget b (last (ut_steps latest)) = Some m2" "m1 + m2 \<le> b"
  shows "message_index ms ` set (a # last (ut_steps latest)) \<subseteq> fit_keys (fit_select ms b)"
proof -
  have "turn_wf latest" using build_turns_wf [of ms] build_turns_not_Nil [OF assms(1)] assms(2) by simp
  then have ne: "last (ut_steps latest) \<noteq> []" using assms(4) by (simp add: turn_wf_def)
  have b: "0 \<le> b"
    using minimum_selectable [OF assms(5), of 0] minimum_selectable [OF assms(6) ne, of 0] assms(7) by simp
  have inv: "fit_inv b (select_mandatory ms b latest)"
    using select_mandatory_induct [where P = "\<lambda>_. True", OF b] by blast
  have "fit_keys (select_mandatory ms b latest) \<subseteq> fit_keys (fit_select ms b)"
    unfolding fit_select_def Let_def assms(2) [symmetric]
    using select_while_spec inv by (meson order_trans)
  with select_mandatory_both [OF assms(3,4) ne assms(5-7)] show ?thesis by blast
qed

section \<open>Properties\<close>

text \<open>
  C1. Nothing is lost when a session is compacted: unless the newest turn is split, the archived and
  the retained messages together are the session in order; when it is split, the session is the older messages, the
  user query, an early and a late part, the archive holds the older messages, the query and the early part, and the
  query and the late part stay live.
\<close>

theorem plan_retention_conserves:
  "let p = plan_retention ms keep b tail in
   if rp_partial_turn p then
     \<exists>older a early late. ms = older @ a # early @ late \<and> early \<noteq> [] \<and> is_user_query a \<and>
       rp_archive_messages p = older @ a # early \<and> rp_retained_messages p = a # late \<and>
       rp_checkpoint_source_message_ids p = map m_id early \<and> rp_turn_anchor p = Some a
   else rp_archive_messages p @ rp_retained_messages p = ms"
  using plan_retention_conserves_aux [of _ ms keep b tail] unfolding Let_def by auto

text \<open>
  The plan reports its size truthfully: the estimate is the token count of the retained messages,
  and the overflow flag is set exactly when they exceed the budget, which only happens for a single turn.
\<close>

theorem plan_retention_budget:
  "let p = plan_retention ms keep b tail in
   rp_estimated_active_tokens p = message_tokens (rp_retained_messages p) \<and>
   (if rp_budget_exceeded p
    then message_tokens (rp_retained_messages p) > max 0 b \<and> rp_turn_anchor p = ut_anchor (last (build_turns ms))
    else message_tokens (rp_retained_messages p) \<le> max 0 b)"
proof -
  define p where "p = plan_retention ms keep b tail"
  have "rp_turn_anchor p = ut_anchor (last (build_turns ms))" if "rp_budget_exceeded p"
    using p_def
  proof (cases rule: plan_retention_cases)
    case (partial a)
    then show ?thesis using partial_plan_conserves [OF partial(5,4)] by auto
  qed (use that in auto)
  then show ?thesis using plan_retention_budget_aux [OF p_def] unfolding Let_def p_def [symmetric] by (auto simp: not_less)
qed

text \<open>
  When whole turns are retained they are the most recent ones, at most as many as asked for, and
  no more than necessary is archived: the next older turn would break the turn count or the token budget.
\<close>

theorem plan_retention_maximal:
  assumes "p = plan_retention ms keep b tail" and "rp_retained_messages p \<noteq> []" and "\<not> rp_partial_turn p"
  shows "\<exists>j. rp_archive_messages p = flatten_turns (take j (build_turns ms)) \<and>
     rp_retained_messages p = flatten_turns (drop j (build_turns ms)) \<and>
     int (length (drop j (build_turns ms))) \<le> keep \<and>
     (j = 0 \<or> int (length (drop (j - 1) (build_turns ms))) > keep \<or>
      message_tokens (flatten_turns (drop (j - 1) (build_turns ms))) > max 0 b)"
proof -
  let ?ts = "build_turns ms" and ?j = "selected_start ms keep b"
  let ?s = "length (build_turns ms) - nat (max 0 keep)"
  have bound: "int (length (drop ?j ?ts)) \<le> keep \<and>
      (?j = 0 \<or> int (length (drop (?j - 1) ?ts)) > keep \<or> message_tokens (flatten_turns (drop (?j - 1) ?ts)) > max 0 b)"
    if "nat (max 0 keep) \<noteq> 0" "?ts \<noteq> []"
  proof -
    have ge: "?s \<le> ?j" using evict_turns_spec unfolding selected_start_def by blast
    have "message_tokens (flatten_turns (drop k ?ts)) > max 0 b" if "?s \<le> k" "k < ?j" for k
      using evict_turns_spec that unfolding selected_start_def by blast
    then have "?j = 0 \<or> ?j - 1 < ?s \<or> message_tokens (flatten_turns (drop (?j - 1) ?ts)) > max 0 b"
      by (metis diff_less less_one linorder_not_less zero_less_iff_neq_zero)
    moreover have "?j \<le> length ?ts" using selected_start_bound [OF that(2,1), of b] by simp
    ultimately show ?thesis using ge that(1) by auto
  qed
  show ?thesis using assms(1)
  proof (cases rule: plan_retention_cases)
    case (partial a)
    obtain early late where e: "turn_messages (last ?ts) = a # early @ late"
      "rp_archive_messages p = flatten_turns (take ?j ?ts) @ (if early = [] then [] else a # early)"
      "rp_retained_messages p = a # late" "rp_partial_turn p \<longleftrightarrow> early \<noteq> []"
      using partial_plan_conserves [OF partial(5,4)] by blast
    then have "rp_archive_messages p = flatten_turns (take ?j ?ts)" "rp_retained_messages p = flatten_turns (drop ?j ?ts)"
      using assms(3) partial(6) by auto
    then show ?thesis using bound partial(1,2) by blast
  next
    case complete
    then show ?thesis using bound by auto
  qed (use assms(2) in auto)
qed

definition sample_message :: "nat \<Rightarrow> string \<Rightarrow> nat \<Rightarrow> message" where
  "sample_message n role k =
     \<lparr>m_obj = n, m_id = replicate n (CHR ''m''), m_role = role, m_parts = [TextPart (replicate k 97)], m_kind = None\<rparr>"

definition sample_session :: "message list" where
  "sample_session = [sample_message 1 ''user'' 8, sample_message 2 ''assistant'' 8,
     sample_message 3 ''user'' 40, sample_message 4 ''assistant'' 40]"

lemma sample_minimum:
  "minimum_group_budget 12 [sample_message 3 ''user'' 40] = Some 1"
  "minimum_group_budget 12 [sample_message 4 ''assistant'' 40] = Some 1"
  "message_tokens [sample_message 3 ''user'' 40] \<noteq> 0"
proof -
  have "group_minimum [sample_message 3 ''user'' 40] = 1" "group_minimum [sample_message 4 ''assistant'' 40] = 1"
    by code_simp+
  moreover have tok: "message_tokens [sample_message 3 ''user'' 40] \<noteq> 0" "message_tokens [sample_message 4 ''assistant'' 40] \<noteq> 0"
    by code_simp+
  ultimately show "minimum_group_budget 12 [sample_message 3 ''user'' 40] = Some 1"
    "minimum_group_budget 12 [sample_message 4 ''assistant'' 40] = Some 1"
    by (simp_all add: minimum_group_budget_eq del: message_tokens_simps)
  show "message_tokens [sample_message 3 ''user'' 40] \<noteq> 0" by (rule tok)
qed

theorem plan_retention_maximal_witness:
  "rp_retained_messages (plan_retention sample_session 1 50 1) = drop 2 sample_session \<and>
   (\<exists>j. rp_retained_messages (plan_retention sample_session 1 50 1) = flatten_turns (drop j (build_turns sample_session)))"
proof -
  have "rp_retained_messages (plan_retention sample_session 1 50 1) = drop 2 sample_session"
    "drop 2 sample_session \<noteq> []" "\<not> rp_partial_turn (plan_retention sample_session 1 50 1)" by code_simp+
  with plan_retention_maximal [OF refl, of sample_session 1 50 1] show ?thesis by auto
qed

text \<open>
  Grouping into turns keeps every message in its place, and the turns are well formed: an anchor is
  a user query, steps are not empty and hold no user query, a step goes on only with tool results, and only the
  first turn can lack an anchor.
\<close>

theorem build_turns_sound:
  "flatten_turns (build_turns ms) = ms \<and> list_all turn_wf (build_turns ms) \<and>
   list_all (\<lambda>t. ut_anchor t \<noteq> None) (tl (build_turns ms))"
  using flatten_build_turns build_turns_wf unfolding list_all_iff by blast

text \<open>
  C5. The fitted view of the active messages is a strict boundary: for every session and every budget
  its token count is at most the budget (zero for a negative one), and the count it reports is its own.
\<close>

theorem fit_active_within_budget:
  "message_tokens (ab_messages (fit_active_messages_to_budget ms b)) \<le> max 0 b \<and>
   ab_estimated_tokens (fit_active_messages_to_budget ms b) = message_tokens (ab_messages (fit_active_messages_to_budget ms b))"
  using fit_budget_aux [of ms b] by (simp add: fit_active_messages_to_budget_def Let_def)

text \<open>
  C6. The newest user query and the final assistant step are both returned whenever their smallest
  possible forms fit together: a long query cannot push out the latest answer.
\<close>

theorem fit_keeps_query_and_answer:
  assumes "ms \<noteq> []" and "latest = last (build_turns ms)" and "ut_anchor latest = Some a" and "ut_steps latest \<noteq> []"
    and "minimum_group_budget b [a] = Some m1" and "minimum_group_budget b (last (ut_steps latest)) = Some m2"
    and "m1 + m2 \<le> b"
  shows "message_index ms ` set (a # last (ut_steps latest)) \<subseteq> fst ` set (fs_selected (fit_select ms b))"
  using fit_select_both [OF assms] by (simp add: fit_keys_def)

theorem fit_keeps_query_and_answer_witness:
  "{2, 3} \<subseteq> fst ` set (fs_selected (fit_select sample_session 12))"
proof -
  have t: "last (build_turns sample_session) =
      \<lparr>ut_anchor = Some (sample_message 3 ''user'' 40), ut_steps = [[sample_message 4 ''assistant'' 40]]\<rparr>" by code_simp
  note m = sample_minimum
  have i: "message_index sample_session (sample_message 3 ''user'' 40) = 2"
    "message_index sample_session (sample_message 4 ''assistant'' 40) = 3" "sample_session \<noteq> []" by code_simp+
  show ?thesis using fit_keeps_query_and_answer [OF i(3) refl, of "sample_message 3 ''user'' 40" 12 1 1] t m i by simp
qed



text \<open>
  The binary search for the smallest budget of a group is right: truncation to a budget succeeds
  exactly from the returned budget on, and when nothing is returned it fails for every budget up to the limit.
\<close>

theorem minimum_group_budget_least:
  assumes "g \<noteq> []" and "message_tokens g \<noteq> 0"
  shows "case minimum_group_budget b g of
     Some m \<Rightarrow> m \<le> b \<and> (\<forall>c. fst (truncate_message_group g c) \<noteq> [] \<longleftrightarrow> m \<le> c)
   | None \<Rightarrow> (\<forall>c \<le> b. fst (truncate_message_group g c) = [])"
proof (cases "group_minimum g \<le> b")
  case True
  then show ?thesis
    unfolding minimum_group_budget_eq [OF assms] using truncate_succeeds_minimum [OF assms(1)] by simp
next
  case False
  have "fst (truncate_message_group g c) = []" if "c \<le> b" for c
    using truncate_succeeds_minimum [OF assms(1), of c] that False by linarith
  then show ?thesis using False unfolding minimum_group_budget_eq [OF assms] by simp
qed

theorem minimum_group_budget_least_witness:
  "fst (truncate_message_group [sample_message 3 ''user'' 40] 1) \<noteq> [] \<and> fst (truncate_message_group [sample_message 3 ''user'' 40] 0) = []"
proof -
  have "fst (truncate_message_group [sample_message 3 ''user'' 40] c) \<noteq> [] \<longleftrightarrow> 1 \<le> c" for c
    using minimum_group_budget_least [OF _ sample_minimum(3), of 12] unfolding sample_minimum(1) by simp
  from this [of 1] this [of 0] show ?thesis by simp
qed

end
