(* ===== verification/Model_Retry.thy ===== *)
theory Model_Retry
  imports Prelude PyValue Tokens
begin

text \<open>
  \<^verbatim>\<open>openviking/utils/model_retry.py\<close>: classification of provider errors, the retry loop with
  exponential backoff, and the two switchers that choose between credentials.

  \<^item> Exceptions live in a store from addresses to objects, because \<^verbatim>\<open>__cause__\<close> and
    \<^verbatim>\<open>__context__\<close> are references and may form a cycle. An object keeps the attributes the module
    reads; a missing attribute is \<open>PNone\<close>, as \<^verbatim>\<open>getattr(exc, name, None)\<close> gives it.
  \<^item> The message of an exception is a list of code points, since two patterns are not ASCII. What
    Python takes from the Unicode database for the code points above 127 (the lower-case mapping
    and membership in \<^verbatim>\<open>\w\<close>) is a parameter \<open>unidb\<close>; the ASCII part is written out.
  \<^item> Every method of a switcher runs under its lock, so one method is one atomic step; the clock
    reading \<^verbatim>\<open>time.monotonic()\<close> is an argument \<open>now\<close>. Random jitter is an argument as well.
  \<^item> Delays and times are rationals. Logging is left out.
\<close>

section \<open>Error classes and exceptions\<close>

datatype error_class =
    ERROR_CLASS_PERMANENT
  | ERROR_CLASS_AUTH
  | ERROR_CLASS_CONTENT_SAFETY
  | ERROR_CLASS_INPUT_TOO_LARGE
  | ERROR_CLASS_QUOTA_EXCEEDED
  | ERROR_CLASS_TRANSIENT
  | ERROR_CLASS_UNKNOWN

record exc_obj =
  x_text :: ustr
  x_permanent_io :: bool
  x_timeout :: bool
  x_connection :: bool
  x_all_failed :: "error_class option list option"
  x_cause :: "nat option"
  x_context :: "nat option"
  x_status_code :: pyval
  x_error_code :: pyval
  x_code :: pyval
  x_body :: pyval

type_synonym xheap = "(nat \<times> exc_obj) list"

section \<open>Metric labels\<close>

definition METRIC_ERROR_CODE_MAX_LENGTH :: nat where
  "METRIC_ERROR_CODE_MAX_LENGTH = 64"

text \<open>\<^verbatim>\<open>str(value)\<close> of an integer between 100 and 599.\<close>

definition digit_char :: "int \<Rightarrow> char" where
  "digit_char d = char_of (48 + nat d)"

definition str_of_status :: "int \<Rightarrow> string" where
  "str_of_status v = [digit_char (v div 100), digit_char (v div 10 mod 10), digit_char (v mod 10)]"

definition metric_char :: "char \<Rightarrow> bool" where
  "metric_char c \<longleftrightarrow> ascii_alnum c \<or> c = CHR ''_'' \<or> c = CHR ''.'' \<or> c = CHR ''-''"

fun normalize_metric_error_code :: "pyval \<Rightarrow> string option" where
  "normalize_metric_error_code (PInt v) = (if 100 \<le> v \<and> v \<le> 599 then Some (str_of_status v) else None)"
| "normalize_metric_error_code (PStr s) =
     (let code = strip_space s in
      if code = [] \<or> length code > METRIC_ERROR_CODE_MAX_LENGTH then None
      else if \<not> list_all metric_char code then None
      else Some code)"
| "normalize_metric_error_code _ = None"

text \<open>\<^verbatim>\<open>_iter_exception_chain\<close>: an exception object is truthy, so \<^verbatim>\<open>a or b\<close> is \<open>a\<close> unless it is
  \<^verbatim>\<open>None\<close>.\<close>

definition next_exception :: "exc_obj \<Rightarrow> nat option" where
  "next_exception e = (case x_cause e of None \<Rightarrow> x_context e | Some a \<Rightarrow> Some a)"

function chain_loop :: "xheap \<Rightarrow> nat option \<Rightarrow> nat list \<Rightarrow> nat list" where
  "chain_loop heap cur seen =
     (case cur of
        None \<Rightarrow> []
      | Some a \<Rightarrow>
          if a \<in> set seen then []
          else case map_of heap a of
                 None \<Rightarrow> []
               | Some e \<Rightarrow> a # chain_loop heap (next_exception e) (a # seen))"
  by pat_completeness auto
termination
proof (relation "measure (\<lambda>(heap, cur, seen). card (set (map fst heap) - set seen))", goal_cases)
  case (2 heap cur seen a e)
  have "(a, e) \<in> set heap" by (rule map_of_SomeD) (rule 2)
  then have "a \<in> set (map fst heap) - set seen" using 2 by (simp add: image_iff Bex_def) blast
  then have "card (set (map fst heap) - set (a # seen)) < card (set (map fst heap) - set seen)"
    by (intro psubset_card_mono) auto
  then show ?case by simp
qed simp

declare chain_loop.simps [simp del]

definition iter_exception_chain :: "xheap \<Rightarrow> nat \<Rightarrow> nat list" where
  "iter_exception_chain heap exc = chain_loop heap (Some exc) []"

definition chain_objects :: "xheap \<Rightarrow> nat \<Rightarrow> exc_obj list" where
  "chain_objects heap exc = List.map_filter (map_of heap) (iter_exception_chain heap exc)"

fun first_some :: "('a \<Rightarrow> 'b option) \<Rightarrow> 'a list \<Rightarrow> 'b option" where
  "first_some f [] = None"
| "first_some f (x # xs) = (case f x of None \<Rightarrow> first_some f xs | Some y \<Rightarrow> Some y)"

fun body_candidates :: "pyval \<Rightarrow> pyval list" where
  "body_candidates (PDict body) =
     [dict_get body ''status_code'', dict_get body ''error_code'', dict_get body ''code''] @
     (case dict_get body ''error'' of
        PDict nested \<Rightarrow> [dict_get nested ''status_code'', dict_get nested ''error_code'', dict_get nested ''code'']
      | _ \<Rightarrow> [])"
| "body_candidates _ = []"

definition exc_error_code :: "exc_obj \<Rightarrow> string option" where
  "exc_error_code e =
     first_some normalize_metric_error_code
       ([x_status_code e, x_error_code e, x_code e] @ body_candidates (x_body e))"

definition extract_metric_error_code :: "xheap \<Rightarrow> nat \<Rightarrow> string" where
  "extract_metric_error_code heap error =
     (let error_chain = chain_objects heap error in
      case first_some exc_error_code error_chain of
        Some code \<Rightarrow> code
      | None \<Rightarrow>
          if list_ex x_timeout error_chain then ''timeout''
          else if list_ex x_connection error_chain then ''connection_error''
          else ''unknown'')"

section \<open>Matching messages\<close>

record unicode_db =
  uc_lower :: "nat \<Rightarrow> ustr"
  uc_word :: "nat \<Rightarrow> bool"

definition lower_char :: "unicode_db \<Rightarrow> nat \<Rightarrow> ustr" where
  "lower_char unidb c = (if c < 128 then [if 65 \<le> c \<and> c \<le> 90 then c + 32 else c] else uc_lower unidb c)"

definition lower_text :: "unicode_db \<Rightarrow> ustr \<Rightarrow> ustr" where
  "lower_text unidb t = concat (map (lower_char unidb) t)"

definition word_char :: "unicode_db \<Rightarrow> nat \<Rightarrow> bool" where
  "word_char unidb c \<longleftrightarrow>
     (if c < 128 then (48 \<le> c \<and> c \<le> 57) \<or> (65 \<le> c \<and> c \<le> 90) \<or> (97 \<le> c \<and> c \<le> 122) \<or> c = 95
      else uc_word unidb c)"

definition remove_spaces :: "ustr \<Rightarrow> ustr" where
  "remove_spaces t = filter (\<lambda>c. c \<noteq> 32) t"

definition is_substring :: "ustr \<Rightarrow> ustr \<Rightarrow> bool" where
  "is_substring pat t \<longleftrightarrow> list_ex (prefix pat) (suffixes t)"

text \<open>
  A regular expression is matched at a position by the list of the rests it can leave, so that
  alternatives and repetitions backtrack as \<^verbatim>\<open>re\<close> does; \<^verbatim>\<open>search\<close> asks for some position with a
  non-empty list.
\<close>

definition m_lit :: "ustr \<Rightarrow> ustr \<Rightarrow> ustr list" where
  "m_lit lit t = (if prefix lit t then [drop (length lit) t] else [])"

fun m_ws :: "ustr \<Rightarrow> ustr list" where
  "m_ws [] = [[]]"
| "m_ws (c # t) = (c # t) # (if u_isspace c then m_ws t else [])"

definition m_then :: "(ustr \<Rightarrow> ustr list) \<Rightarrow> (ustr \<Rightarrow> ustr list) \<Rightarrow> ustr \<Rightarrow> ustr list" where
  "m_then f g t = concat (map g (f t))"

definition m_opt :: "(ustr \<Rightarrow> ustr list) \<Rightarrow> ustr \<Rightarrow> ustr list" where
  "m_opt f t = f t @ [t]"

definition m_sep :: "ustr \<Rightarrow> ustr list" where
  "m_sep t = (case t of [] \<Rightarrow> [] | c # u \<Rightarrow> if c = 58 \<or> c = 61 then [u] else [])"

definition m_keyword :: "ustr \<Rightarrow> ustr list" where
  "m_keyword t =
     m_then (m_lit (codes ''error'')) (m_then m_ws (m_lit (codes ''code''))) t @
     m_then (m_lit (codes ''status'')) (m_opt (m_then m_ws (m_lit (codes ''code'')))) t @
     m_then (m_lit (codes ''http'')) (m_opt (m_then m_ws (m_lit (codes ''status'')))) t @
     m_lit (codes ''code'') t"

definition not_next :: "(nat \<Rightarrow> bool) \<Rightarrow> ustr \<Rightarrow> bool" where
  "not_next P t \<longleftrightarrow> (case t of [] \<Rightarrow> True | c # _ \<Rightarrow> \<not> P c)"

definition not_prev :: "(nat \<Rightarrow> bool) \<Rightarrow> nat option \<Rightarrow> bool" where
  "not_prev P p \<longleftrightarrow> (case p of None \<Rightarrow> True | Some c \<Rightarrow> \<not> P c)"

definition word_or_dash :: "unicode_db \<Rightarrow> nat \<Rightarrow> bool" where
  "word_or_dash unidb c \<longleftrightarrow> word_char unidb c \<or> c = 45"

definition numeric_match_at :: "unicode_db \<Rightarrow> ustr \<Rightarrow> nat option \<Rightarrow> ustr \<Rightarrow> bool" where
  "numeric_match_at unidb pat prev t \<longleftrightarrow>
     (not_prev (word_char unidb) prev \<and>
      list_ex (not_next (word_char unidb))
        (m_then m_keyword (m_then m_ws (m_then (m_opt m_sep) (m_then m_ws (m_lit pat)))) t)) \<or>
     (not_prev (word_or_dash unidb) prev \<and> list_ex (not_next (word_or_dash unidb)) (m_lit pat t))"

fun numeric_search :: "unicode_db \<Rightarrow> ustr \<Rightarrow> nat option \<Rightarrow> ustr \<Rightarrow> bool" where
  "numeric_search unidb pat prev [] = numeric_match_at unidb pat prev []"
| "numeric_search unidb pat prev (c # t) =
     (numeric_match_at unidb pat prev (c # t) \<or> numeric_search unidb pat (Some c) t)"

definition is_digit_code :: "nat \<Rightarrow> bool" where
  "is_digit_code c \<longleftrightarrow> 48 \<le> c \<and> c \<le> 57"

definition pattern_matches :: "unicode_db \<Rightarrow> ustr \<Rightarrow> ustr \<Rightarrow> ustr \<Rightarrow> bool" where
  "pattern_matches unidb text_lower text_compact pat =
     (if pat \<noteq> [] \<and> list_all is_digit_code pat
      then numeric_search unidb pat None text_lower \<or> numeric_search unidb pat None text_compact
      else is_substring pat text_lower \<or> is_substring pat text_compact)"

section \<open>Classification\<close>

definition INPUT_TOO_LARGE_PATTERNS :: "ustr list" where
  "INPUT_TOO_LARGE_PATTERNS = map codes
     [''413'', ''payload too large'', ''request entity too large'', ''content too large'',
      ''contextwindowexceeded'', ''context window exceeded'', ''maximum context length'',
      ''max input tokens'', ''too many input tokens'', ''input length exceeds'',
      ''exceeds the context length'', ''exceeds the max input length'', ''is too large to process'',
      ''expected maxlength'']"

definition PERMANENT_API_ERROR_PATTERNS :: "ustr list" where
  "PERMANENT_API_ERROR_PATTERNS = map codes [''400'']"

definition AUTH_API_ERROR_PATTERNS :: "ustr list" where
  "AUTH_API_ERROR_PATTERNS = map codes [''401'', ''403'', ''forbidden'', ''unauthorized'', ''accountoverdue'']"

definition CONTENT_SAFETY_PATTERNS :: "ustr list" where
  "CONTENT_SAFETY_PATTERNS =
     map codes [''content policy'', ''content_filter'', ''contentfilter'', ''moderation'', ''sensitive content''] @
     [[0x5185, 0x5BB9, 0x5B89, 0x5168], [0x654F, 0x611F]]"

definition QUOTA_EXCEEDED_PATTERNS :: "ustr list" where
  "QUOTA_EXCEEDED_PATTERNS = map codes [''quotaexceeded'', ''quota limit'', ''quota exceed'', ''usage quota'']"

definition TRANSIENT_API_ERROR_PATTERNS :: "ustr list" where
  "TRANSIENT_API_ERROR_PATTERNS = map codes
     [''429'', ''500'', ''502'', ''503'', ''504'', ''toomanyrequests'', ''ratelimit'',
      ''requestbursttoofast'', ''timeout'', ''connectionerror'', ''connection refused'', ''connection reset'']"

definition any_pattern :: "unicode_db \<Rightarrow> ustr list \<Rightarrow> ustr list \<Rightarrow> bool" where
  "any_pattern unidb patterns texts =
     list_ex (\<lambda>text. let text_lower = lower_text unidb text; text_compact = remove_spaces text_lower
                     in list_ex (pattern_matches unidb text_lower text_compact) patterns) texts"

definition classify_all_failed :: "error_class option list \<Rightarrow> error_class" where
  "classify_all_failed errors =
     (let classes = List.map_filter id errors in
      if ERROR_CLASS_TRANSIENT \<in> set classes then ERROR_CLASS_TRANSIENT
      else if ERROR_CLASS_QUOTA_EXCEEDED \<in> set classes then ERROR_CLASS_QUOTA_EXCEEDED
      else if classes \<noteq> [] \<and> list_all (\<lambda>ec. ec = ERROR_CLASS_AUTH) classes then ERROR_CLASS_AUTH
      else ERROR_CLASS_UNKNOWN)"

definition classify_texts :: "unicode_db \<Rightarrow> ustr list \<Rightarrow> error_class" where
  "classify_texts unidb texts =
     (if any_pattern unidb INPUT_TOO_LARGE_PATTERNS texts then ERROR_CLASS_INPUT_TOO_LARGE
      else if any_pattern unidb CONTENT_SAFETY_PATTERNS texts then ERROR_CLASS_CONTENT_SAFETY
      else if any_pattern unidb PERMANENT_API_ERROR_PATTERNS texts then ERROR_CLASS_PERMANENT
      else if any_pattern unidb AUTH_API_ERROR_PATTERNS texts then ERROR_CLASS_AUTH
      else if list_ex (\<lambda>text. list_ex (\<lambda>pat. is_substring pat (lower_text unidb text)) QUOTA_EXCEEDED_PATTERNS) texts
        then ERROR_CLASS_QUOTA_EXCEEDED
      else if any_pattern unidb TRANSIENT_API_ERROR_PATTERNS texts then ERROR_CLASS_TRANSIENT
      else ERROR_CLASS_UNKNOWN)"

definition cause_object :: "xheap \<Rightarrow> exc_obj \<Rightarrow> exc_obj option" where
  "cause_object heap e = (case x_cause e of None \<Rightarrow> None | Some a \<Rightarrow> map_of heap a)"

definition classify_api_error :: "unicode_db \<Rightarrow> xheap \<Rightarrow> exc_obj \<Rightarrow> error_class" where
  "classify_api_error unidb heap error =
     (case x_all_failed error of
        Some errors \<Rightarrow> classify_all_failed errors
      | None \<Rightarrow>
          let cause = (case cause_object heap error of None \<Rightarrow> [] | Some c \<Rightarrow> [c]) in
          if list_ex x_permanent_io (error # cause) then ERROR_CLASS_PERMANENT
          else classify_texts unidb (x_text error # map x_text cause))"

definition is_retryable_api_error :: "unicode_db \<Rightarrow> xheap \<Rightarrow> exc_obj \<Rightarrow> bool" where
  "is_retryable_api_error unidb heap error \<longleftrightarrow> classify_api_error unidb heap error = ERROR_CLASS_TRANSIENT"

section \<open>Retrying\<close>

definition RATE_LIMIT_RETRY_BASE_DELAY_SECONDS :: rat where
  "RATE_LIMIT_RETRY_BASE_DELAY_SECONDS = 5"

definition RATE_LIMIT_RETRY_MAX_DELAY_SECONDS :: rat where
  "RATE_LIMIT_RETRY_MAX_DELAY_SECONDS = 120"

text \<open>\<^verbatim>\<open>random.uniform(a, b)\<close> is \<open>a + (b - a) * u\<close> for a random \<open>u\<close> between 0 and 1.\<close>

definition uniform :: "rat \<Rightarrow> rat \<Rightarrow> rat \<Rightarrow> rat" where
  "uniform a b u = a + (b - a) * u"

definition rate_limit_retry_delay :: "int \<Rightarrow> rat \<Rightarrow> rat" where
  "rate_limit_retry_delay attempt u =
     min RATE_LIMIT_RETRY_MAX_DELAY_SECONDS (RATE_LIMIT_RETRY_BASE_DELAY_SECONDS * 2 ^ nat (max 0 (attempt - 1))) *
     uniform (8 / 10) (12 / 10) u"

definition compute_delay :: "nat \<Rightarrow> rat \<Rightarrow> rat \<Rightarrow> bool \<Rightarrow> rat \<Rightarrow> rat" where
  "compute_delay attempt base_delay max_delay jitter u =
     (let delay = min (base_delay * 2 ^ attempt) max_delay
      in if jitter then delay + uniform 0 (min base_delay delay) u else delay)"

text \<open>
  The retried operation is the sequence of its outcomes, one for each call. The result pairs the
  outcome the caller sees with the delays slept.
\<close>

function retry_loop ::
    "(nat \<Rightarrow> 'e + 'a) \<Rightarrow> int \<Rightarrow> (nat \<Rightarrow> rat) \<Rightarrow> ('e \<Rightarrow> bool) \<Rightarrow> nat \<Rightarrow> ('e + 'a) \<times> rat list" where
  "retry_loop func max_retries delay is_retryable attempt =
     (case func attempt of
        Inr v \<Rightarrow> (Inr v, [])
      | Inl e \<Rightarrow>
          if max_retries \<le> 0 \<or> int attempt \<ge> max_retries \<or> \<not> is_retryable e then (Inl e, [])
          else case retry_loop func max_retries delay is_retryable (Suc attempt) of
                 (r, slept) \<Rightarrow> (r, delay attempt # slept))"
  by pat_completeness auto
termination
  by (relation "measure (\<lambda>(func, max_retries, delay, is_retryable, attempt). nat (max_retries - int attempt))") auto

declare retry_loop.simps [simp del]

definition retry_sync ::
    "(nat \<Rightarrow> 'e + 'a) \<Rightarrow> int \<Rightarrow> rat \<Rightarrow> rat \<Rightarrow> bool \<Rightarrow> (nat \<Rightarrow> rat) \<Rightarrow> ('e \<Rightarrow> bool) \<Rightarrow> ('e + 'a) \<times> rat list" where
  "retry_sync func max_retries base_delay max_delay jitter u is_retryable =
     retry_loop func max_retries (\<lambda>attempt. compute_delay attempt base_delay max_delay jitter (u attempt)) is_retryable 0"

text \<open>The coroutine variant awaits the same calls and delays in the same order.\<close>

definition retry_async ::
    "(nat \<Rightarrow> 'e + 'a) \<Rightarrow> int \<Rightarrow> rat \<Rightarrow> rat \<Rightarrow> bool \<Rightarrow> (nat \<Rightarrow> rat) \<Rightarrow> ('e \<Rightarrow> bool) \<Rightarrow> ('e + 'a) \<times> rat list" where
  "retry_async func max_retries base_delay max_delay jitter u is_retryable =
     retry_loop func max_retries (\<lambda>attempt. compute_delay attempt base_delay max_delay jitter (u attempt)) is_retryable 0"

section \<open>Primary and backup\<close>

record pb_switcher =
  pb_failback_timeout :: rat
  pb_failback_request_count :: int
  pb_using_backup :: bool
  pb_switch_to_backup_time :: rat
  pb_backup_request_count :: int

definition PrimaryBackupSwitcher :: "rat \<Rightarrow> int \<Rightarrow> pb_switcher" where
  "PrimaryBackupSwitcher failback_timeout_seconds failback_request_count =
     \<lparr>pb_failback_timeout = failback_timeout_seconds, pb_failback_request_count = failback_request_count,
      pb_using_backup = False, pb_switch_to_backup_time = 0, pb_backup_request_count = 0\<rparr>"

definition should_try_primary :: "pb_switcher \<Rightarrow> rat \<Rightarrow> bool" where
  "should_try_primary s now =
     (if \<not> pb_using_backup s then True
      else if now - pb_switch_to_backup_time s \<ge> pb_failback_timeout s then True
      else if pb_backup_request_count s \<ge> pb_failback_request_count s then True
      else False)"

definition record_primary_success :: "pb_switcher \<Rightarrow> pb_switcher" where
  "record_primary_success s =
     (if pb_using_backup s then s\<lparr>pb_using_backup := False, pb_backup_request_count := 0\<rparr> else s)"

definition switches_to_backup :: "error_class \<Rightarrow> bool" where
  "switches_to_backup error_class \<longleftrightarrow>
     error_class \<in> {ERROR_CLASS_PERMANENT, ERROR_CLASS_AUTH, ERROR_CLASS_QUOTA_EXCEEDED}"

definition record_primary_failure :: "pb_switcher \<Rightarrow> error_class \<Rightarrow> rat \<Rightarrow> pb_switcher \<times> bool" where
  "record_primary_failure s error_class now =
     (if switches_to_backup error_class then
        let s = (if \<not> pb_using_backup s then s\<lparr>pb_using_backup := True\<rparr> else s)
        in (s\<lparr>pb_switch_to_backup_time := now, pb_backup_request_count := 0\<rparr>, True)
      else (s, False))"

definition record_backup_request :: "pb_switcher \<Rightarrow> pb_switcher" where
  "record_backup_request s =
     (if pb_using_backup s then s\<lparr>pb_backup_request_count := pb_backup_request_count s + 1\<rparr> else s)"

definition is_using_backup :: "pb_switcher \<Rightarrow> bool" where
  "is_using_backup s = pb_using_backup s"

section \<open>Ordered credentials\<close>

record oc_switcher =
  oc_n :: int
  oc_failback_timeout :: rat
  oc_failback_request_count :: int
  oc_active_idx :: int
  oc_last_switch_time :: rat
  oc_active_request_count :: int

definition OrderedCredentialSwitcher :: "int \<Rightarrow> rat \<Rightarrow> int \<Rightarrow> oc_switcher res" where
  "OrderedCredentialSwitcher n failback_timeout_seconds failback_request_count =
     (if n < 1 then Raise ValueError
      else Ok \<lparr>oc_n = n, oc_failback_timeout = failback_timeout_seconds,
               oc_failback_request_count = failback_request_count, oc_active_idx = 0,
               oc_last_switch_time = 0, oc_active_request_count = 0\<rparr>)"

text \<open>The two clock readings of \<^verbatim>\<open>maybe_failback\<close> are separate calls.\<close>

definition maybe_failback :: "oc_switcher \<Rightarrow> rat \<Rightarrow> rat \<Rightarrow> oc_switcher \<times> int" where
  "maybe_failback s now now' =
     (if oc_active_idx s > 0 then
        let timer_hit = (now - oc_last_switch_time s \<ge> oc_failback_timeout s);
            count_hit = (oc_active_request_count s \<ge> oc_failback_request_count s)
        in if timer_hit \<or> count_hit then
             let s' = s\<lparr>oc_active_idx := oc_active_idx s - 1, oc_last_switch_time := now',
                        oc_active_request_count := 0\<rparr>
             in (s', oc_active_idx s')
           else (s, oc_active_idx s)
      else (s, oc_active_idx s))"

definition get_active_index :: "oc_switcher \<Rightarrow> int" where
  "get_active_index s = oc_active_idx s"

definition on_success :: "oc_switcher \<Rightarrow> int \<Rightarrow> oc_switcher" where
  "on_success s idx =
     (if idx = oc_active_idx s \<and> oc_active_idx s > 0
      then s\<lparr>oc_active_request_count := oc_active_request_count s + 1\<rparr> else s)"

definition is_fail_fast :: "error_class \<Rightarrow> bool" where
  "is_fail_fast error_class \<longleftrightarrow>
     error_class \<in> {ERROR_CLASS_PERMANENT, ERROR_CLASS_INPUT_TOO_LARGE, ERROR_CLASS_CONTENT_SAFETY}"

definition commit_success :: "oc_switcher \<Rightarrow> int \<Rightarrow> rat \<Rightarrow> oc_switcher" where
  "commit_success s idx now =
     (if idx = oc_active_idx s then
        (if oc_active_idx s > 0 then s\<lparr>oc_active_request_count := oc_active_request_count s + 1\<rparr> else s)
      else s\<lparr>oc_active_idx := idx, oc_last_switch_time := now, oc_active_request_count := 0\<rparr>)"

section \<open>The exception chain\<close>

lemma chain_loop_spec:
  "distinct (chain_loop heap cur seen) \<and> set (chain_loop heap cur seen) \<inter> set seen = {} \<and>
   set (chain_loop heap cur seen) \<subseteq> fst ` set heap"
proof (induction heap cur seen rule: chain_loop.induct)
  case (1 heap cur seen)
  show ?case
  proof (cases "\<exists>a e. cur = Some a \<and> a \<notin> set seen \<and> map_of heap a = Some e")
    case True
    then obtain a e where ae: "cur = Some a" "a \<notin> set seen" "map_of heap a = Some e" by blast
    have "chain_loop heap cur seen = a # chain_loop heap (next_exception e) (a # seen)"
      using ae by (subst chain_loop.simps) simp
    moreover have "a \<in> fst ` set heap" using map_of_SomeD [OF ae(3)] by force
    ultimately show ?thesis using "1.IH" [OF ae] ae(2) by auto
  next
    case False
    then have "chain_loop heap cur seen = []"
      by (auto simp: chain_loop.simps [of heap cur seen] split: option.splits)
    then show ?thesis by simp
  qed
qed

lemma chain_loop_closed:
  "a \<in> set (chain_loop heap cur seen) \<Longrightarrow> map_of heap a = Some e \<Longrightarrow> next_exception e = Some b \<Longrightarrow>
   map_of heap b = Some f \<Longrightarrow> b \<in> set (chain_loop heap cur seen) \<union> set seen"
proof (induction heap cur seen rule: chain_loop.induct)
  case (1 heap cur seen)
  from "1.prems"(1) obtain c g where c: "cur = Some c" "c \<notin> set seen" "map_of heap c = Some g"
    by (auto simp: chain_loop.simps [of heap cur seen] split: option.splits if_splits)
  have eq: "chain_loop heap cur seen = c # chain_loop heap (next_exception g) (c # seen)"
    using c by (subst chain_loop.simps) simp
  show ?case
  proof (cases "a = c")
    case True
    then have "next_exception g = Some b" using "1.prems"(2,3) c(3) by simp
    then have "b \<in> set (c # seen) \<or> b \<in> set (chain_loop heap (next_exception g) (c # seen))"
      using "1.prems"(4) by (auto simp: chain_loop.simps [of heap "Some b"])
    then show ?thesis unfolding eq by auto
  next
    case False
    then show ?thesis using "1.IH" [OF c _ "1.prems"(2-4)] "1.prems"(1) unfolding eq by auto
  qed
qed

section \<open>Metric labels are bounded\<close>

definition metric_label_ok :: "string \<Rightarrow> bool" where
  "metric_label_ok s \<longleftrightarrow> s \<noteq> [] \<and> length s \<le> METRIC_ERROR_CODE_MAX_LENGTH \<and> list_all metric_char s"

lemma digit_char_metric: "0 \<le> d \<Longrightarrow> d \<le> 9 \<Longrightarrow> metric_char (digit_char d)"
proof -
  assume "0 \<le> d" "d \<le> 9"
  then have "d = 0 \<or> d = 1 \<or> d = 2 \<or> d = 3 \<or> d = 4 \<or> d = 5 \<or> d = 6 \<or> d = 7 \<or> d = 8 \<or> d = 9" by presburger
  then show ?thesis by (auto simp: digit_char_def metric_char_def ascii_alnum_def char_of_def bit_simps)
qed

lemma normalize_metric_ok:
  "normalize_metric_error_code v = Some s \<Longrightarrow> metric_label_ok s"
proof (induction v rule: normalize_metric_error_code.induct)
  case (1 v)
  then have v: "100 \<le> v" "v \<le> 599" "s = str_of_status v" by (auto split: if_splits)
  have "v div 100 \<le> 9" "0 \<le> v div 100" using v by auto
  then show ?case
    using v digit_char_metric
    by (simp add: metric_label_ok_def str_of_status_def METRIC_ERROR_CODE_MAX_LENGTH_def)
qed (auto simp: metric_label_ok_def Let_def split: if_splits)

lemma first_some_ok: "(\<And>x y. f x = Some y \<Longrightarrow> P y) \<Longrightarrow> first_some f xs = Some y \<Longrightarrow> P y"
  by (induction xs) (auto split: option.splits)

lemma extract_metric_ok: "metric_label_ok (extract_metric_error_code heap e)"
proof -
  have "metric_label_ok y" if "first_some exc_error_code xs = Some y" for xs y
    by (rule first_some_ok [OF _ that]) (unfold exc_error_code_def, erule first_some_ok [rotated], rule normalize_metric_ok)
  moreover have "metric_label_ok ''timeout''" "metric_label_ok ''connection_error''" "metric_label_ok ''unknown''"
    by code_simp+
  ultimately show ?thesis by (simp add: extract_metric_error_code_def Let_def split: option.split)
qed

section \<open>The retry loop\<close>

definition retry_stops :: "(nat \<Rightarrow> 'e + 'a) \<Rightarrow> int \<Rightarrow> ('e \<Rightarrow> bool) \<Rightarrow> nat \<Rightarrow> bool" where
  "retry_stops func max_retries is_retryable k \<longleftrightarrow>
     (case func k of Inr v \<Rightarrow> True | Inl e \<Rightarrow> int k \<ge> max_retries \<or> \<not> is_retryable e)"

lemma retry_loop_spec:
  "\<exists>k \<ge> attempt. retry_loop func n delay is_retryable attempt = (func k, map delay [attempt..<k]) \<and>
     retry_stops func n is_retryable k \<and> (\<forall>j. attempt \<le> j \<and> j < k \<longrightarrow> \<not> retry_stops func n is_retryable j)"
proof (induction func n delay is_retryable attempt rule: retry_loop.induct)
  case (1 func n delay is_retryable attempt)
  show ?case
  proof (cases "retry_stops func n is_retryable attempt")
    case True
    then have "retry_loop func n delay is_retryable attempt = (func attempt, [])"
      by (auto simp: retry_loop.simps [of func n delay is_retryable attempt] retry_stops_def split: sum.splits)
    with True show ?thesis by (intro exI [of _ attempt]) (auto simp: not_less)
  next
    case False
    then obtain e where e: "func attempt = Inl e" "\<not> (n \<le> 0 \<or> n \<le> int attempt \<or> \<not> is_retryable e)"
      by (auto simp: retry_stops_def split: sum.splits)
    from "1.IH" [OF e] obtain k where k: "Suc attempt \<le> k"
      "retry_loop func n delay is_retryable (Suc attempt) = (func k, map delay [Suc attempt..<k])"
      "retry_stops func n is_retryable k" "\<forall>j. Suc attempt \<le> j \<and> j < k \<longrightarrow> \<not> retry_stops func n is_retryable j"
      by blast
    have "retry_loop func n delay is_retryable attempt = (func k, map delay [attempt..<k])"
      using e k by (simp add: retry_loop.simps [of func n delay is_retryable attempt] upt_conv_Cons)
    moreover have "\<forall>j. attempt \<le> j \<and> j < k \<longrightarrow> \<not> retry_stops func n is_retryable j"
      using k(4) False by (metis Suc_leI le_neq_implies_less)
    ultimately show ?thesis using k by (intro exI [of _ k]) simp
  qed
qed

lemma compute_delay_bounds:
  assumes "0 \<le> b" "0 \<le> m" "0 \<le> u" "u \<le> 1"
  shows "min (b * 2 ^ i) m \<le> compute_delay i b m j u \<and> compute_delay i b m j u \<le> min (b * 2 ^ i) m + min b m"
proof -
  define d where "d = min (b * 2 ^ i) m"
  have "0 \<le> d" "d \<le> m" using assms by (auto simp: d_def)
  then have "0 \<le> min b d" "min b d \<le> min b m" using assms by auto
  moreover from this have "min b d * u \<le> min b d * 1" "0 \<le> min b d * u"
    using assms by (auto intro: mult_left_mono simp del: mult_1_right)
  ultimately show ?thesis unfolding compute_delay_def Let_def d_def [symmetric] uniform_def by auto
qed

section \<open>The switchers\<close>

datatype pb_op =
    PbSuccess
  | PbFailure error_class rat
  | PbBackupRequest

fun pb_step :: "pb_switcher \<Rightarrow> pb_op \<Rightarrow> pb_switcher" where
  "pb_step s PbSuccess = record_primary_success s"
| "pb_step s (PbFailure c now) = fst (record_primary_failure s c now)"
| "pb_step s PbBackupRequest = record_backup_request s"

definition pb_inv :: "pb_switcher \<Rightarrow> bool" where
  "pb_inv s \<longleftrightarrow> 0 \<le> pb_backup_request_count s \<and> (\<not> pb_using_backup s \<longrightarrow> pb_backup_request_count s = 0)"

interpretation pb: guarded_machine pb_step "\<lambda>_ _. True" pb_inv
proof unfold_locales
  fix s a assume "pb_inv s"
  then show "pb_inv (pb_step s a)"
    by (cases a) (auto simp: pb_inv_def record_primary_success_def record_primary_failure_def record_backup_request_def Let_def)
qed

datatype oc_op =
    OcFailback rat rat
  | OcOnSuccess int
  | OcCommit int rat

fun oc_step :: "oc_switcher \<Rightarrow> oc_op \<Rightarrow> oc_switcher" where
  "oc_step s (OcFailback now now') = fst (maybe_failback s now now')"
| "oc_step s (OcOnSuccess idx) = on_success s idx"
| "oc_step s (OcCommit idx now) = commit_success s idx now"

fun oc_enabled :: "oc_switcher \<Rightarrow> oc_op \<Rightarrow> bool" where
  "oc_enabled s (OcCommit idx now) = (0 \<le> idx \<and> idx < oc_n s)"
| "oc_enabled s _ = True"

definition oc_inv :: "oc_switcher \<Rightarrow> bool" where
  "oc_inv s \<longleftrightarrow> 0 \<le> oc_active_idx s \<and> oc_active_idx s < oc_n s \<and> 0 \<le> oc_active_request_count s \<and>
     (oc_active_idx s = 0 \<longrightarrow> oc_active_request_count s = 0)"

lemmas oc_defs = maybe_failback_def on_success_def commit_success_def Let_def

interpretation oc: guarded_machine oc_step oc_enabled oc_inv
proof unfold_locales
  fix s a assume "oc_inv s" "oc_enabled s a"
  then show "oc_inv (oc_step s a)" by (cases a) (auto simp: oc_inv_def oc_defs)
qed

lemma oc_step_n: "oc_n (oc_step s a) = oc_n s"
  by (cases a) (auto simp: oc_defs)

lemma OrderedCredentialSwitcher_inv: "OrderedCredentialSwitcher n t c = Ok s \<Longrightarrow> oc_inv s \<and> oc_n s = n"
  by (auto simp: OrderedCredentialSwitcher_def oc_inv_def split: if_splits)

section \<open>Properties\<close>

text \<open>
  Retrying returns the outcome of the first decisive call: a success, an error that is not
  retryable, or the call after the last permitted retry; every earlier call failed with a retryable error, and exactly
  one delay of the backoff sequence is slept between two calls. The loop always ends.
\<close>

theorem retry_sync_outcome:
  "\<exists>k. retry_sync func n base m jitter u is_retryable =
        (func k, map (\<lambda>i. compute_delay i base m jitter (u i)) [0..<k]) \<and>
      retry_stops func n is_retryable k \<and> list_all (\<lambda>j. \<not> retry_stops func n is_retryable j) [0..<k] \<and> int k \<le> max 0 n"
proof -
  obtain k where k: "retry_loop func n (\<lambda>i. compute_delay i base m jitter (u i)) is_retryable 0 =
      (func k, map (\<lambda>i. compute_delay i base m jitter (u i)) [0..<k])"
    "retry_stops func n is_retryable k" "\<forall>j. 0 \<le> j \<and> j < k \<longrightarrow> \<not> retry_stops func n is_retryable j"
    using retry_loop_spec [of 0] by blast
  have "int k \<le> max 0 n"
  proof (rule ccontr)
    assume "\<not> int k \<le> max 0 n"
    then have "k - 1 < k" "int (k - 1) \<ge> n" by auto
    moreover from this(2) have "retry_stops func n is_retryable (k - 1)" by (simp add: retry_stops_def split: sum.split)
    ultimately show False using k(3) by blast
  qed
  then show ?thesis using k by (auto simp: retry_sync_def list_all_iff)
qed

text \<open>
  Walking the chain of causes ends on every exception graph, cyclic ones included: it starts at the
  exception, visits no object twice, and leaves out nothing reachable through cause or context links.
\<close>

theorem exception_chain_complete:
  assumes "map_of heap e = Some obj"
  shows "hd (iter_exception_chain heap e) = e \<and> distinct (iter_exception_chain heap e) \<and>
     (\<forall>a x b y. a \<in> set (iter_exception_chain heap e) \<longrightarrow> map_of heap a = Some x \<longrightarrow> next_exception x = Some b \<longrightarrow>
        map_of heap b = Some y \<longrightarrow> b \<in> set (iter_exception_chain heap e))"
proof -
  have "iter_exception_chain heap e = e # chain_loop heap (next_exception obj) [e]"
    unfolding iter_exception_chain_def using assms by (subst chain_loop.simps) simp
  moreover have "distinct (iter_exception_chain heap e)"
    unfolding iter_exception_chain_def using chain_loop_spec by blast
  ultimately show ?thesis
    using chain_loop_closed [of _ heap "Some e" "[]"] unfolding iter_exception_chain_def by (metis list.sel(1) list.set(1) sup_bot.right_neutral)
qed

definition sample_exc :: "nat option \<Rightarrow> exc_obj" where
  "sample_exc cause =
     \<lparr>x_text = codes ''boom'', x_permanent_io = False, x_timeout = False, x_connection = False, x_all_failed = None,
      x_cause = cause, x_context = None, x_status_code = PNone, x_error_code = PNone, x_code = PNone, x_body = PNone\<rparr>"

theorem exception_chain_complete_witness:
  "iter_exception_chain [(1, sample_exc (Some 2)), (2, sample_exc (Some 1))] 1 = [1, 2] \<and>
   distinct (iter_exception_chain [(1, sample_exc (Some 2)), (2, sample_exc (Some 1))] 1)"
proof -
  have "map_of [(1, sample_exc (Some 2)), (2, sample_exc (Some 1))] (1 :: nat) = Some (sample_exc (Some 2))" by simp
  moreover have "iter_exception_chain [(1, sample_exc (Some 2)), (2, sample_exc (Some 1))] 1 = [1, 2]" by code_simp
  ultimately show ?thesis using exception_chain_complete by blast
qed

end
