(* ===== verification/Failover.thy ===== *)
theory Failover
  imports Model_Retry
begin

text \<open>
  The clients of the switchers: \<^verbatim>\<open>FailoverEmbedder\<close> (\<^verbatim>\<open>openviking/models/embedder/base.py\<close>),
  \<^verbatim>\<open>FailoverVLM\<close> and \<^verbatim>\<open>MultiCredentialVLM\<close> (\<^verbatim>\<open>openviking/models/vlm/base.py\<close>).

  \<^item> The wrapped model is a parameter: \<open>call idx\<close> is the outcome of the method on credential
    \<open>idx\<close>, an exception or a result; a stream is the items it yields and the exception that ends it,
    if any. Each credential is called at most once in a request.
  \<^item> \<open>classify\<close> stands for \<open>classify_api_error\<close> on the exceptions at hand.
  \<^item> Requests share one switcher. While a call is under way other requests may run any operations on
    it; \<open>others k\<close> is the list of those that happen before the \<open>k\<close>th call returns. The asynchronous
    variants suspend at the same places.
  \<^item> Annotating exceptions with the model name and logging are left out.
\<close>

datatype 'x failover_error =
    Original 'x
  | AllCredentialsFailed "(string \<times> error_class \<times> 'x \<times> int) list"

definition interfere :: "(nat \<Rightarrow> oc_op list) \<Rightarrow> nat \<Rightarrow> oc_switcher \<Rightarrow> oc_switcher" where
  "interfere others k s = foldl oc_step s (others k)"

section \<open>The ring of credentials\<close>

fun ring_loop ::
    "('x \<Rightarrow> error_class) \<Rightarrow> string list \<Rightarrow> (int \<Rightarrow> 'x + 'a) \<Rightarrow> (nat \<Rightarrow> oc_op list) \<Rightarrow> (nat \<Rightarrow> rat) \<Rightarrow> int \<Rightarrow> int \<Rightarrow>
     nat list \<Rightarrow> (string \<times> error_class \<times> 'x \<times> int) list \<Rightarrow> oc_switcher \<Rightarrow> oc_switcher \<times> ('x failover_error + 'a)" where
  "ring_loop classify ids call others clock start n [] aggregated_errors s = (s, Inl (AllCredentialsFailed aggregated_errors))"
| "ring_loop classify ids call others clock start n (offset # offsets) aggregated_errors s =
     (let idx = (start + int offset) mod n;
          s' = interfere others offset s
      in case call idx of
           Inr result \<Rightarrow> (commit_success s' idx (clock offset), Inr result)
         | Inl exc \<Rightarrow>
             let error_class = classify exc;
                 aggregated_errors' = aggregated_errors @ [(ids ! nat idx, error_class, exc, idx)]
             in if is_fail_fast error_class then (s', Inl (Original exc))
                else ring_loop classify ids call others clock start n offsets aggregated_errors' s')"

definition embed_with_failover ::
    "('x \<Rightarrow> error_class) \<Rightarrow> string list \<Rightarrow> (int \<Rightarrow> 'x + 'a) \<Rightarrow> (nat \<Rightarrow> oc_op list) \<Rightarrow> (nat \<Rightarrow> rat) \<Rightarrow> rat \<Rightarrow> rat \<Rightarrow>
     oc_switcher \<Rightarrow> oc_switcher \<times> ('x failover_error + 'a)" where
  "embed_with_failover classify ids call others clock now now' s =
     (case maybe_failback s now now' of
        (s', start) \<Rightarrow> ring_loop classify ids call others clock start (oc_n s') [0..<nat (oc_n s')] [] s')"

definition embed_with_failover_async ::
    "('x \<Rightarrow> error_class) \<Rightarrow> string list \<Rightarrow> (int \<Rightarrow> 'x + 'a) \<Rightarrow> (nat \<Rightarrow> oc_op list) \<Rightarrow> (nat \<Rightarrow> rat) \<Rightarrow> rat \<Rightarrow> rat \<Rightarrow>
     oc_switcher \<Rightarrow> oc_switcher \<times> ('x failover_error + 'a)" where
  "embed_with_failover_async classify ids call others clock now now' s =
     (case maybe_failback s now now' of
        (s', start) \<Rightarrow> ring_loop classify ids call others clock start (oc_n s') [0..<nat (oc_n s')] [] s')"

definition multi_get_completion_with_failover ::
    "('x \<Rightarrow> error_class) \<Rightarrow> string list \<Rightarrow> (int \<Rightarrow> 'x + 'a) \<Rightarrow> (nat \<Rightarrow> oc_op list) \<Rightarrow> (nat \<Rightarrow> rat) \<Rightarrow> rat \<Rightarrow> rat \<Rightarrow>
     oc_switcher \<Rightarrow> oc_switcher \<times> ('x failover_error + 'a)" where
  "multi_get_completion_with_failover classify ids call others clock now now' s =
     (case maybe_failback s now now' of
        (s', start) \<Rightarrow> ring_loop classify ids call others clock start (oc_n s') [0..<nat (oc_n s')] [] s')"

definition multi_get_completion_with_failover_async ::
    "('x \<Rightarrow> error_class) \<Rightarrow> string list \<Rightarrow> (int \<Rightarrow> 'x + 'a) \<Rightarrow> (nat \<Rightarrow> oc_op list) \<Rightarrow> (nat \<Rightarrow> rat) \<Rightarrow> rat \<Rightarrow> rat \<Rightarrow>
     oc_switcher \<Rightarrow> oc_switcher \<times> ('x failover_error + 'a)" where
  "multi_get_completion_with_failover_async classify ids call others clock now now' s =
     (case maybe_failback s now now' of
        (s', start) \<Rightarrow> ring_loop classify ids call others clock start (oc_n s') [0..<nat (oc_n s')] [] s')"

text \<open>A stream yields its items and then ends, with \<open>None\<close> or an exception. The result is the final
  switcher, what the caller received, and the exception the caller sees.\<close>

type_synonym ('x, 'i) stream_run = "'i list \<times> 'x option"

fun stream_loop ::
    "('x \<Rightarrow> error_class) \<Rightarrow> string list \<Rightarrow> (int \<Rightarrow> ('x, 'i) stream_run) \<Rightarrow> (nat \<Rightarrow> oc_op list) \<Rightarrow> (nat \<Rightarrow> rat) \<Rightarrow> int \<Rightarrow> int \<Rightarrow>
     nat list \<Rightarrow> (string \<times> error_class \<times> 'x \<times> int) list \<Rightarrow> oc_switcher \<Rightarrow> oc_switcher \<times> 'i list \<times> 'x failover_error option" where
  "stream_loop classify ids stream others clock start n [] aggregated_errors s =
     (s, [], Some (AllCredentialsFailed aggregated_errors))"
| "stream_loop classify ids stream others clock start n (offset # offsets) aggregated_errors s =
     (let idx = (start + int offset) mod n;
          s' = interfere others offset s
      in case stream idx of
           (items, None) \<Rightarrow> (commit_success s' idx (clock offset), items, None)
         | (items, Some exc) \<Rightarrow>
             if items \<noteq> [] then (s', items, Some (Original exc))
             else
               let error_class = classify exc;
                   aggregated_errors' = aggregated_errors @ [(ids ! nat idx, error_class, exc, idx)]
               in if is_fail_fast error_class then (s', [], Some (Original exc))
                  else stream_loop classify ids stream others clock start n offsets aggregated_errors' s')"

definition multi_stream_with_failover ::
    "('x \<Rightarrow> error_class) \<Rightarrow> string list \<Rightarrow> (int \<Rightarrow> ('x, 'i) stream_run) \<Rightarrow> (nat \<Rightarrow> oc_op list) \<Rightarrow> (nat \<Rightarrow> rat) \<Rightarrow> rat \<Rightarrow> rat \<Rightarrow>
     oc_switcher \<Rightarrow> oc_switcher \<times> 'i list \<times> 'x failover_error option" where
  "multi_stream_with_failover classify ids stream others clock now now' s =
     (case maybe_failback s now now' of
        (s', start) \<Rightarrow> stream_loop classify ids stream others clock start (oc_n s') [0..<nat (oc_n s')] [] s')"

section \<open>Primary and backup models\<close>

text \<open>\<open>during\<close> is what other requests do to the switcher while the primary call is under way.\<close>

definition get_completion_with_failover ::
    "('x \<Rightarrow> error_class) \<Rightarrow> 'x + 'a \<Rightarrow> 'x + 'a \<Rightarrow> pb_op list \<Rightarrow> rat \<Rightarrow> rat \<Rightarrow> pb_switcher \<Rightarrow> pb_switcher \<times> ('x + 'a)" where
  "get_completion_with_failover classify primary backup during now now' s =
     (if should_try_primary s now then
        let s' = foldl pb_step s during in
        case primary of
          Inr result \<Rightarrow> (record_primary_success s', Inr result)
        | Inl e \<Rightarrow>
            case record_primary_failure s' (classify e) now' of
              (s'', True) \<Rightarrow> (record_backup_request s'', backup)
            | (s'', False) \<Rightarrow> (s'', Inl e)
      else (record_backup_request s, backup))"

definition get_completion_with_failover_async ::
    "('x \<Rightarrow> error_class) \<Rightarrow> 'x + 'a \<Rightarrow> 'x + 'a \<Rightarrow> pb_op list \<Rightarrow> rat \<Rightarrow> rat \<Rightarrow> pb_switcher \<Rightarrow> pb_switcher \<times> ('x + 'a)" where
  "get_completion_with_failover_async classify primary backup during now now' s =
     (if should_try_primary s now then
        let s' = foldl pb_step s during in
        case primary of
          Inr result \<Rightarrow> (record_primary_success s', Inr result)
        | Inl e \<Rightarrow>
            case record_primary_failure s' (classify e) now' of
              (s'', True) \<Rightarrow> (record_backup_request s'', backup)
            | (s'', False) \<Rightarrow> (s'', Inl e)
      else (record_backup_request s, backup))"

definition stream_with_failover ::
    "('x \<Rightarrow> error_class) \<Rightarrow> ('x, 'i) stream_run \<Rightarrow> ('x, 'i) stream_run \<Rightarrow> pb_op list \<Rightarrow> rat \<Rightarrow> rat \<Rightarrow> pb_switcher \<Rightarrow>
     pb_switcher \<times> 'i list \<times> 'x option" where
  "stream_with_failover classify primary backup during now now' s =
     (if should_try_primary s now then
        let s' = foldl pb_step s during in
        case primary of
          (items, None) \<Rightarrow> (record_primary_success s', items, None)
        | (items, Some exc) \<Rightarrow>
            if items \<noteq> [] then (s', items, Some exc)
            else case record_primary_failure s' (classify exc) now' of
                   (s'', True) \<Rightarrow> (record_backup_request s'', backup)
                 | (s'', False) \<Rightarrow> (s'', [], Some exc)
      else (record_backup_request s, backup))"

datatype 'x media_error = MediaOriginal 'x | UnsupportedMediaInputError

definition media_result :: "'x + 'a \<Rightarrow> 'x media_error + 'a" where
  "media_result r = (case r of Inl e \<Rightarrow> Inl (MediaOriginal e) | Inr v \<Rightarrow> Inr v)"

definition get_media_completion_async ::
    "('x \<Rightarrow> error_class) \<Rightarrow> bool \<Rightarrow> bool \<Rightarrow> 'x + 'a \<Rightarrow> 'x + 'a \<Rightarrow> pb_op list \<Rightarrow> rat \<Rightarrow> rat \<Rightarrow> pb_switcher \<Rightarrow>
     pb_switcher \<times> ('x media_error + 'a)" where
  "get_media_completion_async classify primary_supported backup_supported primary backup during now now' s =
     (if primary_supported \<and> (\<not> backup_supported \<or> should_try_primary s now) then
        let s' = foldl pb_step s during in
        case primary of
          Inr result \<Rightarrow> (record_primary_success s', Inr result)
        | Inl e \<Rightarrow>
            if \<not> backup_supported then (s', Inl (MediaOriginal e))
            else case record_primary_failure s' (classify e) now' of
                   (s'', True) \<Rightarrow> (record_backup_request s'', media_result backup)
                 | (s'', False) \<Rightarrow> (s'', Inl (MediaOriginal e))
      else if backup_supported then (record_backup_request s, media_result backup)
      else (s, Inl UnsupportedMediaInputError))"

definition active_is_backup :: "pb_switcher \<Rightarrow> bool" where
  "active_is_backup s = is_using_backup s"

section \<open>The outcome of a ring traversal\<close>

definition final_outcome :: "('x \<Rightarrow> error_class) \<Rightarrow> 'x + 'a \<Rightarrow> bool" where
  "final_outcome classify r \<longleftrightarrow> (case r of Inr _ \<Rightarrow> True | Inl x \<Rightarrow> is_fail_fast (classify x))"

definition error_entry :: "('x \<Rightarrow> error_class) \<Rightarrow> string list \<Rightarrow> (int \<Rightarrow> 'x + 'a) \<Rightarrow> int \<Rightarrow> string \<times> error_class \<times> 'x \<times> int" where
  "error_entry classify ids call idx = (ids ! nat idx, classify (projl (call idx)), projl (call idx), idx)"

lemma ring_loop_result:
  "snd (ring_loop classify ids call others clock start n offsets errs s) =
     (case find (\<lambda>k. final_outcome classify (call ((start + int k) mod n))) offsets of
        Some k \<Rightarrow> (case call ((start + int k) mod n) of Inr v \<Rightarrow> Inr v | Inl x \<Rightarrow> Inl (Original x))
      | None \<Rightarrow> Inl (AllCredentialsFailed (errs @ map (\<lambda>k. error_entry classify ids call ((start + int k) mod n)) offsets)))"
proof (induction offsets arbitrary: errs s)
  case (Cons k ks)
  then show ?case
    by (cases "call ((start + int k) mod n)")
       (auto simp: Let_def final_outcome_def error_entry_def split: option.split)
qed simp

lemma ring_indices:
  assumes "0 < n"
  shows "set (map (\<lambda>k. (start + int k) mod n) [0..<nat n]) = {0..<n}"
proof -
  have "i \<in> (\<lambda>k. (start + int k) mod n) ` {0..<nat n}" if "0 \<le> i" "i < n" for i
  proof
    show "i = (start + int (nat ((i - start) mod n))) mod n"
      using assms that by (simp add: mod_simps)
    show "nat ((i - start) mod n) \<in> {0..<nat n}" using assms by (simp add: nat_less_iff)
  qed
  then show ?thesis using assms by auto
qed

lemma ring_indices_distinct: "0 < n \<Longrightarrow> distinct (map (\<lambda>k. (start + int k) mod n) [0..<nat n])"
  using ring_indices [of n start] by (intro card_distinct) simp

lemma maybe_failback_active: "maybe_failback s now now' = (s', start) \<Longrightarrow> start = oc_active_idx s' \<and> oc_n s' = oc_n s"
  by (auto simp: maybe_failback_def Let_def split: if_splits)

lemma maybe_failback_inv: "oc_inv s \<Longrightarrow> oc_inv (fst (maybe_failback s now now'))"
  using oc.inv_step [of s "OcFailback now now'"] by simp

text \<open>What the other requests owe the switcher: they only commit existing credentials.\<close>

definition others_ok :: "int \<Rightarrow> (nat \<Rightarrow> oc_op list) \<Rightarrow> bool" where
  "others_ok n others \<longleftrightarrow> (\<forall>k. \<forall>op \<in> set (others k). \<forall>idx now. op = OcCommit idx now \<longrightarrow> 0 \<le> idx \<and> idx < n)"

lemma run_enabled_others:
  "(\<forall>op \<in> set ops. \<forall>idx now. op = OcCommit idx now \<longrightarrow> 0 \<le> idx \<and> idx < oc_n s) \<Longrightarrow> run_enabled oc_step oc_enabled s ops"
proof (induction ops arbitrary: s)
  case (Cons op ops)
  then have "oc_enabled s op" by (cases op) auto
  then show ?case using Cons by (simp add: oc_step_n)
qed simp

lemma foldl_oc_n: "oc_n (foldl oc_step s ops) = oc_n s"
  by (induction ops arbitrary: s) (simp_all add: oc_step_n)

lemma interfere_inv:
  assumes "oc_inv s" and "others_ok (oc_n s) others"
  shows "oc_inv (interfere others k s) \<and> oc_n (interfere others k s) = oc_n s"
  using oc.inv_run [OF assms(1) run_enabled_others, of "others k"] assms(2)
  by (auto simp: interfere_def others_ok_def foldl_oc_n)

lemma commit_success_inv:
  "oc_inv s \<Longrightarrow> 0 \<le> idx \<Longrightarrow> idx < oc_n s \<Longrightarrow> oc_inv (commit_success s idx now) \<and> oc_n (commit_success s idx now) = oc_n s"
  using oc.inv_step [of s "OcCommit idx now"] oc_step_n [of s "OcCommit idx now"] by simp

lemma ring_loop_inv:
  assumes "oc_inv s" and "oc_n s = n" and "others_ok n others" and "0 < n"
  shows "oc_inv (fst (ring_loop classify ids call others clock start n offsets errs s)) \<and>
         oc_n (fst (ring_loop classify ids call others clock start n offsets errs s)) = n"
  using assms(1,2)
proof (induction offsets arbitrary: errs s)
  case (Cons k ks)
  have i: "oc_inv (interfere others k s)" "oc_n (interfere others k s) = n"
    using interfere_inv [of s others k] Cons.prems assms(3) by auto
  then show ?case
    using Cons.IH commit_success_inv [OF i(1), of "(start + int k) mod n" "clock k"] assms(4)
    by (cases "call ((start + int k) mod n)") (auto simp: Let_def)
qed simp

lemma stream_loop_items:
  "\<exists>idx. fst (snd (stream_loop classify ids stream others clock start n offsets errs s)) \<in> {[], fst (stream idx)} \<and>
     (snd (snd (stream_loop classify ids stream others clock start n offsets errs s)) = None \<longrightarrow>
        fst (snd (stream_loop classify ids stream others clock start n offsets errs s)) = fst (stream idx) \<and>
        snd (stream idx) = None)"
proof (induction offsets arbitrary: errs s)
  case (Cons k ks)
  obtain items e where st: "stream ((start + int k) mod n) = (items, e)" by (metis surj_pair)
  show ?case
  proof (cases "e = None \<or> items \<noteq> [] \<or> is_fail_fast (classify (the e))")
    case True
    then show ?thesis
      using st by (intro exI [of _ "(start + int k) mod n"]) (auto simp: Let_def split: option.splits)
  next
    case False
    then show ?thesis using st Cons.IH by (auto simp: Let_def)
  qed
qed simp

lemma classify_all_failed_range:
  "classify_all_failed errs \<in> {ERROR_CLASS_TRANSIENT, ERROR_CLASS_QUOTA_EXCEEDED, ERROR_CLASS_AUTH, ERROR_CLASS_UNKNOWN}"
  by (simp add: classify_all_failed_def Let_def)

section \<open>Properties\<close>

text \<open>
  A request tries the credentials in ring order from the active one, each at most once, and stops at the
  first success or request-level error; if there is none, every credential has been tried and the aggregated error
  lists all failures in that order.
\<close>

theorem embed_failover_outcome:
  assumes "maybe_failback s now now' = (s', start)" and "oc_inv s"
  shows "start = oc_active_idx s' \<and> distinct (map (\<lambda>k. (start + int k) mod oc_n s) [0..<nat (oc_n s)]) \<and>
     set (map (\<lambda>k. (start + int k) mod oc_n s) [0..<nat (oc_n s)]) = {0..<oc_n s} \<and>
     snd (embed_with_failover classify ids call others clock now now' s) =
       (case find (\<lambda>k. final_outcome classify (call ((start + int k) mod oc_n s))) [0..<nat (oc_n s)] of
          Some k \<Rightarrow> (case call ((start + int k) mod oc_n s) of Inr v \<Rightarrow> Inr v | Inl x \<Rightarrow> Inl (Original x))
        | None \<Rightarrow> Inl (AllCredentialsFailed
            (map (\<lambda>k. error_entry classify ids call ((start + int k) mod oc_n s)) [0..<nat (oc_n s)])))"
proof -
  have n: "oc_n s' = oc_n s" "start = oc_active_idx s'" using maybe_failback_active [OF assms(1)] by auto
  have pos: "0 < oc_n s" using assms(2) by (simp add: oc_inv_def)
  show ?thesis
    using ring_indices [OF pos] ring_indices_distinct [OF pos]
    unfolding embed_with_failover_def assms(1) n(2) [symmetric] by (simp add: ring_loop_result n(1) split: option.split)
qed

definition sample_switcher :: oc_switcher where
  "sample_switcher = \<lparr>oc_n = 3, oc_failback_timeout = 600, oc_failback_request_count = 50, oc_active_idx = 2,
     oc_last_switch_time = 0, oc_active_request_count = 1\<rparr>"

definition sample_call :: "int \<Rightarrow> error_class + nat" where
  "sample_call idx = (if idx = 1 then Inr 7 else Inl ERROR_CLASS_AUTH)"

theorem embed_failover_outcome_witness:
  "snd (embed_with_failover id [''a'', ''b'', ''c''] sample_call (\<lambda>_. []) (\<lambda>_. 10) 5 5 sample_switcher) = Inr 7"
proof -
  have f: "maybe_failback sample_switcher 5 5 = (sample_switcher, 2)" "oc_inv sample_switcher" by code_simp+
  have "find (\<lambda>k. final_outcome id (sample_call ((2 + int k) mod oc_n sample_switcher))) [0..<nat (oc_n sample_switcher)] = Some 2"
    "sample_call ((2 + int 2) mod oc_n sample_switcher) = Inr 7" by code_simp+
  with embed_failover_outcome [OF f, of id "[''a'', ''b'', ''c'']" sample_call "\<lambda>_. []" "\<lambda>_. 10"] show ?thesis
    by (simp del: find.simps)
qed

text \<open>
  A stream with failover never mixes or replays output: what the caller receives is a part of the output
  of one credential, and it is complete when the stream ends without an error.
\<close>

theorem stream_single_source:
  "\<exists>idx. fst (snd (multi_stream_with_failover classify ids stream others clock now now' s)) \<in> {[], fst (stream idx)} \<and>
     (case snd (snd (multi_stream_with_failover classify ids stream others clock now now' s)) of
        None \<Rightarrow> fst (snd (multi_stream_with_failover classify ids stream others clock now now' s)) = fst (stream idx) \<and>
                snd (stream idx) = None
      | Some _ \<Rightarrow> True)"
proof -
  obtain s' start where m: "maybe_failback s now now' = (s', start)" by (metis surj_pair)
  show ?thesis
    using stream_loop_items [of classify ids stream others clock start "oc_n s'" "[0..<nat (oc_n s')]" "[]" s']
    unfolding multi_stream_with_failover_def m by (auto split: option.split)
qed

text \<open>
  The shared switcher stays within the ring under any interleaving: whatever operations other
  requests run on it during the calls, as long as they commit existing credentials, after the request the active
  index is still a credential and the ring has its size.
\<close>

theorem failover_switcher_safe:
  assumes "oc_inv s" and "others_ok (oc_n s) others"
  shows "oc_inv (fst (multi_get_completion_with_failover classify ids call others clock now now' s)) \<and>
         oc_n (fst (multi_get_completion_with_failover classify ids call others clock now now' s)) = oc_n s"
proof -
  obtain s' start where m: "maybe_failback s now now' = (s', start)" by (metis surj_pair)
  have s': "oc_inv s'" "oc_n s' = oc_n s"
    using maybe_failback_inv [OF assms(1), of now now'] maybe_failback_active [OF m] m by auto
  then have "0 < oc_n s'" by (simp add: oc_inv_def)
  then show ?thesis
    using ring_loop_inv [of s' "oc_n s'" others] s' assms(2) unfolding multi_get_completion_with_failover_def m by simp
qed

theorem failover_switcher_safe_witness:
  "oc_inv (fst (multi_get_completion_with_failover id [''a'', ''b'', ''c''] sample_call
     (\<lambda>k. if k = 1 then [OcCommit 0 9, OcFailback 700 700] else []) (\<lambda>_. 10) 5 5 sample_switcher))"
proof -
  have "oc_inv sample_switcher" "oc_n sample_switcher = 3" by code_simp+
  moreover from this have "others_ok (oc_n sample_switcher) (\<lambda>k. if k = 1 then [OcCommit 0 9, OcFailback 700 700] else [])"
    by (auto simp: others_ok_def)
  ultimately show ?thesis using failover_switcher_safe by blast
qed

text \<open>
  Credential errors are not fail-fast, not even on the last or the only credential: when every
  credential is rejected the caller gets the aggregated error, which classifies as an authentication failure.
\<close>

theorem auth_failures_aggregate:
  assumes "oc_inv s" and "\<And>idx. \<exists>x. call idx = Inl x \<and> classify x = ERROR_CLASS_AUTH"
  shows "\<exists>errs. snd (embed_with_failover classify ids call others clock now now' s) = Inl (AllCredentialsFailed errs) \<and>
     length errs = nat (oc_n s) \<and> classify_all_failed (map (\<lambda>(cid, c, x, i). Some c) errs) = ERROR_CLASS_AUTH"
proof -
  obtain s' start where m: "maybe_failback s now now' = (s', start)" by (metis surj_pair)
  have n: "oc_n s' = oc_n s" using maybe_failback_active [OF m] by simp
  have pos: "0 < oc_n s" using assms(1) by (simp add: oc_inv_def)
  let ?errs = "map (\<lambda>k. error_entry classify ids call ((start + int k) mod oc_n s)) [0..<nat (oc_n s)]"
  have "find (\<lambda>k. final_outcome classify (call ((start + int k) mod oc_n s))) [0..<nat (oc_n s)] = None"
    using assms(2) unfolding find_None_iff final_outcome_def by (metis (mono_tags) error_class.distinct is_fail_fast_def empty_iff insert_iff sum.case(1))
  then have res: "snd (embed_with_failover classify ids call others clock now now' s) = Inl (AllCredentialsFailed ?errs)"
    unfolding embed_with_failover_def m by (simp add: ring_loop_result n)
  have cls: "classify (projl (call idx)) = ERROR_CLASS_AUTH" for idx using assms(2) [of idx] by auto
  have "List.map_filter id (map (\<lambda>(cid, c, x, i). Some c) ?errs) = map (\<lambda>_. ERROR_CLASS_AUTH) [0..<nat (oc_n s)]"
    by (simp add: error_entry_def cls comp_def List.map_filter_def)
  then have "classify_all_failed (map (\<lambda>(cid, c, x, i). Some c) ?errs) = ERROR_CLASS_AUTH"
    using pos by (auto simp: classify_all_failed_def list_all_iff Let_def)
  then show ?thesis using res by auto
qed

theorem auth_failures_aggregate_witness:
  "\<exists>errs. snd (embed_with_failover id [''a'', ''b'', ''c''] (\<lambda>_. Inl ERROR_CLASS_AUTH :: error_class + nat) (\<lambda>_. []) (\<lambda>_. 10) 5 5
       sample_switcher) = Inl (AllCredentialsFailed errs) \<and> length errs = 3"
proof -
  have "oc_inv sample_switcher" "oc_n sample_switcher = 3" by code_simp+
  then show ?thesis
    using auth_failures_aggregate [of sample_switcher "\<lambda>_. Inl ERROR_CLASS_AUTH :: error_class + nat" id
        "[''a'', ''b'', ''c'']" "\<lambda>_. []" "\<lambda>_. 10" 5 5] by auto
qed

end
