(* ===== verification/Breaker.thy ===== *)
theory Breaker
  imports Model_Retry
begin

text \<open>
  \<^verbatim>\<open>openviking/utils/circuit_breaker.py\<close>. Every method runs under the breaker's lock, so a method
  is one atomic step; threads interleave steps in any order. \<^verbatim>\<open>time.monotonic()\<close> is the argument
  \<open>now\<close>, and the error class is what \<open>classify_api_error\<close> returned for the error.

  The step relation \<open>breaker_step\<close> pairs the breaker with the clock, which never goes back. The
  invariant is proved by rule induction over reachable states.
\<close>

section \<open>The breaker\<close>

datatype breaker_state = CLOSED | OPEN | HALF_OPEN

record breaker =
  cb_failure_threshold :: int
  cb_base_reset_timeout :: rat
  cb_max_reset_timeout :: rat
  cb_current_reset_timeout :: rat
  cb_state :: breaker_state
  cb_failure_count :: int
  cb_last_failure_time :: rat

definition CircuitBreaker :: "int \<Rightarrow> rat \<Rightarrow> rat option \<Rightarrow> breaker" where
  "CircuitBreaker failure_threshold reset_timeout max_reset_timeout =
     \<lparr>cb_failure_threshold = failure_threshold, cb_base_reset_timeout = reset_timeout,
      cb_max_reset_timeout = (case max_reset_timeout of None \<Rightarrow> reset_timeout | Some m \<Rightarrow> m),
      cb_current_reset_timeout = reset_timeout, cb_state = CLOSED, cb_failure_count = 0,
      cb_last_failure_time = 0\<rparr>"

definition check :: "breaker \<Rightarrow> rat \<Rightarrow> breaker res" where
  "check b now =
     (if cb_state b = CLOSED then Ok b
      else if cb_state b = HALF_OPEN then Ok b
      else
        let elapsed = now - cb_last_failure_time b in
        if elapsed \<ge> cb_current_reset_timeout b then Ok (b\<lparr>cb_state := HALF_OPEN\<rparr>)
        else Raise CircuitBreakerOpen)"

definition retry_after :: "breaker \<Rightarrow> rat \<Rightarrow> rat" where
  "retry_after b now =
     (if cb_state b \<noteq> OPEN then 0
      else min (max (cb_current_reset_timeout b - (now - cb_last_failure_time b)) 0) 30)"

definition record_success :: "breaker \<Rightarrow> breaker" where
  "record_success b =
     b\<lparr>cb_failure_count := 0, cb_state := CLOSED, cb_current_reset_timeout := cb_base_reset_timeout b\<rparr>"

definition record_failure :: "breaker \<Rightarrow> error_class \<Rightarrow> rat \<Rightarrow> breaker" where
  "record_failure b error_class now =
     (if error_class = ERROR_CLASS_INPUT_TOO_LARGE then b
      else
        let b = b\<lparr>cb_failure_count := cb_failure_count b + 1, cb_last_failure_time := now\<rparr> in
        if cb_state b = HALF_OPEN then
          b\<lparr>cb_state := OPEN,
            cb_current_reset_timeout := min (cb_current_reset_timeout b * 2) (cb_max_reset_timeout b)\<rparr>
        else if error_class \<in> {ERROR_CLASS_PERMANENT, ERROR_CLASS_AUTH, ERROR_CLASS_QUOTA_EXCEEDED} then
          b\<lparr>cb_state := OPEN, cb_current_reset_timeout := cb_base_reset_timeout b\<rparr>
        else if cb_failure_count b \<ge> cb_failure_threshold b then
          b\<lparr>cb_state := OPEN, cb_current_reset_timeout := cb_base_reset_timeout b\<rparr>
        else b)"

section \<open>Reachable states\<close>

inductive breaker_step :: "breaker \<times> rat \<Rightarrow> breaker \<times> rat \<Rightarrow> bool" where
  tick: "t \<le> t' \<Longrightarrow> breaker_step (b, t) (b, t')"
| pass: "check b t = Ok b' \<Longrightarrow> breaker_step (b, t) (b', t)"
| blocked: "check b t = Raise CircuitBreakerOpen \<Longrightarrow> breaker_step (b, t) (b, t)"
| success: "breaker_step (b, t) (record_success b, t)"
| failure: "breaker_step (b, t) (record_failure b c t, t)"

inductive_cases breaker_stepE: "breaker_step (b, t) (b', t')"

definition breaker_config :: "breaker \<Rightarrow> int \<times> rat \<times> rat" where
  "breaker_config b = (cb_failure_threshold b, cb_base_reset_timeout b, cb_max_reset_timeout b)"

definition breaker_inv :: "breaker \<times> rat \<Rightarrow> bool" where
  "breaker_inv bt \<longleftrightarrow> (case bt of (b, t) \<Rightarrow>
     min (cb_base_reset_timeout b) (cb_max_reset_timeout b) \<le> cb_current_reset_timeout b \<and>
     cb_current_reset_timeout b \<le> max (cb_base_reset_timeout b) (cb_max_reset_timeout b) \<and>
     0 \<le> cb_failure_count b \<and> cb_last_failure_time b \<le> t \<and>
     (cb_state b = CLOSED \<longrightarrow> cb_failure_count b < max 1 (cb_failure_threshold b) \<and>
        cb_current_reset_timeout b = cb_base_reset_timeout b) \<and>
     (cb_state b \<noteq> CLOSED \<longrightarrow> 0 < cb_failure_count b))"

lemma check_cases:
  assumes "check b t = Ok b'"
  shows "b' = b \<and> cb_state b \<noteq> OPEN \<or>
    b' = b\<lparr>cb_state := HALF_OPEN\<rparr> \<and> cb_state b = OPEN \<and> cb_current_reset_timeout b \<le> t - cb_last_failure_time b"
  using assms by (cases "cb_state b") (auto simp: check_def Let_def split: if_splits)

lemma breaker_step_config: "breaker_step bt bt' \<Longrightarrow> breaker_config (fst bt') = breaker_config (fst bt)"
  by (induction rule: breaker_step.induct)
     (auto simp: breaker_config_def record_success_def record_failure_def Let_def dest: check_cases)

lemma record_failure_inv:
  assumes "breaker_inv (b, t)" and "0 \<le> cb_base_reset_timeout b" and "0 \<le> cb_max_reset_timeout b"
  shows "breaker_inv (record_failure b c t, t)"
proof (cases "c = ERROR_CLASS_INPUT_TOO_LARGE")
  case False
  have "0 \<le> cb_current_reset_timeout b" using assms unfolding breaker_inv_def by auto
  then have "min (cb_base_reset_timeout b) (cb_max_reset_timeout b) \<le> min (cb_current_reset_timeout b * 2) (cb_max_reset_timeout b)"
    using assms(1) unfolding breaker_inv_def by auto
  then show ?thesis
    using assms False unfolding breaker_inv_def record_failure_def Let_def by (cases "cb_state b") auto
qed (use assms in \<open>simp add: record_failure_def\<close>)

lemma breaker_step_inv:
  assumes "breaker_step bt bt'" and "breaker_inv bt"
    and "0 \<le> cb_base_reset_timeout (fst bt)" and "0 \<le> cb_max_reset_timeout (fst bt)"
  shows "breaker_inv bt'"
  using assms
proof (induction rule: breaker_step.induct)
  case (pass b t b')
  then show ?case using check_cases [OF pass(1)] by (auto simp: breaker_inv_def)
next
  case (failure b t c)
  then show ?case by (intro record_failure_inv) simp_all
qed (auto simp: breaker_inv_def record_success_def)

lemma breaker_reachable_inv:
  assumes "breaker_step\<^sup>*\<^sup>* (CircuitBreaker n r m, t0) bt" and "0 \<le> t0" and "0 \<le> r" and "\<And>x. m = Some x \<Longrightarrow> 0 \<le> x"
  shows "breaker_inv bt \<and> breaker_config (fst bt) = (n, r, case m of None \<Rightarrow> r | Some x \<Rightarrow> x)"
  using assms(1)
proof (induction rule: rtranclp_induct)
  case base
  show ?case using assms(2) by (auto simp: breaker_inv_def CircuitBreaker_def breaker_config_def split: option.split)
next
  case (step bt bt')
  then have "breaker_config (fst bt') = (n, r, case m of None \<Rightarrow> r | Some x \<Rightarrow> x)"
    using breaker_step_config by metis
  moreover have "breaker_inv bt'"
    using breaker_step_inv [OF step(2)] step(3) assms(3,4) by (auto simp: breaker_config_def split: option.splits)
  ultimately show ?case by simp
qed

section \<open>Backoff\<close>

text \<open>One failed probe: the timeout has elapsed, a request is let through, and it fails.\<close>

definition failed_probe :: "breaker \<Rightarrow> rat \<Rightarrow> breaker" where
  "failed_probe b now =
     (case check b now of Inr b' \<Rightarrow> record_failure b' ERROR_CLASS_TRANSIENT now | Inl _ \<Rightarrow> b)"

fun failed_probes :: "breaker \<Rightarrow> rat list \<Rightarrow> breaker" where
  "failed_probes b [] = b"
| "failed_probes b (t # ts) = failed_probes (failed_probe b t) ts"

text \<open>The clock readings are late enough for each check to find the timeout elapsed.\<close>

fun probes_due :: "breaker \<Rightarrow> rat list \<Rightarrow> bool" where
  "probes_due b [] = True"
| "probes_due b (t # ts) =
     (t - cb_last_failure_time b \<ge> cb_current_reset_timeout b \<and> probes_due (failed_probe b t) ts)"

lemma failed_probe_open:
  assumes "cb_state b = OPEN" and "t - cb_last_failure_time b \<ge> cb_current_reset_timeout b"
  shows "cb_state (failed_probe b t) = OPEN \<and>
    cb_current_reset_timeout (failed_probe b t) = min (cb_current_reset_timeout b * 2) (cb_max_reset_timeout b) \<and>
    cb_max_reset_timeout (failed_probe b t) = cb_max_reset_timeout b"
  using assms by (simp add: failed_probe_def check_def record_failure_def Let_def)

lemma failed_probes_timeout:
  assumes "cb_state b = OPEN" and "probes_due b ts" and "0 \<le> cb_current_reset_timeout b"
    and "cb_current_reset_timeout b \<le> cb_max_reset_timeout b"
  shows "cb_state (failed_probes b ts) = OPEN \<and>
    cb_current_reset_timeout (failed_probes b ts) = min (cb_current_reset_timeout b * 2 ^ length ts) (cb_max_reset_timeout b)"
  using assms
proof (induction ts arbitrary: b)
  case (Cons t ts)
  define c m where "c = cb_current_reset_timeout b" and "m = cb_max_reset_timeout b"
  have due: "t - cb_last_failure_time b \<ge> cb_current_reset_timeout b" using Cons.prems(2) by simp
  note fp = failed_probe_open [OF Cons.prems(1) due]
  have cm: "0 \<le> c" "c \<le> m" using Cons.prems(3,4) by (simp_all add: c_def m_def)
  have le: "0 \<le> min (c * 2) m" "min (c * 2) m \<le> m" using cm by auto
  have one: "1 \<le> (2 :: rat) ^ length ts" by simp
  have "min (min (c * 2) m * 2 ^ length ts) m = min (c * 2 * 2 ^ length ts) m"
  proof (cases "c * 2 \<le> m")
    case False
    then have "m \<le> m * 2 ^ length ts" "m \<le> c * 2 * 2 ^ length ts"
      using cm mult_left_mono [OF one, of m] mult_left_mono [OF one, of "c * 2"] by linarith+
    then show ?thesis using False by simp
  qed simp
  then show ?case
    using Cons.IH [of "failed_probe b t"] fp Cons.prems(2) le
    by (simp add: c_def [symmetric] m_def [symmetric] mult.assoc)
qed simp

section \<open>Properties\<close>

text \<open>
  In every reachable state of a breaker, under any interleaving of checks, successes, failures and
  the passing of time: the reset timeout stays between the base and the maximum, a closed breaker has fewer failures
  than the threshold and the base timeout, and an open or half-open one has recorded a failure.
\<close>

theorem breaker_reachable_ok:
  assumes "breaker_step\<^sup>*\<^sup>* (CircuitBreaker n r (Some m), t0) (b, t)" and "0 \<le> t0" and "0 \<le> r" and "r \<le> m" and "1 \<le> n"
  shows "r \<le> cb_current_reset_timeout b \<and> cb_current_reset_timeout b \<le> m \<and> 0 \<le> cb_failure_count b \<and>
     cb_last_failure_time b \<le> t \<and>
     (case cb_state b of
        CLOSED \<Rightarrow> cb_failure_count b < n \<and> cb_current_reset_timeout b = r
      | _ \<Rightarrow> 0 < cb_failure_count b)"
proof -
  have "breaker_inv (b, t) \<and> breaker_config b = (n, r, m)"
    using breaker_reachable_inv [OF assms(1-3)] assms(3,4) by auto
  then show ?thesis
    using assms(4,5) by (auto simp: breaker_inv_def breaker_config_def split: breaker_state.split)
qed

theorem breaker_reachable_ok_witness:
  "30 \<le> cb_current_reset_timeout (record_failure (CircuitBreaker 1 30 (Some 60)) ERROR_CLASS_TRANSIENT 4)"
proof -
  have "breaker_step\<^sup>*\<^sup>* (CircuitBreaker 1 30 (Some 60), 4) (record_failure (CircuitBreaker 1 30 (Some 60)) ERROR_CLASS_TRANSIENT 4, 4)"
    by (rule r_into_rtranclp) (rule breaker_step.failure)
  from breaker_reachable_ok [OF this] show ?thesis by simp
qed

text \<open>
  An open breaker blocks exactly until its timeout has elapsed since the last failure, and the
  advertised retry delay is zero exactly when a request would be let through.
\<close>

theorem open_breaker_blocks:
  assumes "cb_state b = OPEN"
  shows "(check b now = Raise CircuitBreakerOpen \<longleftrightarrow> now < cb_last_failure_time b + cb_current_reset_timeout b) \<and>
         (retry_after b now = 0 \<longleftrightarrow> (\<exists>b'. check b now = Ok b')) \<and> 0 \<le> retry_after b now \<and> retry_after b now \<le> 30"
  using assms by (auto simp: check_def retry_after_def Let_def min_def max_def split: if_splits)

theorem open_breaker_blocks_witness:
  "check (record_failure (CircuitBreaker 1 30 None) ERROR_CLASS_TRANSIENT 4) 33 = Raise CircuitBreakerOpen"
proof -
  let ?b = "record_failure (CircuitBreaker 1 30 None) ERROR_CLASS_TRANSIENT 4"
  have "cb_state ?b = OPEN" "cb_last_failure_time ?b = 4" "cb_current_reset_timeout ?b = 30"
    by (simp_all add: record_failure_def CircuitBreaker_def Let_def)
  then show ?thesis using open_breaker_blocks [of ?b 33] by simp
qed

text \<open>
  Failed probes back off exponentially: after \<open>k\<close> probes that each waited for the timeout and failed, the
  breaker is open with the timeout doubled \<open>k\<close> times, capped at the maximum.
\<close>

theorem breaker_backoff:
  assumes "cb_state b = OPEN" and "probes_due b ts" and "0 \<le> cb_current_reset_timeout b"
    and "cb_current_reset_timeout b \<le> cb_max_reset_timeout b"
  shows "cb_state (failed_probes b ts) = OPEN \<and>
    cb_current_reset_timeout (failed_probes b ts) = min (cb_current_reset_timeout b * 2 ^ length ts) (cb_max_reset_timeout b)"
  by (rule failed_probes_timeout [OF assms])

theorem breaker_backoff_witness:
  "cb_current_reset_timeout (failed_probes (record_failure (CircuitBreaker 1 30 (Some 100)) ERROR_CLASS_AUTH 0) [30, 90]) = 100"
proof -
  let ?b = "record_failure (CircuitBreaker 1 30 (Some 100)) ERROR_CLASS_AUTH 0"
  have "cb_state ?b = OPEN" "cb_current_reset_timeout ?b = 30" "cb_max_reset_timeout ?b = 100" "probes_due ?b [30, 90]"
    by (simp_all add: record_failure_def CircuitBreaker_def Let_def failed_probe_def check_def)
  then show ?thesis using breaker_backoff [of ?b "[30, 90]"] by simp
qed

text \<open>
  A half-open breaker lets every request through, not one probe: any number of checks in a row
  succeed and leave it half open until an outcome is recorded.
\<close>

theorem half_open_admits_all:
  assumes "cb_state b = HALF_OPEN"
  shows "fold_res (\<lambda>c now. check c now) b nows = Ok b"
  using assms by (induction nows) (simp_all add: check_def)

theorem half_open_admits_all_witness:
  "fold_res (\<lambda>c now. check c now) ((CircuitBreaker 1 30 None)\<lparr>cb_state := HALF_OPEN\<rparr>) [1, 1, 2] =
     Ok ((CircuitBreaker 1 30 None)\<lparr>cb_state := HALF_OPEN\<rparr>)"
  using half_open_admits_all [of "(CircuitBreaker 1 30 None)\<lparr>cb_state := HALF_OPEN\<rparr>" "[1, 1, 2]"] by simp

end
