(* ===== verification/Policies.thy ===== *)
theory Policies
  imports Prelude PyValue
begin

text \<open>
  \<^verbatim>\<open>openviking/session/auto_commit_policy.py\<close> and \<^verbatim>\<open>openviking/session/memory_policy.py\<close>: the
  two policies a session stores, parsed from a JSON value. The argument of \<^verbatim>\<open>from_dict\<close> is either
  an existing policy object (\<open>Inl\<close>) or a plain value (\<open>Inr\<close>).
\<close>

section \<open>Automatic commits\<close>

definition DEFAULT_PENDING_TOKEN_THRESHOLD :: int where "DEFAULT_PENDING_TOKEN_THRESHOLD = 150000"
definition DEFAULT_MESSAGE_COUNT_THRESHOLD :: int where "DEFAULT_MESSAGE_COUNT_THRESHOLD = 100"
definition DEFAULT_IDLE_TIMEOUT_SECONDS :: int where "DEFAULT_IDLE_TIMEOUT_SECONDS = 86400"
definition DEFAULT_KEEP_RECENT_COUNT :: int where "DEFAULT_KEEP_RECENT_COUNT = 0"
definition DEFAULT_MIN_COMMIT_INTERVAL_SECONDS :: int where "DEFAULT_MIN_COMMIT_INTERVAL_SECONDS = 0"
definition MAX_PENDING_TOKEN_THRESHOLD :: int where "MAX_PENDING_TOKEN_THRESHOLD = 1000000"
definition MAX_MESSAGE_COUNT_THRESHOLD :: int where "MAX_MESSAGE_COUNT_THRESHOLD = 1000"
definition MAX_IDLE_TIMEOUT_SECONDS :: int where "MAX_IDLE_TIMEOUT_SECONDS = 604800"

lemmas auto_commit_constants =
  DEFAULT_PENDING_TOKEN_THRESHOLD_def DEFAULT_MESSAGE_COUNT_THRESHOLD_def DEFAULT_IDLE_TIMEOUT_SECONDS_def
  DEFAULT_KEEP_RECENT_COUNT_def DEFAULT_MIN_COMMIT_INTERVAL_SECONDS_def MAX_PENDING_TOKEN_THRESHOLD_def
  MAX_MESSAGE_COUNT_THRESHOLD_def MAX_IDLE_TIMEOUT_SECONDS_def

definition AUTO_COMMIT_POLICY_KEYS :: "string set" where
  "AUTO_COMMIT_POLICY_KEYS =
     {''pending_token_threshold'', ''message_count_threshold'', ''idle_timeout_seconds'',
      ''keep_recent_count'', ''min_commit_interval_seconds''}"

text \<open>\<^verbatim>\<open>except (TypeError, ValueError)\<close> does not catch the \<open>OverflowError\<close> of an infinite float.\<close>

definition coerce_int :: "pyval \<Rightarrow> int \<Rightarrow> int \<Rightarrow> int res" where
  "coerce_int value minimum maximum =
     (case py_int value of
        Inl IntTypeError \<Rightarrow> Raise InvalidArgumentError
      | Inl IntValueError \<Rightarrow> Raise InvalidArgumentError
      | Inl IntOverflowError \<Rightarrow> Raise OverflowError
      | Inr parsed \<Rightarrow>
          let parsed = (if parsed < minimum then minimum else parsed);
              parsed = (if parsed > maximum then maximum else parsed)
          in Ok parsed)"

record auto_commit_policy =
  ac_pending_token_threshold :: int
  ac_message_count_threshold :: int
  ac_idle_timeout_seconds :: int
  ac_keep_recent_count :: int
  ac_min_commit_interval_seconds :: int

definition auto_commit_default :: auto_commit_policy where
  "auto_commit_default =
     \<lparr>ac_pending_token_threshold = DEFAULT_PENDING_TOKEN_THRESHOLD,
      ac_message_count_threshold = DEFAULT_MESSAGE_COUNT_THRESHOLD,
      ac_idle_timeout_seconds = DEFAULT_IDLE_TIMEOUT_SECONDS,
      ac_keep_recent_count = DEFAULT_KEEP_RECENT_COUNT,
      ac_min_commit_interval_seconds = DEFAULT_MIN_COMMIT_INTERVAL_SECONDS\<rparr>"

definition auto_commit_fields :: "pydict \<Rightarrow> auto_commit_policy res" where
  "auto_commit_fields data =
     res_bind (coerce_int (dict_get_default data ''pending_token_threshold''
         (PInt (ac_pending_token_threshold auto_commit_default))) 0 MAX_PENDING_TOKEN_THRESHOLD) (\<lambda>p.
     res_bind (coerce_int (dict_get_default data ''message_count_threshold''
         (PInt (ac_message_count_threshold auto_commit_default))) 0 MAX_MESSAGE_COUNT_THRESHOLD) (\<lambda>m.
     res_bind (coerce_int (dict_get_default data ''idle_timeout_seconds''
         (PInt (ac_idle_timeout_seconds auto_commit_default))) 0 MAX_IDLE_TIMEOUT_SECONDS) (\<lambda>i.
     res_bind (coerce_int (dict_get_default data ''keep_recent_count''
         (PInt (ac_keep_recent_count auto_commit_default))) 0 MAX_MESSAGE_COUNT_THRESHOLD) (\<lambda>k.
     res_bind (coerce_int (dict_get_default data ''min_commit_interval_seconds''
         (PInt (ac_min_commit_interval_seconds auto_commit_default))) 0 MAX_IDLE_TIMEOUT_SECONDS) (\<lambda>c.
     Ok \<lparr>ac_pending_token_threshold = p, ac_message_count_threshold = m, ac_idle_timeout_seconds = i,
         ac_keep_recent_count = k, ac_min_commit_interval_seconds = c\<rparr>)))))"

fun auto_commit_from_dict :: "auto_commit_policy + pyval \<Rightarrow> auto_commit_policy res" where
  "auto_commit_from_dict (Inr PNone) = Ok auto_commit_default"
| "auto_commit_from_dict (Inl p) = Ok p"
| "auto_commit_from_dict (Inr (PDict data)) =
     (if set (map fst data) - AUTO_COMMIT_POLICY_KEYS \<noteq> {} then Raise InvalidArgumentError
      else auto_commit_fields data)"
| "auto_commit_from_dict (Inr _) = Raise InvalidArgumentError"

definition auto_commit_to_dict :: "auto_commit_policy \<Rightarrow> pydict" where
  "auto_commit_to_dict p =
     [(''pending_token_threshold'', PInt (ac_pending_token_threshold p)),
      (''message_count_threshold'', PInt (ac_message_count_threshold p)),
      (''idle_timeout_seconds'', PInt (ac_idle_timeout_seconds p)),
      (''keep_recent_count'', PInt (ac_keep_recent_count p)),
      (''min_commit_interval_seconds'', PInt (ac_min_commit_interval_seconds p))]"

definition auto_commit_ok :: "auto_commit_policy \<Rightarrow> bool" where
  "auto_commit_ok p \<longleftrightarrow>
     0 \<le> ac_pending_token_threshold p \<and> ac_pending_token_threshold p \<le> MAX_PENDING_TOKEN_THRESHOLD \<and>
     0 \<le> ac_message_count_threshold p \<and> ac_message_count_threshold p \<le> MAX_MESSAGE_COUNT_THRESHOLD \<and>
     0 \<le> ac_idle_timeout_seconds p \<and> ac_idle_timeout_seconds p \<le> MAX_IDLE_TIMEOUT_SECONDS \<and>
     0 \<le> ac_keep_recent_count p \<and> ac_keep_recent_count p \<le> MAX_MESSAGE_COUNT_THRESHOLD \<and>
     0 \<le> ac_min_commit_interval_seconds p \<and> ac_min_commit_interval_seconds p \<le> MAX_IDLE_TIMEOUT_SECONDS"

section \<open>Memory extraction\<close>

definition EXPERIENCE_MEMORY_TYPE :: string where "EXPERIENCE_MEMORY_TYPE = ''experiences''"

definition AGENT_EVOLUTION_MEMORY_TYPES :: "string set" where
  "AGENT_EVOLUTION_MEMORY_TYPES = {''cases'', ''trajectories'', ''experiences''}"

definition MEMORY_POLICY_KEYS :: "string set" where
  "MEMORY_POLICY_KEYS = {''self'', ''peer'', ''memory_types'', ''working_memory''}"

definition TARGET_KEYS :: "string set" where
  "TARGET_KEYS = {''enabled''}"

definition TRUE_STRINGS :: "string set" where
  "TRUE_STRINGS = {''1'', ''true'', ''yes'', ''on''}"

definition FALSE_STRINGS :: "string set" where
  "FALSE_STRINGS = {'''', ''0'', ''false'', ''no'', ''off''}"

text \<open>\<^verbatim>\<open>casefold\<close> is lower-casing on ASCII; no other character of the model folds to a string over
  the letters of the two sets.\<close>

fun parse_enabled :: "pyval \<Rightarrow> bool" where
  "parse_enabled (PBool b) = b"
| "parse_enabled (PStr s) =
     (let normalized = py_lower (strip_space s) in
      if normalized \<in> TRUE_STRINGS then True
      else if normalized \<in> FALSE_STRINGS then False
      else py_bool (PStr s))"
| "parse_enabled v = py_bool v"

fun target_enabled :: "pyval \<Rightarrow> bool \<Rightarrow> bool res" where
  "target_enabled PNone default_enabled = Ok default_enabled"
| "target_enabled (PDict data) default_enabled =
     (if set (map fst data) - TARGET_KEYS \<noteq> {} then Raise InvalidArgumentError
      else case map_of data ''enabled'' of
             None \<Rightarrow> Ok default_enabled
           | Some v \<Rightarrow> Ok (parse_enabled v))"
| "target_enabled _ default_enabled = Raise InvalidArgumentError"

fun memory_type_items :: "string set \<Rightarrow> pyval list \<Rightarrow> string set res" where
  "memory_type_items acc [] = Ok acc"
| "memory_type_items acc (PStr s # items) =
     (if s = [] then Raise InvalidArgumentError else memory_type_items (insert s acc) items)"
| "memory_type_items acc (_ # items) = Raise InvalidArgumentError"

definition close_memory_types :: "string set \<Rightarrow> string set" where
  "close_memory_types types =
     (if EXPERIENCE_MEMORY_TYPE \<in> types then types \<union> AGENT_EVOLUTION_MEMORY_TYPES
      else types - AGENT_EVOLUTION_MEMORY_TYPES)"

fun parse_memory_types :: "pyval \<Rightarrow> string set option res" where
  "parse_memory_types PNone = Ok None"
| "parse_memory_types (PList items) =
     res_bind (memory_type_items {} items) (\<lambda>types. Ok (Some (close_memory_types types)))"
| "parse_memory_types _ = Raise InvalidArgumentError"

record memory_policy =
  mp_self_enabled :: bool
  mp_peer_enabled :: bool
  mp_memory_types :: "string set option"
  mp_working_memory_enabled :: bool

definition memory_policy_default :: memory_policy where
  "memory_policy_default =
     \<lparr>mp_self_enabled = True, mp_peer_enabled = True, mp_memory_types = None, mp_working_memory_enabled = True\<rparr>"

fun memory_policy_from_dict :: "memory_policy + pyval \<Rightarrow> memory_policy res" where
  "memory_policy_from_dict (Inr PNone) = Ok memory_policy_default"
| "memory_policy_from_dict (Inl p) = Ok p"
| "memory_policy_from_dict (Inr (PDict data)) =
     (if set (map fst data) - MEMORY_POLICY_KEYS \<noteq> {} then Raise InvalidArgumentError
      else
        res_bind (target_enabled (dict_get data ''self'') True) (\<lambda>self.
        res_bind (target_enabled (dict_get data ''peer'') True) (\<lambda>peer.
        res_bind (parse_memory_types (dict_get data ''memory_types'')) (\<lambda>types.
        res_bind (target_enabled (dict_get data ''working_memory'') True) (\<lambda>working.
        Ok \<lparr>mp_self_enabled = self, mp_peer_enabled = peer, mp_memory_types = types,
            mp_working_memory_enabled = working\<rparr>)))))"
| "memory_policy_from_dict (Inr _) = Raise InvalidArgumentError"

definition validate_memory_types :: "memory_policy \<Rightarrow> string set \<Rightarrow> unit res" where
  "validate_memory_types p known_memory_types =
     (case mp_memory_types p of
        None \<Rightarrow> Ok ()
      | Some types \<Rightarrow> if types - known_memory_types \<noteq> {} then Raise InvalidArgumentError else Ok ())"

definition memory_policy_to_dict :: "memory_policy \<Rightarrow> pydict" where
  "memory_policy_to_dict p =
     [(''self'', PDict [(''enabled'', PBool (mp_self_enabled p))]),
      (''peer'', PDict [(''enabled'', PBool (mp_peer_enabled p))])] @
     (if \<not> mp_working_memory_enabled p then [(''working_memory'', PDict [(''enabled'', PBool False)])] else []) @
     (case mp_memory_types p of
        None \<Rightarrow> []
      | Some types \<Rightarrow> [(''memory_types'', PList (map PStr (sorted_list_of_set types)))])"

definition memory_policy_ok :: "memory_policy \<Rightarrow> bool" where
  "memory_policy_ok p \<longleftrightarrow>
     (case mp_memory_types p of
        None \<Rightarrow> True
      | Some types \<Rightarrow> finite types \<and> [] \<notin> types \<and> close_memory_types types = types)"

section \<open>Lemmas\<close>

lemma coerce_int_bounds:
  "coerce_int v lo hi = Ok n \<Longrightarrow> lo \<le> hi \<Longrightarrow> lo \<le> n \<and> n \<le> hi"
  by (auto simp: coerce_int_def Let_def split: sum.splits int_error.splits if_splits)

lemma coerce_int_PInt [simp]: "lo \<le> n \<Longrightarrow> n \<le> hi \<Longrightarrow> coerce_int (PInt n) lo hi = Ok n"
  by (simp add: coerce_int_def)

lemma coerce_int_error: "coerce_int v lo hi = Raise e \<Longrightarrow> e = InvalidArgumentError \<or> v = PFloat Infinite"
proof (induction v rule: py_int.induct)
  case (5)
  then show ?case by simp
qed (auto simp: coerce_int_def Let_def split: sum.splits if_splits)

lemma auto_commit_default_ok: "auto_commit_ok auto_commit_default"
  by (simp add: auto_commit_ok_def auto_commit_default_def auto_commit_constants)

lemma auto_commit_from_dict_ok:
  assumes "auto_commit_from_dict (Inr v) = Ok p"
  shows "auto_commit_ok p"
proof -
  have max: "0 \<le> MAX_PENDING_TOKEN_THRESHOLD" "0 \<le> MAX_MESSAGE_COUNT_THRESHOLD" "0 \<le> MAX_IDLE_TIMEOUT_SECONDS"
    by (simp_all add: auto_commit_constants)
  show ?thesis
  proof (cases v)
    case (PDict data)
    then show ?thesis
      using assms coerce_int_bounds [OF _ max(1)] coerce_int_bounds [OF _ max(2)] coerce_int_bounds [OF _ max(3)]
      by (auto simp: auto_commit_fields_def auto_commit_ok_def res_bind_Ok_iff split: if_splits)
  qed (use assms auto_commit_default_ok in auto)
qed

lemma auto_commit_roundtrip_aux:
  assumes "auto_commit_ok p"
  shows "auto_commit_from_dict (Inr (PDict (auto_commit_to_dict p))) = Ok p"
  using assms
  by (simp add: auto_commit_to_dict_def auto_commit_fields_def AUTO_COMMIT_POLICY_KEYS_def dict_get_default_def auto_commit_ok_def)

lemma close_idem [simp]: "close_memory_types (close_memory_types t) = close_memory_types t"
  by (auto simp: close_memory_types_def AGENT_EVOLUTION_MEMORY_TYPES_def EXPERIENCE_MEMORY_TYPE_def)

lemma close_finite [simp]: "finite (close_memory_types t) \<longleftrightarrow> finite t"
  by (simp add: close_memory_types_def AGENT_EVOLUTION_MEMORY_TYPES_def)

lemma close_empty [simp]: "[] \<in> close_memory_types t \<longleftrightarrow> [] \<in> t"
  by (simp add: close_memory_types_def AGENT_EVOLUTION_MEMORY_TYPES_def)

lemma memory_type_items_ok:
  "memory_type_items acc items = Ok ts \<Longrightarrow> finite acc \<Longrightarrow> [] \<notin> acc \<Longrightarrow> finite ts \<and> [] \<notin> ts"
  by (induction acc items rule: memory_type_items.induct) (auto split: if_splits)

lemma memory_type_items_strings:
  "[] \<notin> set ss \<Longrightarrow> memory_type_items acc (map PStr ss) = Ok (acc \<union> set ss)"
  by (induction ss arbitrary: acc) auto

lemma memory_policy_from_dict_ok:
  assumes "memory_policy_from_dict (Inr v) = Ok p"
  shows "memory_policy_ok p"
proof (cases v)
  case (PDict data)
  then have t: "parse_memory_types (dict_get data ''memory_types'') = Ok (mp_memory_types p)"
    using assms by (auto simp: res_bind_Ok_iff split: if_splits)
  show ?thesis
  proof (cases "dict_get data ''memory_types''")
    case (PList items)
    with t obtain ts where "memory_type_items {} items = Ok ts" "mp_memory_types p = Some (close_memory_types ts)"
      by (auto simp: res_bind_Ok_iff)
    then show ?thesis using memory_type_items_ok [of "{}" items ts] by (simp add: memory_policy_ok_def)
  qed (use t in \<open>auto simp: memory_policy_ok_def split: option.split\<close>)
qed (use assms in \<open>auto simp: memory_policy_default_def memory_policy_ok_def\<close>)

lemma memory_policy_roundtrip_aux:
  assumes "memory_policy_ok p"
  shows "memory_policy_from_dict (Inr (PDict (memory_policy_to_dict p))) = Ok p"
  using assms
  by (cases p; cases "mp_memory_types p")
     (auto simp: memory_policy_to_dict_def MEMORY_POLICY_KEYS_def TARGET_KEYS_def dict_get_def memory_policy_ok_def memory_type_items_strings)

section \<open>Properties\<close>

text \<open>
  A parsed automatic-commit policy is within the documented bounds and is written and read back
  unchanged; parsing fails only with \<^verbatim>\<open>InvalidArgumentError\<close> as long as no field is an infinite float.
\<close>

theorem auto_commit_policy_bounds:
  assumes "auto_commit_from_dict (Inr v) = Ok p"
  shows "auto_commit_ok p \<and> auto_commit_from_dict (Inr (PDict (auto_commit_to_dict p))) = Ok p"
  using auto_commit_from_dict_ok [OF assms] auto_commit_roundtrip_aux by blast

theorem auto_commit_policy_bounds_witness:
  "\<exists>p. auto_commit_from_dict (Inr (PDict [(''keep_recent_count'', PInt 5000)])) = Ok p \<and> auto_commit_ok p \<and> ac_keep_recent_count p = 1000"
proof -
  let ?p = "auto_commit_default\<lparr>ac_keep_recent_count := 1000\<rparr>"
  have "auto_commit_from_dict (Inr (PDict [(''keep_recent_count'', PInt 5000)])) = Ok ?p" by code_simp
  from this auto_commit_policy_bounds [OF this] show ?thesis by auto
qed

text \<open>
  A parsed memory policy survives the round trip through its dictionary: the set of memory types
  is closed (experiences bring cases and trajectories along, and without them these are dropped), so parsing again
  changes nothing.
\<close>

theorem memory_policy_roundtrip:
  assumes "memory_policy_from_dict (Inr v) = Ok p"
  shows "memory_policy_from_dict (Inr (PDict (memory_policy_to_dict p))) = Ok p"
  by (rule memory_policy_roundtrip_aux [OF memory_policy_from_dict_ok [OF assms]])

theorem memory_policy_roundtrip_witness:
  "\<exists>p. memory_policy_from_dict (Inr (PDict [(''memory_types'', PList [PStr ''experiences'', PStr ''events''])])) = Ok p \<and>
     memory_policy_from_dict (Inr (PDict (memory_policy_to_dict p))) = Ok p"
proof -
  let ?p = "\<lparr>mp_self_enabled = True, mp_peer_enabled = True,
     mp_memory_types = Some {''cases'', ''trajectories'', ''experiences'', ''events''}, mp_working_memory_enabled = True\<rparr>"
  have "memory_policy_from_dict (Inr (PDict [(''memory_types'', PList [PStr ''experiences'', PStr ''events''])])) = Ok ?p"
    by code_simp
  from this memory_policy_roundtrip [OF this] show ?thesis by blast
qed

text \<open>
  An infinite float escapes the conversion: \<^verbatim>\<open>int\<close> raises \<^verbatim>\<open>OverflowError\<close>, which the handler
  for \<^verbatim>\<open>TypeError\<close> and \<^verbatim>\<open>ValueError\<close> does not turn into \<^verbatim>\<open>InvalidArgumentError\<close>; it is the only value that does.
\<close>

theorem coerce_int_overflow:
  "coerce_int v lo hi = Raise OverflowError \<longleftrightarrow> v = PFloat Infinite"
  using coerce_int_error [of v lo hi OverflowError] by (auto simp: coerce_int_def)

end
