(* ===== verification/Leases.thy ===== *)
theory Leases
  imports Namespace
begin

text \<open>
  \<^verbatim>\<open>openviking/resource/uri_mutation_coordinator.py\<close>: leases on URI scopes within one process.

  \<^item> A lease object is compared by identity (\<^verbatim>\<open>eq=False\<close>, \<^verbatim>\<open>current is lease\<close>), so it carries \<open>le_obj\<close>.
  \<^item> The body of \<^verbatim>\<open>_acquire\<close> after each wake-up and the body of \<^verbatim>\<open>_release\<close> run under the
    condition's lock: each is one atomic step. A waiting task changes nothing; it takes its step
    when \<open>has_blocker\<close> is false. \<open>coord_step\<close> is the interleaving of any number of tasks.
\<close>

section \<open>The coordinator\<close>

definition normalize_uri :: "string \<Rightarrow> string" where
  "normalize_uri uri = py_rstrip is_slash uri"

definition normalize_uris :: "string option list \<Rightarrow> string list" where
  "normalize_uris uris =
     sorted_list_of_set (normalize_uri ` the ` set (filter truthy_opt uris))"

definition uri_matches_prefix :: "string option \<Rightarrow> string \<Rightarrow> bool" where
  "uri_matches_prefix uri p =
     (if \<not> truthy_opt uri then False
      else
        let normalized_uri = normalize_uri (the uri);
            normalized_prefix = normalize_uri p
        in normalized_uri = normalized_prefix \<or> py_startswith normalized_uri (normalized_prefix @ ''/''))"

definition uris_overlap :: "string list \<Rightarrow> string list \<Rightarrow> bool" where
  "uris_overlap left right =
     list_ex (\<lambda>left_uri. list_ex (\<lambda>right_uri.
       uri_matches_prefix (Some left_uri) right_uri \<or> uri_matches_prefix (Some right_uri) left_uri) right) left"

record uri_lease =
  le_obj :: nat
  le_account_id :: string
  le_uris :: "string list"

definition lease_overlaps :: "uri_lease \<Rightarrow> uri_lease \<Rightarrow> bool" where
  "lease_overlaps self other \<longleftrightarrow>
     le_account_id self = le_account_id other \<and> uris_overlap (le_uris self) (le_uris other)"

record coordinator =
  active_accesses :: "uri_lease list"
  active_mutations :: "uri_lease list"

definition UriMutationCoordinator :: coordinator where
  "UriMutationCoordinator = \<lparr>active_accesses = [], active_mutations = []\<rparr>"

definition active_leases :: "coordinator \<Rightarrow> bool \<Rightarrow> uri_lease list" where
  "active_leases c mutation = (if mutation then active_mutations c else active_accesses c)"

definition set_active_leases :: "coordinator \<Rightarrow> bool \<Rightarrow> uri_lease list \<Rightarrow> coordinator" where
  "set_active_leases c mutation ls =
     (if mutation then c\<lparr>active_mutations := ls\<rparr> else c\<lparr>active_accesses := ls\<rparr>)"

definition has_blocker :: "coordinator \<Rightarrow> uri_lease \<Rightarrow> bool \<Rightarrow> bool" where
  "has_blocker c lease mutation =
     (if list_ex (\<lambda>active. lease_overlaps lease active) (active_mutations c) then True
      else mutation \<and> list_ex (\<lambda>active. lease_overlaps lease active) (active_accesses c))"

text \<open>One turn of the loop of \<^verbatim>\<open>_acquire\<close>: \<open>None\<close> when the task goes back to waiting.\<close>

definition try_acquire :: "coordinator \<Rightarrow> uri_lease \<Rightarrow> bool \<Rightarrow> coordinator option" where
  "try_acquire c lease mutation =
     (if has_blocker c lease mutation then None
      else Some (set_active_leases c mutation (active_leases c mutation @ [lease])))"

fun remove_lease :: "uri_lease \<Rightarrow> uri_lease list \<Rightarrow> uri_lease list" where
  "remove_lease lease [] = []"
| "remove_lease lease (current # active) =
     (if le_obj current = le_obj lease then active else current # remove_lease lease active)"

definition release_lease :: "coordinator \<Rightarrow> uri_lease \<Rightarrow> bool \<Rightarrow> coordinator" where
  "release_lease c lease mutation =
     set_active_leases c mutation (remove_lease lease (active_leases c mutation))"

text \<open>\<^verbatim>\<open>access\<close> and \<^verbatim>\<open>mutation\<close> build a fresh lease object for the normalised URIs.\<close>

definition new_lease :: "nat \<Rightarrow> string \<Rightarrow> string option list \<Rightarrow> uri_lease" where
  "new_lease obj account_id uris =
     \<lparr>le_obj = obj, le_account_id = account_id, le_uris = normalize_uris uris\<rparr>"

inductive coord_step :: "coordinator \<Rightarrow> coordinator \<Rightarrow> bool" where
  acquire: "obj \<notin> le_obj ` set (active_accesses c @ active_mutations c) \<Longrightarrow>
            try_acquire c (new_lease obj account uris) mutation = Some c' \<Longrightarrow> coord_step c c'"
| release: "coord_step c (release_lease c lease mutation)"

section \<open>Overlap is a prefix of path segments\<close>

lemma split_prefix_iff:
  "prefix (py_split (CHR ''/'') p) (py_split (CHR ''/'') u) \<longleftrightarrow> u = p \<or> prefix (p @ ''/'') u"
proof
  assume "prefix (py_split (CHR ''/'') p) (py_split (CHR ''/'') u)"
  then obtain rest where r: "py_split (CHR ''/'') u = py_split (CHR ''/'') p @ rest" by (auto simp: prefix_def)
  have u: "u = py_join ''/'' (py_split (CHR ''/'') u)" and p: "p = py_join ''/'' (py_split (CHR ''/'') p)"
    by (simp_all add: py_join_split)
  show "u = p \<or> prefix (p @ ''/'') u"
  proof (cases "rest = []")
    case True
    then show ?thesis using u p r by simp
  next
    case False
    then have "py_join ''/'' (py_split (CHR ''/'') p @ rest) = py_join ''/'' (py_split (CHR ''/'') p) @ ''/'' @ py_join ''/'' rest"
      by (intro py_join_append) auto
    then show ?thesis using u p r by (metis append_assoc prefixI)
  qed
next
  assume "u = p \<or> prefix (p @ ''/'') u"
  then show "prefix (py_split (CHR ''/'') p) (py_split (CHR ''/'') u)"
    by (auto simp: prefix_def py_split_append)
qed

lemma uri_matches_prefix_iff:
  "uri_matches_prefix (Some u) p \<longleftrightarrow>
     u \<noteq> [] \<and> prefix (py_split (CHR ''/'') (normalize_uri p)) (py_split (CHR ''/'') (normalize_uri u))"
  by (auto simp: uri_matches_prefix_def Let_def split_prefix_iff py_startswith_iff_prefix)

section \<open>Exclusion\<close>

lemma lease_overlaps_sym: "lease_overlaps a b \<longleftrightarrow> lease_overlaps b a"
  by (auto simp: lease_overlaps_def uris_overlap_def list_ex_iff)

definition lease_ok :: "uri_lease \<Rightarrow> bool" where
  "lease_ok l \<longleftrightarrow> list_all (\<lambda>u. normalize_uri u = u) (le_uris l)"

definition coord_inv :: "coordinator \<Rightarrow> bool" where
  "coord_inv c \<longleftrightarrow>
     distinct (map le_obj (active_accesses c @ active_mutations c)) \<and>
     list_all lease_ok (active_accesses c @ active_mutations c) \<and>
     list_all (\<lambda>m. list_all (\<lambda>a. \<not> lease_overlaps m a) (active_accesses c)) (active_mutations c) \<and>
     sorted_wrt (\<lambda>l m. \<not> lease_overlaps l m) (active_mutations c)"

lemma normalize_uri_idem [simp]: "normalize_uri (normalize_uri u) = normalize_uri u"
  by (simp add: normalize_uri_def)

lemma new_lease_ok: "lease_ok (new_lease obj account uris)"
  by (auto simp: lease_ok_def new_lease_def normalize_uris_def list_all_iff)

lemma set_remove_lease: "set (remove_lease l ls) \<subseteq> set ls"
  by (induction ls) auto

lemma sorted_wrt_remove_lease: "sorted_wrt P ls \<Longrightarrow> sorted_wrt P (remove_lease l ls)"
  by (induction ls) (auto dest: set_remove_lease [THEN subsetD])

lemma distinct_remove_lease: "distinct (map le_obj ls) \<Longrightarrow> distinct (map le_obj (remove_lease l ls))"
  by (induction ls) (auto dest!: set_remove_lease [THEN subsetD])

lemma coord_step_inv:
  assumes "coord_step c c'" and "coord_inv c"
  shows "coord_inv c'"
  using assms
proof (induction rule: coord_step.induct)
  case (acquire obj c account uris mutation c')
  then have c': "\<not> has_blocker c (new_lease obj account uris) mutation"
    "c' = set_active_leases c mutation (active_leases c mutation @ [new_lease obj account uris])"
    by (auto simp: try_acquire_def split: if_splits)
  have obj: "le_obj (new_lease obj account uris) = obj" by (simp add: new_lease_def)
  show ?case
    using acquire.hyps(1) acquire.prems c' new_lease_ok [of obj account uris] obj lease_overlaps_sym
    by (cases mutation)
       (auto simp: coord_inv_def has_blocker_def set_active_leases_def active_leases_def list_all_iff list_ex_iff
          sorted_wrt_append split: if_splits)
next
  case (release c lease mutation)
  then show ?case
    using sorted_wrt_remove_lease [of _ "active_mutations c" lease]
      distinct_remove_lease [of "active_accesses c" lease] distinct_remove_lease [of "active_mutations c" lease]
    by (cases mutation)
       (fastforce simp: coord_inv_def release_lease_def set_active_leases_def active_leases_def list_all_iff
          dest: set_remove_lease [THEN subsetD])+
qed

lemma coord_reachable_inv: "coord_step\<^sup>*\<^sup>* UriMutationCoordinator c \<Longrightarrow> coord_inv c"
proof (induction rule: rtranclp_induct)
  case base
  show ?case by (simp add: coord_inv_def UriMutationCoordinator_def)
qed (rule coord_step_inv)

lemma mutation_no_overlap:
  assumes "coord_inv c" and "m \<in> set (active_mutations c)" and "l \<in> set (active_accesses c @ active_mutations c)"
    and "le_obj l \<noteq> le_obj m"
  shows "\<not> lease_overlaps m l"
proof (cases "l \<in> set (active_accesses c)")
  case True
  then show ?thesis using assms by (auto simp: coord_inv_def list_all_iff)
next
  case False
  then have "l \<in> set (active_mutations c)" using assms(3) by simp
  then obtain i j where ij: "i < length (active_mutations c)" "active_mutations c ! i = m"
    "j < length (active_mutations c)" "active_mutations c ! j = l"
    using assms(2) by (metis in_set_conv_nth)
  then have "i \<noteq> j" using assms(4) by auto
  moreover have "sorted_wrt (\<lambda>l m. \<not> lease_overlaps l m) (active_mutations c)" using assms(1) by (simp add: coord_inv_def)
  ultimately show ?thesis
    using ij lease_overlaps_sym by (metis linorder_neqE_nat sorted_wrt_iff_nth_less)
qed

section \<open>Properties\<close>

text \<open>
  URI mutations are exclusive: in every reachable state, under any interleaving of tasks, no URI held by a
  mutation lease equals, contains or lies below a URI of another active lease of the same account, path segment by
  path segment (a sibling that shares a textual prefix does not conflict).
\<close>

theorem mutation_leases_exclusive:
  assumes "coord_step\<^sup>*\<^sup>* UriMutationCoordinator c" and "m \<in> set (active_mutations c)"
    and "l \<in> set (active_accesses c @ active_mutations c)" and "le_obj l \<noteq> le_obj m"
    and "le_account_id l = le_account_id m" and "u \<in> set (le_uris m)" and "v \<in> set (le_uris l)" and "u \<noteq> [] \<or> v \<noteq> []"
  shows "\<not> prefix (py_split (CHR ''/'') u) (py_split (CHR ''/'') v) \<and> \<not> prefix (py_split (CHR ''/'') v) (py_split (CHR ''/'') u)"
proof -
  have inv: "coord_inv c" by (rule coord_reachable_inv [OF assms(1)])
  have "lease_ok m" "lease_ok l" using inv assms(2,3) by (auto simp: coord_inv_def list_all_iff)
  then have n: "normalize_uri u = u" "normalize_uri v = v" using assms(6,7) by (simp_all add: lease_ok_def list_all_iff)
  have "\<not> lease_overlaps m l" by (rule mutation_no_overlap [OF inv assms(2-4)])
  then have "\<not> uri_matches_prefix (Some u) v" "\<not> uri_matches_prefix (Some v) u"
    using assms(5-7) by (auto simp: lease_overlaps_def uris_overlap_def list_ex_iff)
  then show ?thesis using assms(8) unfolding uri_matches_prefix_iff n by (auto simp: split_prefix_iff)
qed

theorem mutation_leases_exclusive_witness:
  "\<exists>c. coord_step\<^sup>*\<^sup>* UriMutationCoordinator c \<and> length (active_mutations c) = 2 \<and>
     \<not> prefix (py_split (CHR ''/'') ''viking://a'') (py_split (CHR ''/'') ''viking://ab'')"
proof -
  let ?l1 = "new_lease 1 ''acme'' [Some ''viking://a/'']" and ?l2 = "new_lease 2 ''acme'' [None, Some ''viking://ab'']"
  let ?c1 = "\<lparr>active_accesses = [], active_mutations = [?l1]\<rparr>" and ?c2 = "\<lparr>active_accesses = [], active_mutations = [?l1, ?l2]\<rparr>"
  have t: "try_acquire UriMutationCoordinator ?l1 True = Some ?c1" "try_acquire ?c1 ?l2 True = Some ?c2"
    "le_uris ?l1 = [''viking://a'']" "le_uris ?l2 = [''viking://ab'']" by code_simp+
  have o: "le_obj ?l1 = 1" "le_obj ?l2 = 2" "le_account_id ?l1 = ''acme''" "le_account_id ?l2 = ''acme''"
    by (simp_all add: new_lease_def)
  have "coord_step UriMutationCoordinator ?c1"
    by (rule coord_step.acquire [OF _ t(1)]) (simp add: UriMutationCoordinator_def)
  moreover have "coord_step ?c1 ?c2" by (rule coord_step.acquire [OF _ t(2)]) (simp add: new_lease_def)
  ultimately have r: "coord_step\<^sup>*\<^sup>* UriMutationCoordinator ?c2" by (meson converse_rtranclp_into_rtranclp r_into_rtranclp)
  show ?thesis
    using r mutation_leases_exclusive [OF r, of ?l1 ?l2 "''viking://a''" "''viking://ab''"] t(3,4) o by auto
qed

end
