(* ===== verification/Lock_Pool.thy ===== *)
theory Lock_Pool
  imports Prelude
begin

text \<open>
  The concurrency primitives of \<^verbatim>\<open>openviking/service/task_tracker_concurrency.py\<close> that keep state:
  \<^verbatim>\<open>StoreIOLimiter\<close> and \<^verbatim>\<open>KeyedAsyncLockPool\<close>. Tasks of one event loop interleave at awaits
  only, so the code between two awaits is one step:

  \<^item> \<open>pool_enter\<close> is \<^verbatim>\<open>acquire\<close> up to the await of the lock, \<open>lock_acquire\<close> its completion,
    \<open>pool_exit\<close> the \<^verbatim>\<open>finally\<close> block, which also runs when a waiting task is cancelled;
  \<^item> an \<^verbatim>\<open>asyncio.Lock\<close> is its holder; any waiting task may get a free lock (the FIFO order of
    waiters is not used);
  \<^item> lock entries are objects compared by identity: \<open>lp_entries\<close> maps a key to the object, and a task
    remembers the object it got even after the map changed.
\<close>

section \<open>Bounded store operations\<close>

record limiter =
  li_max_concurrent :: int
  li_semaphore :: int
  li_inflight :: int
  li_max_observed_inflight :: int

definition StoreIOLimiter :: "int \<Rightarrow> limiter res" where
  "StoreIOLimiter max_concurrent =
     (if max_concurrent \<le> 0 then Raise ValueError
      else Ok \<lparr>li_max_concurrent = max_concurrent, li_semaphore = max_concurrent, li_inflight = 0,
               li_max_observed_inflight = 0\<rparr>)"

text \<open>Entering \<^verbatim>\<open>async with self._semaphore\<close> needs a free permit; a task without one waits.\<close>

definition limiter_start :: "limiter \<Rightarrow> limiter option" where
  "limiter_start l =
     (if li_semaphore l \<le> 0 then None
      else
        let l = l\<lparr>li_semaphore := li_semaphore l - 1, li_inflight := li_inflight l + 1\<rparr>
        in Some (l\<lparr>li_max_observed_inflight := max (li_max_observed_inflight l) (li_inflight l)\<rparr>))"

definition limiter_finish :: "limiter \<Rightarrow> limiter" where
  "limiter_finish l = l\<lparr>li_inflight := li_inflight l - 1, li_semaphore := li_semaphore l + 1\<rparr>"

datatype limiter_op = LimiterStart | LimiterFinish

fun limiter_step :: "limiter \<Rightarrow> limiter_op \<Rightarrow> limiter" where
  "limiter_step l LimiterStart = (case limiter_start l of None \<Rightarrow> l | Some l' \<Rightarrow> l')"
| "limiter_step l LimiterFinish = limiter_finish l"

text \<open>Only a running operation finishes.\<close>

fun limiter_enabled :: "limiter \<Rightarrow> limiter_op \<Rightarrow> bool" where
  "limiter_enabled l LimiterStart = True"
| "limiter_enabled l LimiterFinish = (li_inflight l > 0)"

definition limiter_inv :: "limiter \<Rightarrow> bool" where
  "limiter_inv l \<longleftrightarrow> 0 \<le> li_semaphore l \<and> li_semaphore l + li_inflight l = li_max_concurrent l \<and> 0 \<le> li_inflight l \<and>
     li_inflight l \<le> li_max_observed_inflight l \<and> li_max_observed_inflight l \<le> li_max_concurrent l"

interpretation lim: guarded_machine limiter_step limiter_enabled limiter_inv
proof unfold_locales
  fix l op assume "limiter_inv l" "limiter_enabled l op"
  then show "limiter_inv (limiter_step l op)"
    by (cases op) (auto simp: limiter_inv_def limiter_start_def limiter_finish_def Let_def)
qed

lemma limiter_step_max: "li_max_concurrent (limiter_step l op) = li_max_concurrent l"
  by (cases op) (auto simp: limiter_start_def limiter_finish_def Let_def)

section \<open>Locks by key\<close>

record pool_task =
  pt_key :: string
  pt_entry :: nat
  pt_acquired :: bool

record lock_pool =
  lp_entries :: "string \<rightharpoonup> nat"
  lp_users :: "nat \<Rightarrow> int"
  lp_holder :: "nat \<Rightarrow> nat option"
  lp_tasks :: "nat \<rightharpoonup> pool_task"
  lp_next :: nat

definition KeyedAsyncLockPool :: lock_pool where
  "KeyedAsyncLockPool =
     \<lparr>lp_entries = Map.empty, lp_users = (\<lambda>_. 0), lp_holder = (\<lambda>_. None), lp_tasks = Map.empty, lp_next = 0\<rparr>"

definition pool_enter :: "lock_pool \<Rightarrow> nat \<Rightarrow> string \<Rightarrow> lock_pool" where
  "pool_enter p task key =
     (let (p, entry) =
        (case lp_entries p key of
           Some entry \<Rightarrow> (p, entry)
         | None \<Rightarrow>
             (p\<lparr>lp_entries := (lp_entries p)(key \<mapsto> lp_next p), lp_users := (lp_users p)(lp_next p := 0),
                lp_holder := (lp_holder p)(lp_next p := None), lp_next := Suc (lp_next p)\<rparr>, lp_next p))
      in p\<lparr>lp_users := (lp_users p)(entry := lp_users p entry + 1),
           lp_tasks := (lp_tasks p)(task \<mapsto> \<lparr>pt_key = key, pt_entry = entry, pt_acquired = False\<rparr>)\<rparr>)"

definition lock_acquire :: "lock_pool \<Rightarrow> nat \<Rightarrow> lock_pool option" where
  "lock_acquire p task =
     (case lp_tasks p task of
        None \<Rightarrow> None
      | Some t \<Rightarrow>
          if pt_acquired t \<or> lp_holder p (pt_entry t) \<noteq> None then None
          else Some (p\<lparr>lp_holder := (lp_holder p)(pt_entry t := Some task),
                       lp_tasks := (lp_tasks p)(task \<mapsto> t\<lparr>pt_acquired := True\<rparr>)\<rparr>))"

definition pool_exit :: "lock_pool \<Rightarrow> nat \<Rightarrow> lock_pool" where
  "pool_exit p task =
     (case lp_tasks p task of
        None \<Rightarrow> p
      | Some t \<Rightarrow>
          let entry = pt_entry t;
              p = (if pt_acquired t then p\<lparr>lp_holder := (lp_holder p)(entry := None)\<rparr> else p);
              p = p\<lparr>lp_users := (lp_users p)(entry := lp_users p entry - 1)\<rparr>;
              p = (if lp_users p entry = 0 \<and> lp_entries p (pt_key t) = Some entry
                   then p\<lparr>lp_entries := (lp_entries p)(pt_key t := None)\<rparr> else p)
          in p\<lparr>lp_tasks := (lp_tasks p)(task := None)\<rparr>)"

definition entry_keys :: "lock_pool \<Rightarrow> string set" where
  "entry_keys p = dom (lp_entries p)"

inductive pool_step :: "lock_pool \<Rightarrow> lock_pool \<Rightarrow> bool" where
  enter: "lp_tasks p task = None \<Longrightarrow> pool_step p (pool_enter p task key)"
| acquire: "lock_acquire p task = Some p' \<Longrightarrow> pool_step p p'"
| leave: "pool_step p (pool_exit p task)"

section \<open>The invariant\<close>

definition users_of :: "lock_pool \<Rightarrow> nat \<Rightarrow> nat set" where
  "users_of p e = {task. \<exists>t. lp_tasks p task = Some t \<and> pt_entry t = e}"

definition pool_inv :: "lock_pool \<Rightarrow> bool" where
  "pool_inv p \<longleftrightarrow>
     finite (dom (lp_tasks p)) \<and>
     (\<forall>task t. lp_tasks p task = Some t \<longrightarrow> lp_entries p (pt_key t) = Some (pt_entry t)) \<and>
     (\<forall>task t. lp_tasks p task = Some t \<longrightarrow> (pt_acquired t \<longleftrightarrow> lp_holder p (pt_entry t) = Some task)) \<and>
     (\<forall>k e. lp_entries p k = Some e \<longrightarrow> e < lp_next p \<and> lp_users p e = int (card (users_of p e)) \<and> users_of p e \<noteq> {}) \<and>
     (\<forall>k k' e. lp_entries p k = Some e \<longrightarrow> lp_entries p k' = Some e \<longrightarrow> k = k') \<and>
     (\<forall>k e task. lp_entries p k = Some e \<longrightarrow> lp_holder p e = Some task \<longrightarrow> task \<in> users_of p e)"

lemma pool_invD:
  assumes "pool_inv p"
  shows "finite (dom (lp_tasks p))"
    and "lp_tasks p task = Some t \<Longrightarrow> lp_entries p (pt_key t) = Some (pt_entry t)"
    and "lp_tasks p task = Some t \<Longrightarrow> pt_acquired t \<longleftrightarrow> lp_holder p (pt_entry t) = Some task"
    and "lp_entries p k = Some e \<Longrightarrow> e < lp_next p \<and> lp_users p e = int (card (users_of p e)) \<and> users_of p e \<noteq> {}"
    and "lp_entries p k = Some e \<Longrightarrow> lp_entries p k' = Some e \<Longrightarrow> k = k'"
    and "lp_entries p k = Some e \<Longrightarrow> lp_holder p e = Some task \<Longrightarrow> task \<in> users_of p e"
  using assms by (auto simp: pool_inv_def)

lemma finite_users: "pool_inv p \<Longrightarrow> finite (users_of p e)"
  by (rule finite_subset [OF _ pool_invD(1)]) (auto simp: users_of_def)

lemma acquire_inv:
  assumes inv: "pool_inv p" and acq: "lock_acquire p task = Some p'"
  shows "pool_inv p'"
proof -
  obtain t where t: "lp_tasks p task = Some t" "\<not> pt_acquired t" "lp_holder p (pt_entry t) = None"
    and p': "p' = p\<lparr>lp_holder := (lp_holder p)(pt_entry t := Some task), lp_tasks := (lp_tasks p)(task \<mapsto> t\<lparr>pt_acquired := True\<rparr>)\<rparr>"
    using acq by (auto simp: lock_acquire_def split: option.splits if_splits)
  have u: "users_of p' e = users_of p e" for e using t(1) by (auto simp: users_of_def p')
  have "pt_acquired s \<longleftrightarrow> lp_holder p' (pt_entry s) = Some task'" if "lp_tasks p' task' = Some s" for task' s
    using that pool_invD(3) [OF inv, of task' s] t by (auto simp: p' split: if_splits)
  moreover have "task' \<in> users_of p e" if "lp_entries p k = Some e" "lp_holder p' e = Some task'" for k e task'
    using that pool_invD(6) [OF inv that(1)] t(1) by (auto simp: p' users_of_def split: if_splits)
  ultimately show ?thesis
    using inv t(1) unfolding pool_inv_def u by (auto simp: p' split: if_splits)
qed

lemma enter_new_inv:
  assumes inv: "pool_inv p" and new: "lp_tasks p task = None" and none: "lp_entries p key = None"
  shows "pool_inv (pool_enter p task key)"
proof -
  define q where "q = pool_enter p task key"
  let ?e = "lp_next p"
  have q: "lp_entries q = (lp_entries p)(key \<mapsto> ?e)" "lp_users q = (lp_users p)(?e := 1)"
    "lp_holder q = (lp_holder p)(?e := None)" "lp_next q = Suc ?e"
    "lp_tasks q = (lp_tasks p)(task \<mapsto> \<lparr>pt_key = key, pt_entry = ?e, pt_acquired = False\<rparr>)"
    by (simp_all add: q_def pool_enter_def none)
  have old: "pt_entry t \<noteq> ?e \<and> pt_key t \<noteq> key" if "lp_tasks p task' = Some t" for task' t
    using pool_invD(2) [OF inv that] pool_invD(4) [OF inv] none by fastforce
  have u: "users_of q e = (if e = ?e then {task} else users_of p e)" for e
    using new old by (auto simp: users_of_def q)
  show ?thesis
    unfolding q_def [symmetric] pool_inv_def
  proof (intro conjI allI impI)
    show "finite (dom (lp_tasks q))" using pool_invD(1) [OF inv] by (simp add: q)
  next
    fix task' t assume a: "lp_tasks q task' = Some t"
    show "lp_entries q (pt_key t) = Some (pt_entry t)"
      using a old pool_invD(2) [OF inv] by (fastforce simp: q split: if_splits)
    show "pt_acquired t \<longleftrightarrow> lp_holder q (pt_entry t) = Some task'"
      using a old pool_invD(3) [OF inv] by (fastforce simp: q split: if_splits)
  next
    fix k e assume a: "lp_entries q k = Some e"
    then have "e < lp_next q \<and> lp_users q e = int (card (users_of q e)) \<and> users_of q e \<noteq> {}"
      using pool_invD(4) [OF inv] unfolding u by (fastforce simp: q split: if_splits)
    then show "e < lp_next q" "lp_users q e = int (card (users_of q e))" "users_of q e \<noteq> {}" by blast+
    fix task' assume "lp_holder q e = Some task'"
    then show "task' \<in> users_of q e" using a pool_invD(6) [OF inv] unfolding u by (auto simp: q split: if_splits)
  next
    fix k k' e assume "lp_entries q k = Some e" "lp_entries q k' = Some e"
    then show "k = k'" using pool_invD(4,5) [OF inv] by (fastforce simp: q split: if_splits)
  qed
qed

lemma enter_old_inv:
  assumes inv: "pool_inv p" and new: "lp_tasks p task = None" and some: "lp_entries p key = Some e0"
  shows "pool_inv (pool_enter p task key)"
proof -
  define q where "q = pool_enter p task key"
  have q: "lp_entries q = lp_entries p" "lp_users q = (lp_users p)(e0 := lp_users p e0 + 1)"
    "lp_holder q = lp_holder p" "lp_next q = lp_next p"
    "lp_tasks q = (lp_tasks p)(task \<mapsto> \<lparr>pt_key = key, pt_entry = e0, pt_acquired = False\<rparr>)"
    by (simp_all add: q_def pool_enter_def some)
  have u: "users_of q e = (if e = e0 then insert task (users_of p e0) else users_of p e)" for e
    using new by (auto simp: users_of_def q)
  have nt: "task \<notin> users_of p e" for e using new by (simp add: users_of_def)
  have h: "lp_holder p e0 \<noteq> Some task" using pool_invD(6) [OF inv some] nt by blast
  show ?thesis
    unfolding q_def [symmetric] pool_inv_def
  proof (intro conjI allI impI)
    show "finite (dom (lp_tasks q))" using pool_invD(1) [OF inv] by (simp add: q)
  next
    fix task' t assume a: "lp_tasks q task' = Some t"
    show "lp_entries q (pt_key t) = Some (pt_entry t)"
      using a some pool_invD(2) [OF inv] by (auto simp: q split: if_splits)
    show "pt_acquired t \<longleftrightarrow> lp_holder q (pt_entry t) = Some task'"
      using a h pool_invD(3) [OF inv] by (auto simp: q split: if_splits)
  next
    fix k e assume a: "lp_entries q k = Some e"
    then have "e < lp_next q \<and> lp_users q e = int (card (users_of q e)) \<and> users_of q e \<noteq> {}"
      using pool_invD(4) [OF inv] nt finite_users [OF inv] unfolding u by (auto simp: q)
    then show "e < lp_next q" "lp_users q e = int (card (users_of q e))" "users_of q e \<noteq> {}" by blast+
    fix task' assume "lp_holder q e = Some task'"
    then show "task' \<in> users_of q e" using a pool_invD(6) [OF inv] unfolding u by (auto simp: q)
  next
    fix k k' e assume "lp_entries q k = Some e" "lp_entries q k' = Some e"
    then show "k = k'" using pool_invD(5) [OF inv] by (simp add: q)
  qed
qed

lemma exit_inv:
  assumes inv: "pool_inv p" and t: "lp_tasks p task = Some t"
  shows "pool_inv (pool_exit p task)"
proof -
  define q where "q = pool_exit p task"
  define e0 k0 where "e0 = pt_entry t" and "k0 = pt_key t"
  have ent: "lp_entries p k0 = Some e0" using pool_invD(2) [OF inv t] by (simp add: e0_def k0_def)
  have q: "lp_users q = (lp_users p)(e0 := lp_users p e0 - 1)" "lp_next q = lp_next p"
    "lp_holder q = (if pt_acquired t then (lp_holder p)(e0 := None) else lp_holder p)"
    "lp_tasks q = (lp_tasks p)(task := None)"
    "lp_entries q = (if lp_users p e0 = 1 then (lp_entries p)(k0 := None) else lp_entries p)"
    using ent t by (simp_all add: q_def pool_exit_def e0_def k0_def Let_def)
  have u: "users_of q e = users_of p e - {task}" for e by (auto simp: users_of_def q)
  have in0: "task \<in> users_of p e" if "e = e0" for e using t that by (simp add: users_of_def e0_def)
  have notin: "task \<notin> users_of p e" if "e \<noteq> e0" for e using t that by (simp add: users_of_def e0_def)
  note c0 = conjunct1 [OF conjunct2 [OF pool_invD(4) [OF inv ent]]]
  have single: "users_of p e0 = {task}" if "lp_users p e0 = 1"
  proof -
    have "card (users_of p e0) = 1" using that c0 by simp
    then obtain x where "users_of p e0 = {x}" by (rule card_1_singletonE)
    with in0 [OF refl] show ?thesis by simp
  qed
  have gone: "task' = task" if "lp_tasks p task' = Some s" "pt_entry s = e0" "lp_users p e0 = 1" for task' s
    using single [OF that(3)] that(1,2) by (auto simp: users_of_def)
  have entq: "lp_entries p k = Some e" if "lp_entries q k = Some e" for k e using that by (auto simp: q split: if_splits)
  have neq: "e \<noteq> e0 \<or> lp_users p e0 \<noteq> 1" if "lp_entries q k = Some e" for k e
  proof (rule ccontr)
    assume "\<not> (e \<noteq> e0 \<or> lp_users p e0 \<noteq> 1)"
    then have "lp_entries p k = Some e0" "k \<noteq> k0" using that by (auto simp: q split: if_splits)
    then show False using pool_invD(5) [OF inv ent] by blast
  qed
  show ?thesis
    unfolding q_def [symmetric] pool_inv_def
  proof (intro conjI allI impI)
    show "finite (dom (lp_tasks q))" using pool_invD(1) [OF inv] by (simp add: q)
  next
    fix task' s assume a: "lp_tasks q task' = Some s"
    then have a': "lp_tasks p task' = Some s" "task' \<noteq> task" by (auto simp: q split: if_splits)
    have "pt_key s \<noteq> k0 \<or> lp_users p e0 \<noteq> 1"
      using pool_invD(2) [OF inv a'(1)] ent gone [OF a'(1)] a'(2) by auto
    then show "lp_entries q (pt_key s) = Some (pt_entry s)"
      using pool_invD(2) [OF inv a'(1)] by (auto simp: q)
    show "pt_acquired s \<longleftrightarrow> lp_holder q (pt_entry s) = Some task'"
      using pool_invD(3) [OF inv a'(1)] pool_invD(3) [OF inv t] a'(2) by (auto simp: q e0_def)
  next
    fix k e assume a: "lp_entries q k = Some e"
    note d = pool_invD(4) [OF inv entq [OF a]]
    have "lp_users q e = int (card (users_of q e)) \<and> users_of q e \<noteq> {}"
    proof (cases "e = e0")
      case True
      then have two: "card (users_of p e0) \<noteq> 1" using neq [OF a] c0 by auto
      moreover have "card (users_of p e0) \<noteq> 0" using finite_users [OF inv] in0 [OF refl] by auto
      ultimately have "1 < card (users_of p e0)" by linarith
      moreover have "card (users_of p e0 - {task}) = card (users_of p e0) - 1" by (simp add: in0)
      ultimately have "int (card (users_of p e0 - {task})) = lp_users p e0 - 1" "card (users_of p e0 - {task}) \<noteq> 0"
        using c0 by simp_all
      moreover from this(2) have "users_of p e0 - {task} \<noteq> {}" by (metis card.empty)
      ultimately show ?thesis using True unfolding u by (simp add: q)
    next
      case False
      then show ?thesis using d notin [OF False] unfolding u by (simp add: q)
    qed
    then show "lp_users q e = int (card (users_of q e))" "users_of q e \<noteq> {}" by blast+
    show "e < lp_next q" using d by (simp add: q)
    fix task' assume "lp_holder q e = Some task'"
    then have h: "lp_holder p e = Some task'" "pt_acquired t \<Longrightarrow> e \<noteq> e0" by (auto simp: q split: if_splits)
    have "task' \<noteq> task"
    proof
      assume "task' = task"
      then have "e = e0" using pool_invD(6) [OF inv entq [OF a] h(1)] notin by blast
      then show False using h \<open>task' = task\<close> pool_invD(3) [OF inv t] by (simp add: e0_def)
    qed
    then show "task' \<in> users_of q e" using pool_invD(6) [OF inv entq [OF a] h(1)] by (simp add: u)
  next
    fix k k' e assume "lp_entries q k = Some e" "lp_entries q k' = Some e"
    then show "k = k'" using pool_invD(5) [OF inv] entq by blast
  qed
qed

lemma pool_step_inv: "pool_step p p' \<Longrightarrow> pool_inv p \<Longrightarrow> pool_inv p'"
proof (induction rule: pool_step.induct)
  case (enter p task key)
  then show ?case by (cases "lp_entries p key") (simp_all add: enter_new_inv enter_old_inv)
next
  case (acquire p task p')
  show ?case by (rule acquire_inv [OF acquire(2,1)])
next
  case (leave p task)
  show ?case
  proof (cases "lp_tasks p task")
    case None
    then show ?thesis using leave by (simp add: pool_exit_def)
  qed (rule exit_inv [OF leave])
qed

lemma pool_reachable_inv: "pool_step\<^sup>*\<^sup>* KeyedAsyncLockPool p \<Longrightarrow> pool_inv p"
proof (induction rule: rtranclp_induct)
  case base
  show ?case by (simp add: pool_inv_def KeyedAsyncLockPool_def)
qed (rule pool_step_inv)

section \<open>The abstract lock table\<close>

text \<open>What the pool promises: a table of locks by key, each free or held by one task.\<close>

definition holder_of :: "lock_pool \<Rightarrow> string \<Rightarrow> nat option" where
  "holder_of p k = (case lp_entries p k of None \<Rightarrow> None | Some e \<Rightarrow> lp_holder p e)"

inductive lock_table_step :: "(string \<Rightarrow> nat option) \<Rightarrow> (string \<Rightarrow> nat option) \<Rightarrow> bool" where
  lock: "h k = None \<Longrightarrow> lock_table_step h (h(k := Some task))"
| unlock: "h k = Some task \<Longrightarrow> lock_table_step h (h(k := None))"
| stutter: "lock_table_step h h"

lemma enter_holder:
  assumes "pool_inv p"
  shows "holder_of (pool_enter p task key) = holder_of p"
proof
  fix k
  have "lp_next p \<noteq> e" if "lp_entries p k = Some e" for e using pool_invD(4) [OF assms that] by blast
  then show "holder_of (pool_enter p task key) k = holder_of p k"
    by (cases "lp_entries p key") (auto simp: holder_of_def pool_enter_def split: option.split)
qed

lemma entry_neq: "pool_inv p \<Longrightarrow> lp_entries p k0 = Some e0 \<Longrightarrow> lp_entries p k = Some e \<Longrightarrow> k \<noteq> k0 \<Longrightarrow> e \<noteq> e0"
  using pool_invD(5) by blast

lemma acquire_holder:
  assumes inv: "pool_inv p" and acq: "lock_acquire p task = Some p'"
  shows "\<exists>k. holder_of p k = None \<and> holder_of p' = (holder_of p)(k := Some task)"
proof -
  obtain t where t: "lp_tasks p task = Some t" "lp_holder p (pt_entry t) = None"
    and p': "p' = p\<lparr>lp_holder := (lp_holder p)(pt_entry t := Some task), lp_tasks := (lp_tasks p)(task \<mapsto> t\<lparr>pt_acquired := True\<rparr>)\<rparr>"
    using acq by (auto simp: lock_acquire_def split: option.splits if_splits)
  note e = pool_invD(2) [OF inv t(1)]
  have "holder_of p' k = ((holder_of p)(pt_key t := Some task)) k" for k
    using e entry_neq [OF inv e, of k] by (cases "k = pt_key t"; cases "lp_entries p k") (simp_all add: holder_of_def p')
  then show ?thesis using e t(2) by (intro exI [of _ "pt_key t"]) (auto simp: holder_of_def)
qed

lemma exit_holder:
  assumes inv: "pool_inv p" and t: "lp_tasks p task = Some t"
  shows "holder_of (pool_exit p task) = (if pt_acquired t then (holder_of p)(pt_key t := None) else holder_of p)"
proof -
  note ent = pool_invD(2) [OF inv t]
  have free: "lp_holder p (pt_entry t) = None" if "\<not> pt_acquired t" "lp_users p (pt_entry t) = 1"
  proof (rule ccontr)
    assume "lp_holder p (pt_entry t) \<noteq> None"
    then obtain h where h: "lp_holder p (pt_entry t) = Some h" by blast
    have "card (users_of p (pt_entry t)) = 1" using pool_invD(4) [OF inv ent] that(2) by simp
    then obtain x where "users_of p (pt_entry t) = {x}" by (rule card_1_singletonE)
    moreover have "task \<in> users_of p (pt_entry t)" using t by (simp add: users_of_def)
    ultimately have "h = task" using pool_invD(6) [OF inv ent h] by simp
    then show False using pool_invD(3) [OF inv t] h that(1) by simp
  qed
  show ?thesis
  proof
    fix k
    show "holder_of (pool_exit p task) k = (if pt_acquired t then (holder_of p)(pt_key t := None) else holder_of p) k"
      using t ent free entry_neq [OF inv ent, of k]
      by (cases "k = pt_key t"; cases "lp_entries p k") (simp_all add: holder_of_def pool_exit_def Let_def)
  qed
qed

section \<open>Properties\<close>

text \<open>
  Work on one key is serialised and idle locks are not retained: in every reachable state, with tasks
  entering, waiting, being cancelled and leaving in any order, at most one task holds the lock of a key, although the
  lock object of a key is discarded and recreated over time, and the pool has an entry for exactly the keys in use.
\<close>

theorem lock_pool_serialises:
  assumes "pool_step\<^sup>*\<^sup>* KeyedAsyncLockPool p" and "lp_tasks p a = Some t" and "lp_tasks p b = Some s"
    and "pt_acquired t" and "pt_acquired s" and "pt_key t = pt_key s"
  shows "a = b \<and> entry_keys p = {k. \<exists>task t. lp_tasks p task = Some t \<and> pt_key t = k}"
proof -
  have inv: "pool_inv p" by (rule pool_reachable_inv [OF assms(1)])
  have "pt_entry t = pt_entry s"
    using pool_invD(2) [OF inv assms(2)] pool_invD(2) [OF inv assms(3)] assms(6) by simp
  then have "a = b"
    using pool_invD(3) [OF inv assms(2)] pool_invD(3) [OF inv assms(3)] assms(4,5) by simp
  moreover have "\<exists>task t. lp_tasks p task = Some t \<and> pt_key t = k" if e: "lp_entries p k = Some e" for k e
  proof -
    obtain task u where "lp_tasks p task = Some u" "pt_entry u = e"
      using pool_invD(4) [OF inv e] by (auto simp: users_of_def)
    then show ?thesis using pool_invD(2,5) [OF inv] e by metis
  qed
  ultimately show ?thesis using pool_invD(2) [OF inv] by (auto simp: entry_keys_def dom_def)
qed

theorem lock_pool_serialises_witness:
  "\<exists>p. pool_step\<^sup>*\<^sup>* KeyedAsyncLockPool p \<and> lp_tasks p 1 = Some \<lparr>pt_key = ''k'', pt_entry = 0, pt_acquired = True\<rparr> \<and>
     entry_keys p = {k. \<exists>task t. lp_tasks p task = Some t \<and> pt_key t = k}"
proof -
  let ?p1 = "pool_enter KeyedAsyncLockPool 1 ''k''"
  obtain p where p: "lock_acquire ?p1 1 = Some p"
    "lp_tasks p 1 = Some \<lparr>pt_key = ''k'', pt_entry = 0, pt_acquired = True\<rparr>"
    by (simp add: lock_acquire_def pool_enter_def KeyedAsyncLockPool_def)
  have "pool_step KeyedAsyncLockPool ?p1" by (rule pool_step.enter) (simp add: KeyedAsyncLockPool_def)
  moreover have "pool_step ?p1 p" by (rule pool_step.acquire [OF p(1)])
  ultimately have r: "pool_step\<^sup>*\<^sup>* KeyedAsyncLockPool p" by (meson converse_rtranclp_into_rtranclp r_into_rtranclp)
  show ?thesis using r p(2) lock_pool_serialises [OF r p(2) p(2)] by auto
qed

text \<open>
  The number of store operations in flight never exceeds the configured maximum, and the largest number
  observed is truthful: both hold after any sequence of starts (which wait when no permit is free) and completions.
\<close>

theorem limiter_bounded:
  assumes "StoreIOLimiter n = Ok l" and "run_enabled limiter_step limiter_enabled l ops"
  shows "li_inflight (foldl limiter_step l ops) \<le> n \<and> 0 \<le> li_inflight (foldl limiter_step l ops) \<and>
     li_inflight (foldl limiter_step l ops) \<le> li_max_observed_inflight (foldl limiter_step l ops) \<and>
     li_max_observed_inflight (foldl limiter_step l ops) \<le> n"
proof -
  have "limiter_inv l" "li_max_concurrent l = n"
    using assms(1) by (auto simp: StoreIOLimiter_def limiter_inv_def split: if_splits)
  moreover have "li_max_concurrent (foldl limiter_step l ops) = li_max_concurrent l" for l
    by (induction ops arbitrary: l) (simp_all add: limiter_step_max)
  ultimately show ?thesis using lim.inv_run [OF _ assms(2)] by (simp add: limiter_inv_def)
qed

theorem limiter_bounded_witness:
  "li_inflight (foldl limiter_step \<lparr>li_max_concurrent = 1, li_semaphore = 1, li_inflight = 0, li_max_observed_inflight = 0\<rparr>
     [LimiterStart, LimiterStart, LimiterFinish]) \<le> 1"
proof -
  let ?l = "\<lparr>li_max_concurrent = 1, li_semaphore = 1, li_inflight = 0, li_max_observed_inflight = 0\<rparr>"
  have "StoreIOLimiter 1 = Ok ?l" "run_enabled limiter_step limiter_enabled ?l [LimiterStart, LimiterStart, LimiterFinish]"
    by code_simp+
  from limiter_bounded [OF this] show ?thesis by simp
qed



end
