(* ===== verification/Wait_Tracker.thy ===== *)
theory Wait_Tracker
  imports Prelude Complex_Main
begin

text \<open>
  \<^verbatim>\<open>openviking/telemetry/request_wait_tracker.py\<close>: the tracker write requests wait on. Workers of
  the semantic and embedding queues report to it from other threads; every method takes its lock, so
  a method is one atomic step and a run is a list of operations in the order the lock was taken.
  The creation time of a state is never read and is left out. The waiting loop polls: \<open>finished k\<close>
  and \<open>clock k\<close> are what it sees at its \<open>k\<close>th turn.
\<close>

section \<open>The tracker\<close>

record wait_state =
  ws_pending_semantic_roots :: "string set"
  ws_pending_embedding_roots :: "string set"
  ws_semantic_processed :: int
  ws_semantic_requeue_count :: int
  ws_semantic_error_count :: int
  ws_semantic_errors :: "string list"
  ws_embedding_processed :: int
  ws_embedding_context_count :: int
  ws_embedding_requeue_count :: int
  ws_embedding_error_count :: int
  ws_embedding_errors :: "string list"

definition RequestWaitState :: wait_state where
  "RequestWaitState =
     \<lparr>ws_pending_semantic_roots = {}, ws_pending_embedding_roots = {}, ws_semantic_processed = 0,
      ws_semantic_requeue_count = 0, ws_semantic_error_count = 0, ws_semantic_errors = [],
      ws_embedding_processed = 0, ws_embedding_context_count = 0, ws_embedding_requeue_count = 0,
      ws_embedding_error_count = 0, ws_embedding_errors = []\<rparr>"

type_synonym wait_tracker = "string \<rightharpoonup> wait_state"

definition register_request :: "wait_tracker \<Rightarrow> string \<Rightarrow> wait_tracker" where
  "register_request tr telemetry_id =
     (if telemetry_id = [] then tr
      else case tr telemetry_id of
             None \<Rightarrow> tr(telemetry_id \<mapsto> RequestWaitState)
           | Some _ \<Rightarrow> tr)"

text \<open>The common shape of the methods: nothing happens for an empty id or a request that is not registered.\<close>

definition with_state :: "wait_tracker \<Rightarrow> string \<Rightarrow> (wait_state \<Rightarrow> wait_state) \<Rightarrow> wait_tracker" where
  "with_state tr telemetry_id f =
     (if telemetry_id = [] then tr
      else case tr telemetry_id of None \<Rightarrow> tr | Some s \<Rightarrow> tr(telemetry_id \<mapsto> f s))"

definition register_semantic_root :: "wait_tracker \<Rightarrow> string \<Rightarrow> string \<Rightarrow> wait_tracker" where
  "register_semantic_root tr telemetry_id root_id =
     (if telemetry_id = [] \<or> root_id = [] then tr
      else with_state tr telemetry_id
             (\<lambda>s. s\<lparr>ws_pending_semantic_roots := insert root_id (ws_pending_semantic_roots s)\<rparr>))"

definition register_embedding_root :: "wait_tracker \<Rightarrow> string \<Rightarrow> string \<Rightarrow> wait_tracker" where
  "register_embedding_root tr telemetry_id root_id =
     (if telemetry_id = [] \<or> root_id = [] then tr
      else with_state tr telemetry_id
             (\<lambda>s. s\<lparr>ws_pending_embedding_roots := insert root_id (ws_pending_embedding_roots s)\<rparr>))"

definition record_embedding_requeue :: "wait_tracker \<Rightarrow> string \<Rightarrow> int \<Rightarrow> wait_tracker" where
  "record_embedding_requeue tr telemetry_id delta =
     with_state tr telemetry_id (\<lambda>s. s\<lparr>ws_embedding_requeue_count := ws_embedding_requeue_count s + max delta 0\<rparr>)"

definition get_embedding_context_count :: "wait_tracker \<Rightarrow> string \<Rightarrow> int" where
  "get_embedding_context_count tr telemetry_id =
     (if telemetry_id = [] then 0
      else case tr telemetry_id of None \<Rightarrow> 0 | Some s \<Rightarrow> ws_embedding_context_count s)"

definition mark_semantic_done :: "wait_tracker \<Rightarrow> string \<Rightarrow> string \<Rightarrow> int \<Rightarrow> wait_tracker" where
  "mark_semantic_done tr telemetry_id root_id processed_delta =
     with_state tr telemetry_id
       (\<lambda>s. s\<lparr>ws_pending_semantic_roots := ws_pending_semantic_roots s - {root_id},
              ws_semantic_processed := ws_semantic_processed s + max processed_delta 0\<rparr>)"

definition record_semantic_requeue :: "wait_tracker \<Rightarrow> string \<Rightarrow> int \<Rightarrow> wait_tracker" where
  "record_semantic_requeue tr telemetry_id delta =
     with_state tr telemetry_id (\<lambda>s. s\<lparr>ws_semantic_requeue_count := ws_semantic_requeue_count s + max delta 0\<rparr>)"

definition mark_semantic_failed :: "wait_tracker \<Rightarrow> string \<Rightarrow> string \<Rightarrow> string \<Rightarrow> wait_tracker" where
  "mark_semantic_failed tr telemetry_id root_id message =
     with_state tr telemetry_id
       (\<lambda>s. s\<lparr>ws_pending_semantic_roots := ws_pending_semantic_roots s - {root_id},
              ws_semantic_error_count := ws_semantic_error_count s + 1,
              ws_semantic_errors := (if message \<noteq> [] then ws_semantic_errors s @ [message] else ws_semantic_errors s)\<rparr>)"

definition mark_embedding_done :: "wait_tracker \<Rightarrow> string \<Rightarrow> string \<Rightarrow> int \<Rightarrow> bool \<Rightarrow> wait_tracker" where
  "mark_embedding_done tr telemetry_id root_id processed_delta vector_written =
     with_state tr telemetry_id
       (\<lambda>s. let was_pending = root_id \<in> ws_pending_embedding_roots s;
                s = s\<lparr>ws_pending_embedding_roots := ws_pending_embedding_roots s - {root_id},
                      ws_embedding_processed := ws_embedding_processed s + max processed_delta 0\<rparr>
            in if vector_written \<and> was_pending
               then s\<lparr>ws_embedding_context_count := ws_embedding_context_count s + 1\<rparr> else s)"

definition mark_embedding_failed :: "wait_tracker \<Rightarrow> string \<Rightarrow> string \<Rightarrow> string \<Rightarrow> wait_tracker" where
  "mark_embedding_failed tr telemetry_id root_id message =
     with_state tr telemetry_id
       (\<lambda>s. s\<lparr>ws_pending_embedding_roots := ws_pending_embedding_roots s - {root_id},
              ws_embedding_error_count := ws_embedding_error_count s + 1,
              ws_embedding_errors := (if message \<noteq> [] then ws_embedding_errors s @ [message] else ws_embedding_errors s)\<rparr>)"

definition is_complete :: "wait_tracker \<Rightarrow> string \<Rightarrow> bool" where
  "is_complete tr telemetry_id =
     (if telemetry_id = [] then True
      else case tr telemetry_id of
             None \<Rightarrow> True
           | Some s \<Rightarrow> ws_pending_semantic_roots s = {} \<and> ws_pending_embedding_roots s = {})"

partial_function (option) wait_loop ::
    "(nat \<Rightarrow> bool) \<Rightarrow> (nat \<Rightarrow> rat) \<Rightarrow> rat \<Rightarrow> rat option \<Rightarrow> nat \<Rightarrow> unit res option" where
  "wait_loop finished clock start timeout k =
     (if finished k then Some (Ok ())
      else if timeout \<noteq> None \<and> clock k - start > the timeout then Some (Raise TimeoutError)
      else wait_loop finished clock start timeout (Suc k))"

definition wait_for_request ::
    "string \<Rightarrow> (nat \<Rightarrow> wait_tracker) \<Rightarrow> (nat \<Rightarrow> rat) \<Rightarrow> rat \<Rightarrow> rat option \<Rightarrow> unit res option" where
  "wait_for_request telemetry_id seen clock start timeout =
     (if telemetry_id = [] then Some (Ok ())
      else wait_loop (\<lambda>k. is_complete (seen k) telemetry_id) clock start timeout 0)"

record queue_status =
  qs_processed :: int
  qs_requeue_count :: int
  qs_error_count :: int
  qs_errors :: "string list"

definition build_queue_status :: "wait_tracker \<Rightarrow> string \<Rightarrow> queue_status \<times> queue_status" where
  "build_queue_status tr telemetry_id =
     (let s = (case tr telemetry_id of None \<Rightarrow> RequestWaitState | Some s \<Rightarrow> s)
      in (\<lparr>qs_processed = ws_semantic_processed s, qs_requeue_count = ws_semantic_requeue_count s,
           qs_error_count = ws_semantic_error_count s, qs_errors = ws_semantic_errors s\<rparr>,
          \<lparr>qs_processed = ws_embedding_processed s, qs_requeue_count = ws_embedding_requeue_count s,
           qs_error_count = ws_embedding_error_count s, qs_errors = ws_embedding_errors s\<rparr>))"

definition cleanup_request :: "wait_tracker \<Rightarrow> string \<Rightarrow> wait_tracker" where
  "cleanup_request tr telemetry_id = (if telemetry_id = [] then tr else tr(telemetry_id := None))"

section \<open>Runs\<close>

datatype wait_op =
    RegisterRequest string
  | RegisterSemantic string string
  | RegisterEmbedding string string
  | SemanticRequeue string int
  | EmbeddingRequeue string int
  | SemanticDone string string int
  | SemanticFailed string string string
  | EmbeddingDone string string int bool
  | EmbeddingFailed string string string
  | Cleanup string

fun wait_step :: "wait_tracker \<Rightarrow> wait_op \<Rightarrow> wait_tracker" where
  "wait_step tr (RegisterRequest i) = register_request tr i"
| "wait_step tr (RegisterSemantic i r) = register_semantic_root tr i r"
| "wait_step tr (RegisterEmbedding i r) = register_embedding_root tr i r"
| "wait_step tr (SemanticRequeue i d) = record_semantic_requeue tr i d"
| "wait_step tr (EmbeddingRequeue i d) = record_embedding_requeue tr i d"
| "wait_step tr (SemanticDone i r d) = mark_semantic_done tr i r d"
| "wait_step tr (SemanticFailed i r m) = mark_semantic_failed tr i r m"
| "wait_step tr (EmbeddingDone i r d w) = mark_embedding_done tr i r d w"
| "wait_step tr (EmbeddingFailed i r m) = mark_embedding_failed tr i r m"
| "wait_step tr (Cleanup i) = cleanup_request tr i"

fun op_id :: "wait_op \<Rightarrow> string" where
  "op_id (RegisterRequest i) = i"
| "op_id (RegisterSemantic i r) = i"
| "op_id (RegisterEmbedding i r) = i"
| "op_id (SemanticRequeue i d) = i"
| "op_id (EmbeddingRequeue i d) = i"
| "op_id (SemanticDone i r d) = i"
| "op_id (SemanticFailed i r m) = i"
| "op_id (EmbeddingDone i r d w) = i"
| "op_id (EmbeddingFailed i r m) = i"
| "op_id (Cleanup i) = i"

fun settles_semantic :: "string \<Rightarrow> string \<Rightarrow> wait_op \<Rightarrow> bool" where
  "settles_semantic i r (SemanticDone j q d) = (i = j \<and> r = q)"
| "settles_semantic i r (SemanticFailed j q m) = (i = j \<and> r = q)"
| "settles_semantic i r _ = False"

fun settles_embedding :: "string \<Rightarrow> string \<Rightarrow> wait_op \<Rightarrow> bool" where
  "settles_embedding i r (EmbeddingDone j q d w) = (i = j \<and> r = q)"
| "settles_embedding i r (EmbeddingFailed j q m) = (i = j \<and> r = q)"
| "settles_embedding i r _ = False"

lemmas wait_ops_defs =
  register_request_def with_state_def register_semantic_root_def register_embedding_root_def
  record_embedding_requeue_def mark_semantic_done_def record_semantic_requeue_def mark_semantic_failed_def
  mark_embedding_done_def mark_embedding_failed_def cleanup_request_def Let_def

lemma wait_step_frame: "op_id op \<noteq> i \<Longrightarrow> wait_step tr op i = tr i"
  by (cases op) (auto simp: wait_ops_defs split: option.split)

lemma wait_step_state:
  assumes "tr i = Some s" and "i \<noteq> []" and "op \<noteq> Cleanup i"
  shows "\<exists>s'. wait_step tr op i = Some s' \<and>
    ws_pending_semantic_roots s' =
      {r \<in> ws_pending_semantic_roots s. \<not> settles_semantic i r op} \<union> {r. op = RegisterSemantic i r \<and> r \<noteq> []} \<and>
    ws_pending_embedding_roots s' =
      {r \<in> ws_pending_embedding_roots s. \<not> settles_embedding i r op} \<union> {r. op = RegisterEmbedding i r \<and> r \<noteq> []} \<and>
    0 \<le> ws_embedding_context_count s' - ws_embedding_context_count s \<and>
    (ws_embedding_context_count s' = ws_embedding_context_count s \<or>
     ws_embedding_context_count s' = ws_embedding_context_count s + 1 \<and>
     (\<exists>r. r \<in> ws_pending_embedding_roots s \<and> settles_embedding i r op))"
proof (cases "op_id op = i")
  case False
  then have "wait_step tr op i = Some s" using wait_step_frame assms(1) by metis
  moreover have "\<not> settles_semantic i r op" "\<not> settles_embedding i r op" "op \<noteq> RegisterSemantic i r" "op \<noteq> RegisterEmbedding i r" for r
    using False by (cases op; auto)+
  ultimately show ?thesis by simp
next
  case True
  then show ?thesis using assms by (cases op) (auto simp: wait_ops_defs)
qed

text \<open>A root is open when it was registered, and no later operation of the run settles it.\<close>

definition unsettled_semantic :: "string \<Rightarrow> wait_op list \<Rightarrow> string \<Rightarrow> bool" where
  "unsettled_semantic i ops r \<longleftrightarrow>
     (\<exists>xs ys. ops = xs @ RegisterSemantic i r # ys \<and> r \<noteq> [] \<and> list_all (\<lambda>op. \<not> settles_semantic i r op) ys)"

definition unsettled_embedding :: "string \<Rightarrow> wait_op list \<Rightarrow> string \<Rightarrow> bool" where
  "unsettled_embedding i ops r \<longleftrightarrow>
     (\<exists>xs ys. ops = xs @ RegisterEmbedding i r # ys \<and> r \<noteq> [] \<and> list_all (\<lambda>op. \<not> settles_embedding i r op) ys)"

lemma unsettled_Nil [simp]: "\<not> unsettled_semantic i [] r" "\<not> unsettled_embedding i [] r"
  by (simp_all add: unsettled_semantic_def unsettled_embedding_def)

lemma split_snoc_iff:
  "(\<exists>xs ys. ops @ [op] = xs @ a # ys \<and> P \<and> list_all Q ys) \<longleftrightarrow>
     (\<exists>xs ys. ops = xs @ a # ys \<and> P \<and> list_all Q ys) \<and> Q op \<or> (op = a \<and> P)"
  (is "?l = ?r")
proof
  assume ?l
  then obtain xs ys where *: "ops @ [op] = xs @ a # ys" "P" "list_all Q ys" by blast
  show ?r
  proof (cases ys rule: rev_cases)
    case Nil
    then show ?thesis using * by simp
  next
    case (snoc zs z)
    then show ?thesis using * by auto
  qed
next
  assume ?r
  then show ?l
  proof (elim disjE conjE exE)
    fix xs ys assume "ops = xs @ a # ys" "P" "list_all Q ys" "Q op"
    then have "ops @ [op] = xs @ a # (ys @ [op]) \<and> P \<and> list_all Q (ys @ [op])" by simp
    then show ?l by blast
  next
    assume "op = a" "P"
    then have "ops @ [op] = ops @ a # [] \<and> P \<and> list_all Q []" by simp
    then show ?l by blast
  qed
qed

lemma unsettled_snoc:
  "unsettled_semantic i (ops @ [op]) r \<longleftrightarrow>
     unsettled_semantic i ops r \<and> \<not> settles_semantic i r op \<or> op = RegisterSemantic i r \<and> r \<noteq> []"
  "unsettled_embedding i (ops @ [op]) r \<longleftrightarrow>
     unsettled_embedding i ops r \<and> \<not> settles_embedding i r op \<or> op = RegisterEmbedding i r \<and> r \<noteq> []"
  unfolding unsettled_semantic_def unsettled_embedding_def split_snoc_iff by blast+

fun is_embedding_registration :: "string \<Rightarrow> wait_op \<Rightarrow> bool" where
  "is_embedding_registration i (RegisterEmbedding j r) = (i = j)"
| "is_embedding_registration i _ = False"

lemma registered_finite:
  "finite {r. op = RegisterEmbedding i r \<and> r \<noteq> []}"
  "card {r. op = RegisterEmbedding i r \<and> r \<noteq> []} \<le> (if is_embedding_registration i op then 1 else 0)"
proof -
  let ?N = "{r. op = RegisterEmbedding i r \<and> r \<noteq> []}"
  obtain A where A: "?N \<subseteq> A" "finite A" "card A = (if is_embedding_registration i op then 1 else 0)"
  proof (cases "is_embedding_registration i op")
    case True
    then obtain q where "op = RegisterEmbedding i q" by (cases op) auto
    then show ?thesis by (intro that [of "{q}"]) auto
  next
    case False
    then have "?N = {}" by auto
    then show ?thesis using False by (intro that [of "{}"]) simp_all
  qed
  show "finite ?N" by (rule finite_subset [OF A(1,2)])
  show "card ?N \<le> (if is_embedding_registration i op then 1 else 0)" using card_mono [OF A(2,1)] A(3) by simp
qed

text \<open>Every counted context uses up a pending root.\<close>

lemma context_step:
  assumes "tr i = Some s" and "i \<noteq> []" and "op \<noteq> Cleanup i" and "finite (ws_pending_embedding_roots s)"
    and "wait_step tr op i = Some s'"
  shows "finite (ws_pending_embedding_roots s') \<and> ws_embedding_context_count s \<le> ws_embedding_context_count s' \<and>
    ws_embedding_context_count s' + int (card (ws_pending_embedding_roots s')) \<le>
      ws_embedding_context_count s + int (card (ws_pending_embedding_roots s)) +
      (if is_embedding_registration i op then 1 else 0)"
proof -
  let ?P = "ws_pending_embedding_roots s"
  let ?K = "{r \<in> ?P. \<not> settles_embedding i r op}" and ?N = "{r. op = RegisterEmbedding i r \<and> r \<noteq> []}"
  note st = wait_step_state [where tr = tr and i = i, OF assms(1-3)]
  from st assms(5) have P': "ws_pending_embedding_roots s' = ?K \<union> ?N" and le: "ws_embedding_context_count s \<le> ws_embedding_context_count s'"
    and c: "ws_embedding_context_count s' = ws_embedding_context_count s \<or>
      ws_embedding_context_count s' = ws_embedding_context_count s + 1 \<and> (\<exists>r. r \<in> ?P \<and> settles_embedding i r op)"
    by auto
  have u: "card (?K \<union> ?N) \<le> card ?K + (if is_embedding_registration i op then 1 else 0)"
    using card_Un_le [of ?K ?N] registered_finite(2) [of op i] by linarith
  have K: "card ?K \<le> card ?P" by (rule card_mono [OF assms(4)]) blast
  have "card ?K < card ?P" if "r \<in> ?P" "settles_embedding i r op" for r
    by (rule psubset_card_mono [OF assms(4)]) (use that in blast)
  then have "ws_embedding_context_count s' + int (card ?K) \<le> ws_embedding_context_count s + int (card ?P)"
    using c K by fastforce
  moreover have "finite (?K \<union> ?N)" using assms(4) registered_finite(1) by simp
  ultimately show ?thesis using P' le u by (simp split: if_splits)
qed

text \<open>What the state of a request is after a run that does not clean it up.\<close>

lemma run_state:
  assumes "tr i = None" and "i \<noteq> []" and "Cleanup i \<notin> set ops"
  shows "\<exists>s. foldl wait_step (register_request tr i) ops i = Some s \<and>
    ws_pending_semantic_roots s = {r. unsettled_semantic i ops r} \<and>
    ws_pending_embedding_roots s = {r. unsettled_embedding i ops r} \<and>
    finite (ws_pending_embedding_roots s) \<and> 0 \<le> ws_embedding_context_count s \<and>
    ws_embedding_context_count s + int (card (ws_pending_embedding_roots s)) \<le>
      int (length (filter (is_embedding_registration i) ops))"
  using assms(3)
proof (induction ops rule: rev_induct)
  case Nil
  then show ?case using assms by (simp add: register_request_def RequestWaitState_def)
next
  case (snoc op ops)
  then obtain s where s: "foldl wait_step (register_request tr i) ops i = Some s"
    "ws_pending_semantic_roots s = {r. unsettled_semantic i ops r}"
    "ws_pending_embedding_roots s = {r. unsettled_embedding i ops r}"
    "finite (ws_pending_embedding_roots s)" "0 \<le> ws_embedding_context_count s"
    "ws_embedding_context_count s + int (card (ws_pending_embedding_roots s)) \<le> int (length (filter (is_embedding_registration i) ops))"
    by auto
  have op: "op \<noteq> Cleanup i" using snoc.prems by auto
  obtain s' where s': "wait_step (foldl wait_step (register_request tr i) ops) op i = Some s'"
    "ws_pending_semantic_roots s' = {r. unsettled_semantic i (ops @ [op]) r}"
    "ws_pending_embedding_roots s' = {r. unsettled_embedding i (ops @ [op]) r}"
    using wait_step_state [where tr = "foldl wait_step (register_request tr i) ops" and i = i, OF s(1) assms(2) op] unfolding s(2,3) unsettled_snoc by auto
  from context_step [where tr = "foldl wait_step (register_request tr i) ops" and i = i, OF s(1) assms(2) op s(4) s'(1)] s(5,6) s' show ?case by auto
qed

lemma wait_loop_returns:
  assumes "clock k - start > t"
  shows "j \<le> k \<Longrightarrow> \<exists>m. j \<le> m \<and> m \<le> k \<and>
    (finished m \<and> wait_loop finished clock start (Some t) j = Some (Ok ()) \<or>
     \<not> finished m \<and> clock m - start > t \<and> wait_loop finished clock start (Some t) j = Some (Raise TimeoutError))"
proof (induction j rule: inc_induct)
  case base
  then show ?case using assms by (subst (1 2) wait_loop.simps) auto
next
  case (step j)
  show ?case
  proof (cases "finished j \<or> clock j - start > t")
    case True
    then show ?thesis using step.hyps by (intro exI [of _ j]) (subst (1 2) wait_loop.simps, auto)
  next
    case False
    then have "wait_loop finished clock start (Some t) j = wait_loop finished clock start (Some t) (Suc j)"
      by (subst wait_loop.simps) auto
    then show ?thesis using step.IH by (metis Suc_leD)
  qed
qed

section \<open>Properties\<close>

text \<open>
  A request is reported complete exactly when its work is settled. Whatever the workers of this and other
  requests do, in any order, as long as the request itself is not cleaned up: after the run it is complete if and only
  if each of its registered semantic and embedding roots was reported done or failed after its last registration.
\<close>

theorem request_complete_iff_settled:
  assumes "tr i = None" and "i \<noteq> []" and "Cleanup i \<notin> set ops"
  shows "is_complete (foldl wait_step (register_request tr i) ops) i \<longleftrightarrow>
    (\<forall>r. \<not> unsettled_semantic i ops r) \<and> (\<forall>r. \<not> unsettled_embedding i ops r)"
  using run_state [where tr = tr and i = i, OF assms] assms(2) by (auto simp: is_complete_def)

theorem request_complete_iff_settled_witness:
  "is_complete (foldl wait_step (register_request Map.empty ''t'')
      [RegisterSemantic ''t'' ''r'', Cleanup ''u'', SemanticFailed ''t'' ''r'' ''boom'']) ''t'' \<longleftrightarrow>
    (\<forall>r. \<not> unsettled_semantic ''t'' [RegisterSemantic ''t'' ''r'', Cleanup ''u'', SemanticFailed ''t'' ''r'' ''boom''] r) \<and>
    (\<forall>r. \<not> unsettled_embedding ''t'' [RegisterSemantic ''t'' ''r'', Cleanup ''u'', SemanticFailed ''t'' ''r'' ''boom''] r)"
  by (rule request_complete_iff_settled) simp_all

text \<open>
  No context is counted twice: however often workers report a root done, the number of indexed contexts of
  a request plus its embedding roots still pending never exceeds the number of embedding registrations made for it.
\<close>

theorem contexts_counted_once:
  assumes "tr i = None" and "i \<noteq> []" and "Cleanup i \<notin> set ops"
  shows "0 \<le> get_embedding_context_count (foldl wait_step (register_request tr i) ops) i \<and>
    get_embedding_context_count (foldl wait_step (register_request tr i) ops) i + int (card {r. unsettled_embedding i ops r})
      \<le> int (length (filter (is_embedding_registration i) ops))"
  using run_state [where tr = tr and i = i, OF assms] assms(2) by (auto simp: get_embedding_context_count_def)

theorem contexts_counted_once_witness:
  "get_embedding_context_count (foldl wait_step (register_request Map.empty ''t'')
     [RegisterEmbedding ''t'' ''r'', EmbeddingDone ''t'' ''r'' 1 True, EmbeddingDone ''t'' ''r'' 1 True]) ''t'' \<le> 1"
  using contexts_counted_once [of Map.empty "''t''"
     "[RegisterEmbedding ''t'' ''r'', EmbeddingDone ''t'' ''r'' 1 True, EmbeddingDone ''t'' ''r'' 1 True]"]
  by simp

text \<open>
  Waiting with a timeout ends. If the clock some time passes the deadline, \<^verbatim>\<open>wait_for_request\<close> returns,
  at the latest at that turn: normally, having seen the request complete, or with \<^verbatim>\<open>TimeoutError\<close>, having seen it
  incomplete after the deadline.
\<close>

theorem wait_for_request_returns:
  assumes "clock k - start > t" and "i \<noteq> []"
  shows "\<exists>m \<le> k.
    (is_complete (seen m) i \<and> wait_for_request i seen clock start (Some t) = Some (Ok ()) \<or>
     \<not> is_complete (seen m) i \<and> clock m - start > t \<and> wait_for_request i seen clock start (Some t) = Some (Raise TimeoutError))"
  using wait_loop_returns [where clock = clock and k = k and start = start and j = 0
      and finished = "\<lambda>k. is_complete (seen k) i", OF assms(1)] assms(2)
  by (auto simp: wait_for_request_def)

theorem wait_for_request_returns_witness:
  "\<exists>m \<le> 3.
    (is_complete Map.empty ''t'' \<and> wait_for_request ''t'' (\<lambda>_. Map.empty) of_nat 0 (Some 2) = Some (Ok ()) \<or>
     \<not> is_complete Map.empty ''t'' \<and> of_nat m - 0 > (2 :: rat) \<and>
     wait_for_request ''t'' (\<lambda>_. Map.empty) of_nat 0 (Some 2) = Some (Raise TimeoutError))"
  by (rule wait_for_request_returns [where clock = of_nat and k = 3 and start = 0 and t = 2 and i = "''t''" and seen = "\<lambda>_. Map.empty"]) simp_all

end
