(* ===== verification/Context_Tiers.thy ===== *)
theory Context_Tiers
  imports PyValue Identity Tokens
begin

text \<open>
  \<^verbatim>\<open>openviking/retrieve/context_assembler\<close>, the vocabulary of context assembly: the categories and detail
  tiers of \<^verbatim>\<open>params.py\<close>, the candidates of \<^verbatim>\<open>gather.py\<close>, and the tier rules of \<^verbatim>\<open>tiers.py\<close>.

  \<^item> URIs, categories and origins are \<open>string\<close>s; body texts are \<open>ustr\<close>, since their cost in tokens
    depends on the code points. Scores are rationals.
  \<^item> \<open>contents\<close> holds the bodies that were read. The extraction of an overview from a body (regular
    expressions, and syntax trees for code) is the argument \<open>overview\<close> of the definitions; nothing is assumed of it.
\<close>

section \<open>Categories and tiers\<close>

datatype tier = Tier_uri | Tier_abstract | Tier_overview | Tier_full

definition MEMORY_CATEGORIES :: "string list" where
  "MEMORY_CATEGORIES = [''events'', ''entities'', ''preferences'', ''experiences'']"

definition OTHER_MEMORY_CATEGORY :: string where
  "OTHER_MEMORY_CATEGORY = ''memories''"

definition CATEGORY_KEYS :: "string list" where
  "CATEGORY_KEYS = MEMORY_CATEGORIES @ [''resources'', ''skills'']"

definition REPORTED_CATEGORY_KEYS :: "string list" where
  "REPORTED_CATEGORY_KEYS = CATEGORY_KEYS @ [OTHER_MEMORY_CATEGORY]"

definition TIER_ORDER :: "tier list" where
  "TIER_ORDER = [Tier_uri, Tier_abstract, Tier_overview, Tier_full]"

fun TIER_RANK :: "tier \<Rightarrow> nat" where
  "TIER_RANK Tier_uri = 0"
| "TIER_RANK Tier_abstract = 1"
| "TIER_RANK Tier_overview = 2"
| "TIER_RANK Tier_full = 3"

text \<open>The strings of \<^verbatim>\<open>PINNABLE_TIERS\<close>.\<close>

definition pinnable_tier :: "pyval \<Rightarrow> tier option" where
  "pinnable_tier v =
     (if v = PStr ''abstract'' then Some Tier_abstract
      else if v = PStr ''overview'' then Some Tier_overview
      else if v = PStr ''full'' then Some Tier_full
      else None)"

definition MAX_EXCLUDE_URIS :: nat where
  "MAX_EXCLUDE_URIS = 200"

definition DEFAULT_TIER_BY_CATEGORY :: "string \<Rightarrow> tier option" where
  "DEFAULT_TIER_BY_CATEGORY c =
     (if c = ''events'' then Some Tier_overview
      else if c \<in> set REPORTED_CATEGORY_KEYS then Some Tier_abstract
      else None)"

definition DEFAULT_TIER :: tier where
  "DEFAULT_TIER = Tier_abstract"

definition FULL_BODY_ABSTRACT_CATEGORIES :: "string list" where
  "FULL_BODY_ABSTRACT_CATEGORIES = MEMORY_CATEGORIES @ [OTHER_MEMORY_CATEGORY]"

definition DEPTH_CEILING_BY_CATEGORY :: "string \<Rightarrow> tier option" where
  "DEPTH_CEILING_BY_CATEGORY c = (if c = ''events'' then Some Tier_full else None)"

definition PURPOSE_PRESETS :: "string \<Rightarrow> (string \<times> int) list option" where
  "PURPOSE_PRESETS purpose =
     (if purpose = ''coding'' then
        Some [(''events'', 1), (''entities'', 2), (''preferences'', 1), (''experiences'', 1), (''resources'', 3), (''skills'', 2)]
      else if purpose = ''chat'' then
        Some [(''events'', 3), (''entities'', 3), (''preferences'', 1), (''experiences'', 1), (''resources'', 1), (''skills'', 1)]
      else None)"

section \<open>Request parameters\<close>

text \<open>\<^verbatim>\<open>int(value)\<close> raises \<^verbatim>\<open>OverflowError\<close> for an infinite float, which the handler does not catch.\<close>

fun resolve_quotas :: "pydict \<Rightarrow> (string \<times> int) list res" where
  "resolve_quotas [] = Ok []"
| "resolve_quotas ((key, value) # rest) =
     (if key \<notin> set CATEGORY_KEYS then resolve_quotas rest
      else
        res_bind
          (case py_int value of
             Inr n \<Rightarrow> Ok (max 0 n)
           | Inl IntOverflowError \<Rightarrow> Raise OverflowError
           | Inl _ \<Rightarrow> Ok 0) (\<lambda>n.
        res_bind (resolve_quotas rest) (\<lambda>r. Ok ((key, n) # r))))"

definition normalize_quotas :: "pydict option \<Rightarrow> string option \<Rightarrow> (string \<times> int) list option res" where
  "normalize_quotas quotas purpose =
     (case quotas of
        None \<Rightarrow>
          if \<not> truthy_opt purpose then Ok None
          else Ok (PURPOSE_PRESETS (the purpose))
      | Some q \<Rightarrow> res_bind (resolve_quotas q) (\<lambda>r. Ok (Some r)))"

definition normalize_exclude_uris :: "string list option \<Rightarrow> string set" where
  "normalize_exclude_uris values =
     set (filter (\<lambda>uri. uri \<noteq> [])
       (map strip_space (take MAX_EXCLUDE_URIS (case values of None \<Rightarrow> [] | Some v \<Rightarrow> v))))"

record detail_pins =
  dp_scalar :: "tier option"
  dp_by_category :: "(string \<times> tier) list"

definition for_category :: "detail_pins \<Rightarrow> string \<Rightarrow> tier option" where
  "for_category pins category =
     (case map_of (dp_by_category pins) category of Some t \<Rightarrow> Some t | None \<Rightarrow> dp_scalar pins)"

definition as_stats :: "detail_pins \<Rightarrow> (string \<times> tier) list + tier option" where
  "as_stats pins = (if dp_by_category pins \<noteq> [] then Inl (dp_by_category pins) else Inr (dp_scalar pins))"

text \<open>The request field \<^verbatim>\<open>detail\<close>: pins resolved already, or a JSON value.\<close>

datatype detail_request = Detail_pins detail_pins | Detail_value pyval

fun normalize_detail :: "detail_request \<Rightarrow> detail_pins" where
  "normalize_detail (Detail_pins pins) = pins"
| "normalize_detail (Detail_value (PDict d)) =
     \<lparr>dp_scalar = None,
      dp_by_category = List.map_filter (\<lambda>(key, v).
        if key \<in> set REPORTED_CATEGORY_KEYS then map_option (\<lambda>t. (key, t)) (pinnable_tier v) else None) d\<rparr>"
| "normalize_detail (Detail_value v) = \<lparr>dp_scalar = pinnable_tier v, dp_by_category = []\<rparr>"

section \<open>Candidates\<close>

record candidate =
  cd_uri :: string
  cd_base_uri :: string
  cd_category :: string
  cd_score :: rat
  cd_ranked_score :: rat
  cd_level :: int
  cd_abstract :: ustr
  cd_origin :: string
  cd_is_directory :: bool
  cd_read_ctx :: request_context

definition u_strip :: "ustr \<Rightarrow> ustr" where
  "u_strip s = rev (dropWhile u_isspace (rev (dropWhile u_isspace s)))"

definition text_or_None :: "ustr \<Rightarrow> ustr option" where
  "text_or_None s = (if s = [] then None else Some s)"

section \<open>Tiers of a candidate\<close>

definition content_uri_for :: "candidate \<Rightarrow> string" where
  "content_uri_for c = (if cd_is_directory c then cd_base_uri c @ ''/.overview.md'' else cd_base_uri c)"

definition overview_from_content :: "(candidate \<Rightarrow> ustr \<Rightarrow> ustr) \<Rightarrow> candidate \<Rightarrow> ustr \<Rightarrow> ustr" where
  "overview_from_content overview c content = (if content = [] then [] else overview c content)"

fun tier_text :: "(candidate \<Rightarrow> ustr \<Rightarrow> ustr) \<Rightarrow> (string \<Rightarrow> ustr option) \<Rightarrow> candidate \<Rightarrow> tier \<Rightarrow> ustr option" where
  "tier_text overview contents c Tier_uri = Some []"
| "tier_text overview contents c Tier_abstract = text_or_None (u_strip (cd_abstract c))"
| "tier_text overview contents c Tier_overview =
     text_or_None (overview_from_content overview c
       (case contents (content_uri_for c) of None \<Rightarrow> [] | Some s \<Rightarrow> s))"
| "tier_text overview contents c Tier_full =
     (if cd_is_directory c then None
      else text_or_None (u_strip (case contents (content_uri_for c) of None \<Rightarrow> [] | Some s \<Rightarrow> s)))"

definition abstract_substitute :: "candidate \<Rightarrow> tier" where
  "abstract_substitute c = (if cd_category c \<in> set FULL_BODY_ABSTRACT_CATEGORIES then Tier_overview else Tier_uri)"

definition start_tier :: "candidate \<Rightarrow> tier option \<Rightarrow> tier" where
  "start_tier c pin =
     (if cd_is_directory c then Tier_overview
      else
        let t = (case pin of
                   Some p \<Rightarrow> p
                 | None \<Rightarrow> (case DEFAULT_TIER_BY_CATEGORY (cd_category c) of Some t \<Rightarrow> t | None \<Rightarrow> DEFAULT_TIER))
        in if t = Tier_abstract \<and> u_strip (cd_abstract c) = [] then abstract_substitute c else t)"

definition tier_window :: "candidate \<Rightarrow> tier option \<Rightarrow> tier \<times> tier" where
  "tier_window c pin =
     (let start = start_tier c pin in
      if pin \<noteq> None \<or> cd_is_directory c then (start, start)
      else
        let ceiling = (case DEPTH_CEILING_BY_CATEGORY (cd_category c) of Some t \<Rightarrow> t | None \<Rightarrow> start)
        in (start, if TIER_RANK ceiling > TIER_RANK start then ceiling else start))"

definition needs_content :: "candidate \<Rightarrow> tier option \<Rightarrow> bool" where
  "needs_content c pin = (TIER_RANK (snd (tier_window c pin)) \<ge> TIER_RANK Tier_overview)"

section \<open>Facts about tiers\<close>

lemma TIER_RANK_inject [simp]: "TIER_RANK s = TIER_RANK t \<longleftrightarrow> s = t"
  by (cases s; cases t) simp_all

lemma tier_window_le: "TIER_RANK (fst (tier_window c pin)) \<le> TIER_RANK (snd (tier_window c pin))"
  by (simp add: tier_window_def Let_def)

text \<open>A category whose abstract is a generated summary, served as a file and without a pin.\<close>

lemma tier_window_summary:
  assumes "cd_category c \<in> {''resources'', ''skills''}" and "\<not> cd_is_directory c"
  shows "tier_window c None = (if u_strip (cd_abstract c) = [] then Tier_uri else Tier_abstract,
                               if u_strip (cd_abstract c) = [] then Tier_uri else Tier_abstract)"
  using assms
  by (auto simp: tier_window_def start_tier_def DEFAULT_TIER_BY_CATEGORY_def abstract_substitute_def Let_def
      DEPTH_CEILING_BY_CATEGORY_def REPORTED_CATEGORY_KEYS_def CATEGORY_KEYS_def MEMORY_CATEGORIES_def
      OTHER_MEMORY_CATEGORY_def FULL_BODY_ABSTRACT_CATEGORIES_def)

end
