(* ===== verification/Retrieval_Targets.thy ===== *)
theory Retrieval_Targets
  imports Namespace
begin

text \<open>
  \<^verbatim>\<open>openviking/core/retrieval_targets.py\<close>: the directories a search starts from. A request may carry an actor
  peer, and then must not search the directories of other peers of the same user; the targets are expanded around them.
\<close>

section \<open>Default targets\<close>

definition dedupe :: "string list \<Rightarrow> string list" where
  "dedupe items = foldl (\<lambda>deduped item. if item \<in> set deduped then deduped else deduped @ [item]) [] items"

definition default_skill_targets :: "request_context \<Rightarrow> string list" where
  "default_skill_targets ctx = [canonical_user_root ctx @ ''/skills'']"

definition default_agent_skill_targets :: "string list" where
  "default_agent_skill_targets = [scheme_prefix @ ''agent/skills'']"

definition actor_peer_targets :: "request_context \<Rightarrow> string list" where
  "actor_peer_targets ctx =
     (if \<not> truthy_opt (rc_actor_peer_id ctx) then []
      else
        let peer_root = canonical_user_root ctx @ ''/peers/'' @ the (rc_actor_peer_id ctx)
        in [peer_root @ ''/memories'', peer_root @ ''/resources''])"

definition default_user_root_targets :: "request_context \<Rightarrow> string list" where
  "default_user_root_targets ctx =
     (let user_root = canonical_user_root ctx in
      if \<not> truthy_opt (rc_actor_peer_id ctx) then [user_root]
      else dedupe ([user_root @ ''/memories'', user_root @ ''/resources''] @ default_skill_targets ctx @ actor_peer_targets ctx))"

datatype context_type = CT_MEMORY | CT_RESOURCE | CT_SKILL

definition default_target_directories :: "request_context option \<Rightarrow> context_type option \<Rightarrow> string list" where
  "default_target_directories ctx_opt context_type =
     (case ctx_opt of
        None \<Rightarrow> []
      | Some ctx \<Rightarrow>
          if rc_role ctx = ''root'' then []
          else
            let user_root = canonical_user_root ctx;
                actor = truthy_opt (rc_actor_peer_id ctx);
                peer = user_root @ ''/peers/'' @ the (rc_actor_peer_id ctx)
            in case context_type of
                 Some CT_MEMORY \<Rightarrow>
                   if actor then dedupe [user_root @ ''/memories'', peer @ ''/memories''] else [user_root]
               | Some CT_RESOURCE \<Rightarrow>
                   if actor then dedupe [scheme_prefix @ ''resources'', user_root @ ''/resources'', peer @ ''/resources'']
                   else [scheme_prefix @ ''resources'', user_root]
               | Some CT_SKILL \<Rightarrow> dedupe (default_skill_targets ctx @ default_agent_skill_targets)
               | None \<Rightarrow>
                   if actor then dedupe ((scheme_prefix @ ''resources'') # default_user_root_targets ctx)
                   else [user_root, scheme_prefix @ ''resources''])"

section \<open>Explicit targets\<close>

text \<open>A single target string is passed as the list of it, as the code does first.\<close>

definition dedupe_target_uris :: "string list \<Rightarrow> string list" where
  "dedupe_target_uris target_uris =
     foldl (\<lambda>uris item.
       if item = [] \<or> item = ''/'' \<or> item = scheme_prefix then uris
       else if item \<in> set uris then uris else uris @ [item]) [] target_uris"

definition is_current_user_root :: "string \<Rightarrow> request_context \<Rightarrow> bool" where
  "is_current_user_root target_uri ctx \<longleftrightarrow>
     py_rstrip is_slash target_uri = py_rstrip is_slash (canonical_user_root ctx)"

definition is_agent_scope_uri :: "string \<Rightarrow> bool" where
  "is_agent_scope_uri target_uri =
     (let parts = py_split (CHR ''/'') (py_strip is_slash (drop (length scheme_prefix) target_uri))
      in parts ! 0 = ''agent'' \<and> length parts \<ge> 2 \<and> parts ! 1 \<in> {''skills'', ''endpoints'', ''tools'', ''payments''})"

definition target_normalize_peer_id :: "string option \<Rightarrow> string option res" where
  "target_normalize_peer_id peer_id =
     (case normalize_peer_id peer_id of
        Inr v \<Rightarrow> Ok v
      | Inl e \<Rightarrow> if is_ValueError e then Raise InvalidArgumentError else Raise e)"

text \<open>An f-string renders \<^verbatim>\<open>None\<close> by name.\<close>

definition str_opt :: "string option \<Rightarrow> string" where
  "str_opt v = (case v of None \<Rightarrow> ''None'' | Some s \<Rightarrow> s)"

definition resolve_peer_target :: "string \<Rightarrow> request_context \<Rightarrow> string list option res" where
  "resolve_peer_target target_uri ctx =
     res_bind (uri_parts target_uri) (\<lambda>parts.
     res_bind (uri_parts (canonical_user_root ctx)) (\<lambda>user_root_parts.
     if take (length user_root_parts) parts \<noteq> user_root_parts then Ok None
     else
       let suffix = drop (length user_root_parts) parts in
       if suffix = [] \<or> suffix ! 0 \<noteq> ''peers'' then Ok None
       else if length suffix = 1 then
         (if truthy_opt (rc_actor_peer_id ctx) then Ok (Some (actor_peer_targets ctx)) else Ok (Some [target_uri]))
       else
         res_bind (target_normalize_peer_id (Some (suffix ! 1))) (\<lambda>target_peer_id.
         res_bind (is_hidden_by_actor_peer_view target_uri ctx) (\<lambda>hidden.
         if hidden then Raise (PermissionDeniedError [])
         else
           let peer_root = canonical_user_root ctx @ ''/peers/'' @ str_opt target_peer_id in
           if length suffix = 2 then Ok (Some [peer_root @ ''/memories'', peer_root @ ''/resources''])
           else if suffix ! 2 \<notin> {''memories'', ''resources''} then Raise InvalidArgumentError
           else Ok (Some [target_uri])))))"

text \<open>The loop over the content roots at the end returns the target in either case.\<close>

definition target_directories_for_uri :: "string \<Rightarrow> request_context \<Rightarrow> string list res" where
  "target_directories_for_uri target_uri ctx =
     (if is_current_user_root target_uri ctx then Ok (default_user_root_targets ctx)
      else if is_agent_scope_uri target_uri then Ok [target_uri]
      else
        res_bind (resolve_peer_target target_uri ctx) (\<lambda>peer_target.
        case peer_target of Some dirs \<Rightarrow> Ok dirs | None \<Rightarrow> Ok [target_uri]))"

record resolved_targets =
  rt_target_directories :: "string list"
  rt_first_explicit_directory :: string

definition resolve_retrieval_targets :: "string list \<Rightarrow> request_context \<Rightarrow> resolved_targets res" where
  "resolve_retrieval_targets target_uri ctx =
     (let target_uris = dedupe_target_uris target_uri in
      if target_uris = [] then
        Ok \<lparr>rt_target_directories = default_target_directories (Some ctx) None, rt_first_explicit_directory = []\<rparr>
      else
        res_bind (res_map (\<lambda>target. target_directories_for_uri target ctx) target_uris) (\<lambda>dirs.
        let target_directories = dedupe (concat dirs)
        in Ok \<lparr>rt_target_directories = target_directories,
               rt_first_explicit_directory = (if target_directories \<noteq> [] then hd target_directories else [])\<rparr>))"

section \<open>Deduplication\<close>

definition add_new :: "'a list \<Rightarrow> 'a \<Rightarrow> 'a list" where
  "add_new xs x = (if x \<in> set xs then xs else xs @ [x])"

lemma dedupe_foldl: "dedupe items = foldl add_new [] items"
  by (simp add: dedupe_def add_new_def [abs_def])

lemma foldl_add_new:
  "set (foldl add_new acc items) = set acc \<union> set items \<and> (distinct acc \<longrightarrow> distinct (foldl add_new acc items))"
proof (induction items arbitrary: acc)
  case (Cons x items)
  have "set (add_new acc x) = insert x (set acc)" "distinct acc \<Longrightarrow> distinct (add_new acc x)"
    by (auto simp: add_new_def)
  then show ?case using Cons [of "add_new acc x"] by auto
qed simp

lemma set_dedupe [simp]: "set (dedupe items) = set items"
  by (simp add: dedupe_foldl foldl_add_new)

lemma distinct_dedupe [simp]: "distinct (dedupe items)"
  by (simp add: dedupe_foldl foldl_add_new)

lemma set_dedupe_target_uris: "set (dedupe_target_uris ts) = {t \<in> set ts. t \<noteq> [] \<and> t \<noteq> ''/'' \<and> t \<noteq> scheme_prefix}"
proof -
  have "set (foldl (\<lambda>uris item. if item = [] \<or> item = ''/'' \<or> item = scheme_prefix then uris
       else if item \<in> set uris then uris else uris @ [item]) acc ts) = set acc \<union> {t \<in> set ts. t \<noteq> [] \<and> t \<noteq> ''/'' \<and> t \<noteq> scheme_prefix}" for acc
    by (induction ts arbitrary: acc) auto
  then show ?thesis by (simp add: dedupe_target_uris_def)
qed

section \<open>The actor-peer view of a target\<close>

text \<open>A directory from which a search stays within what the actor peer may see of the user's tree.\<close>

definition peer_view_clean :: "string \<Rightarrow> request_context \<Rightarrow> bool" where
  "peer_view_clean d ctx \<longleftrightarrow> is_hidden_by_actor_peer_view d ctx \<noteq> Ok True \<and> may_include_hidden_actor_peers d ctx \<noteq> Ok True"

definition suffix_clean :: "string option \<Rightarrow> string list \<Rightarrow> bool" where
  "suffix_clean actor s \<longleftrightarrow> s \<noteq> [] \<and> (s ! 0 = ''peers'' \<longrightarrow> length s \<ge> 2 \<and> Some (s ! 1) = actor)"

lemma view_suffix:
  assumes "uri_parts d = Ok ps" and "actor_peer_view_user_suffix d ctx = Ok (Some s)"
  shows "ps = [''user'', rc_user_id ctx] @ s"
proof -
  have "take 2 ps = [''user'', rc_user_id ctx]" "s = drop 2 ps"
    using assms by (auto simp: actor_peer_view_user_suffix_def res_bind_Ok_iff Let_def numeral_2_eq_2 split: if_splits sum.splits exn.splits)
  then show ?thesis by (metis append_take_drop_id)
qed

lemma peer_view_cleanI:
  assumes "uri_parts d = Ok ps" and "\<And>s. ps = [''user'', rc_user_id ctx] @ s \<Longrightarrow> suffix_clean (rc_actor_peer_id ctx) s"
  shows "peer_view_clean d ctx"
proof (cases "actor_peer_view_user_suffix d ctx")
  case (Inr v)
  show ?thesis
  proof (cases v)
    case (Some s)
    then have "suffix_clean (rc_actor_peer_id ctx) s" using view_suffix [OF assms(1)] assms(2) Inr by blast
    then show ?thesis using Inr Some
      by (auto simp: peer_view_clean_def is_hidden_by_actor_peer_view_def may_include_hidden_actor_peers_def suffix_clean_def)
  qed (simp add: peer_view_clean_def is_hidden_by_actor_peer_view_def may_include_hidden_actor_peers_def Inr)
qed (simp add: peer_view_clean_def is_hidden_by_actor_peer_view_def may_include_hidden_actor_peers_def)

lemma clean_render:
  assumes "\<forall>p \<in> set ps. good_seg p" and "\<And>s. ps = [''user'', rc_user_id ctx] @ s \<Longrightarrow> suffix_clean (rc_actor_peer_id ctx) s"
  shows "peer_view_clean (render ps) ctx"
  by (rule peer_view_cleanI [OF uri_parts_render [OF assms(1)]]) (rule assms(2))

text \<open>Contexts with an actor peer: identifiers as the server validates them.\<close>

definition actor_ok :: "request_context \<Rightarrow> string \<Rightarrow> bool" where
  "actor_ok ctx p \<longleftrightarrow> ctx_ok ctx \<and> rc_actor_peer_id ctx = Some p \<and> clean_identifier p"

lemma clean_good_seg: "clean_identifier p \<Longrightarrow> good_seg p"
  using validate_identifier_part_safe clean_identifier_valid by (auto simp: good_seg_def)

lemma actor_roots:
  "canonical_user_root ctx @ ''/memories'' = render [''user'', rc_user_id ctx, ''memories'']"
  "canonical_user_root ctx @ ''/resources'' = render [''user'', rc_user_id ctx, ''resources'']"
  "canonical_user_root ctx @ ''/skills'' = render [''user'', rc_user_id ctx, ''skills'']"
  "(canonical_user_root ctx @ ''/peers/'' @ p) @ ''/memories'' = render [''user'', rc_user_id ctx, ''peers'', p, ''memories'']"
  "(canonical_user_root ctx @ ''/peers/'' @ p) @ ''/resources'' = render [''user'', rc_user_id ctx, ''peers'', p, ''resources'']"
  "scheme_prefix @ ''resources'' = render [''resources'']" "scheme_prefix @ ''agent/skills'' = render [''agent'', ''skills'']"
  by (simp_all add: canonical_user_root_def user_space_fragment_def render_def)

lemma actor_okD:
  assumes "actor_ok ctx p"
  shows "good_seg (rc_user_id ctx)" "good_seg p" "truthy_opt (rc_actor_peer_id ctx)" "the (rc_actor_peer_id ctx) = p"
    "uri_parts (canonical_user_root ctx) = Ok [''user'', rc_user_id ctx]"
proof -
  show g: "good_seg (rc_user_id ctx)" using assms ctx_ok_good_seg by (simp add: actor_ok_def)
  show "good_seg p" using assms clean_good_seg by (simp add: actor_ok_def)
  show "truthy_opt (rc_actor_peer_id ctx)" "the (rc_actor_peer_id ctx) = p"
    using assms by (auto simp: actor_ok_def clean_identifier_def)
  show "uri_parts (canonical_user_root ctx) = Ok [''user'', rc_user_id ctx]"
    unfolding canonical_user_root_render by (rule uri_parts_render) (use g in \<open>simp add: good_seg_def\<close>)
qed

lemma fixed_good_segs:
  "good_seg ''user''" "good_seg ''memories''" "good_seg ''resources''" "good_seg ''skills''" "good_seg ''peers''" "good_seg ''agent''"
  by (simp_all add: good_seg_def)

lemma own_target_clean:
  assumes "actor_ok ctx p" and "x \<in> {''memories'', ''resources'', ''skills''}"
  shows "peer_view_clean (render [''user'', rc_user_id ctx, x]) ctx" "peer_view_clean (render [''user'', rc_user_id ctx, ''peers'', p, x]) ctx"
  by (rule clean_render; use assms actor_okD [OF assms(1)] fixed_good_segs in \<open>auto simp: suffix_clean_def actor_ok_def\<close>)+

lemma other_scope_clean:
  assumes "\<forall>q \<in> set ps. good_seg q" and "ps \<noteq> []" and "hd ps \<noteq> ''user''"
  shows "peer_view_clean (render ps) ctx"
  using assms by (intro clean_render) auto

lemma actor_targets_clean:
  assumes "actor_ok ctx p" and "d \<in> set (actor_peer_targets ctx)"
  shows "peer_view_clean d ctx"
  using assms(2) own_target_clean [OF assms(1)] actor_okD(3,4) [OF assms(1)]
  unfolding actor_peer_targets_def Let_def actor_roots by auto

lemma default_user_root_clean:
  assumes "actor_ok ctx p" and "d \<in> set (default_user_root_targets ctx)"
  shows "peer_view_clean d ctx"
  using assms(2) own_target_clean [OF assms(1)] actor_targets_clean [OF assms(1)] actor_okD(3) [OF assms(1)]
  unfolding default_user_root_targets_def default_skill_targets_def Let_def actor_roots by auto

lemma default_targets_clean:
  assumes "actor_ok ctx p" and "d \<in> set (default_target_directories (Some ctx) ct)"
  shows "peer_view_clean d ctx"
proof -
  have "peer_view_clean (render [''resources'']) ctx" "peer_view_clean (render [''agent'', ''skills'']) ctx"
    by (rule other_scope_clean; simp add: good_seg_def)+
  then show ?thesis
    using assms(2) own_target_clean [OF assms(1)] default_user_root_clean [OF assms(1)] actor_okD(3,4) [OF assms(1)]
    unfolding default_target_directories_def default_skill_targets_def default_agent_skill_targets_def Let_def actor_roots
    by (auto split: if_splits option.splits context_type.splits)
qed

text \<open>A peer segment that is not white space, and is not hidden, is the actor peer itself.\<close>

lemma visible_peer_is_actor:
  assumes a: "actor_ok ctx p" and g: "\<forall>x \<in> set rest. good_seg x" "good_seg q" and q: "strip_space q \<noteq> []"
    and n: "target_normalize_peer_id (Some q) = Ok v"
    and h: "is_hidden_by_actor_peer_view (render ([''user'', rc_user_id ctx, ''peers'', q] @ rest)) ctx = Ok False"
  shows "q = p"
proof -
  let ?ps = "[''user'', rc_user_id ctx, ''peers'', q] @ rest"
  have gs: "\<forall>x \<in> set ?ps. good_seg x" using g actor_okD(1) [OF a] fixed_good_segs by auto
  have "normalize_peer_id (Some q) = Ok v" "v \<noteq> None"
    using n q by (auto simp: target_normalize_peer_id_def normalize_peer_id_def normalize_identifier_part_def Let_def
        split: sum.splits if_splits option.splits)
  then have "resolve_user_uri ?ps \<noteq> Raise e" for e
    using a by (auto simp: resolve_user_uri_def actor_ok_def ctx_ok_def Let_def validate_peer_id_segments_def
        require_peer_id_segment_def split: option.splits)
  moreover have "resolve_uri (render ?ps) = resolve_user_uri ?ps"
    using resolve_user_parts [of "tl ?ps"] gs by simp
  ultimately obtain r where "resolve_uri (render ?ps) = Ok r" by (metis Inl_Inr_False sum.exhaust)
  then have "actor_peer_view_user_suffix (render ?ps) ctx = Ok (Some (''peers'' # q # rest))"
    using actor_okD(3) [OF a] uri_parts_render [OF gs] by (simp add: actor_peer_view_user_suffix_def)
  then show ?thesis using h a by (simp add: is_hidden_by_actor_peer_view_def actor_ok_def)
qed

text \<open>A target as canonicalisation leaves it, without blank segments.\<close>

definition plain_target :: "string \<Rightarrow> bool" where
  "plain_target t \<longleftrightarrow> (\<exists>ps. t = render ps \<and> ps \<noteq> [] \<and> (\<forall>q \<in> set ps. good_seg q \<and> strip_space q \<noteq> []))"

lemma peer_target_clean:
  assumes a: "actor_ok ctx p" and t: "plain_target t" "\<not> is_current_user_root t ctx"
    and r: "resolve_peer_target t ctx = Ok v" and d: "d \<in> set (case v of Some dirs \<Rightarrow> dirs | None \<Rightarrow> [t])"
  shows "peer_view_clean d ctx"
proof -
  obtain ps where ps: "t = render ps" "\<forall>q \<in> set ps. good_seg q" "\<forall>q \<in> set ps. strip_space q \<noteq> []"
    using t(1) by (auto simp: plain_target_def)
  note parts = uri_parts_render [OF ps(2)]
  show ?thesis
  proof (cases "\<exists>q rest. ps = [''user'', rc_user_id ctx, ''peers'', q] @ rest")
    case False
    have v: "v = (if ps = [''user'', rc_user_id ctx, ''peers''] then Some (actor_peer_targets ctx) else None)"
    proof (cases "take 2 ps = [''user'', rc_user_id ctx]")
      case take: True
      then have e: "ps = [''user'', rc_user_id ctx] @ drop 2 ps" by (metis append_take_drop_id)
      show ?thesis
      proof (cases "drop 2 ps")
        case Nil
        then show ?thesis using r e parts actor_okD(5) [OF a] unfolding ps(1) by (simp add: resolve_peer_target_def)
      next
        case (Cons x xs)
        then have "ps = [''user'', rc_user_id ctx] @ x # xs" using e by simp
        moreover from this have "x = ''peers'' \<longrightarrow> xs = []" using False by (cases xs) auto
        ultimately show ?thesis
          using r parts actor_okD(3,5) [OF a] unfolding ps(1) by (cases "x = ''peers''") (simp_all add: resolve_peer_target_def)
      qed
    next
      case False
      then have "ps \<noteq> [''user'', rc_user_id ctx, ''peers'']" by auto
      then show ?thesis using False r parts actor_okD(5) [OF a] unfolding ps(1) by (simp add: resolve_peer_target_def numeral_2_eq_2)
    qed
    have "suffix_clean (rc_actor_peer_id ctx) s" if "ps = [''user'', rc_user_id ctx] @ s" "v = None" for s
    proof -
      have "s \<noteq> []" using that(1) t(2) unfolding ps(1) by (auto simp: is_current_user_root_def canonical_user_root_render)
      moreover have "s ! 0 \<noteq> ''peers''" using that False v \<open>s \<noteq> []\<close> by (cases s; cases "tl s") auto
      ultimately show ?thesis by (simp add: suffix_clean_def)
    qed
    then have "v = None \<Longrightarrow> peer_view_clean (render ps) ctx" by (intro clean_render [OF ps(2)]) blast
    then show ?thesis using d v actor_targets_clean [OF a] ps(1) by (auto split: if_splits)
  next
    case True
    then obtain q rest where q: "ps = [''user'', rc_user_id ctx, ''peers'', q] @ rest" by blast
    have n: "\<exists>w. target_normalize_peer_id (Some q) = Ok w \<and> is_hidden_by_actor_peer_view t ctx = Ok False \<and>
        set (case v of Some dirs \<Rightarrow> dirs | None \<Rightarrow> [t]) \<subseteq>
          {t, (canonical_user_root ctx @ ''/peers/'' @ str_opt w) @ ''/memories'', (canonical_user_root ctx @ ''/peers/'' @ str_opt w) @ ''/resources''}"
      using r parts actor_okD(5) [OF a] unfolding ps(1) q
      by (auto simp: resolve_peer_target_def Let_def res_bind_Ok_iff split: if_splits)
    then obtain w where w: "target_normalize_peer_id (Some q) = Ok w" "is_hidden_by_actor_peer_view t ctx = Ok False"
      and dd: "d \<in> {t, (canonical_user_root ctx @ ''/peers/'' @ str_opt w) @ ''/memories'', (canonical_user_root ctx @ ''/peers/'' @ str_opt w) @ ''/resources''}"
      using d by blast
    have "q = p" using visible_peer_is_actor [OF a _ _ _ w(1), of rest] w(2) ps q by auto
    moreover have "w = Some p" using w(1) a \<open>q = p\<close> normalize_peer_id_clean by (simp add: target_normalize_peer_id_def actor_ok_def)
    moreover have "peer_view_clean t ctx" unfolding ps(1)
      by (rule clean_render [OF ps(2)]) (use q \<open>q = p\<close> a in \<open>auto simp: suffix_clean_def actor_ok_def\<close>)
    ultimately show ?thesis using dd own_target_clean(2) [OF a] unfolding actor_roots str_opt_def by auto
  qed
qed

lemma agent_scope_clean:
  assumes "plain_target t" and "is_agent_scope_uri t"
  shows "peer_view_clean t ctx"
proof -
  obtain ps where ps: "t = render ps" "ps \<noteq> []" "\<forall>q \<in> set ps. good_seg q" using assms(1) by (auto simp: plain_target_def)
  have ns: "hd (py_join ''/'' ps) \<noteq> CHR ''/''" "py_join ''/'' ps \<noteq> []"
  proof -
    obtain q qs where q: "ps = q # qs" using ps(2) by (auto simp: neq_Nil_conv)
    then have "q \<noteq> []" "hd q \<noteq> CHR ''/''" using ps(3) by (auto simp: good_seg_def) (metis hd_in_set)
    then show "hd (py_join ''/'' ps) \<noteq> CHR ''/''" "py_join ''/'' ps \<noteq> []" using q by (cases qs; simp)+
  qed
  have "last (py_join ''/'' ps) \<noteq> CHR ''/''"
  proof (cases ps rule: rev_cases)
    case (snoc qs q)
    then have q: "q \<noteq> []" "last q \<noteq> CHR ''/''" using ps(3) by (auto simp: good_seg_def) (metis last_in_set)
    have "\<exists>x. py_join ''/'' ps = x @ q"
    proof (cases "qs = []")
      case False
      then show ?thesis using snoc by (simp add: py_join_append)
    qed (simp add: snoc)
    then show ?thesis using q by auto
  qed (use ps(2) in simp)
  then have "py_strip is_slash (py_join ''/'' ps) = py_join ''/'' ps" using ns by (intro py_strip_id) simp
  moreover have "py_split (CHR ''/'') (py_join ''/'' ps) = ps"
    using ps(2,3) by (intro py_split_join) (auto simp: good_seg_def)
  ultimately have "ps ! 0 = ''agent''"
    using assms(2) unfolding ps(1) is_agent_scope_uri_def render_def by (simp add: Let_def)
  then show ?thesis unfolding ps(1) using ps(2,3) by (intro other_scope_clean) (auto simp: hd_conv_nth)
qed

lemma target_directories_clean:
  assumes "actor_ok ctx p" and "plain_target t" and "target_directories_for_uri t ctx = Ok ds" and "d \<in> set ds"
  shows "peer_view_clean d ctx"
proof (cases "is_current_user_root t ctx")
  case True
  then show ?thesis using assms default_user_root_clean by (simp add: target_directories_for_uri_def)
next
  case False
  show ?thesis
  proof (cases "is_agent_scope_uri t")
    case True
    then show ?thesis using assms False agent_scope_clean by (auto simp: target_directories_for_uri_def)
  next
    case nagent: False
    obtain v where "resolve_peer_target t ctx = Ok v" "ds = (case v of Some dirs \<Rightarrow> dirs | None \<Rightarrow> [t])"
      using assms(3) False nagent by (auto simp: target_directories_for_uri_def res_bind_Ok_iff split: option.splits)
    then show ?thesis using peer_target_clean [OF assms(1,2) False] assms(4) by blast
  qed
qed

section \<open>Properties\<close>


definition peer_ctx :: request_context where
  "peer_ctx = \<lparr>rc_user = \<lparr>ui_account_id = ''acme'', ui_user_id = ''ada''\<rparr>, rc_role = ''user'', rc_group_ids = [],
     rc_actor_peer_id = Some ''bob'', rc_from_oauth = False, rc_api_key = None, rc_bypass_acl = False\<rparr>"

lemma peer_ctx_ok: "actor_ok peer_ctx ''bob''"
  by (simp add: actor_ok_def ctx_ok_def peer_ctx_def clean_identifier_def) code_simp


text \<open>
  A blank peer segment escapes the check: normalising it gives no peer id, which resolution reports as a malformed URI and the
  view takes for not hidden, and the target is then rewritten to the directories of a peer named \<^verbatim>\<open>None\<close>, which the view of
  the actor peer hides.
\<close>

theorem blank_peer_target_becomes_None:
  "resolve_retrieval_targets [''viking://user/ada/peers/ ''] peer_ctx =
     Ok \<lparr>rt_target_directories = [''viking://user/ada/peers/None/memories'', ''viking://user/ada/peers/None/resources''],
         rt_first_explicit_directory = ''viking://user/ada/peers/None/memories''\<rparr> \<and>
   is_hidden_by_actor_peer_view ''viking://user/ada/peers/None/memories'' peer_ctx = Ok True"
  by (rule conjI) code_simp+

end
