(* ===== verification/Context_Gather.thy ===== *)
theory Context_Gather
  imports Context_Tiers Retrieval_Targets "HOL-Library.Product_Lexorder" "HOL-Library.Multiset"
begin

text \<open>
  \<^verbatim>\<open>context_assembler/gather.py\<close>: searching the scopes of a request, deduplicating, excluding and ranking the hits.

  \<^item> A search hit is a record of the fields the code reads, with the types of \<^verbatim>\<open>MatchedContext\<close>; the fallbacks for
    values of other types are left out.
  \<^item> The search service is the argument \<open>find\<close>: query, context, target, limit, and the context type
    merged into the metadata filter, if one is. Nothing is assumed of its results.
  \<^item> The searches of a request run concurrently; their results are combined in the order they were started in, and a rejected
    request (\<open>InvalidArgumentError\<close>) fails the whole call. Other failures are counted.
\<close>

section \<open>Hits\<close>

record hit =
  h_uri :: string
  h_score :: rat
  h_abstract :: ustr
  h_overview :: ustr
  h_level :: int
  h_category :: string

record find_result =
  fr_memories :: "hit list"
  fr_resources :: "hit list"
  fr_skills :: "hit list"

definition LEVEL_SUFFIXES :: "string list" where
  "LEVEL_SUFFIXES = [''.abstract.md'', ''.overview.md'']"

definition ORIGIN_ORDER :: "string list" where
  "ORIGIN_ORDER = [''actor_peer'', ''self'', ''other_peer'']"

definition OTHER_PEER_OVERFETCH :: int where
  "OTHER_PEER_OVERFETCH = 4"

definition hit_abstract :: "hit \<Rightarrow> ustr" where
  "hit_abstract item = (if h_abstract item \<noteq> [] then h_abstract item else h_overview item)"

definition hit_level :: "hit \<Rightarrow> int" where
  "hit_level item = (if h_level item \<noteq> 0 then h_level item else 2)"

definition extract_hits :: "find_result option \<Rightarrow> string \<Rightarrow> hit list" where
  "extract_hits result bucket =
     (case result of
        None \<Rightarrow> []
      | Some r \<Rightarrow>
          if bucket = ''resources'' then fr_resources r
          else if bucket = ''skills'' then fr_skills r
          else fr_memories r)"

section \<open>Targets, origins and categories\<close>

definition memory_target_roots :: "request_context \<Rightarrow> string list" where
  "memory_target_roots ctx =
     (let user_root = canonical_user_root ctx
      in [user_root @ ''/memories''] @
         (if truthy_opt (rc_actor_peer_id ctx) then [user_root @ ''/peers/'' @ the (rc_actor_peer_id ctx) @ ''/memories''] else []))"

definition AGENT_SHARED_ROOTS :: "string list" where
  "AGENT_SHARED_ROOTS = [scheme_prefix @ ''agent/skills'']"

definition category_targets :: "string \<Rightarrow> request_context \<Rightarrow> string list" where
  "category_targets category ctx =
     (let user_root = canonical_user_root ctx in
      if category = ''resources'' then
        let targets = default_target_directories (Some ctx) (Some CT_RESOURCE) in
        if targets \<noteq> [] then targets
        else
          [user_root @ ''/resources'', scheme_prefix @ ''resources''] @
          (if truthy_opt (rc_actor_peer_id ctx) then [user_root @ ''/peers/'' @ the (rc_actor_peer_id ctx) @ ''/resources''] else [])
      else if category = ''skills'' then
        let targets = default_target_directories (Some ctx) (Some CT_SKILL) in
        if targets \<noteq> [] then targets else [user_root @ ''/skills''] @ AGENT_SHARED_ROOTS
      else map (\<lambda>root. py_rstrip is_slash root @ ''/'' @ category) (memory_target_roots ctx))"

definition is_under :: "string \<Rightarrow> string \<Rightarrow> bool" where
  "is_under uri dir =
     (let uri = py_rstrip is_slash uri; dir = py_rstrip is_slash dir
      in uri = dir \<or> py_startswith uri (dir @ ''/''))"

definition origin_for_uri :: "string \<Rightarrow> string option \<Rightarrow> string \<Rightarrow> string" where
  "origin_for_uri uri actor_peer_id user_root =
     (let peers_root = py_rstrip is_slash user_root @ ''/peers'' in
      if is_under uri peers_root then
        let suffix = py_strip is_slash (drop (length peers_root) uri);
            peer_id = (if suffix \<noteq> [] then py_before (CHR ''/'') suffix else [])
        in if truthy_opt actor_peer_id \<and> Some peer_id = actor_peer_id then ''actor_peer'' else ''other_peer''
      else ''self'')"

fun strip_suffix :: "string \<Rightarrow> string list \<Rightarrow> string \<times> bool" where
  "strip_suffix trimmed [] = (trimmed, False)"
| "strip_suffix trimmed (sfx # rest) =
     (if suffix (''/'' @ sfx) trimmed then (take (length trimmed - (length sfx + 1)) trimmed, True)
      else strip_suffix trimmed rest)"

definition strip_level_suffix :: "string \<Rightarrow> string \<times> bool" where
  "strip_level_suffix uri = strip_suffix (py_rstrip is_slash uri) LEVEL_SUFFIXES"

definition contains :: "string \<Rightarrow> string \<Rightarrow> bool" where
  "contains sub s \<longleftrightarrow> py_find sub s \<noteq> None"

definition category_for :: "hit \<Rightarrow> string option \<Rightarrow> string" where
  "category_for item bucket =
     (if truthy_opt bucket then the bucket
      else
        let uri = h_uri item in
        case py_find ''/memories/'' uri of
          Some i \<Rightarrow>
            let segment = py_before (CHR ''/'') (drop (i + length ''/memories/'') uri)
            in if segment \<in> set MEMORY_CATEGORIES then segment else OTHER_MEMORY_CATEGORY
        | None \<Rightarrow>
            if h_category item \<in> set REPORTED_CATEGORY_KEYS then h_category item
            else if contains ''/skills/'' uri then ''skills''
            else if contains ''/resources/'' uri \<or> py_startswith uri (scheme_prefix @ ''resources'') then ''resources''
            else OTHER_MEMORY_CATEGORY)"

section \<open>Deduplication and ranking\<close>

text \<open>Both deduplications keep the first position of a key and the best-scoring value; the index dictionary of
  \<^verbatim>\<open>dedupe_keep_best\<close> and the order list of \<^verbatim>\<open>_dedupe_candidates\<close> are the order of the association list.\<close>

definition keep_best_step :: "('a \<Rightarrow> string) \<Rightarrow> ('a \<Rightarrow> rat) \<Rightarrow> (string \<times> 'a) list \<Rightarrow> 'a \<Rightarrow> (string \<times> 'a) list" where
  "keep_best_step key score best x =
     (case map_of best (key x) of
        None \<Rightarrow> best @ [(key x, x)]
      | Some y \<Rightarrow> if score x > score y then dict_set best (key x) x else best)"

definition keep_best :: "('a \<Rightarrow> string) \<Rightarrow> ('a \<Rightarrow> rat) \<Rightarrow> 'a list \<Rightarrow> 'a list" where
  "keep_best key score xs = map snd (foldl (keep_best_step key score) [] xs)"

definition dedupe_keep_best :: "hit list \<Rightarrow> hit list" where
  "dedupe_keep_best items = keep_best h_uri h_score (filter (\<lambda>i. h_uri i \<noteq> []) items)"

definition dedupe_candidates :: "candidate list \<Rightarrow> candidate list" where
  "dedupe_candidates candidates = keep_best cd_base_uri cd_score candidates"

definition origin_rank :: "string \<Rightarrow> nat" where
  "origin_rank origin =
     (if origin = ''actor_peer'' then 0 else if origin = ''self'' then 1 else if origin = ''other_peer'' then 2
      else length ORIGIN_ORDER)"

text \<open>\<^verbatim>\<open>sort(key=_rank_key, reverse=True)\<close> is stable, so it is the stable sort by the opposite of the key.\<close>

definition rank_key :: "candidate \<Rightarrow> rat \<times> nat" where
  "rank_key c = (- cd_ranked_score c, origin_rank (cd_origin c))"

definition rank :: "candidate list \<Rightarrow> candidate list" where
  "rank candidates = sort_key rank_key candidates"

section \<open>Gathering\<close>

record gather_env =
  ge_find :: "string \<Rightarrow> request_context \<Rightarrow> string \<Rightarrow> int \<Rightarrow> context_type option \<Rightarrow> find_result res"
  ge_ctx :: request_context
  ge_queries :: "string list"
  ge_peer_scope :: string
  ge_penalties :: "string \<Rightarrow> rat option"
  ge_excluded :: "string set"

definition open_ctx :: "request_context \<Rightarrow> request_context" where
  "open_ctx ctx = ctx\<lparr>rc_actor_peer_id := None\<rparr>"

definition safe_find :: "find_result res \<Rightarrow> find_result option res" where
  "safe_find r =
     (case r of
        Inr v \<Rightarrow> Ok (Some v)
      | Inl e \<Rightarrow> if e = InvalidArgumentError then Raise e else Ok None)"

definition planned :: "gather_env \<Rightarrow> string list" where
  "planned env = (let qs = filter (\<lambda>q. q \<noteq> []) (ge_queries env) in if qs \<noteq> [] then qs else [[]])"

definition overfetch :: "gather_env \<Rightarrow> int \<Rightarrow> int" where
  "overfetch env want = want + min (int (card (ge_excluded env))) (want * 2)"

definition build_one :: "gather_env \<Rightarrow> hit \<Rightarrow> string option \<Rightarrow> candidate option \<times> nat" where
  "build_one env item bucket =
     (let uri = h_uri item; ctx = ge_ctx env; user_root = canonical_user_root ctx in
      if uri = [] then (None, 0)
      else
        let (base_uri, is_directory) = strip_level_suffix uri in
        if suffix ''/profile.md'' base_uri then (None, 0)
        else if uri \<in> ge_excluded env \<or> base_uri \<in> ge_excluded env then (None, 1)
        else
          let category = category_for item bucket;
              origin = origin_for_uri base_uri (rc_actor_peer_id ctx) user_root;
              penalty = (if origin = ''other_peer''
                         then (case ge_penalties env category of None \<Rightarrow> 0 | Some p \<Rightarrow> p) else 0)
          in (Some \<lparr>cd_uri = uri, cd_base_uri = base_uri, cd_category = category, cd_score = h_score item,
                cd_ranked_score = h_score item - penalty, cd_level = hit_level item, cd_abstract = hit_abstract item,
                cd_origin = origin, cd_is_directory = is_directory,
                cd_read_ctx = (if origin = ''other_peer'' then open_ctx ctx else ctx)\<rparr>, 0))"

definition build_all :: "gather_env \<Rightarrow> (hit \<times> string option) list \<Rightarrow> candidate list \<times> nat" where
  "build_all env items =
     (let rs = map (\<lambda>(item, bucket). build_one env item bucket) items
      in (List.map_filter fst rs, sum_list (map snd rs)))"

text \<open>What a bucket or the flat search contributes: candidates, hits found, hits excluded, failed searches.\<close>

record gathered =
  ga_candidates :: "candidate list"
  ga_searched :: nat
  ga_excluded :: nat
  ga_errors :: nat

text \<open>The end of both searches: build, rank, cut.\<close>

definition collect :: "gather_env \<Rightarrow> int \<Rightarrow> (hit \<times> string option) list \<Rightarrow> nat \<Rightarrow> gathered" where
  "collect env quota items errors =
     (let (candidates, excluded) = build_all env items
      in \<lparr>ga_candidates = take (nat (max 0 quota)) (rank candidates), ga_searched = length items,
          ga_excluded = excluded, ga_errors = errors\<rparr>)"

definition run_searches :: "find_result res list \<Rightarrow> (find_result option list \<times> nat) res" where
  "run_searches rs = res_bind (res_map safe_find rs) (\<lambda>results. Ok (results, length (filter (\<lambda>r. r = None) results)))"

definition bucket_context_type :: "string \<Rightarrow> context_type" where
  "bucket_context_type bucket =
     (if bucket = ''resources'' then CT_RESOURCE else if bucket = ''skills'' then CT_SKILL else CT_MEMORY)"

definition is_other_peer :: "gather_env \<Rightarrow> hit \<Rightarrow> bool" where
  "is_other_peer env item \<longleftrightarrow>
     origin_for_uri (h_uri item) (rc_actor_peer_id (ge_ctx env)) (canonical_user_root (ge_ctx env)) = ''other_peer''"

definition gather_bucket :: "gather_env \<Rightarrow> string \<times> int \<Rightarrow> gathered res" where
  "gather_bucket env bq =
     (let (bucket, quota) = bq; ctx = ge_ctx env; user_root = canonical_user_root ctx;
          ct = Some (bucket_context_type bucket);
          searches = concat (map (\<lambda>query. map (\<lambda>target. ge_find env query ctx target (overfetch env quota) ct)
                       (category_targets bucket ctx)) (planned env));
          peer_searches =
            (if ge_peer_scope env = ''all'' \<and> bucket \<in> set MEMORY_CATEGORIES
             then map (\<lambda>query. ge_find env query (open_ctx ctx) (user_root @ ''/peers'')
                    (overfetch env (max (quota * OTHER_PEER_OVERFETCH) quota)) ct) (planned env)
             else [])
      in res_bind (run_searches (searches @ peer_searches)) (\<lambda>(results, errors).
         let own = concat (map (\<lambda>r. extract_hits r bucket) (take (length searches) results));
             peers = concat (map (\<lambda>r. filter (\<lambda>item. contains (''/memories/'' @ bucket @ ''/'') (h_uri item) \<and> is_other_peer env item)
                       (extract_hits r bucket)) (drop (length searches) results));
             found = dedupe_keep_best (own @ peers)
         in Ok (collect env quota (map (\<lambda>item. (item, Some bucket)) found) errors)))"

text \<open>The owning bucket of every hit: \<^verbatim>\<open>setdefault\<close> keeps the first one.\<close>

definition first_bucket :: "(hit \<times> string option) list \<Rightarrow> string \<Rightarrow> string option" where
  "first_bucket tagged uri =
     (case map_of (map (\<lambda>(item, b). (h_uri item, b)) tagged) uri of None \<Rightarrow> None | Some b \<Rightarrow> b)"

definition gather_flat :: "gather_env \<Rightarrow> int \<Rightarrow> gathered res" where
  "gather_flat env limit =
     (let ctx = ge_ctx env; user_root = canonical_user_root ctx;
          searches = map (\<lambda>query. ge_find env query ctx [] (overfetch env limit) None) (planned env);
          peer_searches =
            (if ge_peer_scope env = ''all''
             then map (\<lambda>query. ge_find env query (open_ctx ctx) (user_root @ ''/peers'')
                    (overfetch env (max (limit * OTHER_PEER_OVERFETCH) limit)) None) (planned env)
             else [])
      in res_bind (run_searches (searches @ peer_searches)) (\<lambda>(results, errors).
         let own = concat (map (\<lambda>r. concat (map (\<lambda>bucket.
                     map (\<lambda>item. (item, if bucket = ''memories'' then None else Some bucket)) (extract_hits r bucket))
                     [''memories'', ''resources'', ''skills''])) (take (length searches) results));
             peers = concat (map (\<lambda>r. map (\<lambda>item. (item, None)) (filter (is_other_peer env) (extract_hits r ''memories'')))
                       (drop (length searches) results));
             found = dedupe_keep_best (map fst (own @ peers))
         in Ok (collect env limit (map (\<lambda>item. (item, first_bucket (own @ peers) (h_uri item))) found) errors)))"

record gather_stats =
  gs_searched :: "(string \<times> nat) list"
  gs_candidates :: nat
  gs_excluded :: nat
  gs_origins :: "(string \<times> nat) list"
  gs_peer_scope :: string
  gs_errors :: nat

definition origin_counts :: "candidate list \<Rightarrow> (string \<times> nat) list" where
  "origin_counts cs =
     foldl (\<lambda>d c. dict_set d (cd_origin c) (case map_of d (cd_origin c) of None \<Rightarrow> 1 | Some n \<Rightarrow> n + 1))
       (map (\<lambda>origin. (origin, 0)) ORIGIN_ORDER) cs"

definition gather_candidates :: "gather_env \<Rightarrow> (string \<times> int) list option \<Rightarrow> int \<Rightarrow> (candidate list \<times> gather_stats) res" where
  "gather_candidates env0 quotas limit =
     (let env = env0\<lparr>ge_peer_scope := (if ge_peer_scope env0 = ''actor'' then ''actor'' else ''all'')\<rparr> in
      res_bind
        (case quotas of
           None \<Rightarrow> res_bind (gather_flat env limit) (\<lambda>g. Ok (ga_candidates g, [(''all'', g)]))
         | Some q \<Rightarrow>
             let active = filter (\<lambda>(bucket, quota). quota > 0) q in
             res_bind (res_map (gather_bucket env) active) (\<lambda>gs.
             Ok (rank (dedupe_candidates (concat (map ga_candidates gs))), zip (map fst active) gs))) (\<lambda>(candidates, parts).
      Ok (candidates, \<lparr>gs_searched = map (\<lambda>(b, g). (b, ga_searched g)) parts, gs_candidates = length candidates,
        gs_excluded = sum_list (map (ga_excluded \<circ> snd) parts), gs_origins = origin_counts candidates,
        gs_peer_scope = ge_peer_scope env, gs_errors = sum_list (map (ga_errors \<circ> snd) parts)\<rparr>)))"

section \<open>Keeping the best\<close>

text \<open>The invariant of both deduplications: keys are distinct and stored under themselves, and every value is an input.\<close>

definition best_inv :: "('a \<Rightarrow> string) \<Rightarrow> ('a \<Rightarrow> rat) \<Rightarrow> 'a list \<Rightarrow> (string \<times> 'a) list \<Rightarrow> bool" where
  "best_inv key score xs best \<longleftrightarrow>
     distinct (map fst best) \<and> (\<forall>(k, x) \<in> set best. k = key x \<and> x \<in> set xs) \<and>
     (\<forall>x \<in> set xs. \<exists>y. map_of best (key x) = Some y \<and> score x \<le> score y)"

lemma best_inv_step:
  assumes "best_inv key score xs best"
  shows "best_inv key score (xs @ [x]) (keep_best_step key score best x)"
proof (cases "map_of best (key x)")
  case None
  then have "key x \<notin> fst ` set best" by (simp add: map_of_eq_None_iff)
  then have "distinct (map fst (best @ [(key x, x)]))" using assms by (simp add: best_inv_def)
  moreover have "\<exists>y. map_of (best @ [(key x, x)]) (key z) = Some y \<and> score z \<le> score y" if z: "z \<in> set (xs @ [x])" for z
  proof (cases "z \<in> set xs")
    case True
    then obtain y where "map_of best (key z) = Some y" "score z \<le> score y" using assms by (auto simp: best_inv_def simp del: map_of_eq_Some_iff)
    then show ?thesis by (simp add: map_add_Some_iff del: map_of_eq_Some_iff)
  next
    case False
    then show ?thesis using z None by (simp add: map_add_def)
  qed
  ultimately show ?thesis using assms None by (auto simp: best_inv_def keep_best_step_def simp del: map_of_append)
next
  case (Some y)
  show ?thesis
  proof (cases "score x > score y")
    case True
    have "(k, z) \<in> set (dict_set best (key x) x) \<Longrightarrow> k = key z \<and> z \<in> set (xs @ [x])" for k z
      using set_dict_set [of best "key x" x] assms by (auto simp: best_inv_def)
    moreover have "\<exists>y. map_of (dict_set best (key x) x) (key z) = Some y \<and> score z \<le> score y" if "z \<in> set (xs @ [x])" for z
      using that assms Some True by (cases "key z = key x") (fastforce simp: best_inv_def map_of_dict_set)+
    moreover have "distinct (map fst (dict_set best (key x) x))" using assms by (simp add: best_inv_def dict_set_distinct)
    ultimately show ?thesis using Some True by (auto simp: best_inv_def keep_best_step_def)
  next
    case False
    then show ?thesis using assms Some by (auto simp: best_inv_def keep_best_step_def)
  qed
qed

lemma best_inv_foldl: "best_inv key score xs (foldl (keep_best_step key score) [] xs)"
proof (induction xs rule: rev_induct)
  case Nil
  then show ?case by (simp add: best_inv_def)
next
  case (snoc x xs)
  then show ?case using best_inv_step by simp
qed

lemma keep_best_sound:
  "distinct (map key (keep_best key score xs)) \<and> set (keep_best key score xs) \<subseteq> set xs \<and>
   (\<forall>x \<in> set xs. \<exists>y \<in> set (keep_best key score xs). key y = key x \<and> score x \<le> score y)"
proof -
  let ?b = "foldl (keep_best_step key score) [] xs"
  have inv: "best_inv key score xs ?b" by (rule best_inv_foldl)
  have "map key (map snd ?b) = map fst ?b" using inv by (auto simp: best_inv_def)
  then have "distinct (map key (map snd ?b))" using inv unfolding best_inv_def by metis
  moreover have "\<exists>y \<in> set (map snd ?b). key y = key x \<and> score x \<le> score y" if x: "x \<in> set xs" for x
  proof -
    obtain y where y: "map_of ?b (key x) = Some y" "score x \<le> score y" using inv x by (auto simp: best_inv_def)
    then have "(key x, y) \<in> set ?b" by (simp add: map_of_SomeD)
    then have "y \<in> set (map snd ?b)" "key y = key x" using inv by (force simp: best_inv_def)+
    then show ?thesis using y(2) by blast
  qed
  ultimately show ?thesis using inv by (auto simp: keep_best_def best_inv_def)
qed

section \<open>Candidates of a search\<close>

definition candidate_ok :: "gather_env \<Rightarrow> candidate \<Rightarrow> bool" where
  "candidate_ok env c \<longleftrightarrow>
     cd_uri c \<notin> ge_excluded env \<and> cd_base_uri c \<notin> ge_excluded env \<and> \<not> suffix ''/profile.md'' (cd_base_uri c) \<and>
     cd_read_ctx c = (if cd_origin c = ''other_peer'' then open_ctx (ge_ctx env) else ge_ctx env)"

lemma build_one_ok: "build_one env item bucket = (Some c, n) \<Longrightarrow> candidate_ok env c \<and> cd_category c = category_for item bucket"
  by (auto simp: build_one_def candidate_ok_def Let_def split: prod.splits if_splits)

lemma build_all_ok:
  "c \<in> set (fst (build_all env items)) \<Longrightarrow> candidate_ok env c \<and> (\<exists>item b. (item, b) \<in> set items \<and> cd_category c = category_for item b)"
proof -
  assume "c \<in> set (fst (build_all env items))"
  then obtain item b where "(item, b) \<in> set items" "fst (build_one env item b) = Some c"
    by (auto simp: build_all_def List.map_filter_def Let_def)
  then show ?thesis using build_one_ok [of env item b c "snd (build_one env item b)"] by (metis prod.collapse)
qed

lemma set_rank [simp]: "set (rank cs) = set cs"
  by (simp add: rank_def)

lemma sorted_rank: "sorted (map rank_key (rank cs))"
  by (simp add: rank_def)

lemma category_for_bucket: "b \<noteq> [] \<Longrightarrow> category_for item (Some b) = b"
  by (simp add: category_for_def)

lemma category_for_reported:
  assumes "truthy_opt b \<Longrightarrow> the b \<in> set REPORTED_CATEGORY_KEYS"
  shows "category_for item b \<in> set REPORTED_CATEGORY_KEYS"
proof -
  have "set MEMORY_CATEGORIES \<subseteq> set REPORTED_CATEGORY_KEYS" "OTHER_MEMORY_CATEGORY \<in> set REPORTED_CATEGORY_KEYS"
    "''skills'' \<in> set REPORTED_CATEGORY_KEYS" "''resources'' \<in> set REPORTED_CATEGORY_KEYS"
    by (auto simp: REPORTED_CATEGORY_KEYS_def CATEGORY_KEYS_def)
  then show ?thesis using assms by (auto simp: category_for_def Let_def split: option.split)
qed

lemma collect_ok:
  "length (ga_candidates (collect env q items n)) \<le> nat (max 0 q)"
  "sorted (map rank_key (ga_candidates (collect env q items n)))"
  "c \<in> set (ga_candidates (collect env q items n)) \<Longrightarrow>
     candidate_ok env c \<and> (\<exists>item b. (item, b) \<in> set items \<and> cd_category c = category_for item b)"
  using build_all_ok [of c env items]
  by (auto simp: collect_def split: prod.splits dest: in_set_takeD) (simp add: sorted_rank sorted_wrt_take flip: take_map)

lemma gather_bucket_collect:
  assumes "gather_bucket env (b, q) = Ok g"
  obtains found n where "g = collect env q (map (\<lambda>item. (item, Some b)) found) n"
  using assms by (auto simp: gather_bucket_def res_bind_Ok_iff Let_def split: prod.splits)

lemma gather_bucket_ok:
  assumes "gather_bucket env (b, q) = Ok g"
  shows "length (ga_candidates g) \<le> nat (max 0 q)"
    and "c \<in> set (ga_candidates g) \<Longrightarrow> candidate_ok env c \<and> (b \<noteq> [] \<longrightarrow> cd_category c = b)"
proof -
  obtain found n where g: "g = collect env q (map (\<lambda>item. (item, Some b)) found) n" by (rule gather_bucket_collect [OF assms])
  show "length (ga_candidates g) \<le> nat (max 0 q)" unfolding g by (rule collect_ok)
  show "candidate_ok env c \<and> (b \<noteq> [] \<longrightarrow> cd_category c = b)" if "c \<in> set (ga_candidates g)"
    using collect_ok(3) [OF that [unfolded g]] category_for_bucket by auto
qed

text \<open>The buckets of a flat search.\<close>

definition flat_bucket :: "string option \<Rightarrow> bool" where
  "flat_bucket b \<longleftrightarrow> b = None \<or> b = Some ''resources'' \<or> b = Some ''skills''"

lemma first_bucket_flat: "list_all (\<lambda>(i, b). flat_bucket b) tagged \<Longrightarrow> flat_bucket (first_bucket tagged u)"
  by (fastforce simp: first_bucket_def list_all_iff flat_bucket_def split: option.split dest!: map_of_SomeD)

lemma flat_bucket_reported: "flat_bucket b \<Longrightarrow> category_for item b \<in> set REPORTED_CATEGORY_KEYS"
  by (rule category_for_reported) (auto simp: flat_bucket_def REPORTED_CATEGORY_KEYS_def CATEGORY_KEYS_def)

lemma gather_flat_collect:
  assumes "gather_flat env limit = Ok g"
  obtains found tagged n where "g = collect env limit (map (\<lambda>item. (item, first_bucket tagged (h_uri item))) found) n"
    and "list_all (\<lambda>(i, b). flat_bucket b) tagged"
  using assms
  by (auto simp: gather_flat_def res_bind_Ok_iff Let_def split: prod.splits) (fastforce simp: list_all_iff flat_bucket_def)

lemma gather_flat_ok:
  assumes "gather_flat env limit = Ok g"
  shows "sorted (map rank_key (ga_candidates g))"
    and "c \<in> set (ga_candidates g) \<Longrightarrow> candidate_ok env c \<and> cd_category c \<in> set REPORTED_CATEGORY_KEYS"
proof -
  obtain found tagged n where g: "g = collect env limit (map (\<lambda>item. (item, first_bucket tagged (h_uri item))) found) n"
    and t: "list_all (\<lambda>(i, b). flat_bucket b) tagged"
    by (rule gather_flat_collect [OF assms])
  show "sorted (map rank_key (ga_candidates g))" unfolding g by (rule collect_ok)
  show "candidate_ok env c \<and> cd_category c \<in> set REPORTED_CATEGORY_KEYS" if "c \<in> set (ga_candidates g)"
    using collect_ok(3) [OF that [unfolded g]] flat_bucket_reported first_bucket_flat [OF t] by auto
qed

lemma candidate_ok_scope: "candidate_ok (env\<lparr>ge_peer_scope := s\<rparr>) c = candidate_ok env c"
  by (simp add: candidate_ok_def)

lemma gather_quota_cases:
  assumes "gather_candidates env (Some q) limit = Ok (cs, st)"
  obtains s gs where "list_all2 (\<lambda>bq g. gather_bucket (env\<lparr>ge_peer_scope := s\<rparr>) bq = Ok g) (filter (\<lambda>(b, n). n > 0) q) gs"
    and "cs = rank (dedupe_candidates (concat (map ga_candidates gs)))"
proof -
  define s e where "s = (if ge_peer_scope env = ''actor'' then ''actor'' else ''all'')" and "e = env\<lparr>ge_peer_scope := s\<rparr>"
  obtain gs where g: "res_map (gather_bucket e) (filter (\<lambda>(b, n). n > 0) q) = Ok gs"
    "cs = rank (dedupe_candidates (concat (map ga_candidates gs)))"
  proof (cases "res_map (gather_bucket e) (filter (\<lambda>(b, n). n > 0) q)")
    case (Inl x)
    then show ?thesis using assms unfolding gather_candidates_def s_def [symmetric] e_def [symmetric] Let_def by simp
  next
    case (Inr gs)
    then have "cs = rank (dedupe_candidates (concat (map ga_candidates gs)))"
      using assms unfolding gather_candidates_def s_def [symmetric] e_def [symmetric] Let_def by simp
    then show ?thesis by (rule that [OF Inr])
  qed
  show ?thesis by (rule that [OF g(1) [unfolded res_map_Ok_iff e_def] g(2)])
qed

lemma gather_quota_candidate:
  assumes "list_all2 (\<lambda>bq g. gather_bucket env bq = Ok g) active gs" and "c \<in> set (dedupe_candidates (concat (map ga_candidates gs)))"
  obtains b n g where "(b, n) \<in> set active" and "gather_bucket env (b, n) = Ok g" and "c \<in> set (ga_candidates g)" and "candidate_ok env c"
    and "b \<noteq> [] \<Longrightarrow> cd_category c = b"
proof -
  have "c \<in> set (concat (map ga_candidates gs))" using assms(2) keep_best_sound [of cd_base_uri cd_score "concat (map ga_candidates gs)"] unfolding dedupe_candidates_def by (meson subsetD)
  then obtain g where g: "g \<in> set gs" "c \<in> set (ga_candidates g)" by auto
  obtain i where i: "i < length gs" "g = gs ! i" using g(1) by (metis in_set_conv_nth)
  define bq where "bq = active ! i"
  have bq: "bq \<in> set active" "gather_bucket env bq = Ok g"
    using assms(1) i by (simp_all add: list_all2_conv_all_nth bq_def)
  obtain b n where "bq = (b, n)" by (cases bq)
  then show ?thesis using that bq g(2) gather_bucket_ok(2) by blast
qed

lemma gathered_sound:
  assumes "gather_candidates env quotas limit = Ok (cs, st)"
    and "list_all (\<lambda>(b, n). b \<in> set CATEGORY_KEYS) (case quotas of None \<Rightarrow> [] | Some q \<Rightarrow> q)"
  shows "sorted (map rank_key cs) \<and>
    list_all (\<lambda>c. candidate_ok env c \<and> cd_category c \<in> set REPORTED_CATEGORY_KEYS) cs"
proof (cases quotas)
  case None
  then obtain s g where "gather_flat (env\<lparr>ge_peer_scope := s\<rparr>) limit = Ok g" "cs = ga_candidates g"
    using assms(1) by (auto simp: gather_candidates_def res_bind_Ok_iff Let_def split: prod.splits)
  then show ?thesis using gather_flat_ok candidate_ok_scope by (fastforce simp: list_all_iff)
next
  case (Some q)
  obtain s gs where gs: "list_all2 (\<lambda>bq g. gather_bucket (env\<lparr>ge_peer_scope := s\<rparr>) bq = Ok g) (filter (\<lambda>(b, n). n > 0) q) gs"
    "cs = rank (dedupe_candidates (concat (map ga_candidates gs)))"
    by (rule gather_quota_cases [OF assms(1) [unfolded Some]])
  have "candidate_ok env c \<and> cd_category c \<in> set REPORTED_CATEGORY_KEYS" if "c \<in> set cs" for c
  proof -
    have "c \<in> set (dedupe_candidates (concat (map ga_candidates gs)))" using that gs(2) by simp
    then obtain b n g where b: "(b, n) \<in> set (filter (\<lambda>(b, n). n > 0) q)"
      "candidate_ok (env\<lparr>ge_peer_scope := s\<rparr>) c" "b \<noteq> [] \<Longrightarrow> cd_category c = b"
      using gather_quota_candidate [OF gs(1)] by blast
    then have "b \<in> set CATEGORY_KEYS" using assms(2) Some by (fastforce simp: list_all_iff)
    moreover from this have "b \<noteq> []" by (auto simp: CATEGORY_KEYS_def MEMORY_CATEGORIES_def)
    ultimately show ?thesis using b candidate_ok_scope by (simp add: REPORTED_CATEGORY_KEYS_def)
  qed
  then show ?thesis using sorted_rank gs(2) by (simp add: list_all_iff)
qed

lemma gathered_ok:
  assumes "gather_candidates env quotas limit = Ok (cs, st)"
    and "list_all (\<lambda>(b, n). b \<in> set CATEGORY_KEYS) (case quotas of None \<Rightarrow> [] | Some q \<Rightarrow> q)" and "c \<in> set cs"
  shows "candidate_ok env c"
  using gathered_sound [OF assms(1,2)] assms(3) by (simp add: list_all_iff)

text \<open>The quotas of a request name categories only.\<close>

lemma resolve_quotas_keys: "resolve_quotas q = Ok r \<Longrightarrow> list_all (\<lambda>(b, n). b \<in> set CATEGORY_KEYS \<and> 0 \<le> n) r"
proof (induction q arbitrary: r rule: resolve_quotas.induct)
  case (2 key v rest)
  then show ?case by (auto simp: res_bind_Ok_iff split: if_splits sum.splits int_error.splits)
qed simp

lemma normalize_quotas_keys:
  assumes "normalize_quotas quotas purpose = Ok r"
  shows "list_all (\<lambda>(b, n). b \<in> set CATEGORY_KEYS) (case r of None \<Rightarrow> [] | Some q \<Rightarrow> q)"
proof (cases quotas)
  case None
  then show ?thesis using assms
    by (auto simp: normalize_quotas_def PURPOSE_PRESETS_def CATEGORY_KEYS_def MEMORY_CATEGORIES_def split: if_splits)
next
  case (Some q)
  then show ?thesis using assms resolve_quotas_keys by (fastforce simp: normalize_quotas_def res_bind_Ok_iff list_all_iff)
qed

section \<open>Properties\<close>

text \<open>
  Gathered candidates are admissible and ranked: none is excluded by the caller or by the cool-down (by its own URI or its node's), none is
  the profile, each carries the context its origin allows it to be read with and a category of the response
  contract, and they are ordered by penalised score, then by origin.
\<close>

theorem gathered_candidates_admissible:
  assumes "gather_candidates env quotas limit = Ok (cs, st)"
    and "list_all (\<lambda>(b, n). b \<in> set CATEGORY_KEYS) (case quotas of None \<Rightarrow> [] | Some q \<Rightarrow> q)"
  shows "sorted (map rank_key cs) \<and>
    list_all (\<lambda>c. candidate_ok env c \<and> cd_category c \<in> set REPORTED_CATEGORY_KEYS) cs"
  by (rule gathered_sound [OF assms])

definition sample_hit :: hit where
  "sample_hit = \<lparr>h_uri = ''viking://user/ada/memories/events/e.md'', h_score = 1 / 2, h_abstract = [], h_overview = [], h_level = 2, h_category = []\<rparr>"

definition sample_gather :: gather_env where
  "sample_gather = \<lparr>ge_find = (\<lambda>_ _ _ _ _. Ok \<lparr>fr_memories = [sample_hit], fr_resources = [], fr_skills = []\<rparr>),
     ge_ctx = peer_ctx, ge_queries = [''q''], ge_peer_scope = ''actor'', ge_penalties = (\<lambda>_. None), ge_excluded = {}\<rparr>"

definition sample_quotas :: "(string \<times> int) list" where
  "sample_quotas = [(''events'', 1)]"

lemma sample_gathered: "\<exists>cs st. gather_candidates sample_gather (Some sample_quotas) 5 = Ok (cs, st) \<and> length cs = 1"
proof -
  let ?r = "gather_candidates sample_gather (Some sample_quotas) 5"
  have "isl ?r = False" "length (fst (projr ?r)) = 1" by code_simp+
  then show ?thesis by (cases ?r) auto
qed

theorem gathered_candidates_admissible_witness:
  "\<exists>cs st. gather_candidates sample_gather (Some sample_quotas) 5 = Ok (cs, st) \<and> length cs = 1 \<and>
     list_all (\<lambda>c. candidate_ok sample_gather c \<and> cd_category c \<in> set REPORTED_CATEGORY_KEYS) cs"
proof -
  obtain cs st where g: "gather_candidates sample_gather (Some sample_quotas) 5 = Ok (cs, st)" "length cs = 1"
    using sample_gathered by blast
  have "list_all (\<lambda>(b, n). b \<in> set CATEGORY_KEYS) (case Some sample_quotas of None \<Rightarrow> [] | Some q \<Rightarrow> q)"
    by (simp add: sample_quotas_def CATEGORY_KEYS_def MEMORY_CATEGORIES_def)
  from gathered_candidates_admissible [OF g(1) this] show ?thesis using g by blast
qed

text \<open>
  Quotas are ceilings: with bucketed retrieval no node occurs twice, and every category has at most as many candidates as its
  quota, a category without a positive quota none.
\<close>

theorem quotas_respected:
  assumes "gather_candidates env (Some q) limit = Ok (cs, st)" and "distinct (map fst q)" and "(b, n) \<in> set q"
    and "[] \<notin> fst ` set q"
  shows "distinct (map cd_base_uri cs) \<and> int (length (filter (\<lambda>c. cd_category c = b) cs)) \<le> max 0 n"
proof -
  obtain s gs where gs: "list_all2 (\<lambda>bq g. gather_bucket (env\<lparr>ge_peer_scope := s\<rparr>) bq = Ok g) (filter (\<lambda>(b, n). n > 0) q) gs"
    "cs = rank (dedupe_candidates (concat (map ga_candidates gs)))"
    by (rule gather_quota_cases [OF assms(1)])
  let ?d = "dedupe_candidates (concat (map ga_candidates gs))"
  have "distinct (map cd_base_uri ?d)" using keep_best_sound [of cd_base_uri cd_score "concat (map ga_candidates gs)"] unfolding dedupe_candidates_def by (rule conjunct1)
  then have dis: "distinct (map cd_base_uri cs)"
    unfolding gs(2) rank_def by (metis mset_eq_imp_distinct_iff mset_map mset_sort)
  then have "distinct (filter (\<lambda>c. cd_category c = b) cs)" by (simp add: distinct_map)
  then have len: "length (filter (\<lambda>c. cd_category c = b) cs) = card {c \<in> set cs. cd_category c = b}"
    by (metis distinct_card set_filter)
  have own: "n > 0 \<and> (\<exists>g. gather_bucket (env\<lparr>ge_peer_scope := s\<rparr>) (b, n) = Ok g \<and> c \<in> set (ga_candidates g))"
    if "c \<in> set cs" "cd_category c = b" for c
  proof -
    have "c \<in> set ?d" using that(1) gs(2) by simp
    then obtain b' n' g where b': "(b', n') \<in> set (filter (\<lambda>(b, n). n > 0) q)"
      "gather_bucket (env\<lparr>ge_peer_scope := s\<rparr>) (b', n') = Ok g" "c \<in> set (ga_candidates g)" "b' \<noteq> [] \<Longrightarrow> cd_category c = b'"
      using gather_quota_candidate [OF gs(1)] by blast
    then have "b' \<noteq> []" using assms(4) by force
    then have "b' = b" using b'(4) that(2) by simp
    moreover have "n' = n" using b'(1) \<open>b' = b\<close> assms(2,3) by (auto dest: eq_key_imp_eq_value)
    ultimately show ?thesis using b' by auto
  qed
  show ?thesis
  proof (cases "\<exists>c \<in> set cs. cd_category c = b")
    case True
    then obtain g where g: "n > 0" "gather_bucket (env\<lparr>ge_peer_scope := s\<rparr>) (b, n) = Ok g" using own by blast
    then have "{c \<in> set cs. cd_category c = b} \<subseteq> set (ga_candidates g)" using own by fastforce
    then have "card {c \<in> set cs. cd_category c = b} \<le> length (ga_candidates g)"
      by (meson List.finite_set card_length card_mono order_trans)
    then show ?thesis using dis len g(1) gather_bucket_ok(1) [OF g(2)] by simp
  next
    case False
    then have "filter (\<lambda>c. cd_category c = b) cs = []" by (simp add: filter_empty_conv)
    then show ?thesis using dis by simp
  qed
qed

theorem quotas_respected_witness:
  "\<exists>cs st. gather_candidates sample_gather (Some sample_quotas) 5 = Ok (cs, st) \<and>
     int (length (filter (\<lambda>c. cd_category c = ''events'') cs)) \<le> max 0 1"
proof -
  obtain cs st where g: "gather_candidates sample_gather (Some sample_quotas) 5 = Ok (cs, st)"
    using sample_gathered by blast
  have "distinct (map fst sample_quotas)" "(''events'', 1) \<in> set sample_quotas" "[] \<notin> fst ` set sample_quotas"
    by (simp_all add: sample_quotas_def)
  from quotas_respected [OF g this] g show ?thesis by blast
qed

end
