(* ===== verification/Context_Render.thy ===== *)
theory Context_Render
  imports Context_Tiers
begin

text \<open>
  \<^verbatim>\<open>context_assembler/render.py\<close> and the entries of \<^verbatim>\<open>models.py\<close>: the flat XML envelope around every entry,
  its cost in tokens, and how bodies are kept from forging the envelope. The pattern
  \<^verbatim>\<open><(/?)memory(?=[\s/>])\<close> is written out as \<open>envelope_tag\<close>; under \<^verbatim>\<open>IGNORECASE\<close> no character outside
  ASCII folds to one of its letters.
\<close>

section \<open>Entries\<close>

record assembled_entry =
  ae_uri :: string
  ae_category :: string
  ae_score :: rat
  ae_detail :: tier
  ae_text :: ustr
  ae_origin :: string
  ae_tokens :: int

fun tier_name :: "tier \<Rightarrow> string" where
  "tier_name Tier_uri = ''uri''"
| "tier_name Tier_abstract = ''abstract''"
| "tier_name Tier_overview = ''overview''"
| "tier_name Tier_full = ''full''"

section \<open>Python formatting\<close>

fun decimal :: "nat \<Rightarrow> ustr" where
  "decimal n = (if n < 10 then [48 + n] else decimal (n div 10) @ [48 + n mod 10])"

declare decimal.simps [simp del]

text \<open>\<^verbatim>\<open>f"{x:.2f}"\<close>: round half to even on the exact value, sign kept.\<close>

definition hundredths :: "rat \<Rightarrow> nat" where
  "hundredths q =
     (let x = q * 100; f = \<lfloor>x\<rfloor>; d = x - of_int f
      in nat (if d < 1 / 2 then f else if d > 1 / 2 then f + 1 else if even f then f else f + 1))"

definition format_2f :: "rat \<Rightarrow> ustr" where
  "format_2f q =
     (let n = hundredths \<bar>q\<bar>
      in (if q < 0 then [45] else []) @ decimal (n div 100) @ [46, 48 + n mod 100 div 10, 48 + n mod 10])"

definition u_replace1 :: "nat \<Rightarrow> ustr \<Rightarrow> ustr \<Rightarrow> ustr" where
  "u_replace1 c r s = concat (map (\<lambda>x. if x = c then r else [x]) s)"

section \<open>The envelope\<close>

definition attr_escape :: "string \<Rightarrow> ustr" where
  "attr_escape value =
     u_replace1 60 (codes ''&lt;'') (u_replace1 34 (codes ''&quot;'') (u_replace1 38 (codes ''&amp;'') (codes value)))"

definition ascii_lower_code :: "nat \<Rightarrow> nat" where
  "ascii_lower_code c = (if 65 \<le> c \<and> c \<le> 90 then c + 32 else c)"

text \<open>\<open>envelope_tag s = Some (slash, rest)\<close>: the pattern matches at the start of \<open>s\<close>, group 1 is
  \<open>slash\<close>, and \<open>rest\<close> is what follows the match.\<close>

definition memory_word :: "ustr \<Rightarrow> ustr option" where
  "memory_word s =
     (if map ascii_lower_code (take 6 s) = codes ''memory''
      then (case drop 6 s of
              [] \<Rightarrow> None
            | d # rest \<Rightarrow> if u_isspace d \<or> d = 47 \<or> d = 62 then Some (d # rest) else None)
      else None)"

fun envelope_tag :: "ustr \<Rightarrow> (ustr \<times> ustr) option" where
  "envelope_tag [] = None"
| "envelope_tag (c # s) =
     (if c \<noteq> 60 then None
      else case s of
             [] \<Rightarrow> None
           | d # t \<Rightarrow>
               if d = 47 then map_option (\<lambda>r. ([47], r)) (memory_word t)
               else map_option (\<lambda>r. ([], r)) (memory_word s))"

lemma memory_word_length: "memory_word s = Some r \<Longrightarrow> length r < length s"
proof (rule ccontr)
  assume a: "memory_word s = Some r" and n: "\<not> length r < length s"
  then have r: "r = drop 6 s" by (auto simp: memory_word_def split: if_splits list.splits)
  have "map ascii_lower_code (take 6 s) = codes ''memory''" using a by (auto simp: memory_word_def split: if_splits)
  then have "length (map ascii_lower_code (take 6 s)) = length (codes ''memory'')" by simp
  then have "length (take 6 s) = 6" by (simp add: codes_def)
  then show False using n r by simp
qed

lemma envelope_tag_length: "envelope_tag s = Some (sl, r) \<Longrightarrow> length r < length s"
  by (cases s) (auto split: if_splits list.splits dest: memory_word_length)

function body_escape :: "ustr \<Rightarrow> ustr" where
  "body_escape text =
     (case envelope_tag text of
        Some (slash, rest) \<Rightarrow> [60, 92] @ slash @ codes ''memory'' @ body_escape rest
      | None \<Rightarrow> (case text of [] \<Rightarrow> [] | c # s \<Rightarrow> c # body_escape s))"
  by pat_completeness auto
termination
  by (relation "measure length") (auto dest: envelope_tag_length)

declare body_escape.simps [simp del]

definition entry_head :: "assembled_entry \<Rightarrow> ustr" where
  "entry_head e =
     codes ''<memory uri='' @ [34] @ attr_escape (ae_uri e) @ [34] @ codes '' type='' @ [34] @ attr_escape (ae_category e) @ [34] @
     codes '' score='' @ [34] @ format_2f (ae_score e) @ [34] @ codes '' detail='' @ [34] @ codes (tier_name (ae_detail e)) @ [34]"

definition render_entry :: "assembled_entry \<Rightarrow> ustr" where
  "render_entry e =
     (if ae_text e = [] then entry_head e @ codes '' />''
      else entry_head e @ [62, 10] @ body_escape (ae_text e) @ [10] @ codes ''</memory>'')"

fun render_context :: "assembled_entry list \<Rightarrow> ustr" where
  "render_context [] = []"
| "render_context [e] = render_entry e"
| "render_context (e # e' # es) = render_entry e @ [10] @ render_context (e' # es)"

definition fragment_tokens :: "assembled_entry \<Rightarrow> int" where
  "fragment_tokens e = int (estimate_text_tokens (render_entry e))"

section \<open>Cost of a rendered block\<close>

lemma estimate_separator [simp]: "estimate_text_tokens [10] = 1"
  by (simp add: estimate_text_tokens_def)

lemma render_context_cost:
  "int (estimate_text_tokens (render_context es)) \<le> sum_list (map fragment_tokens es) + int (length es - 1)"
proof (induction es rule: render_context.induct)
  case (3 e e' es)
  have "estimate_text_tokens (render_context (e # e' # es)) \<le>
      estimate_text_tokens (render_entry e) + (1 + estimate_text_tokens (render_context (e' # es)))"
    using estimate_subadditive [of "render_entry e"] estimate_subadditive [of "[10]"]
    by (metis (no_types, lifting) add_left_mono estimate_separator order_trans render_context.simps(3))
  then show ?case using 3 by (simp add: fragment_tokens_def)
qed (simp_all add: fragment_tokens_def)

section \<open>Tags in a rendered block\<close>

text \<open>How many places of a text are envelope tags, opening or closing.\<close>

fun envelope_count :: "ustr \<Rightarrow> nat" where
  "envelope_count [] = 0"
| "envelope_count (c # s) = (if envelope_tag (c # s) = None then 0 else 1) + envelope_count s"

text \<open>A text that ends with a tag name and nothing behind it: the look-ahead of the pattern needs one more
  character, so \<open>body_escape\<close> leaves such an end alone.\<close>

fun bare_tag :: "ustr \<Rightarrow> bool" where
  "bare_tag [] = False"
| "bare_tag (c # s) \<longleftrightarrow>
     c = 60 \<and> (map ascii_lower_code s = codes ''memory'' \<or>
               (case s of [] \<Rightarrow> False | d # t \<Rightarrow> d = 47 \<and> map ascii_lower_code t = codes ''memory''))"

fun dangling :: "ustr \<Rightarrow> bool" where
  "dangling [] = False"
| "dangling (c # s) = (bare_tag (c # s) \<or> dangling s)"

lemma codes_memory: "codes ''memory'' = [109, 101, 109, 111, 114, 121]"
  by (simp add: codes_def)

lemma envelope_tag_other: "c \<noteq> 60 \<Longrightarrow> envelope_tag (c # s) = None"
  by simp

lemma envelope_count_skip: "60 \<notin> set xs \<Longrightarrow> envelope_count (xs @ ys) = envelope_count ys"
  by (induction xs) auto

lemma dangling_skip: "60 \<notin> set xs \<Longrightarrow> dangling (xs @ ys) = dangling ys"
  by (induction xs) auto

lemma lower_memory_no_lt: "map ascii_lower_code w = codes ''memory'' \<Longrightarrow> 60 \<notin> set w"
proof
  assume a: "map ascii_lower_code w = codes ''memory''" and "60 \<in> set w"
  then have "ascii_lower_code 60 \<in> set (codes ''memory'')" by (metis image_eqI list.set_map)
  then show False by (simp add: codes_memory ascii_lower_code_def)
qed

lemma memory_word_stop:
  assumes "ascii_lower_code c \<notin> set (codes ''memory'')"
  shows "memory_word (a @ c # x) = None \<longleftrightarrow> memory_word (a @ c # y) = None"
proof (cases "length a < 6")
  case True
  have "map ascii_lower_code (take 6 (a @ c # z)) \<noteq> codes ''memory''" for z
  proof
    assume "map ascii_lower_code (take 6 (a @ c # z)) = codes ''memory''"
    moreover have "c \<in> set (take 6 (a @ c # z))"
      using True by (cases "6 - length a") simp_all
    ultimately show False using assms by (metis image_eqI list.set_map)
  qed
  then show ?thesis by (simp add: memory_word_def)
next
  case False
  then show ?thesis by (cases "drop 6 a") (auto simp: memory_word_def)
qed

lemma memory_word_end:
  "memory_word (s @ [10]) = None \<longleftrightarrow> memory_word s = None \<and> map ascii_lower_code s \<noteq> codes ''memory''"
proof (cases "length s" "6 :: nat" rule: linorder_cases)
  case less
  then have "map ascii_lower_code (take 6 (s @ [10])) \<noteq> codes ''memory''" "map ascii_lower_code (take 6 s) \<noteq> codes ''memory''"
    "map ascii_lower_code s \<noteq> codes ''memory''"
    by (auto simp: codes_memory ascii_lower_code_def dest!: arg_cong [where f = last] arg_cong [where f = length] split: if_splits)
  then show ?thesis by (simp add: memory_word_def)
next
  case equal
  then show ?thesis by (simp add: memory_word_def u_isspace_def)
next
  case greater
  then have "map ascii_lower_code s \<noteq> codes ''memory''" by (auto simp: codes_memory dest!: arg_cong [where f = length])
  then show ?thesis using greater by (cases "drop 6 s") (auto simp: memory_word_def)
qed

lemma body_escape_other: "c \<noteq> 60 \<Longrightarrow> body_escape (c # s) = c # body_escape s"
  by (simp add: body_escape.simps [of "c # s"])

lemma body_escape_Nil [simp]: "body_escape [] = []"
  by (simp add: body_escape.simps)

lemma body_escape_lt: "\<exists>r. body_escape (60 # s) = 60 # r"
  by (subst body_escape.simps) (auto split: option.split)

lemma body_escape_append: "60 \<notin> set a \<Longrightarrow> body_escape (a @ b) = a @ body_escape b"
  by (induction a) (auto simp: body_escape_other)

lemma memory_word_escape:
  "memory_word (body_escape s @ 10 # r) = None \<longleftrightarrow> memory_word (s @ [10]) = None"
proof (cases "60 \<in> set s")
  case True
  then obtain a b where s: "s = a @ 60 # b" "60 \<notin> set a" by (meson split_list_first)
  obtain b' where "body_escape (60 # b) = 60 # b'" using body_escape_lt by blast
  then show ?thesis
    using s memory_word_stop [of 60 a "b' @ 10 # r" "b @ [10]"]
    by (simp add: body_escape_append codes_memory ascii_lower_code_def)
next
  case False
  then have "body_escape s = s" using body_escape_append [of s "[]"] by simp
  then show ?thesis using memory_word_stop [of 10 s r "[]"] by (simp add: codes_memory ascii_lower_code_def)
qed

lemma envelope_tag_escape:
  assumes "envelope_tag (60 # s) = None"
  shows "envelope_tag (60 # body_escape s @ 10 # r) = None \<longleftrightarrow> \<not> bare_tag (60 # s)"
proof (cases s)
  case Nil
  then show ?thesis by (simp add: memory_word_def codes_memory ascii_lower_code_def)
next
  case (Cons d t)
  show ?thesis
  proof (cases "d = 47")
    case True
    then show ?thesis
      using Cons assms memory_word_escape [of t r] memory_word_end [of t]
      by (auto simp: body_escape_other codes_memory ascii_lower_code_def)
  next
    case False
    obtain B where "body_escape s = d # B"
      using Cons body_escape_lt [of t] body_escape_other [of d t] by (cases "d = 60") auto
    then show ?thesis
      using Cons False assms memory_word_escape [of s r] memory_word_end [of s] by (auto simp: codes_memory)
  qed
qed

lemma memory_wordD:
  assumes "memory_word t = Some r"
  shows "\<exists>w. t = w @ r \<and> map ascii_lower_code w = codes ''memory''"
proof -
  have "r = drop 6 t \<and> map ascii_lower_code (take 6 t) = codes ''memory''"
    using assms by (auto simp: memory_word_def split: if_splits list.splits)
  then show ?thesis using append_take_drop_id [of 6 t] by metis
qed

lemma memory_word_bare: "map ascii_lower_code s = codes ''memory'' \<Longrightarrow> memory_word s = None"
  by (auto simp: memory_word_def codes_memory dest!: arg_cong [where f = length])

lemma envelope_tagD:
  assumes "envelope_tag s = Some (slash, rest)"
  shows "\<exists>w. s = 60 # slash @ w @ rest \<and> 60 \<notin> set (slash @ w)"
proof -
  obtain t where s: "s = 60 # t" using assms by (cases s) (auto split: if_splits)
  show ?thesis
  proof (cases "\<exists>u. t = 47 # u")
    case True
    then obtain u where t: "t = 47 # u" by blast
    then have "slash = [47]" "memory_word u = Some rest" using assms s by (auto split: if_splits)
    with memory_wordD [of u rest] obtain w where "u = w @ rest" "map ascii_lower_code w = codes ''memory''" by blast
    then show ?thesis using s t \<open>slash = [47]\<close> lower_memory_no_lt by auto
  next
    case False
    then have "slash = []" "memory_word t = Some rest" using assms s by (auto split: if_splits list.splits)
    with memory_wordD [of t rest] obtain w where "t = w @ rest" "map ascii_lower_code w = codes ''memory''" by blast
    then show ?thesis using s \<open>slash = []\<close> lower_memory_no_lt by auto
  qed
qed

lemma bare_tag_no_match: "bare_tag s \<Longrightarrow> envelope_tag s = None"
  by (cases s) (auto simp: memory_word_bare codes_memory ascii_lower_code_def split: list.splits)

lemma envelope_count_body:
  "envelope_count (body_escape s @ 10 # r) = envelope_count r + (if dangling s then 1 else 0)"
proof (induction s rule: body_escape.induct)
  case (1 s)
  show ?case
  proof (cases "envelope_tag s")
    case (Some p)
    obtain slash rest where p: "p = (slash, rest)" by (cases p)
    obtain w where w: "s = 60 # slash @ w @ rest" "60 \<notin> set (slash @ w)"
      using envelope_tagD [of s slash rest] Some p by auto
    have "\<not> bare_tag s" using bare_tag_no_match Some by fastforce
    then have "dangling s = dangling rest"
      using w dangling_skip [of "slash @ w" rest] by (simp del: bare_tag.simps)
    moreover have "60 \<notin> set ([92] @ slash @ codes ''memory'')" using w(2) by (simp add: codes_memory)
    moreover have "envelope_tag (60 # 92 # z) = None" for z by (simp add: memory_word_def codes_memory ascii_lower_code_def)
    ultimately show ?thesis
      using "1.IH"(2) [OF Some p [symmetric]] envelope_count_skip [of "[92] @ slash @ codes ''memory''" "body_escape rest @ 10 # r"]
      by (simp add: body_escape.simps [of s] Some p)
  next
    case None
    show ?thesis
    proof (cases s)
      case (Cons c t)
      note IH = "1.IH"(1) [OF None Cons]
      have e: "body_escape (c # t) = c # body_escape t" using None unfolding Cons by (subst body_escape.simps) (simp del: envelope_tag.simps)
      show ?thesis
      proof (cases "c = 60")
        case True
        have "\<not> dangling t" if b: "bare_tag (60 # t)"
        proof -
          have "60 \<notin> set t" using b lower_memory_no_lt [of t] lower_memory_no_lt [of "tl t"] by (auto split: list.splits)
          then show ?thesis using dangling_skip [of t "[]"] by simp
        qed
        moreover have "envelope_tag (60 # t) = None" using None Cons True by blast
        ultimately show ?thesis
          using IH envelope_tag_escape [of t r] e unfolding Cons True by (auto simp del: envelope_tag.simps bare_tag.simps)
      next
        case False
        then show ?thesis using IH by (simp add: e Cons)
      qed
    qed (simp add: body_escape.simps [of s])
  qed
qed

lemma attr_escape_no_lt: "60 \<notin> set (attr_escape v)"
  by (auto simp: attr_escape_def u_replace1_def codes_def split: if_splits)

lemma decimal_digits: "set (decimal n) \<subseteq> {48..57}"
proof (induction n rule: decimal.induct)
  case (1 n)
  have "n mod 10 < 10" by simp
  then have "48 + n mod 10 \<in> {48..57}" unfolding atLeastAtMost_iff by linarith
  then show ?case using 1 by (subst decimal.simps) auto
qed

lemma format_2f_no_lt: "60 \<notin> set (format_2f q)"
proof -
  have "n mod 100 div 10 < 10" "n mod 10 < 10" for n :: nat by (simp_all add: less_mult_imp_div_less)
  moreover have "60 \<noteq> 48 + d" if "d < 10" for d :: nat using that by simp
  ultimately have "60 \<noteq> 48 + n mod 100 div 10" "60 \<noteq> 48 + n mod 10" for n :: nat by blast+
  then show ?thesis using decimal_digits by (fastforce simp: format_2f_def Let_def)
qed

lemma envelope_count_head: "envelope_count (entry_head e @ z) = 1 + envelope_count z"
proof -
  define body where "body = codes ''memory uri='' @ [34] @ attr_escape (ae_uri e) @ [34] @ codes '' type='' @ [34] @
     attr_escape (ae_category e) @ [34] @ codes '' score='' @ [34] @ format_2f (ae_score e) @ [34] @ codes '' detail='' @ [34] @
     codes (tier_name (ae_detail e)) @ [34]"
  have h: "entry_head e = 60 # body" by (simp add: entry_head_def body_def codes_def)
  have "60 \<notin> set body"
    using attr_escape_no_lt format_2f_no_lt by (cases "ae_detail e") (simp_all add: body_def codes_def)
  moreover have "envelope_tag (60 # body @ z) \<noteq> None"
    by (simp add: body_def codes_def memory_word_def ascii_lower_code_def u_isspace_def)
  ultimately show ?thesis using envelope_count_skip [of body z] by (simp add: h del: envelope_tag.simps)
qed

definition entry_tags :: "assembled_entry \<Rightarrow> nat" where
  "entry_tags e = (if ae_text e = [] then 1 else if dangling (ae_text e) then 3 else 2)"

lemma envelope_count_entry:
  assumes "z = [] \<or> hd z = 10"
  shows "envelope_count (render_entry e @ z) = entry_tags e + envelope_count z"
proof -
  have "envelope_count (codes ''</memory>'' @ z) = 1 + envelope_count z"
    by (simp add: codes_def memory_word_def ascii_lower_code_def)
  then show ?thesis
    using envelope_count_head [of e "codes '' />'' @ z"] envelope_count_skip [of "codes '' />''" z]
      envelope_count_head [of e "[62, 10] @ body_escape (ae_text e) @ 10 # codes ''</memory>'' @ z"]
      envelope_count_body [of "ae_text e" "codes ''</memory>'' @ z"]
    by (simp add: render_entry_def entry_tags_def codes_def)
qed

section \<open>Properties\<close>

text \<open>
  What a stored text can do to the envelope of a rendered block. Whatever the URIs, categories and bodies
  contain, the tags in the block are exactly the ones the renderer writes, one for an entry without a body and an opening
  and a closing one otherwise, except that a body ending in a bare tag name such as \<^verbatim>\<open></memory\<close> contributes
  one tag of its own: the look-ahead sees no character behind it, and the line feed added by the renderer completes it.
\<close>

theorem render_context_tags:
  "envelope_count (render_context es) = sum_list (map entry_tags es)"
proof (induction es rule: render_context.induct)
  case (2 e)
  then show ?case using envelope_count_entry [of "[]" e] by simp
next
  case (3 e e' es)
  then show ?case using envelope_count_entry [of "[10] @ render_context (e' # es)" e] by simp
qed simp

end
