(* ===== verification/Context_Budget.thy ===== *)
theory Context_Budget
  imports Context_Render
begin

text \<open>
  \<^verbatim>\<open>context_assembler/budget.py\<close>: every candidate is placed at its category's default tier first, then
  deepens on leftover budget. The arguments the code takes from its surroundings are a record: the extraction of overviews
  and the bodies read (\<open>Context_Tiers\<close>), and Python's \<^verbatim>\<open>hash\<close> of a string, of which nothing is assumed.
\<close>

section \<open>The plan\<close>

definition SEPARATOR_TOKENS :: int where
  "SEPARATOR_TOKENS = 1"

record slot =
  sl_candidate :: candidate
  sl_entry :: assembled_entry
  sl_ceiling :: tier
  sl_cost :: int

record plan_stats =
  ps_max_tokens :: int
  ps_used_tokens :: int
  ps_per_entry_cap :: int
  ps_returned :: nat
  ps_dropped :: nat
  ps_deduped :: nat
  ps_detail :: "(string \<times> tier) list + tier option"
  ps_tier_counts :: "(tier \<times> nat) list"
  ps_floor_tokens :: int
  ps_overview_upgrades :: nat
  ps_full_upgrades :: nat
  ps_spare_upgrades :: nat

record budget_plan =
  bp_entries :: "assembled_entry list"
  bp_stats :: plan_stats

record plan_env =
  pe_overview :: "candidate \<Rightarrow> ustr \<Rightarrow> ustr"
  pe_contents :: "string \<Rightarrow> ustr option"
  pe_hash :: "ustr \<Rightarrow> int"

abbreviation text_of :: "plan_env \<Rightarrow> candidate \<Rightarrow> tier \<Rightarrow> ustr option" where
  "text_of env \<equiv> tier_text (pe_overview env) (pe_contents env)"

definition per_entry_cap :: "int \<Rightarrow> nat \<Rightarrow> int" where
  "per_entry_cap max_tokens candidate_count = max 1 (max_tokens div max 1 (int candidate_count) * 2)"

definition tiers_down_from :: "candidate \<Rightarrow> tier \<Rightarrow> tier list" where
  "tiers_down_from c t =
     (let order = rev (take (TIER_RANK t + 1) TIER_ORDER) in
      if t = Tier_abstract \<and> abstract_substitute c = Tier_overview
      then take 1 order @ [Tier_overview] @ drop 1 order
      else order)"

definition make_entry :: "candidate \<Rightarrow> tier \<Rightarrow> ustr \<Rightarrow> assembled_entry" where
  "make_entry c t text =
     (let entry = \<lparr>ae_uri = cd_base_uri c, ae_category = cd_category c, ae_score = cd_score c, ae_detail = t,
                   ae_text = text, ae_origin = cd_origin c, ae_tokens = 0\<rparr>
      in entry\<lparr>ae_tokens := fragment_tokens entry\<rparr>)"

definition oversized_abstract_needs_body :: "candidate \<Rightarrow> int \<Rightarrow> bool" where
  "oversized_abstract_needs_body c cap =
     (if abstract_substitute c \<noteq> Tier_overview then False
      else
        let text = u_strip (cd_abstract c)
        in text \<noteq> [] \<and> fragment_tokens (make_entry c Tier_abstract text) > cap)"

definition fits_cap :: "int \<Rightarrow> tier \<Rightarrow> int \<Rightarrow> bool" where
  "fits_cap cap t tokens \<longleftrightarrow> t = Tier_uri \<or> tokens \<le> cap"

text \<open>The inner loop of the breadth pass: the first tier that is available, within the cap and within the budget.\<close>

fun place :: "plan_env \<Rightarrow> int \<Rightarrow> int \<Rightarrow> int \<Rightarrow> bool \<Rightarrow> candidate \<Rightarrow> tier \<Rightarrow> tier list \<Rightarrow> slot option" where
  "place env cap max_tokens used have_slots c ceil_tier [] = None"
| "place env cap max_tokens used have_slots c ceil_tier (t # ts) =
     (case text_of env c t of
        None \<Rightarrow> place env cap max_tokens used have_slots c ceil_tier ts
      | Some text \<Rightarrow>
          let entry = make_entry c t text;
              cost = ae_tokens entry + (if have_slots then SEPARATOR_TOKENS else 0)
          in if \<not> fits_cap cap t (ae_tokens entry) then place env cap max_tokens used have_slots c ceil_tier ts
             else if used + cost > max_tokens then place env cap max_tokens used have_slots c ceil_tier ts
             else Some \<lparr>sl_candidate = c, sl_entry = entry, sl_ceiling = ceil_tier, sl_cost = cost\<rparr>)"

record plan_state =
  pl_slots :: "slot list"
  pl_used :: int
  pl_dropped :: nat
  pl_deduped :: nat
  pl_seen :: "int set"

definition body_key :: "plan_env \<Rightarrow> slot \<Rightarrow> int" where
  "body_key env s =
     pe_hash env (if ae_text (sl_entry s) \<noteq> [] then ae_text (sl_entry s) else codes (cd_base_uri (sl_candidate s)))"

definition floor_step :: "plan_env \<Rightarrow> detail_pins \<Rightarrow> int \<Rightarrow> int \<Rightarrow> plan_state \<Rightarrow> candidate \<Rightarrow> plan_state" where
  "floor_step env pins cap max_tokens st c =
     (let (start, ceil_tier) = tier_window c (for_category pins (cd_category c))
      in case place env cap max_tokens (pl_used st) (pl_slots st \<noteq> []) c ceil_tier (tiers_down_from c start) of
           None \<Rightarrow> st\<lparr>pl_dropped := pl_dropped st + 1\<rparr>
         | Some placed \<Rightarrow>
             if body_key env placed \<in> pl_seen st then st\<lparr>pl_deduped := pl_deduped st + 1\<rparr>
             else st\<lparr>pl_seen := insert (body_key env placed) (pl_seen st),
                     pl_slots := pl_slots st @ [placed],
                     pl_used := pl_used st + sl_cost placed\<rparr>)"

definition floor_pass :: "plan_env \<Rightarrow> detail_pins \<Rightarrow> int \<Rightarrow> int \<Rightarrow> candidate list \<Rightarrow> plan_state" where
  "floor_pass env pins cap max_tokens cs =
     foldl (floor_step env pins cap max_tokens)
       \<lparr>pl_slots = [], pl_used = 0, pl_dropped = 0, pl_deduped = 0, pl_seen = {}\<rparr> cs"

text \<open>One slot of a depth pass: \<open>Some\<close> the deepened slot and the change of the used tokens.\<close>

definition upgrade_slot :: "plan_env \<Rightarrow> int \<Rightarrow> int \<Rightarrow> tier \<Rightarrow> bool \<Rightarrow> int \<Rightarrow> slot \<Rightarrow> (slot \<times> int) option" where
  "upgrade_slot env cap max_tokens target respect_cap used s =
     (if TIER_RANK (ae_detail (sl_entry s)) \<ge> TIER_RANK target then None
      else if TIER_RANK target > TIER_RANK (sl_ceiling s) then None
      else case text_of env (sl_candidate s) target of
             None \<Rightarrow> None
           | Some text \<Rightarrow>
               let entry = make_entry (sl_candidate s) target text;
                   delta = ae_tokens entry - ae_tokens (sl_entry s)
               in if respect_cap \<and> \<not> fits_cap cap target (ae_tokens entry) then None
                  else if used + delta > max_tokens then None
                  else Some (s\<lparr>sl_entry := entry, sl_cost := sl_cost s + delta\<rparr>, delta))"

fun upgrade_pass ::
    "plan_env \<Rightarrow> int \<Rightarrow> int \<Rightarrow> tier \<Rightarrow> bool \<Rightarrow> int \<Rightarrow> slot list \<Rightarrow> slot list \<times> int \<times> nat" where
  "upgrade_pass env cap max_tokens target respect_cap used [] = ([], used, 0)"
| "upgrade_pass env cap max_tokens target respect_cap used (s # ss) =
     (case upgrade_slot env cap max_tokens target respect_cap used s of
        None \<Rightarrow>
          let (ss', used', n) = upgrade_pass env cap max_tokens target respect_cap used ss
          in (s # ss', used', n)
      | Some (s', delta) \<Rightarrow>
          let (ss', used', n) = upgrade_pass env cap max_tokens target respect_cap (used + delta) ss
          in (s' # ss', used', n + 1))"

text \<open>\<^verbatim>\<open>tier_counts[d] = tier_counts.get(d, 0) + 1\<close>, in the order of first use.\<close>

fun count_tier :: "(tier \<times> nat) list \<Rightarrow> tier \<Rightarrow> (tier \<times> nat) list" where
  "count_tier [] t = [(t, 1)]"
| "count_tier ((u, n) # rest) t = (if u = t then (u, n + 1) # rest else (u, n) # count_tier rest t)"

definition plan_entries :: "plan_env \<Rightarrow> candidate list \<Rightarrow> int \<Rightarrow> detail_request \<Rightarrow> budget_plan" where
  "plan_entries env candidates max_tokens detail =
     (let max_tokens = max 1 max_tokens;
          pins = normalize_detail detail;
          cap = per_entry_cap max_tokens (length candidates);
          st = floor_pass env pins cap max_tokens candidates;
          (slots1, used1, overview_upgrades) = upgrade_pass env cap max_tokens Tier_overview True (pl_used st) (pl_slots st);
          (slots2, used2, full_upgrades) = upgrade_pass env cap max_tokens Tier_full True used1 slots1;
          (slots3, used3, spare_upgrades) = upgrade_pass env cap max_tokens Tier_full False used2 slots2;
          entries = map sl_entry slots3
      in \<lparr>bp_entries = entries,
          bp_stats = \<lparr>ps_max_tokens = max_tokens, ps_used_tokens = used3, ps_per_entry_cap = cap,
            ps_returned = length entries, ps_dropped = pl_dropped st, ps_deduped = pl_deduped st,
            ps_detail = as_stats pins, ps_tier_counts = foldl count_tier [] (map ae_detail entries),
            ps_floor_tokens = pl_used st, ps_overview_upgrades = overview_upgrades,
            ps_full_upgrades = full_upgrades, ps_spare_upgrades = spare_upgrades\<rparr>\<rparr>)"

section \<open>What a slot is\<close>

text \<open>The entry of a slot is the one made of its candidate at some tier, its text is that tier's, and the tier is below the
  ceiling or one of the tiers tried in the breadth pass.\<close>

definition slot_ok :: "plan_env \<Rightarrow> detail_pins \<Rightarrow> slot \<Rightarrow> bool" where
  "slot_ok env pins s \<longleftrightarrow>
     (\<exists>text. text_of env (sl_candidate s) (ae_detail (sl_entry s)) = Some text \<and>
        sl_entry s = make_entry (sl_candidate s) (ae_detail (sl_entry s)) text) \<and>
     sl_ceiling s = snd (tier_window (sl_candidate s) (for_category pins (cd_category (sl_candidate s)))) \<and>
     (TIER_RANK (ae_detail (sl_entry s)) \<le> TIER_RANK (sl_ceiling s) \<or>
      ae_detail (sl_entry s) \<in> set (tiers_down_from (sl_candidate s)
        (fst (tier_window (sl_candidate s) (for_category pins (cd_category (sl_candidate s)))))))"

definition total_cost :: "slot list \<Rightarrow> int" where
  "total_cost ss = sum_list (map (ae_tokens \<circ> sl_entry) ss) + int (length ss - 1)"

lemma total_cost_Nil [simp]: "total_cost [] = 0"
  by (simp add: total_cost_def)

lemma total_cost_snoc:
  "total_cost (ss @ [s]) = total_cost ss + ae_tokens (sl_entry s) + (if ss = [] then 0 else 1)"
  by (cases ss) (simp_all add: total_cost_def)

lemma make_entry_simps [simp]:
  "ae_uri (make_entry c t x) = cd_base_uri c" "ae_detail (make_entry c t x) = t" "ae_text (make_entry c t x) = x"
  "ae_category (make_entry c t x) = cd_category c"
  by (simp_all add: make_entry_def Let_def)

lemma make_entry_tokens: "ae_tokens (make_entry c t x) = fragment_tokens (make_entry c t x)"
  by (simp add: make_entry_def Let_def fragment_tokens_def render_entry_def entry_head_def)

lemma place_Some:
  assumes "place env cap m used b c ceil_tier ts = Some s"
  shows "sl_candidate s = c \<and> sl_ceiling s = ceil_tier \<and> used + sl_cost s \<le> m \<and>
     sl_cost s = ae_tokens (sl_entry s) + (if b then 1 else 0) \<and> ae_detail (sl_entry s) \<in> set ts \<and>
     fits_cap cap (ae_detail (sl_entry s)) (ae_tokens (sl_entry s)) \<and>
     (\<exists>text. text_of env c (ae_detail (sl_entry s)) = Some text \<and> sl_entry s = make_entry c (ae_detail (sl_entry s)) text)"
  using assms
proof (induction ts)
  case (Cons t ts)
  show ?case
  proof (cases "place env cap m used b c ceil_tier ts = Some s")
    case True
    then show ?thesis using Cons.IH by auto
  next
    case False
    then show ?thesis using Cons.prems by (auto simp: Let_def SEPARATOR_TOKENS_def split: option.splits if_splits)
  qed
qed simp

definition floor_inv :: "plan_env \<Rightarrow> detail_pins \<Rightarrow> int \<Rightarrow> plan_state \<Rightarrow> candidate list \<Rightarrow> bool" where
  "floor_inv env pins m st cs \<longleftrightarrow>
     list_all (slot_ok env pins) (pl_slots st) \<and> pl_used st = total_cost (pl_slots st) \<and> pl_used st \<le> m \<and>
     subseq (map sl_candidate (pl_slots st)) cs \<and>
     length (pl_slots st) + pl_dropped st + pl_deduped st = length cs \<and>
     distinct (map (body_key env) (pl_slots st)) \<and> pl_seen st = set (map (body_key env) (pl_slots st))"

lemma floor_step_inv:
  assumes "floor_inv env pins m st cs"
  shows "floor_inv env pins m (floor_step env pins cap m st c) (cs @ [c])"
proof -
  obtain start ceil_tier where w: "tier_window c (for_category pins (cd_category c)) = (start, ceil_tier)" by fastforce
  let ?p = "place env cap m (pl_used st) (pl_slots st \<noteq> []) c ceil_tier (tiers_down_from c start)"
  have sub: "subseq (map sl_candidate (pl_slots st)) (cs @ [c])"
    using assms by (auto simp: floor_inv_def intro: subseq_order.trans prefix_imp_subseq)
  show ?thesis
  proof (cases ?p)
    case None
    then have "floor_step env pins cap m st c = st\<lparr>pl_dropped := pl_dropped st + 1\<rparr>" by (simp add: floor_step_def w)
    then show ?thesis using assms sub by (simp add: floor_inv_def)
  next
    case (Some s)
    note p = place_Some [OF Some]
    show ?thesis
    proof (cases "body_key env s \<in> pl_seen st")
      case True
      then have "floor_step env pins cap m st c = st\<lparr>pl_deduped := pl_deduped st + 1\<rparr>" by (simp add: floor_step_def w Some)
      then show ?thesis using assms sub by (simp add: floor_inv_def)
    next
      case False
      then have "floor_step env pins cap m st c = st\<lparr>pl_seen := insert (body_key env s) (pl_seen st),
          pl_slots := pl_slots st @ [s], pl_used := pl_used st + sl_cost s\<rparr>" by (simp add: floor_step_def w Some)
      moreover have "slot_ok env pins s" using p by (auto simp: slot_ok_def w)
      moreover have "subseq (map sl_candidate (pl_slots st) @ [c]) (cs @ [c])" using assms by (simp add: floor_inv_def)
      ultimately show ?thesis
        using assms False p by (auto simp: floor_inv_def total_cost_snoc)
    qed
  qed
qed

lemma floor_pass_inv: "0 \<le> m \<Longrightarrow> floor_inv env pins m (floor_pass env pins cap m cs) cs"
proof (induction cs rule: rev_induct)
  case Nil
  then show ?case by (simp add: floor_inv_def floor_pass_def)
next
  case (snoc c cs)
  then show ?case using floor_step_inv [of env pins m _ cs cap c] by (simp add: floor_pass_def)
qed

section \<open>The depth passes\<close>

lemma upgrade_slot_Some:
  assumes "upgrade_slot env cap m target b used s = Some (s', d)" and "slot_ok env pins s"
  shows "slot_ok env pins s' \<and> sl_candidate s' = sl_candidate s \<and> used + d \<le> m \<and>
     ae_tokens (sl_entry s') = ae_tokens (sl_entry s) + d \<and> ae_detail (sl_entry s') = target \<and>
     TIER_RANK (ae_detail (sl_entry s)) < TIER_RANK target"
  using assms by (auto simp: upgrade_slot_def slot_ok_def Let_def split: if_splits option.splits)

text \<open>A pass deepens slots: same candidates in the same order, each tier at least as deep.\<close>

definition deepened :: "slot \<Rightarrow> slot \<Rightarrow> bool" where
  "deepened s s' \<longleftrightarrow> sl_candidate s' = sl_candidate s \<and> TIER_RANK (ae_detail (sl_entry s)) \<le> TIER_RANK (ae_detail (sl_entry s'))"

lemma deepened_step: "deepened r s \<Longrightarrow> deepened s t \<Longrightarrow> deepened r t"
  by (simp add: deepened_def)

lemma deepened_trans:
  "list_all2 deepened xs ys \<Longrightarrow> list_all2 deepened ys zs \<Longrightarrow> list_all2 deepened xs zs"
  by (rule list_all2_trans [OF deepened_step])

lemma upgrade_pass_inv:
  assumes "upgrade_pass env cap m target b used ss = (ss', used', n)" and "list_all (slot_ok env pins) ss" and "used \<le> m"
  shows "list_all (slot_ok env pins) ss' \<and> used' \<le> m \<and> list_all2 deepened ss ss' \<and>
     used' - used = sum_list (map (ae_tokens \<circ> sl_entry) ss') - sum_list (map (ae_tokens \<circ> sl_entry) ss)"
  using assms
proof (induction ss arbitrary: ss' used used' n)
  case (Cons s ss)
  show ?case
  proof (cases "upgrade_slot env cap m target b used s")
    case None
    obtain r u k where r: "upgrade_pass env cap m target b used ss = (r, u, k)" by (cases "upgrade_pass env cap m target b used ss")
    with None Cons.prems(1) have "ss' = s # r" "used' = u" by simp_all
    then show ?thesis using Cons.IH [OF r _ Cons.prems(3)] Cons.prems(2) by (simp add: deepened_def)
  next
    case (Some p)
    obtain s' d where p: "p = (s', d)" by (cases p)
    note u = upgrade_slot_Some [OF Some [unfolded p], of pins]
    obtain r v k where r: "upgrade_pass env cap m target b (used + d) ss = (r, v, k)"
      by (cases "upgrade_pass env cap m target b (used + d) ss")
    with Some p Cons.prems(1) have "ss' = s' # r" "used' = v" by simp_all
    then show ?thesis using Cons.IH [OF r] Cons.prems(2) u by (simp add: deepened_def)
  qed
qed simp

lemma upgrade_pass_cost:
  assumes "upgrade_pass env cap m target b used ss = (ss', used', n)" and "list_all (slot_ok env pins) ss" and "used \<le> m"
    and "used = total_cost ss"
  shows "list_all (slot_ok env pins) ss' \<and> used' \<le> m \<and> list_all2 deepened ss ss' \<and> used' = total_cost ss'"
proof -
  note u = upgrade_pass_inv [OF assms(1-3)]
  then have "length ss' = length ss" by (metis list_all2_lengthD)
  then show ?thesis using u assms(4) by (simp add: total_cost_def)
qed

text \<open>The whole plan, in terms of the slots of the breadth pass and the final ones.\<close>

lemma plan_entries_slots:
  fixes env cs m detail
  defines "pins \<equiv> normalize_detail detail" and "st \<equiv> floor_pass env (normalize_detail detail) (per_entry_cap (max 1 m) (length cs)) (max 1 m) cs"
  obtains ss where "bp_entries (plan_entries env cs m detail) = map sl_entry ss"
    and "list_all (slot_ok env pins) ss" and "list_all2 deepened (pl_slots st) ss"
    and "ps_used_tokens (bp_stats (plan_entries env cs m detail)) = total_cost ss" and "total_cost ss \<le> max 1 m"
    and "ps_returned (bp_stats (plan_entries env cs m detail)) = length ss"
    and "ps_dropped (bp_stats (plan_entries env cs m detail)) = pl_dropped st"
    and "ps_deduped (bp_stats (plan_entries env cs m detail)) = pl_deduped st"
proof -
  let ?m = "max 1 m"
  let ?cap = "per_entry_cap ?m (length cs)"
  have f: "floor_inv env pins ?m st cs" unfolding st_def pins_def by (rule floor_pass_inv) simp
  obtain s1 u1 n1 where 1: "upgrade_pass env ?cap ?m Tier_overview True (pl_used st) (pl_slots st) = (s1, u1, n1)" by (rule prod_cases3)
  obtain s2 u2 n2 where 2: "upgrade_pass env ?cap ?m Tier_full True u1 s1 = (s2, u2, n2)" by (rule prod_cases3)
  obtain s3 u3 n3 where 3: "upgrade_pass env ?cap ?m Tier_full False u2 s2 = (s3, u3, n3)" by (rule prod_cases3)
  have i1: "list_all (slot_ok env pins) s1 \<and> u1 \<le> ?m \<and> list_all2 deepened (pl_slots st) s1 \<and> u1 = total_cost s1"
    by (rule upgrade_pass_cost [OF 1]) (use f in \<open>simp_all add: floor_inv_def\<close>)
  have i2: "list_all (slot_ok env pins) s2 \<and> u2 \<le> ?m \<and> list_all2 deepened s1 s2 \<and> u2 = total_cost s2"
    by (rule upgrade_pass_cost [OF 2]) (use i1 in simp_all)
  have i3: "list_all (slot_ok env pins) s3 \<and> u3 \<le> ?m \<and> list_all2 deepened s2 s3 \<and> u3 = total_cost s3"
    by (rule upgrade_pass_cost [OF 3]) (use i2 in simp_all)
  show ?thesis
  proof (rule that [of s3])
    show "list_all2 deepened (pl_slots st) s3" using i1 i2 i3 deepened_trans by blast
  qed (use i3 in \<open>simp_all add: plan_entries_def 1 2 3 Let_def flip: st_def\<close>)
qed

lemma slot_tokens: "slot_ok env pins s \<Longrightarrow> ae_tokens (sl_entry s) = fragment_tokens (sl_entry s)"
  unfolding slot_ok_def using make_entry_tokens by metis

lemma slot_uri: "slot_ok env pins s \<Longrightarrow> ae_uri (sl_entry s) = cd_base_uri (sl_candidate s)"
  unfolding slot_ok_def using make_entry_simps(1) by metis

lemma slot_category: "slot_ok env pins s \<Longrightarrow> ae_category (sl_entry s) = cd_category (sl_candidate s)"
  unfolding slot_ok_def using make_entry_simps(4) by metis

lemma slot_text: "slot_ok env pins s \<Longrightarrow> text_of env (sl_candidate s) (ae_detail (sl_entry s)) = Some (ae_text (sl_entry s))"
  unfolding slot_ok_def using make_entry_simps(3) by metis

lemma deepened_candidates: "list_all2 deepened xs ys \<Longrightarrow> map sl_candidate ys = map sl_candidate xs"
  by (induction rule: list_all2_induct) (simp_all add: deepened_def)

text \<open>A summary category never leaves the abstract tier without a pin.\<close>

lemma summary_tiers:
  assumes "cd_category c \<in> {''resources'', ''skills''}" and "\<not> cd_is_directory c"
  shows "set (tiers_down_from c (fst (tier_window c None))) \<subseteq> {Tier_uri, Tier_abstract}"
    and "TIER_RANK (snd (tier_window c None)) \<le> 1" and "abstract_substitute c = Tier_uri"
proof -
  show s: "abstract_substitute c = Tier_uri"
    using assms(1) by (auto simp: abstract_substitute_def FULL_BODY_ABSTRACT_CATEGORIES_def MEMORY_CATEGORIES_def OTHER_MEMORY_CATEGORY_def)
  show "set (tiers_down_from c (fst (tier_window c None))) \<subseteq> {Tier_uri, Tier_abstract}"
    using s by (auto simp: tier_window_summary [OF assms] tiers_down_from_def TIER_ORDER_def)
  show "TIER_RANK (snd (tier_window c None)) \<le> 1" by (simp add: tier_window_summary [OF assms])
qed

lemma summary_slot:
  assumes "slot_ok env pins s" and "cd_category (sl_candidate s) \<in> {''resources'', ''skills''}" and "\<not> cd_is_directory (sl_candidate s)"
    and "for_category pins (cd_category (sl_candidate s)) = None"
  shows "ae_text (sl_entry s) = [] \<or> ae_text (sl_entry s) = u_strip (cd_abstract (sl_candidate s))"
proof -
  have "TIER_RANK (ae_detail (sl_entry s)) \<le> 1 \<or> ae_detail (sl_entry s) \<in> {Tier_uri, Tier_abstract}"
    using assms(1,4) summary_tiers [OF assms(2,3)] unfolding slot_ok_def by auto
  then have "ae_detail (sl_entry s) = Tier_uri \<or> ae_detail (sl_entry s) = Tier_abstract" by (cases "ae_detail (sl_entry s)") simp_all
  then show ?thesis using slot_text [OF assms(1)] by (auto simp: text_or_None_def split: if_splits)
qed

lemma plan_budget:
  "ps_used_tokens (bp_stats (plan_entries env cs m detail)) \<le> max 1 m \<and>
   ps_used_tokens (bp_stats (plan_entries env cs m detail)) =
     sum_list (map fragment_tokens (bp_entries (plan_entries env cs m detail))) +
     int (length (bp_entries (plan_entries env cs m detail)) - 1) \<and>
   int (estimate_text_tokens (render_context (bp_entries (plan_entries env cs m detail))))
     \<le> ps_used_tokens (bp_stats (plan_entries env cs m detail))"
proof (rule plan_entries_slots [of env cs m detail])
  fix ss
  assume e: "bp_entries (plan_entries env cs m detail) = map sl_entry ss"
    and ok: "list_all (slot_ok env (normalize_detail detail)) ss"
    and u: "ps_used_tokens (bp_stats (plan_entries env cs m detail)) = total_cost ss" and le: "total_cost ss \<le> max 1 m"
  have "map (ae_tokens \<circ> sl_entry) ss = map fragment_tokens (map sl_entry ss)"
    using ok slot_tokens by (auto simp: list_all_iff)
  then have "total_cost ss = sum_list (map fragment_tokens (map sl_entry ss)) + int (length ss - 1)"
    unfolding total_cost_def by metis
  then show ?thesis using le u render_context_cost [of "map sl_entry ss"] unfolding e by simp
qed

lemma plan_budget_bound:
  "int (estimate_text_tokens (render_context (bp_entries (plan_entries env cs m detail)))) \<le> max 1 m"
  using plan_budget [of env cs m detail] by linarith

lemma plan_entry_candidate:
  assumes "e \<in> set (bp_entries (plan_entries env cs m detail))"
  shows "\<exists>c \<in> set cs. ae_uri e = cd_base_uri c"
proof (rule plan_entries_slots [of env cs m detail])
  let ?st = "floor_pass env (normalize_detail detail) (per_entry_cap (max 1 m) (length cs)) (max 1 m) cs"
  fix ss
  assume e: "bp_entries (plan_entries env cs m detail) = map sl_entry ss"
    and ok: "list_all (slot_ok env (normalize_detail detail)) ss" and dp: "list_all2 deepened (pl_slots ?st) ss"
  obtain s where s: "s \<in> set ss" "e = sl_entry s" using assms e by auto
  have "floor_inv env (normalize_detail detail) (max 1 m) ?st cs" by (rule floor_pass_inv) simp
  then have "subseq (map sl_candidate ss) cs" by (simp add: floor_inv_def deepened_candidates [OF dp])
  moreover have "sl_candidate s \<in> set (map sl_candidate ss)" using s(1) by simp
  ultimately have "sl_candidate s \<in> set cs" by (rule list_emb_set) simp
  moreover have "ae_uri e = cd_base_uri (sl_candidate s)" using ok s slot_uri [of env "normalize_detail detail" s] by (simp add: list_all_iff)
  ultimately show ?thesis by blast
qed

section \<open>Properties\<close>

text \<open>
  C36. The budget of an assembled context is a hard bound on what is delivered: the tokens the plan reports are the
  costs of the entries with one token for every separator, they never exceed the requested maximum (at least one), and
  the rendered block, estimated as a whole, costs at most that. It holds for every overview extraction, every stored
  text and every string hash.
\<close>

theorem plan_within_budget:
  "ps_used_tokens (bp_stats (plan_entries env cs m detail)) \<le> max 1 m \<and>
   ps_used_tokens (bp_stats (plan_entries env cs m detail)) =
     sum_list (map fragment_tokens (bp_entries (plan_entries env cs m detail))) +
     int (length (bp_entries (plan_entries env cs m detail)) - 1) \<and>
   int (estimate_text_tokens (render_context (bp_entries (plan_entries env cs m detail))))
     \<le> ps_used_tokens (bp_stats (plan_entries env cs m detail))"
  by (rule plan_budget)

text \<open>
  Breadth before depth: every candidate is returned, dropped for lack of budget or suppressed as a duplicate, and the
  counts say so; the returned entries are candidates in their order; and the depth passes only deepen what the
  breadth pass placed, they never remove or replace an entry.
\<close>

theorem plan_accounts_for_candidates:
  "ps_returned (bp_stats (plan_entries env cs m detail)) + ps_dropped (bp_stats (plan_entries env cs m detail)) +
     ps_deduped (bp_stats (plan_entries env cs m detail)) = length cs \<and>
   subseq (map ae_uri (bp_entries (plan_entries env cs m detail))) (map cd_base_uri cs) \<and>
   list_all2 (\<lambda>s e. ae_uri e = cd_base_uri (sl_candidate s) \<and> TIER_RANK (ae_detail (sl_entry s)) \<le> TIER_RANK (ae_detail e))
     (pl_slots (floor_pass env (normalize_detail detail) (per_entry_cap (max 1 m) (length cs)) (max 1 m) cs))
     (bp_entries (plan_entries env cs m detail))"
proof (rule plan_entries_slots [of env cs m detail])
  let ?st = "floor_pass env (normalize_detail detail) (per_entry_cap (max 1 m) (length cs)) (max 1 m) cs"
  fix ss
  assume e: "bp_entries (plan_entries env cs m detail) = map sl_entry ss"
    and ok: "list_all (slot_ok env (normalize_detail detail)) ss" and dp: "list_all2 deepened (pl_slots ?st) ss"
    and st: "ps_returned (bp_stats (plan_entries env cs m detail)) = length ss"
      "ps_dropped (bp_stats (plan_entries env cs m detail)) = pl_dropped ?st"
      "ps_deduped (bp_stats (plan_entries env cs m detail)) = pl_deduped ?st"
  have f: "floor_inv env (normalize_detail detail) (max 1 m) ?st cs" by (rule floor_pass_inv) simp
  have "map ae_uri (map sl_entry ss) = map cd_base_uri (map sl_candidate (pl_slots ?st))"
    using ok slot_uri unfolding deepened_candidates [OF dp, symmetric] by (auto simp: list_all_iff)
  moreover have "subseq (map cd_base_uri (map sl_candidate (pl_slots ?st))) (map cd_base_uri cs)"
    using f by (intro subseq_map) (simp add: floor_inv_def)
  moreover have "list_all2 (\<lambda>s e. ae_uri e = cd_base_uri (sl_candidate s) \<and> TIER_RANK (ae_detail (sl_entry s)) \<le> TIER_RANK (ae_detail e))
      (pl_slots ?st) (map sl_entry ss)"
    unfolding list_all2_map2 using dp ok slot_uri by (fastforce simp: list_all2_conv_all_nth list_all_length deepened_def)
  ultimately show ?thesis using f list_all2_lengthD [OF dp] unfolding e st by (simp add: floor_inv_def)
qed

text \<open>
  Bodies of resources and skills stay off the default path: when the caller pins no tier for the category, an entry
  of a resource or skill file carries nothing or its generated abstract, whatever budget is left over, and the assembly has no
  reason to read the file.
\<close>

theorem summary_bodies_not_disclosed:
  assumes "e \<in> set (bp_entries (plan_entries env cs m detail))" and "ae_category e \<in> {''resources'', ''skills''}"
    and "for_category (normalize_detail detail) (ae_category e) = None"
    and "list_all (\<lambda>c. cd_category c = ae_category e \<longrightarrow> \<not> cd_is_directory c) cs"
  shows "\<exists>c \<in> set cs. ae_uri e = cd_base_uri c \<and> (ae_text e = [] \<or> ae_text e = u_strip (cd_abstract c)) \<and>
     \<not> needs_content c None \<and> \<not> oversized_abstract_needs_body c cap"
proof (rule plan_entries_slots [of env cs m detail])
  let ?st = "floor_pass env (normalize_detail detail) (per_entry_cap (max 1 m) (length cs)) (max 1 m) cs"
  fix ss
  assume e: "bp_entries (plan_entries env cs m detail) = map sl_entry ss"
    and ok: "list_all (slot_ok env (normalize_detail detail)) ss" and dp: "list_all2 deepened (pl_slots ?st) ss"
  obtain s where s: "s \<in> set ss" "e = sl_entry s" using assms(1) e by auto
  have oks: "slot_ok env (normalize_detail detail) s" using ok s(1) by (simp add: list_all_iff)
  have "floor_inv env (normalize_detail detail) (max 1 m) ?st cs" by (rule floor_pass_inv) simp
  then have "subseq (map sl_candidate ss) cs" by (simp add: floor_inv_def deepened_candidates [OF dp])
  moreover have "sl_candidate s \<in> set (map sl_candidate ss)" using s(1) by simp
  ultimately have c: "sl_candidate s \<in> set cs" by (rule list_emb_set) simp
  have cat: "cd_category (sl_candidate s) = ae_category e" using slot_category [OF oks] s(2) by simp
  then have d: "\<not> cd_is_directory (sl_candidate s)" using assms(4) c by (simp add: list_all_iff)
  have cat2: "cd_category (sl_candidate s) \<in> {''resources'', ''skills''}" using cat assms(2) by simp
  note t = summary_tiers [OF cat2 d]
  have "ae_text e = [] \<or> ae_text e = u_strip (cd_abstract (sl_candidate s))"
    using summary_slot [OF oks cat2 d] assms(3) cat s(2) by simp
  then show ?thesis
    using c slot_uri [OF oks] s(2) t(2,3) by (intro bexI [of _ "sl_candidate s"]) (simp_all add: needs_content_def oversized_abstract_needs_body_def)
qed

definition sample_candidate :: candidate where
  "sample_candidate = \<lparr>cd_uri = ''viking://resources/a.md'', cd_base_uri = ''viking://resources/a.md'', cd_category = ''resources'',
     cd_score = 1 / 2, cd_ranked_score = 1 / 2, cd_level = 2, cd_abstract = codes ''notes'', cd_origin = ''self'',
     cd_is_directory = False, cd_read_ctx = \<lparr>rc_user = \<lparr>ui_account_id = ''acme'', ui_user_id = ''ada''\<rparr>, rc_role = ''user'',
       rc_group_ids = [], rc_actor_peer_id = None, rc_from_oauth = False, rc_api_key = None, rc_bypass_acl = False\<rparr>\<rparr>"

definition sample_env :: plan_env where
  "sample_env = \<lparr>pe_overview = (\<lambda>_ s. s), pe_contents = (\<lambda>_. Some (codes ''secret'')), pe_hash = (\<lambda>s. int (sum_list s))\<rparr>"

lemma sample_window: "tier_window sample_candidate None = (Tier_abstract, Tier_abstract)"
  using tier_window_summary [of sample_candidate] by (simp add: sample_candidate_def codes_def u_strip_def u_isspace_def)

lemma sample_down: "tiers_down_from sample_candidate Tier_abstract = [Tier_abstract, Tier_uri]"
  by code_simp

lemma sample_text: "text_of sample_env sample_candidate Tier_abstract = Some (codes ''notes'')"
  by (simp add: sample_candidate_def codes_def u_strip_def u_isspace_def text_or_None_def)

lemma sample_head:
  "length (entry_head (make_entry sample_candidate Tier_abstract (codes ''notes''))) = 85"
  "list_all (\<lambda>c. c < 128) (entry_head (make_entry sample_candidate Tier_abstract (codes ''notes'')))"
  by code_simp+

lemma sample_body: "body_escape (codes ''notes'') = codes ''notes''"
  by code_simp

lemma sample_tokens: "ae_tokens (make_entry sample_candidate Tier_abstract (codes ''notes'')) = 26"
  unfolding make_entry_tokens fragment_tokens_def render_entry_def make_entry_simps sample_body
  using sample_head by (simp add: estimate_text_tokens_def codes_def)

lemma sample_facts:
  "for_category (normalize_detail (Detail_value PNone)) c = None"
  "per_entry_cap 100 1 = 200"
  by (simp_all add: for_category_def pinnable_tier_def per_entry_cap_def)

lemmas sample_defs = sample_window sample_down sample_text sample_tokens sample_facts

lemma sample_floor:
  "pl_slots (floor_pass sample_env (normalize_detail (Detail_value PNone)) 200 100 [sample_candidate]) =
     [\<lparr>sl_candidate = sample_candidate, sl_entry = make_entry sample_candidate Tier_abstract (codes ''notes''),
       sl_ceiling = Tier_abstract, sl_cost = 26\<rparr>]"
proof -
  have "place sample_env 200 100 0 False sample_candidate Tier_abstract [Tier_abstract, Tier_uri] =
      Some \<lparr>sl_candidate = sample_candidate, sl_entry = make_entry sample_candidate Tier_abstract (codes ''notes''),
            sl_ceiling = Tier_abstract, sl_cost = 26\<rparr>"
    by (subst place.simps) (simp add: sample_defs fits_cap_def Let_def del: tier_text.simps)
  then show ?thesis by (simp add: floor_pass_def floor_step_def sample_defs del: place.simps normalize_detail.simps)
qed

lemma sample_plan:
  "bp_entries (plan_entries sample_env [sample_candidate] 100 (Detail_value PNone)) =
     [make_entry sample_candidate Tier_abstract (codes ''notes'')]"
  using sample_facts(2)
  by (simp add: plan_entries_def sample_floor upgrade_slot_def Let_def del: normalize_detail.simps)

theorem summary_bodies_not_disclosed_witness:
  "\<exists>c \<in> set [sample_candidate].
     ae_uri (hd (bp_entries (plan_entries sample_env [sample_candidate] 100 (Detail_value PNone)))) = cd_base_uri c \<and>
     (ae_text (hd (bp_entries (plan_entries sample_env [sample_candidate] 100 (Detail_value PNone)))) = [] \<or>
      ae_text (hd (bp_entries (plan_entries sample_env [sample_candidate] 100 (Detail_value PNone)))) = u_strip (cd_abstract c)) \<and>
     \<not> needs_content c None \<and> \<not> oversized_abstract_needs_body c 200"
proof (rule summary_bodies_not_disclosed)
  let ?p = "plan_entries sample_env [sample_candidate] 100 (Detail_value PNone)"
  show "hd (bp_entries ?p) \<in> set (bp_entries ?p)" by (simp add: sample_plan)
  show "ae_category (hd (bp_entries ?p)) \<in> {''resources'', ''skills''}" unfolding sample_plan by (simp add: sample_candidate_def)
  show "for_category (normalize_detail (Detail_value PNone)) (ae_category (hd (bp_entries ?p))) = None"
    by (rule sample_facts(1))
  show "list_all (\<lambda>c. cd_category c = ae_category (hd (bp_entries ?p)) \<longrightarrow> \<not> cd_is_directory c) [sample_candidate]"
    by (simp add: sample_candidate_def)
qed

end
