(* ===== verification/Recall_Ledger.thy ===== *)
theory Recall_Ledger
  imports PyValue Context_Render "HOL-Library.Multiset"
begin

text \<open>
  \<^verbatim>\<open>context_assembler/ledger.py\<close>: which URIs were served in which turn of a session, kept in a JSON file so that
  later turns do not repeat them.

  \<^item> The file is its parsed content: \<open>load\<close> gets \<open>Raise\<close> when reading or parsing raised, \<open>Ok None\<close>
    for an empty file, and the JSON value otherwise; \<open>record_served\<close> returns the value it writes, or
    nothing when writing raised. JSON turns the dictionaries written into the same dictionaries again.
  \<^item> The file may have been edited, so every value in it is a \<open>pyval\<close>. \<^verbatim>\<open>int(...)\<close> of an infinite float raises
    \<^verbatim>\<open>OverflowError\<close>, which \<^verbatim>\<open>_record_turn\<close> and \<^verbatim>\<open>_resolve_turn\<close> do not catch.
\<close>

section \<open>The ledger\<close>

definition MAX_LEDGER_URIS :: nat where
  "MAX_LEDGER_URIS = 500"

definition LEDGER_VERSION :: int where
  "LEDGER_VERSION = 1"

definition LEDGER_FILENAME :: string where
  "LEDGER_FILENAME = ''.recall_log.json''"

text \<open>The conversion of both helpers: \<open>fallback\<close> for what the handler catches.\<close>

definition int_or :: "pyval \<Rightarrow> 'a \<Rightarrow> (int \<Rightarrow> 'a) \<Rightarrow> 'a res" where
  "int_or v fallback f =
     (case py_int v of
        Inr i \<Rightarrow> Ok (f i)
      | Inl IntOverflowError \<Rightarrow> Raise OverflowError
      | Inl _ \<Rightarrow> Ok fallback)"

fun record_turn :: "pyval \<Rightarrow> int option res" where
  "record_turn (PDict d) = int_or (dict_get_default d ''turn'' (PInt 0)) None Some"
| "record_turn _ = Ok None"

text \<open>What the ledger reads of a session: its URI, \<^verbatim>\<open>meta.total_message_count\<close> (\<open>PNone\<close> when absent) and the number of
  live messages.\<close>

record session_view =
  sv_uri :: string
  sv_total_message_count :: pyval
  sv_messages :: nat

definition resolve_turn :: "session_view \<Rightarrow> int res" where
  "resolve_turn session =
     res_bind (if sv_total_message_count session = PNone then Ok 0
               else int_or (sv_total_message_count session) 0 (\<lambda>i. i)) (\<lambda>total_int.
     Ok (max total_int (int (sv_messages session))))"

record recall_ledger =
  rl_uri :: string
  rl_turn :: int
  rl_dedup_turns :: int
  rl_data :: pydict
  rl_status :: string

definition new_ledger :: "string \<Rightarrow> int \<Rightarrow> int \<Rightarrow> recall_ledger" where
  "new_ledger session_uri turn dedup_turns =
     \<lparr>rl_uri = py_rstrip is_slash session_uri @ ''/'' @ LEDGER_FILENAME, rl_turn = turn,
      rl_dedup_turns = max 0 dedup_turns, rl_data = [], rl_status = ''ok''\<rparr>"

definition load_ledger :: "bool \<Rightarrow> session_view option \<Rightarrow> int \<Rightarrow> (string \<Rightarrow> pyval option res) \<Rightarrow> recall_ledger option res" where
  "load_ledger has_fs session dedup_turns read =
     (case session of
        None \<Rightarrow> Ok None
      | Some s \<Rightarrow>
          if dedup_turns \<le> 0 then Ok None
          else if sv_uri s = [] \<or> \<not> has_fs then Ok None
          else
            res_bind (resolve_turn s) (\<lambda>turn.
            let ledger = new_ledger (sv_uri s) turn dedup_turns
            in case read (rl_uri ledger) of
                 Inl _ \<Rightarrow> Ok (Some (ledger\<lparr>rl_data := [], rl_status := ''new''\<rparr>))
               | Inr raw \<Rightarrow>
                   (case raw of
                      Some (PDict d) \<Rightarrow> Ok (Some (ledger\<lparr>rl_data := d, rl_status := ''ok''\<rparr>))
                    | None \<Rightarrow> Ok (Some (ledger\<lparr>rl_data := [], rl_status := ''ok''\<rparr>))
                    | Some _ \<Rightarrow> Ok (Some (ledger\<lparr>rl_status := ''ok''\<rparr>)))))"

definition ledger_entries :: "recall_ledger \<Rightarrow> pydict" where
  "ledger_entries l = (case dict_get (rl_data l) ''entries'' of PDict d \<Rightarrow> d | _ \<Rightarrow> [])"

fun is_uri_record :: "pyval \<Rightarrow> bool" where
  "is_uri_record (PDict d) = (dict_get d ''detail'' = PStr ''uri'')"
| "is_uri_record _ = False"

definition cool_step :: "recall_ledger \<Rightarrow> string set \<Rightarrow> string \<times> pyval \<Rightarrow> string set res" where
  "cool_step l cooled item =
     (case item of (uri, rcd) \<Rightarrow>
        res_bind (record_turn rcd) (\<lambda>served_turn.
        case served_turn of
          None \<Rightarrow> Ok cooled
        | Some t \<Rightarrow>
            if t > rl_turn l then Ok cooled
            else if is_uri_record rcd then Ok cooled
            else if rl_turn l - t < rl_dedup_turns l then Ok (insert uri cooled)
            else Ok cooled))"

definition cooled_uris :: "recall_ledger \<Rightarrow> string set res" where
  "cooled_uris l = fold_res (cool_step l) {} (ledger_entries l)"

definition served_record :: "int \<Rightarrow> tier \<Rightarrow> pyval" where
  "served_record turn detail = PDict [(''turn'', PInt turn), (''detail'', PStr (tier_name detail))]"

definition upsert :: "recall_ledger \<Rightarrow> assembled_entry list \<Rightarrow> pydict" where
  "upsert l entries =
     foldl (\<lambda>stored e. if ae_uri e = [] then stored else dict_set stored (ae_uri e) (served_record (rl_turn l) (ae_detail e)))
       (ledger_entries l) entries"

text \<open>The records with their turns; a record that is kept has one.\<close>

definition with_turns :: "pydict \<Rightarrow> ((string \<times> pyval) \<times> int option) list res" where
  "with_turns stored = res_map (\<lambda>item. res_bind (record_turn (snd item)) (\<lambda>t. Ok (item, t))) stored"

definition prune :: "recall_ledger \<Rightarrow> ((string \<times> pyval) \<times> int option) list \<Rightarrow> ((string \<times> pyval) \<times> int) list" where
  "prune l turns =
     (let keep_from = rl_turn l - rl_dedup_turns l * 4;
          pruned = map (\<lambda>(item, t). (item, the t))
            (filter (\<lambda>(item, t). t \<noteq> None \<and> keep_from \<le> the t \<and> the t \<le> rl_turn l) turns)
      in if length pruned > MAX_LEDGER_URIS
         then take MAX_LEDGER_URIS (sort_key (\<lambda>(item, t). - t) pruned)
         else pruned)"

definition ledger_payload :: "recall_ledger \<Rightarrow> pydict \<Rightarrow> pydict" where
  "ledger_payload l pruned =
     [(''version'', PInt LEDGER_VERSION), (''updated_turn'', PInt (rl_turn l)), (''entries'', PDict pruned)]"

text \<open>\<^verbatim>\<open>record\<close>: the ledger afterwards and the payload, if one was written.\<close>

definition record_served :: "recall_ledger \<Rightarrow> assembled_entry list \<Rightarrow> bool \<Rightarrow> bool \<Rightarrow> (recall_ledger \<times> pydict option) res" where
  "record_served l entries has_fs write_ok =
     (if \<not> has_fs then Ok (l, None)
      else
        res_bind (with_turns (upsert l entries)) (\<lambda>turns.
        let payload = ledger_payload l (map fst (prune l turns))
        in if write_ok then Ok (l, Some payload)
           else Ok (l\<lparr>rl_status := ''write_failed''\<rparr>, None)))"

section \<open>Cooling\<close>

text \<open>A record whose turn makes \<^verbatim>\<open>int\<close> overflow.\<close>

fun turn_overflows :: "pyval \<Rightarrow> bool" where
  "turn_overflows (PDict d) = (dict_get_default d ''turn'' (PInt 0) = PFloat Infinite)"
| "turn_overflows _ = False"

lemma py_int_overflow_iff: "py_int v = Inl IntOverflowError \<longleftrightarrow> v = PFloat Infinite"
  by (cases v rule: py_int.cases) (auto split: sum.splits)

lemma int_or_cases:
  "int_or v z f = (if v = PFloat Infinite then Raise OverflowError else Ok (case py_int v of Inr i \<Rightarrow> f i | Inl _ \<Rightarrow> z))"
  using py_int_overflow_iff [of v] by (auto simp: int_or_def split: sum.splits int_error.splits)

lemma record_turn_overflow: "record_turn r = Raise e \<longleftrightarrow> e = OverflowError \<and> turn_overflows r"
  by (cases r) (auto simp: int_or_cases)

definition turn_of :: "pyval \<Rightarrow> int option" where
  "turn_of r = (case record_turn r of Inr t \<Rightarrow> t | Inl _ \<Rightarrow> None)"

lemma record_turn_turn_of: "record_turn r = (if turn_overflows r then Raise OverflowError else Ok (turn_of r))"
  using record_turn_overflow [of r] by (cases "record_turn r") (auto simp: turn_of_def)

definition cooling :: "recall_ledger \<Rightarrow> pyval \<Rightarrow> bool" where
  "cooling l r \<longleftrightarrow> (case turn_of r of None \<Rightarrow> False
     | Some t \<Rightarrow> t \<le> rl_turn l \<and> rl_turn l - t < rl_dedup_turns l \<and> \<not> is_uri_record r)"

lemma cool_step_eq:
  "cool_step l acc (u, r) =
     (if turn_overflows r then Raise OverflowError else Ok (if cooling l r then insert u acc else acc))"
  by (auto simp: cool_step_def record_turn_turn_of cooling_def split: option.split)

lemma cooled_fold:
  "fold_res (cool_step l) acc items =
     (if list_ex (turn_overflows \<circ> snd) items then Raise OverflowError
      else Ok (acc \<union> {u. \<exists>r. (u, r) \<in> set items \<and> cooling l r}))"
proof (induction items arbitrary: acc)
  case (Cons item items)
  obtain u r where "item = (u, r)" by (cases item)
  then show ?case using Cons by (auto simp: cool_step_eq)
qed simp

section \<open>What is written\<close>

lemma with_turns_Ok:
  assumes "with_turns stored = Ok turns"
  shows "turns = map (\<lambda>item. (item, turn_of (snd item))) stored"
  using assms
  by (induction stored arbitrary: turns)
     (auto simp: with_turns_def res_bind_Ok_iff record_turn_turn_of split: if_splits)

lemma with_turns_total: "\<not> list_ex (turn_overflows \<circ> snd) stored \<Longrightarrow>
   with_turns stored = Ok (map (\<lambda>item. (item, turn_of (snd item))) stored)"
  by (induction stored) (auto simp: with_turns_def record_turn_turn_of)

definition upsert_step :: "int \<Rightarrow> pydict \<Rightarrow> assembled_entry \<Rightarrow> pydict" where
  "upsert_step turn stored e =
     (if ae_uri e = [] then stored else dict_set stored (ae_uri e) (served_record turn (ae_detail e)))"

lemma upsert_foldl: "upsert l es = foldl (upsert_step (rl_turn l)) (ledger_entries l) es"
  by (simp add: upsert_def upsert_step_def [abs_def])

lemma upsert_distinct: "distinct (map fst d) \<Longrightarrow> distinct (map fst (foldl (upsert_step t) d es))"
  by (induction es arbitrary: d) (simp_all add: upsert_step_def dict_set_distinct)

lemma upsert_other: "u \<notin> ae_uri ` set es \<Longrightarrow> map_of (foldl (upsert_step t) d es) u = map_of d u"
  by (induction es arbitrary: d) (auto simp: upsert_step_def map_of_dict_set)

lemma upsert_lookup:
  assumes "e \<in> set es" and "distinct (map ae_uri es)" and "ae_uri e \<noteq> []"
  shows "map_of (foldl (upsert_step t) d es) (ae_uri e) = Some (served_record t (ae_detail e))"
  using assms
proof (induction es arbitrary: d)
  case (Cons a es)
  show ?case
  proof (cases "e = a")
    case True
    then have "ae_uri e \<notin> ae_uri ` set es" using Cons.prems(2) by simp
    then have "map_of (foldl (upsert_step t) d (a # es)) (ae_uri e) = map_of (upsert_step t d a) (ae_uri e)"
      unfolding foldl_Cons by (rule upsert_other)
    also have "\<dots> = Some (served_record t (ae_detail e))" using True Cons.prems(3) by (simp add: upsert_step_def map_of_dict_set)
    finally show ?thesis .
  qed (use Cons in simp)
qed simp

lemma upsert_records: "(u, r) \<in> set (foldl (upsert_step t) d es) \<Longrightarrow> (u, r) \<in> set d \<or> (\<exists>e \<in> set es. r = served_record t (ae_detail e))"
proof (induction es arbitrary: d)
  case (Cons e es)
  have "(u, r) \<in> set (foldl (upsert_step t) (upsert_step t d e) es)" using Cons.prems by simp
  from Cons.IH [OF this] have "(u, r) \<in> set (upsert_step t d e) \<or> (\<exists>e \<in> set es. r = served_record t (ae_detail e))" .
  moreover have "(u, r) \<in> set d \<or> r = served_record t (ae_detail e)" if "(u, r) \<in> set (upsert_step t d e)"
    using that set_dict_set [of d "ae_uri e" "served_record t (ae_detail e)"] by (auto simp: upsert_step_def split: if_splits)
  ultimately show ?case by auto
qed simp

lemma served_record_facts [simp]:
  "turn_of (served_record t d) = Some t" "\<not> turn_overflows (served_record t d)"
  "is_uri_record (served_record t d) \<longleftrightarrow> d = Tier_uri"
  by (cases d; simp add: served_record_def turn_of_def int_or_cases dict_get_default_def dict_get_def)+

lemma turn_of_no_overflow: "turn_of r = Some t \<Longrightarrow> \<not> turn_overflows r"
  using record_turn_overflow [of r] by (auto simp: turn_of_def split: sum.splits)

text \<open>The pruned records: turns in range, at most \<open>MAX_LEDGER_URIS\<close>, taken from the stored ones.\<close>

lemma prune_sound:
  assumes "(item, t) \<in> set (prune l (map (\<lambda>item. (item, turn_of (snd item))) stored))"
  shows "item \<in> set stored \<and> turn_of (snd item) = Some t \<and> rl_turn l - rl_dedup_turns l * 4 \<le> t \<and> t \<le> rl_turn l"
  using assms by (auto simp: prune_def Let_def split: if_splits dest!: in_set_takeD) (metis option.sel)+

lemma prune_length: "length (prune l ts) \<le> MAX_LEDGER_URIS"
  by (simp add: prune_def Let_def)

lemma prune_distinct:
  assumes "distinct (map fst stored)"
  shows "distinct (map fst (map fst (prune l (map (\<lambda>item. (item, turn_of (snd item))) stored))))"
proof -
  define P where "P = (\<lambda>item :: string \<times> pyval. turn_of (snd item) \<noteq> None \<and> rl_turn l - rl_dedup_turns l * 4 \<le> the (turn_of (snd item)) \<and> the (turn_of (snd item)) \<le> rl_turn l)"
  define q where "q = map (\<lambda>item. (item, the (turn_of (snd item)))) (filter P stored)"
  have q: "map (\<lambda>(item, t). (item, the t)) (filter (\<lambda>(item, t). t \<noteq> None \<and> rl_turn l - rl_dedup_turns l * 4 \<le> the t \<and> the t \<le> rl_turn l)
      (map (\<lambda>item. (item, turn_of (snd item))) stored)) = q"
    by (simp add: q_def P_def filter_map comp_def case_prod_beta)
  have d: "distinct (map (fst \<circ> fst) q)"
    using distinct_map_filter [OF assms, of P] by (simp add: q_def comp_def)
  then have "distinct (map (fst \<circ> fst) (sort_key f q))" for f :: "_ \<Rightarrow> int"
    by (metis mset_eq_imp_distinct_iff mset_map mset_sort)
  then show ?thesis using d unfolding prune_def Let_def q by (simp add: distinct_take flip: take_map)
qed

text \<open>The records with the smallest key come first in a stable sort, so a long enough prefix has them all.\<close>

lemma sorted_min_prefix:
  "sorted (map f ys) \<Longrightarrow> (\<And>y. y \<in> set ys \<Longrightarrow> m \<le> f y) \<Longrightarrow>
     ys = filter (\<lambda>y. f y = m) ys @ filter (\<lambda>y. f y \<noteq> (m :: 'b :: linorder)) ys"
proof (induction ys)
  case (Cons y ys)
  show ?case
  proof (cases "f y = m")
    case True
    then show ?thesis using Cons by simp
  next
    case False
    then have "f z \<noteq> m" if "z \<in> set ys" for z
      using Cons.prems(1) Cons.prems(2) [of y] that by fastforce
    then have "filter (\<lambda>y. f y = m) ys = []" "filter (\<lambda>y. f y \<noteq> m) ys = ys" by (auto simp: filter_empty_conv)
    then show ?thesis using False by simp
  qed
qed simp

lemma take_sort_min:
  assumes "x \<in> set xs" and "f x = m" and "\<And>y. y \<in> set xs \<Longrightarrow> m \<le> f y" and "length (filter (\<lambda>y. f y = m) xs) \<le> n"
  shows "x \<in> set (take n (sort_key f xs))"
proof -
  let ?ys = "sort_key f xs"
  have eq: "?ys = filter (\<lambda>y. f y = m) ?ys @ filter (\<lambda>y. f y \<noteq> m) ?ys"
    by (rule sorted_min_prefix) (use assms(3) in auto)
  have "length (filter (\<lambda>y. f y = m) ?ys) = length (filter (\<lambda>y. f y = m) xs)"
    by (metis mset_filter mset_sort size_mset)
  then have "set (filter (\<lambda>y. f y = m) ?ys) \<subseteq> set (take n ?ys)"
    using assms(4) by (subst (2) eq) simp
  then show ?thesis using assms(1,2) by auto
qed

lemma prune_keeps_current:
  assumes "item \<in> set stored" and "turn_of (snd item) = Some (rl_turn l)" and "0 \<le> rl_dedup_turns l"
    and "length (filter (\<lambda>i. turn_of (snd i) = Some (rl_turn l)) stored) \<le> MAX_LEDGER_URIS"
  shows "item \<in> set (map fst (prune l (map (\<lambda>item. (item, turn_of (snd item))) stored)))"
proof -
  define q where "q = map (\<lambda>(item, t). (item, the t))
    (filter (\<lambda>(item, t). t \<noteq> None \<and> rl_turn l - rl_dedup_turns l * 4 \<le> the t \<and> the t \<le> rl_turn l)
      (map (\<lambda>item. (item, turn_of (snd item))) stored))"
  have m: "(item, rl_turn l) \<in> set q" using assms(1-3) by (force simp: q_def)
  have le: "t \<le> rl_turn l" if "(i, t) \<in> set q" for i t using that by (auto simp: q_def)
  have "length (filter (\<lambda>p. snd p = rl_turn l) q) \<le> length (filter (\<lambda>i. turn_of (snd i) = Some (rl_turn l)) stored)"
    unfolding q_def by (induction stored) auto
  then have "(item, rl_turn l) \<in> set (take MAX_LEDGER_URIS (sort_key (\<lambda>(item, t). - t) q))"
    using m le assms(4) by (intro take_sort_min [where m = "- rl_turn l"]) (auto simp: case_prod_beta)
  then have "(item, rl_turn l) \<in> set (prune l (map (\<lambda>item. (item, turn_of (snd item))) stored))"
    using m unfolding prune_def q_def [symmetric] Let_def by (simp flip: q_def)
  then show ?thesis by force
qed

section \<open>Properties\<close>

text \<open>
  Which URIs are held back: exactly those with a usable record of content served at most \<^verbatim>\<open>dedup_turns\<close> turns ago and
  not ahead of the clock; a half-written record only loses its own URI. The one exception is a record whose turn is an
  infinite number: it makes the whole reading fail with \<^verbatim>\<open>OverflowError\<close>.
\<close>

theorem cooled_uris_exact:
  "cooled_uris l =
     (if list_ex (turn_overflows \<circ> snd) (ledger_entries l) then Raise OverflowError
      else Ok {u. \<exists>r t. (u, r) \<in> set (ledger_entries l) \<and> turn_of r = Some t \<and> t \<le> rl_turn l \<and>
                 rl_turn l - t < rl_dedup_turns l \<and> \<not> is_uri_record r})"
proof -
  have "cooling l r \<longleftrightarrow> (\<exists>t. turn_of r = Some t \<and> t \<le> rl_turn l \<and> rl_turn l - t < rl_dedup_turns l \<and> \<not> is_uri_record r)" for r
    by (auto simp: cooling_def split: option.split)
  then show ?thesis unfolding cooled_uris_def cooled_fold by simp
qed

text \<open>
  Recall is remembered across turns: what a turn served and recorded is held back in a later turn of the session exactly
  while fewer than \<^verbatim>\<open>dedup_turns\<close> turns have passed, unless only its bare URI was shown; reading the written
  ledger never fails. The size limit of the ledger does not hurt this as long as one turn serves at most
  \<^verbatim>\<open>MAX_LEDGER_URIS\<close> URIs.
\<close>

theorem served_uris_cooled:
  assumes "record_served l es True True = Ok (l', Some payload)" and "0 \<le> rl_dedup_turns l"
    and "distinct (map fst (ledger_entries l))" and "distinct (map ae_uri es)" and "e \<in> set es" and "ae_uri e \<noteq> []"
    and "length (filter (\<lambda>i. turn_of (snd i) = Some (rl_turn l)) (upsert l es)) \<le> MAX_LEDGER_URIS"
    and "load_ledger True (Some s) n (\<lambda>_. Ok (Some (PDict payload))) = Ok (Some l2)" and "rl_turn l \<le> rl_turn l2"
  shows "\<exists>C. cooled_uris l2 = Ok C \<and> (ae_uri e \<in> C \<longleftrightarrow> ae_detail e \<noteq> Tier_uri \<and> rl_turn l2 - rl_turn l < n)"
proof -
  let ?w = "map fst (prune l (map (\<lambda>item. (item, turn_of (snd item))) (upsert l es)))"
  let ?r = "served_record (rl_turn l) (ae_detail e)"
  have "\<exists>turns. with_turns (upsert l es) = Ok turns \<and> payload = ledger_payload l (map fst (prune l turns))"
    using assms(1) by (auto simp: record_served_def res_bind_Ok_iff Let_def)
  then have p: "payload = ledger_payload l ?w" using with_turns_Ok by blast
  have n: "n > 0" using assms(8) by (auto simp: load_ledger_def split: if_splits)
  have l2: "ledger_entries l2 = ?w" "rl_dedup_turns l2 = n"
    using assms(8) p n
    by (auto simp: load_ledger_def new_ledger_def ledger_entries_def ledger_payload_def dict_get_def res_bind_Ok_iff Let_def split: if_splits)
  have fin: "\<not> list_ex (turn_overflows \<circ> snd) ?w"
    using prune_sound turn_of_no_overflow by (fastforce simp: list_ex_iff)
  have look: "map_of (upsert l es) (ae_uri e) = Some ?r"
    unfolding upsert_foldl by (rule upsert_lookup [OF assms(5,4,6)])
  have dis: "distinct (map fst ?w)"
    by (rule prune_distinct) (simp add: upsert_foldl upsert_distinct assms(3))
  have "(ae_uri e, ?r) \<in> set ?w"
    by (rule prune_keeps_current) (use look assms(2,7) in \<open>auto dest: map_of_SomeD\<close>)
  then have uniq: "(ae_uri e, r) \<in> set ?w \<longleftrightarrow> r = ?r" for r using dis by (metis map_of_eq_Some_iff option.inject)
  have "cooled_uris l2 = Ok ({} \<union> {u. \<exists>r. (u, r) \<in> set ?w \<and> cooling l2 r})"
    unfolding cooled_uris_def cooled_fold l2(1) using fin by simp
  then show ?thesis using uniq assms(9) by (auto simp: cooling_def l2(2))
qed

definition sample_ledger :: recall_ledger where
  "sample_ledger = new_ledger ''viking://session/s1'' 10 3"

definition sample_served :: "tier \<Rightarrow> assembled_entry" where
  "sample_served d = \<lparr>ae_uri = ''viking://user/ada/memories/events/e.md'', ae_category = ''events'', ae_score = 1, ae_detail = d,
     ae_text = [], ae_origin = ''self'', ae_tokens = 0\<rparr>"

theorem served_uris_cooled_witness:
  "\<exists>C. cooled_uris ((new_ledger ''viking://session/s1'' 12 3)\<lparr>rl_data := ledger_payload sample_ledger
         [(''viking://user/ada/memories/events/e.md'', served_record 10 Tier_overview)]\<rparr>) = Ok C \<and>
     ''viking://user/ada/memories/events/e.md'' \<in> C"
proof -
  let ?u = "''viking://user/ada/memories/events/e.md''"
  let ?pay = "ledger_payload sample_ledger [(?u, served_record 10 Tier_overview)]"
  let ?l2 = "(new_ledger ''viking://session/s1'' 12 3)\<lparr>rl_data := ?pay\<rparr>"
  have e: "ledger_entries sample_ledger = []" "rl_turn sample_ledger = 10" "rl_dedup_turns sample_ledger = 3"
    by (simp_all add: sample_ledger_def new_ledger_def ledger_entries_def dict_get_def)
  have u: "upsert sample_ledger [sample_served Tier_overview] = [(?u, served_record 10 Tier_overview)]"
    by (simp add: upsert_def e sample_served_def)
  have "with_turns [(?u, served_record 10 Tier_overview)] = Ok [((?u, served_record 10 Tier_overview), Some 10)]"
    using with_turns_total [of "[(?u, served_record 10 Tier_overview)]"] by simp
  then have r: "record_served sample_ledger [sample_served Tier_overview] True True = Ok (sample_ledger, Some ?pay)"
    by (simp add: record_served_def u prune_def e MAX_LEDGER_URIS_def)
  have ld: "load_ledger True (Some \<lparr>sv_uri = ''viking://session/s1'', sv_total_message_count = PInt 12, sv_messages = 4\<rparr>) 3
      (\<lambda>_. Ok (Some (PDict ?pay))) = Ok (Some ?l2)"
    by (simp add: load_ledger_def resolve_turn_def int_or_def Let_def new_ledger_def)
  have "rl_turn ?l2 = 12" by (simp add: new_ledger_def)
  then show ?thesis
    using served_uris_cooled [OF r _ _ _ _ _ _ ld, of "sample_served Tier_overview"] u
    by (simp add: e sample_served_def MAX_LEDGER_URIS_def)
qed

text \<open>
  The ledger stays small and current: whatever the file held before, a written ledger has at most
  \<^verbatim>\<open>MAX_LEDGER_URIS\<close> records, and each record has a usable turn that is not ahead of the clock and at
  most four cool-down periods old.
\<close>

theorem ledger_bounded:
  assumes "record_served l es has_fs write_ok = Ok (l', Some payload)"
  shows "\<exists>w. payload = ledger_payload l w \<and> length w \<le> MAX_LEDGER_URIS \<and>
     list_all (\<lambda>(u, r). \<exists>t. turn_of r = Some t \<and> rl_turn l - 4 * rl_dedup_turns l \<le> t \<and> t \<le> rl_turn l) w"
proof -
  obtain turns where "with_turns (upsert l es) = Ok turns" and p: "payload = ledger_payload l (map fst (prune l turns))"
    using assms by (auto simp: record_served_def res_bind_Ok_iff Let_def split: if_splits)
  then have t: "turns = map (\<lambda>item. (item, turn_of (snd item))) (upsert l es)" by (simp add: with_turns_Ok)
  have "list_all (\<lambda>(u, r). \<exists>t. turn_of r = Some t \<and> rl_turn l - 4 * rl_dedup_turns l \<le> t \<and> t \<le> rl_turn l) (map fst (prune l turns))"
    unfolding t using prune_sound by (fastforce simp: list_all_iff mult.commute)
  then show ?thesis using p prune_length [of l turns] by (intro exI [of _ "map fst (prune l turns)"]) simp
qed

theorem ledger_bounded_witness:
  "\<exists>w. ledger_payload sample_ledger [] = ledger_payload sample_ledger w \<and> length w \<le> MAX_LEDGER_URIS \<and>
     list_all (\<lambda>(u, r). \<exists>t. turn_of r = Some t \<and> rl_turn sample_ledger - 4 * rl_dedup_turns sample_ledger \<le> t \<and> t \<le> rl_turn sample_ledger) w"
proof (rule ledger_bounded)
  have "ledger_entries sample_ledger = []" by (simp add: sample_ledger_def new_ledger_def ledger_entries_def dict_get_def)
  then show "record_served sample_ledger [] True True = Ok (sample_ledger, Some (ledger_payload sample_ledger []))"
    by (simp add: record_served_def upsert_def with_turns_def prune_def)
qed

end
