(* ===== verification/Context_Pipeline.thy ===== *)
theory Context_Pipeline
  imports Context_Gather Context_Budget Recall_Ledger
begin

text \<open>
  \<^verbatim>\<open>context_assembler/pipeline.py\<close>: one request, from its parameters to the rendered block. The services the
  pipeline calls are the record \<open>services\<close>: the session (if it can be loaded), the planned queries, the search, the file system for
  bodies and for the ledger, and the language model behind the digest. Statistics are left out: they collect values of the parts.
\<close>

section \<open>Assembly\<close>

record assemble_params =
  ap_session_id :: "string option"
  ap_query_expansion :: string
  ap_limit :: int
  ap_max_tokens :: int
  ap_quotas :: "pydict option"
  ap_purpose :: "string option"
  ap_detail :: detail_request
  ap_dedup_turns :: int
  ap_exclude_uris :: "string list option"
  ap_peer_scope :: string
  ap_rewrite :: bool
  ap_render :: bool

record services =
  sv_intent_enabled :: bool
  sv_load_session :: "string \<Rightarrow> session_view option"
  sv_expand :: "session_view option \<Rightarrow> string \<Rightarrow> string list"
  sv_has_fs :: bool
  sv_read_ledger :: "string \<Rightarrow> pyval option res"
  sv_write_ok :: bool
  sv_find :: "string \<Rightarrow> request_context \<Rightarrow> string \<Rightarrow> int \<Rightarrow> context_type option \<Rightarrow> find_result res"
  sv_penalties :: "string \<Rightarrow> rat option"
  sv_read_body :: "string \<Rightarrow> request_context \<Rightarrow> ustr"
  sv_overview :: "candidate \<Rightarrow> ustr \<Rightarrow> ustr"
  sv_hash :: "ustr \<Rightarrow> int"
  sv_rewrite_context :: "ustr \<Rightarrow> string list \<Rightarrow> ustr \<times> string"

record assemble_result =
  ar_entries :: "assembled_entry list"
  ar_rendered :: ustr
  ar_digest :: ustr
  ar_cooled :: "string set"
  ar_recorded :: "pydict option"

text \<open>Every content URI is read once, for the first candidate that needs it.\<close>

definition prefetch_contents :: "services \<Rightarrow> candidate list \<Rightarrow> string \<Rightarrow> ustr option" where
  "prefetch_contents sv candidates uri =
     map_option (\<lambda>c. sv_read_body sv uri (cd_read_ctx c)) (List.find (\<lambda>c. content_uri_for c = uri) candidates)"

definition load_cooled :: "services \<Rightarrow> session_view option \<Rightarrow> int \<Rightarrow> (recall_ledger option \<times> string set) res" where
  "load_cooled sv session dedup_turns =
     res_bind (load_ledger (sv_has_fs sv) session dedup_turns (sv_read_ledger sv)) (\<lambda>ledger.
     case ledger of
       None \<Rightarrow> Ok (None, {})
     | Some l \<Rightarrow> res_bind (cooled_uris l) (\<lambda>cooled. Ok (Some l, cooled)))"

definition digest_step :: "services \<Rightarrow> assemble_params \<Rightarrow> assembled_entry list \<Rightarrow> ustr \<Rightarrow> ustr \<times> string \<times> ustr" where
  "digest_step sv p entries rendered =
     (if entries \<noteq> [] \<and> ap_rewrite p then
        let (digest, status) = sv_rewrite_context sv (if rendered \<noteq> [] then rendered else render_context entries) (map ae_uri entries)
        in (digest, status, if status = ''no_relevant'' then [] else rendered)
      else ([], ''off'', rendered))"

text \<open>Failures of recording are caught; what remains is whether something was written.\<close>

definition record_step :: "services \<Rightarrow> recall_ledger option \<Rightarrow> assembled_entry list \<Rightarrow> pydict option" where
  "record_step sv ledger served =
     (case ledger of
        None \<Rightarrow> None
      | Some l \<Rightarrow>
          if served = [] then None
          else (case record_served l served (sv_has_fs sv) (sv_write_ok sv) of Inr (_, w) \<Rightarrow> w | Inl _ \<Rightarrow> None))"

definition assemble_context :: "services \<Rightarrow> request_context \<Rightarrow> assemble_params \<Rightarrow> assemble_result res" where
  "assemble_context sv ctx p =
     res_bind (normalize_quotas (ap_quotas p) (ap_purpose p)) (\<lambda>quotas.
     let expansion_mode = (if sv_intent_enabled sv then ap_query_expansion p else ''off'');
         needs_session = (truthy_opt (ap_session_id p) \<and> (expansion_mode = ''auto'' \<or> ap_dedup_turns p > 0));
         session = (if needs_session then sv_load_session sv (the (ap_session_id p)) else None);
         queries = sv_expand sv session expansion_mode
     in
     res_bind (load_cooled sv session (ap_dedup_turns p)) (\<lambda>(ledger, cooled).
     let excluded = normalize_exclude_uris (ap_exclude_uris p) \<union> cooled;
         genv = \<lparr>ge_find = sv_find sv, ge_ctx = ctx, ge_queries = queries, ge_peer_scope = ap_peer_scope p,
                 ge_penalties = sv_penalties sv, ge_excluded = excluded\<rparr>
     in
     res_bind (gather_candidates genv quotas (ap_limit p)) (\<lambda>(candidates, gather_stats).
     let pins = normalize_detail (ap_detail p);
         cap = per_entry_cap (ap_max_tokens p) (length candidates);
         readable = filter (\<lambda>c. needs_content c (for_category pins (cd_category c)) \<or> oversized_abstract_needs_body c cap) candidates;
         penv = \<lparr>pe_overview = sv_overview sv, pe_contents = prefetch_contents sv readable, pe_hash = sv_hash sv\<rparr>;
         plan = plan_entries penv candidates (ap_max_tokens p) (Detail_pins pins);
         entries = bp_entries plan;
         (digest, rewrite_status, rendered) = digest_step sv p entries (if ap_render p then render_context entries else []);
         served = (if rewrite_status \<noteq> ''no_relevant'' then entries else [])
     in Ok \<lparr>ar_entries = entries, ar_rendered = rendered, ar_digest = digest, ar_cooled = cooled,
            ar_recorded = record_step sv ledger served\<rparr>)))"

section \<open>Stages of a successful run\<close>

lemma digest_step_rendered: "digest_step sv p es r = (d, st, r') \<Longrightarrow> r' = [] \<or> r' = r"
  by (auto simp: digest_step_def split: if_splits prod.splits)

text \<open>The candidates, the plan and the ledger behind a result.\<close>

lemma assemble_contextE:
  assumes "assemble_context sv ctx p = Ok r"
  obtains quotas ledger genv candidates gstats penv detail session where
    "normalize_quotas (ap_quotas p) (ap_purpose p) = Ok quotas"
    "load_cooled sv session (ap_dedup_turns p) = Ok (ledger, ar_cooled r)"
    "ge_ctx genv = ctx" "ge_excluded genv = normalize_exclude_uris (ap_exclude_uris p) \<union> ar_cooled r"
    "gather_candidates genv quotas (ap_limit p) = Ok (candidates, gstats)"
    "ar_entries r = bp_entries (plan_entries penv candidates (ap_max_tokens p) detail)"
    "ar_rendered r = [] \<or> ar_rendered r = render_context (ar_entries r)"
    "ar_recorded r = record_step sv ledger [] \<or> ar_recorded r = record_step sv ledger (ar_entries r)"
proof -
  obtain quotas where q: "normalize_quotas (ap_quotas p) (ap_purpose p) = Ok quotas"
    using assms by (cases "normalize_quotas (ap_quotas p) (ap_purpose p)") (simp_all add: assemble_context_def)
  define mode where "mode = (if sv_intent_enabled sv then ap_query_expansion p else ''off'')"
  define session where "session = (if truthy_opt (ap_session_id p) \<and> (mode = ''auto'' \<or> ap_dedup_turns p > 0)
    then sv_load_session sv (the (ap_session_id p)) else None)"
  obtain ledger cooled where l: "load_cooled sv session (ap_dedup_turns p) = Ok (ledger, cooled)"
    using assms unfolding assemble_context_def q res_bind_simps Let_def mode_def [symmetric] session_def [symmetric]
    by (cases "load_cooled sv session (ap_dedup_turns p)") auto
  define genv where "genv = \<lparr>ge_find = sv_find sv, ge_ctx = ctx, ge_queries = sv_expand sv session mode, ge_peer_scope = ap_peer_scope p,
    ge_penalties = sv_penalties sv, ge_excluded = normalize_exclude_uris (ap_exclude_uris p) \<union> cooled\<rparr>"
  obtain cs gstats where g: "gather_candidates genv quotas (ap_limit p) = Ok (cs, gstats)"
    using assms
    unfolding assemble_context_def q res_bind_simps Let_def mode_def [symmetric] session_def [symmetric] l prod.case genv_def [symmetric]
    by (cases "gather_candidates genv quotas (ap_limit p)") auto
  define pins where "pins = normalize_detail (ap_detail p)"
  define penv where "penv = \<lparr>pe_overview = sv_overview sv, pe_contents = prefetch_contents sv (filter (\<lambda>c. needs_content c (for_category pins (cd_category c)) \<or>
      oversized_abstract_needs_body c (per_entry_cap (ap_max_tokens p) (length cs))) cs), pe_hash = sv_hash sv\<rparr>"
  define es where "es = bp_entries (plan_entries penv cs (ap_max_tokens p) (Detail_pins pins))"
  obtain d st rn where ds: "digest_step sv p es (if ap_render p then render_context es else []) = (d, st, rn)" by (rule prod_cases3)
  have r: "r = \<lparr>ar_entries = es, ar_rendered = rn, ar_digest = d, ar_cooled = cooled,
      ar_recorded = record_step sv ledger (if st \<noteq> ''no_relevant'' then es else [])\<rparr>"
    using assms
    unfolding assemble_context_def q res_bind_simps Let_def mode_def [symmetric] session_def [symmetric] l prod.case genv_def [symmetric] g
      pins_def [symmetric] penv_def [symmetric] es_def [symmetric] ds by simp
  have rn: "rn = [] \<or> rn = render_context es" using digest_step_rendered [OF ds] by (auto split: if_splits)
  show ?thesis
    by (rule that [of quotas session ledger genv cs gstats penv "Detail_pins pins"])
       (use q l g rn in \<open>simp_all add: r genv_def es_def\<close>)
qed

section \<open>Properties\<close>


definition sample_services :: services where
  "sample_services = \<lparr>sv_intent_enabled = False, sv_load_session = (\<lambda>_. None), sv_expand = (\<lambda>_ _. [''q'']), sv_has_fs = False,
     sv_read_ledger = (\<lambda>_. Ok None), sv_write_ok = True,
     sv_find = (\<lambda>_ _ _ _ _. Ok \<lparr>fr_memories = [sample_hit], fr_resources = [], fr_skills = []\<rparr>),
     sv_penalties = (\<lambda>_. None), sv_read_body = (\<lambda>_ _. []), sv_overview = (\<lambda>_ s. s), sv_hash = (\<lambda>_. 0),
     sv_rewrite_context = (\<lambda>_ _. ([], ''off''))\<rparr>"

definition sample_params :: assemble_params where
  "sample_params = \<lparr>ap_session_id = None, ap_query_expansion = ''off'', ap_limit = 3, ap_max_tokens = 100, ap_quotas = None,
     ap_purpose = None, ap_detail = Detail_value PNone, ap_dedup_turns = 0,
     ap_exclude_uris = Some [''viking://user/ada/memories/events/e.md''], ap_peer_scope = ''actor'', ap_rewrite = False, ap_render = True\<rparr>"


end
