(* ===== verification/Bytes.thy ===== *)
theory Bytes
  imports Prelude "HOL-Library.Word"
begin

text \<open>
  Python \<^verbatim>\<open>bytes\<close> and the conversions of the standard library that the encryption module relies
  on: \<^verbatim>\<open>bytes.hex\<close> and \<^verbatim>\<open>bytes.fromhex\<close>, \<^verbatim>\<open>base64.b64encode\<close> and \<^verbatim>\<open>base64.b64decode\<close>,
  \<^verbatim>\<open>str.encode\<close> and the big-endian integers of \<^verbatim>\<open>struct\<close>. A byte is an \<open>8 word\<close>. Each
  conversion comes with its round trip.
\<close>

type_synonym byte = "8 word"
type_synonym bytes = "byte list"

lemma unat_byte_less [simp]: "unat (b :: byte) < 256"
  using unsigned_less [of b, where 'a = nat] by simp

definition byte_of :: "nat \<Rightarrow> byte" where
  "byte_of n = word_of_nat n"

lemma unat_byte_of [simp]: "n < 256 \<Longrightarrow> unat (byte_of n) = n"
  by (simp add: byte_of_def unat_of_nat take_bit_nat_eq_self)

lemma byte_of_unat [simp]: "byte_of (unat b) = b"
  by (simp add: byte_of_def)

section \<open>Hexadecimal text\<close>

definition hex_digits :: string where
  "hex_digits = ''0123456789abcdef''"

definition hex_digit :: "nat \<Rightarrow> char" where
  "hex_digit n = hex_digits ! n"

text \<open>The value of a hexadecimal digit in either case.\<close>

definition hex_value :: "char \<Rightarrow> nat option" where
  "hex_value c = (let n = (of_char c :: nat) in
     if 48 \<le> n \<and> n \<le> 57 then Some (n - 48)
     else if 97 \<le> n \<and> n \<le> 102 then Some (n - 87)
     else if 65 \<le> n \<and> n \<le> 70 then Some (n - 55)
     else None)"

text \<open>The six white-space characters \<^verbatim>\<open>bytes.fromhex\<close> skips between two bytes.\<close>

definition ascii_space :: "char \<Rightarrow> bool" where
  "ascii_space c \<longleftrightarrow> (let n = (of_char c :: nat) in n = 32 \<or> (9 \<le> n \<and> n \<le> 13))"

fun bytes_hex :: "bytes \<Rightarrow> string" where
  "bytes_hex [] = []"
| "bytes_hex (b # bs) = hex_digit (unat b div 16) # hex_digit (unat b mod 16) # bytes_hex bs"

text \<open>\<open>None\<close> is the \<open>ValueError\<close> of \<^verbatim>\<open>bytes.fromhex\<close>.\<close>

fun bytes_fromhex :: "string \<Rightarrow> bytes option" where
  "bytes_fromhex [] = Some []"
| "bytes_fromhex (c # s) =
     (if ascii_space c then bytes_fromhex s
      else case hex_value c of
             None \<Rightarrow> None
           | Some hi \<Rightarrow> (case s of
               [] \<Rightarrow> None
             | d # r \<Rightarrow> (case hex_value d of
                 None \<Rightarrow> None
               | Some lo \<Rightarrow> map_option (Cons (byte_of (16 * hi + lo))) (bytes_fromhex r))))"

lemma hex_digit_facts:
  assumes "n < 16"
  shows "hex_value (hex_digit n) = Some n" "\<not> ascii_space (hex_digit n)"
    "\<not> py_isspace (hex_digit n)"
proof -
  have "list_all (\<lambda>n. hex_value (hex_digit n) = Some n \<and> \<not> ascii_space (hex_digit n) \<and>
          \<not> py_isspace (hex_digit n)) [0..<16]"
    by code_simp
  then show "hex_value (hex_digit n) = Some n" "\<not> ascii_space (hex_digit n)"
    "\<not> py_isspace (hex_digit n)"
    using assms by (auto simp: list_all_iff)
qed

lemma byte_nibbles [simp]: "unat (b :: byte) div 16 < 16"
  using unat_byte_less [of b] by linarith

lemma bytes_fromhex_hex [simp]: "bytes_fromhex (bytes_hex bs) = Some bs"
  by (induction bs) (simp_all add: hex_digit_facts)

lemma bytes_hex_no_space: "c \<in> set (bytes_hex bs) \<Longrightarrow> \<not> py_isspace c"
  by (induction bs) (auto simp: hex_digit_facts)

lemma bytes_hex_Nil_iff [simp]: "bytes_hex bs = [] \<longleftrightarrow> bs = []"
  by (cases bs) simp_all

section \<open>Base64\<close>

definition b64_alphabet :: string where
  "b64_alphabet = ''ABCDEFGHIJKLMNOPQRSTUVWXYZabcdefghijklmnopqrstuvwxyz0123456789+/''"

definition b64_char :: "nat \<Rightarrow> char" where
  "b64_char n = b64_alphabet ! n"

definition b64_value :: "char \<Rightarrow> nat option" where
  "b64_value c = map_of (zip b64_alphabet [0..<64]) c"

fun b64encode :: "bytes \<Rightarrow> string" where
  "b64encode [] = []"
| "b64encode [a] =
     [b64_char (unat a div 4), b64_char (unat a mod 4 * 16), CHR ''='', CHR ''='']"
| "b64encode [a, b] =
     [b64_char (unat a div 4), b64_char (unat a mod 4 * 16 + unat b div 16),
      b64_char (unat b mod 16 * 4), CHR ''='']"
| "b64encode (a # b # c # r) =
     [b64_char (unat a div 4), b64_char (unat a mod 4 * 16 + unat b div 16),
      b64_char (unat b mod 16 * 4 + unat c div 64), b64_char (unat c mod 64)] @ b64encode r"

text \<open>The lenient scanner behind \<^verbatim>\<open>base64.b64decode\<close>: \<open>q\<close> is the position in the current group of
  four, \<open>l\<close> the bits left over from the previous character and \<open>p\<close> the padding characters seen. A
  character outside the alphabet is skipped, a complete padding ends the input, and an incomplete
  group at the end is the \<open>ValueError\<close> \<open>None\<close>.\<close>

fun b64_scan :: "nat \<Rightarrow> nat \<Rightarrow> nat \<Rightarrow> string \<Rightarrow> bytes option" where
  "b64_scan q l p [] = (if q = 0 then Some [] else None)"
| "b64_scan q l p (c # s) =
     (if c = CHR ''='' then
        (if 2 \<le> q then (if 4 \<le> q + Suc p then Some [] else b64_scan q l (Suc p) s)
         else b64_scan q l p s)
      else case b64_value c of
             None \<Rightarrow> b64_scan q l p s
           | Some v \<Rightarrow>
               if q = 0 then b64_scan 1 v 0 s
               else if q = 1 then
                 map_option (Cons (byte_of (l * 4 + v div 16))) (b64_scan 2 (v mod 16) 0 s)
               else if q = 2 then
                 map_option (Cons (byte_of (l * 16 + v div 4))) (b64_scan 3 (v mod 4) 0 s)
               else map_option (Cons (byte_of (l * 64 + v))) (b64_scan 0 0 0 s))"

definition b64decode :: "string \<Rightarrow> bytes option" where
  "b64decode s = (if list_all (\<lambda>c. (of_char c :: nat) < 128) s then b64_scan 0 0 0 s else None)"

lemma b64_alphabet_facts:
  "length b64_alphabet = 64" "distinct b64_alphabet" "CHR ''='' \<notin> set b64_alphabet"
  "list_all (\<lambda>c. (of_char c :: nat) < 128) b64_alphabet"
  by (simp_all add: b64_alphabet_def)

lemma b64_char_facts:
  assumes "n < 64"
  shows "b64_value (b64_char n) = Some n" "b64_char n \<noteq> CHR ''=''"
    "(of_char (b64_char n) :: nat) < 128"
proof -
  have mem: "b64_char n \<in> set b64_alphabet"
    using assms by (simp add: b64_char_def b64_alphabet_facts)
  then show "b64_char n \<noteq> CHR ''=''" "(of_char (b64_char n) :: nat) < 128"
    using b64_alphabet_facts(3,4) by (auto simp: list_all_iff)
  show "b64_value (b64_char n) = Some n"
    using map_of_zip_nth [of b64_alphabet "[0..<64]" n] assms
    by (simp add: b64_value_def b64_char_def b64_alphabet_facts)
qed

lemma byte_div_less:
  "unat (a :: byte) div 4 < 64" "unat (a :: byte) div 16 < 16" "unat (a :: byte) div 64 < 4"
  using unat_byte_less [of a] by (simp_all add: div_less_iff_less_mult)

lemma b64_digit_less:
  fixes x y m k :: nat
  assumes "y < k" and "m * k = 64"
  shows "x mod m * k + y < 64"
proof -
  have "0 < m"
    using assms(2) by (cases m) simp_all
  then have "Suc (x mod m) * k \<le> m * k"
    by (intro mult_le_mono) (simp_all add: Suc_leI)
  with assms show ?thesis by simp
qed

lemma b64_ranges:
  "unat (a :: byte) div 4 < 64" "unat a mod 4 * 16 < 64"
  "unat a mod 4 * 16 + unat (b :: byte) div 16 < 64" "unat a mod 16 * 4 < 64"
  "unat a mod 16 * 4 + unat b div 64 < 64" "unat a mod 64 < 64"
  using b64_digit_less [of 0 16 4 "unat a"] b64_digit_less [of 0 4 16 "unat a"]
  by (simp_all add: byte_div_less b64_digit_less)

lemma div_mod_digit:
  fixes q r k :: nat
  assumes "r < k"
  shows "(q * k + r) div k = q" "(q * k + r) mod k = r"
  using assms by simp_all

lemma b64_regroup:
  "unat (a :: byte) div 4 * 4 + (unat a mod 4 * 16 + unat (b :: byte) div 16) div 16 = unat a"
  "unat a div 4 * 4 + (unat a mod 4 * 16) div 16 = unat a"
  "(unat a mod 4 * 16 + unat b div 16) mod 16 * 16
     + (unat b mod 16 * 4 + unat (c :: byte) div 64) div 4 = unat b"
  "(unat a mod 4 * 16 + unat b div 16) mod 16 * 16 + (unat b mod 16 * 4) div 4 = unat b"
  "(unat b mod 16 * 4 + unat c div 64) mod 4 * 64 + unat c mod 64 = unat c"
  by (simp_all add: div_mod_digit byte_div_less)

lemma byte_top_bits:
  "unat (c :: byte) div 64 div 4 = 0" "unat c div 64 mod 4 = unat c div 64"
  using byte_div_less(3) [of c] by (simp_all only: div_less mod_less)

lemma b64_scan_encode: "b64_scan 0 0 0 (b64encode bs) = Some bs"
  by (induction bs rule: b64encode.induct)
    (simp_all add: b64_char_facts b64_ranges b64_regroup byte_top_bits)

lemma b64encode_ascii: "list_all (\<lambda>c. (of_char c :: nat) < 128) (b64encode bs)"
  by (induction bs rule: b64encode.induct) (simp_all add: b64_char_facts b64_ranges)

lemma b64decode_encode [simp]: "b64decode (b64encode bs) = Some bs"
  by (simp add: b64decode_def b64encode_ascii b64_scan_encode)

section \<open>UTF-8\<close>

text \<open>\<^verbatim>\<open>str.encode()\<close> on the code points U+0000 to U+00FF: one byte below 128, two bytes above.\<close>

definition utf8_char :: "char \<Rightarrow> bytes" where
  "utf8_char c = (let n = (of_char c :: nat) in
     if n < 128 then [byte_of n]
     else [byte_of (192 + n div 64), byte_of (128 + n mod 64)])"

definition str_encode :: "string \<Rightarrow> bytes" where
  "str_encode s = concat (map utf8_char s)"

text \<open>\<^verbatim>\<open>bytes.decode("utf-8")\<close>, on the same code points; \<open>None\<close> is the \<open>UnicodeDecodeError\<close> or a
  code point the model's strings do not have.\<close>

fun bytes_decode :: "bytes \<Rightarrow> string option" where
  "bytes_decode [] = Some []"
| "bytes_decode (b # bs) =
     (if unat b < 128 then map_option (Cons (char_of (unat b))) (bytes_decode bs)
      else if unat b = 194 \<or> unat b = 195 then
        (case bs of
           [] \<Rightarrow> None
         | d # r \<Rightarrow>
             if 128 \<le> unat d \<and> unat d < 192
             then map_option (Cons (char_of ((unat b - 192) * 64 + (unat d - 128)))) (bytes_decode r)
             else None)
      else None)"

lemma of_char_less [simp]: "(of_char c :: nat) < 256"
  by (metis of_char_of nat_of_char_less_256)

lemma bytes_decode_utf8:
  "bytes_decode (utf8_char c @ bs) = map_option (Cons c) (bytes_decode bs)"
proof (cases "(of_char c :: nat) < 128")
  case True
  then show ?thesis by (simp add: utf8_char_def unat_byte_of)
next
  case False
  have hi: "192 + (of_char c :: nat) div 64 = 194 \<or> 192 + (of_char c :: nat) div 64 = 195"
    using False of_char_less [of c] by linarith
  have lo: "128 + (of_char c :: nat) mod 64 < 256" "128 + (of_char c :: nat) mod 64 < 192"
    by simp_all
  have "of_char c div 64 = (2 :: nat) \<Longrightarrow> 128 + of_char c mod 64 = (of_char c :: nat)"
    "of_char c div 64 = (3 :: nat) \<Longrightarrow> 192 + of_char c mod 64 = (of_char c :: nat)"
    using mult_div_mod_eq [of 64 "of_char c :: nat"] by simp_all
  then show ?thesis
    using False hi lo by (auto simp: utf8_char_def Let_def unat_byte_of)
qed

lemma bytes_decode_encode [simp]: "bytes_decode (str_encode s) = Some s"
  by (induction s) (simp_all add: str_encode_def bytes_decode_utf8)

lemma str_encode_inj: "str_encode s = str_encode t \<Longrightarrow> s = t"
  by (metis bytes_decode_encode option.inject)

section \<open>Big-endian integers\<close>

text \<open>The formats \<^verbatim>\<open>B\<close> and \<^verbatim>\<open>H\<close> of \<^verbatim>\<open>struct.pack\<close>; \<open>None\<close> is the \<^verbatim>\<open>struct.error\<close> for a value out
  of range.\<close>

definition pack_B :: "nat \<Rightarrow> bytes option" where
  "pack_B n = (if n < 256 then Some [byte_of n] else None)"

definition pack_H :: "nat \<Rightarrow> bytes option" where
  "pack_H n = (if n < 65536 then Some [byte_of (n div 256), byte_of (n mod 256)] else None)"

definition unpack_H :: "byte \<Rightarrow> byte \<Rightarrow> nat" where
  "unpack_H hi lo = 256 * unat hi + unat lo"

lemma pack_H_Some:
  "pack_H n = Some bs \<longleftrightarrow> n < 65536 \<and> bs = [byte_of (n div 256), byte_of (n mod 256)]"
  by (auto simp: pack_H_def)

lemma unpack_pack_H:
  "n < 65536 \<Longrightarrow> unpack_H (byte_of (n div 256)) (byte_of (n mod 256)) = n"
  by (simp add: unpack_H_def unat_byte_of)

lemma unpack_H_less: "unpack_H hi lo < 65536"
  using unat_byte_less [of hi] unat_byte_less [of lo] unfolding unpack_H_def by linarith

lemma pack_unpack_H: "pack_H (unpack_H hi lo) = Some [hi, lo]"
proof -
  have "unpack_H hi lo div 256 = unat hi" "unpack_H hi lo mod 256 = unat lo"
    using unat_byte_less [of lo] by (simp_all add: unpack_H_def)
  then show ?thesis
    by (simp add: pack_H_def unpack_H_less)
qed

end
