(* ===== verification/Root_Keys.thy ===== *)
theory Root_Keys
  imports Bytes PyValue
begin

text \<open>
  The root-key providers of \<^verbatim>\<open>crypto/providers.py\<close>: the local key file, HashiCorp Vault and the
  Volcengine key-management service, with the cached key each provider object keeps, the storage
  that survives a restart, and every call to the outside that can fail. A call's random bytes and
  the outcomes of its external calls are its argument; a call is one atomic step, so the
  interleaving of two first calls inside one process is not covered.

  The interface \<open>durable_root_key\<close> states what the encryptor needs: a key that was handed out once
  is the key that every later call returns, across failures and restarts. The local provider and
  the Vault provider are instances. The Volcengine provider is not, and the theory ends with the
  run that shows it.
\<close>

section \<open>Runs of a provider\<close>

text \<open>A provider is used through \<open>get_root_key\<close>; \<open>Restart\<close> replaces the provider object by a
  new one over the same storage.\<close>

datatype 'ev key_op = Call 'ev | Restart

fun key_run :: "('ev \<Rightarrow> 'p \<times> 'w \<Rightarrow> bytes res \<times> 'p \<times> 'w) \<Rightarrow> 'p \<Rightarrow> 'ev key_op list \<Rightarrow> 'p \<times> 'w
    \<Rightarrow> bytes res list \<times> 'p \<times> 'w" where
  "key_run get new [] s = ([], s)"
| "key_run get new (Call ev # ops) s =
     (let (r, s') = get ev s; (rs, s'') = key_run get new ops s' in (r # rs, s''))"
| "key_run get new (Restart # ops) s = key_run get new ops (new, snd s)"

text \<open>\<open>stored w\<close> is the key a new provider would load from the storage \<open>w\<close>.\<close>

locale durable_root_key =
  fixes get :: "'ev \<Rightarrow> 'p \<times> 'w \<Rightarrow> bytes res \<times> 'p \<times> 'w"
    and new :: 'p
    and stored :: "'w \<Rightarrow> bytes option"
    and inv :: "'p \<times> 'w \<Rightarrow> bool"
  assumes get_inv: "\<lbrakk>inv s; get ev s = (r, s')\<rbrakk> \<Longrightarrow> inv s'"
    and restart_inv: "inv (p, w) \<Longrightarrow> inv (new, w)"
    and get_stored: "\<lbrakk>inv s; get ev s = (Inr k, s')\<rbrakk> \<Longrightarrow> stored (snd s') = Some k"
    and stored_kept:
      "\<lbrakk>inv s; stored (snd s) = Some k; get ev s = (r, s')\<rbrakk> \<Longrightarrow> stored (snd s') = Some k"
begin

lemma get_same_key:
  assumes "inv s" "stored (snd s) = Some k" "get ev s = (Inr k', s')"
  shows "k' = k"
  using get_stored [OF assms(1,3)] stored_kept [OF assms] by simp

lemma run_stored:
  assumes "inv s" "stored (snd s) = Some k" "key_run get new ops s = (rs, s')"
  shows "inv s' \<and> stored (snd s') = Some k \<and> (\<forall>k'. Inr k' \<in> set rs \<longrightarrow> k' = k)"
  using assms
proof (induction ops arbitrary: s rs)
  case Nil
  then show ?case by simp
next
  case (Cons op ops)
  show ?case
  proof (cases op)
    case (Call ev)
    obtain r t where g: "get ev s = (r, t)" by (rule prod.exhaust)
    obtain rs' where t: "key_run get new ops t = (rs', s')" and rs: "rs = r # rs'"
      using Cons.prems(3) Call g by (auto split: prod.splits)
    show ?thesis
      using Cons.IH [OF get_inv [OF Cons.prems(1) g] stored_kept [OF Cons.prems(1,2) g] t]
        get_same_key [OF Cons.prems(1,2)] g rs by auto
  next
    case Restart
    then show ?thesis
      using Cons.IH [of "(new, snd s)"] Cons.prems restart_inv [of "fst s" "snd s"] by simp
  qed
qed

lemma run_one_key:
  assumes "inv s" "key_run get new ops s = (rs, s')" "Inr k \<in> set rs" "Inr k' \<in> set rs"
  shows "k' = k"
  using assms
proof (induction ops arbitrary: s rs)
  case Nil
  then show ?case by simp
next
  case (Cons op ops)
  show ?case
  proof (cases op)
    case (Call ev)
    obtain r t where g: "get ev s = (r, t)" by (rule prod.exhaust)
    obtain rs' where t: "key_run get new ops t = (rs', s')" and rs: "rs = r # rs'"
      using Cons.prems(2) Call g by (auto split: prod.splits)
    have i: "inv t" by (rule get_inv [OF Cons.prems(1) g])
    show ?thesis
    proof (cases r)
      case (Inl e)
      then show ?thesis
        using Cons.IH [OF i t] Cons.prems(3,4) rs by simp
    next
      case (Inr k0)
      then have "\<forall>k'. Inr k' \<in> set rs' \<longrightarrow> k' = k0"
        using run_stored [OF i get_stored [OF Cons.prems(1)] t] g by auto
      then show ?thesis
        using Cons.prems(3,4) rs Inr by auto
    qed
  next
    case Restart
    then show ?thesis
      using Cons.IH [of "(new, snd s)" rs] Cons.prems restart_inv [of "fst s" "snd s"] by simp
  qed
qed

end

section \<open>The local key file\<close>

text \<open>What can go wrong in one call of the local provider: reading the file, making its
  directory, opening it, writing it after \<open>n\<close> characters, changing its mode.\<close>

datatype file_fault =
    No_fault | Fault_read | Fault_mkdir | Fault_open | Fault_write nat | Fault_chmod

record file_call =
  fc_fault :: file_fault
  fc_token :: bytes

record local_provider =
  lp_root_key :: "bytes option"

definition LocalFileProvider :: local_provider where
  "LocalFileProvider = \<lparr>lp_root_key = None\<rparr>"

definition load_or_create_root_key :: "file_call \<Rightarrow> string option \<Rightarrow> bytes res \<times> string option" where
  "load_or_create_root_key ev file =
     (case file of
        Some content \<Rightarrow>
          (if fc_fault ev = Fault_read then (Raise OSError, file)
           else case bytes_fromhex (strip_space content) of
                  Some k \<Rightarrow> (Ok k, file)
                | None \<Rightarrow> (Raise ConfigError, file))
      | None \<Rightarrow>
          (case fc_fault ev of
             Fault_mkdir \<Rightarrow> (Raise OSError, None)
           | Fault_open \<Rightarrow> (Raise OSError, None)
           | Fault_write n \<Rightarrow> (Raise OSError, Some (take n (bytes_hex (fc_token ev))))
           | Fault_chmod \<Rightarrow> (Raise OSError, Some (bytes_hex (fc_token ev)))
           | _ \<Rightarrow> (Ok (fc_token ev), Some (bytes_hex (fc_token ev)))))"

definition local_get_root_key ::
  "file_call \<Rightarrow> local_provider \<times> string option \<Rightarrow> bytes res \<times> local_provider \<times> string option" where
  "local_get_root_key ev s =
     (case lp_root_key (fst s) of
        Some k \<Rightarrow> (Ok k, s)
      | None \<Rightarrow>
          (case load_or_create_root_key ev (snd s) of
             (Inr k, file) \<Rightarrow> (Ok k, (fst s)\<lparr>lp_root_key := Some k\<rparr>, file)
           | (Inl e, file) \<Rightarrow> (Raise e, fst s, file)))"

definition local_stored :: "string option \<Rightarrow> bytes option" where
  "local_stored file = Option.bind file (\<lambda>content. bytes_fromhex (strip_space content))"

definition local_inv :: "local_provider \<times> string option \<Rightarrow> bool" where
  "local_inv s \<longleftrightarrow> lp_root_key (fst s) = None \<or> lp_root_key (fst s) = local_stored (snd s)"

lemma strip_bytes_hex: "strip_space (bytes_hex bs) = bytes_hex bs"
proof (cases "bs = []")
  case False
  then have "\<not> py_isspace (hd (bytes_hex bs))" "\<not> py_isspace (last (bytes_hex bs))"
    using bytes_hex_no_space [of _ bs] by simp_all
  with False show ?thesis by (simp add: py_strip_id)
qed (simp add: py_strip_def py_lstrip_def)

lemma load_or_create_spec:
  assumes "load_or_create_root_key ev file = (r, file')"
  shows "\<And>k. r = Inr k \<Longrightarrow> local_stored file' = Some k"
    and "file \<noteq> None \<Longrightarrow> file' = file"
  using assms
  by (auto simp: load_or_create_root_key_def local_stored_def strip_bytes_hex
      split: option.splits file_fault.splits if_splits)

lemma local_get_cases:
  assumes "local_get_root_key ev s = (r, s')"
  obtains (cached) k where "lp_root_key (fst s) = Some k" "r = Inr k" "s' = s"
  | (loaded) k where "lp_root_key (fst s) = None" "load_or_create_root_key ev (snd s) = (Inr k, snd s')"
      "r = Inr k" "lp_root_key (fst s') = Some k"
  | (failed) e where "lp_root_key (fst s) = None" "load_or_create_root_key ev (snd s) = (Inl e, snd s')"
      "r = Inl e" "lp_root_key (fst s') = None"
  using assms
  by (cases s) (auto simp: local_get_root_key_def split: option.splits prod.splits sum.splits)

lemma local_stored_Some: "local_stored f = Some k \<Longrightarrow> f \<noteq> None"
  by (cases f) (simp_all add: local_stored_def)

interpretation lrk: durable_root_key local_get_root_key LocalFileProvider local_stored local_inv
proof unfold_locales
  fix s ev r s' assume "local_inv s" "local_get_root_key ev s = (r, s')"
  then show "local_inv s'"
    by (elim local_get_cases) (auto simp: local_inv_def dest: load_or_create_spec(1))
next
  fix p w assume "local_inv (p, w)"
  show "local_inv (LocalFileProvider, w)"
    by (simp add: local_inv_def LocalFileProvider_def)
next
  fix s ev k s' assume "local_inv s" "local_get_root_key ev s = (Inr k, s')"
  then show "local_stored (snd s') = Some k"
    by (elim local_get_cases) (auto simp: local_inv_def dest: load_or_create_spec(1))
next
  fix s k ev r s'
  assume "local_inv s" and st: "local_stored (snd s) = Some k" and "local_get_root_key ev s = (r, s')"
  then show "local_stored (snd s') = Some k"
    using local_stored_Some [OF st]
    by (elim local_get_cases) (auto dest: load_or_create_spec(2))
qed

section \<open>HashiCorp Vault\<close>

text \<open>The part of Vault the provider uses: the key-value secret, a dictionary of strings, and the
  transit engine as a pair of functions on the base64 texts it exchanges.\<close>

record vault =
  kv_secret :: "(string \<times> string) list option"
  transit_encrypt :: "string \<Rightarrow> string"
  transit_decrypt :: "string \<Rightarrow> string"

text \<open>The documented behaviour of the transit engine: decrypting what it encrypted gives the
  plaintext back.\<close>

definition transit_ok :: "vault \<Rightarrow> bool" where
  "transit_ok w \<longleftrightarrow> (\<forall>p. transit_decrypt w (transit_encrypt w p) = p)"

text \<open>The outcomes of the external calls one \<open>get_root_key\<close> may make. \<open>vc_kv_write\<close> is the error
  of the write, if any, and whether Vault stored the secret in spite of it.\<close>

record vault_call =
  vc_hvac :: bool
  vc_is_authenticated :: "bool res"
  vc_read_key :: bool
  vc_create_key :: "exn option"
  vc_kv_read :: "exn option"
  vc_encrypt :: "exn option"
  vc_decrypt :: "exn option"
  vc_kv_write :: "(exn \<times> bool) option"
  vc_token :: bytes

record vault_provider =
  vp_client :: bool
  vp_root_key :: "bytes option"

definition VaultProvider :: vault_provider where
  "VaultProvider = \<lparr>vp_client = False, vp_root_key = None\<rparr>"

text \<open>The client object is kept before it is checked: a second call skips the authentication.\<close>

definition ensure_root_key_exists :: "vault_call \<Rightarrow> unit res" where
  "ensure_root_key_exists ev =
     (if vc_read_key ev then Ok ()
      else case vc_create_key ev of None \<Rightarrow> Ok () | Some e \<Rightarrow> Raise e)"

definition vault_get_client :: "vault_call \<Rightarrow> vault_provider \<Rightarrow> unit res \<times> vault_provider" where
  "vault_get_client ev p =
     (if vp_client p then (Ok (), p)
      else if \<not> vc_hvac ev then (Raise ConfigError, p)
      else (res_bind (vc_is_authenticated ev) (\<lambda>is_auth.
              if \<not> is_auth then Raise AuthenticationFailedError else ensure_root_key_exists ev),
            p\<lparr>vp_client := True\<rparr>))"

definition encrypt_with_vault :: "vault_call \<Rightarrow> vault \<Rightarrow> bytes \<Rightarrow> bytes res" where
  "encrypt_with_vault ev w plaintext =
     (case vc_encrypt ev of
        Some e \<Rightarrow> Raise e
      | None \<Rightarrow> Ok (str_encode (transit_encrypt w (b64encode plaintext))))"

definition decrypt_with_vault :: "vault_call \<Rightarrow> vault \<Rightarrow> bytes \<Rightarrow> bytes res" where
  "decrypt_with_vault ev w ciphertext =
     (case bytes_decode ciphertext of
        None \<Rightarrow> Raise ValueError
      | Some text \<Rightarrow>
          (case vc_decrypt ev of
             Some e \<Rightarrow> Raise e
           | None \<Rightarrow> (case b64decode (transit_decrypt w text) of
                         None \<Rightarrow> Raise ValueError | Some k \<Rightarrow> Ok k)))"

definition vault_load :: "vault_call \<Rightarrow> vault \<Rightarrow> (string \<times> string) list \<Rightarrow> bytes res" where
  "vault_load ev w secret =
     (case map_of secret ''encrypted_root_key'' of
        None \<Rightarrow> Raise KeyError
      | Some text \<Rightarrow> (case b64decode text of
                        None \<Rightarrow> Raise ValueError
                      | Some blob \<Rightarrow> decrypt_with_vault ev w blob))"

text \<open>Creating the key: any failure clears the cached key before the \<open>ConfigError\<close>.\<close>

definition vault_create :: "vault_call \<Rightarrow> vault_provider \<times> vault
    \<Rightarrow> bytes res \<times> vault_provider \<times> vault" where
  "vault_create ev s =
     (case encrypt_with_vault ev (snd s) (vc_token ev) of
        Inl e \<Rightarrow> (Raise ConfigError, (fst s)\<lparr>vp_root_key := None\<rparr>, snd s)
      | Inr blob \<Rightarrow>
          (let w' = (snd s)\<lparr>kv_secret := Some [(''encrypted_root_key'', b64encode blob)]\<rparr>
           in case vc_kv_write ev of
                None \<Rightarrow> (Ok (vc_token ev), (fst s)\<lparr>vp_root_key := Some (vc_token ev)\<rparr>, w')
              | Some (e, stored) \<Rightarrow>
                  (Raise ConfigError, (fst s)\<lparr>vp_root_key := None\<rparr>, if stored then w' else snd s)))"

definition vault_get_or_create :: "vault_call \<Rightarrow> vault_provider \<times> vault
    \<Rightarrow> bytes res \<times> vault_provider \<times> vault" where
  "vault_get_or_create ev s =
     (case vault_get_client ev (fst s) of
        (Inl e, p) \<Rightarrow> (Raise e, p, snd s)
      | (Inr _, p) \<Rightarrow>
          (case vc_kv_read ev of
             Some e \<Rightarrow> (Raise e, p, snd s)
           | None \<Rightarrow>
               (case kv_secret (snd s) of
                  None \<Rightarrow> vault_create ev (p, snd s)
                | Some secret \<Rightarrow>
                    (case vault_load ev (snd s) secret of
                       Inl e \<Rightarrow> (Raise e, p, snd s)
                     | Inr k \<Rightarrow> (Ok k, p\<lparr>vp_root_key := Some k\<rparr>, snd s)))))"

definition vault_get_root_key :: "vault_call \<Rightarrow> vault_provider \<times> vault
    \<Rightarrow> bytes res \<times> vault_provider \<times> vault" where
  "vault_get_root_key ev s =
     (case vp_root_key (fst s) of
        Some k \<Rightarrow> (Ok k, s)
      | None \<Rightarrow> vault_get_or_create ev s)"

text \<open>The call in which nothing fails, and the key it would load.\<close>

definition smooth_vault_call :: "bytes \<Rightarrow> vault_call" where
  "smooth_vault_call token =
     \<lparr>vc_hvac = True, vc_is_authenticated = Ok True, vc_read_key = True, vc_create_key = None,
      vc_kv_read = None, vc_encrypt = None, vc_decrypt = None, vc_kv_write = None,
      vc_token = token\<rparr>"

definition vault_stored :: "vault \<Rightarrow> bytes option" where
  "vault_stored w =
     (case kv_secret w of
        None \<Rightarrow> None
      | Some secret \<Rightarrow> (case vault_load (smooth_vault_call []) w secret of
                         Inl _ \<Rightarrow> None | Inr k \<Rightarrow> Some k))"

definition vault_inv :: "vault_provider \<times> vault \<Rightarrow> bool" where
  "vault_inv s \<longleftrightarrow> transit_ok (snd s) \<and>
     (vp_root_key (fst s) = None \<or> vp_root_key (fst s) = vault_stored (snd s))"

lemma vault_get_client_key: "vp_root_key (snd (vault_get_client ev p)) = vp_root_key p"
  by (simp add: vault_get_client_def)

lemma vault_load_smooth:
  "vault_load ev w secret = Inr k \<Longrightarrow> vault_load (smooth_vault_call t) w secret = Inr k"
  by (auto simp: vault_load_def decrypt_with_vault_def smooth_vault_call_def split: option.splits)

lemma vault_stored_new:
  assumes "transit_ok w" "encrypt_with_vault ev w k = Inr blob"
  shows "vault_stored (w\<lparr>kv_secret := Some [(''encrypted_root_key'', b64encode blob)]\<rparr>) = Some k"
  using assms
  by (auto simp: vault_stored_def vault_load_def encrypt_with_vault_def decrypt_with_vault_def
      smooth_vault_call_def transit_ok_def split: option.splits)

lemma vault_create_spec:
  assumes "vault_create ev s = (r, s')" "transit_ok (snd s)"
  shows "transit_ok (snd s')"
    and "r = Inr k \<Longrightarrow> vault_stored (snd s') = Some k \<and> vp_root_key (fst s') = Some k"
    and "r = Inl e \<Longrightarrow> vp_root_key (fst s') = None"
  using assms vault_stored_new [of "snd s" ev "vc_token ev"]
  by (auto simp: vault_create_def transit_ok_def Let_def
      split: option.splits sum.splits prod.splits if_splits)

lemma vault_get_cases:
  assumes "vault_get_root_key ev s = (r, s')"
  obtains (cached) k where "vp_root_key (fst s) = Some k" "r = Inr k" "s' = s"
  | (failed) e where "vp_root_key (fst s) = None" "r = Inl e" "snd s' = snd s"
      "vp_root_key (fst s') = None"
  | (created) p where "vp_root_key (fst s) = None" "kv_secret (snd s) = None"
      "vault_create ev (p, snd s) = (r, s')"
  | (loaded) secret k where "vp_root_key (fst s) = None" "kv_secret (snd s) = Some secret"
      "vault_load ev (snd s) secret = Inr k" "r = Inr k" "snd s' = snd s"
      "vp_root_key (fst s') = Some k"
  using assms vault_get_client_key [of ev "fst s"]
  unfolding vault_get_root_key_def vault_get_or_create_def
  by (auto simp: eq_commute [of _ "vault_load ev (snd s) _"]
      split: option.splits prod.splits sum.splits)

lemma vault_stored_Some: "vault_stored w = Some k \<Longrightarrow> kv_secret w \<noteq> None"
  by (auto simp: vault_stored_def split: option.splits)

lemma vault_stored_load:
  "\<lbrakk>kv_secret w = Some secret; vault_load ev w secret = Inr k\<rbrakk> \<Longrightarrow> vault_stored w = Some k"
  using vault_load_smooth [of ev w secret k "[]"] by (simp add: vault_stored_def)

interpretation vrk: durable_root_key vault_get_root_key VaultProvider vault_stored vault_inv
proof unfold_locales
  fix s ev r s' assume "vault_inv s" "vault_get_root_key ev s = (r, s')"
  then show "vault_inv s'"
    by (elim vault_get_cases; cases r)
      (auto simp: vault_inv_def dest: vault_create_spec vault_stored_load)
next
  fix p w assume "vault_inv (p, w)"
  then show "vault_inv (VaultProvider, w)"
    by (simp add: vault_inv_def VaultProvider_def)
next
  fix s ev k s' assume "vault_inv s" "vault_get_root_key ev s = (Inr k, s')"
  then show "vault_stored (snd s') = Some k"
    by (elim vault_get_cases)
      (auto simp: vault_inv_def dest: vault_create_spec(2) vault_stored_load)
next
  fix s k ev r s'
  assume "vault_inv s" and st: "vault_stored (snd s) = Some k" and "vault_get_root_key ev s = (r, s')"
  then show "vault_stored (snd s') = Some k"
    using vault_stored_Some [OF st] by (elim vault_get_cases) auto
qed

section \<open>The Volcengine key-management service\<close>

text \<open>\<^verbatim>\<open>k in x\<close> and \<^verbatim>\<open>x[k]\<close> for a string \<open>k\<close> and a decoded JSON value \<open>x\<close>.\<close>

fun py_in :: "string \<Rightarrow> pyval \<Rightarrow> bool res" where
  "py_in k (PDict d) = Ok (k \<in> fst ` set d)"
| "py_in k (PList xs) = Ok (PStr k \<in> set xs)"
| "py_in k (PStr s) = Ok (sublist k s)"
| "py_in k _ = Raise TypeError"

fun py_getitem :: "pyval \<Rightarrow> string \<Rightarrow> pyval res" where
  "py_getitem (PDict d) k = (case map_of d k of None \<Rightarrow> Raise KeyError | Some v \<Rightarrow> Ok v)"
| "py_getitem _ k = Raise TypeError"

fun py_b64decode :: "pyval \<Rightarrow> bytes res" where
  "py_b64decode (PStr s) = (case b64decode s of None \<Rightarrow> Raise ValueError | Some bs \<Rightarrow> Ok bs)"
| "py_b64decode _ = Raise TypeError"

text \<open>What \<open>KmsService.encrypt\<close> and \<open>decrypt\<close> do with the reply: \<open>None\<close> is the empty reply, and
  \<open>field\<close> the entry of the result they return.\<close>

definition kms_result :: "string \<Rightarrow> pyval option \<Rightarrow> bytes res" where
  "kms_result field reply =
     (case reply of
        None \<Rightarrow> Raise OtherException
      | Some j \<Rightarrow>
          res_bind (py_in ''ResponseMetadata'' j) (\<lambda>meta.
          res_bind (if meta then res_bind (py_getitem j ''ResponseMetadata'') (py_in ''Error'')
                    else Ok False) (\<lambda>failed.
          if failed then Raise OtherException else
          res_bind (py_in ''Result'' j) (\<lambda>result.
          res_bind (if result then res_bind (py_getitem j ''Result'') (py_in field)
                    else Ok False) (\<lambda>found.
          if found then
            res_bind (py_getitem j ''Result'') (\<lambda>r.
            res_bind (py_getitem r field) py_b64decode)
          else Raise OtherException)))))"

record kms =
  kms_file :: "bytes option"
  kms_seal :: "bytes \<Rightarrow> bytes"
  kms_open :: "bytes \<Rightarrow> bytes"

datatype kms_reply = Reply_ok | Reply_raise exn | Reply_json "pyval option"

record kms_call =
  kc_import :: bool
  kc_reply :: kms_reply
  kc_fault :: file_fault
  kc_token :: bytes

record volcengine_provider =
  kp_client :: bool
  kp_root_key :: "bytes option"

definition VolcengineKMSProvider :: volcengine_provider where
  "VolcengineKMSProvider = \<lparr>kp_client = False, kp_root_key = None\<rparr>"

definition get_kms_client :: "kms_call \<Rightarrow> volcengine_provider \<Rightarrow> unit res \<times> volcengine_provider" where
  "get_kms_client ev p =
     (if kp_client p then (Ok (), p)
      else if kc_import ev then (Ok (), p\<lparr>kp_client := True\<rparr>)
      else (Raise ConfigError, p))"

definition kms_answer :: "kms_call \<Rightarrow> string \<Rightarrow> bytes \<Rightarrow> bytes res" where
  "kms_answer ev field data =
     (case kc_reply ev of
        Reply_raise e \<Rightarrow> Raise e
      | Reply_json j \<Rightarrow> kms_result field j
      | Reply_ok \<Rightarrow> kms_result field
          (Some (PDict [(''Result'', PDict [(field, PStr (b64encode data))])])))"

definition encrypt_with_kms :: "kms_call \<Rightarrow> kms \<Rightarrow> volcengine_provider \<Rightarrow> bytes
    \<Rightarrow> bytes res \<times> volcengine_provider" where
  "encrypt_with_kms ev w p plaintext =
     (case get_kms_client ev p of
        (Inl e, p') \<Rightarrow> (Raise e, p')
      | (Inr _, p') \<Rightarrow> (kms_answer ev ''CiphertextBlob'' (kms_seal w plaintext), p'))"

definition decrypt_with_kms :: "kms_call \<Rightarrow> kms \<Rightarrow> volcengine_provider \<Rightarrow> bytes
    \<Rightarrow> bytes res \<times> volcengine_provider" where
  "decrypt_with_kms ev w p ciphertext =
     (case get_kms_client ev p of
        (Inl e, p') \<Rightarrow> (Raise e, p')
      | (Inr _, p') \<Rightarrow> (kms_answer ev ''Plaintext'' (kms_open w ciphertext), p'))"

definition write_root_key :: "file_fault \<Rightarrow> bytes \<Rightarrow> unit res \<times> bytes option" where
  "write_root_key fault blob =
     (case fault of
        Fault_mkdir \<Rightarrow> (Raise OSError, None)
      | Fault_open \<Rightarrow> (Raise OSError, None)
      | Fault_write n \<Rightarrow> (Raise OSError, Some (take n blob))
      | _ \<Rightarrow> (Ok (), Some blob))"

definition kms_load :: "kms_call \<Rightarrow> bytes \<Rightarrow> volcengine_provider \<times> kms
    \<Rightarrow> bytes res \<times> volcengine_provider \<times> kms" where
  "kms_load ev blob s =
     (if kc_fault ev = Fault_read then (Raise ConfigError, s)
      else case decrypt_with_kms ev (snd s) (fst s) blob of
             (Inl e, p) \<Rightarrow> (Raise ConfigError, p, snd s)
           | (Inr k, p) \<Rightarrow> (Ok k, p\<lparr>kp_root_key := Some k\<rparr>, snd s))"

text \<open>Creating the key: the cached key is set first, and no failure resets it.\<close>

definition kms_create :: "kms_call \<Rightarrow> volcengine_provider \<times> kms
    \<Rightarrow> bytes res \<times> volcengine_provider \<times> kms" where
  "kms_create ev s =
     (case encrypt_with_kms ev (snd s) ((fst s)\<lparr>kp_root_key := Some (kc_token ev)\<rparr>) (kc_token ev) of
        (Inl e, p) \<Rightarrow> (Raise ConfigError, p, snd s)
      | (Inr blob, p) \<Rightarrow>
          (case write_root_key (kc_fault ev) blob of
             (Inl e, f) \<Rightarrow> (Raise ConfigError, p, (snd s)\<lparr>kms_file := f\<rparr>)
           | (Inr _, f) \<Rightarrow> (Ok (kc_token ev), p, (snd s)\<lparr>kms_file := f\<rparr>)))"

definition kms_get_root_key :: "kms_call \<Rightarrow> volcengine_provider \<times> kms
    \<Rightarrow> bytes res \<times> volcengine_provider \<times> kms" where
  "kms_get_root_key ev s =
     (case kp_root_key (fst s) of
        Some k \<Rightarrow> (Ok k, s)
      | None \<Rightarrow>
          (case kms_file (snd s) of
             Some blob \<Rightarrow> kms_load ev blob s
           | None \<Rightarrow> kms_create ev s))"

text \<open>The documented behaviour of the service, and the key a new provider would load.\<close>

definition kms_ok :: "kms \<Rightarrow> bool" where
  "kms_ok w \<longleftrightarrow> (\<forall>k. kms_open w (kms_seal w k) = k)"

definition kms_stored :: "kms \<Rightarrow> bytes option" where
  "kms_stored w = map_option (kms_open w) (kms_file w)"

lemma kms_answer_ok: "kc_reply ev = Reply_ok \<Longrightarrow> kms_answer ev field data = Inr data"
  by (simp add: kms_answer_def kms_result_def)

lemma kms_fresh_persisted:
  assumes "kms_ok w" "kc_reply ev = Reply_ok" "kp_root_key p = None"
    and "kms_get_root_key ev (p, w) = (Inr k, s')"
  shows "kms_stored (snd s') = Some k"
  using assms
  by (auto simp: kms_get_root_key_def kms_load_def kms_create_def encrypt_with_kms_def
      decrypt_with_kms_def get_kms_client_def kms_answer_ok write_root_key_def kms_stored_def
      kms_ok_def split: option.splits file_fault.splits if_splits)

lemma kms_create_failed:
  assumes "kms_file w = None"
    and "kc_reply ev = Reply_raise e \<or>
         kc_reply ev = Reply_ok \<and> kc_fault ev \<in> {Fault_mkdir, Fault_open}"
  shows "\<exists>q. kms_create ev (p, w) = (Raise ConfigError, q, w) \<and> kp_root_key q = Some (kc_token ev)"
proof -
  have w: "w\<lparr>kms_file := None\<rparr> = w"
    using assms(1) by (cases w) simp
  have seal: "kms_answer ev f d = Raise e \<or>
      kms_answer ev f d = Ok d \<and> write_root_key (kc_fault ev) d = (Raise OSError, None)" for f d
    using assms(2) kms_answer_ok [of ev f d]
    by (elim disjE) (auto simp: kms_answer_def [of ev f d] write_root_key_def)
  obtain r q where c: "get_kms_client ev (p\<lparr>kp_root_key := Some (kc_token ev)\<rparr>) = (r, q)"
    by (rule prod.exhaust)
  then have "kp_root_key q = Some (kc_token ev)"
    by (auto simp: get_kms_client_def split: if_splits)
  moreover have "kms_create ev (p, w) = (Raise ConfigError, q, w)"
    using seal [of "''CiphertextBlob''" "kms_seal w (kc_token ev)"]
    by (cases r) (auto simp: kms_create_def encrypt_with_kms_def c w)
  ultimately show ?thesis by blast
qed

section \<open>Properties\<close>

text \<open>The local provider never hands out two root keys: over any run of calls and restarts,
  whatever the key file holds at the start and whatever file operations fail on the way, all the
  calls of \<open>get_root_key\<close> that return a key return the same key.\<close>

theorem local_root_key_durable:
  assumes "key_run local_get_root_key LocalFileProvider ops (LocalFileProvider, keyfile) = (rs, s')"
    and "Inr k \<in> set rs" "Inr k' \<in> set rs"
  shows "k' = k"
  by (rule lrk.run_one_key [OF _ assms]) (simp add: local_inv_def LocalFileProvider_def)

definition sample_local_ops :: "file_call key_op list" where
  "sample_local_ops =
     [Call \<lparr>fc_fault = Fault_chmod, fc_token = [7, 255]\<rparr>,
      Call \<lparr>fc_fault = No_fault, fc_token = [9]\<rparr>, Restart,
      Call \<lparr>fc_fault = No_fault, fc_token = [1]\<rparr>]"

theorem local_root_key_durable_witness:
  "{k'. Inr k' \<in> set (fst (key_run local_get_root_key LocalFileProvider sample_local_ops
     (LocalFileProvider, None)))} = {[7, 255]}"
proof -
  let ?r = "key_run local_get_root_key LocalFileProvider sample_local_ops (LocalFileProvider, None)"
  have "Inr [7, 255] \<in> set (fst ?r)"
    by (simp add: sample_local_ops_def local_get_root_key_def load_or_create_root_key_def
        LocalFileProvider_def strip_bytes_hex del: bytes_hex.simps)
  then show ?thesis
    using local_root_key_durable [OF prod.collapse [symmetric, of ?r]] by blast
qed

text \<open>The Vault provider never hands out two root keys: over any run of calls and restarts in
  which authentication, the transit engine, reads and writes of the secret may fail, also a write
  that is reported as failed but took effect, all the calls that return a key return the same key,
  provided the transit engine decrypts what it encrypted.\<close>

theorem vault_root_key_durable:
  assumes "transit_ok w"
    and "key_run vault_get_root_key VaultProvider ops (VaultProvider, w) = (rs, s')"
    and "Inr k \<in> set rs" "Inr k' \<in> set rs"
  shows "k' = k"
  by (rule vrk.run_one_key [OF _ assms(2-4)])
    (simp add: vault_inv_def VaultProvider_def assms(1))

definition sample_vault :: vault where
  "sample_vault = \<lparr>kv_secret = None, transit_encrypt = (\<lambda>p. ''v1:'' @ p), transit_decrypt = drop 3\<rparr>"

definition sample_vault_ops :: "vault_call key_op list" where
  "sample_vault_ops =
     [Call ((smooth_vault_call [7])\<lparr>vc_kv_write := Some (TimeoutError, False)\<rparr>),
      Call (smooth_vault_call [9]), Restart, Call (smooth_vault_call [1])]"

theorem vault_root_key_durable_witness:
  "{k'. Inr k' \<in> set (fst (key_run vault_get_root_key VaultProvider sample_vault_ops
     (VaultProvider, sample_vault)))} = {[9]}"
proof -
  let ?r = "key_run vault_get_root_key VaultProvider sample_vault_ops (VaultProvider, sample_vault)"
  have ok: "transit_ok sample_vault"
    by (simp add: transit_ok_def sample_vault_def)
  have "Inr [9] \<in> set (fst ?r)"
    by (simp add: sample_vault_ops_def vault_get_root_key_def vault_get_or_create_def
        VaultProvider_def vault_get_client_def smooth_vault_call_def ensure_root_key_exists_def
        vault_create_def encrypt_with_vault_def sample_vault_def Let_def split: prod.split)
  then show ?thesis
    using vault_root_key_durable [OF ok prod.collapse [symmetric, of ?r]] by blast
qed

text \<open>The Volcengine provider can hand out a root key it never stored. When the first call of
  a new installation fails to encrypt or to write the key, it raises \<open>ConfigError\<close>, but the key
  stays in the object: every later call returns it, and after a restart the provider creates and
  returns another one, so what was encrypted in between cannot be read again.\<close>

theorem volcengine_key_not_durable:
  assumes "kms_file w = None"
    and "kc_reply first = Reply_raise e \<or>
         kc_reply first = Reply_ok \<and> kc_fault first \<in> {Fault_mkdir, Fault_open}"
    and "kc_import third" "kc_reply third = Reply_ok" "kc_fault third = No_fault"
  shows "fst (key_run kms_get_root_key VolcengineKMSProvider
            [Call first, Call second, Restart, Call third] (VolcengineKMSProvider, w))
         = [Raise ConfigError, Ok (kc_token first), Ok (kc_token third)]"
proof -
  obtain p where 1: "kms_get_root_key first (VolcengineKMSProvider, w) = (Raise ConfigError, p, w)"
    and 2: "kp_root_key p = Some (kc_token first)"
    using kms_create_failed [OF assms(1,2), of VolcengineKMSProvider] assms(1)
    by (auto simp: kms_get_root_key_def VolcengineKMSProvider_def)
  have 3: "fst (kms_get_root_key third (VolcengineKMSProvider, w)) = Ok (kc_token third)"
    using assms
    by (simp add: kms_get_root_key_def kms_create_def encrypt_with_kms_def get_kms_client_def
        kms_answer_ok write_root_key_def VolcengineKMSProvider_def)
  show ?thesis
    using 3 by (auto simp: 1 2 kms_get_root_key_def [of second] split: prod.split)
qed

definition sample_kms :: kms where
  "sample_kms = \<lparr>kms_file = None, kms_seal = rev, kms_open = rev\<rparr>"

definition kms_call_of :: "kms_reply \<Rightarrow> bytes \<Rightarrow> kms_call" where
  "kms_call_of r t = \<lparr>kc_import = True, kc_reply = r, kc_fault = No_fault, kc_token = t\<rparr>"

theorem volcengine_key_not_durable_witness:
  "fst (key_run kms_get_root_key VolcengineKMSProvider
     [Call (kms_call_of (Reply_raise TimeoutError) [7]), Call (kms_call_of Reply_ok [8]), Restart,
      Call (kms_call_of Reply_ok [9])] (VolcengineKMSProvider, sample_kms))
   = [Raise ConfigError, Ok [7], Ok [9]]"
  using volcengine_key_not_durable [of sample_kms "kms_call_of (Reply_raise TimeoutError) [7]"
      TimeoutError "kms_call_of Reply_ok [9]" "kms_call_of Reply_ok [8]"]
  by (simp add: sample_kms_def kms_call_of_def)

text \<open>A key file whose first write was cut off before the first character is accepted as the
  empty root key: the call that created the file fails, and every later call, also after a
  restart, returns the empty key, from which the account keys are then derived.\<close>

theorem interrupted_key_file_empty_key:
  assumes "fc_fault first = Fault_write 0" "fc_fault second \<noteq> Fault_read" "fc_fault third \<noteq> Fault_read"
  shows "fst (key_run local_get_root_key LocalFileProvider
            [Call first, Call second, Restart, Call third] (LocalFileProvider, None))
         = [Raise OSError, Ok [], Ok []]"
  using assms
  by (simp add: local_get_root_key_def load_or_create_root_key_def LocalFileProvider_def
      py_strip_def py_lstrip_def)

theorem interrupted_key_file_empty_key_witness:
  "fst (key_run local_get_root_key LocalFileProvider
     [Call \<lparr>fc_fault = Fault_write 0, fc_token = [1, 2]\<rparr>, Call \<lparr>fc_fault = No_fault, fc_token = [3]\<rparr>,
      Restart, Call \<lparr>fc_fault = No_fault, fc_token = [4]\<rparr>] (LocalFileProvider, None))
   = [Raise OSError, Ok [], Ok []]"
  using interrupted_key_file_empty_key [of "\<lparr>fc_fault = Fault_write 0, fc_token = [1, 2]\<rparr>"
      "\<lparr>fc_fault = No_fault, fc_token = [3]\<rparr>" "\<lparr>fc_fault = No_fault, fc_token = [4]\<rparr>"]
  by simp

end
