(* ===== verification/Envelope.thy ===== *)
theory Envelope
  imports Root_Keys
begin

text \<open>
  Envelope encryption, \<^verbatim>\<open>crypto/encryptor.py\<close> with the key derivation and key wrapping of
  \<^verbatim>\<open>crypto/providers.py\<close>: the binary envelope and its parser, the account key derived from the root
  key, the file key wrapped with it, \<open>encrypt\<close> and \<open>decrypt\<close>.

  The ciphers are a third-party library and parameters here: the record \<open>cryptography\<close> holds AES-GCM
  and HKDF as functions that may raise, and says whether the library can be imported. \<open>aead_ok\<close> is
  what the library documents of AES-GCM. The root key comes from a provider of \<open>Root_Keys\<close>, and
  the round trip of a file is proved once in its interface. Metrics are best effort and left out.
\<close>

section \<open>The envelope\<close>

definition MAGIC :: bytes where
  "MAGIC = [0x4F, 0x56, 0x45, 0x31]"

definition VERSION :: nat where "VERSION = 1"

definition PROVIDER_LOCAL :: nat where "PROVIDER_LOCAL = 1"
definition PROVIDER_VAULT :: nat where "PROVIDER_VAULT = 2"
definition PROVIDER_VOLCENGINE :: nat where "PROVIDER_VOLCENGINE = 3"

datatype provider_class = Class_local | Class_vault | Class_volcengine | Class_other

fun detect_provider_type :: "provider_class \<Rightarrow> nat res" where
  "detect_provider_type Class_local = Ok PROVIDER_LOCAL"
| "detect_provider_type Class_vault = Ok PROVIDER_VAULT"
| "detect_provider_type Class_volcengine = Ok PROVIDER_VOLCENGINE"
| "detect_provider_type Class_other = Raise ValueError"

record envelope =
  env_provider :: nat
  env_file_key :: bytes
  env_key_iv :: bytes
  env_data_iv :: bytes
  env_content :: bytes

text \<open>The header is \<^verbatim>\<open>struct.pack("!4sBBHHH", ...)\<close>: magic, version, provider type and three
  lengths, twelve bytes in all.\<close>

definition pack_header :: "nat \<Rightarrow> nat \<Rightarrow> nat \<Rightarrow> nat \<Rightarrow> bytes res" where
  "pack_header provider_type efk_len kiv_len div_len =
     (case (pack_B VERSION, pack_B provider_type, pack_H efk_len, pack_H kiv_len, pack_H div_len) of
        (Some v, Some p, Some a, Some b, Some c) \<Rightarrow> Ok (MAGIC @ v @ p @ a @ b @ c)
      | _ \<Rightarrow> Raise StructError)"

definition build_envelope :: "envelope \<Rightarrow> bytes res" where
  "build_envelope e =
     res_bind (pack_header (env_provider e) (length (env_file_key e)) (length (env_key_iv e))
                 (length (env_data_iv e)))
       (\<lambda>header. Ok (header @ env_file_key e @ env_key_iv e @ env_data_iv e @ env_content e))"

definition HEADER_SIZE :: nat where "HEADER_SIZE = 12"

definition py_slice :: "'a list \<Rightarrow> nat \<Rightarrow> nat \<Rightarrow> 'a list" where
  "py_slice xs a b = take (b - a) (drop a xs)"

definition parse_envelope :: "bytes \<Rightarrow> envelope res" where
  "parse_envelope ciphertext =
     (if length ciphertext < HEADER_SIZE then Raise CorruptedCiphertextError
      else
        let magic = take 4 ciphertext;
            version = unat (ciphertext ! 4);
            provider_type = unat (ciphertext ! 5);
            efk_len = unpack_H (ciphertext ! 6) (ciphertext ! 7);
            kiv_len = unpack_H (ciphertext ! 8) (ciphertext ! 9);
            div_len = unpack_H (ciphertext ! 10) (ciphertext ! 11)
        in if magic \<noteq> MAGIC then Raise InvalidMagicError
           else if version \<noteq> VERSION then Raise CorruptedCiphertextError
           else
             let efk_end = HEADER_SIZE + efk_len;
                 kiv_end = efk_end + kiv_len;
                 div_end = kiv_end + div_len
             in if length ciphertext < div_end then Raise CorruptedCiphertextError
                else Ok \<lparr>env_provider = provider_type,
                          env_file_key = py_slice ciphertext HEADER_SIZE efk_end,
                          env_key_iv = py_slice ciphertext efk_end kiv_end,
                          env_data_iv = py_slice ciphertext kiv_end div_end,
                          env_content = drop div_end ciphertext\<rparr>)"

definition envelope_fits :: "envelope \<Rightarrow> bool" where
  "envelope_fits e \<longleftrightarrow> env_provider e < 256 \<and> length (env_file_key e) < 65536 \<and>
     length (env_key_iv e) < 65536 \<and> length (env_data_iv e) < 65536"

definition header_bytes :: "nat \<Rightarrow> nat \<Rightarrow> nat \<Rightarrow> nat \<Rightarrow> bytes" where
  "header_bytes p a b c =
     MAGIC @ [1, byte_of p, byte_of (a div 256), byte_of (a mod 256),
              byte_of (b div 256), byte_of (b mod 256), byte_of (c div 256), byte_of (c mod 256)]"

lemma pack_header_eq:
  "pack_header p a b c =
     (if p < 256 \<and> a < 65536 \<and> b < 65536 \<and> c < 65536 then Ok (header_bytes p a b c)
      else Raise StructError)"
  by (simp add: pack_header_def pack_B_def pack_H_def VERSION_def header_bytes_def byte_of_def)

lemma build_envelope_eq:
  "build_envelope e =
     (if envelope_fits e
      then Ok (header_bytes (env_provider e) (length (env_file_key e)) (length (env_key_iv e))
                 (length (env_data_iv e))
               @ env_file_key e @ env_key_iv e @ env_data_iv e @ env_content e)
      else Raise StructError)"
  by (simp add: build_envelope_def pack_header_eq envelope_fits_def)

lemma length_MAGIC [simp]: "length MAGIC = 4"
  by (simp add: MAGIC_def)

lemma length_header_bytes [simp]: "length (header_bytes p a b c) = 12"
  by (simp add: header_bytes_def)

lemma header_bytes_nth:
  "header_bytes p a b c ! 4 = 1" "header_bytes p a b c ! 5 = byte_of p"
  "header_bytes p a b c ! 6 = byte_of (a div 256)" "header_bytes p a b c ! 7 = byte_of (a mod 256)"
  "header_bytes p a b c ! 8 = byte_of (b div 256)" "header_bytes p a b c ! 9 = byte_of (b mod 256)"
  "header_bytes p a b c ! 10 = byte_of (c div 256)" "header_bytes p a b c ! 11 = byte_of (c mod 256)"
  by (simp_all add: header_bytes_def MAGIC_def)

lemma parse_build:
  assumes "build_envelope e = Inr ct"
  shows "parse_envelope ct = Inr e"
proof -
  let ?h = "header_bytes (env_provider e) (length (env_file_key e)) (length (env_key_iv e))
              (length (env_data_iv e))"
  have fits: "envelope_fits e"
    and ct: "ct = ?h @ env_file_key e @ env_key_iv e @ env_data_iv e @ env_content e"
    using assms by (auto simp: build_envelope_eq split: if_splits)
  have magic: "take 4 ?h = MAGIC"
    by (simp add: header_bytes_def)
  show ?thesis
    using fits
    by (simp add: parse_envelope_def ct HEADER_SIZE_def nth_append header_bytes_nth magic
        VERSION_def envelope_fits_def unpack_pack_H py_slice_def Let_def)
qed

lemma list_twelve:
  assumes "12 \<le> length xs"
  shows "xs = take 4 xs @ [xs ! 4, xs ! 5, xs ! 6, xs ! 7, xs ! 8, xs ! 9, xs ! 10, xs ! 11]
              @ drop 12 xs"
proof -
  have step: "drop n xs = xs ! n # drop (Suc n) xs" if "n < 12" for n
    using that assms by (simp add: Cons_nth_drop_Suc)
  have "xs = take 4 xs @ drop 4 xs" by simp
  then show ?thesis
    by (simp add: step)
qed

lemma four_parts:
  "take a xs @ take b (drop a xs) @ take c (drop (a + b) xs) @ drop (a + b + c) xs = xs"
  by (metis append_take_drop_id drop_drop add.commute)

lemma build_parse:
  assumes "parse_envelope ct = Inr e"
  shows "build_envelope e = Inr ct"
proof -
  let ?a = "unpack_H (ct ! 6) (ct ! 7)" and ?b = "unpack_H (ct ! 8) (ct ! 9)"
    and ?c = "unpack_H (ct ! 10) (ct ! 11)"
  have len: "12 \<le> length ct" and magic: "take 4 ct = MAGIC" and version: "unat (ct ! 4) = 1"
    and body: "12 + ?a + ?b + ?c \<le> length ct"
    and e: "e = \<lparr>env_provider = unat (ct ! 5), env_file_key = take ?a (drop 12 ct),
                 env_key_iv = take ?b (drop (12 + ?a) ct),
                 env_data_iv = take ?c (drop (12 + ?a + ?b) ct),
                 env_content = drop (12 + ?a + ?b + ?c) ct\<rparr>"
    using assms
    by (auto simp: parse_envelope_def HEADER_SIZE_def VERSION_def Let_def py_slice_def
        split: if_splits)
  have one: "ct ! 4 = 1"
    using version by (metis byte_of_unat byte_of_def of_nat_1)
  have lens: "length (env_file_key e) = ?a" "length (env_key_iv e) = ?b" "length (env_data_iv e) = ?c"
    using body by (simp_all add: e)
  have fits: "envelope_fits e"
    by (simp add: envelope_fits_def lens unpack_H_less) (simp add: e)
  have H: "byte_of (unpack_H hi lo div 256) = hi" "byte_of (unpack_H hi lo mod 256) = lo" for hi lo
    using pack_unpack_H [of hi lo] by (auto simp: pack_H_def split: if_splits)
  have head: "header_bytes (unat (ct ! 5)) ?a ?b ?c =
      take 4 ct @ [ct ! 4, ct ! 5, ct ! 6, ct ! 7, ct ! 8, ct ! 9, ct ! 10, ct ! 11]" (is "?h = _")
    by (simp add: header_bytes_def magic one H)
  have rest: "take ?a (drop 12 ct) @ take ?b (drop (12 + ?a) ct) @ take ?c (drop (12 + ?a + ?b) ct)
      @ drop (12 + ?a + ?b + ?c) ct = drop 12 ct" (is "?r = _")
    using four_parts [of ?a "drop 12 ct" ?b ?c] by (simp add: ac_simps)
  have "build_envelope e = Inr (?h @ ?r)"
    unfolding build_envelope_eq lens using fits by (simp add: e)
  also have "?h @ ?r = ct"
    unfolding head rest using list_twelve [OF len] by simp
  finally show ?thesis .
qed

section \<open>Account keys and file keys\<close>

record cryptography =
  importable :: bool
  HKDF :: "bytes \<Rightarrow> bytes \<Rightarrow> bytes \<Rightarrow> bytes res"
  AESGCM_encrypt :: "bytes \<Rightarrow> bytes \<Rightarrow> bytes \<Rightarrow> bytes res"
  AESGCM_decrypt :: "bytes \<Rightarrow> bytes \<Rightarrow> bytes \<Rightarrow> bytes res"

text \<open>The documented behaviour of AES-GCM: decrypting with the same key and nonce returns the
  plaintext.\<close>

definition aead_ok :: "cryptography \<Rightarrow> bool" where
  "aead_ok C \<longleftrightarrow> (\<forall>key iv p c. AESGCM_encrypt C key iv p = Inr c \<longrightarrow> AESGCM_decrypt C key iv c = Inr p)"

definition HKDF_SALT :: bytes where
  "HKDF_SALT = str_encode ''openviking-kek-salt-v1''"

definition HKDF_INFO_PREFIX :: bytes where
  "HKDF_INFO_PREFIX = str_encode ''openviking:kek:v1:''"

definition hkdf_derive :: "cryptography \<Rightarrow> bytes \<Rightarrow> string \<Rightarrow> bytes \<Rightarrow> bytes \<Rightarrow> bytes res" where
  "hkdf_derive C root_key account_id salt info_prefix =
     (if importable C then HKDF C root_key salt (info_prefix @ str_encode account_id)
      else Raise ConfigError)"

definition aes_gcm_encrypt :: "cryptography \<Rightarrow> bytes \<Rightarrow> bytes \<Rightarrow> bytes \<Rightarrow> bytes res" where
  "aes_gcm_encrypt C key iv plaintext =
     (if importable C then AESGCM_encrypt C key iv plaintext else Raise ConfigError)"

definition aes_gcm_decrypt :: "cryptography \<Rightarrow> bytes \<Rightarrow> bytes \<Rightarrow> bytes \<Rightarrow> bytes res" where
  "aes_gcm_decrypt C key iv ciphertext =
     (if importable C
      then case AESGCM_decrypt C key iv ciphertext of
             Inl e \<Rightarrow> Raise AuthenticationFailedError | Inr p \<Rightarrow> Ok p
      else Raise ConfigError)"

text \<open>The methods of \<open>BaseProvider\<close>, over the \<open>get_root_key\<close> of the concrete provider.\<close>

definition derive_account_key :: "cryptography \<Rightarrow> ('ev \<Rightarrow> 's \<Rightarrow> bytes res \<times> 's) \<Rightarrow> 'ev \<Rightarrow> string
    \<Rightarrow> 's \<Rightarrow> bytes res \<times> 's" where
  "derive_account_key C get ev account_id s =
     (case get ev s of
        (Inl e, s') \<Rightarrow> (Raise e, s')
      | (Inr root_key, s') \<Rightarrow>
          (hkdf_derive C root_key account_id HKDF_SALT HKDF_INFO_PREFIX, s'))"

definition encrypt_file_key :: "cryptography \<Rightarrow> ('ev \<Rightarrow> 's \<Rightarrow> bytes res \<times> 's) \<Rightarrow> 'ev \<Rightarrow> bytes
    \<Rightarrow> bytes \<Rightarrow> string \<Rightarrow> 's \<Rightarrow> (bytes \<times> bytes) res \<times> 's" where
  "encrypt_file_key C get ev iv plaintext_key account_id s =
     (case derive_account_key C get ev account_id s of
        (r, s') \<Rightarrow>
          (res_bind r (\<lambda>account_key.
           res_bind (aes_gcm_encrypt C account_key iv plaintext_key) (\<lambda>encrypted_key.
           Ok (encrypted_key, iv))), s'))"

definition decrypt_file_key :: "cryptography \<Rightarrow> ('ev \<Rightarrow> 's \<Rightarrow> bytes res \<times> 's) \<Rightarrow> 'ev \<Rightarrow> bytes
    \<Rightarrow> bytes \<Rightarrow> string \<Rightarrow> 's \<Rightarrow> bytes res \<times> 's" where
  "decrypt_file_key C get ev encrypted_key iv account_id s =
     (case derive_account_key C get ev account_id s of
        (r, s') \<Rightarrow> (res_bind r (\<lambda>account_key. aes_gcm_decrypt C account_key iv encrypted_key), s'))"

section \<open>The file encryptor\<close>

text \<open>The random bytes of one encryption.\<close>

record tokens =
  tok_file_key :: bytes
  tok_data_iv :: bytes
  tok_key_iv :: bytes

definition encrypt :: "cryptography \<Rightarrow> ('ev \<Rightarrow> 's \<Rightarrow> bytes res \<times> 's) \<Rightarrow> nat \<Rightarrow> 'ev \<Rightarrow> tokens
    \<Rightarrow> string \<Rightarrow> bytes \<Rightarrow> 's \<Rightarrow> bytes res \<times> 's" where
  "encrypt C get provider_type ev t account_id plaintext s =
     (case aes_gcm_encrypt C (tok_file_key t) (tok_data_iv t) plaintext of
        Inl e \<Rightarrow> (Raise e, s)
      | Inr content \<Rightarrow>
          (case encrypt_file_key C get ev (tok_key_iv t) (tok_file_key t) account_id s of
             (r, s') \<Rightarrow>
               (res_bind r (\<lambda>(encrypted_file_key, key_iv).
                  build_envelope \<lparr>env_provider = provider_type, env_file_key = encrypted_file_key,
                    env_key_iv = key_iv, env_data_iv = tok_data_iv t, env_content = content\<rparr>), s')))"

text \<open>A ciphertext without the magic prefix is returned as it is. The parser's exceptions become
  \<open>CorruptedCiphertextError\<close>, a key that cannot be unwrapped \<open>KeyMismatchError\<close>, and every failure of
  the content cipher \<open>AuthenticationFailedError\<close>.\<close>

definition decrypt :: "cryptography \<Rightarrow> ('ev \<Rightarrow> 's \<Rightarrow> bytes res \<times> 's) \<Rightarrow> 'ev \<Rightarrow> string \<Rightarrow> bytes
    \<Rightarrow> 's \<Rightarrow> bytes res \<times> 's" where
  "decrypt C get ev account_id ciphertext s =
     (if take (length MAGIC) ciphertext \<noteq> MAGIC then (Ok ciphertext, s)
      else if length ciphertext < length MAGIC then (Raise InvalidMagicError, s)
      else case parse_envelope ciphertext of
             Inl _ \<Rightarrow> (Raise CorruptedCiphertextError, s)
           | Inr e \<Rightarrow>
               (case decrypt_file_key C get ev (env_file_key e) (env_key_iv e) account_id s of
                  (Inl _, s') \<Rightarrow> (Raise KeyMismatchError, s')
                | (Inr file_key, s') \<Rightarrow>
                    (case aes_gcm_decrypt C file_key (env_data_iv e) (env_content e) of
                       Inl _ \<Rightarrow> (Raise AuthenticationFailedError, s')
                     | Inr plaintext \<Rightarrow> (Ok plaintext, s'))))"

lemma aes_gcm_inverse:
  "\<lbrakk>aead_ok C; aes_gcm_encrypt C key iv p = Inr c\<rbrakk> \<Longrightarrow> aes_gcm_decrypt C key iv c = Inr p"
  by (auto simp: aead_ok_def aes_gcm_encrypt_def aes_gcm_decrypt_def split: if_splits)

lemma derive_account_key_Ok:
  assumes "derive_account_key C get ev a s = (Inr key, s')"
  obtains root where "get ev s = (Inr root, s')"
    "hkdf_derive C root a HKDF_SALT HKDF_INFO_PREFIX = Inr key"
  using assms by (auto simp: derive_account_key_def split: prod.splits sum.splits)

lemma encrypt_Ok:
  assumes "encrypt C get pt ev t a plaintext s = (Inr ct, s')"
  obtains root key wrapped content where "get ev s = (Inr root, s')"
    and "hkdf_derive C root a HKDF_SALT HKDF_INFO_PREFIX = Inr key"
    and "aes_gcm_encrypt C key (tok_key_iv t) (tok_file_key t) = Inr wrapped"
    and "aes_gcm_encrypt C (tok_file_key t) (tok_data_iv t) plaintext = Inr content"
    and "build_envelope \<lparr>env_provider = pt, env_file_key = wrapped, env_key_iv = tok_key_iv t,
           env_data_iv = tok_data_iv t, env_content = content\<rparr> = Inr ct"
  using assms
  by (auto simp: encrypt_def encrypt_file_key_def res_bind_Ok_iff
      split: prod.splits sum.splits elim!: derive_account_key_Ok)

lemma build_envelope_magic:
  assumes "build_envelope e = Inr ct"
  shows "take 4 ct = MAGIC" "\<not> length ct < 4"
  using assms by (auto simp: build_envelope_eq header_bytes_def split: if_splits)

lemma decrypt_encrypted:
  assumes "aead_ok C" "encrypt C get pt ev t a plaintext s = (Inr ct, s')"
    and "fst (get ev s) = fst (get ev' s2)"
  shows "fst (decrypt C get ev' a ct s2) = Inr plaintext"
  using assms(2)
proof (rule encrypt_Ok)
  fix root key wrapped content
  assume a: "get ev s = (Inr root, s')"
    "hkdf_derive C root a HKDF_SALT HKDF_INFO_PREFIX = Inr key"
    "aes_gcm_encrypt C key (tok_key_iv t) (tok_file_key t) = Inr wrapped"
    "aes_gcm_encrypt C (tok_file_key t) (tok_data_iv t) plaintext = Inr content"
    "build_envelope \<lparr>env_provider = pt, env_file_key = wrapped, env_key_iv = tok_key_iv t,
       env_data_iv = tok_data_iv t, env_content = content\<rparr> = Inr ct"
  obtain s3 where g: "get ev' s2 = (Inr root, s3)"
    using assms(3) a(1) by (cases "get ev' s2") simp
  show ?thesis
    by (simp add: decrypt_def build_envelope_magic [OF a(5)] parse_build [OF a(5)]
        decrypt_file_key_def derive_account_key_def g a(2) aes_gcm_inverse [OF assms(1) a(3)]
        aes_gcm_inverse [OF assms(1) a(4)] split: prod.split)
qed

text \<open>A durable provider keeps every file readable: a later decryption returns the plaintext, unless
  the provider fails to deliver its key this time.\<close>

context durable_root_key
begin

lemma encrypted_file_readable:
  assumes "inv s" "aead_ok C" "encrypt C get pt ev t a plaintext s = (Inr ct, s1)"
    and "key_run get new ops s1 = (rs, s2)"
  shows "fst (decrypt C get ev' a ct s2) = Inr plaintext \<or>
         (\<exists>e. fst (get ev' s2) = Inl e) \<and> fst (decrypt C get ev' a ct s2) = Inl KeyMismatchError"
proof -
  obtain root where g: "get ev s = (Inr root, s1)"
    using assms(3) by (rule encrypt_Ok)
  have 1: "inv s1" by (rule get_inv [OF assms(1) g])
  have 2: "inv s2" "stored (snd s2) = Some root"
    using run_stored [OF 1 get_stored [OF assms(1) g] assms(4)] by blast+
  obtain r s3 where g2: "get ev' s2 = (r, s3)" by (rule prod.exhaust)
  show ?thesis
  proof (cases r)
    case (Inr k)
    then have "fst (get ev s) = fst (get ev' s2)"
      using get_same_key [OF 2] g g2 by simp
    from decrypt_encrypted [OF assms(2,3) this] show ?thesis ..
  next
    case (Inl e)
    obtain env where "build_envelope env = Inr ct"
      using assms(3) by (rule encrypt_Ok)
    then show ?thesis
      using Inl g2
      by (simp add: decrypt_def build_envelope_magic parse_build decrypt_file_key_def
          derive_account_key_def)
  qed
qed

end

text \<open>Two accounts never share the context information of the key derivation.\<close>

lemma account_info_inj:
  "HKDF_INFO_PREFIX @ str_encode a = HKDF_INFO_PREFIX @ str_encode b \<Longrightarrow> a = b"
  by (simp add: str_encode_inj)

section \<open>Properties\<close>

text \<open>C35. The envelope format is unambiguous: building an envelope gives a byte string exactly
  when parsing that byte string gives the envelope back. So every envelope that can be built parses
  to its parts, and every byte string the parser accepts is the canonical form of what it
  returns.\<close>

theorem envelope_roundtrip:
  "build_envelope e = Inr ct \<longleftrightarrow> parse_envelope ct = Inr e"
  using parse_build build_parse by blast

text \<open>C34. A file encrypted under the local provider stays readable: after any run of further
  calls, failures and restarts, decrypting it for the same account returns the plaintext, or fails
  with \<open>KeyMismatchError\<close> because the key file cannot be read this time. It never returns other
  bytes.\<close>

theorem encrypted_file_survives:
  assumes "aead_ok C"
    and "encrypt C local_get_root_key PROVIDER_LOCAL ev t account plaintext
           (LocalFileProvider, keyfile) = (Inr ct, s1)"
    and "key_run local_get_root_key LocalFileProvider ops s1 = (rs, s2)"
  shows "fst (decrypt C local_get_root_key ev' account ct s2) = Inr plaintext \<or>
         (\<exists>e. fst (local_get_root_key ev' s2) = Inl e) \<and>
         fst (decrypt C local_get_root_key ev' account ct s2) = Inl KeyMismatchError"
  by (rule lrk.encrypted_file_readable [OF _ assms])
    (simp add: local_inv_def LocalFileProvider_def)

definition sample_crypto :: cryptography where
  "sample_crypto = \<lparr>importable = True, HKDF = (\<lambda>root salt info. Ok (root @ info)),
     AESGCM_encrypt = (\<lambda>key iv p. Ok (key @ p)),
     AESGCM_decrypt = (\<lambda>key iv c. if take (length key) c = key then Ok (drop (length key) c)
                                     else Raise ValueError)\<rparr>"

definition sample_tokens :: tokens where
  "sample_tokens = \<lparr>tok_file_key = [1, 2], tok_data_iv = [3], tok_key_iv = [4]\<rparr>"

definition sample_call :: "bytes \<Rightarrow> file_call" where
  "sample_call token = \<lparr>fc_fault = No_fault, fc_token = token\<rparr>"

lemma sample_aead_ok: "aead_ok sample_crypto"
  by (simp add: aead_ok_def sample_crypto_def)

lemma sample_local_get:
  "local_get_root_key (sample_call [9]) (LocalFileProvider, None)
   = (Ok [9], \<lparr>lp_root_key = Some [9]\<rparr>, Some (bytes_hex [9]))"
  "fst (local_get_root_key (sample_call [5]) (LocalFileProvider, Some (bytes_hex [9]))) = Ok [9]"
  by (simp_all add: local_get_root_key_def load_or_create_root_key_def LocalFileProvider_def
      sample_call_def strip_bytes_hex del: bytes_hex.simps)

theorem encrypted_file_survives_witness:
  "\<exists>ct s1. encrypt sample_crypto local_get_root_key PROVIDER_LOCAL (sample_call [9]) sample_tokens
       ''acme'' [7, 7] (LocalFileProvider, None) = (Ok ct, s1) \<and>
     fst (decrypt sample_crypto local_get_root_key (sample_call [5]) ''acme'' ct
       (LocalFileProvider, snd s1)) = Ok [7, 7]"
proof -
  let ?s1 = "(\<lparr>lp_root_key = Some [9]\<rparr>, Some (bytes_hex [9]))"
  let ?e = "\<lparr>env_provider = PROVIDER_LOCAL,
              env_file_key = [9] @ HKDF_INFO_PREFIX @ str_encode ''acme'' @ [1, 2],
              env_key_iv = [4], env_data_iv = [3], env_content = [1, 2, 7, 7]\<rparr>"
  have "envelope_fits ?e"
    by (simp add: envelope_fits_def PROVIDER_LOCAL_def HKDF_INFO_PREFIX_def str_encode_def
        utf8_char_def)
  then obtain ct where "build_envelope ?e = Ok ct"
    by (simp add: build_envelope_eq)
  then have enc: "encrypt sample_crypto local_get_root_key PROVIDER_LOCAL (sample_call [9])
      sample_tokens ''acme'' [7, 7] (LocalFileProvider, None) = (Ok ct, ?s1)"
    by (simp add: encrypt_def encrypt_file_key_def derive_account_key_def sample_local_get
        hkdf_derive_def aes_gcm_encrypt_def sample_crypto_def sample_tokens_def)
  have run: "key_run local_get_root_key LocalFileProvider [Restart] ?s1 = ([], LocalFileProvider, snd ?s1)"
    by simp
  show ?thesis
    using encrypted_file_survives [OF sample_aead_ok enc run, of "sample_call [5]"] enc
      sample_local_get(2)
    by (auto simp del: bytes_hex.simps)
qed

text \<open>A file encrypted under the Vault provider stays readable in the same way, whatever
  calls to Vault fail in between.\<close>

theorem vault_file_survives:
  assumes "aead_ok C" "transit_ok w"
    and "encrypt C vault_get_root_key PROVIDER_VAULT ev t account plaintext (VaultProvider, w)
           = (Inr ct, s1)"
    and "key_run vault_get_root_key VaultProvider ops s1 = (rs, s2)"
  shows "fst (decrypt C vault_get_root_key ev' account ct s2) = Inr plaintext \<or>
         (\<exists>e. fst (vault_get_root_key ev' s2) = Inl e) \<and>
         fst (decrypt C vault_get_root_key ev' account ct s2) = Inl KeyMismatchError"
  by (rule vrk.encrypted_file_readable [OF _ assms(1,3,4)])
    (simp add: vault_inv_def VaultProvider_def assms(2))

lemma decrypt_plain: "take 4 ct \<noteq> MAGIC \<Longrightarrow> decrypt C get ev account ct s = (Ok ct, s)"
  by (simp add: decrypt_def)

text \<open>Decryption fails in three ways only, and only on byte strings with the magic prefix: the
  exception is \<open>CorruptedCiphertextError\<close> exactly when the envelope does not parse, and otherwise
  \<open>KeyMismatchError\<close> or \<open>AuthenticationFailedError\<close>. \<open>InvalidMagicError\<close> never reaches the caller.\<close>

theorem decrypt_errors:
  assumes "fst (decrypt C get ev account ct s) = Inl x"
  shows "take 4 ct = MAGIC \<and>
     x \<in> {CorruptedCiphertextError, KeyMismatchError, AuthenticationFailedError} \<and>
     (x = CorruptedCiphertextError \<longleftrightarrow> (\<exists>e. parse_envelope ct = Inl e))"
proof -
  have "length ct < 4 \<Longrightarrow> take 4 ct \<noteq> MAGIC"
    using arg_cong [of "take 4 ct" MAGIC length] by auto
  with assms show ?thesis
    by (auto simp: decrypt_def split: if_splits sum.splits prod.splits)
qed

theorem decrypt_errors_witness:
  "fst (decrypt sample_crypto local_get_root_key (sample_call [9]) ''acme'' (MAGIC @ [1])
     (LocalFileProvider, None)) = Raise CorruptedCiphertextError \<and>
   (\<exists>e. parse_envelope (MAGIC @ [1]) = Inl e)"
proof -
  have "fst (decrypt sample_crypto local_get_root_key (sample_call [9]) ''acme'' (MAGIC @ [1])
     (LocalFileProvider, None)) = Inl CorruptedCiphertextError"
    by (simp add: decrypt_def parse_envelope_def HEADER_SIZE_def)
  then show ?thesis
    using decrypt_errors [of sample_crypto local_get_root_key "sample_call [9]" "''acme''"
        "MAGIC @ [1]"] by blast
qed

end
