(* ===== verification/Log_Reader.thy ===== *)
theory Log_Reader
  imports Bytes PyValue
begin

text \<open>
  The append-only log reader of the ingest subsystem, \<open>JsonlLogSource.read_messages\<close> in
  \<^verbatim>\<open>ingest/sources/base.py\<close>: a file is read in blocks from the offset of a cursor, split into
  newline-terminated lines, and every line is turned into messages until a limit is reached.

  \<open>messages_of\<close> is what one stripped line gives: the decoder and the adapter's \<open>parse_line\<close>, with a
  line that cannot be decoded or parsed giving no message. It is a parameter; the theory
  \<open>Ingest_Sources\<close> has the adapters. The main lemmas say that reading in blocks is the same as
  taking the lines of the whole file one after the other, whatever the block size, and that
  successive reads give every message once and in order.
\<close>

section \<open>Cursors\<close>

definition BYTE_OFFSET :: string where "BYTE_OFFSET = ''byte_offset''"
definition ROWID_TIME :: string where "ROWID_TIME = ''rowid_time''"

record cursor =
  cur_kind :: string
  cur_value :: pydict

definition cursor_zero :: "string \<Rightarrow> cursor" where
  "cursor_zero kind =
     (if kind = BYTE_OFFSET then \<lparr>cur_kind = kind, cur_value = [(''offset'', PInt 0)]\<rparr>
      else \<lparr>cur_kind = kind, cur_value = [(''time'', PInt 0), (''id'', PStr [])]\<rparr>)"

section \<open>The block reader\<close>

definition NL :: byte where "NL = 10"

text \<open>\<^verbatim>\<open>bytes.strip()\<close> removes the six ASCII white-space bytes.\<close>

definition byte_space :: "byte \<Rightarrow> bool" where
  "byte_space b \<longleftrightarrow> b = 32 \<or> (9 \<le> unat b \<and> unat b \<le> 13)"

definition bytes_strip :: "bytes \<Rightarrow> bytes" where
  "bytes_strip s = rev (dropWhile byte_space (rev (dropWhile byte_space s)))"

definition line_messages :: "(bytes \<Rightarrow> 'm list) \<Rightarrow> bytes \<Rightarrow> 'm list" where
  "line_messages messages_of line =
     (let stripped = bytes_strip line in if stripped = [] then [] else messages_of stripped)"

text \<open>The inner loop: complete lines are taken from the buffer until the limit is reached or no
  newline is left. The state is the messages so far, the bytes consumed and the buffer; the flag
  is \<^verbatim>\<open>stop\<close>.\<close>

function take_lines :: "(bytes \<Rightarrow> 'm list) \<Rightarrow> nat \<Rightarrow> 'm list \<Rightarrow> nat \<Rightarrow> bytes
    \<Rightarrow> 'm list \<times> nat \<times> bytes \<times> bool" where
  "take_lines f limit messages consumed buf =
     (if NL \<notin> set buf then (messages, consumed, buf, False)
      else
        let line = takeWhile (\<lambda>b. b \<noteq> NL) buf @ [NL];
            messages' = messages @ line_messages f line;
            consumed' = consumed + length line;
            buf' = drop (length line) buf
        in if limit \<le> length messages' then (messages', consumed', buf', True)
           else take_lines f limit messages' consumed' buf')"
  by pat_completeness auto
termination
  by (relation "measure (\<lambda>(f, limit, messages, consumed, buf). length buf)")
    (auto simp: Let_def intro: diff_less length_pos_if_in_set)

declare take_lines.simps [simp del]

text \<open>The outer loop: blocks of the file are appended to the buffer while the limit is not
  reached. An empty block is the end of the file; a partial line stays unconsumed.\<close>

function read_blocks :: "nat \<Rightarrow> (bytes \<Rightarrow> 'm list) \<Rightarrow> nat \<Rightarrow> 'm list \<Rightarrow> nat \<Rightarrow> bytes \<Rightarrow> bytes
    \<Rightarrow> 'm list \<times> nat" where
  "read_blocks block f limit messages consumed buf rest =
     (if limit \<le> length messages \<or> rest = [] \<or> block = 0 then (messages, consumed)
      else case take_lines f limit messages consumed (buf @ take block rest) of
             (messages', consumed', buf', stop) \<Rightarrow>
               if stop then (messages', consumed')
               else read_blocks block f limit messages' consumed' buf' (drop block rest))"
  by pat_completeness auto
termination
  by (relation "measure (\<lambda>(block, f, limit, messages, consumed, buf, rest). length rest)") auto

declare read_blocks.simps [simp del]

definition READ_BLOCK :: nat where "READ_BLOCK = 262144"

definition DEFAULT_READ_LIMIT :: nat where "DEFAULT_READ_LIMIT = 100"

text \<open>What \<^verbatim>\<open>stat\<close> and \<^verbatim>\<open>open\<close> find: \<open>None\<close> is a missing file.\<close>

record log_file =
  file_inode :: int
  file_bytes :: bytes

text \<open>\<^verbatim>\<open>==\<close> between a stored value and an inode number.\<close>

fun same_inode :: "pyval \<Rightarrow> int \<Rightarrow> bool" where
  "same_inode (PInt i) n = (i = n)"
| "same_inode (PBool b) n = (n = (if b then 1 else 0))"
| "same_inode (PFloat (Finite q)) n = (q = of_int n)"
| "same_inode _ n = False"

text \<open>\<^verbatim>\<open>int(value.get("offset", 0))\<close>; a rotated or truncated file is read from the top, and a negative
  offset makes \<^verbatim>\<open>seek\<close> fail.\<close>

definition start_offset :: "log_file \<Rightarrow> cursor \<Rightarrow> nat res" where
  "start_offset file cur =
     (case py_int (dict_get_default (cur_value cur) ''offset'' (PInt 0)) of
        Inl IntTypeError \<Rightarrow> Raise TypeError
      | Inl IntValueError \<Rightarrow> Raise ValueError
      | Inl IntOverflowError \<Rightarrow> Raise OverflowError
      | Inr start \<Rightarrow>
          let stored_inode = dict_get (cur_value cur) ''inode''
          in if (stored_inode \<noteq> PNone \<and> \<not> same_inode stored_inode (file_inode file))
                \<or> start > int (length (file_bytes file))
             then Ok 0
             else if start < 0 then Raise OSError else Ok (nat start))"

definition byte_cursor :: "int \<Rightarrow> nat \<Rightarrow> cursor" where
  "byte_cursor inode offset =
     \<lparr>cur_kind = BYTE_OFFSET, cur_value = [(''offset'', PInt (int offset)), (''inode'', PInt inode)]\<rparr>"

definition read_messages :: "(bytes \<Rightarrow> 'm list) \<Rightarrow> log_file option \<Rightarrow> cursor option \<Rightarrow> nat
    \<Rightarrow> ('m list \<times> cursor) res" where
  "read_messages f file cursor limit =
     (let cur = (case cursor of None \<Rightarrow> cursor_zero BYTE_OFFSET | Some c \<Rightarrow> c)
      in case file of
           None \<Rightarrow> Ok ([], cur)
         | Some fl \<Rightarrow>
             res_bind (start_offset fl cur) (\<lambda>start.
               let (messages, consumed) =
                     read_blocks READ_BLOCK f limit [] 0 [] (drop start (file_bytes fl))
               in Ok (messages, byte_cursor (file_inode fl) (start + consumed))))"

section \<open>The lines of a file\<close>

text \<open>The reference: the newline-terminated lines of a byte string, and what is left after
  them.\<close>

function lines_of :: "bytes \<Rightarrow> bytes list" where
  "lines_of buf =
     (if NL \<notin> set buf then []
      else let line = takeWhile (\<lambda>b. b \<noteq> NL) buf @ [NL] in line # lines_of (drop (length line) buf))"
  by pat_completeness auto
termination
  by (relation "measure length") (auto intro: diff_less length_pos_if_in_set)

declare lines_of.simps [simp del]

definition messages_in :: "(bytes \<Rightarrow> 'm list) \<Rightarrow> bytes \<Rightarrow> 'm list" where
  "messages_in f buf = concat (map (line_messages f) (lines_of buf))"

text \<open>Lines are taken until the limit is reached.\<close>

fun take_until :: "(bytes \<Rightarrow> 'm list) \<Rightarrow> nat \<Rightarrow> 'm list \<Rightarrow> bytes list \<Rightarrow> bytes list" where
  "take_until f limit messages [] = []"
| "take_until f limit messages (line # lines) =
     (let messages' = messages @ line_messages f line
      in if limit \<le> length messages' then [line] else line # take_until f limit messages' lines)"

definition ends_line :: "bytes \<Rightarrow> bool" where
  "ends_line x \<longleftrightarrow> x = [] \<or> last x = NL"

lemma ends_line_append: "\<lbrakk>ends_line x; ends_line y\<rbrakk> \<Longrightarrow> ends_line (x @ y)"
  by (cases "y = []") (auto simp: ends_line_def)

lemma lines_of_step:
  assumes "NL \<notin> set u"
  shows "lines_of (u @ NL # v) = (u @ [NL]) # lines_of v"
proof -
  have "takeWhile (\<lambda>b. b \<noteq> NL) (u @ NL # v) = u"
    using assms by (induction u) auto
  then show ?thesis
    by (subst lines_of.simps) (simp add: Let_def)
qed

lemma lines_of_none [simp]: "NL \<notin> set u \<Longrightarrow> lines_of u = []"
  by (subst lines_of.simps) simp

lemma first_line_cases:
  fixes buf :: bytes
  obtains (none) "NL \<notin> set buf" | (line) u v where "buf = u @ NL # v" "NL \<notin> set u"
  by (meson split_list_first)

lemma lines_of_append:
  "ends_line x \<Longrightarrow> lines_of (x @ y) = lines_of x @ lines_of y"
proof (induction "length x" arbitrary: x rule: less_induct)
  case less
  show ?case
  proof (cases x rule: first_line_cases)
    case none
    then have "x = []"
      using less.prems last_in_set [of x] unfolding ends_line_def by metis
    then show ?thesis by simp
  next
    case (line u v)
    have "ends_line v"
      using less.prems line by (auto simp: ends_line_def split: if_splits)
    then have "lines_of (v @ y) = lines_of v @ lines_of y"
      by (intro less.hyps) (simp add: line)
    then show ?thesis
      using line by (simp add: lines_of_step)
  qed
qed

lemma ends_line_lines: "ends_line x \<Longrightarrow> concat (lines_of x) = x"
proof (induction "length x" arbitrary: x rule: less_induct)
  case less
  show ?case
  proof (cases x rule: first_line_cases)
    case none
    then have "x = []"
      using less.prems last_in_set [of x] unfolding ends_line_def by metis
    then show ?thesis by simp
  next
    case (line u v)
    have "ends_line v"
      using less.prems line by (auto simp: ends_line_def split: if_splits)
    then show ?thesis
      using less.hyps [of v] line by (simp add: lines_of_step)
  qed
qed

lemma lines_of_prefix: "\<exists>r. buf = concat (lines_of buf) @ r \<and> NL \<notin> set r"
proof (induction "length buf" arbitrary: buf rule: less_induct)
  case less
  show ?case
  proof (cases buf rule: first_line_cases)
    case (line u v)
    then show ?thesis
      using less.hyps [of v] by (auto simp: lines_of_step)
  qed simp
qed

lemma messages_in_append:
  "ends_line x \<Longrightarrow> messages_in f (x @ y) = messages_in f x @ messages_in f y"
  by (simp add: messages_in_def lines_of_append)

lemma take_until_prefix: "\<exists>ls. lines = take_until f limit ms lines @ ls"
  by (induction lines arbitrary: ms) (simp_all add: Let_def)

lemma take_until_all:
  "length (ms @ concat (map (line_messages f) (take_until f limit ms lines))) < limit
   \<Longrightarrow> take_until f limit ms lines = lines"
  by (induction lines arbitrary: ms) (auto simp: Let_def split: if_splits)

lemma take_until_bound:
  assumes "\<And>l. length (line_messages f l) \<le> 1" "length ms < limit"
  shows "length (ms @ concat (map (line_messages f) (take_until f limit ms lines))) \<le> limit"
  using assms(2)
proof (induction lines arbitrary: ms)
  case (Cons l lines)
  show ?case
  proof (cases "limit \<le> length (ms @ line_messages f l)")
    case True
    with assms(1) [of l] Cons.prems show ?thesis by (simp add: Let_def)
  next
    case False
    with Cons.IH [of "ms @ line_messages f l"] show ?thesis by (simp add: Let_def)
  qed
qed simp

text \<open>The inner loop on a buffer, in terms of its lines.\<close>

definition took :: "(bytes \<Rightarrow> 'm list) \<Rightarrow> nat \<Rightarrow> 'm list \<Rightarrow> bytes \<Rightarrow> bytes list" where
  "took f limit ms buf = take_until f limit ms (lines_of buf)"

lemma take_lines_step:
  assumes "NL \<notin> set u"
  shows "take_lines f limit ms n (u @ NL # v) =
    (let ms' = ms @ line_messages f (u @ [NL]) in
     if limit \<le> length ms' then (ms', n + length u + 1, v, True)
     else take_lines f limit ms' (n + length u + 1) v)"
proof -
  have "takeWhile (\<lambda>b. b \<noteq> NL) (u @ NL # v) = u"
    using assms by (induction u) auto
  then show ?thesis
    by (subst take_lines.simps) (simp add: Let_def)
qed

lemma take_lines_none: "NL \<notin> set buf \<Longrightarrow> take_lines f limit ms n buf = (ms, n, buf, False)"
  by (subst take_lines.simps) simp

text \<open>Taking the lines of \<open>x @ y\<close> is taking those of \<open>x\<close> and going on with what is left of \<open>x\<close>.\<close>

lemma take_lines_append:
  assumes "take_lines f limit ms n x = (ms', n', buf', stop)"
  shows "if stop then take_until f limit ms (lines_of (x @ y)) = took f limit ms x \<and>
             ms' = ms @ concat (map (line_messages f) (took f limit ms x)) \<and>
             n' = n + length (concat (took f limit ms x))
         else NL \<notin> set buf' \<and>
           (\<exists>ls. take_until f limit ms (lines_of (x @ y)) = ls @ took f limit ms' (buf' @ y) \<and>
              ms' = ms @ concat (map (line_messages f) ls) \<and> n' = n + length (concat ls) \<and>
              (length ms < limit \<longrightarrow> length ms' < limit))"
  using assms
proof (induction "length x" arbitrary: x ms n rule: less_induct)
  case less
  show ?case
  proof (cases x rule: first_line_cases)
    case none
    then show ?thesis
      using less.prems by (auto simp: take_lines_none took_def intro!: exI [of _ "[]"])
  next
    case (line u v)
    let ?ms = "ms @ line_messages f (u @ [NL])" and ?n = "n + length u + 1"
    show ?thesis
    proof (cases "limit \<le> length ?ms")
      case True
      then show ?thesis
        using less.prems line by (auto simp: take_lines_step lines_of_step took_def)
    next
      case False
      then have tl: "take_lines f limit ?ms ?n v = (ms', n', buf', stop)"
        using less.prems line by (simp add: take_lines_step)
      have "length v < length x"
        using line by simp
      note IH = less.hyps [OF this tl]
      have tu: "take_until f limit ms (lines_of (x @ y)) =
          (u @ [NL]) # take_until f limit ?ms (lines_of (v @ y))" for y
        using False line by (simp add: lines_of_step Let_def)
      have tk: "took f limit ms x = (u @ [NL]) # took f limit ?ms v"
        using tu [of "[]"] by (simp add: took_def)
      show ?thesis
      proof (cases stop)
        case True
        then show ?thesis
          using IH by (simp add: tu tk)
      next
        case cont: False
        then obtain ls where "NL \<notin> set buf'" "length ms' < limit"
          "take_until f limit ?ms (lines_of (v @ y)) = ls @ took f limit ms' (buf' @ y)"
          "ms' = ?ms @ concat (map (line_messages f) ls)" "n' = ?n + length (concat ls)"
          using IH False by auto
        then show ?thesis
          using cont tu by (auto intro!: exI [of _ "(u @ [NL]) # ls"])
      qed
    qed
  qed
qed

lemma read_blocks_lines:
  assumes "0 < block" "NL \<notin> set buf" "length ms < limit"
  shows "read_blocks block f limit ms n buf rest =
    (ms @ concat (map (line_messages f) (took f limit ms (buf @ rest))),
     n + length (concat (took f limit ms (buf @ rest))))"
  using assms(2,3)
proof (induction "length rest" arbitrary: rest buf ms n rule: less_induct)
  case less
  show ?case
  proof (cases "rest = []")
    case True
    then show ?thesis
      using less.prems by (subst read_blocks.simps) (simp add: took_def)
  next
    case False
    obtain ms' n' buf' stop where
      t: "take_lines f limit ms n (buf @ take block rest) = (ms', n', buf', stop)"
      by (metis prod_cases4)
    note spec = take_lines_append [OF t, of "drop block rest"]
    show ?thesis
    proof (cases stop)
      case True
      then show ?thesis
        using spec False less.prems(2) assms(1) t
        by (subst read_blocks.simps) (auto simp: took_def)
    next
      case cont: False
      then obtain ls where
        nl: "NL \<notin> set buf'" and lim: "length ms' < limit"
        and ls: "took f limit ms (buf @ rest) = ls @ took f limit ms' (buf' @ drop block rest)"
          "ms' = ms @ concat (map (line_messages f) ls)" "n' = n + length (concat ls)"
        using spec less.prems(2) by (auto simp: took_def)
      have "read_blocks block f limit ms' n' buf' (drop block rest) =
        (ms' @ concat (map (line_messages f) (took f limit ms' (buf' @ drop block rest))),
         n' + length (concat (took f limit ms' (buf' @ drop block rest))))"
        using False assms(1) by (intro less.hyps nl lim) (simp add: diff_less)
      then show ?thesis
        using False less.prems(2) assms(1) t cont ls
        by (subst read_blocks.simps) simp
    qed
  qed
qed

section \<open>Successive reads\<close>

lemma read_messages_lines:
  assumes "0 < limit"
    and "start_offset fl (case cursor of None \<Rightarrow> cursor_zero BYTE_OFFSET | Some c \<Rightarrow> c) = Inr start"
    and "ls = take_until f limit [] (lines_of (drop start (file_bytes fl)))"
  shows "read_messages f (Some fl) cursor limit =
    Ok (concat (map (line_messages f) ls),
        byte_cursor (file_inode fl) (start + length (concat ls)))"
  using assms by (simp add: read_messages_def read_blocks_lines READ_BLOCK_def took_def)

text \<open>A cursor that stands at a line boundary of a file: the zero cursor, or one taken on the same
  file.\<close>

definition cursor_at :: "log_file \<Rightarrow> cursor \<Rightarrow> nat \<Rightarrow> bool" where
  "cursor_at fl c off \<longleftrightarrow> (c = byte_cursor (file_inode fl) off \<or> c = cursor_zero BYTE_OFFSET \<and> off = 0) \<and>
     off \<le> length (file_bytes fl) \<and> ends_line (take off (file_bytes fl))"

definition grows :: "log_file \<Rightarrow> log_file \<Rightarrow> bool" where
  "grows fl fl' \<longleftrightarrow> file_inode fl' = file_inode fl \<and> prefix (file_bytes fl) (file_bytes fl')"

lemma cursor_at_zero: "cursor_at fl (cursor_zero BYTE_OFFSET) 0"
  by (simp add: cursor_at_def ends_line_def)

lemma cursor_at_grows: "\<lbrakk>cursor_at fl c off; grows fl fl'\<rbrakk> \<Longrightarrow> cursor_at fl' c off"
  by (auto simp: cursor_at_def grows_def prefix_def)

lemma cursor_at_start: "cursor_at fl c off \<Longrightarrow> start_offset fl c = Inr off"
  by (auto simp: cursor_at_def start_offset_def byte_cursor_def cursor_zero_def
      dict_get_default_def dict_get_def)

lemma grows_take:
  "\<lbrakk>grows fl fl'; off \<le> length (file_bytes fl)\<rbrakk> \<Longrightarrow> take off (file_bytes fl') = take off (file_bytes fl)"
  by (auto simp: grows_def prefix_def)

text \<open>The messages before a cursor: what has been read when the cursor stands there.\<close>

definition read_so_far :: "(bytes \<Rightarrow> 'm list) \<Rightarrow> log_file \<Rightarrow> nat \<Rightarrow> 'm list" where
  "read_so_far f fl off = messages_in f (take off (file_bytes fl))"

definition log_messages :: "(bytes \<Rightarrow> 'm list) \<Rightarrow> log_file \<Rightarrow> 'm list" where
  "log_messages f fl = messages_in f (file_bytes fl)"

lemma lines_of_ends: "l \<in> set (lines_of x) \<Longrightarrow> l \<noteq> [] \<and> last l = NL \<and> lines_of l = [l]"
proof (induction "length x" arbitrary: x rule: less_induct)
  case less
  show ?case
  proof (cases x rule: first_line_cases)
    case none
    then show ?thesis using less.prems by simp
  next
    case (line u v)
    then show ?thesis
      using less.hyps [of v] less.prems lines_of_step [of u "[]"] by (auto simp: lines_of_step)
  qed
qed

lemma lines_of_concat:
  assumes "\<And>l. l \<in> set ls \<Longrightarrow> l \<noteq> [] \<and> last l = NL \<and> lines_of l = [l]"
  shows "lines_of (concat ls) = ls \<and> ends_line (concat ls)"
  using assms
proof (induction ls)
  case (Cons l ls)
  then show ?case
    using lines_of_append [of l "concat ls"] by (auto simp: ends_line_def last_append)
qed (simp add: ends_line_def)

lemma read_step:
  assumes "cursor_at fl c off" "0 < limit"
  obtains ms n where "read_messages f (Some fl) (Some c) limit = Ok (ms, byte_cursor (file_inode fl) (off + n))"
    and "cursor_at fl (byte_cursor (file_inode fl) (off + n)) (off + n)"
    and "read_so_far f fl (off + n) = read_so_far f fl off @ ms"
    and "ms = [] \<Longrightarrow> log_messages f fl = read_so_far f fl (off + n)"
    and "ms \<noteq> [] \<Longrightarrow> 0 < n"
    and "(\<And>l. length (line_messages f l) \<le> 1) \<Longrightarrow> length ms \<le> limit"
proof -
  let ?b = "file_bytes fl"
  define ls where ls_def: "ls = take_until f limit [] (lines_of (drop off ?b))"
  let ?ms = "concat (map (line_messages f) ls)" and ?n = "length (concat ls)"
  obtain rest where rest: "lines_of (drop off ?b) = ls @ rest"
    unfolding ls_def using take_until_prefix by blast
  obtain r where r: "drop off ?b = concat ls @ concat rest @ r" "NL \<notin> set r"
    using lines_of_prefix [of "drop off ?b"] unfolding rest by auto
  have nonempty: "l \<noteq> [] \<and> last l = NL \<and> lines_of l = [l]" if "l \<in> set ls" for l
    using lines_of_ends [of l "drop off ?b"] that unfolding rest by simp
  then have ls: "lines_of (concat ls) = ls" "ends_line (concat ls)"
    using lines_of_concat by blast+
  have off: "off \<le> length ?b" "ends_line (take off ?b)"
    using assms(1) by (auto simp: cursor_at_def)
  have split: "?b = take off ?b @ concat ls @ concat rest @ r"
    using r(1) append_take_drop_id [of off ?b] by metis
  have tk: "take (off + ?n) ?b = take off ?b @ concat ls"
    using r(1) by (simp add: take_add)
  have ends: "ends_line (take off ?b @ concat ls)"
    using off(2) ls(2) by (rule ends_line_append)
  have sofar: "read_so_far f fl (off + ?n) = read_so_far f fl off @ ?ms"
    using messages_in_append [OF off(2), of f "concat ls"]
    by (simp add: read_so_far_def tk) (simp add: messages_in_def ls(1))
  have len: "off + ?n \<le> length ?b"
    using off(1) arg_cong [OF r(1), of length] by simp
  show ?thesis
  proof
    show "read_messages f (Some fl) (Some c) limit = Ok (?ms, byte_cursor (file_inode fl) (off + ?n))"
      using read_messages_lines [OF assms(2) _ refl, of fl "Some c" off f]
        cursor_at_start [OF assms(1)] unfolding ls_def by simp
    show "cursor_at fl (byte_cursor (file_inode fl) (off + ?n)) (off + ?n)"
      using len ends by (simp add: cursor_at_def tk)
    show "read_so_far f fl (off + ?n) = read_so_far f fl off @ ?ms" by (rule sofar)
    show "log_messages f fl = read_so_far f fl (off + ?n)" if "?ms = []"
    proof -
      have "ls = lines_of (drop off ?b)"
        using take_until_all [of "[]" f limit "lines_of (drop off ?b)"] that assms(2)
        unfolding ls_def by simp
      then have "rest = []"
        using rest by simp
      then have "?b = (take off ?b @ concat ls) @ r"
        using split by simp
      then have "messages_in f ?b = messages_in f (take off ?b @ concat ls) @ messages_in f r"
        using messages_in_append [OF ends, of f r] by metis
      then show ?thesis
        using r(2) by (simp add: log_messages_def read_so_far_def tk messages_in_def)
    qed
    show "0 < ?n" if "?ms \<noteq> []"
    proof -
      have "ls \<noteq> []" using that by auto
      then show ?thesis
        using nonempty [of "hd ls"] by (cases ls) auto
    qed
    show "length ?ms \<le> limit" if "\<And>l. length (line_messages f l) \<le> 1"
      using take_until_bound [OF that, of "[]" limit "lines_of (drop off ?b)"] assms(2)
      unfolding ls_def by simp
  qed
qed

section \<open>Properties\<close>

text \<open>Reading a log in blocks is reading it line by line: whatever the block size, the block
  reader returns the messages of the newline-terminated lines from its starting offset on, one line
  after the other up to the line at which the limit is reached, and the bytes of exactly these
  lines are consumed. A partial last line is left for the next read.\<close>

theorem block_reader_equals_line_reader:
  assumes "0 < block" "0 < limit"
  shows "read_blocks block f limit [] 0 [] rest =
    (let ls = take_until f limit [] (lines_of rest)
     in (concat (map (line_messages f) ls), length (concat ls)))"
  using assms by (simp add: read_blocks_lines took_def Let_def)

theorem block_reader_equals_line_reader_witness:
  "read_blocks 3 (\<lambda>l. [l]) 2 [] 0 [] [65, 10, 32, 10, 66, 67, 10, 68, 10] = ([[65], [66, 67]], 7)"
proof -
  have "lines_of [65, 10, 32, 10, 66, 67, 10, 68, 10] = [[65, 10], [32, 10], [66, 67, 10], [68, 10]]"
    by (simp add: lines_of.simps NL_def)
  then show ?thesis
    using block_reader_equals_line_reader [of 3 2 "\<lambda>l. [l]" "[65, 10, 32, 10, 66, 67, 10, 68, 10]"]
    by (simp add: line_messages_def bytes_strip_def byte_space_def)
qed

end
