(* ===== verification/Ingest_Sources.thy ===== *)
theory Ingest_Sources
  imports Log_Reader Identity
begin

text \<open>
  The adapters of the ingest subsystem: \<^verbatim>\<open>ingest/models.py\<close>, \<^verbatim>\<open>ingest/peer.py\<close>,
  \<^verbatim>\<open>ingest/normalize.py\<close> and the \<open>parse_line\<close> of the append-only log sources Claude Code, Codex,
  OpenClaw and Hermes. A log record is a decoded JSON value; a record the code cannot handle raises,
  and the reader skips it. The JSON decoder, the \<^verbatim>\<open>git config\<close> command and \<^verbatim>\<open>str\<close> of a value that is
  neither text nor a number are parameters.
\<close>

section \<open>Peer identifiers\<close>

text \<open>\<^verbatim>\<open>re.sub\<close> with a class and \<^verbatim>\<open>+\<close>: every maximal run of characters in the class becomes one
  character.\<close>

fun sub_loop :: "(char \<Rightarrow> bool) \<Rightarrow> char \<Rightarrow> bool \<Rightarrow> string \<Rightarrow> string" where
  "sub_loop P c in_run [] = []"
| "sub_loop P c in_run (x # xs) =
     (if P x then (if in_run then sub_loop P c True xs else c # sub_loop P c True xs)
      else x # sub_loop P c False xs)"

definition sub_runs :: "(char \<Rightarrow> bool) \<Rightarrow> char \<Rightarrow> string \<Rightarrow> string" where
  "sub_runs P c s = sub_loop P c False s"

definition sanitize_component :: "string \<Rightarrow> string" where
  "sanitize_component value =
     (let cleaned = sub_runs (\<lambda>c. \<not> ident_char c) (CHR ''-'') (strip_space value)
      in py_strip (\<lambda>c. c = CHR ''-'' \<or> c = CHR ''.'') (sub_runs (\<lambda>c. c = CHR ''-'') (CHR ''-'') cleaned))"

text \<open>\<^verbatim>\<open>base64.urlsafe_b64encode\<close> uses \<^verbatim>\<open>-\<close> and \<^verbatim>\<open>_\<close> for the last two digits.\<close>

definition url_digit :: "char \<Rightarrow> char" where
  "url_digit c = (if c = CHR ''+'' then CHR ''-'' else if c = CHR ''/'' then CHR ''_'' else c)"

definition urlsafe_b64encode :: "bytes \<Rightarrow> string" where
  "urlsafe_b64encode bs = map url_digit (b64encode bs)"

definition encoded_external_peer :: "string \<Rightarrow> string option res" where
  "encoded_external_peer value =
     safe_peer_id (Some (''ext-'' @ py_rstrip (\<lambda>c. c = CHR ''='') (urlsafe_b64encode (str_encode value))))"

definition py_isascii :: "string \<Rightarrow> bool" where
  "py_isascii s \<longleftrightarrow> list_all (\<lambda>c. (of_char c :: nat) < 128) s"

text \<open>\<open>raw\<close> is the text of the external name, \<open>None\<close> for a missing one.\<close>

definition safe_external_peer :: "string option \<Rightarrow> string option res" where
  "safe_external_peer raw =
     (case raw of
        None \<Rightarrow> Ok None
      | Some value \<Rightarrow>
          let text = strip_space value in
          if text = [] then Ok None
          else if \<not> py_isascii text then encoded_external_peer text
          else
            let sanitized = sanitize_component text in
            if sanitized \<noteq> [] then
              (if py_startswith sanitized ''ext-'' then encoded_external_peer text
               else res_bind (safe_peer_id (Some sanitized)) (\<lambda>pid.
                      if truthy_opt pid then Ok pid else encoded_external_peer text))
            else encoded_external_peer text)"

section \<open>Identity of the turns\<close>

datatype git_result = Git_failed | Git_output int string

record source_env =
  se_name :: string
  se_git :: "string \<Rightarrow> string \<Rightarrow> git_result"
  se_fallback_user :: string
  se_user_field :: string
  se_str :: "pyval \<Rightarrow> string"

text \<open>A value read from a record where the code expects a string: \<^verbatim>\<open>strip\<close> of anything else
  raises.\<close>

fun as_text :: "pyval \<Rightarrow> string res" where
  "as_text (PStr s) = Ok s"
| "as_text v = (if py_bool v then Raise OtherException else Ok [])"

definition assistant_peer_id :: "string \<Rightarrow> pyval \<Rightarrow> pyval \<Rightarrow> string option res" where
  "assistant_peer_id harness model provider =
     res_bind (if py_bool provider then res_bind (as_text provider) (\<lambda>p. Ok [sanitize_component p])
               else Ok []) (\<lambda>provider_part.
     res_bind (if py_bool model then res_bind (as_text model) (\<lambda>m. Ok (sanitize_component m))
               else Ok ''unknown'') (\<lambda>model_part.
     safe_peer_id (Some (py_join ''__''
       (filter (\<lambda>p. p \<noteq> []) ([sanitize_component harness] @ provider_part @ [model_part]))))))"

fun git_identity :: "(string \<Rightarrow> git_result) \<Rightarrow> string list \<Rightarrow> string option" where
  "git_identity run [] = None"
| "git_identity run (key # keys) =
     (case run key of
        Git_failed \<Rightarrow> None
      | Git_output returncode out \<Rightarrow>
          if returncode = 0 \<and> strip_space out \<noteq> [] then Some (strip_space out)
          else git_identity run keys)"

text \<open>The per-directory cache is an argument and part of the result. A \<^verbatim>\<open>cwd\<close> that is neither false
  nor text makes the lookup or the command raise \<open>TypeError\<close>.\<close>

definition resolve_git_human_peer :: "source_env \<Rightarrow> (string \<rightharpoonup> string option) \<Rightarrow> pyval
    \<Rightarrow> string option res \<times> (string \<rightharpoonup> string option)" where
  "resolve_git_human_peer E cache cwd =
     (if \<not> py_bool cwd then (safe_external_peer (Some (se_fallback_user E)), cache)
      else case cwd of
             PStr dir \<Rightarrow>
               (case cache dir of
                  Some cached \<Rightarrow>
                    (if truthy_opt cached then Ok cached
                     else safe_external_peer (Some (se_fallback_user E)), cache)
                | None \<Rightarrow>
                    (case safe_external_peer (git_identity (se_git E dir) [''user.email'', ''user.name'']) of
                       Inl e \<Rightarrow> (Raise e, cache)
                     | Inr resolved \<Rightarrow>
                         (if truthy_opt resolved then Ok resolved
                          else safe_external_peer (Some (se_fallback_user E)), cache(dir \<mapsto> resolved))))
           | _ \<Rightarrow> (Raise TypeError, cache))"

definition git_human_peer :: "source_env \<Rightarrow> pyval \<Rightarrow> string option res" where
  "git_human_peer E cwd = fst (resolve_git_human_peer E Map.empty cwd)"

definition str_of :: "source_env \<Rightarrow> pyval \<Rightarrow> string option" where
  "str_of E v = (if \<not> py_bool v then None else case v of PStr s \<Rightarrow> Some s | _ \<Rightarrow> Some (se_str E v))"

definition group_user_peer :: "source_env \<Rightarrow> pyval \<Rightarrow> string option res" where
  "group_user_peer E raw_user =
     res_bind (safe_external_peer (str_of E raw_user)) (\<lambda>p.
       if truthy_opt p then Ok p else safe_external_peer (Some (se_fallback_user E)))"

section \<open>Messages and adapters\<close>

record norm_message =
  nm_role :: string
  nm_text :: string
  nm_parts :: "pyval list"
  nm_created_at :: pyval
  nm_peer_id :: "string option"
  nm_meta :: pydict

record session_ref =
  ref_harness :: string
  ref_native_session_id :: string
  ref_locator :: string
  ref_title :: "string option"
  ref_started_at :: "string option"
  ref_meta :: pydict

text \<open>\<^verbatim>\<open>obj.get(key)\<close>: only a dictionary has the method.\<close>

fun obj_get :: "pyval \<Rightarrow> string \<Rightarrow> pyval res" where
  "obj_get (PDict d) k = Ok (dict_get d k)"
| "obj_get _ k = Raise OtherException"

definition chat_role :: "pyval \<Rightarrow> string option" where
  "chat_role v = (if v = PStr ''user'' then Some ''user''
                  else if v = PStr ''assistant'' then Some ''assistant'' else None)"

text \<open>The text of a list of blocks: the stripped texts of the blocks of the given types.\<close>

definition block_texts :: "string list \<Rightarrow> pyval list \<Rightarrow> string list" where
  "block_texts types content = concat (map (\<lambda>block.
     case block of
       PDict d \<Rightarrow>
         (case (dict_get d ''type'', dict_get d ''text'') of
            (PStr t, PStr text) \<Rightarrow>
              if t \<in> set types \<and> strip_space text \<noteq> [] then [strip_space text] else []
          | _ \<Rightarrow> [])
     | _ \<Rightarrow> []) content)"

abbreviation newline_sep :: string where
  "newline_sep \<equiv> [CHR 0x0A]"

definition extract_text :: "pyval \<Rightarrow> string" where
  "extract_text content =
     (case content of
        PStr s \<Rightarrow> strip_space s
      | PList blocks \<Rightarrow> strip_space (py_join newline_sep (block_texts [''text''] blocks))
      | _ \<Rightarrow> [])"

definition join_content :: "pyval \<Rightarrow> string" where
  "join_content content =
     (case content of
        PList blocks \<Rightarrow> strip_space (py_join newline_sep (block_texts [''input_text'', ''output_text''] blocks))
      | _ \<Rightarrow> [])"

definition claude_code_parse_line :: "source_env \<Rightarrow> session_ref \<Rightarrow> pyval \<Rightarrow> norm_message list res" where
  "claude_code_parse_line E ref obj =
     res_bind (obj_get obj ''type'') (\<lambda>ty.
     if chat_role ty = None then Ok [] else
     res_bind (obj_get obj ''isSidechain'') (\<lambda>side.
     res_bind (obj_get obj ''isMeta'') (\<lambda>ismeta.
     if py_bool side \<or> py_bool ismeta then Ok [] else
     res_bind (obj_get obj ''message'') (\<lambda>message.
     case message of
       PDict m \<Rightarrow>
         (case chat_role (dict_get m ''role'') of
            None \<Rightarrow> Ok []
          | Some role \<Rightarrow>
              let text = extract_text (dict_get m ''content'') in
              if text = [] then Ok [] else
              let model = dict_get m ''model'' in
              res_bind (obj_get obj ''cwd'') (\<lambda>cwd.
              res_bind (if role = ''assistant'' then assistant_peer_id (se_name E) model PNone
                        else git_human_peer E cwd) (\<lambda>peer.
              res_bind (obj_get obj ''timestamp'') (\<lambda>ts.
              res_bind (obj_get obj ''gitBranch'') (\<lambda>branch.
              Ok [\<lparr>nm_role = role, nm_text = text, nm_parts = [], nm_created_at = ts, nm_peer_id = peer,
                   nm_meta = [(''model'', model), (''cwd'', cwd), (''git_branch'', branch)]\<rparr>])))))
     | _ \<Rightarrow> Ok []))))"

definition codex_parse_line :: "source_env \<Rightarrow> session_ref \<Rightarrow> pyval \<Rightarrow> norm_message list res" where
  "codex_parse_line E ref obj =
     res_bind (obj_get obj ''type'') (\<lambda>ty.
     if ty \<noteq> PStr ''response_item'' then Ok [] else
     res_bind (obj_get obj ''payload'') (\<lambda>p.
     let payload = (if py_bool p then p else PDict []) in
     res_bind (obj_get payload ''type'') (\<lambda>pty.
     if pty \<noteq> PStr ''message'' then Ok [] else
     res_bind (obj_get payload ''role'') (\<lambda>r.
     case chat_role r of
       None \<Rightarrow> Ok []
     | Some role \<Rightarrow>
         res_bind (obj_get payload ''content'') (\<lambda>content.
         let text = join_content content in
         if text = [] then Ok [] else
         let model = dict_get (ref_meta ref) ''model''; cwd = dict_get (ref_meta ref) ''cwd'' in
         res_bind (if role = ''assistant'' then assistant_peer_id (se_name E) model PNone
                   else git_human_peer E cwd) (\<lambda>peer.
         res_bind (obj_get obj ''timestamp'') (\<lambda>ts.
         Ok [\<lparr>nm_role = role, nm_text = text, nm_parts = [], nm_created_at = ts, nm_peer_id = peer,
              nm_meta = [(''model'', model), (''cwd'', cwd)]\<rparr>])))))))"

definition openclaw_parse_line :: "source_env \<Rightarrow> session_ref \<Rightarrow> pyval \<Rightarrow> norm_message list res" where
  "openclaw_parse_line E ref obj =
     res_bind (obj_get obj ''type'') (\<lambda>ty.
     if ty \<noteq> PStr ''message'' then Ok [] else
     res_bind (obj_get obj ''message'') (\<lambda>message.
     case message of
       PDict m \<Rightarrow>
         (case chat_role (dict_get m ''role'') of
            None \<Rightarrow> Ok []
          | Some role \<Rightarrow>
              let text = extract_text (dict_get m ''content'') in
              if text = [] then Ok [] else
              res_bind (if role = ''assistant''
                        then assistant_peer_id (se_name E) (dict_get m ''model'') (dict_get m ''provider'')
                        else group_user_peer E
                               (if se_user_field E \<noteq> [] then dict_get m (se_user_field E) else PNone))
                (\<lambda>peer.
              res_bind (obj_get obj ''timestamp'') (\<lambda>ts.
              Ok [\<lparr>nm_role = role, nm_text = text, nm_parts = [], nm_created_at = ts, nm_peer_id = peer,
                   nm_meta = [(''model'', dict_get m ''model''), (''provider'', dict_get m ''provider'')]\<rparr>])))
     | _ \<Rightarrow> Ok []))"

definition hermes_parse_line :: "source_env \<Rightarrow> session_ref \<Rightarrow> pyval \<Rightarrow> norm_message list res" where
  "hermes_parse_line E ref obj =
     res_bind (obj_get obj ''role'') (\<lambda>r.
     case chat_role r of
       None \<Rightarrow> Ok []
     | Some role \<Rightarrow>
         res_bind (obj_get obj ''content'') (\<lambda>content.
         res_bind (as_text content) (\<lambda>raw.
         let text = strip_space raw in
         if text = [] then Ok [] else
         let model = dict_get (ref_meta ref) ''model'' in
         res_bind (if role = ''assistant'' then assistant_peer_id (se_name E) model PNone
                   else res_bind (if se_user_field E \<noteq> [] then obj_get obj (se_user_field E) else Ok PNone)
                          (group_user_peer E)) (\<lambda>peer.
         res_bind (obj_get obj ''timestamp'') (\<lambda>ts.
         Ok [\<lparr>nm_role = role, nm_text = text, nm_parts = [], nm_created_at = ts, nm_peer_id = peer,
              nm_meta = [(''model'', model), (''platform'', dict_get (ref_meta ref) ''platform'')]\<rparr>])))))"

text \<open>What one stripped line gives: a line that does not decode, decodes to \<^verbatim>\<open>null\<close> or makes the
  adapter raise gives no message.\<close>

definition jsonl_messages :: "(bytes \<Rightarrow> pyval option) \<Rightarrow> (pyval \<Rightarrow> norm_message list res) \<Rightarrow> bytes
    \<Rightarrow> norm_message list" where
  "jsonl_messages json_loads parse_line line =
     (case json_loads line of
        None \<Rightarrow> []
      | Some obj \<Rightarrow>
          if obj = PNone then []
          else (case parse_line obj of Inl _ \<Rightarrow> [] | Inr ms \<Rightarrow> ms))"

section \<open>Requests\<close>

definition to_add_message_request :: "norm_message \<Rightarrow> pydict option" where
  "to_add_message_request msg =
     (let role = (if nm_role msg = ''user'' then ''user'' else ''assistant'');
          text = strip_space (nm_text msg);
          parts = (if text \<noteq> [] then [PDict [(''type'', PStr ''text''), (''text'', PStr text)]] else [])
                  @ nm_parts msg
      in if parts = [] then None
         else Some ([(''role'', PStr role), (''parts'', PList parts)]
                @ (if text \<noteq> [] then [(''content'', PStr text)] else [])
                @ (if py_bool (nm_created_at msg) then [(''created_at'', nm_created_at msg)] else [])
                @ (case safe_peer_id (nm_peer_id msg) of
                     Inr (Some pid) \<Rightarrow> if pid \<noteq> [] then [(''peer_id'', PStr pid)] else []
                   | _ \<Rightarrow> [])))"

fun to_add_message_requests :: "norm_message list \<Rightarrow> pydict list" where
  "to_add_message_requests [] = []"
| "to_add_message_requests (m # ms) =
     (case to_add_message_request m of
        None \<Rightarrow> to_add_message_requests ms
      | Some payload \<Rightarrow> payload # to_add_message_requests ms)"

lemma to_add_message_requests_append:
  "to_add_message_requests (ms @ ns) = to_add_message_requests ms @ to_add_message_requests ns"
  by (induction ms) (auto split: option.split)

lemma length_to_add_message_requests: "length (to_add_message_requests ms) \<le> length ms"
  by (induction ms) (auto split: option.split)

section \<open>Encoded names\<close>

lemma b64encode_chars: "c \<in> set (b64encode bs) \<Longrightarrow> c \<in> set b64_alphabet \<or> c = CHR ''=''"
proof -
  have digit: "n < 64 \<Longrightarrow> b64_char n \<in> set b64_alphabet" for n
    by (simp add: b64_char_def b64_alphabet_facts)
  show "c \<in> set (b64encode bs) \<Longrightarrow> c \<in> set b64_alphabet \<or> c = CHR ''=''"
    by (induction bs rule: b64encode.induct) (auto simp: digit b64_ranges)
qed

definition plain_digit :: "char \<Rightarrow> char" where
  "plain_digit c = (if c = CHR ''-'' then CHR ''+'' else if c = CHR ''_'' then CHR ''/'' else c)"

lemma alphabet_url:
  assumes "c \<in> set b64_alphabet"
  shows "plain_digit (url_digit c) = c" "ident_char (url_digit c)" "url_digit c \<noteq> CHR ''=''"
    "url_digit c \<noteq> CHR ''@''"
proof -
  have "list_all (\<lambda>c. plain_digit (url_digit c) = c \<and> ident_char (url_digit c) \<and>
      url_digit c \<noteq> CHR ''='' \<and> url_digit c \<noteq> CHR ''@'') b64_alphabet"
    by (simp add: b64_alphabet_def plain_digit_def url_digit_def ident_char_def ascii_alnum_def)
  with assms show "plain_digit (url_digit c) = c" "ident_char (url_digit c)" "url_digit c \<noteq> CHR ''=''"
    "url_digit c \<noteq> CHR ''@''"
    by (auto simp: list_all_iff)
qed

text \<open>Padding adds no information: the digits without it decode to the same bytes.\<close>

abbreviation unpad :: "string \<Rightarrow> string" where
  "unpad \<equiv> py_rstrip (\<lambda>c. c = CHR ''='')"

lemma unpad_four:
  "d \<noteq> CHR ''='' \<Longrightarrow> unpad (a # b # c # d # r) = a # b # c # d # unpad r"
  using py_rstrip_append_stop [of "\<lambda>c. c = CHR ''=''" d "[a, b, c]" r] by simp

lemma unpad_pads:
  "b \<noteq> CHR ''='' \<Longrightarrow> unpad [a, b, CHR ''='', CHR ''=''] = [a, b]"
  "c \<noteq> CHR ''='' \<Longrightarrow> unpad [a, b, c, CHR ''=''] = [a, b, c]"
  by (simp_all add: py_rstrip_def)

lemma b64_scan_unpadded: "b64_scan 0 0 0 (unpad (b64encode bs) @ ''=='') = Some bs"
  by (induction bs rule: b64encode.induct)
    (simp_all add: unpad_four unpad_pads b64_char_facts b64_ranges b64_regroup byte_top_bits)

lemma unpad_map_url:
  "set s \<subseteq> insert (CHR ''='') (set b64_alphabet) \<Longrightarrow> unpad (map url_digit s) = map url_digit (unpad s)"
proof (induction s rule: rev_induct)
  case (snoc c s)
  have "url_digit c = CHR ''='' \<longleftrightarrow> c = CHR ''=''"
    using snoc.prems alphabet_url(3) [of c] by (auto simp: url_digit_def)
  with snoc show ?case
    by (auto simp: py_rstrip_snoc)
qed simp

definition ext_digits :: "string \<Rightarrow> string" where
  "ext_digits name = unpad (urlsafe_b64encode (str_encode name))"

lemma ext_digits_eq: "ext_digits name = map url_digit (unpad (b64encode (str_encode name)))"
  unfolding ext_digits_def urlsafe_b64encode_def
  using b64encode_chars by (intro unpad_map_url) auto

lemma unpad_chars: "c \<in> set (unpad (b64encode bs)) \<Longrightarrow> c \<in> set b64_alphabet"
proof (induction bs rule: b64encode.induct)
  case 1
  then show ?case by simp
next
  case (2 a)
  then show ?case
    using b64encode_chars [of c "[a]"] by (auto simp: unpad_pads b64_char_facts b64_ranges)
next
  case (3 a b)
  then show ?case
    using b64encode_chars [of c "[a, b]"] by (auto simp: unpad_pads b64_char_facts b64_ranges)
next
  case (4 a b c' r)
  then show ?case
    using b64encode_chars [of c "a # b # c' # r"]
    by (auto simp: unpad_four b64_char_facts b64_ranges)
qed

lemma ext_digits_inj: "ext_digits s = ext_digits t \<Longrightarrow> s = t"
proof -
  assume eq: "ext_digits s = ext_digits t"
  have undo: "map plain_digit (ext_digits u) = unpad (b64encode (str_encode u))" for u
    using unpad_chars alphabet_url(1) by (auto simp: ext_digits_eq intro!: map_idI)
  have "unpad (b64encode (str_encode s)) = unpad (b64encode (str_encode t))"
    using eq undo by metis
  then have "str_encode s = str_encode t"
    using b64_scan_unpadded by (metis option.inject)
  then show "s = t" by (rule str_encode_inj)
qed

lemma ext_digits_ident: "list_all ident_char (ext_digits name) \<and> CHR ''@'' \<notin> set (ext_digits name)"
  using unpad_chars alphabet_url(2,4) by (fastforce simp: ext_digits_eq list_all_iff)

lemma encoded_external_peer_eq: "encoded_external_peer name = Ok (Some (''ext-'' @ ext_digits name))"
proof -
  have none: "filter (\<lambda>c. c = CHR ''@'') (ext_digits name) = []"
    using ext_digits_ident [of name] by (simp add: filter_empty_conv) metis
  have "clean_identifier (''ext-'' @ ext_digits name)"
    using ext_digits_ident [of name] none
    by (simp add: clean_identifier_def) (simp add: ident_char_def ascii_alnum_def)
  then show ?thesis
    by (simp add: encoded_external_peer_def safe_peer_id_def normalize_peer_id_clean ext_digits_def)
qed

lemma safe_peer_id_total: "\<exists>v. safe_peer_id p = Ok v \<and> (\<forall>s. v = Some s \<longrightarrow> clean_identifier s)"
proof (cases "normalize_identifier_part p")
  case (Inl e)
  then have "e = ValueError"
    by (auto simp: normalize_identifier_part_def Let_def split: option.splits if_splits)
  with Inl show ?thesis
    by (simp add: safe_peer_id_def normalize_peer_id_def)
next
  case (Inr v)
  then show ?thesis
    using normalize_identifier_part_Some [of p]
    by (auto simp: safe_peer_id_def normalize_peer_id_def)
qed

lemma safe_peer_id_Some: "safe_peer_id p = Ok (Some s) \<Longrightarrow> clean_identifier s"
  using safe_peer_id_total [of p] by auto

lemma set_sub_loop: "set (sub_loop P c b s) \<subseteq> insert c {x \<in> set s. \<not> P x}"
  by (induction s arbitrary: b) auto

lemma sanitize_component_chars: "list_all ident_char (sanitize_component s)"
proof -
  let ?t = "sub_runs (\<lambda>c. \<not> ident_char c) (CHR ''-'') (strip_space s)"
  have dash: "ident_char (CHR ''-'')"
    by (simp add: ident_char_def)
  have "\<forall>c\<in>set ?t. ident_char c"
    using set_sub_loop [of "\<lambda>c. \<not> ident_char c" "CHR ''-''" False "strip_space s"] dash
    by (auto simp: sub_runs_def)
  then have "\<forall>c\<in>set (sub_runs (\<lambda>c. c = CHR ''-'') (CHR ''-'') ?t). ident_char c"
    using set_sub_loop [of "\<lambda>c. c = CHR ''-''" "CHR ''-''" False ?t] dash
    by (auto simp: sub_runs_def [of _ _ ?t])
  then show ?thesis
    using set_py_strip by (fastforce simp: sanitize_component_def Let_def list_all_iff)
qed

lemma strip_ident: "list_all ident_char s \<Longrightarrow> strip_space s = s"
  by (intro py_strip_id) (metis hd_in_set ident_char_facts last_in_set list.pred_set)

text \<open>The two ways an external name is mapped.\<close>

lemma safe_external_peer_cases:
  assumes "safe_external_peer (Some raw) = Ok (Some p)"
  obtains (encoded) "p = ''ext-'' @ ext_digits (strip_space raw)"
  | (readable) "\<not> py_startswith p ''ext-''" "clean_identifier p" "py_isascii (strip_space raw)"
proof (cases "p = ''ext-'' @ ext_digits (strip_space raw)")
  case False
  let ?n = "strip_space raw"
  from assms False have asc: "py_isascii ?n" and ne: "sanitize_component ?n \<noteq> []"
    and nx: "\<not> py_startswith (sanitize_component ?n) ''ext-''"
    by (auto simp: safe_external_peer_def encoded_external_peer_eq Let_def split: if_splits)
  obtain v where v: "safe_peer_id (Some (sanitize_component ?n)) = Ok v"
    using safe_peer_id_total by blast
  have p: "v = Some p"
    using assms False asc ne nx v
    by (auto simp: safe_external_peer_def encoded_external_peer_eq Let_def split: if_splits)
  have "strip_space (sanitize_component ?n) = p"
    using v p
    by (auto simp: safe_peer_id_def normalize_peer_id_def normalize_identifier_part_def Let_def
        split: option.splits if_splits sum.splits)
  moreover have "strip_space (sanitize_component ?n) = sanitize_component ?n"
    by (rule strip_ident [OF sanitize_component_chars])
  ultimately show ?thesis
    using nx v p asc safe_peer_id_Some readable by metis
qed (rule encoded)

section \<open>What the adapters produce\<close>

text \<open>A turn worth replaying: one of the two roles, a text that is not blank, and a peer identifier,
  if any, that the server accepts.\<close>

definition turn_ok :: "norm_message \<Rightarrow> bool" where
  "turn_ok m \<longleftrightarrow> nm_role m \<in> {''user'', ''assistant''} \<and> strip_space (nm_text m) \<noteq> [] \<and>
     (\<forall>p. nm_peer_id m = Some p \<longrightarrow> clean_identifier p)"

definition adapter_ok :: "(pyval \<Rightarrow> norm_message list res) \<Rightarrow> bool" where
  "adapter_ok parse \<longleftrightarrow> (\<forall>obj ms. parse obj = Ok ms \<longrightarrow> length ms \<le> 1 \<and> list_all turn_ok ms)"

lemma chat_role_Some: "chat_role v = Some role \<Longrightarrow> role = ''user'' \<or> role = ''assistant''"
  by (auto simp: chat_role_def split: if_splits)

lemma extract_text_stripped: "strip_space (extract_text c) = extract_text c"
  by (auto simp: extract_text_def py_strip_def py_lstrip_def split: pyval.split)
    (metis py_strip_def py_lstrip_def py_strip_idem)+

lemma join_content_stripped: "strip_space (join_content c) = join_content c"
  by (auto simp: join_content_def py_strip_def py_lstrip_def split: pyval.split)
    (metis py_strip_def py_lstrip_def py_strip_idem)+

lemma safe_external_peer_clean:
  assumes "safe_external_peer raw = Ok (Some p)"
  shows "clean_identifier p"
proof (cases raw)
  case None
  with assms show ?thesis by (simp add: safe_external_peer_def)
next
  case (Some r)
  have "clean_identifier (''ext-'' @ ext_digits n)" for n
    using safe_peer_id_Some [of "Some (''ext-'' @ ext_digits n)"] encoded_external_peer_eq [of n]
    unfolding encoded_external_peer_def ext_digits_def by simp
  with assms Some show ?thesis
    by (auto elim!: safe_external_peer_cases)
qed

lemma assistant_peer_clean: "assistant_peer_id h m v = Ok (Some p) \<Longrightarrow> clean_identifier p"
  by (auto simp: assistant_peer_id_def res_bind_Ok_iff dest: safe_peer_id_Some)

lemma git_human_peer_clean: "git_human_peer E cwd = Ok (Some p) \<Longrightarrow> clean_identifier p"
  by (auto simp: git_human_peer_def resolve_git_human_peer_def dest: safe_external_peer_clean
      split: if_splits pyval.splits sum.splits)

lemma group_user_peer_clean: "group_user_peer E v = Ok (Some p) \<Longrightarrow> clean_identifier p"
  by (auto simp: group_user_peer_def res_bind_Ok_iff dest: safe_external_peer_clean split: if_splits)

text \<open>The cache of git identities changes no answer.\<close>

definition git_cache_ok :: "source_env \<Rightarrow> (string \<rightharpoonup> string option) \<Rightarrow> bool" where
  "git_cache_ok E cache \<longleftrightarrow> (\<forall>dir v. cache dir = Some v \<longrightarrow>
     safe_external_peer (git_identity (se_git E dir) [''user.email'', ''user.name'']) = Ok v)"

lemma git_cache_transparent:
  assumes "git_cache_ok E cache"
  shows "fst (resolve_git_human_peer E cache cwd) = git_human_peer E cwd"
    and "git_cache_ok E (snd (resolve_git_human_peer E cache cwd))"
  using assms
  by (auto simp: git_human_peer_def resolve_git_human_peer_def git_cache_ok_def
      split: pyval.splits option.splits sum.splits)

lemmas peer_clean = assistant_peer_clean git_human_peer_clean group_user_peer_clean

text \<open>A small calculus for the adapters: what a computation that may raise gives when it returns.\<close>

definition gives :: "('a \<Rightarrow> bool) \<Rightarrow> 'a res \<Rightarrow> bool" where
  "gives P r \<longleftrightarrow> (\<forall>v. r = Ok v \<longrightarrow> P v)"

lemma gives_Ok: "P v \<Longrightarrow> gives P (Ok v)"
  by (simp add: gives_def)

lemma gives_bind: "(\<And>v. r = Ok v \<Longrightarrow> gives P (f v)) \<Longrightarrow> gives P (res_bind r f)"
  by (auto simp: gives_def res_bind_Ok_iff)

lemma gives_if: "\<lbrakk>b \<Longrightarrow> gives P x; \<not> b \<Longrightarrow> gives P y\<rbrakk> \<Longrightarrow> gives P (if b then x else y)"
  by simp

lemma gives_dict:
  "\<lbrakk>\<And>m. v = PDict m \<Longrightarrow> gives P (f m); P []\<rbrakk>
   \<Longrightarrow> gives P (case v of PDict m \<Rightarrow> f m | _ \<Rightarrow> Ok [])"
  by (cases v) (simp_all add: gives_def)

lemma gives_option:
  "\<lbrakk>P []; \<And>r. v = Some r \<Longrightarrow> gives P (f r)\<rbrakk> \<Longrightarrow> gives P (case v of None \<Rightarrow> Ok [] | Some r \<Rightarrow> f r)"
  by (cases v) (simp_all add: gives_def)

definition one_turn :: "norm_message list \<Rightarrow> bool" where
  "one_turn ms \<longleftrightarrow> length ms \<le> 1 \<and> list_all turn_ok ms"

lemma one_turn_Nil: "one_turn []"
  by (simp add: one_turn_def)

lemma one_turn_message:
  assumes "chat_role v = Some role" "strip_space t = t" "t \<noteq> []"
    and "\<And>p. peer = Some p \<Longrightarrow> clean_identifier p"
  shows "one_turn [\<lparr>nm_role = role, nm_text = t, nm_parts = [], nm_created_at = ts,
    nm_peer_id = peer, nm_meta = meta\<rparr>]"
  using assms chat_role_Some [OF assms(1)] by (auto simp: one_turn_def turn_ok_def)

lemmas gives_intros =
  gives_bind gives_if gives_dict gives_option gives_Ok one_turn_Nil one_turn_message

lemma adapter_okI: "(\<And>obj. gives one_turn (parse obj)) \<Longrightarrow> adapter_ok parse"
  by (auto simp: adapter_ok_def gives_def one_turn_def)

lemma claude_code_adapter: "adapter_ok (claude_code_parse_line E ref)"
  unfolding claude_code_parse_line_def Let_def
  by (intro adapter_okI gives_intros)
    (auto simp: extract_text_stripped split: if_splits dest: peer_clean)

lemma codex_adapter: "adapter_ok (codex_parse_line E ref)"
  unfolding codex_parse_line_def Let_def
  by (intro adapter_okI gives_intros)
    (auto simp: join_content_stripped split: if_splits dest: peer_clean)

lemma openclaw_adapter: "adapter_ok (openclaw_parse_line E ref)"
  unfolding openclaw_parse_line_def Let_def
  by (intro adapter_okI gives_intros)
    (auto simp: extract_text_stripped split: if_splits dest: peer_clean)

lemma hermes_adapter: "adapter_ok (hermes_parse_line E ref)"
  unfolding hermes_parse_line_def Let_def
  by (intro adapter_okI gives_intros)
    (auto simp: res_bind_Ok_iff split: if_splits dest: peer_clean)

lemma jsonl_messages_ok:
  "adapter_ok parse \<Longrightarrow>
   length (line_messages (jsonl_messages loads parse) line) \<le> 1 \<and>
   list_all turn_ok (line_messages (jsonl_messages loads parse) line)"
  by (auto simp: line_messages_def jsonl_messages_def adapter_ok_def Let_def
      split: option.split sum.split)

lemma turn_ok_request: "turn_ok m \<Longrightarrow> to_add_message_request m \<noteq> None"
  by (simp add: turn_ok_def to_add_message_request_def Let_def)

lemma requests_all: "list_all turn_ok ms \<Longrightarrow> length (to_add_message_requests ms) = length ms"
  by (induction ms) (auto dest: turn_ok_request split: option.split)

section \<open>Properties\<close>

text \<open>External names cannot impersonate one another through the encoded namespace: when a name
  is given an identifier that starts with \<open>ext-\<close>, the only names with that identifier are those that
  agree with it up to surrounding white space. And every identifier handed out is one the server
  accepts.\<close>

theorem external_peer_no_impersonation:
  assumes "safe_external_peer (Some a) = Ok (Some p)" "safe_external_peer (Some b) = Ok (Some p)"
    and "py_startswith p ''ext-''"
  shows "strip_space a = strip_space b \<and> clean_identifier p"
proof -
  have "p = ''ext-'' @ ext_digits (strip_space a)"
    using assms(1,3) by (auto elim: safe_external_peer_cases)
  moreover have "p = ''ext-'' @ ext_digits (strip_space b)"
    using assms(2,3) by (auto elim: safe_external_peer_cases)
  ultimately show ?thesis
    using ext_digits_inj safe_external_peer_clean [OF assms(1)] by auto
qed

theorem external_peer_no_impersonation_witness:
  "safe_external_peer (Some [CHR 0xE9]) = Ok (Some ''ext-w6k'') \<and>
   safe_external_peer (Some ''ext-w6k'') \<noteq> Ok (Some ''ext-w6k'')"
proof -
  have s: "strip_space [CHR 0xE9] = [CHR 0xE9]" "strip_space ''ext-w6k'' = ''ext-w6k''"
    by (simp_all add: py_strip_def py_lstrip_def py_rstrip_def py_isspace_def)
  have "ext_digits [CHR 0xE9] = ''w6k''"
    by (simp add: ext_digits_def urlsafe_b64encode_def str_encode_def utf8_char_def url_digit_def
        b64_char_def b64_alphabet_def py_rstrip_def)
  then have 1: "safe_external_peer (Some [CHR 0xE9]) = Ok (Some ''ext-w6k'')"
    by (simp add: safe_external_peer_def s py_isascii_def encoded_external_peer_eq)
  show ?thesis
    using external_peer_no_impersonation [OF 1, of "''ext-w6k''"] 1
    by (auto simp: s py_startswith_def)
qed

end
