(* ===== verification/Ingest_Replay.thy ===== *)
theory Ingest_Replay
  imports Ingest_Sources
begin

text \<open>
  Replaying conversation logs into sessions: the cursor store of \<^verbatim>\<open>ingest/cursor_store.py\<close>, the
  replayer of \<^verbatim>\<open>ingest/replay.py\<close>, the session loop and the shutdown of \<^verbatim>\<open>ingest/poller.py\<close> and the
  backfill loop of \<^verbatim>\<open>ingest/orchestrator.py\<close>.

  The server is an environment: the live messages of a session, which are what \<^verbatim>\<open>message_count\<close>
  counts, and, for the statements, the log of everything ever appended to it. Each call to the server
  may fail before or after it took effect; the outcomes are arguments. The store keeps JSON values
  as values, and the column \<^verbatim>\<open>updated_at\<close>, which is never read, is left out.
\<close>

section \<open>The cursor store\<close>

record cursor_row =
  row_ov_session_id :: "string option"
  row_cursor_kind :: string
  row_cursor_value :: pydict
  row_locator :: "string option"
  row_title :: "string option"
  row_last_appended_count :: int
  row_pending_tokens :: int
  row_needs_commit :: bool
  row_pend_cursor :: "pydict option"
  row_pend_count :: int
  row_pend_baseline :: int
  row_last_committed_at :: "string option"

type_synonym store_key = "string \<times> string"
type_synonym cursor_store = "store_key \<rightharpoonup> cursor_row"

definition coalesce :: "'a option \<Rightarrow> 'a option \<Rightarrow> 'a option" where
  "coalesce a b = (case a of None \<Rightarrow> b | Some _ \<Rightarrow> a)"

definition update_row :: "cursor_store \<Rightarrow> store_key \<Rightarrow> (cursor_row \<Rightarrow> cursor_row) \<Rightarrow> cursor_store" where
  "update_row st key f = (case st key of None \<Rightarrow> st | Some r \<Rightarrow> st(key \<mapsto> f r))"

text \<open>The read side: the confirmed cursor, and the cursor of a pending batch, of the same kind.\<close>

definition row_cursor :: "cursor_row \<Rightarrow> cursor" where
  "row_cursor r = \<lparr>cur_kind = row_cursor_kind r, cur_value = row_cursor_value r\<rparr>"

definition row_pending_cursor :: "cursor_row \<Rightarrow> cursor option" where
  "row_pending_cursor r =
     map_option (\<lambda>v. \<lparr>cur_kind = row_cursor_kind r, cur_value = v\<rparr>) (row_pend_cursor r)"

definition get_cursor :: "cursor_store \<Rightarrow> store_key \<Rightarrow> cursor option" where
  "get_cursor st key = map_option row_cursor (st key)"

definition initial_row :: "string \<Rightarrow> cursor \<Rightarrow> string option \<Rightarrow> string option \<Rightarrow> cursor_row" where
  "initial_row sid cur locator title =
     \<lparr>row_ov_session_id = Some sid, row_cursor_kind = cur_kind cur, row_cursor_value = cur_value cur,
      row_locator = locator, row_title = title, row_last_appended_count = 0, row_pending_tokens = 0,
      row_needs_commit = False, row_pend_cursor = None, row_pend_count = 0, row_pend_baseline = 0,
      row_last_committed_at = None\<rparr>"

definition ensure_row :: "cursor_store \<Rightarrow> store_key \<Rightarrow> string \<Rightarrow> cursor \<Rightarrow> string option
    \<Rightarrow> string option \<Rightarrow> cursor_store" where
  "ensure_row st key sid cur locator title =
     (case st key of None \<Rightarrow> st(key \<mapsto> initial_row sid cur locator title) | Some _ \<Rightarrow> st)"

definition advance_cursor :: "cursor_store \<Rightarrow> store_key \<Rightarrow> string \<Rightarrow> cursor \<Rightarrow> string option
    \<Rightarrow> cursor_store" where
  "advance_cursor st key sid cur locator =
     update_row (ensure_row st key sid cur locator None) key (\<lambda>r.
       r\<lparr>row_cursor_value := cur_value cur, row_cursor_kind := cur_kind cur,
         row_locator := coalesce locator (row_locator r)\<rparr>)"

definition set_pending :: "cursor_store \<Rightarrow> store_key \<Rightarrow> string \<Rightarrow> cursor \<Rightarrow> cursor \<Rightarrow> int \<Rightarrow> int
    \<Rightarrow> string option \<Rightarrow> string option \<Rightarrow> cursor_store" where
  "set_pending st key sid from_cursor pend_cursor pend_count baseline locator title =
     update_row (ensure_row st key sid from_cursor locator title) key (\<lambda>r.
       r\<lparr>row_ov_session_id := Some sid, row_pend_cursor := Some (cur_value pend_cursor),
         row_pend_count := pend_count, row_pend_baseline := baseline,
         row_locator := coalesce locator (row_locator r), row_title := coalesce title (row_title r)\<rparr>)"

definition confirm_append :: "cursor_store \<Rightarrow> store_key \<Rightarrow> cursor \<Rightarrow> int \<Rightarrow> cursor_store" where
  "confirm_append st key cur appended_delta =
     update_row st key (\<lambda>r.
       r\<lparr>row_cursor_value := cur_value cur, row_cursor_kind := cur_kind cur,
         row_last_appended_count := row_last_appended_count r + appended_delta,
         row_needs_commit := True, row_pend_cursor := None, row_pend_count := 0,
         row_pend_baseline := 0\<rparr>)"

definition clear_pending :: "cursor_store \<Rightarrow> store_key \<Rightarrow> cursor_store" where
  "clear_pending st key =
     update_row st key (\<lambda>r. r\<lparr>row_pend_cursor := None, row_pend_count := 0, row_pend_baseline := 0\<rparr>)"

definition mark_committed :: "cursor_store \<Rightarrow> store_key \<Rightarrow> string \<Rightarrow> cursor_store" where
  "mark_committed st key now =
     update_row st key (\<lambda>r.
       r\<lparr>row_needs_commit := False, row_pending_tokens := 0, row_last_committed_at := Some now\<rparr>)"

definition store_upsert :: "cursor_store \<Rightarrow> store_key \<Rightarrow> string \<Rightarrow> cursor \<Rightarrow> int \<Rightarrow> int option
    \<Rightarrow> string option \<Rightarrow> string option \<Rightarrow> string option \<Rightarrow> cursor_store" where
  "store_upsert st key sid cur appended_delta pending_tokens committed_at locator title =
     (case st key of
        None \<Rightarrow> st(key \<mapsto> (initial_row sid cur locator title)
                  \<lparr>row_last_appended_count := appended_delta,
                   row_pending_tokens := (case pending_tokens of None \<Rightarrow> 0 | Some n \<Rightarrow> n),
                   row_last_committed_at := committed_at\<rparr>)
      | Some r \<Rightarrow> st(key \<mapsto>
          r\<lparr>row_ov_session_id := Some sid, row_cursor_kind := cur_kind cur,
            row_cursor_value := cur_value cur, row_locator := coalesce locator (row_locator r),
            row_title := coalesce title (row_title r),
            row_last_appended_count := row_last_appended_count r + appended_delta,
            row_pending_tokens := (case pending_tokens of None \<Rightarrow> row_pending_tokens r | Some n \<Rightarrow> n),
            row_last_committed_at := coalesce committed_at (row_last_committed_at r)\<rparr>))"

definition store_delete :: "cursor_store \<Rightarrow> store_key \<Rightarrow> cursor_store" where
  "store_delete st key = st(key := None)"

section \<open>The server and the client\<close>

record session_server =
  sv_live :: "pydict list option"
  sv_log :: "pydict list"

definition ensure_session :: "session_server \<Rightarrow> session_server" where
  "ensure_session sv = (case sv_live sv of None \<Rightarrow> sv\<lparr>sv_live := Some []\<rparr> | Some _ \<Rightarrow> sv)"

definition message_count :: "session_server \<Rightarrow> int" where
  "message_count sv = (case sv_live sv of None \<Rightarrow> 0 | Some l \<Rightarrow> int (length l))"

definition batch_add_messages :: "session_server \<Rightarrow> pydict list \<Rightarrow> session_server" where
  "batch_add_messages sv chunk =
     sv\<lparr>sv_live := Some ((case sv_live sv of None \<Rightarrow> [] | Some l \<Rightarrow> l) @ chunk), sv_log := sv_log sv @ chunk\<rparr>"

text \<open>A commit archives the live messages but the last \<open>keep\<close>.\<close>

definition commit_session :: "session_server \<Rightarrow> nat \<Rightarrow> session_server" where
  "commit_session sv keep = sv\<lparr>sv_live := map_option (\<lambda>l. drop (length l - keep) l) (sv_live sv)\<rparr>"

definition BATCH :: nat where "BATCH = 100"

text \<open>\<open>append\<close> sends the messages in batches. An outcome \<open>Some n\<close> is a failure after \<open>n\<close> batches took
  effect: a rejected request, a lost response or the end of the process.\<close>

function batches :: "nat \<Rightarrow> 'a list \<Rightarrow> 'a list list" where
  "batches n xs = (if n = 0 \<or> xs = [] then [] else take n xs # batches n (drop n xs))"
  by pat_completeness auto
termination
  by (relation "measure (\<lambda>(n, xs). length xs)") auto

declare batches.simps [simp del]

fun client_append :: "nat option \<Rightarrow> pydict list list \<Rightarrow> session_server \<Rightarrow> bool \<times> session_server" where
  "client_append outcome [] sv = (True, sv)"
| "client_append None (chunk # chunks) sv = client_append None chunks (batch_add_messages sv chunk)"
| "client_append (Some 0) (chunk # chunks) sv = (False, sv)"
| "client_append (Some (Suc n)) [chunk] sv = (False, batch_add_messages sv chunk)"
| "client_append (Some (Suc n)) (chunk # chunks) sv =
     client_append (Some n) chunks (batch_add_messages sv chunk)"

section \<open>The replayer\<close>

type_synonym replay_state = "cursor_store \<times> session_server"

definition sanitize_id :: "string \<Rightarrow> string" where
  "sanitize_id value = (let s = sanitize_component value in if s = [] then ''unknown'' else s)"

definition ov_session_id :: "string \<Rightarrow> string \<Rightarrow> string \<Rightarrow> string" where
  "ov_session_id session_prefix harness native =
     py_join ''__'' [sanitize_id session_prefix, sanitize_id harness, sanitize_id native]"

text \<open>\<open>reconcile\<close>: \<open>readable\<close> says whether reading the message count succeeds.\<close>

definition reconcile :: "bool \<Rightarrow> store_key \<Rightarrow> replay_state \<Rightarrow> replay_state" where
  "reconcile readable key s =
     (case fst s key of
        None \<Rightarrow> s
      | Some rec \<Rightarrow>
          (case row_pending_cursor rec of
             None \<Rightarrow> s
           | Some pending_cursor \<Rightarrow>
               if row_pend_count rec = 0 then s
               else if \<not> readable then s
               else if message_count (snd s) \<ge> row_pend_baseline rec + row_pend_count rec
               then (confirm_append (fst s) key pending_cursor (row_pend_count rec), snd s)
               else (clear_pending (fst s) key, snd s)))"

datatype append_outcome = Fail_ensure | Fail_count | Append_fails nat | Append_done

text \<open>\<open>append_batch\<close>: the result is the number of appended messages, or \<open>None\<close> when it raises or the
  process ends.\<close>

definition append_batch :: "append_outcome \<Rightarrow> string \<Rightarrow> store_key \<Rightarrow> string option \<Rightarrow> string option
    \<Rightarrow> norm_message list \<Rightarrow> cursor \<Rightarrow> cursor \<Rightarrow> replay_state \<Rightarrow> nat option \<times> replay_state" where
  "append_batch outcome sid key locator title messages from_cursor new_cursor s =
     (let payloads = to_add_message_requests messages in
      if payloads = [] then (Some 0, advance_cursor (fst s) key sid new_cursor locator, snd s)
      else if outcome = Fail_ensure then (None, s)
      else if outcome = Fail_count then (None, fst s, ensure_session (snd s))
      else
        let sv = ensure_session (snd s);
            baseline = message_count sv;
            st = set_pending (fst s) key sid from_cursor new_cursor (int (length payloads)) baseline
                   locator title;
            (ok, sv') = client_append (case outcome of Append_fails n \<Rightarrow> Some n | _ \<Rightarrow> None)
                          (batches BATCH payloads) sv
        in if ok then (Some (length payloads),
                       confirm_append st key new_cursor (int (length payloads)), sv')
           else (None, st, sv'))"

text \<open>\<open>commit_if_needed\<close>: \<open>pending\<close> is the token count the server reports, \<open>None\<close> when the read
  fails. The commit call succeeds, is rejected, or takes effect while its response is lost.\<close>

datatype commit_outcome = Commit_done | Commit_rejected | Commit_lost

definition client_commit :: "commit_outcome \<Rightarrow> string \<Rightarrow> nat \<Rightarrow> store_key \<Rightarrow> replay_state
    \<Rightarrow> bool option \<times> replay_state" where
  "client_commit outcome now keep key s =
     (case outcome of
        Commit_done \<Rightarrow> (Some True, mark_committed (fst s) key now, commit_session (snd s) keep)
      | Commit_rejected \<Rightarrow> (None, s)
      | Commit_lost \<Rightarrow> (None, fst s, commit_session (snd s) keep))"

definition commit_if_needed :: "int option \<Rightarrow> commit_outcome \<Rightarrow> string \<Rightarrow> nat \<Rightarrow> store_key
    \<Rightarrow> replay_state \<Rightarrow> bool option \<times> replay_state" where
  "commit_if_needed pending outcome now keep key s =
     (case pending of
        None \<Rightarrow> (None, s)
      | Some p \<Rightarrow>
          let need = (case fst s key of None \<Rightarrow> False | Some rec \<Rightarrow> row_needs_commit rec) in
          if \<not> need \<and> p \<le> 0 then (Some False, s)
          else if p \<le> 0 then (Some False, mark_committed (fst s) key now, snd s)
          else client_commit outcome now keep key s)"

definition maybe_commit_on_threshold :: "int option \<Rightarrow> commit_outcome \<Rightarrow> string \<Rightarrow> int \<Rightarrow> nat
    \<Rightarrow> store_key \<Rightarrow> replay_state \<Rightarrow> bool option \<times> replay_state" where
  "maybe_commit_on_threshold pending outcome now threshold keep key s =
     (case pending of
        None \<Rightarrow> (None, s)
      | Some p \<Rightarrow> if p < threshold then (Some False, s) else client_commit outcome now keep key s)"

definition reset_session :: "store_key \<Rightarrow> replay_state \<Rightarrow> replay_state" where
  "reset_session key s = (store_delete (fst s) key, (snd s)\<lparr>sv_live := None\<rparr>)"

section \<open>Polling a session\<close>

text \<open>What one poll of a session meets: the log file at each read, which may grow between two reads,
  the outcome of each append, and the outcomes of the reads and commits.\<close>

record session_id =
  si_key :: store_key
  si_sid :: string
  si_locator :: "string option"
  si_title :: "string option"
  si_keep :: nat
  si_threshold :: int

record commit_env =
  ce_pending :: "int option"
  ce_outcome :: commit_outcome
  ce_now :: string

record poll_env =
  pe_file :: "nat \<Rightarrow> log_file"
  pe_append :: "nat \<Rightarrow> append_outcome"
  pe_readable :: bool
  pe_commit :: commit_env

datatype poll_end = Read_failed | Raised | Drained bool | Out_of_fuel

text \<open>The loop of \<open>_poll_session\<close>, with a bound on the number of its iterations; \<open>appended\<close> says
  whether a batch was appended.\<close>

fun poll_loop :: "nat \<Rightarrow> (bytes \<Rightarrow> norm_message list) \<Rightarrow> session_id \<Rightarrow> poll_env \<Rightarrow> nat \<Rightarrow> bool
    \<Rightarrow> replay_state \<Rightarrow> poll_end \<times> nat \<times> replay_state" where
  "poll_loop 0 f D P i appended s = (Out_of_fuel, i, s)"
| "poll_loop (Suc fuel) f D P i appended s =
     (let cur = get_cursor (fst s) (si_key D);
          from_cursor = (case cur of None \<Rightarrow> cursor_zero BYTE_OFFSET | Some c \<Rightarrow> c)
      in case read_messages f (Some (pe_file P i)) cur DEFAULT_READ_LIMIT of
           Inl _ \<Rightarrow> (Read_failed, i, s)
         | Inr (messages, new_cursor) \<Rightarrow>
             if messages = [] then
               (Drained appended, i,
                if cur_value new_cursor \<noteq> cur_value from_cursor
                then (advance_cursor (fst s) (si_key D) (si_sid D) new_cursor (si_locator D), snd s)
                else s)
             else case append_batch (pe_append P i) (si_sid D) (si_key D) (si_locator D) (si_title D)
                         messages from_cursor new_cursor s of
                    (None, s') \<Rightarrow> (Raised, i, s')
                  | (Some added, s') \<Rightarrow> poll_loop fuel f D P (Suc i) (appended \<or> added > 0) s')"

text \<open>\<open>_poll_session\<close> and, when it raises, the end of \<open>run\<close>: the \<^verbatim>\<open>finally\<close> clause commits every dirty
  session and the process ends. The state is the durable one and whether the session is dirty.\<close>

record poller =
  po_state :: replay_state
  po_dirty :: bool

definition flush_all :: "session_id \<Rightarrow> commit_env \<Rightarrow> poller \<Rightarrow> poller" where
  "flush_all D C w =
     (if po_dirty w
      then \<lparr>po_state = snd (commit_if_needed (ce_pending C) (ce_outcome C) (ce_now C) (si_keep D)
              (si_key D) (po_state w)), po_dirty = False\<rparr>
      else w)"

definition poll_session :: "nat \<Rightarrow> (bytes \<Rightarrow> norm_message list) \<Rightarrow> session_id \<Rightarrow> poll_env \<Rightarrow> poller
    \<Rightarrow> poll_end \<times> nat \<times> poller" where
  "poll_session fuel f D P w =
     (case poll_loop fuel f D P 0 False (reconcile (pe_readable P) (si_key D) (po_state w)) of
        (Drained appended, i, s) \<Rightarrow>
          let needs = (case fst s (si_key D) of None \<Rightarrow> False | Some rec \<Rightarrow> row_needs_commit rec) in
          if appended \<or> needs then
            (case maybe_commit_on_threshold (ce_pending (pe_commit P)) (ce_outcome (pe_commit P))
                    (ce_now (pe_commit P)) (si_threshold D) (si_keep D) (si_key D) s of
               (None, s') \<Rightarrow> (Raised, i, \<lparr>po_state = s', po_dirty = True\<rparr>)
             | (Some committed, s') \<Rightarrow> (Drained appended, i, \<lparr>po_state = s', po_dirty = \<not> committed\<rparr>))
          else (Drained appended, i, w\<lparr>po_state := s\<rparr>)
      | (r, i, s) \<Rightarrow> (r, i, w\<lparr>po_state := s\<rparr>))"

definition commit_idle :: "session_id \<Rightarrow> commit_env \<Rightarrow> poller \<Rightarrow> poller" where
  "commit_idle D C w =
     (if po_dirty w then
        (case commit_if_needed (ce_pending C) (ce_outcome C) (ce_now C) (si_keep D) (si_key D)
                (po_state w) of
           (None, s) \<Rightarrow> w\<lparr>po_state := s\<rparr>
         | (Some _, s) \<Rightarrow> \<lparr>po_state = s, po_dirty = False\<rparr>)
      else w)"

text \<open>A history of a session: polls, the commits of idle sessions, and the process being killed. A
  poll that raises ends the process through \<open>flush_all\<close>, whose environment comes with the poll.\<close>

datatype ingest_op =
    Op_poll nat poll_env commit_env
  | Op_idle commit_env
  | Op_killed

definition ingest_step :: "(bytes \<Rightarrow> norm_message list) \<Rightarrow> session_id \<Rightarrow> ingest_op \<Rightarrow> poller \<Rightarrow> poller" where
  "ingest_step f D op w =
     (case op of
        Op_poll fuel P C \<Rightarrow>
          (case poll_session fuel f D P w of
             (Raised, _, w') \<Rightarrow> (flush_all D C w')\<lparr>po_dirty := False\<rparr>
           | (_, _, w') \<Rightarrow> w')
      | Op_idle C \<Rightarrow> commit_idle D C w
      | Op_killed \<Rightarrow> w\<lparr>po_dirty := False\<rparr>)"

definition ingest_run :: "(bytes \<Rightarrow> norm_message list) \<Rightarrow> session_id \<Rightarrow> ingest_op list \<Rightarrow> poller \<Rightarrow> poller" where
  "ingest_run f D ops w = foldl (\<lambda>w op. ingest_step f D op w) w ops"

section \<open>Backfilling a session\<close>

text \<open>The loop of \<open>_backfill_one\<close> when it is not a dry run: the cursor is a local variable.\<close>

fun backfill_loop :: "nat \<Rightarrow> (bytes \<Rightarrow> norm_message list) \<Rightarrow> session_id \<Rightarrow> poll_env \<Rightarrow> nat
    \<Rightarrow> cursor option \<Rightarrow> nat \<Rightarrow> replay_state \<Rightarrow> poll_end \<times> nat \<times> nat \<times> replay_state" where
  "backfill_loop 0 f D P i cur count s = (Out_of_fuel, i, count, s)"
| "backfill_loop (Suc fuel) f D P i cur count s =
     (let from_cursor = (case cur of None \<Rightarrow> cursor_zero BYTE_OFFSET | Some c \<Rightarrow> c)
      in case read_messages f (Some (pe_file P i)) cur DEFAULT_READ_LIMIT of
           Inl _ \<Rightarrow> (Raised, i, count, s)
         | Inr (messages, new_cursor) \<Rightarrow>
             if messages = [] then
               (Drained (count > 0), i, count,
                if cur_value new_cursor \<noteq> cur_value from_cursor
                then (advance_cursor (fst s) (si_key D) (si_sid D) new_cursor (si_locator D), snd s)
                else s)
             else case append_batch (pe_append P i) (si_sid D) (si_key D) (si_locator D) (si_title D)
                         messages from_cursor new_cursor s of
                    (None, s') \<Rightarrow> (Raised, i, count, s')
                  | (Some added, s') \<Rightarrow>
                      backfill_loop fuel f D P (Suc i) (Some new_cursor) (count + added) s')"

text \<open>One session of \<open>backfill_source\<close>: an exception is recorded and skips the commit.\<close>

definition backfill_session :: "nat \<Rightarrow> (bytes \<Rightarrow> norm_message list) \<Rightarrow> session_id \<Rightarrow> poll_env \<Rightarrow> bool
    \<Rightarrow> replay_state \<Rightarrow> poll_end \<times> nat \<times> nat \<times> replay_state" where
  "backfill_session fuel f D P reset s =
     (let s1 = (if reset then reset_session (si_key D) s else reconcile (pe_readable P) (si_key D) s)
      in case backfill_loop fuel f D P 0 (get_cursor (fst s1) (si_key D)) 0 s1 of
           (Drained a, i, count, s2) \<Rightarrow>
             (case commit_if_needed (ce_pending (pe_commit P)) (ce_outcome (pe_commit P))
                     (ce_now (pe_commit P)) (si_keep D) (si_key D) s2 of
                (None, s3) \<Rightarrow> (Raised, i, count, s3)
              | (Some _, s3) \<Rightarrow> (Drained a, i, count, s3))
         | r \<Rightarrow> r)"

section \<open>What the durable state says\<close>

abbreviation reqs :: "norm_message list \<Rightarrow> pydict list" where
  "reqs \<equiv> to_add_message_requests"

abbreviation from_of :: "cursor option \<Rightarrow> cursor" where
  "from_of co \<equiv> (case co of None \<Rightarrow> cursor_zero BYTE_OFFSET | Some c \<Rightarrow> c)"

definition pending :: "cursor_store \<Rightarrow> store_key \<Rightarrow> (cursor \<times> int \<times> int) option" where
  "pending st key =
     (case st key of
        None \<Rightarrow> None
      | Some r \<Rightarrow>
          (case row_pending_cursor r of
             None \<Rightarrow> None
           | Some c \<Rightarrow> if row_pend_count r = 0 then None
                       else Some (c, row_pend_count r, row_pend_baseline r)))"

text \<open>The confirmed cursor stands at a line boundary. Without an intent, the server has exactly the
  messages before it. With an intent, the server has those, or those and the batch of the intent,
  and its message count tells which.\<close>

definition replay_inv :: "(bytes \<Rightarrow> norm_message list) \<Rightarrow> log_file \<Rightarrow> store_key \<Rightarrow> replay_state \<Rightarrow> bool" where
  "replay_inv f fl key s \<longleftrightarrow>
     (\<exists>off. cursor_at fl (from_of (get_cursor (fst s) key)) off \<and>
        (case pending (fst s) key of
           None \<Rightarrow> sv_log (snd s) = reqs (read_so_far f fl off)
         | Some (c, n, base) \<Rightarrow>
             (\<exists>ms off'. cursor_at fl c off' \<and> read_so_far f fl off' = read_so_far f fl off @ ms \<and>
                n = int (length (reqs ms)) \<and>
                (sv_log (snd s) = reqs (read_so_far f fl off) \<and> message_count (snd s) = base \<or>
                 sv_log (snd s) = reqs (read_so_far f fl off') \<and> message_count (snd s) = base + n))))"

abbreviation settled :: "store_key \<Rightarrow> replay_state \<Rightarrow> bool" where
  "settled key s \<equiv> pending (fst s) key = None"

lemma cursor_at_kind: "cursor_at fl c off \<Longrightarrow> cur_kind c = BYTE_OFFSET"
  by (auto simp: cursor_at_def byte_cursor_def cursor_zero_def)

lemma cursor_rebuild: "cur_kind c = k \<Longrightarrow> \<lparr>cur_kind = k, cur_value = cur_value c\<rparr> = c"
  by (cases c) simp

lemma get_cursor_confirm:
  "st key \<noteq> None \<Longrightarrow> get_cursor (confirm_append st key c n) key = Some c"
  by (auto simp: get_cursor_def confirm_append_def update_row_def row_cursor_def)

lemma pending_confirm [simp]: "pending (confirm_append st key c n) key = None"
  by (auto simp: pending_def confirm_append_def update_row_def row_pending_cursor_def
      split: option.split)

lemma clear_pending_simps [simp]:
  "pending (clear_pending st key) key = None"
  "get_cursor (clear_pending st key) key = get_cursor st key"
  by (auto simp: pending_def clear_pending_def update_row_def row_pending_cursor_def
      get_cursor_def row_cursor_def split: option.split)

lemma mark_committed_simps [simp]:
  "pending (mark_committed st key now) key = pending st key"
  "get_cursor (mark_committed st key now) key = get_cursor st key"
  by (auto simp: pending_def mark_committed_def update_row_def row_pending_cursor_def
      get_cursor_def row_cursor_def split: option.split)

lemma advance_cursor_simps:
  "get_cursor (advance_cursor st key sid c locator) key = Some c"
  "pending st key = None \<Longrightarrow> pending (advance_cursor st key sid c locator) key = None"
  by (auto simp: advance_cursor_def ensure_row_def update_row_def get_cursor_def row_cursor_def
      pending_def row_pending_cursor_def initial_row_def split: option.splits if_splits)

lemma set_pending_simps:
  assumes "cur_kind from_c = BYTE_OFFSET" "cur_kind c = BYTE_OFFSET" "from_c = from_of (get_cursor st key)"
    and "n \<noteq> 0"
  shows "get_cursor (set_pending st key sid from_c c n base locator title) key = Some from_c"
    and "pending (set_pending st key sid from_c c n base locator title) key = Some (c, n, base)"
    and "set_pending st key sid from_c c n base locator title key \<noteq> None"
  using assms
  by (auto simp: set_pending_def ensure_row_def update_row_def get_cursor_def row_cursor_def
      pending_def row_pending_cursor_def initial_row_def cursor_rebuild split: option.splits)

lemma server_simps [simp]:
  "sv_log (ensure_session sv) = sv_log sv"
  "sv_log (commit_session sv keep) = sv_log sv"
  "message_count (ensure_session sv) = message_count sv"
  by (auto simp: ensure_session_def commit_session_def message_count_def split: option.split)

lemma batch_add_simps [simp]:
  "sv_log (batch_add_messages sv chunk) = sv_log sv @ chunk"
  "message_count (batch_add_messages sv chunk) = message_count sv + int (length chunk)"
  by (auto simp: batch_add_messages_def message_count_def split: option.split)

text \<open>A batch that fits into one request lands as a whole or not at all.\<close>

lemma client_append_one:
  assumes "ps \<noteq> []" "length ps \<le> BATCH" "client_append outcome (batches BATCH ps) sv = (ok, sv')"
  shows "ok = (outcome = None)" "sv' = sv \<or> sv' = batch_add_messages sv ps"
    "ok \<Longrightarrow> sv' = batch_add_messages sv ps"
proof -
  have "batches BATCH ps = [ps]"
    using assms(1,2) by (subst batches.simps, subst batches.simps) (simp add: BATCH_def)
  then show "ok = (outcome = None)" "sv' = sv \<or> sv' = batch_add_messages sv ps"
    "ok \<Longrightarrow> sv' = batch_add_messages sv ps"
    using assms(3) by (cases "(outcome, [ps], sv)" rule: client_append.cases; force)+
qed

lemma reqs_append: "reqs (ms @ ns) = reqs ms @ reqs ns"
  by (rule to_add_message_requests_append)

lemma replay_inv_settled:
  "\<lbrakk>cursor_at fl (from_of (get_cursor (fst s) key)) off; settled key s;
    sv_log (snd s) = reqs (read_so_far f fl off)\<rbrakk> \<Longrightarrow> replay_inv f fl key s"
  by (auto simp: replay_inv_def)

lemma reconcile_settles:
  assumes "replay_inv f fl key s"
  shows "replay_inv f fl key (reconcile True key s) \<and> settled key (reconcile True key s)"
proof (cases "pending (fst s) key")
  case None
  then have "reconcile True key s = s"
    by (auto simp: pending_def reconcile_def split: option.splits if_splits)
  with assms None show ?thesis by simp
next
  case (Some p)
  obtain c n base where p: "p = (c, n, base)" by (cases p)
  obtain off ms off' where
    off: "cursor_at fl (from_of (get_cursor (fst s) key)) off" "cursor_at fl c off'"
      "read_so_far f fl off' = read_so_far f fl off @ ms" "n = int (length (reqs ms))"
    and sv: "sv_log (snd s) = reqs (read_so_far f fl off) \<and> message_count (snd s) = base \<or>
        sv_log (snd s) = reqs (read_so_far f fl off') \<and> message_count (snd s) = base + n"
    using assms Some p by (auto simp: replay_inv_def)
  have n: "n > 0" and key: "fst s key \<noteq> None"
    using Some p off(4) by (auto simp: pending_def split: option.splits if_splits)
  have rec: "reconcile True key s =
      (if message_count (snd s) \<ge> base + n then (confirm_append (fst s) key c n, snd s)
       else (clear_pending (fst s) key, snd s))"
    using Some p by (auto simp: pending_def reconcile_def split: option.splits if_splits)
  show ?thesis
  proof (cases "message_count (snd s) \<ge> base + n")
    case True
    then show ?thesis
      using sv n off(2) rec key
      by (auto intro!: replay_inv_settled [where off = off'] simp: get_cursor_confirm)
  next
    case False
    then show ?thesis
      using sv off(1) rec by (auto intro!: replay_inv_settled [where off = off])
  qed
qed

section \<open>Every step keeps the invariant\<close>

lemma replay_inv_settledE:
  assumes "replay_inv f fl key s" "settled key s"
  obtains off where "cursor_at fl (from_of (get_cursor (fst s) key)) off"
    "sv_log (snd s) = reqs (read_so_far f fl off)"
  using assms by (auto simp: replay_inv_def)

lemma replay_inv_pending:
  assumes "cursor_at fl (from_of (get_cursor (fst s) key)) off" "pending (fst s) key = Some (c, n, base)"
    and "cursor_at fl c off'" "read_so_far f fl off' = read_so_far f fl off @ ms"
    and "n = int (length (reqs ms))"
    and "sv_log (snd s) = reqs (read_so_far f fl off) \<and> message_count (snd s) = base \<or>
         sv_log (snd s) = reqs (read_so_far f fl off') \<and> message_count (snd s) = base + n"
  shows "replay_inv f fl key s"
  unfolding replay_inv_def assms(2) option.case prod.case
  by (rule exI [of _ off], rule conjI, rule assms(1), rule exI [of _ ms], rule exI [of _ off'])
    (use assms in blast)

lemma append_batch_step:
  assumes at: "cursor_at fl (from_of (get_cursor (fst s) key)) off" and set: "settled key s"
    and log: "sv_log (snd s) = reqs (read_so_far f fl off)"
    and new: "cursor_at fl c off'" "read_so_far f fl off' = read_so_far f fl off @ ms"
    and len: "length ms \<le> BATCH"
    and run: "append_batch outcome sid key locator title ms (from_of (get_cursor (fst s) key)) c s = (r, s')"
  shows "replay_inv f fl key s'"
    and "r \<noteq> None \<Longrightarrow> settled key s' \<and> get_cursor (fst s') key = Some c"
    and "r = None \<Longrightarrow> outcome \<noteq> Append_done"
proof -
  let ?from = "from_of (get_cursor (fst s) key)" and ?n = "int (length (reqs ms))"
  have "replay_inv f fl key s' \<and> (r \<noteq> None \<longrightarrow> settled key s' \<and> get_cursor (fst s') key = Some c) \<and>
      (r = None \<longrightarrow> outcome \<noteq> Append_done)"
  proof (cases "reqs ms = [] \<or> outcome = Fail_ensure \<or> outcome = Fail_count")
    case True
    then show ?thesis
    proof (cases "reqs ms = []")
      case empty: True
      then have "s' = (advance_cursor (fst s) key sid c locator, snd s)" "r = Some 0"
        using run by (auto simp: append_batch_def)
      then show ?thesis
        using new log empty set
        by (auto intro!: replay_inv_settled [where off = off']
            simp: advance_cursor_simps reqs_append)
    next
      case False
      with True have "s' = s \<or> s' = (fst s, ensure_session (snd s))" "r = None" "outcome \<noteq> Append_done"
        using run by (auto simp: append_batch_def split: if_splits)
      then show ?thesis
        using at set log by (auto intro: replay_inv_settled)
    qed
  next
    case False
    let ?sv = "ensure_session (snd s)"
    let ?st = "set_pending (fst s) key sid ?from c ?n (message_count ?sv) locator title"
    let ?out = "case outcome of Append_fails n \<Rightarrow> Some n | _ \<Rightarrow> None"
    obtain ok sv' where ca: "client_append ?out (batches BATCH (reqs ms)) ?sv = (ok, sv')"
      by (rule prod.exhaust)
    note pend = set_pending_simps [OF cursor_at_kind [OF at] cursor_at_kind [OF new(1)] refl]
    have n: "?n \<noteq> 0" using False by simp
    have lenr: "length (reqs ms) \<le> BATCH"
      using len length_to_add_message_requests [of ms] by simp
    note one = client_append_one [OF _ lenr ca]
    have result: "(r, s') = (if ok then (Some (length (reqs ms)), confirm_append ?st key c ?n, sv')
                             else (None, ?st, sv'))"
      using run False ca by (auto simp: append_batch_def Let_def)
    show ?thesis
    proof (cases ok)
      case True
      then have "sv' = batch_add_messages ?sv (reqs ms)"
        using one(3) False by simp
      then show ?thesis
        using result True new log pend(3) [OF n]
        by (auto intro!: replay_inv_settled [where off = off']
            simp: get_cursor_confirm reqs_append)
    next
      case notok: False
      have "sv' = ?sv \<or> sv' = batch_add_messages ?sv (reqs ms)"
        using one(2) False by simp
      then have "replay_inv f fl key (?st, sv')"
        using at new log pend(1,2) [OF n]
        by (auto intro!: replay_inv_pending [where off = off and off' = off' and ms = ms]
            simp: reqs_append)
      moreover have "outcome \<noteq> Append_done"
        using one(1) False notok by auto
      ultimately show ?thesis
        using result notok by simp
    qed
  qed
  then show "replay_inv f fl key s'" "r \<noteq> None \<Longrightarrow> settled key s' \<and> get_cursor (fst s') key = Some c"
    "r = None \<Longrightarrow> outcome \<noteq> Append_done"
    by blast+
qed

lemma replay_inv_grows: "\<lbrakk>replay_inv f fl key s; grows fl fl'\<rbrakk> \<Longrightarrow> replay_inv f fl' key s"
proof -
  assume inv: "replay_inv f fl key s" and g: "grows fl fl'"
  have same: "cursor_at fl c off \<Longrightarrow> read_so_far f fl' off = read_so_far f fl off" for c off
    using grows_take [OF g, of off] by (simp add: cursor_at_def read_so_far_def)
  show ?thesis
  proof (cases "pending (fst s) key")
    case None
    then show ?thesis
      using inv cursor_at_grows [OF _ g]
      by (auto elim!: replay_inv_settledE intro!: replay_inv_settled simp: same)
  next
    case (Some p)
    then obtain c n base where p: "pending (fst s) key = Some (c, n, base)" by (cases p) simp
    with inv obtain off ms off' where
      "cursor_at fl (from_of (get_cursor (fst s) key)) off" "cursor_at fl c off'"
      "read_so_far f fl off' = read_so_far f fl off @ ms" "n = int (length (reqs ms))"
      "sv_log (snd s) = reqs (read_so_far f fl off) \<and> message_count (snd s) = base \<or>
       sv_log (snd s) = reqs (read_so_far f fl off') \<and> message_count (snd s) = base + n"
      by (auto simp: replay_inv_def)
    then show ?thesis
      using cursor_at_grows [OF _ g]
      by (intro replay_inv_pending [OF _ p, where off = off and off' = off' and ms = ms])
        (simp_all add: same)
  qed
qed

lemma read_messages_from: "read_messages f file co limit = read_messages f file (Some (from_of co)) limit"
  by (simp add: read_messages_def split: option.split)

lemma grows_trans: "\<lbrakk>grows a b; grows b c\<rbrakk> \<Longrightarrow> grows a c"
  by (auto simp: grows_def intro: prefix_order.trans)

lemma grows_refl: "grows a a"
  by (simp add: grows_def)

lemma read_batch:
  assumes "cursor_at fl (from_of co) off" "\<And>l. length (line_messages f l) \<le> 1"
  shows "\<exists>ms n. read_messages f (Some fl) co DEFAULT_READ_LIMIT = Ok (ms, byte_cursor (file_inode fl) (off + n)) \<and>
    cursor_at fl (byte_cursor (file_inode fl) (off + n)) (off + n) \<and>
    read_so_far f fl (off + n) = read_so_far f fl off @ ms \<and>
    (ms = [] \<longrightarrow> log_messages f fl = read_so_far f fl (off + n)) \<and> (ms \<noteq> [] \<longrightarrow> 0 < n) \<and>
    length ms \<le> BATCH"
proof -
  have "0 < DEFAULT_READ_LIMIT" by (simp add: DEFAULT_READ_LIMIT_def)
  from assms(1) this show ?thesis
    unfolding read_messages_from [of f _ co]
    by (rule read_step [of _ _ _ _ f])
      (use assms(2) in \<open>auto simp: DEFAULT_READ_LIMIT_def BATCH_def\<close>)
qed

text \<open>The loop, for an adapter that gives at most one message per line.\<close>

lemma poll_loop_inv:
  assumes one: "\<And>l. length (line_messages f l) \<le> 1"
    and grow: "\<And>i. grows (pe_file P i) (pe_file P (Suc i))"
    and inv: "replay_inv f (pe_file P i) (si_key D) s" "settled (si_key D) s"
    and run: "poll_loop fuel f D P i appended s = (r, j, s')"
  shows "replay_inv f (pe_file P j) (si_key D) s' \<and> (r \<noteq> Raised \<longrightarrow> settled (si_key D) s') \<and>
    ((\<exists>a. r = Drained a) \<longrightarrow> sv_log (snd s') = reqs (log_messages f (pe_file P j)))"
  using inv run
proof (induction fuel arbitrary: i appended s)
  case 0
  then show ?case by auto
next
  case (Suc fuel)
  let ?key = "si_key D" and ?fl = "pe_file P i"
  let ?cur = "get_cursor (fst s) ?key"
  obtain off where off: "cursor_at ?fl (from_of ?cur) off" "sv_log (snd s) = reqs (read_so_far f ?fl off)"
    using Suc.prems(1,2) by (rule replay_inv_settledE)
  obtain ms n where
    rd: "read_messages f (Some ?fl) ?cur DEFAULT_READ_LIMIT = Ok (ms, byte_cursor (file_inode ?fl) (off + n))"
    and at: "cursor_at ?fl (byte_cursor (file_inode ?fl) (off + n)) (off + n)"
    and so: "read_so_far f ?fl (off + n) = read_so_far f ?fl off @ ms"
    and all: "ms = [] \<Longrightarrow> log_messages f ?fl = read_so_far f ?fl (off + n)"
    and len: "length ms \<le> BATCH"
    using read_batch [OF off(1) one] by blast
  let ?c = "byte_cursor (file_inode ?fl) (off + n)"
  show ?case
  proof (cases "ms = []")
    case True
    let ?s = "if cur_value ?c \<noteq> cur_value (from_of ?cur)
        then (advance_cursor (fst s) ?key (si_sid D) ?c (si_locator D), snd s) else s"
    have res: "r = Drained appended" "j = i" "s' = ?s"
      using Suc.prems(3) rd True by (auto simp: Let_def)
    have log: "sv_log (snd s) = reqs (read_so_far f ?fl (off + n))"
      using off(2) so True by simp
    have "replay_inv f ?fl ?key ?s" "settled ?key ?s"
      using Suc.prems(1,2) log at
      by (auto simp: advance_cursor_simps intro!: replay_inv_settled [where off = "off + n"])
    moreover have "sv_log (snd ?s) = reqs (log_messages f ?fl)"
      using log all True by simp
    ultimately show ?thesis
      using res by simp
  next
    case False
    obtain r1 s1 where ab: "append_batch (pe_append P i) (si_sid D) ?key (si_locator D) (si_title D) ms
        (from_of ?cur) ?c s = (r1, s1)"
      by (metis prod.exhaust)
    note step = append_batch_step [OF off(1) Suc.prems(2) off(2) at so len ab]
    show ?thesis
    proof (cases r1)
      case None
      then have "r = Raised" "j = i" "s' = s1"
        using Suc.prems(3) rd False ab by (auto simp: Let_def)
      then show ?thesis
        using step(1) by simp
    next
      case (Some added)
      then have "poll_loop fuel f D P (Suc i) (appended \<or> added > 0) s1 = (r, j, s')"
        using Suc.prems(3) rd False ab by (auto simp: Let_def)
      then show ?thesis
        using Suc.IH replay_inv_grows [OF step(1) grow] step(2) Some by blast
    qed
  qed
qed

lemma client_commit_inv:
  assumes "replay_inv f fl key s" "settled key s" "client_commit outcome now keep key s = (r, s')"
  shows "replay_inv f fl key s' \<and> settled key s' \<and> sv_log (snd s') = sv_log (snd s)"
  using assms
  by (cases outcome)
    (auto simp: client_commit_def elim!: replay_inv_settledE intro: replay_inv_settled)

lemma mark_committed_inv:
  "replay_inv f fl key s \<Longrightarrow> replay_inv f fl key (mark_committed (fst s) key now, snd s)"
  unfolding replay_inv_def by (simp only: fst_conv snd_conv mark_committed_simps)

lemma commit_if_needed_inv:
  assumes "replay_inv f fl key s" "settled key s"
    and "commit_if_needed p outcome now keep key s = (r, s')"
  shows "replay_inv f fl key s' \<and> settled key s' \<and> sv_log (snd s') = sv_log (snd s)"
  using assms mark_committed_inv [OF assms(1)] client_commit_inv [OF assms(1,2)]
  by (auto simp: commit_if_needed_def Let_def split: option.splits if_splits)

text \<open>A commit that does not reach the server keeps the invariant also with an open intent.\<close>

definition quiet :: "commit_env \<Rightarrow> bool" where
  "quiet C \<longleftrightarrow> ce_pending C = None \<or> ce_outcome C = Commit_rejected \<or> (\<exists>p. ce_pending C = Some p \<and> p \<le> 0)"

lemma quiet_commit_inv:
  assumes "replay_inv f fl key s" "quiet C"
    and "commit_if_needed (ce_pending C) (ce_outcome C) now keep key s = (r, s')"
  shows "replay_inv f fl key s'"
  using assms mark_committed_inv [OF assms(1)]
  by (auto simp: commit_if_needed_def quiet_def client_commit_def Let_def split: option.splits if_splits)

lemma flush_all_inv:
  assumes "replay_inv f fl (si_key D) (po_state w)" "quiet C"
  shows "replay_inv f fl (si_key D) (po_state (flush_all D C w))"
  using assms quiet_commit_inv [OF assms, of "ce_now C" "si_keep D"]
  by (auto simp: flush_all_def) (metis prod.collapse)

definition source_ok :: "(bytes \<Rightarrow> norm_message list) \<Rightarrow> bool" where
  "source_ok f \<longleftrightarrow> (\<forall>l. length (line_messages f l) \<le> 1)"

definition poll_ok :: "log_file \<Rightarrow> poll_env \<Rightarrow> bool" where
  "poll_ok fl P \<longleftrightarrow> pe_readable P \<and> grows fl (pe_file P 0) \<and> (\<forall>i. grows (pe_file P i) (pe_file P (Suc i)))"

lemma poll_session_inv:
  assumes "source_ok f" "poll_ok fl P" "replay_inv f fl (si_key D) (po_state w)"
    and "poll_session fuel f D P w = (r, i, w')"
  shows "replay_inv f (pe_file P i) (si_key D) (po_state w') \<and>
    (r \<noteq> Raised \<longrightarrow> settled (si_key D) (po_state w')) \<and>
    ((\<exists>a. r = Drained a) \<longrightarrow> sv_log (snd (po_state w')) = reqs (log_messages f (pe_file P i)))"
proof -
  let ?s = "reconcile (pe_readable P) (si_key D) (po_state w)"
  have s: "replay_inv f (pe_file P 0) (si_key D) ?s" "settled (si_key D) ?s"
    using reconcile_settles [OF replay_inv_grows [OF assms(3)], of "pe_file P 0"] assms(2)
    by (auto simp: poll_ok_def)
  obtain q j t where loop: "poll_loop fuel f D P 0 False ?s = (q, j, t)"
    by (metis prod.exhaust)
  have t: "replay_inv f (pe_file P j) (si_key D) t" "q \<noteq> Raised \<Longrightarrow> settled (si_key D) t"
    "(\<exists>a. q = Drained a) \<Longrightarrow> sv_log (snd t) = reqs (log_messages f (pe_file P j))"
    using poll_loop_inv [OF _ _ s loop] assms(1,2) by (auto simp: source_ok_def poll_ok_def)
  show ?thesis
  proof (cases q)
    case (Drained a)
    have mc: "replay_inv f (pe_file P j) (si_key D) u \<and> settled (si_key D) u \<and> sv_log (snd u) = sv_log (snd t)"
      if "maybe_commit_on_threshold p out now th keep (si_key D) t = (v, u)" for p out now th keep v u
      using that t(1,2) Drained client_commit_inv [OF t(1)]
      by (auto simp: maybe_commit_on_threshold_def split: option.splits if_splits)
    show ?thesis
      using assms(4) loop Drained t mc
      by (auto simp: poll_session_def Let_def split: if_splits prod.splits option.splits)
  qed (use assms(4) loop t in \<open>auto simp: poll_session_def\<close>)
qed

text \<open>A history in which the log only grows, the count can be read at every start, and the commit of
  a shutdown after a failed append does not reach the server.\<close>

inductive orderly :: "log_file \<Rightarrow> ingest_op list \<Rightarrow> log_file \<Rightarrow> bool" where
  orderly_Nil: "orderly fl [] fl"
| orderly_poll: "\<lbrakk>poll_ok fl P; quiet C; \<And>i. grows (pe_file P i) fl'; orderly fl' ops fl''\<rbrakk>
    \<Longrightarrow> orderly fl (Op_poll fuel P C # ops) fl''"
| orderly_idle: "orderly fl ops fl' \<Longrightarrow> orderly fl (Op_idle C # ops) fl'"
| orderly_killed: "orderly fl ops fl' \<Longrightarrow> orderly fl (Op_killed # ops) fl'"

definition history_inv :: "(bytes \<Rightarrow> norm_message list) \<Rightarrow> log_file \<Rightarrow> session_id \<Rightarrow> poller \<Rightarrow> bool" where
  "history_inv f fl D w \<longleftrightarrow> replay_inv f fl (si_key D) (po_state w) \<and>
     (po_dirty w \<longrightarrow> settled (si_key D) (po_state w))"

lemma commit_idle_inv:
  assumes "history_inv f fl D w"
  shows "history_inv f fl D (commit_idle D C w)"
  using assms commit_if_needed_inv [of f fl "si_key D" "po_state w"]
  by (auto simp: history_inv_def commit_idle_def split: prod.splits option.splits)

lemma poll_step_inv:
  assumes "source_ok f" "poll_ok fl P" "quiet C" "history_inv f fl D w"
  shows "\<exists>i. history_inv f (pe_file P i) D (ingest_step f D (Op_poll fuel P C) w)"
proof -
  obtain r i w' where run: "poll_session fuel f D P w = (r, i, w')"
    by (metis prod.exhaust)
  note inv = poll_session_inv [OF assms(1,2) _ run]
  have w: "replay_inv f fl (si_key D) (po_state w)"
    using assms(4) by (simp add: history_inv_def)
  have "history_inv f (pe_file P i) D (ingest_step f D (Op_poll fuel P C) w)"
    using inv [OF w] flush_all_inv [of f "pe_file P i" D w' C] assms(3) run
    by (cases r) (auto simp: history_inv_def ingest_step_def)
  then show ?thesis ..
qed

lemma history_inv_grows: "\<lbrakk>history_inv f fl D w; grows fl fl'\<rbrakk> \<Longrightarrow> history_inv f fl' D w"
  by (auto simp: history_inv_def intro: replay_inv_grows)

lemma ingest_run_inv:
  assumes "orderly fl ops fl'" "source_ok f" "history_inv f fl D w"
  shows "history_inv f fl' D (ingest_run f D ops w)"
  using assms
proof (induction arbitrary: w rule: orderly.induct)
  case (orderly_Nil fl)
  then show ?case by (simp add: ingest_run_def)
next
  case (orderly_poll fl P C fl' ops fl'' fuel)
  obtain i where "history_inv f (pe_file P i) D (ingest_step f D (Op_poll fuel P C) w)"
    using poll_step_inv [OF orderly_poll.prems(1) orderly_poll.hyps(1,2) orderly_poll.prems(2)] by blast
  then have "history_inv f fl' D (ingest_step f D (Op_poll fuel P C) w)"
    using orderly_poll.hyps(3) by (rule history_inv_grows)
  then show ?case
    using orderly_poll.IH orderly_poll.prems(1) by (simp add: ingest_run_def)
next
  case (orderly_idle fl ops fl' C)
  then show ?case
    using commit_idle_inv by (simp add: ingest_run_def ingest_step_def)
next
  case (orderly_killed fl ops fl')
  have "history_inv f fl D (w\<lparr>po_dirty := False\<rparr>)"
    using orderly_killed.prems(2) by (simp add: history_inv_def)
  then show ?case
    using orderly_killed.IH orderly_killed.prems(1) by (simp add: ingest_run_def ingest_step_def)
qed

text \<open>A session that was never ingested.\<close>

definition new_session :: "store_key \<Rightarrow> poller \<Rightarrow> bool" where
  "new_session key w \<longleftrightarrow> fst (po_state w) key = None \<and> sv_log (snd (po_state w)) = [] \<and> \<not> po_dirty w"

lemma new_session_inv: "new_session (si_key D) w \<Longrightarrow> history_inv f fl D w"
  using cursor_at_zero [of fl]
  by (auto simp: new_session_def history_inv_def pending_def get_cursor_def read_so_far_def
      messages_in_def intro!: replay_inv_settled [where off = 0])

lemma replay_inv_prefix:
  assumes "replay_inv f fl key s"
  shows "prefix (sv_log (snd s)) (reqs (log_messages f fl))"
proof -
  have pre: "prefix (reqs (read_so_far f fl off)) (reqs (log_messages f fl))"
    if "cursor_at fl c off" for c off
  proof -
    have "log_messages f fl = read_so_far f fl off @ messages_in f (drop off (file_bytes fl))"
      using that messages_in_append [of "take off (file_bytes fl)" f "drop off (file_bytes fl)"]
      by (simp add: log_messages_def read_so_far_def cursor_at_def)
    then show ?thesis by (simp add: reqs_append)
  qed
  have "\<exists>c off. cursor_at fl c off \<and> sv_log (snd s) = reqs (read_so_far f fl off)"
  proof (cases "pending (fst s) key")
    case None
    then show ?thesis
      using replay_inv_settledE [OF assms] by metis
  next
    case (Some p)
    then show ?thesis
      using assms unfolding replay_inv_def by (cases p) (simp only: option.case prod.case, blast)
  qed
  with pre show ?thesis by auto
qed

text \<open>Without failures the loop ends: each read but the last consumes bytes of the file.\<close>

lemma poll_loop_drains:
  assumes "source_ok f" "\<And>i. pe_file P i = fl" "\<And>i. pe_append P i = Append_done"
    and "cursor_at fl (from_of (get_cursor (fst s) (si_key D))) off" "settled (si_key D) s"
    and "sv_log (snd s) = reqs (read_so_far f fl off)"
    and "length (file_bytes fl) - off < fuel"
  shows "\<exists>a j s'. poll_loop fuel f D P i appended s = (Drained a, j, s')"
  using assms(4-7)
proof (induction fuel arbitrary: i appended s off)
  case 0
  then show ?case by simp
next
  case (Suc fuel)
  let ?key = "si_key D" and ?cur = "get_cursor (fst s) (si_key D)"
  have one: "\<And>l. length (line_messages f l) \<le> 1"
    using assms(1) by (simp add: source_ok_def)
  obtain ms n where
    rd: "read_messages f (Some fl) ?cur DEFAULT_READ_LIMIT = Ok (ms, byte_cursor (file_inode fl) (off + n))"
    and at: "cursor_at fl (byte_cursor (file_inode fl) (off + n)) (off + n)"
    and so: "read_so_far f fl (off + n) = read_so_far f fl off @ ms"
    and n: "ms \<noteq> [] \<longrightarrow> 0 < n" and len: "length ms \<le> BATCH"
    using read_batch [OF Suc.prems(1) one] by blast
  let ?c = "byte_cursor (file_inode fl) (off + n)"
  show ?case
  proof (cases "ms = []")
    case True
    then show ?thesis
      using rd assms(2) by (simp add: Let_def)
  next
    case False
    obtain r1 s1 where ab: "append_batch (pe_append P i) (si_sid D) ?key (si_locator D) (si_title D) ms
        (from_of ?cur) ?c s = (r1, s1)"
      by (metis prod.exhaust)
    note step = append_batch_step [OF Suc.prems(1-3) at so len ab]
    obtain added where r1: "r1 = Some added"
      using step(3) assms(3) by (cases r1) auto
    then have s1: "settled ?key s1" "get_cursor (fst s1) ?key = Some ?c" "replay_inv f fl ?key s1"
      using step(1,2) by auto
    have log: "sv_log (snd s1) = reqs (read_so_far f fl (off + n))"
    proof -
      obtain off1 where o: "cursor_at fl ?c off1" "sv_log (snd s1) = reqs (read_so_far f fl off1)"
        using replay_inv_settledE [OF s1(3,1)] s1(2) by auto
      have "off1 = off + n"
        using cursor_at_start [OF o(1)] cursor_at_start [OF at] by simp
      with o show ?thesis by simp
    qed
    have less: "length (file_bytes fl) - (off + n) < fuel"
      using Suc.prems(4) n False at by (auto simp: cursor_at_def)
    have "\<exists>a j s'. poll_loop fuel f D P (Suc i) (appended \<or> added > 0) s1 = (Drained a, j, s')"
      using Suc.IH [of s1 "off + n"] s1 at log less by auto
    then show ?thesis
      using rd False ab r1 assms(2) by (auto simp: Let_def)
  qed
qed

text \<open>The backfill loop keeps its cursor in a variable, the poll loop reads it from the store: they do
  the same to the store and to the server.\<close>

lemma append_batch_cursor:
  assumes "append_batch outcome sid key locator title ms from_c c s = (Some n, s')"
  shows "get_cursor (fst s') key = Some c"
proof -
  have "set_pending st key sid from_c c m b locator title key \<noteq> None" for st m b
    by (auto simp: set_pending_def ensure_row_def update_row_def split: option.splits)
  then show ?thesis
    using assms
    by (auto simp: append_batch_def Let_def advance_cursor_simps get_cursor_confirm
        split: if_splits prod.splits)
qed

lemma backfill_poll_state:
  assumes "cur = get_cursor (fst s) (si_key D)"
  shows "snd (snd (snd (backfill_loop fuel f D P i cur n s))) = snd (snd (poll_loop fuel f D P i a s))"
  using assms
proof (induction fuel arbitrary: i cur n s a)
  case 0
  then show ?case by simp
next
  case (Suc fuel)
  show ?case
  proof (cases "read_messages f (Some (pe_file P i)) cur DEFAULT_READ_LIMIT")
    case (Inl e)
    then show ?thesis using Suc.prems by simp
  next
    case (Inr v)
    obtain ms c where v: "v = (ms, c)" by (cases v)
    show ?thesis
    proof (cases "ms = []")
      case True
      then show ?thesis using Suc.prems Inr v by simp
    next
      case False
      obtain r s1 where ab: "append_batch (pe_append P i) (si_sid D) (si_key D) (si_locator D)
          (si_title D) ms (from_of cur) c s = (r, s1)"
        by (rule prod.exhaust)
      show ?thesis
      proof (cases r)
        case None
        then show ?thesis using Suc.prems Inr v False ab by simp
      next
        case (Some added)
        then have "get_cursor (fst s1) (si_key D) = Some c"
          using append_batch_cursor ab by blast
        then show ?thesis
          using Suc.prems Inr v False ab Some Suc.IH [of "Some c" s1] by simp
      qed
    qed
  qed
qed

section \<open>Properties\<close>

text \<open>C32. Replay never duplicates, skips or reorders a message. Over any history of polls, idle
  commits and kills, with appends that fail before or after they took effect, what the server has
  received is a prefix of the messages of the log, in the order of the log. The history must be
  orderly: the log only grows, the message count can be read when a poll starts with an open
  intent, and the commit of a shutdown that a failed append caused does not reach the server.\<close>

theorem ingest_no_duplicates:
  assumes "orderly fl ops fl'" "source_ok f" "new_session (si_key D) w"
  shows "prefix (sv_log (snd (po_state (ingest_run f D ops w)))) (reqs (log_messages f fl'))"
  using ingest_run_inv [OF assms(1,2) new_session_inv [OF assms(3)]]
  by (auto simp: history_inv_def intro: replay_inv_prefix)

definition sample_turn :: norm_message where
  "sample_turn = \<lparr>nm_role = ''user'', nm_text = ''hi'', nm_parts = [], nm_created_at = PNone,
     nm_peer_id = None, nm_meta = []\<rparr>"

definition sample_messages :: "bytes \<Rightarrow> norm_message list" where
  "sample_messages line = [sample_turn]"

definition sample_log :: "bytes \<Rightarrow> log_file" where
  "sample_log bs = \<lparr>file_inode = 7, file_bytes = bs\<rparr>"

definition sample_session :: session_id where
  "sample_session = \<lparr>si_key = (''claude_code'', ''s1''), si_sid = ''import__claude_code__s1'',
     si_locator = None, si_title = None, si_keep = 0, si_threshold = 6000\<rparr>"

definition sample_commit :: "int \<Rightarrow> commit_env" where
  "sample_commit p = \<lparr>ce_pending = Some p, ce_outcome = Commit_done, ce_now = ''now''\<rparr>"

definition sample_poll :: "bytes \<Rightarrow> bool \<Rightarrow> append_outcome \<Rightarrow> poll_env" where
  "sample_poll bs readable outcome =
     \<lparr>pe_file = (\<lambda>i. sample_log bs), pe_append = (\<lambda>i. outcome), pe_readable = readable,
      pe_commit = sample_commit 5\<rparr>"

definition new_poller :: poller where
  "new_poller = \<lparr>po_state = (Map.empty, \<lparr>sv_live = None, sv_log = []\<rparr>), po_dirty = False\<rparr>"

definition sample_request :: pydict where
  "sample_request = [(''role'', PStr ''user''),
     (''parts'', PList [PDict [(''type'', PStr ''text''), (''text'', PStr ''hi'')]]),
     (''content'', PStr ''hi'')]"

lemma sample_turn_request: "to_add_message_request sample_turn = Some sample_request"
  by (simp add: to_add_message_request_def sample_turn_def sample_request_def py_strip_def
      py_lstrip_def py_rstrip_def py_isspace_def safe_peer_id_def normalize_peer_id_def
      normalize_identifier_part_def Let_def)

lemma sample_source_ok: "source_ok sample_messages"
  by (simp add: source_ok_def line_messages_def sample_messages_def Let_def)

lemma sample_new: "new_session (si_key sample_session) new_poller"
  by (simp add: new_session_def new_poller_def)

lemma sample_poll_ok: "poll_ok (sample_log bs) (sample_poll bs True outcome)"
  by (simp add: poll_ok_def sample_poll_def grows_refl)

lemma sample_orderly:
  "orderly (sample_log bs) [Op_poll 3 (sample_poll bs True (Append_fails 1)) (sample_commit 0),
     Op_killed, Op_poll 3 (sample_poll bs True Append_done) (sample_commit 0)] (sample_log bs)"
  by (intro orderly_poll [where fl' = "sample_log bs"] orderly_killed orderly_Nil sample_poll_ok)
    (simp_all add: quiet_def sample_commit_def sample_poll_def grows_refl)

lemma sample_log_messages: "log_messages sample_messages (sample_log [65, 10]) = [sample_turn]"
  by (simp add: log_messages_def messages_in_def sample_log_def lines_of.simps NL_def
      line_messages_def sample_messages_def bytes_strip_def byte_space_def)

theorem ingest_no_duplicates_witness:
  "prefix (sv_log (snd (po_state (ingest_run sample_messages sample_session
      [Op_poll 3 (sample_poll [65, 10] True (Append_fails 1)) (sample_commit 0), Op_killed,
       Op_poll 3 (sample_poll [65, 10] True Append_done) (sample_commit 0)] new_poller))))
     [sample_request]"
  using ingest_no_duplicates [OF sample_orderly sample_source_ok sample_new, of "[65, 10]"]
  by (simp add: sample_log_messages sample_turn_request)

text \<open>C33. Replay catches up: after any orderly history, a poll of a log that does not change, in
  which no append fails, ends, and the server then has exactly the messages of the log, each once
  and in order. As many iterations as the file has bytes, and one more, are enough.\<close>

theorem ingest_catches_up:
  assumes "orderly fl ops fl'" "source_ok f" "new_session (si_key D) w"
    and "pe_readable P" "\<And>i. pe_append P i = Append_done" "\<And>i. pe_file P i = fl''" "grows fl' fl''"
    and "length (file_bytes fl'') < fuel" "ce_pending (pe_commit P) = Some p" "ce_outcome (pe_commit P) = Commit_done"
  shows "\<exists>a i w'. poll_session fuel f D P (ingest_run f D ops w) = (Drained a, i, w') \<and>
    sv_log (snd (po_state w')) = reqs (log_messages f fl'')"
proof -
  let ?w = "ingest_run f D ops w" and ?key = "si_key D"
  have ok: "poll_ok fl' P"
    using assms(4,6,7) by (simp add: poll_ok_def grows_refl)
  have inv: "replay_inv f fl' ?key (po_state ?w)"
    using ingest_run_inv [OF assms(1,2) new_session_inv [OF assms(3)]] by (simp add: history_inv_def)
  have s: "replay_inv f fl'' ?key (reconcile True ?key (po_state ?w))"
    "settled ?key (reconcile True ?key (po_state ?w))"
    using reconcile_settles [OF replay_inv_grows [OF inv assms(7)]] by blast+
  obtain off where off: "cursor_at fl'' (from_of (get_cursor (fst (reconcile True ?key (po_state ?w))) ?key)) off"
    "sv_log (snd (reconcile True ?key (po_state ?w))) = reqs (read_so_far f fl'' off)"
    using s by (rule replay_inv_settledE)
  obtain a j s' where loop: "poll_loop fuel f D P 0 False (reconcile True ?key (po_state ?w)) = (Drained a, j, s')"
    using poll_loop_drains [OF assms(2,6,5) off(1) s(2) off(2)] assms(8) by fastforce
  obtain c t where commit: "maybe_commit_on_threshold (Some p) Commit_done (ce_now (pe_commit P))
      (si_threshold D) (si_keep D) ?key s' = (Some c, t)"
    by (cases "p < si_threshold D") (auto simp: maybe_commit_on_threshold_def client_commit_def)
  have "\<exists>i w'. poll_session fuel f D P ?w = (Drained a, i, w')"
    using loop assms(4,9,10) commit by (simp add: poll_session_def Let_def)
  then obtain i w' where run: "poll_session fuel f D P ?w = (Drained a, i, w')" by blast
  then show ?thesis
    using poll_session_inv [OF assms(2) ok inv run] assms(6) by auto
qed

theorem ingest_catches_up_witness:
  "\<exists>a i w'. poll_session 3 sample_messages sample_session
      (sample_poll [65, 10] True Append_done) new_poller = (Drained a, i, w') \<and>
    sv_log (snd (po_state w')) = [sample_request]"
  using ingest_catches_up [OF orderly_Nil sample_source_ok sample_new, of
      "sample_poll [65, 10] True Append_done" "sample_log [65, 10]"
      "sample_log [65, 10]" 3]
  by (simp add: sample_poll_def sample_commit_def grows_refl sample_session_def ingest_run_def
      sample_log_messages sample_turn_request) (simp add: sample_log_def)

lemma sample_start:
  "start_offset (sample_log bs) (cursor_zero BYTE_OFFSET) = Ok 0"
  "n \<le> length bs \<Longrightarrow> start_offset (sample_log bs) (byte_cursor 7 n) = Ok n"
  by (simp_all add: start_offset_def sample_log_def byte_cursor_def cursor_zero_def
      dict_get_default_def dict_get_def)

lemma sample_take:
  "take_until sample_messages 100 [] (lines_of [65, 10]) = [[65, 10]]"
  "take_until sample_messages 100 [] (lines_of [66, 10]) = [[66, 10]]"
  "take_until sample_messages 100 [] (lines_of []) = []"
  "line_messages sample_messages [65, 10] = [sample_turn]"
  "line_messages sample_messages [66, 10] = [sample_turn]"
  by (simp_all add: lines_of.simps NL_def line_messages_def sample_messages_def bytes_strip_def
      byte_space_def)

lemma sample_reads:
  "read_messages sample_messages (Some (sample_log [65, 10])) None 100 = Ok ([sample_turn], byte_cursor 7 2)"
  "read_messages sample_messages (Some (sample_log [65, 10])) (Some (cursor_zero BYTE_OFFSET)) 100
   = Ok ([sample_turn], byte_cursor 7 2)"
  "read_messages sample_messages (Some (sample_log [65, 10])) (Some (byte_cursor 7 2)) 100
   = Ok ([], byte_cursor 7 2)"
  "read_messages sample_messages (Some (sample_log [65, 10, 66, 10])) (Some (byte_cursor 7 2)) 100
   = Ok ([sample_turn], byte_cursor 7 4)"
  "read_messages sample_messages (Some (sample_log [65, 10, 66, 10])) (Some (byte_cursor 7 4)) 100
   = Ok ([], byte_cursor 7 4)"
proof -
  have read: "read_messages sample_messages (Some (sample_log bs)) co 100 =
      Ok (concat (map (line_messages sample_messages) ls), byte_cursor 7 (start + length (concat ls)))"
    if "start_offset (sample_log bs) (from_of co) = Ok start"
      "take_until sample_messages 100 [] (lines_of (drop start bs)) = ls" for bs co start ls
    using read_messages_lines [of 100 "sample_log bs" co start ls sample_messages] that
    by (simp add: sample_log_def)
  show "read_messages sample_messages (Some (sample_log [65, 10])) None 100
      = Ok ([sample_turn], byte_cursor 7 2)"
    "read_messages sample_messages (Some (sample_log [65, 10])) (Some (cursor_zero BYTE_OFFSET)) 100
      = Ok ([sample_turn], byte_cursor 7 2)"
    using read [of "[65, 10]" _ 0 "[[65, 10]]"]
    by (simp_all add: sample_start sample_take numeral_2_eq_2)
  show "read_messages sample_messages (Some (sample_log [65, 10])) (Some (byte_cursor 7 2)) 100
      = Ok ([], byte_cursor 7 2)"
    using read [of "[65, 10]" "Some (byte_cursor 7 2)" 2 "[]"]
    by (simp add: sample_start sample_take)
  show "read_messages sample_messages (Some (sample_log [65, 10, 66, 10])) (Some (byte_cursor 7 2)) 100
      = Ok ([sample_turn], byte_cursor 7 4)"
    using read [of "[65, 10, 66, 10]" "Some (byte_cursor 7 2)" 2 "[[66, 10]]"]
    by (simp add: sample_start sample_take)
  show "read_messages sample_messages (Some (sample_log [65, 10, 66, 10])) (Some (byte_cursor 7 4)) 100
      = Ok ([], byte_cursor 7 4)"
    using read [of "[65, 10, 66, 10]" "Some (byte_cursor 7 4)" 4 "[]"]
    by (simp add: sample_start sample_take)
qed

lemma sample_cursor_simps:
  "cur_kind (cursor_zero BYTE_OFFSET) = BYTE_OFFSET" "cur_kind (byte_cursor i n) = BYTE_OFFSET"
  "\<lparr>cur_kind = BYTE_OFFSET, cur_value = cur_value (byte_cursor i n)\<rparr> = byte_cursor i n"
  "\<lparr>cur_kind = BYTE_OFFSET, cur_value = cur_value (cursor_zero BYTE_OFFSET)\<rparr> = cursor_zero BYTE_OFFSET"
  by (simp_all add: byte_cursor_def cursor_zero_def)

lemma sample_batches: "batches BATCH [q] = [[q]]"
  by (simp add: batches.simps BATCH_def)

lemmas sample_run_defs =
  ingest_run_def ingest_step_def poll_session_def numeral_3_eq_3 Let_def sample_poll_def
  sample_session_def sample_commit_def new_poller_def DEFAULT_READ_LIMIT_def get_cursor_def
  append_batch_def sample_turn_request sample_batches reconcile_def flush_all_def
  commit_if_needed_def maybe_commit_on_threshold_def client_commit_def commit_session_def
  set_pending_def ensure_row_def update_row_def initial_row_def confirm_append_def
  clear_pending_def mark_committed_def message_count_def ensure_session_def
  batch_add_messages_def row_cursor_def row_pending_cursor_def coalesce_def sample_cursor_simps

text \<open>A failed read of the message count makes replay duplicate a batch. The append lands but
  its response is lost; at the next start the count cannot be read, so \<open>reconcile\<close> keeps the intent,
  but the poll goes on, reads the same messages from the confirmed cursor and appends them a second
  time. The log has one message, the server receives two.\<close>

theorem unreadable_reconcile_duplicates:
  "reqs (log_messages sample_messages (sample_log [65, 10])) = [sample_request] \<and>
   sv_log (snd (po_state (ingest_run sample_messages sample_session
     [Op_poll 3 (sample_poll [65, 10] True (Append_fails 1)) (sample_commit 0),
      Op_poll 3 (sample_poll [65, 10] False Append_done) (sample_commit 0)] new_poller)))
   = [sample_request, sample_request]"
  by (simp add: sample_run_defs sample_reads sample_log_messages)

text \<open>The commit of a shutdown can make replay duplicate a batch. The session is dirty from an
  earlier poll; the append of the next batch lands but its response is lost, the poll raises, and
  the \<^verbatim>\<open>finally\<close> clause commits the session, which archives its live messages. At the next start the
  message count is below the baseline of the intent, so \<open>reconcile\<close> concludes that the batch did not
  land, and it is appended again. The log has two messages, the server receives three.\<close>

theorem shutdown_commit_duplicates:
  "sv_log (snd (po_state (ingest_run sample_messages sample_session
     [Op_poll 3 (sample_poll [65, 10] True Append_done) (sample_commit 0),
      Op_poll 3 (sample_poll [65, 10, 66, 10] True (Append_fails 1)) (sample_commit 9),
      Op_poll 3 (sample_poll [65, 10, 66, 10] True Append_done) (sample_commit 0)] new_poller)))
   = [sample_request, sample_request, sample_request] \<and>
   reqs (log_messages sample_messages (sample_log [65, 10, 66, 10])) = [sample_request, sample_request]"
  apply (rule conjI)
  subgoal by (simp add: sample_run_defs sample_reads)
  subgoal by (simp add: log_messages_def messages_in_def sample_log_def lines_of.simps NL_def
      line_messages_def sample_messages_def bytes_strip_def byte_space_def sample_turn_request)
  done

text \<open>A backfill without reset does to the cursor store and to the server what a poll does with
  the same outcomes, up to the commit at its end: the two loops, one with the cursor in a variable
  and one that reads it back from the store after every batch, leave the same state.\<close>

theorem backfill_equals_poll:
  "snd (snd (snd (backfill_loop fuel f D P i (get_cursor (fst s) (si_key D)) n s)))
   = snd (snd (poll_loop fuel f D P i a s))"
  by (rule backfill_poll_state) simp

end
