(* ===== verification/Task_Work.thy ===== *)
theory Task_Work
  imports PyValue
begin

text \<open>
  Queue work owned by tasks: \<^verbatim>\<open>service/task_work_index.py\<close> and the life of a message in
  \<^verbatim>\<open>storage/queuefs/named_queue.py\<close>. The first part is the metadata a queue payload carries and how it
  is read back from a stored message; the second the runtime index, a dictionary from tasks to sets
  of work entries, with every method; the third the interleaving of enqueues, deliveries, acknowledgements and restarts over the durable queue, whose behaviour
  (delivery marks a message, an acknowledgement deletes it, a restart returns unacknowledged messages)
  is what \<^verbatim>\<open>named_queue.py\<close> documents of its backend.

  The JSON decoder and \<^verbatim>\<open>str\<close> of a value are parameters.
\<close>

section \<open>Task metadata\<close>

record task_metadata =
  md_task_id :: string
  md_work_id :: string
  md_account_id :: string
  md_user_id :: string

record task_context =
  tc_task_id :: string
  tc_account_id :: string
  tc_user_id :: string

definition TASK_WORK_ID_FIELD :: string where
  "TASK_WORK_ID_FIELD = ''_task_work_id''"

text \<open>\<^verbatim>\<open>a or b\<close>, and \<^verbatim>\<open>str(a or "")\<close>.\<close>

definition py_or :: "pyval \<Rightarrow> pyval \<Rightarrow> pyval" where
  "py_or a b = (if py_bool a then a else b)"

definition str_or_empty :: "(pyval \<Rightarrow> string) \<Rightarrow> pyval \<Rightarrow> string" where
  "str_or_empty str v = (if py_bool v then (case v of PStr s \<Rightarrow> s | _ \<Rightarrow> str v) else [])"

definition payload_dict :: "(string \<Rightarrow> pyval option) \<Rightarrow> pyval \<Rightarrow> pydict option" where
  "payload_dict loads message =
     (case message of
        PDict d \<Rightarrow>
          (case dict_get_default d ''data'' message of
             PStr s \<Rightarrow> (case loads s of Some (PDict p) \<Rightarrow> Some p | _ \<Rightarrow> None)
           | PDict p \<Rightarrow> Some p
           | _ \<Rightarrow> None)
      | _ \<Rightarrow> None)"

definition owner_from_payload :: "(pyval \<Rightarrow> string) \<Rightarrow> pydict \<Rightarrow> string \<times> string" where
  "owner_from_payload str payload =
     (let account_id = dict_get payload ''account_id'';
          user_id = dict_get payload ''user_id'';
          (account_id, user_id) =
            (case dict_get payload ''user'' of
               PDict u \<Rightarrow> (py_or account_id (dict_get u ''account_id''), py_or user_id (dict_get u ''user_id''))
             | _ \<Rightarrow> (account_id, user_id));
          (account_id, user_id) =
            (case dict_get payload ''context_data'' of
               PDict c \<Rightarrow> (py_or account_id (dict_get c ''account_id''),
                           py_or user_id (dict_get c ''owner_user_id''))
             | _ \<Rightarrow> (account_id, user_id))
      in (str_or_empty str account_id, str_or_empty str user_id))"

definition setdefault :: "pydict \<Rightarrow> string \<Rightarrow> pyval \<Rightarrow> pydict" where
  "setdefault d k v = (case map_of d k of None \<Rightarrow> d @ [(k, v)] | Some _ \<Rightarrow> d)"

definition str_or :: "string \<Rightarrow> string \<Rightarrow> string" where
  "str_or a b = (if a \<noteq> [] then a else b)"

definition prepare_task_payload :: "(pyval \<Rightarrow> string) \<Rightarrow> string \<Rightarrow> task_context option \<Rightarrow> pydict
    \<Rightarrow> pydict \<times> task_metadata option" where
  "prepare_task_payload str uuid current payload =
     (let task_id = str_or (str_or_empty str (dict_get payload ''task_id''))
                      (case current of None \<Rightarrow> [] | Some c \<Rightarrow> tc_task_id c)
      in if task_id = [] then (payload, None)
         else
           let (account_id, user_id) = owner_from_payload str payload;
               (account_id, user_id) =
                 (case current of
                    Some c \<Rightarrow> if tc_task_id c = task_id
                              then (str_or account_id (tc_account_id c), str_or user_id (tc_user_id c))
                              else (account_id, user_id)
                  | None \<Rightarrow> (account_id, user_id));
               work_id = str_or (str_or_empty str (dict_get payload TASK_WORK_ID_FIELD)) uuid;
               payload1 = dict_set (dict_set payload ''task_id'' (PStr task_id))
                            TASK_WORK_ID_FIELD (PStr work_id);
               payload2 = (if account_id \<noteq> [] \<and> user_id \<noteq> []
                           then setdefault (setdefault payload1 ''account_id'' (PStr account_id))
                                  ''user_id'' (PStr user_id)
                           else payload1)
           in (payload2, Some \<lparr>md_task_id = task_id, md_work_id = work_id,
                               md_account_id = account_id, md_user_id = user_id\<rparr>))"

definition extract_task_metadata :: "(string \<Rightarrow> pyval option) \<Rightarrow> (pyval \<Rightarrow> string) \<Rightarrow> pyval
    \<Rightarrow> task_metadata option" where
  "extract_task_metadata loads str message =
     (case payload_dict loads message of
        None \<Rightarrow> None
      | Some payload \<Rightarrow>
          let task_id = str_or_empty str (dict_get payload ''task_id'');
              own = str_or_empty str (dict_get payload TASK_WORK_ID_FIELD);
              work_id = (if own \<noteq> [] then own
                         else case message of
                                PDict d \<Rightarrow>
                                  if map_of d ''data'' \<noteq> None \<and> py_bool (dict_get d ''id'')
                                  then ''queuefs:'' @ str_or_empty str (dict_get d ''id'')
                                  else []
                              | _ \<Rightarrow> [])
          in if task_id = [] \<or> work_id = [] then None
             else let (account_id, user_id) = owner_from_payload str payload
                  in Some \<lparr>md_task_id = task_id, md_work_id = work_id,
                           md_account_id = account_id, md_user_id = user_id\<rparr>)"

section \<open>The runtime index\<close>

type_synonym work_entry = "string \<times> string"

record task_work_index =
  tw_work :: "string \<rightharpoonup> work_entry set"
  tw_active :: "string \<rightharpoonup> nat set"
  tw_failures :: "string \<rightharpoonup> string"

definition TaskWorkIndex :: task_work_index where
  "TaskWorkIndex = \<lparr>tw_work = Map.empty, tw_active = Map.empty, tw_failures = Map.empty\<rparr>"

text \<open>\<^verbatim>\<open>d.setdefault(k, set()).add(x)\<close>, and \<^verbatim>\<open>discard\<close> with the removal of an empty set.\<close>

definition add_entry :: "('k \<rightharpoonup> 'v set) \<Rightarrow> 'k \<Rightarrow> 'v \<Rightarrow> ('k \<rightharpoonup> 'v set)" where
  "add_entry m k x = m(k \<mapsto> insert x (case m k of None \<Rightarrow> {} | Some s \<Rightarrow> s))"

definition discard_entry :: "('k \<rightharpoonup> 'v set) \<Rightarrow> 'k \<Rightarrow> 'v \<Rightarrow> ('k \<rightharpoonup> 'v set)" where
  "discard_entry m k x =
     (case m k of None \<Rightarrow> m | Some s \<Rightarrow> if s - {x} = {} then m(k := None) else m(k \<mapsto> s - {x}))"

definition entries :: "('k \<rightharpoonup> 'v set) \<Rightarrow> 'k \<Rightarrow> 'v set" where
  "entries m k = (case m k of None \<Rightarrow> {} | Some s \<Rightarrow> s)"

text \<open>\<open>meta_of\<close> is \<open>extract_task_metadata\<close> on the stored messages; the owners it also returns feed
  the task records.\<close>

definition rebuild_step :: "('m \<Rightarrow> task_metadata option) \<Rightarrow> (string \<rightharpoonup> work_entry set) \<times> (string \<rightharpoonup> string \<times> string)
    \<Rightarrow> string \<times> 'm \<Rightarrow> (string \<rightharpoonup> work_entry set) \<times> (string \<rightharpoonup> string \<times> string)" where
  "rebuild_step meta_of acc qm =
     (case meta_of (snd qm) of
        None \<Rightarrow> acc
      | Some m \<Rightarrow>
          (add_entry (fst acc) (md_task_id m) (fst qm, md_work_id m),
           if md_account_id m \<noteq> [] \<and> md_user_id m \<noteq> []
           then (snd acc)(md_task_id m \<mapsto> (md_account_id m, md_user_id m)) else snd acc))"

definition rebuild :: "('m \<Rightarrow> task_metadata option) \<Rightarrow> (string \<times> 'm) list \<Rightarrow> task_work_index
    \<Rightarrow> task_work_index \<times> (string \<rightharpoonup> string \<times> string)" where
  "rebuild meta_of snapshots idx =
     (let (work, owners) = foldl (rebuild_step meta_of) (Map.empty, Map.empty) snapshots
      in (idx\<lparr>tw_work := work, tw_failures := Map.empty\<rparr>, owners))"

definition register :: "(string \<Rightarrow> bool) \<Rightarrow> task_work_index \<Rightarrow> string \<Rightarrow> task_metadata option
    \<Rightarrow> bool \<times> task_work_index" where
  "register cancelled idx queue_name metadata =
     (case metadata of
        None \<Rightarrow> (True, idx)
      | Some m \<Rightarrow>
          if cancelled (md_task_id m) then (False, idx)
          else (True, idx\<lparr>tw_work := add_entry (tw_work idx) (md_task_id m) (queue_name, md_work_id m)\<rparr>))"

definition remove_work :: "task_work_index \<Rightarrow> string \<Rightarrow> task_metadata \<Rightarrow> bool \<times> bool \<times> task_work_index" where
  "remove_work idx queue_name m =
     (let entry = (queue_name, md_work_id m);
          removed = entry \<in> entries (tw_work idx) (md_task_id m);
          idx' = idx\<lparr>tw_work := discard_entry (tw_work idx) (md_task_id m) entry\<rparr>;
          became_idle = removed \<and> entries (tw_work idx') (md_task_id m) = {} \<and>
                        entries (tw_active idx') (md_task_id m) = {}
      in (removed, became_idle, idx'))"

definition rollback_ack :: "task_work_index \<Rightarrow> string \<Rightarrow> task_metadata \<Rightarrow> task_work_index" where
  "rollback_ack idx queue_name m =
     idx\<lparr>tw_work := add_entry (tw_work idx) (md_task_id m) (queue_name, md_work_id m)\<rparr>"

text \<open>\<open>prepare_ack\<close>: \<open>finalize\<close> is the outcome of the callback, \<open>None\<close> when it is not set. The result
  is the metadata to roll back if the acknowledgement fails, whether the callback ran, and the
  index.\<close>

definition prepare_ack :: "unit res option \<Rightarrow> task_work_index \<Rightarrow> string \<Rightarrow> task_metadata option
    \<Rightarrow> task_metadata option res \<times> bool \<times> task_work_index" where
  "prepare_ack finalize idx queue_name metadata =
     (case metadata of
        None \<Rightarrow> (Ok None, False, idx)
      | Some m \<Rightarrow>
          (case remove_work idx queue_name m of
             (removed, became_idle, idx') \<Rightarrow>
               if \<not> removed then (Ok None, False, idx')
               else if \<not> became_idle then (Ok (Some m), False, idx')
               else case finalize of
                      None \<Rightarrow> (Ok (Some m), False, idx')
                    | Some (Inr _) \<Rightarrow> (Ok (Some m), True, idx')
                    | Some (Inl e) \<Rightarrow> (Raise e, True, rollback_ack idx' queue_name m)))"

definition discard :: "task_work_index \<Rightarrow> string \<Rightarrow> task_metadata option \<Rightarrow> bool \<times> task_work_index" where
  "discard idx queue_name metadata =
     (case metadata of
        None \<Rightarrow> (False, idx)
      | Some m \<Rightarrow> (case remove_work idx queue_name m of (_, became_idle, idx') \<Rightarrow> (became_idle, idx')))"

definition has_work :: "task_work_index \<Rightarrow> string \<Rightarrow> string option \<Rightarrow> bool" where
  "has_work idx task_id exclude =
     (case exclude of
        Some w \<Rightarrow> (\<exists>e \<in> entries (tw_work idx) task_id. snd e \<noteq> w)
      | None \<Rightarrow> entries (tw_work idx) task_id \<noteq> {} \<or> entries (tw_active idx) task_id \<noteq> {})"

definition record_failure_of :: "task_work_index \<Rightarrow> string \<Rightarrow> string \<Rightarrow> task_work_index" where
  "record_failure_of idx task_id error =
     (case tw_failures idx task_id of
        None \<Rightarrow> idx\<lparr>tw_failures := (tw_failures idx)(task_id \<mapsto> error)\<rparr>
      | Some _ \<Rightarrow> idx)"

definition clear_failure :: "task_work_index \<Rightarrow> string \<Rightarrow> task_work_index" where
  "clear_failure idx task_id = idx\<lparr>tw_failures := (tw_failures idx)(task_id := None)\<rparr>"

text \<open>\<open>register_active\<close> returns whether the asyncio task is to be cancelled at once.\<close>

definition register_active :: "(string \<Rightarrow> bool) \<Rightarrow> task_work_index \<Rightarrow> string \<Rightarrow> nat \<Rightarrow> bool \<times> task_work_index" where
  "register_active cancelled idx task_id handler =
     (if cancelled task_id then (True, idx)
      else (False, idx\<lparr>tw_active := add_entry (tw_active idx) task_id handler\<rparr>))"

definition unregister_active :: "task_work_index \<Rightarrow> string \<Rightarrow> nat \<Rightarrow> task_work_index" where
  "unregister_active idx task_id handler =
     idx\<lparr>tw_active := discard_entry (tw_active idx) task_id handler\<rparr>"

section \<open>Messages in flight\<close>

text \<open>The durable queue holds messages by identifier, with their queue and whether they are delivered.
  The rest of the state is what is under way in the process: registered enqueues that are not
  written yet, deliveries whose handler runs or has returned, acknowledgements that are prepared, and
  the tasks whose finalizer ran. A finalizer that fails ran too.\<close>

record 'm queue_sys =
  qs_index :: task_work_index
  qs_durable :: "nat \<rightharpoonup> string \<times> 'm \<times> bool"
  qs_enqueuing :: "(string \<times> task_metadata) set"
  qs_running :: "nat set"
  qs_handled :: "nat set"
  qs_acking :: "nat \<rightharpoonup> task_metadata option"
  qs_finalized :: "string list"

definition new_sys :: "'m queue_sys" where
  "new_sys = \<lparr>qs_index = TaskWorkIndex, qs_durable = Map.empty, qs_enqueuing = {}, qs_running = {}, qs_handled = {},
     qs_acking = Map.empty, qs_finalized = []\<rparr>"

text \<open>Work identifiers are fresh UUIDs.\<close>

definition fresh_work :: "('m \<Rightarrow> task_metadata option) \<Rightarrow> 'm queue_sys \<Rightarrow> string \<Rightarrow> bool" where
  "fresh_work meta_of s w \<longleftrightarrow>
     (\<forall>i q b p m. qs_durable s i = Some (q, b, p) \<and> meta_of b = Some m \<longrightarrow> md_work_id m \<noteq> w) \<and>
     (\<forall>q m. (q, m) \<in> qs_enqueuing s \<longrightarrow> md_work_id m \<noteq> w)"

definition lists_durable :: "'m queue_sys \<Rightarrow> (string \<times> 'm) list \<Rightarrow> bool" where
  "lists_durable s snapshots \<longleftrightarrow> set snapshots = {(q, b). \<exists>i p. qs_durable s i = Some (q, b, p)}"

text \<open>The answer of the cancellation callback may change from step to step, so that each rule takes any
  answer. A handler that raises leaves its message delivered, without an acknowledgement.\<close>

inductive queue_step :: "('m \<Rightarrow> task_metadata option) \<Rightarrow> 'm queue_sys \<Rightarrow> 'm queue_sys \<Rightarrow> bool"
  for meta_of where
  enqueue_register:
    "\<lbrakk>register cancelled (qs_index s) q (Some m) = (True, idx); fresh_work meta_of s (md_work_id m)\<rbrakk>
     \<Longrightarrow> queue_step meta_of s
           (s\<lparr>qs_index := idx, qs_enqueuing := insert (q, m) (qs_enqueuing s)\<rparr>)"
| enqueue_write:
    "\<lbrakk>(q, m) \<in> qs_enqueuing s; meta_of b = Some m; qs_durable s i = None\<rbrakk>
     \<Longrightarrow> queue_step meta_of s
           (s\<lparr>qs_durable := (qs_durable s)(i \<mapsto> (q, b, False)),
              qs_enqueuing := qs_enqueuing s - {(q, m)}\<rparr>)"
| enqueue_untracked:
    "\<lbrakk>meta_of b = None; qs_durable s i = None\<rbrakk>
     \<Longrightarrow> queue_step meta_of s (s\<lparr>qs_durable := (qs_durable s)(i \<mapsto> (q, b, False))\<rparr>)"
| enqueue_fails:
    "\<lbrakk>(q, m) \<in> qs_enqueuing s; discard (qs_index s) q (Some m) = (idle, idx)\<rbrakk>
     \<Longrightarrow> queue_step meta_of s
           (s\<lparr>qs_index := idx, qs_enqueuing := qs_enqueuing s - {(q, m)},
              qs_finalized := qs_finalized s @ (if idle then [md_task_id m] else [])\<rparr>)"
| deliver:
    "\<lbrakk>qs_durable s i = Some (q, b, False);
      idx = (case meta_of b of None \<Rightarrow> qs_index s
             | Some m \<Rightarrow> snd (register_active cancelled (qs_index s) (md_task_id m) i))\<rbrakk>
     \<Longrightarrow> queue_step meta_of s
           (s\<lparr>qs_index := idx, qs_durable := (qs_durable s)(i \<mapsto> (q, b, True)),
              qs_running := insert i (qs_running s)\<rparr>)"
| handler_ends:
    "\<lbrakk>i \<in> qs_running s; qs_durable s i = Some (q, b, True);
      idx = (case meta_of b of None \<Rightarrow> qs_index s
             | Some m \<Rightarrow> unregister_active (qs_index s) (md_task_id m) i)\<rbrakk>
     \<Longrightarrow> queue_step meta_of s
           (s\<lparr>qs_index := idx, qs_running := qs_running s - {i},
              qs_handled := (if raised then qs_handled s else insert i (qs_handled s))\<rparr>)"
| ack_prepare:
    "\<lbrakk>i \<in> qs_handled s; qs_durable s i = Some (q, b, True);
      prepare_ack finalize (qs_index s) q (meta_of b) = (Inr r, called, idx)\<rbrakk>
     \<Longrightarrow> queue_step meta_of s
           (s\<lparr>qs_index := idx, qs_handled := qs_handled s - {i}, qs_acking := (qs_acking s)(i \<mapsto> r),
              qs_finalized := qs_finalized s @
                (if called then map md_task_id (case meta_of b of None \<Rightarrow> [] | Some m \<Rightarrow> [m]) else [])\<rparr>)"
| ack_prepare_fails:
    "\<lbrakk>i \<in> qs_handled s; qs_durable s i = Some (q, b, True);
      prepare_ack finalize (qs_index s) q (meta_of b) = (Inl e, called, idx)\<rbrakk>
     \<Longrightarrow> queue_step meta_of s
           (s\<lparr>qs_index := idx, qs_handled := qs_handled s - {i},
              qs_finalized := qs_finalized s @
                (if called then map md_task_id (case meta_of b of None \<Rightarrow> [] | Some m \<Rightarrow> [m]) else [])\<rparr>)"
| ack_written:
    "\<lbrakk>qs_acking s i = Some r; qs_durable s i = Some (q, b, p)\<rbrakk>
     \<Longrightarrow> queue_step meta_of s
           (s\<lparr>qs_durable := (qs_durable s)(i := None), qs_acking := (qs_acking s)(i := None)\<rparr>)"
| ack_write_fails:
    "\<lbrakk>qs_acking s i = Some r; qs_durable s i = Some (q, b, p);
      idx = (case r of None \<Rightarrow> qs_index s | Some m \<Rightarrow> rollback_ack (qs_index s) q m)\<rbrakk>
     \<Longrightarrow> queue_step meta_of s
           (s\<lparr>qs_index := idx, qs_acking := (qs_acking s)(i := None)\<rparr>)"
| restart:
    "lists_durable s snapshots
     \<Longrightarrow> queue_step meta_of s
           (s\<lparr>qs_index := fst (rebuild meta_of snapshots TaskWorkIndex),
              qs_durable := (\<lambda>i. map_option (\<lambda>(q, b, p). (q, b, False)) (qs_durable s i)),
              qs_enqueuing := {}, qs_running := {}, qs_handled := {}, qs_acking := Map.empty\<rparr>)"

inductive queue_reachable :: "('m \<Rightarrow> task_metadata option) \<Rightarrow> 'm queue_sys \<Rightarrow> bool"
  for meta_of where
  reach_new: "queue_reachable meta_of new_sys"
| reach_step: "\<lbrakk>queue_reachable meta_of s; queue_step meta_of s s'\<rbrakk>
    \<Longrightarrow> queue_reachable meta_of s'"

section \<open>The index and the queue\<close>

text \<open>The work that is neither done nor being acknowledged: durable messages without a prepared
  acknowledgement, and registered enqueues.\<close>

definition live :: "('m \<Rightarrow> task_metadata option) \<Rightarrow> 'm queue_sys \<Rightarrow> string \<Rightarrow> task_metadata \<Rightarrow> bool" where
  "live meta_of s q m \<longleftrightarrow>
     (\<exists>i b p. qs_durable s i = Some (q, b, p) \<and> meta_of b = Some m \<and> qs_acking s i = None) \<or>
     (q, m) \<in> qs_enqueuing s"

definition index_exact :: "('m \<Rightarrow> task_metadata option) \<Rightarrow> 'm queue_sys \<Rightarrow> bool" where
  "index_exact meta_of s \<longleftrightarrow>
     (\<forall>t e. e \<in> entries (tw_work (qs_index s)) t \<longleftrightarrow>
        (\<exists>m. live meta_of s (fst e) m \<and> md_task_id m = t \<and> md_work_id m = snd e)) \<and>
     (\<forall>t. tw_work (qs_index s) t \<noteq> Some {})"

text \<open>Work identifiers name one message or enqueue: \<open>carries s w c\<close> says that the durable message or
  the enqueue \<open>c\<close> has the identifier \<open>w\<close>.\<close>

definition work_of :: "('m \<Rightarrow> task_metadata option) \<Rightarrow> string \<times> 'm \<times> bool \<Rightarrow> string option" where
  "work_of meta_of d = map_option md_work_id (meta_of (fst (snd d)))"

definition carries :: "('m \<Rightarrow> task_metadata option) \<Rightarrow> 'm queue_sys \<Rightarrow> string
    \<Rightarrow> nat + string \<times> task_metadata \<Rightarrow> bool" where
  "carries meta_of s w c =
     (case c of
        Inl i \<Rightarrow> (case qs_durable s i of None \<Rightarrow> False | Some d \<Rightarrow> work_of meta_of d = Some w)
      | Inr qm \<Rightarrow> qm \<in> qs_enqueuing s \<and> md_work_id (snd qm) = w)"

definition work_unique :: "('m \<Rightarrow> task_metadata option) \<Rightarrow> 'm queue_sys \<Rightarrow> bool" where
  "work_unique meta_of s \<longleftrightarrow> (\<forall>w c c'. carries meta_of s w c \<longrightarrow> carries meta_of s w c' \<longrightarrow> c = c')"

text \<open>Prepared acknowledgements are those of delivered messages, with the metadata to roll back;
  messages whose handler runs or returned are delivered and have no acknowledgement; the active
  handlers of a task are running handlers of its messages.\<close>

definition acks_ok :: "('m \<Rightarrow> task_metadata option) \<Rightarrow> 'm queue_sys \<Rightarrow> bool" where
  "acks_ok meta_of s \<longleftrightarrow>
     (\<forall>i r. qs_acking s i = Some r \<longrightarrow> (\<exists>d. qs_durable s i = Some d \<and> snd (snd d) \<and> r = meta_of (fst (snd d))))"

definition delivered_ok :: "'m queue_sys \<Rightarrow> nat \<Rightarrow> bool" where
  "delivered_ok s i \<longleftrightarrow> (\<exists>q b. qs_durable s i = Some (q, b, True)) \<and> qs_acking s i = None"

definition phases_ok :: "'m queue_sys \<Rightarrow> bool" where
  "phases_ok s \<longleftrightarrow> (\<forall>i \<in> qs_running s. delivered_ok s i) \<and> (\<forall>i \<in> qs_handled s. delivered_ok s i) \<and>
     qs_running s \<inter> qs_handled s = {}"

definition handler_ok :: "('m \<Rightarrow> task_metadata option) \<Rightarrow> 'm queue_sys \<Rightarrow> string \<Rightarrow> nat \<Rightarrow> bool" where
  "handler_ok meta_of s t h \<longleftrightarrow>
     h \<in> qs_running s \<and> (\<exists>q b p m. qs_durable s h = Some (q, b, p) \<and> meta_of b = Some m \<and> md_task_id m = t)"

definition actives_ok :: "('m \<Rightarrow> task_metadata option) \<Rightarrow> 'm queue_sys \<Rightarrow> bool" where
  "actives_ok meta_of s \<longleftrightarrow>
     (\<forall>t h. h \<in> entries (tw_active (qs_index s)) t \<longrightarrow> handler_ok meta_of s t h)"

definition sys_inv :: "('m \<Rightarrow> task_metadata option) \<Rightarrow> 'm queue_sys \<Rightarrow> bool" where
  "sys_inv meta_of s \<longleftrightarrow> index_exact meta_of s \<and> work_unique meta_of s \<and> acks_ok meta_of s \<and>
     phases_ok s \<and> actives_ok meta_of s"

lemma entries_add [simp]: "entries (add_entry m k x) k' = (if k' = k then insert x (entries m k) else entries m k')"
  by (simp add: entries_def add_entry_def split: option.split)

lemma entries_discard [simp]:
  "entries (discard_entry m k x) k' = (if k' = k then entries m k - {x} else entries m k')"
  by (auto simp: entries_def discard_entry_def split: option.split)

lemma no_empty_add: "(\<forall>t. m t \<noteq> Some {}) \<Longrightarrow> (\<forall>t. add_entry m k x t \<noteq> Some {})"
  by (simp add: add_entry_def)

lemma no_empty_discard: "(\<forall>t. m t \<noteq> Some {}) \<Longrightarrow> (\<forall>t. discard_entry m k x t \<noteq> Some {})"
  by (auto simp: discard_entry_def split: option.split)

text \<open>Two indexes without empty sets are equal when they have the same entries.\<close>

lemma work_map_ext:
  assumes "\<And>t. m t \<noteq> Some {}" "\<And>t. m' t \<noteq> Some {}" "\<And>t. entries m t = entries m' t"
  shows "m = m'"
proof
  fix t
  show "m t = m' t"
    using assms(1,2,3) [of t] by (auto simp: entries_def split: option.splits)
qed

lemma rebuild_step_entries:
  "entries (fst (rebuild_step meta_of acc (q, b))) t =
     entries (fst acc) t \<union> {(q, md_work_id m) | m. meta_of b = Some m \<and> md_task_id m = t}"
  by (auto simp: rebuild_step_def split: option.split)

lemma rebuild_step_no_empty: "\<forall>t. fst acc t \<noteq> Some {} \<Longrightarrow> \<forall>t. fst (rebuild_step meta_of acc qb) t \<noteq> Some {}"
  using no_empty_add [of "fst acc"] by (simp add: rebuild_step_def split: option.split)

lemma rebuild_entries:
  "entries (fst (foldl (rebuild_step meta_of) acc snapshots)) t = entries (fst acc) t \<union>
     {(q, md_work_id m) | q m. \<exists>b. (q, b) \<in> set snapshots \<and> meta_of b = Some m \<and> md_task_id m = t}"
proof (induction snapshots arbitrary: acc)
  case (Cons qb snapshots)
  show ?case
    by (cases qb) (auto simp: Cons.IH rebuild_step_entries)
qed simp

lemma rebuild_no_empty:
  "\<forall>t. fst acc t \<noteq> Some {} \<Longrightarrow> \<forall>t. fst (foldl (rebuild_step meta_of) acc snapshots) t \<noteq> Some {}"
proof (induction snapshots arbitrary: acc)
  case (Cons qb snapshots)
  show ?case
    using Cons.IH [OF rebuild_step_no_empty [OF Cons.prems]] by simp
qed simp

lemma rebuild_index:
  "tw_work (fst (rebuild meta_of snapshots idx)) = fst (foldl (rebuild_step meta_of) (Map.empty, Map.empty) snapshots)"
  "tw_active (fst (rebuild meta_of snapshots idx)) = tw_active idx"
  by (simp_all add: rebuild_def split: prod.split)

lemma index_exact_same:
  assumes "index_exact meta_of s" "\<And>q m. live meta_of s' q m = live meta_of s q m"
    "tw_work (qs_index s') = tw_work (qs_index s)"
  shows "index_exact meta_of s'"
  using assms by (simp add: index_exact_def)

lemma index_exact_add:
  assumes "index_exact meta_of s" "\<And>q m. live meta_of s' q m \<longleftrightarrow> live meta_of s q m \<or> (q = qx \<and> m = mx)"
    "tw_work (qs_index s') = add_entry (tw_work (qs_index s)) (md_task_id mx) (qx, md_work_id mx)"
  shows "index_exact meta_of s'"
  using assms by (auto simp: index_exact_def no_empty_add)

lemma index_exact_discard:
  assumes "index_exact meta_of s" "\<And>q m. live meta_of s' q m \<longleftrightarrow> live meta_of s q m \<and> \<not> (q = qx \<and> m = mx)"
    "\<And>q m. \<lbrakk>live meta_of s q m; md_work_id m = md_work_id mx\<rbrakk> \<Longrightarrow> q = qx \<and> m = mx"
    "tw_work (qs_index s') = discard_entry (tw_work (qs_index s)) (md_task_id mx) (qx, md_work_id mx)"
  shows "index_exact meta_of s'"
  using assms by (auto simp: index_exact_def no_empty_discard)

lemma live_carries:
  assumes "live meta_of s q m"
  obtains i b p where "carries meta_of s (md_work_id m) (Inl i)" "qs_durable s i = Some (q, b, p)" "meta_of b = Some m"
  | "carries meta_of s (md_work_id m) (Inr (q, m))" "(q, m) \<in> qs_enqueuing s"
  using assms by (auto simp: live_def carries_def work_of_def)

lemma live_unique:
  assumes "work_unique meta_of s" "live meta_of s q m" "live meta_of s q' m'" "md_work_id m = md_work_id m'"
  shows "q = q' \<and> m = m'"
proof -
  obtain c where c: "carries meta_of s (md_work_id m) c"
    "(\<exists>i b p. c = Inl i \<and> qs_durable s i = Some (q, b, p) \<and> meta_of b = Some m) \<or> c = Inr (q, m)"
    using assms(2) by (rule live_carries) auto
  obtain c' where c': "carries meta_of s (md_work_id m') c'"
    "(\<exists>i b p. c' = Inl i \<and> qs_durable s i = Some (q', b, p) \<and> meta_of b = Some m') \<or> c' = Inr (q', m')"
    using assms(3) by (rule live_carries) auto
  have "c = c'"
    using assms(1,4) c(1) c'(1) unfolding work_unique_def by metis
  with c(2) c'(2) show ?thesis by auto
qed

lemma prepare_ack_live:
  assumes "index_exact meta_of s" "live meta_of s q m" "prepare_ack finalize (qs_index s) q (Some m) = (r, called, idx)"
  shows "(r = Inr (Some m) \<and> tw_work idx = discard_entry (tw_work (qs_index s)) (md_task_id m) (q, md_work_id m) \<or>
          (\<exists>e. r = Inl e) \<and> tw_work idx = add_entry (discard_entry (tw_work (qs_index s)) (md_task_id m) (q, md_work_id m))
             (md_task_id m) (q, md_work_id m)) \<and>
    tw_active idx = tw_active (qs_index s) \<and>
    (called \<longrightarrow> entries (tw_work (qs_index s)) (md_task_id m) \<subseteq> {(q, md_work_id m)} \<and>
       entries (tw_active (qs_index s)) (md_task_id m) = {})"
proof -
  have "(q, md_work_id m) \<in> entries (tw_work (qs_index s)) (md_task_id m)"
    using assms(1,2) unfolding index_exact_def by auto
  then show ?thesis
    using assms(3)
    by (auto simp: prepare_ack_def remove_work_def rollback_ack_def Let_def
        split: if_splits option.splits sum.splits)
qed

lemma discard_live:
  assumes "discard idx q (Some m) = (idle, idx')"
  shows "tw_work idx' = discard_entry (tw_work idx) (md_task_id m) (q, md_work_id m)"
    "tw_active idx' = tw_active idx"
    "idle \<Longrightarrow> entries (tw_work idx) (md_task_id m) \<subseteq> {(q, md_work_id m)} \<and> entries (tw_active idx) (md_task_id m) = {}"
  using assms by (auto simp: discard_def remove_work_def Let_def)

lemma sys_invI:
  "\<lbrakk>index_exact meta_of s; work_unique meta_of s; acks_ok meta_of s; phases_ok s; actives_ok meta_of s\<rbrakk>
   \<Longrightarrow> sys_inv meta_of s"
  by (simp add: sys_inv_def)

lemma sys_invD:
  assumes "sys_inv meta_of s"
  shows "index_exact meta_of s" "work_unique meta_of s" "acks_ok meta_of s" "phases_ok s" "actives_ok meta_of s"
  using assms by (simp_all add: sys_inv_def)

lemma work_unique_mono:
  assumes "work_unique meta_of s" "\<And>w c. carries meta_of s' w c \<Longrightarrow> carries meta_of s w c"
  shows "work_unique meta_of s'"
  using assms unfolding work_unique_def by blast

lemma actives_ok_mono:
  assumes "actives_ok meta_of s" "tw_active (qs_index s') = tw_active (qs_index s)"
    "\<And>t h. handler_ok meta_of s t h \<Longrightarrow> h \<in> entries (tw_active (qs_index s)) t \<Longrightarrow> handler_ok meta_of s' t h"
  shows "actives_ok meta_of s'"
  using assms unfolding actives_ok_def by metis

lemma acking_free: "\<lbrakk>acks_ok meta_of s; qs_durable s i = None\<rbrakk> \<Longrightarrow> qs_acking s i = None"
  unfolding acks_ok_def by (metis not_None_eq option.distinct(1))

lemma register_step_inv:
  assumes "sys_inv meta_of s" "register cancelled (qs_index s) q m = (True, idx)" "m = Some mx"
    "fresh_work meta_of s (md_work_id mx)"
  shows "sys_inv meta_of (s\<lparr>qs_index := idx, qs_enqueuing := insert (q, mx) (qs_enqueuing s)\<rparr>)"
    (is "sys_inv _ ?s")
proof (rule sys_invI)
  note inv = sys_invD [OF assms(1)]
  have idx: "tw_work idx = add_entry (tw_work (qs_index s)) (md_task_id mx) (q, md_work_id mx)"
    "tw_active idx = tw_active (qs_index s)"
    using assms(2,3) by (auto simp: register_def split: if_splits)
  show "index_exact meta_of ?s"
    by (rule index_exact_add [OF inv(1), where qx = q and mx = mx]) (auto simp: live_def idx)
  have fresh: "\<not> carries meta_of s (md_work_id mx) c" for c
    using assms(4) by (auto simp: fresh_work_def carries_def work_of_def split: sum.splits option.splits)
  have "carries meta_of ?s w c \<longleftrightarrow> carries meta_of s w c \<or> (w = md_work_id mx \<and> c = Inr (q, mx))" for w c
    by (auto simp: carries_def split: sum.split)
  then show "work_unique meta_of ?s"
    using inv(2) fresh unfolding work_unique_def by metis
  show "acks_ok meta_of ?s"
    using inv(3) by (simp add: acks_ok_def)
  show "phases_ok ?s"
    using inv(4) by (simp add: phases_ok_def delivered_ok_def)
  show "actives_ok meta_of ?s"
    by (rule actives_ok_mono [OF inv(5)]) (auto simp: idx handler_ok_def)
qed

lemma write_step_inv:
  assumes "sys_inv meta_of s" "qs_durable s i = None"
    and "(q, m) \<in> qs_enqueuing s \<and> meta_of b = Some m \<and> E = qs_enqueuing s - {(q, m)} \<or>
         meta_of b = None \<and> E = qs_enqueuing s"
  shows "sys_inv meta_of (s\<lparr>qs_durable := (qs_durable s)(i \<mapsto> (q, b, False)), qs_enqueuing := E\<rparr>)"
    (is "sys_inv _ ?s")
proof (rule sys_invI)
  note inv = sys_invD [OF assms(1)]
  have ack: "qs_acking s i = None" by (rule acking_free [OF inv(3) assms(2)])
  have "live meta_of ?s q' m' \<longleftrightarrow> (q' = q \<and> meta_of b = Some m') \<or>
      (\<exists>j b p. qs_durable s j = Some (q', b, p) \<and> meta_of b = Some m' \<and> qs_acking s j = None) \<or> (q', m') \<in> E"
    for q' m'
    using assms(2) ack unfolding live_def by (simp add: fun_upd_def) (metis option.distinct(1))
  then have "live meta_of ?s q' m' \<longleftrightarrow> live meta_of s q' m'" for q' m'
    using assms(3) unfolding live_def [of meta_of s] by auto
  then show "index_exact meta_of ?s"
    by (rule index_exact_same [OF inv(1)]) simp
  have old: "carries meta_of ?s w c \<Longrightarrow> c \<noteq> Inl i \<Longrightarrow> carries meta_of s w c \<and> c \<noteq> Inr (q, m) \<or>
      carries meta_of s w c \<and> meta_of b = None" for w c
    using assms(3) by (auto simp: carries_def split: sum.splits if_splits)
  have new: "carries meta_of ?s w (Inl i) \<Longrightarrow> carries meta_of s w (Inr (q, m)) \<and> meta_of b \<noteq> None" for w
    using assms(3) by (auto simp: carries_def work_of_def)
  show "work_unique meta_of ?s"
    using inv(2) old new unfolding work_unique_def by metis
  show "acks_ok meta_of ?s"
    using inv(3) ack by (auto simp: acks_ok_def)
  show "phases_ok ?s"
    using inv(4) assms(2) by (auto simp: phases_ok_def delivered_ok_def)
  show "actives_ok meta_of ?s"
    using assms(2) by (intro actives_ok_mono [OF inv(5)]) (auto simp: handler_ok_def)
qed

lemma carries_durable:
  "carries meta_of s w (Inl i) \<longleftrightarrow> (\<exists>q b m. (\<exists>p. qs_durable s i = Some (q, b, p)) \<and> meta_of b = Some m \<and> md_work_id m = w)"
  by (auto simp: carries_def work_of_def split: option.split)

lemma enqueue_fails_inv:
  assumes "sys_inv meta_of s" "(q, m) \<in> qs_enqueuing s" "discard (qs_index s) q (Some m) = (idle, idx)"
  shows "sys_inv meta_of (s\<lparr>qs_index := idx, qs_enqueuing := qs_enqueuing s - {(q, m)}, qs_finalized := fs\<rparr>)"
    (is "sys_inv _ ?s")
proof (rule sys_invI)
  note inv = sys_invD [OF assms(1)] and idx = discard_live [OF assms(3)]
  have "carries meta_of s (md_work_id m) (Inr (q, m))"
    using assms(2) by (simp add: carries_def)
  then have "\<not> carries meta_of s (md_work_id m) (Inl i)" for i
    using inv(2) unfolding work_unique_def by blast
  then have only: "qs_durable s i = Some (q', b, p) \<Longrightarrow> meta_of b \<noteq> Some m" for i q' b p
    unfolding carries_durable by blast
  have "live meta_of s q m"
    using assms(2) by (simp add: live_def)
  note uniq = live_unique [OF inv(2) _ this]
  show "index_exact meta_of ?s"
  proof (rule index_exact_discard [OF inv(1), where qx = q and mx = m])
    show "live meta_of ?s q' m' \<longleftrightarrow> live meta_of s q' m' \<and> \<not> (q' = q \<and> m' = m)" for q' m'
      using only by (auto simp: live_def)
  qed (use uniq idx in auto)
  show "work_unique meta_of ?s"
    by (rule work_unique_mono [OF inv(2)]) (auto simp: carries_def split: sum.splits)
  show "acks_ok meta_of ?s"
    using inv(3) by (simp add: acks_ok_def)
  show "phases_ok ?s"
    using inv(4) by (simp add: phases_ok_def delivered_ok_def)
  show "actives_ok meta_of ?s"
    by (rule actives_ok_mono [OF inv(5)]) (auto simp: idx handler_ok_def)
qed

text \<open>Steps that leave queue, payload and acknowledgement of every message as they are keep the
  pending work.\<close>

definition same_work :: "'m queue_sys \<Rightarrow> 'm queue_sys \<Rightarrow> bool" where
  "same_work s s' \<longleftrightarrow>
     (\<forall>i. map_option (\<lambda>(q, b, p). (q, b)) (qs_durable s' i) = map_option (\<lambda>(q, b, p). (q, b)) (qs_durable s i)) \<and>
     qs_enqueuing s' = qs_enqueuing s"

lemma same_work_durable:
  assumes "same_work s s'"
  shows "(\<exists>p. qs_durable s' i = Some (q, b, p)) \<longleftrightarrow> (\<exists>p. qs_durable s i = Some (q, b, p))"
proof -
  have "map_option (\<lambda>(q, b, p). (q, b)) d = Some (q, b) \<longleftrightarrow> (\<exists>p. d = Some (q, b, p))" for d :: "(string \<times> 'a \<times> bool) option"
    by (cases d) auto
  then show ?thesis
    using assms unfolding same_work_def by metis
qed

lemma same_work_live:
  assumes "same_work s s'" "qs_acking s' = qs_acking s"
  shows "live meta_of s' q m \<longleftrightarrow> live meta_of s q m"
proof -
  have "(\<exists>i b p. qs_durable u i = Some (q, b, p) \<and> meta_of b = Some m \<and> qs_acking s i = None) \<longleftrightarrow>
      (\<exists>i b. (\<exists>p. qs_durable u i = Some (q, b, p)) \<and> meta_of b = Some m \<and> qs_acking s i = None)" for u :: "'a queue_sys"
    by blast
  then show ?thesis
    using assms(2) same_work_durable [OF assms(1)] assms(1) by (simp add: live_def same_work_def)
qed

lemma same_work_unique:
  assumes "work_unique meta_of s" "same_work s s'"
  shows "work_unique meta_of s'"
proof (rule work_unique_mono [OF assms(1)])
  fix w c
  assume "carries meta_of s' w c"
  then show "carries meta_of s w c"
    using same_work_durable [OF assms(2)] assms(2)
    by (cases c) (simp_all add: carries_durable, simp add: carries_def same_work_def)
qed

lemma deliver_inv:
  assumes "sys_inv meta_of s" "qs_durable s i = Some (q, b, False)"
    "idx = (case meta_of b of None \<Rightarrow> qs_index s
            | Some m \<Rightarrow> snd (register_active cancelled (qs_index s) (md_task_id m) i))"
  shows "sys_inv meta_of (s\<lparr>qs_index := idx, qs_durable := (qs_durable s)(i \<mapsto> (q, b, True)),
      qs_running := insert i (qs_running s)\<rparr>)" (is "sys_inv _ ?s")
proof (rule sys_invI)
  note inv = sys_invD [OF assms(1)]
  have same: "same_work s ?s"
    using assms(2) by (simp add: same_work_def)
  have ack: "qs_acking s i = None"
    using inv(3) assms(2) unfolding acks_ok_def by (cases "qs_acking s i") fastforce+
  have idx: "tw_work idx = tw_work (qs_index s)"
    "h \<in> entries (tw_active idx) t \<Longrightarrow> h \<in> entries (tw_active (qs_index s)) t \<or>
       h = i \<and> (\<exists>m. meta_of b = Some m \<and> md_task_id m = t)" for t h
    unfolding assms(3) by (auto simp: register_active_def split: option.splits if_splits)
  show "index_exact meta_of ?s"
    by (rule index_exact_same [OF inv(1)]) (simp_all add: same_work_live [OF same] idx)
  show "work_unique meta_of ?s"
    by (rule same_work_unique [OF inv(2) same])
  show "acks_ok meta_of ?s"
    using inv(3) ack by (auto simp: acks_ok_def)
  have "i \<notin> qs_handled s"
    using inv(4) assms(2) unfolding phases_ok_def delivered_ok_def by force
  then show "phases_ok ?s"
    using inv(4) ack by (auto simp: phases_ok_def delivered_ok_def)
  show "actives_ok meta_of ?s"
    unfolding actives_ok_def
  proof (intro allI impI)
    fix t h
    assume "h \<in> entries (tw_active (qs_index ?s)) t"
    then consider "handler_ok meta_of s t h" | "h = i" "\<exists>m. meta_of b = Some m \<and> md_task_id m = t"
      using idx(2) inv(5) unfolding actives_ok_def by (simp, blast)
    then show "handler_ok meta_of ?s t h"
      using assms(2) by cases (auto simp: handler_ok_def)
  qed
qed

lemma handler_ends_inv:
  assumes "sys_inv meta_of s" "i \<in> qs_running s" "qs_durable s i = Some (q, b, True)"
    "idx = (case meta_of b of None \<Rightarrow> qs_index s | Some m \<Rightarrow> unregister_active (qs_index s) (md_task_id m) i)"
    "H = qs_handled s \<or> H = insert i (qs_handled s)"
  shows "sys_inv meta_of (s\<lparr>qs_index := idx, qs_running := qs_running s - {i}, qs_handled := H\<rparr>)"
    (is "sys_inv _ ?s")
proof (rule sys_invI)
  note inv = sys_invD [OF assms(1)]
  have same: "same_work s ?s" by (simp add: same_work_def)
  have idx: "tw_work idx = tw_work (qs_index s)"
    "h \<in> entries (tw_active idx) t \<Longrightarrow> h \<in> entries (tw_active (qs_index s)) t \<and>
       (h = i \<longrightarrow> (\<forall>m. meta_of b = Some m \<longrightarrow> md_task_id m \<noteq> t))" for t h
    unfolding assms(4) by (auto simp: unregister_active_def split: option.splits if_splits)
  show "index_exact meta_of ?s"
    by (rule index_exact_same [OF inv(1)]) (simp_all add: same_work_live [OF same] idx)
  show "work_unique meta_of ?s"
    by (rule same_work_unique [OF inv(2) same])
  show "acks_ok meta_of ?s"
    using inv(3) by (simp add: acks_ok_def)
  show "phases_ok ?s"
    using inv(4) assms(2,5) by (auto simp: phases_ok_def delivered_ok_def)
  show "actives_ok meta_of ?s"
    unfolding actives_ok_def
  proof (intro allI impI)
    fix t h
    assume "h \<in> entries (tw_active (qs_index ?s)) t"
    then have "handler_ok meta_of s t h" "h = i \<longrightarrow> (\<forall>m. meta_of b = Some m \<longrightarrow> md_task_id m \<noteq> t)"
      using idx(2) [of h t] inv(5) unfolding actives_ok_def by simp_all
    then show "handler_ok meta_of ?s t h"
      using assms(3) by (auto simp: handler_ok_def)
  qed
qed

text \<open>Preparing an acknowledgement removes exactly the entry of the message, unless the finalizer
  fails.\<close>

lemma live_acking:
  assumes "qs_durable s i = Some (q, b, p)" "meta_of b = Some m" "qs_acking s i = None"
    "\<And>j q' b' p'. \<lbrakk>qs_durable s j = Some (q', b', p'); meta_of b' = Some m\<rbrakk> \<Longrightarrow> j = i"
    "\<And>q'. (q', m) \<notin> qs_enqueuing s"
    "qs_durable s' = qs_durable s" "qs_enqueuing s' = qs_enqueuing s" "qs_acking s' = (qs_acking s)(i \<mapsto> r)"
  shows "live meta_of s' q' m' \<longleftrightarrow> live meta_of s q' m' \<and> \<not> (q' = q \<and> m' = m)"
proof
  assume "live meta_of s' q' m'"
  then consider j b' p' where "qs_durable s j = Some (q', b', p')" "meta_of b' = Some m'" "qs_acking s j = None" "j \<noteq> i"
    | "(q', m') \<in> qs_enqueuing s"
    unfolding live_def assms(6-8) by (auto split: if_splits)
  then show "live meta_of s q' m' \<and> \<not> (q' = q \<and> m' = m)"
    using assms(4,5) unfolding live_def by cases blast+
next
  assume *: "live meta_of s q' m' \<and> \<not> (q' = q \<and> m' = m)"
  then consider j b' p' where "qs_durable s j = Some (q', b', p')" "meta_of b' = Some m'" "qs_acking s j = None"
    | "(q', m') \<in> qs_enqueuing s"
    unfolding live_def by blast
  then show "live meta_of s' q' m'"
  proof cases
    case 1
    then have "j \<noteq> i" using assms(1,2) * by auto
    with 1 have "qs_acking s' j = None" unfolding assms(8) by simp
    with 1 show ?thesis unfolding live_def assms(6) by blast
  qed (simp add: live_def assms(7))
qed

lemma ack_prepare_inv:
  assumes "sys_inv meta_of s" "i \<in> qs_handled s" "qs_durable s i = Some (q, b, True)"
    "prepare_ack finalize (qs_index s) q (meta_of b) = (Inr r, called, idx)"
  shows "sys_inv meta_of (s\<lparr>qs_index := idx, qs_handled := qs_handled s - {i},
      qs_acking := (qs_acking s)(i \<mapsto> r), qs_finalized := fs\<rparr>)" (is "sys_inv _ ?s")
proof (rule sys_invI)
  note inv = sys_invD [OF assms(1)]
  have ack: "qs_acking s i = None" and run: "i \<notin> qs_running s"
    using inv(4) assms(2) unfolding phases_ok_def delivered_ok_def by auto
  have r: "r = meta_of b" and act: "tw_active idx = tw_active (qs_index s)" and "index_exact meta_of ?s"
  proof (atomize (full), cases "meta_of b")
    case None
    then have "live meta_of ?s q' m' = live meta_of s q' m'" for q' m'
      using assms(3) by (auto simp: live_def) (metis option.distinct(1) option.inject prod.inject)
    then show "r = meta_of b \<and> tw_active idx = tw_active (qs_index s) \<and> index_exact meta_of ?s"
      using None assms(4) index_exact_same [OF inv(1)] by (auto simp: prepare_ack_def)
  next
    case (Some m)
    have live: "live meta_of s q m"
      using assms(3) Some ack unfolding live_def by blast
    note p = prepare_ack_live [OF inv(1) live assms(4) [unfolded Some]]
    note uniq = live_unique [OF inv(2) _ live]
    have "carries meta_of s (md_work_id m) (Inl i)"
      using assms(3) Some unfolding carries_durable by blast
    then have only: "carries meta_of s (md_work_id m) c \<Longrightarrow> c = Inl i" for c
      using inv(2) unfolding work_unique_def by blast
    have others: "qs_durable s j = Some (q', b', p') \<Longrightarrow> meta_of b' = Some m \<Longrightarrow> j = i" for j q' b' p'
      using only [of "Inl j"] unfolding carries_durable by blast
    have "(q', m) \<notin> qs_enqueuing s" for q'
      using only [of "Inr (q', m)"] by (auto simp: carries_def)
    then have "live meta_of ?s q' m' \<longleftrightarrow> live meta_of s q' m' \<and> \<not> (q' = q \<and> m' = m)" for q' m'
      by (intro live_acking [where i = i and meta_of = meta_of and b = b and m = m, OF assms(3) Some ack] others) auto
    from index_exact_discard [OF inv(1) this] uniq p
    show "r = meta_of b \<and> tw_active idx = tw_active (qs_index s) \<and> index_exact meta_of ?s"
      by (simp add: Some)
  qed
  then show "index_exact meta_of ?s" by simp
  show "work_unique meta_of ?s"
    by (rule same_work_unique [OF inv(2)]) (simp add: same_work_def)
  show "acks_ok meta_of ?s"
    using inv(3) assms(3) r by (auto simp: acks_ok_def)
  show "phases_ok ?s"
    using inv(4) run by (auto simp: phases_ok_def delivered_ok_def)
  show "actives_ok meta_of ?s"
    by (rule actives_ok_mono [OF inv(5)]) (auto simp: act handler_ok_def)
qed

lemma ack_prepare_fails_inv:
  assumes "sys_inv meta_of s" "i \<in> qs_handled s" "qs_durable s i = Some (q, b, True)"
    "prepare_ack finalize (qs_index s) q (meta_of b) = (Inl e, called, idx)"
  shows "sys_inv meta_of (s\<lparr>qs_index := idx, qs_handled := qs_handled s - {i}, qs_finalized := fs\<rparr>)"
    (is "sys_inv _ ?s")
proof (rule sys_invI)
  note inv = sys_invD [OF assms(1)]
  have ack: "qs_acking s i = None"
    using inv(4) assms(2) unfolding phases_ok_def delivered_ok_def by auto
  obtain m where m: "meta_of b = Some m"
    using assms(4) by (cases "meta_of b") (auto simp: prepare_ack_def)
  have live: "live meta_of s q m"
    using assms(3) m ack unfolding live_def by blast
  have entry: "(q, md_work_id m) \<in> entries (tw_work (qs_index s)) (md_task_id m)"
    using inv(1) live unfolding index_exact_def by auto
  have idx: "entries (tw_work idx) t = entries (tw_work (qs_index s)) t"
    "\<forall>t. tw_work idx t \<noteq> Some {}" "tw_active idx = tw_active (qs_index s)" for t
    using prepare_ack_live [OF inv(1) live assms(4) [unfolded m]] entry inv(1)
    by (auto simp: index_exact_def no_empty_add no_empty_discard)
  show "index_exact meta_of ?s"
    using inv(1) same_work_live [of s ?s] by (simp add: index_exact_def idx same_work_def)
  show "work_unique meta_of ?s"
    by (rule same_work_unique [OF inv(2)]) (simp add: same_work_def)
  show "acks_ok meta_of ?s"
    using inv(3) by (simp add: acks_ok_def)
  show "phases_ok ?s"
    using inv(4) by (auto simp: phases_ok_def delivered_ok_def)
  show "actives_ok meta_of ?s"
    by (rule actives_ok_mono [OF inv(5)]) (auto simp: idx handler_ok_def)
qed

lemma ack_written_inv:
  assumes "sys_inv meta_of s" "qs_acking s i = Some r"
  shows "sys_inv meta_of (s\<lparr>qs_durable := (qs_durable s)(i := None), qs_acking := (qs_acking s)(i := None)\<rparr>)"
    (is "sys_inv _ ?s")
proof (rule sys_invI)
  note inv = sys_invD [OF assms(1)]
  have idle: "i \<notin> qs_running s" "i \<notin> qs_handled s"
    using inv(4) assms(2) unfolding phases_ok_def delivered_ok_def by auto
  have "live meta_of ?s q m = live meta_of s q m" for q m
    using assms(2) by (auto simp: live_def) (metis option.distinct(1))
  then show "index_exact meta_of ?s"
    by (rule index_exact_same [OF inv(1)]) simp
  show "work_unique meta_of ?s"
    by (rule work_unique_mono [OF inv(2)]) (auto simp: carries_def split: sum.splits if_splits)
  show "acks_ok meta_of ?s"
    using inv(3) by (auto simp: acks_ok_def)
  show "phases_ok ?s"
    using inv(4) idle by (auto simp: phases_ok_def delivered_ok_def)
  show "actives_ok meta_of ?s"
    using idle by (intro actives_ok_mono [OF inv(5)]) (auto simp: handler_ok_def)
qed

lemma ack_write_fails_inv:
  assumes "sys_inv meta_of s" "qs_acking s i = Some r" "qs_durable s i = Some (q, b, p)"
    "idx = (case r of None \<Rightarrow> qs_index s | Some m \<Rightarrow> rollback_ack (qs_index s) q m)"
  shows "sys_inv meta_of (s\<lparr>qs_index := idx, qs_acking := (qs_acking s)(i := None)\<rparr>)" (is "sys_inv _ ?s")
proof (rule sys_invI)
  note inv = sys_invD [OF assms(1)]
  have r: "r = meta_of b"
    using inv(3) assms(2,3) unfolding acks_ok_def by fastforce
  have idle: "i \<notin> qs_running s" "i \<notin> qs_handled s"
    using inv(4) assms(2) unfolding phases_ok_def delivered_ok_def by auto
  have live: "live meta_of ?s q' m' \<longleftrightarrow> live meta_of s q' m' \<or> q' = q \<and> meta_of b = Some m'" for q' m'
    using assms(2,3) by (auto simp: live_def) (metis option.distinct(1))
  show "index_exact meta_of ?s"
  proof (cases r)
    case None
    then show ?thesis
      using index_exact_same [OF inv(1), of ?s] live assms(4) r by simp
  next
    case (Some m)
    then show ?thesis
      using live assms(4) r by (intro index_exact_add [OF inv(1), where qx = q and mx = m]) (auto simp: rollback_ack_def)
  qed
  have act: "tw_active idx = tw_active (qs_index s)"
    unfolding assms(4) by (simp add: rollback_ack_def split: option.split)
  show "work_unique meta_of ?s"
    by (rule same_work_unique [OF inv(2)]) (simp add: same_work_def)
  show "acks_ok meta_of ?s"
    using inv(3) by (auto simp: acks_ok_def)
  show "phases_ok ?s"
    using inv(4) idle by (auto simp: phases_ok_def delivered_ok_def)
  show "actives_ok meta_of ?s"
    by (rule actives_ok_mono [OF inv(5)]) (auto simp: act handler_ok_def)
qed

text \<open>A restart rebuilds the index from the durable messages alone, and what was in flight is pending
  again.\<close>

lemma rebuild_exact:
  assumes "lists_durable s snapshots" "\<And>q m. live meta_of s' q m \<longleftrightarrow>
      (\<exists>i b p. qs_durable s i = Some (q, b, p) \<and> meta_of b = Some m)"
    "qs_index s' = fst (rebuild meta_of snapshots idx)"
  shows "index_exact meta_of s'"
proof -
  have "e \<in> entries (tw_work (qs_index s')) t \<longleftrightarrow>
      (\<exists>b m. (fst e, b) \<in> set snapshots \<and> meta_of b = Some m \<and> md_task_id m = t \<and> md_work_id m = snd e)" for t e
    by (cases e) (auto simp: assms(3) rebuild_index rebuild_entries entries_def [of Map.empty])
  moreover have "\<forall>t. tw_work (qs_index s') t \<noteq> Some {}"
    using rebuild_no_empty [of "(Map.empty, Map.empty)"] by (simp add: assms(3) rebuild_index)
  ultimately show ?thesis
    using assms(1,2) unfolding index_exact_def lists_durable_def by simp blast
qed

lemma restart_inv:
  assumes "sys_inv meta_of s" "lists_durable s snapshots"
  shows "sys_inv meta_of (s\<lparr>qs_index := fst (rebuild meta_of snapshots TaskWorkIndex),
      qs_durable := (\<lambda>i. map_option (\<lambda>(q, b, p). (q, b, False)) (qs_durable s i)),
      qs_enqueuing := {}, qs_running := {}, qs_handled := {}, qs_acking := Map.empty\<rparr>)" (is "sys_inv _ ?s")
proof (rule sys_invI)
  note inv = sys_invD [OF assms(1)]
  have "live meta_of ?s q m \<longleftrightarrow> (\<exists>i b p. qs_durable s i = Some (q, b, p) \<and> meta_of b = Some m)" for q m
    by (auto simp: live_def)
  then show "index_exact meta_of ?s"
    by (rule rebuild_exact [OF assms(2)]) simp
  show "work_unique meta_of ?s"
    by (rule work_unique_mono [OF inv(2)])
      (auto simp: carries_def work_of_def split: sum.splits option.splits)
qed (auto simp: acks_ok_def phases_ok_def actives_ok_def entries_def rebuild_index TaskWorkIndex_def)

lemma step_inv:
  assumes "queue_step meta_of s s'" "sys_inv meta_of s"
  shows "sys_inv meta_of s'"
  using assms(1)
proof cases
  case (enqueue_register cancelled q m idx)
  from register_step_inv [OF assms(2) this(2) refl this(3)] this(1) show ?thesis by simp
next
  case (enqueue_write q m b i)
  with write_step_inv [OF assms(2), of i q m b "qs_enqueuing s - {(q, m)}"] show ?thesis by simp
next
  case (enqueue_untracked b i q)
  with write_step_inv [OF assms(2), of i q _ b "qs_enqueuing s"] show ?thesis by simp
next
  case (enqueue_fails q m idle idx)
  from enqueue_fails_inv [OF assms(2) this(2,3)] this(1) show ?thesis by simp
next
  case (deliver i q b idx cancelled)
  from deliver_inv [OF assms(2) this(2,3)] this(1) show ?thesis by simp
next
  case (handler_ends i q b idx raised)
  from handler_ends_inv [OF assms(2) this(2-4), of "if raised then qs_handled s else insert i (qs_handled s)"] this(1)
  show ?thesis by simp
next
  case (ack_prepare i q b finalize r called idx)
  from ack_prepare_inv [OF assms(2) this(2-4)] this(1) show ?thesis by simp
next
  case (ack_prepare_fails i q b finalize e called idx)
  from ack_prepare_fails_inv [OF assms(2) this(2-4)] this(1) show ?thesis by simp
next
  case (ack_written i r q b p)
  from ack_written_inv [OF assms(2) this(2)] this(1) show ?thesis by simp
next
  case (ack_write_fails i r q b p idx)
  from ack_write_fails_inv [OF assms(2) this(2-4)] this(1) show ?thesis by simp
next
  case (restart snapshots)
  from restart_inv [OF assms(2) this(2)] this(1) show ?thesis by simp
qed

lemma reachable_inv:
  "queue_reachable meta_of s \<Longrightarrow> sys_inv meta_of s"
proof (induction rule: queue_reachable.induct)
  case reach_new
  show ?case
    by (rule sys_invI) (auto simp: new_sys_def index_exact_def live_def work_unique_def carries_def acks_ok_def
        phases_ok_def actives_ok_def TaskWorkIndex_def entries_def split: sum.splits)
next
  case (reach_step s s')
  from step_inv [OF reach_step.hyps(2) reach_step.IH] show ?case .
qed

lemma payload_lookup:
  "dict_get (dict_set d k v) k' = (if k' = k then v else dict_get d k')"
  "dict_get (setdefault d k v) k' = (if k' = k then dict_get_default d k v else dict_get d k')"
  "dict_get_default (setdefault d k v) k' w = (if k' = k then dict_get_default d k v else dict_get_default d k' w)"
  by (simp_all add: dict_get_def dict_get_default_def map_of_dict_set setdefault_def map_add_def split: option.split)

text \<open>The owner named by the top-level fields of a payload.\<close>

lemma owner_top_level:
  "py_bool (dict_get d ''account_id'') \<Longrightarrow> fst (owner_from_payload str d) = str_or_empty str (dict_get d ''account_id'')"
  "py_bool (dict_get d ''user_id'') \<Longrightarrow> snd (owner_from_payload str d) = str_or_empty str (dict_get d ''user_id'')"
  by (simp_all add: owner_from_payload_def Let_def py_or_def split: pyval.split)

definition blank_key :: "pydict \<Rightarrow> string \<Rightarrow> bool" where
  "blank_key d k \<longleftrightarrow> map_of d k \<noteq> None \<and> \<not> py_bool (dict_get d k)"

lemma str_or_empty_PStr [simp]: "str_or_empty str (PStr x) = x"
  by (simp add: str_or_empty_def)

lemma str_or_empty_blank: "\<not> py_bool v \<Longrightarrow> str_or_empty str v = []"
  by (simp add: str_or_empty_def)

text \<open>The metadata of a prepared payload, with the owner the context adds.\<close>

lemma prepare_task_payload_Some:
  assumes "prepare_task_payload str uuid current payload = (p, Some m)" "uuid \<noteq> []"
  shows "md_task_id m \<noteq> [] \<and> md_work_id m \<noteq> [] \<and>
    (fst (owner_from_payload str payload) \<noteq> [] \<longrightarrow> md_account_id m = fst (owner_from_payload str payload)) \<and>
    (snd (owner_from_payload str payload) \<noteq> [] \<longrightarrow> md_user_id m = snd (owner_from_payload str payload)) \<and>
    p = (let p1 = dict_set (dict_set payload ''task_id'' (PStr (md_task_id m))) TASK_WORK_ID_FIELD (PStr (md_work_id m))
         in if md_account_id m \<noteq> [] \<and> md_user_id m \<noteq> []
            then setdefault (setdefault p1 ''account_id'' (PStr (md_account_id m))) ''user_id'' (PStr (md_user_id m))
            else p1)"
proof -
  obtain A U where o: "owner_from_payload str payload = (A, U)" by force
  define t where "t = str_or (str_or_empty str (dict_get payload ''task_id'')) (case current of None \<Rightarrow> [] | Some c \<Rightarrow> tc_task_id c)"
  define ca where "ca = (case current of Some c \<Rightarrow> if tc_task_id c = t then tc_account_id c else [] | None \<Rightarrow> [])"
  define cu where "cu = (case current of Some c \<Rightarrow> if tc_task_id c = t then tc_user_id c else [] | None \<Rightarrow> [])"
  have own: "(case current of Some c \<Rightarrow> if tc_task_id c = t then (str_or A (tc_account_id c), str_or U (tc_user_id c)) else (A, U)
       | None \<Rightarrow> (A, U)) = (str_or A ca, str_or U cu)"
    by (simp add: ca_def cu_def str_or_def split: option.split)
  have m: "t \<noteq> []" "m = \<lparr>md_task_id = t, md_work_id = str_or (str_or_empty str (dict_get payload TASK_WORK_ID_FIELD)) uuid,
      md_account_id = str_or A ca, md_user_id = str_or U cu\<rparr>"
    using assms(1) by (simp_all add: prepare_task_payload_def t_def [symmetric] o own Let_def split: if_splits)
  have "p = (let p1 = dict_set (dict_set payload ''task_id'' (PStr (md_task_id m))) TASK_WORK_ID_FIELD (PStr (md_work_id m))
         in if md_account_id m \<noteq> [] \<and> md_user_id m \<noteq> []
            then setdefault (setdefault p1 ''account_id'' (PStr (md_account_id m))) ''user_id'' (PStr (md_user_id m))
            else p1)"
    using assms(1) m by (auto simp: prepare_task_payload_def t_def [symmetric] o own Let_def)
  then show ?thesis
    using assms(2) m(1) by (simp add: m(2) o str_or_def)
qed

lemma prepared_payload:
  assumes "prepare_task_payload str uuid current payload = (p, Some m)" "uuid \<noteq> []"
  shows "dict_get p ''task_id'' = PStr (md_task_id m)" "dict_get p TASK_WORK_ID_FIELD = PStr (md_work_id m)"
    "\<lbrakk>md_account_id m \<noteq> []; md_user_id m \<noteq> []\<rbrakk> \<Longrightarrow>
       dict_get p ''account_id'' = dict_get_default payload ''account_id'' (PStr (md_account_id m))"
    "\<lbrakk>md_account_id m \<noteq> []; md_user_id m \<noteq> []\<rbrakk> \<Longrightarrow>
       dict_get p ''user_id'' = dict_get_default payload ''user_id'' (PStr (md_user_id m))"
proof -
  define p1 where "p1 = dict_set (dict_set payload ''task_id'' (PStr (md_task_id m))) TASK_WORK_ID_FIELD (PStr (md_work_id m))"
  have p: "p = (if md_account_id m \<noteq> [] \<and> md_user_id m \<noteq> []
      then setdefault (setdefault p1 ''account_id'' (PStr (md_account_id m))) ''user_id'' (PStr (md_user_id m)) else p1)"
    using prepare_task_payload_Some [OF assms] by (simp add: Let_def p1_def)
  have p1: "dict_get p1 ''task_id'' = PStr (md_task_id m)" "dict_get p1 TASK_WORK_ID_FIELD = PStr (md_work_id m)"
    "dict_get_default p1 ''account_id'' = dict_get_default payload ''account_id''"
    "dict_get_default p1 ''user_id'' = dict_get_default payload ''user_id''"
    by (simp_all add: p1_def payload_lookup dict_get_default_def fun_eq_iff map_of_dict_set TASK_WORK_ID_FIELD_def)
  then show "dict_get p ''task_id'' = PStr (md_task_id m)" "dict_get p TASK_WORK_ID_FIELD = PStr (md_work_id m)"
    unfolding p by (simp_all add: payload_lookup TASK_WORK_ID_FIELD_def)
  assume "md_account_id m \<noteq> []" "md_user_id m \<noteq> []"
  then show "dict_get p ''account_id'' = dict_get_default payload ''account_id'' (PStr (md_account_id m))"
    "dict_get p ''user_id'' = dict_get_default payload ''user_id'' (PStr (md_user_id m))"
    unfolding p using p1(3,4) by (simp_all add: payload_lookup)
qed

lemma prepared_owner:
  assumes "prepare_task_payload str uuid current payload = (p, Some m)" "uuid \<noteq> []"
    "md_account_id m \<noteq> []" "md_user_id m \<noteq> []"
    "\<not> blank_key payload ''account_id''" "\<not> blank_key payload ''user_id''"
    "\<And>v. py_bool v \<Longrightarrow> str v \<noteq> []"
  shows "owner_from_payload str p = (md_account_id m, md_user_id m)"
proof -
  note p = prepared_payload [OF assms(1,2)] and m = prepare_task_payload_Some [OF assms(1,2)]
  have field: "py_bool (dict_get_default payload k (PStr x)) \<and> str_or_empty str (dict_get_default payload k (PStr x)) = x"
    if "\<not> blank_key payload k" "x \<noteq> []" "py_bool (dict_get payload k) \<Longrightarrow> x = str_or_empty str (dict_get payload k)" for k x
    using that by (auto simp: blank_key_def dict_get_default_def dict_get_def split: option.splits)
  have first: "str_or_empty str v \<noteq> []" if "py_bool v" for v
    using that assms(7) by (auto simp: str_or_empty_def split: pyval.split)
  have "py_bool (dict_get payload ''account_id'') \<Longrightarrow> md_account_id m = str_or_empty str (dict_get payload ''account_id'')"
    "py_bool (dict_get payload ''user_id'') \<Longrightarrow> md_user_id m = str_or_empty str (dict_get payload ''user_id'')"
    using m first owner_top_level [of payload str] by simp_all
  note a = field [OF assms(5,3) this(1)] and u = field [OF assms(6,4) this(2)]
  show ?thesis
    using owner_top_level [of p str] p(3,4) [OF assms(3,4)] a u by (simp add: prod_eq_iff)
qed

section \<open>Properties\<close>

text \<open>Task metadata survives the queue: the metadata read back from the stored message of a prepared
  payload has the task and work identifiers the enqueue registered, and the same owner whenever the
  owner is known and the payload does not spell an owner field as a blank. JSON round trips payloads,
  and \<^verbatim>\<open>str\<close> of a true value is not empty.\<close>

theorem task_metadata_roundtrip:
  assumes "prepare_task_payload str uuid current payload = (p, Some m)" "uuid \<noteq> []"
    "loads (dumps p) = Some (PDict p)" "\<And>v. py_bool v \<Longrightarrow> str v \<noteq> []"
    "map_of d ''data'' = Some (PStr (dumps p))"
  shows "\<exists>m'. extract_task_metadata loads str (PDict d) = Some m' \<and> md_task_id m' = md_task_id m \<and>
    md_work_id m' = md_work_id m \<and>
    (md_account_id m \<noteq> [] \<and> md_user_id m \<noteq> [] \<and> \<not> blank_key payload ''account_id'' \<and>
     \<not> blank_key payload ''user_id'' \<longrightarrow> m' = m)"
proof -
  note p = prepared_payload [OF assms(1,2)]
  have ids: "md_task_id m \<noteq> []" "md_work_id m \<noteq> []"
    using prepare_task_payload_Some [OF assms(1,2)] by simp_all
  have "payload_dict loads (PDict d) = Some p"
    using assms(3,5) by (simp add: payload_dict_def dict_get_default_def)
  then have "extract_task_metadata loads str (PDict d) =
      Some \<lparr>md_task_id = md_task_id m, md_work_id = md_work_id m,
        md_account_id = fst (owner_from_payload str p), md_user_id = snd (owner_from_payload str p)\<rparr>"
    using ids p(1,2) by (simp add: extract_task_metadata_def split_def Let_def)
  then show ?thesis
    using prepared_owner [OF assms(1,2)] assms(4) by simp
qed

theorem task_metadata_roundtrip_witness:
  "extract_task_metadata (\<lambda>_. Some (PDict [(''task_id'', PStr ''t''), (''_task_work_id'', PStr ''w''), (''account_id'', PStr ''a''), (''user_id'', PStr ''u'')]))
     (\<lambda>_. ''x'') (PDict [(''data'', PStr ''j'')]) =
   Some \<lparr>md_task_id = ''t'', md_work_id = ''w'', md_account_id = ''a'', md_user_id = ''u''\<rparr>"
  using task_metadata_roundtrip [of "\<lambda>_. ''x''" "''w''"
      "Some \<lparr>tc_task_id = ''t'', tc_account_id = ''a'', tc_user_id = ''u''\<rparr>" "[]"
      "[(''task_id'', PStr ''t''), (''_task_work_id'', PStr ''w''), (''account_id'', PStr ''a''), (''user_id'', PStr ''u'')]"
      "\<lparr>md_task_id = ''t'', md_work_id = ''w'', md_account_id = ''a'', md_user_id = ''u''\<rparr>"
      "\<lambda>_. Some (PDict [(''task_id'', PStr ''t''), (''_task_work_id'', PStr ''w''), (''account_id'', PStr ''a''), (''user_id'', PStr ''u'')])"
      "\<lambda>_. ''j''" "[(''data'', PStr ''j'')]"]
  by (simp add: prepare_task_payload_def owner_from_payload_def dict_get_def str_or_def str_or_empty_def blank_key_def
      Let_def TASK_WORK_ID_FIELD_def setdefault_def)


text \<open>One message of one task, after its handler returned.\<close>

definition one_work :: task_metadata where
  "one_work = \<lparr>md_task_id = ''t'', md_work_id = ''w'', md_account_id = ''a'', md_user_id = ''u''\<rparr>"

definition one_handled :: "task_metadata queue_sys" where
  "one_handled = new_sys\<lparr>qs_index := TaskWorkIndex\<lparr>tw_work := [''t'' \<mapsto> {(''q'', ''w'')}]\<rparr>,
     qs_durable := [0 \<mapsto> (''q'', one_work, True)], qs_handled := {0}\<rparr>"

lemma one_handled_reachable: "queue_reachable Some one_handled"
proof -
  let ?idx = "TaskWorkIndex\<lparr>tw_work := [''t'' \<mapsto> {(''q'', ''w'')}]\<rparr>"
  let ?s1 = "new_sys\<lparr>qs_index := ?idx, qs_enqueuing := {(''q'', one_work)}\<rparr> :: task_metadata queue_sys"
  let ?s2 = "new_sys\<lparr>qs_index := ?idx, qs_durable := [0 \<mapsto> (''q'', one_work, False)]\<rparr>"
  let ?s3 = "new_sys\<lparr>qs_index := ?idx\<lparr>tw_active := [''t'' \<mapsto> {0}]\<rparr>, qs_durable := [0 \<mapsto> (''q'', one_work, True)],
    qs_running := {0}\<rparr>"
  note start = new_sys_def TaskWorkIndex_def one_work_def
  have "queue_step Some new_sys ?s1"
    using enqueue_register [of "\<lambda>_. False" new_sys "''q''" one_work ?idx Some]
    by (simp add: start register_def add_entry_def fresh_work_def)
  moreover have "queue_step Some ?s1 ?s2"
    using enqueue_write [of "''q''" one_work ?s1 Some one_work 0] by (simp add: start)
  moreover have "queue_step Some ?s2 ?s3"
    using deliver [where s = ?s2 and i = 0 and q = "''q''" and b = one_work and meta_of = Some and cancelled = "\<lambda>_. False"]
    by (simp add: start register_active_def add_entry_def)
  moreover have "queue_step Some ?s3 one_handled"
    using handler_ends [where s = ?s3 and i = 0 and q = "''q''" and b = one_work and meta_of = Some and raised = False]
    by (simp add: start one_handled_def unregister_active_def discard_entry_def)
  ultimately show ?thesis
    by (meson reach_new reach_step)
qed


text \<open>The work of a task that is neither done nor being acknowledged.\<close>

definition pending_work :: "('m \<Rightarrow> task_metadata option) \<Rightarrow> 'm queue_sys \<Rightarrow> string \<Rightarrow> (string \<times> task_metadata) set" where
  "pending_work meta_of s t = {(q, m). live meta_of s q m \<and> md_task_id m = t}"



end
