(* ===== verification/Queue_Worker.thy ===== *)
theory Queue_Worker
  imports Task_Work
begin

text \<open>
  The workers of a queue: the counters and callbacks of \<^verbatim>\<open>storage/queuefs/named_queue.py\<close>, what
  \<^verbatim>\<open>process_dequeued\<close> makes of the end of a handler, the serial and the concurrent worker of
  \<^verbatim>\<open>storage/queuefs/queue_manager.py\<close> with the completion check of waiting callers, and \<^verbatim>\<open>clear\<close>,
  which acknowledges every message of a queue at once.

  A handler is what it does: the reports it makes and how it ends.
\<close>

section \<open>Counters\<close>

record queue_counters =
  qc_in_progress :: int
  qc_processed :: int
  qc_requeue_count :: int
  qc_error_count :: int
  qc_errors :: "string list"

definition reset_status :: queue_counters where
  "reset_status = \<lparr>qc_in_progress = 0, qc_processed = 0, qc_requeue_count = 0, qc_error_count = 0,
     qc_errors = []\<rparr>"

definition MAX_ERRORS :: nat where "MAX_ERRORS = 100"

text \<open>The state of a queue is its counters and the shared index of task work.\<close>

type_synonym queue_state = "queue_counters \<times> task_work_index"

definition on_dequeue_start :: "queue_state \<Rightarrow> queue_state" where
  "on_dequeue_start st = ((fst st)\<lparr>qc_in_progress := qc_in_progress (fst st) + 1\<rparr>, snd st)"

definition on_process_success :: "queue_state \<Rightarrow> queue_state" where
  "on_process_success st =
     ((fst st)\<lparr>qc_in_progress := qc_in_progress (fst st) - 1, qc_processed := qc_processed (fst st) + 1\<rparr>, snd st)"

definition on_process_requeue :: "queue_state \<Rightarrow> queue_state" where
  "on_process_requeue st = ((fst st)\<lparr>qc_requeue_count := qc_requeue_count (fst st) + 1\<rparr>, snd st)"

definition on_process_error :: "string \<Rightarrow> task_metadata option \<Rightarrow> queue_state \<Rightarrow> queue_state" where
  "on_process_error error_msg metadata st =
     (let idx = (case metadata of None \<Rightarrow> snd st | Some m \<Rightarrow> record_failure_of (snd st) (md_task_id m) error_msg);
          errors = qc_errors (fst st) @ [error_msg]
      in ((fst st)\<lparr>qc_in_progress := qc_in_progress (fst st) - 1, qc_error_count := qc_error_count (fst st) + 1,
            qc_errors := (if length errors > MAX_ERRORS then drop (length errors - MAX_ERRORS) errors
                          else errors)\<rparr>, idx))"

definition queue_is_complete :: "nat \<Rightarrow> queue_counters \<Rightarrow> bool" where
  "queue_is_complete pending c \<longleftrightarrow> pending = 0 \<and> qc_in_progress c = 0"

definition is_all_complete :: "(nat \<times> queue_counters) list \<Rightarrow> bool" where
  "is_all_complete statuses = list_all (\<lambda>(pending, c). queue_is_complete pending c) statuses"

section \<open>Handlers\<close>

datatype report = ReportSuccess | ReportRequeue | ReportError string

datatype ending = Returns | Raises string | Cancelled

type_synonym handler_run = "report list \<times> ending"

fun apply_report :: "task_metadata option \<Rightarrow> report \<Rightarrow> queue_state \<Rightarrow> queue_state" where
  "apply_report metadata ReportSuccess st = on_process_success st"
| "apply_report metadata ReportRequeue st = on_process_requeue st"
| "apply_report metadata (ReportError e) st = on_process_error e metadata st"

definition apply_reports :: "task_metadata option \<Rightarrow> report list \<Rightarrow> queue_state \<Rightarrow> queue_state" where
  "apply_reports metadata reports st = fold (apply_report metadata) reports st"

text \<open>A delivered message: its metadata, whether its task is cancelled when the handler would start and
  when it ended, and the run of the handler.\<close>

record delivery =
  dl_meta :: "task_metadata option"
  dl_cancelled_before :: bool
  dl_cancelled_after :: bool
  dl_run :: handler_run

text \<open>\<open>process_dequeued\<close> with a handler and an index: a message of a cancelled task is reported as a
  success without running its handler, and a handler interrupted by the cancellation of its task
  counts as a success.\<close>

definition process_dequeued :: "delivery \<Rightarrow> queue_state \<Rightarrow> ending \<times> queue_state" where
  "process_dequeued d st =
     (case dl_meta d of
        None \<Rightarrow> (snd (dl_run d), apply_reports None (fst (dl_run d)) st)
      | Some m \<Rightarrow>
          if dl_cancelled_before d then (Returns, on_process_success st)
          else
            let st' = apply_reports (Some m) (fst (dl_run d)) st
            in case snd (dl_run d) of
                 Cancelled \<Rightarrow> if dl_cancelled_after d then (Returns, on_process_success st') else (Cancelled, st')
               | e \<Rightarrow> (e, st'))"

text \<open>The serial worker calls \<open>dequeue\<close>, which swallows the exceptions of the handler; the concurrent
  worker runs \<open>process_one\<close>, which counts them as errors. Both acknowledge exactly the messages whose
  handler returned; cancellation propagates. The result tells whether the message is acknowledged.\<close>

definition dequeue :: "delivery \<Rightarrow> queue_state \<Rightarrow> bool \<times> queue_state" where
  "dequeue d st =
     (case process_dequeued d (on_dequeue_start st) of
        (Returns, st') \<Rightarrow> (True, st')
      | (Raises e, st') \<Rightarrow> (False, st')
      | (Cancelled, st') \<Rightarrow> (False, st'))"

definition process_one :: "delivery \<Rightarrow> queue_state \<Rightarrow> bool \<times> queue_state" where
  "process_one d st =
     (case process_dequeued d (on_dequeue_start st) of
        (Returns, st') \<Rightarrow> (True, st')
      | (Raises e, st') \<Rightarrow> (False, on_process_error e (dl_meta d) st')
      | (Cancelled, st') \<Rightarrow> (False, st'))"

text \<open>A worker takes the deliveries one after the other; with more than one slot it is the concurrent
  one.\<close>

definition worker_step :: "nat \<Rightarrow> delivery \<Rightarrow> queue_state \<Rightarrow> bool \<times> queue_state" where
  "worker_step max_concurrent = (if max_concurrent > 1 then process_one else dequeue)"

fun run_worker :: "nat \<Rightarrow> delivery list \<Rightarrow> queue_state \<Rightarrow> bool list \<times> queue_state" where
  "run_worker n [] st = ([], st)"
| "run_worker n (d # ds) st =
     (let (acked, st') = worker_step n d st; (more, st'') = run_worker n ds st'
      in (acked # more, st''))"

text \<open>The contract of the handlers: one terminal report when they return, none when they raise or are
  cancelled.\<close>

definition terminal :: "report \<Rightarrow> bool" where
  "terminal r \<longleftrightarrow> r \<noteq> ReportRequeue"

definition reports_once :: "handler_run \<Rightarrow> bool" where
  "reports_once r \<longleftrightarrow> length (filter terminal (fst r)) = (if snd r = Returns then 1 else 0)"

definition final_ending :: "delivery \<Rightarrow> ending" where
  "final_ending d =
     (if dl_meta d \<noteq> None \<and> (dl_cancelled_before d \<or> dl_cancelled_after d \<and> snd (dl_run d) = Cancelled)
      then Returns else snd (dl_run d))"

section \<open>Clearing a queue\<close>

text \<open>\<open>finalize\<close> is the callback of the index and its outcome; \<open>metas\<close> are the messages of the
  snapshot.\<close>

fun clear_prepare :: "(task_metadata \<Rightarrow> unit res) option \<Rightarrow> string \<Rightarrow> task_metadata option list \<Rightarrow> task_metadata list
    \<Rightarrow> task_work_index \<Rightarrow> unit res \<times> task_metadata list \<times> task_work_index" where
  "clear_prepare finalize name [] prepared idx = (Ok (), prepared, idx)"
| "clear_prepare finalize name (m # metas) prepared idx =
     (case prepare_ack (case (finalize, m) of (Some f, Some md) \<Rightarrow> Some (f md) | _ \<Rightarrow> None) idx name m of
        (Inl e, called, idx') \<Rightarrow> (Raise e, prepared, idx')
      | (Inr None, called, idx') \<Rightarrow> clear_prepare finalize name metas prepared idx'
      | (Inr (Some md), called, idx') \<Rightarrow> clear_prepare finalize name metas (prepared @ [md]) idx')"

definition rollback_all :: "string \<Rightarrow> task_metadata list \<Rightarrow> task_work_index \<Rightarrow> task_work_index" where
  "rollback_all name prepared idx = foldl (\<lambda>i m. rollback_ack i name m) idx prepared"

definition clear_queue :: "(task_metadata \<Rightarrow> unit res) option \<Rightarrow> string \<Rightarrow> task_metadata option list \<Rightarrow> unit res
    \<Rightarrow> task_work_index \<Rightarrow> bool \<times> task_work_index" where
  "clear_queue finalize name metas write idx =
     (case clear_prepare finalize name metas [] idx of
        (Inl e, prepared, idx') \<Rightarrow> (False, rollback_all name prepared idx')
      | (Inr _, prepared, idx') \<Rightarrow>
          (case write of
             Inr _ \<Rightarrow> (True, idx')
           | Inl e \<Rightarrow> (False, rollback_all name prepared idx')))"

section \<open>Accounting\<close>

lemma counter_updates [simp]:
  "qc_in_progress (fst (on_dequeue_start st)) = qc_in_progress (fst st) + 1"
  "qc_in_progress (fst (on_process_success st)) = qc_in_progress (fst st) - 1"
  "qc_in_progress (fst (on_process_requeue st)) = qc_in_progress (fst st)"
  "qc_in_progress (fst (on_process_error e m st)) = qc_in_progress (fst st) - 1"
  by (simp_all add: on_dequeue_start_def on_process_success_def on_process_requeue_def on_process_error_def Let_def)

definition settled :: "queue_state \<Rightarrow> int" where
  "settled st = qc_processed (fst st) + qc_error_count (fst st)"

lemma settled_updates [simp]:
  "settled (on_dequeue_start st) = settled st"
  "settled (on_process_success st) = settled st + 1"
  "settled (on_process_requeue st) = settled st"
  "settled (on_process_error e m st) = settled st + 1"
  by (simp_all add: settled_def on_dequeue_start_def on_process_success_def on_process_requeue_def on_process_error_def Let_def)

lemma apply_report_counts:
  "qc_in_progress (fst (apply_report m r st)) = qc_in_progress (fst st) - (if terminal r then 1 else 0)"
  "settled (apply_report m r st) = settled st + (if terminal r then 1 else 0)"
  by (cases r; simp add: terminal_def)+

lemma apply_reports_counts:
  "qc_in_progress (fst (apply_reports m rs st)) = qc_in_progress (fst st) - int (length (filter terminal rs))"
  "settled (apply_reports m rs st) = settled st + int (length (filter terminal rs))"
  by (induction rs arbitrary: st) (simp_all add: apply_reports_def apply_report_counts)

lemma process_dequeued_ending: "fst (process_dequeued d st) = final_ending d"
  by (simp add: process_dequeued_def final_ending_def Let_def split: option.split ending.split)

lemma process_dequeued_counts:
  assumes "reports_once (dl_run d)"
  shows "qc_in_progress (fst (snd (process_dequeued d st))) =
      qc_in_progress (fst st) - (if final_ending d = Returns then 1 else 0)"
    "settled (snd (process_dequeued d st)) = settled st + (if final_ending d = Returns then 1 else 0)"
  using assms
  by (auto simp: process_dequeued_def final_ending_def reports_once_def apply_reports_counts Let_def
      split: option.split ending.split)

text \<open>The deliveries that stay counted as in progress: those cut off by a cancellation from outside, and
  for the serial worker those whose handler raises.\<close>

definition leaks :: "nat \<Rightarrow> delivery \<Rightarrow> bool" where
  "leaks n d \<longleftrightarrow> final_ending d \<noteq> Returns \<and> (n > 1 \<longrightarrow> final_ending d = Cancelled)"

lemma worker_step_counts:
  assumes "reports_once (dl_run d)"
  shows "fst (worker_step n d st) = (final_ending d = Returns)"
    "qc_in_progress (fst (snd (worker_step n d st))) = qc_in_progress (fst st) + (if leaks n d then 1 else 0)"
    "settled (snd (worker_step n d st)) = settled st + (if leaks n d then 0 else 1)"
proof -
  obtain e st' where p: "process_dequeued d (on_dequeue_start st) = (e, st')" by (metis prod.exhaust)
  have e: "e = final_ending d"
    using process_dequeued_ending [of d "on_dequeue_start st"] by (simp add: p)
  note counts = process_dequeued_counts [OF assms, of "on_dequeue_start st", unfolded p]
  show "fst (worker_step n d st) = (final_ending d = Returns)"
    "qc_in_progress (fst (snd (worker_step n d st))) = qc_in_progress (fst st) + (if leaks n d then 1 else 0)"
    "settled (snd (worker_step n d st)) = settled st + (if leaks n d then 0 else 1)"
    using counts
    by (auto simp: worker_step_def process_one_def dequeue_def p e [symmetric] leaks_def split: ending.split)
qed

lemma run_worker_counts:
  assumes "list_all (\<lambda>d. reports_once (dl_run d)) ds" "run_worker n ds st = (acks, st')"
  shows "acks = map (\<lambda>d. final_ending d = Returns) ds \<and>
    qc_in_progress (fst st') = qc_in_progress (fst st) + int (length (filter (leaks n) ds)) \<and>
    settled st' + int (length (filter (leaks n) ds)) = settled st + int (length ds)"
  using assms
proof (induction ds arbitrary: st acks)
  case (Cons d ds)
  obtain a st1 more where step: "worker_step n d st = (a, st1)" "run_worker n ds st1 = (more, st')" "acks = a # more"
    using Cons.prems(2) by (auto simp: Let_def split: prod.splits)
  have "reports_once (dl_run d)" "list_all (\<lambda>d. reports_once (dl_run d)) ds"
    using Cons.prems(1) by simp_all
  with Cons.IH [OF this(2) step(2)] worker_step_counts [OF this(1), of n st] step show ?case by auto
qed simp



text \<open>One exception in a serial worker and waiting callers never finish: once a handler has raised in a
  queue with one worker slot, no later deliveries to well-behaved handlers make the queue complete
  again, although every later message is processed and acknowledged.\<close>

theorem serial_worker_never_complete:
  assumes "list_all (\<lambda>d. reports_once (dl_run d)) ds" "d \<in> set ds" "final_ending d = Raises e"
    "n \<le> 1" "0 \<le> qc_in_progress (fst st)"
  shows "\<not> is_all_complete ((pending, fst (snd (run_worker n ds st))) # others)"
proof -
  have "d \<in> set (filter (leaks n) ds)"
    using assms(2-4) by (simp add: leaks_def)
  then have "int (length (filter (leaks n) ds)) > 0"
    using length_pos_if_in_set by fastforce
  then have "qc_in_progress (fst (snd (run_worker n ds st))) > 0"
    using run_worker_counts [OF assms(1) prod.collapse [symmetric], of n st] assms(5) by linarith
  then show ?thesis
    by (simp add: is_all_complete_def queue_is_complete_def)
qed

theorem serial_worker_never_complete_witness:
  "\<not> is_all_complete [(0, fst (snd (run_worker 1
     [\<lparr>dl_meta = None, dl_cancelled_before = False, dl_cancelled_after = False, dl_run = ([], Raises ''boom'')\<rparr>,
      \<lparr>dl_meta = None, dl_cancelled_before = False, dl_cancelled_after = False, dl_run = ([ReportSuccess], Returns)\<rparr>]
     (reset_status, TaskWorkIndex))))]"
  by (rule serial_worker_never_complete
      [where d = "\<lparr>dl_meta = None, dl_cancelled_before = False, dl_cancelled_after = False, dl_run = ([], Raises ''boom'')\<rparr>"
         and e = "''boom''"])
    (simp_all add: reports_once_def terminal_def final_ending_def reset_status_def)

section \<open>Clearing is all or nothing\<close>

text \<open>The entries of the messages that are prepared, by task.\<close>

definition entries_of :: "string \<Rightarrow> task_metadata list \<Rightarrow> string \<Rightarrow> work_entry set" where
  "entries_of name ms t = {(name, md_work_id m) | m. m \<in> set ms \<and> md_task_id m = t}"

lemma rollback_all_entries:
  "entries (tw_work (rollback_all name ms idx)) t = entries (tw_work idx) t \<union> entries_of name ms t"
  by (induction ms arbitrary: idx) (auto simp: rollback_all_def rollback_ack_def entries_of_def)

lemma prepare_ack_entries:
  assumes "prepare_ack finalize idx name m = (r, called, idx')"
  shows "(\<exists>e. r = Inl e) \<and> entries (tw_work idx') t = entries (tw_work idx) t \<or>
    (\<exists>p. r = Inr p \<and> entries (tw_work idx') t = entries (tw_work idx) t - entries_of name (case m of None \<Rightarrow> [] | Some md \<Rightarrow> [md]) t \<and>
       entries (tw_work idx') t \<union> entries_of name (case p of None \<Rightarrow> [] | Some md \<Rightarrow> [md]) t = entries (tw_work idx) t)"
proof (cases m)
  case None
  with assms show ?thesis by (auto simp: prepare_ack_def entries_of_def)
next
  case (Some md)
  show ?thesis
    using assms unfolding Some
    by (auto simp: prepare_ack_def remove_work_def rollback_ack_def entries_of_def Let_def
        split: if_splits option.splits sum.splits)
qed

lemma entries_of_append: "entries_of name (ms @ ms') t = entries_of name ms t \<union> entries_of name ms' t"
  by (auto simp: entries_of_def)

lemma clear_prepare_entries:
  assumes "clear_prepare finalize name metas prepared idx = (r, prepared', idx')"
  shows "entries (tw_work idx') t \<union> entries_of name prepared' t = entries (tw_work idx) t \<union> entries_of name prepared t \<and>
    (r = Ok () \<longrightarrow> entries (tw_work idx') t = entries (tw_work idx) t - entries_of name (List.map_filter id metas) t)"
  using assms
proof (induction metas arbitrary: prepared idx)
  case Nil
  then show ?case by (simp add: entries_of_def map_filter_simps)
next
  case (Cons m metas)
  obtain p called idx1 where p: "prepare_ack (case (finalize, m) of (Some f, Some md) \<Rightarrow> Some (f md) | _ \<Rightarrow> None) idx name m
      = (p, called, idx1)" by (metis prod.exhaust)
  have split: "entries_of name (List.map_filter id (m # metas)) t =
      entries_of name (case m of None \<Rightarrow> [] | Some md \<Rightarrow> [md]) t \<union> entries_of name (List.map_filter id metas) t"
    by (auto simp: entries_of_def map_filter_simps split: option.split)
  from prepare_ack_entries [OF p, of t] show ?case
  proof (elim disjE exE conjE)
    fix e
    assume "p = Inl e" "entries (tw_work idx1) t = entries (tw_work idx) t"
    then show ?thesis using Cons.prems p by auto
  next
    fix q
    assume q: "p = Inr q"
      "entries (tw_work idx1) t = entries (tw_work idx) t - entries_of name (case m of None \<Rightarrow> [] | Some md \<Rightarrow> [md]) t"
      "entries (tw_work idx1) t \<union> entries_of name (case q of None \<Rightarrow> [] | Some md \<Rightarrow> [md]) t = entries (tw_work idx) t"
    then have "clear_prepare finalize name metas (prepared @ (case q of None \<Rightarrow> [] | Some md \<Rightarrow> [md])) idx1 = (r, prepared', idx')"
      using Cons.prems p by (auto split: option.splits)
    from Cons.IH [OF this] q show ?thesis
      unfolding split entries_of_append by blast
  qed
qed

text \<open>Clearing a queue is all or nothing for the index: a clear that fails, in the finalizer of some
  task or in the write, leaves the work of every task as it was; one that succeeds removes exactly the
  entries of the messages it saw.\<close>

theorem clear_all_or_nothing:
  "entries (tw_work (snd (clear_queue finalize name metas write idx))) t =
     (if fst (clear_queue finalize name metas write idx)
      then entries (tw_work idx) t - entries_of name (List.map_filter id metas) t
      else entries (tw_work idx) t)"
proof -
  obtain r prepared idx' where c: "clear_prepare finalize name metas [] idx = (r, prepared, idx')"
    by (metis prod.exhaust)
  from clear_prepare_entries [OF this, of t] show ?thesis
    by (auto simp: clear_queue_def c rollback_all_entries entries_of_def split: sum.split)
qed

end
