(* ===== verification/Task_Sanitize.thy ===== *)
theory Task_Sanitize
  imports PyValue
begin

text \<open>
  What task snapshots may show (\<^verbatim>\<open>service/task_tracker.py\<close>): the redaction of secrets in error messages, a
  regular expression substitution, and the removal of sensitive fields from results.
\<close>

section \<open>Sanitizing\<close>

text \<open>\<^verbatim>\<open>(sk-|cr_|ghp_|ntn_|xox[baprs]-|Bearer\s+)[a-zA-Z0-9._-]+\<close>, without regard to case: the prefix at the start
  of a text gives the rest behind it. Letters outside ASCII that fold to these are not characters of
  the model.\<close>

definition token_char :: "char \<Rightarrow> bool" where
  "token_char c \<longleftrightarrow> ascii_alnum c \<or> c \<in> set ''._-''"

fun literal_prefix :: "string \<Rightarrow> string \<Rightarrow> string option" where
  "literal_prefix [] s = Some s"
| "literal_prefix (p # ps) [] = None"
| "literal_prefix (p # ps) (c # s) = (if py_lower [c] = [p] then literal_prefix ps s else None)"

definition SECRET_PREFIXES :: "string list" where
  "SECRET_PREFIXES = [''sk-'', ''cr_'', ''ghp_'', ''ntn_'', ''xoxb-'', ''xoxa-'', ''xoxp-'', ''xoxr-'', ''xoxs-'']"

definition bearer_rest :: "string \<Rightarrow> string option" where
  "bearer_rest s =
     (case literal_prefix ''bearer'' s of
        Some (c # r) \<Rightarrow> if py_isspace c then Some (dropWhile py_isspace r) else None
      | _ \<Rightarrow> None)"

text \<open>A secret at the start of a text: the first prefix that is followed by a token character. The rest
  is what the greedy token leaves.\<close>

definition after_token :: "string \<Rightarrow> string option" where
  "after_token r = (case r of [] \<Rightarrow> None | c # _ \<Rightarrow> if token_char c then Some (dropWhile token_char r) else None)"

fun first_some :: "'a option list \<Rightarrow> 'a option" where
  "first_some [] = None"
| "first_some (None # xs) = first_some xs"
| "first_some (Some x # xs) = Some x"

definition match_secret :: "string \<Rightarrow> string option" where
  "match_secret s =
     first_some (map (\<lambda>rest. Option.bind rest after_token)
       (map (\<lambda>p. literal_prefix p s) SECRET_PREFIXES @ [bearer_rest s]))"

lemma first_some_in: "first_some xs = Some r \<Longrightarrow> Some r \<in> set xs"
  by (induction xs rule: first_some.induct) auto

lemma first_some_None: "first_some xs = None \<longleftrightarrow> (\<forall>x \<in> set xs. x = None)"
  by (induction xs rule: first_some.induct) auto

lemma match_secret_None:
  "match_secret s = None \<longleftrightarrow>
     (\<forall>p \<in> set SECRET_PREFIXES. Option.bind (literal_prefix p s) after_token = None) \<and>
     Option.bind (bearer_rest s) after_token = None"
  by (auto simp: match_secret_def first_some_None)

lemma literal_prefix_length: "literal_prefix p s = Some r \<Longrightarrow> length r + length p = length s"
  by (induction p s rule: literal_prefix.induct) (auto split: if_splits)

lemma bearer_rest_length: "bearer_rest s = Some r \<Longrightarrow> length r \<le> length s"
  by (auto simp: bearer_rest_def dest!: literal_prefix_length split: option.splits list.splits if_splits
      intro: le_trans [OF length_dropWhile_le])

lemma after_token_length: "after_token r = Some t \<Longrightarrow> length t < length r"
  by (auto simp: after_token_def less_Suc_eq_le length_dropWhile_le split: list.splits if_splits)

lemma match_secret_shorter:
  assumes "match_secret s = Some r"
  shows "length r < length s"
proof -
  from assms have "Some r \<in> set (map (\<lambda>rest. Option.bind rest after_token)
      (map (\<lambda>p. literal_prefix p s) SECRET_PREFIXES @ [bearer_rest s]))"
    unfolding match_secret_def by (rule first_some_in)
  then have "(\<exists>p. Option.bind (literal_prefix p s) after_token = Some r) \<or> Option.bind (bearer_rest s) after_token = Some r"
    by auto
  then obtain r' where "after_token r' = Some r" "(\<exists>p. literal_prefix p s = Some r') \<or> bearer_rest s = Some r'"
    unfolding bind_eq_Some_conv by blast
  then show ?thesis
    using after_token_length bearer_rest_length literal_prefix_length by fastforce
qed

function redact :: "string \<Rightarrow> string" where
  "redact [] = []"
| "redact (c # s) = (case match_secret (c # s) of Some r \<Rightarrow> ''[REDACTED]'' @ redact r | None \<Rightarrow> c # redact s)"
  by pat_completeness auto
termination
  by (relation "measure length") (auto dest: match_secret_shorter)

definition MAX_ERROR_LEN :: nat where "MAX_ERROR_LEN = 500"

definition sanitize_error :: "string \<Rightarrow> string" where
  "sanitize_error error =
     (let sanitized = redact error
      in if length sanitized > MAX_ERROR_LEN then take MAX_ERROR_LEN sanitized @ ''...[truncated]'' else sanitized)"

definition SENSITIVE_RESULT_KEYS :: "string list" where
  "SENSITIVE_RESULT_KEYS = [''user_key'']"

fun sanitize_task_result :: "pyval \<Rightarrow> pyval"
  and sanitize_items :: "pydict \<Rightarrow> pydict"
  and sanitize_list :: "pyval list \<Rightarrow> pyval list" where
  "sanitize_task_result (PDict d) = PDict (sanitize_items d)"
| "sanitize_task_result (PList xs) = PList (sanitize_list xs)"
| "sanitize_task_result v = v"
| "sanitize_items [] = []"
| "sanitize_items ((k, v) # d) =
     (if k \<notin> set SENSITIVE_RESULT_KEYS then (k, sanitize_task_result v) # sanitize_items d else sanitize_items d)"
| "sanitize_list [] = []"
| "sanitize_list (x # xs) = sanitize_task_result x # sanitize_list xs"

section \<open>Redaction is complete\<close>

text \<open>A text has a secret when a secret starts at one of its positions.\<close>

fun has_secret :: "string \<Rightarrow> bool" where
  "has_secret [] = False"
| "has_secret (c # s) = (match_secret (c # s) \<noteq> None \<or> has_secret s)"

lemma literal_prefix_append: "literal_prefix p x = Some r \<Longrightarrow> literal_prefix p (x @ v) = Some (r @ v)"
  by (induction p x rule: literal_prefix.induct) (auto split: if_splits)

lemma literal_prefix_bracket:
  assumes "literal_prefix p (x @ CHR ''['' # y) = Some r" "CHR ''['' \<notin> set p"
  shows "\<exists>x'. r = x' @ CHR ''['' # y \<and> literal_prefix p (x @ v) = Some (x' @ v)"
  using assms
proof (induction p x rule: literal_prefix.induct)
  case (2 p ps)
  then show ?case by (simp add: py_lower_def split: if_splits)
qed (auto split: if_splits)

lemma after_token_append: "after_token x \<noteq> None \<Longrightarrow> after_token (x @ v) \<noteq> None"
  by (auto simp: after_token_def split: list.splits if_splits)

lemma after_token_bracket:
  assumes "after_token (x @ CHR ''['' # y) \<noteq> None"
  shows "after_token (x @ v) \<noteq> None"
proof (cases x)
  case Nil
  with assms show ?thesis by (simp add: after_token_def token_char_def ascii_alnum_def)
next
  case (Cons c x')
  with assms show ?thesis by (simp add: after_token_def split: if_splits)
qed

lemma dropWhile_token: "\<exists>a \<in> set x. \<not> P a \<Longrightarrow> dropWhile P (x @ v) = dropWhile P x @ v"
  by (meson dropWhile_append1)

lemma bearer_append:
  assumes "Option.bind (bearer_rest x) after_token \<noteq> None"
  shows "Option.bind (bearer_rest (x @ v)) after_token \<noteq> None"
proof -
  obtain c r where r: "literal_prefix ''bearer'' x = Some (c # r)" "py_isspace c" "after_token (dropWhile py_isspace r) \<noteq> None"
    using assms by (auto simp: bearer_rest_def split: option.splits list.splits if_splits)
  then have "\<exists>a \<in> set r. \<not> py_isspace a"
    by (metis after_token_def dropWhile_eq_Nil_conv list.simps(4))
  with r literal_prefix_append [OF r(1), of v] after_token_append show ?thesis
    by (simp add: bearer_rest_def dropWhile_token)
qed

lemma bearer_bracket:
  assumes "Option.bind (bearer_rest (x @ CHR ''['' # y)) after_token \<noteq> None"
  shows "Option.bind (bearer_rest (x @ v)) after_token \<noteq> None"
proof -
  obtain c r where r: "literal_prefix ''bearer'' (x @ CHR ''['' # y) = Some (c # r)" "py_isspace c"
    "after_token (dropWhile py_isspace r) \<noteq> None"
    using assms by (auto simp: bearer_rest_def split: option.splits list.splits if_splits)
  obtain x' where x': "c # r = x' @ CHR ''['' # y" "literal_prefix ''bearer'' (x @ v) = Some (x' @ v)"
    using literal_prefix_bracket [OF r(1), of v] by auto
  have "c \<noteq> CHR ''[''"
    using r(2) by (auto simp: py_isspace_def)
  then obtain x2 where x2: "x' = c # x2" "r = x2 @ CHR ''['' # y"
    using x'(1) by (cases x') auto
  have b: "\<not> py_isspace (CHR ''['')" by (simp add: py_isspace_def)
  have "\<exists>a \<in> set x2. \<not> py_isspace a"
  proof (rule ccontr)
    assume "\<not> ?thesis"
    then have "dropWhile py_isspace r = CHR ''['' # y"
      using b by (simp add: x2(2) dropWhile_append2)
    with r(3) after_token_bracket [of "[]" y "[]"] show False
      by (simp add: after_token_def token_char_def ascii_alnum_def)
  qed
  then have "after_token (dropWhile py_isspace (x2 @ v)) \<noteq> None"
    using r(3) after_token_bracket unfolding x2(2) by (simp add: dropWhile_token)
  with x'(2) r(2) show ?thesis by (simp add: bearer_rest_def x2(1))
qed

lemma prefixes_no_bracket: "p \<in> set SECRET_PREFIXES \<Longrightarrow> CHR ''['' \<notin> set p"
  by (auto simp: SECRET_PREFIXES_def)

lemma match_secret_prefix:
  "\<lbrakk>p \<in> set SECRET_PREFIXES; literal_prefix p s = Some r; after_token r \<noteq> None\<rbrakk> \<Longrightarrow> match_secret s \<noteq> None"
  unfolding match_secret_None by (metis Option.bind.bind_lunit)

lemma match_secret_append: "match_secret x \<noteq> None \<Longrightarrow> match_secret (x @ v) \<noteq> None"
proof (cases "Option.bind (bearer_rest x) after_token = None")
  case True
  assume "match_secret x \<noteq> None"
  with True obtain p r where p: "p \<in> set SECRET_PREFIXES" "literal_prefix p x = Some r" "after_token r \<noteq> None"
    unfolding match_secret_None by (auto simp: bind_eq_None_conv)
  with literal_prefix_append [OF p(2), of v] after_token_append [OF p(3), of v] show ?thesis
    by (intro match_secret_prefix) auto
next
  case False
  from bearer_append [OF this] show ?thesis
    unfolding match_secret_None by blast
qed

lemma match_secret_bracket:
  assumes "match_secret (x @ CHR ''['' # y) \<noteq> None"
  shows "match_secret (x @ v) \<noteq> None"
proof (cases "Option.bind (bearer_rest (x @ CHR ''['' # y)) after_token = None")
  case True
  then obtain p r where p: "p \<in> set SECRET_PREFIXES" "literal_prefix p (x @ CHR ''['' # y) = Some r" "after_token r \<noteq> None"
    using assms unfolding match_secret_None by (auto simp: bind_eq_None_conv)
  obtain x' where x': "r = x' @ CHR ''['' # y" "literal_prefix p (x @ v) = Some (x' @ v)"
    using literal_prefix_bracket [OF p(2) prefixes_no_bracket [OF p(1)]] by blast
  have "after_token (x' @ v) \<noteq> None"
    using p(3) unfolding x'(1) by (rule after_token_bracket)
  then show ?thesis
    by (rule match_secret_prefix [OF p(1) x'(2)])
next
  case False
  from bearer_bracket [OF this] show ?thesis
    unfolding match_secret_None by blast
qed

text \<open>The mark itself hides no secret, whatever follows.\<close>

lemma mark_lower: "map (\<lambda>c. py_lower [c]) ''[REDACTED]'' = map (\<lambda>c. [c]) ''[redacted]''"
  by code_simp

lemma redacted_mark_clean:
  "t \<in> set (suffixes ''[REDACTED]'') \<Longrightarrow> t \<noteq> [] \<Longrightarrow> match_secret (t @ v) = None"
  unfolding match_secret_None
  using mark_lower by (auto simp: SECRET_PREFIXES_def bearer_rest_def)

lemma has_secret_append: "has_secret (x @ y) \<longleftrightarrow> has_secret y \<or> (\<exists>t \<in> set (suffixes x). t \<noteq> [] \<and> match_secret (t @ y) \<noteq> None)"
  by (induction x) auto

lemma clean_append:
  assumes "\<not> has_secret y" "\<And>t. \<lbrakk>t \<in> set (suffixes x); t \<noteq> []\<rbrakk> \<Longrightarrow> match_secret (t @ y) = None"
  shows "\<not> has_secret (x @ y)"
proof
  assume "has_secret (x @ y)"
  then obtain t where t: "t \<in> set (suffixes x)" "t \<noteq> []" "match_secret (t @ y) \<noteq> None"
    using assms(1) has_secret_append by blast
  from assms(2) [OF t(1,2)] t(3) show False by (rule notE [rotated])
qed

lemma redact_unfold:
  "(\<exists>u v w. s = u @ v \<and> redact s = u @ CHR ''['' # w) \<or> redact s = s"
proof (induction s rule: redact.induct)
  case (2 c s)
  show ?case
  proof (cases "match_secret (c # s)")
    case None
    from 2(1) [OF None] show ?thesis
      by (simp add: None) (metis append_Cons)
  qed (auto intro: exI [of _ "[]"])
qed simp

lemma redact_clean: "\<not> has_secret (redact s)"
proof (induction s rule: redact.induct)
  case (2 c s)
  show ?case
  proof (cases "match_secret (c # s)")
    case None
    have "match_secret (c # redact s) = None"
    proof (cases "redact s = s")
      case False
      then obtain u v w where "s = u @ v" "redact s = u @ CHR ''['' # w"
        using redact_unfold [of s] by blast
      with match_secret_bracket [of "c # u" w v] None show ?thesis by (metis append_Cons)
    qed (simp add: None)
    with None 2(1) [OF None] show ?thesis by simp
  next
    case (Some r)
    then have "redact (c # s) = ''[REDACTED]'' @ redact r" by simp
    with clean_append [OF 2(2) [OF Some] redacted_mark_clean] show ?thesis by metis
  qed
qed simp

lemma has_secret_take: "\<not> has_secret s \<Longrightarrow> \<not> has_secret (take n s)"
proof (induction s arbitrary: n)
  case (Cons c s)
  show ?case
  proof (cases n)
    case (Suc k)
    have "match_secret (c # take k s) = None"
      using Cons.prems match_secret_append [of "c # take k s" "drop k s"] by (metis append_Cons append_take_drop_id has_secret.simps(2))
    with Suc Cons show ?thesis by simp
  qed simp
qed simp

text \<open>Errors are redacted completely: no text recorded for a failed task shows a secret in the part taken
  from the message, and it is at most the limit and the truncation mark long.\<close>

theorem sanitized_error_clean:
  "\<not> has_secret (take MAX_ERROR_LEN (sanitize_error e)) \<and> length (sanitize_error e) \<le> MAX_ERROR_LEN + 14"
  using redact_clean [of e] has_secret_take by (auto simp: sanitize_error_def Let_def)

text \<open>Where a value shows a field.\<close>

fun exposes :: "string \<Rightarrow> pyval \<Rightarrow> bool"
  and exposes_items :: "string \<Rightarrow> pydict \<Rightarrow> bool"
  and exposes_list :: "string \<Rightarrow> pyval list \<Rightarrow> bool" where
  "exposes key (PDict d) = exposes_items key d"
| "exposes key (PList xs) = exposes_list key xs"
| "exposes key v = False"
| "exposes_items key [] = False"
| "exposes_items key ((k, v) # d) = (k = key \<or> exposes key v \<or> exposes_items key d)"
| "exposes_list key [] = False"
| "exposes_list key (x # xs) = (exposes key x \<or> exposes_list key xs)"

lemma sanitized_no_key:
  assumes "key \<in> set SENSITIVE_RESULT_KEYS"
  shows "\<not> exposes key (sanitize_task_result v)" "\<not> exposes_items key (sanitize_items d)"
    "\<not> exposes_list key (sanitize_list xs)"
  using assms
  by (induction v and d and xs rule: sanitize_task_result_sanitize_items_sanitize_list.induct) auto

lemma sanitize_keeps:
  assumes "\<And>key. key \<in> set SENSITIVE_RESULT_KEYS \<Longrightarrow> \<not> exposes key v"
  shows "sanitize_task_result v = v"
  using assms
proof -
  have "(\<forall>key \<in> set SENSITIVE_RESULT_KEYS. \<not> exposes key v) \<longrightarrow> sanitize_task_result v = v"
    "(\<forall>key \<in> set SENSITIVE_RESULT_KEYS. \<not> exposes_items key d) \<longrightarrow> sanitize_items d = d"
    "(\<forall>key \<in> set SENSITIVE_RESULT_KEYS. \<not> exposes_list key xs) \<longrightarrow> sanitize_list xs = xs" for d xs
    by (induction v and d and xs rule: sanitize_task_result_sanitize_items_sanitize_list.induct) auto
  with assms show ?thesis by blast
qed

end
