(* ===== verification/Task_Tracker.thy ===== *)
theory Task_Tracker
  imports Queue_Worker Task_Sanitize
begin

text \<open>
  Tracked background tasks: \<^verbatim>\<open>service/task_tracker.py\<close> over \<^verbatim>\<open>service/task_store.py\<close>. A task record lives in a
  store, one file per owner and task, and in a process-local cache; the index of queue work of theory
  \<^verbatim>\<open>Task_Work\<close> decides when a task may become terminal.

  Mutations of a task run under the lock of its identifier, so that an operation is one step, except that
  recording an outcome and cancelling release the lock before they finalize: there the two halves are
  separate steps. A write of the store takes effect, fails without effect, or fails although it took
  effect. A read may fail too. Clock readings and the outcomes of reads and writes are arguments.
  \<^verbatim>\<open>math.nextafter\<close> is a parameter. The JSON form of a record is not modelled: the store holds records.
\<close>

section \<open>Records\<close>

datatype task_status = PENDING | RUNNING | CANCELLING | COMPLETED | FAILED | CANCELLED

fun status_value :: "task_status \<Rightarrow> string" where
  "status_value PENDING = ''pending''"
| "status_value RUNNING = ''running''"
| "status_value CANCELLING = ''cancelling''"
| "status_value COMPLETED = ''completed''"
| "status_value FAILED = ''failed''"
| "status_value CANCELLED = ''cancelled''"

definition TERMINAL_STATUSES :: "task_status list" where
  "TERMINAL_STATUSES = [COMPLETED, FAILED, CANCELLED]"

definition ACTIVE_STATUSES :: "task_status list" where
  "ACTIVE_STATUSES = [PENDING, RUNNING, CANCELLING]"

definition CANCELLABLE_TASK_TYPES :: "string list" where
  "CANCELLABLE_TASK_TYPES = [''add_resource'', ''session_commit'', ''admin_reindex'', ''snapshot_restore_reindex'']"

record task_record =
  tr_task_id :: string
  tr_task_type :: string
  tr_status :: task_status
  tr_created_at :: rat
  tr_updated_at :: rat
  tr_resource_id :: "string option"
  tr_account_id :: "string option"
  tr_user_id :: "string option"
  tr_meta :: pydict
  tr_stage :: "string option"
  tr_result :: "pydict option"
  tr_error :: "string option"
  tr_auth :: pydict

section \<open>The store\<close>

type_synonym task_store = "((string \<times> string \<times> string) \<times> task_record) list"

datatype write_outcome = Written | Unwritten | Unacknowledged

record task_io =
  io_now :: rat
  io_read :: bool
  io_write :: write_outcome

definition present :: "string option \<Rightarrow> bool" where
  "present x = (case x of None \<Rightarrow> False | Some s \<Rightarrow> s \<noteq> [])"

definition store_write :: "write_outcome \<Rightarrow> task_record \<Rightarrow> task_store \<Rightarrow> unit res \<times> task_store" where
  "store_write outcome t store =
     (if \<not> present (tr_account_id t) \<or> \<not> present (tr_user_id t) then (Raise ValueError, store)
      else
        let store' = dict_set store (the (tr_account_id t), the (tr_user_id t), tr_task_id t) t
        in case outcome of
             Written \<Rightarrow> (Ok (), store')
           | Unwritten \<Rightarrow> (Raise OSError, store)
           | Unacknowledged \<Rightarrow> (Raise OSError, store'))"

definition store_get :: "task_store \<Rightarrow> string \<Rightarrow> string option \<Rightarrow> string option \<Rightarrow> task_record option" where
  "store_get store task_id account_id user_id =
     (if \<not> present account_id \<or> \<not> present user_id then None
      else map_of store (the account_id, the user_id, task_id))"

definition store_list :: "task_store \<Rightarrow> string \<Rightarrow> string option \<Rightarrow> task_record list" where
  "store_list store account_id user_id =
     (if \<not> present user_id then []
      else map snd (filter (\<lambda>((a, u, _), _). a = account_id \<and> Some u = user_id) store))"

definition dict_del :: "('k \<times> 'v) list \<Rightarrow> 'k \<Rightarrow> ('k \<times> 'v) list" where
  "dict_del d k = filter (\<lambda>e. fst e \<noteq> k) d"

definition store_delete_task :: "write_outcome \<Rightarrow> string \<Rightarrow> string \<Rightarrow> string \<Rightarrow> task_store \<Rightarrow> unit res \<times> task_store" where
  "store_delete_task outcome task_id account_id user_id store =
     (if user_id = [] then (Ok (), store)
      else
        let store' = dict_del store (account_id, user_id, task_id)
        in case outcome of
             Written \<Rightarrow> (Ok (), store')
           | Unwritten \<Rightarrow> (Raise OSError, store)
           | Unacknowledged \<Rightarrow> (Raise OSError, store'))"

section \<open>The tracker\<close>

record tracker =
  tk_cache :: "(string \<times> task_record) list"
  tk_store :: task_store
  tk_index :: task_work_index

definition matches_owner :: "task_record \<Rightarrow> string option \<Rightarrow> string option \<Rightarrow> bool" where
  "matches_owner t account_id user_id \<longleftrightarrow>
     (account_id = None \<or> tr_account_id t = account_id) \<and> (user_id = None \<or> tr_user_id t = user_id)"

definition validate_owner :: "string \<Rightarrow> string \<Rightarrow> unit res" where
  "validate_owner account_id user_id = (if account_id = [] \<or> user_id = [] then Raise ValueError else Ok ())"

definition publish_task :: "task_record \<Rightarrow> tracker \<Rightarrow> tracker" where
  "publish_task t tk = tk\<lparr>tk_cache := dict_set (tk_cache tk) (tr_task_id t) t\<rparr>"

definition persist_and_publish :: "task_io \<Rightarrow> task_record \<Rightarrow> tracker \<Rightarrow> unit res \<times> tracker" where
  "persist_and_publish io t tk =
     (case store_write (io_write io) t (tk_store tk) of
        (Inr _, store) \<Rightarrow> (Ok (), publish_task t (tk\<lparr>tk_store := store\<rparr>))
      | (Inl e, store) \<Rightarrow> (Raise e, tk\<lparr>tk_store := store\<rparr>))"

definition load_from_store :: "task_io \<Rightarrow> tracker \<Rightarrow> string \<Rightarrow> string option \<Rightarrow> string option
    \<Rightarrow> task_record option res" where
  "load_from_store io tk task_id account_id user_id =
     (if io_read io then Ok (store_get (tk_store tk) task_id account_id user_id) else Raise OSError)"

definition load_for_update :: "task_io \<Rightarrow> tracker \<Rightarrow> string \<Rightarrow> string option \<Rightarrow> string option
    \<Rightarrow> task_record option res" where
  "load_for_update io tk task_id account_id user_id =
     (case map_of (tk_cache tk) task_id of
        Some t \<Rightarrow> Ok (if matches_owner t account_id user_id then Some t else None)
      | None \<Rightarrow>
          if account_id = None \<or> user_id = None then Ok None
          else load_from_store io tk task_id account_id user_id)"

fun merge_loaded_tasks :: "task_record list \<Rightarrow> (string \<times> task_record) list \<Rightarrow> (string \<times> task_record) list" where
  "merge_loaded_tasks [] cache = cache"
| "merge_loaded_tasks (t # ts) cache =
     merge_loaded_tasks ts
       (case map_of cache (tr_task_id t) of
          None \<Rightarrow> dict_set cache (tr_task_id t) t
        | Some c \<Rightarrow> if tr_updated_at t > tr_updated_at c then dict_set cache (tr_task_id t) t else cache)"

definition next_updated_at :: "(rat \<Rightarrow> rat) \<Rightarrow> rat \<Rightarrow> task_record \<Rightarrow> rat" where
  "next_updated_at nextafter now t = max now (nextafter (tr_updated_at t))"

definition copy_task :: "task_record \<Rightarrow> task_record" where
  "copy_task t = t\<lparr>tr_meta := sanitize_items (tr_meta t), tr_result := map_option sanitize_items (tr_result t),
     tr_auth := []\<rparr>"

section \<open>Creating tasks\<close>

definition new_task :: "rat \<Rightarrow> string \<Rightarrow> string \<Rightarrow> string option \<Rightarrow> string \<Rightarrow> string \<Rightarrow> pydict \<Rightarrow> pydict \<Rightarrow> task_record" where
  "new_task now task_id task_type resource_id account_id user_id meta auth =
     \<lparr>tr_task_id = task_id, tr_task_type = task_type, tr_status = PENDING, tr_created_at = now, tr_updated_at = now,
      tr_resource_id = resource_id, tr_account_id = Some account_id, tr_user_id = Some user_id, tr_meta = meta,
      tr_stage = None, tr_result = None, tr_error = None, tr_auth = auth\<rparr>"

text \<open>Persisting a task and returning its copy.\<close>

definition create_persist :: "task_io \<Rightarrow> task_record \<Rightarrow> tracker \<Rightarrow> task_record res \<times> tracker" where
  "create_persist io t tk =
     (case persist_and_publish io t tk of
        (Inl e, tk') \<Rightarrow> (Raise e, tk')
      | (Inr _, tk') \<Rightarrow> (Ok (copy_task t), tk'))"

definition create_on_owner :: "task_io \<Rightarrow> task_record \<Rightarrow> bool \<Rightarrow> tracker \<Rightarrow> task_record res \<times> tracker" where
  "create_on_owner io t check_existing tk =
     (if \<not> check_existing then create_persist io t tk
      else case map_of (tk_cache tk) (tr_task_id t) of
        Some existing \<Rightarrow>
          if \<not> matches_owner existing (tr_account_id t) (tr_user_id t) then (Raise ValueError, tk)
          else (Ok (copy_task existing), tk)
      | None \<Rightarrow>
          (case load_from_store io tk (tr_task_id t) (tr_account_id t) (tr_user_id t) of
             Inl e \<Rightarrow> (Raise e, tk)
           | Inr (Some existing) \<Rightarrow> (Ok (copy_task existing), publish_task existing tk)
           | Inr None \<Rightarrow> create_persist io t tk))"

definition create_task :: "task_io \<Rightarrow> string \<Rightarrow> string \<Rightarrow> string option \<Rightarrow> string \<Rightarrow> string \<Rightarrow> string option
    \<Rightarrow> pydict \<Rightarrow> pydict \<Rightarrow> tracker \<Rightarrow> task_record res \<times> tracker" where
  "create_task io uuid task_type resource_id account_id user_id task_id meta auth tk =
     (case validate_owner account_id user_id of
        Inl e \<Rightarrow> (Raise e, tk)
      | Inr _ \<Rightarrow>
          create_on_owner io
            (new_task (io_now io) (if present task_id then the task_id else uuid) task_type resource_id
               account_id user_id meta auth)
            (task_id \<noteq> None) tk)"

definition is_running_task :: "string \<Rightarrow> string \<Rightarrow> string option \<Rightarrow> string option \<Rightarrow> task_record \<Rightarrow> bool" where
  "is_running_task task_type resource_id account_id user_id t \<longleftrightarrow>
     tr_task_type t = task_type \<and> tr_resource_id t = Some resource_id \<and> matches_owner t account_id user_id \<and>
     tr_status t \<in> set ACTIVE_STATUSES"

definition load_all_from_store :: "task_io \<Rightarrow> tracker \<Rightarrow> string \<Rightarrow> string option \<Rightarrow> task_record list res" where
  "load_all_from_store io tk account_id user_id =
     (if io_read io then Ok (store_list (tk_store tk) account_id user_id) else Raise OSError)"

definition create_if_no_running :: "task_io \<Rightarrow> string \<Rightarrow> string \<Rightarrow> string \<Rightarrow> string \<Rightarrow> string \<Rightarrow> tracker
    \<Rightarrow> task_record option res \<times> tracker" where
  "create_if_no_running io uuid task_type resource_id account_id user_id tk =
     (case validate_owner account_id user_id of
        Inl e \<Rightarrow> (Raise e, tk)
      | Inr _ \<Rightarrow>
          (case load_all_from_store io tk account_id (Some user_id) of
             Inl e \<Rightarrow> (Raise e, tk)
           | Inr loaded \<Rightarrow>
               let tk = tk\<lparr>tk_cache := merge_loaded_tasks loaded (tk_cache tk)\<rparr>
               in if list_ex (is_running_task task_type resource_id (Some account_id) (Some user_id)) (map snd (tk_cache tk))
                  then (Ok None, tk)
                  else case create_persist io
                             (new_task (io_now io) uuid task_type (Some resource_id) account_id user_id [] []) tk of
                         (Inl e, tk') \<Rightarrow> (Raise e, tk')
                       | (Inr t, tk') \<Rightarrow> (Ok (Some t), tk')))"

section \<open>The life of a task\<close>

text \<open>The common frame of the updates under the lock of a task.\<close>

definition with_task :: "task_io \<Rightarrow> string \<Rightarrow> string option \<Rightarrow> string option \<Rightarrow> (task_record \<Rightarrow> unit res \<times> tracker)
    \<Rightarrow> tracker \<Rightarrow> unit res \<times> tracker" where
  "with_task io task_id account_id user_id body tk =
     (case load_for_update io tk task_id account_id user_id of
        Inl e \<Rightarrow> (Raise e, tk)
      | Inr None \<Rightarrow> (Ok (), tk)
      | Inr (Some t) \<Rightarrow> body t)"

definition start_task :: "(rat \<Rightarrow> rat) \<Rightarrow> task_io \<Rightarrow> string \<Rightarrow> string option \<Rightarrow> string option \<Rightarrow> string option
    \<Rightarrow> tracker \<Rightarrow> unit res \<times> tracker" where
  "start_task nextafter io task_id account_id user_id stage tk =
     with_task io task_id account_id user_id
       (\<lambda>t. if tr_status t \<in> {PENDING, RUNNING}
            then persist_and_publish io
                   (t\<lparr>tr_status := RUNNING, tr_stage := (case stage of None \<Rightarrow> tr_stage t | Some s \<Rightarrow> Some s),
                      tr_updated_at := next_updated_at nextafter (io_now io) t\<rparr>) tk
            else (Ok (), tk)) tk"

definition update_stage :: "(rat \<Rightarrow> rat) \<Rightarrow> task_io \<Rightarrow> string \<Rightarrow> string \<Rightarrow> string option \<Rightarrow> string option
    \<Rightarrow> tracker \<Rightarrow> unit res \<times> tracker" where
  "update_stage nextafter io task_id stage account_id user_id tk =
     with_task io task_id account_id user_id
       (\<lambda>t. if tr_status t \<in> {PENDING, RUNNING}
            then persist_and_publish io
                   (t\<lparr>tr_stage := Some stage, tr_updated_at := next_updated_at nextafter (io_now io) t\<rparr>) tk
            else (Ok (), tk)) tk"

text \<open>\<open>with_error e t\<close>: the first error is kept.\<close>

definition with_error :: "string option \<Rightarrow> task_record \<Rightarrow> task_record" where
  "with_error e t =
     (case e of None \<Rightarrow> t | Some x \<Rightarrow> if tr_error t = None then t\<lparr>tr_error := Some (sanitize_error x)\<rparr> else t)"

text \<open>\<^verbatim>\<open>if work_error and updated.error is None\<close>: a blank failure does not count.\<close>

definition work_failure :: "task_work_index \<Rightarrow> string \<Rightarrow> string option" where
  "work_failure idx task_id = (if present (tw_failures idx task_id) then tw_failures idx task_id else None)"

definition with_outcome :: "pydict option \<Rightarrow> string option \<Rightarrow> string option \<Rightarrow> task_status option
    \<Rightarrow> string option \<Rightarrow> task_record \<Rightarrow> task_record" where
  "with_outcome result error resource_id terminal_status work_error t =
     (let t = (case result of None \<Rightarrow> t
               | Some r \<Rightarrow> t\<lparr>tr_result := Some r,
                             tr_resource_id := (case resource_id of None \<Rightarrow> tr_resource_id t | Some x \<Rightarrow> Some x)\<rparr>);
          t = with_error error t;
          t = with_error work_error t
      in case terminal_status of
           None \<Rightarrow> t
         | Some st \<Rightarrow> t\<lparr>tr_status := st, tr_stage := Some (status_value st)\<rparr>)"

definition record_outcome_locked :: "(rat \<Rightarrow> rat) \<Rightarrow> task_io \<Rightarrow> string \<Rightarrow> string option \<Rightarrow> string option
    \<Rightarrow> pydict option \<Rightarrow> string option \<Rightarrow> string option \<Rightarrow> task_status option \<Rightarrow> tracker \<Rightarrow> unit res \<times> tracker" where
  "record_outcome_locked nextafter io task_id account_id user_id result error resource_id terminal_status tk =
     with_task io task_id account_id user_id
       (\<lambda>t. if tr_status t \<in> {PENDING, RUNNING}
            then persist_and_publish io
                   ((with_outcome result error resource_id terminal_status
                       (work_failure (tk_index tk) task_id) t)
                    \<lparr>tr_updated_at := next_updated_at nextafter (io_now io) t, tr_auth := []\<rparr>) tk
            else (Ok (), tk)) tk"

text \<open>The terminal form of an active task, if it has an outcome.\<close>

definition terminal_form :: "task_work_index \<Rightarrow> string \<Rightarrow> task_record \<Rightarrow> task_record option" where
  "terminal_form idx task_id t =
     (let t = (if tr_status t \<noteq> CANCELLING then with_error (work_failure idx task_id) t else t)
      in if tr_status t = CANCELLING then Some (t\<lparr>tr_status := CANCELLED\<rparr>)
         else if tr_error t \<noteq> None then Some (t\<lparr>tr_status := FAILED\<rparr>)
         else if tr_result t \<noteq> None then Some (t\<lparr>tr_status := COMPLETED\<rparr>)
         else None)"

definition finalize_task :: "(rat \<Rightarrow> rat) \<Rightarrow> task_io \<Rightarrow> string \<Rightarrow> string option \<Rightarrow> string option \<Rightarrow> tracker
    \<Rightarrow> unit res \<times> tracker" where
  "finalize_task nextafter io task_id account_id user_id tk =
     (if has_work (tk_index tk) task_id None then (Ok (), tk)
      else with_task io task_id account_id user_id
        (\<lambda>t. if tr_status t \<in> set ACTIVE_STATUSES
             then (case terminal_form (tk_index tk) task_id t of
                     None \<Rightarrow> (Ok (), tk)
                   | Some u \<Rightarrow>
                       (case persist_and_publish io
                               (u\<lparr>tr_stage := Some (status_value (tr_status u)),
                                  tr_updated_at := next_updated_at nextafter (io_now io) t, tr_auth := []\<rparr>) tk of
                          (Inl e, tk') \<Rightarrow> (Raise e, tk')
                        | (Inr _, tk') \<Rightarrow> (Ok (), tk'\<lparr>tk_index := clear_failure (tk_index tk') task_id\<rparr>)))
             else (Ok (), tk)) tk)"

definition record_outcome :: "(rat \<Rightarrow> rat) \<Rightarrow> task_io \<Rightarrow> task_io \<Rightarrow> string \<Rightarrow> string option \<Rightarrow> string option
    \<Rightarrow> pydict option \<Rightarrow> string option \<Rightarrow> string option \<Rightarrow> task_status option \<Rightarrow> tracker \<Rightarrow> unit res \<times> tracker" where
  "record_outcome nextafter io io' task_id account_id user_id result error resource_id terminal_status tk =
     (case record_outcome_locked nextafter io task_id account_id user_id result error resource_id terminal_status tk of
        (Inl e, tk') \<Rightarrow> (Raise e, tk')
      | (Inr _, tk') \<Rightarrow> finalize_task nextafter io' task_id account_id user_id tk')"

definition complete_task :: "(rat \<Rightarrow> rat) \<Rightarrow> task_io \<Rightarrow> task_io \<Rightarrow> string \<Rightarrow> pydict \<Rightarrow> string option \<Rightarrow> string option
    \<Rightarrow> string option \<Rightarrow> tracker \<Rightarrow> unit res \<times> tracker" where
  "complete_task nextafter io io' task_id result account_id user_id resource_id =
     record_outcome nextafter io io' task_id account_id user_id (Some result) None resource_id None"

definition fail_task :: "(rat \<Rightarrow> rat) \<Rightarrow> task_io \<Rightarrow> task_io \<Rightarrow> string \<Rightarrow> string \<Rightarrow> string option \<Rightarrow> string option
    \<Rightarrow> pydict option \<Rightarrow> tracker \<Rightarrow> unit res \<times> tracker" where
  "fail_task nextafter io io' task_id error account_id user_id result =
     record_outcome nextafter io io' task_id account_id user_id result (Some error) None None"

definition mark_cancelled :: "(rat \<Rightarrow> rat) \<Rightarrow> task_io \<Rightarrow> task_io \<Rightarrow> string \<Rightarrow> string option \<Rightarrow> string option
    \<Rightarrow> tracker \<Rightarrow> unit res \<times> tracker" where
  "mark_cancelled nextafter io io' task_id account_id user_id =
     record_outcome nextafter io io' task_id account_id user_id None None None (Some CANCELLED)"

text \<open>The first half of \<open>cancel\<close> returns the answer when it is decided there.\<close>

definition cancel_locked :: "(rat \<Rightarrow> rat) \<Rightarrow> task_io \<Rightarrow> string \<Rightarrow> string option \<Rightarrow> string option \<Rightarrow> tracker
    \<Rightarrow> task_record option option res \<times> tracker" where
  "cancel_locked nextafter io task_id account_id user_id tk =
     (case load_for_update io tk task_id account_id user_id of
        Inl e \<Rightarrow> (Raise e, tk)
      | Inr None \<Rightarrow> (Ok (Some None), tk)
      | Inr (Some t) \<Rightarrow>
          if tr_status t = CANCELLED then (Ok (Some (Some (copy_task t))), tk)
          else if tr_status t = CANCELLING then (Ok None, tk)
          else if tr_task_type t \<notin> set CANCELLABLE_TASK_TYPES then (Raise ValueError, tk)
          else if tr_status t \<in> set TERMINAL_STATUSES then (Raise ValueError, tk)
          else (case persist_and_publish io
                       (t\<lparr>tr_status := CANCELLING, tr_updated_at := next_updated_at nextafter (io_now io) t\<rparr>) tk of
                  (Inl e, tk') \<Rightarrow> (Raise e, tk')
                | (Inr _, tk') \<Rightarrow> (Ok None, tk')))"

definition cancel_task :: "(rat \<Rightarrow> rat) \<Rightarrow> task_io \<Rightarrow> task_io \<Rightarrow> string \<Rightarrow> string option \<Rightarrow> string option \<Rightarrow> tracker
    \<Rightarrow> task_record option res \<times> tracker" where
  "cancel_task nextafter io io' task_id account_id user_id tk =
     (case cancel_locked nextafter io task_id account_id user_id tk of
        (Inl e, tk') \<Rightarrow> (Raise e, tk')
      | (Inr (Some answer), tk') \<Rightarrow> (Ok answer, tk')
      | (Inr None, tk') \<Rightarrow>
          (case finalize_task nextafter io' task_id account_id user_id tk' of
             (Inl e, tk'') \<Rightarrow> (Raise e, tk'')
           | (Inr _, tk'') \<Rightarrow>
               (case map_of (tk_cache tk'') task_id of
                  None \<Rightarrow> (Ok None, tk'')
                | Some t \<Rightarrow>
                    if matches_owner t account_id user_id then (Ok (Some (copy_task t)), tk'') else (Ok None, tk''))))"

section \<open>Reading\<close>

definition is_cancellation_requested :: "tracker \<Rightarrow> string \<Rightarrow> bool" where
  "is_cancellation_requested tk task_id =
     (case map_of (tk_cache tk) task_id of None \<Rightarrow> False | Some t \<Rightarrow> tr_status t \<in> {CANCELLING, CANCELLED})"

definition get_task :: "task_io \<Rightarrow> string \<Rightarrow> string option \<Rightarrow> string option \<Rightarrow> tracker
    \<Rightarrow> task_record option res \<times> tracker" where
  "get_task io task_id account_id user_id tk =
     (case map_of (tk_cache tk) task_id of
        Some t \<Rightarrow> (Ok (if matches_owner t account_id user_id then Some (copy_task t) else None), tk)
      | None \<Rightarrow>
          if account_id = None then (Ok None, tk)
          else (case load_from_store io tk task_id account_id user_id of
                  Inl e \<Rightarrow> (Raise e, tk)
                | Inr None \<Rightarrow> (Ok None, tk)
                | Inr (Some t) \<Rightarrow>
                    let tk' = tk\<lparr>tk_cache := merge_loaded_tasks [t] (tk_cache tk)\<rparr>
                    in (Ok (case map_of (tk_cache tk') task_id of
                              None \<Rightarrow> None
                            | Some c \<Rightarrow> if matches_owner c account_id user_id then Some (copy_task c) else None), tk')))"

definition get_task_auth :: "task_io \<Rightarrow> string \<Rightarrow> string \<Rightarrow> string \<Rightarrow> tracker \<Rightarrow> pydict res \<times> tracker" where
  "get_task_auth io task_id account_id user_id tk =
     (case validate_owner account_id user_id of
        Inl e \<Rightarrow> (Raise e, tk)
      | Inr _ \<Rightarrow>
          (case map_of (tk_cache tk) task_id of
             Some t \<Rightarrow> (Ok (if matches_owner t (Some account_id) (Some user_id) then tr_auth t else []), tk)
           | None \<Rightarrow>
               (case load_from_store io tk task_id (Some account_id) (Some user_id) of
                  Inl e \<Rightarrow> (Raise e, tk)
                | Inr None \<Rightarrow> (Ok [], tk)
                | Inr (Some t) \<Rightarrow>
                    (Ok (if matches_owner t (Some account_id) (Some user_id) then tr_auth t else []), publish_task t tk))))"

text \<open>\<^verbatim>\<open>xs[:limit]\<close>.\<close>

definition py_head :: "int \<Rightarrow> 'a list \<Rightarrow> 'a list" where
  "py_head limit xs = (if limit \<ge> 0 then take (nat limit) xs else take (length xs - nat (- limit)) xs)"

definition merge_owner_tasks :: "task_io \<Rightarrow> string option \<Rightarrow> string option \<Rightarrow> tracker \<Rightarrow> tracker res" where
  "merge_owner_tasks io account_id user_id tk =
     (case account_id of
        None \<Rightarrow> Ok tk
      | Some a \<Rightarrow>
          (case load_all_from_store io tk a user_id of
             Inl e \<Rightarrow> Raise e
           | Inr loaded \<Rightarrow> Ok (tk\<lparr>tk_cache := merge_loaded_tasks loaded (tk_cache tk)\<rparr>)))"

definition list_tasks :: "task_io \<Rightarrow> string option \<Rightarrow> string option \<Rightarrow> string option \<Rightarrow> int \<Rightarrow> string option \<Rightarrow> string option
    \<Rightarrow> bool \<Rightarrow> tracker \<Rightarrow> task_record list res \<times> tracker" where
  "list_tasks io task_type status resource_id limit account_id user_id include_internal tk =
     (case merge_owner_tasks io account_id user_id tk of
        Inl e \<Rightarrow> (Raise e, tk)
      | Inr tk' \<Rightarrow>
          let tasks = map copy_task (filter (\<lambda>t. matches_owner t account_id user_id) (map snd (tk_cache tk')));
              tasks = (if include_internal then tasks else filter (\<lambda>t. dict_get (tr_meta t) ''internal'' \<noteq> PBool True) tasks);
              tasks = (if present task_type then filter (\<lambda>t. Some (tr_task_type t) = task_type) tasks else tasks);
              tasks = (if present status then filter (\<lambda>t. Some (status_value (tr_status t)) = status) tasks else tasks);
              tasks = (if present resource_id then filter (\<lambda>t. tr_resource_id t = resource_id) tasks else tasks)
          in (Ok (py_head limit (sort_key (\<lambda>t. - tr_created_at t) tasks)), tk'))"

definition has_running :: "task_io \<Rightarrow> string \<Rightarrow> string \<Rightarrow> string option \<Rightarrow> string option \<Rightarrow> tracker \<Rightarrow> bool res \<times> tracker" where
  "has_running io task_type resource_id account_id user_id tk =
     (case merge_owner_tasks io account_id user_id tk of
        Inl e \<Rightarrow> (Raise e, tk)
      | Inr tk' \<Rightarrow> (Ok (list_ex (is_running_task task_type resource_id account_id user_id) (map snd (tk_cache tk'))), tk'))"

fun restore_work_tasks :: "task_io \<Rightarrow> (string \<times> string \<times> string) list \<Rightarrow> tracker \<Rightarrow> unit res \<times> tracker" where
  "restore_work_tasks io [] tk = (Ok (), tk)"
| "restore_work_tasks io ((task_id, account_id, user_id) # owners) tk =
     (case get_task io task_id (Some account_id) (Some user_id) tk of
        (Inl e, tk') \<Rightarrow> (Raise e, tk')
      | (Inr _, tk') \<Rightarrow> restore_work_tasks io owners tk')"

section \<open>Eviction and deletion\<close>

definition MAX_TASKS :: nat where "MAX_TASKS = 10000"
definition TTL_COMPLETED :: rat where "TTL_COMPLETED = 86400"
definition TTL_FAILED :: rat where "TTL_FAILED = 604800"

definition is_expired :: "task_record \<Rightarrow> rat \<Rightarrow> bool" where
  "is_expired t now =
     (let age = now - tr_updated_at t
      in if tr_status t \<in> {COMPLETED, CANCELLED} then age > TTL_COMPLETED
         else tr_status t = FAILED \<and> age > TTL_FAILED)"

definition drop_cached :: "string \<Rightarrow> tracker \<Rightarrow> tracker" where
  "drop_cached task_id tk = tk\<lparr>tk_cache := dict_del (tk_cache tk) task_id\<rparr>"

text \<open>\<open>outcomes\<close> is what becomes of the deletion of each task.\<close>

definition delete_expired_task :: "(string \<Rightarrow> write_outcome) \<Rightarrow> rat \<Rightarrow> string \<Rightarrow> tracker \<Rightarrow> tracker" where
  "delete_expired_task outcomes now task_id tk =
     (case map_of (tk_cache tk) task_id of
        None \<Rightarrow> tk
      | Some t \<Rightarrow>
          if \<not> is_expired t now then tk
          else if \<not> present (tr_account_id t) \<or> \<not> present (tr_user_id t) then tk
          else (case store_delete_task (outcomes task_id) task_id (the (tr_account_id t)) (the (tr_user_id t)) (tk_store tk) of
                  (Inl e, store) \<Rightarrow> tk\<lparr>tk_store := store\<rparr>
                | (Inr _, store) \<Rightarrow> drop_cached task_id (tk\<lparr>tk_store := store\<rparr>)))"

definition trim_cache :: "tracker \<Rightarrow> tracker" where
  "trim_cache tk =
     (if length (tk_cache tk) > MAX_TASKS
      then fold drop_cached
             (map fst (take (length (tk_cache tk) - MAX_TASKS) (sort_key (\<lambda>e. tr_created_at (snd e)) (tk_cache tk)))) tk
      else tk)"

definition evict_expired :: "(string \<Rightarrow> write_outcome) \<Rightarrow> rat \<Rightarrow> tracker \<Rightarrow> tracker" where
  "evict_expired outcomes now tk =
     trim_cache (fold (delete_expired_task outcomes now)
       (map fst (filter (\<lambda>e. is_expired (snd e) now) (tk_cache tk))) tk)"

fun delete_tasks :: "(string \<Rightarrow> write_outcome) \<Rightarrow> string \<Rightarrow> string \<Rightarrow> task_record list \<Rightarrow> int \<Rightarrow> tracker \<Rightarrow> int res \<times> tracker" where
  "delete_tasks outcomes account_id user_id [] deleted tk = (Ok deleted, tk)"
| "delete_tasks outcomes account_id user_id (t # ts) deleted tk =
     (let task_id = tr_task_id t
      in case map_of (tk_cache tk) task_id of
           None \<Rightarrow> delete_tasks outcomes account_id user_id ts deleted tk
         | Some current \<Rightarrow>
             if \<not> matches_owner current (Some account_id) (Some user_id)
             then delete_tasks outcomes account_id user_id ts deleted tk
             else if tr_status current \<in> set ACTIVE_STATUSES \<or> has_work (tk_index tk) task_id None
             then (Raise RuntimeError, tk)
             else (case store_delete_task (outcomes task_id) task_id account_id user_id (tk_store tk) of
                     (Inl e, store) \<Rightarrow> (Raise e, tk\<lparr>tk_store := store\<rparr>)
                   | (Inr _, store) \<Rightarrow>
                       delete_tasks outcomes account_id user_id ts (deleted + 1)
                         ((drop_cached task_id (tk\<lparr>tk_store := store\<rparr>))
                            \<lparr>tk_index := clear_failure (tk_index tk) task_id\<rparr>)))"

definition delete_user_tasks :: "task_io \<Rightarrow> (string \<Rightarrow> write_outcome) \<Rightarrow> string \<Rightarrow> string \<Rightarrow> tracker \<Rightarrow> int res \<times> tracker" where
  "delete_user_tasks io outcomes account_id user_id tk =
     (case validate_owner account_id user_id of
        Inl e \<Rightarrow> (Raise e, tk)
      | Inr _ \<Rightarrow>
          (case merge_owner_tasks io (Some account_id) (Some user_id) tk of
             Inl e \<Rightarrow> (Raise e, tk)
           | Inr tk' \<Rightarrow>
               let tasks = filter (\<lambda>t. matches_owner t (Some account_id) (Some user_id)) (map snd (tk_cache tk'))
               in if list_ex (\<lambda>t. tr_status t \<in> set ACTIVE_STATUSES) tasks then (Raise RuntimeError, tk')
                  else delete_tasks outcomes account_id user_id tasks 0 tk'))"

section \<open>Runs of the tracker\<close>

text \<open>The atomic steps. Queue work changes the index at any time; a restart loses cache and index.\<close>

datatype tracker_op =
    OpCreate task_io string string "string option" string string "string option" pydict pydict
  | OpCreateIfNone task_io string string string string string
  | OpStart task_io string "string option" "string option" "string option"
  | OpStage task_io string string "string option" "string option"
  | OpOutcome task_io string "string option" "string option" "pydict option" "string option" "string option" "task_status option"
  | OpCancel task_io string "string option" "string option"
  | OpFinalize task_io string "string option" "string option"
  | OpGet task_io string "string option" "string option"
  | OpAuth task_io string string string
  | OpList task_io "string option" "string option"
  | OpEvict "string \<Rightarrow> write_outcome" rat
  | OpDeleteUser task_io "string \<Rightarrow> write_outcome" string string
  | OpWork task_work_index
  | OpRestart

fun tracker_step :: "(rat \<Rightarrow> rat) \<Rightarrow> tracker \<Rightarrow> tracker_op \<Rightarrow> tracker" where
  "tracker_step nx tk (OpCreate io uuid ty res a u tid meta auth) = snd (create_task io uuid ty res a u tid meta auth tk)"
| "tracker_step nx tk (OpCreateIfNone io uuid ty res a u) = snd (create_if_no_running io uuid ty res a u tk)"
| "tracker_step nx tk (OpStart io tid a u stage) = snd (start_task nx io tid a u stage tk)"
| "tracker_step nx tk (OpStage io tid stage a u) = snd (update_stage nx io tid stage a u tk)"
| "tracker_step nx tk (OpOutcome io tid a u r e res ts) = snd (record_outcome_locked nx io tid a u r e res ts tk)"
| "tracker_step nx tk (OpCancel io tid a u) = snd (cancel_locked nx io tid a u tk)"
| "tracker_step nx tk (OpFinalize io tid a u) = snd (finalize_task nx io tid a u tk)"
| "tracker_step nx tk (OpGet io tid a u) = snd (get_task io tid a u tk)"
| "tracker_step nx tk (OpAuth io tid a u) = snd (get_task_auth io tid a u tk)"
| "tracker_step nx tk (OpList io a u) = (case merge_owner_tasks io a u tk of Inl e \<Rightarrow> tk | Inr tk' \<Rightarrow> tk')"
| "tracker_step nx tk (OpEvict outcomes now) = evict_expired outcomes now tk"
| "tracker_step nx tk (OpDeleteUser io outcomes a u) = snd (delete_user_tasks io outcomes a u tk)"
| "tracker_step nx tk (OpWork idx) = tk\<lparr>tk_index := idx\<rparr>"
| "tracker_step nx tk OpRestart = tk\<lparr>tk_cache := [], tk_index := TaskWorkIndex\<rparr>"

definition new_tracker :: tracker where
  "new_tracker = \<lparr>tk_cache = [], tk_store = [], tk_index = TaskWorkIndex\<rparr>"

section \<open>Cache and store agree\<close>

text \<open>\<open>stored tk t\<close>: the store holds exactly this record, under its owner and identifier. In a good state the
  records of the store lie under their own keys and every cached record is stored.\<close>

definition task_key :: "task_record \<Rightarrow> string \<times> string \<times> string" where
  "task_key t = (the (tr_account_id t), the (tr_user_id t), tr_task_id t)"

definition owned :: "task_record \<Rightarrow> bool" where
  "owned t \<longleftrightarrow> present (tr_account_id t) \<and> present (tr_user_id t)"

definition stored :: "task_store \<Rightarrow> task_record \<Rightarrow> bool" where
  "stored store t \<longleftrightarrow> owned t \<and> map_of store (task_key t) = Some t"

definition keys_ok :: "task_store \<Rightarrow> bool" where
  "keys_ok store \<longleftrightarrow> distinct (map fst store) \<and> (\<forall>k t. map_of store k = Some t \<longrightarrow> k = task_key t \<and> owned t)"

definition cache_ok :: "task_store \<Rightarrow> (string \<times> task_record) list \<Rightarrow> bool" where
  "cache_ok store cache \<longleftrightarrow> distinct (map fst cache) \<and>
     (\<forall>task_id t. map_of cache task_id = Some t \<longrightarrow> tr_task_id t = task_id \<and> stored store t)"

definition tracker_inv :: "tracker \<Rightarrow> bool" where
  "tracker_inv tk \<longleftrightarrow> keys_ok (tk_store tk) \<and> cache_ok (tk_store tk) (tk_cache tk)"

text \<open>What the callers owe the tracker: a write that fails has had no effect, generated identifiers are new,
  and the only status an outcome sets is that of a cancellation.\<close>

definition fresh_id :: "tracker \<Rightarrow> string \<Rightarrow> bool" where
  "fresh_id tk task_id \<longleftrightarrow> (\<forall>k \<in> fst ` set (tk_store tk). snd (snd k) \<noteq> task_id)"

fun tracker_enabled :: "tracker \<Rightarrow> tracker_op \<Rightarrow> bool" where
  "tracker_enabled tk (OpCreate io uuid ty res a u tid meta auth) = (io_write io \<noteq> Unacknowledged \<and> fresh_id tk uuid)"
| "tracker_enabled tk (OpCreateIfNone io uuid ty res a u) = (io_write io \<noteq> Unacknowledged \<and> fresh_id tk uuid)"
| "tracker_enabled tk (OpStart io tid a u stage) = (io_write io \<noteq> Unacknowledged)"
| "tracker_enabled tk (OpStage io tid stage a u) = (io_write io \<noteq> Unacknowledged)"
| "tracker_enabled tk (OpOutcome io tid a u r e res ts) = (io_write io \<noteq> Unacknowledged \<and> ts \<in> {None, Some CANCELLED})"
| "tracker_enabled tk (OpCancel io tid a u) = (io_write io \<noteq> Unacknowledged)"
| "tracker_enabled tk (OpFinalize io tid a u) = (io_write io \<noteq> Unacknowledged)"
| "tracker_enabled tk (OpEvict outcomes now) = (\<forall>t. outcomes t \<noteq> Unacknowledged)"
| "tracker_enabled tk (OpDeleteUser io outcomes a u) = (\<forall>t. outcomes t \<noteq> Unacknowledged)"
| "tracker_enabled tk op = True"

lemma map_of_dict_del: "map_of (dict_del d k) = (map_of d)(k := None)"
  by (induction d) (auto simp: dict_del_def)

lemma distinct_dict_del: "distinct (map fst d) \<Longrightarrow> distinct (map fst (dict_del d k))"
  unfolding dict_del_def by (rule distinct_map_filter)

lemma map_of_cache_del: "map_of (dict_del d k) k' = Some v \<Longrightarrow> map_of d k' = Some v \<and> k' \<noteq> k"
  by (simp add: map_of_dict_del split: if_splits)

lemma task_key_eq: "\<lbrakk>owned t; owned t'; task_key t = task_key t'\<rbrakk>
  \<Longrightarrow> tr_account_id t = tr_account_id t' \<and> tr_user_id t = tr_user_id t' \<and> tr_task_id t = tr_task_id t'"
  by (auto simp: task_key_def owned_def present_def split: option.splits)

lemma store_write_cases:
  assumes "outcome \<noteq> Unacknowledged"
  obtains "owned t" "store_write outcome t store = (Ok (), dict_set store (task_key t) t)"
  | e where "store_write outcome t store = (Raise e, store)"
proof (cases "owned t \<and> outcome = Written")
  case True
  then show thesis by (intro that(1)) (auto simp: store_write_def owned_def task_key_def)
next
  case False
  with assms have "\<exists>e. store_write outcome t store = (Raise e, store)"
    by (cases outcome) (auto simp: store_write_def owned_def)
  then show thesis using that(2) by blast
qed

lemma keys_ok_set: "\<lbrakk>keys_ok store; owned t\<rbrakk> \<Longrightarrow> keys_ok (dict_set store (task_key t) t)"
  by (auto simp: keys_ok_def dict_set_distinct map_of_dict_set split: if_splits)

lemma cache_ok_publish:
  assumes "cache_ok store cache" "owned t"
  shows "cache_ok (dict_set store (task_key t) t) (dict_set cache (tr_task_id t) t)"
  unfolding cache_ok_def
proof (intro conjI allI impI)
  show "distinct (map fst (dict_set cache (tr_task_id t) t))"
    using assms(1) by (simp add: cache_ok_def dict_set_distinct)
  fix task_id c
  assume c: "map_of (dict_set cache (tr_task_id t) t) task_id = Some c"
  show "tr_task_id c = task_id" "stored (dict_set store (task_key t) t) c"
  proof (atomize (full), cases "task_id = tr_task_id t")
    case True
    with c assms(2) show "tr_task_id c = task_id \<and> stored (dict_set store (task_key t) t) c"
      by (simp add: map_of_dict_set stored_def)
  next
    case False
    with c assms(1) have "tr_task_id c = task_id" "stored store c"
      by (auto simp: map_of_dict_set cache_ok_def)
    with False show "tr_task_id c = task_id \<and> stored (dict_set store (task_key t) t) c"
      by (auto simp: map_of_dict_set stored_def task_key_def)
  qed
qed

lemma cache_ok_stored:
  assumes "cache_ok store cache" "stored store t"
  shows "cache_ok store (dict_set cache (tr_task_id t) t)"
  using assms by (auto simp: cache_ok_def dict_set_distinct map_of_dict_set split: if_splits)

lemma merge_cache_ok:
  "\<lbrakk>cache_ok store cache; list_all (stored store) ts\<rbrakk> \<Longrightarrow> cache_ok store (merge_loaded_tasks ts cache)"
proof (induction ts arbitrary: cache)
  case (Cons t ts)
  have "cache_ok store (dict_set cache (tr_task_id t) t)"
    using Cons.prems by (intro cache_ok_stored) auto
  with Cons show ?case by (simp split: option.split)
qed simp

lemma cache_ok_del: "cache_ok store cache \<Longrightarrow> cache_ok store (dict_del cache k)"
  unfolding cache_ok_def using distinct_dict_del map_of_cache_del by metis

lemma keys_ok_del: "keys_ok store \<Longrightarrow> keys_ok (dict_del store k)"
  unfolding keys_ok_def using distinct_dict_del map_of_cache_del by metis

lemma cache_ok_delete:
  assumes "cache_ok store cache"
  shows "cache_ok (dict_del store (a, u, task_id)) (dict_del cache task_id)"
  unfolding cache_ok_def
proof (intro conjI allI impI)
  show "distinct (map fst (dict_del cache task_id))"
    using assms by (simp only: cache_ok_def distinct_dict_del)
  fix i t
  assume "map_of (dict_del cache task_id) i = Some t"
  then have "i \<noteq> task_id" "tr_task_id t = i" "stored store t"
    using assms map_of_cache_del unfolding cache_ok_def by metis+
  then show "tr_task_id t = i" "stored (dict_del store (a, u, task_id)) t"
    by (simp_all add: stored_def map_of_dict_del task_key_def)
qed

lemma persist_inv:
  assumes "tracker_inv tk" "io_write io \<noteq> Unacknowledged"
  shows "tracker_inv (snd (persist_and_publish io t tk))"
  using assms(2)
proof (cases rule: store_write_cases [where outcome = "io_write io" and t = t and store = "tk_store tk"])
  case 1
  with assms(1) show ?thesis
    by (simp add: persist_and_publish_def publish_task_def tracker_inv_def keys_ok_set cache_ok_publish)
next
  case (2 e)
  with assms(1) show ?thesis by (simp add: persist_and_publish_def)
qed

lemma snd_case_res [simp]: "snd (case p of (Inl e, tk) \<Rightarrow> (f e, tk) | (Inr x, tk) \<Rightarrow> (g x, tk)) = snd p"
  by (cases p; cases "fst p") auto

lemma publish_inv: "\<lbrakk>tracker_inv tk; stored (tk_store tk) t\<rbrakk> \<Longrightarrow> tracker_inv (publish_task t tk)"
  by (simp add: tracker_inv_def publish_task_def cache_ok_stored)

lemma store_get_stored: "\<lbrakk>keys_ok store; store_get store task_id a u = Some t\<rbrakk> \<Longrightarrow> stored store t \<and> tr_task_id t = task_id"
  by (auto simp: store_get_def keys_ok_def stored_def task_key_def split: if_splits)

lemma store_list_stored: "keys_ok store \<Longrightarrow> list_all (stored store) (store_list store a u)"
  by (auto simp: store_list_def list_all_iff stored_def keys_ok_def)

lemma load_stored:
  assumes "tracker_inv tk" "load_for_update io tk task_id a u = Inr (Some t)"
  shows "stored (tk_store tk) t \<and> tr_task_id t = task_id"
  using assms store_get_stored
  by (auto simp: load_for_update_def load_from_store_def tracker_inv_def cache_ok_def split: option.splits if_splits)

lemma with_task_inv:
  assumes "tracker_inv tk" "\<And>t. \<lbrakk>stored (tk_store tk) t; tr_task_id t = task_id\<rbrakk> \<Longrightarrow> tracker_inv (snd (body t))"
  shows "tracker_inv (snd (with_task io task_id a u body tk))"
  using assms load_stored [OF assms(1), of io task_id a u]
  by (auto simp: with_task_def split: sum.split option.split)

lemma merge_owner_inv: "\<lbrakk>tracker_inv tk; merge_owner_tasks io a u tk = Inr tk'\<rbrakk> \<Longrightarrow> tracker_inv tk' \<and> tk_store tk' = tk_store tk"
  by (auto simp: merge_owner_tasks_def load_all_from_store_def tracker_inv_def merge_cache_ok store_list_stored
      split: option.splits if_splits)

lemma create_persist_inv:
  "\<lbrakk>tracker_inv tk; io_write io \<noteq> Unacknowledged\<rbrakk> \<Longrightarrow> tracker_inv (snd (create_persist io t tk))"
  using persist_inv [of tk io t] by (simp add: create_persist_def)

lemma drop_cached_inv: "tracker_inv tk \<Longrightarrow> tracker_inv (drop_cached k tk)"
  by (simp add: tracker_inv_def drop_cached_def cache_ok_del)

lemma fold_inv: "\<lbrakk>\<And>x s. P s \<Longrightarrow> P (f x s); P s\<rbrakk> \<Longrightarrow> P (fold f xs s)"
  by (induction xs arbitrary: s) simp_all

lemma store_delete_inv:
  assumes "tracker_inv tk" "store_delete_task outcome task_id a u (tk_store tk) = (r, store)" "outcome \<noteq> Unacknowledged"
  shows "case r of Inl _ \<Rightarrow> tk\<lparr>tk_store := store\<rparr> = tk | Inr _ \<Rightarrow> tracker_inv (drop_cached task_id (tk\<lparr>tk_store := store\<rparr>))"
  using assms
  by (cases outcome) (auto simp: store_delete_task_def tracker_inv_def drop_cached_def cache_ok_delete cache_ok_del keys_ok_del
      split: if_splits)

lemma delete_expired_inv:
  assumes "tracker_inv tk" "\<And>t. outcomes t \<noteq> Unacknowledged"
  shows "tracker_inv (delete_expired_task outcomes now task_id tk)"
proof (cases "map_of (tk_cache tk) task_id")
  case (Some t)
  obtain r store where d: "store_delete_task (outcomes task_id) task_id (the (tr_account_id t)) (the (tr_user_id t)) (tk_store tk)
      = (r, store)" by force
  from store_delete_inv [OF assms(1) d assms(2)] assms(1) Some d show ?thesis
    by (auto simp: delete_expired_task_def split: sum.splits)
qed (simp add: delete_expired_task_def assms(1))

lemma delete_tasks_inv:
  assumes "tracker_inv tk" "\<And>t. outcomes t \<noteq> Unacknowledged"
  shows "tracker_inv (snd (delete_tasks outcomes a u ts n tk))"
  using assms(1)
proof (induction ts arbitrary: n tk)
  case (Cons t ts)
  obtain r store where d: "store_delete_task (outcomes (tr_task_id t)) (tr_task_id t) a u (tk_store tk) = (r, store)" by force
  have idx: "tracker_inv (tk'\<lparr>tk_index := i\<rparr>) = tracker_inv tk'" for tk' i
    by (simp add: tracker_inv_def)
  from store_delete_inv [OF Cons.prems d assms(2)] Cons d show ?case
    by (auto simp: Let_def idx split: sum.splits option.split)
qed simp

lemma create_on_owner_inv:
  assumes "tracker_inv tk" "io_write io \<noteq> Unacknowledged"
  shows "tracker_inv (snd (create_on_owner io t chk tk))"
  using assms store_get_stored [of "tk_store tk"] create_persist_inv [OF assms] publish_inv [OF assms(1)]
  by (auto simp: create_on_owner_def load_from_store_def tracker_inv_def split: option.split sum.split)

lemma create_if_none_inv:
  assumes "tracker_inv tk" "io_write io \<noteq> Unacknowledged"
  shows "tracker_inv (snd (create_if_no_running io uuid ty res a u tk))"
proof -
  have "tracker_inv (tk\<lparr>tk_cache := merge_loaded_tasks (store_list (tk_store tk) a (Some u)) (tk_cache tk)\<rparr>)"
    using assms(1) by (simp add: tracker_inv_def merge_cache_ok store_list_stored)
  from create_persist_inv [OF this assms(2)] assms(1) this show ?thesis
    by (simp add: create_if_no_running_def load_all_from_store_def Let_def split: sum.split)
qed

lemma finalize_inv:
  assumes "tracker_inv tk" "io_write io \<noteq> Unacknowledged"
  shows "tracker_inv (snd (finalize_task nx io tid a u tk))"
proof -
  have idx: "tracker_inv (tk'\<lparr>tk_index := i\<rparr>) = tracker_inv tk'" for tk' i
    by (simp add: tracker_inv_def)
  have "tracker_inv (snd (persist_and_publish io t tk))" for t by (rule persist_inv [OF assms])
  then show ?thesis
    using assms(1) unfolding finalize_task_def
    by (auto intro!: with_task_inv simp: idx split: option.split sum.split prod.split)
      (metis snd_conv)+
qed

lemma get_task_inv: "tracker_inv tk \<Longrightarrow> tracker_inv (snd (get_task io tid a u tk))"
  using merge_cache_ok [of "tk_store tk" "tk_cache tk" "[_]"] store_get_stored [of "tk_store tk"]
  by (auto simp: get_task_def load_from_store_def tracker_inv_def Let_def
      simp del: merge_loaded_tasks.simps split: option.splits sum.splits)

lemma get_task_auth_inv: "tracker_inv tk \<Longrightarrow> tracker_inv (snd (get_task_auth io tid a u tk))"
  using store_get_stored [of "tk_store tk"] publish_inv [of tk]
  by (auto simp: get_task_auth_def load_from_store_def tracker_inv_def split: option.splits sum.splits)

lemma cancel_inv:
  assumes "tracker_inv tk" "io_write io \<noteq> Unacknowledged"
  shows "tracker_inv (snd (cancel_locked nx io tid a u tk))"
  using assms(1) persist_inv [OF assms]
  by (auto simp: cancel_locked_def split: option.split sum.split)

lemma tracker_step_inv:
  assumes "tracker_inv tk" "tracker_enabled tk op"
  shows "tracker_inv (tracker_step nx tk op)"
proof (cases op)
  case (OpEvict outcomes now)
  have "tracker_inv (fold (delete_expired_task outcomes now) xs tk)" for xs
    using assms OpEvict by (intro fold_inv [where P = tracker_inv] delete_expired_inv) auto
  then show ?thesis
    by (simp add: OpEvict evict_expired_def trim_cache_def fold_inv [where P = tracker_inv] drop_cached_inv)
next
  case (OpDeleteUser io outcomes a u)
  then show ?thesis
    using assms merge_owner_inv [OF assms(1)] delete_tasks_inv
    by (auto simp: delete_user_tasks_def Let_def split: sum.split)
next
  case (OpList io a u)
  then show ?thesis using assms merge_owner_inv [OF assms(1), of io a u] by (auto split: sum.split)
next
  case (OpCreate io uuid ty res a u tid meta auth)
  then show ?thesis using assms create_on_owner_inv [OF assms(1), of io] by (auto simp: create_task_def split: sum.split)
qed (use assms in \<open>auto simp: start_task_def update_stage_def record_outcome_locked_def tracker_inv_def [of "tk\<lparr>tk_index := _\<rparr>"]
       intro!: create_if_none_inv with_task_inv persist_inv cancel_inv finalize_inv get_task_inv get_task_auth_inv\<close>,
     simp_all add: tracker_inv_def cache_ok_def)

interpretation trk: guarded_machine "tracker_step nx" tracker_enabled tracker_inv for nx
  by unfold_locales (rule tracker_step_inv)

section \<open>How stored records change\<close>

definition may_become :: "task_status \<Rightarrow> task_status \<Rightarrow> bool" where
  "may_become s s' \<longleftrightarrow> s' = s \<or> s = PENDING \<or> (s = RUNNING \<and> s' \<noteq> PENDING) \<or> (s = CANCELLING \<and> s' = CANCELLED)"

definition evolves :: "task_record \<Rightarrow> task_record \<Rightarrow> bool" where
  "evolves t t' \<longleftrightarrow> may_become (tr_status t) (tr_status t') \<and> tr_updated_at t \<le> tr_updated_at t' \<and>
     tr_task_id t' = tr_task_id t \<and> tr_task_type t' = tr_task_type t \<and> tr_created_at t' = tr_created_at t \<and>
     tr_account_id t' = tr_account_id t \<and> tr_user_id t' = tr_user_id t \<and> tr_meta t' = tr_meta t \<and>
     (tr_error t \<noteq> None \<longrightarrow> tr_error t' = tr_error t)"

text \<open>A record is consistent when its outcome fits its status, its error is sanitized, and a terminal record
  has given up its credentials.\<close>

definition error_ok :: "string option \<Rightarrow> bool" where
  "error_ok e = (case e of None \<Rightarrow> True | Some x \<Rightarrow> (\<exists>raw. x = sanitize_error raw))"

definition record_ok :: "task_record \<Rightarrow> bool" where
  "record_ok t \<longleftrightarrow>
     (tr_status t = COMPLETED \<longrightarrow> tr_result t \<noteq> None \<and> tr_error t = None) \<and>
     (tr_status t = FAILED \<longrightarrow> tr_error t \<noteq> None) \<and>
     (tr_status t \<in> set TERMINAL_STATUSES \<longrightarrow> tr_auth t = [] \<and> tr_stage t = Some (status_value (tr_status t))) \<and>
     error_ok (tr_error t)"

text \<open>What an operation may do: delete, create certain records, set certain resources.\<close>

record op_effect =
  ef_deletes :: bool
  ef_creates :: "task_record \<Rightarrow> bool"
  ef_resource :: "string option \<Rightarrow> bool"

definition effect :: "tracker_op \<Rightarrow> op_effect" where
  "effect op =
     \<lparr>ef_deletes = (case op of OpEvict _ _ \<Rightarrow> True | OpDeleteUser _ _ _ _ \<Rightarrow> True | _ \<Rightarrow> False),
      ef_creates = (\<lambda>t. case op of
          OpCreate io uuid ty res a u tid meta auth \<Rightarrow>
            t = new_task (io_now io) (if present tid then the tid else uuid) ty res a u meta auth
        | OpCreateIfNone io uuid ty res a u \<Rightarrow> t = new_task (io_now io) uuid ty (Some res) a u [] []
        | _ \<Rightarrow> False),
      ef_resource = (\<lambda>r. case op of OpOutcome _ _ _ _ _ _ res _ \<Rightarrow> r = res | _ \<Rightarrow> False)\<rparr>"

definition store_change :: "op_effect \<Rightarrow> task_record option \<Rightarrow> task_record option \<Rightarrow> bool" where
  "store_change ef r r' =
     (case (r, r') of
        (None, None) \<Rightarrow> True
      | (None, Some t') \<Rightarrow> tr_status t' = PENDING \<and> record_ok t' \<and> ef_creates ef t'
      | (Some t, Some t') \<Rightarrow> evolves t t' \<and> (record_ok t \<longrightarrow> record_ok t') \<and>
          (tr_resource_id t' = tr_resource_id t \<or> ef_resource ef (tr_resource_id t'))
      | (Some t, None) \<Rightarrow> ef_deletes ef \<and> tr_status t \<in> set TERMINAL_STATUSES)"

definition changes :: "op_effect \<Rightarrow> task_store \<Rightarrow> task_store \<Rightarrow> bool" where
  "changes ef store store' \<longleftrightarrow> (\<forall>k. store_change ef (map_of store k) (map_of store' k))"

lemma evolves_refl [simp]: "evolves t t"
  by (simp add: evolves_def may_become_def)

lemma evolves_trans: "\<lbrakk>evolves t t'; evolves t' t''\<rbrakk> \<Longrightarrow> evolves t t''"
  by (auto simp: evolves_def may_become_def)

lemma changes_refl [simp]: "changes ef store store"
  by (simp add: changes_def store_change_def split: option.split)

lemma changes_set:
  assumes "store_change ef (map_of store k) (Some t)"
  shows "changes ef store (dict_set store k t)"
  using assms by (simp add: changes_def map_of_dict_set) (simp add: store_change_def split: option.split)

lemma persist_changes:
  assumes "io_write io \<noteq> Unacknowledged" "store_change ef (map_of (tk_store tk) (task_key t)) (Some t)"
  shows "changes ef (tk_store tk) (tk_store (snd (persist_and_publish io t tk)))"
  using assms(1)
proof (cases rule: store_write_cases [where outcome = "io_write io" and t = t and store = "tk_store tk"])
  case 1
  with changes_set [OF assms(2)] show ?thesis
    by (simp add: persist_and_publish_def publish_task_def)
next
  case (2 e)
  then show ?thesis by (simp add: persist_and_publish_def)
qed

lemma update_changes:
  assumes "io_write io \<noteq> Unacknowledged" "stored (tk_store tk) t" "evolves t t'" "record_ok t \<Longrightarrow> record_ok t'"
    "tr_resource_id t' = tr_resource_id t \<or> ef_resource ef (tr_resource_id t')"
  shows "changes ef (tk_store tk) (tk_store (snd (persist_and_publish io t' tk)))"
proof (rule persist_changes [OF assms(1)])
  have "task_key t' = task_key t"
    using assms(3) by (simp add: task_key_def evolves_def)
  with assms(2-5) show "store_change ef (map_of (tk_store tk) (task_key t')) (Some t')"
    by (simp add: store_change_def stored_def)
qed

lemma with_task_changes:
  assumes "tracker_inv tk"
    "\<And>t. \<lbrakk>stored (tk_store tk) t; tr_task_id t = task_id\<rbrakk> \<Longrightarrow> changes ef (tk_store tk) (tk_store (snd (body t)))"
  shows "changes ef (tk_store tk) (tk_store (snd (with_task io task_id a u body tk)))"
  using assms load_stored [OF assms(1), of io task_id a u]
  by (auto simp: with_task_def split: sum.split option.split)

lemma with_error_fields [simp]:
  "tr_status (with_error e t) = tr_status t" "tr_updated_at (with_error e t) = tr_updated_at t"
  "tr_task_id (with_error e t) = tr_task_id t" "tr_task_type (with_error e t) = tr_task_type t"
  "tr_created_at (with_error e t) = tr_created_at t" "tr_account_id (with_error e t) = tr_account_id t"
  "tr_user_id (with_error e t) = tr_user_id t" "tr_meta (with_error e t) = tr_meta t"
  "tr_resource_id (with_error e t) = tr_resource_id t" "tr_result (with_error e t) = tr_result t" "tr_auth (with_error e t) = tr_auth t"
  "tr_error t \<noteq> None \<Longrightarrow> tr_error (with_error e t) = tr_error t"
  by (auto simp: with_error_def split: option.split)

lemma with_error_sanitized:
  "error_ok (tr_error t) \<Longrightarrow>
   error_ok (tr_error (with_error e t))"
  by (auto simp: with_error_def error_ok_def split: option.split)

lemma with_outcome_fields:
  assumes "ts \<in> {None, Some CANCELLED}"
  shows "tr_status (with_outcome r e res ts w t) = (if ts = None then tr_status t else CANCELLED)"
    "ts \<noteq> None \<Longrightarrow> tr_stage (with_outcome r e res ts w t) = Some (status_value CANCELLED)"
    "tr_task_id (with_outcome r e res ts w t) = tr_task_id t" "tr_task_type (with_outcome r e res ts w t) = tr_task_type t"
    "tr_created_at (with_outcome r e res ts w t) = tr_created_at t" "tr_account_id (with_outcome r e res ts w t) = tr_account_id t"
    "tr_user_id (with_outcome r e res ts w t) = tr_user_id t" "tr_meta (with_outcome r e res ts w t) = tr_meta t"
    "tr_resource_id (with_outcome r e res ts w t) \<in> {tr_resource_id t, res}"
    "tr_error t \<noteq> None \<Longrightarrow> tr_error (with_outcome r e res ts w t) = tr_error t"
    "error_ok (tr_error t) \<Longrightarrow>
       error_ok (tr_error (with_outcome r e res ts w t))"
  using assms by (auto simp: with_outcome_def Let_def with_error_def error_ok_def split: option.split)

lemma next_updated_at_le: "(\<And>x. x < nx x) \<Longrightarrow> tr_updated_at t \<le> next_updated_at nx now t"
  by (simp add: next_updated_at_def less_imp_le max.coboundedI2)

lemma new_task_ok: "tr_status (new_task now i ty res a u meta auth) = PENDING" "record_ok (new_task now i ty res a u meta auth)"
  "tr_task_id (new_task now i ty res a u meta auth) = i"
  by (simp_all add: new_task_def record_ok_def error_ok_def TERMINAL_STATUSES_def)

lemma create_persist_changes:
  assumes "io_write io \<noteq> Unacknowledged" "map_of (tk_store tk) (task_key t) = None" "tr_status t = PENDING" "record_ok t"
    "ef_creates ef t"
  shows "changes ef (tk_store tk) (tk_store (snd (create_persist io t tk)))"
  using persist_changes [OF assms(1), of ef tk t] assms(2-5) by (simp add: create_persist_def store_change_def)

lemma fresh_key: "fresh_id tk (tr_task_id t) \<Longrightarrow> map_of (tk_store tk) (task_key t) = None"
  by (force simp: fresh_id_def map_of_eq_None_iff task_key_def)

lemma create_changes:
  assumes "tracker_inv tk" "io_write io \<noteq> Unacknowledged" "fresh_id tk uuid"
    "ef_creates ef (new_task (io_now io) (if present tid then the tid else uuid) ty res a u meta auth)"
  shows "changes ef (tk_store tk) (tk_store (snd (create_task io uuid ty res a u tid meta auth tk)))"
proof (cases "validate_owner a u")
  case (Inr ok)
  let ?t = "new_task (io_now io) (if present tid then the tid else uuid) ty res a u meta auth"
  have own: "present (tr_account_id ?t)" "present (tr_user_id ?t)"
    using Inr by (auto simp: new_task_def present_def validate_owner_def split: if_splits)
  have "tid = None \<Longrightarrow> map_of (tk_store tk) (task_key ?t) = None"
    using assms(3) by (intro fresh_key) (simp add: new_task_ok present_def)
  moreover have "store_get (tk_store tk) (tr_task_id ?t) (tr_account_id ?t) (tr_user_id ?t) = map_of (tk_store tk) (task_key ?t)"
    using own by (simp add: store_get_def task_key_def)
  ultimately show ?thesis
    using create_persist_changes [OF assms(2), of tk ?t ef] new_task_ok Inr assms(4)
    by (auto simp: create_task_def create_on_owner_def load_from_store_def publish_task_def split: option.split)
qed (simp add: create_task_def)

lemma create_if_none_changes:
  assumes "io_write io \<noteq> Unacknowledged" "fresh_id tk uuid"
    "ef_creates ef (new_task (io_now io) uuid ty (Some res) a u [] [])"
  shows "changes ef (tk_store tk) (tk_store (snd (create_if_no_running io uuid ty res a u tk)))"
proof -
  let ?t = "new_task (io_now io) uuid ty (Some res) a u [] []"
  let ?tk = "tk\<lparr>tk_cache := merge_loaded_tasks (store_list (tk_store tk) a (Some u)) (tk_cache tk)\<rparr>"
  have "changes ef (tk_store ?tk) (tk_store (snd (create_persist io ?t ?tk)))"
    using fresh_key [of tk ?t] assms by (intro create_persist_changes) (simp_all add: new_task_ok)
  then show ?thesis
    by (simp add: create_if_no_running_def load_all_from_store_def Let_def split: sum.split)
qed

lemma start_changes:
  assumes "tracker_inv tk" "io_write io \<noteq> Unacknowledged" "\<And>x. x < nx x"
  shows "changes ef (tk_store tk) (tk_store (snd (start_task nx io tid a u stage tk)))"
  unfolding start_task_def
proof (rule with_task_changes [OF assms(1)])
  fix t
  assume t: "stored (tk_store tk) t"
  have "evolves t (t\<lparr>tr_status := RUNNING, tr_stage := st, tr_updated_at := next_updated_at nx (io_now io) t\<rparr>) \<and>
    (record_ok t \<longrightarrow> record_ok (t\<lparr>tr_status := RUNNING, tr_stage := st, tr_updated_at := next_updated_at nx (io_now io) t\<rparr>))"
    if "tr_status t \<in> {PENDING, RUNNING}" for st
    using that next_updated_at_le [OF assms(3)] by (auto simp: evolves_def may_become_def record_ok_def TERMINAL_STATUSES_def)
  with update_changes [OF assms(2) t] show "changes ef (tk_store tk) (tk_store (snd (if tr_status t \<in> {PENDING, RUNNING}
      then persist_and_publish io (t\<lparr>tr_status := RUNNING, tr_stage := (case stage of None \<Rightarrow> tr_stage t | Some s \<Rightarrow> Some s),
        tr_updated_at := next_updated_at nx (io_now io) t\<rparr>) tk else (Ok (), tk))))"
    by auto
qed

lemma stage_changes:
  assumes "tracker_inv tk" "io_write io \<noteq> Unacknowledged" "\<And>x. x < nx x"
  shows "changes ef (tk_store tk) (tk_store (snd (update_stage nx io tid stage a u tk)))"
  unfolding update_stage_def
proof (rule with_task_changes [OF assms(1)])
  fix t
  assume t: "stored (tk_store tk) t"
  let ?u = "t\<lparr>tr_stage := Some stage, tr_updated_at := next_updated_at nx (io_now io) t\<rparr>"
  have "evolves t ?u \<and> (record_ok t \<longrightarrow> record_ok ?u)" if "tr_status t \<in> {PENDING, RUNNING}"
    using that next_updated_at_le [OF assms(3)] by (auto simp: evolves_def may_become_def record_ok_def TERMINAL_STATUSES_def)
  with update_changes [OF assms(2) t, of ?u ef] show "changes ef (tk_store tk) (tk_store (snd
      (if tr_status t \<in> {PENDING, RUNNING} then persist_and_publish io ?u tk else (Ok (), tk))))"
    by auto
qed

lemma outcome_changes:
  assumes "tracker_inv tk" "io_write io \<noteq> Unacknowledged" "\<And>x. x < nx x" "ts \<in> {None, Some CANCELLED}"
    "ef_resource ef res"
  shows "changes ef (tk_store tk) (tk_store (snd (record_outcome_locked nx io tid a u r e res ts tk)))"
  unfolding record_outcome_locked_def
proof (rule with_task_changes [OF assms(1)])
  fix t
  assume t: "stored (tk_store tk) t"
  let ?u = "(with_outcome r e res ts (work_failure (tk_index tk) tid) t)
    \<lparr>tr_updated_at := next_updated_at nx (io_now io) t, tr_auth := []\<rparr>"
  note w = with_outcome_fields [OF assms(4)]
  have "tr_resource_id ?u = tr_resource_id t \<or> ef_resource ef (tr_resource_id ?u)"
    using w(9) [of r e res "work_failure (tk_index tk) tid" t] assms(5) by auto
  moreover have "evolves t ?u \<and> (record_ok t \<longrightarrow> record_ok ?u)" if st: "tr_status t \<in> {PENDING, RUNNING}"
  proof
    show "evolves t ?u"
      using st next_updated_at_le [OF assms(3)] by (auto simp: evolves_def may_become_def w)
    show "record_ok t \<longrightarrow> record_ok ?u"
      using st w(2,11) by (auto simp: record_ok_def w(1) TERMINAL_STATUSES_def)
  qed
  ultimately show "changes ef (tk_store tk) (tk_store (snd
      (if tr_status t \<in> {PENDING, RUNNING} then persist_and_publish io ?u tk else (Ok (), tk))))"
    using update_changes [OF assms(2) t, of ?u ef] by auto
qed

lemma terminal_form_Some:
  assumes "terminal_form idx tid t = Some u" "tr_status t \<in> set ACTIVE_STATUSES"
  shows "evolves t (u\<lparr>tr_stage := sg, tr_updated_at := tr_updated_at t, tr_auth := []\<rparr>)"
    "tr_status u \<in> set TERMINAL_STATUSES"
    "record_ok t \<Longrightarrow> record_ok (u\<lparr>tr_stage := Some (status_value (tr_status u)), tr_updated_at := n, tr_auth := []\<rparr>)"
    "tr_resource_id u = tr_resource_id t"
proof -
  define t' where "t' = (if tr_status t \<noteq> CANCELLING then with_error (work_failure idx tid) t else t)"
  have t': "tr_status t' = tr_status t" "tr_error t \<noteq> None \<Longrightarrow> tr_error t' = tr_error t" "tr_result t' = tr_result t"
    "tr_task_id t' = tr_task_id t" "tr_task_type t' = tr_task_type t" "tr_created_at t' = tr_created_at t"
    "tr_account_id t' = tr_account_id t" "tr_user_id t' = tr_user_id t" "tr_meta t' = tr_meta t"
    "tr_resource_id t' = tr_resource_id t"
    "error_ok (tr_error t) \<Longrightarrow> error_ok (tr_error t')"
    using with_error_sanitized [of t] by (simp_all add: t'_def)
  have "(tr_status t = CANCELLING \<and> u = t'\<lparr>tr_status := CANCELLED\<rparr>) \<or>
      (tr_status t \<noteq> CANCELLING \<and> tr_error t' \<noteq> None \<and> u = t'\<lparr>tr_status := FAILED\<rparr>) \<or>
      (tr_status t \<noteq> CANCELLING \<and> tr_error t' = None \<and> tr_result t' \<noteq> None \<and> u = t'\<lparr>tr_status := COMPLETED\<rparr>)"
    using assms(1) by (auto simp: terminal_form_def t'_def [symmetric] t'(1) Let_def split: if_splits)
  note u = this
  have "may_become (tr_status t) (tr_status u)" "tr_status u \<in> set TERMINAL_STATUSES"
    using u assms(2) t'(1)
    by (elim disjE conjE; auto simp: may_become_def TERMINAL_STATUSES_def ACTIVE_STATUSES_def)+
  moreover have "tr_error u = tr_error t'" "tr_result u = tr_result t'" "tr_task_id u = tr_task_id t" "tr_task_type u = tr_task_type t"
    "tr_created_at u = tr_created_at t" "tr_account_id u = tr_account_id t" "tr_user_id u = tr_user_id t" "tr_meta u = tr_meta t"
    "tr_resource_id u = tr_resource_id t"
    using u t' by (elim disjE conjE; simp)+
  moreover have "tr_status u = COMPLETED \<Longrightarrow> tr_result u \<noteq> None \<and> tr_error u = None" "tr_status u = FAILED \<Longrightarrow> tr_error u \<noteq> None"
    using u by (elim disjE conjE; simp)+
  ultimately show "evolves t (u\<lparr>tr_stage := sg, tr_updated_at := tr_updated_at t, tr_auth := []\<rparr>)"
    "tr_status u \<in> set TERMINAL_STATUSES"
    "record_ok t \<Longrightarrow> record_ok (u\<lparr>tr_stage := Some (status_value (tr_status u)), tr_updated_at := n, tr_auth := []\<rparr>)"
    "tr_resource_id u = tr_resource_id t"
    using t'(2,11) by (simp_all add: evolves_def record_ok_def)
qed

lemma evolves_later: "\<lbrakk>evolves t (u\<lparr>tr_stage := sg, tr_updated_at := tr_updated_at t, tr_auth := []\<rparr>); tr_updated_at t \<le> n\<rbrakk>
  \<Longrightarrow> evolves t (u\<lparr>tr_stage := sg, tr_updated_at := n, tr_auth := []\<rparr>)"
  by (simp add: evolves_def)

lemma finalize_changes:
  assumes "tracker_inv tk" "io_write io \<noteq> Unacknowledged" "\<And>x. x < nx x"
  shows "changes ef (tk_store tk) (tk_store (snd (finalize_task nx io tid a u tk)))"
proof -
  let ?fin = "\<lambda>t u. u\<lparr>tr_stage := Some (status_value (tr_status u)),
    tr_updated_at := next_updated_at nx (io_now io) t, tr_auth := []\<rparr>"
  have upd: "changes ef (tk_store tk) (tk_store (snd (persist_and_publish io (?fin t u) tk)))"
    if "stored (tk_store tk) t" "tr_status t \<in> set ACTIVE_STATUSES" "terminal_form (tk_index tk) tid t = Some u" for t u
  proof -
    have "tr_resource_id (?fin t u) = tr_resource_id t"
      using terminal_form_Some(4) [OF that(3,2)] by simp
    then show ?thesis
      by (intro update_changes [OF assms(2) that(1) evolves_later [OF terminal_form_Some(1) [OF that(3,2)]
          next_updated_at_le [OF assms(3)]] terminal_form_Some(3) [OF that(3,2)]] disjI1)
  qed
  have clear: "tk_store (snd (case p of (Inl e, tk') \<Rightarrow> (Raise e, tk') | (Inr _, tk') \<Rightarrow> (Ok (), tk'\<lparr>tk_index := f tk'\<rparr>)))
      = tk_store (snd p)" for p :: "unit res \<times> tracker" and f
    by (cases p; cases "fst p") auto
  show ?thesis
  proof (cases "has_work (tk_index tk) tid None")
    case False
    show ?thesis
      unfolding finalize_task_def if_not_P [OF False]
    proof (rule with_task_changes [OF assms(1)])
      fix t
      assume t: "stored (tk_store tk) t"
      show "changes ef (tk_store tk) (tk_store (snd (if tr_status t \<in> set ACTIVE_STATUSES
          then (case terminal_form (tk_index tk) tid t of None \<Rightarrow> (Ok (), tk)
            | Some u \<Rightarrow> (case persist_and_publish io (?fin t u) tk of (Inl e, tk') \<Rightarrow> (Raise e, tk')
                | (Inr _, tk') \<Rightarrow> (Ok (), tk'\<lparr>tk_index := clear_failure (tk_index tk') tid\<rparr>)))
          else (Ok (), tk))))"
        using upd [OF t] by (cases "terminal_form (tk_index tk) tid t") (simp_all add: clear)
    qed
  qed (simp add: finalize_task_def)
qed

lemma cancel_changes:
  assumes "tracker_inv tk" "io_write io \<noteq> Unacknowledged" "\<And>x. x < nx x"
  shows "changes ef (tk_store tk) (tk_store (snd (cancel_locked nx io tid a u tk)))"
proof -
  have upd: "changes ef (tk_store tk) (tk_store (snd (persist_and_publish io
      (t\<lparr>tr_status := CANCELLING, tr_updated_at := next_updated_at nx (io_now io) t\<rparr>) tk)))"
    if "stored (tk_store tk) t" "tr_status t \<notin> set TERMINAL_STATUSES" for t
    using that next_updated_at_le [OF assms(3), of t]
    by (intro update_changes [OF assms(2) that(1)])
      (cases "tr_status t"; auto simp: evolves_def may_become_def record_ok_def TERMINAL_STATUSES_def)+
  show ?thesis
    using load_stored [OF assms(1), of io tid a u]
    by (auto simp: cancel_locked_def upd split: sum.split option.split)
qed

text \<open>Removing records only: what is gone was terminal.\<close>

definition only_removed :: "task_store \<Rightarrow> task_store \<Rightarrow> bool" where
  "only_removed store store' \<longleftrightarrow>
     (\<forall>k. map_of store' k = map_of store k \<or>
          map_of store' k = None \<and> (\<exists>t. map_of store k = Some t \<and> tr_status t \<in> set TERMINAL_STATUSES))"

lemma only_removed_changes:
  assumes "only_removed store store'" "ef_deletes ef"
  shows "changes ef store store'"
  unfolding changes_def
proof
  fix k
  show "store_change ef (map_of store k) (map_of store' k)"
    using assms unfolding only_removed_def store_change_def by (elim allE [of _ k]) (auto split: option.split)
qed

lemma only_removed_refl [simp]: "only_removed store store"
  by (simp add: only_removed_def)

lemma only_removed_del:
  assumes "only_removed store0 store" "map_of store k = Some t" "tr_status t \<in> set TERMINAL_STATUSES"
  shows "only_removed store0 (dict_del store k)"
  unfolding only_removed_def map_of_dict_del
proof
  fix k'
  show "((map_of store)(k := None)) k' = map_of store0 k' \<or> ((map_of store)(k := None)) k' = None \<and>
      (\<exists>t. map_of store0 k' = Some t \<and> tr_status t \<in> set TERMINAL_STATUSES)"
    using assms unfolding only_removed_def by (cases "k' = k") (metis fun_upd_same option.distinct(1), metis fun_upd_other)
qed

lemma cached_stored: "\<lbrakk>tracker_inv tk; map_of (tk_cache tk) tid = Some t\<rbrakk>
  \<Longrightarrow> owned t \<and> map_of (tk_store tk) (the (tr_account_id t), the (tr_user_id t), tid) = Some t"
  unfolding tracker_inv_def cache_ok_def stored_def task_key_def by metis

lemma store_delete_removed:
  assumes "only_removed store0 store" "map_of store (a, u, tid) = Some t" "tr_status t \<in> set TERMINAL_STATUSES"
    "store_delete_task outcome tid a u store = (r, store')"
  shows "only_removed store0 store'"
  using assms(4) only_removed_del [OF assms(1-3)] assms(1)
  by (auto simp: store_delete_task_def Let_def split: if_splits write_outcome.splits)

lemma expired_terminal: "is_expired t now \<Longrightarrow> tr_status t \<in> set TERMINAL_STATUSES"
  by (auto simp: is_expired_def TERMINAL_STATUSES_def Let_def split: if_splits)

lemma delete_expired_removed:
  assumes "tracker_inv tk" "only_removed store0 (tk_store tk)"
  shows "only_removed store0 (tk_store (delete_expired_task outcomes now tid tk))"
proof (cases "map_of (tk_cache tk) tid")
  case (Some t)
  obtain r store where d: "store_delete_task (outcomes tid) tid (the (tr_account_id t)) (the (tr_user_id t)) (tk_store tk) = (r, store)"
    by force
  have "is_expired t now \<Longrightarrow> only_removed store0 store"
    using store_delete_removed [OF assms(2) _ expired_terminal d] cached_stored [OF assms(1) Some] by blast
  then show ?thesis
    using assms(2) Some d by (auto simp: delete_expired_task_def drop_cached_def split: sum.split)
qed (simp add: delete_expired_task_def assms(2))

lemma fold_delete_removed:
  assumes "\<And>t. outcomes t \<noteq> Unacknowledged" "tracker_inv tk" "only_removed store0 (tk_store tk)"
  shows "only_removed store0 (tk_store (fold (delete_expired_task outcomes now) xs tk))"
  using assms(2,3)
  by (induction xs arbitrary: tk) (simp_all add: delete_expired_inv [OF _ assms(1)] delete_expired_removed)

lemma fold_drop_store: "tk_store (fold drop_cached xs tk) = tk_store tk"
  by (induction xs arbitrary: tk) (simp_all add: drop_cached_def)

lemma delete_tasks_removed:
  assumes "\<And>t. outcomes t \<noteq> Unacknowledged" "tracker_inv tk" "only_removed store0 (tk_store tk)"
  shows "only_removed store0 (tk_store (snd (delete_tasks outcomes a u ts n tk)))"
  using assms(2,3)
proof (induction ts arbitrary: n tk)
  case (Cons t ts)
  show ?case
  proof (cases "map_of (tk_cache tk) (tr_task_id t)")
    case None
    then show ?thesis using Cons by simp
  next
    case (Some c)
    obtain r store where d: "store_delete_task (outcomes (tr_task_id t)) (tr_task_id t) a u (tk_store tk) = (r, store)" by force
    have key: "map_of (tk_store tk) (a, u, tr_task_id t) = Some c" if "matches_owner c (Some a) (Some u)"
      using cached_stored [OF Cons.prems(1) Some] that by (simp add: matches_owner_def)
    have trm: "tr_status c \<notin> set ACTIVE_STATUSES \<Longrightarrow> tr_status c \<in> set TERMINAL_STATUSES"
      by (cases "tr_status c") (auto simp: ACTIVE_STATUSES_def TERMINAL_STATUSES_def)
    have removed: "only_removed store0 store" if "matches_owner c (Some a) (Some u)" "tr_status c \<notin> set ACTIVE_STATUSES"
      by (rule store_delete_removed [OF Cons.prems(2) key [OF that(1)] trm [OF that(2)] d])
    have inv: "case r of Inl _ \<Rightarrow> tk\<lparr>tk_store := store\<rparr> = tk
        | Inr _ \<Rightarrow> tracker_inv ((drop_cached (tr_task_id t) (tk\<lparr>tk_store := store\<rparr>))\<lparr>tk_index := i\<rparr>)" for i
      using store_delete_inv [OF Cons.prems(1) d assms(1)] by (auto simp: tracker_inv_def split: sum.splits)
    show ?thesis
    proof (cases "matches_owner c (Some a) (Some u) \<and> tr_status c \<notin> set ACTIVE_STATUSES \<and> \<not> has_work (tk_index tk) (tr_task_id t) None")
      case False
      then show ?thesis using Cons Some by (auto simp: Let_def)
    next
      case True
      then show ?thesis
        using Cons.IH inv removed Some d Cons.prems(2)
        by (cases r) (simp_all add: drop_cached_def Let_def)
    qed
  qed
qed simp

lemma step_changes:
  assumes "tracker_inv tk" "tracker_enabled tk op" "\<And>x. x < nx x"
  shows "changes (effect op) (tk_store tk) (tk_store (tracker_step nx tk op))"
proof (cases op)
  case (OpEvict outcomes now)
  then have "only_removed (tk_store tk) (tk_store (fold (delete_expired_task outcomes now) xs tk))" for xs
    using assms by (intro fold_delete_removed) auto
  then show ?thesis
    by (auto simp: OpEvict effect_def evict_expired_def trim_cache_def fold_drop_store intro!: only_removed_changes)
next
  case (OpDeleteUser io outcomes a u)
  have "only_removed (tk_store tk) (tk_store (snd (delete_tasks outcomes a u ts n tk')))"
    if "merge_owner_tasks io (Some a) (Some u) tk = Inr tk'" for ts n tk'
    using assms OpDeleteUser merge_owner_inv [OF assms(1) that] by (intro delete_tasks_removed) auto
  then show ?thesis
    using merge_owner_inv [OF assms(1), of io "Some a" "Some u"]
    by (auto simp: OpDeleteUser effect_def delete_user_tasks_def Let_def intro!: only_removed_changes split: sum.split)
next
  case (OpList io a u)
  then show ?thesis using merge_owner_inv [OF assms(1), of io a u] by (auto split: sum.split)
next
  case (OpGet io tid a u)
  then show ?thesis by (auto simp: get_task_def Let_def split: option.split sum.split)
next
  case (OpAuth io tid a u)
  then show ?thesis by (auto simp: get_task_auth_def publish_task_def split: option.split sum.split)
qed (use assms in \<open>auto intro!: create_changes create_if_none_changes start_changes stage_changes outcome_changes cancel_changes finalize_changes simp: effect_def\<close>)

text \<open>Runs that delete nothing let every stored record evolve.\<close>

lemma run_evolves:
  assumes "tracker_inv tk" "run_enabled (tracker_step nx) tracker_enabled tk ops" "\<And>x. x < nx x"
    "list_all (\<lambda>op. \<not> ef_deletes (effect op)) ops" "map_of (tk_store tk) k = Some t"
  shows "\<exists>t'. map_of (tk_store (foldl (tracker_step nx) tk ops)) k = Some t' \<and> evolves t t'"
  using assms(1,2,4,5)
proof (induction ops arbitrary: tk t)
  case (Cons op ops)
  let ?tk = "tracker_step nx tk op"
  have inv: "tracker_inv ?tk" using Cons.prems by (simp add: tracker_step_inv)
  have "changes (effect op) (tk_store tk) (tk_store ?tk)"
    using step_changes [OF Cons.prems(1) _ assms(3), of op] Cons.prems by simp
  then have "store_change (effect op) (Some t) (map_of (tk_store ?tk) k)"
    using Cons.prems(4) unfolding changes_def by metis
  then obtain t1 where t1: "map_of (tk_store ?tk) k = Some t1" "evolves t t1"
    using Cons.prems(3) by (auto simp: store_change_def split: option.splits)
  from Cons.IH [OF inv _ _ t1(1)] Cons.prems t1(2) show ?case
    by (auto intro: evolves_trans)
qed auto

definition records_ok :: "tracker \<Rightarrow> bool" where
  "records_ok tk \<longleftrightarrow> (\<forall>k t. map_of (tk_store tk) k = Some t \<longrightarrow> record_ok t)"

lemma records_ok_step:
  assumes "tracker_inv tk" "tracker_enabled tk op" "\<And>x. x < nx x" "records_ok tk"
  shows "records_ok (tracker_step nx tk op)"
  unfolding records_ok_def
proof (intro allI impI)
  fix k t
  assume t: "map_of (tk_store (tracker_step nx tk op)) k = Some t"
  have "store_change (effect op) (map_of (tk_store tk) k) (Some t)"
    using step_changes [OF assms(1-3)] t by (metis changes_def)
  moreover have "map_of (tk_store tk) k = Some t0 \<Longrightarrow> record_ok t0" for t0
    using assms(4) unfolding records_ok_def by blast
  ultimately show "record_ok t"
    by (cases "map_of (tk_store tk) k") (auto simp: store_change_def)
qed

lemma run_records_ok:
  assumes "tracker_inv tk" "records_ok tk" "run_enabled (tracker_step nx) tracker_enabled tk ops" "\<And>x. x < nx x"
  shows "records_ok (foldl (tracker_step nx) tk ops)"
  using assms(1-3)
  by (induction ops arbitrary: tk) (auto intro: tracker_step_inv records_ok_step [OF _ _ assms(4)])

lemma new_tracker_ok: "tracker_inv new_tracker" "records_ok new_tracker"
  by (simp_all add: new_tracker_def tracker_inv_def keys_ok_def cache_ok_def records_ok_def)

end
