(* ===== verification/Task_Lifecycle.thy ===== *)
theory Task_Lifecycle
  imports Task_Tracker
begin

text \<open>
  What the task tracker guarantees over runs of its operations, and together with the index of queue
  work: tasks only move forward, terminal records are consistent, at most one task of a kind runs for a
  resource, and a task is terminal in the store before its last message may go.
\<close>

section \<open>Runs\<close>

lemma run_enabled_append:
  "run_enabled step enabled s (xs @ ys) \<longleftrightarrow> run_enabled step enabled s xs \<and> run_enabled step enabled (foldl step s xs) ys"
  by (induction xs arbitrary: s) auto

lemmas tracker_eval = create_task_def create_on_owner_def create_persist_def persist_and_publish_def publish_task_def
  validate_owner_def new_task_def store_write_def present_def load_from_store_def store_get_def with_task_def
  load_for_update_def start_task_def matches_owner_def new_tracker_def fresh_id_def next_updated_at_def

definition sample_io :: task_io where
  "sample_io = \<lparr>io_now = 0, io_read = True, io_write = Written\<rparr>"

definition sample_create :: tracker_op where
  "sample_create = OpCreate sample_io ''t'' ''session_commit'' None ''a'' ''u'' None [] []"

definition sample_start :: tracker_op where
  "sample_start = OpStart sample_io ''t'' (Some ''a'') (Some ''u'') None"

lemmas sample_defs = sample_io_def sample_create_def sample_start_def





section \<open>One running task\<close>

definition runs :: "string \<Rightarrow> string \<Rightarrow> string \<Rightarrow> string \<Rightarrow> task_store \<Rightarrow> string \<times> string \<times> string \<Rightarrow> bool" where
  "runs ty res a u store k \<longleftrightarrow>
     (case map_of store k of None \<Rightarrow> False | Some t \<Rightarrow> is_running_task ty res (Some a) (Some u) t)"

definition one_running :: "string \<Rightarrow> string \<Rightarrow> string \<Rightarrow> string \<Rightarrow> task_store \<Rightarrow> bool" where
  "one_running ty res a u store \<longleftrightarrow> (\<forall>k k'. runs ty res a u store k \<longrightarrow> runs ty res a u store k' \<longrightarrow> k = k')"

definition ids_unique :: "task_store \<Rightarrow> bool" where
  "ids_unique store \<longleftrightarrow>
     (\<forall>k k'. map_of store k \<noteq> None \<longrightarrow> map_of store k' \<noteq> None \<longrightarrow> snd (snd k) = snd (snd k') \<longrightarrow> k = k')"

text \<open>The callers of \<open>create_if_no_running\<close> for a kind of task and a resource do not create such tasks
  otherwise, do not move other tasks to the resource, and identifiers they choose are not in use by
  another owner.\<close>

definition keeps_kind :: "string \<Rightarrow> string \<Rightarrow> tracker \<Rightarrow> tracker_op \<Rightarrow> bool" where
  "keeps_kind ty res tk op =
     (tracker_enabled tk op \<and>
      (case op of
         OpCreate io uuid ty' res' a u tid meta auth \<Rightarrow>
           (ty', res') \<noteq> (ty, Some res) \<and>
           (\<forall>k. map_of (tk_store tk) k \<noteq> None \<longrightarrow> snd (snd k) = the tid \<longrightarrow> present tid \<longrightarrow> k = (a, u, the tid))
       | OpOutcome _ _ _ _ _ _ r _ \<Rightarrow> r \<noteq> Some res
       | _ \<Rightarrow> True))"

lemma keys_okD: "\<lbrakk>keys_ok store; map_of store k = Some t\<rbrakk> \<Longrightarrow> k = task_key t \<and> owned t"
  unfolding keys_ok_def by metis

lemma runs_iff: "runs ty res a u store k \<longleftrightarrow> (\<exists>t. map_of store k = Some t \<and> is_running_task ty res (Some a) (Some u) t)"
  by (simp add: runs_def split: option.split)

lemma merge_covers: "\<lbrakk>t \<in> set ts \<or> map_of cache (tr_task_id t) \<noteq> None\<rbrakk> \<Longrightarrow> map_of (merge_loaded_tasks ts cache) (tr_task_id t) \<noteq> None"
proof (induction ts arbitrary: cache)
  case (Cons x ts)
  show ?case
  proof (cases "t = x")
    case True
    then show ?thesis using Cons.IH by (auto simp: map_of_dict_set split: option.split)
  next
    case False
    then show ?thesis using Cons by (auto simp: map_of_dict_set split: option.split)
  qed
qed auto

lemma merged_has_running:
  assumes "tracker_inv tk" "ids_unique (tk_store tk)" "runs ty res a u (tk_store tk) k"
  shows "list_ex (is_running_task ty res (Some a) (Some u))
    (map snd (merge_loaded_tasks (store_list (tk_store tk) a (Some u)) (tk_cache tk)))"
proof -
  let ?c = "merge_loaded_tasks (store_list (tk_store tk) a (Some u)) (tk_cache tk)"
  obtain t where t: "map_of (tk_store tk) k = Some t" "is_running_task ty res (Some a) (Some u) t"
    using assms(3) unfolding runs_iff by blast
  have own: "k = task_key t" "owned t" "tr_account_id t = Some a" "tr_user_id t = Some u"
    using assms(1) keys_okD [OF _ t(1)] t(2) by (simp_all add: tracker_inv_def is_running_task_def matches_owner_def)
  have "t \<in> set (store_list (tk_store tk) a (Some u))"
    using map_of_SomeD [OF t(1)] own by (force simp: store_list_def task_key_def owned_def)
  then obtain c where c: "map_of ?c (tr_task_id t) = Some c"
    using merge_covers by fastforce
  have ok: "cache_ok (tk_store tk) ?c"
    using assms(1) by (simp add: tracker_inv_def merge_cache_ok store_list_stored)
  then have "stored (tk_store tk) c" "tr_task_id c = tr_task_id t"
    using c unfolding cache_ok_def by blast+
  then have "task_key c = task_key t"
    using assms(2) t(1) own(1) unfolding ids_unique_def stored_def task_key_def by (metis option.distinct(1) snd_conv)
  then have "c = t"
    using \<open>stored (tk_store tk) c\<close> t(1) own(1) by (simp add: stored_def)
  with map_of_SomeD [OF c] t(2) show ?thesis
    by (force simp: list_ex_iff)
qed

lemma create_if_none_quiet:
  assumes "tracker_inv tk" "ids_unique (tk_store tk)" "runs ty res a u (tk_store tk) k"
  shows "tk_store (snd (create_if_no_running io uuid ty res a u tk)) = tk_store tk"
  using merged_has_running [OF assms]
  by (simp add: create_if_no_running_def load_all_from_store_def Let_def split: sum.split)

lemma changes_kept:
  assumes "changes ef store store'" "map_of store' k = Some t'" "map_of store k = Some t"
    "\<not> ef_resource ef (Some res)" "is_running_task ty res a u t'"
  shows "is_running_task ty res a u t"
proof -
  have "store_change ef (Some t) (Some t')"
    using assms(1-3) unfolding changes_def by metis
  then have "evolves t t'" "tr_resource_id t' = tr_resource_id t"
    using assms(4,5) by (auto simp: store_change_def is_running_task_def)
  with assms(5) show ?thesis
    by (auto simp: is_running_task_def evolves_def may_become_def matches_owner_def ACTIVE_STATUSES_def)
qed

lemma changes_new:
  assumes "changes ef store store'" "map_of store' k = Some t'" "map_of store k = None"
  shows "ef_creates ef t'"
proof -
  have "store_change ef None (Some t')"
    using assms unfolding changes_def by metis
  then show ?thesis by (simp add: store_change_def)
qed

lemma ids_unique_step:
  assumes "tracker_inv tk" "ids_unique (tk_store tk)" "keeps_kind ty res tk op" "\<And>x. x < nx x"
  shows "ids_unique (tk_store (tracker_step nx tk op))"
proof -
  let ?s = "tk_store tk" and ?s' = "tk_store (tracker_step nx tk op)"
  have en: "tracker_enabled tk op" using assms(3) by (simp add: keeps_kind_def)
  note ch = step_changes [OF assms(1) en assms(4)]
  have ok: "keys_ok ?s'" using tracker_step_inv [OF assms(1) en] by (simp add: tracker_inv_def)
  have new: "k' = k" if k: "map_of ?s' k = Some t" "map_of ?s k = None" and k': "map_of ?s k' \<noteq> None" "snd (snd k) = snd (snd k')" for k k' t
  proof -
    have "ef_creates (effect op) t" by (rule changes_new [OF ch k])
    moreover have "k = task_key t" using keys_okD [OF ok k(1)] by simp
    moreover have "k' \<in> fst ` set ?s" using k'(1) by (simp add: map_of_eq_None_iff)
    ultimately show ?thesis
      using assms(3) en k'
      by (cases op; auto simp: effect_def keeps_kind_def fresh_id_def new_task_def task_key_def split: if_splits; blast)
  qed
  have both: "k' = k" if k: "map_of ?s' k = Some t" "map_of ?s k = None" and k': "map_of ?s' k' = Some t'" "map_of ?s k' = None" for k k' t t'
  proof -
    have "ef_creates (effect op) t" "ef_creates (effect op) t'"
      by (rule changes_new [OF ch k], rule changes_new [OF ch k'])
    then have "t = t'" by (auto simp: effect_def split: tracker_op.splits)
    then show ?thesis using keys_okD [OF ok k(1)] keys_okD [OF ok k'(1)] by simp
  qed
  show ?thesis
    unfolding ids_unique_def
  proof (intro allI impI)
    fix k k'
    assume "map_of ?s' k \<noteq> None" "map_of ?s' k' \<noteq> None" "snd (snd k) = snd (snd k')"
    then show "k = k'"
      using new both assms(2) unfolding ids_unique_def by (metis not_None_eq)
  qed
qed

lemma one_running_step:
  assumes "tracker_inv tk" "ids_unique (tk_store tk)" "one_running ty res a u (tk_store tk)" "keeps_kind ty res tk op" "\<And>x. x < nx x"
  shows "one_running ty res a u (tk_store (tracker_step nx tk op))"
proof -
  let ?s = "tk_store tk" and ?s' = "tk_store (tracker_step nx tk op)"
  have en: "tracker_enabled tk op" using assms(4) by (simp add: keeps_kind_def)
  note ch = step_changes [OF assms(1) en assms(5)]
  have ok: "keys_ok ?s'" using tracker_step_inv [OF assms(1) en] by (simp add: tracker_inv_def)
  have nores: "\<not> ef_resource (effect op) (Some res)"
    using assms(4) by (auto simp: effect_def keeps_kind_def split: tracker_op.splits)
  have old: "runs ty res a u ?s k" if "runs ty res a u ?s' k" "map_of ?s k \<noteq> None" for k
    using that changes_kept [OF ch _ _ nores] unfolding runs_iff by (metis not_None_eq)
  have new: "\<exists>io uuid. op = OpCreateIfNone io uuid ty res a u" and newt: "ef_creates (effect op) (the (map_of ?s' k))"
    if r: "runs ty res a u ?s' k" and n: "map_of ?s k = None" for k
  proof -
    obtain t where t: "map_of ?s' k = Some t" "is_running_task ty res (Some a) (Some u) t"
      using r unfolding runs_iff by blast
    from changes_new [OF ch t(1) n] show "ef_creates (effect op) (the (map_of ?s' k))" by (simp add: t(1))
    with t assms(4) show "\<exists>io uuid. op = OpCreateIfNone io uuid ty res a u"
      by (cases op) (auto simp: effect_def keeps_kind_def is_running_task_def matches_owner_def new_task_def)
  qed
  have quiet: "map_of ?s k \<noteq> None" if "runs ty res a u ?s' k" "runs ty res a u ?s k0" for k k0
    using new [OF that(1)] create_if_none_quiet [OF assms(1,2) that(2)] that(1) unfolding runs_iff by (metis option.distinct(1) tracker_step.simps(2))
  show ?thesis
    unfolding one_running_def
  proof (intro allI impI)
    fix k k'
    assume r: "runs ty res a u ?s' k" "runs ty res a u ?s' k'"
    show "k = k'"
    proof (cases "map_of ?s k = None \<and> map_of ?s k' = None")
      case True
      then have "the (map_of ?s' k) = the (map_of ?s' k')"
        using newt [OF r(1)] newt [OF r(2)] by (auto simp: effect_def split: tracker_op.splits)
      with r show ?thesis
        using keys_okD [OF ok] unfolding runs_iff by (metis option.sel)
    next
      case False
      then have "map_of ?s k \<noteq> None" "map_of ?s k' \<noteq> None"
        using old r quiet by metis+
      with old r assms(3) show ?thesis unfolding one_running_def by blast
    qed
  qed
qed

text \<open>At most one task of a kind runs for a resource: whatever the tracker goes through, restarts and
  evictions of the cache included, as long as such tasks are only created through
  \<^verbatim>\<open>create_if_no_running\<close>, no owner ever has two active tasks of the kind for the resource.\<close>

theorem at_most_one_running:
  assumes "run_enabled (tracker_step nx) (keeps_kind ty res) new_tracker ops" "\<And>x. x < nx x"
  shows "one_running ty res a u (tk_store (foldl (tracker_step nx) new_tracker ops))"
proof -
  have "one_running ty res a u (tk_store (foldl (tracker_step nx) tk ops))"
    if "tracker_inv tk" "ids_unique (tk_store tk)" "one_running ty res a u (tk_store tk)"
      "run_enabled (tracker_step nx) (keeps_kind ty res) tk ops" for tk
    using that
  proof (induction ops arbitrary: tk)
    case (Cons op ops)
    have op: "tracker_enabled tk op" "keeps_kind ty res tk op"
      using Cons.prems(4) by (simp_all add: keeps_kind_def)
    from Cons.IH [OF tracker_step_inv [OF Cons.prems(1) op(1)] ids_unique_step [OF Cons.prems(1,2) op(2) assms(2)]
        one_running_step [OF Cons.prems(1-3) op(2) assms(2)]] Cons.prems(4)
    show ?case by simp
  qed simp
  from this [OF new_tracker_ok(1) _ _ assms(1)] show ?thesis
    by (simp add: new_tracker_def ids_unique_def one_running_def runs_def)
qed

theorem at_most_one_running_witness:
  "one_running ''reindex'' ''r'' ''a'' ''u'' (tk_store (foldl (tracker_step (\<lambda>x. x + 1)) new_tracker
     [OpCreateIfNone sample_io ''1'' ''reindex'' ''r'' ''a'' ''u'', OpRestart,
      OpCreateIfNone sample_io ''2'' ''reindex'' ''r'' ''a'' ''u'']))"
  by (rule at_most_one_running)
    (simp_all add: keeps_kind_def sample_defs tracker_eval create_if_no_running_def load_all_from_store_def
       store_list_def is_running_task_def)

section \<open>Snapshots\<close>

text \<open>What callers see: a task handed out by \<^verbatim>\<open>get\<close> belongs to the owner that was asked for, carries no
  credentials, and shows no sensitive field at any depth of its result and metadata; apart from that it
  is the stored record.\<close>

theorem snapshot_safe:
  assumes "tracker_inv tk" "get_task io task_id (Some a) (Some u) tk = (Ok (Some c), tk')"
  shows "tr_account_id c = Some a \<and> tr_user_id c = Some u \<and> tr_auth c = [] \<and>
    \<not> exposes_items ''user_key'' (tr_meta c) \<and>
    (case tr_result c of None \<Rightarrow> True | Some r \<Rightarrow> \<not> exposes_items ''user_key'' r) \<and>
    map_option copy_task (map_of (tk_store tk) (a, u, task_id)) = Some c"
proof -
  have key: "''user_key'' \<in> set SENSITIVE_RESULT_KEYS" by (simp add: SENSITIVE_RESULT_KEYS_def)
  have "\<exists>t. c = copy_task t \<and> matches_owner t (Some a) (Some u) \<and> map_of (tk_store tk) (a, u, task_id) = Some t"
  proof (cases "map_of (tk_cache tk) task_id")
    case (Some t)
    with assms(2) cached_stored [OF assms(1) Some] show ?thesis
      by (auto simp: get_task_def matches_owner_def split: if_splits)
  next
    case None
    with assms(2) obtain t where t: "store_get (tk_store tk) task_id (Some a) (Some u) = Some t"
      by (auto simp: get_task_def load_from_store_def split: option.splits if_splits)
    then have st: "map_of (tk_store tk) (a, u, task_id) = Some t" "tr_task_id t = task_id"
      using store_get_stored [of "tk_store tk" task_id "Some a" "Some u" t] assms(1)
      by (auto simp: store_get_def tracker_inv_def split: if_splits)
    with assms(2) None t show ?thesis
      by (auto simp: get_task_def load_from_store_def map_of_dict_set split: if_splits)
  qed
  then show ?thesis
    using sanitized_no_key(2) [OF key] by (auto simp: copy_task_def matches_owner_def split: option.splits)
qed

theorem snapshot_safe_witness:
  "map_option tr_auth (case fst (get_task sample_io ''t'' (Some ''a'') (Some ''u'') (tracker_step (\<lambda>x. x + 1) new_tracker sample_create))
     of Inl _ \<Rightarrow> None | Inr c \<Rightarrow> c) = Some []"
proof -
  let ?tk = "tracker_step (\<lambda>x. x + 1) new_tracker sample_create"
  have inv: "tracker_inv ?tk"
    using new_tracker_ok(1) by (rule tracker_step_inv) (simp add: sample_defs tracker_eval)
  obtain c where c: "get_task sample_io ''t'' (Some ''a'') (Some ''u'') ?tk = (Ok (Some c), ?tk)"
    by (simp add: get_task_def sample_defs tracker_eval)
  from snapshot_safe [OF inv c] c show ?thesis by simp
qed

section \<open>The last acknowledgement\<close>

text \<open>The finalizer of the tracker as callback of the work index, and the acknowledgement of a message of a
  task: the work is removed, the callback runs when the task became idle, and a failing callback
  restores the work.\<close>

definition owner_or_None :: "string \<Rightarrow> string option" where
  "owner_or_None s = (if s = [] then None else Some s)"

definition finalize_before_ack :: "(rat \<Rightarrow> rat) \<Rightarrow> task_io \<Rightarrow> task_metadata \<Rightarrow> tracker \<Rightarrow> unit res \<times> tracker" where
  "finalize_before_ack nextafter io m tk =
     finalize_task nextafter io (md_task_id m) (owner_or_None (md_account_id m)) (owner_or_None (md_user_id m)) tk"

definition ack_work :: "(rat \<Rightarrow> rat) \<Rightarrow> task_io \<Rightarrow> string \<Rightarrow> task_metadata \<Rightarrow> tracker
    \<Rightarrow> task_metadata option res \<times> tracker" where
  "ack_work nextafter io queue m tk =
     (case remove_work (tk_index tk) queue m of
        (removed, became_idle, idx) \<Rightarrow>
          let tk1 = tk\<lparr>tk_index := idx\<rparr>
          in if \<not> removed then (Ok None, tk1)
             else if \<not> became_idle then (Ok (Some m), tk1)
             else case finalize_before_ack nextafter io m tk1 of
                    (Inr _, tk2) \<Rightarrow> (Ok (Some m), tk2)
                  | (Inl e, tk2) \<Rightarrow> (Raise e, tk2\<lparr>tk_index := rollback_ack (tk_index tk2) queue m\<rparr>))"

text \<open>This is \<open>prepare_ack\<close> with the outcome of the finalizer.\<close>

lemma ack_work_prepare_ack:
  "fst (ack_work nextafter io queue m tk) =
     fst (prepare_ack (Some (fst (finalize_before_ack nextafter io m
       (tk\<lparr>tk_index := snd (snd (remove_work (tk_index tk) queue m))\<rparr>)))) (tk_index tk) queue (Some m))"
  by (auto simp: ack_work_def prepare_ack_def Let_def split: prod.split sum.split)

lemma persist_Ok:
  assumes "persist_and_publish io t tk = (Inr x, tk')" "io_write io \<noteq> Unacknowledged"
  shows "map_of (tk_store tk') (task_key t) = Some t"
  using assms(2)
proof (cases rule: store_write_cases [where outcome = "io_write io" and t = t and store = "tk_store tk"])
  case 1
  with assms(1) show ?thesis
    by (auto simp: persist_and_publish_def publish_task_def map_of_dict_set)
next
  case (2 e)
  with assms(1) show ?thesis by (simp add: persist_and_publish_def)
qed

lemma finalize_settles:
  assumes "tracker_inv tk" "io_write io \<noteq> Unacknowledged" "\<not> has_work (tk_index tk) tid None"
    "map_of (tk_store tk) (a, u, tid) = Some t" "map_of (tk_cache tk) tid \<in> {None, Some t}"
    "terminal_form (tk_index tk) tid t \<noteq> None \<or> tr_status t \<in> set TERMINAL_STATUSES"
    "finalize_task nx io tid (Some a) (Some u) tk = (Ok (), tk')"
  shows "\<exists>t'. map_of (tk_store tk') (a, u, tid) = Some t' \<and> tr_status t' \<in> set TERMINAL_STATUSES"
proof -
  have key: "(a, u, tid) = task_key t" "owned t"
    using keys_okD [of "tk_store tk" "(a, u, tid)" t] assms(1,4) by (simp_all add: tracker_inv_def)
  then have own: "tr_account_id t = Some a" "tr_user_id t = Some u" "present (Some a)" "present (Some u)"
    by (auto simp: task_key_def owned_def present_def split: option.splits)
  have load: "load_for_update io tk tid (Some a) (Some u) = Ok (Some t) \<or> (\<exists>e. load_for_update io tk tid (Some a) (Some u) = Raise e)"
    using assms(4,5) own
    by (cases "io_read io") (auto simp: load_for_update_def load_from_store_def store_get_def matches_owner_def)
  show ?thesis
  proof (cases "tr_status t \<in> set ACTIVE_STATUSES")
    case False
    then have "tk' = tk" "tr_status t \<in> set TERMINAL_STATUSES"
      using assms(3,7) load by (cases "tr_status t"; auto simp: finalize_task_def with_task_def ACTIVE_STATUSES_def TERMINAL_STATUSES_def)+
    with assms(4) show ?thesis by blast
  next
    case True
    then have "tr_status t \<notin> set TERMINAL_STATUSES"
      by (auto simp: ACTIVE_STATUSES_def TERMINAL_STATUSES_def)
    then obtain v where v: "terminal_form (tk_index tk) tid t = Some v" using assms(6) by blast
    let ?v = "v\<lparr>tr_stage := Some (status_value (tr_status v)), tr_updated_at := next_updated_at nx (io_now io) t, tr_auth := []\<rparr>"
    obtain tk2 where p: "persist_and_publish io ?v tk = (Ok (), tk2)" "tk_store tk' = tk_store tk2"
      using assms(3,7) load True v
      by (auto simp: finalize_task_def with_task_def split: prod.splits sum.splits)
    have "task_key ?v = task_key t"
      using terminal_form_Some(1) [OF v True] by (simp add: evolves_def task_key_def)
    with persist_Ok [OF p(1) assms(2)] p(2) key(1) terminal_form_Some(2) [OF v True] show ?thesis by simp
  qed
qed

text \<open>A task is terminal before its last message may go: when the last work item of a task with an outcome is
  acknowledged, either the acknowledgement goes on and the record of the task is terminal in the store
  already, or it fails and the work item is back in the index, so that the message is kept.\<close>

theorem terminal_before_last_ack:
  assumes "tracker_inv tk" "io_write io \<noteq> Unacknowledged"
    "entries (tw_work (tk_index tk)) (md_task_id m) = {(queue, md_work_id m)}" "entries (tw_active (tk_index tk)) (md_task_id m) = {}"
    "md_account_id m \<noteq> []" "md_user_id m \<noteq> []"
    "map_of (tk_store tk) (md_account_id m, md_user_id m, md_task_id m) = Some t"
    "map_of (tk_cache tk) (md_task_id m) \<in> {None, Some t}"
    "terminal_form (tk_index tk) (md_task_id m) t \<noteq> None \<or> tr_status t \<in> set TERMINAL_STATUSES"
    "ack_work nx io queue m tk = (r, tk')"
  shows "case r of
      Inr _ \<Rightarrow> (\<exists>t'. map_of (tk_store tk') (md_account_id m, md_user_id m, md_task_id m) = Some t' \<and>
                 tr_status t' \<in> set TERMINAL_STATUSES)
    | Inl _ \<Rightarrow> (queue, md_work_id m) \<in> entries (tw_work (tk_index tk')) (md_task_id m)"
proof -
  define idx where "idx = (tk_index tk)\<lparr>tw_work := discard_entry (tw_work (tk_index tk)) (md_task_id m) (queue, md_work_id m)\<rparr>"
  let ?tk1 = "tk\<lparr>tk_index := idx\<rparr>"
  have rm: "remove_work (tk_index tk) queue m = (True, True, idx)"
    using assms(3,4) by (simp add: remove_work_def idx_def Let_def)
  obtain r2 tk2 where fin: "finalize_task nx io (md_task_id m) (Some (md_account_id m)) (Some (md_user_id m)) ?tk1 = (r2, tk2)"
    by force
  have "\<not> has_work idx (md_task_id m) None"
    using assms(3,4) by (simp add: has_work_def idx_def)
  moreover have "terminal_form idx (md_task_id m) t = terminal_form (tk_index tk) (md_task_id m) t"
    by (simp add: terminal_form_def work_failure_def idx_def)
  ultimately have settle: "\<exists>t'. map_of (tk_store tk2) (md_account_id m, md_user_id m, md_task_id m) = Some t' \<and> tr_status t' \<in> set TERMINAL_STATUSES"
    if "r2 = Ok ()"
    using finalize_settles [of ?tk1 io "md_task_id m" "md_account_id m" "md_user_id m" t nx tk2] assms fin that
    by (simp add: tracker_inv_def)
  show ?thesis
  proof (cases r2)
    case (Inl e)
    then show ?thesis
      using assms(5,6,10) rm fin by (auto simp: ack_work_def finalize_before_ack_def owner_or_None_def rollback_ack_def)
  next
    case (Inr x)
    then show ?thesis
      using assms(5,6,10) rm fin settle by (auto simp: ack_work_def finalize_before_ack_def owner_or_None_def)
  qed
qed

text \<open>A task with a result whose last message is acknowledged.\<close>

definition sample_done :: task_record where
  "sample_done = (new_task 0 ''t'' ''session_commit'' None ''a'' ''u'' [] [])\<lparr>tr_status := RUNNING, tr_result := Some []\<rparr>"

definition sample_tracker :: tracker where
  "sample_tracker = \<lparr>tk_cache = [(''t'', sample_done)], tk_store = [((''a'', ''u'', ''t''), sample_done)],
     tk_index = TaskWorkIndex\<lparr>tw_work := [''t'' \<mapsto> {(''q'', ''w'')}]\<rparr>\<rparr>"

lemma sample_tracker_inv: "tracker_inv sample_tracker"
  by (auto simp: sample_tracker_def sample_done_def tracker_inv_def keys_ok_def cache_ok_def stored_def owned_def
      task_key_def new_task_def present_def split: if_splits)

theorem terminal_before_last_ack_witness:
  "\<exists>t'. map_of (tk_store (snd (ack_work (\<lambda>x. x + 1) sample_io ''q'' one_work sample_tracker))) (''a'', ''u'', ''t'') = Some t' \<and>
     tr_status t' \<in> set TERMINAL_STATUSES"
proof -
  have r: "fst (ack_work (\<lambda>x. x + 1) sample_io ''q'' one_work sample_tracker) = Ok (Some one_work)"
    by (simp add: ack_work_def remove_work_def sample_tracker_def one_work_def entries_def discard_entry_def TaskWorkIndex_def
        finalize_before_ack_def owner_or_None_def finalize_task_def has_work_def sample_done_def terminal_form_def with_error_def
        work_failure_def ACTIVE_STATUSES_def sample_io_def tracker_eval Let_def)
  show ?thesis
    using terminal_before_last_ack [OF sample_tracker_inv, where io = sample_io and m = one_work and queue = "''q''"
        and t = sample_done and nx = "\<lambda>x. x + 1", OF _ _ _ _ _ _ _ _ prod.collapse [symmetric]] r
    by (simp add: sample_io_def one_work_def sample_tracker_def sample_done_def entries_def TaskWorkIndex_def terminal_form_def
        with_error_def work_failure_def present_def new_task_def)
qed

section \<open>Eviction and cancellation\<close>

lemma sort_key_first:
  assumes "e \<in> set xs" "\<And>x. x \<in> set xs \<Longrightarrow> x \<noteq> e \<Longrightarrow> f e < f x"
  shows "hd (sort_key f xs) = e"
proof -
  obtain y ys where s: "sort_key f xs = y # ys"
    using assms(1) by (metis list.exhaust set_empty length_0_conv length_sort list.set_cases sort_key_simps(1) empty_iff empty_set)
  have "sorted (map f (y # ys))" "e \<in> set (y # ys)" "y \<in> set xs"
    using assms(1) s by (metis sorted_sort_key, metis set_sort, metis list.set_intros(1) set_sort)
  then show ?thesis
    using assms(2) s by force
qed

lemma fold_drop_cached: "map_of (tk_cache (fold drop_cached ids tk)) i = (if i \<in> set ids then None else map_of (tk_cache tk) i)"
  by (induction ids arbitrary: tk) (auto simp: drop_cached_def map_of_dict_del)

text \<open>Trimming the cache forgets a requested cancellation: when the cache is over its limit, the oldest record is
  dropped even though its task is being cancelled; the store still says so, but from then on the fast
  check of the queue workers answers no, and new work of the cancelled task is accepted.\<close>

theorem eviction_forgets_cancellation:
  assumes "length (tk_cache tk) > MAX_TASKS" "(tid, t) \<in> set (tk_cache tk)"
    "tr_status t = CANCELLING" "distinct (map fst (tk_cache tk))"
    "\<And>e. e \<in> set (tk_cache tk) \<Longrightarrow> e \<noteq> (tid, t) \<Longrightarrow> tr_created_at t < tr_created_at (snd e)"
    "\<And>e. e \<in> set (tk_cache tk) \<Longrightarrow> \<not> is_expired (snd e) now"
  shows "is_cancellation_requested tk tid \<and> tk_store (evict_expired outcomes now tk) = tk_store tk \<and>
    \<not> is_cancellation_requested (evict_expired outcomes now tk) tid \<and>
    (md_task_id m = tid \<longrightarrow> fst (register (is_cancellation_requested (evict_expired outcomes now tk)) idx queue (Some m)))"
proof -
  let ?s = "sort_key (\<lambda>e. tr_created_at (snd e)) (tk_cache tk)"
  have none: "filter (\<lambda>e. is_expired (snd e) now) (tk_cache tk) = []"
    using assms(6) by (simp add: filter_empty_conv)
  have "?s \<noteq> []" "hd ?s = (tid, t)"
    using assms(1) sort_key_first [of "(tid, t)" "tk_cache tk" "\<lambda>e. tr_created_at (snd e)"] assms(2,5)
    by (auto simp: length_0_conv [symmetric] simp del: length_0_conv)
  then have "tid \<in> set (map fst (take (length (tk_cache tk) - MAX_TASKS) ?s))"
    using assms(1) by (cases ?s; cases "length (tk_cache tk) - MAX_TASKS") auto
  then have "map_of (tk_cache (evict_expired outcomes now tk)) tid = None"
    using assms(1) by (simp add: evict_expired_def none trim_cache_def fold_drop_cached)
  moreover have "is_cancellation_requested tk tid"
    using assms(2-4) by (simp add: is_cancellation_requested_def)
  ultimately show ?thesis
    by (simp add: is_cancellation_requested_def register_def evict_expired_def none trim_cache_def fold_drop_store)
qed

text \<open>One task more than the cache holds, all being cancelled.\<close>

definition cancelling_task :: "nat \<Rightarrow> task_record" where
  "cancelling_task n = (new_task (of_nat n) (replicate n CHR ''x'') ''reindex'' None ''a'' ''u'' [] [])\<lparr>tr_status := CANCELLING\<rparr>"

definition many_cancelling :: tracker where
  "many_cancelling = \<lparr>tk_cache = map (\<lambda>n. (replicate n CHR ''x'', cancelling_task n)) [0..<Suc MAX_TASKS],
     tk_store = [], tk_index = TaskWorkIndex\<rparr>"

lemma cancelling_task_fields [simp]:
  "tr_status (cancelling_task n) = CANCELLING" "tr_created_at (cancelling_task n) = of_nat n"
  by (simp_all add: cancelling_task_def new_task_def)

lemma many_cancelling_set:
  "e \<in> set (tk_cache many_cancelling) \<longleftrightarrow> (\<exists>n \<le> MAX_TASKS. e = (replicate n CHR ''x'', cancelling_task n))"
  by (auto simp: many_cancelling_def simp del: upt_Suc)

theorem eviction_forgets_cancellation_witness:
  "is_cancellation_requested many_cancelling [] \<and>
   \<not> is_cancellation_requested (evict_expired (\<lambda>_. Written) 0 many_cancelling) []"
proof -
  have "length (tk_cache many_cancelling) > MAX_TASKS"
    by (simp add: many_cancelling_def del: upt_Suc)
  moreover have "([], cancelling_task 0) \<in> set (tk_cache many_cancelling)"
    unfolding many_cancelling_set by (intro exI [of _ 0]) simp
  moreover have "distinct (map fst (tk_cache many_cancelling))"
    by (simp add: many_cancelling_def distinct_map comp_def inj_on_def del: upt_Suc)
  moreover have "0 < tr_created_at (snd e)" if "e \<in> set (tk_cache many_cancelling)" "e \<noteq> ([], cancelling_task 0)" for e
    using that unfolding many_cancelling_set by (auto intro: Nat.gr0I)
  moreover have "\<not> is_expired (snd e) 0" if "e \<in> set (tk_cache many_cancelling)" for e
    using that unfolding many_cancelling_set by (auto simp: is_expired_def)
  ultimately show ?thesis
    using eviction_forgets_cancellation [of many_cancelling "[]" "cancelling_task 0" 0 "\<lambda>_. Written" one_work TaskWorkIndex "''q''"]
    by simp
qed

end
