(* ===== verification/Abstract_Overview.thy ===== *)
theory Abstract_Overview
  imports PyValue "HOL-Library.Countable"
begin

text \<open>
  The generated directory summaries, \<^verbatim>\<open>storage/abstract_overview.py\<close>, with the refresh policy of
  \<^verbatim>\<open>storage/queuefs/semantic_ops/freshness_policy.py\<close>. A summary file (\<^verbatim>\<open>.abstract.md\<close> or
  \<^verbatim>\<open>.overview.md\<close>) is a Markdown body behind a YAML front matter that carries machine metadata:
  the directory, the source, the generator, and the freshness counters.

  YAML itself is third-party code: the loader and the dumper are arguments of the definitions, and
  what a rendering relies on is the predicate \<open>yaml_faithful\<close>. The file system is a map from URIs to
  contents; a write that fails is the parameter \<open>bad\<close> of the two routines that write.
\<close>

section \<open>Lines\<close>

abbreviation LF :: char where "LF \<equiv> CHR 0x0A"
abbreviation CR :: char where "CR \<equiv> CHR 0x0D"

definition is_linebreak :: "char \<Rightarrow> bool" where
  "is_linebreak c \<longleftrightarrow> (let n = (of_char c :: nat) in (10 \<le> n \<and> n \<le> 13) \<or> (28 \<le> n \<and> n \<le> 30) \<or> n = 133)"

text \<open>\<^verbatim>\<open>str.splitlines(keepends=True)\<close>: every line keeps its terminator, and CR LF is one terminator.\<close>

fun py_splitlines :: "string \<Rightarrow> string list" where
  "py_splitlines [] = []"
| "py_splitlines (c # s) =
     (if is_linebreak c \<and> \<not> (c = CR \<and> take 1 s = [LF]) then [c] # py_splitlines s
      else case py_splitlines s of [] \<Rightarrow> [[c]] | l # ls \<Rightarrow> (c # l) # ls)"

definition is_crlf :: "char \<Rightarrow> bool" where
  "is_crlf c \<longleftrightarrow> c = CR \<or> c = LF"

definition is_delimiter :: "string \<Rightarrow> bool" where
  "is_delimiter line \<longleftrightarrow> py_rstrip is_crlf line = ''---''"

section \<open>Metadata\<close>

definition ABSTRACT_OVERVIEW_FILENAMES :: "string list" where
  "ABSTRACT_OVERVIEW_FILENAMES = [''.abstract.md'', ''.overview.md'']"

text \<open>\<^verbatim>\<open>uri.rstrip("/").rsplit("/", 1)\<close>: its last component, and what stands before it (the whole
  string when there is no slash).\<close>

definition last_segment :: "string \<Rightarrow> string" where
  "last_segment uri = (let u = py_rstrip is_slash uri in
     case py_rfind CHR ''/'' u of None \<Rightarrow> u | Some i \<Rightarrow> drop (i + 1) u)"

definition parent_segment :: "string \<Rightarrow> string" where
  "parent_segment uri = (let u = py_rstrip is_slash uri in
     case py_rfind CHR ''/'' u of None \<Rightarrow> u | Some i \<Rightarrow> take i u)"

definition is_abstract_overview_uri :: "string \<Rightarrow> bool" where
  "is_abstract_overview_uri uri \<longleftrightarrow> last_segment uri \<in> set ABSTRACT_OVERVIEW_FILENAMES"

definition MAX_SOURCE_URI_CHARS :: nat where "MAX_SOURCE_URI_CHARS = 4096"
definition MAX_LABEL_CHARS :: nat where "MAX_LABEL_CHARS = 128"

definition normalize_directory_uri :: "string \<Rightarrow> string res" where
  "normalize_directory_uri dir_uri =
     (let value = strip_space dir_uri in
      if value = [] then Raise AbstractOverviewFormatError
      else if \<not> py_startswith value ''viking://'' then Raise AbstractOverviewFormatError
      else Ok (py_rstrip is_slash value @ ''/''))"

fun bounded_string :: "pyval \<Rightarrow> nat \<Rightarrow> string res" where
  "bounded_string (PStr value) limit =
     (let normalized = strip_space value in
      if normalized = [] \<or> length normalized > limit then Raise AbstractOverviewFormatError else Ok normalized)"
| "bounded_string _ _ = Raise AbstractOverviewFormatError"

text \<open>\<^verbatim>\<open>str(metadata["directory"])\<close>: no value other than a string prints with \<^verbatim>\<open>viking://\<close> in front.\<close>

fun directory_field :: "pyval option \<Rightarrow> pydict res" where
  "directory_field None = Ok []"
| "directory_field (Some (PStr s)) = res_bind (normalize_directory_uri s) (\<lambda>d. Ok [(''directory'', PStr d)])"
| "directory_field (Some _) = Raise AbstractOverviewFormatError"

text \<open>\<^verbatim>\<open>source\<close> and \<^verbatim>\<open>generated_by\<close>: absent or None is skipped, anything but an object with both keys is an error.\<close>

fun labelled_field :: "string \<Rightarrow> string \<times> nat \<Rightarrow> string \<times> nat \<Rightarrow> pyval \<Rightarrow> pydict res" where
  "labelled_field name f g PNone = Ok []"
| "labelled_field name (k1, l1) (k2, l2) (PDict d) =
     (case (map_of d k1, map_of d k2) of
        (Some v1, Some v2) \<Rightarrow>
          res_bind (bounded_string v1 l1) (\<lambda>a. res_bind (bounded_string v2 l2) (\<lambda>b.
            Ok [(name, PDict [(k1, PStr a), (k2, PStr b)])]))
      | _ \<Rightarrow> Raise AbstractOverviewFormatError)"
| "labelled_field name f g _ = Raise AbstractOverviewFormatError"

definition source_field :: "pyval \<Rightarrow> pydict res" where
  "source_field v = labelled_field ''source'' (''kind'', MAX_LABEL_CHARS) (''uri'', MAX_SOURCE_URI_CHARS) v"

definition generated_by_field :: "pyval \<Rightarrow> pydict res" where
  "generated_by_field v = labelled_field ''generated_by'' (''component'', MAX_LABEL_CHARS) (''trigger'', MAX_LABEL_CHARS) v"

fun counter :: "pyval \<Rightarrow> int res" where
  "counter (PInt n) = (if n < 0 then Raise AbstractOverviewFormatError else Ok n)"
| "counter _ = Raise AbstractOverviewFormatError"

fun freshness_field :: "pyval \<Rightarrow> pydict res" where
  "freshness_field PNone = Ok []"
| "freshness_field (PDict d) =
     (case (map_of d ''total_entries'', map_of d ''sampled_entries'', map_of d ''unsampled_entries'',
            map_of d ''pending_child_changes'') of
        (Some t, Some s, Some u, Some p) \<Rightarrow>
          res_bind (counter t) (\<lambda>nt. res_bind (counter s) (\<lambda>ns. res_bind (counter u) (\<lambda>nu. res_bind (counter p) (\<lambda>np.
          res_bind (case map_of d ''missing_summary_entries'' of
                      None \<Rightarrow> Ok []
                    | Some m \<Rightarrow> res_bind (counter m) (\<lambda>nm. Ok [(''missing_summary_entries'', PInt nm)])) (\<lambda>missing.
          if ns + nu \<noteq> nt then Raise AbstractOverviewFormatError
          else Ok [(''freshness'', PDict ([(''total_entries'', PInt nt), (''sampled_entries'', PInt ns),
                     (''unsampled_entries'', PInt nu), (''pending_child_changes'', PInt np)] @ missing))])))))
      | _ \<Rightarrow> Raise AbstractOverviewFormatError)"
| "freshness_field _ = Raise AbstractOverviewFormatError"

text \<open>The four known fields in the order of \<^verbatim>\<open>_METADATA_ORDER\<close>; every other key is dropped.\<close>

definition normalize_metadata :: "pydict \<Rightarrow> pydict res" where
  "normalize_metadata metadata =
     res_bind (directory_field (map_of metadata ''directory'')) (\<lambda>d.
     res_bind (source_field (dict_get metadata ''source'')) (\<lambda>s.
     res_bind (generated_by_field (dict_get metadata ''generated_by'')) (\<lambda>g.
     res_bind (freshness_field (dict_get metadata ''freshness'')) (\<lambda>f.
     Ok (d @ s @ g @ f)))))"

section \<open>Parsing and rendering\<close>

record okf_document =
  od_metadata :: pydict
  od_body :: string
  od_legacy :: bool

record yaml_ops =
  safe_load :: "string \<Rightarrow> pyval res"
  safe_dump :: "pydict \<Rightarrow> string"

definition drop_leading_newline :: "string \<Rightarrow> string" where
  "drop_leading_newline body =
     (if py_startswith body [CR, LF] then drop 2 body
      else if py_startswith body [LF] then drop 1 body else body)"

text \<open>A YAML error is re-raised as a format error, and an empty front matter is an empty object.\<close>

definition load_frontmatter :: "yaml_ops \<Rightarrow> string \<Rightarrow> pydict res" where
  "load_frontmatter y fm =
     (case safe_load y fm of
        Inl e \<Rightarrow> Raise AbstractOverviewFormatError
      | Inr PNone \<Rightarrow> Raise AbstractOverviewFormatError
      | Inr (PDict d) \<Rightarrow>
          if map_of d ''directory'' = None then Raise AbstractOverviewFormatError else Ok d
      | Inr _ \<Rightarrow> Raise AbstractOverviewFormatError)"

definition parse_abstract_overview :: "yaml_ops \<Rightarrow> string \<Rightarrow> okf_document res" where
  "parse_abstract_overview y raw =
     (case py_splitlines raw of
        [] \<Rightarrow> Ok \<lparr>od_metadata = [], od_body = raw, od_legacy = True\<rparr>
      | l # lines \<Rightarrow>
          if \<not> is_delimiter l then Ok \<lparr>od_metadata = [], od_body = raw, od_legacy = True\<rparr>
          else (case dropWhile (\<lambda>m. \<not> is_delimiter m) lines of
                  [] \<Rightarrow> Raise AbstractOverviewFormatError
                | _ # rest \<Rightarrow>
                    res_bind (load_frontmatter y (concat (takeWhile (\<lambda>m. \<not> is_delimiter m) lines))) (\<lambda>loaded.
                    res_bind (normalize_metadata loaded) (\<lambda>metadata.
                    Ok \<lparr>od_metadata = metadata, od_body = drop_leading_newline (concat rest), od_legacy = False\<rparr>))))"

definition ABSTRACT :: int where "ABSTRACT = 0"
definition OVERVIEW :: int where "OVERVIEW = 1"

definition frontmatter_text :: "yaml_ops \<Rightarrow> pydict \<Rightarrow> string" where
  "frontmatter_text y metadata = py_rstrip py_isspace (safe_dump y metadata)"

definition okf_text :: "string \<Rightarrow> string \<Rightarrow> string" where
  "okf_text frontmatter body = ''---'' @ [LF] @ frontmatter @ [LF] @ ''---'' @ [LF, LF] @ body"

definition render_abstract_overview :: "yaml_ops \<Rightarrow> int \<Rightarrow> string \<Rightarrow> string \<Rightarrow> pydict \<Rightarrow> string res" where
  "render_abstract_overview y level dir_uri body metadata =
     (if level \<noteq> ABSTRACT \<and> level \<noteq> OVERVIEW then Raise AbstractOverviewFormatError
      else res_bind (normalize_directory_uri dir_uri) (\<lambda>d.
           res_bind (normalize_metadata (dict_set metadata ''directory'' (PStr d))) (\<lambda>merged.
           Ok (okf_text (frontmatter_text y merged) (strip_space body @ [LF])))))"

definition body_for_preview :: "yaml_ops \<Rightarrow> string \<Rightarrow> string res" where
  "body_for_preview y raw =
     res_bind (parse_abstract_overview y raw) (\<lambda>doc.
       Ok (if od_legacy doc then od_body doc else py_rstrip is_crlf (od_body doc)))"

definition EMBEDDING_METADATA_FIELDS :: "string list" where
  "EMBEDDING_METADATA_FIELDS = [''directory'']"

definition body_for_embedding :: "yaml_ops \<Rightarrow> string \<Rightarrow> string list \<Rightarrow> string res" where
  "body_for_embedding y raw whitelist =
     res_bind (parse_abstract_overview y raw) (\<lambda>doc.
       let selected = foldl (\<lambda>sel field. case map_of (od_metadata doc) field of
                               None \<Rightarrow> sel | Some v \<Rightarrow> dict_set sel field v) [] whitelist
       in if selected = [] then Ok (od_body doc)
          else Ok (okf_text (frontmatter_text y selected) (strip_space (od_body doc))))"

definition embedding_text_for_body :: "yaml_ops \<Rightarrow> int \<Rightarrow> string \<Rightarrow> string \<Rightarrow> string res" where
  "embedding_text_for_body y level dir_uri body =
     res_bind (render_abstract_overview y level dir_uri body []) (\<lambda>raw.
       body_for_embedding y raw EMBEDDING_METADATA_FIELDS)"

section \<open>Public writes and transfers\<close>

definition prepare_abstract_overview_write ::
    "yaml_ops \<Rightarrow> string \<Rightarrow> string \<Rightarrow> string \<Rightarrow> string \<Rightarrow> string res" where
  "prepare_abstract_overview_write y uri current_raw requested_raw mode =
     (if mode \<noteq> ''replace'' \<and> mode \<noteq> ''append'' then Raise ValueError
      else if \<not> is_abstract_overview_uri uri then Raise ValueError
      else res_bind (parse_abstract_overview y current_raw) (\<lambda>current.
           res_bind (parse_abstract_overview y requested_raw) (\<lambda>requested.
           if \<not> od_legacy requested \<and> od_metadata requested \<noteq> od_metadata current
           then Raise AbstractOverviewMetadataError
           else
             let body = (if mode = ''append'' then od_body current @ od_body requested else od_body requested);
                 level = (if last_segment uri = ''.abstract.md'' then ABSTRACT else OVERVIEW);
                 dir_uri = (case map_of (od_metadata current) ''directory'' of
                              Some (PStr d) \<Rightarrow> if d \<noteq> [] then d else parent_segment uri
                            | _ \<Rightarrow> parent_segment uri)
             in render_abstract_overview y level dir_uri body (od_metadata current))))"


text \<open>\<^verbatim>\<open>urllib.parse.quote(s, safe=":/")\<close>: the UTF-8 bytes of every other character are percent-encoded.\<close>

definition hex_upper :: "nat \<Rightarrow> char" where
  "hex_upper d = ''0123456789ABCDEF'' ! d"

definition percent_byte :: "nat \<Rightarrow> string" where
  "percent_byte b = [CHR ''%'', hex_upper (b div 16), hex_upper (b mod 16)]"

definition quote_char :: "char \<Rightarrow> string" where
  "quote_char c =
     (if ascii_alnum c \<or> c \<in> set ''_.-~:/'' then [c]
      else let n = (of_char c :: nat) in
        if n < 128 then percent_byte n else percent_byte (192 + n div 64) @ percent_byte (128 + n mod 64))"

definition uri_quote :: "string \<Rightarrow> string" where
  "uri_quote s = concat (map quote_char s)"

text \<open>The lookahead behind a reference: the end, white space, or one of the listed characters.\<close>

definition suffix_boundary :: "string \<Rightarrow> bool" where
  "suffix_boundary rest = (case rest of [] \<Rightarrow> True | c # _ \<Rightarrow> py_isspace c \<or> c \<in> set ''/#)]}>,\"`.;:!?'' \<or> c = CHR 0x27)"

text \<open>\<^verbatim>\<open>re.sub\<close> of a literal with that lookahead: leftmost matches that do not overlap. \<open>skip\<close> counts the
  characters of a match still to be dropped.\<close>

fun sub_refs :: "string \<Rightarrow> string \<Rightarrow> nat \<Rightarrow> string \<Rightarrow> string" where
  "sub_refs old new skip [] = []"
| "sub_refs old new (Suc skip) (c # t) = sub_refs old new skip t"
| "sub_refs old new 0 (c # t) =
     (if py_startswith (c # t) old \<and> suffix_boundary (drop (length old) (c # t))
      then new @ sub_refs old new (length old - 1) t
      else c # sub_refs old new 0 t)"

definition rewrite_viking_uri_references :: "string \<Rightarrow> string \<Rightarrow> string \<Rightarrow> string" where
  "rewrite_viking_uri_references body source_uri target_uri =
     (let source = py_rstrip is_slash source_uri; target = py_rstrip is_slash target_uri in
      if source = [] \<or> source = target then body
      else let quoted = sub_refs (uri_quote source) (uri_quote target) 0 body
           in if source = uri_quote source then quoted else sub_refs source target 0 quoted)"

definition rewrite_abstract_overview_for_transfer ::
    "yaml_ops \<Rightarrow> string \<Rightarrow> int \<Rightarrow> string \<Rightarrow> string \<Rightarrow> string option \<Rightarrow> string option \<Rightarrow> string res" where
  "rewrite_abstract_overview_for_transfer y raw level source_dir_uri target_dir_uri source_scope_uri target_scope_uri =
     res_bind (parse_abstract_overview y raw) (\<lambda>document.
       let body = rewrite_viking_uri_references (od_body document)
             (if truthy_opt source_scope_uri then the source_scope_uri else source_dir_uri)
             (if truthy_opt target_scope_uri then the target_scope_uri else target_dir_uri)
       in if od_legacy document then Ok body
          else render_abstract_overview y level target_dir_uri body (od_metadata document))"

section \<open>Freshness\<close>

datatype freshness_action = NOOP | MARK_PENDING | REFRESH_NOW

record freshness_decision =
  fd_action :: freshness_action
  fd_pending_after :: int
  fd_total_entries :: int

definition decide_parent_refresh :: "bool \<Rightarrow> bool \<Rightarrow> int \<Rightarrow> int \<Rightarrow> int \<Rightarrow> int \<Rightarrow> rat \<Rightarrow> bool \<Rightarrow> freshness_decision" where
  "decide_parent_refresh l0_body_changed has_freshness_baseline total_entries pending_before current_change_count
       overview_sample_limit refresh_ratio force_refresh =
     (if \<not> l0_body_changed \<or> current_change_count \<le> 0
      then \<lparr>fd_action = NOOP, fd_pending_after = pending_before, fd_total_entries = total_entries\<rparr>
      else let pending_after = pending_before + current_change_count in
        if \<not> has_freshness_baseline \<or> force_refresh \<or> total_entries \<le> overview_sample_limit
        then \<lparr>fd_action = REFRESH_NOW, fd_pending_after = pending_after, fd_total_entries = total_entries\<rparr>
        else \<lparr>fd_action = (if of_int pending_after / of_int (max total_entries 1) \<ge> refresh_ratio then REFRESH_NOW else MARK_PENDING),
              fd_pending_after = pending_after, fd_total_entries = total_entries\<rparr>)"

definition deterministic_sample :: "'a list \<Rightarrow> int \<Rightarrow> 'a list" where
  "deterministic_sample items limit =
     (if limit \<le> 0 then []
      else if int (length items) \<le> limit then items
      else if limit = 1 then [items ! 0]
      else map (\<lambda>index. items ! ((index * (length items - 1)) div (nat limit - 1))) [0 ..< nat limit])"

definition freshness_metadata :: "int \<Rightarrow> int \<Rightarrow> int \<Rightarrow> int option \<Rightarrow> pyval res" where
  "freshness_metadata total_entries sampled_entries pending missing =
     res_bind (normalize_metadata [(''freshness'', PDict ([(''total_entries'', PInt total_entries),
        (''sampled_entries'', PInt sampled_entries), (''unsampled_entries'', PInt (total_entries - sampled_entries)),
        (''pending_child_changes'', PInt pending)] @
        (case missing of None \<Rightarrow> [] | Some n \<Rightarrow> [(''missing_summary_entries'', PInt n)])))])
      (\<lambda>m. Ok (dict_get m ''freshness''))"

section \<open>The two files of a directory\<close>

type_synonym files = "string \<Rightarrow> string option"

text \<open>Other failures than a missing file are not modelled for reads.\<close>

definition read_existing_document :: "yaml_ops \<Rightarrow> files \<Rightarrow> string \<Rightarrow> okf_document option res" where
  "read_existing_document y fs uri =
     (case fs uri of None \<Rightarrow> Ok None | Some raw \<Rightarrow> res_bind (parse_abstract_overview y raw) (\<lambda>d. Ok (Some d)))"

text \<open>\<^verbatim>\<open>metadata.get("freshness")\<close> when it is an object, and a counter of it.\<close>

definition freshness_of :: "okf_document option \<Rightarrow> pydict option" where
  "freshness_of doc = (case doc of None \<Rightarrow> None | Some d \<Rightarrow>
     (case map_of (od_metadata d) ''freshness'' of Some (PDict f) \<Rightarrow> Some f | _ \<Rightarrow> None))"

definition fresh_count :: "pydict \<Rightarrow> string \<Rightarrow> int" where
  "fresh_count f k = (case map_of f k of Some (PInt n) \<Rightarrow> n | _ \<Rightarrow> 0)"

definition baseline_of :: "okf_document option \<Rightarrow> pydict option" where
  "baseline_of doc = (case doc of None \<Rightarrow> None | Some d \<Rightarrow> if od_legacy d then None else freshness_of doc)"

definition pending_of :: "okf_document option \<Rightarrow> int list" where
  "pending_of doc = (case freshness_of doc of None \<Rightarrow> [] | Some f \<Rightarrow> [fresh_count f ''pending_child_changes''])"

fun replace_crlf :: "string \<Rightarrow> string" where
  "replace_crlf [] = []"
| "replace_crlf [c] = [c]"
| "replace_crlf (c # d # s) = (if c = CR \<and> d = LF then LF # replace_crlf s else c # replace_crlf (d # s))"

text \<open>CR LF and then CR become LF; the digest is of the stripped result. \<open>sha\<close> stands for SHA-256.\<close>

definition semantic_body_digest :: "(string \<Rightarrow> string) \<Rightarrow> string \<Rightarrow> string" where
  "semantic_body_digest sha body =
     sha (strip_space (map (\<lambda>c. if c = CR then LF else c) (replace_crlf body)))"

definition write_if_changed :: "(string \<Rightarrow> bool) \<Rightarrow> files \<Rightarrow> string \<Rightarrow> string \<Rightarrow> files \<times> unit res" where
  "write_if_changed bad fs uri rendered =
     (if fs uri = Some rendered then (fs, Ok ())
      else if bad uri then (fs, Raise OSError)
      else (fs(uri \<mapsto> rendered), Ok ()))"

record write_result =
  wr_wrote :: bool
  wr_overview_body_changed :: bool
  wr_abstract_body_changed :: bool

definition overview_file :: "string \<Rightarrow> string" where "overview_file dir = dir @ ''/.overview.md''"
definition abstract_file :: "string \<Rightarrow> string" where "abstract_file dir = dir @ ''/.abstract.md''"

definition inherit_source :: "pydict \<Rightarrow> okf_document option list \<Rightarrow> pydict" where
  "inherit_source metadata existing =
     (if map_of metadata ''source'' \<noteq> None then metadata
      else case List.map_filter (\<lambda>doc. case doc of None \<Rightarrow> None | Some d \<Rightarrow> map_of (od_metadata d) ''source'') existing of
             [] \<Rightarrow> metadata | v # _ \<Rightarrow> dict_set metadata ''source'' v)"

definition consume_pending :: "pydict \<Rightarrow> int list \<Rightarrow> int option \<Rightarrow> pydict" where
  "consume_pending metadata pendings consume =
     (case map_of metadata ''freshness'' of
        Some (PDict requested) \<Rightarrow>
          let current_pending = fold max pendings 0;
              consumed = (case consume of None \<Rightarrow> current_pending | Some n \<Rightarrow> max n 0)
          in dict_set metadata ''freshness''
               (PDict (dict_set requested ''pending_child_changes'' (PInt (max (current_pending - consumed) 0))))
      | _ \<Rightarrow> metadata)"

definition body_changed :: "(string \<Rightarrow> string) \<Rightarrow> okf_document option \<Rightarrow> string \<Rightarrow> bool" where
  "body_changed sha existing body =
     (case existing of None \<Rightarrow> True | Some d \<Rightarrow> semantic_body_digest sha (od_body d) \<noteq> semantic_body_digest sha body)"

text \<open>The whole write under the lease of the two paths. \<open>stale1\<close> and \<open>stale2\<close> are the answers of \<^verbatim>\<open>is_stale()\<close>
  before and after the lease was obtained.\<close>

definition write_abstract_overview ::
    "yaml_ops \<Rightarrow> (string \<Rightarrow> string) \<Rightarrow> (string \<Rightarrow> bool) \<Rightarrow> files \<Rightarrow> string \<Rightarrow> string \<Rightarrow> string \<Rightarrow> bool \<Rightarrow> bool \<Rightarrow>
     pydict \<Rightarrow> int option \<Rightarrow> files \<times> write_result res" where
  "write_abstract_overview y sha bad fs dir_uri overview abstract stale1 stale2 metadata consume =
     (if stale1 \<or> stale2
      then (fs, Ok \<lparr>wr_wrote = False, wr_overview_body_changed = False, wr_abstract_body_changed = False\<rparr>)
      else case (read_existing_document y fs (overview_file dir_uri), read_existing_document y fs (abstract_file dir_uri)) of
        (Inl e, _) \<Rightarrow> (fs, Raise e)
      | (Inr _, Inl e) \<Rightarrow> (fs, Raise e)
      | (Inr ov, Inr ab) \<Rightarrow>
          let merged = consume_pending (inherit_source metadata [ov, ab]) (pending_of ov @ pending_of ab) consume
          in case (render_abstract_overview y OVERVIEW dir_uri overview merged, render_abstract_overview y ABSTRACT dir_uri abstract merged) of
               (Inl e, _) \<Rightarrow> (fs, Raise e)
             | (Inr _, Inl e) \<Rightarrow> (fs, Raise e)
             | (Inr rendered_overview, Inr rendered_abstract) \<Rightarrow>
                 (case write_if_changed bad fs (overview_file dir_uri) rendered_overview of
                    (fs', Inl e) \<Rightarrow> (fs', Raise e)
                  | (fs', Inr _) \<Rightarrow>
                      (case write_if_changed bad fs' (abstract_file dir_uri) rendered_abstract of
                         (fs'', Inl e) \<Rightarrow> (fs'', Raise e)
                       | (fs'', Inr _) \<Rightarrow>
                           (fs'', Ok \<lparr>wr_wrote = True, wr_overview_body_changed = body_changed sha ov overview,
                                      wr_abstract_body_changed = body_changed sha ab abstract\<rparr>))))"

record refresh_params =
  rp_force_refresh :: bool
  rp_overview_sample_limit :: int
  rp_refresh_ratio :: rat

definition no_baseline_decision :: "refresh_params \<Rightarrow> int \<Rightarrow> freshness_decision" where
  "no_baseline_decision rp changed_entries =
     decide_parent_refresh True False 0 0 changed_entries (rp_overview_sample_limit rp) (rp_refresh_ratio rp) (rp_force_refresh rp)"

text \<open>One sidecar of \<^verbatim>\<open>plan_abstract_overview_refresh\<close>: the stored document with the counter replaced.\<close>

definition mark_sidecar ::
    "yaml_ops \<Rightarrow> (string \<Rightarrow> bool) \<Rightarrow> files \<Rightarrow> int \<Rightarrow> string \<Rightarrow> string \<Rightarrow> okf_document option \<Rightarrow> int \<Rightarrow> files \<times> unit res" where
  "mark_sidecar y bad fs level dir_uri uri doc pending_after =
     (case (doc, baseline_of doc) of
        (Some d, Some f) \<Rightarrow>
          (case render_abstract_overview y level dir_uri (od_body d)
                  (dict_set (od_metadata d) ''freshness'' (PDict (dict_set f ''pending_child_changes'' (PInt pending_after)))) of
             Inl e \<Rightarrow> (fs, Raise e)
           | Inr rendered \<Rightarrow> write_if_changed bad fs uri rendered)
      | _ \<Rightarrow> (fs, Ok ()))"

text \<open>\<open>fs0\<close> is the state at the preliminary reads, \<open>fs\<close> the state once the lease is held.\<close>

definition plan_abstract_overview_refresh ::
    "yaml_ops \<Rightarrow> (string \<Rightarrow> bool) \<Rightarrow> refresh_params \<Rightarrow> files \<Rightarrow> files \<Rightarrow> string \<Rightarrow> int \<Rightarrow> bool \<Rightarrow> files \<times> freshness_decision res" where
  "plan_abstract_overview_refresh y bad rp fs0 fs dir_uri changed_entries l0_body_changed =
     (if changed_entries \<le> 0 \<or> \<not> l0_body_changed
      then (fs, Ok \<lparr>fd_action = NOOP, fd_pending_after = 0, fd_total_entries = 0\<rparr>)
      else
        let dir = py_rstrip is_slash dir_uri; uris = [overview_file dir, abstract_file dir]
        in case res_map (read_existing_document y fs0) uris of
          Inl e \<Rightarrow> (fs, Raise e)
        | Inr preliminary \<Rightarrow>
            if \<not> list_all (\<lambda>d. baseline_of d \<noteq> None) preliminary then (fs, Ok (no_baseline_decision rp changed_entries))
            else (case res_map (read_existing_document y fs) uris of
                    Inl e \<Rightarrow> (fs, Raise e)
                  | Inr documents \<Rightarrow>
                      let baselines = List.map_filter baseline_of documents in
                      if length baselines \<noteq> length uris then (fs, Ok (no_baseline_decision rp changed_entries))
                      else
                        let decision = decide_parent_refresh True True (fresh_count (hd baselines) ''total_entries'')
                              (Max (set (map (\<lambda>f. fresh_count f ''pending_child_changes'') baselines))) changed_entries
                              (rp_overview_sample_limit rp) (rp_refresh_ratio rp) (rp_force_refresh rp)
                        in case mark_sidecar y bad fs OVERVIEW dir_uri (overview_file dir) (documents ! 0) (fd_pending_after decision) of
                             (fs', Inl e) \<Rightarrow> (fs', Raise e)
                           | (fs', Inr _) \<Rightarrow>
                               (case mark_sidecar y bad fs' ABSTRACT dir_uri (abstract_file dir) (documents ! 1) (fd_pending_after decision) of
                                  (fs'', Inl e) \<Rightarrow> (fs'', Raise e)
                                | (fs'', Inr _) \<Rightarrow> (fs'', Ok decision))))"

definition read_abstract_overview_pending_snapshot :: "yaml_ops \<Rightarrow> files \<Rightarrow> string \<Rightarrow> int res" where
  "read_abstract_overview_pending_snapshot y fs dir_uri =
     (let dir = py_rstrip is_slash dir_uri in
      res_bind (res_map (read_existing_document y fs) [overview_file dir, abstract_file dir]) (\<lambda>docs.
        let values = map (\<lambda>f. fresh_count f ''pending_child_changes'') (List.map_filter baseline_of docs)
        in Ok (if values = [] then 0 else Max (set values))))"

section \<open>Lines: laws\<close>

lemma concat_py_splitlines [simp]: "concat (py_splitlines s) = s"
  by (induction s) (auto split: list.splits)

lemma is_linebreak_LF [simp]: "is_linebreak LF"
  by (simp add: is_linebreak_def)

lemma py_splitlines_append:
  "py_splitlines (a @ LF # s) = py_splitlines (a @ [LF]) @ py_splitlines s"
proof (induction a)
  case (Cons c a)
  have "py_splitlines (a @ [LF]) \<noteq> []" by (cases a) (auto split: list.splits)
  moreover have "take 1 (a @ LF # s) = take 1 (a @ [LF])" by (cases a) simp_all
  ultimately show ?case using Cons by (auto split: list.splits)
qed simp

lemma delimiter_line [simp]: "is_delimiter (''---'' @ [LF])"
  by (simp add: is_delimiter_def is_crlf_def py_rstrip_def)

lemma py_splitlines_delimiter: "py_splitlines (''---'' @ LF # s) = (''---'' @ [LF]) # py_splitlines s"
  using py_splitlines_append [of "''---''" s] by (simp add: is_linebreak_def)

section \<open>Metadata: normal forms\<close>

lemma normalize_directory_head: "normalize_directory_uri s = Ok d \<Longrightarrow> \<exists>x. d = x @ ''/'' \<and> py_rstrip is_slash x = x \<and> x \<noteq> [] \<and> hd x = CHR ''v''"
proof -
  assume ok: "normalize_directory_uri s = Ok d"
  define v where "v = strip_space s"
  from ok have v: "py_startswith v ''viking://''" and d: "d = py_rstrip is_slash v @ ''/''"
    by (auto simp: normalize_directory_uri_def v_def Let_def split: if_splits)
  from v obtain r where r: "v = CHR ''v'' # r" by (auto elim: py_startswithE)
  have "py_rstrip is_slash v = CHR ''v'' # py_rstrip is_slash r"
    using py_rstrip_append_stop [of is_slash "CHR ''v''" "[]" r] by (simp add: r)
  then show ?thesis using d py_rstrip_idem [of is_slash v] by (intro exI [of _ "py_rstrip is_slash v"]) auto
qed

lemma normalize_directory_twice:
  assumes "normalize_directory_uri s = Ok d" "normalize_directory_uri d = Ok d'"
  shows "d' = d"
proof -
  obtain x where x: "d = x @ ''/''" "py_rstrip is_slash x = x" "x \<noteq> []" "hd x = CHR ''v''"
    using normalize_directory_head [OF assms(1)] by blast
  have "strip_space d = d" using x by (intro py_strip_id) (auto simp: py_isspace_def)
  moreover have "py_rstrip is_slash d = x" using x by (simp add: py_rstrip_snoc)
  ultimately show ?thesis using assms(2) x by (auto simp: normalize_directory_uri_def Let_def split: if_splits)
qed

lemma bounded_string_idem: "bounded_string v l = Ok s \<Longrightarrow> bounded_string (PStr s) l = Ok s"
  by (cases v) (auto simp: Let_def split: if_splits)

lemma labelled_field_cases:
  assumes "labelled_field name (k1, l1) (k2, l2) v = Ok r" "k1 \<noteq> k2"
  shows "r = [] \<or> (\<exists>w. r = [(name, w)] \<and> labelled_field name (k1, l1) (k2, l2) w = Ok r)"
proof (cases "v = PNone")
  case False
  then obtain a b v1 v2 where r: "r = [(name, PDict [(k1, PStr a), (k2, PStr b)])]"
      and ab: "bounded_string v1 l1 = Ok a" "bounded_string v2 l2 = Ok b"
    using assms by (cases v) (auto simp: res_bind_Ok_iff simp del: bounded_string.simps split: option.splits)
  have "labelled_field name (k1, l1) (k2, l2) (PDict [(k1, PStr a), (k2, PStr b)]) = Ok r"
    using ab [THEN bounded_string_idem] assms(2) by (simp add: r del: bounded_string.simps)
  then show ?thesis using r by blast
qed (use assms in simp)

text \<open>The four counters, and perhaps the fifth, in the order they are stored.\<close>

definition freshness_dict :: "int \<Rightarrow> int \<Rightarrow> int \<Rightarrow> int \<Rightarrow> int option \<Rightarrow> pydict" where
  "freshness_dict nt ns nu np nm = [(''total_entries'', PInt nt), (''sampled_entries'', PInt ns),
     (''unsampled_entries'', PInt nu), (''pending_child_changes'', PInt np)] @
     (case nm of None \<Rightarrow> [] | Some n \<Rightarrow> [(''missing_summary_entries'', PInt n)])"

definition freshness_valid :: "int \<Rightarrow> int \<Rightarrow> int \<Rightarrow> int \<Rightarrow> int option \<Rightarrow> bool" where
  "freshness_valid nt ns nu np nm \<longleftrightarrow>
     0 \<le> nt \<and> 0 \<le> ns \<and> 0 \<le> nu \<and> 0 \<le> np \<and> (case nm of None \<Rightarrow> True | Some n \<Rightarrow> 0 \<le> n) \<and> ns + nu = nt"

lemma freshness_field_dict:
  "freshness_valid nt ns nu np nm \<Longrightarrow>
   freshness_field (PDict (freshness_dict nt ns nu np nm)) = Ok [(''freshness'', PDict (freshness_dict nt ns nu np nm))]"
  by (cases nm) (simp_all add: freshness_valid_def freshness_dict_def)

lemma source_field_cases: "source_field v = Ok r \<Longrightarrow> r = [] \<or> (\<exists>w. r = [(''source'', w)] \<and> source_field w = Ok r)"
  unfolding source_field_def by (drule labelled_field_cases) simp_all

lemma generated_by_field_cases: "generated_by_field v = Ok r \<Longrightarrow> r = [] \<or> (\<exists>w. r = [(''generated_by'', w)] \<and> generated_by_field w = Ok r)"
  unfolding generated_by_field_def by (drule labelled_field_cases) simp_all

lemma field_PNone [simp]: "source_field PNone = Ok []" "generated_by_field PNone = Ok []"
  by (simp_all add: source_field_def generated_by_field_def)

lemma counter_Ok: "counter v = Ok n \<longleftrightarrow> v = PInt n \<and> 0 \<le> n"
  by (cases v) auto

lemma freshness_field_cases:
  assumes "freshness_field v = Ok r"
  shows "r = [] \<or> (\<exists>nt ns nu np nm. freshness_valid nt ns nu np nm \<and> r = [(''freshness'', PDict (freshness_dict nt ns nu np nm))])"
proof (cases "v = PNone")
  case False
  then obtain d where v: "v = PDict d" using assms by (cases v) auto
  show ?thesis
  proof (cases "map_of d ''missing_summary_entries''")
    case None
    then show ?thesis using assms unfolding v freshness_field.simps
      by (intro disjI2) (auto simp: res_bind_Ok_iff counter_Ok freshness_valid_def freshness_dict_def
          split: option.splits if_splits intro: exI [of _ None])
  next
    case (Some m)
    then have "\<exists>nt ns nu np n. freshness_valid nt ns nu np (Some n) \<and> r = [(''freshness'', PDict (freshness_dict nt ns nu np (Some n)))]"
      using assms unfolding v freshness_field.simps
      by (auto simp: res_bind_Ok_iff counter_Ok freshness_valid_def freshness_dict_def split: option.splits if_splits)
    then show ?thesis by blast
  qed
qed (use assms in simp)

lemma directory_field_cases:
  assumes "directory_field v = Ok r"
  shows "(v = None \<and> r = []) \<or> (\<exists>s d. v = Some (PStr s) \<and> normalize_directory_uri s = Ok d \<and> r = [(''directory'', PStr d)])"
  using assms by (cases v rule: directory_field.cases) (auto simp: res_bind_Ok_iff)

lemma normalize_metadata_idem:
  assumes n: "normalize_metadata m = Ok n"
    and d: "map_of m ''directory'' = Some (PStr d)" "normalize_directory_uri d = Ok d"
  shows "normalize_metadata n = Ok n \<and> map_of n ''directory'' = Some (PStr d)"
proof -
  obtain s g f where n_eq: "n = (''directory'', PStr d) # s @ g @ f"
      and s: "source_field (dict_get m ''source'') = Ok s"
      and g: "generated_by_field (dict_get m ''generated_by'') = Ok g"
      and f: "freshness_field (dict_get m ''freshness'') = Ok f"
    using n d by (auto simp: normalize_metadata_def res_bind_Ok_iff)
  note s' = source_field_cases [OF s] and g' = generated_by_field_cases [OF g]
  have f': "f = [] \<or> (\<exists>w. f = [(''freshness'', w)] \<and> freshness_field w = Ok f)"
    using freshness_field_cases [OF f] freshness_field_dict by blast
  show ?thesis using s' g' f' d(2)
    by (elim disjE exE) (simp_all add: n_eq normalize_metadata_def dict_get_def)
qed

text \<open>A normal form is a fixed point as soon as its directory is one (the root \<^verbatim>\<open>viking://\<close> is the exception:
  it normalises to \<^verbatim>\<open>viking:/\<close>).\<close>

lemma normalize_metadata_self:
  assumes n: "normalize_metadata m = Ok n" and d: "map_of m ''directory'' = Some (PStr s)" "normalize_directory_uri s = Ok d"
    and dd: "normalize_directory_uri d = Ok d"
  shows "normalize_metadata n = Ok n"
proof -
  have "normalize_metadata (dict_set m ''directory'' (PStr d)) = Ok n"
    using n d dd by (simp add: normalize_metadata_def map_of_dict_set dict_get_def)
  then show ?thesis using normalize_metadata_idem [OF _ _ dd] by (simp add: map_of_dict_set)
qed

section \<open>Parsing what was rendered\<close>

text \<open>What the code relies on of the YAML library: loading a dumped block mapping gives it back, and no line of it is
  the document separator \<^verbatim>\<open>---\<close> (the lines of a block mapping start with a key or with a blank).\<close>

definition yaml_faithful :: "yaml_ops \<Rightarrow> pydict \<Rightarrow> bool" where
  "yaml_faithful y m \<longleftrightarrow>
     safe_load y (frontmatter_text y m @ [LF]) = Ok (PDict m) \<and>
     list_all (\<lambda>l. \<not> is_delimiter l) (py_splitlines (frontmatter_text y m @ [LF]))"

lemma parse_okf_text:
  assumes y: "yaml_faithful y m" and m: "normalize_metadata m = Ok m" "map_of m ''directory'' \<noteq> None"
  shows "parse_abstract_overview y (okf_text (frontmatter_text y m) body) =
           Ok \<lparr>od_metadata = m, od_body = body, od_legacy = False\<rparr>"
proof -
  let ?fm = "py_splitlines (frontmatter_text y m @ [LF])"
  have "py_splitlines (okf_text (frontmatter_text y m) body) =
          (''---'' @ [LF]) # ?fm @ (''---'' @ [LF]) # [LF] # py_splitlines body"
    using py_splitlines_delimiter [of "frontmatter_text y m @ LF # ''---'' @ LF # LF # body"]
      py_splitlines_append [of "frontmatter_text y m" "''---'' @ LF # LF # body"]
      py_splitlines_delimiter [of "LF # body"] by (simp add: okf_text_def)
  moreover have "\<forall>l \<in> set ?fm. \<not> is_delimiter l" using y by (simp add: yaml_faithful_def list_all_iff)
  moreover have "load_frontmatter y (concat ?fm) = Ok m"
    using y m by (auto simp: yaml_faithful_def load_frontmatter_def)
  ultimately show ?thesis using m delimiter_line
    by (simp add: parse_abstract_overview_def takeWhile_append2 dropWhile_append2 drop_leading_newline_def py_startswith_def)
qed

lemma rendered_metadata:
  assumes "render_abstract_overview y level dir body m = Ok raw"
  obtains d n where "normalize_directory_uri dir = Ok d" "normalize_directory_uri d = Ok d"
    "normalize_metadata (dict_set m ''directory'' (PStr d)) = Ok n" "normalize_metadata n = Ok n"
    "map_of n ''directory'' = Some (PStr d)" "raw = okf_text (frontmatter_text y n) (strip_space body @ [LF])"
proof -
  from assms obtain d n where d: "normalize_directory_uri dir = Ok d"
      and n: "normalize_metadata (dict_set m ''directory'' (PStr d)) = Ok n"
      and raw: "raw = okf_text (frontmatter_text y n) (strip_space body @ [LF])"
    by (auto simp: render_abstract_overview_def res_bind_Ok_iff split: if_splits)
  have m: "map_of (dict_set m ''directory'' (PStr d)) ''directory'' = Some (PStr d)" by (simp add: map_of_dict_set)
  from n obtain d' where "normalize_directory_uri d = Ok d'"
    unfolding normalize_metadata_def m by (auto simp: res_bind_Ok_iff)
  then have "normalize_directory_uri d = Ok d" using normalize_directory_twice [OF d] by simp
  then show ?thesis using that d n raw normalize_metadata_idem [OF n m] by blast
qed


lemma preview_of_rendered:
  assumes r: "render_abstract_overview y level dir body m = Ok raw"
    and y: "\<And>d n. normalize_directory_uri dir = Ok d \<Longrightarrow>
              normalize_metadata (dict_set m ''directory'' (PStr d)) = Ok n \<Longrightarrow> yaml_faithful y n"
  shows "\<exists>doc. parse_abstract_overview y raw = Ok doc \<and> \<not> od_legacy doc \<and> od_body doc = strip_space body @ [LF] \<and>
           (\<exists>d. normalize_directory_uri dir = Ok d \<and> normalize_metadata (dict_set m ''directory'' (PStr d)) = Ok (od_metadata doc)) \<and>
           body_for_preview y raw = Ok (strip_space body)"
proof -
  obtain d n where d: "normalize_directory_uri dir = Ok d"
      and n: "normalize_metadata (dict_set m ''directory'' (PStr d)) = Ok n" "normalize_metadata n = Ok n"
      "map_of n ''directory'' = Some (PStr d)" "raw = okf_text (frontmatter_text y n) (strip_space body @ [LF])"
    using rendered_metadata [OF r] by blast
  have p: "parse_abstract_overview y raw = Ok \<lparr>od_metadata = n, od_body = strip_space body @ [LF], od_legacy = False\<rparr>"
    using parse_okf_text [OF y [OF d n(1)] n(2)] n(3,4) by simp
  have "py_rstrip is_crlf (strip_space body) = strip_space body"
    using py_strip_last [of py_isspace body]
    by (intro py_rstrip_id) (auto simp: is_crlf_def py_isspace_def)
  then show ?thesis using p d n(1) by (auto simp: body_for_preview_def py_rstrip_snoc is_crlf_def)
qed

lemma dict_set_same: "map_of d k = Some v \<Longrightarrow> dict_set d k v = d"
  by (induction d k v rule: dict_set.induct) (auto split: if_splits)

lemma parsed_directory:
  assumes "parse_abstract_overview y raw = Ok doc" "\<not> od_legacy doc"
  obtains m s d where "normalize_metadata m = Ok (od_metadata doc)" "map_of m ''directory'' = Some (PStr s)"
    "normalize_directory_uri s = Ok d" "map_of (od_metadata doc) ''directory'' = Some (PStr d)" "d \<noteq> []"
proof -
  from assms obtain m where m: "normalize_metadata m = Ok (od_metadata doc)" "map_of m ''directory'' \<noteq> None"
    by (auto simp: parse_abstract_overview_def load_frontmatter_def res_bind_Ok_iff
             split: list.splits if_splits sum.splits pyval.splits)
  from m obtain r where r: "directory_field (map_of m ''directory'') = Ok r" and pre: "\<exists>t. od_metadata doc = r @ t"
    by (auto simp: normalize_metadata_def res_bind_Ok_iff) metis
  obtain s d where s: "map_of m ''directory'' = Some (PStr s)" "normalize_directory_uri s = Ok d" "r = [(''directory'', PStr d)]"
    using directory_field_cases [OF r] m(2) by blast
  have "d \<noteq> []" using normalize_directory_head [OF s(2)] by auto
  then show ?thesis using that m(1) s pre by force
qed

text \<open>
  C24. Protected metadata. Whatever text a caller of the public write API supplies, and in both write modes: if the
  write is accepted, the stored document still carries exactly the metadata it had, and its body is the requested
  (or appended) body up to surrounding white space. Supplying other metadata raises \<open>AbstractOverviewMetadataError\<close>.
\<close>

theorem public_write_keeps_metadata:
  assumes w: "prepare_abstract_overview_write y uri current_raw requested_raw mode = Ok raw"
    and c: "parse_abstract_overview y current_raw = Ok current" "\<not> od_legacy current"
    and y: "yaml_faithful y (od_metadata current)"
  shows "\<exists>doc requested. parse_abstract_overview y raw = Ok doc \<and> parse_abstract_overview y requested_raw = Ok requested \<and>
           od_metadata doc = od_metadata current \<and>
           body_for_preview y raw = Ok (strip_space (if mode = ''append'' then od_body current @ od_body requested else od_body requested))"
proof -
  obtain m s d where m: "normalize_metadata m = Ok (od_metadata current)" "map_of m ''directory'' = Some (PStr s)"
      and d: "normalize_directory_uri s = Ok d" "map_of (od_metadata current) ''directory'' = Some (PStr d)" "d \<noteq> []"
    using parsed_directory [OF c] by blast
  obtain requested level where q: "parse_abstract_overview y requested_raw = Ok requested"
      and r: "render_abstract_overview y level d (if mode = ''append'' then od_body current @ od_body requested else od_body requested)
                (od_metadata current) = Ok raw"
    using w c d by (auto simp: prepare_abstract_overview_write_def res_bind_Ok_iff Let_def split: if_splits)
  let ?body = "if mode = ''append'' then od_body current @ od_body requested else od_body requested"
  obtain d' where "normalize_directory_uri d = Ok d'" using rendered_metadata [OF r] by blast
  then have dd: "normalize_directory_uri d = Ok d" using normalize_directory_twice [OF d(1)] by simp
  then have self: "normalize_metadata (dict_set (od_metadata current) ''directory'' (PStr d)) = Ok (od_metadata current)"
    using normalize_metadata_self [OF m d(1)] d(2) by (simp add: dict_set_same)
  have "\<exists>doc. parse_abstract_overview y raw = Ok doc \<and> body_for_preview y raw = Ok (strip_space ?body) \<and> od_metadata doc = od_metadata current"
    using preview_of_rendered [OF r] dd self y by fastforce
  then show ?thesis using q by blast
qed


section \<open>Counting changes\<close>

definition yaml_codec :: "yaml_ops \<Rightarrow> bool" where
  "yaml_codec y \<longleftrightarrow> (\<forall>n. normalize_metadata n = Ok n \<longrightarrow> yaml_faithful y n)"

lemma yaml_codecD: "yaml_codec y \<Longrightarrow> normalize_metadata n = Ok n \<Longrightarrow> yaml_faithful y n"
  by (simp add: yaml_codec_def)

lemma freshness_dict_set:
  "dict_set (freshness_dict nt ns nu np nm) ''pending_child_changes'' (PInt q) = freshness_dict nt ns nu q nm"
  by (simp add: freshness_dict_def)

lemma fresh_count_dict [simp]:
  "fresh_count (freshness_dict nt ns nu np nm) ''pending_child_changes'' = np"
  "fresh_count (freshness_dict nt ns nu np nm) ''total_entries'' = nt"
  by (simp_all add: freshness_dict_def fresh_count_def)

text \<open>A stored document with a freshness baseline whose pending counter is \<open>p\<close>.\<close>

definition baseline_doc :: "okf_document \<Rightarrow> int \<Rightarrow> bool" where
  "baseline_doc doc p \<longleftrightarrow> \<not> od_legacy doc \<and> (\<exists>m. normalize_metadata m = Ok (od_metadata doc)) \<and>
     (\<exists>nt ns nu nm. freshness_valid nt ns nu p nm \<and> map_of (od_metadata doc) ''freshness'' = Some (PDict (freshness_dict nt ns nu p nm)))"

lemma baseline_doc_facts:
  assumes "baseline_doc doc p"
  shows "\<exists>f. baseline_of (Some doc) = Some f \<and> fresh_count f ''pending_child_changes'' = p"
    and "pending_of (Some doc) = [p]" and "0 \<le> p"
  using assms by (auto simp: baseline_doc_def baseline_of_def freshness_of_def pending_of_def freshness_valid_def)

text \<open>The four parts of a normal form, each at most one entry.\<close>

definition at_most :: "string \<Rightarrow> pydict \<Rightarrow> bool" where
  "at_most k part \<longleftrightarrow> part = [] \<or> (\<exists>v. part = [(k, v)])"

lemma at_most_simps [simp]: "at_most k []" "at_most k [(k, v)]"
  by (auto simp: at_most_def)

lemma map_of_at_most: "at_most k part \<Longrightarrow> j \<noteq> k \<Longrightarrow> map_of part j = None"
  by (auto simp: at_most_def)

lemma map_of_parts:
  assumes "at_most ''directory'' d" "at_most ''source'' s" "at_most ''generated_by'' g" "at_most ''freshness'' f"
  shows "map_of (d @ s @ g @ f) ''source'' = map_of s ''source''"
    and "map_of (d @ s @ g @ f) ''generated_by'' = map_of g ''generated_by''"
    and "map_of (d @ s @ g @ f) ''freshness'' = map_of f ''freshness''"
  using assms by (simp_all add: map_of_at_most map_add_def split: option.split)

lemma at_most_fields:
  "directory_field v = Ok d \<Longrightarrow> at_most ''directory'' d" "source_field w = Ok s \<Longrightarrow> at_most ''source'' s"
  "generated_by_field w = Ok g \<Longrightarrow> at_most ''generated_by'' g" "freshness_field w = Ok f \<Longrightarrow> at_most ''freshness'' f"
  using directory_field_cases [of v d] source_field_cases [of w s] generated_by_field_cases [of w g] freshness_field_cases [of w f]
  by (auto simp: at_most_def)

lemma normalize_metadata_fields:
  assumes "normalize_metadata m = Ok n"
  shows "\<exists>r. source_field (dict_get n ''source'') = Ok r"
    and "\<exists>r. generated_by_field (dict_get n ''generated_by'') = Ok r"
    and "map_of n ''freshness'' = None \<or> (\<exists>nt ns nu np nm. freshness_valid nt ns nu np nm \<and> map_of n ''freshness'' = Some (PDict (freshness_dict nt ns nu np nm)))"
proof -
  obtain d s g f where n: "n = d @ s @ g @ f" and d: "directory_field (map_of m ''directory'') = Ok d"
      and s: "source_field (dict_get m ''source'') = Ok s" and g: "generated_by_field (dict_get m ''generated_by'') = Ok g"
      and f: "freshness_field (dict_get m ''freshness'') = Ok f"
    using assms by (auto simp: normalize_metadata_def res_bind_Ok_iff)
  note parts = map_of_parts [OF at_most_fields(1) [OF d] at_most_fields(2) [OF s] at_most_fields(3) [OF g] at_most_fields(4) [OF f], folded n]
  show "\<exists>r. source_field (dict_get n ''source'') = Ok r"
    using source_field_cases [OF s] by (auto simp: dict_get_def parts)
  show "\<exists>r. generated_by_field (dict_get n ''generated_by'') = Ok r"
    using generated_by_field_cases [OF g] by (auto simp: dict_get_def parts)
  show "map_of n ''freshness'' = None \<or> (\<exists>nt ns nu np nm. freshness_valid nt ns nu np nm \<and> map_of n ''freshness'' = Some (PDict (freshness_dict nt ns nu np nm)))"
    unfolding parts by (rule disjE [OF freshness_field_cases [OF f]]) (simp, fastforce)
qed

text \<open>Replacing the counters and the directory of stored metadata gives stored metadata with those counters.\<close>

lemma normalize_metadata_update:
  assumes s: "source_field (dict_get m ''source'') = Ok s" and g: "generated_by_field (dict_get m ''generated_by'') = Ok g"
    and f: "map_of m ''freshness'' = Some (PDict (freshness_dict nt ns nu np nm))" "freshness_valid nt ns nu np nm"
    and d: "normalize_directory_uri d = Ok d"
  shows "\<exists>n. normalize_metadata (dict_set m ''directory'' (PStr d)) = Ok n \<and>
             map_of n ''freshness'' = Some (PDict (freshness_dict nt ns nu np nm))"
proof -
  let ?m = "dict_set m ''directory'' (PStr d)" and ?f = "[(''freshness'', PDict (freshness_dict nt ns nu np nm))]"
  have ff: "freshness_field (dict_get ?m ''freshness'') = Ok ?f"
    using f freshness_field_dict by (simp add: map_of_dict_set dict_get_def del: freshness_field.simps)
  have "dict_get ?m ''source'' = dict_get m ''source''" "dict_get ?m ''generated_by'' = dict_get m ''generated_by''"
    by (simp_all add: map_of_dict_set dict_get_def)
  then have "normalize_metadata ?m = Ok ([(''directory'', PStr d)] @ s @ g @ ?f)"
    using s g d ff by (simp add: normalize_metadata_def map_of_dict_set)
  moreover have "map_of ([(''directory'', PStr d)] @ s @ g @ ?f) ''freshness'' = Some (PDict (freshness_dict nt ns nu np nm))"
    using map_of_parts(3) [OF _ at_most_fields(2) [OF s] at_most_fields(3) [OF g], of "[(''directory'', PStr d)]" ?f] by simp
  ultimately show ?thesis by blast
qed


text \<open>A directory URI that names its own files: no trailing slash, and a valid \<^verbatim>\<open>directory\<close> field.\<close>

definition dir_ok :: "string \<Rightarrow> bool" where
  "dir_ok dir \<longleftrightarrow> py_rstrip is_slash dir = dir \<and>
     (case normalize_directory_uri dir of Inr d \<Rightarrow> normalize_directory_uri d = Ok d | Inl _ \<Rightarrow> False)"

lemma render_baseline:
  assumes y: "yaml_codec y" and dir: "dir_ok dir" and level: "level = ABSTRACT \<or> level = OVERVIEW"
    and s: "source_field (dict_get m ''source'') = Ok s" and g: "generated_by_field (dict_get m ''generated_by'') = Ok g"
    and f: "map_of m ''freshness'' = Some (PDict (freshness_dict nt ns nu q nm))" "freshness_valid nt ns nu q nm"
  shows "\<exists>raw doc. render_abstract_overview y level dir body m = Ok raw \<and> parse_abstract_overview y raw = Ok doc \<and> baseline_doc doc q"
proof -
  obtain d where d: "normalize_directory_uri dir = Ok d" "normalize_directory_uri d = Ok d"
    using dir by (auto simp: dir_ok_def split: sum.splits)
  obtain n where n: "normalize_metadata (dict_set m ''directory'' (PStr d)) = Ok n"
      "map_of n ''freshness'' = Some (PDict (freshness_dict nt ns nu q nm))"
    using normalize_metadata_update [OF s g f d(2)] by blast
  have r: "render_abstract_overview y level dir body m = Ok (okf_text (frontmatter_text y n) (strip_space body @ [LF]))"
    using level d n by (auto simp: render_abstract_overview_def)
  have nn: "normalize_metadata n = Ok n" "map_of n ''directory'' = Some (PStr d)"
    using normalize_metadata_idem [OF n(1) _ d(2)] by (simp_all add: map_of_dict_set)
  then have "parse_abstract_overview y (okf_text (frontmatter_text y n) (strip_space body @ [LF])) =
      Ok \<lparr>od_metadata = n, od_body = strip_space body @ [LF], od_legacy = False\<rparr>"
    using parse_okf_text yaml_codecD [OF y] by blast
  then show ?thesis using r n nn f(2) by (auto simp: baseline_doc_def)
qed

text \<open>Both files of the directory carry the counter \<open>p\<close>.\<close>

definition pending_is :: "yaml_ops \<Rightarrow> files \<Rightarrow> string \<Rightarrow> int \<Rightarrow> bool" where
  "pending_is y fs dir p \<longleftrightarrow>
     (\<exists>ov ab. read_existing_document y fs (overview_file dir) = Ok (Some ov) \<and> baseline_doc ov p \<and>
              read_existing_document y fs (abstract_file dir) = Ok (Some ab) \<and> baseline_doc ab p)"

lemma files_differ: "overview_file d \<noteq> abstract_file d"
  by (simp add: overview_file_def abstract_file_def)

lemma read_written:
  "parse_abstract_overview y raw = Ok doc \<Longrightarrow> read_existing_document y (fs(uri \<mapsto> raw)) uri = Ok (Some doc)"
  "uri' \<noteq> uri \<Longrightarrow> read_existing_document y (fs(uri \<mapsto> raw)) uri' = read_existing_document y fs uri'"
  by (simp_all add: read_existing_document_def)

lemma write_if_changed_Ok: "write_if_changed (\<lambda>_. False) fs uri raw = (fs(uri \<mapsto> raw), Ok ())"
  by (auto simp: write_if_changed_def)

lemma pending_is_written:
  assumes "parse_abstract_overview y raw1 = Ok d1" "baseline_doc d1 q" "parse_abstract_overview y raw2 = Ok d2" "baseline_doc d2 q"
  shows "pending_is y (fs(overview_file dir \<mapsto> raw1, abstract_file dir \<mapsto> raw2)) dir q"
proof -
  have "read_existing_document y (fs(overview_file dir \<mapsto> raw1, abstract_file dir \<mapsto> raw2)) (overview_file dir) = Ok (Some d1)"
    using assms(1) files_differ [of dir] by (simp add: read_existing_document_def)
  then show ?thesis using assms read_written(1) [OF assms(3)] unfolding pending_is_def by blast
qed

lemma snapshot_pending:
  assumes "pending_is y fs dir p" "dir_ok dir"
  shows "read_abstract_overview_pending_snapshot y fs dir = Ok p"
proof -
  obtain ov ab fo fa where "read_existing_document y fs (overview_file dir) = Ok (Some ov)" "read_existing_document y fs (abstract_file dir) = Ok (Some ab)"
      "baseline_of (Some ov) = Some fo" "baseline_of (Some ab) = Some fa"
      "fresh_count fo ''pending_child_changes'' = p" "fresh_count fa ''pending_child_changes'' = p"
    using assms(1) baseline_doc_facts(1) unfolding pending_is_def by metis
  then show ?thesis using assms(2) by (simp add: read_abstract_overview_pending_snapshot_def dir_ok_def map_filter_simps)
qed

lemma mark_sidecar_pending:
  assumes y: "yaml_codec y" and dir: "dir_ok dir" and level: "level = ABSTRACT \<or> level = OVERVIEW"
    and doc: "baseline_doc doc p" and q: "0 \<le> q"
  shows "\<exists>raw doc'. mark_sidecar y (\<lambda>_. False) fs level dir uri (Some doc) q = (fs(uri \<mapsto> raw), Ok ()) \<and>
           parse_abstract_overview y raw = Ok doc' \<and> baseline_doc doc' q"
proof -
  obtain m nt ns nu nm where m: "normalize_metadata m = Ok (od_metadata doc)"
      and f: "map_of (od_metadata doc) ''freshness'' = Some (PDict (freshness_dict nt ns nu p nm))" "freshness_valid nt ns nu p nm"
      and l: "\<not> od_legacy doc"
    using doc unfolding baseline_doc_def by blast
  let ?m = "dict_set (od_metadata doc) ''freshness'' (PDict (freshness_dict nt ns nu q nm))"
  obtain s g where "source_field (dict_get ?m ''source'') = Ok s" "generated_by_field (dict_get ?m ''generated_by'') = Ok g"
    using normalize_metadata_fields(1,2) [OF m] by (auto simp: dict_get_def map_of_dict_set)
  moreover have "freshness_valid nt ns nu q nm" using f(2) q by (simp add: freshness_valid_def)
  moreover have "map_of ?m ''freshness'' = Some (PDict (freshness_dict nt ns nu q nm))" by (simp add: map_of_dict_set)
  ultimately obtain raw doc' where "render_abstract_overview y level dir (od_body doc) ?m = Ok raw"
      "parse_abstract_overview y raw = Ok doc'" "baseline_doc doc' q"
    using render_baseline [OF y dir level, of ?m] by blast
  then show ?thesis using f l
    by (auto simp: mark_sidecar_def baseline_of_def freshness_of_def freshness_dict_set write_if_changed_Ok)
qed

lemma plan_adds_pending:
  assumes y: "yaml_codec y" and dir: "dir_ok dir" and p: "pending_is y fs dir p" and c: "0 < c"
  shows "pending_is y (fst (plan_abstract_overview_refresh y (\<lambda>_. False) rp fs fs dir c True)) dir (p + c)"
proof -
  obtain ov ab where r: "read_existing_document y fs (overview_file dir) = Ok (Some ov)" "read_existing_document y fs (abstract_file dir) = Ok (Some ab)"
      and b: "baseline_doc ov p" "baseline_doc ab p"
    using p unfolding pending_is_def by blast
  obtain fo fa where f: "baseline_of (Some ov) = Some fo" "baseline_of (Some ab) = Some fa"
      "fresh_count fo ''pending_child_changes'' = p" "fresh_count fa ''pending_child_changes'' = p"
    using baseline_doc_facts(1) b by metis
  have q: "0 \<le> p + c" using baseline_doc_facts(3) [OF b(1)] c by simp
  obtain raw1 d1 where m1: "mark_sidecar y (\<lambda>_. False) fs OVERVIEW dir (overview_file dir) (Some ov) (p + c) = (fs(overview_file dir \<mapsto> raw1), Ok ())"
      "parse_abstract_overview y raw1 = Ok d1" "baseline_doc d1 (p + c)"
    using mark_sidecar_pending [OF y dir _ b(1) q] by blast
  obtain raw2 d2 where m2: "mark_sidecar y (\<lambda>_. False) (fs(overview_file dir \<mapsto> raw1)) ABSTRACT dir (abstract_file dir) (Some ab) (p + c) =
        (fs(overview_file dir \<mapsto> raw1, abstract_file dir \<mapsto> raw2), Ok ())"
      "parse_abstract_overview y raw2 = Ok d2" "baseline_doc d2 (p + c)"
    using mark_sidecar_pending [OF y dir _ b(2) q] by blast
  have pa: "fd_pending_after (decide_parent_refresh True True t p c l ratio force) = p + c" for t l ratio force
    using c by (simp add: decide_parent_refresh_def Let_def)
  have "fst (plan_abstract_overview_refresh y (\<lambda>_. False) rp fs fs dir c True) = fs(overview_file dir \<mapsto> raw1, abstract_file dir \<mapsto> raw2)"
    using c r f m1(1) m2(1) dir by (simp add: plan_abstract_overview_refresh_def dir_ok_def map_filter_simps Let_def pa)
  then show ?thesis using pending_is_written [OF m1(2,3) m2(2,3)] by simp
qed


definition refresh_metadata_ok :: "pydict \<Rightarrow> bool" where
  "refresh_metadata_ok m \<longleftrightarrow> (\<exists>s. source_field (dict_get m ''source'') = Ok s) \<and> (\<exists>g. generated_by_field (dict_get m ''generated_by'') = Ok g) \<and>
     (\<exists>nt ns nu np nm. freshness_valid nt ns nu np nm \<and> map_of m ''freshness'' = Some (PDict (freshness_dict nt ns nu np nm)))"

lemma inherit_source_ok:
  assumes m: "refresh_metadata_ok m" and b: "baseline_doc ov p" "baseline_doc ab p"
  shows "refresh_metadata_ok (inherit_source m [Some ov, Some ab])"
proof -
  have "\<exists>s. source_field v = Ok s" if "map_of (od_metadata d) ''source'' = Some v" "baseline_doc d p" for v d
    using that normalize_metadata_fields(1) by (fastforce simp: baseline_doc_def dict_get_def)
  then show ?thesis using m b
    by (auto simp: inherit_source_def refresh_metadata_ok_def map_filter_simps map_of_dict_set dict_get_def split: option.splits)
qed

lemma write_consumes_pending:
  assumes y: "yaml_codec y" and dir: "dir_ok dir" and p: "pending_is y fs dir p" and m: "refresh_metadata_ok m"
  shows "\<exists>fs' wr. write_abstract_overview y sha (\<lambda>_. False) fs dir overview abstract False False m (Some k) = (fs', Ok wr) \<and>
           wr_wrote wr \<and> pending_is y fs' dir (max (p - max k 0) 0)"
proof -
  obtain ov ab where r: "read_existing_document y fs (overview_file dir) = Ok (Some ov)" "read_existing_document y fs (abstract_file dir) = Ok (Some ab)"
      and b: "baseline_doc ov p" "baseline_doc ab p"
    using p unfolding pending_is_def by blast
  let ?i = "inherit_source m [Some ov, Some ab]" and ?q = "max (p - max k 0) 0"
  obtain s g nt ns nu np nm where i: "source_field (dict_get ?i ''source'') = Ok s" "generated_by_field (dict_get ?i ''generated_by'') = Ok g"
      "freshness_valid nt ns nu np nm" "map_of ?i ''freshness'' = Some (PDict (freshness_dict nt ns nu np nm))"
    using inherit_source_ok [OF m b] unfolding refresh_metadata_ok_def by blast
  let ?m = "consume_pending ?i (pending_of (Some ov) @ pending_of (Some ab)) (Some k)"
  have pend: "pending_of (Some ov) @ pending_of (Some ab) = [p, p]" using b by (simp add: baseline_doc_facts(2))
  have m_eq: "?m = dict_set ?i ''freshness'' (PDict (freshness_dict nt ns nu ?q nm))"
    using i(4) baseline_doc_facts(3) [OF b(1)] by (simp add: consume_pending_def pend freshness_dict_set max_def)
  have mf: "source_field (dict_get ?m ''source'') = Ok s" "generated_by_field (dict_get ?m ''generated_by'') = Ok g"
      "map_of ?m ''freshness'' = Some (PDict (freshness_dict nt ns nu ?q nm))" "freshness_valid nt ns nu ?q nm"
    using i unfolding m_eq by (auto simp: dict_get_def map_of_dict_set freshness_valid_def)
  obtain raw1 d1 where w1: "render_abstract_overview y OVERVIEW dir overview ?m = Ok raw1" "parse_abstract_overview y raw1 = Ok d1" "baseline_doc d1 ?q"
    using render_baseline [OF y dir _ mf, of OVERVIEW overview] by auto
  obtain raw2 d2 where w2: "render_abstract_overview y ABSTRACT dir abstract ?m = Ok raw2" "parse_abstract_overview y raw2 = Ok d2" "baseline_doc d2 ?q"
    using render_baseline [OF y dir _ mf, of ABSTRACT abstract] by auto
  show ?thesis using r w1(1) w2(1) pending_is_written [OF w1(2,3) w2(2,3), of fs dir]
    by (simp add: write_abstract_overview_def write_if_changed_Ok Let_def)
qed

lemma marks_add_up:
  assumes "yaml_codec y" "dir_ok dir" "list_all (\<lambda>c. 0 < c) cs" "pending_is y fs dir p"
  shows "pending_is y (foldl (\<lambda>fs c. fst (plan_abstract_overview_refresh y (\<lambda>_. False) rp fs fs dir c True)) fs cs) dir (p + sum_list cs)"
  using assms(3,4)
proof (induction cs arbitrary: fs p)
  case (Cons c cs)
  then have "pending_is y (fst (plan_abstract_overview_refresh y (\<lambda>_. False) rp fs fs dir c True)) dir (p + c)"
    using plan_adds_pending [OF assms(1,2)] by simp
  then show ?case using Cons by (fastforce simp: add.assoc)
qed simp

text \<open>
  C25. No child change is lost by a refresh. A refresh reads the pending counter when it starts; changes that
  arrive while the summary is being generated are counted in the two files; the write at the end consumes only the
  counter it had read. Whatever the changes \<open>cs\<close> that arrive in between, the write succeeds and exactly they remain
  pending afterwards, in both files.
\<close>

theorem refresh_keeps_concurrent_changes:
  assumes y: "yaml_codec y" and dir: "dir_ok dir" and p: "pending_is y fs dir p" and m: "refresh_metadata_ok m"
    and cs: "list_all (\<lambda>c. 0 < c) cs"
    and k: "read_abstract_overview_pending_snapshot y fs dir = Ok k"
    and fs1: "fs1 = foldl (\<lambda>fs c. fst (plan_abstract_overview_refresh y (\<lambda>_. False) rp fs fs dir c True)) fs cs"
  shows "\<exists>fs2 wr. write_abstract_overview y sha (\<lambda>_. False) fs1 dir overview abstract False False m (Some k) = (fs2, Ok wr) \<and>
           wr_wrote wr \<and> pending_is y fs2 dir (sum_list cs) \<and> read_abstract_overview_pending_snapshot y fs2 dir = Ok (sum_list cs)"
proof -
  have k: "k = p" using snapshot_pending [OF p dir] k by simp
  have "0 \<le> p" using p baseline_doc_facts(3) unfolding pending_is_def by blast
  moreover have "0 \<le> sum_list cs" using cs by (induction cs) auto
  ultimately have "max (p + sum_list cs - max k 0) 0 = sum_list cs" using k by simp
  then show ?thesis
    using write_consumes_pending [OF y dir marks_add_up [OF y dir cs p] m, of sha rp overview abstract k] snapshot_pending [OF _ dir]
    unfolding fs1 by metis
qed

section \<open>A concrete YAML codec\<close>

instance pyfloat :: countable by countable_datatype
instance pyval :: countable by countable_datatype

text \<open>Metadata written as a tally of its number: enough to see that the assumptions about YAML can hold.\<close>

definition tally_yaml :: yaml_ops where
  "tally_yaml = \<lparr>safe_load = (\<lambda>s. Ok (PDict (from_nat (length s - 2)))),
                 safe_dump = (\<lambda>m. CHR ''d'' # replicate (to_nat m) CHR ''1'')\<rparr>"

lemma tally_text: "frontmatter_text tally_yaml m = CHR ''d'' # replicate (to_nat m) CHR ''1''"
proof -
  have "last (CHR ''d'' # replicate (to_nat m) CHR ''1'') \<in> {CHR ''d'', CHR ''1''}" by (auto simp: last_replicate)
  then show ?thesis unfolding frontmatter_text_def tally_yaml_def yaml_ops.select_convs
    by (intro py_rstrip_id) (auto simp: py_isspace_def)
qed

lemma py_splitlines_line: "list_all (\<lambda>c. \<not> is_linebreak c) s \<Longrightarrow> py_splitlines (s @ [LF]) = [s @ [LF]]"
  by (induction s) auto

lemma tally_yaml_codec: "yaml_codec tally_yaml"
proof -
  have "yaml_faithful tally_yaml m" for m
  proof -
    have "py_splitlines (frontmatter_text tally_yaml m @ [LF]) = [frontmatter_text tally_yaml m @ [LF]]"
      unfolding tally_text by (rule py_splitlines_line) (simp add: is_linebreak_def list_all_iff)
    moreover have "\<not> is_delimiter (frontmatter_text tally_yaml m @ [LF])"
      unfolding tally_text is_delimiter_def
      using py_rstrip_decomp [of "CHR ''d'' # replicate (to_nat m) CHR ''1'' @ [LF]" is_crlf] by (auto simp: Cons_eq_append_conv)
    ultimately show ?thesis by (simp add: yaml_faithful_def tally_text) (simp add: tally_yaml_def)
  qed
  then show ?thesis by (simp add: yaml_codec_def)
qed


definition sample_dir :: string where "sample_dir = ''viking://resources/a''"

definition sample_metadata :: "int \<Rightarrow> pydict" where
  "sample_metadata p = [(''directory'', PStr ''viking://resources/a/''), (''freshness'', PDict (freshness_dict 40 10 30 p None))]"

definition sample_raw :: "int \<Rightarrow> string" where
  "sample_raw p = okf_text (frontmatter_text tally_yaml (sample_metadata p)) (''Summary'' @ [LF])"

definition sample_files :: files where
  "sample_files = [overview_file sample_dir \<mapsto> sample_raw 2, abstract_file sample_dir \<mapsto> sample_raw 2]"

lemma sample_dir_normal: "normalize_directory_uri sample_dir = Ok ''viking://resources/a/''"
    "normalize_directory_uri ''viking://resources/a/'' = Ok ''viking://resources/a/''" "py_rstrip is_slash sample_dir = sample_dir"
  by code_simp+

lemma sample_dir_ok: "dir_ok sample_dir"
  using sample_dir_normal by (simp add: dir_ok_def)

lemma sample_metadata_normal: "0 \<le> p \<Longrightarrow> normalize_metadata (sample_metadata p) = Ok (sample_metadata p)"
  using freshness_field_dict [of 40 10 30 p None] sample_dir_normal(2)
  by (simp add: normalize_metadata_def sample_metadata_def dict_get_def freshness_valid_def del: freshness_field.simps)

lemma sample_parsed:
  "0 \<le> p \<Longrightarrow> parse_abstract_overview tally_yaml (sample_raw p) =
     Ok \<lparr>od_metadata = sample_metadata p, od_body = ''Summary'' @ [LF], od_legacy = False\<rparr>"
  unfolding sample_raw_def
  by (rule parse_okf_text [OF yaml_codecD [OF tally_yaml_codec]]) (simp_all add: sample_metadata_normal, simp add: sample_metadata_def)

lemma sample_baseline: "0 \<le> p \<Longrightarrow> baseline_doc \<lparr>od_metadata = sample_metadata p, od_body = ''Summary'' @ [LF], od_legacy = False\<rparr> p"
proof -
  assume p: "0 \<le> p"
  have "freshness_valid 40 10 30 p None \<and> map_of (sample_metadata p) ''freshness'' = Some (PDict (freshness_dict 40 10 30 p None))"
    using p by (simp add: sample_metadata_def freshness_valid_def)
  then show ?thesis using sample_metadata_normal [OF p] unfolding baseline_doc_def okf_document.select_convs by blast
qed

lemma sample_pending: "pending_is tally_yaml sample_files sample_dir 2"
  unfolding sample_files_def
  by (rule pending_is_written [OF sample_parsed sample_baseline sample_parsed sample_baseline]) simp_all

lemma sample_refresh_ok: "refresh_metadata_ok (sample_metadata 0)"
proof -
  have "freshness_valid 40 10 30 0 None \<and> map_of (sample_metadata 0) ''freshness'' = Some (PDict (freshness_dict 40 10 30 0 None))"
    by (simp add: sample_metadata_def freshness_valid_def)
  moreover have "dict_get (sample_metadata 0) ''source'' = PNone" "dict_get (sample_metadata 0) ''generated_by'' = PNone"
    by (simp_all add: sample_metadata_def dict_get_def)
  ultimately show ?thesis unfolding refresh_metadata_ok_def by (metis field_PNone)
qed

theorem refresh_keeps_concurrent_changes_witness:
  "\<exists>fs2 wr. write_abstract_overview tally_yaml (\<lambda>s. s) (\<lambda>_. False)
      (foldl (\<lambda>fs c. fst (plan_abstract_overview_refresh tally_yaml (\<lambda>_. False)
         \<lparr>rp_force_refresh = False, rp_overview_sample_limit = 32, rp_refresh_ratio = 1 / 10\<rparr> fs fs sample_dir c True)) sample_files [1, 4])
      sample_dir ''New overview'' ''New abstract'' False False (sample_metadata 0) (Some 2) = (fs2, Ok wr) \<and>
     wr_wrote wr \<and> pending_is tally_yaml fs2 sample_dir 5 \<and> read_abstract_overview_pending_snapshot tally_yaml fs2 sample_dir = Ok 5"
  using refresh_keeps_concurrent_changes [OF tally_yaml_codec sample_dir_ok sample_pending sample_refresh_ok _
      snapshot_pending [OF sample_pending sample_dir_ok] refl, where cs = "[1, 4]" and sha = "\<lambda>s. s" and
      rp = "\<lparr>rp_force_refresh = False, rp_overview_sample_limit = 32, rp_refresh_ratio = 1 / 10\<rparr>" and
      overview = "''New overview''" and abstract = "''New abstract''"]
  by simp

lemma sample_public_write:
  "\<exists>raw. prepare_abstract_overview_write tally_yaml ''viking://resources/a/.abstract.md'' (sample_raw 2) ''Hello'' ''append'' = Ok raw"
proof -
  have q: "parse_abstract_overview tally_yaml ''Hello'' = Ok \<lparr>od_metadata = [], od_body = ''Hello'', od_legacy = True\<rparr>" by code_simp
  have "is_abstract_overview_uri ''viking://resources/a/.abstract.md''" "last_segment ''viking://resources/a/.abstract.md'' = ''.abstract.md''"
    by code_simp+
  moreover have "normalize_metadata (dict_set (sample_metadata 2) ''directory'' (PStr ''viking://resources/a/'')) = Ok (sample_metadata 2)"
    using sample_metadata_normal [of 2] by (simp add: dict_set_same sample_metadata_def)
  moreover have "map_of (sample_metadata 2) ''directory'' = Some (PStr ''viking://resources/a/'')" by (simp add: sample_metadata_def)
  ultimately show ?thesis
    using sample_parsed [of 2] q sample_dir_normal(2)
    by (simp add: prepare_abstract_overview_write_def render_abstract_overview_def)
qed

theorem public_write_keeps_metadata_witness:
  "\<exists>raw doc. prepare_abstract_overview_write tally_yaml ''viking://resources/a/.abstract.md'' (sample_raw 2) ''Hello'' ''append'' = Ok raw \<and>
     parse_abstract_overview tally_yaml raw = Ok doc \<and> od_metadata doc = sample_metadata 2 \<and>
     body_for_preview tally_yaml raw = Ok (''Summary'' @ [LF] @ ''Hello'')"
proof -
  obtain raw where w: "prepare_abstract_overview_write tally_yaml ''viking://resources/a/.abstract.md'' (sample_raw 2) ''Hello'' ''append'' = Ok raw"
    using sample_public_write by blast
  have "parse_abstract_overview tally_yaml ''Hello'' = Ok \<lparr>od_metadata = [], od_body = ''Hello'', od_legacy = True\<rparr>" by code_simp
  moreover have "strip_space (''Summary'' @ [LF] @ ''Hello'') = ''Summary'' @ [LF] @ ''Hello''" by code_simp
  ultimately show ?thesis
    using public_write_keeps_metadata [OF w sample_parsed] w yaml_codecD [OF tally_yaml_codec sample_metadata_normal [of 2]] by auto
qed

section \<open>Previews of previews\<close>

lemma unclosed_rule_raises:
  assumes "list_all (\<lambda>l. \<not> is_delimiter l) (py_splitlines t)"
  shows "body_for_preview y (''---'' @ LF # t) = Raise AbstractOverviewFormatError"
proof -
  have dw: "dropWhile (\<lambda>l. \<not> is_delimiter l) (py_splitlines t) = []" using assms by (simp add: dropWhile_eq_Nil_conv list_all_iff)
  show ?thesis using delimiter_line
    by (simp add: body_for_preview_def parse_abstract_overview_def py_splitlines_delimiter dw del: append.simps dropWhile_eq_Nil_conv)
qed

text \<open>
  The preview of a rendered summary is its body. The retriever applies the preview to texts that are
  bodies already; that fails when the body itself opens with a Markdown rule \<^verbatim>\<open>---\<close> that no second rule closes:
  the rule is taken for an unclosed front matter and the call raises.
\<close>

theorem rule_body_breaks_preview:
  assumes r: "render_abstract_overview y level dir body m = Ok raw" and y: "yaml_codec y"
    and b: "strip_space body = ''---'' @ LF # t" "list_all (\<lambda>l. \<not> is_delimiter l) (py_splitlines t)"
  shows "body_for_preview y raw = Ok (strip_space body) \<and>
         body_for_preview y (strip_space body) = Raise AbstractOverviewFormatError"
proof
  obtain d n where n: "normalize_directory_uri dir = Ok d" "normalize_metadata (dict_set m ''directory'' (PStr d)) = Ok n" "normalize_metadata n = Ok n"
    using rendered_metadata [OF r] by blast
  have "yaml_faithful y n'" if "normalize_directory_uri dir = Ok d'" "normalize_metadata (dict_set m ''directory'' (PStr d')) = Ok n'" for d' n'
    using that n yaml_codecD [OF y n(3)] by simp
  then show "body_for_preview y raw = Ok (strip_space body)" using preview_of_rendered [OF r] by blast
  show "body_for_preview y (strip_space body) = Raise AbstractOverviewFormatError"
    unfolding b(1) using b(2) by (rule unclosed_rule_raises)
qed

theorem rule_body_breaks_preview_witness:
  "\<exists>raw. render_abstract_overview tally_yaml ABSTRACT sample_dir (''---'' @ LF # ''Draft'') [] = Ok raw \<and>
     body_for_preview tally_yaml raw = Ok (''---'' @ LF # ''Draft'') \<and>
     body_for_preview tally_yaml (''---'' @ LF # ''Draft'') = Raise AbstractOverviewFormatError"
proof -
  have "normalize_metadata (dict_set [] ''directory'' (PStr ''viking://resources/a/'')) = Ok [(''directory'', PStr ''viking://resources/a/'')]"
    using sample_dir_normal(2) by (simp add: normalize_metadata_def dict_get_def)
  then obtain raw where r: "render_abstract_overview tally_yaml ABSTRACT sample_dir (''---'' @ LF # ''Draft'') [] = Ok raw"
    using sample_dir_normal(1) by (simp add: render_abstract_overview_def)
  have "strip_space (''---'' @ LF # ''Draft'') = ''---'' @ LF # ''Draft''" "list_all (\<lambda>l. \<not> is_delimiter l) (py_splitlines ''Draft'')"
    by code_simp+
  then show ?thesis using rule_body_breaks_preview [OF r tally_yaml_codec] r by auto
qed

text \<open>The root directory cannot carry a summary: \<^verbatim>\<open>viking://\<close> normalises to \<^verbatim>\<open>viking:/\<close>, which the second
  normalisation of the same call rejects.\<close>

lemma root_sidecar_unrenderable:
  "render_abstract_overview y level ''viking://'' body m = Raise AbstractOverviewFormatError"
proof -
  have "normalize_directory_uri ''viking://'' = Ok ''viking:/''" "normalize_directory_uri ''viking:/'' = Raise AbstractOverviewFormatError"
    by code_simp+
  then show ?thesis by (simp add: render_abstract_overview_def normalize_metadata_def map_of_dict_set)
qed

section \<open>Transfers\<close>

text \<open>A reference is only rewritten where a boundary follows: a text in which every occurrence of the old URI goes on
  (as in \<^verbatim>\<open>.../foobar\<close> for \<^verbatim>\<open>.../foo\<close>) is left as it is.\<close>

lemma sub_refs_unbounded:
  "(\<And>i. i < length s \<Longrightarrow> py_startswith (drop i s) old \<Longrightarrow> \<not> suffix_boundary (drop (i + length old) s)) \<Longrightarrow> sub_refs old new 0 s = s"
proof (induction s)
  case (Cons c s)
  from Cons.prems [of 0] have "\<not> (py_startswith (c # s) old \<and> suffix_boundary (drop (length old) (c # s)))" by auto
  moreover have "sub_refs old new 0 s = s"
    using Cons.prems [of "Suc _"] by (intro Cons.IH) simp
  ultimately show ?case by auto
qed simp

text \<open>A transferred summary names its new directory, and keeps its source, generator and counters.\<close>

lemma transfer_retargets:
  assumes t: "rewrite_abstract_overview_for_transfer y raw level src target ss ts = Ok raw'"
    and p: "parse_abstract_overview y raw = Ok document" "\<not> od_legacy document" and y: "yaml_codec y"
  shows "\<exists>doc d. parse_abstract_overview y raw' = Ok doc \<and> normalize_directory_uri target = Ok d \<and>
           map_of (od_metadata doc) ''directory'' = Some (PStr d) \<and>
           normalize_metadata (dict_set (od_metadata document) ''directory'' (PStr d)) = Ok (od_metadata doc)"
proof -
  obtain body where "render_abstract_overview y level target body (od_metadata document) = Ok raw'"
    using t p by (auto simp: rewrite_abstract_overview_for_transfer_def Let_def)
  then obtain d n where d: "normalize_directory_uri target = Ok d"
      and n: "normalize_metadata (dict_set (od_metadata document) ''directory'' (PStr d)) = Ok n" "normalize_metadata n = Ok n"
      "map_of n ''directory'' = Some (PStr d)" "raw' = okf_text (frontmatter_text y n) (strip_space body @ [LF])"
    using rendered_metadata by blast
  have "parse_abstract_overview y raw' = Ok \<lparr>od_metadata = n, od_body = strip_space body @ [LF], od_legacy = False\<rparr>"
    using parse_okf_text [OF yaml_codecD [OF y n(2)] n(2)] n(3,4) by simp
  then show ?thesis using d n by auto
qed

section \<open>The refresh threshold and the sample\<close>

text \<open>The threshold is the integer one the documentation of the policy gives, for exact ratios.\<close>

lemma refresh_threshold:
  assumes "0 < c" "overview_sample_limit < n" "0 \<le> overview_sample_limit"
  shows "fd_action (decide_parent_refresh True True n p c overview_sample_limit ratio False) = REFRESH_NOW \<longleftrightarrow>
           \<lceil>ratio * of_int n\<rceil> \<le> p + c"
proof -
  have "max n 1 = n" using assms by simp
  then show ?thesis using assms by (auto simp: decide_parent_refresh_def Let_def le_divide_eq ceiling_le_iff)
qed

lemma sample_indices_mono:
  assumes "l < n" "0 < l"
  shows "(i * n) div l < (Suc i * n) div (l :: nat)"
proof -
  have "(i * n) div l + 1 = (i * n + l) div l" using assms by simp
  also have "\<dots> \<le> (Suc i * n) div l" using assms by (intro div_le_mono) simp
  finally show ?thesis by simp
qed

text \<open>The sample of a long sequence takes strictly increasing positions from the first item to the last.\<close>

lemma deterministic_sample_spans:
  assumes "1 < limit" "limit < int (length items)"
  shows "\<exists>idx. deterministic_sample items limit = map ((!) items) idx \<and> int (length idx) = limit \<and>
           sorted_wrt (<) idx \<and> hd idx = 0 \<and> last idx = length items - 1"
proof -
  let ?l = "nat limit - 1" and ?n = "length items - 1"
  let ?idx = "map (\<lambda>i. (i * ?n) div ?l) [0 ..< nat limit]"
  have l: "0 < ?l" "?l < ?n" using assms by simp_all
  have "(i * ?n) div ?l < (j * ?n) div ?l" if "i < j" for i j
    using lift_Suc_mono_less [where f = "\<lambda>i. (i * ?n) div ?l", OF sample_indices_mono [OF l(2,1)] that] .
  then have "sorted_wrt (<) ?idx" by (auto simp: sorted_wrt_map intro!: sorted_wrt_mono_rel [OF _ sorted_wrt_upt])
  moreover have "hd ?idx = 0" "last ?idx = ?n" using assms l by (simp_all add: hd_map last_map)
  moreover have "deterministic_sample items limit = map ((!) items) ?idx" using assms by (simp add: deterministic_sample_def)
  ultimately show ?thesis using assms by (intro exI [of _ ?idx]) simp
qed

end
