(* ===== verification/Search_Tags.thy ===== *)
theory Search_Tags
  imports PyValue
begin

text \<open>
  Explicit search tags, \<^verbatim>\<open>utils/tags.py\<close>: validation of one \<^verbatim>\<open>key=value\<close> tag, normalisation of a list of
  tags (one value for a key, the last one wins, the first position stays) and the merge of stored and incoming tags.
  The pattern of a tag part ends in \<^verbatim>\<open>$\<close> and is tried with \<^verbatim>\<open>match\<close>, so it accepts one trailing newline; the
  model keeps that.
\<close>

definition MAX_TAG_KEY_LENGTH :: nat where "MAX_TAG_KEY_LENGTH = 64"
definition MAX_TAG_VALUE_LENGTH :: nat where "MAX_TAG_VALUE_LENGTH = 128"
definition MAX_TAG_LENGTH :: nat where "MAX_TAG_LENGTH = MAX_TAG_KEY_LENGTH + 1 + MAX_TAG_VALUE_LENGTH"

definition tag_start :: "char \<Rightarrow> bool" where
  "tag_start c \<longleftrightarrow> ascii_lower c \<or> is_digit c"

definition tag_char :: "char \<Rightarrow> bool" where
  "tag_char c \<longleftrightarrow> tag_start c \<or> c \<in> set ''_.-''"

definition tag_body :: "string \<Rightarrow> bool" where
  "tag_body s \<longleftrightarrow> (case s of [] \<Rightarrow> False | c # t \<Rightarrow> tag_start c \<and> list_all tag_char t)"

definition tag_token :: "string \<Rightarrow> bool" where
  "tag_token s \<longleftrightarrow> tag_body s \<or> (s \<noteq> [] \<and> last s = CHR 0x0A \<and> tag_body (butlast s))"

definition tag_key :: "string \<Rightarrow> string" where
  "tag_key v = py_before CHR ''='' v"

definition tag_value :: "string \<Rightarrow> string" where
  "tag_value v = drop (length (tag_key v) + 1) v"

definition normalize_search_tag :: "string \<Rightarrow> string res" where
  "normalize_search_tag tag =
     (let value = py_lower (strip_space tag) in
      if value = [] then Raise InvalidArgumentError
      else if length value > MAX_TAG_LENGTH then Raise InvalidArgumentError
      else if count_list value CHR ''='' \<noteq> 1 then Raise InvalidArgumentError
      else let key = tag_key value; raw_value = tag_value value in
        if key = [] \<or> raw_value = [] then Raise InvalidArgumentError
        else if length key > MAX_TAG_KEY_LENGTH then Raise InvalidArgumentError
        else if length raw_value > MAX_TAG_VALUE_LENGTH then Raise InvalidArgumentError
        else if \<not> tag_token key \<or> \<not> tag_token raw_value then Raise InvalidArgumentError
        else Ok (key @ ''='' @ raw_value))"

type_synonym tag_dict = "(string \<times> string) list"

definition tag_step :: "bool \<Rightarrow> tag_dict \<Rightarrow> string option \<Rightarrow> tag_dict res" where
  "tag_step discard_invalid values item =
     (case item of None \<Rightarrow> Ok values
      | Some tag \<Rightarrow>
          (case normalize_search_tag tag of
             Inl e \<Rightarrow> if discard_invalid then Ok values else Raise e
           | Inr v \<Rightarrow> Ok (dict_set values (tag_key v) (tag_value v))))"

definition tag_list :: "tag_dict \<Rightarrow> string list" where
  "tag_list d = map (\<lambda>(k, v). k @ ''='' @ v) d"

definition normalize_search_tags :: "string option list option \<Rightarrow> bool \<Rightarrow> string list res" where
  "normalize_search_tags tags discard_invalid =
     (case tags of None \<Rightarrow> Ok [] | Some ts \<Rightarrow>
        res_bind (fold_res (tag_step discard_invalid) [] ts) (\<lambda>d. Ok (tag_list d)))"

definition build_search_tags_filter :: "string option list option \<Rightarrow> pyval option res" where
  "build_search_tags_filter tags =
     res_bind (normalize_search_tags tags False) (\<lambda>normalized.
       let filters = map (\<lambda>tag. PDict [(''op'', PStr ''must''), (''field'', PStr ''search_tags''), (''conds'', PList [PStr tag])]) normalized
       in Ok (case filters of [] \<Rightarrow> None | [f] \<Rightarrow> Some f | _ \<Rightarrow> Some (PDict [(''op'', PStr ''and''), (''conds'', PList filters)])))"

definition add_tags :: "tag_dict \<Rightarrow> string list \<Rightarrow> tag_dict" where
  "add_tags ordered items = foldl (\<lambda>d item. dict_set d (tag_key item) (tag_value item)) ordered items"

definition merge_search_tags :: "string option list option \<Rightarrow> string option list option \<Rightarrow> string list res" where
  "merge_search_tags existing incoming =
     res_bind (normalize_search_tags existing True) (\<lambda>es.
     res_bind (normalize_search_tags incoming True) (\<lambda>is.
     Ok (tag_list (add_tags (add_tags [] es) is))))"

section \<open>One tag\<close>

lemma py_lower_idem [simp]: "py_lower (py_lower s) = py_lower s"
  by (auto simp: py_lower_def Let_def)

lemma length_py_lower [simp]: "length (py_lower s) = length s"
  by (simp add: py_lower_def)

lemma py_isspace_lower: "py_isspace (hd (py_lower s)) = py_isspace (hd s) \<and> py_isspace (last (py_lower s)) = py_isspace (last s)" if "s \<noteq> []"
  using that by (auto simp: py_lower_def hd_map last_map py_isspace_def Let_def)

lemma strip_lower_strip: "strip_space (py_lower (strip_space s)) = py_lower (strip_space s)"
proof (rule py_strip_id)
  let ?t = "strip_space s"
  have "?t = [] \<or> \<not> py_isspace (hd ?t) \<and> \<not> py_isspace (last ?t)" using py_strip_hd py_strip_last by blast
  then show "py_lower ?t = [] \<or> \<not> py_isspace (hd (py_lower ?t)) \<and> \<not> py_isspace (last (py_lower ?t))"
    using py_isspace_lower [of ?t] by (auto simp: py_lower_def)
qed

lemma tag_split: "CHR ''='' \<in> set v \<Longrightarrow> tag_key v @ ''='' @ tag_value v = v"
proof -
  assume "CHR ''='' \<in> set v"
  then obtain a b where "v = a @ CHR ''='' # b" "CHR ''='' \<notin> set a" by (meson split_list_first)
  then show ?thesis by (simp add: tag_key_def tag_value_def py_before_append_sep)
qed

lemma tag_key_value [simp]: "CHR ''='' \<notin> set k \<Longrightarrow> tag_key (k @ CHR ''='' # v) = k \<and> tag_value (k @ CHR ''='' # v) = v"
  by (simp add: tag_key_def tag_value_def py_before_append_sep)

lemma normalize_search_tag_fixed:
  assumes "normalize_search_tag tag = Ok v"
  shows "v = py_lower (strip_space tag)" "v = tag_key v @ ''='' @ tag_value v" "tag_token (tag_key v)" "tag_token (tag_value v)"
    "normalize_search_tag v = Ok v"
proof -
  let ?w = "py_lower (strip_space tag)"
  have c: "count_list ?w CHR ''='' = 1" and v: "v = tag_key ?w @ ''='' @ tag_value ?w"
    using assms by (auto simp: normalize_search_tag_def Let_def split: if_splits)
  have "CHR ''='' \<in> set ?w" using c by (metis count_notin zero_neq_one)
  then show vw: "v = ?w" using v tag_split by simp
  then show "v = tag_key v @ ''='' @ tag_value v" using v by simp
  show "tag_token (tag_key v)" "tag_token (tag_value v)" using assms unfolding vw by (auto simp: normalize_search_tag_def Let_def split: if_splits)
  have "normalize_search_tag v = normalize_search_tag tag"
    unfolding vw normalize_search_tag_def by (simp add: strip_lower_strip)
  then show "normalize_search_tag v = Ok v" using assms by simp
qed

lemma tag_token_no_eq: "tag_token s \<Longrightarrow> CHR ''='' \<notin> set s"
proof -
  have b: "CHR ''='' \<notin> set t" if "tag_body t" for t
    using that by (cases t) (auto simp: tag_body_def list_all_iff tag_char_def tag_start_def ascii_lower_def is_digit_def)
  assume s: "tag_token s"
  show ?thesis
  proof (cases "tag_body s")
    case False
    then have l: "s \<noteq> []" "last s = CHR 0x0A" and t: "tag_body (butlast s)" using s by (auto simp: tag_token_def)
    have "set s = insert (CHR 0x0A) (set (butlast s))" using l
      by (metis Un_insert_right append_butlast_last_id list.set(1) list.simps(15) set_append sup_bot.right_neutral)
    then show ?thesis using b [OF t] by simp
  qed (use b in blast)
qed

section \<open>Lists of tags\<close>

text \<open>What a tag dictionary holds: distinct keys, each part a valid one.\<close>

definition tags_ok :: "tag_dict \<Rightarrow> bool" where
  "tags_ok d \<longleftrightarrow> distinct (map fst d) \<and> list_all (\<lambda>(k, v). normalize_search_tag (k @ ''='' @ v) = Ok (k @ ''='' @ v)) d"

lemma tags_ok_set: "tags_ok d \<Longrightarrow> normalize_search_tag v = Ok v \<Longrightarrow> tags_ok (dict_set d (tag_key v) (tag_value v))"
  using set_dict_set [of d "tag_key v" "tag_value v"] normalize_search_tag_fixed(2) [of v v]
  by (fastforce simp: tags_ok_def list_all_iff dict_set_distinct)

lemma tag_step_ok: "tags_ok d \<Longrightarrow> tag_step b d item = Ok d' \<Longrightarrow> tags_ok d'"
  using normalize_search_tag_fixed(5) tags_ok_set by (auto simp: tag_step_def split: option.splits sum.splits if_splits)

lemma fold_tags_ok: "tags_ok d \<Longrightarrow> fold_res (tag_step b) d ts = Ok d' \<Longrightarrow> tags_ok d'"
  by (induction ts arbitrary: d) (auto simp: res_bind_Ok_iff dest: tag_step_ok)

lemma tags_okD:
  assumes "tags_ok d" "(k, v) \<in> set d"
  shows "CHR ''='' \<notin> set k" "normalize_search_tag (k @ ''='' @ v) = Ok (k @ ''='' @ v)"
proof -
  show n: "normalize_search_tag (k @ ''='' @ v) = Ok (k @ ''='' @ v)" using assms by (auto simp: tags_ok_def list_all_iff)
  have c: "count_list (k @ ''='' @ v) CHR ''='' = 1"
    using n normalize_search_tag_fixed(1) [OF n] unfolding normalize_search_tag_def Let_def by (auto split: if_splits)
  show "CHR ''='' \<notin> set k" using tag_token_no_eq [OF normalize_search_tag_fixed(4) [OF n]] c
    by (auto simp: count_list_0_iff)
qed

lemma add_tag_list:
  assumes "tags_ok d"
  shows "add_tags e (tag_list d) = foldl (\<lambda>x (k, v). dict_set x k v) e d"
proof -
  have "foldl (\<lambda>x item. dict_set x (tag_key item) (tag_value item)) e (map (\<lambda>(k, v). k @ ''='' @ v) xs) = foldl (\<lambda>x (k, v). dict_set x k v) e xs"
    if "set xs \<subseteq> set d" for xs
    using that
  proof (induction xs arbitrary: e)
    case (Cons kv xs)
    obtain k v where kv: "kv = (k, v)" by (cases kv)
    have "CHR ''='' \<notin> set k" using Cons.prems tags_okD(1) [OF assms] by (auto simp: kv)
    then show ?case using Cons by (simp add: kv)
  qed simp
  then show ?thesis by (simp add: add_tags_def tag_list_def)
qed

lemma foldl_dict_set:
  "map_of (foldl (\<lambda>x (k, v). dict_set x k v) e d) = map_of e ++ map_of (rev d)"
  by (induction d arbitrary: e) (auto simp: map_of_dict_set fun_eq_iff map_add_def split: option.splits)

lemma fold_dict_set_ok: "tags_ok e \<Longrightarrow> tags_ok d \<Longrightarrow> tags_ok (foldl (\<lambda>x (k, v). dict_set x k v) e d)"
proof (induction d arbitrary: e)
  case (Cons kv d)
  obtain k v where kv: "kv = (k, v)" by (cases kv)
  note d = tags_okD [OF Cons.prems(2), of k v, unfolded kv, simplified]
  have "tags_ok (dict_set e k v)" using tags_ok_set [OF Cons.prems(1) d(2)] d(1) by simp
  moreover have "tags_ok d" using Cons.prems(2) by (simp add: tags_ok_def)
  ultimately show ?case using Cons.IH by (simp add: kv)
qed simp


text \<open>
  Tags are a dictionary in the text of a list. Normalising is idempotent, and a merge of stored and incoming
  tags has one tag for each key, every tag of it is a normal form, an incoming value replaces the stored one, and a
  key that only one side has keeps its value.
\<close>

definition tag_pairs :: "string list \<Rightarrow> tag_dict" where
  "tag_pairs ts = map (\<lambda>t. (tag_key t, tag_value t)) ts"

lemma tag_pairs_list: "tags_ok d \<Longrightarrow> tag_pairs (tag_list d) = d"
  using tags_okD(1) by (fastforce simp: tag_pairs_def tag_list_def intro!: map_idI)

lemma normalize_search_tags_ok:
  assumes "normalize_search_tags tags b = Ok ts"
  shows "\<exists>d. tags_ok d \<and> ts = tag_list d"
proof (cases tags)
  case None
  then show ?thesis using assms by (auto simp: normalize_search_tags_def tags_ok_def tag_list_def intro: exI [of _ "[]"])
next
  case (Some xs)
  then show ?thesis using assms fold_tags_ok [of "[]" b xs] by (auto simp: normalize_search_tags_def res_bind_Ok_iff tags_ok_def)
qed

lemma fold_res_discard: "\<exists>d'. fold_res (tag_step True) d ts = Ok d'"
  by (induction ts arbitrary: d) (auto simp: tag_step_def split: option.splits sum.splits)

theorem merge_search_tags_spec:
  assumes e: "normalize_search_tags existing True = Ok es" and i: "normalize_search_tags incoming True = Ok is"
  shows "\<exists>ts. merge_search_tags existing incoming = Ok ts \<and> distinct (map tag_key ts) \<and>
           list_all (\<lambda>t. normalize_search_tag t = Ok t) ts \<and>
           map_of (tag_pairs ts) = map_of (tag_pairs es) ++ map_of (tag_pairs is)"
proof -
  obtain de di where d: "tags_ok de" "es = tag_list de" "tags_ok di" "is = tag_list di"
    using normalize_search_tags_ok e i by metis
  let ?r = "foldl (\<lambda>x (k, v). dict_set x k v) (foldl (\<lambda>x (k, v). dict_set x k v) [] de) di"
  have m: "merge_search_tags existing incoming = Ok (tag_list ?r)"
    using e i d by (simp add: merge_search_tags_def add_tag_list)
  have ok: "tags_ok ?r" using d fold_dict_set_ok by (simp add: tags_ok_def [of "[]"])
  have "map_of (rev x) = map_of x" if "tags_ok x" for x
    using that by (intro map_of_eqI) (auto simp: tags_ok_def map_of_eq_Some_iff simp flip: rev_map)
  then have "map_of ?r = map_of de ++ map_of di" using d by (simp add: foldl_dict_set)
  moreover have "distinct (map tag_key (tag_list ?r))"
    using arg_cong [OF tag_pairs_list [OF ok], of "map fst"] ok by (simp add: tags_ok_def tag_pairs_def comp_def)
  moreover have "list_all (\<lambda>t. normalize_search_tag t = Ok t) (tag_list ?r)"
    using ok by (auto simp: tags_ok_def tag_list_def list_all_iff)
  ultimately show ?thesis using m ok d by (auto simp: tag_pairs_list)
qed

theorem merge_search_tags_spec_witness:
  "\<exists>ts. merge_search_tags (Some [Some ''Env=Prod'', Some ''team=a'']) (Some [Some '' env=dev '', None, Some ''bad'']) = Ok ts \<and>
     distinct (map tag_key ts) \<and> list_all (\<lambda>t. normalize_search_tag t = Ok t) ts \<and>
     map_of (tag_pairs ts) = map_of (tag_pairs [''env=prod'', ''team=a'']) ++ map_of (tag_pairs [''env=dev''])"
proof -
  have e: "normalize_search_tags (Some [Some ''Env=Prod'', Some ''team=a'']) True = Ok [''env=prod'', ''team=a'']" by code_simp
  have i: "normalize_search_tags (Some [Some '' env=dev '', None, Some ''bad'']) True = Ok [''env=dev'']" by code_simp
  show ?thesis using merge_search_tags_spec [OF e i] .
qed

text \<open>The trailing newline that the pattern lets through in a key.\<close>

lemma newline_key_accepted: "normalize_search_tag (''env'' @ [CHR 0x0A] @ ''=prod'') = Ok (''env'' @ [CHR 0x0A] @ ''=prod'')"
  by code_simp

end
