(* ===== verification/Hierarchical.thy ===== *)
theory Hierarchical
  imports Context_Gather Abstract_Overview Search_Tags
begin

text \<open>
  The hierarchical retriever, \<^verbatim>\<open>retrieve/hierarchical_retriever.py\<close>, with the hotness score of
  \<^verbatim>\<open>retrieve/memory_lifecycle.py\<close>: one vector search in quick mode; in thinking mode a best-first search of
  the directory tree that starts from directory hits and roots, expands up to four directories a round, propagates
  scores from a directory to its children, and stops when nothing is left or the pool has stopped changing.

  The vector store and the rerank service are arguments of the definitions (\<open>vector_ops\<close>, \<open>hr_rerank\<close>). Scores are
  exact rationals; \<open>raw_score\<close> is what \<^verbatim>\<open>float(value)\<close> gives, None standing for the two exceptions the code
  catches. The search loop takes fuel, one unit a round: \<open>search_terminates\<close> shows how much is enough.
\<close>

section \<open>Records of the vector index\<close>

type_synonym raw_score = "pyfloat option"

text \<open>A \<^verbatim>\<open>datetime\<close>, in seconds: one without a time zone is read as UTC.\<close>

datatype pydatetime = NaiveTime rat | AwareTime rat

fun utc_seconds :: "pydatetime \<Rightarrow> rat" where
  "utc_seconds (NaiveTime t) = t"
| "utc_seconds (AwareTime t) = t"

datatype updated_at = UpdatedStr string | UpdatedTime pydatetime | UpdatedOther

text \<open>A record as the search returns it. An absent \<^verbatim>\<open>uri\<close>, \<^verbatim>\<open>abstract\<close> or \<^verbatim>\<open>category\<close> is the empty
  string, an absent \<^verbatim>\<open>_score\<close> is 0.0 and an absent \<^verbatim>\<open>level\<close> is None.\<close>

record vrec =
  vr_uri :: string
  vr_score :: raw_score
  vr_level :: "int option"
  vr_abstract :: string
  vr_context_type :: "string option"
  vr_category :: string
  vr_search_tags :: "string option list option"
  vr_active_count :: int
  vr_updated_at :: updated_at

definition rec_level :: "vrec \<Rightarrow> int" where
  "rec_level r = (case vr_level r of None \<Rightarrow> 2 | Some l \<Rightarrow> l)"

text \<open>A candidate: a record with its \<^verbatim>\<open>_final_score\<close>.\<close>

type_synonym scored = "vrec \<times> rat"

record retriever =
  hr_rerank :: "(ustr \<Rightarrow> ustr list \<Rightarrow> raw_score list res) option"
  hr_rerank_max_input_tokens :: int
  hr_threshold :: "rat option"
  hr_hotness_alpha :: rat
  hr_score_propagation_alpha :: rat
  hr_embedder :: "(bool \<times> unit res) option"

datatype retriever_mode = THINKING | QUICK

record vector_ops =
  vo_collection_exists :: bool
  vo_acl_enabled :: bool
  vo_search :: "int list option \<Rightarrow> int \<Rightarrow> vrec list res"
  vo_children :: "string \<Rightarrow> vrec list res"

section \<open>Scores\<close>

definition MAX_CONVERGENCE_ROUNDS :: nat where "MAX_CONVERGENCE_ROUNDS = 3"
definition GLOBAL_SEARCH_TOPK :: nat where "GLOBAL_SEARCH_TOPK = 10"
definition MAX_PARALLEL_CHILD_SEARCHES :: nat where "MAX_PARALLEL_CHILD_SEARCHES = 4"

definition resolve_threshold :: "retriever \<Rightarrow> rat option \<Rightarrow> rat" where
  "resolve_threshold hr threshold =
     (case (case threshold of None \<Rightarrow> hr_threshold hr | Some t \<Rightarrow> Some t) of None \<Rightarrow> 0 | Some t \<Rightarrow> t)"

fun finite_score :: "raw_score \<Rightarrow> rat \<Rightarrow> rat" where
  "finite_score (Some (Finite q)) dflt = q"
| "finite_score _ dflt = dflt"

definition passes_threshold :: "rat \<Rightarrow> rat \<Rightarrow> bool \<Rightarrow> bool" where
  "passes_threshold score threshold score_gte = (if score_gte then score \<ge> threshold else score > threshold)"

definition rerank_inputs :: "retriever \<Rightarrow> ustr \<Rightarrow> (nat \<times> ustr) list \<Rightarrow> ustr \<times> (nat \<times> ustr) list" where
  "rerank_inputs hr query docs =
     (if hr_rerank_max_input_tokens hr > 0 then
        let max_query_tokens = hr_rerank_max_input_tokens hr * 3 div 4;
            rerank_query = (if int (estimate_text_tokens query) > max_query_tokens
                            then truncate_text_to_token_budget query max_query_tokens default_marker (3 / 4) else query);
            document_tokens = hr_rerank_max_input_tokens hr - int (estimate_text_tokens rerank_query)
        in (rerank_query, map (\<lambda>(i, d). (i, truncate_text_to_token_budget d document_tokens default_marker (3 / 4))) docs)
      else (query, docs))"

definition rerank_scores :: "retriever \<Rightarrow> ustr \<Rightarrow> ustr list \<Rightarrow> rat list \<Rightarrow> rat list" where
  "rerank_scores hr query documents fallback_scores =
     (case hr_rerank hr of
        None \<Rightarrow> fallback_scores
      | Some client \<Rightarrow>
          let docs = filter (\<lambda>(i, d). \<not> list_all u_isspace d) (enumerate 0 documents) in
          if docs = [] then fallback_scores
          else
            let (rerank_query, rerank_documents) = rerank_inputs hr query docs
            in case client rerank_query (map snd rerank_documents) of
                 Inl e \<Rightarrow> fallback_scores
               | Inr scores \<Rightarrow>
                   if scores = [] \<or> length scores \<noteq> length rerank_documents then fallback_scores
                   else foldl (\<lambda>ns (score, (i, d)). ns[i := finite_score score (fallback_scores ! i)])
                          fallback_scores (zip scores rerank_documents))"

definition base_scores :: "vrec list \<Rightarrow> rat list" where
  "base_scores rs = map (\<lambda>r. finite_score (vr_score r) 0) rs"

text \<open>The scores of a list of hits: vector scores, reranked in thinking mode.\<close>

definition hit_scores :: "retriever \<Rightarrow> retriever_mode \<Rightarrow> ustr \<Rightarrow> vrec list \<Rightarrow> rat list" where
  "hit_scores hr mode query rs =
     (if hr_rerank hr \<noteq> None \<and> mode = THINKING
      then rerank_scores hr query (map (\<lambda>r. codes (vr_abstract r)) rs) (base_scores rs)
      else base_scores rs)"

section \<open>The recursive search\<close>

record search_params =
  sp_query :: ustr
  sp_mode :: retriever_mode
  sp_limit :: nat
  sp_threshold :: rat
  sp_score_gte :: bool
  sp_level :: "int list option"

definition level_matches :: "int list option \<Rightarrow> vrec \<Rightarrow> bool" where
  "level_matches level r = (case level of None \<Rightarrow> True | Some ls \<Rightarrow> rec_level r \<in> set ls)"

type_synonym pool = "(string \<times> scored) list"

text \<open>The priority queue of \<^verbatim>\<open>(-score, uri)\<close>: \<^verbatim>\<open>heapq\<close> pops the least pair, so the queue is kept sorted.
  \<open>ss_visited\<close> is the visited set in the order the directories were entered, each with its score.\<close>

type_synonym dir_queue = "(rat \<times> string) list"

record search_state =
  ss_collected :: pool
  ss_queue :: dir_queue
  ss_visited :: "(string \<times> rat) list"
  ss_prev_topk :: "string list"
  ss_prev_pool_size :: nat
  ss_convergence_rounds :: nat
  ss_stagnant_rounds :: nat

definition visited_uris :: "(string \<times> rat) list \<Rightarrow> string set" where
  "visited_uris vs = fst ` set vs"

definition add_initial :: "search_params \<Rightarrow> pool \<Rightarrow> vrec \<Rightarrow> pool" where
  "add_initial sp pool r =
     (if vr_uri r = [] \<or> \<not> level_matches (sp_level sp) r then pool
      else let score = finite_score (vr_score r) 0 in
        if \<not> passes_threshold score (sp_threshold sp) (sp_score_gte sp) then pool
        else dict_set pool (vr_uri r) (r, score))"

fun take_batch :: "nat \<Rightarrow> dir_queue \<Rightarrow> (string \<times> rat) list \<Rightarrow> (string \<times> rat) list \<times> dir_queue \<times> (string \<times> rat) list" where
  "take_batch 0 q vs = ([], q, vs)"
| "take_batch (Suc n) [] vs = ([], [], vs)"
| "take_batch (Suc n) ((temp_score, uri) # q) vs =
     (if uri \<in> visited_uris vs then take_batch (Suc n) q vs
      else case take_batch n q (vs @ [(uri, - temp_score)]) of
             (batch, q', vs') \<Rightarrow> ((uri, - temp_score) # batch, q', vs'))"

definition propagated_score :: "rat \<Rightarrow> rat \<Rightarrow> rat \<Rightarrow> rat" where
  "propagated_score alpha current_score score =
     (if current_score \<noteq> 0 then alpha * score + (1 - alpha) * current_score else score)"

definition take_hit :: "retriever \<Rightarrow> search_params \<Rightarrow> string set \<Rightarrow> rat \<Rightarrow> pool \<times> dir_queue \<Rightarrow> vrec \<times> rat \<Rightarrow> pool \<times> dir_queue" where
  "take_hit hr sp visited current_score pq hit =
     (case (pq, hit) of ((pool, q), (r, score)) \<Rightarrow>
        let final_score = propagated_score (hr_score_propagation_alpha hr) current_score score in
        if \<not> passes_threshold final_score (sp_threshold sp) (sp_score_gte sp) then (pool, q)
        else (if level_matches (sp_level sp) r then keep_best_step (\<lambda>c. vr_uri (fst c)) snd pool (r, final_score) else pool,
              if vr_uri r \<notin> visited \<and> rec_level r \<noteq> 2 then insort (- final_score, vr_uri r) q else q))"

definition take_results :: "retriever \<Rightarrow> search_params \<Rightarrow> string set \<Rightarrow> pool \<times> dir_queue \<Rightarrow> (string \<times> rat) \<times> vrec list \<Rightarrow> pool \<times> dir_queue" where
  "take_results hr sp visited pq entry =
     (case entry of ((uri, current_score), results) \<Rightarrow>
        foldl (take_hit hr sp visited current_score) pq (zip results (hit_scores hr (sp_mode sp) (sp_query sp) results)))"

definition ranked :: "pool \<Rightarrow> scored list" where
  "ranked pool = sort_key (\<lambda>c. - snd c) (map snd pool)"

text \<open>The convergence check at the end of a round; True means the loop is left.\<close>

definition convergence_check :: "nat \<Rightarrow> search_state \<Rightarrow> search_state \<times> bool" where
  "convergence_check limit st =
     (let current_topk_uris = map (\<lambda>c. vr_uri (fst c)) (take limit (ranked (ss_collected st)));
          current_pool_size = length (ss_collected st)
      in if set current_topk_uris = set (ss_prev_topk st) \<and> card (set current_topk_uris) \<ge> limit
         then let n = ss_convergence_rounds st + 1
              in (st\<lparr>ss_convergence_rounds := n\<rparr>, n \<ge> MAX_CONVERGENCE_ROUNDS)
         else if current_pool_size = ss_prev_pool_size st
         then let n = ss_stagnant_rounds st + 1
              in (st\<lparr>ss_stagnant_rounds := n\<rparr>, n \<ge> MAX_CONVERGENCE_ROUNDS)
         else (st\<lparr>ss_convergence_rounds := 0, ss_stagnant_rounds := 0,
                  ss_prev_topk := current_topk_uris, ss_prev_pool_size := current_pool_size\<rparr>, False))"

text \<open>One round. \<^verbatim>\<open>asyncio.gather\<close> raises when one of the child searches does; the model reports the first in
  batch order.\<close>

definition search_round :: "retriever \<Rightarrow> search_params \<Rightarrow> (string \<Rightarrow> vrec list res) \<Rightarrow> search_state \<Rightarrow> (search_state \<times> bool) res" where
  "search_round hr sp children st =
     (case take_batch MAX_PARALLEL_CHILD_SEARCHES (ss_queue st) (ss_visited st) of
        (batch, q, vs) \<Rightarrow>
          if batch = [] then Ok (st\<lparr>ss_queue := q, ss_visited := vs\<rparr>, False)
          else res_bind (res_map (\<lambda>(uri, s). children uri) batch) (\<lambda>batch_results.
            case foldl (take_results hr sp (visited_uris vs)) (ss_collected st, q) (zip batch batch_results) of
              (pool, q') \<Rightarrow>
                Ok (convergence_check (sp_limit sp) (st\<lparr>ss_collected := pool, ss_queue := q', ss_visited := vs\<rparr>))))"

fun search_loop :: "nat \<Rightarrow> retriever \<Rightarrow> search_params \<Rightarrow> (string \<Rightarrow> vrec list res) \<Rightarrow> search_state \<Rightarrow> (search_state \<times> bool) res option" where
  "search_loop fuel hr sp children st =
     (if ss_queue st = [] then Some (Ok (st, False))
      else case fuel of
        0 \<Rightarrow> None
      | Suc n \<Rightarrow>
          (case search_round hr sp children st of
             Inl e \<Rightarrow> Some (Raise e)
           | Inr (st', stop) \<Rightarrow> if stop then Some (Ok (st', True)) else search_loop n hr sp children st'))"

definition search_start :: "search_params \<Rightarrow> (string \<times> rat) list \<Rightarrow> vrec list \<Rightarrow> search_state" where
  "search_start sp starting_points initial_candidates =
     \<lparr>ss_collected = foldl (add_initial sp) [] initial_candidates,
      ss_queue = foldl (\<lambda>q (uri, score). insort (- score, uri) q) [] starting_points,
      ss_visited = [], ss_prev_topk = [], ss_prev_pool_size = 0, ss_convergence_rounds = 0, ss_stagnant_rounds = 0\<rparr>"

definition recursive_search ::
    "nat \<Rightarrow> retriever \<Rightarrow> search_params \<Rightarrow> (string \<Rightarrow> vrec list res) \<Rightarrow> (string \<times> rat) list \<Rightarrow> vrec list \<Rightarrow> scored list res option" where
  "recursive_search fuel hr sp children starting_points initial_candidates =
     map_option (\<lambda>r. res_bind r (\<lambda>(st, stopped). Ok (take (sp_limit sp) (ranked (ss_collected st)))))
       (search_loop fuel hr sp children (search_start sp starting_points initial_candidates))"

declare search_loop.simps [simp del]

lemma search_loop_simps:
  "ss_queue st = [] \<Longrightarrow> search_loop fuel hr sp children st = Some (Ok (st, False))"
  "ss_queue st \<noteq> [] \<Longrightarrow> search_loop 0 hr sp children st = None"
  "ss_queue st \<noteq> [] \<Longrightarrow> search_loop (Suc n) hr sp children st =
     (case search_round hr sp children st of
        Inl e \<Rightarrow> Some (Raise e)
      | Inr (st', stop) \<Rightarrow> if stop then Some (Ok (st', True)) else search_loop n hr sp children st')"
  by (simp_all add: search_loop.simps)


section \<open>Each directory is entered at most once\<close>

lemma take_batch_log: "take_batch n q vs = (batch, q', vs') \<Longrightarrow> vs' = vs @ batch \<and> length batch \<le> n"
  by (induction n q vs arbitrary: batch q' vs' rule: take_batch.induct) (auto split: if_splits prod.splits)

lemma take_batch_queue: "take_batch n q vs = (batch, q', vs') \<Longrightarrow> set q' \<subseteq> set q"
  by (induction n q vs arbitrary: batch q' vs' rule: take_batch.induct) (auto split: if_splits prod.splits)

lemma take_batch_from: "take_batch n q vs = (batch, q', vs') \<Longrightarrow> fst ` set batch \<subseteq> snd ` set q"
proof (induction n q vs arbitrary: batch q' vs' rule: take_batch.induct)
  case (3 n s u q vs)
  show ?case
  proof (cases "u \<in> visited_uris vs")
    case True
    then show ?thesis using "3.IH"(1) [OF True] "3.prems" by auto
  next
    case False
    then obtain b where t: "take_batch n q (vs @ [(u, - s)]) = (b, q', vs')" "batch = (u, - s) # b" using "3.prems" by (auto split: prod.splits)
    show ?thesis using "3.IH"(2) [OF False t(1)] unfolding t(2) by auto
  qed
qed auto

lemma take_batch_distinct: "take_batch n q vs = (batch, q', vs') \<Longrightarrow> distinct (map fst vs) \<Longrightarrow> distinct (map fst vs')"
  by (induction n q vs arbitrary: batch q' vs' rule: take_batch.induct) (auto simp: visited_uris_def split: if_splits prod.splits)

lemma take_batch_empty: "take_batch n q vs = ([], q', vs') \<Longrightarrow> 0 < n \<Longrightarrow> q' = []"
  by (induction n q vs rule: take_batch.induct) (auto split: if_splits prod.splits)

lemma take_batch_visited: "take_batch n q vs = (batch, q', vs') \<Longrightarrow> visited_uris vs \<subseteq> visited_uris vs'"
  using take_batch_log by (fastforce simp: visited_uris_def)

lemma take_batch_covers:
  "take_batch n q vs = (batch, q', vs') \<Longrightarrow> x \<in> set q \<Longrightarrow> x \<in> set q' \<or> snd x \<in> visited_uris vs'"
proof (induction n q vs arbitrary: batch q' vs' rule: take_batch.induct)
  case (3 n s u q vs)
  show ?case
  proof (cases "u \<in> visited_uris vs")
    case True
    then have t: "take_batch (Suc n) q vs = (batch, q', vs')" using "3.prems"(1) by simp
    show ?thesis using "3.IH"(1) [OF True t] take_batch_visited [OF t] True "3.prems"(2) by auto
  next
    case False
    then obtain b where t: "take_batch n q (vs @ [(u, - s)]) = (b, q', vs')" using "3.prems"(1) by (auto split: prod.splits)
    have "u \<in> visited_uris vs'" using take_batch_visited [OF t] by (simp add: visited_uris_def)
    then show ?thesis using "3.IH"(2) [OF False t] "3.prems"(2) by auto
  qed
qed auto

lemmas take_batch_result = take_batch_log take_batch_queue take_batch_from take_batch_distinct

text \<open>Foldings of hits: what they add to the queue, and that the queue keeps what it had.\<close>

lemma take_hit_queue:
  "snd ` set (snd (take_hit hr sp vis cur pq h)) \<subseteq> insert (vr_uri (fst h)) (snd ` set (snd pq))"
  "set (snd pq) \<subseteq> set (snd (take_hit hr sp vis cur pq h))"
  by (auto simp: take_hit_def Let_def set_insort_key split: prod.splits)

lemma foldl_take_hit_queue:
  "snd ` set (snd (foldl (take_hit hr sp vis cur) pq hits)) \<subseteq> snd ` set (snd pq) \<union> (\<lambda>h. vr_uri (fst h)) ` set hits"
  "set (snd pq) \<subseteq> set (snd (foldl (take_hit hr sp vis cur) pq hits))"
proof (induction hits arbitrary: pq)
  case (Cons h hits)
  case 1
  show ?case using Cons(1) [of "take_hit hr sp vis cur pq h"] take_hit_queue(1) [of hr sp vis cur pq h] by (simp del: image_insert) blast
  case 2
  show ?case using Cons(2) [of "take_hit hr sp vis cur pq h"] take_hit_queue(2) [of pq hr sp vis cur h] by simp
qed simp_all

lemma take_result_queue:
  "snd ` set (snd (take_results hr sp vis pq e)) \<subseteq> snd ` set (snd pq) \<union> vr_uri ` set (snd e)"
  "set (snd pq) \<subseteq> set (snd (take_results hr sp vis pq e))"
proof -
  obtain u cur rs where e: "e = ((u, cur), rs)" by (metis surj_pair)
  let ?hits = "zip rs (hit_scores hr (sp_mode sp) (sp_query sp) rs)"
  have "(\<lambda>h. vr_uri (fst h)) ` set ?hits \<subseteq> vr_uri ` set rs" by (auto dest: set_zip_leftD)
  then show "snd ` set (snd (take_results hr sp vis pq e)) \<subseteq> snd ` set (snd pq) \<union> vr_uri ` set (snd e)"
    using foldl_take_hit_queue(1) [of hr sp vis cur pq ?hits] unfolding take_results_def e by simp blast
  show "set (snd pq) \<subseteq> set (snd (take_results hr sp vis pq e))"
    using foldl_take_hit_queue(2) [of pq hr sp vis cur ?hits] unfolding take_results_def e by simp
qed

lemma take_results_queue:
  "snd ` set (snd (foldl (take_results hr sp vis) pq entries)) \<subseteq> snd ` set (snd pq) \<union> (\<Union>e \<in> set entries. vr_uri ` set (snd e))"
  "set (snd pq) \<subseteq> set (snd (foldl (take_results hr sp vis) pq entries))"
proof (induction entries arbitrary: pq)
  case (Cons e entries)
  case 1
  show ?case using Cons(1) [of "take_results hr sp vis pq e"] take_result_queue(1) [of hr sp vis pq e] by (simp del: image_insert) blast
  case 2
  show ?case using Cons(2) [of "take_results hr sp vis pq e"] take_result_queue(2) [of pq hr sp vis e] by simp
qed simp_all

lemma convergence_check_fields [simp]:
  "ss_queue (fst (convergence_check l st)) = ss_queue st" "ss_visited (fst (convergence_check l st)) = ss_visited st"
  "ss_collected (fst (convergence_check l st)) = ss_collected st"
  by (simp_all add: convergence_check_def Let_def)

text \<open>The shape of a round that returns.\<close>

lemma search_round_cases:
  assumes "search_round hr sp children st = Ok (st', stop)"
  obtains batch q where "take_batch MAX_PARALLEL_CHILD_SEARCHES (ss_queue st) (ss_visited st) = (batch, q, ss_visited st @ batch)"
      "batch = []" "ss_queue st' = []" "ss_visited st' = ss_visited st" "ss_collected st' = ss_collected st" "\<not> stop"
  | batch q rss where "take_batch MAX_PARALLEL_CHILD_SEARCHES (ss_queue st) (ss_visited st) = (batch, q, ss_visited st @ batch)"
      "batch \<noteq> []" "length rss = length batch" "list_all2 (\<lambda>(u, s) rs. children u = Ok rs) batch rss" "ss_visited st' = ss_visited st @ batch"
      "(ss_collected st', ss_queue st') = foldl (take_results hr sp (visited_uris (ss_visited st @ batch))) (ss_collected st, q) (zip batch rss)"
proof -
  obtain batch q vs where b: "take_batch MAX_PARALLEL_CHILD_SEARCHES (ss_queue st) (ss_visited st) = (batch, q, vs)" by (metis prod_cases3)
  have vs: "vs = ss_visited st @ batch" using take_batch_log [OF b] by simp
  have e: "q = []" if "batch = []" using b take_batch_empty unfolding that by (simp add: MAX_PARALLEL_CHILD_SEARCHES_def)
  show ?thesis
  proof (cases "batch = []")
    case True
    then show ?thesis using that(1) [of batch q] assms b vs e by (auto simp: search_round_def)
  next
    case False
    obtain rss where r: "res_map (\<lambda>(u, s). children u) batch = Ok rss"
      using assms b False by (auto simp: search_round_def res_bind_Ok_iff)
    obtain pool q' where f: "foldl (take_results hr sp (visited_uris vs)) (ss_collected st, q) (zip batch rss) = (pool, q')" by fastforce
    have c: "convergence_check (sp_limit sp) (st\<lparr>ss_collected := pool, ss_queue := q', ss_visited := vs\<rparr>) = (st', stop)"
      using assms b False r f by (simp add: search_round_def)
    have "list_all2 (\<lambda>(u, s) rs. children u = Ok rs) batch rss" using r by (auto simp: res_map_Ok_iff list_all2_conv_all_nth split_def)
    moreover have "ss_collected st' = pool" "ss_queue st' = q'" "ss_visited st' = vs"
      using convergence_check_fields [of "sp_limit sp" "st\<lparr>ss_collected := pool, ss_queue := q', ss_visited := vs\<rparr>"] by (simp_all add: c)
    ultimately show ?thesis using that(2) [of batch q rss] False b vs f by (simp add: list_all2_lengthD)
  qed
qed

section \<open>Termination\<close>

text \<open>A finite set of URIs that holds the starting points and is closed under the child searches.\<close>

definition closed_universe :: "(string \<Rightarrow> vrec list res) \<Rightarrow> string set \<Rightarrow> bool" where
  "closed_universe children U \<longleftrightarrow> finite U \<and> (\<forall>u \<in> U. \<forall>rs. children u = Ok rs \<longrightarrow> vr_uri ` set rs \<subseteq> U)"

definition state_in :: "string set \<Rightarrow> search_state \<Rightarrow> bool" where
  "state_in U st \<longleftrightarrow> snd ` set (ss_queue st) \<subseteq> U \<and> visited_uris (ss_visited st) \<subseteq> U \<and> distinct (map fst (ss_visited st))"

lemma search_round_progress:
  assumes "closed_universe children U" "state_in U st" "search_round hr sp children st = Ok (st', stop)"
  shows "state_in U st' \<and> (ss_queue st' = [] \<or> card (U - visited_uris (ss_visited st')) < card (U - visited_uris (ss_visited st)))"
  using assms(3)
proof (cases rule: search_round_cases)
  case 1
  then show ?thesis using assms(2) by (simp add: state_in_def)
next
  case (2 batch q rss)
  note tb = take_batch_result [OF 2(1)]
  have bU: "fst ` set batch \<subseteq> U" using tb(3) assms(2) unfolding state_in_def by blast
  have d: "distinct (map fst (ss_visited st @ batch))" using tb(4) assms(2) unfolding state_in_def by blast
  have rU: "vr_uri ` set rs \<subseteq> U" if "((u, s), rs) \<in> set (zip batch rss)" for u s rs
  proof -
    have "children u = Ok rs" using that 2(4) by (fastforce simp: list_all2_iff)
    moreover have "u \<in> U" using bU set_zip_leftD [OF that] by force
    ultimately show ?thesis using assms(1) unfolding closed_universe_def by blast
  qed
  have "snd ` set (ss_queue st') \<subseteq> snd ` set q \<union> (\<Union>e \<in> set (zip batch rss). vr_uri ` set (snd e))"
    using take_results_queue(1) [of hr sp "visited_uris (ss_visited st @ batch)" "(ss_collected st, q)" "zip batch rss"]
    unfolding 2(6) [symmetric] by simp
  also have "\<dots> \<subseteq> U"
  proof -
    have "snd ` set q \<subseteq> U" using tb(2) assms(2) unfolding state_in_def by blast
    moreover have "vr_uri ` set (snd e) \<subseteq> U" if "e \<in> set (zip batch rss)" for e using rU that by (metis surj_pair snd_conv)
    ultimately show ?thesis by blast
  qed
  finally have q: "snd ` set (ss_queue st') \<subseteq> U" .
  obtain u s where u: "(u, s) \<in> set batch" using 2(2) by (cases batch) auto
  then have "u \<in> U - visited_uris (ss_visited st)" "u \<in> visited_uris (ss_visited st')" "u \<in> U"
    using d bU 2(5) by (force simp: visited_uris_def)+
  moreover have "visited_uris (ss_visited st) \<subseteq> visited_uris (ss_visited st')" using 2(5) by (auto simp: visited_uris_def)
  ultimately have "U - visited_uris (ss_visited st') \<subset> U - visited_uris (ss_visited st)" by blast
  moreover have "finite (U - visited_uris (ss_visited st))" using assms(1) by (simp add: closed_universe_def)
  ultimately have "card (U - visited_uris (ss_visited st')) < card (U - visited_uris (ss_visited st))" by (rule psubset_card_mono [rotated])
  moreover have "visited_uris (ss_visited st') \<subseteq> U" using bU assms(2) 2(5) by (auto simp: visited_uris_def state_in_def)
  ultimately show ?thesis using q d 2(5) by (simp add: state_in_def)
qed

lemma search_loop_terminates:
  assumes "closed_universe children U" "state_in U st" "card (U - visited_uris (ss_visited st)) < fuel"
  shows "\<exists>r. search_loop fuel hr sp children st = Some r \<and> (\<forall>st' b. r = Ok (st', b) \<longrightarrow> state_in U st')"
  using assms(2,3)
proof (induction fuel arbitrary: st)
  case (Suc n)
  show ?case
  proof (cases "ss_queue st = []")
    case False
    show ?thesis
    proof (cases "search_round hr sp children st")
      case (Inl e)
      then show ?thesis using False by (simp add: search_loop_simps)
    next
      case (Inr x)
      obtain st' stop where x: "x = (st', stop)" by (cases x)
      note p = search_round_progress [OF assms(1) Suc.prems(1) Inr [unfolded x]]
      show ?thesis
      proof (cases "stop \<or> ss_queue st' = []")
        case True
        then show ?thesis using False Inr x p by (cases n) (auto simp: search_loop_simps)
      next
        case goon: False
        then have "card (U - visited_uris (ss_visited st')) < n" using p Suc.prems(2) by simp
        then show ?thesis using Suc.IH [of st'] p False Inr x goon by (simp add: search_loop_simps)
      qed
    qed
  qed (use Suc.prems in \<open>simp add: search_loop_simps\<close>)
qed simp


section \<open>What the search finds\<close>

text \<open>The candidates a directory entered with a score offers: its hits with their propagated scores, those that
  pass the threshold.\<close>

definition hit_candidates :: "retriever \<Rightarrow> search_params \<Rightarrow> rat \<Rightarrow> vrec list \<Rightarrow> scored set" where
  "hit_candidates hr sp cur rs =
     {(r, f). \<exists>s. (r, s) \<in> set (zip rs (hit_scores hr (sp_mode sp) (sp_query sp) rs)) \<and>
        f = propagated_score (hr_score_propagation_alpha hr) cur s \<and> passes_threshold f (sp_threshold sp) (sp_score_gte sp)}"

definition offers :: "retriever \<Rightarrow> search_params \<Rightarrow> (string \<Rightarrow> vrec list res) \<Rightarrow> string \<times> rat \<Rightarrow> scored set" where
  "offers hr sp children e = (case children (fst e) of Inl _ \<Rightarrow> {} | Inr rs \<Rightarrow> hit_candidates hr sp (snd e) rs)"

definition is_initial :: "search_params \<Rightarrow> vrec list \<Rightarrow> scored \<Rightarrow> bool" where
  "is_initial sp initial c \<longleftrightarrow> fst c \<in> set initial \<and> snd c = finite_score (vr_score (fst c)) 0 \<and>
     passes_threshold (snd c) (sp_threshold sp) (sp_score_gte sp)"

text \<open>Every pool entry stands under its own URI, has a requested level and satisfies \<open>Q\<close>.\<close>

definition pool_all :: "search_params \<Rightarrow> (scored \<Rightarrow> bool) \<Rightarrow> pool \<Rightarrow> bool" where
  "pool_all sp Q pool \<longleftrightarrow> distinct (map fst pool) \<and>
     (\<forall>x \<in> set pool. fst x = vr_uri (fst (snd x)) \<and> level_matches (sp_level sp) (fst (snd x)) \<and> Q (snd x))"

lemma pool_all_mono: "pool_all sp Q pool \<Longrightarrow> (\<And>c. Q c \<Longrightarrow> Q' c) \<Longrightarrow> pool_all sp Q' pool"
  by (auto simp: pool_all_def)

lemma pool_all_set:
  assumes "pool_all sp Q pool" "level_matches (sp_level sp) (fst c)" "Q c"
  shows "pool_all sp Q (dict_set pool (vr_uri (fst c)) c)"
  using assms set_dict_set [of pool "vr_uri (fst c)" c] by (fastforce simp: pool_all_def dict_set_distinct)

lemma pool_all_keep_best:
  assumes "pool_all sp Q pool" "level_matches (sp_level sp) (fst c)" "Q c"
  shows "pool_all sp Q (keep_best_step (\<lambda>c. vr_uri (fst c)) snd pool c)"
proof (cases "map_of pool (vr_uri (fst c))")
  case None
  then have "vr_uri (fst c) \<notin> fst ` set pool" by (simp add: map_of_eq_None_iff)
  then show ?thesis using assms None by (auto simp: keep_best_step_def pool_all_def)
qed (use assms pool_all_set in \<open>auto simp: keep_best_step_def\<close>)

lemma take_hit_all:
  assumes "pool_all sp Q (fst pq)"
    and "passes_threshold (propagated_score (hr_score_propagation_alpha hr) cur (snd h)) (sp_threshold sp) (sp_score_gte sp) \<Longrightarrow>
         Q (fst h, propagated_score (hr_score_propagation_alpha hr) cur (snd h))"
  shows "pool_all sp Q (fst (take_hit hr sp vis cur pq h))"
  using assms pool_all_keep_best [OF assms(1), of "(fst h, propagated_score (hr_score_propagation_alpha hr) cur (snd h))"]
  by (auto simp: take_hit_def Let_def split: prod.splits)

lemma take_hits_all:
  assumes "pool_all sp Q (fst pq)" "\<And>h. h \<in> set hits \<Longrightarrow>
      passes_threshold (propagated_score (hr_score_propagation_alpha hr) cur (snd h)) (sp_threshold sp) (sp_score_gte sp) \<Longrightarrow>
      Q (fst h, propagated_score (hr_score_propagation_alpha hr) cur (snd h))"
  shows "pool_all sp Q (fst (foldl (take_hit hr sp vis cur) pq hits))"
  using assms
proof (induction hits arbitrary: pq)
  case (Cons h hits)
  have "pool_all sp Q (fst (take_hit hr sp vis cur pq h))" using Cons.prems by (intro take_hit_all) simp_all
  then show ?case using Cons.IH [of "take_hit hr sp vis cur pq h"] Cons.prems(2) by simp
qed simp

lemma take_results_all:
  assumes "pool_all sp Q (fst pq)" "\<And>e c. e \<in> set entries \<Longrightarrow> c \<in> hit_candidates hr sp (snd (fst e)) (snd e) \<Longrightarrow> Q c"
  shows "pool_all sp Q (fst (foldl (take_results hr sp vis) pq entries))"
  using assms
proof (induction entries arbitrary: pq)
  case (Cons e entries)
  obtain u cur rs where e: "e = ((u, cur), rs)" by (metis surj_pair)
  have "pool_all sp Q (fst (take_results hr sp vis pq e))"
    using Cons.prems(1) Cons.prems(2) [of e] unfolding e take_results_def prod.case
    by (intro take_hits_all) (auto simp: hit_candidates_def, blast)
  then show ?case unfolding foldl.simps by (rule Cons.IH) (rule Cons.prems(2), simp_all)
qed simp

text \<open>Pools only improve, and queues only grow, while hits are taken.\<close>

definition pq_le :: "pool \<times> dir_queue \<Rightarrow> pool \<times> dir_queue \<Rightarrow> bool" where
  "pq_le pq pq' \<longleftrightarrow> (\<forall>k c. map_of (fst pq) k = Some c \<longrightarrow> (\<exists>c'. map_of (fst pq') k = Some c' \<and> snd c \<le> snd c')) \<and>
     set (snd pq) \<subseteq> set (snd pq')"

definition covered :: "search_params \<Rightarrow> string set \<Rightarrow> pool \<times> dir_queue \<Rightarrow> scored \<Rightarrow> bool" where
  "covered sp vis pq c \<longleftrightarrow>
     (level_matches (sp_level sp) (fst c) \<longrightarrow> (\<exists>y. map_of (fst pq) (vr_uri (fst c)) = Some y \<and> snd c \<le> snd y)) \<and>
     (rec_level (fst c) \<noteq> 2 \<longrightarrow> vr_uri (fst c) \<in> vis \<union> snd ` set (snd pq))"

lemma pq_le_refl [simp]: "pq_le pq pq" by (auto simp: pq_le_def)

lemma pq_le_trans: "pq_le a b \<Longrightarrow> pq_le b c \<Longrightarrow> pq_le a c"
  unfolding pq_le_def by (meson order_trans subset_trans)

lemma covered_mono: "covered sp vis pq c \<Longrightarrow> pq_le pq pq' \<Longrightarrow> covered sp vis pq' c"
  unfolding covered_def pq_le_def by (meson Un_iff image_mono order_trans subsetD)

lemma keep_best_step_lookup:
  "\<exists>y. map_of (keep_best_step key score best x) (key x) = Some y \<and> score x \<le> score y"
  "map_of best k = Some c \<Longrightarrow> \<exists>c'. map_of (keep_best_step key score best x) k = Some c' \<and> score c \<le> score c'"
  by (auto simp: keep_best_step_def map_of_dict_set map_add_def not_less split: option.splits)

lemma take_hit_le: "pq_le pq (take_hit hr sp vis cur pq h)"
  using keep_best_step_lookup(2) [where score = snd and key = "\<lambda>c. vr_uri (fst c)"]
  by (fastforce simp: take_hit_def pq_le_def Let_def set_insort_key split: prod.splits)

lemma take_hit_covers:
  assumes "passes_threshold (propagated_score (hr_score_propagation_alpha hr) cur (snd h)) (sp_threshold sp) (sp_score_gte sp)"
  shows "covered sp vis (take_hit hr sp vis cur pq h) (fst h, propagated_score (hr_score_propagation_alpha hr) cur (snd h))"
proof -
  let ?c = "(fst h, propagated_score (hr_score_propagation_alpha hr) cur (snd h))"
  have "\<exists>y. map_of (keep_best_step (\<lambda>c. vr_uri (fst c)) snd (fst pq) ?c) (vr_uri (fst h)) = Some y \<and> snd ?c \<le> snd y"
    using keep_best_step_lookup(1) [of "\<lambda>c. vr_uri (fst c)" snd "fst pq" ?c] by simp
  then show ?thesis using assms
    by (auto simp: covered_def take_hit_def Let_def set_insort_key image_iff split: prod.splits)
qed

lemma foldl_le: "(\<And>pq x. pq_le pq (f pq x)) \<Longrightarrow> pq_le pq (foldl f pq xs)"
proof (induction xs arbitrary: pq)
  case (Cons x xs)
  show ?case unfolding foldl.simps by (rule pq_le_trans [OF Cons.prems Cons.IH]) (rule Cons.prems)
qed simp

lemma take_hits_le: "pq_le pq (foldl (take_hit hr sp vis cur) pq hits)"
  by (rule foldl_le) (rule take_hit_le)

lemma take_hits_cover:
  assumes "h \<in> set hits" "passes_threshold (propagated_score (hr_score_propagation_alpha hr) cur (snd h)) (sp_threshold sp) (sp_score_gte sp)"
  shows "covered sp vis (foldl (take_hit hr sp vis cur) pq hits) (fst h, propagated_score (hr_score_propagation_alpha hr) cur (snd h))"
  using assms(1)
proof (induction hits arbitrary: pq)
  case (Cons g hits)
  show ?case
  proof (cases "g = h")
    case True
    then show ?thesis using covered_mono [OF take_hit_covers [OF assms(2)] take_hits_le] by simp
  qed (use Cons in simp)
qed simp

lemma take_results_le: "pq_le pq (take_results hr sp vis pq e)"
  by (cases e) (auto simp: take_results_def take_hits_le split: prod.splits)

lemma take_all_results_le: "pq_le pq (foldl (take_results hr sp vis) pq entries)"
  by (rule foldl_le) (rule take_results_le)

lemma take_results_cover:
  assumes "c \<in> hit_candidates hr sp (snd (fst e)) (snd e)"
  shows "covered sp vis (take_results hr sp vis pq e) c"
proof -
  obtain u cur rs where e: "e = ((u, cur), rs)" by (metis surj_pair)
  from assms obtain r s where h: "(r, s) \<in> set (zip rs (hit_scores hr (sp_mode sp) (sp_query sp) rs))"
      "c = (r, propagated_score (hr_score_propagation_alpha hr) cur s)"
      "passes_threshold (snd c) (sp_threshold sp) (sp_score_gte sp)"
    by (auto simp: hit_candidates_def e)
  show ?thesis using take_hits_cover [OF h(1), of hr cur sp vis pq] h by (simp add: e take_results_def)
qed

lemma take_all_results_cover:
  assumes "e \<in> set entries" "c \<in> hit_candidates hr sp (snd (fst e)) (snd e)"
  shows "covered sp vis (foldl (take_results hr sp vis) pq entries) c"
  using assms(1)
proof (induction entries arbitrary: pq)
  case (Cons g entries)
  show ?case
  proof (cases "g = e")
    case True
    then show ?thesis using covered_mono [OF take_results_cover [OF assms(2)] take_all_results_le] by simp
  qed (use Cons in simp)
qed simp


section \<open>The loop invariant\<close>

definition found :: "retriever \<Rightarrow> search_params \<Rightarrow> (string \<Rightarrow> vrec list res) \<Rightarrow> vrec list \<Rightarrow> (string \<times> rat) list \<Rightarrow> scored \<Rightarrow> bool" where
  "found hr sp children initial visited c \<longleftrightarrow> is_initial sp initial c \<or> (\<exists>e \<in> set visited. c \<in> offers hr sp children e)"

definition search_inv :: "retriever \<Rightarrow> search_params \<Rightarrow> (string \<Rightarrow> vrec list res) \<Rightarrow> vrec list \<Rightarrow> string set \<Rightarrow> search_state \<Rightarrow> bool" where
  "search_inv hr sp children initial starts st \<longleftrightarrow>
     pool_all sp (found hr sp children initial (ss_visited st)) (ss_collected st) \<and>
     starts \<subseteq> visited_uris (ss_visited st) \<union> snd ` set (ss_queue st) \<and>
     (\<forall>e \<in> set (ss_visited st). \<forall>c \<in> offers hr sp children e. covered sp (visited_uris (ss_visited st)) (ss_collected st, ss_queue st) c)"

lemma offers_pass: "c \<in> offers hr sp children e \<Longrightarrow> passes_threshold (snd c) (sp_threshold sp) (sp_score_gte sp)"
  by (cases "children (fst e)") (auto simp: offers_def hit_candidates_def)

lemma found_mono: "found hr sp children initial vs c \<Longrightarrow> found hr sp children initial (vs @ ws) c"
  by (auto simp: found_def)

lemma queue_moves:
  assumes "take_batch n q vs = (batch, q', vs')" "u \<in> visited_uris vs \<union> snd ` set q"
  shows "u \<in> visited_uris vs' \<union> snd ` set q'"
  using assms(2) take_batch_visited [OF assms(1)] take_batch_covers [OF assms(1)] by blast

lemma covered_batch:
  assumes "take_batch n q vs = (batch, q', vs')" "covered sp (visited_uris vs) (pool, q) c"
  shows "covered sp (visited_uris vs') (pool, q') c"
  using assms(2) queue_moves [OF assms(1)] by (simp add: covered_def)

lemma search_round_inv:
  assumes inv: "search_inv hr sp children initial starts st" and r: "search_round hr sp children st = Ok (st', stop)"
  shows "search_inv hr sp children initial starts st'"
  using r
proof (cases rule: search_round_cases)
  case (1 batch q)
  note b = 1(1) [unfolded 1(2), simplified]
  have q: "q = []" using b take_batch_empty [of _ "ss_queue st"] by (simp add: MAX_PARALLEL_CHILD_SEARCHES_def)
  have "u \<in> visited_uris (ss_visited st)" if "u \<in> visited_uris (ss_visited st) \<union> snd ` set (ss_queue st)" for u
    using queue_moves [OF b that] by (simp add: q)
  then have "starts \<subseteq> visited_uris (ss_visited st)" using inv unfolding search_inv_def by blast
  moreover have "covered sp (visited_uris (ss_visited st)) (ss_collected st, []) c" if "e \<in> set (ss_visited st)" "c \<in> offers hr sp children e" for e c
    using inv covered_batch [OF b] that unfolding search_inv_def q by blast
  ultimately show ?thesis using inv 1 unfolding search_inv_def by simp
next
  case (2 batch q rss)
  let ?vs = "ss_visited st @ batch"
  let ?vis = "visited_uris ?vs"
  let ?entries = "zip batch rss"
  let ?pq = "foldl (take_results hr sp ?vis) (ss_collected st, q) ?entries"
  have pq: "fst ?pq = ss_collected st'" "snd ?pq = ss_queue st'" using 2(6) by (metis fst_conv, metis snd_conv)
  have child: "children (fst (fst e)) = Ok (snd e)" if "e \<in> set ?entries" for e
    using that 2(4) by (auto simp: list_all2_iff)
  have cand: "hit_candidates hr sp (snd (fst e)) (snd e) = offers hr sp children (fst e)" if "e \<in> set ?entries" for e
    using child [OF that] by (simp add: offers_def)
  have "pool_all sp (found hr sp children initial ?vs) (fst ?pq)"
  proof (rule take_results_all)
    show "pool_all sp (found hr sp children initial ?vs) (fst (ss_collected st, q))"
      using inv found_mono unfolding search_inv_def fst_conv by (blast intro: pool_all_mono)
    show "found hr sp children initial ?vs c" if "e \<in> set ?entries" "c \<in> hit_candidates hr sp (snd (fst e)) (snd e)" for e c
    proof -
      have "fst e \<in> set batch" using that(1) by (metis prod.collapse set_zip_leftD)
      then show ?thesis using that cand unfolding found_def by auto
    qed
  qed
  moreover have "starts \<subseteq> ?vis \<union> snd ` set (ss_queue st')"
    using inv queue_moves [OF 2(1)] take_results_queue(2) [of "(ss_collected st, q)" hr sp ?vis ?entries]
    unfolding search_inv_def pq snd_conv by (meson Un_mono image_mono order_refl subset_iff)
  moreover have "covered sp ?vis ?pq c" if e: "e \<in> set ?vs" and c: "c \<in> offers hr sp children e" for e c
  proof (cases "e \<in> set (ss_visited st)")
    case True
    then have "covered sp ?vis (ss_collected st, q) c" using inv c covered_batch [OF 2(1)] unfolding search_inv_def by blast
    then show ?thesis using covered_mono take_all_results_le by blast
  next
    case False
    then have "e \<in> set batch" using e by simp
    then obtain i where "i < length batch" "batch ! i = e" by (meson in_set_conv_nth)
    then have m: "(e, rss ! i) \<in> set ?entries" using 2(3) by (auto simp: set_zip)
    have "c \<in> hit_candidates hr sp (snd (fst (e, rss ! i))) (snd (e, rss ! i))" using cand [OF m] c by simp
    then show ?thesis by (rule take_all_results_cover [OF m])
  qed
  ultimately show ?thesis using 2(5,6) unfolding search_inv_def pq by (metis prod.collapse pq)
qed

lemma search_loop_inv:
  assumes "search_inv hr sp children initial starts st" "search_loop fuel hr sp children st = Some (Ok (st', stopped))"
  shows "search_inv hr sp children initial starts st' \<and> (stopped \<or> ss_queue st' = [])"
  using assms
proof (induction fuel arbitrary: st)
  case 0
  then show ?case by (cases "ss_queue st = []") (auto simp: search_loop_simps)
next
  case (Suc n)
  show ?case
  proof (cases "ss_queue st = []")
    case False
    then obtain st1 stop where r: "search_round hr sp children st = Ok (st1, stop)"
        and "if stop then st' = st1 \<and> stopped else search_loop n hr sp children st1 = Some (Ok (st', stopped))"
      using Suc.prems(2) by (auto simp: search_loop_simps split: sum.splits if_splits)
    then show ?thesis using search_round_inv [OF Suc.prems(1) r] Suc.IH [of st1] by (auto split: if_splits)
  qed (use Suc.prems in \<open>auto simp: search_loop_simps\<close>)
qed

lemma start_queue: "snd ` set (foldl (\<lambda>q (uri, score). insort (- score, uri) q) q0 sps) = snd ` set q0 \<union> fst ` set sps"
  by (induction sps arbitrary: q0) (auto simp: set_insort_key image_iff)

lemma start_pool:
  assumes "set xs \<subseteq> set initial" "pool_all sp (is_initial sp initial) pool"
  shows "pool_all sp (is_initial sp initial) (foldl (add_initial sp) pool xs)"
  using assms
proof (induction xs arbitrary: pool)
  case (Cons r xs)
  have "is_initial sp initial (r, finite_score (vr_score r) 0)" if "passes_threshold (finite_score (vr_score r) 0) (sp_threshold sp) (sp_score_gte sp)"
    using that Cons.prems(1) by (simp add: is_initial_def)
  then have "pool_all sp (is_initial sp initial) (add_initial sp pool r)"
    using Cons.prems(2) pool_all_set [of sp "is_initial sp initial" pool "(r, finite_score (vr_score r) 0)"]
    by (auto simp: add_initial_def Let_def)
  then show ?case using Cons.IH Cons.prems(1) by simp
qed simp

lemma search_start_inv: "search_inv hr sp children initial (fst ` set sps) (search_start sp sps initial)"
proof -
  have "pool_all sp (is_initial sp initial) (foldl (add_initial sp) [] initial)"
    by (rule start_pool) (simp_all add: pool_all_def)
  then show ?thesis using start_queue [of "[]" sps]
    by (auto simp: search_inv_def search_start_def found_def intro: pool_all_mono)
qed

lemma search_start_in: "fst ` set sps \<subseteq> U \<Longrightarrow> state_in U (search_start sp sps initial)"
  using start_queue [of "[]" sps] by (simp add: state_in_def search_start_def visited_uris_def)


section \<open>The search as a whole\<close>

lemma search_round_total:
  assumes "closed_universe children U" "state_in U st" "\<And>u. u \<in> U \<Longrightarrow> \<exists>rs. children u = Ok rs"
  shows "\<exists>x. search_round hr sp children st = Ok x"
proof -
  obtain batch q vs where b: "take_batch MAX_PARALLEL_CHILD_SEARCHES (ss_queue st) (ss_visited st) = (batch, q, vs)" by (metis prod_cases3)
  have "fst ` set batch \<subseteq> U" using take_batch_from [OF b] assms(2) unfolding state_in_def by blast
  then have "\<exists>rs. (case e of (u, s) \<Rightarrow> children u) = Ok rs" if "e \<in> set batch" for e using assms(3) that by (cases e) auto
  then obtain rss where "res_map (\<lambda>(u, s). children u) batch = Ok rss" using res_map_all_Ok by metis
  then show ?thesis using b by (auto simp: search_round_def split: prod.splits)
qed

lemma search_loop_total:
  assumes "closed_universe children U" "state_in U st" "\<And>u. u \<in> U \<Longrightarrow> \<exists>rs. children u = Ok rs"
    "search_loop fuel hr sp children st = Some r"
  shows "\<exists>st' b. r = Ok (st', b)"
  using assms(2,4)
proof (induction fuel arbitrary: st)
  case 0
  then show ?case by (cases "ss_queue st = []") (auto simp: search_loop_simps)
next
  case (Suc n)
  show ?case
  proof (cases "ss_queue st = []")
    case False
    obtain st1 stop where r1: "search_round hr sp children st = Ok (st1, stop)"
      using search_round_total [OF assms(1) Suc.prems(1) assms(3)] by (metis surj_pair)
    have "state_in U st1" using search_round_progress [OF assms(1) Suc.prems(1) r1] by blast
    moreover have "if stop then r = Ok (st1, True) else search_loop n hr sp children st1 = Some r"
      using Suc.prems(2) False r1 by (auto simp: search_loop_simps)
    ultimately show ?thesis using Suc.IH [of st1] by (cases stop) auto
  qed (use Suc.prems in \<open>auto simp: search_loop_simps\<close>)
qed

text \<open>
  C23. The recursive search terminates on a finite index. When the URIs that the child searches can return lie in a
  finite set that holds the entry points, as many rounds as it has members (and one more) are enough: the search
  returns a list of candidates, it has entered only members of the set, and no directory twice.
\<close>

theorem recursive_search_terminates:
  assumes U: "closed_universe children U" "fst ` set starting_points \<subseteq> U" and ok: "\<And>u. u \<in> U \<Longrightarrow> \<exists>rs. children u = Ok rs"
    and fuel: "card U < fuel"
  shows "\<exists>st stopped. search_loop fuel hr sp children (search_start sp starting_points initial) = Some (Ok (st, stopped)) \<and>
           visited_uris (ss_visited st) \<subseteq> U \<and> distinct (map fst (ss_visited st)) \<and>
           recursive_search fuel hr sp children starting_points initial = Some (Ok (take (sp_limit sp) (ranked (ss_collected st))))"
proof -
  let ?st = "search_start sp starting_points initial"
  have st: "state_in U ?st" using U(2) by (rule search_start_in)
  have "U - visited_uris (ss_visited ?st) = U" by (simp add: search_start_def visited_uris_def)
  then obtain r where r: "search_loop fuel hr sp children ?st = Some r" and i: "\<And>st' b. r = Ok (st', b) \<Longrightarrow> state_in U st'"
    using search_loop_terminates [OF U(1) st, of fuel hr sp] fuel by auto
  obtain st' b where b: "r = Ok (st', b)" using search_loop_total [OF U(1) st ok r] by blast
  show ?thesis using r i [OF b] b unfolding state_in_def recursive_search_def by auto
qed

text \<open>A small index: a root with one directory, which holds one file.\<close>

definition sample_rec :: "string \<Rightarrow> int \<Rightarrow> rat \<Rightarrow> vrec" where
  "sample_rec uri level score = \<lparr>vr_uri = uri, vr_score = Some (Finite score), vr_level = Some level, vr_abstract = [],
     vr_context_type = None, vr_category = [], vr_search_tags = None, vr_active_count = 0, vr_updated_at = UpdatedOther\<rparr>"

definition sample_retriever :: retriever where
  "sample_retriever = \<lparr>hr_rerank = None, hr_rerank_max_input_tokens = 0, hr_threshold = None, hr_hotness_alpha = 0,
     hr_score_propagation_alpha = 1 / 2, hr_embedder = None\<rparr>"

definition search_sample :: "int list option \<Rightarrow> search_params" where
  "search_sample level = \<lparr>sp_query = [], sp_mode = THINKING, sp_limit = 5, sp_threshold = 0, sp_score_gte = False, sp_level = level\<rparr>"

definition sample_children :: "string \<Rightarrow> vrec list res" where
  "sample_children uri =
     (if uri = ''root'' then Ok [sample_rec ''a'' 0 (1 / 2), sample_rec ''a'' 1 (3 / 4)]
      else if uri = ''a'' then Ok [sample_rec ''f'' 2 1] else Ok [])"

lemma sample_universe: "closed_universe sample_children {''root'', ''a'', ''f''}"
  by (auto simp: closed_universe_def sample_children_def sample_rec_def)

theorem recursive_search_terminates_witness:
  "\<exists>st stopped. search_loop 4 sample_retriever (search_sample None) sample_children (search_start (search_sample None) [(''root'', 0)] []) = Some (Ok (st, stopped)) \<and>
     visited_uris (ss_visited st) \<subseteq> {''root'', ''a'', ''f''} \<and> distinct (map fst (ss_visited st)) \<and>
     recursive_search 4 sample_retriever (search_sample None) sample_children [(''root'', 0)] [] =
       Some (Ok (take (sp_limit (search_sample None)) (ranked (ss_collected st))))"
proof -
  have "\<exists>rs. sample_children u = Ok rs" for u by (simp add: sample_children_def)
  then show ?thesis using recursive_search_terminates [OF sample_universe, of "[(''root'', 0)]" 4 sample_retriever "search_sample None" "[]"] by simp
qed

lemma set_ranked [simp]: "set (ranked pool) = snd ` set pool"
  by (simp add: ranked_def)

lemma ranked_sound:
  assumes "pool_all sp Q pool"
  shows "distinct (map (\<lambda>c. vr_uri (fst c)) (ranked pool))" "sorted_wrt (\<ge>) (map snd (ranked pool))"
proof -
  have "map (\<lambda>c. vr_uri (fst c)) (map snd pool) = map fst pool" using assms by (auto simp: pool_all_def)
  then have "distinct (map (\<lambda>c. vr_uri (fst c)) (map snd pool))" using assms unfolding pool_all_def by metis
  moreover have "mset (map (\<lambda>c. vr_uri (fst c)) (ranked pool)) = mset (map (\<lambda>c. vr_uri (fst c)) (map snd pool))"
    unfolding ranked_def mset_map [of "\<lambda>c. vr_uri (fst c)"] mset_sort ..
  ultimately show "distinct (map (\<lambda>c. vr_uri (fst c)) (ranked pool))" by (metis mset_eq_imp_distinct_iff)
  have "sorted (map (\<lambda>c. - snd c) (ranked pool))" by (simp add: ranked_def)
  then show "sorted_wrt (\<ge>) (map snd (ranked pool))" by (simp add: sorted_wrt_map)
qed

lemma recursive_search_facts:
  assumes "recursive_search fuel hr sp children starting_points initial = Some (Ok cs)"
  shows "length cs \<le> sp_limit sp \<and> distinct (map (\<lambda>c. vr_uri (fst c)) cs) \<and> sorted_wrt (\<ge>) (map snd cs) \<and>
         (\<exists>st stopped. search_loop fuel hr sp children (search_start sp starting_points initial) = Some (Ok (st, stopped)) \<and>
            (\<forall>c \<in> set cs. level_matches (sp_level sp) (fst c) \<and> passes_threshold (snd c) (sp_threshold sp) (sp_score_gte sp) \<and>
               found hr sp children initial (ss_visited st) c))"
proof -
  obtain st stopped where l: "search_loop fuel hr sp children (search_start sp starting_points initial) = Some (Ok (st, stopped))"
      and cs: "cs = take (sp_limit sp) (ranked (ss_collected st))"
    using assms by (auto simp: recursive_search_def res_bind_Ok_iff)
  have p: "pool_all sp (found hr sp children initial (ss_visited st)) (ss_collected st)"
    using search_loop_inv [OF search_start_inv l] unfolding search_inv_def by blast
  have "level_matches (sp_level sp) (fst c) \<and> found hr sp children initial (ss_visited st) c" if "c \<in> set cs" for c
  proof -
    have "c \<in> snd ` set (ss_collected st)" using that in_set_takeD unfolding cs set_ranked [symmetric] by metis
    then show ?thesis using p unfolding pool_all_def by blast
  qed
  moreover have "passes_threshold (snd c) (sp_threshold sp) (sp_score_gte sp)" if "found hr sp children initial vs c" for vs c
    using that offers_pass unfolding found_def is_initial_def by blast
  ultimately have "\<forall>c \<in> set cs. level_matches (sp_level sp) (fst c) \<and> passes_threshold (snd c) (sp_threshold sp) (sp_score_gte sp) \<and>
      found hr sp children initial (ss_visited st) c" by blast
  moreover have "distinct (map (\<lambda>c. vr_uri (fst c)) cs)" "sorted_wrt (\<ge>) (map snd cs)" "length cs \<le> sp_limit sp"
    using ranked_sound [OF p] unfolding cs take_map [symmetric] by (simp_all add: distinct_take sorted_wrt_take)
  ultimately show ?thesis using l by blast
qed

text \<open>
  C21. What the search returns. At most \<open>limit\<close> candidates, of distinct URIs, best first; every one of a requested
  level, with a score that passes the threshold, and it is one of the initial candidates or a hit of a directory the
  search entered, with the score propagated from that directory.
\<close>

theorem recursive_search_sound:
  assumes "recursive_search fuel hr sp children starting_points initial = Some (Ok cs)"
  shows "length cs \<le> sp_limit sp \<and> distinct (map (\<lambda>c. vr_uri (fst c)) cs) \<and> sorted_wrt (\<ge>) (map snd cs) \<and>
         (\<exists>st stopped. search_loop fuel hr sp children (search_start sp starting_points initial) = Some (Ok (st, stopped)) \<and>
            (\<forall>c \<in> set cs. level_matches (sp_level sp) (fst c) \<and> passes_threshold (snd c) (sp_threshold sp) (sp_score_gte sp) \<and>
               found hr sp children initial (ss_visited st) c))"
  using assms by (rule recursive_search_facts)

theorem recursive_search_sound_witness:
  "\<exists>cs. recursive_search 4 sample_retriever (search_sample None) sample_children [(''root'', 0)] [] = Some (Ok cs) \<and>
     map (\<lambda>c. (vr_uri (fst c), snd c)) cs = [(''f'', 7 / 8), (''a'', 3 / 4)] \<and>
     length cs \<le> 5 \<and> distinct (map (\<lambda>c. vr_uri (fst c)) cs) \<and> sorted_wrt (\<ge>) (map snd cs)"
proof -
  let ?cs = "[(sample_rec ''f'' 2 1, 7 / 8), (sample_rec ''a'' 1 (3 / 4), 3 / 4)]"
  have r: "recursive_search 4 sample_retriever (search_sample None) sample_children [(''root'', 0)] [] = Some (Ok ?cs)" by code_simp
  show ?thesis using recursive_search_sound [OF r] r
    by (intro exI [of _ ?cs]) (simp add: search_sample_def, simp add: sample_rec_def)
qed

text \<open>
  C22. Completeness of a search that runs to the end. When the loop ends because no directory is left (and not by the
  convergence rule), every entry point was entered; every hit of an entered directory that passes the threshold and
  has a requested level is in the pool, with a score at least its own; and every such hit that is a directory was
  entered in its turn.
\<close>

theorem recursive_search_complete:
  assumes "search_loop fuel hr sp children (search_start sp starting_points initial) = Some (Ok (st, False))"
  shows "fst ` set starting_points \<subseteq> visited_uris (ss_visited st) \<and>
         (\<forall>e \<in> set (ss_visited st). \<forall>c \<in> offers hr sp children e.
            (level_matches (sp_level sp) (fst c) \<longrightarrow>
               (\<exists>y \<in> set (ranked (ss_collected st)). vr_uri (fst y) = vr_uri (fst c) \<and> snd c \<le> snd y)) \<and>
            (rec_level (fst c) \<noteq> 2 \<longrightarrow> vr_uri (fst c) \<in> visited_uris (ss_visited st)))"
proof -
  have i: "search_inv hr sp children initial (fst ` set starting_points) st" and q: "ss_queue st = []"
    using search_loop_inv [OF search_start_inv assms] by simp_all
  have "\<exists>y \<in> set (ranked (ss_collected st)). vr_uri (fst y) = k \<and> s \<le> snd y"
    if "\<exists>y. map_of (ss_collected st) k = Some y \<and> s \<le> snd y" for k s
  proof -
    from that obtain y where y: "map_of (ss_collected st) k = Some y" "s \<le> snd y" by blast
    have "(k, y) \<in> set (ss_collected st)" using y(1) by (rule map_of_SomeD)
    moreover have "\<forall>x \<in> set (ss_collected st). fst x = vr_uri (fst (snd x))" using i unfolding search_inv_def pool_all_def by blast
    ultimately have "vr_uri (fst y) = k" "y \<in> snd ` set (ss_collected st)" by (metis fst_conv snd_conv, metis image_eqI snd_conv)
    then have "vr_uri (fst y) = k" "y \<in> set (ranked (ss_collected st))" unfolding set_ranked .
    then show ?thesis using y(2) by blast
  qed
  moreover have "\<forall>e \<in> set (ss_visited st). \<forall>c \<in> offers hr sp children e. covered sp (visited_uris (ss_visited st)) (ss_collected st, []) c"
    using i unfolding search_inv_def q by blast
  moreover have "fst ` set starting_points \<subseteq> visited_uris (ss_visited st)" using i unfolding search_inv_def q by simp
  ultimately show ?thesis unfolding covered_def by simp
qed


theorem recursive_search_complete_witness:
  "\<exists>st. search_loop 4 sample_retriever (search_sample None) sample_children (search_start (search_sample None) [(''root'', 0)] []) = Some (Ok (st, False)) \<and>
     {''root''} \<subseteq> visited_uris (ss_visited st) \<and> ''a'' \<in> visited_uris (ss_visited st) \<and>
     (\<exists>y \<in> set (ranked (ss_collected st)). vr_uri (fst y) = ''a'' \<and> 1 / 2 \<le> snd y)"
proof -
  let ?l = "search_loop 4 sample_retriever (search_sample None) sample_children (search_start (search_sample None) [(''root'', 0)] [])"
  have "map_option (\<lambda>r. res_bind r (\<lambda>(st, b). Ok (ss_visited st, b))) ?l = Some (Ok ([(''root'', 0), (''a'', 3 / 4)], False))"
    by code_simp
  then obtain st where l: "?l = Some (Ok (st, False))" and v: "ss_visited st = [(''root'', 0), (''a'', 3 / 4)]"
    by (auto simp: res_bind_Ok_iff)
  let ?c = "(sample_rec ''a'' 0 (1 / 2), 1 / 2) :: scored"
  have "passes_threshold (1 / 2) (sp_threshold (search_sample None)) (sp_score_gte (search_sample None))"
    by (simp add: passes_threshold_def search_sample_def)
  then have off: "?c \<in> offers sample_retriever (search_sample None) sample_children (''root'', 0)"
    by (simp add: offers_def sample_children_def hit_candidates_def hit_scores_def base_scores_def sample_retriever_def
        propagated_score_def) (simp add: sample_rec_def)
  have lv: "level_matches (sp_level (search_sample None)) (fst ?c)" "rec_level (fst ?c) \<noteq> 2" and u: "vr_uri (fst ?c) = ''a''"
    by (simp_all add: level_matches_def search_sample_def rec_level_def sample_rec_def)
  have m: "(''root'', 0) \<in> set (ss_visited st)" using v by simp
  note f = recursive_search_complete [OF l, THEN conjunct2, THEN bspec, OF m, THEN bspec, OF off]
  have "vr_uri (fst ?c) \<in> visited_uris (ss_visited st) \<and>
      (\<exists>y \<in> set (ranked (ss_collected st)). vr_uri (fst y) = vr_uri (fst ?c) \<and> snd ?c \<le> snd y)"
    using mp [OF conjunct2 [OF f] lv(2)] mp [OF conjunct1 [OF f] lv(1)] by (rule conjI)
  then have "''a'' \<in> visited_uris (ss_visited st)" "\<exists>y \<in> set (ranked (ss_collected st)). vr_uri (fst y) = ''a'' \<and> 1 / 2 \<le> snd y"
    unfolding u snd_conv by blast+
  then show ?thesis using l v by (intro exI [of _ st]) (simp add: visited_uris_def)
qed

section \<open>Where the search falls short\<close>

text \<open>
  Two summary records of one directory, an abstract and an overview, are initial candidates when the caller asks
  for their levels. The quick path keeps the better of the two; the recursive search keeps whichever comes last, even
  when it scores less (vector searches return the best first, so it does).
\<close>

definition quick_candidates :: "rat \<Rightarrow> bool \<Rightarrow> vrec list \<Rightarrow> scored list" where
  "quick_candidates threshold score_gte results =
     ranked (foldl (\<lambda>pool r.
       if vr_uri r = [] then pool
       else let score = finite_score (vr_score r) 0 in
         if \<not> passes_threshold score threshold score_gte then pool
         else keep_best_step (\<lambda>c. vr_uri (fst c)) snd pool (r\<lparr>vr_score := Some (Finite score)\<rparr>, score)) [] results)"

theorem initial_candidates_keep_last:
  assumes "vr_uri r0 = u" "vr_uri r1 = u" "u \<noteq> []" "vr_score r0 = Some (Finite s0)" "vr_score r1 = Some (Finite s1)" "s1 < s0"
    "level_matches (sp_level sp) r0" "level_matches (sp_level sp) r1" "passes_threshold s1 (sp_threshold sp) (sp_score_gte sp)"
    "0 < sp_limit sp"
  shows "recursive_search fuel hr sp children [] [r0, r1] = Some (Ok [(r1, s1)]) \<and>
         quick_candidates (sp_threshold sp) (sp_score_gte sp) [r0, r1] = [(r0, s0)]"
proof -
  have "passes_threshold s0 (sp_threshold sp) (sp_score_gte sp)" using assms(6,9) by (auto simp: passes_threshold_def split: if_splits)
  moreover have "r0\<lparr>vr_score := Some (Finite s0)\<rparr> = r0" using assms(4) by simp
  ultimately show ?thesis using assms
    by (simp add: recursive_search_def search_start_def search_loop_simps add_initial_def quick_candidates_def
        keep_best_step_def ranked_def Let_def take_Cons')
qed

theorem initial_candidates_keep_last_witness:
  "recursive_search 3 sample_retriever (search_sample (Some [0, 1])) sample_children []
     [sample_rec ''a'' 1 (3 / 4), sample_rec ''a'' 0 (1 / 2)] = Some (Ok [(sample_rec ''a'' 0 (1 / 2), 1 / 2)]) \<and>
   quick_candidates 0 False [sample_rec ''a'' 1 (3 / 4), sample_rec ''a'' 0 (1 / 2)] = [(sample_rec ''a'' 1 (3 / 4), 3 / 4)]"
  using initial_candidates_keep_last [of "sample_rec ''a'' 1 (3 / 4)" "''a''" "sample_rec ''a'' 0 (1 / 2)" "3 / 4" "1 / 2" "search_sample (Some [0, 1])" 3]
  by (simp add: sample_rec_def search_sample_def level_matches_def rec_level_def passes_threshold_def)

text \<open>
  A search restricted to files gives up after three rounds that bring no file. In a chain of directories below
  the only entry point, a file under the fourth directory is never reached, whatever its score; without the level
  filter, the same search finds it.
\<close>

definition chain_children :: "rat \<Rightarrow> string \<Rightarrow> vrec list res" where
  "chain_children score uri =
     (if uri = ''root'' then Ok [sample_rec ''a'' 0 (1 / 2)]
      else if uri = ''a'' then Ok [sample_rec ''b'' 0 (1 / 2)]
      else if uri = ''b'' then Ok [sample_rec ''c'' 0 (1 / 2)]
      else if uri = ''c'' then Ok [sample_rec ''file'' 2 score]
      else Ok [])"


theorem deep_file_missed:
  "recursive_search 10 sample_retriever (search_sample (Some [2])) (chain_children score) [(''root'', 0)] [] = Some (Ok []) \<and>
   (\<exists>c cs. recursive_search 10 sample_retriever (search_sample None) (chain_children 1) [(''root'', 0)] [] = Some (Ok (c # cs)) \<and> vr_uri (fst c) = ''file'')"
proof
  show "recursive_search 10 sample_retriever (search_sample (Some [2])) (chain_children score) [(''root'', 0)] [] = Some (Ok [])"
    by code_simp
  have "map_option (\<lambda>r. res_bind r (\<lambda>cs. Ok (map (\<lambda>c. vr_uri (fst c)) cs)))
      (recursive_search 10 sample_retriever (search_sample None) (chain_children 1) [(''root'', 0)] []) = Some (Ok [''file'', ''a'', ''b'', ''c''])"
    by code_simp
  then show "\<exists>c cs. recursive_search 10 sample_retriever (search_sample None) (chain_children 1) [(''root'', 0)] [] = Some (Ok (c # cs)) \<and> vr_uri (fst c) = ''file''"
    by (auto simp: res_bind_Ok_iff)
qed

end
