(* ===== verification/Retriever.thy ===== *)
theory Retriever
  imports Hierarchical
begin

text \<open>
  The retrieval call as a whole: \<^verbatim>\<open>HierarchicalRetriever.retrieve\<close> with the choice of mode, entry points and initial
  candidates, the conversion of candidates into matched contexts, and the hotness score that can be blended in. The
  clock, \<^verbatim>\<open>datetime.fromisoformat\<close> and YAML are the fields of \<open>retrieve_env\<close>. Scores are rationals up to the
  conversion and reals after it, because hotness is an exponential. Telemetry and statistics are left out.
\<close>

section \<open>Hotness\<close>

definition DEFAULT_HALF_LIFE_DAYS :: real where "DEFAULT_HALF_LIFE_DAYS = 7"

definition hotness_score :: "int \<Rightarrow> pydatetime option \<Rightarrow> rat \<Rightarrow> real \<Rightarrow> real res" where
  "hotness_score active_count updated_at now half_life_days =
     (if active_count \<le> - 1 then Raise ValueError
      else
        let freq = 1 / (1 + exp (- ln (1 + real_of_int active_count)))
        in case updated_at of
             None \<Rightarrow> Ok 0
           | Some t \<Rightarrow>
               let age_days = max (real_of_rat (now - utc_seconds t) / 86400) 0;
                   decay_rate = ln 2 / half_life_days;
                   recency = exp (- decay_rate * age_days)
               in Ok (freq * recency))"

text \<open>More than six digits of a fraction are cut, and a final \<^verbatim>\<open>Z\<close> is written as an offset. The first argument
  counts the digits since the last dot.\<close>

fun trim_fraction :: "nat option \<Rightarrow> string \<Rightarrow> string" where
  "trim_fraction st [] = []"
| "trim_fraction st (c # s) =
     (if c = CHR ''.'' then c # trim_fraction (Some 0) s
      else case st of
        Some k \<Rightarrow> if is_digit c then (if k < 6 then c # trim_fraction (Some (k + 1)) s else trim_fraction (Some k) s)
                  else c # trim_fraction None s
      | None \<Rightarrow> c # trim_fraction None s)"

definition parse_iso_datetime :: "(string \<Rightarrow> pydatetime res) \<Rightarrow> string \<Rightarrow> pydatetime res" where
  "parse_iso_datetime fromisoformat value =
     (let normalized = trim_fraction None value
      in fromisoformat (if normalized \<noteq> [] \<and> last normalized = CHR ''Z'' then butlast normalized @ ''+00:00'' else normalized))"

section \<open>Conversion\<close>

record retrieve_env =
  re_now :: rat
  re_fromisoformat :: "string \<Rightarrow> pydatetime res"
  re_yaml :: yaml_ops

record matched_context =
  mc_uri :: string
  mc_context_type :: context_type
  mc_level :: int
  mc_abstract :: string
  mc_category :: string
  mc_score :: real
  mc_search_tags :: "string list"

definition py_endswith :: "string \<Rightarrow> string \<Rightarrow> bool" where
  "py_endswith s t \<longleftrightarrow> drop (length s - length t) s = t"

definition LEVEL_URI_SUFFIX :: "int \<Rightarrow> string option" where
  "LEVEL_URI_SUFFIX level = (if level = 0 then Some ''.abstract.md'' else if level = 1 then Some ''.overview.md'' else None)"

definition append_level_suffix :: "string \<Rightarrow> int \<Rightarrow> string" where
  "append_level_suffix uri level =
     (case LEVEL_URI_SUFFIX level of
        None \<Rightarrow> uri
      | Some sfx \<Rightarrow>
          if uri = [] then uri
          else if py_endswith uri (''/'' @ sfx) then uri
          else if py_endswith uri ''/.abstract.md'' \<or> py_endswith uri ''/.overview.md'' then uri
          else (if py_endswith uri ''/'' \<and> \<not> py_endswith uri ''://'' then py_rstrip is_slash uri else uri) @ ''/'' @ sfx)"

definition updated_time :: "retrieve_env \<Rightarrow> updated_at \<Rightarrow> pydatetime option res" where
  "updated_time env u =
     (case u of
        UpdatedStr s \<Rightarrow>
          (case parse_iso_datetime (re_fromisoformat env) s of
             Inr t \<Rightarrow> Ok (Some t)
           | Inl e \<Rightarrow> if is_ValueError e \<or> e = TypeError then Ok None else Raise e)
      | UpdatedTime t \<Rightarrow> Ok (Some t)
      | UpdatedOther \<Rightarrow> Ok None)"

definition blended_score :: "retrieve_env \<Rightarrow> rat \<Rightarrow> bool \<Rightarrow> scored \<Rightarrow> real res" where
  "blended_score env alpha apply_hotness c =
     (if apply_hotness \<and> alpha > 0 then
        res_bind (updated_time env (vr_updated_at (fst c))) (\<lambda>t.
        res_bind (hotness_score (vr_active_count (fst c)) t (re_now env) DEFAULT_HALF_LIFE_DAYS) (\<lambda>h_score.
        Ok ((1 - real_of_rat alpha) * real_of_rat (snd c) + real_of_rat alpha * h_score)))
      else Ok (real_of_rat (snd c)))"

definition context_type_of :: "string option \<Rightarrow> context_type res" where
  "context_type_of s =
     (case s of
        None \<Rightarrow> Ok CT_RESOURCE
      | Some v \<Rightarrow> if v = [] then Ok CT_RESOURCE
          else if v = ''memory'' then Ok CT_MEMORY
          else if v = ''resource'' then Ok CT_RESOURCE
          else if v = ''skill'' then Ok CT_SKILL
          else Raise ValueError)"

definition convert_one :: "retrieve_env \<Rightarrow> rat \<Rightarrow> bool \<Rightarrow> scored \<Rightarrow> matched_context res" where
  "convert_one env alpha apply_hotness c =
     res_bind (blended_score env alpha apply_hotness c) (\<lambda>score.
     let r = fst c; level = rec_level r in
     res_bind (if level = ABSTRACT \<or> level = OVERVIEW then body_for_preview (re_yaml env) (vr_abstract r) else Ok (vr_abstract r)) (\<lambda>abstract.
     res_bind (context_type_of (vr_context_type r)) (\<lambda>ct.
     res_bind (normalize_search_tags (vr_search_tags r) True) (\<lambda>tags.
     Ok \<lparr>mc_uri = append_level_suffix (vr_uri r) level, mc_context_type = ct, mc_level = level, mc_abstract = abstract,
         mc_category = vr_category r, mc_score = score, mc_search_tags = tags\<rparr>))))"

definition convert_to_matched_contexts :: "retrieve_env \<Rightarrow> rat \<Rightarrow> scored list \<Rightarrow> bool \<Rightarrow> matched_context list res" where
  "convert_to_matched_contexts env alpha candidates apply_hotness =
     res_bind (res_map (convert_one env alpha apply_hotness) candidates) (\<lambda>results. Ok (sort_key (\<lambda>m. - mc_score m) results))"

section \<open>The call\<close>

record typed_query =
  tq_query :: ustr
  tq_image_query :: bool
  tq_target_directories :: "string list"
  tq_context_type :: "context_type option"

record query_result =
  qr_matched_contexts :: "matched_context list"
  qr_searched_directories :: "string list"

definition retrieve_mode :: "retriever \<Rightarrow> typed_query \<Rightarrow> retriever_mode option \<Rightarrow> retriever_mode" where
  "retrieve_mode hr query mode =
     (if tq_image_query query then QUICK
      else case mode of Some m \<Rightarrow> m | None \<Rightarrow> if hr_rerank hr = None then QUICK else THINKING)"

definition retrieve_level :: "typed_query \<Rightarrow> int list option \<Rightarrow> int list option" where
  "retrieve_level query level = (if tq_image_query query \<and> level = None then Some [2] else level)"

definition embed_query :: "retriever \<Rightarrow> typed_query \<Rightarrow> unit res" where
  "embed_query hr query =
     (case hr_embedder hr of
        None \<Rightarrow> Ok ()
      | Some (supports_multimodal, outcome) \<Rightarrow>
          if tq_image_query query \<and> \<not> supports_multimodal then Raise InvalidArgumentError else outcome)"

definition starting_points :: "vrec list \<Rightarrow> rat list \<Rightarrow> string list \<Rightarrow> (string \<times> rat) list" where
  "starting_points global_results directory_scores root_uris =
     (let hits = foldl (\<lambda>sps (r, score). if vr_uri r = [] \<or> vr_uri r \<in> fst ` set sps then sps else sps @ [(vr_uri r, score)])
                   [] (zip global_results directory_scores)
      in foldl (\<lambda>sps uri. if uri \<in> fst ` set sps then sps else sps @ [(uri, 0)]) hits root_uris)"

definition initial_candidates :: "int list option \<Rightarrow> vrec list \<Rightarrow> vrec list \<Rightarrow> rat list \<Rightarrow> vrec list" where
  "initial_candidates level leaf_results global_results directory_scores =
     leaf_results @
     (case level of
        None \<Rightarrow> []
      | Some ls \<Rightarrow> map (\<lambda>(r, score). r\<lparr>vr_score := Some (Finite score)\<rparr>)
                    (filter (\<lambda>(r, score). rec_level r \<in> set ls) (zip global_results directory_scores)))"

text \<open>The hits of files that are searched for beside the directories when access control is on: the tree search may
  not reach a shared file.\<close>

definition leaf_results :: "retriever \<Rightarrow> vector_ops \<Rightarrow> ustr \<Rightarrow> int list option \<Rightarrow> int \<Rightarrow> vrec list res" where
  "leaf_results hr vo query level n =
     (if vo_acl_enabled vo \<and> (case level of None \<Rightarrow> True | Some ls \<Rightarrow> 2 \<in> set ls) then
        res_bind (vo_search vo (Some [2]) n) (\<lambda>rs.
          Ok (if hr_rerank hr \<noteq> None \<and> rs \<noteq> []
              then map (\<lambda>(r, score). r\<lparr>vr_score := Some (Finite score)\<rparr>) (zip rs (hit_scores hr THINKING query rs))
              else rs))
      else Ok [])"

definition thinking_candidates ::
    "nat \<Rightarrow> retriever \<Rightarrow> vector_ops \<Rightarrow> typed_query \<Rightarrow> string list \<Rightarrow> search_params \<Rightarrow> scored list res option" where
  "thinking_candidates fuel hr vo query root_uris sp =
     (let n = max (int (sp_limit sp)) (int GLOBAL_SEARCH_TOPK) in
      case vo_search vo (Some [0, 1]) n of
        Inl e \<Rightarrow> Some (Raise e)
      | Inr global_results \<Rightarrow>
          (case leaf_results hr vo (tq_query query) (sp_level sp) n of
             Inl e \<Rightarrow> Some (Raise e)
           | Inr leaves \<Rightarrow>
               let directory_scores = hit_scores hr THINKING (tq_query query) global_results
               in recursive_search fuel hr sp (vo_children vo) (starting_points global_results directory_scores root_uris)
                    (initial_candidates (sp_level sp) leaves global_results directory_scores)))"

definition retrieve ::
    "nat \<Rightarrow> retriever \<Rightarrow> vector_ops \<Rightarrow> retrieve_env \<Rightarrow> request_context \<Rightarrow> typed_query \<Rightarrow> nat \<Rightarrow> retriever_mode option \<Rightarrow>
     rat option \<Rightarrow> bool \<Rightarrow> int list option \<Rightarrow> query_result res option" where
  "retrieve fuel hr vo env ctx query limit mode score_threshold score_gte level =
     (let threshold = resolve_threshold hr score_threshold;
          mode = retrieve_mode hr query mode;
          level = retrieve_level query level;
          target_dirs = filter (\<lambda>d. d \<noteq> []) (tq_target_directories query)
      in if \<not> vo_collection_exists vo then Some (Ok \<lparr>qr_matched_contexts = [], qr_searched_directories = []\<rparr>)
         else case embed_query hr query of
           Inl e \<Rightarrow> Some (Raise e)
         | Inr _ \<Rightarrow>
             let root_uris = (if target_dirs \<noteq> [] then target_dirs else default_target_directories (Some ctx) (tq_context_type query));
                 candidates =
                   (if mode = QUICK then
                      Some (res_bind (vo_search vo level (if tq_image_query query then max (int limit * 5) 50
                                                          else max (int limit) (int GLOBAL_SEARCH_TOPK)))
                              (\<lambda>rs. Ok (quick_candidates threshold score_gte rs)))
                    else thinking_candidates fuel hr vo query root_uris
                           \<lparr>sp_query = tq_query query, sp_mode = mode, sp_limit = limit, sp_threshold = threshold,
                            sp_score_gte = score_gte, sp_level = level\<rparr>)
             in map_option (\<lambda>r. res_bind r (\<lambda>cs.
                  res_bind (convert_to_matched_contexts env (hr_hotness_alpha hr) cs (mode = THINKING)) (\<lambda>matched.
                  Ok \<lparr>qr_matched_contexts = take limit matched, qr_searched_directories = root_uris\<rparr>))) candidates)"


section \<open>Hotness in closed form\<close>

text \<open>
  The hotness score is \<open>(n + 1) / (n + 2)\<close> for the access count, halved for every half-life of age; so it is in
  the interval that the documentation gives (one half for a context that was updated just now and never used), it grows
  with the count and falls with the age. A context with no date is cold.
\<close>

lemma frequency_closed: "0 \<le> n \<Longrightarrow> 1 / (1 + exp (- ln (1 + real_of_int n))) = (real_of_int n + 1) / (real_of_int n + 2)"
  by (simp add: exp_minus field_simps)

lemma recency_closed: "exp (- (ln 2 / h) * x) = (2 :: real) powr (- (x / h))"
  by (simp add: powr_def algebra_simps)

theorem hotness_score_spec:
  assumes n: "0 \<le> n" and h: "0 < h"
  shows "\<exists>s. hotness_score n t now h = Ok s \<and> 0 \<le> s \<and> s < 1 \<and>
           s = (case t of None \<Rightarrow> 0 | Some u \<Rightarrow>
                  (real_of_int n + 1) / (real_of_int n + 2) * 2 powr (- (max (real_of_rat (now - utc_seconds u) / 86400) 0 / h)))"
proof (cases t)
  case (Some u)
  let ?age = "max (real_of_rat (now - utc_seconds u) / 86400) 0"
  let ?s = "(real_of_int n + 1) / (real_of_int n + 2) * 2 powr (- (?age / h))"
  have "hotness_score n t now h = Ok ?s"
    using n unfolding hotness_score_def Some Let_def recency_closed frequency_closed [OF n] by simp
  moreover have "0 \<le> ?age / h" using h by simp
  then have "2 powr (- (?age / h)) \<le> 2 powr (0 :: real)" by (intro powr_mono) simp_all
  then have "?s \<le> (real_of_int n + 1) / (real_of_int n + 2) * 1" using n by (intro mult_left_mono) simp_all
  moreover have "(real_of_int n + 1) / (real_of_int n + 2) * 1 < 1" using n by simp
  ultimately have "?s < 1" by linarith
  moreover have "0 \<le> ?s" using n by simp
  ultimately show ?thesis using \<open>hotness_score n t now h = Ok ?s\<close> unfolding Some by (intro exI [of _ ?s]) simp
qed (use n in \<open>simp add: hotness_score_def\<close>)

theorem hotness_score_spec_witness:
  "\<exists>s. hotness_score 2 (Some (NaiveTime 0)) 604800 7 = Ok s \<and> 0 \<le> s \<and> s < 1 \<and> s = 3 / 8"
proof -
  have p: "2 powr (- 1 :: real) = 1 / 2" by (simp add: powr_minus_divide)
  show ?thesis using hotness_score_spec [of 2 7 "Some (NaiveTime 0)" 604800] p by simp
qed

section \<open>Display URIs\<close>

lemma py_endswith_append [simp]: "py_endswith (s @ t) t"
  by (simp add: py_endswith_def)

text \<open>A display URI is a fixed point: showing a shown URI again, at either summary level, changes nothing.\<close>

lemma append_level_suffix_idem:
  assumes "level = 0 \<or> level = 1" "level' = 0 \<or> level' = 1"
  shows "append_level_suffix (append_level_suffix uri level) level' = append_level_suffix uri level"
proof (cases "uri = []")
  case False
  have shown: "append_level_suffix v level' = v" if "py_endswith v ''/.abstract.md'' \<or> py_endswith v ''/.overview.md''" for v
    using assms(2) that by (auto simp: append_level_suffix_def LEVEL_URI_SUFFIX_def)
  have "py_endswith (append_level_suffix uri level) ''/.abstract.md'' \<or> py_endswith (append_level_suffix uri level) ''/.overview.md''"
  proof (cases "py_endswith uri ''/.abstract.md'' \<or> py_endswith uri ''/.overview.md''")
    case True
    then show ?thesis using assms(1) by (auto simp: append_level_suffix_def LEVEL_URI_SUFFIX_def)
  next
    case not_shown: False
    define w where "w = (if py_endswith uri ''/'' \<and> \<not> py_endswith uri ''://'' then py_rstrip is_slash uri else uri)"
    have "append_level_suffix uri level = w @ (if level = 0 then ''/.abstract.md'' else ''/.overview.md'')"
      using assms(1) False not_shown by (auto simp: append_level_suffix_def LEVEL_URI_SUFFIX_def w_def)
    then show ?thesis by simp
  qed
  then show ?thesis by (rule shown)
qed (use assms in \<open>auto simp: append_level_suffix_def LEVEL_URI_SUFFIX_def\<close>)

section \<open>Results of the call\<close>

lemma convert_sorted:
  assumes "convert_to_matched_contexts env alpha cs hot = Ok ms"
  shows "sorted_wrt (\<ge>) (map mc_score ms)" "length ms = length cs"
    "\<And>m. m \<in> set ms \<Longrightarrow> \<exists>c \<in> set cs. convert_one env alpha hot c = Ok m"
proof -
  obtain rs where r: "list_all2 (\<lambda>c m. convert_one env alpha hot c = Ok m) cs rs" and ms: "ms = sort_key (\<lambda>m. - mc_score m) rs"
    using assms by (auto simp: convert_to_matched_contexts_def res_bind_Ok_iff res_map_Ok_iff)
  have "sorted (map (\<lambda>m. - mc_score m) ms)" by (simp add: ms)
  then show "sorted_wrt (\<ge>) (map mc_score ms)" by (simp add: sorted_wrt_map)
  show "length ms = length cs" using r by (simp add: ms list_all2_lengthD)
  show "\<exists>c \<in> set cs. convert_one env alpha hot c = Ok m" if "m \<in> set ms" for m
  proof -
    obtain i where "i < length rs" "rs ! i = m" using \<open>m \<in> set ms\<close> unfolding ms by (auto simp: in_set_conv_nth)
    then show ?thesis using r by (intro bexI [of _ "cs ! i"]) (auto simp: list_all2_conv_all_nth)
  qed
qed

lemma quick_candidates_pass:
  "c \<in> set (quick_candidates threshold score_gte rs) \<Longrightarrow> passes_threshold (snd c) threshold score_gte"
proof -
  let ?f = "\<lambda>pool r. if vr_uri r = [] then pool
       else let score = finite_score (vr_score r) 0 in
         if \<not> passes_threshold score threshold score_gte then pool
         else keep_best_step (\<lambda>c. vr_uri (fst c)) snd pool (r\<lparr>vr_score := Some (Finite score)\<rparr>, score)"
  let ?sp = "\<lparr>sp_query = [], sp_mode = QUICK, sp_limit = 0, sp_threshold = threshold, sp_score_gte = score_gte, sp_level = None\<rparr>"
  let ?Q = "\<lambda>c. passes_threshold (snd c) threshold score_gte"
  have step: "pool_all ?sp ?Q (?f pool r)" if "pool_all ?sp ?Q pool" for pool r
    using that pool_all_keep_best [OF that, of "(r\<lparr>vr_score := Some (Finite (finite_score (vr_score r) 0))\<rparr>, finite_score (vr_score r) 0)"]
    by (simp add: level_matches_def Let_def)
  have "pool_all ?sp ?Q (foldl ?f pool rs)" if "pool_all ?sp ?Q pool" for pool
    using that by (induction rs arbitrary: pool) (simp_all only: foldl.simps step)
  from this [of "[]"] have p: "pool_all ?sp ?Q (foldl ?f [] rs)" by (simp add: pool_all_def)
  assume "c \<in> set (quick_candidates threshold score_gte rs)"
  then have "c \<in> snd ` set (foldl ?f [] rs)" unfolding quick_candidates_def set_ranked .
  then show ?thesis using p unfolding pool_all_def by blast
qed


text \<open>The threshold test on a result.\<close>

definition score_passes :: "real \<Rightarrow> rat \<Rightarrow> bool \<Rightarrow> bool" where
  "score_passes score threshold score_gte = (if score_gte then score \<ge> real_of_rat threshold else score > real_of_rat threshold)"

lemma converted_score:
  assumes "convert_one env alpha hot c = Ok m" "\<not> (hot \<and> 0 < alpha)" "passes_threshold (snd c) threshold score_gte"
  shows "mc_score m = real_of_rat (snd c)" "score_passes (mc_score m) threshold score_gte"
proof -
  show "mc_score m = real_of_rat (snd c)" using assms(1,2) by (auto simp: convert_one_def blended_score_def res_bind_Ok_iff Let_def)
  then show "score_passes (mc_score m) threshold score_gte"
    using assms(3) by (auto simp: score_passes_def passes_threshold_def of_rat_less of_rat_less_eq split: if_splits)
qed

text \<open>What the candidates of either mode satisfy.\<close>

lemma thinking_candidates_pass:
  assumes "thinking_candidates fuel hr vo query roots sp = Some (Ok cs)" "c \<in> set cs"
  shows "passes_threshold (snd c) (sp_threshold sp) (sp_score_gte sp)"
proof -
  obtain sps init where "recursive_search fuel hr sp (vo_children vo) sps init = Some (Ok cs)"
    using assms(1) by (auto simp: thinking_candidates_def Let_def split: sum.splits)
  then show ?thesis using recursive_search_facts assms(2) by blast
qed

lemma retrieve_cases:
  assumes "retrieve fuel hr vo env ctx query limit mode score_threshold score_gte level = Some (Ok qr)"
  obtains "qr_matched_contexts qr = []"
  | cs ms where "convert_to_matched_contexts env (hr_hotness_alpha hr) cs (retrieve_mode hr query mode = THINKING) = Ok ms"
      "qr_matched_contexts qr = take limit ms"
      "\<And>c. c \<in> set cs \<Longrightarrow> passes_threshold (snd c) (resolve_threshold hr score_threshold) score_gte"
proof (cases "vo_collection_exists vo")
  case False
  then show ?thesis using that(1) assms by (auto simp: retrieve_def)
next
  case True
  show ?thesis
  proof (cases "retrieve_mode hr query mode")
    case QUICK
    then show ?thesis using that(2) assms True quick_candidates_pass
      by (auto simp: retrieve_def Let_def res_bind_Ok_iff split: sum.splits)
  next
    case THINKING
    then show ?thesis using that(2) assms True thinking_candidates_pass
      by (fastforce simp: retrieve_def Let_def res_bind_Ok_iff split: sum.splits)
  qed
qed

text \<open>
  C26. What a retrieval returns: at most \<open>limit\<close> contexts, best first; and whenever hotness is not blended in (in quick
  mode, or with the default weight 0) every returned score passes the threshold in force.
\<close>

theorem retrieve_sound:
  assumes "retrieve fuel hr vo env ctx query limit mode score_threshold score_gte level = Some (Ok qr)"
  shows "length (qr_matched_contexts qr) \<le> limit \<and> sorted_wrt (\<ge>) (map mc_score (qr_matched_contexts qr)) \<and>
         (retrieve_mode hr query mode = QUICK \<or> hr_hotness_alpha hr = 0 \<longrightarrow>
            (\<forall>m \<in> set (qr_matched_contexts qr). score_passes (mc_score m) (resolve_threshold hr score_threshold) score_gte))"
  using assms
proof (cases rule: retrieve_cases)
  case (2 cs ms)
  have "score_passes (mc_score m) (resolve_threshold hr score_threshold) score_gte"
    if "retrieve_mode hr query mode = QUICK \<or> hr_hotness_alpha hr = 0" "m \<in> set ms" for m
    using that convert_sorted(3) [OF 2(1) that(2)] converted_score(2) 2(3) by fastforce
  then show ?thesis using convert_sorted(1) [OF 2(1)] unfolding 2(2)
    by (auto simp: take_map [symmetric] sorted_wrt_take dest: in_set_takeD)
qed simp

text \<open>
  One stored abstract can fail the whole search. The conversion strips front matter from the text of every
  abstract and overview among the hits; a text that opens with a Markdown rule and has no second one raises, and the
  exception is that of the call, whatever the other hits are.
\<close>

theorem unclosed_rule_fails_search:
  assumes vo: "vo_collection_exists vo" "\<And>lv n. vo_search vo lv n = Ok rs" and e: "embed_query hr query = Ok ()"
    and m: "retrieve_mode hr query mode = QUICK"
    and c: "c \<in> set (quick_candidates (resolve_threshold hr score_threshold) score_gte rs)" "rec_level (fst c) = ABSTRACT \<or> rec_level (fst c) = OVERVIEW"
    and a: "vr_abstract (fst c) = ''---'' @ LF # t" "list_all (\<lambda>l. \<not> is_delimiter l) (py_splitlines t)"
  shows "\<exists>ex. retrieve fuel hr vo env ctx query limit mode score_threshold score_gte level = Some (Raise ex)"
proof -
  let ?cs = "quick_candidates (resolve_threshold hr score_threshold) score_gte rs"
  have "convert_one env (hr_hotness_alpha hr) False c = Raise AbstractOverviewFormatError"
    using c(2) unclosed_rule_raises [OF a(2)] a(1) by (simp add: convert_one_def blended_score_def Let_def)
  then have "convert_to_matched_contexts env (hr_hotness_alpha hr) ?cs False \<noteq> Ok ms" for ms
    using c(1) by (auto simp: convert_to_matched_contexts_def res_bind_Ok_iff res_map_Ok_iff list_all2_conv_all_nth in_set_conv_nth)
  then obtain ex where "convert_to_matched_contexts env (hr_hotness_alpha hr) ?cs False = Raise ex" by (metis sum.exhaust)
  then show ?thesis using vo e m by (simp add: retrieve_def Let_def)
qed


definition retrieve_sample_env :: retrieve_env where
  "retrieve_sample_env = \<lparr>re_now = 0, re_fromisoformat = (\<lambda>_. Raise ValueError), re_yaml = tally_yaml\<rparr>"

definition sample_ops :: "vrec list \<Rightarrow> vector_ops" where
  "sample_ops rs = \<lparr>vo_collection_exists = True, vo_acl_enabled = False, vo_search = (\<lambda>lv n. Ok rs), vo_children = (\<lambda>u. Ok [])\<rparr>"

definition sample_query :: typed_query where
  "sample_query = \<lparr>tq_query = [], tq_image_query = False, tq_target_directories = [''viking://resources/a''], tq_context_type = None\<rparr>"

theorem retrieve_sound_witness:
  "\<exists>qr. retrieve 0 sample_retriever (sample_ops [sample_rec ''f'' 2 (1 / 2)]) retrieve_sample_env sample_ctx sample_query 5 None None False None = Some (Ok qr) \<and>
     length (qr_matched_contexts qr) \<le> 5 \<and> sorted_wrt (\<ge>) (map mc_score (qr_matched_contexts qr)) \<and> qr_matched_contexts qr \<noteq> [] \<and>
     score_passes (mc_score (hd (qr_matched_contexts qr))) 0 False"
proof -
  let ?r = "retrieve 0 sample_retriever (sample_ops [sample_rec ''f'' 2 (1 / 2)]) retrieve_sample_env sample_ctx sample_query 5 None None False None"
  obtain qr where r: "?r = Some (Ok qr)" and n: "length (qr_matched_contexts qr) = 1"
    by (simp add: retrieve_def sample_retriever_def sample_ops_def sample_query_def retrieve_mode_def embed_query_def
        quick_candidates_def ranked_def keep_best_step_def passes_threshold_def resolve_threshold_def convert_to_matched_contexts_def
        convert_one_def blended_score_def rec_level_def ABSTRACT_def OVERVIEW_def context_type_of_def normalize_search_tags_def sample_rec_def Let_def)
  have m: "retrieve_mode sample_retriever sample_query None = QUICK" and t: "resolve_threshold sample_retriever None = 0"
    by (simp_all add: retrieve_mode_def sample_retriever_def sample_query_def resolve_threshold_def)
  have "hd (qr_matched_contexts qr) \<in> set (qr_matched_contexts qr)" using n by (intro hd_in_set) auto
  then show ?thesis using retrieve_sound [OF r] r n m unfolding t by auto
qed

theorem unclosed_rule_fails_search_witness:
  "\<exists>ex. retrieve 0 sample_retriever (sample_ops [sample_rec ''f'' 2 (1 / 2), (sample_rec ''a'' 0 (1 / 4))\<lparr>vr_abstract := ''---'' @ LF # ''Draft''\<rparr>])
     retrieve_sample_env sample_ctx sample_query 5 None None False None = Some (Raise ex)"
proof (rule unclosed_rule_fails_search)
  let ?bad = "(sample_rec ''a'' 0 (1 / 4))\<lparr>vr_abstract := ''---'' @ LF # ''Draft''\<rparr>"
  show "vo_collection_exists (sample_ops [sample_rec ''f'' 2 (1 / 2), ?bad])" by (simp add: sample_ops_def)
  show "vo_search (sample_ops [sample_rec ''f'' 2 (1 / 2), ?bad]) lv n = Ok [sample_rec ''f'' 2 (1 / 2), ?bad]" for lv n by (simp add: sample_ops_def)
  show "embed_query sample_retriever sample_query = Ok ()" by (simp add: embed_query_def sample_retriever_def)
  show "retrieve_mode sample_retriever sample_query None = QUICK" by (simp add: retrieve_mode_def sample_retriever_def sample_query_def)
  show "(?bad, 1 / 4) \<in> set (quick_candidates (resolve_threshold sample_retriever None) False [sample_rec ''f'' 2 (1 / 2), ?bad])"
    by (simp add: quick_candidates_def keep_best_step_def passes_threshold_def resolve_threshold_def sample_retriever_def sample_rec_def ranked_def Let_def)
  show "rec_level (fst (?bad, 1 / 4 :: rat)) = ABSTRACT \<or> rec_level (fst (?bad, 1 / 4 :: rat)) = OVERVIEW"
    by (simp add: rec_level_def sample_rec_def ABSTRACT_def)
  show "vr_abstract (fst (?bad, 1 / 4 :: rat)) = ''---'' @ LF # ''Draft''" by simp
  show "list_all (\<lambda>l. \<not> is_delimiter l) (py_splitlines ''Draft'')" by code_simp
qed

end
