(* ===== verification/Bytes_Row.thy ===== *)
theory Bytes_Row
  imports Bytes
begin

text \<open>
  The row format of the vector store, \<^verbatim>\<open>storage/vectordb/store/bytes_row.py\<close> and \<^verbatim>\<open>serializable.py\<close>: a schema
  assigns every field an offset in a fixed region; strings, byte strings and lists are stored behind it and the
  fixed region has their offsets. Numbers are little-endian. A row is packed in two phases, as in the code: the
  loop over the fields collects the items (and raises \<open>ValueError\<close> for strings that are too long), then
  \<^verbatim>\<open>struct.pack_into\<close> writes them (and raises \<open>StructError\<close> for numbers out of range).

  A float field holds the bit pattern of a single-precision number: the rounding of a Python float to single
  precision happens before. A value whose type is not the one of its field is outside the model (\<open>OtherException\<close>).
\<close>

section \<open>Little-endian numbers\<close>

fun le_bytes :: "nat \<Rightarrow> nat \<Rightarrow> bytes" where
  "le_bytes 0 k = []"
| "le_bytes (Suc n) k = byte_of (k mod 256) # le_bytes n (k div 256)"

fun le_nat :: "bytes \<Rightarrow> nat" where
  "le_nat [] = 0"
| "le_nat (b # bs) = unat b + 256 * le_nat bs"

definition signed_of :: "nat \<Rightarrow> int" where
  "signed_of u = (if u \<ge> 2 ^ 63 then int u - 2 ^ 64 else int u)"

section \<open>Schemas\<close>

datatype field_type = FT_int64 | FT_uint64 | FT_float32 | FT_string | FT_binary | FT_boolean
  | FT_list_int64 | FT_list_string | FT_list_float32 | FT_text

datatype row_value = VInt int | VFloat "32 word" | VStr string | VBytes bytes | VBool bool
  | VInts "int list" | VStrs "string list" | VFloats "32 word list"

definition type_info :: "field_type \<Rightarrow> nat \<times> row_value" where
  "type_info t = (case t of
     FT_int64 \<Rightarrow> (8, VInt 0) | FT_uint64 \<Rightarrow> (8, VInt 0) | FT_float32 \<Rightarrow> (4, VFloat 0)
   | FT_string \<Rightarrow> (4, VStr ''default'') | FT_binary \<Rightarrow> (4, VBytes []) | FT_boolean \<Rightarrow> (1, VBool False)
   | FT_list_int64 \<Rightarrow> (4, VInts [0]) | FT_list_string \<Rightarrow> (4, VStrs [''default'']) | FT_list_float32 \<Rightarrow> (4, VFloats [0])
   | FT_text \<Rightarrow> (4, VStr []))"

record field_def =
  fd_name :: string
  fd_type :: field_type
  fd_id :: nat
  fd_default :: "row_value option"

record field_meta =
  fm_name :: string
  fm_type :: field_type
  fm_offset :: nat
  fm_id :: nat
  fm_default :: row_value

record row_schema =
  sc_metas :: "(string \<times> field_meta) list"
  sc_orders :: "field_meta option list"
  sc_total :: nat

fun field_metas :: "field_def list \<Rightarrow> nat \<Rightarrow> field_meta list" where
  "field_metas [] offset = []"
| "field_metas (f # fs) offset =
     \<lparr>fm_name = fd_name f, fm_type = fd_type f, fm_offset = offset, fm_id = fd_id f,
      fm_default = (case fd_default f of None \<Rightarrow> snd (type_info (fd_type f)) | Some v \<Rightarrow> v)\<rparr>
     # field_metas fs (offset + fst (type_info (fd_type f)))"

fun total_bytes :: "field_def list \<Rightarrow> nat \<Rightarrow> nat" where
  "total_bytes [] offset = offset"
| "total_bytes (f # fs) offset = total_bytes fs (offset + fst (type_info (fd_type f)))"

definition Schema :: "field_def list \<Rightarrow> row_schema res" where
  "Schema flds =
     (if list_ex (\<lambda>f. fd_id f \<ge> length flds) flds then Raise IndexError
      else let metas = field_metas flds 1 in
        Ok \<lparr>sc_metas = foldl (\<lambda>d m. dict_set d (fm_name m) m) [] metas,
            sc_orders = foldl (\<lambda>os m. os[fm_id m := Some m]) (replicate (length flds) None) metas,
            sc_total = total_bytes flds 1\<rparr>)"

section \<open>Packing\<close>

datatype pack_value = Pq int | PQ int | Pf "32 word" | PB nat | PI nat | PH nat | Ps bytes

fun item_size :: "pack_value \<Rightarrow> nat" where
  "item_size (Pq _) = 8"
| "item_size (PQ _) = 8"
| "item_size (Pf _) = 4"
| "item_size (PB _) = 1"
| "item_size (PI _) = 4"
| "item_size (PH _) = 2"
| "item_size (Ps bs) = length bs"

fun pack_item :: "pack_value \<Rightarrow> bytes res" where
  "pack_item (Pq i) = (if - (2 ^ 63) \<le> i \<and> i < 2 ^ 63 then Ok (le_bytes 8 (nat (i mod 2 ^ 64))) else Raise StructError)"
| "pack_item (PQ i) = (if 0 \<le> i \<and> i < 2 ^ 64 then Ok (le_bytes 8 (nat i)) else Raise StructError)"
| "pack_item (Pf w) = Ok (le_bytes 4 (unat w))"
| "pack_item (PB n) = (if n < 256 then Ok (le_bytes 1 n) else Raise StructError)"
| "pack_item (PI n) = (if n < 2 ^ 32 then Ok (le_bytes 4 n) else Raise StructError)"
| "pack_item (PH n) = (if n < 2 ^ 16 then Ok (le_bytes 2 n) else Raise StructError)"
| "pack_item (Ps bs) = Ok bs"

definition struct_pack :: "pack_value list \<Rightarrow> bytes res" where
  "struct_pack items = res_bind (res_map pack_item items) (\<lambda>bss. Ok (concat bss))"

definition STRING_MAX_UINT16_LENGTH :: nat where "STRING_MAX_UINT16_LENGTH = 0xFFFF"

text \<open>The elements of a string list; the first that is too long raises.\<close>

fun string_items :: "string list \<Rightarrow> pack_value list res" where
  "string_items [] = Ok []"
| "string_items (s # ss) =
     (let bytes_item = str_encode s in
      if length bytes_item > STRING_MAX_UINT16_LENGTH then Raise ValueError
      else res_bind (string_items ss) (\<lambda>items. Ok (PH (length bytes_item) # Ps bytes_item # items)))"

text \<open>What one field adds: its item of the fixed region and its items of the variable region, which starts at
  \<open>offset\<close> for this field.\<close>

definition field_items :: "field_type \<Rightarrow> row_value \<Rightarrow> nat \<Rightarrow> (pack_value \<times> pack_value list) res" where
  "field_items t value offset =
     (case (t, value) of
        (FT_int64, VInt i) \<Rightarrow> Ok (Pq i, [])
      | (FT_uint64, VInt i) \<Rightarrow> Ok (PQ i, [])
      | (FT_float32, VFloat w) \<Rightarrow> Ok (Pf w, [])
      | (FT_boolean, VBool b) \<Rightarrow> Ok (PB (if b then 1 else 0), [])
      | (FT_string, VStr s) \<Rightarrow>
          let bs = str_encode s in
          if length bs > STRING_MAX_UINT16_LENGTH then Raise ValueError else Ok (PI offset, [PH (length bs), Ps bs])
      | (FT_binary, VBytes bs) \<Rightarrow> Ok (PI offset, [PI (length bs), Ps bs])
      | (FT_text, VStr s) \<Rightarrow> let bs = str_encode s in Ok (PI offset, [PI (length bs), Ps bs])
      | (FT_list_int64, VInts is) \<Rightarrow> Ok (PI offset, PH (length is) # map Pq is)
      | (FT_list_float32, VFloats ws) \<Rightarrow> Ok (PI offset, PH (length ws) # map Pf ws)
      | (FT_list_string, VStrs ss) \<Rightarrow> res_bind (string_items ss) (\<lambda>items. Ok (PI offset, PH (length ss) # items))
      | _ \<Rightarrow> Raise OtherException)"

type_synonym row_data = "(string \<times> row_value) list"

definition row_value_of :: "row_data \<Rightarrow> field_meta \<Rightarrow> row_value" where
  "row_value_of row m = (case map_of row (fm_name m) of None \<Rightarrow> fm_default m | Some v \<Rightarrow> v)"

fun row_items :: "field_meta option list \<Rightarrow> row_data \<Rightarrow> nat \<Rightarrow> (pack_value list \<times> pack_value list) res" where
  "row_items [] row offset = Ok ([], [])"
| "row_items (None # ms) row offset = Raise OtherException"
| "row_items (Some m # ms) row offset =
     res_bind (field_items (fm_type m) (row_value_of row m) offset) (\<lambda>(f, vs).
     res_bind (row_items ms row (offset + sum_list (map item_size vs))) (\<lambda>(fs, vss).
     Ok (f # fs, vs @ vss)))"

definition serialize :: "row_schema \<Rightarrow> row_data \<Rightarrow> bytes res" where
  "serialize sc row =
     res_bind (row_items (sc_orders sc) row (sc_total sc)) (\<lambda>(fixed, variable).
     if length (sc_orders sc) > 255 then Raise ValueError
     else res_bind (struct_pack (fixed @ variable)) (\<lambda>bs. Ok (byte_of (length (sc_orders sc)) # bs)))"

section \<open>Unpacking\<close>

definition slice_at :: "bytes \<Rightarrow> nat \<Rightarrow> nat \<Rightarrow> bytes res" where
  "slice_at data offset n = (if offset + n \<le> length data then Ok (take n (drop offset data)) else Raise StructError)"

definition unpack_nat :: "bytes \<Rightarrow> nat \<Rightarrow> nat \<Rightarrow> nat res" where
  "unpack_nat data offset n = res_bind (slice_at data offset n) (\<lambda>bs. Ok (le_nat bs))"

definition decode_slice :: "bytes \<Rightarrow> nat \<Rightarrow> nat \<Rightarrow> string res" where
  "decode_slice data offset n =
     (case bytes_decode (take n (drop offset data)) of None \<Rightarrow> Raise ValueError | Some s \<Rightarrow> Ok s)"

fun read_strings :: "bytes \<Rightarrow> nat \<Rightarrow> nat \<Rightarrow> string list res" where
  "read_strings data offset 0 = Ok []"
| "read_strings data offset (Suc n) =
     res_bind (unpack_nat data offset 2) (\<lambda>len.
     res_bind (decode_slice data (offset + 2) len) (\<lambda>s.
     res_bind (read_strings data (offset + 2 + len) n) (\<lambda>ss. Ok (s # ss))))"

fun read_nats :: "bytes \<Rightarrow> nat \<Rightarrow> nat \<Rightarrow> nat \<Rightarrow> nat list res" where
  "read_nats data offset width 0 = Ok []"
| "read_nats data offset width (Suc n) =
     res_bind (unpack_nat data offset width) (\<lambda>k.
     res_bind (read_nats data (offset + width) width n) (\<lambda>ks. Ok (k # ks)))"

definition deserialize_value :: "bytes \<Rightarrow> field_type \<Rightarrow> nat \<Rightarrow> row_value res" where
  "deserialize_value data t offset =
     (case t of
        FT_int64 \<Rightarrow> res_bind (unpack_nat data offset 8) (\<lambda>u. Ok (VInt (signed_of u)))
      | FT_uint64 \<Rightarrow> res_bind (unpack_nat data offset 8) (\<lambda>u. Ok (VInt (int u)))
      | FT_float32 \<Rightarrow> res_bind (unpack_nat data offset 4) (\<lambda>u. Ok (VFloat (of_nat u)))
      | FT_boolean \<Rightarrow> if offset < length data then Ok (VBool (data ! offset \<noteq> 0)) else Raise IndexError
      | FT_string \<Rightarrow>
          res_bind (unpack_nat data offset 4) (\<lambda>p. res_bind (unpack_nat data p 2) (\<lambda>n.
          res_bind (decode_slice data (p + 2) n) (\<lambda>s. Ok (VStr s))))
      | FT_binary \<Rightarrow>
          res_bind (unpack_nat data offset 4) (\<lambda>p. res_bind (unpack_nat data p 4) (\<lambda>n.
          Ok (VBytes (take n (drop (p + 4) data)))))
      | FT_text \<Rightarrow>
          res_bind (unpack_nat data offset 4) (\<lambda>p. res_bind (unpack_nat data p 4) (\<lambda>n.
          res_bind (decode_slice data (p + 4) n) (\<lambda>s. Ok (VStr s))))
      | FT_list_string \<Rightarrow>
          res_bind (unpack_nat data offset 4) (\<lambda>p. res_bind (unpack_nat data p 2) (\<lambda>n.
          res_bind (read_strings data (p + 2) n) (\<lambda>ss. Ok (VStrs ss))))
      | FT_list_int64 \<Rightarrow>
          res_bind (unpack_nat data offset 4) (\<lambda>p. res_bind (unpack_nat data p 2) (\<lambda>n.
          res_bind (read_nats data (p + 2) 8 n) (\<lambda>ks. Ok (VInts (map signed_of ks)))))
      | FT_list_float32 \<Rightarrow>
          res_bind (unpack_nat data offset 4) (\<lambda>p. res_bind (unpack_nat data p 2) (\<lambda>n.
          res_bind (read_nats data (p + 2) 4 n) (\<lambda>ks. Ok (VFloats (map of_nat ks))))))"

definition deserialize_field :: "row_schema \<Rightarrow> bytes \<Rightarrow> string \<Rightarrow> row_value res" where
  "deserialize_field sc data field_name =
     (case map_of (sc_metas sc) field_name of
        None \<Rightarrow> Raise KeyError
      | Some m \<Rightarrow>
          (case data of
             [] \<Rightarrow> Raise IndexError
           | b # _ \<Rightarrow> if fm_id m \<ge> unat b then Ok (fm_default m) else deserialize_value data (fm_type m) (fm_offset m)))"

definition deserialize :: "row_schema \<Rightarrow> bytes \<Rightarrow> row_data res" where
  "deserialize sc data =
     fold_res (\<lambda>d om. case om of None \<Rightarrow> Raise OtherException
                 | Some m \<Rightarrow> res_bind (deserialize_field sc data (fm_name m)) (\<lambda>v. Ok (dict_set d (fm_name m) v)))
       [] (sc_orders sc)"

definition field_default :: "field_def \<Rightarrow> row_value" where
  "field_default f = (case fd_default f of None \<Rightarrow> snd (type_info (fd_type f)) | Some v \<Rightarrow> v)"

section \<open>Numbers\<close>

lemma length_le_bytes [simp]: "length (le_bytes n k) = n"
  by (induction n k rule: le_bytes.induct) simp_all

lemma le_nat_le_bytes [simp]: "le_nat (le_bytes n k) = k mod 256 ^ n"
proof (induction n k rule: le_bytes.induct)
  case (2 n k)
  have "k mod 256 + 256 * ((k div 256) mod 256 ^ n) = k mod (256 * 256 ^ n)"
    by (simp add: mod_mult2_eq)
  then show ?case using 2 by simp
qed simp

lemma signed_of_wrap: "- (2 ^ 63) \<le> i \<Longrightarrow> i < 2 ^ 63 \<Longrightarrow> signed_of (nat (i mod 2 ^ 64)) = i"
proof (cases "0 \<le> i")
  case False
  assume *: "- (2 ^ 63) \<le> i" "i < 2 ^ 63"
  have "i mod 2 ^ 64 = (i + 2 ^ 64) mod 2 ^ 64" by simp
  also have "\<dots> = i + 2 ^ 64" by (rule mod_pos_pos_trivial) (use False * in simp_all)
  finally show ?thesis using False * by (simp add: signed_of_def)
qed (simp add: signed_of_def)

section \<open>Bytes at an offset\<close>

definition stored_at :: "bytes \<Rightarrow> nat \<Rightarrow> bytes \<Rightarrow> bool" where
  "stored_at data p bs \<longleftrightarrow> (\<exists>pre post. data = pre @ bs @ post \<and> length pre = p)"

lemma stored_at_append:
  "stored_at data p (a @ b) \<longleftrightarrow> stored_at data p a \<and> stored_at data (p + length a) b"
proof
  assume "stored_at data p (a @ b)"
  then obtain pre post where "data = pre @ a @ b @ post" "length pre = p"
    by (auto simp: stored_at_def)
  then show "stored_at data p a \<and> stored_at data (p + length a) b"
    unfolding stored_at_def by (metis append.assoc length_append)
next
  assume "stored_at data p a \<and> stored_at data (p + length a) b"
  then obtain pre post pre' post' where *: "data = pre @ a @ post" "length pre = p"
    "data = pre' @ b @ post'" "length pre' = p + length a"
    unfolding stored_at_def by blast
  then have "post = b @ post'" by (metis append.assoc append_eq_append_conv length_append)
  then show "stored_at data p (a @ b)" using * by (auto simp: stored_at_def)
qed

lemma stored_at_slice:
  assumes "stored_at data p bs"
  shows "slice_at data p (length bs) = Ok bs" "take (length bs) (drop p data) = bs"
  using assms by (auto simp: stored_at_def slice_at_def)

lemma unpack_stored:
  assumes "stored_at data p (le_bytes n k)" "k < 256 ^ n"
  shows "unpack_nat data p n = Ok k"
  using stored_at_slice [OF assms(1)] assms(2) by (simp add: unpack_nat_def)

lemma decode_stored:
  assumes "stored_at data p (str_encode s)"
  shows "decode_slice data p (length (str_encode s)) = Ok s"
  using stored_at_slice [OF assms] by (simp add: decode_slice_def)

section \<open>Packed items\<close>

lemma pack_item_length: "pack_item x = Ok bs \<Longrightarrow> length bs = item_size x"
  by (cases x) (auto split: if_splits)

lemma struct_pack_Nil [simp]: "struct_pack [] = Ok []"
  by (simp add: struct_pack_def)

lemma struct_pack_Cons:
  "struct_pack (x # xs) = Ok bs \<longleftrightarrow> (\<exists>a b. pack_item x = Ok a \<and> struct_pack xs = Ok b \<and> bs = a @ b)"
  by (auto simp: struct_pack_def res_bind_Ok_iff)

lemma struct_pack_append:
  "struct_pack (xs @ ys) = Ok bs \<longleftrightarrow> (\<exists>a b. struct_pack xs = Ok a \<and> struct_pack ys = Ok b \<and> bs = a @ b)"
proof (induction xs arbitrary: bs)
  case (Cons x xs)
  show ?case by (auto simp: struct_pack_Cons Cons)
qed simp

lemma struct_pack_length: "struct_pack xs = Ok bs \<Longrightarrow> length bs = sum_list (map item_size xs)"
  by (induction xs arbitrary: bs) (auto simp: struct_pack_Cons dest: pack_item_length)

lemma read_nats_signed:
  "struct_pack (map Pq is) = Ok bs \<Longrightarrow> stored_at data p bs \<Longrightarrow>
   \<exists>ks. read_nats data p 8 (length is) = Ok ks \<and> map signed_of ks = is"
proof (induction "is" arbitrary: p bs)
  case (Cons i "is")
  then obtain b where b: "- (2 ^ 63) \<le> i" "i < 2 ^ 63" "struct_pack (map Pq is) = Ok b"
      "bs = le_bytes 8 (nat (i mod 2 ^ 64)) @ b"
    by (auto simp: struct_pack_Cons split: if_splits)
  then have st: "stored_at data p (le_bytes 8 (nat (i mod 2 ^ 64)))" "stored_at data (p + 8) b"
    using Cons.prems by (simp_all add: stored_at_append)
  have "nat (i mod 2 ^ 64) < 256 ^ 8" by (simp add: nat_less_iff)
  with unpack_stored [OF st(1)] have "unpack_nat data p 8 = Ok (nat (i mod 2 ^ 64))" by simp
  moreover obtain ks where "read_nats data (p + 8) 8 (length is) = Ok ks" "map signed_of ks = is"
    using Cons.IH [OF b(3) st(2)] by blast
  ultimately show ?case using signed_of_wrap b(1,2) by simp
qed simp

lemma read_nats_float:
  "struct_pack (map Pf ws) = Ok bs \<Longrightarrow> stored_at data p bs \<Longrightarrow>
   read_nats data p 4 (length ws) = Ok (map unat ws)"
proof (induction ws arbitrary: p bs)
  case (Cons w ws)
  then obtain b where b: "struct_pack (map Pf ws) = Ok b" "bs = le_bytes 4 (unat w) @ b"
    by (auto simp: struct_pack_Cons)
  then have st: "stored_at data p (le_bytes 4 (unat w))" "stored_at data (p + 4) b"
    using Cons.prems by (simp_all add: stored_at_append)
  have "unat w < 256 ^ 4" using unsigned_less [of w, where 'a = nat] by simp
  with unpack_stored [OF st(1)] Cons.IH [OF b(1) st(2)] show ?case by simp
qed simp

lemma read_strings_stored:
  "string_items ss = Ok items \<Longrightarrow> struct_pack items = Ok bs \<Longrightarrow> stored_at data p bs \<Longrightarrow>
   read_strings data p (length ss) = Ok ss"
proof (induction ss arbitrary: p items bs)
  case (Cons s ss)
  then obtain its b where b: "\<not> length (str_encode s) > STRING_MAX_UINT16_LENGTH" "string_items ss = Ok its"
      "struct_pack its = Ok b" "bs = le_bytes 2 (length (str_encode s)) @ str_encode s @ b"
    by (auto simp: Let_def res_bind_Ok_iff struct_pack_Cons split: if_splits)
  then have st: "stored_at data p (le_bytes 2 (length (str_encode s)))" "stored_at data (p + 2) (str_encode s)"
      "stored_at data (p + 2 + length (str_encode s)) b"
    using Cons.prems(3) by (simp_all add: stored_at_append)
  have "length (str_encode s) < 256 ^ 2" using b(1) by (simp add: STRING_MAX_UINT16_LENGTH_def)
  with unpack_stored [OF st(1)] decode_stored [OF st(2)] Cons.IH [OF b(2,3) st(3)] show ?case by simp
qed simp

section \<open>One field\<close>

lemma field_items_sizes:
  assumes "field_items t v off = Ok (f, vs)"
  shows "item_size f = fst (type_info t)"
  using assms by (auto simp: field_items_def type_info_def Let_def res_bind_Ok_iff
      split: field_type.splits row_value.splits if_splits)

lemma fixed_roundtrip:
  assumes "field_items t v off = Ok (f, [])" "pack_item f = Ok fb" "stored_at data p fb"
  shows "deserialize_value data t p = Ok v"
proof -
  have less: "unat w < 256 ^ 4" for w :: "32 word" using unsigned_less [of w, where 'a = nat] by simp
  have wrap: "nat (i mod 2 ^ 64) < 256 ^ 8" for i :: int by (simp add: nat_less_iff)
  consider (i) i where "t = FT_int64" "v = VInt i" "f = Pq i" | (u) i where "t = FT_uint64" "v = VInt i" "f = PQ i"
    | (f) w where "t = FT_float32" "v = VFloat w" "f = Pf w"
    | (b) b where "t = FT_boolean" "v = VBool b" "f = PB (if b then 1 else 0)"
    using assms(1) by (auto simp: field_items_def Let_def res_bind_Ok_iff
        split: field_type.splits row_value.splits if_splits)
  then show ?thesis
  proof cases
    case i
    then have "- (2 ^ 63) \<le> i" "i < 2 ^ 63" "stored_at data p (le_bytes 8 (nat (i mod 2 ^ 64)))"
      using assms(2,3) by (auto split: if_splits)
    with unpack_stored [OF _ wrap] signed_of_wrap i show ?thesis by (simp add: deserialize_value_def)
  next
    case u
    then have "0 \<le> i" "i < 2 ^ 64" "stored_at data p (le_bytes 8 (nat i))"
      using assms(2,3) by (auto split: if_splits)
    with unpack_stored [of data p 8 "nat i"] u show ?thesis by (simp add: deserialize_value_def nat_less_iff)
  next
    case f
    then have "stored_at data p (le_bytes 4 (unat w))" using assms(2,3) by simp
    with unpack_stored [OF _ less] f show ?thesis by (simp add: deserialize_value_def)
  next
    case b
    then have "stored_at data p [byte_of (if b then 1 else 0)]" using assms(2,3) by (auto split: if_splits)
    then have "p < length data" "data ! p = byte_of (if b then 1 else 0)"
      by (auto simp: stored_at_def nth_append)
    with b show ?thesis by (simp add: deserialize_value_def byte_of_def)
  qed
qed

lemma variable_roundtrip:
  assumes "field_items t v off = Ok (f, vs)" "vs \<noteq> []" "pack_item f = Ok fb" "struct_pack vs = Ok vb"
    "stored_at data p fb" "stored_at data off vb"
  shows "deserialize_value data t p = Ok v"
proof -
  have f: "f = PI off"
    using assms(1,2) by (auto simp: field_items_def Let_def res_bind_Ok_iff
        split: field_type.splits row_value.splits if_splits)
  then have at: "unpack_nat data p 4 = Ok off"
    using assms(3,5) unpack_stored [of data p 4 off] by (auto split: if_splits)
  show ?thesis
    using assms(1,2,4,6) at
    by (auto simp: field_items_def deserialize_value_def Let_def res_bind_Ok_iff
        struct_pack_Cons stored_at_append unpack_stored decode_stored stored_at_slice
        read_nats_float read_strings_stored STRING_MAX_UINT16_LENGTH_def
        split: field_type.splits row_value.splits if_splits) (use read_nats_signed in blast, rule map_idI, simp)
qed

lemma field_roundtrip:
  assumes "field_items t v off = Ok (f, vs)" "pack_item f = Ok fb" "struct_pack vs = Ok vb"
    "stored_at data p fb" "stored_at data off vb"
  shows "deserialize_value data t p = Ok v"
  using assms fixed_roundtrip variable_roundtrip by (cases "vs = []") blast+

section \<open>Rows\<close>

lemma length_field_metas [simp]: "length (field_metas flds off) = length flds"
  by (induction flds off rule: field_metas.induct) simp_all

lemma field_metas_append:
  "field_metas (xs @ ys) off = field_metas xs off @ field_metas ys (total_bytes xs off)"
  by (induction xs off rule: field_metas.induct) simp_all

lemma field_metas_map [simp]:
  "map fm_name (field_metas flds off) = map fd_name flds"
  "map fm_id (field_metas flds off) = map fd_id flds"
  "map fm_default (field_metas flds off) = map field_default flds"
  by (induction flds off rule: field_metas.induct) (simp_all add: field_default_def)

lemma row_items_size:
  "row_items (map Some (field_metas flds p)) row off = Ok (fs, vs) \<Longrightarrow>
   p + sum_list (map item_size fs) = total_bytes flds p"
  by (induction flds p arbitrary: off fs vs rule: field_metas.induct)
    (auto simp: res_bind_Ok_iff field_items_sizes add.assoc [symmetric])

lemma row_roundtrip:
  "row_items (map Some (field_metas flds p)) row off = Ok (fs, vs) \<Longrightarrow>
   struct_pack fs = Ok fb \<Longrightarrow> struct_pack vs = Ok vb \<Longrightarrow> stored_at data p fb \<Longrightarrow> stored_at data off vb \<Longrightarrow>
   m \<in> set (field_metas flds p) \<Longrightarrow> deserialize_value data (fm_type m) (fm_offset m) = Ok (row_value_of row m)"
proof (induction flds p arbitrary: off fs vs fb vb rule: field_metas.induct)
  case (2 g flds p)
  let ?m = "hd (field_metas (g # flds) p)"
  obtain f vs1 fs2 vs2 where r: "field_items (fd_type g) (row_value_of row ?m) off = Ok (f, vs1)"
      "row_items (map Some (field_metas flds (p + fst (type_info (fd_type g))))) row
         (off + sum_list (map item_size vs1)) = Ok (fs2, vs2)" "fs = f # fs2" "vs = vs1 @ vs2"
    using 2(2) by (auto simp: res_bind_Ok_iff)
  obtain fb1 fb2 vb1 vb2 where b: "pack_item f = Ok fb1" "struct_pack fs2 = Ok fb2" "fb = fb1 @ fb2"
      "struct_pack vs1 = Ok vb1" "struct_pack vs2 = Ok vb2" "vb = vb1 @ vb2"
    using 2(3,4) r by (auto simp: struct_pack_Cons struct_pack_append)
  have l: "length fb1 = fst (type_info (fd_type g))" "length vb1 = sum_list (map item_size vs1)"
    using pack_item_length [OF b(1)] field_items_sizes [OF r(1)] struct_pack_length [OF b(4)] by simp_all
  have st: "stored_at data p fb1" "stored_at data (p + fst (type_info (fd_type g))) fb2"
      "stored_at data off vb1" "stored_at data (off + sum_list (map item_size vs1)) vb2"
    using 2(5,6) b(3,6) l by (simp_all add: stored_at_append)
  show ?case
  proof (cases "m = ?m")
    case True
    then show ?thesis using field_roundtrip [OF r(1) b(1,4) st(1,3)] by simp
  next
    case False
    then show ?thesis using 2(1) [OF r(2) b(2,5) st(2,4)] 2(7) by simp
  qed
qed simp

section \<open>Schemas\<close>

lemma orders_fold:
  "map fm_id ms = [k..<k + length ms] \<Longrightarrow> k + length ms \<le> length os \<Longrightarrow>
   foldl (\<lambda>os m. os[fm_id m := Some m]) os ms = take k os @ map Some ms @ drop (k + length ms) os"
proof (induction ms arbitrary: k os)
  case (Cons m ms)
  have id: "fm_id m = k" "map fm_id ms = [Suc k..<Suc k + length ms]"
    using Cons.prems(1) by (simp_all add: upt_conv_Cons del: upt_Suc)
  have "foldl (\<lambda>os m. os[fm_id m := Some m]) os (m # ms)
      = take (Suc k) (os[k := Some m]) @ map Some ms @ drop (Suc k + length ms) (os[k := Some m])"
    using Cons.IH [OF id(2), of "os[k := Some m]"] Cons.prems(2) id(1) by simp
  also have "\<dots> = take k os @ map Some (m # ms) @ drop (k + length (m # ms)) os"
    using Cons.prems(2) by (simp add: take_Suc_conv_app_nth)
  finally show ?case .
qed simp

lemma dict_set_fresh: "k \<notin> fst ` set d \<Longrightarrow> dict_set d k v = d @ [(k, v)]"
  by (induction d k v rule: dict_set.induct) auto

lemma metas_fold:
  "distinct (map fst d @ map fm_name ms) \<Longrightarrow>
   foldl (\<lambda>d m. dict_set d (fm_name m) m) d ms = d @ map (\<lambda>m. (fm_name m, m)) ms"
  by (induction ms arbitrary: d) (auto simp: dict_set_fresh)

definition numbered :: "field_def list \<Rightarrow> bool" where
  "numbered flds \<longleftrightarrow> map fd_id flds = [0..<length flds] \<and> distinct (map fd_name flds)"

lemma Schema_numbered:
  assumes "numbered flds"
  shows "Schema flds = Ok \<lparr>sc_metas = map (\<lambda>m. (fm_name m, m)) (field_metas flds 1),
    sc_orders = map Some (field_metas flds 1), sc_total = total_bytes flds 1\<rparr>"
proof -
  have id: "map fd_id flds = [0..<length flds]" and "distinct (map fd_name flds)"
    using assms by (simp_all add: numbered_def)
  have "fd_id f < length flds" if "f \<in> set flds" for f
    using that arg_cong [OF id, of set] by auto
  then have "\<not> list_ex (\<lambda>f. fd_id f \<ge> length flds) flds" by (auto simp: list_ex_iff not_le)
  moreover have "foldl (\<lambda>os m. os[fm_id m := Some m]) (replicate (length flds) None) (field_metas flds 1)
      = map Some (field_metas flds 1)"
    using orders_fold [of "field_metas flds 1" 0 "replicate (length flds) None"] id by simp
  moreover have "foldl (\<lambda>d m. dict_set d (fm_name m) m) [] (field_metas flds 1)
      = map (\<lambda>m. (fm_name m, m)) (field_metas flds 1)"
    using metas_fold [of "[]" "field_metas flds 1"] \<open>distinct _\<close> by simp
  ultimately show ?thesis by (simp add: Schema_def Let_def)
qed

lemma deserialize_fold:
  assumes "distinct (map fst d @ map fm_name ms)"
    "\<And>m. m \<in> set ms \<Longrightarrow> deserialize_field sc data (fm_name m) = Ok (g m)"
  shows "fold_res (\<lambda>d om. case om of None \<Rightarrow> Raise OtherException
                 | Some m \<Rightarrow> res_bind (deserialize_field sc data (fm_name m)) (\<lambda>v. Ok (dict_set d (fm_name m) v)))
       d (map Some ms) = Ok (d @ map (\<lambda>m. (fm_name m, g m)) ms)"
  using assms by (induction ms arbitrary: d) (auto simp: dict_set_fresh)

text \<open>What a row keeps of a field: the value given for it, or the field's default.\<close>

definition given :: "row_data \<Rightarrow> field_def \<Rightarrow> row_value" where
  "given row f = (case map_of row (fd_name f) of None \<Rightarrow> field_default f | Some v \<Rightarrow> v)"

lemma numbered_append: "numbered (xs @ ys) \<Longrightarrow> numbered xs"
  by (simp add: numbered_def upt_add_eq_append [of 0 "length xs"])

lemma numbered_ids:
  assumes "numbered (old @ added)"
  shows "m \<in> set (field_metas old p) \<Longrightarrow> fm_id m < length old"
    "m \<in> set (field_metas added q) \<Longrightarrow> length old \<le> fm_id m"
proof -
  have ids: "map fd_id old @ map fd_id added = [0..<length old] @ [length old..<length (old @ added)]"
    using assms by (simp add: numbered_def upt_add_eq_append [of 0 "length old"])
  then have *: "map fm_id (field_metas old p) = [0..<length old]"
      "map fm_id (field_metas added q) = [length old..<length (old @ added)]"
    by (simp_all add: append_eq_append_conv)
  have "fm_id m \<in> set (map fm_id (field_metas flds k))" if "m \<in> set (field_metas flds k)" for flds k
    using that by (simp only: set_map imageI)
  from this [of old p, unfolded *] this [of added q, unfolded *]
  show "m \<in> set (field_metas old p) \<Longrightarrow> fm_id m < length old"
    "m \<in> set (field_metas added q) \<Longrightarrow> length old \<le> fm_id m"
    by simp_all
qed

lemma map_field_metas:
  "map (\<lambda>m. (fm_name m, row_value_of row m)) (field_metas flds p) = map (\<lambda>f. (fd_name f, given row f)) flds"
  "map (\<lambda>m. (fm_name m, fm_default m)) (field_metas flds p) = map (\<lambda>f. (fd_name f, field_default f)) flds"
  by (induction flds p rule: field_metas.induct) (simp_all add: row_value_of_def given_def field_default_def split: option.splits)

lemma serialize_layout:
  assumes "numbered old" "Schema old = Ok sc" "serialize sc row = Ok data"
  obtains fs vs fb vb where "row_items (map Some (field_metas old 1)) row (total_bytes old 1) = Ok (fs, vs)"
    "struct_pack fs = Ok fb" "struct_pack vs = Ok vb" "stored_at data 1 fb" "stored_at data (total_bytes old 1) vb"
    "data = byte_of (length old) # fb @ vb" "length old \<le> 255"
proof -
  obtain fs vs fb vb where r: "row_items (map Some (field_metas old 1)) row (total_bytes old 1) = Ok (fs, vs)"
    "struct_pack fs = Ok fb" "struct_pack vs = Ok vb" "data = byte_of (length old) # fb @ vb" "length old \<le> 255"
    using assms by (auto simp: Schema_numbered serialize_def res_bind_Ok_iff struct_pack_append split: if_splits)
  have "total_bytes old 1 = length (byte_of (length old) # fb)"
    using row_items_size [OF r(1)] struct_pack_length [OF r(2)] by simp
  then have "stored_at data 1 fb" "stored_at data (total_bytes old 1) vb"
    using r(4) unfolding stored_at_def
    by (metis append_Cons append_Nil length_Cons list.size(3) One_nat_def, metis append_Cons append.assoc append_Nil2)
  then show thesis using that r by blast
qed

lemma row_growth:
  assumes "numbered (old @ added)" "Schema old = Ok sc" "Schema (old @ added) = Ok sc'"
    "serialize sc row = Ok data"
  shows "deserialize sc' data =
      Ok (map (\<lambda>f. (fd_name f, given row f)) old @ map (\<lambda>f. (fd_name f, field_default f)) added)"
    and "f \<in> set old \<Longrightarrow> deserialize_field sc' data (fd_name f) = Ok (given row f)"
proof -
  let ?o = "field_metas old 1" and ?a = "field_metas added (total_bytes old 1)"
  have num: "numbered old" using assms(1) by (rule numbered_append)
  have sc': "sc_metas sc' = map (\<lambda>m. (fm_name m, m)) (?o @ ?a)" "sc_orders sc' = map Some (?o @ ?a)"
    using assms(3) Schema_numbered [OF assms(1)] by (auto simp: field_metas_append simp del: One_nat_def)
  have dist: "distinct (map fm_name (?o @ ?a))"
    using assms(1) by (simp add: numbered_def)
  obtain fs vs fb vb where r: "row_items (map Some ?o) row (total_bytes old 1) = Ok (fs, vs)"
    "struct_pack fs = Ok fb" "struct_pack vs = Ok vb" "stored_at data 1 fb" "stored_at data (total_bytes old 1) vb"
    "data = byte_of (length old) # fb @ vb" "length old \<le> 255"
    using serialize_layout [OF num assms(2,4)] .
  have look: "deserialize_field sc' data (fm_name m) =
      (if length old \<le> fm_id m then Ok (fm_default m) else deserialize_value data (fm_type m) (fm_offset m))"
    if "m \<in> set (?o @ ?a)" for m
  proof -
    have "map_of (sc_metas sc') (fm_name m) = Some m"
      unfolding sc'(1) using that dist by (intro map_of_is_SomeI) (auto simp: comp_def)
    then show ?thesis using r(6,7) by (simp add: deserialize_field_def)
  qed
  define g where "g m = (if fm_id m < length old then row_value_of row m else fm_default m)" for m
  have get: "deserialize_field sc' data (fm_name m) = Ok (g m)" if "m \<in> set (?o @ ?a)" for m
    using that look [OF that] numbered_ids [OF assms(1), of m] row_roundtrip [OF r(1-5), of m]
    by (fastforce simp: g_def)
  then have "deserialize sc' data = Ok (map (\<lambda>m. (fm_name m, g m)) (?o @ ?a))"
    unfolding deserialize_def sc'(2) using deserialize_fold [of "[]" "?o @ ?a" sc' data g] dist by simp
  also have "map (\<lambda>m. (fm_name m, g m)) (?o @ ?a)
      = map (\<lambda>m. (fm_name m, row_value_of row m)) ?o @ map (\<lambda>m. (fm_name m, fm_default m)) ?a"
    using numbered_ids [OF assms(1)] by (auto simp: g_def) (metis leD)
  finally show "deserialize sc' data =
      Ok (map (\<lambda>f. (fd_name f, given row f)) old @ map (\<lambda>f. (fd_name f, field_default f)) added)"
    by (simp add: map_field_metas)
  show "deserialize_field sc' data (fd_name f) = Ok (given row f)" if "f \<in> set old"
  proof -
    have "(fd_name f, given row f) \<in> set (map (\<lambda>m. (fm_name m, row_value_of row m)) ?o)"
      using that by (simp add: map_field_metas)
    then obtain m where "m \<in> set ?o" "fm_name m = fd_name f" "row_value_of row m = given row f" by auto
    then show ?thesis using get [of m] numbered_ids(1) [OF assms(1)] by (auto simp: g_def)
  qed
qed

text \<open>C15. A row that was written under a schema is read back under the same schema, and under every schema that
  was later extended with further fields, as exactly the values that were given for it: the fields missing from the
  row have the defaults the schema gives them, and the fields the schema did not have yet have theirs. Rows whose
  strings or numbers do not fit are refused when they are written, so that nothing that is read was cut short.\<close>

theorem row_survives_schema_growth:
  assumes "numbered (old @ added)" "Schema old = Ok sc" "Schema (old @ added) = Ok sc'"
    "serialize sc row = Ok data"
  shows "deserialize sc' data =
    Ok (map (\<lambda>f. (fd_name f, given row f)) old @ map (\<lambda>f. (fd_name f, field_default f)) added)"
  using assms by (rule row_growth)

lemma not_isl_bind: "\<not> isl (res_bind r f) \<Longrightarrow> \<exists>v w. r = Inr v \<and> f v = Inr w"
  by (cases r) (auto simp: isl_def, metis old.sum.exhaust)

definition example_old :: "field_def list" where
  "example_old = [\<lparr>fd_name = ''id'', fd_type = FT_int64, fd_id = 0, fd_default = None\<rparr>,
     \<lparr>fd_name = ''name'', fd_type = FT_string, fd_id = 1, fd_default = None\<rparr>]"

definition example_added :: "field_def list" where
  "example_added = [\<lparr>fd_name = ''tags'', fd_type = FT_list_string, fd_id = 2, fd_default = Some (VStrs [])\<rparr>]"

theorem row_survives_schema_growth_witness:
  "\<exists>sc sc' data. Schema example_old = Ok sc \<and> Schema (example_old @ example_added) = Ok sc' \<and>
     serialize sc [(''id'', VInt (- 2))] = Ok data \<and>
     deserialize sc' data = Ok [(''id'', VInt (- 2)), (''name'', VStr ''default''), (''tags'', VStrs [])]"
proof -
  have num: "numbered (example_old @ example_added)" by code_simp
  have "length (str_encode ''default'') = 7" by code_simp
  then have "\<not> isl (res_bind (Schema example_old) (\<lambda>sc. serialize sc [(''id'', VInt (- 2))]))"
    unfolding Schema_numbered [OF numbered_append [OF num]]
    by (simp add: serialize_def example_old_def row_value_of_def field_items_def type_info_def struct_pack_def
        STRING_MAX_UINT16_LENGTH_def)
  then obtain sc data where *: "Schema example_old = Ok sc" "serialize sc [(''id'', VInt (- 2))] = Ok data"
    by (blast dest: not_isl_bind)
  obtain sc' where "Schema (example_old @ example_added) = Ok sc'" using Schema_numbered [OF num] by blast
  note * = *(1) this *(2)
  have "map (\<lambda>f. (fd_name f, given [(''id'', VInt (- 2))] f)) example_old @
      map (\<lambda>f. (fd_name f, field_default f)) example_added
    = [(''id'', VInt (- 2)), (''name'', VStr ''default''), (''tags'', VStrs [])]" by code_simp
  then show ?thesis using row_survives_schema_growth [OF num *] * by metis
qed

end
