(* ===== verification/Vector_Store.thy ===== *)
theory Vector_Store
  imports Bytes_Row
begin

text \<open>
  The store of a vector collection, \<^verbatim>\<open>storage/vectordb/store/\<close>: the rows of candidates and delta records
  (\<^verbatim>\<open>data.py\<close>), the ordered key-value engine and its proxy with table prefixes (\<^verbatim>\<open>local_store.py\<close>), and
  the store manager (\<^verbatim>\<open>store_manager.py\<close>) with the tables of candidates, of deltas and of expiry times.

  A key is the UTF-8 encoding of the Python string, which is what the engine compares; prefixes, concatenation
  and the order of strings agree with those of their encodings. The engine is the ordered map of
  \<^verbatim>\<open>src/store/volatile_store.cpp\<close>, a list sorted by key; a batch is applied as a whole. The readings of the
  clock are arguments.
\<close>

section \<open>Candidates and delta records\<close>

record candidate =
  cd_label :: nat
  cd_vector :: "32 word list"
  cd_terms :: "string list"
  cd_values :: "32 word list"
  cd_fields :: string
  cd_expire :: nat

record delta =
  dl_type :: nat
  dl_label :: nat
  dl_vector :: "32 word list"
  dl_terms :: "string list"
  dl_values :: "32 word list"
  dl_fields :: string
  dl_old_fields :: string

definition UPSERT :: nat where "UPSERT = 0"
definition DELETE :: nat where "DELETE = 1"

definition new_candidate :: candidate where
  "new_candidate = \<lparr>cd_label = 0, cd_vector = [], cd_terms = [], cd_values = [], cd_fields = [], cd_expire = 0\<rparr>"

definition new_delta :: "nat \<Rightarrow> delta" where
  "new_delta t = \<lparr>dl_type = t, dl_label = 0, dl_vector = [], dl_terms = [], dl_values = [], dl_fields = [],
     dl_old_fields = []\<rparr>"

text \<open>The fields the decorator finds, numbered in the order of the class (\<^verbatim>\<open>serializable.py\<close>).\<close>

definition schema_fields :: "(string \<times> field_type) list \<Rightarrow> field_def list" where
  "schema_fields ann = map (\<lambda>(idx, (n, t)). \<lparr>fd_name = n, fd_type = t, fd_id = idx, fd_default = None\<rparr>)
     (enumerate 0 ann)"

definition candidate_fields :: "field_def list" where
  "candidate_fields = schema_fields [(''label'', FT_uint64), (''vector'', FT_list_float32),
     (''sparse_raw_terms'', FT_list_string), (''sparse_values'', FT_list_float32), (''fields'', FT_string),
     (''expire_ns_ts'', FT_uint64)]"

definition delta_fields :: "field_def list" where
  "delta_fields = schema_fields [(''type'', FT_uint64), (''label'', FT_uint64), (''vector'', FT_list_float32),
     (''sparse_raw_terms'', FT_list_string), (''sparse_values'', FT_list_float32), (''fields'', FT_string),
     (''old_fields'', FT_string)]"

definition candidate_asdict :: "candidate \<Rightarrow> row_data" where
  "candidate_asdict c = [(''label'', VInt (int (cd_label c))), (''vector'', VFloats (cd_vector c)),
     (''sparse_raw_terms'', VStrs (cd_terms c)), (''sparse_values'', VFloats (cd_values c)),
     (''fields'', VStr (cd_fields c)), (''expire_ns_ts'', VInt (int (cd_expire c)))]"

definition delta_asdict :: "delta \<Rightarrow> row_data" where
  "delta_asdict d = [(''type'', VInt (int (dl_type d))), (''label'', VInt (int (dl_label d))),
     (''vector'', VFloats (dl_vector d)), (''sparse_raw_terms'', VStrs (dl_terms d)),
     (''sparse_values'', VFloats (dl_values d)), (''fields'', VStr (dl_fields d)),
     (''old_fields'', VStr (dl_old_fields d))]"

definition serialize_candidate :: "candidate \<Rightarrow> bytes res" where
  "serialize_candidate c = res_bind (Schema candidate_fields) (\<lambda>sc. serialize sc (candidate_asdict c))"

definition serialize_delta :: "delta \<Rightarrow> bytes res" where
  "serialize_delta d = res_bind (Schema delta_fields) (\<lambda>sc. serialize sc (delta_asdict d))"

text \<open>\<^verbatim>\<open>setattr\<close> for each entry of the row.\<close>

definition candidate_setattr :: "candidate \<Rightarrow> string \<times> row_value \<Rightarrow> candidate" where
  "candidate_setattr c kv = (case kv of (k, v) \<Rightarrow>
     if k = ''label'' then (case v of VInt i \<Rightarrow> c\<lparr>cd_label := nat i\<rparr> | _ \<Rightarrow> c)
     else if k = ''vector'' then (case v of VFloats x \<Rightarrow> c\<lparr>cd_vector := x\<rparr> | _ \<Rightarrow> c)
     else if k = ''sparse_raw_terms'' then (case v of VStrs x \<Rightarrow> c\<lparr>cd_terms := x\<rparr> | _ \<Rightarrow> c)
     else if k = ''sparse_values'' then (case v of VFloats x \<Rightarrow> c\<lparr>cd_values := x\<rparr> | _ \<Rightarrow> c)
     else if k = ''fields'' then (case v of VStr x \<Rightarrow> c\<lparr>cd_fields := x\<rparr> | _ \<Rightarrow> c)
     else if k = ''expire_ns_ts'' then (case v of VInt i \<Rightarrow> c\<lparr>cd_expire := nat i\<rparr> | _ \<Rightarrow> c)
     else c)"

definition delta_setattr :: "delta \<Rightarrow> string \<times> row_value \<Rightarrow> delta" where
  "delta_setattr d kv = (case kv of (k, v) \<Rightarrow>
     if k = ''type'' then (case v of VInt i \<Rightarrow> d\<lparr>dl_type := nat i\<rparr> | _ \<Rightarrow> d)
     else if k = ''label'' then (case v of VInt i \<Rightarrow> d\<lparr>dl_label := nat i\<rparr> | _ \<Rightarrow> d)
     else if k = ''vector'' then (case v of VFloats x \<Rightarrow> d\<lparr>dl_vector := x\<rparr> | _ \<Rightarrow> d)
     else if k = ''sparse_raw_terms'' then (case v of VStrs x \<Rightarrow> d\<lparr>dl_terms := x\<rparr> | _ \<Rightarrow> d)
     else if k = ''sparse_values'' then (case v of VFloats x \<Rightarrow> d\<lparr>dl_values := x\<rparr> | _ \<Rightarrow> d)
     else if k = ''fields'' then (case v of VStr x \<Rightarrow> d\<lparr>dl_fields := x\<rparr> | _ \<Rightarrow> d)
     else if k = ''old_fields'' then (case v of VStr x \<Rightarrow> d\<lparr>dl_old_fields := x\<rparr> | _ \<Rightarrow> d)
     else d)"

definition candidate_from_bytes :: "bytes \<Rightarrow> candidate res" where
  "candidate_from_bytes data =
     (if data = [] then Ok new_candidate
      else res_bind (Schema candidate_fields) (\<lambda>sc. res_bind (deserialize sc data) (\<lambda>row.
        Ok (foldl candidate_setattr new_candidate row))))"

definition delta_from_bytes :: "bytes \<Rightarrow> delta res" where
  "delta_from_bytes data =
     (if data = [] then Ok (new_delta UPSERT)
      else res_bind (Schema delta_fields) (\<lambda>sc. res_bind (deserialize sc data) (\<lambda>row.
        Ok (foldl delta_setattr (new_delta UPSERT) row))))"

section \<open>The engine\<close>

type_synonym kv = "(bytes \<times> bytes) list"

fun kv_put :: "kv \<Rightarrow> bytes \<Rightarrow> bytes \<Rightarrow> kv" where
  "kv_put [] k v = [(k, v)]"
| "kv_put ((k', v') # db) k v =
     (if k < k' then (k, v) # (k', v') # db
      else if k = k' then (k, v) # db
      else (k', v') # kv_put db k v)"

definition kv_erase :: "kv \<Rightarrow> bytes \<Rightarrow> kv" where
  "kv_erase db k = filter (\<lambda>p. fst p \<noteq> k) db"

definition get_data :: "kv \<Rightarrow> bytes list \<Rightarrow> bytes list" where
  "get_data db keys = map (\<lambda>k. case map_of db k of None \<Rightarrow> [] | Some v \<Rightarrow> v) keys"

definition seek_range :: "kv \<Rightarrow> bytes \<Rightarrow> bytes \<Rightarrow> kv" where
  "seek_range db start_key end_key =
     takeWhile (\<lambda>p. fst p < end_key) (dropWhile (\<lambda>p. fst p < start_key) db)"

fun page_rows :: "kv \<Rightarrow> bytes \<Rightarrow> nat \<Rightarrow> nat \<Rightarrow> nat \<Rightarrow> nat \<Rightarrow> kv" where
  "page_rows [] end_key limit max_bytes count page_bytes = []"
| "page_rows ((k, v) # db) end_key limit max_bytes count page_bytes =
     (if k < end_key \<and> count < limit then
        (let item_bytes = length k + length v in
         if count > 0 \<and> (page_bytes \<ge> max_bytes \<or> item_bytes > max_bytes - page_bytes) then []
         else (k, v) # page_rows db end_key limit max_bytes (count + 1) (page_bytes + item_bytes))
      else [])"

definition seek_range_page :: "kv \<Rightarrow> bytes \<Rightarrow> bytes \<Rightarrow> nat \<Rightarrow> nat \<Rightarrow> bool \<Rightarrow> kv" where
  "seek_range_page db start_key end_key limit max_bytes start_exclusive =
     (if limit = 0 \<or> max_bytes = 0 then []
      else page_rows (dropWhile (\<lambda>p. if start_exclusive then fst p \<le> start_key else fst p < start_key) db)
             end_key limit max_bytes 0 0)"

datatype op_type = OP_PUT | OP_DEL

record storage_op =
  so_type :: op_type
  so_key :: bytes
  so_value :: bytes

definition apply_op :: "kv \<Rightarrow> storage_op \<Rightarrow> kv" where
  "apply_op db op = (case so_type op of OP_PUT \<Rightarrow> kv_put db (so_key op) (so_value op) | OP_DEL \<Rightarrow> kv_erase db (so_key op))"

definition exec_op :: "kv \<Rightarrow> storage_op list \<Rightarrow> kv" where
  "exec_op db ops = foldl apply_op db ops"

section \<open>The proxy with its tables\<close>

definition MAX_UNICODE_CHAR :: bytes where "MAX_UNICODE_CHAR = [0xF4, 0x8F, 0xBF, 0xBF]"
definition STORE_SCAN_PAGE_SIZE :: nat where "STORE_SCAN_PAGE_SIZE = 1024"
definition STORE_SCAN_PAGE_BYTES :: nat where "STORE_SCAN_PAGE_BYTES = 32 * 1024 * 1024"

definition store_read :: "kv \<Rightarrow> bytes list \<Rightarrow> bytes \<Rightarrow> bytes list" where
  "store_read db keys table_name = (if keys = [] then [] else get_data db (map (\<lambda>k. table_name @ k) keys))"

definition store_write :: "kv \<Rightarrow> bytes list \<Rightarrow> bytes list \<Rightarrow> bytes \<Rightarrow> kv" where
  "store_write db keys values table_name =
     foldl (\<lambda>db (k, v). kv_put db k v) db (zip (map (\<lambda>k. table_name @ k) keys) values)"

definition store_delete :: "kv \<Rightarrow> bytes list \<Rightarrow> bytes \<Rightarrow> kv" where
  "store_delete db keys table_name = foldl kv_erase db (map (\<lambda>k. table_name @ k) keys)"

definition store_clear :: "kv \<Rightarrow> kv" where
  "store_clear db = []"

text \<open>The entries of a table without the prefix; entries of another table are skipped.\<close>

definition strip_table :: "bytes \<Rightarrow> kv \<Rightarrow> kv" where
  "strip_table table_name kvs = map (\<lambda>(k, v). (drop (length table_name) k, v)) (filter (\<lambda>p. prefix table_name (fst p)) kvs)"

definition read_all :: "kv \<Rightarrow> bytes \<Rightarrow> kv" where
  "read_all db table_name = strip_table table_name (seek_range db table_name (table_name @ MAX_UNICODE_CHAR))"

definition begin_to_seek :: "kv \<Rightarrow> bytes \<Rightarrow> bytes \<Rightarrow> kv" where
  "begin_to_seek db end_key table_name = strip_table table_name (seek_range db table_name (table_name @ end_key))"

definition seek_to_end :: "kv \<Rightarrow> bytes \<Rightarrow> bytes \<Rightarrow> kv" where
  "seek_to_end db start_key table_name =
     strip_table table_name (seek_range db (table_name @ start_key) (table_name @ MAX_UNICODE_CHAR))"

lemma page_rows_subset: "set (page_rows db e l m c b) \<subseteq> set db"
  by (induction db e l m c b rule: page_rows.induct) (auto simp: Let_def)

lemma seek_range_page_subset: "set (seek_range_page db s e l m x) \<subseteq> set db"
  by (auto simp: seek_range_page_def dest!: set_mp [OF page_rows_subset] set_dropWhileD)

text \<open>The loop over the pages; the rows it yields before an error are lost with the generator.\<close>

function iter_pages :: "kv \<Rightarrow> bytes \<Rightarrow> nat \<Rightarrow> nat \<Rightarrow> bytes \<Rightarrow> bool \<Rightarrow> kv res" where
  "iter_pages db table_name page_size page_bytes cursor start_exclusive =
     (let page = seek_range_page db cursor (table_name @ MAX_UNICODE_CHAR) page_size page_bytes start_exclusive in
      if page = [] then Ok []
      else let next_cursor = fst (last page) in
        if next_cursor < cursor \<or> (start_exclusive \<and> next_cursor \<le> cursor) then Raise RuntimeError
        else res_bind (iter_pages db table_name page_size page_bytes next_cursor True) (\<lambda>rows.
             Ok (strip_table table_name page @ rows)))"
  by pat_completeness auto
termination
proof (relation "measure (\<lambda>(db, t, ps, pb, cursor, x). length (filter (\<lambda>p. cursor < fst p) db) + (if x then 0 else 1))",
    goal_cases)
  case (2 db table_name page_size page_bytes cursor start_exclusive page next_cursor)
  have "last page \<in> set db" using 2(1,2) seek_range_page_subset last_in_set by blast
  then have in_db: "\<exists>p \<in> set db. fst p = next_cursor" using 2(3) by blast
  have le: "cursor \<le> next_cursor" "start_exclusive \<Longrightarrow> cursor < next_cursor" using 2(4) by auto
  have sub: "length (filter (\<lambda>p. next_cursor < fst p) db) \<le> length (filter (\<lambda>p. cursor < fst p) db)"
    using le(1) by (induction db) auto
  have "length (filter (\<lambda>p. next_cursor < fst p) db) < length (filter (\<lambda>p. cursor < fst p) db)" if start_exclusive
    using in_db le(2) [OF that]
  proof (induction db)
    case (Cons q db)
    have "length (filter (\<lambda>p. next_cursor < fst p) db) \<le> length (filter (\<lambda>p. cursor < fst p) db)"
      using le(1) by (induction db) auto
    then show ?case using Cons by auto
  qed simp
  then show ?case using sub by auto
qed simp

declare iter_pages.simps [simp del]

definition iter_all :: "kv \<Rightarrow> bytes \<Rightarrow> nat \<Rightarrow> nat \<Rightarrow> kv res" where
  "iter_all db table_name page_size page_bytes =
     (if page_size = 0 then Raise ValueError
      else if page_bytes = 0 then Raise ValueError
      else iter_pages db table_name page_size page_bytes table_name False)"

record batch_op =
  bo_table :: bytes
  bo_types :: "op_type + op_type list"
  bo_keys :: "bytes list"
  bo_data :: "bytes list"

definition batch_op_type :: "batch_op \<Rightarrow> nat \<Rightarrow> op_type res" where
  "batch_op_type b i =
     (case bo_types b of
        Inl t \<Rightarrow> Ok t
      | Inr ts \<Rightarrow> if i < length ts then Ok (ts ! i) else case ts of [] \<Rightarrow> Raise IndexError | t # _ \<Rightarrow> Ok t)"

definition batch_engine_ops :: "batch_op \<Rightarrow> storage_op list res" where
  "batch_engine_ops b =
     res_map (\<lambda>(i, key). res_bind (batch_op_type b i) (\<lambda>t.
        Ok \<lparr>so_type = t, so_key = bo_table b @ key, so_value = if i < length (bo_data b) then bo_data b ! i else []\<rparr>))
       (enumerate 0 (bo_keys b))"

definition exec_sequence_batch_op :: "kv \<Rightarrow> batch_op list \<Rightarrow> kv res" where
  "exec_sequence_batch_op db batch_op_list =
     res_bind (res_map batch_engine_ops batch_op_list) (\<lambda>opss. Ok (exec_op db (concat opss)))"

section \<open>The store manager\<close>

text \<open>\<^verbatim>\<open>str\<close> of a natural number.\<close>

fun dec :: "nat \<Rightarrow> bytes" where
  "dec n = (if n < 10 then [byte_of (48 + n)] else dec (n div 10) @ [byte_of (48 + n mod 10)])"

declare dec.simps [simp del]

definition CandsTable :: bytes where "CandsTable = str_encode ''C''"
definition DeltaTable :: bytes where "DeltaTable = str_encode ''D''"
definition TTLTable :: bytes where "TTLTable = str_encode ''T''"

definition put_batch :: "bytes \<Rightarrow> bytes list \<Rightarrow> bytes list \<Rightarrow> batch_op" where
  "put_batch table keys values =
     \<lparr>bo_table = table, bo_types = Inr (replicate (length keys) OP_PUT), bo_keys = keys, bo_data = values\<rparr>"

definition del_batch :: "bytes \<Rightarrow> bytes list \<Rightarrow> batch_op" where
  "del_batch table keys =
     \<lparr>bo_table = table, bo_types = Inr (replicate (length keys) OP_DEL), bo_keys = keys,
      bo_data = map (\<lambda>_. []) keys\<rparr>"

text \<open>One field of a stored candidate.\<close>

definition candidate_str :: "bytes \<Rightarrow> string \<Rightarrow> string res" where
  "candidate_str data field_name = res_bind (Schema candidate_fields) (\<lambda>sc.
     res_bind (deserialize_field sc data field_name) (\<lambda>v. case v of VStr s \<Rightarrow> Ok s | _ \<Rightarrow> Raise OtherException))"

definition candidate_int :: "bytes \<Rightarrow> string \<Rightarrow> nat res" where
  "candidate_int data field_name = res_bind (Schema candidate_fields) (\<lambda>sc.
     res_bind (deserialize_field sc data field_name) (\<lambda>v. case v of VInt i \<Rightarrow> Ok (nat i) | _ \<Rightarrow> Raise OtherException))"

definition old_cands_fields :: "kv \<Rightarrow> nat list \<Rightarrow> string list res" where
  "old_cands_fields db labels =
     res_map (\<lambda>data. if data = [] then Ok [] else candidate_str data ''fields'')
       (store_read db (map dec labels) CandsTable)"

definition upsert_delta :: "candidate \<Rightarrow> string \<Rightarrow> delta" where
  "upsert_delta c old_fields =
     \<lparr>dl_type = UPSERT, dl_label = cd_label c, dl_vector = cd_vector c, dl_terms = cd_terms c,
      dl_values = cd_values c, dl_fields = cd_fields c, dl_old_fields = old_fields\<rparr>"

definition delete_delta :: "nat \<Rightarrow> string \<Rightarrow> delta" where
  "delete_delta label old_fields = (new_delta DELETE)\<lparr>dl_label := label, dl_old_fields := old_fields\<rparr>"

definition delta_batch :: "nat \<Rightarrow> delta list \<Rightarrow> batch_op res" where
  "delta_batch base_ts delta_list = res_bind (res_map serialize_delta delta_list) (\<lambda>values.
     Ok (put_batch DeltaTable (map (\<lambda>i. dec (base_ts + i)) [0..<length delta_list]) values))"

definition add_cands_data ::
  "nat \<Rightarrow> nat \<Rightarrow> candidate list \<Rightarrow> nat \<Rightarrow> bool \<Rightarrow> kv \<Rightarrow> (delta list \<times> candidate list \<times> kv) res" where
  "add_cands_data base_ts now cands_list ttl need_delta db =
     res_bind
       (if need_delta
        then res_bind (old_cands_fields db (map cd_label cands_list)) (\<lambda>olds.
             let delta_list = map2 upsert_delta cands_list olds
             in res_bind (delta_batch base_ts delta_list) (\<lambda>b. Ok (delta_list, [b])))
        else Ok ([], []))
       (\<lambda>(delta_list, delta_ops).
        let cands = (if ttl > 0 then map (\<lambda>c. c\<lparr>cd_expire := now + ttl * 1000000000\<rparr>) cands_list else cands_list)
        in res_bind (res_map serialize_candidate cands) (\<lambda>values.
           let cand_ops = [put_batch CandsTable (map (\<lambda>c. dec (cd_label c)) cands) values];
               ttl_ops = (if ttl > 0
                          then [put_batch TTLTable (map (\<lambda>c. dec (cd_expire c)) cands) (map (\<lambda>c. dec (cd_label c)) cands)]
                          else [])
           in res_bind (exec_sequence_batch_op db (delta_ops @ cand_ops @ ttl_ops)) (\<lambda>db'.
              Ok (delta_list, cands, db'))))"

definition delete_data :: "nat \<Rightarrow> nat list \<Rightarrow> bool \<Rightarrow> kv \<Rightarrow> (delta list \<times> kv) res" where
  "delete_data base_ts label_list need_record_delta db =
     res_bind
       (if need_record_delta
        then res_bind (old_cands_fields db label_list) (\<lambda>olds.
             let delta_list = map2 delete_delta label_list olds
             in res_bind (delta_batch base_ts delta_list) (\<lambda>b. Ok (delta_list, [b])))
        else Ok ([], []))
       (\<lambda>(delta_list, delta_ops).
        res_bind (exec_sequence_batch_op db (delta_ops @ [del_batch CandsTable (map dec label_list)])) (\<lambda>db'.
        Ok (delta_list, db')))"

definition fetch_cands_data :: "kv \<Rightarrow> nat list \<Rightarrow> candidate option list res" where
  "fetch_cands_data db label_list =
     res_map (\<lambda>data. if data = [] then Ok None else res_bind (candidate_from_bytes data) (\<lambda>c. Ok (Some c)))
       (store_read db (map dec label_list) CandsTable)"

definition fetch_cands_fields :: "kv \<Rightarrow> nat list \<Rightarrow> string option list res" where
  "fetch_cands_fields db label_list =
     res_map (\<lambda>data. if data = [] then Ok None else res_bind (candidate_str data ''fields'') (\<lambda>c. Ok (Some c)))
       (store_read db (map dec label_list) CandsTable)"

definition get_all_cands_data :: "kv \<Rightarrow> candidate list res" where
  "get_all_cands_data db =
     res_bind (iter_all db CandsTable STORE_SCAN_PAGE_SIZE STORE_SCAN_PAGE_BYTES) (\<lambda>rows.
     res_map (\<lambda>p. candidate_from_bytes (snd p)) rows)"

definition get_delta_data_after_ts :: "kv \<Rightarrow> nat \<Rightarrow> delta list res" where
  "get_delta_data_after_ts db ns_ts = res_map (\<lambda>p. delta_from_bytes (snd p)) (seek_to_end db (dec ns_ts) DeltaTable)"

definition delete_delta_data_before_ts :: "kv \<Rightarrow> nat \<Rightarrow> (delta list \<times> kv) res" where
  "delete_delta_data_before_ts db ns_ts =
     (let delta_kv_list = begin_to_seek db (dec ns_ts) DeltaTable
      in res_bind (res_map (\<lambda>p. delta_from_bytes (snd p)) delta_kv_list) (\<lambda>delta_list.
         Ok (delta_list, store_delete db (map fst delta_kv_list) DeltaTable)))"

text \<open>The candidates named by the expired entries, those that are gone or that expire later left out.\<close>

fun expired_cands :: "nat \<Rightarrow> bytes list \<Rightarrow> (nat \<times> string) list res" where
  "expired_cands now_time [] = Ok []"
| "expired_cands now_time (data # rest) =
     (if data = [] then expired_cands now_time rest
      else res_bind (candidate_int data ''expire_ns_ts'') (\<lambda>expire_ts.
        if expire_ts \<le> now_time
        then res_bind (candidate_int data ''label'') (\<lambda>label.
             res_bind (candidate_str data ''fields'') (\<lambda>flds.
             res_bind (expired_cands now_time rest) (\<lambda>more. Ok ((label, flds) # more))))
        else expired_cands now_time rest))"

definition expire_data :: "nat \<Rightarrow> nat \<Rightarrow> kv \<Rightarrow> (delta list \<times> kv) res" where
  "expire_data now_time base_ts db =
     (let ttl_kv_list = begin_to_seek db (dec now_time) TTLTable in
      res_bind (res_map (\<lambda>p. case bytes_decode (snd p) of None \<Rightarrow> Raise ValueError | Some s \<Rightarrow> Ok (str_encode s)) ttl_kv_list)
        (\<lambda>labels.
      res_bind (expired_cands now_time (store_read db labels CandsTable)) (\<lambda>expired.
      let delta_list = map (\<lambda>(label, flds). delete_delta label flds) expired in
      res_bind
        (if expired = [] then Ok []
         else res_bind (delta_batch base_ts delta_list) (\<lambda>b.
              Ok [del_batch CandsTable (map (\<lambda>e. dec (fst e)) expired), b]))
        (\<lambda>ops.
      let ttl_ops = (if ttl_kv_list = [] then [] else [del_batch TTLTable (map fst ttl_kv_list)])
      in res_bind (exec_sequence_batch_op db (ops @ ttl_ops)) (\<lambda>db'. Ok (delta_list, db'))))))"

section \<open>Rows of candidates and deltas\<close>

lemma numbered_fields: "numbered candidate_fields" "numbered delta_fields"
  by code_simp+

lemma schema_of_fields:
  obtains sc sd where "Schema candidate_fields = Ok sc" "Schema delta_fields = Ok sd"
  using Schema_numbered numbered_fields by blast

lemma serialize_nonempty: "serialize sc row = Ok bs \<Longrightarrow> bs \<noteq> []"
  by (auto simp: serialize_def res_bind_Ok_iff split: if_splits)

lemma candidate_row:
  "map (\<lambda>f. (fd_name f, given (candidate_asdict c) f)) candidate_fields = candidate_asdict c"
  by (simp add: candidate_fields_def schema_fields_def given_def candidate_asdict_def)

lemma delta_row:
  "map (\<lambda>f. (fd_name f, given (delta_asdict d) f)) delta_fields = delta_asdict d"
  by (simp add: delta_fields_def schema_fields_def given_def delta_asdict_def)

lemma candidate_attrs: "foldl candidate_setattr new_candidate (candidate_asdict c) = c"
  by (simp add: candidate_asdict_def candidate_setattr_def new_candidate_def)

lemma delta_attrs: "foldl delta_setattr (new_delta t) (delta_asdict d) = d"
  by (simp add: delta_asdict_def delta_setattr_def new_delta_def)

lemma candidate_roundtrip:
  assumes "serialize_candidate c = Ok bs"
  shows "bs \<noteq> []" "candidate_from_bytes bs = Ok c"
proof -
  obtain sc where sc: "Schema candidate_fields = Ok sc" "serialize sc (candidate_asdict c) = Ok bs"
    using assms by (auto simp: serialize_candidate_def res_bind_Ok_iff)
  show ne: "bs \<noteq> []" using serialize_nonempty sc(2) by blast
  have "deserialize sc bs = Ok (candidate_asdict c)"
    using row_growth(1) [of candidate_fields "[]" sc sc, simplified, OF numbered_fields(1) sc(1) sc(2)] candidate_row
    by simp
  then show "candidate_from_bytes bs = Ok c"
    using ne sc(1) by (simp add: candidate_from_bytes_def candidate_attrs)
qed

lemma delta_roundtrip:
  assumes "serialize_delta d = Ok bs"
  shows "delta_from_bytes bs = Ok d"
proof -
  obtain sc where sc: "Schema delta_fields = Ok sc" "serialize sc (delta_asdict d) = Ok bs"
    using assms by (auto simp: serialize_delta_def res_bind_Ok_iff)
  have "deserialize sc bs = Ok (delta_asdict d)"
    using row_growth(1) [of delta_fields "[]" sc sc, simplified, OF numbered_fields(2) sc(1) sc(2)] delta_row
    by simp
  then show "delta_from_bytes bs = Ok d"
    using serialize_nonempty [OF sc(2)] sc(1) by (simp add: delta_from_bytes_def delta_attrs)
qed

lemma candidate_field_reads:
  assumes "serialize_candidate c = Ok bs"
  shows "candidate_str bs ''fields'' = Ok (cd_fields c)" "candidate_int bs ''label'' = Ok (cd_label c)"
    "candidate_int bs ''expire_ns_ts'' = Ok (cd_expire c)"
proof -
  obtain sc where sc: "Schema candidate_fields = Ok sc" "serialize sc (candidate_asdict c) = Ok bs"
    using assms by (auto simp: serialize_candidate_def res_bind_Ok_iff)
  have get: "deserialize_field sc bs (fd_name f) = Ok (given (candidate_asdict c) f)"
    if "f \<in> set candidate_fields" for f
    using row_growth(2) [of candidate_fields "[]" sc sc, simplified, OF numbered_fields(1) sc(1) sc(2) that] .
  have f: "\<lparr>fd_name = ''fields'', fd_type = FT_string, fd_id = 4, fd_default = None\<rparr> \<in> set candidate_fields"
    "\<lparr>fd_name = ''label'', fd_type = FT_uint64, fd_id = 0, fd_default = None\<rparr> \<in> set candidate_fields"
    "\<lparr>fd_name = ''expire_ns_ts'', fd_type = FT_uint64, fd_id = 5, fd_default = None\<rparr> \<in> set candidate_fields"
    by (simp_all add: candidate_fields_def schema_fields_def)
  show "candidate_str bs ''fields'' = Ok (cd_fields c)" "candidate_int bs ''label'' = Ok (cd_label c)"
    "candidate_int bs ''expire_ns_ts'' = Ok (cd_expire c)"
    using get [OF f(1)] get [OF f(2)] get [OF f(3)] sc(1)
    by (simp_all add: candidate_str_def candidate_int_def given_def candidate_asdict_def)
qed

section \<open>The order of the engine\<close>

definition kv_ordered :: "kv \<Rightarrow> bool" where
  "kv_ordered db \<longleftrightarrow> sorted_wrt (<) (map fst db)"

lemma kv_ordered_Cons: "kv_ordered (p # db) \<longleftrightarrow> (\<forall>q\<in>set db. fst p < fst q) \<and> kv_ordered db"
  by (auto simp: kv_ordered_def)

lemma kv_ordered_filter: "kv_ordered db \<Longrightarrow> kv_ordered (filter P db)"
  by (induction db) (auto simp: kv_ordered_Cons)

lemma set_kv_put: "set (kv_put db k v) \<subseteq> insert (k, v) (set db)"
  by (induction db k v rule: kv_put.induct) auto

lemma kv_ordered_put: "kv_ordered db \<Longrightarrow> kv_ordered (kv_put db k v)"
  by (induction db k v rule: kv_put.induct)
    (use set_kv_put in \<open>fastforce simp: kv_ordered_Cons kv_ordered_def [of "[]"]\<close>)+

lemma kv_ordered_apply: "kv_ordered db \<Longrightarrow> kv_ordered (apply_op db op)"
  by (simp add: apply_op_def kv_erase_def kv_ordered_put kv_ordered_filter split: op_type.splits)

lemma kv_ordered_exec: "kv_ordered db \<Longrightarrow> kv_ordered (exec_op db ops)"
  unfolding exec_op_def by (induction ops arbitrary: db) (auto simp: kv_ordered_apply)

lemma map_of_kv_put: "map_of (kv_put db k v) = (map_of db)(k \<mapsto> v)"
  by (induction db k v rule: kv_put.induct) auto

lemma map_of_kv_erase: "map_of (kv_erase db k) = (map_of db)(k := None)"
  by (induction db) (auto simp: kv_erase_def)

lemma takeWhile_ordered: "kv_ordered db \<Longrightarrow> takeWhile (\<lambda>p. fst p < e) db = filter (\<lambda>p. fst p < e) db"
proof (induction db)
  case (Cons p db)
  then have "filter (\<lambda>q. fst q < e) db = []" if "\<not> fst p < e"
    using that by (fastforce simp: kv_ordered_Cons filter_empty_conv)
  then show ?case using Cons by (simp add: kv_ordered_Cons)
qed simp

lemma dropWhile_ordered:
  "kv_ordered db \<Longrightarrow> dropWhile (\<lambda>p. fst p < s) db = filter (\<lambda>p. s \<le> fst p) db"
  "kv_ordered db \<Longrightarrow> dropWhile (\<lambda>p. fst p \<le> s) db = filter (\<lambda>p. s < fst p) db"
  by (induction db) (fastforce simp: kv_ordered_Cons not_less not_le intro!: filter_True [symmetric])+

lemma seek_range_ordered:
  "kv_ordered db \<Longrightarrow> seek_range db s e = filter (\<lambda>p. s \<le> fst p \<and> fst p < e) db"
  by (simp add: seek_range_def dropWhile_ordered takeWhile_ordered kv_ordered_filter conj_commute)

section \<open>Scanning a table page by page\<close>

lemma page_rows_take: "\<exists>n. page_rows db e l m c b = take n (takeWhile (\<lambda>p. fst p < e) db) \<and> (c = 0 \<longrightarrow> 0 < l \<longrightarrow> 0 < n)"
proof (induction db e l m c b rule: page_rows.induct)
  case (2 k v db e l m c b)
  show ?case
  proof (cases "k < e \<and> c < l \<and> \<not> (c > 0 \<and> (b \<ge> m \<or> length k + length v > m - b))")
    case True
    then obtain n where "page_rows db e l m (c + 1) (b + (length k + length v)) = take n (takeWhile (\<lambda>p. fst p < e) db)"
      using 2 by auto
    then have "page_rows ((k, v) # db) e l m c b = take (Suc n) (takeWhile (\<lambda>p. fst p < e) ((k, v) # db))"
      using True by (auto simp: Let_def)
    then show ?thesis by blast
  next
    case False
    then have "page_rows ((k, v) # db) e l m c b = []" "k < e \<Longrightarrow> \<not> (c = 0 \<and> 0 < l)" by (auto simp: Let_def)
    then show ?thesis
      by (cases "k < e") (auto intro: exI [of _ 0] exI [of _ 1])
  qed
qed auto

lemma after_last:
  assumes "kv_ordered (xs @ ys)" "xs \<noteq> []"
  shows "filter (\<lambda>p. fst (last xs) < fst p) (xs @ ys) = ys"
proof -
  have "fst p \<le> fst (last xs)" if "p \<in> set xs" for p
    using assms that by (induction xs) (fastforce simp: kv_ordered_Cons less_imp_le)+
  moreover have "fst (last xs) < fst q" if "q \<in> set ys" for q
    using assms that last_in_set [OF assms(2)] by (force simp: kv_ordered_def sorted_wrt_append)
  ultimately show ?thesis by (auto simp: not_less filter_empty_conv intro!: filter_True)
qed

text \<open>The rows of the range that are behind the cursor.\<close>

definition behind :: "kv \<Rightarrow> bytes \<Rightarrow> bytes \<Rightarrow> bool \<Rightarrow> kv" where
  "behind db e cursor x = filter (\<lambda>p. fst p < e) (filter (\<lambda>p. if x then cursor < fst p else cursor \<le> fst p) db)"

lemma seek_range_page_behind:
  assumes "kv_ordered db" "0 < l" "0 < m"
  obtains n where "seek_range_page db cursor e l m x = take n (behind db e cursor x)" "0 < n"
proof -
  have "dropWhile (\<lambda>p. if x then fst p \<le> cursor else fst p < cursor) db
      = filter (\<lambda>p. if x then cursor < fst p else cursor \<le> fst p) db"
    using dropWhile_ordered [OF assms(1)] by (cases x) simp_all
  then have "seek_range_page db cursor e l m x
      = page_rows (filter (\<lambda>p. if x then cursor < fst p else cursor \<le> fst p) db) e l m 0 0" (is "_ = page_rows ?db _ _ _ _ _")
    using assms(2,3) by (simp add: seek_range_page_def)
  moreover obtain n where "page_rows ?db e l m 0 0 = take n (takeWhile (\<lambda>p. fst p < e) ?db)" "0 < n"
    using page_rows_take [of ?db e l m 0 0] assms(2) by blast
  moreover have "takeWhile (\<lambda>p. fst p < e) ?db = behind db e cursor x"
    unfolding behind_def by (rule takeWhile_ordered [OF kv_ordered_filter [OF assms(1)]])
  ultimately show thesis using that by simp
qed

lemma behind_next:
  assumes "kv_ordered db" "behind db e cursor x = page @ rest" "page \<noteq> []"
  shows "behind db e (fst (last page)) True = rest"
    "\<not> (fst (last page) < cursor \<or> (x \<and> fst (last page) \<le> cursor))"
proof -
  let ?k = "fst (last page)"
  have ord: "kv_ordered (page @ rest)"
    unfolding assms(2) [symmetric] behind_def by (intro kv_ordered_filter assms(1))
  have last: "last page \<in> set (behind db e cursor x)" using assms by simp
  then have k: "if x then cursor < ?k else cursor \<le> ?k" by (auto simp: behind_def split: if_splits)
  then show "\<not> (?k < cursor \<or> (x \<and> ?k \<le> cursor))" by (auto split: if_splits)
  have "behind db e ?k True = filter (\<lambda>p. ?k < fst p) (behind db e cursor x)"
    unfolding behind_def filter_filter
    by (rule filter_cong) (use k in \<open>auto split: if_splits\<close>)
  then show "behind db e ?k True = rest" using after_last [OF ord assms(3)] assms(2) by simp
qed

lemma strip_table_append: "strip_table t (xs @ ys) = strip_table t xs @ strip_table t ys"
  by (simp add: strip_table_def)

lemma iter_pages_behind:
  assumes "kv_ordered db" "0 < ps" "0 < pb"
  shows "iter_pages db t ps pb cursor x = Ok (strip_table t (behind db (t @ MAX_UNICODE_CHAR) cursor x))"
  using assms
proof (induction db t ps pb cursor x rule: iter_pages.induct)
  case (1 db t ps pb cursor x)
  let ?e = "t @ MAX_UNICODE_CHAR"
  obtain n where n: "seek_range_page db cursor ?e ps pb x = take n (behind db ?e cursor x)" "0 < n"
    using seek_range_page_behind 1(2-4) by blast
  show ?case
  proof (cases "behind db ?e cursor x = []")
    case True
    then show ?thesis by (subst iter_pages.simps) (simp add: n strip_table_def)
  next
    case False
    let ?page = "take n (behind db ?e cursor x)" and ?rest = "drop n (behind db ?e cursor x)"
    have ne: "?page \<noteq> []" using False n(2) by simp
    note nxt = behind_next [OF 1(2) append_take_drop_id [symmetric] ne]
    have "iter_pages db t ps pb (fst (last ?page)) True = Ok (strip_table t ?rest)"
      using 1(1) [OF n(1) [symmetric] ne refl nxt(2) 1(2-4)] nxt(1) by simp
    then have "iter_pages db t ps pb cursor x = Ok (strip_table t ?page @ strip_table t ?rest)"
      using ne nxt(2) by (subst iter_pages.simps) (simp add: n(1) Let_def)
    then show ?thesis by (simp flip: strip_table_append)
  qed
qed

lemma read_all_behind:
  "kv_ordered db \<Longrightarrow> read_all db t = strip_table t (behind db (t @ MAX_UNICODE_CHAR) t False)"
  by (simp add: read_all_def seek_range_ordered behind_def conj_commute)

text \<open>C14. Scanning a table in pages yields exactly the rows that reading the whole range yields, in the same
  order and each once, for every positive page size and byte budget - also when a single row is larger than the
  budget of a page - and the scan ends without the error for a cursor that does not advance.\<close>

theorem iter_all_equals_read_all:
  assumes "kv_ordered db" "0 < page_size" "0 < page_bytes"
  shows "iter_all db table_name page_size page_bytes = Ok (read_all db table_name)"
  using assms by (simp add: iter_all_def iter_pages_behind read_all_behind)

theorem iter_all_equals_read_all_witness:
  "iter_all [([67, 49], [1, 2, 3]), ([67, 50], [4]), ([68, 49], [5])] [67] 1 1
   = Ok (read_all [([67, 49], [1, 2, 3]), ([67, 50], [4]), ([68, 49], [5])] [67])"
  by (rule iter_all_equals_read_all) (simp_all add: kv_ordered_def)

end
