(* ===== verification/Vector_Tables.thy ===== *)
theory Vector_Tables
  imports Vector_Store
begin

text \<open>
  The tables of the vector store as maps: candidates by label, delta records and expiry entries by time. The store
  manager of \<^verbatim>\<open>Vector_Store\<close>, which works on encoded rows under textual keys, refines the operations on these maps;
  the order of the textual keys is the order of the times because all times have the same number of digits.
\<close>

section \<open>Textual keys\<close>

definition undec :: "bytes \<Rightarrow> nat" where
  "undec bs = foldl (\<lambda>a b. 10 * a + (unat b - 48)) 0 bs"

lemma undec_dec [simp]: "undec (dec n) = n"
proof (induction n rule: dec.induct)
  case (1 n)
  then show ?case by (subst dec.simps) (simp add: undec_def)
qed

lemma dec_inj [simp]: "dec m = dec n \<longleftrightarrow> m = n"
  by (metis undec_dec)

lemma dec_nonempty [simp]: "dec n \<noteq> []"
  by (subst dec.simps) simp

lemma dec_digits: "b \<in> set (dec n) \<Longrightarrow> 48 \<le> unat b \<and> unat b \<le> 57"
proof (induction n rule: dec.induct)
  case (1 n)
  then show ?case by (cases "n < 10") (auto simp: dec.simps [of n])
qed

lemma length_dec: "10 ^ k \<le> n \<Longrightarrow> n < 10 ^ Suc k \<Longrightarrow> length (dec n) = Suc k"
proof (induction k arbitrary: n)
  case 0
  then show ?case by (subst dec.simps) simp
next
  case (Suc k)
  then have "10 ^ k \<le> n div 10" "n div 10 < 10 ^ Suc k" by (simp_all add: less_mult_imp_div_less mult.commute less_eq_div_iff_mult_less_eq)
  moreover have "\<not> n < 10" using Suc.prems(1) by (metis leD le_trans mult_le_mono2 mult_1_right one_le_numeral one_le_power power_Suc)
  ultimately show ?case using Suc.IH [of "n div 10"] by (subst dec.simps) simp
qed

lemma less_snoc: "length xs = length ys \<Longrightarrow> xs @ [x :: 'a :: linorder] < ys @ [y] \<longleftrightarrow> xs < ys \<or> xs = ys \<and> x < y"
  by (induction xs ys rule: list_induct2) auto

lemma byte_of_less: "a < 256 \<Longrightarrow> b < 256 \<Longrightarrow> byte_of a < byte_of b \<longleftrightarrow> a < b"
  by (simp add: word_less_nat_alt)

lemma dec_less: "length (dec m) = length (dec n) \<Longrightarrow> dec m < dec n \<longleftrightarrow> m < n"
proof (induction m arbitrary: n rule: dec.induct)
  case (1 m)
  have len1: "length (dec k) = 1 \<longleftrightarrow> k < 10" for k by (subst dec.simps) simp
  show ?case
  proof (cases "m < 10")
    case True
    then have "n < 10" using 1(2) len1 by metis
    then show ?thesis using True by (simp add: dec.simps [of m] dec.simps [of n] byte_of_less)
  next
    case False
    then have n: "\<not> n < 10" using 1(2) len1 by metis
    let ?x = "byte_of (48 + m mod 10)" and ?y = "byte_of (48 + n mod 10)"
    have d: "dec m = dec (m div 10) @ [?x]" "dec n = dec (n div 10) @ [?y]"
      using False n by (subst dec.simps, simp)+
    have len: "length (dec (m div 10)) = length (dec (n div 10))" using 1(2) d by simp
    have "?x < ?y \<longleftrightarrow> m mod 10 < n mod 10" by (subst byte_of_less) simp_all
    then have "dec m < dec n \<longleftrightarrow> m div 10 < n div 10 \<or> m div 10 = n div 10 \<and> m mod 10 < n mod 10"
      unfolding d less_snoc [OF len] 1(1) [OF False len] by simp
    also have "\<dots> \<longleftrightarrow> m < n"
      using div_mult_mod_eq [of m 10] div_mult_mod_eq [of n 10] mod_less_divisor [of 10 m] mod_less_divisor [of 10 n]
      by linarith
    finally show ?thesis .
  qed
qed

text \<open>The times whose decimal text has nineteen digits: from 2001 to 2286 in nanoseconds.\<close>

definition epoch :: "nat \<Rightarrow> bool" where
  "epoch t \<longleftrightarrow> 10 ^ 18 \<le> t \<and> t < 10 ^ 19"

lemma epoch_less [simp]: "epoch s \<Longrightarrow> epoch t \<Longrightarrow> dec s < dec t \<longleftrightarrow> s < t"
  by (rule dec_less) (simp add: epoch_def length_dec [of 18])

lemma epoch_le [simp]: "epoch s \<Longrightarrow> epoch t \<Longrightarrow> dec s \<le> dec t \<longleftrightarrow> s \<le> t"
  by (metis dec_inj epoch_less leD le_less linorder_not_le)

lemma table_names: "CandsTable = [67]" "DeltaTable = [68]" "TTLTable = [84]"
  by code_simp+

lemma dec_less_max: "dec n < MAX_UNICODE_CHAR"
proof -
  obtain b bs where d: "dec n = b # bs" using dec_nonempty [of n] by (meson neq_Nil_conv)
  then have "unat b \<le> 57" using dec_digits [of b n] by simp
  then have "b < 0xF4" by (simp add: word_less_nat_alt)
  then show ?thesis using d by (simp add: MAX_UNICODE_CHAR_def)
qed

section \<open>The tables as maps\<close>

record vstore =
  vs_cands :: "nat \<rightharpoonup> candidate"
  vs_deltas :: "nat \<rightharpoonup> delta"
  vs_ttl :: "nat \<rightharpoonup> nat"

definition put_cand :: "vstore \<Rightarrow> candidate \<Rightarrow> vstore" where
  "put_cand vs c = vs\<lparr>vs_cands := (vs_cands vs)(cd_label c \<mapsto> c)\<rparr>"

definition del_cand :: "vstore \<Rightarrow> nat \<Rightarrow> vstore" where
  "del_cand vs l = vs\<lparr>vs_cands := (vs_cands vs)(l := None)\<rparr>"

definition put_delta :: "vstore \<Rightarrow> nat \<times> delta \<Rightarrow> vstore" where
  "put_delta vs e = vs\<lparr>vs_deltas := (vs_deltas vs)(fst e \<mapsto> snd e)\<rparr>"

definition put_ttl :: "vstore \<Rightarrow> nat \<times> nat \<Rightarrow> vstore" where
  "put_ttl vs e = vs\<lparr>vs_ttl := (vs_ttl vs)(fst e \<mapsto> snd e)\<rparr>"

definition del_ttl :: "vstore \<Rightarrow> nat \<Rightarrow> vstore" where
  "del_ttl vs t = vs\<lparr>vs_ttl := (vs_ttl vs)(t := None)\<rparr>"

definition old_fields_of :: "vstore \<Rightarrow> nat \<Rightarrow> string" where
  "old_fields_of vs l = (case vs_cands vs l of None \<Rightarrow> [] | Some c \<Rightarrow> cd_fields c)"

definition log_deltas :: "nat \<Rightarrow> delta list \<Rightarrow> vstore \<Rightarrow> vstore" where
  "log_deltas base_ts ds vs = foldl put_delta vs (enumerate base_ts ds)"

definition with_ttl :: "nat \<Rightarrow> nat \<Rightarrow> candidate list \<Rightarrow> candidate list" where
  "with_ttl now ttl cs = (if ttl > 0 then map (\<lambda>c. c\<lparr>cd_expire := now + ttl * 1000000000\<rparr>) cs else cs)"

definition tables_add :: "nat \<Rightarrow> nat \<Rightarrow> candidate list \<Rightarrow> nat \<Rightarrow> bool \<Rightarrow> vstore \<Rightarrow> delta list \<times> vstore" where
  "tables_add base_ts now cs ttl need_delta vs =
     (let ds = (if need_delta then map (\<lambda>c. upsert_delta c (old_fields_of vs (cd_label c))) cs else []);
          cs' = with_ttl now ttl cs;
          vs' = foldl put_cand (log_deltas base_ts ds vs) cs'
      in (ds, if ttl > 0 then foldl put_ttl vs' (map (\<lambda>c. (cd_expire c, cd_label c)) cs') else vs'))"

definition tables_delete :: "nat \<Rightarrow> nat list \<Rightarrow> bool \<Rightarrow> vstore \<Rightarrow> delta list \<times> vstore" where
  "tables_delete base_ts labels need_delta vs =
     (let ds = (if need_delta then map (\<lambda>l. delete_delta l (old_fields_of vs l)) labels else [])
      in (ds, foldl del_cand (log_deltas base_ts ds vs) labels))"

text \<open>The expiry entries before \<open>now\<close>, oldest first.\<close>

definition due :: "nat \<Rightarrow> vstore \<Rightarrow> nat list" where
  "due now vs = sorted_list_of_set {t \<in> dom (vs_ttl vs). t < now}"

definition expired_of :: "nat \<Rightarrow> vstore \<Rightarrow> candidate list" where
  "expired_of now vs = filter (\<lambda>c. cd_expire c \<le> now)
     (List.map_filter (\<lambda>t. Option.bind (vs_ttl vs t) (vs_cands vs)) (due now vs))"

definition tables_expire :: "nat \<Rightarrow> nat \<Rightarrow> vstore \<Rightarrow> delta list \<times> vstore" where
  "tables_expire now base_ts vs =
     (let gone = expired_of now vs; ds = map (\<lambda>c. delete_delta (cd_label c) (cd_fields c)) gone
      in (ds, foldl del_ttl (log_deltas base_ts ds (foldl del_cand vs (map cd_label gone))) (due now vs)))"

definition deltas_from :: "nat \<Rightarrow> vstore \<Rightarrow> delta list" where
  "deltas_from ns vs = map (\<lambda>t. the (vs_deltas vs t)) (sorted_list_of_set {t \<in> dom (vs_deltas vs). ns \<le> t})"

definition tables_trim :: "nat \<Rightarrow> vstore \<Rightarrow> delta list \<times> vstore" where
  "tables_trim ns vs =
     (map (\<lambda>t. the (vs_deltas vs t)) (sorted_list_of_set {t \<in> dom (vs_deltas vs). t < ns}),
      vs\<lparr>vs_deltas := vs_deltas vs |` {t. ns \<le> t}\<rparr>)"

section \<open>Encoding of the tables\<close>

definition C_key :: "nat \<Rightarrow> bytes" where "C_key l = CandsTable @ dec l"
definition D_key :: "nat \<Rightarrow> bytes" where "D_key t = DeltaTable @ dec t"
definition T_key :: "nat \<Rightarrow> bytes" where "T_key t = TTLTable @ dec t"

lemma key_eqs [simp]:
  "C_key a = C_key b \<longleftrightarrow> a = b" "D_key a = D_key b \<longleftrightarrow> a = b" "T_key a = T_key b \<longleftrightarrow> a = b"
  "C_key a \<noteq> D_key b" "D_key b \<noteq> C_key a" "C_key a \<noteq> T_key b" "T_key b \<noteq> C_key a" "D_key a \<noteq> T_key b" "T_key b \<noteq> D_key a"
  by (simp_all add: C_key_def D_key_def T_key_def table_names)

definition encodes :: "kv \<Rightarrow> vstore \<Rightarrow> bool" where
  "encodes db vs \<longleftrightarrow> kv_ordered db \<and>
     (\<forall>l. rel_option (\<lambda>bs c. serialize_candidate c = Ok bs \<and> cd_label c = l) (map_of db (C_key l)) (vs_cands vs l)) \<and>
     (\<forall>t. rel_option (\<lambda>bs d. serialize_delta d = Ok bs) (map_of db (D_key t)) (vs_deltas vs t)) \<and>
     (\<forall>t. rel_option (\<lambda>bs l. bs = dec l) (map_of db (T_key t)) (vs_ttl vs t)) \<and>
     dom (map_of db) \<subseteq> range C_key \<union> D_key ` {t. epoch t} \<union> T_key ` {t. epoch t}"

definition no_tables :: vstore where
  "no_tables = \<lparr>vs_cands = Map.empty, vs_deltas = Map.empty, vs_ttl = Map.empty\<rparr>"

lemma encodes_empty: "encodes [] no_tables"
  by (simp add: encodes_def no_tables_def kv_ordered_def)

named_theorems enc_steps

lemma kv_ordered_erase: "kv_ordered db \<Longrightarrow> kv_ordered (kv_erase db k)"
  by (simp add: kv_erase_def kv_ordered_filter)

lemma encodes_put_cand [enc_steps]:
  "encodes db vs \<Longrightarrow> serialize_candidate c = Ok bs \<Longrightarrow> encodes (kv_put db (C_key (cd_label c)) bs) (put_cand vs c)"
  by (auto simp: encodes_def put_cand_def map_of_kv_put kv_ordered_put)

lemma encodes_put_delta [enc_steps]:
  "encodes db vs \<Longrightarrow> serialize_delta d = Ok bs \<Longrightarrow> epoch t \<Longrightarrow> encodes (kv_put db (D_key t) bs) (put_delta vs (t, d))"
  by (auto simp: encodes_def put_delta_def map_of_kv_put kv_ordered_put)

lemma encodes_put_ttl [enc_steps]:
  "encodes db vs \<Longrightarrow> epoch t \<Longrightarrow> encodes (kv_put db (T_key t) (dec l)) (put_ttl vs (t, l))"
  by (auto simp: encodes_def put_ttl_def map_of_kv_put kv_ordered_put)

lemma encodes_del_cand [enc_steps]: "encodes db vs \<Longrightarrow> encodes (kv_erase db (C_key l)) (del_cand vs l)"
  by (auto simp: encodes_def del_cand_def map_of_kv_erase kv_ordered_erase)

lemma encodes_del_ttl [enc_steps]: "encodes db vs \<Longrightarrow> encodes (kv_erase db (T_key t)) (del_ttl vs t)"
  by (auto simp: encodes_def del_ttl_def map_of_kv_erase kv_ordered_erase)

section \<open>Batches\<close>

lemma batch_keys [simp]: "bo_keys (put_batch t ks vs) = ks" "bo_keys (del_batch t ks) = ks"
  by (simp_all add: put_batch_def del_batch_def)

lemma put_batch_ops:
  assumes "length ks = length vs"
  shows "batch_engine_ops (put_batch t ks vs) = Ok (map2 (\<lambda>k v. \<lparr>so_type = OP_PUT, so_key = t @ k, so_value = v\<rparr>) ks vs)"
proof -
  have "batch_engine_ops (put_batch t ks vs)
      = Ok (map (\<lambda>(i, key). \<lparr>so_type = OP_PUT, so_key = t @ key, so_value = vs ! i\<rparr>) (enumerate 0 ks))"
    unfolding batch_engine_ops_def batch_keys
    by (rule res_map_all_Ok) (use assms in \<open>auto simp: put_batch_def batch_op_type_def in_set_enumerate_eq\<close>)
  also have "map (\<lambda>(i, key). \<lparr>so_type = OP_PUT, so_key = t @ key, so_value = vs ! i\<rparr>) (enumerate 0 ks)
      = map2 (\<lambda>k v. \<lparr>so_type = OP_PUT, so_key = t @ k, so_value = v\<rparr>) ks vs"
    by (rule nth_equalityI) (use assms in \<open>auto simp: nth_enumerate_eq\<close>)
  finally show ?thesis .
qed

lemma del_batch_ops:
  "batch_engine_ops (del_batch t ks) = Ok (map (\<lambda>k. \<lparr>so_type = OP_DEL, so_key = t @ k, so_value = []\<rparr>) ks)"
proof -
  have "batch_engine_ops (del_batch t ks)
      = Ok (map (\<lambda>(i, key). \<lparr>so_type = OP_DEL, so_key = t @ key, so_value = []\<rparr>) (enumerate 0 ks))"
    unfolding batch_engine_ops_def batch_keys
    by (rule res_map_all_Ok) (auto simp: del_batch_def batch_op_type_def in_set_enumerate_eq)
  also have "map (\<lambda>(i, key). \<lparr>so_type = OP_DEL, so_key = t @ key, so_value = []\<rparr>) (enumerate 0 ks)
      = map (\<lambda>k. \<lparr>so_type = OP_DEL, so_key = t @ k, so_value = []\<rparr>) ks"
    by (rule nth_equalityI) (auto simp: nth_enumerate_eq)
  finally show ?thesis .
qed

lemma exec_batches:
  "exec_sequence_batch_op db [] = Ok db"
  "batch_engine_ops b = Ok ops \<Longrightarrow> exec_sequence_batch_op db (b # bs) = exec_sequence_batch_op (exec_op db ops) bs"
  by (auto simp: exec_sequence_batch_op_def exec_op_def res_bind_def split: sum.splits)

lemma exec_op_Cons: "exec_op db [] = db" "exec_op db (op # ops) = exec_op (apply_op db op) ops"
  by (simp_all add: exec_op_def)

lemma exec_put_cands:
  "list_all2 (\<lambda>c bs. serialize_candidate c = Ok bs) cs bss \<Longrightarrow> encodes db vs \<Longrightarrow>
   encodes (exec_op db (map2 (\<lambda>k v. \<lparr>so_type = OP_PUT, so_key = CandsTable @ k, so_value = v\<rparr>)
     (map (\<lambda>c. dec (cd_label c)) cs) bss)) (foldl put_cand vs cs)"
  by (induction cs bss arbitrary: db vs rule: list_all2_induct)
    (simp_all add: exec_op_Cons apply_op_def enc_steps flip: C_key_def)

lemma exec_put_deltas:
  "list_all2 (\<lambda>d bs. serialize_delta d = Ok bs) ds bss \<Longrightarrow> encodes db vs \<Longrightarrow>
   epoch t \<Longrightarrow> epoch (t + length ds) \<Longrightarrow>
   encodes (exec_op db (map2 (\<lambda>k v. \<lparr>so_type = OP_PUT, so_key = DeltaTable @ k, so_value = v\<rparr>)
     (map dec [t..<t + length ds]) bss)) (log_deltas t ds vs)"
proof (induction ds bss arbitrary: db vs t rule: list_all2_induct)
  case (Cons d ds b bss)
  have "epoch (Suc t)" using Cons.prems by (simp add: epoch_def)
  moreover have "encodes (kv_put db (D_key t) b) (put_delta vs (t, d))" using Cons by (simp add: enc_steps)
  ultimately show ?case
    using Cons.IH [of "kv_put db (D_key t) b" "put_delta vs (t, d)" "Suc t"] Cons.prems
    by (simp add: exec_op_Cons apply_op_def upt_rec [of t] log_deltas_def flip: D_key_def del: upt_Suc)
qed (simp add: exec_op_Cons log_deltas_def)

lemma exec_put_ttls:
  "encodes db vs \<Longrightarrow> (\<And>c. c \<in> set cs \<Longrightarrow> epoch (cd_expire c)) \<Longrightarrow>
   encodes (exec_op db (map2 (\<lambda>k v. \<lparr>so_type = OP_PUT, so_key = TTLTable @ k, so_value = v\<rparr>)
     (map (\<lambda>c. dec (cd_expire c)) cs) (map (\<lambda>c. dec (cd_label c)) cs)))
     (foldl put_ttl vs (map (\<lambda>c. (cd_expire c, cd_label c)) cs))"
  by (induction cs arbitrary: db vs) (simp_all add: exec_op_Cons apply_op_def enc_steps flip: T_key_def)

lemma exec_del_cands:
  "encodes db vs \<Longrightarrow> encodes (exec_op db (map (\<lambda>k. \<lparr>so_type = OP_DEL, so_key = CandsTable @ k, so_value = []\<rparr>) (map dec ls)))
     (foldl del_cand vs ls)"
  by (induction ls arbitrary: db vs) (simp_all add: exec_op_Cons apply_op_def enc_steps flip: C_key_def)

lemma exec_del_ttls:
  "encodes db vs \<Longrightarrow> encodes (exec_op db (map (\<lambda>k. \<lparr>so_type = OP_DEL, so_key = TTLTable @ k, so_value = []\<rparr>) (map dec ts)))
     (foldl del_ttl vs ts)"
  by (induction ts arbitrary: db vs) (simp_all add: exec_op_Cons apply_op_def enc_steps flip: T_key_def)

lemma delta_batch_Ok:
  assumes "delta_batch t ds = Ok b" "encodes db vs" "ds = [] \<or> epoch t \<and> epoch (t + length ds)"
  obtains ops where "batch_engine_ops b = Ok ops" "encodes (exec_op db ops) (log_deltas t ds vs)"
proof -
  obtain bss where b: "list_all2 (\<lambda>d bs. serialize_delta d = Ok bs) ds bss"
      "b = put_batch DeltaTable (map dec [t..<t + length ds]) bss"
  proof -
    have "map (\<lambda>i. dec (t + i)) [0..<length ds] = map dec [t..<t + length ds]"
      by (rule nth_equalityI) auto
    then show thesis using that assms(1) by (auto simp: delta_batch_def res_bind_Ok_iff res_map_Ok_iff)
  qed
  then have len: "length bss = length ds" by (simp add: list_all2_lengthD)
  show thesis
  proof (cases "ds = []")
    case True
    then show ?thesis using that b len assms(2) put_batch_ops [of "[]" "[]"]
      by (simp add: exec_op_Cons log_deltas_def)
  next
    case False
    then show ?thesis
      using that put_batch_ops [of "map dec [t..<t + length ds]" bss DeltaTable] b len
        exec_put_deltas [OF b(1) assms(2)] assms(3) by simp
  qed
qed

section \<open>Reads\<close>

lemma store_read_get: "store_read db ks t = get_data db (map (\<lambda>k. t @ k) ks)"
  by (simp add: store_read_def get_data_def)

text \<open>What the candidate table returns for a label.\<close>

definition stored_row :: "vstore \<Rightarrow> nat \<Rightarrow> bytes \<Rightarrow> bool" where
  "stored_row vs l bs = (case vs_cands vs l of None \<Rightarrow> bs = [] | Some c \<Rightarrow> serialize_candidate c = Ok bs \<and> cd_label c = l)"

lemma read_rows: "encodes db vs \<Longrightarrow> list_all2 (stored_row vs) ls (store_read db (map dec ls) CandsTable)"
proof (unfold store_read_get get_data_def, induction ls)
  case (Cons l ls)
  have "rel_option (\<lambda>bs c. serialize_candidate c = Ok bs \<and> cd_label c = l) (map_of db (C_key l)) (vs_cands vs l)"
    using Cons by (simp add: encodes_def)
  then have "stored_row vs l (case map_of db (C_key l) of None \<Rightarrow> [] | Some v \<Rightarrow> v)"
    by (cases rule: option.rel_cases) (simp_all add: stored_row_def)
  then show ?case using Cons by (simp add: C_key_def)
qed simp

lemma stored_rowD:
  assumes "stored_row vs l bs"
  shows "(if bs = [] then Ok None else res_bind (candidate_from_bytes bs) (\<lambda>c. Ok (Some c))) = Ok (vs_cands vs l)"
    "(if bs = [] then Ok [] else candidate_str bs ''fields'') = Ok (old_fields_of vs l)"
  using assms candidate_roundtrip candidate_field_reads
  by (auto simp: stored_row_def old_fields_of_def split: option.splits)

lemma res_map_map: "res_map f (map g xs) = res_map (\<lambda>x. f (g x)) xs"
  by (induction xs) simp_all

lemma res_map_rel: "list_all2 R xs ys \<Longrightarrow> (\<And>x y. R x y \<Longrightarrow> f y = Ok (g x)) \<Longrightarrow> res_map f ys = Ok (map g xs)"
  by (induction rule: list_all2_induct) auto

lemma fetch_refines: "encodes db vs \<Longrightarrow> fetch_cands_data db ls = Ok (map (vs_cands vs) ls)"
  unfolding fetch_cands_data_def by (rule res_map_rel [OF read_rows stored_rowD(1)])

lemma old_fields_refines: "encodes db vs \<Longrightarrow> old_cands_fields db ls = Ok (map (old_fields_of vs) ls)"
  unfolding old_cands_fields_def by (rule res_map_rel [OF read_rows stored_rowD(2)])

lemma expired_refines:
  assumes "list_all2 (stored_row vs) ls rows"
  shows "expired_cands now rows = Ok (map (\<lambda>c. (cd_label c, cd_fields c))
    (filter (\<lambda>c. cd_expire c \<le> now) (List.map_filter (vs_cands vs) ls)))"
  using assms
proof (induction rule: list_all2_induct)
  case (Cons l ls bs rows)
  show ?case
  proof (cases "vs_cands vs l")
    case None
    then show ?thesis using Cons by (simp add: stored_row_def map_filter_simps)
  next
    case (Some c)
    then have "serialize_candidate c = Ok bs" using Cons by (simp add: stored_row_def)
    then show ?thesis
      using Some Cons candidate_roundtrip(1) candidate_field_reads by (simp add: map_filter_simps)
  qed
qed (simp add: map_filter_simps)

section \<open>Scans\<close>

lemma unique_sorted: "sorted_wrt (<) xs \<Longrightarrow> sorted_wrt (<) ys \<Longrightarrow> set xs = set ys \<Longrightarrow> xs = (ys :: 'a :: linorder list)"
  by (simp add: strict_sorted_equal)

lemma rel_option_None: "rel_option R a b \<Longrightarrow> b = None \<longleftrightarrow> a = None"
  by (cases a; cases b) auto

lemma encodesD:
  assumes "encodes db vs"
  shows "kv_ordered db"
    "rel_option (\<lambda>bs c. serialize_candidate c = Ok bs \<and> cd_label c = l) (map_of db (C_key l)) (vs_cands vs l)"
    "rel_option (\<lambda>bs d. serialize_delta d = Ok bs) (map_of db (D_key t)) (vs_deltas vs t)"
    "rel_option (\<lambda>bs l. bs = dec l) (map_of db (T_key t)) (vs_ttl vs t)"
    "dom (map_of db) \<subseteq> range C_key \<union> D_key ` {t. epoch t} \<union> T_key ` {t. epoch t}"
  using assms by (simp_all add: encodes_def)

lemma encodes_dom:
  assumes "encodes db vs"
  shows "t \<in> dom (vs_deltas vs) \<longleftrightarrow> D_key t \<in> dom (map_of db)" "t \<in> dom (vs_ttl vs) \<longleftrightarrow> T_key t \<in> dom (map_of db)"
  using rel_option_None [OF encodesD(3) [OF assms, of t]] rel_option_None [OF encodesD(4) [OF assms, of t]]
  by (simp_all only: domIff)

lemma encodes_finite:
  assumes "encodes db vs"
  shows "finite (dom (vs_deltas vs))" "finite (dom (vs_ttl vs))" "\<forall>t\<in>dom (vs_deltas vs). epoch t"
    "\<forall>t\<in>dom (vs_ttl vs). epoch t"
proof -
  note * = encodes_dom [OF assms]
  have fin: "finite (dom (map_of db))" by (rule finite_dom_map_of)
  have "D_key ` dom (vs_deltas vs) \<subseteq> dom (map_of db)" "T_key ` dom (vs_ttl vs) \<subseteq> dom (map_of db)"
    using * by blast+
  moreover have "inj_on D_key A" "inj_on T_key A" for A by (simp_all add: inj_on_def)
  ultimately show "finite (dom (vs_deltas vs))" "finite (dom (vs_ttl vs))"
    using fin by (meson finite_imageD finite_subset)+
  have "dom (map_of db) \<subseteq> range C_key \<union> D_key ` {t. epoch t} \<union> T_key ` {t. epoch t}"
    using assms by (simp add: encodes_def)
  then show "\<forall>t\<in>dom (vs_deltas vs). epoch t" "\<forall>t\<in>dom (vs_ttl vs). epoch t"
    using * by fastforce+
qed

text \<open>A range of one table: the entries are those of the keys in the range, in the order of the times.\<close>

lemma table_range:
  assumes ord: "kv_ordered db" and pre: "table = [b]"
    and keys: "\<And>k. k \<in> dom (map_of db) \<Longrightarrow> prefix table k \<Longrightarrow> \<exists>t. k = table @ dec t \<and> epoch t"
    and fin: "finite S" and S: "\<And>t. t \<in> S \<longleftrightarrow> epoch t \<and> table @ dec t \<in> dom (map_of db) \<and> s \<le> table @ dec t \<and> table @ dec t < e"
  shows "strip_table table (seek_range db s e)
    = map (\<lambda>t. (dec t, the (map_of db (table @ dec t)))) (sorted_list_of_set S)"
proof -
  define L where "L = filter (\<lambda>p. prefix table (fst p)) (seek_range db s e)"
  let ?ks = "map (\<lambda>t. table @ dec t) (sorted_list_of_set S)"
  have L: "L = filter (\<lambda>p. prefix table (fst p) \<and> s \<le> fst p \<and> fst p < e) db"
    by (simp add: L_def seek_range_ordered [OF ord] conj_commute)
  have "epoch t" if "t \<in> S" for t using S that by blast
  then have "sorted_wrt (<) ?ks"
    using fin pre strict_sorted_list_of_set [of S]
    by (auto simp: sorted_wrt_map intro: sorted_wrt_mono_rel [of _ "(<)"])
  moreover have "sorted_wrt (<) (map fst L)"
    using kv_ordered_filter [OF ord] unfolding L kv_ordered_def by blast
  moreover have "set (map fst L) = set ?ks"
  proof -
    have "k \<in> set (map fst L) \<longleftrightarrow> k \<in> dom (map_of db) \<and> prefix table k \<and> s \<le> k \<and> k < e" for k
      by (auto simp: L dom_map_of_conv_image_fst)
    moreover have "k \<in> set ?ks \<longleftrightarrow> (\<exists>t\<in>S. k = table @ dec t)" for k using fin by auto
    moreover have "k \<in> dom (map_of db) \<and> prefix table k \<and> s \<le> k \<and> k < e \<longleftrightarrow> (\<exists>t\<in>S. k = table @ dec t)" for k
      using keys [of k] S by (metis prefixI)
    ultimately show ?thesis by blast
  qed
  ultimately have ks: "map fst L = ?ks" by (metis unique_sorted)
  have dist: "distinct (map fst db)" using ord strict_sorted_iff unfolding kv_ordered_def by blast
  have "snd p = the (map_of db (fst p))" if "p \<in> set L" for p
    using that map_of_is_SomeI [OF dist, of "fst p" "snd p"] by (simp add: L)
  then have "map (\<lambda>k. (k, the (map_of db k))) (map fst L) = L"
    by (auto simp: comp_def intro!: map_idI)
  then have "strip_table table (seek_range db s e)
      = map (\<lambda>(k, v). (drop (length table) k, v)) (map (\<lambda>k. (k, the (map_of db k))) ?ks)"
    unfolding strip_table_def L_def [symmetric] ks [symmetric] by metis
  then show ?thesis by (simp add: comp_def)
qed

lemma encodes_keys:
  assumes "encodes db vs" "k \<in> dom (map_of db)"
  shows "prefix DeltaTable k \<Longrightarrow> \<exists>t. k = DeltaTable @ dec t \<and> epoch t"
    "prefix TTLTable k \<Longrightarrow> \<exists>t. k = TTLTable @ dec t \<and> epoch t"
  using encodesD(5) [OF assms(1)] assms(2)
  by (auto simp: C_key_def D_key_def T_key_def table_names)

lemma deltas_from_refines:
  assumes "encodes db vs" "epoch ns"
  shows "get_delta_data_after_ts db ns = Ok (deltas_from ns vs)"
proof -
  let ?S = "{t \<in> dom (vs_deltas vs). ns \<le> t}"
  have mem: "t \<in> ?S \<longleftrightarrow> epoch t \<and> DeltaTable @ dec t \<in> dom (map_of db) \<and> DeltaTable @ dec ns \<le> DeltaTable @ dec t \<and>
      DeltaTable @ dec t < DeltaTable @ MAX_UNICODE_CHAR" for t
    using encodes_dom(1) [OF assms(1), of t] encodes_finite(3) [OF assms(1)] assms(2) dec_less_max [of t]
    by (cases "t \<in> dom (vs_deltas vs)") (simp_all add: D_key_def table_names)
  have "seek_to_end db (dec ns) DeltaTable
      = map (\<lambda>t. (dec t, the (map_of db (DeltaTable @ dec t)))) (sorted_list_of_set ?S)"
    unfolding seek_to_end_def
    by (rule table_range [OF encodesD(1) [OF assms(1)] table_names(2) encodes_keys(1) [OF assms(1)] _ mem])
      (use encodes_finite(1) [OF assms(1)] in auto)
  moreover have "delta_from_bytes (the (map_of db (DeltaTable @ dec t))) = Ok (the (vs_deltas vs t))"
    if "t \<in> ?S" for t
  proof -
    have "vs_deltas vs t \<noteq> None" using that by auto
    with encodesD(3) [OF assms(1), of t] show ?thesis
      by (cases rule: option.rel_cases) (auto simp: delta_roundtrip D_key_def)
  qed
  ultimately show ?thesis
    unfolding get_delta_data_after_ts_def deltas_from_def
    using res_map_all_Ok [of "sorted_list_of_set ?S" "\<lambda>t. delta_from_bytes (the (map_of db (DeltaTable @ dec t)))"
        "\<lambda>t. the (vs_deltas vs t)"] encodes_finite(1) [OF assms(1)]
    by (simp add: res_map_map)
qed

section \<open>The operations\<close>

text \<open>The times an operation writes as keys have nineteen digits.\<close>

definition stamps :: "nat \<Rightarrow> nat \<Rightarrow> bool" where
  "stamps t n \<longleftrightarrow> epoch t \<and> epoch (t + n)"

lemma map2_map_same: "map2 f xs (map g xs) = map (\<lambda>x. f x (g x)) xs"
  by (induction xs) auto

lemma delta_ops_refine:
  assumes "encodes db vs" "stamps t (length ls)" "length ds = length ls"
    "(if need then res_bind (old_cands_fields db ls) (\<lambda>olds. res_bind (delta_batch t (f olds)) (\<lambda>b. Ok (f olds, [b])))
      else Ok ([], [])) = Ok (ds', ops)" "need \<Longrightarrow> f (map (old_fields_of vs) ls) = ds"
  shows "ds' = (if need then ds else [])"
    "\<exists>db1. encodes db1 (log_deltas t ds' vs) \<and> (\<forall>bs. exec_sequence_batch_op db (ops @ bs) = exec_sequence_batch_op db1 bs)"
proof -
  show ds': "ds' = (if need then ds else [])"
    using assms(4,5) old_fields_refines [OF assms(1)] by (auto simp: res_bind_Ok_iff split: if_splits)
  show "\<exists>db1. encodes db1 (log_deltas t ds' vs) \<and> (\<forall>bs. exec_sequence_batch_op db (ops @ bs) = exec_sequence_batch_op db1 bs)"
  proof (cases need)
    case True
    then obtain b where b: "delta_batch t ds' = Ok b" "ops = [b]"
      using assms(4) by (auto simp: res_bind_Ok_iff)
    have "ds' = [] \<or> epoch t \<and> epoch (t + length ds')" using ds' assms(2,3) True by (simp add: stamps_def)
    then obtain eops where "batch_engine_ops b = Ok eops" "encodes (exec_op db eops) (log_deltas t ds' vs)"
      using delta_batch_Ok [OF b(1) assms(1)] by blast
    then show ?thesis using exec_batches(2) b(2) by fastforce
  next
    case False
    then show ?thesis using assms(1,4) ds' by (auto simp: log_deltas_def)
  qed
qed

lemma add_refines:
  assumes "encodes db vs" "stamps base_ts (length cs)" "ttl = 0 \<or> epoch (now + ttl * 1000000000)"
    "add_cands_data base_ts now cs ttl need_delta db = Ok (ds, cs', db')"
  shows "cs' = with_ttl now ttl cs" "ds = fst (tables_add base_ts now cs ttl need_delta vs)"
    "encodes db' (snd (tables_add base_ts now cs ttl need_delta vs))"
proof -
  let ?ds = "map (\<lambda>c. upsert_delta c (old_fields_of vs (cd_label c))) cs"
  obtain ops bss where o: "(if need_delta then res_bind (old_cands_fields db (map cd_label cs)) (\<lambda>olds.
        res_bind (delta_batch base_ts (map2 upsert_delta cs olds)) (\<lambda>b. Ok (map2 upsert_delta cs olds, [b])))
      else Ok ([], [])) = Ok (ds, ops)"
    and cs': "cs' = with_ttl now ttl cs" and bss: "list_all2 (\<lambda>c bs. serialize_candidate c = Ok bs) cs' bss"
    and ex: "exec_sequence_batch_op db (ops @ [put_batch CandsTable (map (\<lambda>c. dec (cd_label c)) cs') bss] @
        (if ttl > 0 then [put_batch TTLTable (map (\<lambda>c. dec (cd_expire c)) cs') (map (\<lambda>c. dec (cd_label c)) cs')] else []))
      = Ok db'"
    using assms(4) unfolding add_cands_data_def with_ttl_def Let_def
    by (auto simp: res_bind_Ok_iff res_map_Ok_iff simp del: append_Cons split: prod.splits)
  show "cs' = with_ttl now ttl cs" by (rule cs')
  have f: "map2 upsert_delta cs (map (old_fields_of vs) (map cd_label cs)) = ?ds"
    using map2_map_same [of upsert_delta cs "\<lambda>c. old_fields_of vs (cd_label c)"] by (simp add: comp_def)
  note d = delta_ops_refine [OF assms(1) _ _ o, of ?ds, simplified length_map, OF assms(2) refl f]
  show ds: "ds = fst (tables_add base_ts now cs ttl need_delta vs)"
    using d(1) by (simp add: tables_add_def Let_def)
  obtain db1 where db1: "encodes db1 (log_deltas base_ts ds vs)"
      "exec_sequence_batch_op db (ops @ bs) = exec_sequence_batch_op db1 bs" for bs
    using d(2) by blast
  have "length cs' = length bss" using bss by (rule list_all2_lengthD)
  then obtain db2 where db2: "encodes db2 (foldl put_cand (log_deltas base_ts ds vs) cs')"
      "exec_sequence_batch_op db1 (put_batch CandsTable (map (\<lambda>c. dec (cd_label c)) cs') bss # bs) = exec_sequence_batch_op db2 bs" for bs
    using exec_put_cands [OF bss db1(1)] exec_batches(2) [OF put_batch_ops] by (metis length_map)
  have ep: "epoch (cd_expire c)" if "c \<in> set cs'" "ttl > 0" for c
    using that cs' assms(3) by (auto simp: with_ttl_def)
  have "encodes db' (if ttl > 0 then foldl put_ttl (foldl put_cand (log_deltas base_ts ds vs) cs')
      (map (\<lambda>c. (cd_expire c, cd_label c)) cs') else foldl put_cand (log_deltas base_ts ds vs) cs')"
    using ex db1(2) db2 exec_put_ttls [OF db2(1) ep]
    by (auto simp: exec_batches put_batch_ops split: if_splits)
  moreover have "snd (tables_add base_ts now cs ttl need_delta vs) = (if ttl > 0
      then foldl put_ttl (foldl put_cand (log_deltas base_ts ds vs) cs') (map (\<lambda>c. (cd_expire c, cd_label c)) cs')
      else foldl put_cand (log_deltas base_ts ds vs) cs')"
    unfolding ds cs' by (simp add: tables_add_def Let_def)
  ultimately show "encodes db' (snd (tables_add base_ts now cs ttl need_delta vs))" by presburger
qed

lemma delete_refines:
  assumes "encodes db vs" "stamps base_ts (length ls)"
    "delete_data base_ts ls need_delta db = Ok (ds, db')"
  shows "ds = fst (tables_delete base_ts ls need_delta vs)"
    "encodes db' (snd (tables_delete base_ts ls need_delta vs))"
proof -
  let ?ds = "map (\<lambda>l. delete_delta l (old_fields_of vs l)) ls"
  obtain ops where o: "(if need_delta then res_bind (old_cands_fields db ls) (\<lambda>olds.
        res_bind (delta_batch base_ts (map2 delete_delta ls olds)) (\<lambda>b. Ok (map2 delete_delta ls olds, [b])))
      else Ok ([], [])) = Ok (ds, ops)"
    and ex: "exec_sequence_batch_op db (ops @ [del_batch CandsTable (map dec ls)]) = Ok db'"
    using assms(3) unfolding delete_data_def Let_def by (auto simp: res_bind_Ok_iff split: prod.splits)
  note d = delta_ops_refine [OF assms(1) assms(2) _ o, of ?ds, simplified length_map, OF refl map2_map_same]
  show ds: "ds = fst (tables_delete base_ts ls need_delta vs)"
    using d(1) by (simp add: tables_delete_def Let_def)
  obtain db1 where db1: "encodes db1 (log_deltas base_ts ds vs)"
      "exec_sequence_batch_op db (ops @ bs) = exec_sequence_batch_op db1 bs" for bs
    using d(2) by blast
  have "encodes db' (foldl del_cand (log_deltas base_ts ds vs) ls)"
    using ex db1(2) exec_del_cands [OF db1(1), of ls] by (simp add: exec_batches del_batch_ops)
  moreover have "snd (tables_delete base_ts ls need_delta vs) = foldl del_cand (log_deltas base_ts ds vs) ls"
    unfolding ds by (simp add: tables_delete_def Let_def)
  ultimately show "encodes db' (snd (tables_delete base_ts ls need_delta vs))" by simp
qed

lemma decode_ascii: "(\<And>b. b \<in> set bs \<Longrightarrow> unat b < 128) \<Longrightarrow> \<exists>s. bytes_decode bs = Some s \<and> str_encode s = bs"
proof (induction bs)
  case (Cons b bs)
  then obtain s where "bytes_decode bs = Some s" "str_encode s = bs" by auto
  moreover have "unat b < 128" using Cons.prems by simp
  ultimately have "bytes_decode (b # bs) = Some (char_of (unat b) # s)" "str_encode (char_of (unat b) # s) = b # bs"
    by (simp_all add: str_encode_def utf8_char_def Let_def)
  then show ?case by blast
qed (simp add: str_encode_def)

lemma decode_dec: "(case bytes_decode (dec l) of None \<Rightarrow> Raise ValueError | Some s \<Rightarrow> Ok (str_encode s)) = Ok (dec l)"
proof -
  have "unat b < 128" if "b \<in> set (dec l)" for b using dec_digits [OF that] by simp
  then obtain s where "bytes_decode (dec l) = Some s" "str_encode s = dec l" using decode_ascii by blast
  then show ?thesis by simp
qed

text \<open>The entries before a time, of the deltas and of the expiry times.\<close>

lemma before_refines:
  assumes "encodes db vs" "epoch ns"
  shows "begin_to_seek db (dec ns) DeltaTable
      = map (\<lambda>t. (dec t, the (map_of db (D_key t)))) (sorted_list_of_set {t \<in> dom (vs_deltas vs). t < ns})"
    "begin_to_seek db (dec ns) TTLTable = map (\<lambda>t. (dec t, the (map_of db (T_key t)))) (due ns vs)"
proof -
  have mem: "t \<in> {t \<in> dom (vs_deltas vs). t < ns} \<longleftrightarrow> epoch t \<and> DeltaTable @ dec t \<in> dom (map_of db) \<and>
      DeltaTable \<le> DeltaTable @ dec t \<and> DeltaTable @ dec t < DeltaTable @ dec ns" for t
    using encodes_dom(1) [OF assms(1), of t] encodes_finite(3) [OF assms(1)] assms(2)
    by (cases "t \<in> dom (vs_deltas vs)") (simp_all add: D_key_def table_names)
  show "begin_to_seek db (dec ns) DeltaTable
      = map (\<lambda>t. (dec t, the (map_of db (D_key t)))) (sorted_list_of_set {t \<in> dom (vs_deltas vs). t < ns})"
    unfolding begin_to_seek_def D_key_def
    by (rule table_range [OF encodesD(1) [OF assms(1)] table_names(2) encodes_keys(1) [OF assms(1)] _ mem])
      (use encodes_finite(1) [OF assms(1)] in auto)
  have memT: "t \<in> {t \<in> dom (vs_ttl vs). t < ns} \<longleftrightarrow> epoch t \<and> TTLTable @ dec t \<in> dom (map_of db) \<and>
      TTLTable \<le> TTLTable @ dec t \<and> TTLTable @ dec t < TTLTable @ dec ns" for t
    using encodes_dom(2) [OF assms(1), of t] encodes_finite(4) [OF assms(1)] assms(2)
    by (cases "t \<in> dom (vs_ttl vs)") (simp_all add: T_key_def table_names)
  show "begin_to_seek db (dec ns) TTLTable = map (\<lambda>t. (dec t, the (map_of db (T_key t)))) (due ns vs)"
    unfolding begin_to_seek_def due_def T_key_def
    by (rule table_range [OF encodesD(1) [OF assms(1)] table_names(3) encodes_keys(2) [OF assms(1)] _ memT])
      (use encodes_finite(2) [OF assms(1)] in auto)
qed

lemma map_D_key: "map D_key ts = map (\<lambda>k. DeltaTable @ k) (map dec ts)"
  by (simp add: D_key_def comp_def)

lemma trim_refines:
  assumes "encodes db vs" "epoch ns" "delete_delta_data_before_ts db ns = Ok (ds, db')"
  shows "ds = fst (tables_trim ns vs)" "encodes db' (snd (tables_trim ns vs))"
proof -
  let ?old = "sorted_list_of_set {t \<in> dom (vs_deltas vs). t < ns}"
  have fin: "finite {t \<in> dom (vs_deltas vs). t < ns}" using encodes_finite(1) [OF assms(1)] by simp
  have row: "delta_from_bytes (the (map_of db (D_key t))) = Ok (the (vs_deltas vs t))" if "t \<in> set ?old" for t
  proof -
    have "vs_deltas vs t \<noteq> None" using that fin by auto
    with encodesD(3) [OF assms(1), of t] show ?thesis
      by (cases rule: option.rel_cases) (auto simp: delta_roundtrip)
  qed
  have "res_map (\<lambda>t. delta_from_bytes (the (map_of db (D_key t)))) ?old = Ok (map (\<lambda>t. the (vs_deltas vs t)) ?old)"
    using row by (rule res_map_all_Ok)
  then have res: "ds = map (\<lambda>t. the (vs_deltas vs t)) ?old" "db' = store_delete db (map dec ?old) DeltaTable"
    using assms(3) by (simp_all add: delete_delta_data_before_ts_def before_refines [OF assms(1,2)] res_map_map comp_def)
  show "ds = fst (tables_trim ns vs)" using res(1) by (simp add: tables_trim_def)
  have del: "encodes (foldl kv_erase db (map D_key ts)) (vs\<lparr>vs_deltas := vs_deltas vs |` (- set ts)\<rparr>)" for ts
    using assms(1)
  proof (induction ts arbitrary: db vs)
    case Nil
    then show ?case by (cases vs) (simp add: restrict_map_def)
  next
    case (Cons t ts)
    have "encodes (kv_erase db (D_key t)) (vs\<lparr>vs_deltas := (vs_deltas vs)(t := None)\<rparr>)"
      using Cons.prems by (auto simp: encodes_def map_of_kv_erase kv_ordered_erase)
    moreover have "(vs_deltas vs)(t := None) |` (- set ts) = vs_deltas vs |` (- set (t # ts))"
      by (auto simp: restrict_map_def fun_eq_iff)
    ultimately show ?case using Cons.IH by fastforce
  qed
  have "vs_deltas vs |` (- set ?old) = vs_deltas vs |` {t. ns \<le> t}"
    using fin by (auto simp: restrict_map_def fun_eq_iff dom_def not_less)
  then show "encodes db' (snd (tables_trim ns vs))"
    using del [of ?old, unfolded map_D_key] res(2) by (simp add: tables_trim_def store_delete_def)
qed

lemma map_filter_bind:
  "(\<And>t. t \<in> set ts \<Longrightarrow> m t = Some (the (m t))) \<Longrightarrow>
   List.map_filter g (map (\<lambda>t. the (m t)) ts) = List.map_filter (\<lambda>t. Option.bind (m t) g) ts"
proof (induction ts)
  case (Cons t ts)
  then obtain l where "m t = Some l" by auto
  then show ?case using Cons by (simp add: map_filter_simps split: option.splits)
qed (simp add: map_filter_simps)

lemma length_map_filter: "length (List.map_filter f xs) \<le> length xs"
  by (induction xs) (auto simp: map_filter_simps split: option.splits)

lemma expired_few: "finite (dom (vs_ttl vs)) \<Longrightarrow> length (expired_of now vs) \<le> card (dom (vs_ttl vs))"
proof -
  assume fin: "finite (dom (vs_ttl vs))"
  have "length (expired_of now vs) \<le> length (due now vs)"
    unfolding expired_of_def by (rule order.trans [OF length_filter_le length_map_filter])
  also have "\<dots> \<le> card (dom (vs_ttl vs))" using fin by (auto simp: due_def intro: card_mono)
  finally show ?thesis .
qed

definition expire_deltas :: "nat \<Rightarrow> vstore \<Rightarrow> delta list" where
  "expire_deltas now vs = map (\<lambda>c. delete_delta (cd_label c) (cd_fields c)) (expired_of now vs)"

lemma expire_eval:
  assumes "encodes db vs" "epoch now"
  shows "expire_data now base_ts db =
    res_bind (if expired_of now vs = [] then Ok [] else res_bind (delta_batch base_ts (expire_deltas now vs)) (\<lambda>b.
        Ok [del_batch CandsTable (map dec (map cd_label (expired_of now vs))), b])) (\<lambda>ops.
    res_bind (exec_sequence_batch_op db (ops @ (if due now vs = [] then [] else [del_batch TTLTable (map dec (due now vs))])))
      (\<lambda>db'. Ok (expire_deltas now vs, db')))"
proof -
  let ?due = "due now vs" and ?gone = "expired_of now vs"
  let ?ls = "map (\<lambda>t. the (vs_ttl vs t)) ?due"
  have fin: "finite {t \<in> dom (vs_ttl vs). t < now}" using encodes_finite(2) [OF assms(1)] by simp
  have ent: "vs_ttl vs t = Some (the (vs_ttl vs t))" "the (map_of db (T_key t)) = dec (the (vs_ttl vs t))"
    if "t \<in> set ?due" for t
  proof -
    have "vs_ttl vs t \<noteq> None" using that fin by (auto simp: due_def)
    with encodesD(4) [OF assms(1), of t]
    show "vs_ttl vs t = Some (the (vs_ttl vs t))" "the (map_of db (T_key t)) = dec (the (vs_ttl vs t))"
      by (cases rule: option.rel_cases, auto)+
  qed
  have labels: "res_map (\<lambda>p. case bytes_decode (snd p) of None \<Rightarrow> Raise ValueError | Some s \<Rightarrow> Ok (str_encode s))
      (begin_to_seek db (dec now) TTLTable) = Ok (map dec ?ls)"
    using res_map_all_Ok [of ?due "\<lambda>t. case bytes_decode (the (map_of db (T_key t))) of None \<Rightarrow> Raise ValueError
        | Some s \<Rightarrow> Ok (str_encode s)" "\<lambda>t. dec (the (vs_ttl vs t))"] ent(2) decode_dec
    by (simp add: before_refines [OF assms(1,2)] res_map_map comp_def)
  have "List.map_filter (vs_cands vs) ?ls = List.map_filter (\<lambda>t. Option.bind (vs_ttl vs t) (vs_cands vs)) ?due"
    using ent(1) by (rule map_filter_bind)
  then have exp: "expired_cands now (store_read db (map dec ?ls) CandsTable) = Ok (map (\<lambda>c. (cd_label c, cd_fields c)) ?gone)"
    using expired_refines [OF read_rows [OF assms(1)], of now ?ls] by (simp add: expired_of_def)
  have g: "map (\<lambda>(label, flds). delete_delta label flds) (map (\<lambda>c. (cd_label c, cd_fields c)) ?gone) = expire_deltas now vs"
      "map (\<lambda>e. dec (fst e)) (map (\<lambda>c. (cd_label c, cd_fields c)) ?gone) = map dec (map cd_label ?gone)"
      "map fst (begin_to_seek db (dec now) TTLTable) = map dec ?due" "begin_to_seek db (dec now) TTLTable = [] \<longleftrightarrow> ?due = []"
    by (simp_all add: before_refines(2) [OF assms(1,2)] comp_def expire_deltas_def)
  show ?thesis
    unfolding expire_data_def Let_def labels res_bind_simps exp g map_is_Nil_conv ..
qed

lemma expire_refines:
  assumes "encodes db vs" "epoch now" "stamps base_ts (card (dom (vs_ttl vs)))"
    "expire_data now base_ts db = Ok (ds, db')"
  shows "ds = fst (tables_expire now base_ts vs)" "encodes db' (snd (tables_expire now base_ts vs))"
proof -
  let ?due = "due now vs" and ?gone = "expired_of now vs"
  define gds where "gds = expire_deltas now vs"
  obtain ops where ops: "ds = gds" "(if ?gone = [] then Ok [] else res_bind (delta_batch base_ts gds) (\<lambda>b.
        Ok [del_batch CandsTable (map dec (map cd_label ?gone)), b])) = Ok ops"
      "exec_sequence_batch_op db (ops @ (if ?due = [] then [] else [del_batch TTLTable (map dec ?due)])) = Ok db'"
    using assms(4) unfolding expire_eval [OF assms(1,2)] gds_def by (auto simp: res_bind_Ok_iff)
  show "ds = fst (tables_expire now base_ts vs)" using ops(1) by (simp add: tables_expire_def Let_def gds_def expire_deltas_def)
  let ?vs1 = "log_deltas base_ts gds (foldl del_cand vs (map cd_label ?gone))"
  obtain db1 where db1: "encodes db1 ?vs1" "exec_sequence_batch_op db (ops @ bs) = exec_sequence_batch_op db1 bs" for bs
  proof (cases "?gone = []")
    case True
    then show thesis using that ops(2) assms(1) by (auto simp: gds_def expire_deltas_def log_deltas_def)
  next
    case False
    then obtain b where b: "delta_batch base_ts gds = Ok b" "ops = [del_batch CandsTable (map dec (map cd_label ?gone)), b]"
      using ops(2) by (auto simp: res_bind_Ok_iff)
    have "length gds \<le> card (dom (vs_ttl vs))"
      using expired_few [OF encodes_finite(2) [OF assms(1)]] by (simp add: gds_def expire_deltas_def)
    then have "epoch base_ts \<and> epoch (base_ts + length gds)" using assms(3) by (auto simp: stamps_def epoch_def)
    then obtain eops where "batch_engine_ops b = Ok eops"
        "encodes (exec_op (exec_op db (map (\<lambda>k. \<lparr>so_type = OP_DEL, so_key = CandsTable @ k, so_value = []\<rparr>)
          (map dec (map cd_label ?gone)))) eops) ?vs1"
      using delta_batch_Ok [OF b(1) exec_del_cands [OF assms(1)]] by blast
    then show thesis using that b(2) by (simp add: exec_batches del_batch_ops)
  qed
  have "encodes db' (foldl del_ttl ?vs1 ?due)"
    using ops(3) db1 exec_del_ttls [OF db1(1), of ?due] by (auto simp: exec_batches exec_op_Cons del_batch_ops split: if_splits)
  then show "encodes db' (snd (tables_expire now base_ts vs))" by (simp add: tables_expire_def Let_def gds_def expire_deltas_def)
qed

section \<open>The operations succeed\<close>

lemma res_map_total: "(\<And>x. x \<in> set xs \<Longrightarrow> \<exists>y. f x = Ok y) \<Longrightarrow> \<exists>ys. res_map f xs = Ok ys \<and> length ys = length xs"
  by (induction xs) fastforce+

lemma exec_total:
  "(\<And>b. b \<in> set bs \<Longrightarrow> \<exists>ops. batch_engine_ops b = Ok ops) \<Longrightarrow> \<exists>db'. exec_sequence_batch_op db bs = Ok db'"
  using res_map_total [of bs batch_engine_ops] by (auto simp: exec_sequence_batch_op_def)

lemma delta_batch_total:
  assumes "\<And>d. d \<in> set ds \<Longrightarrow> \<exists>b. serialize_delta d = Ok b"
  shows "\<exists>b ops. delta_batch t ds = Ok b \<and> batch_engine_ops b = Ok ops"
proof -
  obtain bs where "res_map serialize_delta ds = Ok bs" "length bs = length ds"
    using res_map_total [of ds serialize_delta] assms by blast
  then show ?thesis by (simp add: delta_batch_def put_batch_ops)
qed

lemma add_total:
  assumes "encodes db vs" "\<And>c. c \<in> set cs \<Longrightarrow> \<exists>b. serialize_delta (upsert_delta c (old_fields_of vs (cd_label c))) = Ok b"
    "\<And>c. c \<in> set (with_ttl now ttl cs) \<Longrightarrow> \<exists>b. serialize_candidate c = Ok b"
  shows "\<exists>ds cs' db'. add_cands_data t now cs ttl need db = Ok (ds, cs', db')"
proof -
  have f: "map2 upsert_delta cs (map (old_fields_of vs) (map cd_label cs)) = map (\<lambda>c. upsert_delta c (old_fields_of vs (cd_label c))) cs"
    using map2_map_same [of upsert_delta cs "\<lambda>c. old_fields_of vs (cd_label c)"] by (simp add: comp_def)
  have "d \<in> set (map (\<lambda>c. upsert_delta c (old_fields_of vs (cd_label c))) cs) \<Longrightarrow> \<exists>b. serialize_delta d = Ok b" for d
    using assms(2) by auto
  from delta_batch_total [OF this] obtain b ops where
    b: "delta_batch t (map (\<lambda>c. upsert_delta c (old_fields_of vs (cd_label c))) cs) = Ok b" "batch_engine_ops b = Ok ops"
    by blast
  have "\<exists>ds dops. (if need then res_bind (old_cands_fields db (map cd_label cs)) (\<lambda>olds.
        res_bind (delta_batch t (map2 upsert_delta cs olds)) (\<lambda>b. Ok (map2 upsert_delta cs olds, [b])))
      else Ok ([], [])) = Ok (ds, dops) \<and> (\<forall>b\<in>set dops. \<exists>ops. batch_engine_ops b = Ok ops)"
    unfolding old_fields_refines [OF assms(1)] res_bind_simps f using b by (cases need) simp_all
  then obtain ds dops where d: "(if need then res_bind (old_cands_fields db (map cd_label cs)) (\<lambda>olds.
        res_bind (delta_batch t (map2 upsert_delta cs olds)) (\<lambda>b. Ok (map2 upsert_delta cs olds, [b])))
      else Ok ([], [])) = Ok (ds, dops)" "\<And>b. b \<in> set dops \<Longrightarrow> \<exists>ops. batch_engine_ops b = Ok ops"
    by blast
  obtain bs where bs: "res_map serialize_candidate (with_ttl now ttl cs) = Ok bs" "length bs = length (with_ttl now ttl cs)"
    using res_map_total [of "with_ttl now ttl cs" serialize_candidate] assms(3) by blast
  let ?rest = "put_batch CandsTable (map (\<lambda>c. dec (cd_label c)) (with_ttl now ttl cs)) bs #
      (if ttl > 0 then [put_batch TTLTable (map (\<lambda>c. dec (cd_expire c)) (with_ttl now ttl cs))
         (map (\<lambda>c. dec (cd_label c)) (with_ttl now ttl cs))] else [])"
  have "\<exists>db'. exec_sequence_batch_op db (dops @ ?rest) = Ok db'"
    by (rule exec_total) (use d(2) bs(2) in \<open>auto simp: put_batch_ops split: if_splits\<close>)
  then show ?thesis
    unfolding add_cands_data_def Let_def d(1) res_bind_simps case_prod_conv with_ttl_def [symmetric] bs(1) by auto
qed

lemma expire_total:
  assumes "encodes db vs" "epoch now" "\<And>d. d \<in> set (expire_deltas now vs) \<Longrightarrow> \<exists>b. serialize_delta d = Ok b"
  shows "\<exists>ds db'. expire_data now t db = Ok (ds, db')"
proof -
  obtain b ops where b: "delta_batch t (expire_deltas now vs) = Ok b" "batch_engine_ops b = Ok ops"
    using delta_batch_total [OF assms(3)] by blast
  have ex: "\<exists>db'. exec_sequence_batch_op db ([del_batch CandsTable ks, b] @ (if due now vs = [] then [] else [del_batch TTLTable ts])) = Ok db'"
    "\<exists>db'. exec_sequence_batch_op db ([] @ (if due now vs = [] then [] else [del_batch TTLTable ts])) = Ok db'" for ks ts
    by (rule exec_total; use b(2) in \<open>auto simp: del_batch_ops split: if_splits\<close>)+
  show ?thesis
  proof (cases "expired_of now vs = []")
    case True
    obtain db' where "exec_sequence_batch_op db ([] @ (if due now vs = [] then [] else [del_batch TTLTable (map dec (due now vs))])) = Ok db'"
      using ex(2) by blast
    then show ?thesis unfolding expire_eval [OF assms(1,2)] using True by simp
  next
    case False
    obtain db' where "exec_sequence_batch_op db ([del_batch CandsTable (map dec (map cd_label (expired_of now vs))), b] @
        (if due now vs = [] then [] else [del_batch TTLTable (map dec (due now vs))])) = Ok db'"
      using ex(1) by blast
    then show ?thesis unfolding expire_eval [OF assms(1,2)] using False b(1) by simp
  qed
qed

section \<open>All candidates\<close>

lemma all_cands_refines:
  assumes "encodes db vs"
  obtains cs where "get_all_cands_data db = Ok cs" "distinct (map cd_label cs)"
    "map_of (map (\<lambda>c. (cd_label c, c)) cs) = vs_cands vs"
proof -
  have ord: "kv_ordered db" using encodesD(1) [OF assms] .
  define L where "L = filter (\<lambda>p. prefix CandsTable (fst p)) (seek_range db CandsTable (CandsTable @ MAX_UNICODE_CHAR))"
  have range: "CandsTable \<le> C_key l \<and> C_key l < CandsTable @ MAX_UNICODE_CHAR" for l
    using dec_less_max [of l] by (simp add: C_key_def table_names)
  have key: "p \<in> set L \<longleftrightarrow> p \<in> set db \<and> (\<exists>l. fst p = C_key l)" for p
  proof -
    have "prefix CandsTable (C_key l)" "\<not> prefix CandsTable (D_key l)" "\<not> prefix CandsTable (T_key l)" for l
      by (simp_all add: C_key_def D_key_def T_key_def table_names)
    then have "prefix CandsTable k \<longleftrightarrow> (\<exists>l. k = C_key l)" if "k \<in> dom (map_of db)" for k
      using encodesD(5) [OF assms] that by blast
    moreover have "fst p \<in> dom (map_of db)" if "p \<in> set db" using that by (auto simp: dom_map_of_conv_image_fst)
    moreover have "p \<in> set L \<longleftrightarrow> p \<in> set db \<and> prefix CandsTable (fst p) \<and> CandsTable \<le> fst p \<and> fst p < CandsTable @ MAX_UNICODE_CHAR"
      by (auto simp: L_def seek_range_ordered [OF ord])
    ultimately show ?thesis using range by metis
  qed
  have dist: "distinct (map fst db)" using ord strict_sorted_iff unfolding kv_ordered_def by blast
  have "\<exists>l c. fst p = C_key l \<and> vs_cands vs l = Some c \<and> serialize_candidate c = Ok (snd p) \<and> cd_label c = l"
    if p: "p \<in> set L" for p
  proof -
    obtain l where l: "fst p = C_key l" "p \<in> set db" using key [of p] p by blast
    then have "map_of db (C_key l) = Some (snd p)"
      using map_of_is_SomeI [OF dist, of "C_key l" "snd p"] by (metis prod.collapse)
    then show ?thesis using encodesD(2) [OF assms, of l] l(1) by (auto simp: option_rel_Some1)
  qed
  then obtain g where g: "\<And>p. p \<in> set L \<Longrightarrow> fst p = C_key (cd_label (g p)) \<and> vs_cands vs (cd_label (g p)) = Some (g p) \<and>
      serialize_candidate (g p) = Ok (snd p)"
    by metis
  have "read_all db CandsTable = map (\<lambda>p. (drop 1 (fst p), snd p)) L"
    by (simp add: read_all_def strip_table_def L_def table_names case_prod_unfold)
  then have all: "get_all_cands_data db = Ok (map g L)"
    using res_map_all_Ok [of L "\<lambda>p. candidate_from_bytes (snd p)" g] g candidate_roundtrip(2)
    by (simp add: get_all_cands_data_def iter_all_def iter_pages_behind read_all_behind [symmetric] ord
        STORE_SCAN_PAGE_SIZE_def STORE_SCAN_PAGE_BYTES_def res_map_map)
  have "map C_key (map cd_label (map g L)) = map fst L" using g by simp
  moreover have "distinct (map fst L)" using dist unfolding L_def seek_range_ordered [OF ord] filter_filter
    by (simp add: distinct_map_filter)
  ultimately have dl: "distinct (map cd_label (map g L))" by (metis distinct_map)
  have "map_of (map (\<lambda>c. (cd_label c, c)) (map g L)) l = vs_cands vs l" for l
  proof (cases "vs_cands vs l")
    case None
    then have "l \<notin> cd_label ` g ` set L" using g by force
    then show ?thesis using None by (auto simp: map_of_eq_None_iff image_iff)
  next
    case (Some c)
    then obtain bs where bs: "map_of db (C_key l) = Some bs" "cd_label c = l"
      using encodesD(2) [OF assms, of l] by (auto simp: option_rel_Some2)
    then have "(C_key l, bs) \<in> set L" using key [of "(C_key l, bs)"] map_of_SomeD by fastforce
    then have "g (C_key l, bs) = c" "(C_key l, bs) \<in> set L" using g [of "(C_key l, bs)"] Some by auto
    then have "c \<in> set (map g L)" by (metis image_eqI set_map)
    then show ?thesis using Some bs(2) dl by (intro trans [OF map_of_is_SomeI]) (auto simp: comp_def)
  qed
  then show thesis using that [OF all dl] by blast
qed

section \<open>Sequences of calls\<close>

datatype store_call =
    Add_call nat nat "candidate list" nat bool
  | Delete_call nat "nat list" bool
  | Expire_call nat nat
  | Trim_call nat

definition manager_step :: "store_call \<Rightarrow> kv \<Rightarrow> (delta list \<times> kv) res" where
  "manager_step call db =
     (case call of
        Add_call base_ts now cs ttl need \<Rightarrow>
          res_bind (add_cands_data base_ts now cs ttl need db) (\<lambda>(ds, cs', db'). Ok (ds, db'))
      | Delete_call base_ts ls need \<Rightarrow> delete_data base_ts ls need db
      | Expire_call now base_ts \<Rightarrow> expire_data now base_ts db
      | Trim_call ns \<Rightarrow> delete_delta_data_before_ts db ns)"

definition tables_step :: "store_call \<Rightarrow> vstore \<Rightarrow> delta list \<times> vstore" where
  "tables_step call vs =
     (case call of
        Add_call base_ts now cs ttl need \<Rightarrow> tables_add base_ts now cs ttl need vs
      | Delete_call base_ts ls need \<Rightarrow> tables_delete base_ts ls need vs
      | Expire_call now base_ts \<Rightarrow> tables_expire now base_ts vs
      | Trim_call ns \<Rightarrow> tables_trim ns vs)"

text \<open>The clock readings of a call lie in the years with nineteen digits.\<close>

definition call_times :: "store_call \<Rightarrow> vstore \<Rightarrow> bool" where
  "call_times call vs \<longleftrightarrow>
     (case call of
        Add_call base_ts now cs ttl need \<Rightarrow> stamps base_ts (length cs) \<and> (ttl = 0 \<or> epoch (now + ttl * 1000000000))
      | Delete_call base_ts ls need \<Rightarrow> stamps base_ts (length ls)
      | Expire_call now base_ts \<Rightarrow> epoch now \<and> stamps base_ts (card (dom (vs_ttl vs)))
      | Trim_call ns \<Rightarrow> epoch ns)"

fun manager_run :: "store_call list \<Rightarrow> kv \<Rightarrow> (delta list list \<times> kv) res" where
  "manager_run [] db = Ok ([], db)"
| "manager_run (call # calls) db =
     res_bind (manager_step call db) (\<lambda>(ds, db'). res_bind (manager_run calls db') (\<lambda>(dss, db''). Ok (ds # dss, db'')))"

fun tables_run :: "store_call list \<Rightarrow> vstore \<Rightarrow> delta list list \<times> vstore" where
  "tables_run [] vs = ([], vs)"
| "tables_run (call # calls) vs =
     (let (ds, vs') = tables_step call vs; (dss, vs'') = tables_run calls vs' in (ds # dss, vs''))"

fun times_ok :: "store_call list \<Rightarrow> vstore \<Rightarrow> bool" where
  "times_ok [] vs = True"
| "times_ok (call # calls) vs = (call_times call vs \<and> times_ok calls (snd (tables_step call vs)))"

lemma step_refines:
  assumes "encodes db vs" "call_times call vs" "manager_step call db = Ok (ds, db')"
  shows "ds = fst (tables_step call vs) \<and> encodes db' (snd (tables_step call vs))"
  using assms add_refines delete_refines expire_refines trim_refines
  by (cases call) (auto simp: manager_step_def tables_step_def call_times_def res_bind_Ok_iff)

lemma run_refines:
  "encodes db vs \<Longrightarrow> times_ok calls vs \<Longrightarrow> manager_run calls db = Ok (dss, db') \<Longrightarrow>
   dss = fst (tables_run calls vs) \<and> encodes db' (snd (tables_run calls vs))"
proof (induction calls arbitrary: db vs dss)
  case (Cons call calls)
  then obtain ds db1 dss' where r: "manager_step call db = Ok (ds, db1)" "manager_run calls db1 = Ok (dss', db')" "dss = ds # dss'"
    by (auto simp: res_bind_Ok_iff)
  have "ds = fst (tables_step call vs)" "encodes db1 (snd (tables_step call vs))"
    using step_refines [OF Cons.prems(1) _ r(1)] Cons.prems(2) by simp_all
  with Cons.IH [OF this(2) _ r(2)] Cons.prems(2) r(3) show ?case by (simp add: case_prod_beta Let_def)
qed auto

text \<open>C13. The store manager implements its tables: after any sequence of additions, deletions, expiry runs and
  trims of the delta log that succeeded on an empty store, the encoded rows under their textual keys represent the
  maps that the same calls on maps produce. The deltas each call returned are those of the maps; a fetch returns
  what the map of candidates holds, in the order of the labels asked for; reading all candidates returns each once;
  and the delta log read from a time returns the recorded deltas from that time on, in the order they were
  recorded.\<close>

theorem store_manager_refines_tables:
  assumes "manager_run calls [] = Ok (dss, db)" "times_ok calls no_tables" "epoch ns"
  shows "let vs = snd (tables_run calls no_tables) in
    dss = fst (tables_run calls no_tables) \<and>
    fetch_cands_data db labels = Ok (map (vs_cands vs) labels) \<and>
    (\<exists>cs. get_all_cands_data db = Ok cs \<and> distinct (map cd_label cs) \<and> map_of (map (\<lambda>c. (cd_label c, c)) cs) = vs_cands vs) \<and>
    get_delta_data_after_ts db ns = Ok (deltas_from ns vs)"
proof -
  have "dss = fst (tables_run calls no_tables)" and enc: "encodes db (snd (tables_run calls no_tables))"
    using run_refines [OF encodes_empty assms(2,1)] by blast+
  moreover obtain cs where "get_all_cands_data db = Ok cs" "distinct (map cd_label cs)"
      "map_of (map (\<lambda>c. (cd_label c, c)) cs) = vs_cands (snd (tables_run calls no_tables))"
    using all_cands_refines [OF enc] .
  ultimately show ?thesis using fetch_refines [OF enc] deltas_from_refines [OF enc assms(3)] by (auto simp: Let_def)
qed

text \<open>Small candidates are encoded.\<close>

definition small_candidate :: "nat \<Rightarrow> nat \<Rightarrow> candidate" where
  "small_candidate l t = new_candidate\<lparr>cd_label := l, cd_expire := t\<rparr>"

lemma small_serialize:
  assumes "l < 2 ^ 64" "t < 2 ^ 64"
  obtains bs bd be where "serialize_candidate (small_candidate l t) = Ok bs"
    "serialize_delta (upsert_delta (small_candidate l t) []) = Ok bd" "serialize_delta (delete_delta l []) = Ok be"
proof -
  have enc: "str_encode [] = []" by (simp add: str_encode_def)
  have "\<not> isl (serialize_candidate (small_candidate l t))"
    unfolding serialize_candidate_def Schema_numbered [OF numbered_fields(1)] res_bind_simps
    using assms by (simp add: serialize_def candidate_fields_def schema_fields_def row_value_of_def candidate_asdict_def
        small_candidate_def new_candidate_def field_items_def type_info_def struct_pack_def STRING_MAX_UINT16_LENGTH_def enc)
  moreover have "\<not> isl (serialize_delta (upsert_delta (small_candidate l t) []))"
    "\<not> isl (serialize_delta (delete_delta l []))"
    unfolding serialize_delta_def Schema_numbered [OF numbered_fields(2)] res_bind_simps
    using assms by (simp_all add: serialize_def delta_fields_def schema_fields_def row_value_of_def delta_asdict_def
        small_candidate_def new_candidate_def upsert_delta_def delete_delta_def new_delta_def UPSERT_def DELETE_def
        field_items_def type_info_def struct_pack_def STRING_MAX_UINT16_LENGTH_def enc)
  ultimately show thesis using that by (metis sum.collapse(2))
qed

theorem store_manager_refines_tables_witness:
  "\<exists>dss db. manager_run [Add_call (10 ^ 18) 0 [small_candidate 7 0] 0 True] [] = Ok (dss, db) \<and>
     fetch_cands_data db [7, 8] = Ok [Some (small_candidate 7 0), None] \<and>
     get_delta_data_after_ts db (10 ^ 18) = Ok [upsert_delta (small_candidate 7 0) []]"
proof -
  let ?call = "Add_call (10 ^ 18) 0 [small_candidate 7 0] 0 True"
  obtain bs bd be where ser: "serialize_candidate (small_candidate 7 0) = Ok bs"
      "serialize_delta (upsert_delta (small_candidate 7 0) []) = Ok bd" "serialize_delta (delete_delta 7 []) = Ok be"
    by (rule small_serialize [of 7 0]) simp_all
  have lab: "cd_label (small_candidate 7 0) = 7" by (simp add: small_candidate_def)
  have old: "old_cands_fields [] [7] = Ok [[]]"
    using old_fields_refines [OF encodes_empty, of "[7]"] by (simp add: old_fields_of_def no_tables_def)
  have "\<not> isl (manager_run [?call] [])"
    by (simp add: manager_step_def add_cands_data_def lab old delta_batch_def ser exec_batches put_batch_ops Let_def)
  then obtain dss db where run: "manager_run [?call] [] = Ok (dss, db)" by (metis prod.collapse sum.collapse(2))
  have times: "times_ok [?call] no_tables" "epoch (10 ^ 18)"
    by (simp_all add: call_times_def stamps_def epoch_def)
  have "snd (tables_run [?call] no_tables) = \<lparr>vs_cands = [7 \<mapsto> small_candidate 7 0],
      vs_deltas = [10 ^ 18 \<mapsto> upsert_delta (small_candidate 7 0) []], vs_ttl = Map.empty\<rparr>"
    by (simp add: tables_step_def tables_add_def with_ttl_def log_deltas_def put_delta_def put_cand_def lab
        no_tables_def old_fields_of_def Let_def)
  moreover have "deltas_from (10 ^ 18) \<lparr>vs_cands = [7 \<mapsto> small_candidate 7 0],
      vs_deltas = [10 ^ 18 \<mapsto> upsert_delta (small_candidate 7 0) []], vs_ttl = Map.empty\<rparr> = [upsert_delta (small_candidate 7 0) []]"
  proof -
    have "{t \<in> dom [10 ^ 18 \<mapsto> d]. (10 ^ 18 :: nat) \<le> t} = {10 ^ 18}" for d :: delta by auto
    then show ?thesis by (simp only: deltas_from_def vstore.simps) simp
  qed
  ultimately show ?thesis
    using store_manager_refines_tables [OF run times, of "[7, 8]"] run by (simp add: Let_def del: manager_run.simps tables_run.simps)
qed

section \<open>Expiry\<close>

lemma due_empty: "vs_ttl vs = Map.empty \<Longrightarrow> due now vs = []"
  by (simp add: due_def)

lemma due_single: "vs_ttl vs = [t \<mapsto> l] \<Longrightarrow> due now vs = (if t < now then [t] else [])"
proof -
  assume "vs_ttl vs = [t \<mapsto> l]"
  then have "{u \<in> dom (vs_ttl vs). u < now} = (if t < now then {t} else {})" by auto
  then show ?thesis by (simp add: due_def)
qed


text \<open>C19. A candidate that is written again without a time to live does not become permanent: the entry of its
  earlier time to live is still in the table, the expiry time of the new candidate is 0, and \<open>0 \<le> now\<close> lets the
  expiry run delete it when the earlier time has passed.\<close>

theorem stale_ttl_deletes_permanent:
  assumes "add_cands_data t1 now [c] ttl need [] = Ok (ds1, cs1, db1)" "stamps t1 1" "0 < ttl"
    "epoch (now + ttl * 1000000000)"
    "add_cands_data t2 now2 [c\<lparr>cd_expire := 0\<rparr>] 0 need db1 = Ok (ds2, cs2, db2)" "stamps t2 1"
    "expire_data late t3 db2 = Ok (ds3, db3)" "epoch late" "stamps t3 1" "now + ttl * 1000000000 < late"
  shows "fetch_cands_data db2 [cd_label c] = Ok [Some (c\<lparr>cd_expire := 0\<rparr>)] \<and>
    fetch_cands_data db3 [cd_label c] = Ok [None]"
proof -
  let ?E = "now + ttl * 1000000000"
  define vs1 where "vs1 = snd (tables_add t1 now [c] ttl need no_tables)"
  define vs2 where "vs2 = snd (tables_add t2 now2 [c\<lparr>cd_expire := 0\<rparr>] 0 need vs1)"
  have enc1: "encodes db1 vs1" using add_refines(3) [OF encodes_empty _ _ assms(1)] assms(2,4) by (simp add: vs1_def)
  have enc2: "encodes db2 vs2" using add_refines(3) [OF enc1 _ _ assms(5)] assms(6) by (simp add: vs2_def)
  have vs2: "vs_cands vs2 = [cd_label c \<mapsto> c\<lparr>cd_expire := 0\<rparr>]" "vs_ttl vs2 = [?E \<mapsto> cd_label c]"
    using assms(3) unfolding vs1_def vs2_def
    by (cases need; simp add: tables_add_def with_ttl_def log_deltas_def put_delta_def put_cand_def put_ttl_def no_tables_def Let_def)+
  have enc3: "encodes db3 (snd (tables_expire late t3 vs2))"
    using expire_refines(2) [OF enc2 assms(8) _ assms(7)] assms(9) by (simp add: vs2)
  have gone: "due late vs2 = [?E]" "expired_of late vs2 = [c\<lparr>cd_expire := 0\<rparr>]"
    using due_single [OF vs2(2)] assms(10) by (simp_all add: expired_of_def map_filter_simps vs2)
  have "vs_cands (snd (tables_expire late t3 vs2)) = Map.empty"
    by (simp add: tables_expire_def gone log_deltas_def put_delta_def del_cand_def del_ttl_def vs2 Let_def)
  then show ?thesis using fetch_refines [OF enc2] fetch_refines [OF enc3] by (simp add: vs2)
qed

text \<open>A start from the empty store at the first time with nineteen digits.\<close>

lemma small_ops:
  assumes "l < 2 ^ 64" "t < 2 ^ 64"
  shows "\<exists>b. serialize_candidate (small_candidate l t) = Ok b"
    "\<exists>b. serialize_delta (upsert_delta (small_candidate l t) []) = Ok b" "\<exists>b. serialize_delta (delete_delta l []) = Ok b"
  using small_serialize [OF assms] by metis+

lemma small_simps [simp]:
  "cd_label (small_candidate l t) = l" "cd_fields (small_candidate l t) = []" "cd_expire (small_candidate l t) = t"
  "(small_candidate l t)\<lparr>cd_expire := u\<rparr> = small_candidate l u"
  by (simp_all add: small_candidate_def new_candidate_def)

definition small_store :: "vstore \<Rightarrow> bool" where
  "small_store vs \<longleftrightarrow> (\<forall>l c. vs_cands vs l = Some c \<longrightarrow> (\<exists>l t. c = small_candidate l t \<and> l < 2 ^ 64))"

lemma small_expire_total:
  assumes "encodes db vs" "epoch now" "small_store vs"
  obtains ds db' where "expire_data now t db = Ok (ds, db')"
proof -
  have "\<exists>b. serialize_delta d = Ok b" if d: "d \<in> set (expire_deltas now vs)" for d
  proof -
    obtain l c where "vs_cands vs l = Some c" "d = delete_delta (cd_label c) (cd_fields c)"
      using d by (auto simp: expire_deltas_def expired_of_def List.map_filter_def Option.bind_eq_Some_conv)
    then show ?thesis using assms(3) small_ops(3) [of _ 0] by (fastforce simp: small_store_def)
  qed
  then show thesis using expire_total [OF assms(1,2)] that by blast
qed

lemma small_add_total:
  assumes "encodes db vs" "small_store vs" "\<And>l. l \<in> set ls \<Longrightarrow> l < 2 ^ 64" "now + ttl * 1000000000 < 2 ^ 64"
  obtains ds cs' db' where "add_cands_data t now (map (\<lambda>l. small_candidate l 0) ls) ttl need db = Ok (ds, cs', db')"
proof -
  have old: "old_fields_of vs l = []" for l
    using assms(2) by (fastforce simp: old_fields_of_def small_store_def split: option.splits)
  have "\<exists>ds cs' db'. add_cands_data t now (map (\<lambda>l. small_candidate l 0) ls) ttl need db = Ok (ds, cs', db')"
  proof (rule add_total [OF assms(1)])
    show "\<exists>b. serialize_delta (upsert_delta c (old_fields_of vs (cd_label c))) = Ok b"
      if "c \<in> set (map (\<lambda>l. small_candidate l 0) ls)" for c
      using that small_ops(2) [of _ 0] assms(3) by (auto simp: old)
    show "\<exists>b. serialize_candidate c = Ok b" if "c \<in> set (with_ttl now ttl (map (\<lambda>l. small_candidate l 0) ls))" for c
      using that small_ops(1) [of _ 0] small_ops(1) [OF _ assms(4)] assms(3) by (auto simp: with_ttl_def split: if_splits)
  qed
  then show thesis using that by blast
qed

lemma small_store_empty: "small_store no_tables"
  by (simp add: small_store_def no_tables_def)

lemma vs_cands_puts:
  "vs_cands (foldl put_ttl vs es) = vs_cands vs" "vs_cands (log_deltas t ds vs) = vs_cands vs"
  "vs_cands (foldl put_cand vs cs) = vs_cands vs ++ map_of (rev (map (\<lambda>c. (cd_label c, c)) cs))"
proof -
  show "vs_cands (foldl put_ttl vs es) = vs_cands vs" by (induction es arbitrary: vs) (simp_all add: put_ttl_def)
  have "vs_cands (foldl put_delta vs es) = vs_cands vs" for es by (induction es arbitrary: vs) (simp_all add: put_delta_def)
  then show "vs_cands (log_deltas t ds vs) = vs_cands vs" by (simp add: log_deltas_def)
  show "vs_cands (foldl put_cand vs cs) = vs_cands vs ++ map_of (rev (map (\<lambda>c. (cd_label c, c)) cs))"
    by (induction cs arbitrary: vs) (simp_all add: put_cand_def map_add_upds map_add_assoc)
qed

lemma small_store_add:
  assumes "small_store vs" "\<And>l. l \<in> set ls \<Longrightarrow> l < 2 ^ 64"
  shows "small_store (snd (tables_add t now (map (\<lambda>l. small_candidate l 0) ls) ttl need vs))"
  using assms by (auto simp: small_store_def tables_add_def vs_cands_puts with_ttl_def map_add_Some_iff Let_def
      dest!: map_of_SomeD) blast+


theorem stale_ttl_deletes_permanent_witness:
  "\<exists>ds1 cs1 db1 ds2 cs2 db2 ds3 db3.
     add_cands_data (10 ^ 18) (10 ^ 18) [small_candidate 1 0] 1 True [] = Ok (ds1, cs1, db1) \<and>
     add_cands_data (2 * 10 ^ 18) 0 [small_candidate 1 0] 0 True db1 = Ok (ds2, cs2, db2) \<and>
     expire_data (3 * 10 ^ 18) (3 * 10 ^ 18) db2 = Ok (ds3, db3) \<and>
     fetch_cands_data db2 [1] = Ok [Some (small_candidate 1 0)] \<and> fetch_cands_data db3 [1] = Ok [None]"
proof -
  let ?cs = "map (\<lambda>l. small_candidate l 0) [1]"
  have times: "stamps (10 ^ 18) 1" "epoch (10 ^ 18 + 1 * 1000000000)" "stamps (2 * 10 ^ 18) 1" "epoch (3 * 10 ^ 18)"
      "stamps (3 * 10 ^ 18) 1" by (simp_all add: stamps_def epoch_def)
  let ?vs1 = "snd (tables_add (10 ^ 18) (10 ^ 18) ?cs 1 True no_tables)"
  let ?vs2 = "snd (tables_add (2 * 10 ^ 18) 0 ?cs 0 True ?vs1)"
  obtain ds1 cs1 db1 where add: "add_cands_data (10 ^ 18) (10 ^ 18) ?cs 1 True [] = Ok (ds1, cs1, db1)"
    by (rule small_add_total [OF encodes_empty small_store_empty, of "[1]" "10 ^ 18" 1 "10 ^ 18" True]) auto
  have enc1: "encodes db1 ?vs1" using times by (intro add_refines(3) [OF encodes_empty _ _ add]) auto
  have small1: "small_store ?vs1" by (rule small_store_add [OF small_store_empty]) simp
  obtain ds2 cs2 db2 where add2: "add_cands_data (2 * 10 ^ 18) 0 ?cs 0 True db1 = Ok (ds2, cs2, db2)"
    by (rule small_add_total [OF enc1 small1, of "[1]" 0 0 "2 * 10 ^ 18" True]) auto
  have enc2: "encodes db2 ?vs2" using times by (intro add_refines(3) [OF enc1 _ _ add2]) auto
  have small2: "small_store ?vs2" by (rule small_store_add [OF small1]) simp
  obtain ds3 db3 where exp: "expire_data (3 * 10 ^ 18) (3 * 10 ^ 18) db2 = Ok (ds3, db3)"
    by (rule small_expire_total [OF enc2 times(4) small2])
  have 2: "add_cands_data (2 * 10 ^ 18) 0 [small_candidate 1 0\<lparr>cd_expire := 0\<rparr>] 0 True db1 = Ok (ds2, cs2, db2)"
    using add2 by simp
  show ?thesis
    using stale_ttl_deletes_permanent [OF add [simplified list.map] times(1) _ times(2) 2 times(3) exp times(4,5)] add add2 exp
    by simp
qed

end
