(* ===== verification/Index_Barrier.thy ===== *)
theory Index_Barrier
  imports Vector_Tables
begin

text \<open>
  The mutation barrier of a local collection and the operations it coordinates
  (\<^verbatim>\<open>storage/vectordb/collection/local_collection.py\<close>): writers that change the store and then the index, the
  rebuild of an index beside the writers, and the exclusive operations that create, drop or clear. The state is
  shared; each action of a thread is one atomic step: an entry or exit of the barrier under its condition variable,
  one call of the store manager, one call of the index.

  The store is the maps that \<^verbatim>\<open>Vector_Tables\<close> proves the store manager to implement. The index is what it was last
  asked to hold for each label; the native engine is behind that.
\<close>

section \<open>The barrier\<close>

record barrier =
  br_active :: nat
  br_publisher :: bool
  br_waiting :: nat
  br_generation :: nat

definition new_barrier :: barrier where
  "new_barrier = \<lparr>br_active = 0, br_publisher = False, br_waiting = 0, br_generation = 0\<rparr>"

text \<open>A step that has to wait is \<open>None\<close>.\<close>

definition mutation_enter :: "barrier \<Rightarrow> barrier option" where
  "mutation_enter b = (if br_publisher b \<or> br_waiting b > 0 then None else Some (b\<lparr>br_active := br_active b + 1\<rparr>))"

definition mutation_exit :: "bool \<Rightarrow> barrier \<Rightarrow> barrier" where
  "mutation_exit changed b =
     b\<lparr>br_generation := (if changed then br_generation b + 1 else br_generation b), br_active := br_active b - 1\<rparr>"

definition exclusive_wait :: "barrier \<Rightarrow> barrier" where
  "exclusive_wait b = b\<lparr>br_waiting := br_waiting b + 1\<rparr>"

definition exclusive_acquire :: "barrier \<Rightarrow> barrier option" where
  "exclusive_acquire b =
     (if br_publisher b \<or> br_active b > 0 then None
      else Some (b\<lparr>br_publisher := True, br_waiting := br_waiting b - 1\<rparr>))"

definition exclusive_release :: "barrier \<Rightarrow> barrier" where
  "exclusive_release b = b\<lparr>br_publisher := False\<rparr>"

definition exclusive_changed :: "barrier \<Rightarrow> barrier" where
  "exclusive_changed b = b\<lparr>br_generation := br_generation b + 1\<rparr>"

definition snapshot_generation :: "barrier \<Rightarrow> nat option" where
  "snapshot_generation b = (if br_publisher b \<or> br_waiting b > 0 then None else Some (br_generation b))"

definition is_current :: "nat \<Rightarrow> barrier \<Rightarrow> bool" where
  "is_current expected b \<longleftrightarrow> \<not> br_publisher b \<and> br_active b = 0 \<and> br_generation b = expected"

section \<open>The index\<close>

record entry =
  en_vector :: "32 word list"
  en_terms :: "string list"
  en_values :: "32 word list"
  en_fields :: string

definition cand_entry :: "candidate \<Rightarrow> entry" where
  "cand_entry c = \<lparr>en_vector = cd_vector c, en_terms = cd_terms c, en_values = cd_values c, en_fields = cd_fields c\<rparr>"

definition delta_entry :: "delta \<Rightarrow> entry" where
  "delta_entry d = \<lparr>en_vector = dl_vector d, en_terms = dl_terms d, en_values = dl_values d, en_fields = dl_fields d\<rparr>"

type_synonym index_map = "nat \<rightharpoonup> entry"

definition index_upsert :: "index_map \<Rightarrow> delta list \<Rightarrow> index_map" where
  "index_upsert m ds = foldl (\<lambda>m d. m(dl_label d \<mapsto> delta_entry d)) m ds"

definition index_delete :: "index_map \<Rightarrow> delta list \<Rightarrow> index_map" where
  "index_delete m ds = foldl (\<lambda>m d. m(dl_label d := None)) m ds"

definition entries :: "(nat \<rightharpoonup> candidate) \<Rightarrow> index_map" where
  "entries cands l = map_option cand_entry (cands l)"

record vindex =
  ix_id :: nat
  ix_map :: index_map

section \<open>The collection\<close>

datatype mutation = Upsert_data "candidate list" nat | Delete_data "nat list" | Expire_data

text \<open>A writer inside the barrier: before its call of the store, after it with the deltas still to be applied, and
  with everything done. The flag is the marker that the mutation changed something.\<close>

datatype writer = W_idle | W_entered mutation | W_stored mutation "delta list" bool | W_applied bool

text \<open>A rebuild: with the generation it saw and the index it replaces; the labels already read and what was read;
  the replacement built, waiting for the barrier, holding it; and its outcome.\<close>

datatype rebuild = R_idle | R_reading nat nat "nat set" "nat \<rightharpoonup> candidate" | R_built nat nat "nat \<rightharpoonup> candidate"
  | R_waiting nat nat "nat \<rightharpoonup> candidate" | R_holding nat nat "nat \<rightharpoonup> candidate" | R_published bool

text \<open>The argument of \<^verbatim>\<open>create_index\<close> is the stamp the native index reports when it has been built.\<close>

datatype exclusive_op = Create_index nat | Drop_index | Delete_all_data
datatype exclusive = X_idle | X_waiting exclusive_op | X_holding exclusive_op | X_performed | X_counted

record coll =
  co_barrier :: barrier
  co_tables :: vstore
  co_index :: "vindex option"
  co_next :: nat
  co_writers :: "writer list"
  co_rebuild :: rebuild
  co_exclusive :: exclusive

definition new_coll :: "nat \<Rightarrow> coll" where
  "new_coll n = \<lparr>co_barrier = new_barrier, co_tables = no_tables, co_index = None, co_next = 0,
     co_writers = replicate n W_idle, co_rebuild = R_idle, co_exclusive = X_idle\<rparr>"

definition need_record_delta :: "coll \<Rightarrow> bool" where
  "need_record_delta s \<longleftrightarrow> co_index s \<noteq> None"

definition set_writer :: "nat \<Rightarrow> writer \<Rightarrow> coll \<Rightarrow> coll" where
  "set_writer i w s = s\<lparr>co_writers := (co_writers s)[i := w]\<rparr>"

definition writer_enter :: "nat \<Rightarrow> mutation \<Rightarrow> coll \<Rightarrow> coll option" where
  "writer_enter i w s =
     (if i < length (co_writers s) \<and> co_writers s ! i = W_idle
      then map_option (\<lambda>b. set_writer i (W_entered w) (s\<lparr>co_barrier := b\<rparr>)) (mutation_enter (co_barrier s))
      else None)"

text \<open>The call of the store manager in \<^verbatim>\<open>_write_data_list\<close>, \<^verbatim>\<open>delete_data\<close> and \<^verbatim>\<open>_expire_timeout_data\<close>; \<open>t\<close> and \<open>now\<close>
  are the readings of the clock.\<close>

definition store_write_call :: "mutation \<Rightarrow> nat \<Rightarrow> nat \<Rightarrow> bool \<Rightarrow> vstore \<Rightarrow> (delta list \<times> vstore) \<times> bool" where
  "store_write_call w t now need vs =
     (case w of
        Upsert_data cs ttl \<Rightarrow> (tables_add t now cs ttl need vs, True)
      | Delete_data ls \<Rightarrow> (tables_delete t ls need vs, True)
      | Expire_data \<Rightarrow> let r = tables_expire now t vs in (r, fst r \<noteq> []))"

definition writer_store :: "nat \<Rightarrow> nat \<Rightarrow> nat \<Rightarrow> coll \<Rightarrow> coll option" where
  "writer_store i t now s =
     (if i < length (co_writers s)
      then (case co_writers s ! i of
              W_entered w \<Rightarrow>
                (let ((ds, vs'), changed) = store_write_call w t now (need_record_delta s) (co_tables s)
                 in Some (set_writer i (W_stored w ds changed) (s\<lparr>co_tables := vs'\<rparr>)))
            | _ \<Rightarrow> None)
      else None)"

definition apply_write :: "mutation \<Rightarrow> delta list \<Rightarrow> index_map \<Rightarrow> index_map" where
  "apply_write w ds m = (case w of Upsert_data _ _ \<Rightarrow> index_upsert m ds | _ \<Rightarrow> index_delete m ds)"

definition writer_apply :: "nat \<Rightarrow> coll \<Rightarrow> coll option" where
  "writer_apply i s =
     (if i < length (co_writers s)
      then (case co_writers s ! i of
              W_stored w ds changed \<Rightarrow>
                Some (set_writer i (W_applied changed)
                  (s\<lparr>co_index := map_option (\<lambda>ix. ix\<lparr>ix_map := apply_write w ds (ix_map ix)\<rparr>) (co_index s)\<rparr>))
            | _ \<Rightarrow> None)
      else None)"

text \<open>The index raises: the marker is set and the mutation ends with the error.\<close>

definition writer_fail :: "nat \<Rightarrow> coll \<Rightarrow> coll option" where
  "writer_fail i s =
     (if i < length (co_writers s)
      then (case co_writers s ! i of W_stored w ds changed \<Rightarrow> Some (set_writer i (W_applied True) s) | _ \<Rightarrow> None)
      else None)"

definition writer_exit :: "nat \<Rightarrow> coll \<Rightarrow> coll option" where
  "writer_exit i s =
     (if i < length (co_writers s)
      then (case co_writers s ! i of
              W_applied changed \<Rightarrow> Some (set_writer i W_idle (s\<lparr>co_barrier := mutation_exit changed (co_barrier s)\<rparr>))
            | _ \<Rightarrow> None)
      else None)"

subsection \<open>\<^verbatim>\<open>_rebuild_index\<close>\<close>

definition rebuild_begin :: "coll \<Rightarrow> coll option" where
  "rebuild_begin s =
     (case co_rebuild s of
        R_idle \<Rightarrow>
          (case co_index s of
             None \<Rightarrow> None
           | Some ix \<Rightarrow> map_option (\<lambda>g. s\<lparr>co_rebuild := R_reading g (ix_id ix) {} Map.empty\<rparr>)
               (snapshot_generation (co_barrier s)))
      | _ \<Rightarrow> None)"

text \<open>One page of the scan: the candidates with labels in \<open>K\<close>. The pages share no snapshot.\<close>

definition rebuild_page :: "nat set \<Rightarrow> coll \<Rightarrow> coll option" where
  "rebuild_page K s =
     (case co_rebuild s of
        R_reading g old done cands \<Rightarrow>
          Some (s\<lparr>co_rebuild := R_reading g old (done \<union> K)
            (\<lambda>l. if l \<in> K then vs_cands (co_tables s) l else cands l)\<rparr>)
      | _ \<Rightarrow> None)"

definition rebuild_check :: "coll \<Rightarrow> coll option" where
  "rebuild_check s =
     (case co_rebuild s of
        R_reading g old done cands \<Rightarrow>
          if done = UNIV
          then Some (s\<lparr>co_rebuild := if is_current g (co_barrier s) then R_built g old cands else R_published False\<rparr>)
          else None
      | _ \<Rightarrow> None)"

definition rebuild_wait :: "coll \<Rightarrow> coll option" where
  "rebuild_wait s =
     (case co_rebuild s of
        R_built g old cands \<Rightarrow> Some (s\<lparr>co_rebuild := R_waiting g old cands, co_barrier := exclusive_wait (co_barrier s)\<rparr>)
      | _ \<Rightarrow> None)"

definition rebuild_acquire :: "coll \<Rightarrow> coll option" where
  "rebuild_acquire s =
     (case co_rebuild s of
        R_waiting g old cands \<Rightarrow>
          map_option (\<lambda>b. s\<lparr>co_rebuild := R_holding g old cands, co_barrier := b\<rparr>) (exclusive_acquire (co_barrier s))
      | _ \<Rightarrow> None)"

text \<open>\<^verbatim>\<open>_install_index\<close> under the barrier, and the release of the barrier.\<close>

definition rebuild_install :: "coll \<Rightarrow> coll option" where
  "rebuild_install s =
     (case co_rebuild s of
        R_holding g old cands \<Rightarrow>
          (let s' = s\<lparr>co_barrier := exclusive_release (co_barrier s)\<rparr> in
           if br_generation (co_barrier s) \<noteq> g \<or> map_option ix_id (co_index s) \<noteq> Some old
           then Some (s'\<lparr>co_rebuild := R_published False\<rparr>)
           else Some (s'\<lparr>co_rebuild := R_published True, co_next := co_next s + 1,
                  co_index := Some \<lparr>ix_id = co_next s, ix_map = entries cands\<rparr>\<rparr>))
      | _ \<Rightarrow> None)"

definition rebuild_done :: "coll \<Rightarrow> coll option" where
  "rebuild_done s = (case co_rebuild s of R_published _ \<Rightarrow> Some (s\<lparr>co_rebuild := R_idle\<rparr>) | _ \<Rightarrow> None)"

subsection \<open>Exclusive operations\<close>

definition exclusive_begin :: "exclusive_op \<Rightarrow> coll \<Rightarrow> coll option" where
  "exclusive_begin op s =
     (if co_exclusive s = X_idle
      then Some (s\<lparr>co_exclusive := X_waiting op, co_barrier := exclusive_wait (co_barrier s)\<rparr>) else None)"

definition exclusive_enter :: "coll \<Rightarrow> coll option" where
  "exclusive_enter s =
     (case co_exclusive s of
        X_waiting op \<Rightarrow>
          map_option (\<lambda>b. s\<lparr>co_exclusive := X_holding op, co_barrier := b\<rparr>) (exclusive_acquire (co_barrier s))
      | _ \<Rightarrow> None)"

text \<open>The bodies of \<^verbatim>\<open>create_index\<close>, \<^verbatim>\<open>drop_index\<close> and \<^verbatim>\<open>delete_all_data\<close>.\<close>

definition perform_op :: "exclusive_op \<Rightarrow> coll \<Rightarrow> coll" where
  "perform_op op s =
     (let fresh = (\<lambda>m. Some \<lparr>ix_id = co_next s, ix_map = m\<rparr>) in
      case op of
        Create_index ts \<Rightarrow> s\<lparr>co_next := co_next s + 1, co_index := fresh (entries (vs_cands (co_tables s))),
          co_tables := snd (tables_trim ts (co_tables s))\<rparr>
      | Drop_index \<Rightarrow> s\<lparr>co_index := None\<rparr>
      | Delete_all_data \<Rightarrow>
          s\<lparr>co_next := co_next s + 1, co_tables := no_tables,
            co_index := (if co_index s = None then None else fresh Map.empty)\<rparr>)"

definition exclusive_perform :: "coll \<Rightarrow> coll option" where
  "exclusive_perform s =
     (case co_exclusive s of X_holding op \<Rightarrow> Some ((perform_op op s)\<lparr>co_exclusive := X_performed\<rparr>) | _ \<Rightarrow> None)"

definition exclusive_count :: "coll \<Rightarrow> coll option" where
  "exclusive_count s =
     (if co_exclusive s = X_performed
      then Some (s\<lparr>co_exclusive := X_counted, co_barrier := exclusive_changed (co_barrier s)\<rparr>) else None)"

definition exclusive_leave :: "coll \<Rightarrow> coll option" where
  "exclusive_leave s =
     (if co_exclusive s = X_counted
      then Some (s\<lparr>co_exclusive := X_idle, co_barrier := exclusive_release (co_barrier s)\<rparr>) else None)"

text \<open>An operation or a rebuild that raises before it changed anything.\<close>

definition exclusive_fail :: "coll \<Rightarrow> coll option" where
  "exclusive_fail s = (case co_exclusive s of X_holding op \<Rightarrow> Some (s\<lparr>co_exclusive := X_performed\<rparr>) | _ \<Rightarrow> None)"

definition rebuild_fail :: "coll \<Rightarrow> coll option" where
  "rebuild_fail s =
     (case co_rebuild s of
        R_reading _ _ _ _ \<Rightarrow> Some (s\<lparr>co_rebuild := R_published False\<rparr>)
      | R_built _ _ _ \<Rightarrow> Some (s\<lparr>co_rebuild := R_published False\<rparr>)
      | _ \<Rightarrow> None)"

section \<open>Runs\<close>

datatype act = W_enter nat mutation | W_store nat nat nat | W_apply nat | W_fail nat | W_exit nat
  | R_begin | R_page "nat set" | R_check | R_wait | R_acquire | R_install | R_done | R_fail
  | X_begin exclusive_op | X_enter | X_perform | X_fail | X_count | X_leave

definition coll_step :: "act \<Rightarrow> coll \<Rightarrow> coll option" where
  "coll_step a s =
     (case a of
        W_enter i w \<Rightarrow> writer_enter i w s | W_store i t now \<Rightarrow> writer_store i t now s
      | W_apply i \<Rightarrow> writer_apply i s | W_fail i \<Rightarrow> writer_fail i s | W_exit i \<Rightarrow> writer_exit i s
      | R_begin \<Rightarrow> rebuild_begin s | R_page K \<Rightarrow> rebuild_page K s | R_check \<Rightarrow> rebuild_check s
      | R_wait \<Rightarrow> rebuild_wait s | R_acquire \<Rightarrow> rebuild_acquire s | R_install \<Rightarrow> rebuild_install s
      | R_done \<Rightarrow> rebuild_done s | R_fail \<Rightarrow> rebuild_fail s | X_fail \<Rightarrow> exclusive_fail s
      | X_begin op \<Rightarrow> exclusive_begin op s | X_enter \<Rightarrow> exclusive_enter s | X_perform \<Rightarrow> exclusive_perform s
      | X_count \<Rightarrow> exclusive_count s | X_leave \<Rightarrow> exclusive_leave s)"

inductive coll_reach :: "coll \<Rightarrow> bool" where
  start: "coll_reach (new_coll n)"
| step: "coll_reach s \<Longrightarrow> coll_step a s = Some s' \<Longrightarrow> coll_reach s'"

section \<open>Invariants\<close>

definition inside :: "writer \<Rightarrow> bool" where
  "inside w \<longleftrightarrow> w \<noteq> W_idle"

text \<open>The store may have changed and the generation does not tell yet.\<close>

definition pending :: "writer \<Rightarrow> bool" where
  "pending w \<longleftrightarrow> (case w of W_stored _ _ changed \<Rightarrow> changed | W_applied changed \<Rightarrow> changed | _ \<Rightarrow> False)"

definition r_holds :: "rebuild \<Rightarrow> bool" where
  "r_holds r \<longleftrightarrow> (case r of R_holding _ _ _ \<Rightarrow> True | _ \<Rightarrow> False)"

definition x_holds :: "exclusive \<Rightarrow> bool" where
  "x_holds x \<longleftrightarrow> (case x of X_holding _ \<Rightarrow> True | X_performed \<Rightarrow> True | X_counted \<Rightarrow> True | _ \<Rightarrow> False)"

definition seen :: "rebuild \<Rightarrow> (nat \<times> nat set \<times> (nat \<rightharpoonup> candidate)) option" where
  "seen r = (case r of R_reading g old D cands \<Rightarrow> Some (g, D, cands) | R_built g old cands \<Rightarrow> Some (g, UNIV, cands)
     | R_waiting g old cands \<Rightarrow> Some (g, UNIV, cands) | R_holding g old cands \<Rightarrow> Some (g, UNIV, cands) | _ \<Rightarrow> None)"

definition unsettled :: "coll \<Rightarrow> bool" where
  "unsettled s \<longleftrightarrow> list_ex pending (co_writers s) \<or> co_exclusive s = X_performed"

definition barrier_ok :: "coll \<Rightarrow> bool" where
  "barrier_ok s \<longleftrightarrow>
     br_active (co_barrier s) = length (filter inside (co_writers s)) \<and>
     (br_publisher (co_barrier s) \<longleftrightarrow> r_holds (co_rebuild s) \<or> x_holds (co_exclusive s)) \<and>
     \<not> (r_holds (co_rebuild s) \<and> x_holds (co_exclusive s)) \<and>
     (br_publisher (co_barrier s) \<longrightarrow> br_active (co_barrier s) = 0)"

definition snapshot_ok :: "coll \<Rightarrow> bool" where
  "snapshot_ok s \<longleftrightarrow>
     (case seen (co_rebuild s) of
        None \<Rightarrow> True
      | Some (g, D, cands) \<Rightarrow> g \<le> br_generation (co_barrier s) \<and>
          (br_generation (co_barrier s) = g \<and> \<not> unsettled s \<longrightarrow> (\<forall>l\<in>D. cands l = vs_cands (co_tables s) l)))"

lemma perform_op_simps [simp]:
  "co_barrier (perform_op op s) = co_barrier s" "co_writers (perform_op op s) = co_writers s"
  "co_rebuild (perform_op op s) = co_rebuild s"
  by (simp_all add: perform_op_def Let_def split: exclusive_op.splits)

lemma pending_inside: "pending w \<Longrightarrow> inside w"
  by (auto simp: pending_def inside_def)

lemma filter_update:
  "i < length xs \<Longrightarrow> length (filter P (xs[i := y])) + (if P (xs ! i) then 1 else 0) = length (filter P xs) + (if P y then 1 else 0)"
proof (induction xs arbitrary: i)
  case (Cons x xs)
  then show ?case by (cases i) auto
qed simp

lemmas coll_steps = coll_step_def writer_enter_def writer_store_def writer_apply_def writer_fail_def writer_exit_def
  rebuild_begin_def rebuild_page_def rebuild_check_def rebuild_wait_def rebuild_acquire_def rebuild_install_def
  rebuild_done_def rebuild_fail_def exclusive_begin_def exclusive_enter_def exclusive_perform_def exclusive_fail_def
  exclusive_count_def exclusive_leave_def perform_op_def tables_trim_def

lemmas barrier_steps = mutation_enter_def mutation_exit_def exclusive_wait_def exclusive_acquire_def
  exclusive_release_def exclusive_changed_def snapshot_generation_def is_current_def

lemma inside_simps [simp]: "inside (W_entered m)" "inside (W_stored m ds c)" "inside (W_applied c)" "\<not> inside W_idle"
  by (simp_all add: inside_def)

lemma writers_inside:
  assumes "i < length ws"
  shows "\<not> inside (ws ! i) \<Longrightarrow> inside w \<Longrightarrow> length (filter inside (ws[i := w])) = Suc (length (filter inside ws))"
    "inside (ws ! i) \<Longrightarrow> inside w \<Longrightarrow> length (filter inside (ws[i := w])) = length (filter inside ws)"
    "inside (ws ! i) \<Longrightarrow> \<not> inside w \<Longrightarrow> length (filter inside (ws[i := w])) = length (filter inside ws) - 1"
  using filter_update [OF assms, of inside w] by auto

lemma barrier_ok_enter: "barrier_ok s \<Longrightarrow> writer_enter i m s = Some s' \<Longrightarrow> barrier_ok s'"
  by (auto simp: writer_enter_def mutation_enter_def barrier_ok_def set_writer_def writers_inside split: if_splits)

lemma barrier_ok_store: "barrier_ok s \<Longrightarrow> writer_store i t now s = Some s' \<Longrightarrow> barrier_ok s'"
  by (auto simp: writer_store_def barrier_ok_def set_writer_def writers_inside Let_def
      split: if_splits writer.splits prod.splits)

lemma barrier_ok_apply: "barrier_ok s \<Longrightarrow> writer_apply i s = Some s' \<Longrightarrow> barrier_ok s'"
  by (auto simp: writer_apply_def barrier_ok_def set_writer_def writers_inside split: if_splits writer.splits)

lemma barrier_ok_wfail: "barrier_ok s \<Longrightarrow> writer_fail i s = Some s' \<Longrightarrow> barrier_ok s'"
  by (auto simp: writer_fail_def barrier_ok_def set_writer_def writers_inside split: if_splits writer.splits)

lemma barrier_ok_exit: "barrier_ok s \<Longrightarrow> writer_exit i s = Some s' \<Longrightarrow> barrier_ok s'"
  by (auto simp: writer_exit_def barrier_ok_def mutation_exit_def set_writer_def writers_inside split: if_splits writer.splits)

lemma holds_simps [simp]:
  "r_holds (R_holding g old c)" "\<not> r_holds R_idle" "\<not> r_holds (R_reading g old D c)" "\<not> r_holds (R_built g old c)"
  "\<not> r_holds (R_waiting g old c)" "\<not> r_holds (R_published b)"
  "x_holds (X_holding op)" "x_holds X_performed" "x_holds X_counted" "\<not> x_holds X_idle" "\<not> x_holds (X_waiting op)"
  by (simp_all add: r_holds_def x_holds_def)

lemma barrier_ok_begin: "barrier_ok s \<Longrightarrow> rebuild_begin s = Some s' \<Longrightarrow> barrier_ok s'"
  by (auto simp: rebuild_begin_def barrier_ok_def Let_def split: if_splits option.splits rebuild.splits)

lemma barrier_ok_page: "barrier_ok s \<Longrightarrow> rebuild_page K s = Some s' \<Longrightarrow> barrier_ok s'"
  by (auto simp: rebuild_page_def barrier_ok_def Let_def split: if_splits option.splits rebuild.splits)

lemma barrier_ok_check: "barrier_ok s \<Longrightarrow> rebuild_check s = Some s' \<Longrightarrow> barrier_ok s'"
  by (auto simp: rebuild_check_def barrier_ok_def Let_def split: if_splits option.splits rebuild.splits)

lemma barrier_ok_wait: "barrier_ok s \<Longrightarrow> rebuild_wait s = Some s' \<Longrightarrow> barrier_ok s'"
  by (auto simp: rebuild_wait_def exclusive_wait_def barrier_ok_def Let_def split: if_splits option.splits rebuild.splits)

lemma barrier_ok_acquire: "barrier_ok s \<Longrightarrow> rebuild_acquire s = Some s' \<Longrightarrow> barrier_ok s'"
  by (auto simp: rebuild_acquire_def exclusive_acquire_def barrier_ok_def Let_def split: if_splits option.splits rebuild.splits)

lemma barrier_ok_install: "barrier_ok s \<Longrightarrow> rebuild_install s = Some s' \<Longrightarrow> barrier_ok s'"
  by (auto simp: rebuild_install_def exclusive_release_def barrier_ok_def Let_def split: if_splits option.splits rebuild.splits)

lemma barrier_ok_done: "barrier_ok s \<Longrightarrow> rebuild_done s = Some s' \<Longrightarrow> barrier_ok s'"
  by (auto simp: rebuild_done_def barrier_ok_def Let_def split: if_splits option.splits rebuild.splits)

lemma barrier_ok_rfail: "barrier_ok s \<Longrightarrow> rebuild_fail s = Some s' \<Longrightarrow> barrier_ok s'"
  by (auto simp: rebuild_fail_def barrier_ok_def Let_def split: if_splits option.splits rebuild.splits)

lemma barrier_ok_xbegin: "barrier_ok s \<Longrightarrow> exclusive_begin op s = Some s' \<Longrightarrow> barrier_ok s'"
  by (auto simp: exclusive_begin_def exclusive_wait_def barrier_ok_def Let_def split: if_splits option.splits exclusive.splits)

lemma barrier_ok_xenter: "barrier_ok s \<Longrightarrow> exclusive_enter s = Some s' \<Longrightarrow> barrier_ok s'"
  by (auto simp: exclusive_enter_def exclusive_acquire_def barrier_ok_def Let_def split: if_splits option.splits exclusive.splits)

lemma barrier_ok_xperform: "barrier_ok s \<Longrightarrow> exclusive_perform s = Some s' \<Longrightarrow> barrier_ok s'"
  by (auto simp: exclusive_perform_def barrier_ok_def Let_def split: exclusive.splits)

lemma barrier_ok_xfail: "barrier_ok s \<Longrightarrow> exclusive_fail s = Some s' \<Longrightarrow> barrier_ok s'"
  by (auto simp: exclusive_fail_def barrier_ok_def Let_def split: if_splits option.splits exclusive.splits)

lemma barrier_ok_xcount: "barrier_ok s \<Longrightarrow> exclusive_count s = Some s' \<Longrightarrow> barrier_ok s'"
  by (auto simp: exclusive_count_def exclusive_changed_def barrier_ok_def Let_def split: if_splits option.splits exclusive.splits)

lemma barrier_ok_xleave: "barrier_ok s \<Longrightarrow> exclusive_leave s = Some s' \<Longrightarrow> barrier_ok s'"
  by (auto simp: exclusive_leave_def exclusive_release_def barrier_ok_def Let_def split: if_splits option.splits exclusive.splits)

lemmas barrier_ok_steps = barrier_ok_enter barrier_ok_store barrier_ok_apply barrier_ok_wfail barrier_ok_exit
  barrier_ok_begin barrier_ok_page barrier_ok_check barrier_ok_wait barrier_ok_acquire barrier_ok_install barrier_ok_done
  barrier_ok_rfail barrier_ok_xbegin barrier_ok_xenter barrier_ok_xperform barrier_ok_xfail barrier_ok_xcount barrier_ok_xleave

lemma barrier_ok_step: "barrier_ok s \<Longrightarrow> coll_step a s = Some s' \<Longrightarrow> barrier_ok s'"
  by (cases a) (simp_all add: coll_step_def, (erule (1) barrier_ok_steps)+)

lemma pending_update:
  assumes "i < length ws"
  shows "pending w \<Longrightarrow> list_ex pending (ws[i := w])"
    "list_ex pending ws \<Longrightarrow> (pending (ws ! i) \<Longrightarrow> pending w) \<Longrightarrow> list_ex pending (ws[i := w])"
  using assms unfolding list_ex_length by (auto simp: nth_list_update) metis

lemma pending_simps [simp]:
  "\<not> pending W_idle" "\<not> pending (W_entered m)" "pending (W_stored m ds c) \<longleftrightarrow> c" "pending (W_applied c) \<longleftrightarrow> c"
  by (simp_all add: pending_def)

lemma snapshot_keep:
  assumes "snapshot_ok s" "co_rebuild s' = co_rebuild s" "br_generation (co_barrier s) \<le> br_generation (co_barrier s')"
    "br_generation (co_barrier s') = br_generation (co_barrier s) \<Longrightarrow> \<not> unsettled s' \<Longrightarrow>
       \<not> unsettled s \<and> vs_cands (co_tables s') = vs_cands (co_tables s)"
  shows "snapshot_ok s'"
  using assms unfolding snapshot_ok_def by (fastforce split: option.splits)

lemma expire_nothing:
  assumes "fst (tables_expire now t vs) = []"
  shows "vs_cands (snd (tables_expire now t vs)) = vs_cands vs"
proof -
  have "vs_cands (foldl del_ttl vs ts) = vs_cands vs" for ts vs
    by (induction ts arbitrary: vs) (simp_all add: del_ttl_def)
  then show ?thesis using assms by (simp add: tables_expire_def Let_def log_deltas_def)
qed

lemma store_unchanged:
  assumes "store_write_call m t now need vs = ((ds, vs'), changed)" "\<not> changed"
  shows "vs_cands vs' = vs_cands vs"
  using assms expire_nothing [of now t vs] by (auto simp: store_write_call_def Let_def split: mutation.splits)

lemma snapshot_writer:
  assumes "snapshot_ok s"
  shows "writer_enter i m s = Some s' \<Longrightarrow> snapshot_ok s'" "writer_store i t now s = Some s' \<Longrightarrow> snapshot_ok s'"
    "writer_apply i s = Some s' \<Longrightarrow> snapshot_ok s'" "writer_fail i s = Some s' \<Longrightarrow> snapshot_ok s'"
    "writer_exit i s = Some s' \<Longrightarrow> snapshot_ok s'"
proof -
  show "writer_enter i m s = Some s' \<Longrightarrow> snapshot_ok s'"
    by (rule snapshot_keep [OF assms]) (auto simp: writer_enter_def mutation_enter_def unsettled_def set_writer_def
        split: if_splits, metis pending_simps(1) pending_update(2))
  show "writer_store i t now s = Some s' \<Longrightarrow> snapshot_ok s'"
    by (rule snapshot_keep [OF assms]) (auto simp: writer_store_def unsettled_def set_writer_def Let_def
        split: if_splits writer.splits prod.splits, metis pending_simps(2) pending_update(2),
        metis pending_simps(3) pending_update(1) store_unchanged)
  show "writer_apply i s = Some s' \<Longrightarrow> snapshot_ok s'"
    by (rule snapshot_keep [OF assms]) (auto simp: writer_apply_def unsettled_def set_writer_def
        split: if_splits writer.splits, metis pending_simps(3,4) pending_update(2))
  show "writer_fail i s = Some s' \<Longrightarrow> snapshot_ok s'"
    by (rule snapshot_keep [OF assms]) (auto simp: writer_fail_def unsettled_def set_writer_def
        pending_update(1) intro: pending_update(2) split: if_splits writer.splits)
  show "writer_exit i s = Some s' \<Longrightarrow> snapshot_ok s'"
    by (rule snapshot_keep [OF assms]) (auto simp: writer_exit_def mutation_exit_def unsettled_def set_writer_def
        split: if_splits writer.splits, metis pending_simps(4) pending_update(2))
qed

lemma snapshot_exclusive:
  assumes "snapshot_ok s"
  shows "exclusive_begin op s = Some s' \<Longrightarrow> snapshot_ok s'" "exclusive_enter s = Some s' \<Longrightarrow> snapshot_ok s'"
    "exclusive_perform s = Some s' \<Longrightarrow> snapshot_ok s'" "exclusive_fail s = Some s' \<Longrightarrow> snapshot_ok s'"
    "exclusive_count s = Some s' \<Longrightarrow> snapshot_ok s'" "exclusive_leave s = Some s' \<Longrightarrow> snapshot_ok s'"
proof -
  show "exclusive_begin op s = Some s' \<Longrightarrow> snapshot_ok s'"
    by (rule snapshot_keep [OF assms]) (auto simp: exclusive_begin_def exclusive_wait_def unsettled_def split: if_splits)
  show "exclusive_enter s = Some s' \<Longrightarrow> snapshot_ok s'"
    by (rule snapshot_keep [OF assms]) (auto simp: exclusive_enter_def exclusive_acquire_def unsettled_def
        split: if_splits exclusive.splits)
  show "exclusive_perform s = Some s' \<Longrightarrow> snapshot_ok s'"
    by (rule snapshot_keep [OF assms]) (auto simp: exclusive_perform_def unsettled_def Let_def split: exclusive.splits)
  show "exclusive_fail s = Some s' \<Longrightarrow> snapshot_ok s'"
    by (rule snapshot_keep [OF assms]) (auto simp: exclusive_fail_def unsettled_def split: exclusive.splits)
  show "exclusive_count s = Some s' \<Longrightarrow> snapshot_ok s'"
    by (rule snapshot_keep [OF assms]) (auto simp: exclusive_count_def exclusive_changed_def unsettled_def split: if_splits)
  show "exclusive_leave s = Some s' \<Longrightarrow> snapshot_ok s'"
    by (rule snapshot_keep [OF assms]) (auto simp: exclusive_leave_def exclusive_release_def unsettled_def split: if_splits)
qed

lemma seen_simps [simp]:
  "seen R_idle = None" "seen (R_published b) = None" "seen (R_reading g old D c) = Some (g, D, c)"
  "seen (R_built g old c) = Some (g, UNIV, c)" "seen (R_waiting g old c) = Some (g, UNIV, c)"
  "seen (R_holding g old c) = Some (g, UNIV, c)"
  by (simp_all add: seen_def)

lemma snapshot_rebuild:
  assumes "snapshot_ok s"
  shows "rebuild_begin s = Some s' \<Longrightarrow> snapshot_ok s'" "rebuild_page K s = Some s' \<Longrightarrow> snapshot_ok s'"
    "rebuild_check s = Some s' \<Longrightarrow> snapshot_ok s'" "rebuild_wait s = Some s' \<Longrightarrow> snapshot_ok s'"
    "rebuild_acquire s = Some s' \<Longrightarrow> snapshot_ok s'" "rebuild_install s = Some s' \<Longrightarrow> snapshot_ok s'"
    "rebuild_done s = Some s' \<Longrightarrow> snapshot_ok s'" "rebuild_fail s = Some s' \<Longrightarrow> snapshot_ok s'"
proof -
  show "rebuild_begin s = Some s' \<Longrightarrow> snapshot_ok s'"
    by (auto simp: rebuild_begin_def snapshot_generation_def snapshot_ok_def split: rebuild.splits option.splits if_splits)
  show "rebuild_page K s = Some s' \<Longrightarrow> snapshot_ok s'"
    using assms by (auto simp: rebuild_page_def snapshot_ok_def unsettled_def split: rebuild.splits)
  show "rebuild_check s = Some s' \<Longrightarrow> snapshot_ok s'"
    using assms by (auto simp: rebuild_check_def snapshot_ok_def unsettled_def split: rebuild.splits if_splits)
  show "rebuild_wait s = Some s' \<Longrightarrow> snapshot_ok s'"
    using assms by (auto simp: rebuild_wait_def exclusive_wait_def snapshot_ok_def unsettled_def split: rebuild.splits)
  show "rebuild_acquire s = Some s' \<Longrightarrow> snapshot_ok s'"
    using assms by (auto simp: rebuild_acquire_def exclusive_acquire_def snapshot_ok_def unsettled_def split: rebuild.splits if_splits)
  show "rebuild_install s = Some s' \<Longrightarrow> snapshot_ok s'"
    by (auto simp: rebuild_install_def snapshot_ok_def Let_def split: rebuild.splits if_splits)
  show "rebuild_done s = Some s' \<Longrightarrow> snapshot_ok s'"
    by (auto simp: rebuild_done_def snapshot_ok_def split: rebuild.splits)
  show "rebuild_fail s = Some s' \<Longrightarrow> snapshot_ok s'"
    by (auto simp: rebuild_fail_def snapshot_ok_def split: rebuild.splits)
qed

lemma snapshot_ok_step: "snapshot_ok s \<Longrightarrow> coll_step a s = Some s' \<Longrightarrow> snapshot_ok s'"
  by (cases a) (simp_all add: coll_step_def, (erule (1) snapshot_writer snapshot_exclusive snapshot_rebuild)+)

lemma reach_ok: "coll_reach s \<Longrightarrow> barrier_ok s \<and> snapshot_ok s"
proof (induction rule: coll_reach.induct)
  case (start n)
  then show ?case by (simp add: new_coll_def new_barrier_def barrier_ok_def snapshot_ok_def)
next
  case (step s a s')
  then show ?case using barrier_ok_step snapshot_ok_step by blast
qed

lemma install_exact:
  assumes "barrier_ok s" "snapshot_ok s" "rebuild_install s = Some s'" "co_rebuild s' = R_published True"
  shows "\<exists>n. co_index s' = Some \<lparr>ix_id = n, ix_map = entries (vs_cands (co_tables s'))\<rparr>"
    "list_all (\<lambda>w. w = W_idle) (co_writers s')"
proof -
  obtain g old cands where r: "co_rebuild s = R_holding g old cands" "br_generation (co_barrier s) = g"
      "co_index s' = Some \<lparr>ix_id = co_next s, ix_map = entries cands\<rparr>" "co_tables s' = co_tables s" "co_writers s' = co_writers s"
    using assms(3,4) by (auto simp: rebuild_install_def Let_def split: rebuild.splits if_splits)
  have "length (filter inside (co_writers s)) = 0" "\<not> x_holds (co_exclusive s)"
    using assms(1) r(1) by (auto simp: barrier_ok_def)
  then have idle: "\<forall>w\<in>set (co_writers s). w = W_idle" "co_exclusive s \<noteq> X_performed"
    by (auto simp: filter_empty_conv inside_def)
  then show "list_all (\<lambda>w. w = W_idle) (co_writers s')" by (simp add: r(5) list_all_iff)
  have "\<not> unsettled s" using idle by (auto simp: unsettled_def list_ex_iff)
  then have "\<forall>l. cands l = vs_cands (co_tables s) l" using assms(2) r(1,2) by (simp add: snapshot_ok_def)
  then have "cands = vs_cands (co_tables s)" by auto
  then show "\<exists>n. co_index s' = Some \<lparr>ix_id = n, ix_map = entries (vs_cands (co_tables s'))\<rparr>" using r(3,4) by simp
qed

text \<open>C11. A rebuilt index is published only when it is exact: whatever writers, expiry runs and exclusive
  operations ran beside the rebuild, and although the pages of its scan share no snapshot, the replacement that is
  installed holds exactly the candidates the store holds at that moment; no writer is inside the barrier then.\<close>

theorem rebuild_publishes_current:
  assumes "coll_reach s" "coll_step R_install s = Some s'" "co_rebuild s' = R_published True"
  shows "map_option ix_map (co_index s') = Some (entries (vs_cands (co_tables s'))) \<and>
    list_all (\<lambda>w. w = W_idle) (co_writers s')"
  using install_exact [of s s'] reach_ok [OF assms(1)] assms(2,3) by (auto simp: coll_step_def)

section \<open>Writers with different labels\<close>

definition labels :: "delta list \<Rightarrow> nat set" where
  "labels ds = dl_label ` set ds"

definition touched :: "writer \<Rightarrow> nat set" where
  "touched w = (case w of W_stored m ds c \<Rightarrow> labels ds | _ \<Rightarrow> {})"

lemma apply_write_local:
  "l \<notin> labels ds \<Longrightarrow> apply_write m ds M l = M l"
  "l \<in> labels ds \<Longrightarrow> apply_write m ds M l = apply_write m ds M' l"
proof -
  have up: "l \<notin> labels ds \<Longrightarrow> index_upsert M ds l = M l" "l \<notin> labels ds \<Longrightarrow> index_delete M ds l = M l" for M
    by (induction ds arbitrary: M) (auto simp: index_upsert_def index_delete_def labels_def)
  then show "l \<notin> labels ds \<Longrightarrow> apply_write m ds M l = M l" by (simp add: apply_write_def split: mutation.splits)
  have "l \<in> labels ds \<Longrightarrow> index_upsert M ds l = index_upsert M' ds l" "l \<in> labels ds \<Longrightarrow> index_delete M ds l = index_delete M' ds l"
    by (induction ds rule: rev_induct) (auto simp: index_upsert_def index_delete_def labels_def)
  then show "l \<in> labels ds \<Longrightarrow> apply_write m ds M l = apply_write m ds M' l"
    by (simp add: apply_write_def split: mutation.splits)
qed

lemma entries_upd: "entries (m(l \<mapsto> c)) = (entries m)(l \<mapsto> cand_entry c)" "entries (m(l := None)) = (entries m)(l := None)"
  by (auto simp: entries_def fun_eq_iff)

lemma entries_puts:
  "entries (vs_cands (foldl put_cand vs cs)) = foldl (\<lambda>m c. m(cd_label c \<mapsto> cand_entry c)) (entries (vs_cands vs)) cs"
  "entries (vs_cands (foldl del_cand vs ls)) = foldl (\<lambda>m l. m(l := None)) (entries (vs_cands vs)) ls"
  by (induction cs arbitrary: vs) (simp_all add: put_cand_def entries_upd, induction ls arbitrary: vs,
      simp_all add: del_cand_def entries_upd)

lemma vs_cands_del_ttl: "vs_cands (foldl del_ttl vs ts) = vs_cands vs"
  by (induction ts arbitrary: vs) (simp_all add: del_ttl_def)

text \<open>The deltas of a call say of the index what the call did to the store.\<close>

lemma store_apply:
  assumes "store_write_call m t now True vs = ((ds, vs'), changed)"
  shows "entries (vs_cands vs') = apply_write m ds (entries (vs_cands vs))"
proof (cases m)
  case (Upsert_data cs ttl)
  have "foldl (\<lambda>m c. m(cd_label c \<mapsto> cand_entry c)) M (with_ttl now ttl cs)
      = foldl (\<lambda>m d. m(dl_label d \<mapsto> delta_entry d)) M (map (\<lambda>c. upsert_delta c (f c)) cs)" for M f
    unfolding with_ttl_def foldl_map
    by (induction cs arbitrary: M) (auto simp: upsert_delta_def delta_entry_def cand_entry_def)
  then show ?thesis
    using assms Upsert_data
    by (auto simp: store_write_call_def tables_add_def Let_def apply_write_def index_upsert_def vs_cands_puts(1,2) entries_puts
        split: if_splits)
next
  case (Delete_data ls)
  have "foldl (\<lambda>m l. m(l := None)) M ls = foldl (\<lambda>m d. m(dl_label d := None)) M (map (\<lambda>l. delete_delta l (f l)) ls)"
    for f and M :: index_map
    unfolding foldl_map by (simp add: delete_delta_def)
  then show ?thesis
    using assms Delete_data
    by (auto simp: store_write_call_def tables_delete_def Let_def apply_write_def index_delete_def vs_cands_puts(2) entries_puts)
next
  case Expire_data
  then show ?thesis
    using assms entries_puts(2) [of vs "map cd_label (expired_of now vs)", unfolded foldl_map]
    by (auto simp: store_write_call_def tables_expire_def Let_def apply_write_def index_delete_def vs_cands_puts(2)
        entries_puts vs_cands_del_ttl foldl_map delete_delta_def)
qed

text \<open>What the writers owe each other: no error in the index, and a writer does not store labels that another writer
  has stored and not yet applied.\<close>

definition orderly :: "coll \<Rightarrow> act \<Rightarrow> bool" where
  "orderly s a \<longleftrightarrow>
     (case a of
        W_fail i \<Rightarrow> False
      | W_store i t now \<Rightarrow>
          (case writer_store i t now s of
             None \<Rightarrow> False
           | Some s' \<Rightarrow> \<forall>j<length (co_writers s). j \<noteq> i \<longrightarrow> touched (co_writers s' ! i) \<inter> touched (co_writers s ! j) = {})
      | _ \<Rightarrow> True)"

definition writers_ok :: "coll \<Rightarrow> bool" where
  "writers_ok s \<longleftrightarrow>
     (\<forall>i<length (co_writers s). \<forall>j<length (co_writers s). i \<noteq> j \<longrightarrow>
        touched (co_writers s ! i) \<inter> touched (co_writers s ! j) = {}) \<and>
     (co_index s \<noteq> None \<longrightarrow> (\<forall>i<length (co_writers s). \<forall>m ds c. co_writers s ! i = W_stored m ds c \<longrightarrow>
        (\<forall>M. \<forall>l\<in>labels ds. apply_write m ds M l = entries (vs_cands (co_tables s)) l)))"

definition index_agrees :: "coll \<Rightarrow> bool" where
  "index_agrees s \<longleftrightarrow> (\<forall>ix l. co_index s = Some ix \<longrightarrow> (\<forall>i<length (co_writers s). l \<notin> touched (co_writers s ! i)) \<longrightarrow>
     ix_map ix l = entries (vs_cands (co_tables s)) l)"

lemma touched_simps [simp]:
  "touched W_idle = {}" "touched (W_entered m) = {}" "touched (W_applied c) = {}" "touched (W_stored m ds c) = labels ds"
  by (simp_all add: touched_def)

text \<open>Steps that leave the tables, the index and what the writers have stored as they are.\<close>

lemma agree_keep:
  assumes "writers_ok s" "index_agrees s" "co_index s' = co_index s" "co_tables s' = co_tables s"
    "length (co_writers s') = length (co_writers s)"
    "\<And>i. i < length (co_writers s) \<Longrightarrow> co_writers s' ! i = co_writers s ! i \<or>
       (\<forall>m ds c. co_writers s ! i \<noteq> W_stored m ds c) \<and> (\<forall>m ds c. co_writers s' ! i \<noteq> W_stored m ds c)"
  shows "writers_ok s' \<and> index_agrees s'"
proof -
  have t: "touched (co_writers s' ! i) = touched (co_writers s ! i)" if "i < length (co_writers s)" for i
    using assms(6) [OF that] by (auto simp: touched_def split: writer.splits)
  have st: "co_writers s ! i = W_stored m ds c" if "i < length (co_writers s)" "co_writers s' ! i = W_stored m ds c" for i m ds c
    using assms(6) [OF that(1)] that(2) by auto
  have "index_agrees s'" using assms(2) t by (simp add: index_agrees_def assms(3-5))
  moreover have "writers_ok s'" using assms(1) t st unfolding writers_ok_def assms(3-5) by (metis (no_types, lifting))
  ultimately show ?thesis by blast
qed

text \<open>Steps after which no writer is between its store and the index.\<close>

lemma agree_idle:
  assumes "list_all (\<lambda>w. w = W_idle) (co_writers s)"
    "\<And>ix. co_index s = Some ix \<Longrightarrow> ix_map ix = entries (vs_cands (co_tables s))"
  shows "writers_ok s \<and> index_agrees s"
  using assms by (auto simp: writers_ok_def index_agrees_def list_all_length)

lemma agree_writer_store:
  assumes "writers_ok s" "index_agrees s" "writer_store i t now s = Some s'" "orderly s (W_store i t now)"
  shows "writers_ok s' \<and> index_agrees s'"
proof -
  obtain m ds vs' c where i: "i < length (co_writers s)" "co_writers s ! i = W_entered m"
    and call: "store_write_call m t now (need_record_delta s) (co_tables s) = ((ds, vs'), c)"
    and s': "s' = set_writer i (W_stored m ds c) (s\<lparr>co_tables := vs'\<rparr>)"
    using assms(3) by (auto simp: writer_store_def Let_def split: if_splits writer.splits prod.splits)
  have ws: "co_writers s' = (co_writers s)[i := W_stored m ds c]" "co_index s' = co_index s" "co_tables s' = vs'"
    by (simp_all add: s' set_writer_def)
  have dis: "labels ds \<inter> touched (co_writers s ! j) = {}" if "j < length (co_writers s)" "j \<noteq> i" for j
    using assms(4) that i(1) ws(1) by (auto simp: orderly_def assms(3))
  have ap: "entries (vs_cands vs') = apply_write m ds (entries (vs_cands (co_tables s)))" if "co_index s \<noteq> None"
    using store_apply call that by (simp add: need_record_delta_def)
  have keep: "entries (vs_cands vs') l = entries (vs_cands (co_tables s)) l" if "co_index s \<noteq> None" "l \<notin> labels ds" for l
    using ap [OF that(1)] apply_write_local(1) [OF that(2)] by metis
  have "index_agrees s'"
    unfolding index_agrees_def ws
  proof (intro allI impI)
    fix ix l
    assume ix: "co_index s = Some ix"
      and l: "\<forall>j<length ((co_writers s)[i := W_stored m ds c]). l \<notin> touched ((co_writers s)[i := W_stored m ds c] ! j)"
    have "l \<notin> labels ds" using l i(1) by force
    moreover have "\<forall>j<length (co_writers s). l \<notin> touched (co_writers s ! j)"
      using l i by (metis length_list_update nth_list_update_neq touched_simps(2) empty_iff)
    ultimately show "ix_map ix l = entries (vs_cands vs') l"
      using keep ix assms(2) by (simp add: index_agrees_def)
  qed
  moreover have "writers_ok s'"
    unfolding writers_ok_def ws
  proof (intro conjI allI impI ballI)
    fix j k
    assume jk: "j < length ((co_writers s)[i := W_stored m ds c])" "k < length ((co_writers s)[i := W_stored m ds c])" "j \<noteq> k"
    then have "touched (co_writers s ! j) \<inter> touched (co_writers s ! k) = {}"
      using assms(1) unfolding writers_ok_def by simp
    then show "touched ((co_writers s)[i := W_stored m ds c] ! j) \<inter> touched ((co_writers s)[i := W_stored m ds c] ! k) = {}"
      using dis [of j] dis [of k] jk i(1) by (cases "j = i"; cases "k = i") (simp_all add: Int_commute)
  next
    fix j m' ds' c' M l
    assume ix: "co_index s \<noteq> None" and j: "j < length ((co_writers s)[i := W_stored m ds c])"
      "(co_writers s)[i := W_stored m ds c] ! j = W_stored m' ds' c'" and l: "l \<in> labels ds'"
    show "apply_write m' ds' M l = entries (vs_cands vs') l"
    proof (cases "j = i")
      case True
      then show ?thesis using j i(1) l ap [OF ix] apply_write_local(2) by auto
    next
      case False
      then have st: "co_writers s ! j = W_stored m' ds' c'" "j < length (co_writers s)" using j by auto
      then have "l \<notin> labels ds" using dis [OF st(2) False] l by auto
      moreover have "apply_write m' ds' M l = entries (vs_cands (co_tables s)) l"
        using assms(1) ix st l unfolding writers_ok_def by blast
      ultimately show ?thesis using keep [OF ix] by simp
    qed
  qed
  ultimately show ?thesis by blast
qed

lemma agree_writer_apply:
  assumes "writers_ok s" "index_agrees s" "writer_apply i s = Some s'"
  shows "writers_ok s' \<and> index_agrees s'"
proof -
  obtain m ds c where i: "i < length (co_writers s)" "co_writers s ! i = W_stored m ds c"
    and ws: "co_writers s' = (co_writers s)[i := W_applied c]" "co_tables s' = co_tables s"
      "co_index s' = map_option (\<lambda>ix. ix\<lparr>ix_map := apply_write m ds (ix_map ix)\<rparr>) (co_index s)"
    using assms(3) by (auto simp: writer_apply_def set_writer_def split: if_splits writer.splits)
  have other: "(co_writers s)[i := W_applied c] ! j = (if j = i then W_applied c else co_writers s ! j)"
    if "j < length (co_writers s)" for j using that by simp
  have "index_agrees s'"
    unfolding index_agrees_def ws
  proof (intro allI impI)
    fix ix l
    assume ix: "map_option (\<lambda>ix. ix\<lparr>ix_map := apply_write m ds (ix_map ix)\<rparr>) (co_index s) = Some ix"
      and l: "\<forall>j<length ((co_writers s)[i := W_applied c]). l \<notin> touched ((co_writers s)[i := W_applied c] ! j)"
    obtain ix0 where ix0: "co_index s = Some ix0" "ix_map ix = apply_write m ds (ix_map ix0)" using ix by auto
    show "ix_map ix l = entries (vs_cands (co_tables s)) l"
    proof (cases "l \<in> labels ds")
      case True
      then show ?thesis using assms(1) ix0 i unfolding writers_ok_def by auto
    next
      case False
      have "l \<notin> touched (co_writers s ! j)" if "j < length (co_writers s)" for j
        using l other [OF that] that i(2) False by (cases "j = i") auto
      then have "ix_map ix0 l = entries (vs_cands (co_tables s)) l"
        using assms(2) ix0(1) unfolding index_agrees_def by blast
      then show ?thesis using ix0(2) apply_write_local(1) [OF False] by metis
    qed
  qed
  moreover have "writers_ok s'"
    using assms(1) other unfolding writers_ok_def ws by auto
  ultimately show ?thesis by blast
qed

lemma held_idle:
  assumes "barrier_ok s" "x_holds (co_exclusive s)"
  shows "list_all (\<lambda>w. w = W_idle) (co_writers s)"
proof -
  have "length (filter inside (co_writers s)) = 0" using assms by (auto simp: barrier_ok_def)
  then show ?thesis by (auto simp: filter_empty_conv inside_def list_all_iff)
qed

lemma entries_empty [simp]: "entries Map.empty = Map.empty"
  by (simp add: entries_def fun_eq_iff)

lemma agree_perform:
  assumes "barrier_ok s" "writers_ok s" "index_agrees s" "exclusive_perform s = Some s'"
  shows "writers_ok s' \<and> index_agrees s'"
proof (rule agree_idle)
  obtain op where op: "co_exclusive s = X_holding op" "s' = (perform_op op s)\<lparr>co_exclusive := X_performed\<rparr>"
    using assms(4) by (auto simp: exclusive_perform_def split: exclusive.splits)
  then show "list_all (\<lambda>w. w = W_idle) (co_writers s')" using held_idle [OF assms(1)] by simp
  show "ix_map ix = entries (vs_cands (co_tables s'))" if "co_index s' = Some ix" for ix
    using that op(2) by (auto simp: perform_op_def tables_trim_def no_tables_def Let_def split: exclusive_op.splits if_splits)
qed

lemma agree_install:
  assumes "barrier_ok s" "snapshot_ok s" "writers_ok s" "index_agrees s" "rebuild_install s = Some s'"
  shows "writers_ok s' \<and> index_agrees s'"
proof (cases "co_rebuild s' = R_published True")
  case True
  then show ?thesis using install_exact [OF assms(1,2,5)] by (intro agree_idle) auto
next
  case False
  then show ?thesis
    using assms(5) by (intro agree_keep [OF assms(3,4)]) (auto simp: rebuild_install_def Let_def split: rebuild.splits if_splits)
qed

lemma agree_step:
  assumes "barrier_ok s" "snapshot_ok s" "writers_ok s" "index_agrees s" "coll_step a s = Some s'" "orderly s a"
  shows "writers_ok s' \<and> index_agrees s'"
proof -
  note k = agree_keep [OF assms(3,4)]
  note st = assms(5) [unfolded coll_step_def]
  show ?thesis
  proof (cases a)
    case (W_enter i m)
    then show ?thesis using st
      by (intro k) (auto simp: writer_enter_def set_writer_def nth_list_update split: if_splits)
  next
    case (W_store i t now)
    then show ?thesis using st agree_writer_store [OF assms(3,4)] assms(6) by simp
  next
    case (W_apply i)
    then show ?thesis using st agree_writer_apply [OF assms(3,4)] by simp
  next
    case (W_fail i)
    then show ?thesis using assms(6) by (simp add: orderly_def)
  next
    case (W_exit i)
    then show ?thesis using st
      by (intro k) (auto simp: writer_exit_def set_writer_def nth_list_update split: if_splits writer.splits)
  next
    case R_install
    then show ?thesis using st agree_install [OF assms(1-4)] by simp
  next
    case X_perform
    then show ?thesis using st agree_perform [OF assms(1,3,4)] by simp
  next
    case R_begin
    then show ?thesis using st by (intro k) (auto simp: rebuild_begin_def split: rebuild.splits option.splits)
  next
    case (R_page K)
    then show ?thesis using st by (intro k) (auto simp: rebuild_page_def split: rebuild.splits)
  next
    case R_check
    then show ?thesis using st by (intro k) (auto simp: rebuild_check_def split: rebuild.splits if_splits)
  next
    case R_wait
    then show ?thesis using st by (intro k) (auto simp: rebuild_wait_def split: rebuild.splits)
  next
    case R_acquire
    then show ?thesis using st by (intro k) (auto simp: rebuild_acquire_def split: rebuild.splits)
  next
    case R_done
    then show ?thesis using st by (intro k) (auto simp: rebuild_done_def split: rebuild.splits)
  next
    case R_fail
    then show ?thesis using st by (intro k) (auto simp: rebuild_fail_def split: rebuild.splits)
  next
    case (X_begin op)
    then show ?thesis using st by (intro k) (auto simp: exclusive_begin_def split: if_splits)
  next
    case X_enter
    then show ?thesis using st by (intro k) (auto simp: exclusive_enter_def split: exclusive.splits)
  next
    case X_fail
    then show ?thesis using st by (intro k) (auto simp: exclusive_fail_def split: exclusive.splits)
  next
    case X_count
    then show ?thesis using st by (intro k) (auto simp: exclusive_count_def split: if_splits)
  next
    case X_leave
    then show ?thesis using st by (intro k) (auto simp: exclusive_leave_def split: if_splits)
  qed
qed

definition coll_next :: "coll \<Rightarrow> act \<Rightarrow> coll" where
  "coll_next s a = (case coll_step a s of None \<Rightarrow> s | Some s' \<Rightarrow> s')"

definition coll_enabled :: "coll \<Rightarrow> act \<Rightarrow> bool" where
  "coll_enabled s a \<longleftrightarrow> coll_step a s \<noteq> None \<and> orderly s a"

definition coll_ok :: "coll \<Rightarrow> bool" where
  "coll_ok s \<longleftrightarrow> barrier_ok s \<and> snapshot_ok s \<and> writers_ok s \<and> index_agrees s"

interpretation orderly_coll: guarded_machine coll_next coll_enabled coll_ok
proof unfold_locales
  fix s a
  assume "coll_ok s" "coll_enabled s a"
  then show "coll_ok (coll_next s a)"
    using barrier_ok_step snapshot_ok_step agree_step by (fastforce simp: coll_ok_def coll_enabled_def coll_next_def)
qed

lemma coll_ok_start: "coll_ok (new_coll n)"
  using agree_idle [of "new_coll n"] reach_ok [OF coll_reach.start, of n]
  by (simp add: coll_ok_def new_coll_def list_all_length)

text \<open>C12. Store and index agree at rest: in every run from a new collection in which the index raises no error and
  no writer stores a label that another writer has stored and not yet applied - with any number of concurrent
  writers, expiry runs, rebuilds and exclusive operations - the index holds exactly the candidates of the store
  whenever no writer is inside the barrier.\<close>

theorem index_agrees_at_rest:
  assumes "run_enabled coll_next coll_enabled (new_coll n) acts" "s = foldl coll_next (new_coll n) acts"
    "list_all (\<lambda>w. w = W_idle) (co_writers s)" "co_index s = Some ix"
  shows "ix_map ix = entries (vs_cands (co_tables s))"
proof -
  have "index_agrees s" using orderly_coll.inv_run [OF coll_ok_start assms(1)] assms(2) by (simp add: coll_ok_def)
  then show ?thesis using assms(3,4) by (auto simp: index_agrees_def list_all_length fun_eq_iff)
qed

definition first_write :: candidate where
  "first_write = (small_candidate 1 0)\<lparr>cd_fields := ''a''\<rparr>"

definition second_write :: candidate where
  "second_write = (small_candidate 1 0)\<lparr>cd_fields := ''b''\<rparr>"

definition make_index :: "act list" where
  "make_index = [X_begin (Create_index 5), X_enter, X_perform, X_count, X_leave]"

definition with_index :: "nat \<Rightarrow> coll" where
  "with_index n = \<lparr>co_barrier = \<lparr>br_active = 0, br_publisher = False, br_waiting = 0, br_generation = 1\<rparr>,
     co_tables = no_tables, co_index = Some \<lparr>ix_id = 0, ix_map = Map.empty\<rparr>, co_next = 1,
     co_writers = replicate n W_idle, co_rebuild = R_idle, co_exclusive = X_idle\<rparr>"

lemmas coll_eval = coll_next_def coll_enabled_def coll_step_def orderly_def writer_enter_def writer_store_def
  writer_apply_def writer_exit_def set_writer_def barrier_steps store_write_call_def need_record_delta_def Let_def

lemma make_index_run:
  "foldl coll_next (new_coll n) make_index = with_index n" "run_enabled coll_next coll_enabled (new_coll n) make_index"
proof -
  have "entries (vs_cands no_tables) = Map.empty" "snd (tables_trim ts no_tables) = no_tables" for ts
    by (simp_all add: no_tables_def tables_trim_def)
  then show "foldl coll_next (new_coll n) make_index = with_index n" "run_enabled coll_next coll_enabled (new_coll n) make_index"
    by (simp_all add: make_index_def with_index_def new_coll_def new_barrier_def coll_next_def coll_enabled_def coll_step_def
        orderly_def exclusive_begin_def exclusive_enter_def exclusive_perform_def exclusive_count_def exclusive_leave_def
        perform_op_def barrier_steps Let_def)
qed

lemma reach_fold: "coll_reach s \<Longrightarrow> coll_reach (foldl coll_next s acts)"
  by (induction acts arbitrary: s) (auto simp: coll_next_def split: option.split intro: coll_reach.step)

definition racing :: "act list" where
  "racing = [W_enter 0 (Upsert_data [first_write] 0), W_enter 1 (Upsert_data [second_write] 0), W_store 0 10 0, W_store 1 20 0,
     W_apply 1, W_apply 0, W_exit 0, W_exit 1]"

lemma racing_result:
  "foldl coll_next (with_index 2) racing = (with_index 2)\<lparr>
     co_barrier := \<lparr>br_active = 0, br_publisher = False, br_waiting = 0, br_generation = 3\<rparr>,
     co_tables := \<lparr>vs_cands = [1 \<mapsto> second_write],
       vs_deltas = [10 \<mapsto> upsert_delta first_write [], 20 \<mapsto> upsert_delta second_write ''a''], vs_ttl = Map.empty\<rparr>,
     co_index := Some \<lparr>ix_id = 0, ix_map = [1 \<mapsto> cand_entry first_write]\<rparr>\<rparr>"
proof -
  have c: "cd_label first_write = 1" "cd_label second_write = 1" "cd_fields first_write = ''a''"
    "delta_entry (upsert_delta c f) = cand_entry c" "dl_label (upsert_delta c f) = cd_label c" for c f
    by (simp_all add: first_write_def second_write_def small_candidate_def upsert_delta_def delta_entry_def cand_entry_def)
  show ?thesis
    by (simp add: racing_def with_index_def coll_eval tables_add_def with_ttl_def log_deltas_def put_delta_def put_cand_def
        no_tables_def old_fields_of_def apply_write_def index_upsert_def c numeral_2_eq_2)
qed


text \<open>One writer at a time, and a rebuild that publishes.\<close>

definition quiet :: "act list" where
  "quiet = make_index @ [W_enter 0 (Upsert_data [first_write] 0), W_store 0 10 0, W_apply 0, W_exit 0]"

definition quiet_end :: "nat \<Rightarrow> coll" where
  "quiet_end n = (with_index n)\<lparr>
     co_barrier := \<lparr>br_active = 0, br_publisher = False, br_waiting = 0, br_generation = 2\<rparr>,
     co_tables := \<lparr>vs_cands = [1 \<mapsto> first_write], vs_deltas = [10 \<mapsto> upsert_delta first_write []], vs_ttl = Map.empty\<rparr>,
     co_index := Some \<lparr>ix_id = 0, ix_map = [1 \<mapsto> cand_entry first_write]\<rparr>\<rparr>"

lemma quiet_result:
  "foldl coll_next (new_coll 1) quiet = quiet_end 1" "run_enabled coll_next coll_enabled (new_coll 1) quiet"
proof -
  have c: "cd_label first_write = 1" "delta_entry (upsert_delta c f) = cand_entry c" "dl_label (upsert_delta c f) = cd_label c" for c f
    by (simp_all add: first_write_def small_candidate_def upsert_delta_def delta_entry_def cand_entry_def)
  have "foldl coll_next (with_index 1) (drop 5 quiet) = quiet_end 1"
    "run_enabled coll_next coll_enabled (with_index 1) (drop 5 quiet)"
    by (simp_all add: quiet_def quiet_end_def make_index_def with_index_def coll_eval tables_add_def with_ttl_def log_deltas_def
        put_delta_def put_cand_def no_tables_def old_fields_of_def apply_write_def index_upsert_def c)
  moreover have "quiet = make_index @ drop 5 quiet" by (simp add: quiet_def make_index_def)
  moreover have "run_enabled coll_next coll_enabled s (xs @ ys) \<longleftrightarrow>
      run_enabled coll_next coll_enabled s xs \<and> run_enabled coll_next coll_enabled (foldl coll_next s xs) ys" for s xs ys
    by (induction xs arbitrary: s) simp_all
  ultimately show "foldl coll_next (new_coll 1) quiet = quiet_end 1" "run_enabled coll_next coll_enabled (new_coll 1) quiet"
    using make_index_run [of 1] by (metis foldl_append)+
qed

theorem index_agrees_at_rest_witness:
  "run_enabled coll_next coll_enabled (new_coll 1) quiet \<and>
   ix_map \<lparr>ix_id = 0, ix_map = [1 \<mapsto> cand_entry first_write]\<rparr> = entries (vs_cands (co_tables (quiet_end 1)))"
  using quiet_result index_agrees_at_rest [OF quiet_result(2) refl, of "\<lparr>ix_id = 0, ix_map = [1 \<mapsto> cand_entry first_write]\<rparr>"]
  by (simp add: quiet_end_def with_index_def)

definition rebuilding :: "act list" where
  "rebuilding = [R_begin, R_page {1}, R_page UNIV, R_check, R_wait, R_acquire]"

theorem rebuild_publishes_current_witness:
  "\<exists>s s'. coll_reach s \<and> coll_step R_install s = Some s' \<and>
     map_option ix_map (co_index s') = Some (entries [1 \<mapsto> first_write]) \<and> list_all (\<lambda>w. w = W_idle) (co_writers s')"
proof -
  let ?s = "foldl coll_next (quiet_end 1) rebuilding"
  have reach: "coll_reach ?s" unfolding quiet_result(1) [symmetric] by (intro reach_fold coll_reach.start)
  obtain s' where s': "coll_step R_install ?s = Some s'" "co_rebuild s' = R_published True" "vs_cands (co_tables s') = [1 \<mapsto> first_write]"
    by (simp add: rebuilding_def quiet_end_def with_index_def coll_next_def coll_step_def rebuild_begin_def rebuild_page_def
        rebuild_check_def rebuild_wait_def rebuild_acquire_def rebuild_install_def barrier_steps Let_def)
  show ?thesis using rebuild_publishes_current [OF reach s'(1,2)] s' reach by metis
qed

end
