(* ===== verification/Vector_Recovery.thy ===== *)
theory Vector_Recovery
  imports Index_Barrier
begin

text \<open>
  A persistent collection across crashes (\<^verbatim>\<open>PersistCollection\<close> of \<^verbatim>\<open>collection/local_collection.py\<close> and
  \<^verbatim>\<open>PersistentIndex\<close> of \<^verbatim>\<open>index/local_index.py\<close>): the index in memory, its dumped versions in the directory of the
  index with their \<^verbatim>\<open>.write_done\<close> markers, and the recovery that loads the newest complete version and replays the
  delta log from that version on.

  The native index stamps itself with the clock when a batch changed it; a dump has that stamp, and the version of
  a dump is its stamp. The steps of \<^verbatim>\<open>persist\<close> are separate, so that a crash can fall between any two of them.
\<close>

section \<open>Replaying deltas\<close>

definition apply_delta :: "index_map \<Rightarrow> delta \<Rightarrow> index_map" where
  "apply_delta M d = (if dl_type d = UPSERT then M(dl_label d \<mapsto> delta_entry d) else M(dl_label d := None))"

definition replay :: "delta list \<Rightarrow> index_map \<Rightarrow> index_map" where
  "replay ds M = foldl apply_delta M ds"

text \<open>Whether the engine reports a change for a record: an upsert always, a delete when it knows the label.\<close>

fun replay_changes :: "delta list \<Rightarrow> index_map \<Rightarrow> bool" where
  "replay_changes [] M = False"
| "replay_changes (d # ds) M =
     (dl_type d = UPSERT \<or> M (dl_label d) \<noteq> None \<or> replay_changes ds (apply_delta M d))"

subsection \<open>\<^verbatim>\<open>_replay_recovery_records\<close> and the batches of \<^verbatim>\<open>_recover\<close>\<close>

text \<open>A batch with a corrupt record is refused as a whole; its records are then replayed one by one. \<open>bad\<close> tells which
  records the conversion or the engine refuses.\<close>

definition batch_call :: "(delta \<Rightarrow> bool) \<Rightarrow> delta list \<Rightarrow> index_map \<Rightarrow> index_map option" where
  "batch_call bad records M = (if list_ex bad records then None else Some (replay records M))"

definition replay_recovery_records :: "(delta \<Rightarrow> bool) \<Rightarrow> delta list \<Rightarrow> index_map \<Rightarrow> index_map \<times> nat" where
  "replay_recovery_records bad records M =
     (if records = [] then (M, 0)
      else case batch_call bad records M of
        Some M' \<Rightarrow> (M', length records)
      | None \<Rightarrow> foldl (\<lambda>(M, processed) record. case batch_call bad [record] M of
                    Some M' \<Rightarrow> (M', processed + 1) | None \<Rightarrow> (M, processed)) (M, 0) records)"

definition flush_batch :: "(delta \<Rightarrow> bool) \<Rightarrow> delta list \<Rightarrow> index_map \<times> nat \<Rightarrow> index_map \<times> nat" where
  "flush_batch bad records r =
     (if records = [] then r
      else case replay_recovery_records bad records (fst r) of (M', n) \<Rightarrow> (M', snd r + n))"

fun recover_loop :: "(delta \<Rightarrow> bool) \<Rightarrow> delta list \<Rightarrow> delta list \<Rightarrow> delta list \<Rightarrow> index_map \<times> nat \<Rightarrow> index_map \<times> nat" where
  "recover_loop bad [] upserts deletes r = flush_batch bad deletes (flush_batch bad upserts r)"
| "recover_loop bad (d # ds) upserts deletes r =
     (if dl_type d = UPSERT then recover_loop bad ds (upserts @ [d]) [] (flush_batch bad deletes r)
      else if dl_type d = DELETE then recover_loop bad ds [] (deletes @ [d]) (flush_batch bad upserts r)
      else recover_loop bad ds upserts deletes r)"

definition recover_deltas :: "(delta \<Rightarrow> bool) \<Rightarrow> delta list \<Rightarrow> index_map \<Rightarrow> index_map \<times> nat" where
  "recover_deltas bad delta_list M = recover_loop bad delta_list [] [] (M, 0)"

lemma replay_simps [simp]: "replay [] M = M" "replay (d # ds) M = replay ds (apply_delta M d)"
  "replay (xs @ ys) M = replay ys (replay xs M)"
  by (simp_all add: replay_def)

lemma one_by_one:
  "foldl (\<lambda>(M, processed) record. case batch_call bad [record] M of
      Some M' \<Rightarrow> (M', processed + 1) | None \<Rightarrow> (M, processed)) (M, n) records
   = (replay (filter (\<lambda>d. \<not> bad d) records) M, n + length (filter (\<lambda>d. \<not> bad d) records))"
  by (induction records arbitrary: M n) (auto simp: batch_call_def)

lemma replay_records_good:
  "replay_recovery_records bad records M
   = (replay (filter (\<lambda>d. \<not> bad d) records) M, length (filter (\<lambda>d. \<not> bad d) records))"
proof (cases "list_ex bad records")
  case True
  then have "batch_call bad records M = None" by (simp add: batch_call_def)
  then show ?thesis by (simp add: replay_recovery_records_def one_by_one)
next
  case False
  then have "filter (\<lambda>d. \<not> bad d) records = records" by (auto simp: list_ex_iff intro: filter_True)
  then show ?thesis using False by (auto simp: replay_recovery_records_def batch_call_def)
qed

lemma flush_batch_good:
  "flush_batch bad records (M, n)
   = (replay (filter (\<lambda>d. \<not> bad d) records) M, n + length (filter (\<lambda>d. \<not> bad d) records))"
  by (simp add: flush_batch_def replay_records_good)

lemma recover_loop_good:
  assumes "\<And>d. d \<in> set ds \<Longrightarrow> dl_type d = UPSERT \<or> dl_type d = DELETE" "upserts = [] \<or> deletes = []"
  shows "recover_loop bad ds upserts deletes (M, n) =
    (replay (filter (\<lambda>d. \<not> bad d) (upserts @ deletes @ ds)) M, n + length (filter (\<lambda>d. \<not> bad d) (upserts @ deletes @ ds)))"
  using assms
proof (induction ds arbitrary: upserts deletes M n)
  case Nil
  then show ?case by (auto simp: flush_batch_good)
next
  case (Cons d ds)
  have ne: "UPSERT \<noteq> DELETE" by (simp add: UPSERT_def DELETE_def)
  have ds: "\<And>d. d \<in> set ds \<Longrightarrow> dl_type d = UPSERT \<or> dl_type d = DELETE" using Cons.prems(1) by simp
  consider "dl_type d = UPSERT" | "dl_type d = DELETE" using Cons.prems(1) by auto
  then show ?case
  proof cases
    case 1
    then show ?thesis using Cons.prems(2) Cons.IH [OF ds, of "upserts @ [d]" "[]"] by (auto simp: flush_batch_good)
  next
    case 2
    then show ?thesis using Cons.prems(2) ne Cons.IH [OF ds, of "[]" "deletes @ [d]"] by (auto simp: flush_batch_good)
  qed
qed

text \<open>C16. The batches in which the recovery replays the delta log do not change what it means: the result is that of
  replaying the records one after the other in the order of the log, a corrupt record costs itself and no other
  record of its batch, and the number of records reported as processed is the number of records that were not
  corrupt.\<close>

theorem recover_batches_are_sequential:
  assumes "list_all (\<lambda>d. dl_type d = UPSERT \<or> dl_type d = DELETE) ds"
  shows "recover_deltas bad ds M = (replay (filter (\<lambda>d. \<not> bad d) ds) M, length (filter (\<lambda>d. \<not> bad d) ds))"
  using assms recover_loop_good [of ds "[]" "[]" bad M 0] by (simp add: recover_deltas_def list_all_iff)

theorem recover_batches_are_sequential_witness:
  "recover_deltas (\<lambda>d. dl_label d = 2) [delete_delta 1 [], delete_delta 2 [], upsert_delta (small_candidate 3 0) []] Map.empty
   = ([3 \<mapsto> cand_entry (small_candidate 3 0)], 2)"
proof -
  have "list_all (\<lambda>d. dl_type d = UPSERT \<or> dl_type d = DELETE)
      [delete_delta 1 [], delete_delta 2 [], upsert_delta (small_candidate 3 0) []]"
    by (simp add: delete_delta_def upsert_delta_def new_delta_def)
  from recover_batches_are_sequential [OF this, of "\<lambda>d. dl_label d = 2" Map.empty] show ?thesis
    by (simp add: delete_delta_def upsert_delta_def new_delta_def apply_delta_def delta_entry_def cand_entry_def
        UPSERT_def DELETE_def)
qed

section \<open>Versions on disk\<close>

record disk_version =
  dv_map :: index_map
  dv_ts :: nat
  dv_done :: bool

type_synonym disk = "(nat \<times> disk_version) list"

definition get_newest_version :: "disk \<Rightarrow> nat" where
  "get_newest_version disk = foldr max (map fst (filter (\<lambda>p. dv_done (snd p)) disk)) 0"

definition put_dir :: "nat \<Rightarrow> disk_version \<Rightarrow> disk \<Rightarrow> disk" where
  "put_dir n v disk = (n, v) # filter (\<lambda>p. fst p \<noteq> n) disk"

text \<open>\<^verbatim>\<open>shutil.move\<close> of a directory: into the destination when that is a directory already.\<close>

definition move_dir :: "nat \<Rightarrow> nat \<Rightarrow> disk \<Rightarrow> disk" where
  "move_dir src dst disk =
     (if src = dst then disk
      else if dst \<in> fst ` set disk then filter (\<lambda>p. fst p \<noteq> src) disk
      else map (\<lambda>(n, v). (if n = src then dst else n, v)) disk)"

definition mark_done :: "nat \<Rightarrow> disk \<Rightarrow> disk" where
  "mark_done n disk = map (\<lambda>(m, v). (m, if m = n then v\<lparr>dv_done := True\<rparr> else v)) disk"

definition clean_index :: "nat list \<Rightarrow> disk \<Rightarrow> disk" where
  "clean_index not_clean disk = filter (\<lambda>p. fst p \<in> set not_clean) disk"

section \<open>The collection\<close>

text \<open>Where a \<^verbatim>\<open>persist\<close> stands: dumped into the directory of that name, moved to its version, marked.\<close>

datatype persist_stage = P_none | P_dumped nat nat | P_moved nat | P_marked nat

record pmem =
  pm_map :: index_map
  pm_ts :: nat
  pm_version :: nat
  pm_pending :: "(mutation \<times> delta list) list"
  pm_stage :: persist_stage

record pcoll =
  pc_tables :: vstore
  pc_disk :: disk
  pc_mem :: "pmem option"
  pc_clock :: nat

text \<open>\<^verbatim>\<open>_create_new_index\<close> at time \<open>t\<close>: the engine is stamped when there was something to add.\<close>

definition create_new_index :: "nat \<Rightarrow> nat \<Rightarrow> (nat \<rightharpoonup> candidate) \<Rightarrow> disk \<Rightarrow> (disk \<times> nat) res" where
  "create_new_index version_int t cands disk =
     (let dump_version = (if cands = Map.empty then version_int else t);
          disk1 = put_dir version_int \<lparr>dv_map = entries cands, dv_ts = dump_version, dv_done = False\<rparr> disk
      in if dump_version > 0
         then Ok (mark_done dump_version (move_dir version_int dump_version disk1), dump_version)
         else Raise OtherException)"

definition load_index :: "nat \<Rightarrow> disk \<Rightarrow> pmem res" where
  "load_index version disk =
     (case map_of disk version of
        None \<Rightarrow> Raise OtherException
      | Some v \<Rightarrow> Ok \<lparr>pm_map = dv_map v, pm_ts = dv_ts v, pm_version = version, pm_pending = [], pm_stage = P_none\<rparr>)"

text \<open>\<^verbatim>\<open>PersistentIndex.__init__\<close> with the candidates of the store.\<close>

definition open_index :: "nat \<Rightarrow> nat \<Rightarrow> (nat \<rightharpoonup> candidate) \<Rightarrow> disk \<Rightarrow> (disk \<times> pmem) res" where
  "open_index initial_timestamp t cands disk =
     (let newest_version = get_newest_version disk in
      res_bind (if newest_version = 0 then create_new_index initial_timestamp t cands disk else Ok (disk, newest_version))
        (\<lambda>(disk', now_version). res_bind (load_index now_version disk') (\<lambda>mem. Ok (disk', mem))))"

text \<open>\<^verbatim>\<open>_recover\<close> for one index at time \<open>t\<close>.\<close>

definition recover :: "nat \<Rightarrow> pcoll \<Rightarrow> pcoll res" where
  "recover t s =
     res_bind (open_index 0 t (vs_cands (pc_tables s)) (pc_disk s)) (\<lambda>(disk, mem).
       let delta_list = deltas_from (get_newest_version disk) (pc_tables s)
       in Ok (s\<lparr>pc_disk := disk, pc_mem := Some (mem\<lparr>
            pm_map := fst (recover_deltas (\<lambda>_. False) delta_list (pm_map mem)),
            pm_ts := (if replay_changes delta_list (pm_map mem) then t else pm_ts mem)\<rparr>), pc_clock := t\<rparr>))"

definition persist_store :: "mutation \<Rightarrow> nat \<Rightarrow> nat \<Rightarrow> pcoll \<Rightarrow> pcoll option" where
  "persist_store m t now s =
     (case pc_mem s of
        None \<Rightarrow> None
      | Some mem \<Rightarrow>
          (let ((ds, vs'), _) = store_write_call m t now True (pc_tables s)
           in Some (s\<lparr>pc_tables := vs', pc_mem := Some (mem\<lparr>pm_pending := pm_pending mem @ [(m, ds)]\<rparr>),
                      pc_clock := t + length ds\<rparr>)))"

definition persist_apply :: "nat \<Rightarrow> nat \<Rightarrow> pcoll \<Rightarrow> pcoll option" where
  "persist_apply k t s =
     (case pc_mem s of
        None \<Rightarrow> None
      | Some mem \<Rightarrow>
          if k < length (pm_pending mem)
          then (case pm_pending mem ! k of (m, ds) \<Rightarrow>
            Some (s\<lparr>pc_mem := Some (mem\<lparr>pm_map := apply_write m ds (pm_map mem),
                pm_ts := (if replay_changes ds (pm_map mem) then t else pm_ts mem),
                pm_pending := take k (pm_pending mem) @ drop (Suc k) (pm_pending mem)\<rparr>), pc_clock := t\<rparr>))
          else None)"

text \<open>The steps of \<^verbatim>\<open>persist\<close>.\<close>

definition persist_dump :: "nat \<Rightarrow> pcoll \<Rightarrow> pcoll option" where
  "persist_dump now s =
     (case pc_mem s of
        None \<Rightarrow> None
      | Some mem \<Rightarrow>
          if pm_stage mem = P_none \<and> pm_ts mem > get_newest_version (pc_disk s)
          then Some (s\<lparr>pc_disk := put_dir now \<lparr>dv_map = pm_map mem, dv_ts = pm_ts mem, dv_done = False\<rparr> (pc_disk s),
                 pc_mem := Some (mem\<lparr>pm_stage := P_dumped now (pm_ts mem)\<rparr>), pc_clock := now\<rparr>)
          else None)"

definition persist_move :: "pcoll \<Rightarrow> pcoll option" where
  "persist_move s =
     (case pc_mem s of
        None \<Rightarrow> None
      | Some mem \<Rightarrow>
          (case pm_stage mem of
             P_dumped now v \<Rightarrow> Some (s\<lparr>pc_disk := move_dir now v (pc_disk s), pc_mem := Some (mem\<lparr>pm_stage := P_moved v\<rparr>)\<rparr>)
           | _ \<Rightarrow> None))"

definition persist_mark :: "pcoll \<Rightarrow> pcoll option" where
  "persist_mark s =
     (case pc_mem s of
        None \<Rightarrow> None
      | Some mem \<Rightarrow>
          (case pm_stage mem of
             P_moved v \<Rightarrow> Some (s\<lparr>pc_disk := mark_done v (pc_disk s), pc_mem := Some (mem\<lparr>pm_stage := P_marked v\<rparr>)\<rparr>)
           | _ \<Rightarrow> None))"

definition persist_clean :: "pcoll \<Rightarrow> pcoll option" where
  "persist_clean s =
     (case pc_mem s of
        None \<Rightarrow> None
      | Some mem \<Rightarrow>
          (case pm_stage mem of
             P_marked v \<Rightarrow> Some (s\<lparr>pc_disk := clean_index [pm_version mem, v] (pc_disk s), pc_mem := Some (mem\<lparr>pm_stage := P_none\<rparr>)\<rparr>)
           | _ \<Rightarrow> None))"

text \<open>\<^verbatim>\<open>_delete_expire_delta_record\<close> with its one index.\<close>

definition delete_expire_delta_record :: "pcoll \<Rightarrow> pcoll option" where
  "delete_expire_delta_record s =
     (if pc_mem s = None then None
      else Some (s\<lparr>pc_tables := snd (tables_trim (get_newest_version (pc_disk s)) (pc_tables s))\<rparr>))"

definition crash :: "pcoll \<Rightarrow> pcoll" where
  "crash s = s\<lparr>pc_mem := None\<rparr>"

datatype pact = P_store mutation nat nat | P_apply nat nat | P_dump nat | P_move | P_mark | P_clean | P_trim | P_crash | P_open nat

definition pcoll_step :: "pact \<Rightarrow> pcoll \<Rightarrow> pcoll option" where
  "pcoll_step a s =
     (case a of
        P_store m t now \<Rightarrow> persist_store m t now s
      | P_apply k t \<Rightarrow> persist_apply k t s
      | P_dump now \<Rightarrow> persist_dump now s
      | P_move \<Rightarrow> persist_move s
      | P_mark \<Rightarrow> persist_mark s
      | P_clean \<Rightarrow> persist_clean s
      | P_trim \<Rightarrow> delete_expire_delta_record s
      | P_crash \<Rightarrow> Some (crash s)
      | P_open t \<Rightarrow> if pc_mem s = None then (case recover t s of Inl _ \<Rightarrow> None | Inr s' \<Rightarrow> Some s') else None)"

text \<open>A collection with an index that was created on an empty store at time \<open>t\<close>.\<close>

definition created :: "nat \<Rightarrow> pcoll res" where
  "created t = res_bind (open_index t t Map.empty []) (\<lambda>(disk, mem).
     Ok \<lparr>pc_tables = no_tables, pc_disk = disk, pc_mem = Some mem, pc_clock = t\<rparr>)"

section \<open>The delta log\<close>

lemma replay_local:
  "l \<notin> labels ds \<Longrightarrow> replay ds M l = M l"
  "M l = M' l \<Longrightarrow> replay ds M l = replay ds M' l"
  "l \<in> labels ds \<Longrightarrow> replay ds M l = replay ds M' l"
proof -
  show "l \<notin> labels ds \<Longrightarrow> replay ds M l = M l"
    by (induction ds arbitrary: M) (auto simp: apply_delta_def labels_def)
  show *: "M l = M' l \<Longrightarrow> replay ds M l = replay ds M' l" for M M' ds
  proof (induction ds arbitrary: M M')
    case (Cons d ds)
    have "apply_delta M d l = apply_delta M' d l" using Cons.prems by (simp add: apply_delta_def)
    with Cons.IH [of "apply_delta M d" "apply_delta M' d"] show ?case by simp
  qed simp
  show "l \<in> labels ds \<Longrightarrow> replay ds M l = replay ds M' l"
  proof (induction ds arbitrary: M M')
    case (Cons d ds)
    show ?case
    proof (cases "l \<in> labels ds")
      case True
      from Cons.IH [OF this, of "apply_delta M d" "apply_delta M' d"] show ?thesis by simp
    next
      case False
      then have "apply_delta M d l = apply_delta M' d l" using Cons.prems by (auto simp: labels_def apply_delta_def)
      then show ?thesis using * [of "apply_delta M d" "apply_delta M' d"] by simp
    qed
  qed (simp add: labels_def)
qed

text \<open>Replaying a part of the log a second time changes nothing, also after more was logged.\<close>

lemma replay_again:
  assumes "replay os E = E"
  shows "replay (os @ ds) (replay ds E) = replay ds E"
proof
  fix l
  show "replay (os @ ds) (replay ds E) l = replay ds E l"
  proof (cases "l \<in> labels ds")
    case True
    then show ?thesis using replay_local(3) by simp
  next
    case False
    then have "replay ds E l = E l" by (rule replay_local(1))
    then have "replay os (replay ds E) l = replay os E l" by (rule replay_local(2))
    then show ?thesis using assms False replay_local(1) by (metis replay_simps(3))
  qed
qed

lemma no_changes: "\<not> replay_changes ds M \<Longrightarrow> replay ds M = M"
proof (induction ds arbitrary: M)
  case (Cons d ds)
  then have "apply_delta M d = M" by (auto simp: apply_delta_def fun_eq_iff)
  then show ?case using Cons by simp
qed simp

lemma sorted_insert_last:
  assumes "finite S" "\<And>x. x \<in> S \<Longrightarrow> x < (t :: nat)"
  shows "sorted_list_of_set (insert t S) = sorted_list_of_set S @ [t]"
proof (rule unique_sorted)
  show "sorted_wrt (<) (sorted_list_of_set (insert t S))" by (rule strict_sorted_list_of_set)
  show "sorted_wrt (<) (sorted_list_of_set S @ [t])" using assms by (simp add: sorted_wrt_append)
  show "set (sorted_list_of_set (insert t S)) = set (sorted_list_of_set S @ [t])"
    using assms(1) by (simp only: set_sorted_list_of_set finite_insert set_append) simp
qed

lemma deltas_from_put:
  assumes "finite (dom (vs_deltas vs))" "\<And>k. k \<in> dom (vs_deltas vs) \<Longrightarrow> k < t" "ts \<le> t"
  shows "deltas_from ts (put_delta vs (t, d)) = deltas_from ts vs @ [d]"
proof -
  have "{k \<in> dom (vs_deltas (put_delta vs (t, d))). ts \<le> k} = insert t {k \<in> dom (vs_deltas vs). ts \<le> k}"
    using assms(3) by (auto simp: put_delta_def)
  moreover have "map (\<lambda>k. the (vs_deltas (put_delta vs (t, d)) k)) (sorted_list_of_set {k \<in> dom (vs_deltas vs). ts \<le> k})
      = map (\<lambda>k. the (vs_deltas vs k)) (sorted_list_of_set {k \<in> dom (vs_deltas vs). ts \<le> k})"
    using assms(1,2) by (auto simp: put_delta_def)
  ultimately show ?thesis
    using sorted_insert_last [of "{k \<in> dom (vs_deltas vs). ts \<le> k}" t] assms(1,2)
    by (simp add: deltas_from_def) (simp add: put_delta_def)
qed

lemma log_deltas_all:
  assumes "finite (dom (vs_deltas vs))" "\<And>k. k \<in> dom (vs_deltas vs) \<Longrightarrow> k < t" "ts \<le> t"
  shows "deltas_from ts (log_deltas t ds vs) = deltas_from ts vs @ ds \<and>
    finite (dom (vs_deltas (log_deltas t ds vs))) \<and> (\<forall>k\<in>dom (vs_deltas (log_deltas t ds vs)). k < t + length ds)"
  using assms
proof (induction ds arbitrary: t vs)
  case (Cons d ds)
  let ?vs = "put_delta vs (t, d)"
  have log: "log_deltas t (d # ds) vs = log_deltas (Suc t) ds ?vs" by (simp add: log_deltas_def)
  have dom: "dom (vs_deltas ?vs) = insert t (dom (vs_deltas vs))" by (simp add: put_delta_def)
  have "finite (dom (vs_deltas ?vs))" "\<And>k. k \<in> dom (vs_deltas ?vs) \<Longrightarrow> k < Suc t" "ts \<le> Suc t"
    unfolding dom using Cons.prems by (auto simp: less_Suc_eq)
  from Cons.IH [OF this] deltas_from_put [of vs t ts d] Cons.prems show ?case unfolding log by simp
qed (simp add: log_deltas_def)

lemmas deltas_from_log = log_deltas_all [THEN conjunct1] log_deltas_all [THEN conjunct2, THEN conjunct1]
  log_deltas_all [THEN conjunct2, THEN conjunct2, rule_format]

lemma deltas_from_late: "(\<And>k. k \<in> dom (vs_deltas vs) \<Longrightarrow> k < t) \<Longrightarrow> deltas_from t vs = []"
proof -
  assume "\<And>k. k \<in> dom (vs_deltas vs) \<Longrightarrow> k < t"
  then have "{k \<in> dom (vs_deltas vs). t \<le> k} = {}" by fastforce
  then show ?thesis by (simp only: deltas_from_def sorted_list_of_set_empty list.map)
qed

lemma deltas_from_cong: "vs_deltas vs' = vs_deltas vs \<Longrightarrow> deltas_from ts vs' = deltas_from ts vs"
  by (simp add: deltas_from_def)

lemma vs_deltas_ops:
  "vs_deltas (foldl put_cand vs cs) = vs_deltas vs" "vs_deltas (foldl del_cand vs ls) = vs_deltas vs"
  "vs_deltas (foldl put_ttl vs es) = vs_deltas vs" "vs_deltas (foldl del_ttl vs ts) = vs_deltas vs"
proof -
  show "vs_deltas (foldl put_cand vs cs) = vs_deltas vs" by (induction cs arbitrary: vs) (simp_all add: put_cand_def)
  show "vs_deltas (foldl del_cand vs ls) = vs_deltas vs" by (induction ls arbitrary: vs) (simp_all add: del_cand_def)
  show "vs_deltas (foldl put_ttl vs es) = vs_deltas vs" by (induction es arbitrary: vs) (simp_all add: put_ttl_def)
  show "vs_deltas (foldl del_ttl vs ts) = vs_deltas vs" by (induction ts arbitrary: vs) (simp_all add: del_ttl_def)
qed

lemma log_deltas_cong:
  assumes "vs_deltas vs = vs_deltas vs2"
  shows "vs_deltas (log_deltas t ds vs) = vs_deltas (log_deltas t ds vs2)"
proof -
  have "vs_deltas (foldl put_delta vs es) = foldl (\<lambda>m e. m(fst e \<mapsto> snd e)) (vs_deltas vs) es" for es vs
    by (induction es arbitrary: vs) (simp_all add: put_delta_def)
  then show ?thesis using assms by (simp add: log_deltas_def)
qed

definition typed :: "delta list \<Rightarrow> bool" where
  "typed ds \<longleftrightarrow> list_all (\<lambda>d. dl_type d = UPSERT \<or> dl_type d = DELETE) ds"

lemma store_logs:
  assumes "store_write_call m t now True vs = ((ds, vs'), c)"
  shows "vs_deltas vs' = vs_deltas (log_deltas t ds vs)" "typed ds" "apply_write m ds M = replay ds M"
proof -
  show "vs_deltas vs' = vs_deltas (log_deltas t ds vs)"
  proof (cases m)
    case Expire_data
    then have "vs' = foldl del_ttl (log_deltas t ds (foldl del_cand vs (map cd_label (expired_of now vs)))) (due now vs)"
      using assms by (auto simp: store_write_call_def tables_expire_def Let_def)
    then show ?thesis unfolding vs_deltas_ops using log_deltas_cong [OF vs_deltas_ops(2)] by (simp add: vs_deltas_ops)
  qed (use assms in \<open>auto simp: store_write_call_def tables_add_def tables_delete_def Let_def vs_deltas_ops\<close>)
  have up: "foldl apply_delta M ds = index_upsert M ds" if "list_all (\<lambda>d. dl_type d = UPSERT) ds" for M ds
    using that by (induction ds arbitrary: M) (auto simp: index_upsert_def apply_delta_def)
  have del: "foldl apply_delta M ds = index_delete M ds" if "list_all (\<lambda>d. dl_type d = DELETE) ds" for M ds
    using that by (induction ds arbitrary: M) (auto simp: index_delete_def apply_delta_def UPSERT_def DELETE_def)
  have "case m of Upsert_data _ _ \<Rightarrow> list_all (\<lambda>d. dl_type d = UPSERT) ds | _ \<Rightarrow> list_all (\<lambda>d. dl_type d = DELETE) ds"
    using assms by (auto simp: store_write_call_def tables_add_def tables_delete_def tables_expire_def Let_def list_all_iff
        upsert_delta_def delete_delta_def new_delta_def split: mutation.splits)
  then show "typed ds" "apply_write m ds M = replay ds M"
    using up del by (auto simp: typed_def list_all_iff apply_write_def replay_def split: mutation.splits)
qed

section \<open>Versions\<close>

lemma newest_ge: "(n, v) \<in> set disk \<Longrightarrow> dv_done v \<Longrightarrow> n \<le> get_newest_version disk"
  by (induction disk) (auto simp: get_newest_version_def)

lemma newest_in: "get_newest_version disk > 0 \<Longrightarrow> \<exists>v. (get_newest_version disk, v) \<in> set disk \<and> dv_done v"
  by (induction disk) (auto simp: get_newest_version_def max_def split: if_splits)

lemma newest_eqI:
  assumes "(V, v) \<in> set disk" "dv_done v" "\<And>n v. (n, v) \<in> set disk \<Longrightarrow> dv_done v \<Longrightarrow> n \<le> V"
  shows "get_newest_version disk = V"
proof (cases "get_newest_version disk > 0")
  case True
  then show ?thesis using newest_in newest_ge [OF assms(1,2)] assms(3) by (metis le_antisym)
next
  case False
  then show ?thesis using newest_ge [OF assms(1,2)] by simp
qed

text \<open>The directories with their names apart, the newest complete version and its content.\<close>

definition names :: "disk \<Rightarrow> nat set" where
  "names disk = fst ` set disk"

definition disk_ok :: "nat \<Rightarrow> disk \<Rightarrow> bool" where
  "disk_ok clock disk \<longleftrightarrow> distinct (map fst disk) \<and> (\<forall>n\<in>names disk. n \<le> clock) \<and> get_newest_version disk > 0 \<and>
     (\<forall>v. map_of disk (get_newest_version disk) = Some v \<longrightarrow> dv_ts v = get_newest_version disk)"

lemma newest_found:
  assumes "disk_ok clock disk"
  obtains v where "map_of disk (get_newest_version disk) = Some v" "dv_done v" "dv_ts v = get_newest_version disk"
proof -
  obtain v where v: "(get_newest_version disk, v) \<in> set disk" "dv_done v"
    using assms newest_in [of disk] unfolding disk_ok_def by blast
  then have "map_of disk (get_newest_version disk) = Some v" using assms by (simp add: disk_ok_def)
  then show thesis using that v(2) assms by (simp add: disk_ok_def)
qed

lemma newest_put:
  assumes "disk_ok clock disk" "n \<notin> names disk" "\<not> dv_done v"
  shows "get_newest_version (put_dir n v disk) = get_newest_version disk"
    "map_of (put_dir n v disk) = (map_of disk)(n \<mapsto> v)" "names (put_dir n v disk) = insert n (names disk)"
    "distinct (map fst (put_dir n v disk))"
proof -
  have f: "filter (\<lambda>p. fst p \<noteq> n) disk = disk" using assms(2) by (force simp: names_def intro: filter_True)
  show "get_newest_version (put_dir n v disk) = get_newest_version disk"
    using assms(3) by (simp add: put_dir_def f get_newest_version_def)
  show "map_of (put_dir n v disk) = (map_of disk)(n \<mapsto> v)" "names (put_dir n v disk) = insert n (names disk)"
    "distinct (map fst (put_dir n v disk))"
    using assms(1,2) by (simp_all add: put_dir_def f names_def disk_ok_def)
qed

lemma rename_dirs:
  assumes "dst \<notin> fst ` set disk" "src \<noteq> dst" "distinct (map fst disk)"
  shows "map_of (map (\<lambda>(n, v). (if n = src then dst else n, v)) disk) k
      = (if k = dst then map_of disk src else if k = src then None else map_of disk k)"
    "fst ` set (map (\<lambda>(n, v). (if n = src then dst else n, v)) disk)
      = (if src \<in> fst ` set disk then insert dst (fst ` set disk - {src}) else fst ` set disk)"
    "distinct (map fst (map (\<lambda>(n, v). (if n = src then dst else n, v)) disk))"
proof -
  let ?r = "\<lambda>n. if n = src then dst else n"
  have m: "map fst (map (\<lambda>(n, v). (?r n, v)) disk) = map ?r (map fst disk)" by (simp add: case_prod_unfold comp_def)
  show "map_of (map (\<lambda>(n, v). (?r n, v)) disk) k
      = (if k = dst then map_of disk src else if k = src then None else map_of disk k)"
    using assms(1)
  proof (induction disk)
    case (Cons p disk)
    obtain n v where p: "p = (n, v)" by (cases p)
    then have "n \<noteq> dst" "dst \<notin> fst ` set disk" using Cons.prems by auto
    with Cons.IH show ?case using assms(2) by (auto simp: p)
  qed simp
  have "fst ` set (map (\<lambda>(n, v). (?r n, v)) disk) = ?r ` set (map fst disk)" by (metis list.set_map m)
  then show "fst ` set (map (\<lambda>(n, v). (?r n, v)) disk)
      = (if src \<in> fst ` set disk then insert dst (fst ` set disk - {src}) else fst ` set disk)"
    by (auto split: if_splits)
  have "inj_on ?r (set (map fst disk))" using assms(1) by (auto simp: inj_on_def)
  then show "distinct (map fst (map (\<lambda>(n, v). (?r n, v)) disk))"
    unfolding m using assms(3) by (simp only: distinct_map)
qed

lemma rename_newest:
  assumes "\<And>v. (src, v) \<in> set disk \<Longrightarrow> \<not> dv_done v"
  shows "get_newest_version (map (\<lambda>(n, v). (if n = src then dst else n, v)) disk) = get_newest_version disk"
proof -
  have "map fst (filter (\<lambda>p. dv_done (snd p)) (map (\<lambda>(n, v). (if n = src then dst else n, v)) disk))
      = map fst (filter (\<lambda>p. dv_done (snd p)) disk)"
    using assms by (induction disk) auto
  then show ?thesis by (simp add: get_newest_version_def)
qed

lemma move_rename:
  assumes "distinct (map fst disk)" "map_of disk src = Some w" "\<not> dv_done w" "dst \<notin> names disk" "src \<noteq> dst"
  shows "get_newest_version (move_dir src dst disk) = get_newest_version disk"
    "map_of (move_dir src dst disk) = ((map_of disk)(src := None))(dst \<mapsto> w)"
    "names (move_dir src dst disk) = insert dst (names disk - {src})" "distinct (map fst (move_dir src dst disk))"
proof -
  have mv: "move_dir src dst disk = map (\<lambda>(n, v). (if n = src then dst else n, v)) disk"
    using assms(4,5) by (simp add: move_dir_def names_def)
  have dst: "dst \<notin> fst ` set disk" using assms(4) by (simp add: names_def)
  have src: "src \<in> fst ` set disk" using assms(2) by (metis domI dom_map_of_conv_image_fst)
  have "\<not> dv_done v" if "(src, v) \<in> set disk" for v using that assms(1-3) by simp
  then show "get_newest_version (move_dir src dst disk) = get_newest_version disk" unfolding mv by (rule rename_newest)
  show "map_of (move_dir src dst disk) = ((map_of disk)(src := None))(dst \<mapsto> w)"
    unfolding mv using rename_dirs(1) [OF dst assms(5,1)] assms(2) by (auto simp: fun_eq_iff)
  show "names (move_dir src dst disk) = insert dst (names disk - {src})"
    unfolding mv names_def using rename_dirs(2) [OF dst assms(5,1)] src by simp
  show "distinct (map fst (move_dir src dst disk))" unfolding mv by (rule rename_dirs(3) [OF dst assms(5,1)])
qed

lemma mark_newest:
  assumes "distinct (map fst disk)" "map_of disk n = Some w" "get_newest_version disk < n"
  shows "get_newest_version (mark_done n disk) = n" "map_of (mark_done n disk) n = Some (w\<lparr>dv_done := True\<rparr>)"
    "map fst (mark_done n disk) = map fst disk"
proof -
  show m: "map_of (mark_done n disk) n = Some (w\<lparr>dv_done := True\<rparr>)"
    using assms(2) by (induction disk) (auto simp: mark_done_def)
  show "map fst (mark_done n disk) = map fst disk" by (simp add: mark_done_def comp_def case_prod_unfold)
  show "get_newest_version (mark_done n disk) = n"
  proof (rule newest_eqI)
    show "(n, w\<lparr>dv_done := True\<rparr>) \<in> set (mark_done n disk)" using m by (rule map_of_SomeD)
    show "k \<le> n" if "(k, v) \<in> set (mark_done n disk)" "dv_done v" for k v
      using that newest_ge [of k v disk] assms(3) by (force simp: mark_done_def split: if_splits)
  qed simp
qed

lemma clean_newest:
  assumes "disk_ok clock disk" "get_newest_version disk \<in> set keep"
  shows "get_newest_version (clean_index keep disk) = get_newest_version disk"
    "map_of (clean_index keep disk) (get_newest_version disk) = map_of disk (get_newest_version disk)"
    "distinct (map fst (clean_index keep disk))" "names (clean_index keep disk) \<subseteq> names disk"
proof -
  obtain v where v: "map_of disk (get_newest_version disk) = Some v" "dv_done v" using newest_found [OF assms(1)] by blast
  then have in_clean: "(get_newest_version disk, v) \<in> set (clean_index keep disk)"
    using assms(2) by (auto simp: clean_index_def dest: map_of_SomeD)
  show "get_newest_version (clean_index keep disk) = get_newest_version disk"
    by (rule newest_eqI [OF in_clean v(2)]) (auto simp: clean_index_def newest_ge)
  show d: "distinct (map fst (clean_index keep disk))"
    using assms(1) by (simp add: clean_index_def disk_ok_def distinct_map_filter)
  show "map_of (clean_index keep disk) (get_newest_version disk) = map_of disk (get_newest_version disk)"
    using map_of_is_SomeI [OF d in_clean] v(1) by simp
  show "names (clean_index keep disk) \<subseteq> names disk" by (auto simp: clean_index_def names_def)
qed

section \<open>The invariant\<close>

definition current :: "pcoll \<Rightarrow> index_map" where
  "current s = entries (vs_cands (pc_tables s))"

text \<open>A copy of the index with stamp \<open>v\<close> from which the delta log leads to the store.\<close>

definition leads :: "pcoll \<Rightarrow> nat \<Rightarrow> index_map \<Rightarrow> bool" where
  "leads s v M \<longleftrightarrow> replay (deltas_from v (pc_tables s)) M = current s"

definition stage_version :: "persist_stage \<Rightarrow> nat" where
  "stage_version stage = (case stage of P_none \<Rightarrow> 0 | P_dumped now v \<Rightarrow> v | P_moved v \<Rightarrow> v | P_marked v \<Rightarrow> v)"

lemma stage_version_simps [simp]:
  "stage_version P_none = 0" "stage_version (P_dumped now v) = v" "stage_version (P_moved v) = v" "stage_version (P_marked v) = v"
  by (simp_all add: stage_version_def)

definition stage_ok :: "pcoll \<Rightarrow> persist_stage \<Rightarrow> bool" where
  "stage_ok s stage \<longleftrightarrow>
     (case stage of
        P_none \<Rightarrow> True
      | P_dumped now v \<Rightarrow> get_newest_version (pc_disk s) < v \<and> v \<le> pc_clock s \<and> now \<noteq> v \<and> v \<notin> names (pc_disk s) \<and>
          (\<exists>w. map_of (pc_disk s) now = Some w \<and> \<not> dv_done w \<and> dv_ts w = v \<and> leads s v (dv_map w))
      | P_moved v \<Rightarrow> get_newest_version (pc_disk s) < v \<and> v \<le> pc_clock s \<and>
          (\<exists>w. map_of (pc_disk s) v = Some w \<and> dv_ts w = v \<and> leads s v (dv_map w))
      | P_marked v \<Rightarrow> get_newest_version (pc_disk s) = v)"

definition pending_ok :: "pcoll \<Rightarrow> pmem \<Rightarrow> bool" where
  "pending_ok s mem \<longleftrightarrow> pm_pending mem = [] \<and> pm_map mem = current s \<or>
     (\<exists>m ds. pm_pending mem = [(m, ds)] \<and> replay ds (pm_map mem) = current s \<and> (\<forall>M. apply_write m ds M = replay ds M))"

definition mem_ok :: "pcoll \<Rightarrow> pmem \<Rightarrow> bool" where
  "mem_ok s mem \<longleftrightarrow> get_newest_version (pc_disk s) \<le> pm_ts mem \<and> pm_ts mem \<le> pc_clock s \<and>
     leads s (pm_ts mem) (current s) \<and> pending_ok s mem \<and>
     stage_version (pm_stage mem) \<le> pm_ts mem \<and>
     (pm_ts mem \<in> names (pc_disk s) \<longrightarrow> pm_ts mem = get_newest_version (pc_disk s) \<or> pm_stage mem = P_moved (pm_ts mem)) \<and>
     stage_ok s (pm_stage mem)"

definition log_ok :: "pcoll \<Rightarrow> bool" where
  "log_ok s \<longleftrightarrow> finite (dom (vs_deltas (pc_tables s))) \<and> (\<forall>k\<in>dom (vs_deltas (pc_tables s)). k < pc_clock s) \<and>
     (\<forall>k d. vs_deltas (pc_tables s) k = Some d \<longrightarrow> typed [d])"

definition pcoll_ok :: "pcoll \<Rightarrow> bool" where
  "pcoll_ok s \<longleftrightarrow> log_ok s \<and> disk_ok (pc_clock s) (pc_disk s) \<and>
     (\<forall>v. map_of (pc_disk s) (get_newest_version (pc_disk s)) = Some v \<longrightarrow> leads s (get_newest_version (pc_disk s)) (dv_map v)) \<and>
     (case pc_mem s of None \<Rightarrow> True | Some mem \<Rightarrow> mem_ok s mem)"

text \<open>One mutation at a time, no dump while a mutation is stored and not yet applied, and a clock that advances.\<close>

definition settled :: "pcoll \<Rightarrow> bool" where
  "settled s \<longleftrightarrow> (case pc_mem s of None \<Rightarrow> True | Some mem \<Rightarrow> pm_pending mem = [])"

definition p_orderly :: "pcoll \<Rightarrow> pact \<Rightarrow> bool" where
  "p_orderly s a \<longleftrightarrow>
     (case a of
        P_store m t now \<Rightarrow> pc_clock s \<le> t \<and> settled s
      | P_apply k t \<Rightarrow> pc_clock s < t
      | P_dump now \<Rightarrow> pc_clock s < now \<and> settled s
      | P_open t \<Rightarrow> pc_clock s < t
      | _ \<Rightarrow> True)"

lemma leads_cong: "pc_tables s' = pc_tables s \<Longrightarrow> leads s' v M \<longleftrightarrow> leads s v M" "pc_tables s' = pc_tables s \<Longrightarrow> current s' = current s"
  by (simp_all add: leads_def current_def)

lemma log_keys: "log_ok s \<Longrightarrow> k \<in> dom (vs_deltas (pc_tables s)) \<Longrightarrow> k < pc_clock s"
  by (simp add: log_ok_def)

lemma leads_late: "log_ok s \<Longrightarrow> pc_clock s \<le> v \<Longrightarrow> leads s v M \<longleftrightarrow> M = current s"
  using deltas_from_late [of "pc_tables s" v] log_keys by (fastforce simp: leads_def)

text \<open>A mutation extends the log by its deltas, and every copy that led to the store still does.\<close>

lemma store_extends:
  assumes "log_ok s" "store_write_call m t now True (pc_tables s) = ((ds, vs'), c)" "pc_clock s \<le> t" "pc_tables s' = vs'"
  shows "current s' = replay ds (current s)" "v \<le> t \<Longrightarrow> deltas_from v vs' = deltas_from v (pc_tables s) @ ds"
    "v \<le> t \<Longrightarrow> leads s v M \<Longrightarrow> leads s' v M" "v \<le> t \<Longrightarrow> leads s v (current s) \<Longrightarrow> leads s' v (current s')"
    "finite (dom (vs_deltas vs'))" "k \<in> dom (vs_deltas vs') \<Longrightarrow> k < t + length ds"
proof -
  have fin: "finite (dom (vs_deltas (pc_tables s)))" "\<And>k. k \<in> dom (vs_deltas (pc_tables s)) \<Longrightarrow> k < t"
    using assms(1,3) log_keys by (auto simp: log_ok_def intro: less_le_trans)
  note logs = store_logs [OF assms(2)]
  show cur: "current s' = replay ds (current s)"
    using store_apply [OF assms(2)] logs(3) assms(4) by (simp add: current_def)
  show ext: "v \<le> t \<Longrightarrow> deltas_from v vs' = deltas_from v (pc_tables s) @ ds" for v
    using deltas_from_log(1) [OF fin] deltas_from_cong [OF logs(1)] by simp
  show "v \<le> t \<Longrightarrow> leads s v M \<Longrightarrow> leads s' v M" using ext cur by (simp add: leads_def assms(4))
  show "v \<le> t \<Longrightarrow> leads s v (current s) \<Longrightarrow> leads s' v (current s')"
    using ext cur replay_again [of "deltas_from v (pc_tables s)" "current s" ds] by (simp add: leads_def assms(4))
  show "finite (dom (vs_deltas vs'))" "k \<in> dom (vs_deltas vs') \<Longrightarrow> k < t + length ds"
    using deltas_from_log(2,3) [OF fin, of t] logs(1) by simp_all
qed

lemma log_keep:
  assumes "log_ok s" "pc_tables s' = pc_tables s" "pc_clock s \<le> pc_clock s'"
  shows "log_ok s'"
  unfolding log_ok_def assms(2) using assms(1,3) by (auto simp: log_ok_def dest: order.strict_trans2)

lemma typed_from:
  assumes "log_ok s"
  shows "typed (deltas_from v (pc_tables s))"
proof -
  have "finite {t \<in> dom (vs_deltas (pc_tables s)). v \<le> t}" using assms by (simp add: log_ok_def)
  then show ?thesis using assms by (auto simp: typed_def list_all_iff deltas_from_def log_ok_def) blast
qed

lemma log_deltas_typed:
  assumes "typed ds" "\<And>k d. vs_deltas vs k = Some d \<Longrightarrow> typed [d]" "vs_deltas (log_deltas t ds vs) k = Some d"
  shows "typed [d]"
proof -
  have "vs_deltas (foldl put_delta vs es) k = Some d \<Longrightarrow> vs_deltas vs k = Some d \<or> d \<in> snd ` set es" for es
  proof (induction es arbitrary: vs)
    case (Cons e es)
    then have "vs_deltas (put_delta vs e) k = Some d \<or> d \<in> snd ` set es" by simp
    then show ?case by (auto simp: put_delta_def split: if_splits)
  qed simp
  moreover have "snd ` set (enumerate t ds) = set ds" by (metis list.set_map map_snd_enumerate)
  ultimately have "vs_deltas vs k = Some d \<or> d \<in> set ds" using assms(3) by (metis log_deltas_def)
  then show ?thesis using assms(1,2) by (auto simp: typed_def list_all_iff)
qed

lemma stage_keep:
  assumes "stage_ok s stage" "pc_disk s' = pc_disk s" "pc_clock s \<le> pc_clock s'" "\<And>v M. v \<le> pc_clock s \<Longrightarrow> leads s v M \<Longrightarrow> leads s' v M"
  shows "stage_ok s' stage"
  using assms by (cases stage) (auto simp: stage_ok_def)

lemma disk_keep: "disk_ok c disk \<Longrightarrow> c \<le> c' \<Longrightarrow> disk_ok c' disk"
  by (auto simp: disk_ok_def)

lemma newest_le: "disk_ok c disk \<Longrightarrow> get_newest_version disk \<le> c"
  using newest_in [of disk] by (force simp: disk_ok_def names_def)

lemma ok_store:
  assumes "pcoll_ok s" "persist_store m t now s = Some s'" "pc_clock s \<le> t" "settled s"
  shows "pcoll_ok s'"
proof -
  obtain mem ds vs' c where mem: "pc_mem s = Some mem"
    and call: "store_write_call m t now True (pc_tables s) = ((ds, vs'), c)"
    and s': "s' = s\<lparr>pc_tables := vs', pc_mem := Some (mem\<lparr>pm_pending := pm_pending mem @ [(m, ds)]\<rparr>), pc_clock := t + length ds\<rparr>"
    using assms(2) by (auto simp: persist_store_def Let_def split: option.splits prod.splits)
  have log: "log_ok s" and disk: "disk_ok (pc_clock s) (pc_disk s)" and m: "mem_ok s mem"
    and v: "\<And>v. map_of (pc_disk s) (get_newest_version (pc_disk s)) = Some v \<Longrightarrow> leads s (get_newest_version (pc_disk s)) (dv_map v)"
    using assms(1) mem by (auto simp: pcoll_ok_def)
  have tab: "pc_tables s' = vs'" "pc_disk s' = pc_disk s" by (simp_all add: s')
  note ext = store_extends [OF log call assms(3) tab(1)]
  have le: "x \<le> pc_clock s \<Longrightarrow> x \<le> t" for x using assms(3) by simp
  note newest = newest_le [OF disk]
  have p: "pm_pending mem = []" "pm_map mem = current s"
    using m assms(4) mem by (auto simp: mem_ok_def pending_ok_def settled_def)
  have "log_ok s'"
    using ext(5,6) log log_deltas_typed [OF store_logs(2) [OF call], of "pc_tables s" t] store_logs(1) [OF call]
    by (auto simp: log_ok_def tab) (auto simp: s')
  moreover have "disk_ok (pc_clock s') (pc_disk s')" using disk_keep [OF disk] assms(3) by (simp add: s')
  moreover have "mem_ok s' (mem\<lparr>pm_pending := pm_pending mem @ [(m, ds)]\<rparr>)"
    using m stage_keep [of s "pm_stage mem" s'] ext(3) [OF le] ext(4) [OF le] ext(1) p store_logs(3) [OF call] assms(3)
    by (auto simp: mem_ok_def pending_ok_def tab) (auto simp: s')
  ultimately show ?thesis using v ext(3) [OF le [OF newest]] by (auto simp: pcoll_ok_def tab) (auto simp: s')
qed

lemma ok_apply:
  assumes "pcoll_ok s" "persist_apply k t s = Some s'" "pc_clock s < t"
  shows "pcoll_ok s'"
proof -
  obtain mem m ds where mem: "pc_mem s = Some mem" "k < length (pm_pending mem)" "pm_pending mem ! k = (m, ds)"
    and s': "s' = s\<lparr>pc_mem := Some (mem\<lparr>pm_map := apply_write m ds (pm_map mem),
                pm_ts := (if replay_changes ds (pm_map mem) then t else pm_ts mem),
                pm_pending := take k (pm_pending mem) @ drop (Suc k) (pm_pending mem)\<rparr>), pc_clock := t\<rparr>"
    using assms(2) by (auto simp: persist_apply_def split: option.splits prod.splits if_splits)
  have log: "log_ok s" and disk: "disk_ok (pc_clock s) (pc_disk s)" and m: "mem_ok s mem"
    using assms(1) mem by (auto simp: pcoll_ok_def)
  have tab: "pc_tables s' = pc_tables s" "pc_disk s' = pc_disk s" "pc_clock s' = t" by (simp_all add: s')
  have p: "pm_pending mem = [(m, ds)]" "k = 0" "replay ds (pm_map mem) = current s" "apply_write m ds (pm_map mem) = replay ds (pm_map mem)"
    using m mem(2,3) by (auto simp: mem_ok_def pending_ok_def)
  have t: "t \<notin> names (pc_disk s)" using disk assms(3) by (auto simp: disk_ok_def)
  have late: "leads s t (current s)" using leads_late [OF log] assms(3) by simp
  have "mem_ok s' (mem\<lparr>pm_map := apply_write m ds (pm_map mem), pm_ts := (if replay_changes ds (pm_map mem) then t else pm_ts mem),
      pm_pending := take k (pm_pending mem) @ drop (Suc k) (pm_pending mem)\<rparr>)"
    using m stage_keep [of s "pm_stage mem" s'] p t late newest_le [OF disk] assms(3) leads_cong [OF tab(1)]
    by (auto simp: mem_ok_def pending_ok_def tab)
  moreover have "log_ok s'" using log_keep [OF log tab(1)] assms(3) by (simp add: tab)
  moreover have "disk_ok (pc_clock s') (pc_disk s')" using disk_keep [OF disk] assms(3) by (simp add: tab)
  ultimately show ?thesis using assms(1) leads_cong [OF tab(1)] by (auto simp: pcoll_ok_def tab) (auto simp: s')
qed

lemma ok_dump:
  assumes "pcoll_ok s" "persist_dump now s = Some s'" "pc_clock s < now" "settled s"
  shows "pcoll_ok s'"
proof -
  obtain mem where mem: "pc_mem s = Some mem" "pm_stage mem = P_none" "pm_ts mem > get_newest_version (pc_disk s)"
    and s': "s' = s\<lparr>pc_disk := put_dir now \<lparr>dv_map = pm_map mem, dv_ts = pm_ts mem, dv_done = False\<rparr> (pc_disk s),
                 pc_mem := Some (mem\<lparr>pm_stage := P_dumped now (pm_ts mem)\<rparr>), pc_clock := now\<rparr>"
    using assms(2) by (auto simp: persist_dump_def split: option.splits if_splits)
  have log: "log_ok s" and disk: "disk_ok (pc_clock s) (pc_disk s)" and m: "mem_ok s mem"
    using assms(1) mem by (auto simp: pcoll_ok_def)
  have tab: "pc_tables s' = pc_tables s" "pc_clock s' = now" by (simp_all add: s')
  have now: "now \<notin> names (pc_disk s)" using disk assms(3) by (auto simp: disk_ok_def)
  define w where "w = \<lparr>dv_map = pm_map mem, dv_ts = pm_ts mem, dv_done = False\<rparr>"
  have d': "pc_disk s' = put_dir now w (pc_disk s)" by (simp add: s' w_def)
  note put = newest_put [OF disk now, of w, folded d']
  have nd: "\<not> dv_done w" by (simp add: w_def)
  note put = put [OF nd]
  have "get_newest_version (pc_disk s) \<noteq> now" using newest_le [OF disk] assms(3) by simp
  then have newest: "map_of (pc_disk s') (get_newest_version (pc_disk s)) = map_of (pc_disk s) (get_newest_version (pc_disk s))"
    using put(2) by simp
  have p: "pm_map mem = current s" using m assms(4) mem by (auto simp: mem_ok_def pending_ok_def settled_def)
  have ts: "pm_ts mem \<le> pc_clock s" "pm_ts mem \<notin> names (pc_disk s)" "leads s (pm_ts mem) (current s)"
    using m mem(2,3) by (auto simp: mem_ok_def)
  have "stage_ok s' (P_dumped now (pm_ts mem))"
    using ts mem(3) put assms(3) p leads_cong [OF tab(1)] by (auto simp: stage_ok_def tab w_def)
  then have "mem_ok s' (mem\<lparr>pm_stage := P_dumped now (pm_ts mem)\<rparr>)"
    using m ts put assms(3) leads_cong [OF tab(1)] by (auto simp: mem_ok_def pending_ok_def tab)
  moreover have "log_ok s'" using log_keep [OF log tab(1)] assms(3) by (simp add: tab)
  moreover have "disk_ok (pc_clock s') (pc_disk s')"
    using disk put newest assms(3) by (auto simp: disk_ok_def tab)
  ultimately show ?thesis
    using assms(1) put(1) newest leads_cong [OF tab(1)] by (auto simp: pcoll_ok_def) (auto simp: s')
qed

lemma ok_move:
  assumes "pcoll_ok s" "persist_move s = Some s'"
  shows "pcoll_ok s'"
proof -
  obtain mem now v where mem: "pc_mem s = Some mem" "pm_stage mem = P_dumped now v"
    and s': "s' = s\<lparr>pc_disk := move_dir now v (pc_disk s), pc_mem := Some (mem\<lparr>pm_stage := P_moved v\<rparr>)\<rparr>"
    using assms(2) by (auto simp: persist_move_def split: option.splits persist_stage.splits)
  have log: "log_ok s" and disk: "disk_ok (pc_clock s) (pc_disk s)" and m: "mem_ok s mem"
    using assms(1) mem by (auto simp: pcoll_ok_def)
  have tab: "pc_tables s' = pc_tables s" "pc_clock s' = pc_clock s" "pc_disk s' = move_dir now v (pc_disk s)" by (simp_all add: s')
  obtain w where w: "get_newest_version (pc_disk s) < v" "v \<le> pc_clock s" "now \<noteq> v" "v \<notin> names (pc_disk s)"
      "map_of (pc_disk s) now = Some w" "\<not> dv_done w" "dv_ts w = v" "leads s v (dv_map w)"
    using m mem(2) by (auto simp: mem_ok_def stage_ok_def)
  have dist: "distinct (map fst (pc_disk s))" using disk by (simp add: disk_ok_def)
  note mv = move_rename [OF dist w(5,6,4,3), folded tab(3)]
  obtain n where n: "map_of (pc_disk s) (get_newest_version (pc_disk s)) = Some n" "dv_done n" using newest_found [OF disk] by blast
  then have "get_newest_version (pc_disk s) \<noteq> now" using w(5,6) by auto
  then have newest: "map_of (pc_disk s') (get_newest_version (pc_disk s)) = map_of (pc_disk s) (get_newest_version (pc_disk s))"
    using mv(2) w(1) by simp
  have "stage_ok s' (P_moved v)" using w mv leads_cong [OF tab(1)] by (auto simp: stage_ok_def tab(2))
  then have "mem_ok s' (mem\<lparr>pm_stage := P_moved v\<rparr>)"
    using m mem(2) mv leads_cong [OF tab(1)] by (auto simp: mem_ok_def pending_ok_def tab(2))
  moreover have "log_ok s'" using log_keep [OF log tab(1)] by (simp add: tab(2))
  moreover have "disk_ok (pc_clock s') (pc_disk s')"
    using disk mv newest w(2) by (auto simp: disk_ok_def tab(2))
  ultimately show ?thesis
    using assms(1) mv(1) newest leads_cong [OF tab(1)] by (auto simp: pcoll_ok_def) (auto simp: s')
qed

lemma ok_mark:
  assumes "pcoll_ok s" "persist_mark s = Some s'"
  shows "pcoll_ok s'"
proof -
  obtain mem v where mem: "pc_mem s = Some mem" "pm_stage mem = P_moved v"
    and s': "s' = s\<lparr>pc_disk := mark_done v (pc_disk s), pc_mem := Some (mem\<lparr>pm_stage := P_marked v\<rparr>)\<rparr>"
    using assms(2) by (auto simp: persist_mark_def split: option.splits persist_stage.splits)
  have log: "log_ok s" and disk: "disk_ok (pc_clock s) (pc_disk s)" and m: "mem_ok s mem"
    using assms(1) mem by (auto simp: pcoll_ok_def)
  have tab: "pc_tables s' = pc_tables s" "pc_clock s' = pc_clock s" "pc_disk s' = mark_done v (pc_disk s)" by (simp_all add: s')
  obtain w where w: "get_newest_version (pc_disk s) < v" "v \<le> pc_clock s" "map_of (pc_disk s) v = Some w" "dv_ts w = v" "leads s v (dv_map w)"
    using m mem(2) by (auto simp: mem_ok_def stage_ok_def)
  have dist: "distinct (map fst (pc_disk s))" using disk by (simp add: disk_ok_def)
  note mk = mark_newest [OF dist w(3,1), folded tab(3)]
  have names: "names (pc_disk s') = names (pc_disk s)" using arg_cong [OF mk(3), of set] by (simp add: names_def)
  have ts: "v \<le> pm_ts mem" using m mem(2) by (simp add: mem_ok_def)
  have "mem_ok s' (mem\<lparr>pm_stage := P_marked v\<rparr>)"
    using m mem(2) mk names ts leads_cong [OF tab(1)] by (auto simp: mem_ok_def pending_ok_def stage_ok_def tab(2))
  moreover have "log_ok s'" using log_keep [OF log tab(1)] by (simp add: tab(2))
  moreover have "disk_ok (pc_clock s') (pc_disk s')"
    using disk mk names w(1,4) by (auto simp: disk_ok_def tab(2))
  moreover have "leads s' v (dv_map (w\<lparr>dv_done := True\<rparr>))" using w(5) leads_cong [OF tab(1)] by simp
  moreover have "pc_mem s' = Some (mem\<lparr>pm_stage := P_marked v\<rparr>)" by (simp add: s')
  ultimately show ?thesis using mk(1,2) by (simp add: pcoll_ok_def)
qed

lemma ok_clean:
  assumes "pcoll_ok s" "persist_clean s = Some s'"
  shows "pcoll_ok s'"
proof -
  obtain mem v where mem: "pc_mem s = Some mem" "pm_stage mem = P_marked v"
    and s': "s' = s\<lparr>pc_disk := clean_index [pm_version mem, v] (pc_disk s), pc_mem := Some (mem\<lparr>pm_stage := P_none\<rparr>)\<rparr>"
    using assms(2) by (auto simp: persist_clean_def split: option.splits persist_stage.splits)
  have log: "log_ok s" and disk: "disk_ok (pc_clock s) (pc_disk s)" and m: "mem_ok s mem"
    using assms(1) mem by (auto simp: pcoll_ok_def)
  have tab: "pc_tables s' = pc_tables s" "pc_clock s' = pc_clock s" "pc_disk s' = clean_index [pm_version mem, v] (pc_disk s)"
    by (simp_all add: s')
  have "get_newest_version (pc_disk s) = v" using m mem(2) by (simp add: mem_ok_def stage_ok_def)
  then have cl: "get_newest_version (pc_disk s') = get_newest_version (pc_disk s)"
      "map_of (pc_disk s') (get_newest_version (pc_disk s)) = map_of (pc_disk s) (get_newest_version (pc_disk s))"
      "distinct (map fst (pc_disk s'))" "names (pc_disk s') \<subseteq> names (pc_disk s)"
    using clean_newest [OF disk, of "[pm_version mem, v]", folded tab(3)] by auto
  have "mem_ok s' (mem\<lparr>pm_stage := P_none\<rparr>)"
    using m mem(2) cl leads_cong [OF tab(1)] by (auto simp: mem_ok_def pending_ok_def stage_ok_def tab(2))
  moreover have "log_ok s'" using log_keep [OF log tab(1)] by (simp add: tab(2))
  moreover have "disk_ok (pc_clock s') (pc_disk s')"
    using disk cl by (auto simp: disk_ok_def tab(2))
  moreover have "pc_mem s' = Some (mem\<lparr>pm_stage := P_none\<rparr>)" by (simp add: s')
  ultimately show ?thesis using assms(1) cl(1,2) leads_cong [OF tab(1)] by (simp add: pcoll_ok_def)
qed

lemma deltas_from_trim: "V \<le> x \<Longrightarrow> deltas_from x (snd (tables_trim V vs)) = deltas_from x vs"
proof -
  assume V: "V \<le> x"
  then have dom: "{t \<in> dom (vs_deltas vs |` {t. V \<le> t}). x \<le> t} = {t \<in> dom (vs_deltas vs). x \<le> t}" by auto
  have "t \<in> {t \<in> dom (vs_deltas vs). x \<le> t} \<Longrightarrow> (vs_deltas vs |` {t. V \<le> t}) t = vs_deltas vs t" for t using V by simp
  then have "map (\<lambda>t. the ((vs_deltas vs |` {t. V \<le> t}) t)) (sorted_list_of_set {t \<in> dom (vs_deltas vs). x \<le> t})
      = map (\<lambda>t. the (vs_deltas vs t)) (sorted_list_of_set {t \<in> dom (vs_deltas vs). x \<le> t})"
    by (cases "finite {t \<in> dom (vs_deltas vs). x \<le> t}") auto
  moreover have "vs_deltas (snd (tables_trim V vs)) = vs_deltas vs |` {t. V \<le> t}" by (simp add: tables_trim_def)
  ultimately show ?thesis unfolding deltas_from_def by (simp only: dom)
qed

lemma ok_trim:
  assumes "pcoll_ok s" "delete_expire_delta_record s = Some s'"
  shows "pcoll_ok s'"
proof -
  let ?V = "get_newest_version (pc_disk s)"
  have s': "s' = s\<lparr>pc_tables := snd (tables_trim ?V (pc_tables s))\<rparr>"
    using assms(2) by (simp add: delete_expire_delta_record_def split: if_splits)
  have log: "log_ok s" and disk: "disk_ok (pc_clock s) (pc_disk s)" using assms(1) by (auto simp: pcoll_ok_def)
  have cur: "current s' = current s" by (simp add: s' current_def tables_trim_def)
  have lead: "leads s' x M \<longleftrightarrow> leads s x M" if "?V \<le> x" for x M
    using deltas_from_trim [OF that] cur by (simp add: leads_def s')
  have eq: "pc_disk s' = pc_disk s" "pc_clock s' = pc_clock s" "pc_mem s' = pc_mem s" by (simp_all add: s')
  have del: "vs_deltas (pc_tables s') = vs_deltas (pc_tables s) |` {t. ?V \<le> t}" by (simp add: s' tables_trim_def)
  then have "dom (vs_deltas (pc_tables s')) \<subseteq> dom (vs_deltas (pc_tables s))" by (auto simp: restrict_map_def split: if_splits)
  then have "log_ok s'"
    using log del eq(2) by (auto simp: log_ok_def restrict_map_def intro: finite_subset split: if_splits)
  moreover have "mem_ok s' mem" if "mem_ok s mem" for mem
  proof -
    have "stage_ok s' (pm_stage mem)" using that lead by (cases "pm_stage mem") (auto simp: mem_ok_def stage_ok_def eq)
    then show ?thesis using that lead cur by (auto simp: mem_ok_def pending_ok_def eq)
  qed
  ultimately show ?thesis using assms(1) lead by (auto simp: pcoll_ok_def eq split: option.splits)
qed

lemma recover_good:
  assumes "pcoll_ok s" "pc_clock s < t"
  obtains s' mem where "recover t s = Ok s'" "pc_mem s' = Some mem" "pm_map mem = current s" "pc_tables s' = pc_tables s" "pcoll_ok s'"
proof -
  let ?V = "get_newest_version (pc_disk s)" and ?ds = "deltas_from (get_newest_version (pc_disk s)) (pc_tables s)"
  have log: "log_ok s" and disk: "disk_ok (pc_clock s) (pc_disk s)" using assms(1) by (auto simp: pcoll_ok_def)
  obtain v where v: "map_of (pc_disk s) ?V = Some v" "dv_done v" "dv_ts v = ?V" using newest_found [OF disk] by blast
  then have lead: "replay ?ds (dv_map v) = current s" using assms(1) by (simp add: pcoll_ok_def leads_def)
  define mem where "mem = \<lparr>pm_map = current s, pm_ts = (if replay_changes ?ds (dv_map v) then t else ?V),
      pm_version = ?V, pm_pending = [], pm_stage = P_none\<rparr>"
  define s' where "s' = s\<lparr>pc_disk := pc_disk s, pc_mem := Some mem, pc_clock := t\<rparr>"
  have "fst (recover_deltas (\<lambda>_. False) ?ds (dv_map v)) = current s"
    using recover_loop_good [of ?ds "[]" "[]" "\<lambda>_. False" "dv_map v" 0] typed_from [OF log, of ?V] lead
    by (simp add: recover_deltas_def typed_def list_all_iff)
  then have rec: "recover t s = Ok s'"
    using disk v by (simp add: recover_def open_index_def load_index_def disk_ok_def s'_def mem_def Let_def)
  have tab: "pc_tables s' = pc_tables s" "pc_disk s' = pc_disk s" "pc_clock s' = t" by (simp_all add: s'_def)
  have V: "?V \<le> pc_clock s" by (rule newest_le [OF disk])
  have late: "leads s t (current s)" using leads_late [OF log] assms(2) by simp
  have same: "leads s ?V (current s)" if "\<not> replay_changes ?ds (dv_map v)"
    using lead no_changes [OF that] by (simp add: leads_def)
  have "t \<notin> names (pc_disk s)" using disk assms(2) by (auto simp: disk_ok_def)
  then have "mem_ok s' mem"
    using V late same assms(2) leads_cong [OF tab(1)] by (auto simp: mem_ok_def mem_def pending_ok_def stage_ok_def tab)
  moreover have "log_ok s'" using log_keep [OF log tab(1)] assms(2) by (simp add: tab)
  moreover have "disk_ok (pc_clock s') (pc_disk s')" using disk_keep [OF disk] assms(2) by (simp add: tab)
  moreover have mem: "pc_mem s' = Some mem" by (simp add: s'_def)
  ultimately have "pcoll_ok s'" using assms(1) leads_cong [OF tab(1)] by (simp add: pcoll_ok_def tab)
  then show thesis using that [OF rec mem] tab(1) by (simp add: mem_def)
qed

lemma ok_crash: "pcoll_ok s \<Longrightarrow> pcoll_ok (crash s)"
  by (auto simp: pcoll_ok_def crash_def log_ok_def leads_def current_def)

lemma ok_step: "pcoll_ok s \<Longrightarrow> pcoll_step a s = Some s' \<Longrightarrow> p_orderly s a \<Longrightarrow> pcoll_ok s'"
proof (cases a)
  case (P_open t)
  assume "pcoll_ok s" "pcoll_step a s = Some s'" "p_orderly s a"
  then show ?thesis using P_open recover_good [of s t]
    by (auto simp: pcoll_step_def p_orderly_def split: if_splits sum.splits)
qed (auto simp: pcoll_step_def p_orderly_def intro: ok_store ok_apply ok_dump ok_move ok_mark ok_clean ok_trim ok_crash)

lemma ok_created: "0 < t \<Longrightarrow> created t = Ok s \<Longrightarrow> pcoll_ok s"
proof -
  assume "0 < t" "created t = Ok s"
  then have s: "s = \<lparr>pc_tables = no_tables, pc_disk = [(t, \<lparr>dv_map = Map.empty, dv_ts = t, dv_done = True\<rparr>)],
      pc_mem = Some \<lparr>pm_map = Map.empty, pm_ts = t, pm_version = t, pm_pending = [], pm_stage = P_none\<rparr>, pc_clock = t\<rparr>"
    by (auto simp: created_def open_index_def create_new_index_def load_index_def get_newest_version_def put_dir_def
        move_dir_def mark_done_def entries_def res_bind_Ok_iff Let_def split: if_splits)
  have newest: "get_newest_version (pc_disk s) = t" by (simp add: s get_newest_version_def)
  have cur: "current s = Map.empty" "deltas_from v (pc_tables s) = []" for v
    by (simp_all add: s current_def no_tables_def deltas_from_def)
  show ?thesis
    using \<open>0 < t\<close> newest cur
    by (simp add: pcoll_ok_def log_ok_def disk_ok_def leads_def)
      (simp add: s names_def no_tables_def mem_ok_def pending_ok_def stage_ok_def leads_def)
qed

definition pcoll_next :: "pcoll \<Rightarrow> pact \<Rightarrow> pcoll" where
  "pcoll_next s a = (case pcoll_step a s of None \<Rightarrow> s | Some s' \<Rightarrow> s')"

definition pcoll_enabled :: "pcoll \<Rightarrow> pact \<Rightarrow> bool" where
  "pcoll_enabled s a \<longleftrightarrow> pcoll_step a s \<noteq> None \<and> p_orderly s a"

interpretation persistent: guarded_machine pcoll_next pcoll_enabled pcoll_ok
  by unfold_locales (use ok_step in \<open>fastforce simp: pcoll_next_def pcoll_enabled_def\<close>)

text \<open>C10. A crash loses nothing: take any run of a persistent collection - additions, deletions and expiry runs one
  after the other, periodic dumps, trims of the delta log, earlier crashes and recoveries - and crash it at any
  point, also between the store and the index or between two steps of a dump. The recovery succeeds, keeps the
  store, and the index it brings up holds exactly the candidates of the store. The run has one mutation at a time,
  no dump while a mutation is stored and not yet applied, and a clock that advances.\<close>

theorem recovery_restores_index:
  assumes "created t0 = Ok s0" "0 < t0" "run_enabled pcoll_next pcoll_enabled s0 acts"
    "s = foldl pcoll_next s0 acts" "pc_clock s < t"
  shows "\<exists>s' mem. recover t (crash s) = Ok s' \<and> pc_mem s' = Some mem \<and> pc_tables s' = pc_tables s \<and>
    pm_map mem = entries (vs_cands (pc_tables s))"
proof -
  have "pcoll_ok (crash s)"
    using persistent.inv_run [OF ok_created [OF assms(2,1)] assms(3)] ok_crash assms(4) by blast
  moreover have "pc_clock (crash s) < t" "current (crash s) = entries (vs_cands (pc_tables s))" "pc_tables (crash s) = pc_tables s"
    using assms(5) by (simp_all add: crash_def current_def)
  ultimately show ?thesis using recover_good [of "crash s" t] by metis
qed

text \<open>A collection with one record, whose dump was interrupted before its marker.\<close>

definition interrupted :: "pact list" where
  "interrupted = [P_store (Upsert_data [first_write] 0) 10 0, P_apply 0 20, P_dump 30, P_move]"

definition start_at :: "nat \<Rightarrow> pcoll" where
  "start_at t = \<lparr>pc_tables = no_tables, pc_disk = [(t, \<lparr>dv_map = Map.empty, dv_ts = t, dv_done = True\<rparr>)],
      pc_mem = Some \<lparr>pm_map = Map.empty, pm_ts = t, pm_version = t, pm_pending = [], pm_stage = P_none\<rparr>, pc_clock = t\<rparr>"

lemma created_start: "0 < t \<Longrightarrow> created t = Ok (start_at t)"
  by (simp add: created_def open_index_def create_new_index_def load_index_def get_newest_version_def put_dir_def
      move_dir_def mark_done_def start_at_def entries_def Let_def)

lemmas pcoll_eval = pcoll_next_def pcoll_enabled_def pcoll_step_def p_orderly_def settled_def persist_store_def
  persist_apply_def persist_dump_def persist_move_def persist_mark_def persist_clean_def store_write_call_def
  get_newest_version_def put_dir_def move_dir_def mark_done_def clean_index_def

lemma upsert_delta_facts:
  "dl_label (upsert_delta c f) = cd_label c" "dl_type (upsert_delta c f) = UPSERT" "delta_entry (upsert_delta c f) = cand_entry c"
  by (simp_all add: upsert_delta_def delta_entry_def cand_entry_def)

lemma example_writes: "cd_label first_write = 1" "cd_label second_write = 1" "cd_fields first_write = ''a''"
  by (simp_all add: first_write_def second_write_def small_candidate_def)

lemmas table_eval = tables_add_def with_ttl_def log_deltas_def put_delta_def put_cand_def no_tables_def old_fields_of_def
  apply_write_def index_upsert_def upsert_delta_facts example_writes Let_def

theorem recovery_restores_index_witness:
  "\<exists>s' mem. recover 50 (crash (foldl pcoll_next (start_at 5) interrupted)) = Ok s' \<and> pc_mem s' = Some mem \<and>
     pm_map mem = [1 \<mapsto> cand_entry first_write]"
proof -
  let ?s = "foldl pcoll_next (start_at 5) interrupted"
  have run: "run_enabled pcoll_next pcoll_enabled (start_at 5) interrupted"
    by (simp add: interrupted_def start_at_def pcoll_eval table_eval)
  have s: "pc_clock ?s = 30" "vs_cands (pc_tables ?s) = [1 \<mapsto> first_write]"
    by (simp_all add: interrupted_def start_at_def pcoll_eval table_eval)
  have e: "entries [1 \<mapsto> first_write] = [1 \<mapsto> cand_entry first_write]" by (auto simp: entries_def fun_eq_iff)
  show ?thesis
    using recovery_restores_index [OF created_start [of 5] _ run refl, of 50] s e by auto
qed

section \<open>Runs the guards exclude\<close>

text \<open>Two writers inside the shared barrier. The first has stored its record when the second stores, applies and is
  dumped; then the first is applied and returns.\<close>

definition third_write :: candidate where
  "third_write = small_candidate 2 0"

definition overtaken :: "pact list" where
  "overtaken = [P_store (Upsert_data [first_write] 0) 10 0, P_store (Upsert_data [third_write] 0) 12 0, P_apply 1 13,
     P_dump 14, P_move, P_mark, P_clean, P_apply 0 15]"

lemma overtaken_result:
  "foldl pcoll_next (start_at 5) overtaken =
   \<lparr>pc_tables = \<lparr>vs_cands = [1 \<mapsto> first_write, 2 \<mapsto> third_write],
      vs_deltas = [10 \<mapsto> upsert_delta first_write [], 12 \<mapsto> upsert_delta third_write []], vs_ttl = Map.empty\<rparr>,
    pc_disk = [(13, \<lparr>dv_map = [2 \<mapsto> cand_entry third_write], dv_ts = 13, dv_done = True\<rparr>),
      (5, \<lparr>dv_map = Map.empty, dv_ts = 5, dv_done = True\<rparr>)],
    pc_mem = Some \<lparr>pm_map = [2 \<mapsto> cand_entry third_write, 1 \<mapsto> cand_entry first_write], pm_ts = 15, pm_version = 5,
      pm_pending = [], pm_stage = P_none\<rparr>, pc_clock = 15\<rparr>"
proof -
  have c: "cd_label third_write = 2" by (simp add: third_write_def)
  show ?thesis by (simp add: overtaken_def start_at_def pcoll_eval table_eval c)
qed

text \<open>C18. With two writers inside the barrier and a dump between their calls of the index, an acknowledged record is
  lost from the index by a crash: its delta is older than the stamp of the dump, which was taken before the record
  reached the index, so the recovery does not replay it. Before the crash both records are in the store and in the
  index; after the recovery both are in the store and the first is missing from the index.\<close>

theorem overtaken_write_lost:
  "\<exists>s s' mem mem'. s = foldl pcoll_next (start_at 5) overtaken \<and>
     pc_mem s = Some mem \<and> pm_pending mem = [] \<and> pm_map mem 1 = Some (cand_entry first_write) \<and>
     recover 50 (crash s) = Ok s' \<and> pc_mem s' = Some mem' \<and>
     vs_cands (pc_tables s') 1 = Some first_write \<and> pm_map mem' 1 = None"
proof -
  let ?vs = "\<lparr>vs_cands = [1 \<mapsto> first_write, 2 \<mapsto> third_write],
      vs_deltas = [10 \<mapsto> upsert_delta first_write [], 12 \<mapsto> upsert_delta third_write []], vs_ttl = Map.empty\<rparr>"
  have "deltas_from 13 ?vs = []" by (rule deltas_from_late) (auto split: if_splits)
  then show ?thesis
    unfolding overtaken_result
    by (simp add: crash_def recover_def open_index_def load_index_def get_newest_version_def recover_deltas_def flush_batch_def Let_def)
qed

text \<open>A crash while the first index of an empty collection is being created leaves a directory without a complete
  version, and then the collection cannot be opened any more: the recovery builds the index with the initial
  timestamp 0, the dump of an empty index has that stamp as its version, and a version that is not positive is an
  error - at every later attempt too.\<close>

theorem empty_index_cannot_reopen:
  assumes "get_newest_version (pc_disk s) = 0" "vs_cands (pc_tables s) = Map.empty"
  shows "recover t s = Raise OtherException"
  using assms by (simp add: recover_def open_index_def create_new_index_def Let_def)

theorem empty_index_cannot_reopen_witness:
  "recover 50 ((start_at 5)\<lparr>pc_disk := [(5, \<lparr>dv_map = Map.empty, dv_ts = 5, dv_done = False\<rparr>)], pc_mem := None\<rparr>)
   = Raise OtherException"
  by (rule empty_index_cannot_reopen) (simp_all add: start_at_def get_newest_version_def no_tables_def)

end
