(* ===== verification/Spec2Isabelle.thy ===== *)
theory Spec2Isabelle
  imports Uri_Validation Acl_Manager Retention Failover Breaker Policies Leases Lock_Pool Wait_Tracker Context_Pipeline Envelope Ingest_Replay Task_Lifecycle Retriever Vector_Recovery
begin

text \<open>
  \<^bold>\<open>A verification of the core of OpenViking.\<close>

  OpenViking stores memories, resources and skills of agents under \<^verbatim>\<open>viking://\<close> URIs, controls who may see them, retrieves
  them for a request and fits them into token budgets. Requests come in with an identity; URIs are parsed, validated and
  resolved against the namespace of the caller; access control lists restrict what is seen and are stored with every record
  of a vector index; retrieved contexts are placed under a token budget and rendered; conversations are compacted; calls to
  language models and embedders are retried and fail over between credentials; workers and writers are coordinated by
  leases, locks and trackers. Sources are under \<^verbatim>\<open>src/\<close>; file names below are relative to \<^verbatim>\<open>src/openviking\<close> unless they start
  with \<^verbatim>\<open>openviking_cli\<close>.

  \<^bold>\<open>The theories.\<close>

  \<^item> \<open>Prelude\<close>: Python strings, exceptions and results, and the locale \<open>guarded_machine\<close> of components whose operations
    keep an invariant. \<open>PyValue\<close>: dynamically typed values and \<^verbatim>\<open>int(...)\<close>.
  \<^item> \<open>Uri\<close> (\<^verbatim>\<open>openviking_cli/utils/uri.py\<close>): \<open>VikingURI\<close>, \<open>uri_parent\<close>, joining, building and sanitising of URIs.
    Lemmas: sanitised segments are usable, every URI but the root has a shorter valid parent.
  \<^item> \<open>Identity\<close> (\<^verbatim>\<open>core/identifiers.py\<close>, \<^verbatim>\<open>core/peer_id.py\<close>, \<^verbatim>\<open>server/identity.py\<close>, \<^verbatim>\<open>openviking_cli/session/user_id.py\<close>):
    identifiers, users, roles, \<open>request_context\<close>.
  \<^item> \<open>Namespace\<close> (\<^verbatim>\<open>core/namespace.py\<close>) and \<open>Uri_Validation\<close> (\<^verbatim>\<open>core/uri_validation.py\<close>): canonical form, owner, access by
    owner, the actor-peer view, aliases of the caller's home and sessions, and the checks at the request boundary. Lemmas: isolation of the user
    scope, idempotence of resolution, public scopes only, ownership of content targets.
  \<^item> \<open>Expr\<close> (\<^verbatim>\<open>storage/expr.py\<close>), \<open>Acl\<close> and \<open>Acl_Manager\<close> (\<^verbatim>\<open>storage/acl.py\<close>, with \<^verbatim>\<open>scroll\<close> and \<^verbatim>\<open>get_strict\<close> of
    \<^verbatim>\<open>storage/viking_vector_index_backend.py\<close>): permission levels, entries, encoded grants, effective ACLs; reading and
    writing them over a vector engine. The engine is the parameter \<open>store_ops\<close>; what the code relies on is the hypothesis
    \<open>exact_pages\<close>, which \<open>list_engine\<close> satisfies. The locale \<open>permission_algebra\<close> states the laws of the union and is interpreted as \<open>acl\<close>.
  \<^item> \<open>Tokens\<close> (\<^verbatim>\<open>utils/token_estimation.py\<close>), \<open>Retention\<close> (\<^verbatim>\<open>session/retention.py\<close>, \<^verbatim>\<open>message\<close>): the token estimate, truncation, grouping of
    messages into turns and steps, the retention plan and the fitting of active messages.
  \<^item> \<open>Model_Retry\<close> (\<^verbatim>\<open>utils/model_retry.py\<close>), \<open>Failover\<close> (\<^verbatim>\<open>models/embedder/base.py\<close>, \<^verbatim>\<open>models/vlm/base.py\<close>),
    \<open>Breaker\<close> (\<^verbatim>\<open>utils/circuit_breaker.py\<close>): classification of errors, retry loops, switchers, the credential ring, streams,
    the circuit breaker. The switchers are interpreted as guarded machines (\<open>pb\<close>, \<open>oc\<close>).
  \<^item> \<open>Policies\<close> (\<^verbatim>\<open>session/auto_commit_policy.py\<close>, \<^verbatim>\<open>session/memory_policy.py\<close>): parsing, bounds and round trips.
  \<^item> \<open>Leases\<close> (\<^verbatim>\<open>resource/uri_mutation_coordinator.py\<close>), \<open>Lock_Pool\<close> (\<^verbatim>\<open>service/task_tracker_concurrency.py\<close>),
    \<open>Wait_Tracker\<close> (\<^verbatim>\<open>telemetry/request_wait_tracker.py\<close>): coordination. Each method body between two awaits, or under the
    lock, is one atomic step; runs are arbitrary interleavings. Lemmas: exclusion of overlapping mutations, serialisation by key
    and refinement of an abstract table of locks, bounded concurrency (\<open>lim\<close>), completion exactly when all work is settled,
    termination of waiting.
  \<^item> \<open>Retrieval_Targets\<close> (\<^verbatim>\<open>core/retrieval_targets.py\<close>): the directories a search starts from, within the view of an actor peer.
  \<^item> \<open>Context_Tiers\<close>, \<open>Context_Render\<close>, \<open>Context_Budget\<close>, \<open>Recall_Ledger\<close>, \<open>Context_Gather\<close>, \<open>Context_Pipeline\<close>
    (\<^verbatim>\<open>retrieve/context_assembler\<close>): detail tiers, the rendered envelope and how bodies are kept from forging it, the breadth-first
    budget plan, the ledger of served URIs, the gathering and ranking of candidates, and their composition. Lemmas: the rendered block
    respects the budget, bodies of resources stay off the default path, what was served is held back for the
    configured number of turns, quotas are ceilings, and the whole assembly shows nothing excluded.
  \<^item> \<open>Bytes\<close>, \<open>Root_Keys\<close>, \<open>Envelope\<close> (\<^verbatim>\<open>crypto/providers.py\<close>, \<^verbatim>\<open>crypto/encryptor.py\<close>): bytes with their
    hexadecimal, base64 and UTF-8 forms; the three root-key providers over storage that survives a restart; the
    envelope format and encryption with the cipher library as a parameter. The interface \<open>durable_root_key\<close> holds for
    the local and the Vault provider and gives that encrypted files stay readable; the Volcengine provider breaks it.
  \<^item> \<open>Log_Reader\<close>, \<open>Ingest_Sources\<close>, \<open>Ingest_Replay\<close> (\<^verbatim>\<open>ingest\<close>): the block reader of append-only logs, the
    adapters and their identifiers, the cursor store, and the replay of a log into a session with appends that fail
    before or after they took effect. Lemmas: reading in blocks is reading by lines, replay delivers a prefix of the
    log in any orderly history and catches up; two histories that are not orderly show how a batch is duplicated.
    The poll loop is bounded by fuel; one more than the bytes of the file is enough.
  \<^item> \<open>Task_Work\<close>, \<open>Queue_Worker\<close> (\<^verbatim>\<open>service/task_work_index.py\<close>, \<^verbatim>\<open>storage/queuefs\<close>): the index of queue work that belongs
    to tasks and the life of a message from enqueue to acknowledgement as a step relation over a durable queue;
    the counters of a queue, its two kinds of workers and clearing. Lemmas: the index equals a rebuild
    from the durable messages, the finalizer runs for the last work item and no other, a clear is all or nothing, and the
    in-progress count of the serial worker leaks.
  \<^item> \<open>Task_Sanitize\<close>, \<open>Task_Tracker\<close>, \<open>Task_Lifecycle\<close> (\<^verbatim>\<open>service/task_tracker.py\<close>, \<^verbatim>\<open>service/task_store.py\<close>): redaction
    of errors and results; the tracker over its cache, its store and the work index, with reads and writes
    that fail; runs of it as a guarded machine. Lemmas: tasks only move forward, records are consistent, one running task
    of a kind per resource, a terminal record before the last acknowledgement, and a cancellation that the cache forgets.
    A write that fails after it took effect is outside the runs these lemmas are about.
  \<^item> \<open>Abstract_Overview\<close> (\<^verbatim>\<open>storage/abstract_overview.py\<close>, \<^verbatim>\<open>storage/queuefs/semantic_ops/freshness_policy.py\<close>): the generated
    summaries of a directory, their protected metadata, and the counters of changes that have not been summarised. YAML is a
    parameter, and what rendering needs of it is \<open>yaml_faithful\<close>. Lemmas: a rendered document parses to what was rendered, a public write cannot change the
    metadata, a refresh forgets no change that arrived while it ran, samples span the directory.
  \<^item> \<open>Search_Tags\<close> (\<^verbatim>\<open>utils/tags.py\<close>): explicit tags as a dictionary in the text of a list.
  \<^item> \<open>Hierarchical\<close>, \<open>Retriever\<close> (\<^verbatim>\<open>retrieve/hierarchical_retriever.py\<close>, \<^verbatim>\<open>retrieve/memory_lifecycle.py\<close>): the best-first search of
    the directory tree with score propagation and convergence, the quick path, conversion and hotness, over a vector store that is a parameter.
    Lemmas: the search terminates on a finite index (fuel beyond the number of URIs is enough), what it returns is sound, a search that is not
    cut short is complete; and three ways in which it falls short of its comments.
  \<^item> \<open>Bytes_Row\<close>, \<open>Vector_Store\<close>, \<open>Vector_Tables\<close> (\<^verbatim>\<open>storage/vectordb/store\<close>): rows of bytes under a schema, candidates and deltas as
    rows, tables as key ranges of an ordered store with bounded page scans, and the operations of the store manager. The engine is an ordered
    list of keys with the semantics of the volatile engine (\<^verbatim>\<open>src/src/store/volatile_store.cpp\<close>). Lemmas: rows survive a growing schema, the paged
    scan ends and is the unbounded scan (with a termination proof, no fuel), and the store manager refines three tables of candidates, deltas and
    deadlines when clock readings have nineteen digits and deltas of different calls have different keys; two theorems show deadlines that are lost or outlive their record.
  \<^item> \<open>Index_Barrier\<close>, \<open>Vector_Recovery\<close> (\<^verbatim>\<open>storage/vectordb/collection/local_collection.py\<close>, \<^verbatim>\<open>storage/vectordb/index/local_index.py\<close>): the barrier
    between writers and index publication with its rebuilds and exclusive operations as interleaved steps, and a persistent index with its
    dumps, its delta log and crashes between any two steps. A collection has one index, which is its map from labels to entries, and the tables of
    \<open>Vector_Tables\<close> as its store. Lemmas: a published rebuild is current, index and store agree at rest, batched recovery is sequential replay, a crash loses
    nothing in an orderly run; and runs that are not orderly, in which the index and the store part.

  \<^bold>\<open>Conventions.\<close> A Python \<^verbatim>\<open>str\<close> is a \<open>string\<close> over the code points U+0000 to U+00FF where code compares and splits it, and a
  list of code points (\<open>ustr\<close>) where its length or weight in tokens matters. Python integers are \<open>int\<close>, floats are
  rationals (rounding is not modelled). An exception is a value (\<open>exn\<close>); its message is not modelled. Clocks, random
  numbers, object identities, hashes, the Unicode database and clients of external services are arguments.

  \<^bold>\<open>Loops.\<close> Recursions that are not structural have measures (URI parents, binary searches, the exception chain, escaping). The
  scroll loop over the vector engine and the polling loop of the wait tracker may run forever and are
  \<open>partial_function (option)\<close>; that they return is proved (\<open>scroll_all_returns_all\<close>, \<open>wait_for_request_returns\<close>). No definition uses fuel.

  \<^bold>\<open>Not modelled.\<close> The session runtime, memory extraction and training (driven by language-model output), parsers
  and accessors of documents (third-party libraries), the native vector and file systems, HTTP routers and middleware, clients, user interfaces,
  the bot and the benchmarks. Within modelled files: the JSON serialisation of messages, inspection of SDK exception classes, log
  messages and telemetry.
\<close>

section \<open>Properties across components\<close>

text \<open>
  The home alias always leads to the caller's own data: when a request URI that starts with
  \<^verbatim>\<open>viking://~\<close> passes validation and the result resolves, the result is accessible to the caller, whatever the role.
\<close>

theorem home_alias_accessible:
  assumes "ctx_ok ctx" and "validate_request_viking_uri u ctx allow_internal scopes = Ok w"
    and "uri_parts (strip_space u) = Ok (''~'' # rest)" and "resolve_uri w = Ok r"
  shows "uri_parts w = Ok (''user'' # rc_user_id ctx # rest) \<and> is_accessible w ctx = Ok True"
proof -
  obtain raw where raw: "validate_viking_uri u allow_internal scopes = Ok raw" "resolve_request_uri raw ctx = Ok w"
    using assms(2) unfolding validate_request_viking_uri_def
    by (cases "validate_viking_uri u allow_internal scopes"; cases "resolve_request_uri (projr (validate_viking_uri u allow_internal scopes)) ctx")
       (auto split: if_splits)
  then have "raw = strip_space u" using validate_viking_uri_Ok by blast
  then have "uri_parts w = Ok (''user'' # rc_user_id ctx # rest)"
    using resolve_home_alias [OF assms(1), of raw rest] assms(3) raw(2) by auto
  then show ?thesis using is_accessible_own [OF assms(4)] by blast
qed

theorem home_alias_accessible_witness:
  "is_accessible ''viking://user/ada/memories'' sample_ctx = Ok True"
proof -
  have "ctx_ok sample_ctx" "validate_request_viking_uri ''viking://~/memories '' sample_ctx False None = Ok ''viking://user/ada/memories''"
    "uri_parts (strip_space ''viking://~/memories '') = Ok [''~'', ''memories'']"
    "resolve_uri ''viking://user/ada/memories'' = Ok \<lparr>rn_uri = ''viking://user/ada/memories'', rn_scope = ''user'',
       rn_owner_user_id = Some ''ada'', rn_is_container = False\<rparr>" by code_simp+
  from home_alias_accessible [OF this] show ?thesis by blast
qed



text \<open>
  An oversized input never trips the breaker: an error whose text matches one of the patterns for
  inputs that are too large leaves the breaker exactly as it was, even when half open.
\<close>

theorem oversized_input_ignored:
  assumes "x_all_failed e = None" and "\<not> x_permanent_io e" and "x_cause e = None"
    and "any_pattern unidb INPUT_TOO_LARGE_PATTERNS [x_text e]"
  shows "record_failure b (classify_api_error unidb heap e) now = b"
  using assms by (simp add: classify_api_error_def cause_object_def classify_texts_def record_failure_def)

theorem oversized_input_ignored_witness:
  "record_failure (CircuitBreaker 1 30 None)
     (classify_api_error \<lparr>uc_lower = (\<lambda>c. [c]), uc_word = (\<lambda>_. True)\<rparr> []
        ((sample_exc None)\<lparr>x_text := codes ''Code: 413''\<rparr>)) 9 = CircuitBreaker 1 30 None"
proof -
  let ?db = "\<lparr>uc_lower = (\<lambda>c. [c]), uc_word = (\<lambda>_. True)\<rparr>"
  have "pattern_matches ?db (lower_text ?db (codes ''Code: 413'')) (remove_spaces (lower_text ?db (codes ''Code: 413''))) (codes ''413'')"
    by code_simp
  then have "any_pattern ?db INPUT_TOO_LARGE_PATTERNS [codes ''Code: 413'']"
    by (simp add: any_pattern_def INPUT_TOO_LARGE_PATTERNS_def Let_def)
  then show ?thesis
    using oversized_input_ignored [of "(sample_exc None)\<lparr>x_text := codes ''Code: 413''\<rparr>"]
    by (simp add: sample_exc_def)
qed

end
